(* ===== verification/CPrelude.thy ===== *)
theory CPrelude
  imports Main "HOL-Library.Word" "HOL-Library.Monad_Syntax"
begin

unbundle bit_operations_syntax

text \<open>
  What every component of the development shares: the machine types of the LP64
  little-endian targets the library is built for, the byte-addressed memory, the loop
  combinator \<open>crun\<close> with its total-correctness rule, and the generic lemmas.

  Conventions. A C function that returns \<open>bool\<close> becomes a function whose result is
  \<open>Some (ok, ...)\<close> with the changed state after the flag; \<open>None\<close> stands for
  everything the C standard leaves undefined (an access outside the accessible memory, a
  shift by the width of its type, a call through a null pointer) and for a loop that does
  not end. So a theorem that a call is \<open>Some _\<close> says that the call returns and that
  nothing undefined happens on the way.
\<close>

section \<open>Machine types\<close>

type_synonym byte = "8 word"
type_synonym u32 = "32 word"
type_synonym u64 = "64 word"
type_synonym addr = int

named_theorems mem_simps "rewriting of loads and stores"
named_theorems safe_intros "operations that return, keep the memory map and its frame"

section \<open>Memory\<close>

text \<open>
  A memory maps the accessible addresses to their bytes. An address is an unbounded
  integer: arithmetic that leaves the address space is undefined in C.
\<close>

type_synonym memory = "addr \<Rightarrow> byte option"

fun load_bytes :: "memory \<Rightarrow> addr \<Rightarrow> nat \<Rightarrow> byte list option" where
  "load_bytes m a 0 = Some []"
| "load_bytes m a (Suc n) =
     (case m a of None \<Rightarrow> None
      | Some b \<Rightarrow> (case load_bytes m (a + 1) n of None \<Rightarrow> None
                  | Some bs \<Rightarrow> Some (b # bs)))"

fun store_bytes :: "memory \<Rightarrow> addr \<Rightarrow> byte list \<Rightarrow> memory option" where
  "store_bytes m a [] = Some m"
| "store_bytes m a (b # bs) =
     (if m a = None then None else store_bytes (m(a \<mapsto> b)) (a + 1) bs)"

definition region :: "addr \<Rightarrow> nat \<Rightarrow> addr set" where
  "region a n = {a ..< a + int n}"

definition valid :: "memory \<Rightarrow> addr \<Rightarrow> nat \<Rightarrow> bool" where
  "valid m a n \<longleftrightarrow> region a n \<subseteq> dom m"

text \<open>Two memories with the same accessible addresses that agree outside a set.\<close>

definition same_outside :: "addr set \<Rightarrow> memory \<Rightarrow> memory \<Rightarrow> bool" where
  "same_outside R m m' \<longleftrightarrow> dom m' = dom m \<and> (\<forall>a. a \<notin> R \<longrightarrow> m' a = m a)"

lemma same_outside_refl [simp, intro]: "same_outside R m m"
  by (simp add: same_outside_def)

lemma same_outside_trans [trans]:
  "same_outside R m m' \<Longrightarrow> same_outside R m' m'' \<Longrightarrow> same_outside R m m''"
  by (simp add: same_outside_def)

lemma same_outside_mono: "same_outside R m m' \<Longrightarrow> R \<subseteq> S \<Longrightarrow> same_outside S m m'"
  by (auto simp: same_outside_def)

lemma same_outside_dom: "same_outside R m m' \<Longrightarrow> dom m' = dom m"
  by (simp add: same_outside_def)

lemma same_outside_valid: "same_outside R m m' \<Longrightarrow> valid m' a n = valid m a n"
  by (simp add: valid_def same_outside_dom)

lemma region_0 [simp]: "region a 0 = {}"
  by (simp add: region_def)

lemma region_Suc: "region a (Suc n) = insert a (region (a + 1) n)"
  by (auto simp: region_def)

lemma region_subset:
  "b \<le> a \<Longrightarrow> a + int n \<le> b + int k \<Longrightarrow> region a n \<subseteq> region b k"
  by (auto simp: region_def)

lemma valid_0 [simp]: "valid m a 0"
  by (simp add: valid_def)

lemma valid_Suc: "valid m a (Suc n) \<longleftrightarrow> m a \<noteq> None \<and> valid m (a + 1) n"
  by (auto simp: valid_def region_Suc)

lemma valid_mono:
  "valid m b k \<Longrightarrow> b \<le> a \<Longrightarrow> a + int n \<le> b + int k \<Longrightarrow> valid m a n"
  unfolding valid_def using region_subset by blast

lemma load_bytes_valid:
  "valid m a n \<Longrightarrow> \<exists>bs. load_bytes m a n = Some bs \<and> length bs = n"
proof (induction n arbitrary: a)
  case 0
  then show ?case by simp
next
  case (Suc n)
  then obtain b where "m a = Some b" and "valid m (a + 1) n" by (auto simp: valid_Suc)
  with Suc.IH [of "a + 1"] show ?case by auto
qed

lemma load_bytes_length: "load_bytes m a n = Some bs \<Longrightarrow> length bs = n"
  by (induction n arbitrary: a bs) (auto split: option.splits)

lemma load_bytes_cong:
  "(\<And>x. x \<in> region a n \<Longrightarrow> m' x = m x) \<Longrightarrow> load_bytes m' a n = load_bytes m a n"
proof (induction n arbitrary: a)
  case 0
  then show ?case by simp
next
  case (Suc n)
  have "load_bytes m' (a + 1) n = load_bytes m (a + 1) n"
    by (rule Suc.IH) (auto intro: Suc.prems simp: region_Suc)
  moreover have "m' a = m a" by (rule Suc.prems) (simp add: region_Suc)
  ultimately show ?case by (simp cong: option.case_cong)
qed

definition overwrite :: "memory \<Rightarrow> addr \<Rightarrow> byte list \<Rightarrow> memory" where
  "overwrite m a bs =
     (\<lambda>x. if a \<le> x \<and> x < a + int (length bs) then Some (bs ! nat (x - a)) else m x)"

lemma store_bytes_overwrite:
  "valid m a (length bs) \<Longrightarrow> store_bytes m a bs = Some (overwrite m a bs)"
proof (induction bs arbitrary: m a)
  case Nil
  then show ?case by (auto simp: overwrite_def fun_eq_iff)
next
  case (Cons b bs)
  from Cons.prems have ma: "m a \<noteq> None" and v: "valid m (a + 1) (length bs)"
    by (auto simp: valid_Suc)
  from v have "valid (m(a \<mapsto> b)) (a + 1) (length bs)" by (auto simp: valid_def)
  then have "store_bytes (m(a \<mapsto> b)) (a + 1) bs = Some (overwrite (m(a \<mapsto> b)) (a + 1) bs)"
    by (rule Cons.IH)
  moreover have "overwrite (m(a \<mapsto> b)) (a + 1) bs = overwrite m a (b # bs)"
  proof
    fix x
    show "overwrite (m(a \<mapsto> b)) (a + 1) bs x = overwrite m a (b # bs) x"
    proof (cases "x \<le> a")
      case True
      then show ?thesis by (auto simp: overwrite_def)
    next
      case False
      then have "nat (x - a) = Suc (nat (x - (a + 1)))" by simp
      with False show ?thesis by (auto simp: overwrite_def)
    qed
  qed
  ultimately show ?case using ma by simp
qed

lemma overwrite_same_outside:
  "valid m a (length bs) \<Longrightarrow> same_outside (region a (length bs)) m (overwrite m a bs)"
  by (auto simp: same_outside_def overwrite_def region_def valid_def dom_def split: if_splits)

lemma store_bytes_safe:
  "valid m a (length bs) \<Longrightarrow>
     \<exists>m'. store_bytes m a bs = Some m' \<and> same_outside (region a (length bs)) m m'"
  using store_bytes_overwrite overwrite_same_outside by blast

lemma load_overwrite_same [mem_simps]:
  "load_bytes (overwrite m a bs) a (length bs) = Some bs"
proof (induction bs arbitrary: m a)
  case Nil
  then show ?case by simp
next
  case (Cons b bs)
  have "load_bytes (overwrite m a (b # bs)) (a + 1) (length bs)
      = load_bytes (overwrite m (a + 1) bs) (a + 1) (length bs)"
  proof (rule load_bytes_cong)
    fix x assume x: "x \<in> region (a + 1) (length bs)"
    then have "nat (x - a) = Suc (nat (x - (a + 1)))" by (auto simp: region_def)
    with x show "overwrite m a (b # bs) x = overwrite m (a + 1) bs x"
      by (auto simp: overwrite_def region_def)
  qed
  then show ?case using Cons.IH [of m "a + 1"] by (simp add: overwrite_def)
qed

lemma load_overwrite_disjoint [mem_simps]:
  "region b n \<inter> region a (length bs) = {} \<Longrightarrow>
     load_bytes (overwrite m a bs) b n = load_bytes m b n"
  by (rule load_bytes_cong) (auto simp: overwrite_def region_def)

lemma load_overwrite_all: "length bs = n \<Longrightarrow> load_bytes (overwrite m a bs) a n = Some bs"
  using load_overwrite_same [of m a bs] by blast

text \<open>A block of zero bytes with nothing allocated around it, for concrete runs.\<close>

definition zero_memory :: "addr \<Rightarrow> nat \<Rightarrow> memory" where
  "zero_memory a n = (\<lambda>x. if x \<in> region a n then Some 0 else None)"

lemma valid_zero_memory: "valid (zero_memory a n) a n"
  by (auto simp: valid_def zero_memory_def)

section \<open>Little-endian integers\<close>

fun le_val :: "byte list \<Rightarrow> nat" where
  "le_val [] = 0"
| "le_val (b # bs) = unat b + 256 * le_val bs"

fun le_rep :: "nat \<Rightarrow> nat \<Rightarrow> byte list" where
  "le_rep 0 v = []"
| "le_rep (Suc n) v = word_of_nat v # le_rep n (v div 256)"

lemma length_le_rep [simp]: "length (le_rep n v) = n"
  by (induction n arbitrary: v) auto

lemma unat_byte: "unat (b :: byte) < 256"
  using unsigned_less [of b, where ?'a = nat] by simp

lemma le_val_bound: "le_val bs < 256 ^ length bs"
proof (induction bs)
  case Nil
  then show ?case by simp
next
  case (Cons b bs)
  have "unat b < 256" by (rule unat_byte)
  with Cons show ?case by simp
qed

lemma le_val_le_rep [mem_simps]: "le_val (le_rep n v) = v mod 256 ^ n"
proof (induction n arbitrary: v)
  case 0
  then show ?case by simp
next
  case (Suc n)
  have "unat (word_of_nat v :: byte) = v mod 256" by (simp add: unat_of_nat)
  then show ?case using Suc by (simp add: mod_mult2_eq)
qed

lemma le_rep_le_val [mem_simps]: "le_rep (length bs) (le_val bs) = bs"
proof (induction bs)
  case Nil
  then show ?case by simp
next
  case (Cons b bs)
  have b: "unat b < 256" by (rule unat_byte)
  then have "(unat b + 256 * le_val bs) div 256 = le_val bs" by simp
  moreover have "(word_of_nat (unat b + 256 * le_val bs) :: byte) = b"
  proof -
    have "(256 :: byte) = 0" by simp
    then show ?thesis by (simp only: of_nat_add of_nat_mult of_nat_numeral) simp
  qed
  ultimately show ?case using Cons by simp
qed

text \<open>A load of an unsigned and of a signed integer of \<open>n\<close> bytes, and a store of one.\<close>

definition load_uint :: "memory \<Rightarrow> addr \<Rightarrow> nat \<Rightarrow> nat option" where
  "load_uint m a n = map_option le_val (load_bytes m a n)"

definition to_signed :: "nat \<Rightarrow> nat \<Rightarrow> int" where
  "to_signed n v = (if v < 2 ^ (8 * n - 1) then int v else int v - 2 ^ (8 * n))"

definition load_sint :: "memory \<Rightarrow> addr \<Rightarrow> nat \<Rightarrow> int option" where
  "load_sint m a n = map_option (to_signed n) (load_uint m a n)"

definition store_uint :: "memory \<Rightarrow> addr \<Rightarrow> nat \<Rightarrow> nat \<Rightarrow> memory option" where
  "store_uint m a n v = store_bytes m a (le_rep n v)"

lemma load_uint_valid:
  "valid m a n \<Longrightarrow> \<exists>v. load_uint m a n = Some v \<and> v < 256 ^ n"
  unfolding load_uint_def using load_bytes_valid [of m a n] le_val_bound by fastforce

lemma load_sint_valid: "valid m a n \<Longrightarrow> \<exists>v. load_sint m a n = Some v"
  unfolding load_sint_def using load_uint_valid [of m a n] by auto

lemma store_uint_safe:
  "valid m a n \<Longrightarrow> \<exists>m'. store_uint m a n v = Some m' \<and> same_outside (region a n) m m'"
  unfolding store_uint_def using store_bytes_safe [of m a "le_rep n v"] by simp

section \<open>Loops\<close>

text \<open>
  One turn of a C loop either goes on with a new state of the loop's variables or leaves
  the loop (by its condition, a \<open>break\<close> or a \<open>return\<close>) with a result. \<open>crun\<close>
  repeats it; a loop that does not end is \<open>None\<close>.
\<close>

datatype ('s, 'r) turn = Continue 's | Leave 'r

partial_function (option) crun :: "('s \<Rightarrow> ('s, 'r) turn option) \<Rightarrow> 's \<Rightarrow> 'r option" where
  "crun body s =
     (case body s of None \<Rightarrow> None
      | Some t \<Rightarrow> (case t of Continue s' \<Rightarrow> crun body s' | Leave r \<Rightarrow> Some r))"

text \<open>
  The total-correctness rule: a turn from a state in the invariant \<open>I\<close> is defined, and
  either re-establishes \<open>I\<close> with a smaller measure or leaves with a result in \<open>Q\<close>.
\<close>

lemma crun_total:
  fixes f :: "'s \<Rightarrow> nat"
  assumes start: "I s"
    and step: "\<And>s. I s \<Longrightarrow> (\<exists>s'. body s = Some (Continue s') \<and> I s' \<and> f s' < f s)
                             \<or> (\<exists>r. body s = Some (Leave r) \<and> Q r)"
  shows "\<exists>r. crun body s = Some r \<and> Q r"
  using start
proof (induction "f s" arbitrary: s rule: less_induct)
  case less
  from step [OF \<open>I s\<close>] consider
      (go) s' where "body s = Some (Continue s')" and "I s'" and "f s' < f s"
    | (out) r where "body s = Some (Leave r)" and "Q r"
    by blast
  then show ?case
  proof cases
    case go
    from less.hyps [OF \<open>f s' < f s\<close> \<open>I s'\<close>] show ?thesis
      using go by (simp add: crun.simps [of body s])
  next
    case out
    then show ?thesis by (simp add: crun.simps [of body s])
  qed
qed

text \<open>The same rule with the turn's outcome in one case distinction.\<close>

lemma crun_rule:
  fixes f :: "'s \<Rightarrow> nat"
  assumes "I s"
    and "\<And>s. I s \<Longrightarrow> \<exists>t. body s = Some t \<and>
              (case t of Continue s' \<Rightarrow> I s' \<and> f s' < f s | Leave r \<Rightarrow> Q r)"
  shows "\<exists>r. crun body s = Some r \<and> Q r"
proof (rule crun_total [where I = I and f = f, OF assms(1)])
  fix s assume "I s"
  with assms(2) obtain t where "body s = Some t"
    "case t of Continue s' \<Rightarrow> I s' \<and> f s' < f s | Leave r \<Rightarrow> Q r"
    by blast
  then show "(\<exists>s'. body s = Some (Continue s') \<and> I s' \<and> f s' < f s)
           \<or> (\<exists>r. body s = Some (Leave r) \<and> Q r)"
    by (cases t) auto
qed

lemma crun_Continue: "body s = Some (Continue s') \<Longrightarrow> crun body s = crun body s'"
  by (simp add: crun.simps [of body s])

lemma crun_Leave: "body s = Some (Leave r) \<Longrightarrow> crun body s = Some r"
  by (simp add: crun.simps [of body s])

lemma crun_None: "body s = None \<Longrightarrow> crun body s = None"
  by (simp add: crun.simps [of body s])

end
