(* ===== verification/PbTypes.thy ===== *)
theory PbTypes
  imports CPrelude
begin

text \<open>
  The data of the nanopb library: the constants, the field descriptors and the macros that
  build them (\<open>pb.h\<close>), and the two stream structures (\<open>pb_decode.h\<close>,
  \<open>pb_encode.h\<close>).

  The build configuration is the one of the pod: \<open>PB_FIELD_32BIT\<close> and
  \<open>PB_NO_PACKED_STRUCTS\<close> are defined; \<open>PB_ENABLE_MALLOC\<close>, \<open>PB_NO_ERRMSG\<close>,
  \<open>PB_BUFFER_ONLY\<close> and \<open>PB_OLD_CALLBACK_STYLE\<close> are not. So \<open>pb_size_t\<close>
  has 32 bits, and quantities of that type are naturals whose arithmetic is written with
  \<open>mod 2 ^ 32\<close> where the code's could wrap.
\<close>

section \<open>Field types\<close>

abbreviation (input) PB_MAX_REQUIRED_FIELDS :: nat where "PB_MAX_REQUIRED_FIELDS \<equiv> 64"

type_synonym pb_type_t = "8 word"

abbreviation (input) PB_LTYPE_VARINT :: pb_type_t where "PB_LTYPE_VARINT \<equiv> 0x00"
abbreviation (input) PB_LTYPE_UVARINT :: pb_type_t where "PB_LTYPE_UVARINT \<equiv> 0x01"
abbreviation (input) PB_LTYPE_SVARINT :: pb_type_t where "PB_LTYPE_SVARINT \<equiv> 0x02"
abbreviation (input) PB_LTYPE_FIXED32 :: pb_type_t where "PB_LTYPE_FIXED32 \<equiv> 0x03"
abbreviation (input) PB_LTYPE_FIXED64 :: pb_type_t where "PB_LTYPE_FIXED64 \<equiv> 0x04"
abbreviation (input) PB_LTYPE_LAST_PACKABLE :: pb_type_t where "PB_LTYPE_LAST_PACKABLE \<equiv> 0x04"
abbreviation (input) PB_LTYPE_BYTES :: pb_type_t where "PB_LTYPE_BYTES \<equiv> 0x05"
abbreviation (input) PB_LTYPE_STRING :: pb_type_t where "PB_LTYPE_STRING \<equiv> 0x06"
abbreviation (input) PB_LTYPE_SUBMESSAGE :: pb_type_t where "PB_LTYPE_SUBMESSAGE \<equiv> 0x07"
abbreviation (input) PB_LTYPE_EXTENSION :: pb_type_t where "PB_LTYPE_EXTENSION \<equiv> 0x08"
abbreviation (input) PB_LTYPE_FIXED_LENGTH_BYTES :: pb_type_t where "PB_LTYPE_FIXED_LENGTH_BYTES \<equiv> 0x09"
abbreviation (input) PB_LTYPES_COUNT :: nat where "PB_LTYPES_COUNT \<equiv> 0x0A"
abbreviation (input) PB_LTYPE_MASK :: pb_type_t where "PB_LTYPE_MASK \<equiv> 0x0F"

abbreviation (input) PB_HTYPE_REQUIRED :: pb_type_t where "PB_HTYPE_REQUIRED \<equiv> 0x00"
abbreviation (input) PB_HTYPE_OPTIONAL :: pb_type_t where "PB_HTYPE_OPTIONAL \<equiv> 0x10"
abbreviation (input) PB_HTYPE_REPEATED :: pb_type_t where "PB_HTYPE_REPEATED \<equiv> 0x20"
abbreviation (input) PB_HTYPE_ONEOF :: pb_type_t where "PB_HTYPE_ONEOF \<equiv> 0x30"
abbreviation (input) PB_HTYPE_MASK :: pb_type_t where "PB_HTYPE_MASK \<equiv> 0x30"

abbreviation (input) PB_ATYPE_STATIC :: pb_type_t where "PB_ATYPE_STATIC \<equiv> 0x00"
abbreviation (input) PB_ATYPE_POINTER :: pb_type_t where "PB_ATYPE_POINTER \<equiv> 0x80"
abbreviation (input) PB_ATYPE_CALLBACK :: pb_type_t where "PB_ATYPE_CALLBACK \<equiv> 0x40"
abbreviation (input) PB_ATYPE_MASK :: pb_type_t where "PB_ATYPE_MASK \<equiv> 0xC0"

definition PB_ATYPE :: "pb_type_t \<Rightarrow> pb_type_t" where
  "PB_ATYPE x = x AND PB_ATYPE_MASK"

definition PB_HTYPE :: "pb_type_t \<Rightarrow> pb_type_t" where
  "PB_HTYPE x = x AND PB_HTYPE_MASK"

definition PB_LTYPE :: "pb_type_t \<Rightarrow> pb_type_t" where
  "PB_LTYPE x = x AND PB_LTYPE_MASK"

abbreviation (input) PB_SIZE_MAX :: nat where "PB_SIZE_MAX \<equiv> 0xFFFFFFFF"

abbreviation (input) PB_WT_VARINT :: nat where "PB_WT_VARINT \<equiv> 0"
abbreviation (input) PB_WT_64BIT :: nat where "PB_WT_64BIT \<equiv> 1"
abbreviation (input) PB_WT_STRING :: nat where "PB_WT_STRING \<equiv> 2"
abbreviation (input) PB_WT_32BIT :: nat where "PB_WT_32BIT \<equiv> 5"

section \<open>Field descriptors\<close>

text \<open>
  The C structure \<open>pb_field_t\<close> refers to itself through its pointer member, so it is a
  datatype. A descriptor array is the list of its entries before the terminator
  \<open>PB_LAST_FIELD\<close>. The pointer is null, the descriptors of a submessage, or the bytes
  of a default value (whose type the code knows from \<open>ltype\<close>).
\<close>

datatype pb_field =
  Pb_field (tag: u32) (ftype: pb_type_t) (data_offset: nat) (size_offset: int)
    (data_size: nat) (array_size: nat) (fptr: pb_ptr)
and pb_ptr = Pb_null | Pb_fields "pb_field list" | Pb_default "byte list"

definition PB_LAST_FIELD :: pb_field where
  "PB_LAST_FIELD = Pb_field 0 0 0 0 0 0 Pb_null"

text \<open>What the code sees at index \<open>i\<close> of a descriptor array.\<close>

definition field_at :: "pb_field list \<Rightarrow> nat \<Rightarrow> pb_field" where
  "field_at fs i = (if i < length fs then fs ! i else PB_LAST_FIELD)"

text \<open>
  The size of a \<open>pb_bytes_array_t\<close> with \<open>n\<close> bytes: its \<open>bytes\<close> member follows
  the four bytes of \<open>size\<close>. The sum is a \<open>size_t\<close>.
\<close>

definition PB_BYTES_ARRAY_T_ALLOCSIZE :: "nat \<Rightarrow> nat" where
  "PB_BYTES_ARRAY_T_ALLOCSIZE n = (n + 4) mod 2 ^ 64"

subsection \<open>The macros that write descriptors\<close>

text \<open>
  A member of a C structure, as the macros see it: its offset, its size, the size of its
  element where it is an array, and the offset of its companion \<open>has_\<close>, \<open>_count\<close>
  or \<open>which_\<close> member.
\<close>

record cmember =
  m_offset :: nat
  m_size :: nat
  m_elem :: nat
  m_companion :: nat

definition pb_arraysize :: "cmember \<Rightarrow> nat" where
  "pb_arraysize m = m_size m div m_elem m"

definition pb_delta :: "nat \<Rightarrow> nat \<Rightarrow> int" where
  "pb_delta off1 off2 = int off1 - int off2"

datatype placement = FIRST | OTHER | UNION

text \<open>
  The \<open>data_offset\<close> of a member \<open>m\<close> after the member \<open>p\<close>. The subtraction is
  done in \<open>size_t\<close> and stored in a \<open>pb_size_t\<close>.
\<close>

definition PB_DATAOFFSET_FIRST :: "cmember \<Rightarrow> cmember \<Rightarrow> nat" where
  "PB_DATAOFFSET_FIRST m p = m_offset m"

definition PB_DATAOFFSET_OTHER :: "cmember \<Rightarrow> cmember \<Rightarrow> nat" where
  "PB_DATAOFFSET_OTHER m p =
     nat ((int (m_offset m) - int (m_offset p) - int (m_size p)) mod 2 ^ 32)"

definition PB_DATAOFFSET_UNION :: "cmember \<Rightarrow> cmember \<Rightarrow> nat" where
  "PB_DATAOFFSET_UNION m p = PB_SIZE_MAX"

definition PB_DATAOFFSET_CHOOSE :: "cmember \<Rightarrow> cmember \<Rightarrow> nat" where
  "PB_DATAOFFSET_CHOOSE m p =
     (if m_offset m = m_offset p then PB_DATAOFFSET_FIRST m p else PB_DATAOFFSET_OTHER m p)"

definition PB_REQUIRED_STATIC ::
    "u32 \<Rightarrow> cmember \<Rightarrow> nat \<Rightarrow> pb_type_t \<Rightarrow> pb_ptr \<Rightarrow> pb_field" where
  "PB_REQUIRED_STATIC t m fd ltype p =
     Pb_field t (PB_ATYPE_STATIC OR PB_HTYPE_REQUIRED OR ltype) fd 0 (m_size m) 0 p"

definition PB_OPTIONAL_STATIC ::
    "u32 \<Rightarrow> cmember \<Rightarrow> nat \<Rightarrow> pb_type_t \<Rightarrow> pb_ptr \<Rightarrow> pb_field" where
  "PB_OPTIONAL_STATIC t m fd ltype p =
     Pb_field t (PB_ATYPE_STATIC OR PB_HTYPE_OPTIONAL OR ltype) fd
       (pb_delta (m_companion m) (m_offset m)) (m_size m) 0 p"

definition PB_SINGULAR_STATIC ::
    "u32 \<Rightarrow> cmember \<Rightarrow> nat \<Rightarrow> pb_type_t \<Rightarrow> pb_ptr \<Rightarrow> pb_field" where
  "PB_SINGULAR_STATIC t m fd ltype p =
     Pb_field t (PB_ATYPE_STATIC OR PB_HTYPE_OPTIONAL OR ltype) fd 0 (m_size m) 0 p"

definition PB_REPEATED_STATIC ::
    "u32 \<Rightarrow> cmember \<Rightarrow> nat \<Rightarrow> pb_type_t \<Rightarrow> pb_ptr \<Rightarrow> pb_field" where
  "PB_REPEATED_STATIC t m fd ltype p =
     Pb_field t (PB_ATYPE_STATIC OR PB_HTYPE_REPEATED OR ltype) fd
       (pb_delta (m_companion m) (m_offset m)) (m_elem m) (pb_arraysize m) p"

definition PB_REQUIRED_POINTER ::
    "u32 \<Rightarrow> cmember \<Rightarrow> nat \<Rightarrow> pb_type_t \<Rightarrow> pb_ptr \<Rightarrow> pb_field" where
  "PB_REQUIRED_POINTER t m fd ltype p =
     Pb_field t (PB_ATYPE_POINTER OR PB_HTYPE_REQUIRED OR ltype) fd 0 (m_elem m) 0 p"

definition PB_OPTIONAL_POINTER ::
    "u32 \<Rightarrow> cmember \<Rightarrow> nat \<Rightarrow> pb_type_t \<Rightarrow> pb_ptr \<Rightarrow> pb_field" where
  "PB_OPTIONAL_POINTER t m fd ltype p =
     Pb_field t (PB_ATYPE_POINTER OR PB_HTYPE_OPTIONAL OR ltype) fd 0 (m_elem m) 0 p"

definition PB_SINGULAR_POINTER ::
    "u32 \<Rightarrow> cmember \<Rightarrow> nat \<Rightarrow> pb_type_t \<Rightarrow> pb_ptr \<Rightarrow> pb_field" where
  "PB_SINGULAR_POINTER t m fd ltype p =
     Pb_field t (PB_ATYPE_POINTER OR PB_HTYPE_OPTIONAL OR ltype) fd 0 (m_elem m) 0 p"

definition PB_REPEATED_POINTER ::
    "u32 \<Rightarrow> cmember \<Rightarrow> nat \<Rightarrow> pb_type_t \<Rightarrow> pb_ptr \<Rightarrow> pb_field" where
  "PB_REPEATED_POINTER t m fd ltype p =
     Pb_field t (PB_ATYPE_POINTER OR PB_HTYPE_REPEATED OR ltype) fd
       (pb_delta (m_companion m) (m_offset m)) (m_elem m) 0 p"

definition PB_REQUIRED_CALLBACK ::
    "u32 \<Rightarrow> cmember \<Rightarrow> nat \<Rightarrow> pb_type_t \<Rightarrow> pb_ptr \<Rightarrow> pb_field" where
  "PB_REQUIRED_CALLBACK t m fd ltype p =
     Pb_field t (PB_ATYPE_CALLBACK OR PB_HTYPE_REQUIRED OR ltype) fd 0 (m_size m) 0 p"

definition PB_OPTIONAL_CALLBACK ::
    "u32 \<Rightarrow> cmember \<Rightarrow> nat \<Rightarrow> pb_type_t \<Rightarrow> pb_ptr \<Rightarrow> pb_field" where
  "PB_OPTIONAL_CALLBACK t m fd ltype p =
     Pb_field t (PB_ATYPE_CALLBACK OR PB_HTYPE_OPTIONAL OR ltype) fd 0 (m_size m) 0 p"

definition PB_SINGULAR_CALLBACK ::
    "u32 \<Rightarrow> cmember \<Rightarrow> nat \<Rightarrow> pb_type_t \<Rightarrow> pb_ptr \<Rightarrow> pb_field" where
  "PB_SINGULAR_CALLBACK t m fd ltype p =
     Pb_field t (PB_ATYPE_CALLBACK OR PB_HTYPE_OPTIONAL OR ltype) fd 0 (m_size m) 0 p"

definition PB_REPEATED_CALLBACK ::
    "u32 \<Rightarrow> cmember \<Rightarrow> nat \<Rightarrow> pb_type_t \<Rightarrow> pb_ptr \<Rightarrow> pb_field" where
  "PB_REPEATED_CALLBACK t m fd ltype p =
     Pb_field t (PB_ATYPE_CALLBACK OR PB_HTYPE_REPEATED OR ltype) fd 0 (m_size m) 0 p"

definition PB_OPTEXT_STATIC ::
    "u32 \<Rightarrow> cmember \<Rightarrow> nat \<Rightarrow> pb_type_t \<Rightarrow> pb_ptr \<Rightarrow> pb_field" where
  "PB_OPTEXT_STATIC t m fd ltype p =
     Pb_field t (PB_ATYPE_STATIC OR PB_HTYPE_REQUIRED OR ltype) 0 0 (m_size m) 0 p"

definition PB_OPTEXT_POINTER ::
    "u32 \<Rightarrow> cmember \<Rightarrow> nat \<Rightarrow> pb_type_t \<Rightarrow> pb_ptr \<Rightarrow> pb_field" where
  "PB_OPTEXT_POINTER t m fd ltype p = PB_OPTIONAL_POINTER t m fd ltype p"

definition PB_OPTEXT_CALLBACK ::
    "u32 \<Rightarrow> cmember \<Rightarrow> nat \<Rightarrow> pb_type_t \<Rightarrow> pb_ptr \<Rightarrow> pb_field" where
  "PB_OPTEXT_CALLBACK t m fd ltype p = PB_OPTIONAL_CALLBACK t m fd ltype p"

definition PB_ONEOF_STATIC ::
    "u32 \<Rightarrow> cmember \<Rightarrow> nat \<Rightarrow> pb_type_t \<Rightarrow> pb_ptr \<Rightarrow> pb_field" where
  "PB_ONEOF_STATIC t m fd ltype p =
     Pb_field t (PB_ATYPE_STATIC OR PB_HTYPE_ONEOF OR ltype) fd
       (pb_delta (m_companion m) (m_offset m)) (m_size m) 0 p"

definition PB_ONEOF_POINTER ::
    "u32 \<Rightarrow> cmember \<Rightarrow> nat \<Rightarrow> pb_type_t \<Rightarrow> pb_ptr \<Rightarrow> pb_field" where
  "PB_ONEOF_POINTER t m fd ltype p =
     Pb_field t (PB_ATYPE_POINTER OR PB_HTYPE_ONEOF OR ltype) fd
       (pb_delta (m_companion m) (m_offset m)) (m_elem m) 0 p"

text \<open>The protobuf types, and the kind of storage each one has.\<close>

datatype proto_type =
  BOOL | BYTES | DOUBLE | ENUM | UENUM | FIXED32 | FIXED64 | FLOAT | INT32 | INT64
  | MESSAGE | SFIXED32 | SFIXED64 | SINT32 | SINT64 | STRING | UINT32 | UINT64
  | EXTENSION | FIXED_LENGTH_BYTES

fun PB_LTYPE_MAP :: "proto_type \<Rightarrow> pb_type_t" where
  "PB_LTYPE_MAP BOOL = PB_LTYPE_VARINT"
| "PB_LTYPE_MAP BYTES = PB_LTYPE_BYTES"
| "PB_LTYPE_MAP DOUBLE = PB_LTYPE_FIXED64"
| "PB_LTYPE_MAP ENUM = PB_LTYPE_VARINT"
| "PB_LTYPE_MAP UENUM = PB_LTYPE_UVARINT"
| "PB_LTYPE_MAP FIXED32 = PB_LTYPE_FIXED32"
| "PB_LTYPE_MAP FIXED64 = PB_LTYPE_FIXED64"
| "PB_LTYPE_MAP FLOAT = PB_LTYPE_FIXED32"
| "PB_LTYPE_MAP INT32 = PB_LTYPE_VARINT"
| "PB_LTYPE_MAP INT64 = PB_LTYPE_VARINT"
| "PB_LTYPE_MAP MESSAGE = PB_LTYPE_SUBMESSAGE"
| "PB_LTYPE_MAP SFIXED32 = PB_LTYPE_FIXED32"
| "PB_LTYPE_MAP SFIXED64 = PB_LTYPE_FIXED64"
| "PB_LTYPE_MAP SINT32 = PB_LTYPE_SVARINT"
| "PB_LTYPE_MAP SINT64 = PB_LTYPE_SVARINT"
| "PB_LTYPE_MAP STRING = PB_LTYPE_STRING"
| "PB_LTYPE_MAP UINT32 = PB_LTYPE_UVARINT"
| "PB_LTYPE_MAP UINT64 = PB_LTYPE_UVARINT"
| "PB_LTYPE_MAP EXTENSION = PB_LTYPE_EXTENSION"
| "PB_LTYPE_MAP FIXED_LENGTH_BYTES = PB_LTYPE_FIXED_LENGTH_BYTES"

datatype field_rules = REQUIRED | OPTIONAL | SINGULAR | REPEATED | OPTEXT
datatype allocation = STATIC | POINTER | CALLBACK

fun PB_DATAOFFSET :: "placement \<Rightarrow> cmember \<Rightarrow> cmember \<Rightarrow> nat" where
  "PB_DATAOFFSET FIRST m p = PB_DATAOFFSET_FIRST m p"
| "PB_DATAOFFSET OTHER m p = PB_DATAOFFSET_OTHER m p"
| "PB_DATAOFFSET UNION m p = PB_DATAOFFSET_UNION m p"

fun PB_RULES_ALLOCATION :: "field_rules \<Rightarrow> allocation \<Rightarrow>
    u32 \<Rightarrow> cmember \<Rightarrow> nat \<Rightarrow> pb_type_t \<Rightarrow> pb_ptr \<Rightarrow> pb_field" where
  "PB_RULES_ALLOCATION REQUIRED STATIC = PB_REQUIRED_STATIC"
| "PB_RULES_ALLOCATION OPTIONAL STATIC = PB_OPTIONAL_STATIC"
| "PB_RULES_ALLOCATION SINGULAR STATIC = PB_SINGULAR_STATIC"
| "PB_RULES_ALLOCATION REPEATED STATIC = PB_REPEATED_STATIC"
| "PB_RULES_ALLOCATION OPTEXT STATIC = PB_OPTEXT_STATIC"
| "PB_RULES_ALLOCATION REQUIRED POINTER = PB_REQUIRED_POINTER"
| "PB_RULES_ALLOCATION OPTIONAL POINTER = PB_OPTIONAL_POINTER"
| "PB_RULES_ALLOCATION SINGULAR POINTER = PB_SINGULAR_POINTER"
| "PB_RULES_ALLOCATION REPEATED POINTER = PB_REPEATED_POINTER"
| "PB_RULES_ALLOCATION OPTEXT POINTER = PB_OPTEXT_POINTER"
| "PB_RULES_ALLOCATION REQUIRED CALLBACK = PB_REQUIRED_CALLBACK"
| "PB_RULES_ALLOCATION OPTIONAL CALLBACK = PB_OPTIONAL_CALLBACK"
| "PB_RULES_ALLOCATION SINGULAR CALLBACK = PB_SINGULAR_CALLBACK"
| "PB_RULES_ALLOCATION REPEATED CALLBACK = PB_REPEATED_CALLBACK"
| "PB_RULES_ALLOCATION OPTEXT CALLBACK = PB_OPTEXT_CALLBACK"

definition PB_FIELD :: "u32 \<Rightarrow> proto_type \<Rightarrow> field_rules \<Rightarrow> allocation \<Rightarrow> placement \<Rightarrow>
    cmember \<Rightarrow> cmember \<Rightarrow> pb_ptr \<Rightarrow> pb_field" where
  "PB_FIELD t ty rules alloc pl m prev p =
     PB_RULES_ALLOCATION rules alloc t m (PB_DATAOFFSET pl m prev) (PB_LTYPE_MAP ty) p"

text \<open>A member of a union is static or a pointer: there is no macro for a callback, and the rules of the field are not used.\<close>

fun PB_ONEOF_ALLOCATION :: "allocation \<Rightarrow> u32 \<Rightarrow> cmember \<Rightarrow> nat \<Rightarrow> pb_type_t \<Rightarrow> pb_ptr \<Rightarrow> pb_field option" where
  "PB_ONEOF_ALLOCATION STATIC t m fd ltype p = Some (PB_ONEOF_STATIC t m fd ltype p)"
| "PB_ONEOF_ALLOCATION POINTER t m fd ltype p = Some (PB_ONEOF_POINTER t m fd ltype p)"
| "PB_ONEOF_ALLOCATION CALLBACK t m fd ltype p = None"

definition PB_ONEOF_FIELD :: "u32 \<Rightarrow> proto_type \<Rightarrow> field_rules \<Rightarrow> allocation \<Rightarrow> placement \<Rightarrow>
    cmember \<Rightarrow> cmember \<Rightarrow> pb_ptr \<Rightarrow> pb_field option" where
  "PB_ONEOF_FIELD t ty rules alloc pl m prev p =
     PB_ONEOF_ALLOCATION alloc t m (PB_DATAOFFSET pl m prev) (PB_LTYPE_MAP ty) p"

section \<open>Streams and user code\<close>

text \<open>
  The state the library and the user's callbacks act on: the memory, and whatever else
  the user's code keeps.
\<close>

record 'w cstate =
  hmem :: memory
  user :: 'w

text \<open>
  An input stream has a callback and a \<open>state\<close> pointer for it. With the library's own
  callback \<open>buf_read\<close> the pointer points into a constant buffer, and the model keeps
  the bytes of the buffer from the pointer on. A user's callback gets the pointer and the
  number of bytes, and gives its flag, what it put into the destination, and the new
  pointer. (The header forbids it to rely on the stream's \<open>bytes_left\<close>.)
\<close>

type_synonym 'w read_callback =
  "addr \<Rightarrow> nat \<Rightarrow> 'w cstate \<Rightarrow> (bool \<times> (nat \<Rightarrow> byte) \<times> addr \<times> 'w cstate) option"

datatype 'w isource = Buffer "byte list" | Custom "'w read_callback" addr

record 'w pb_istream =
  source :: "'w isource"
  bytes_left :: nat
  errmsg :: "string option"

text \<open>
  An output stream has no callback (a sizing stream, which only counts), the library's
  \<open>buf_write\<close> with a pointer to where the next byte goes, or a user's callback.
\<close>

type_synonym 'w write_callback =
  "addr \<Rightarrow> byte list \<Rightarrow> 'w cstate \<Rightarrow> (bool \<times> addr \<times> 'w cstate) option"

datatype 'w osink = Sizing | Buffer_out addr | Custom_out "'w write_callback" addr

record 'w pb_ostream =
  sink :: "'w osink"
  max_size :: nat
  bytes_written :: nat
  oerrmsg :: "string option"

text \<open>
  The functions behind the function pointers of a message: \<open>decode_callback\<close> and
  \<open>encode_callback\<close> give the function at a code address that a \<open>pb_callback_t\<close>
  holds, \<open>extension_type\<close> the structure at the address that a \<open>pb_extension_t\<close>
  holds in its \<open>type\<close> member.
\<close>

type_synonym 'w decode_callback =
  "'w pb_istream \<Rightarrow> pb_field \<Rightarrow> addr \<Rightarrow> 'w cstate \<Rightarrow> (bool \<times> 'w pb_istream \<times> 'w cstate) option"

type_synonym 'w encode_callback =
  "'w pb_ostream \<Rightarrow> pb_field \<Rightarrow> addr \<Rightarrow> 'w cstate \<Rightarrow> (bool \<times> 'w pb_ostream \<times> 'w cstate) option"

record 'w pb_extension_type =
  ext_decode :: "('w pb_istream \<Rightarrow> addr \<Rightarrow> u32 \<Rightarrow> nat \<Rightarrow> 'w cstate
                   \<Rightarrow> (bool \<times> 'w pb_istream \<times> 'w cstate) option) option"
  ext_encode :: "('w pb_ostream \<Rightarrow> addr \<Rightarrow> 'w cstate
                   \<Rightarrow> (bool \<times> 'w pb_ostream \<times> 'w cstate) option) option"
  ext_arg :: pb_field

record 'w penv =
  decode_callback :: "addr \<Rightarrow> 'w decode_callback"
  encode_callback :: "addr \<Rightarrow> 'w encode_callback"
  extension_type :: "addr \<Rightarrow> 'w pb_extension_type"

text \<open>Offsets of the members of \<open>pb_callback_t\<close> and \<open>pb_extension_t\<close>.\<close>

abbreviation (input) callback_funcs :: "addr \<Rightarrow> addr" where "callback_funcs p \<equiv> p"
abbreviation (input) callback_arg :: "addr \<Rightarrow> addr" where "callback_arg p \<equiv> p + 8"
abbreviation (input) extension_type_at :: "addr \<Rightarrow> addr" where "extension_type_at p \<equiv> p"
abbreviation (input) extension_dest :: "addr \<Rightarrow> addr" where "extension_dest p \<equiv> p + 8"
abbreviation (input) extension_next :: "addr \<Rightarrow> addr" where "extension_next p \<equiv> p + 16"
abbreviation (input) extension_found :: "addr \<Rightarrow> addr" where "extension_found p \<equiv> p + 24"

definition load_ptr :: "memory \<Rightarrow> addr \<Rightarrow> addr option" where
  "load_ptr m a = map_option int (load_uint m a 8)"

text \<open>\<open>PB_SET_ERROR\<close>: the first message stays.\<close>

definition set_error :: "'w pb_istream \<Rightarrow> string \<Rightarrow> 'w pb_istream" where
  "set_error s msg = s\<lparr>errmsg := (case errmsg s of None \<Rightarrow> Some msg | Some e \<Rightarrow> Some e)\<rparr>"

definition oset_error :: "'w pb_ostream \<Rightarrow> string \<Rightarrow> 'w pb_ostream" where
  "oset_error s msg = s\<lparr>oerrmsg := (case oerrmsg s of None \<Rightarrow> Some msg | Some e \<Rightarrow> Some e)\<rparr>"

lemma set_error_simps [simp]:
  "source (set_error s msg) = source s"
  "bytes_left (set_error s msg) = bytes_left s"
  by (simp_all add: set_error_def)

lemma oset_error_simps [simp]:
  "sink (oset_error s msg) = sink s"
  "max_size (oset_error s msg) = max_size s"
  "bytes_written (oset_error s msg) = bytes_written s"
  by (simp_all add: oset_error_def)

section \<open>Facts about the type byte\<close>

lemma ptype_masks [simp]:
  "PB_ATYPE (a OR h OR l) = PB_ATYPE a OR PB_ATYPE h OR PB_ATYPE l"
  "PB_HTYPE (a OR h OR l) = PB_HTYPE a OR PB_HTYPE h OR PB_HTYPE l"
  "PB_LTYPE (a OR h OR l) = PB_LTYPE a OR PB_LTYPE h OR PB_LTYPE l"
  by (simp_all add: PB_ATYPE_def PB_HTYPE_def PB_LTYPE_def bit.conj_disj_distrib2)

end
