(* ===== verification/PbCommon.thy ===== *)
theory PbCommon
  imports PbTypes
begin

text \<open>
  The field iterator of \<open>pb_common.c\<close>: a position in a descriptor array together with
  the addresses of the field's data and of its size member, which every step computes from
  those of the field before.
\<close>

section \<open>The iterator\<close>

record pb_field_iter =
  start :: "pb_field list"
  pos :: nat
  required_field_index :: nat
  dest_struct :: addr
  pData :: addr
  pSize :: addr

abbreviation ipos :: "pb_field_iter \<Rightarrow> pb_field" where
  "ipos it \<equiv> field_at (start it) (pos it)"

definition pb_field_iter_begin :: "pb_field list \<Rightarrow> addr \<Rightarrow> bool \<times> pb_field_iter" where
  "pb_field_iter_begin fs dest =
     (let f = field_at fs 0;
          pd = dest + int (data_offset f)
      in (tag f \<noteq> 0,
          \<lparr>start = fs, pos = 0, required_field_index = 0, dest_struct = dest,
           pData = pd, pSize = pd + size_offset f\<rparr>))"

text \<open>
  The room a field takes in the structure: a static array has \<open>array_size\<close> entries of
  \<open>data_size\<close> (a \<open>size_t\<close> product), a pointer field is one pointer.
\<close>

definition iter_prev_size :: "pb_field \<Rightarrow> nat" where
  "iter_prev_size f =
     (if PB_ATYPE (ftype f) = PB_ATYPE_STATIC \<and> PB_HTYPE (ftype f) = PB_HTYPE_REPEATED
      then data_size f * array_size f
      else if PB_ATYPE (ftype f) = PB_ATYPE_POINTER then 8
      else data_size f)"

definition pb_field_iter_next :: "pb_field_iter \<Rightarrow> bool \<times> pb_field_iter" where
  "pb_field_iter_next it =
     (let prev_field = ipos it in
      if tag prev_field = 0 then (False, it)
      else
        let it1 = it\<lparr>pos := pos it + 1\<rparr>; cur = ipos it1 in
        if tag cur = 0 then
          (False, snd (pb_field_iter_begin (start it) (dest_struct it)))
        else if PB_HTYPE (ftype prev_field) = PB_HTYPE_ONEOF
            \<and> PB_HTYPE (ftype cur) = PB_HTYPE_ONEOF
            \<and> data_offset cur = PB_SIZE_MAX then (True, it1)
        else
          let req = (if PB_HTYPE (ftype prev_field) = PB_HTYPE_REQUIRED
                     then required_field_index it + 1 else required_field_index it);
              pd = pData it + int (iter_prev_size prev_field) + int (data_offset cur)
          in (True, it1\<lparr>required_field_index := req, pData := pd, pSize := pd + size_offset cur\<rparr>))"

text \<open>
  The \<open>do ... while\<close> of \<open>pb_field_iter_find\<close> and of \<open>find_extension_field\<close>: the
  position the search started from is part of the loop, since the search wraps around.
\<close>

definition iter_search :: "(pb_field \<Rightarrow> bool) \<Rightarrow> pb_field_iter \<Rightarrow> (bool \<times> pb_field_iter) option" where
  "iter_search P it =
     crun (\<lambda>i.
       if P (ipos i) then Some (Leave (True, i))
       else
         let i = snd (pb_field_iter_next i)
         in if pos i \<noteq> pos it then Some (Continue i) else Some (Leave (False, i))) it"

definition pb_field_iter_find :: "pb_field_iter \<Rightarrow> u32 \<Rightarrow> (bool \<times> pb_field_iter) option" where
  "pb_field_iter_find it t =
     iter_search (\<lambda>f. tag f = t \<and> PB_LTYPE (ftype f) \<noteq> PB_LTYPE_EXTENSION) it"

section \<open>Where the iterator stands\<close>

text \<open>
  \<open>iter_at fs dest i\<close> is the iterator at entry \<open>i\<close> after \<open>i\<close> steps from the start.
\<close>

fun iter_at :: "pb_field list \<Rightarrow> addr \<Rightarrow> nat \<Rightarrow> pb_field_iter" where
  "iter_at fs dest 0 = snd (pb_field_iter_begin fs dest)"
| "iter_at fs dest (Suc i) = snd (pb_field_iter_next (iter_at fs dest i))"

text \<open>A descriptor array whose entries all come before the terminator.\<close>

definition tags_ok :: "pb_field list \<Rightarrow> bool" where
  "tags_ok fs \<longleftrightarrow> fs \<noteq> [] \<and> (\<forall>f \<in> set fs. tag f \<noteq> 0)"

lemma tag_PB_LAST_FIELD [simp]: "tag PB_LAST_FIELD = 0"
  by (simp add: PB_LAST_FIELD_def)

lemma field_at_end [simp]: "field_at fs (length fs) = PB_LAST_FIELD"
  by (simp add: field_at_def)

lemma tags_ok_field_at: "tags_ok fs \<Longrightarrow> tag (field_at fs i) = 0 \<longleftrightarrow> length fs \<le> i"
  by (auto simp: tags_ok_def field_at_def)

lemma pb_field_iter_begin_simps [simp]:
  "fst (pb_field_iter_begin fs dest) \<longleftrightarrow> tag (field_at fs 0) \<noteq> 0"
  "start (snd (pb_field_iter_begin fs dest)) = fs"
  "pos (snd (pb_field_iter_begin fs dest)) = 0"
  "dest_struct (snd (pb_field_iter_begin fs dest)) = dest"
  "required_field_index (snd (pb_field_iter_begin fs dest)) = 0"
  by (simp_all add: pb_field_iter_begin_def Let_def)

lemma pb_field_iter_next_simps [simp]:
  "start (snd (pb_field_iter_next it)) = start it"
  "dest_struct (snd (pb_field_iter_next it)) = dest_struct it"
  by (simp_all add: pb_field_iter_next_def Let_def)

lemma pb_field_iter_next_pos:
  assumes "tags_ok (start it)" and "pos it < length (start it)"
  shows "fst (pb_field_iter_next it) \<longleftrightarrow> Suc (pos it) < length (start it)"
    and "pos (snd (pb_field_iter_next it))
           = (if Suc (pos it) < length (start it) then Suc (pos it) else 0)"
  using assms tags_ok_field_at [of "start it"]
  by (auto simp: pb_field_iter_next_def Let_def not_le)

lemma iter_at_start [simp]: "start (iter_at fs dest i) = fs"
  by (induction i) auto

lemma iter_at_dest [simp]: "dest_struct (iter_at fs dest i) = dest"
  by (induction i) auto

lemma iter_at_pos: "tags_ok fs \<Longrightarrow> i < length fs \<Longrightarrow> pos (iter_at fs dest i) = i"
proof (induction i)
  case 0
  then show ?case by simp
next
  case (Suc i)
  then show ?case using pb_field_iter_next_pos(2) [of "iter_at fs dest i"] by simp
qed

text \<open>The step after the last entry is the start again.\<close>

lemma iter_wrap:
  assumes "tags_ok fs" and "length fs = Suc i"
  shows "pb_field_iter_next (iter_at fs dest i) = (False, iter_at fs dest 0)"
  using assms iter_at_pos [of fs i dest] tags_ok_field_at [of fs]
  by (simp add: pb_field_iter_next_def Let_def)

lemma iter_step:
  assumes "tags_ok fs" and "Suc i < length fs"
  shows "pb_field_iter_next (iter_at fs dest i) = (True, iter_at fs dest (Suc i))"
  using assms iter_at_pos [of fs i dest] pb_field_iter_next_pos(1) [of "iter_at fs dest i"]
  by (simp add: prod_eq_iff)

lemma iter_next_at:
  assumes "tags_ok fs" and "i < length fs"
  shows "pb_field_iter_next (iter_at fs dest i)
           = (Suc i < length fs, iter_at fs dest (if Suc i < length fs then Suc i else 0))"
proof (cases "Suc i < length fs")
  case True
  then show ?thesis using iter_step assms by simp
next
  case False
  with assms(2) have "length fs = Suc i" by simp
  then show ?thesis using iter_wrap assms(1) by simp
qed

text \<open>The addresses are those of the iterator over a structure at 0, moved by \<open>dest\<close>.\<close>

lemma iter_at_shift:
  "iter_at fs dest i =
     (iter_at fs 0 i)\<lparr>dest_struct := dest, pData := dest + pData (iter_at fs 0 i),
                     pSize := dest + pSize (iter_at fs 0 i)\<rparr>"
proof (induction i)
  case 0
  show ?case by (simp add: pb_field_iter_begin_def Let_def)
next
  case (Suc i)
  define it where "it = iter_at fs 0 i"
  have it: "dest_struct it = 0" "start it = fs" by (simp_all add: it_def)
  have "iter_at fs dest (Suc i)
      = snd (pb_field_iter_next (it\<lparr>dest_struct := dest, pData := dest + pData it,
                                    pSize := dest + pSize it\<rparr>))"
    using Suc by (simp add: it_def)
  also have "\<dots> = (snd (pb_field_iter_next it))\<lparr>dest_struct := dest,
                    pData := dest + pData (snd (pb_field_iter_next it)),
                    pSize := dest + pSize (snd (pb_field_iter_next it))\<rparr>"
    using it by (simp add: pb_field_iter_next_def pb_field_iter_begin_def Let_def)
  finally show ?case by (simp add: it_def)
qed

lemma iter_at_addr:
  "pData (iter_at fs dest i) = dest + pData (iter_at fs 0 i)"
  "pSize (iter_at fs dest i) = dest + pSize (iter_at fs 0 i)"
  by (subst iter_at_shift, simp)+

section \<open>Visiting every field\<close>

text \<open>
  The loop \<open>do { body } while (pb_field_iter_next(&iter))\<close>. The result is
  \<open>Continue s\<close> when the loop came to its end with \<open>s\<close>, and \<open>Leave r\<close> when the body
  returned \<open>r\<close> from the function.
\<close>

definition iter_do ::
    "(pb_field_iter \<Rightarrow> 's \<Rightarrow> ('s, 'r) turn option) \<Rightarrow> pb_field_iter \<Rightarrow> 's \<Rightarrow> ('s, 'r) turn option" where
  "iter_do body it s =
     crun (\<lambda>(it, s).
       case body it s of None \<Rightarrow> None
       | Some (Leave r) \<Rightarrow> Some (Leave (Leave r))
       | Some (Continue s') \<Rightarrow>
           (let (more, it') = pb_field_iter_next it
            in if more then Some (Continue (it', s')) else Some (Leave (Continue s')))) (it, s)"

lemma iter_do_total:
  assumes ok: "tags_ok fs" and start: "I 0 s"
    and step: "\<And>i s. i < length fs \<Longrightarrow> I i s \<Longrightarrow>
                 (\<exists>s'. body (iter_at fs dest i) s = Some (Continue s') \<and> I (Suc i) s')
               \<or> (\<exists>r. body (iter_at fs dest i) s = Some (Leave r) \<and> Q r)"
  shows "(\<exists>s'. iter_do body (iter_at fs dest 0) s = Some (Continue s') \<and> I (length fs) s')
       \<or> (\<exists>r. iter_do body (iter_at fs dest 0) s = Some (Leave r) \<and> Q r)"
proof -
  let ?n = "length fs"
  have "\<exists>r. iter_do body (iter_at fs dest 0) s = Some r \<and>
          (case r of Continue s' \<Rightarrow> I ?n s' | Leave r \<Rightarrow> Q r)"
    unfolding iter_do_def
  proof (rule crun_total [where I = "\<lambda>(it, s). \<exists>i < ?n. it = iter_at fs dest i \<and> I i s"
        and f = "\<lambda>(it, s). ?n - pos it"])
    show "case (iter_at fs dest 0, s) of (it, s) \<Rightarrow> \<exists>i < ?n. it = iter_at fs dest i \<and> I i s"
      using ok start by (auto simp: tags_ok_def intro!: exI [of _ 0] simp del: iter_at.simps)
  next
    fix st
    assume "case st of (it, s) \<Rightarrow> \<exists>i < ?n. it = iter_at fs dest i \<and> I i s"
    then obtain i s where st: "st = (iter_at fs dest i, s)" and i: "i < ?n" and inv: "I i s"
      by auto
    note nxt = iter_next_at [OF ok i, of dest]
    have pos: "pos (iter_at fs dest i) = i" "Suc i < ?n \<Longrightarrow> pos (iter_at fs dest (Suc i)) = Suc i"
      using ok i by (simp_all only: iter_at_pos)
    from step [OF i inv] consider
        (go) s' where "body (iter_at fs dest i) s = Some (Continue s')" "I (Suc i) s'"
      | (out) r where "body (iter_at fs dest i) s = Some (Leave r)" "Q r"
      by blast
    then show "(\<exists>s'. (case st of (it, s) \<Rightarrow>
          case body it s of None \<Rightarrow> None | Some (Continue s') \<Rightarrow>
              (let (more, it') = pb_field_iter_next it
               in if more then Some (Continue (it', s')) else Some (Leave (Continue s')))
            | Some (Leave r) \<Rightarrow> Some (Leave (Leave r))) = Some (Continue s') \<and>
          (case s' of (it, s) \<Rightarrow> \<exists>i < ?n. it = iter_at fs dest i \<and> I i s) \<and>
          (case s' of (it, s) \<Rightarrow> ?n - pos it) < (case st of (it, s) \<Rightarrow> ?n - pos it)) \<or>
        (\<exists>r. (case st of (it, s) \<Rightarrow>
          case body it s of None \<Rightarrow> None | Some (Continue s') \<Rightarrow>
              (let (more, it') = pb_field_iter_next it
               in if more then Some (Continue (it', s')) else Some (Leave (Continue s')))
            | Some (Leave r) \<Rightarrow> Some (Leave (Leave r))) = Some (Leave r) \<and>
          (case r of Continue s' \<Rightarrow> I ?n s' | Leave r \<Rightarrow> Q r))"
    proof cases
      case out
      then show ?thesis by (simp add: st)
    next
      case go
      show ?thesis
      proof (cases "Suc i < ?n")
        case True
        with go nxt show ?thesis
          by (auto simp: st pos simp del: iter_at.simps intro!: exI [of _ "Suc i"])
      next
        case False
        with i have "?n = Suc i" by simp
        with go nxt show ?thesis by (simp add: st del: iter_at.simps)
      qed
    qed
  qed
  then obtain r where "iter_do body (iter_at fs dest 0) s = Some r"
      and "case r of Continue s' \<Rightarrow> I ?n s' | Leave r \<Rightarrow> Q r"
    by blast
  then show ?thesis by (cases r) auto
qed

text \<open>The same rule with the outcome of a visit in one case distinction.\<close>

lemma iter_do_rule:
  assumes "tags_ok fs" and "I 0 s"
    and step: "\<And>i s. i < length fs \<Longrightarrow> I i s \<Longrightarrow>
       \<exists>t. body (iter_at fs dest i) s = Some t \<and> (case t of Continue s' \<Rightarrow> I (Suc i) s' | Leave r \<Rightarrow> Q r)"
  shows "\<exists>t. iter_do body (iter_at fs dest 0) s = Some t \<and>
           (case t of Continue s' \<Rightarrow> I (length fs) s' | Leave r \<Rightarrow> Q r)"
proof -
  have "(\<exists>s'. iter_do body (iter_at fs dest 0) s = Some (Continue s') \<and> I (length fs) s')
      \<or> (\<exists>r. iter_do body (iter_at fs dest 0) s = Some (Leave r) \<and> Q r)"
  proof (rule iter_do_total [where I = I, OF assms(1,2)])
    fix i s
    assume "i < length fs" "I i s"
    from step [OF this] obtain t where "body (iter_at fs dest i) s = Some t"
      "case t of Continue s' \<Rightarrow> I (Suc i) s' | Leave r \<Rightarrow> Q r" by blast
    then show "(\<exists>s'. body (iter_at fs dest i) s = Some (Continue s') \<and> I (Suc i) s')
        \<or> (\<exists>r. body (iter_at fs dest i) s = Some (Leave r) \<and> Q r)"
      by (cases t) auto
  qed
  then show ?thesis by (elim disjE exE conjE) auto
qed

section \<open>Finding a field\<close>

lemma iter_next_cyclic:
  assumes "tags_ok fs" and "i < length fs"
  shows "snd (pb_field_iter_next (iter_at fs dest i)) = iter_at fs dest (Suc i mod length fs)"
proof (cases "Suc i < length fs")
  case True
  then show ?thesis using assms by (simp add: iter_next_at del: iter_at.simps)
next
  case False
  with assms(2) have "length fs = Suc i" by simp
  then show ?thesis using assms(1) by (simp add: iter_wrap)
qed

definition cyclic_dist :: "nat \<Rightarrow> nat \<Rightarrow> nat \<Rightarrow> nat" where
  "cyclic_dist n i j = (if i \<le> j then j - i else n - i + j)"

lemma cyclic_dist_next:
  assumes "i < n" and "j < n" and "Suc j mod n \<noteq> i"
  shows "cyclic_dist n i (Suc j mod n) = Suc (cyclic_dist n i j)"
  using assms by (auto simp: cyclic_dist_def mod_Suc split: if_splits)

lemma cyclic_dist_last:
  assumes "i < n" and "j < n" and "Suc j mod n = i"
  shows "Suc (cyclic_dist n i j) = n"
  using assms by (auto simp: cyclic_dist_def mod_Suc split: if_splits)

lemma cyclic_dist_less: "i < n \<Longrightarrow> j < n \<Longrightarrow> cyclic_dist n i j < n"
  by (auto simp: cyclic_dist_def)

lemma cyclic_dist_inj: "i < n \<Longrightarrow> j < n \<Longrightarrow> k < n \<Longrightarrow> cyclic_dist n i j = cyclic_dist n i k \<longleftrightarrow> j = k"
  by (auto simp: cyclic_dist_def split: if_splits)

text \<open>
  The search visits the entries in cyclic order from where the iterator stands. It stops
  at the first match, or comes back to where it started when there is none; it always
  stops.
\<close>

lemma iter_search_cyclic:
  assumes ok: "tags_ok fs" and i: "i < length fs"
  shows "\<exists>r. iter_search P (iter_at fs dest i) = Some r \<and>
    (\<lambda>(found, it).
       if found then
         \<exists>j < length fs. it = iter_at fs dest j \<and> P (field_at fs j) \<and>
           (\<forall>k < length fs. P (field_at fs k) \<longrightarrow> cyclic_dist (length fs) i j \<le> cyclic_dist (length fs) i k)
       else it = iter_at fs dest i \<and> (\<forall>k < length fs. \<not> P (field_at fs k))) r"
  unfolding iter_search_def
proof (rule crun_total [where
      I = "\<lambda>it. \<exists>j < length fs. it = iter_at fs dest j \<and>
             (\<forall>k < length fs. cyclic_dist (length fs) i k < cyclic_dist (length fs) i j \<longrightarrow> \<not> P (field_at fs k))"
      and f = "\<lambda>it. length fs - cyclic_dist (length fs) i (pos it)"])
  show "\<exists>j < length fs. iter_at fs dest i = iter_at fs dest j \<and>
          (\<forall>k < length fs. cyclic_dist (length fs) i k < cyclic_dist (length fs) i j \<longrightarrow> \<not> P (field_at fs k))"
    using i by (intro exI [of _ i]) (simp add: cyclic_dist_def)
next
  fix it
  assume "\<exists>j < length fs. it = iter_at fs dest j \<and>
            (\<forall>k < length fs. cyclic_dist (length fs) i k < cyclic_dist (length fs) i j \<longrightarrow> \<not> P (field_at fs k))"
  then obtain j where j: "j < length fs" "it = iter_at fs dest j"
    and before: "\<And>k. k < length fs \<Longrightarrow>
                   cyclic_dist (length fs) i k < cyclic_dist (length fs) i j \<Longrightarrow> \<not> P (field_at fs k)"
    by blast
  let ?n = "length fs" and ?j' = "Suc j mod length fs"
  have pos: "pos it = j" "ipos it = field_at fs j" using ok j iter_at_pos by auto
  have nxt: "snd (pb_field_iter_next it) = iter_at fs dest ?j'"
    using iter_next_cyclic ok j by simp
  have j': "?j' < ?n" by (rule mod_less_divisor) (use i in linarith)
  have posi: "pos (iter_at fs dest i) = i" "pos (iter_at fs dest ?j') = ?j'"
    using ok i j' by (simp_all only: iter_at_pos)
  let ?m = "P (ipos it)"
  have m: "?m \<longleftrightarrow> P (field_at fs j)" by (simp only: pos(2))
  show "(\<exists>s'. (if ?m then Some (Leave (True, it))
               else let i' = snd (pb_field_iter_next it)
                    in if pos i' \<noteq> pos (iter_at fs dest i) then Some (Continue i')
                       else Some (Leave (False, i'))) = Some (Continue s') \<and>
          (\<exists>j < ?n. s' = iter_at fs dest j \<and>
             (\<forall>k < ?n. cyclic_dist ?n i k < cyclic_dist ?n i j \<longrightarrow> \<not> P (field_at fs k))) \<and>
          ?n - cyclic_dist ?n i (pos s') < ?n - cyclic_dist ?n i (pos it)) \<or>
        (\<exists>r. (if ?m then Some (Leave (True, it))
               else let i' = snd (pb_field_iter_next it)
                    in if pos i' \<noteq> pos (iter_at fs dest i) then Some (Continue i')
                       else Some (Leave (False, i'))) = Some (Leave r) \<and>
          (case r of (found, it) \<Rightarrow>
            if found then
              \<exists>j < ?n. it = iter_at fs dest j \<and> P (field_at fs j) \<and>
                (\<forall>k < ?n. P (field_at fs k) \<longrightarrow> cyclic_dist ?n i j \<le> cyclic_dist ?n i k)
            else it = iter_at fs dest i \<and> (\<forall>k < ?n. \<not> P (field_at fs k))))"
  proof (cases "P (field_at fs j)")
    case True
    with before j m show ?thesis by (auto simp: not_le [symmetric])
  next
    case False
    have upto: "\<not> P (field_at fs k)" if "k < ?n" "cyclic_dist ?n i k \<le> cyclic_dist ?n i j" for k
      using that False before cyclic_dist_inj [OF i j(1) that(1)] by (metis le_neq_implies_less)
    show ?thesis
    proof (cases "?j' = i")
      case True
      with upto cyclic_dist_last [OF i j(1)] cyclic_dist_less [OF i]
      have "\<forall>k < ?n. \<not> P (field_at fs k)" by (metis less_Suc_eq_le)
      with True False m nxt posi show ?thesis by (auto simp: Let_def)
    next
      case False': False
      have d: "cyclic_dist ?n i ?j' = Suc (cyclic_dist ?n i j)"
        by (rule cyclic_dist_next [OF i j(1) False'])
      have "\<exists>j < ?n. iter_at fs dest ?j' = iter_at fs dest j \<and>
             (\<forall>k < ?n. cyclic_dist ?n i k < cyclic_dist ?n i j \<longrightarrow> \<not> P (field_at fs k))"
        using upto j' d by (intro exI [of _ ?j']) auto
      moreover have "?n - cyclic_dist ?n i ?j' < ?n - cyclic_dist ?n i j"
        using d cyclic_dist_less [OF i j'] by simp
      ultimately show ?thesis using False False' m nxt posi pos by (auto simp: Let_def)
    qed
  qed
qed

end
