(* ===== verification/PbIStream.thy ===== *)
theory PbIStream
  imports PbTypes
begin

text \<open>
  The input side of nanopb below the message level (\<open>pb_decode.c\<close>): reading from a
  stream, the variable-length integers, tags, skipping, substreams and fixed-width values.

  A result \<open>Some (ok, ..., s', w')\<close> holds C's return value, the values written through
  pointer arguments, the stream and the state after the call. A function with a pointer
  argument for its value gives an \<open>option\<close>: \<open>None\<close> is \<open>return false\<close>.
\<close>

section \<open>Reading\<close>

text \<open>
  \<open>buf_read\<close>: the bytes at the stream's pointer and the moved pointer. Reading or moving
  past the end of the buffer is undefined.
\<close>

definition buf_read :: "byte list \<Rightarrow> nat \<Rightarrow> (byte list \<times> byte list) option" where
  "buf_read src count =
     (if count \<le> length src then Some (take count src, drop count src) else None)"

text \<open>\<open>stream->callback(stream, buf, count)\<close>, with what it puts into \<open>buf\<close>.\<close>

definition istream_callback ::
    "'w pb_istream \<Rightarrow> nat \<Rightarrow> 'w cstate \<Rightarrow> (bool \<times> byte list \<times> 'w pb_istream \<times> 'w cstate) option" where
  "istream_callback s count w =
     (case source s of
        Buffer src \<Rightarrow> do {
          (d, rest) \<leftarrow> buf_read src count;
          Some (True, d, s\<lparr>source := Buffer rest\<rparr>, w)
        }
      | Custom f state \<Rightarrow> do {
          (ok, d, state', w') \<leftarrow> f state count w;
          Some (ok, map d [0..<count], s\<lparr>source := Custom f state'\<rparr>, w')
        })"

text \<open>\<open>pb_read\<close> from its second part on, with a destination or with \<open>buf_read\<close>.\<close>

definition pb_read_some ::
    "'w pb_istream \<Rightarrow> nat \<Rightarrow> 'w cstate \<Rightarrow> (bool \<times> byte list \<times> 'w pb_istream \<times> 'w cstate) option" where
  "pb_read_some s count w =
     (if bytes_left s < count then Some (False, [], set_error s ''end-of-stream'', w)
      else do {
        (ok, d, s, w) \<leftarrow> istream_callback s count w;
        if \<not> ok then Some (False, d, set_error s ''io error'', w)
        else Some (True, d, s\<lparr>bytes_left := bytes_left s - count\<rparr>, w)
      })"

text \<open>
  \<open>pb_read(stream, NULL, count)\<close>: a user's callback is never called without a
  destination, so its bytes are skipped sixteen at a time.
\<close>

definition pb_read_null ::
    "'w pb_istream \<Rightarrow> nat \<Rightarrow> 'w cstate \<Rightarrow> (bool \<times> 'w pb_istream \<times> 'w cstate) option" where
  "pb_read_null s count w =
     (case source s of
        Custom f state \<Rightarrow>
          crun (\<lambda>(count, s, w).
            if 16 < count then do {
              (ok, d, s, w) \<leftarrow> pb_read_some s 16 w;
              if \<not> ok then Some (Leave (False, s, w)) else Some (Continue (count - 16, s, w))
            } else do {
              (ok, d, s, w) \<leftarrow> pb_read_some s count w;
              Some (Leave (ok, s, w))
            }) (count, s, w)
      | Buffer src \<Rightarrow> do {
          (ok, d, s, w) \<leftarrow> pb_read_some s count w;
          Some (ok, s, w)
        })"

definition pb_readbyte ::
    "'w pb_istream \<Rightarrow> 'w cstate \<Rightarrow> (byte option \<times> 'w pb_istream \<times> 'w cstate) option" where
  "pb_readbyte s w =
     (if bytes_left s = 0 then Some (None, set_error s ''end-of-stream'', w)
      else do {
        (ok, d, s, w) \<leftarrow> istream_callback s 1 w;
        if \<not> ok then Some (None, set_error s ''io error'', w)
        else Some (Some (hd d), s\<lparr>bytes_left := bytes_left s - 1\<rparr>, w)
      })"

definition pb_istream_from_buffer :: "byte list \<Rightarrow> nat \<Rightarrow> 'w pb_istream" where
  "pb_istream_from_buffer buf bufsize =
     \<lparr>source = Buffer buf, bytes_left = bufsize, errmsg = None\<rparr>"

section \<open>Variable-length integers\<close>

definition pb_decode_varint32 ::
    "'w pb_istream \<Rightarrow> 'w cstate \<Rightarrow> (u32 option \<times> 'w pb_istream \<times> 'w cstate) option" where
  "pb_decode_varint32 s w = do {
     (rb, s, w) \<leftarrow> pb_readbyte s w;
     case rb of None \<Rightarrow> Some (None, s, w)
     | Some b \<Rightarrow>
       if b AND 0x80 = 0 then Some (Some (ucast b), s, w)
       else crun (\<lambda>(bitpos, result, s, w).
              if 32 \<le> bitpos then Some (Leave (None, set_error s ''varint overflow'', w))
              else do {
                (rb, s, w) \<leftarrow> pb_readbyte s w;
                case rb of None \<Rightarrow> Some (Leave (None, s, w))
                | Some b \<Rightarrow>
                    let result = result OR push_bit bitpos (ucast (b AND 0x7F)) in
                    if b AND 0x80 \<noteq> 0 then Some (Continue (bitpos + 7, result, s, w))
                    else Some (Leave (Some result, s, w))
              }) (7::nat, ucast (b AND 0x7F) :: u32, s, w)
   }"

definition pb_decode_varint ::
    "'w pb_istream \<Rightarrow> 'w cstate \<Rightarrow> (u64 option \<times> 'w pb_istream \<times> 'w cstate) option" where
  "pb_decode_varint s w =
     crun (\<lambda>(bitpos, result, s, w).
       if 64 \<le> bitpos then Some (Leave (None, set_error s ''varint overflow'', w))
       else do {
         (rb, s, w) \<leftarrow> pb_readbyte s w;
         case rb of None \<Rightarrow> Some (Leave (None, s, w))
         | Some b \<Rightarrow>
             let result = result OR push_bit bitpos (ucast (b AND 0x7F)) in
             if b AND 0x80 \<noteq> 0 then Some (Continue (bitpos + 7, result, s, w))
             else Some (Leave (Some result, s, w))
       }) (0::nat, 0 :: u64, s, w)"

definition pb_skip_varint ::
    "'w pb_istream \<Rightarrow> 'w cstate \<Rightarrow> (bool \<times> 'w pb_istream \<times> 'w cstate) option" where
  "pb_skip_varint s w =
     crun (\<lambda>(s, w). do {
       (ok, d, s, w) \<leftarrow> pb_read_some s 1 w;
       if \<not> ok then Some (Leave (False, s, w))
       else if hd d AND 0x80 \<noteq> 0 then Some (Continue (s, w))
       else Some (Leave (True, s, w))
     }) (s, w)"

definition pb_skip_string ::
    "'w pb_istream \<Rightarrow> 'w cstate \<Rightarrow> (bool \<times> 'w pb_istream \<times> 'w cstate) option" where
  "pb_skip_string s w = do {
     (len, s, w) \<leftarrow> pb_decode_varint32 s w;
     case len of None \<Rightarrow> Some (False, s, w)
     | Some n \<Rightarrow> pb_read_null s (unat n) w
   }"

text \<open>The result after the flag: the wire type, the tag, and whether the message ended.\<close>

definition pb_decode_tag ::
    "'w pb_istream \<Rightarrow> 'w cstate \<Rightarrow> (bool \<times> nat \<times> u32 \<times> bool \<times> 'w pb_istream \<times> 'w cstate) option" where
  "pb_decode_tag s w = do {
     (temp, s, w) \<leftarrow> pb_decode_varint32 s w;
     case temp of None \<Rightarrow> Some (False, 0, 0, bytes_left s = 0, s, w)
     | Some t \<Rightarrow>
         if t = 0 then Some (False, 0, 0, True, s, w)
         else Some (True, unat (t AND 7), drop_bit 3 t, False, s, w)
   }"

definition pb_skip_field ::
    "'w pb_istream \<Rightarrow> nat \<Rightarrow> 'w cstate \<Rightarrow> (bool \<times> 'w pb_istream \<times> 'w cstate) option" where
  "pb_skip_field s wire_type w =
     (if wire_type = PB_WT_VARINT then pb_skip_varint s w
      else if wire_type = PB_WT_64BIT then pb_read_null s 8 w
      else if wire_type = PB_WT_STRING then pb_skip_string s w
      else if wire_type = PB_WT_32BIT then pb_read_null s 4 w
      else Some (False, set_error s ''invalid wire_type'', w))"

text \<open>
  A read into a local array that has \<open>room\<close> bytes from the pointer to its end: a byte that is put past the end
  is undefined.
\<close>

definition read_array ::
    "'w pb_istream \<Rightarrow> nat \<Rightarrow> nat \<Rightarrow> 'w cstate
      \<Rightarrow> (bool \<times> byte list \<times> 'w pb_istream \<times> 'w cstate) option" where
  "read_array s room count w = do {
     (ok, d, s, w) \<leftarrow> pb_read_some s count w;
     if room < length d then None else Some (ok, d, s, w)
   }"

text \<open>
  \<open>read_raw_value\<close> fills a local array of \<open>buf_size\<close> bytes, and the model keeps those that are filled. The C function gets
  a maximum and returns the number of bytes through the same pointer; here
  the number is the length of the list.
\<close>

definition read_raw_value ::
    "'w pb_istream \<Rightarrow> nat \<Rightarrow> nat \<Rightarrow> nat \<Rightarrow> 'w cstate
      \<Rightarrow> (bool \<times> byte list \<times> 'w pb_istream \<times> 'w cstate) option" where
  "read_raw_value s wire_type buf_size max_len w =
     (if wire_type = PB_WT_VARINT then
        crun (\<lambda>(buf, s, w).
          if max_len < length buf + 1 then Some (Leave (False, buf, s, w))
          else do {
            (ok, d, s, w) \<leftarrow> read_array s (buf_size - length buf) 1 w;
            if \<not> ok then Some (Leave (False, buf, s, w))
            else if hd d AND 0x80 \<noteq> 0 then Some (Continue (buf @ d, s, w))
            else Some (Leave (True, buf @ d, s, w))
          }) ([], s, w)
      else if wire_type = PB_WT_64BIT then read_array s buf_size 8 w
      else if wire_type = PB_WT_32BIT then read_array s buf_size 4 w
      else Some (False, [], set_error s ''invalid wire_type'', w))"

section \<open>Substreams\<close>

text \<open>
  \<open>pb_make_string_substream\<close>: \<open>Some\<close> substream, or \<open>None\<close> when it returns false.
\<close>

definition pb_make_string_substream ::
    "'w pb_istream \<Rightarrow> 'w cstate
      \<Rightarrow> ('w pb_istream option \<times> 'w pb_istream \<times> 'w cstate) option" where
  "pb_make_string_substream s w = do {
     (size, s, w) \<leftarrow> pb_decode_varint32 s w;
     case size of None \<Rightarrow> Some (None, s, w)
     | Some n \<Rightarrow>
         let substream = s in
         if bytes_left substream < unat n
         then Some (None, set_error s ''parent stream too short'', w)
         else Some (Some (substream\<lparr>bytes_left := unat n\<rparr>),
                    s\<lparr>bytes_left := bytes_left s - unat n\<rparr>, w)
   }"

definition pb_close_string_substream ::
    "'w pb_istream \<Rightarrow> 'w pb_istream \<Rightarrow> 'w cstate \<Rightarrow> (bool \<times> 'w pb_istream \<times> 'w cstate) option" where
  "pb_close_string_substream s substream w = do {
     (ok, substream, w) \<leftarrow>
       (if bytes_left substream \<noteq> 0 then pb_read_null substream (bytes_left substream) w
        else Some (True, substream, w));
     if \<not> ok then Some (False, s, w)
     else Some (True, s\<lparr>source := source substream, errmsg := errmsg substream\<rparr>, w)
   }"

section \<open>Zig-zag and fixed-width integers\<close>

text \<open>The value is the two's complement word of the C \<open>int64_t\<close>.\<close>

definition pb_decode_svarint ::
    "'w pb_istream \<Rightarrow> 'w cstate \<Rightarrow> (u64 option \<times> 'w pb_istream \<times> 'w cstate) option" where
  "pb_decode_svarint s w = do {
     (value, s, w) \<leftarrow> pb_decode_varint s w;
     case value of None \<Rightarrow> Some (None, s, w)
     | Some v \<Rightarrow>
         Some (Some (if v AND 1 \<noteq> 0 then NOT (drop_bit 1 v) else drop_bit 1 v), s, w)
   }"

definition fixed32_value :: "byte list \<Rightarrow> u32" where
  "fixed32_value b =
     ucast (b ! 0) OR push_bit 8 (ucast (b ! 1)) OR push_bit 16 (ucast (b ! 2))
       OR push_bit 24 (ucast (b ! 3))"

definition fixed64_value :: "byte list \<Rightarrow> u64" where
  "fixed64_value b =
     ucast (b ! 0) OR push_bit 8 (ucast (b ! 1)) OR push_bit 16 (ucast (b ! 2))
       OR push_bit 24 (ucast (b ! 3)) OR push_bit 32 (ucast (b ! 4))
       OR push_bit 40 (ucast (b ! 5)) OR push_bit 48 (ucast (b ! 6))
       OR push_bit 56 (ucast (b ! 7))"

text \<open>\<open>dest\<close> points to a C variable of four (eight) bytes in the memory.\<close>

definition pb_decode_fixed32 ::
    "'w pb_istream \<Rightarrow> addr \<Rightarrow> 'w cstate \<Rightarrow> (bool \<times> 'w pb_istream \<times> 'w cstate) option" where
  "pb_decode_fixed32 s dest w = do {
     (ok, d, s, w) \<leftarrow> pb_read_some s 4 w;
     if \<not> ok then Some (False, s, w)
     else do {
       m \<leftarrow> store_uint (hmem w) dest 4 (unat (fixed32_value d));
       Some (True, s, w\<lparr>hmem := m\<rparr>)
     }
   }"

definition pb_decode_fixed64 ::
    "'w pb_istream \<Rightarrow> addr \<Rightarrow> 'w cstate \<Rightarrow> (bool \<times> 'w pb_istream \<times> 'w cstate) option" where
  "pb_decode_fixed64 s dest w = do {
     (ok, d, s, w) \<leftarrow> pb_read_some s 8 w;
     if \<not> ok then Some (False, s, w)
     else do {
       m \<leftarrow> store_uint (hmem w) dest 8 (unat (fixed64_value d));
       Some (True, s, w\<lparr>hmem := m\<rparr>)
     }
   }"

end
