(* ===== verification/PbDecode.thy ===== *)
theory PbDecode
  imports PbCommon PbIStream
begin

text \<open>
  The message level of \<open>pb_decode.c\<close>: the field decoders, the handling of static,
  callback and extension fields, default values, and the message loop.

  A message and its submessages are decoded by functions that call each other through the
  table of field decoders. The model gives every C function the submessage decoder as its
  first argument and ties the knot in \<open>pb_decode_noinit\<close> by a bound on the nesting of
  calls; a message nested deeper than the bound is \<open>None\<close>, a stack overflow.
\<close>

type_synonym 'w decoder =
  "'w pb_istream \<Rightarrow> pb_field \<Rightarrow> addr \<Rightarrow> 'w cstate \<Rightarrow> (bool \<times> 'w pb_istream \<times> 'w cstate) option"

type_synonym 'w message_decoder =
  "'w pb_istream \<Rightarrow> pb_field list \<Rightarrow> addr \<Rightarrow> 'w cstate \<Rightarrow> (bool \<times> 'w pb_istream \<times> 'w cstate) option"

text \<open>The descriptors a field's pointer leads to. Following another pointer as one is undefined.\<close>

definition submsg_fields :: "pb_field \<Rightarrow> pb_field list option" where
  "submsg_fields f = (case fptr f of Pb_fields fs \<Rightarrow> Some fs | _ \<Rightarrow> None)"

definition mem_store :: "'w cstate \<Rightarrow> addr \<Rightarrow> byte list \<Rightarrow> 'w cstate option" where
  "mem_store w a bs = map_option (\<lambda>m. w\<lparr>hmem := m\<rparr>) (store_bytes (hmem w) a bs)"

definition mem_store_uint :: "'w cstate \<Rightarrow> addr \<Rightarrow> nat \<Rightarrow> nat \<Rightarrow> 'w cstate option" where
  "mem_store_uint w a n v = map_option (\<lambda>m. w\<lparr>hmem := m\<rparr>) (store_uint (hmem w) a n v)"

section \<open>Extensions in the memory\<close>

definition iter_from_extension ::
    "'w penv \<Rightarrow> addr \<Rightarrow> 'w cstate \<Rightarrow> pb_field_iter option" where
  "iter_from_extension env extension w = do {
     ty \<leftarrow> load_ptr (hmem w) (extension_type_at extension);
     dest \<leftarrow> load_ptr (hmem w) (extension_dest extension);
     let field = ext_arg (extension_type env ty);
     let it = snd (pb_field_iter_begin [field] dest);
     let it = it\<lparr>pData := dest, pSize := extension_found extension\<rparr>;
     Some (if PB_ATYPE (ftype field) = PB_ATYPE_POINTER
           then it\<lparr>pData := extension_dest extension\<rparr> else it)
   }"

section \<open>Default values\<close>

definition message_defaults ::
    "(pb_field_iter \<Rightarrow> 'w cstate \<Rightarrow> 'w cstate option) \<Rightarrow> pb_field list \<Rightarrow> addr \<Rightarrow> 'w cstate
      \<Rightarrow> 'w cstate option" where
  "message_defaults set_field fs dest w =
     (let (ne, it) = pb_field_iter_begin fs dest in
      if \<not> ne then Some w
      else do {
        t \<leftarrow> iter_do (\<lambda>it w. map_option Continue (set_field it w)) it w;
        (case t of Continue w \<Rightarrow> Some w | Leave w \<Rightarrow> Some w)
      })"

text \<open>
  The data of a static field, once \<open>init_data\<close> is known to be true: a submessage is set
  to its own defaults, anything else to the bytes of its default value or to zeros.
\<close>

definition default_data ::
    "(pb_field list \<Rightarrow> addr \<Rightarrow> 'w cstate \<Rightarrow> 'w cstate option) \<Rightarrow> pb_field \<Rightarrow> addr \<Rightarrow> 'w cstate
      \<Rightarrow> 'w cstate option" where
  "default_data set_message f dest w =
     (if PB_LTYPE (ftype f) = PB_LTYPE_SUBMESSAGE then do {
        fs \<leftarrow> submsg_fields f;
        set_message fs dest w
      }
      else (case fptr f of
          Pb_null \<Rightarrow> mem_store w dest (replicate (data_size f) 0)
        | Pb_default d \<Rightarrow>
            (if data_size f \<le> length d then mem_store w dest (take (data_size f) d)
             else None)
        | Pb_fields fs \<Rightarrow> None))"

text \<open>The first argument bounds the nesting of the recursion.\<close>

fun pb_field_set_to_default ::
    "nat \<Rightarrow> 'w penv \<Rightarrow> pb_field_iter \<Rightarrow> 'w cstate \<Rightarrow> 'w cstate option" where
  "pb_field_set_to_default 0 env it w = None"
| "pb_field_set_to_default (Suc depth) env it w =
     (let f = ipos it; ty = ftype f in
      if PB_LTYPE ty = PB_LTYPE_EXTENSION then do {
        ext \<leftarrow> load_ptr (hmem w) (pData it);
        crun (\<lambda>(ext, w).
          if ext = 0 then Some (Leave w)
          else do {
            w \<leftarrow> mem_store_uint w (extension_found ext) 1 0;
            ext_iter \<leftarrow> iter_from_extension env ext w;
            w \<leftarrow> pb_field_set_to_default depth env ext_iter w;
            ext \<leftarrow> load_ptr (hmem w) (extension_next ext);
            Some (Continue (ext, w))
          }) (ext, w)
      }
      else if PB_ATYPE ty = PB_ATYPE_STATIC then do {
        (init_data, w) \<leftarrow>
          (if PB_HTYPE ty = PB_HTYPE_OPTIONAL \<and> pSize it \<noteq> pData it then do {
             w \<leftarrow> mem_store_uint w (pSize it) 1 0;
             Some (True, w)
           }
           else if PB_HTYPE ty = PB_HTYPE_REPEATED \<or> PB_HTYPE ty = PB_HTYPE_ONEOF then do {
             w \<leftarrow> mem_store_uint w (pSize it) 4 0;
             Some (False, w)
           }
           else Some (True, w));
        if \<not> init_data then Some w
        else default_data (message_defaults (pb_field_set_to_default depth env)) f (pData it) w
      }
      else if PB_ATYPE ty = PB_ATYPE_POINTER then do {
        w \<leftarrow> mem_store_uint w (pData it) 8 0;
        if PB_HTYPE ty = PB_HTYPE_REPEATED \<or> PB_HTYPE ty = PB_HTYPE_ONEOF
        then mem_store_uint w (pSize it) 4 0 else Some w
      }
      else Some w)"

definition pb_message_set_to_defaults ::
    "nat \<Rightarrow> 'w penv \<Rightarrow> pb_field list \<Rightarrow> addr \<Rightarrow> 'w cstate \<Rightarrow> 'w cstate option" where
  "pb_message_set_to_defaults depth env fs dest w =
     message_defaults (pb_field_set_to_default depth env) fs dest w"

section \<open>Field decoders\<close>

text \<open>
  A \<open>pb_byte_t\<close> to \<open>int64_t\<close> field of \<open>n\<close> bytes: the value of the field, as an
  \<open>int64_t\<close>, after it was assigned \<open>v\<close>. Other sizes are invalid descriptors.
\<close>

definition narrow_signed :: "nat \<Rightarrow> u64 \<Rightarrow> u64 option" where
  "narrow_signed n v =
     (if n = 8 then Some v
      else if n = 4 then Some (scast (ucast v :: 32 word))
      else if n = 2 then Some (scast (ucast v :: 16 word))
      else if n = 1 then Some (scast (ucast v :: 8 word))
      else None)"

definition narrow_unsigned :: "nat \<Rightarrow> u64 \<Rightarrow> u64 option" where
  "narrow_unsigned n v =
     (if n = 8 then Some v
      else if n = 4 then Some (ucast (ucast v :: 32 word))
      else if n = 2 then Some (ucast (ucast v :: 16 word))
      else if n = 1 then Some (ucast (ucast v :: 8 word))
      else None)"

text \<open>
  \<open>clamped = *(T*)dest = (T)value\<close> and the checks around it: the store keeps the low
  bytes of the value.
\<close>

definition store_clamped ::
    "u64 option \<Rightarrow> u64 \<Rightarrow> 'w pb_istream \<Rightarrow> pb_field \<Rightarrow> addr \<Rightarrow> 'w cstate
      \<Rightarrow> (bool \<times> 'w pb_istream \<times> 'w cstate) option" where
  "store_clamped narrowed value s field dest w =
     (case narrowed of
        None \<Rightarrow> Some (False, set_error s ''invalid data_size'', w)
      | Some clamped \<Rightarrow> do {
          w \<leftarrow> mem_store_uint w dest (data_size field) (unat value);
          if clamped \<noteq> value then Some (False, set_error s ''integer too large'', w)
          else Some (True, s, w)
        })"

definition pb_dec_varint :: "'w decoder" where
  "pb_dec_varint s field dest w = do {
     (v, s, w) \<leftarrow> pb_decode_varint s w;
     case v of None \<Rightarrow> Some (False, s, w)
     | Some value \<Rightarrow>
         let svalue = (if data_size field = 8 then value else scast (ucast value :: 32 word))
         in store_clamped (narrow_signed (data_size field) svalue) svalue s field dest w
   }"

definition pb_dec_uvarint :: "'w decoder" where
  "pb_dec_uvarint s field dest w = do {
     (v, s, w) \<leftarrow> pb_decode_varint s w;
     case v of None \<Rightarrow> Some (False, s, w)
     | Some value \<Rightarrow>
         store_clamped (narrow_unsigned (data_size field) value) value s field dest w
   }"

definition pb_dec_svarint :: "'w decoder" where
  "pb_dec_svarint s field dest w = do {
     (v, s, w) \<leftarrow> pb_decode_svarint s w;
     case v of None \<Rightarrow> Some (False, s, w)
     | Some value \<Rightarrow>
         store_clamped (narrow_signed (data_size field) value) value s field dest w
   }"

definition pb_dec_fixed32 :: "'w decoder" where
  "pb_dec_fixed32 s field dest w = pb_decode_fixed32 s dest w"

definition pb_dec_fixed64 :: "'w decoder" where
  "pb_dec_fixed64 s field dest w = pb_decode_fixed64 s dest w"

definition pb_dec_bytes :: "'w decoder" where
  "pb_dec_bytes s field dest w = do {
     (v, s, w) \<leftarrow> pb_decode_varint32 s w;
     case v of None \<Rightarrow> Some (False, s, w)
     | Some n \<Rightarrow>
         let size = unat n; alloc_size = PB_BYTES_ARRAY_T_ALLOCSIZE size in
         if PB_SIZE_MAX < size then Some (False, set_error s ''bytes overflow'', w)
         else if alloc_size < size then Some (False, set_error s ''size too large'', w)
         else if PB_ATYPE (ftype field) = PB_ATYPE_POINTER
         then Some (False, set_error s ''no malloc support'', w)
         else if data_size field < alloc_size
         then Some (False, set_error s ''bytes overflow'', w)
         else do {
           w \<leftarrow> mem_store_uint w dest 4 size;
           (ok, d, s, w) \<leftarrow> pb_read_some s size w;
           w \<leftarrow> mem_store w (dest + 4) d;
           Some (ok, s, w)
         }
   }"

definition pb_dec_string :: "'w decoder" where
  "pb_dec_string s field dest w = do {
     (v, s, w) \<leftarrow> pb_decode_varint32 s w;
     case v of None \<Rightarrow> Some (False, s, w)
     | Some n \<Rightarrow>
         let size = unat n; alloc_size = (size + 1) mod 2 ^ 32 in
         if alloc_size < size then Some (False, set_error s ''size too large'', w)
         else if PB_ATYPE (ftype field) = PB_ATYPE_POINTER
         then Some (False, set_error s ''no malloc support'', w)
         else if data_size field < alloc_size
         then Some (False, set_error s ''string overflow'', w)
         else do {
           (ok, d, s, w) \<leftarrow> pb_read_some s size w;
           w \<leftarrow> mem_store w dest d;
           w \<leftarrow> mem_store_uint w (dest + int size) 1 0;
           Some (ok, s, w)
         }
   }"

definition pb_dec_fixed_length_bytes :: "'w decoder" where
  "pb_dec_fixed_length_bytes s field dest w = do {
     (v, s, w) \<leftarrow> pb_decode_varint32 s w;
     case v of None \<Rightarrow> Some (False, s, w)
     | Some n \<Rightarrow>
         let size = unat n in
         if PB_SIZE_MAX < size then Some (False, set_error s ''bytes overflow'', w)
         else if size = 0 then do {
           w \<leftarrow> mem_store w dest (replicate (data_size field) 0);
           Some (True, s, w)
         }
         else if size \<noteq> data_size field
         then Some (False, set_error s ''incorrect fixed length bytes size'', w)
         else do {
           (ok, d, s, w) \<leftarrow> pb_read_some s (data_size field) w;
           w \<leftarrow> mem_store w dest d;
           Some (ok, s, w)
         }
   }"

definition pb_decode_with ::
    "nat \<Rightarrow> 'w penv \<Rightarrow> 'w message_decoder \<Rightarrow> 'w message_decoder" where
  "pb_decode_with depth env noinit s fs dest w = do {
     w \<leftarrow> pb_message_set_to_defaults depth env fs dest w;
     noinit s fs dest w
   }"

definition pb_dec_submessage ::
    "nat \<Rightarrow> 'w penv \<Rightarrow> 'w message_decoder \<Rightarrow> 'w decoder" where
  "pb_dec_submessage depth env noinit s field dest w = do {
     (sub, s, w) \<leftarrow> pb_make_string_substream s w;
     case sub of None \<Rightarrow> Some (False, s, w)
     | Some substream \<Rightarrow>
         if fptr field = Pb_null then Some (False, set_error s ''invalid field descriptor'', w)
         else do {
           fs \<leftarrow> submsg_fields field;
           (status, substream, w) \<leftarrow>
             (if PB_HTYPE (ftype field) = PB_HTYPE_REPEATED
              then pb_decode_with depth env noinit substream fs dest w
              else noinit substream fs dest w);
           (ok, s, w) \<leftarrow> pb_close_string_substream s substream w;
           if \<not> ok then Some (False, s, w) else Some (status, s, w)
         }
   }"

text \<open>
  \<open>PB_DECODERS[ltype]\<close>: no function for extensions. The table is only read at an index
  below \<open>PB_LTYPES_COUNT\<close>; past its end is undefined.
\<close>

definition PB_DECODERS ::
    "nat \<Rightarrow> 'w penv \<Rightarrow> 'w message_decoder \<Rightarrow> pb_type_t \<Rightarrow> 'w decoder option" where
  "PB_DECODERS depth env noinit ltype =
     (if ltype = PB_LTYPE_VARINT then Some pb_dec_varint
      else if ltype = PB_LTYPE_UVARINT then Some pb_dec_uvarint
      else if ltype = PB_LTYPE_SVARINT then Some pb_dec_svarint
      else if ltype = PB_LTYPE_FIXED32 then Some pb_dec_fixed32
      else if ltype = PB_LTYPE_FIXED64 then Some pb_dec_fixed64
      else if ltype = PB_LTYPE_BYTES then Some pb_dec_bytes
      else if ltype = PB_LTYPE_STRING then Some pb_dec_string
      else if ltype = PB_LTYPE_SUBMESSAGE then Some (pb_dec_submessage depth env noinit)
      else if ltype = PB_LTYPE_FIXED_LENGTH_BYTES then Some pb_dec_fixed_length_bytes
      else None)"

text \<open>A call through an entry of the table.\<close>

definition call_decoder :: "'w decoder option \<Rightarrow> 'w decoder" where
  "call_decoder func s f dest w = (case func of None \<Rightarrow> None | Some g \<Rightarrow> g s f dest w)"

section \<open>Decoding one field\<close>

text \<open>
  The parts of \<open>decode_static_field\<close>: the loop over the items of a packed array (left with
  \<open>status\<close>), the packed array, one item of an array that is not packed, and the member of
  a union that is selected (a submessage is cleared and set to its defaults first).
\<close>

definition packed_turn ::
    "'w decoder option \<Rightarrow> pb_field_iter \<Rightarrow> 'w pb_istream \<times> 'w cstate
      \<Rightarrow> ('w pb_istream \<times> 'w cstate, bool \<times> 'w pb_istream \<times> 'w cstate) turn option" where
  "packed_turn func it = (\<lambda>(substream, w).
     if bytes_left substream = 0 then Some (Leave (True, substream, w))
     else do {
       size \<leftarrow> load_uint (hmem w) (pSize it) 4;
       if array_size (ipos it) \<le> size then Some (Leave (True, substream, w))
       else do {
         let pItem = pData it + int ((data_size (ipos it) * size) mod 2 ^ 32);
         (ok, substream, w) \<leftarrow> call_decoder func substream (ipos it) pItem w;
         if \<not> ok then Some (Leave (False, substream, w))
         else do {
           size \<leftarrow> load_uint (hmem w) (pSize it) 4;
           w \<leftarrow> mem_store_uint w (pSize it) 4 (size + 1);
           Some (Continue (substream, w))
         }
       }
     })"

definition decode_packed ::
    "'w decoder option \<Rightarrow> 'w pb_istream \<Rightarrow> pb_field_iter \<Rightarrow> 'w cstate
      \<Rightarrow> (bool \<times> 'w pb_istream \<times> 'w cstate) option" where
  "decode_packed func s it w = do {
     (sub, s, w) \<leftarrow> pb_make_string_substream s w;
     case sub of None \<Rightarrow> Some (False, s, w)
     | Some substream \<Rightarrow> do {
         (status, substream, w) \<leftarrow> crun (packed_turn func it) (substream, w);
         if bytes_left substream \<noteq> 0
         then Some (False, set_error s ''array overflow'', w)
         else do {
           (ok, s, w) \<leftarrow> pb_close_string_substream s substream w;
           if \<not> ok then Some (False, s, w) else Some (status, s, w)
         }
       }
   }"

definition decode_item ::
    "'w decoder option \<Rightarrow> 'w pb_istream \<Rightarrow> pb_field_iter \<Rightarrow> 'w cstate
      \<Rightarrow> (bool \<times> 'w pb_istream \<times> 'w cstate) option" where
  "decode_item func s it w = do {
     size \<leftarrow> load_uint (hmem w) (pSize it) 4;
     let pItem = pData it + int ((data_size (ipos it) * size) mod 2 ^ 32);
     if array_size (ipos it) \<le> size then Some (False, set_error s ''array overflow'', w)
     else do {
       w \<leftarrow> mem_store_uint w (pSize it) 4 (size + 1);
       call_decoder func s (ipos it) pItem w
     }
   }"

definition select_member ::
    "nat \<Rightarrow> 'w penv \<Rightarrow> pb_field_iter \<Rightarrow> 'w cstate \<Rightarrow> 'w cstate option" where
  "select_member depth env it w = do {
     w \<leftarrow> mem_store_uint w (pSize it) 4 (unat (tag (ipos it)));
     if PB_LTYPE (ftype (ipos it)) = PB_LTYPE_SUBMESSAGE then do {
       w \<leftarrow> mem_store w (pData it) (replicate (data_size (ipos it)) 0);
       fs \<leftarrow> submsg_fields (ipos it);
       pb_message_set_to_defaults depth env fs (pData it) w
     } else Some w
   }"

definition decode_static_field ::
    "nat \<Rightarrow> 'w penv \<Rightarrow> 'w message_decoder \<Rightarrow> 'w pb_istream \<Rightarrow> nat \<Rightarrow> pb_field_iter \<Rightarrow> 'w cstate
      \<Rightarrow> (bool \<times> 'w pb_istream \<times> 'w cstate) option" where
  "decode_static_field depth env noinit s wire_type it w =
     (let f = ipos it; ty = ftype f; func = PB_DECODERS depth env noinit (PB_LTYPE ty) in
      if PB_LTYPES_COUNT \<le> unat (PB_LTYPE ty) then None
      else if PB_HTYPE ty = PB_HTYPE_REQUIRED then call_decoder func s f (pData it) w
      else if PB_HTYPE ty = PB_HTYPE_OPTIONAL then do {
        w \<leftarrow> (if pSize it \<noteq> pData it then mem_store_uint w (pSize it) 1 1 else Some w);
        call_decoder func s f (pData it) w
      }
      else if PB_HTYPE ty = PB_HTYPE_REPEATED then
        if wire_type = PB_WT_STRING \<and> PB_LTYPE ty \<le> PB_LTYPE_LAST_PACKABLE
        then decode_packed func s it w
        else decode_item func s it w
      else if PB_HTYPE ty = PB_HTYPE_ONEOF then do {
        w \<leftarrow> select_member depth env it w;
        call_decoder func s f (pData it) w
      }
      else Some (False, set_error s ''invalid field type'', w))"

text \<open>The build has no \<open>PB_ENABLE_MALLOC\<close>.\<close>

definition decode_pointer_field ::
    "'w pb_istream \<Rightarrow> nat \<Rightarrow> pb_field_iter \<Rightarrow> 'w cstate
      \<Rightarrow> (bool \<times> 'w pb_istream \<times> 'w cstate) option" where
  "decode_pointer_field s wire_type it w = Some (False, set_error s ''no malloc support'', w)"

text \<open>One call of a callback for a length-delimited field; it is called until the substream is empty.\<close>

definition callback_turn ::
    "'w penv \<Rightarrow> pb_field_iter \<Rightarrow> 'w pb_istream \<times> 'w cstate
      \<Rightarrow> ('w pb_istream \<times> 'w cstate, bool \<times> 'w pb_istream \<times> 'w cstate) turn option" where
  "callback_turn env it = (\<lambda>(substream, w). do {
     decode \<leftarrow> load_ptr (hmem w) (callback_funcs (pData it));
     let arg = callback_arg (pData it);
     if decode = 0 then None
     else do {
       (ok, substream, w) \<leftarrow> decode_callback env decode substream (ipos it) arg w;
       if \<not> ok then Some (Leave (False, substream, w))
       else if bytes_left substream \<noteq> 0 then Some (Continue (substream, w))
       else Some (Leave (True, substream, w))
     }
   })"

definition decode_callback_field ::
    "'w penv \<Rightarrow> 'w pb_istream \<Rightarrow> nat \<Rightarrow> pb_field_iter \<Rightarrow> 'w cstate
      \<Rightarrow> (bool \<times> 'w pb_istream \<times> 'w cstate) option" where
  "decode_callback_field env s wire_type it w = do {
     decode \<leftarrow> load_ptr (hmem w) (callback_funcs (pData it));
     let arg = callback_arg (pData it);
     if decode = 0 then pb_skip_field s wire_type w
     else if wire_type = PB_WT_STRING then do {
       (sub, s, w) \<leftarrow> pb_make_string_substream s w;
       case sub of None \<Rightarrow> Some (False, s, w)
       | Some substream \<Rightarrow> do {
           (ok, substream, w) \<leftarrow> crun (callback_turn env it) (substream, w);
           if \<not> ok then Some (False, set_error s ''callback failed'', w)
           else pb_close_string_substream s substream w
         }
     }
     else do {
       (ok, buffer, s, w) \<leftarrow> read_raw_value s wire_type 10 10 w;
       if \<not> ok then Some (False, s, w)
       else do {
         decode \<leftarrow> load_ptr (hmem w) (callback_funcs (pData it));
         if decode = 0 then None
         else do {
           (ok, substream, w) \<leftarrow>
             decode_callback env decode (pb_istream_from_buffer buffer (length buffer)) (ipos it) arg w;
           Some (ok, s, w)
         }
       }
     }
   }"

definition decode_field ::
    "nat \<Rightarrow> 'w penv \<Rightarrow> 'w message_decoder \<Rightarrow> 'w pb_istream \<Rightarrow> nat \<Rightarrow> pb_field_iter \<Rightarrow> 'w cstate
      \<Rightarrow> (bool \<times> 'w pb_istream \<times> 'w cstate) option" where
  "decode_field depth env noinit s wire_type it w =
     (let a = PB_ATYPE (ftype (ipos it)) in
      if a = PB_ATYPE_STATIC then decode_static_field depth env noinit s wire_type it w
      else if a = PB_ATYPE_POINTER then decode_pointer_field s wire_type it w
      else if a = PB_ATYPE_CALLBACK then decode_callback_field env s wire_type it w
      else Some (False, set_error s ''invalid field type'', w))"

definition default_extension_decoder ::
    "nat \<Rightarrow> 'w penv \<Rightarrow> 'w message_decoder \<Rightarrow> 'w pb_istream \<Rightarrow> addr \<Rightarrow> u32 \<Rightarrow> nat \<Rightarrow> 'w cstate
      \<Rightarrow> (bool \<times> 'w pb_istream \<times> 'w cstate) option" where
  "default_extension_decoder depth env noinit s extension t wire_type w = do {
     ty \<leftarrow> load_ptr (hmem w) (extension_type_at extension);
     let field = ext_arg (extension_type env ty);
     if tag field \<noteq> t then Some (True, s, w)
     else do {
       it \<leftarrow> iter_from_extension env extension w;
       w \<leftarrow> mem_store_uint w (extension_found extension) 1 1;
       decode_field depth env noinit s wire_type it w
     }
   }"

definition decode_extension ::
    "nat \<Rightarrow> 'w penv \<Rightarrow> 'w message_decoder \<Rightarrow> 'w pb_istream \<Rightarrow> u32 \<Rightarrow> nat \<Rightarrow> pb_field_iter \<Rightarrow> 'w cstate
      \<Rightarrow> (bool \<times> 'w pb_istream \<times> 'w cstate) option" where
  "decode_extension depth env noinit s t wire_type it w = do {
     extension \<leftarrow> load_ptr (hmem w) (pData it);
     let p = bytes_left s;
     crun (\<lambda>(extension, s, w).
       if extension = 0 \<or> p \<noteq> bytes_left s then Some (Leave (True, s, w))
       else do {
         ty \<leftarrow> load_ptr (hmem w) (extension_type_at extension);
         (status, s, w) \<leftarrow>
           (case ext_decode (extension_type env ty) of
              Some decode \<Rightarrow> decode s extension t wire_type w
            | None \<Rightarrow> default_extension_decoder depth env noinit s extension t wire_type w);
         if \<not> status then Some (Leave (False, s, w))
         else do {
           extension \<leftarrow> load_ptr (hmem w) (extension_next extension);
           Some (Continue (extension, s, w))
         }
       }) (extension, s, w)
   }"

definition find_extension_field :: "pb_field_iter \<Rightarrow> (bool \<times> pb_field_iter) option" where
  "find_extension_field it = iter_search (\<lambda>f. PB_LTYPE (ftype f) = PB_LTYPE_EXTENSION) it"

section \<open>Decoding a message\<close>

text \<open>\<open>fields_seen[index >> 5] |= 1 << (index & 31)\<close>, for a required field that is tracked.\<close>

definition mark_seen :: "pb_field_iter \<Rightarrow> u32 list \<Rightarrow> u32 list" where
  "mark_seen it seen =
     (let index = required_field_index it in
      if PB_HTYPE (ftype (ipos it)) = PB_HTYPE_REQUIRED \<and> index < PB_MAX_REQUIRED_FIELDS
      then seen[index div 32 := seen ! (index div 32) OR push_bit (index mod 32) 1]
      else seen)"

text \<open>
  One turn of the message loop. It leaves with \<open>True\<close> when the stream ended and with
  \<open>False\<close> when the function returns false from inside the loop.
\<close>

definition decode_turn ::
    "nat \<Rightarrow> 'w penv \<Rightarrow> 'w message_decoder
      \<Rightarrow> 'w pb_istream \<times> pb_field_iter \<times> u32 list \<times> u32 \<times> 'w cstate
      \<Rightarrow> ('w pb_istream \<times> pb_field_iter \<times> u32 list \<times> u32 \<times> 'w cstate,
          bool \<times> 'w pb_istream \<times> pb_field_iter \<times> u32 list \<times> 'w cstate) turn option" where
  "decode_turn depth env noinit =
     (\<lambda>(s, it, seen, extension_range_start, w).
       if bytes_left s = 0 then Some (Leave (True, s, it, seen, w))
       else do {
         (ok, wire_type, t, eof, s, w) \<leftarrow> pb_decode_tag s w;
         if \<not> ok then Some (Leave (eof, s, it, seen, w))
         else do {
           (found, it) \<leftarrow> pb_field_iter_find it t;
           if found then do {
             let seen = mark_seen it seen;
             (ok, s, w) \<leftarrow> decode_field depth env noinit s wire_type it w;
             if \<not> ok then Some (Leave (False, s, it, seen, w))
             else Some (Continue (s, it, seen, extension_range_start, w))
           }
           else do {
             (it, ers) \<leftarrow>
               (if extension_range_start \<le> t then do {
                  (fx, it) \<leftarrow> find_extension_field it;
                  Some (it, if \<not> fx then 0xFFFFFFFF else tag (ipos it))
                }
                else Some (it, extension_range_start));
             let p = bytes_left s;
             (ok, s, w) \<leftarrow>
               (if extension_range_start \<le> t \<and> ers \<le> t
                then decode_extension depth env noinit s t wire_type it w
                else Some (True, s, w));
             if \<not> ok then Some (Leave (False, s, it, seen, w))
             else if p \<noteq> bytes_left s then Some (Continue (s, it, seen, ers, w))
             else do {
               (ok, s, w) \<leftarrow> pb_skip_field s wire_type w;
               if \<not> ok then Some (Leave (False, s, it, seen, w))
               else Some (Continue (s, it, seen, ers, w))
             }
           }
         }
       })"

text \<open>
  The number of required fields, counted by running the iterator to the end of the array.
\<close>

definition count_required :: "pb_field_iter \<Rightarrow> nat option" where
  "count_required it =
     crun (\<lambda>it.
       let req_field_count = required_field_index it;
           last_type = ftype (ipos it);
           (more, it) = pb_field_iter_next it
       in if more then Some (Continue it)
          else Some (Leave (if PB_HTYPE last_type = PB_HTYPE_REQUIRED \<and> tag (ipos it) \<noteq> 0
                            then req_field_count + 1 else req_field_count))) it"

text \<open>
  The check of \<open>fields_seen\<close>, an array of two words. \<open>None\<close> is an index past its end
  or a shift of a 32-bit word by 32.
\<close>

definition check_required :: "u32 list \<Rightarrow> nat \<Rightarrow> bool option" where
  "check_required seen req_field_count =
     (if req_field_count = 0 then Some True
      else do {
        ok \<leftarrow> crun (\<lambda>i.
          if i < req_field_count div 32 then
            if length seen \<le> i then None
            else if seen ! i \<noteq> - 1 then Some (Leave False)
            else Some (Continue (i + 1))
          else Some (Leave True)) (0::nat);
        if \<not> ok then Some False
        else if length seen \<le> req_field_count div 32 then None
        else if 32 \<le> 32 - req_field_count mod 32 then None
        else Some (seen ! (req_field_count div 32) = drop_bit (32 - req_field_count mod 32) (- 1))
      })"

definition decode_noinit_body ::
    "nat \<Rightarrow> 'w penv \<Rightarrow> 'w message_decoder \<Rightarrow> 'w message_decoder" where
  "decode_noinit_body depth env noinit s fs dest w =
     (let (ne, it) = pb_field_iter_begin fs dest in do {
       (ok, s, it, seen, w) \<leftarrow> crun (decode_turn depth env noinit) (s, it, [0, 0], 0, w);
       if \<not> ok then Some (False, s, w)
       else do {
         req_field_count \<leftarrow> count_required it;
         present \<leftarrow> check_required seen req_field_count;
         if \<not> present then Some (False, set_error s ''missing required field'', w)
         else Some (True, s, w)
       }
     })"

text \<open>The first argument bounds the nesting of submessages.\<close>

fun pb_decode_noinit :: "nat \<Rightarrow> 'w penv \<Rightarrow> 'w message_decoder" where
  "pb_decode_noinit 0 env s fs dest w = None"
| "pb_decode_noinit (Suc depth) env s fs dest w =
     decode_noinit_body depth env (pb_decode_noinit depth env) s fs dest w"

definition pb_decode :: "nat \<Rightarrow> 'w penv \<Rightarrow> 'w message_decoder" where
  "pb_decode depth env s fs dest w =
     pb_decode_with depth env (pb_decode_noinit depth env) s fs dest w"

definition pb_decode_delimited :: "nat \<Rightarrow> 'w penv \<Rightarrow> 'w message_decoder" where
  "pb_decode_delimited depth env s fs dest w = do {
     (sub, s, w) \<leftarrow> pb_make_string_substream s w;
     case sub of None \<Rightarrow> Some (False, s, w)
     | Some substream \<Rightarrow> do {
         (status, substream, w) \<leftarrow> pb_decode depth env substream fs dest w;
         (ok, s, w) \<leftarrow> pb_close_string_substream s substream w;
         if \<not> ok then Some (False, s, w) else Some (status, s, w)
       }
   }"

end
