(* ===== verification/PbStreamInv.thy ===== *)
theory PbStreamInv
  imports PbIStream
begin

text \<open>
  What every operation on an input stream keeps. A stream is sound (\<open>source_ok\<close>) when its
  count of bytes left does not promise more than the buffer holds, or when its callback
  always returns and leaves the library's memory alone. \<open>consumes s s'\<close> says that \<open>s'\<close>
  is \<open>s\<close> after exactly \<open>bytes_left s - bytes_left s'\<close> bytes; \<open>lags s s'\<close>, which
  is all that is kept when a call returns false, that the count of bytes left went down at
  least as far as the pointer moved.
\<close>

definition reader_ok :: "'w read_callback \<Rightarrow> bool" where
  "reader_ok f \<longleftrightarrow>
     (\<forall>p n w. \<exists>ok d p' w'. f p n w = Some (ok, d, p', w') \<and> hmem w' = hmem w)"

definition source_ok :: "'w pb_istream \<Rightarrow> bool" where
  "source_ok s = (case source s of Buffer xs \<Rightarrow> bytes_left s \<le> length xs | Custom f p \<Rightarrow> reader_ok f)"

definition consumes :: "'w pb_istream \<Rightarrow> 'w pb_istream \<Rightarrow> bool" where
  "consumes s s' \<longleftrightarrow> bytes_left s' \<le> bytes_left s \<and>
     (case source s of
        Buffer xs \<Rightarrow> source s' = Buffer (drop (bytes_left s - bytes_left s') xs)
      | Custom f p \<Rightarrow> (\<exists>p'. source s' = Custom f p'))"

definition lags :: "'w pb_istream \<Rightarrow> 'w pb_istream \<Rightarrow> bool" where
  "lags s s' \<longleftrightarrow> bytes_left s' \<le> bytes_left s \<and>
     (case source s of
        Buffer xs \<Rightarrow> (\<exists>n \<le> bytes_left s - bytes_left s'. source s' = Buffer (drop n xs))
      | Custom f p \<Rightarrow> (\<exists>p'. source s' = Custom f p'))"

definition step_ok :: "'w pb_istream \<Rightarrow> bool \<Rightarrow> 'w pb_istream \<Rightarrow> bool" where
  "step_ok s ok s' \<longleftrightarrow> lags s s' \<and> (ok \<longrightarrow> consumes s s')"

lemma consumes_refl [simp, intro]: "consumes s s"
  by (cases "source s") (auto simp: consumes_def)

lemma lags_refl [simp, intro]: "lags s s"
  by (cases "source s") (auto simp: lags_def)

lemma consumes_lags: "consumes s s' \<Longrightarrow> lags s s'"
  by (auto simp: consumes_def lags_def split: isource.splits)

lemma consumes_trans [trans]: "consumes s s' \<Longrightarrow> consumes s' s'' \<Longrightarrow> consumes s s''"
  by (cases "source s") (auto simp: consumes_def add.commute split: isource.splits)

lemma lags_trans [trans]: "lags s s' \<Longrightarrow> lags s' s'' \<Longrightarrow> lags s s''"
proof (cases "source s")
  case (Buffer xs)
  assume a: "lags s s'" "lags s' s''"
  with Buffer obtain n where n: "n \<le> bytes_left s - bytes_left s'" "source s' = Buffer (drop n xs)"
    by (auto simp: lags_def)
  with a(2) obtain k where k: "k \<le> bytes_left s' - bytes_left s''"
    "source s'' = Buffer (drop k (drop n xs))"
    by (auto simp: lags_def)
  have "k + n \<le> bytes_left s - bytes_left s''"
    using n(1) k(1) a by (auto simp: lags_def)
  moreover have "source s'' = Buffer (drop (k + n) xs)" using k(2) by simp
  ultimately show ?thesis using a Buffer by (auto simp: lags_def)
next
  case (Custom f p)
  assume "lags s s'" "lags s' s''"
  with Custom show ?thesis by (auto simp: lags_def)
qed

lemma lags_source_ok: "source_ok s \<Longrightarrow> lags s s' \<Longrightarrow> source_ok s'"
  by (auto simp: source_ok_def lags_def split: isource.splits)

lemma consumes_source_ok: "source_ok s \<Longrightarrow> consumes s s' \<Longrightarrow> source_ok s'"
  using consumes_lags lags_source_ok by blast

lemma lags_bytes_left: "lags s s' \<Longrightarrow> bytes_left s' \<le> bytes_left s"
  by (simp add: lags_def split: isource.split)

lemma step_ok_refl [simp, intro]: "step_ok s ok s"
  by (simp add: step_ok_def)

lemma step_ok_lags: "step_ok s ok s' \<Longrightarrow> lags s s'"
  by (simp add: step_ok_def)

lemma step_ok_trans: "consumes s s' \<Longrightarrow> step_ok s' ok s'' \<Longrightarrow> step_ok s ok s''"
  by (auto simp: step_ok_def intro: lags_trans consumes_trans dest: consumes_lags)

lemma step_ok_false: "lags s s' \<Longrightarrow> step_ok s False s'"
  by (simp add: step_ok_def)

lemma step_ok_true: "consumes s s' \<Longrightarrow> step_ok s ok s'"
  by (simp add: step_ok_def consumes_lags)

lemma source_ok_cong: "source s' = source s \<Longrightarrow> bytes_left s' = bytes_left s \<Longrightarrow> source_ok s' = source_ok s"
  by (simp add: source_ok_def split: isource.split)

lemma lags_cong:
  "source s' = source s'' \<Longrightarrow> bytes_left s' = bytes_left s'' \<Longrightarrow> lags s s' = lags s s''"
  by (simp add: lags_def split: isource.split)

lemma consumes_cong:
  "source s' = source s'' \<Longrightarrow> bytes_left s' = bytes_left s'' \<Longrightarrow> consumes s s' = consumes s s''"
  by (simp add: consumes_def split: isource.split)

lemma lags_set_error [simp]: "lags s (set_error s' msg) = lags s s'"
  by (rule lags_cong) simp_all

lemma consumes_set_error [simp]: "consumes s (set_error s' msg) = consumes s s'"
  by (rule consumes_cong) simp_all

lemma step_ok_set_error [simp]: "step_ok s False (set_error s' msg) = lags s s'"
  by (simp add: step_ok_def)

section \<open>Reading\<close>

lemma istream_callback_ok:
  assumes "source_ok s" and "n \<le> bytes_left s"
  shows "\<exists>ok d s' w'. istream_callback s n w = Some (ok, d, s', w') \<and> hmem w' = hmem w \<and>
           length d = n \<and> bytes_left s' = bytes_left s \<and>
           consumes s (if ok then s'\<lparr>bytes_left := bytes_left s - n\<rparr> else s')"
proof (cases "source s")
  case (Buffer xs)
  with assms show ?thesis
    by (auto simp: istream_callback_def buf_read_def source_ok_def consumes_def)
next
  case (Custom f p)
  with assms obtain ok d p' w' where "f p n w = Some (ok, d, p', w')" "hmem w' = hmem w"
    unfolding source_ok_def reader_ok_def by fastforce
  with Custom assms show ?thesis
    by (auto simp: istream_callback_def consumes_def)
qed

lemma pb_read_some_ok:
  assumes "source_ok s"
  shows "\<exists>ok d s' w'. pb_read_some s n w = Some (ok, d, s', w') \<and> hmem w' = hmem w \<and>
           length d \<le> n \<and> (ok \<longrightarrow> length d = n \<and> n \<le> bytes_left s \<and> bytes_left s' = bytes_left s - n) \<and>
           step_ok s ok s'"
proof (cases "bytes_left s < n")
  case True
  then show ?thesis by (auto simp: pb_read_some_def)
next
  case False
  then have "n \<le> bytes_left s" by simp
  from istream_callback_ok [OF assms this, of w] obtain ok d s' w' where
    "istream_callback s n w = Some (ok, d, s', w')" "hmem w' = hmem w" "length d = n"
    "bytes_left s' = bytes_left s"
    "consumes s (if ok then s'\<lparr>bytes_left := bytes_left s - n\<rparr> else s')"
    by blast
  note cb = this
  show ?thesis
  proof (cases ok)
    case True
    with cb False
    have "pb_read_some s n w = Some (True, d, s'\<lparr>bytes_left := bytes_left s - n\<rparr>, w')"
      by (simp add: pb_read_some_def)
    moreover have "step_ok s True (s'\<lparr>bytes_left := bytes_left s - n\<rparr>)"
      using cb True by (simp add: step_ok_true)
    ultimately show ?thesis using cb(2,3) False by (simp add: exI [of _ True])
  next
    case False
    with cb \<open>\<not> bytes_left s < n\<close>
    have "pb_read_some s n w = Some (False, d, set_error s' ''io error'', w')"
      by (simp add: pb_read_some_def)
    with cb False show ?thesis by (simp add: exI [of _ False] consumes_lags)
  qed
qed

lemma pb_read_null_ok:
  assumes "source_ok s"
  shows "\<exists>ok s' w'. pb_read_null s n w = Some (ok, s', w') \<and> hmem w' = hmem w \<and>
           (ok \<longrightarrow> n \<le> bytes_left s \<and> bytes_left s' = bytes_left s - n) \<and> step_ok s ok s'"
proof (cases "source s")
  case (Buffer xs)
  from pb_read_some_ok [OF assms, of n w] show ?thesis
    by (auto simp: pb_read_null_def Buffer)
next
  case (Custom f p)
  let ?body = "\<lambda>(count, s, w).
            if 16 < count then do {
              (ok, d, s, w) \<leftarrow> pb_read_some s 16 w;
              if \<not> ok then Some (Leave (False, s, w)) else Some (Continue (count - 16, s, w))
            } else do {
              (ok, d, s, w) \<leftarrow> pb_read_some s count w;
              Some (Leave (ok, s, w))
            }"
  have "\<exists>r. crun ?body (n, s, w) = Some r \<and>
        (\<lambda>(ok, s', w'). hmem w' = hmem w \<and>
           (ok \<longrightarrow> n \<le> bytes_left s \<and> bytes_left s' = bytes_left s - n) \<and> step_ok s ok s') r"
  proof (rule crun_rule [where
        I = "\<lambda>(c, s', w'). source_ok s' \<and> consumes s s' \<and> hmem w' = hmem w \<and>
               c \<le> n \<and> bytes_left s' + (n - c) = bytes_left s"
        and f = "\<lambda>(c, s', w'). c"], goal_cases)
    case 1
    show ?case using assms by simp
  next
    case (2 st)
    then obtain c s1 w1 where st: "st = (c, s1, w1)" and ok1: "source_ok s1" "consumes s s1"
      "hmem w1 = hmem w" "c \<le> n" "bytes_left s1 + (n - c) = bytes_left s"
      by (cases st) auto
    from pb_read_some_ok [OF ok1(1), of "if 16 < c then 16 else c" w1] obtain ok d s2 w2 where
      r: "pb_read_some s1 (if 16 < c then 16 else c) w1 = Some (ok, d, s2, w2)" "hmem w2 = hmem w1"
      "ok \<longrightarrow> (if 16 < c then 16 else c) \<le> bytes_left s1 \<and>
             bytes_left s2 = bytes_left s1 - (if 16 < c then 16 else c)" "step_ok s1 ok s2"
      by blast
    have "step_ok s ok s2" using r ok1 by (blast intro: step_ok_trans)
    moreover have "ok \<longrightarrow> source_ok s2"
      using r ok1 by (auto simp: step_ok_def intro: consumes_source_ok)
    ultimately show ?case using r ok1 st by (auto simp: step_ok_def split: if_splits)
  qed
  then show ?thesis by (auto simp: pb_read_null_def Custom)
qed

lemma pb_readbyte_ok:
  assumes "source_ok s"
  shows "\<exists>rb s' w'. pb_readbyte s w = Some (rb, s', w') \<and> hmem w' = hmem w \<and>
           (rb \<noteq> None \<longrightarrow> Suc (bytes_left s') = bytes_left s) \<and> consumes s s'"
proof (cases "bytes_left s = 0")
  case True
  then show ?thesis by (simp add: pb_readbyte_def)
next
  case False
  then have "1 \<le> bytes_left s" by simp
  from istream_callback_ok [OF assms this, of w] obtain ok d s' w' where
    "istream_callback s 1 w = Some (ok, d, s', w')" "hmem w' = hmem w"
    "bytes_left s' = bytes_left s"
    "consumes s (if ok then s'\<lparr>bytes_left := bytes_left s - 1\<rparr> else s')"
    by blast
  with False show ?thesis
    by (cases ok) (simp_all add: pb_readbyte_def)
qed

section \<open>Variable-length integers\<close>

text \<open>
  The two decoding loops differ in the width of their result only; their turn is treated
  once, for any width.
\<close>

definition varint_turn ::
    "nat \<Rightarrow> nat \<times> 'a::len word \<times> 'w pb_istream \<times> 'w cstate
      \<Rightarrow> (nat \<times> 'a word \<times> 'w pb_istream \<times> 'w cstate, 'a word option \<times> 'w pb_istream \<times> 'w cstate) turn option" where
  "varint_turn limit = (\<lambda>(bitpos, result, s, w).
     if limit \<le> bitpos then Some (Leave (None, set_error s ''varint overflow'', w))
     else do {
       (rb, s, w) \<leftarrow> pb_readbyte s w;
       case rb of None \<Rightarrow> Some (Leave (None, s, w))
       | Some b \<Rightarrow>
           let result = result OR push_bit bitpos (ucast (b AND 0x7F)) in
           if b AND 0x80 \<noteq> 0 then Some (Continue (bitpos + 7, result, s, w))
           else Some (Leave (Some result, s, w))
     })"

lemma pb_decode_varint_turn: "pb_decode_varint s w = crun (varint_turn 64) (0, 0, s, w)"
  by (simp only: pb_decode_varint_def varint_turn_def)

lemma pb_decode_varint32_turn:
  "pb_decode_varint32 s w = do {
     (rb, s, w) \<leftarrow> pb_readbyte s w;
     case rb of None \<Rightarrow> Some (None, s, w)
     | Some b \<Rightarrow>
       if b AND 0x80 = 0 then Some (Some (ucast b), s, w)
       else crun (varint_turn 32) (7, ucast (b AND 0x7F), s, w)
   }"
  by (simp only: pb_decode_varint32_def varint_turn_def)

lemma varint_turn_ok:
  assumes "source_ok s"
  shows "\<exists>v s' w'. crun (varint_turn limit) (bitpos, r, s, w) = Some (v, s', w') \<and> hmem w' = hmem w \<and>
           (v \<noteq> None \<longrightarrow> bytes_left s' < bytes_left s) \<and> consumes s s'"
proof -
  have "\<exists>x. crun (varint_turn limit) (bitpos, r, s, w) = Some x \<and>
          (\<lambda>(v, s', w'). hmem w' = hmem w \<and>
             (v \<noteq> None \<longrightarrow> bytes_left s' < bytes_left s) \<and> consumes s s') x"
  proof (rule crun_rule [where I = "\<lambda>(b, r, s', w'). source_ok s' \<and> consumes s s' \<and> hmem w' = hmem w"
        and f = "\<lambda>(b, r, s', w'). bytes_left s'"], goal_cases)
    case 1
    show ?case using assms by simp
  next
    case (2 st)
    then obtain b r s1 w1 where st: "st = (b, r, s1, w1)" and i: "source_ok s1" "consumes s s1"
      "hmem w1 = hmem w"
      by (cases st) auto
    from pb_readbyte_ok [OF i(1), of w1] obtain rb s2 w2 where
      r: "pb_readbyte s1 w1 = Some (rb, s2, w2)" "hmem w2 = hmem w1"
        "rb \<noteq> None \<longrightarrow> Suc (bytes_left s2) = bytes_left s1" "consumes s1 s2"
      by blast
    have c: "consumes s s2" "source_ok s2"
      using i r consumes_trans consumes_source_ok by blast+
    have d: "bytes_left s2 < bytes_left s" if "rb \<noteq> None"
      using that i r by (auto simp: consumes_def)
    have e: "consumes s (set_error s1 msg)" for msg
      using i(2) by (simp cong: consumes_cong)
    show ?case
      using i r c d e by (auto simp: st varint_turn_def Let_def split: option.splits)
  qed
  then show ?thesis by auto
qed

lemma pb_decode_varint_ok:
  "source_ok s \<Longrightarrow> \<exists>v s' w'. pb_decode_varint s w = Some (v, s', w') \<and> hmem w' = hmem w \<and>
     (v \<noteq> None \<longrightarrow> bytes_left s' < bytes_left s) \<and> consumes s s'"
  unfolding pb_decode_varint_turn by (rule varint_turn_ok)

lemma pb_decode_varint32_ok:
  assumes "source_ok s"
  shows "\<exists>v s' w'. pb_decode_varint32 s w = Some (v, s', w') \<and> hmem w' = hmem w \<and>
     (v \<noteq> None \<longrightarrow> bytes_left s' < bytes_left s) \<and> consumes s s'"
proof -
  from pb_readbyte_ok [OF assms, of w] obtain rb s1 w1 where
    r: "pb_readbyte s w = Some (rb, s1, w1)" "hmem w1 = hmem w"
      "rb \<noteq> None \<longrightarrow> Suc (bytes_left s1) = bytes_left s" "consumes s s1"
    by blast
  show ?thesis
  proof (cases "rb = None \<or> (\<exists>b. rb = Some b \<and> b AND 0x80 = 0)")
    case True
    with r show ?thesis by (auto simp: pb_decode_varint32_turn)
  next
    case False
    then obtain b where b: "rb = Some b" "b AND 0x80 \<noteq> 0" by auto
    from r assms have "source_ok s1" by (auto intro: consumes_source_ok)
    from varint_turn_ok [OF this, of 32 7 "ucast (b AND 0x7F)" w1] obtain v s2 w2 where
      "crun (varint_turn 32) (7, ucast (b AND 0x7F) :: u32, s1, w1) = Some (v, s2, w2)" "hmem w2 = hmem w1"
      "v \<noteq> None \<longrightarrow> bytes_left s2 < bytes_left s1" "consumes s1 s2"
      by blast
    with r b show ?thesis
      by (auto simp: pb_decode_varint32_turn intro: consumes_trans)
  qed
qed

lemma pb_decode_svarint_ok:
  assumes "source_ok s"
  shows "\<exists>v s' w'. pb_decode_svarint s w = Some (v, s', w') \<and> hmem w' = hmem w \<and>
     (v \<noteq> None \<longrightarrow> bytes_left s' < bytes_left s) \<and> consumes s s'"
  using pb_decode_varint_ok [OF assms, of w]
  by (auto simp: pb_decode_svarint_def split: option.splits)

section \<open>Tags and skipping\<close>

lemma pb_decode_tag_ok:
  assumes "source_ok s"
  shows "\<exists>ok wt t eof s' w'. pb_decode_tag s w = Some (ok, wt, t, eof, s', w') \<and> hmem w' = hmem w \<and>
     (ok \<longrightarrow> bytes_left s' < bytes_left s \<and> wt < 8 \<and> t \<noteq> 0xFFFFFFFF) \<and> consumes s s'"
proof -
  have tag: "drop_bit 3 (t :: u32) \<noteq> 0xFFFFFFFF" for t
  proof
    assume "drop_bit 3 t = 0xFFFFFFFF"
    then have "unat (drop_bit 3 t) = 0xFFFFFFFF" by simp
    moreover have "unat (drop_bit 3 t) = unat t div 8"
      by (simp only: unat_drop_bit_eq) (simp add: drop_bit_eq_div)
    moreover have "unat t < 2 ^ 32" using unsigned_less [of t, where ?'a = nat] by simp
    ultimately show False by simp
  qed
  have wt: "unat (t AND 7 :: u32) < 8" for t
    using word_and_le1 [of t 7] by (simp add: word_le_nat_alt)
  from pb_decode_varint32_ok [OF assms, of w] obtain v s' w' where
    "pb_decode_varint32 s w = Some (v, s', w')" "hmem w' = hmem w"
    "v \<noteq> None \<longrightarrow> bytes_left s' < bytes_left s" "consumes s s'"
    by blast
  with tag wt show ?thesis by (cases v) (auto simp: pb_decode_tag_def)
qed

lemma pb_skip_varint_ok:
  assumes "source_ok s"
  shows "\<exists>ok s' w'. pb_skip_varint s w = Some (ok, s', w') \<and> hmem w' = hmem w \<and> step_ok s ok s'"
proof -
  have "\<exists>x. pb_skip_varint s w = Some x \<and> (\<lambda>(ok, s', w'). hmem w' = hmem w \<and> step_ok s ok s') x"
    unfolding pb_skip_varint_def
  proof (rule crun_rule [where I = "\<lambda>(s', w'). source_ok s' \<and> consumes s s' \<and> hmem w' = hmem w"
        and f = "\<lambda>(s', w'). bytes_left s'"], goal_cases)
    case 1
    show ?case using assms by simp
  next
    case (2 st)
    then obtain s1 w1 where st: "st = (s1, w1)" and i: "source_ok s1" "consumes s s1"
      "hmem w1 = hmem w"
      by (cases st) auto
    from pb_read_some_ok [OF i(1), of 1 w1] obtain ok d s2 w2 where
      r: "pb_read_some s1 1 w1 = Some (ok, d, s2, w2)" "hmem w2 = hmem w1"
        "ok \<longrightarrow> 1 \<le> bytes_left s1 \<and> bytes_left s2 = bytes_left s1 - 1" "step_ok s1 ok s2"
      by blast
    have "step_ok s ok s2" using i r by (blast intro: step_ok_trans)
    moreover have "ok \<longrightarrow> source_ok s2"
      using r i by (auto simp: step_ok_def intro: consumes_source_ok)
    ultimately show ?case using i r by (auto simp: st step_ok_def)
  qed
  then show ?thesis by auto
qed

lemma pb_skip_string_ok:
  assumes "source_ok s"
  shows "\<exists>ok s' w'. pb_skip_string s w = Some (ok, s', w') \<and> hmem w' = hmem w \<and> step_ok s ok s'"
proof -
  from pb_decode_varint32_ok [OF assms, of w] obtain v s1 w1 where
    r: "pb_decode_varint32 s w = Some (v, s1, w1)" "hmem w1 = hmem w"
    "v \<noteq> None \<longrightarrow> bytes_left s1 < bytes_left s" "consumes s s1"
    by blast
  show ?thesis
  proof (cases v)
    case None
    with r show ?thesis
      by (simp add: pb_skip_string_def step_ok_false consumes_lags exI [of _ False])
  next
    case (Some n)
    from r have c: "consumes s s1" by simp
    with assms have "source_ok s1" by (rule consumes_source_ok)
    from pb_read_null_ok [OF this, of "unat n" w1] c r Some show ?thesis
      by (auto simp: pb_skip_string_def intro: step_ok_trans)
  qed
qed

lemma pb_skip_field_ok:
  assumes "source_ok s"
  shows "\<exists>ok s' w'. pb_skip_field s wt w = Some (ok, s', w') \<and> hmem w' = hmem w \<and> step_ok s ok s'"
  using pb_skip_varint_ok [OF assms, of w] pb_skip_string_ok [OF assms, of w]
    pb_read_null_ok [OF assms, of 8 w] pb_read_null_ok [OF assms, of 4 w]
  by (auto simp: pb_skip_field_def exI [of _ False])

lemma read_array_ok:
  assumes "source_ok s" and "n \<le> room"
  shows "\<exists>ok d s' w'. read_array s room n w = Some (ok, d, s', w') \<and> hmem w' = hmem w \<and>
           length d \<le> n \<and> (ok \<longrightarrow> length d = n \<and> n \<le> bytes_left s \<and> bytes_left s' = bytes_left s - n) \<and>
           step_ok s ok s'"
  using pb_read_some_ok [OF assms(1), of n w] assms(2) by (auto simp: read_array_def)

lemma read_raw_value_ok:
  assumes "source_ok s" and "8 \<le> m" and "n \<le> m"
  shows "\<exists>ok d s' w'. read_raw_value s wt m n w = Some (ok, d, s', w') \<and> hmem w' = hmem w \<and>
           step_ok s ok s'"
proof (cases "wt = PB_WT_VARINT")
  case False
  then show ?thesis
    using read_array_ok [OF assms(1), of 8 m w] read_array_ok [OF assms(1), of 4 m w] assms(2)
    by (auto simp: read_raw_value_def exI [of _ False])
next
  case True
  have "\<exists>x. read_raw_value s wt m n w = Some x \<and>
          (\<lambda>(ok, d, s', w'). hmem w' = hmem w \<and> step_ok s ok s') x"
    unfolding read_raw_value_def if_P [OF True]
  proof (rule crun_rule [where I = "\<lambda>(d, s', w'). source_ok s' \<and> consumes s s' \<and> hmem w' = hmem w"
        and f = "\<lambda>(d, s', w'). bytes_left s'"], goal_cases)
    case 1
    show ?case using assms by simp
  next
    case (2 st)
    then obtain d1 s1 w1 where st: "st = (d1, s1, w1)" and i: "source_ok s1" "consumes s s1"
      "hmem w1 = hmem w"
      by (cases st) auto
    show ?case
    proof (cases "n < length d1 + 1")
      case True
      then show ?thesis using i by (simp add: st step_ok_false consumes_lags)
    next
      case False
      then have "1 \<le> m - length d1" using assms(3) by simp
      from read_array_ok [OF i(1) this, of w1] obtain ok d s2 w2 where
        r: "read_array s1 (m - length d1) 1 w1 = Some (ok, d, s2, w2)" "hmem w2 = hmem w1"
          "ok \<longrightarrow> 1 \<le> bytes_left s1 \<and> bytes_left s2 = bytes_left s1 - 1" "step_ok s1 ok s2"
        by blast
      have "step_ok s ok s2" using i r by (blast intro: step_ok_trans)
      moreover have "ok \<longrightarrow> source_ok s2"
        using r i by (auto simp: step_ok_def intro: consumes_source_ok)
      moreover have "lags s s1" using i by (simp add: consumes_lags)
      ultimately show ?thesis using i r False by (auto simp: st step_ok_def)
    qed
  qed
  then show ?thesis by auto
qed

section \<open>Substreams\<close>

text \<open>
  Opening a substream of \<open>n\<close> bytes takes the length and the \<open>n\<close> bytes from the stream,
  whose source still stands at the first of them.
\<close>

lemma pb_make_string_substream_ok:
  assumes "source_ok s"
  shows "\<exists>sub s' w'. pb_make_string_substream s w = Some (sub, s', w') \<and> hmem w' = hmem w \<and> lags s s' \<and>
    (\<forall>ss. sub = Some ss \<longrightarrow> source_ok ss \<and> bytes_left ss < bytes_left s \<and>
       source s' = source ss \<and> consumes s (s'\<lparr>bytes_left := bytes_left s' + bytes_left ss\<rparr>))"
proof -
  from pb_decode_varint32_ok [OF assms, of w] obtain v s1 w1 where
    r: "pb_decode_varint32 s w = Some (v, s1, w1)" "hmem w1 = hmem w"
    "v \<noteq> None \<longrightarrow> bytes_left s1 < bytes_left s" "consumes s s1"
    by blast
  show ?thesis
  proof (cases v)
    case None
    with r show ?thesis by (simp add: pb_make_string_substream_def consumes_lags)
  next
    case (Some n)
    with r assms have c: "consumes s s1" "source_ok s1" "bytes_left s1 < bytes_left s"
      by (auto intro: consumes_source_ok)
    show ?thesis
    proof (cases "bytes_left s1 < unat n")
      case True
      with r Some show ?thesis by (simp add: pb_make_string_substream_def consumes_lags)
    next
      case False
      have "source_ok (s1\<lparr>bytes_left := unat n\<rparr>)"
        using c(2) False by (auto simp: source_ok_def split: isource.splits)
      moreover have "lags s (s1\<lparr>bytes_left := bytes_left s1 - unat n\<rparr>)"
      proof (cases "source s")
        case (Buffer xs)
        with c(1) show ?thesis
          by (auto simp: lags_def consumes_def intro!: exI [of _ "bytes_left s - bytes_left s1"])
      next
        case (Custom f p)
        with c(1) show ?thesis by (auto simp: lags_def consumes_def)
      qed
      moreover have "consumes s (s1\<lparr>bytes_left := bytes_left s1 - unat n + unat n\<rparr>)"
        using c(1) False by (simp add: consumes_def split: isource.splits)
      ultimately show ?thesis using r Some False c by (simp add: pb_make_string_substream_def Let_def)
    qed
  qed
qed

text \<open>
  Closing it after a decoder ran on it. Whatever the decoder left unread is skipped, so
  after a successful decoder the stream stands exactly behind the substream's bytes.
\<close>

lemma pb_close_string_substream_ok:
  assumes opened: "consumes s (s1\<lparr>bytes_left := bytes_left s1 + bytes_left ss\<rparr>)"
      "source s1 = source ss" "source_ok ss" "source_ok s" "lags s s1"
    and used: "step_ok ss status ss'"
  shows "\<exists>ok s' w'. pb_close_string_substream s1 ss' w = Some (ok, s', w') \<and> hmem w' = hmem w \<and>
           step_ok s (ok \<and> status) s'"
proof -
  have ssok: "source_ok ss'" using used opened lags_source_ok step_ok_lags by blast
  have "\<exists>ok ss'' w'. (if bytes_left ss' \<noteq> 0 then pb_read_null ss' (bytes_left ss') w
          else Some (True, ss', w)) = Some (ok, ss'', w') \<and> hmem w' = hmem w \<and>
          (ok \<longrightarrow> bytes_left ss'' = 0) \<and> step_ok ss' ok ss''"
    using pb_read_null_ok [OF ssok, of "bytes_left ss'" w] by auto
  then obtain ok ss'' w' where r: "(if bytes_left ss' \<noteq> 0 then pb_read_null ss' (bytes_left ss') w
          else Some (True, ss', w)) = Some (ok, ss'', w')" "hmem w' = hmem w"
      "ok \<longrightarrow> bytes_left ss'' = 0" "step_ok ss' ok ss''"
    by blast
  show ?thesis
  proof (cases ok)
    case False
    with r opened show ?thesis
      by (simp add: pb_close_string_substream_def step_ok_def exI [of _ False])
  next
    case True
    define s2 where "s2 = s1\<lparr>source := source ss'', errmsg := errmsg ss''\<rparr>"
    have close: "pb_close_string_substream s1 ss' w = Some (True, s2, w')"
      using r True by (simp add: pb_close_string_substream_def s2_def)
    have bl: "bytes_left s2 = bytes_left s1" "bytes_left ss'' = 0" "source s2 = source ss''"
      using r True by (simp_all add: s2_def)
    have lag: "lags ss ss''" using used r(4) lags_trans step_ok_lags by blast
    have "lags s s2"
    proof (cases "source s")
      case (Custom f p)
      with opened lag bl show ?thesis by (auto simp: consumes_def lags_def)
    next
      case (Buffer xs)
      with opened have "source ss = Buffer (drop (bytes_left s - (bytes_left s1 + bytes_left ss)) xs)"
        by (simp add: consumes_def)
      with lag bl obtain n where "n \<le> bytes_left ss" "source s2 =
          Buffer (drop n (drop (bytes_left s - (bytes_left s1 + bytes_left ss)) xs))"
        by (auto simp: lags_def)
      moreover have "bytes_left s1 + bytes_left ss \<le> bytes_left s"
        using opened by (simp add: consumes_def)
      ultimately show ?thesis
        using Buffer bl
        by (auto simp: lags_def intro!: exI [of _ "n + (bytes_left s - (bytes_left s1 + bytes_left ss))"])
    qed
    moreover have "consumes s s2" if status
    proof -
      have c: "consumes ss ss''" using used r(4) True that consumes_trans by (auto simp: step_ok_def)
      show ?thesis
      proof (cases "source s")
        case (Custom f p)
        with opened c bl show ?thesis by (auto simp: consumes_def)
      next
        case (Buffer xs)
        with opened have "source ss = Buffer (drop (bytes_left s - (bytes_left s1 + bytes_left ss)) xs)"
          "bytes_left s1 + bytes_left ss \<le> bytes_left s"
          by (simp_all add: consumes_def)
        with c bl Buffer show ?thesis by (simp add: consumes_def add.commute)
      qed
    qed
    ultimately show ?thesis using close r True by (auto simp: step_ok_def)
  qed
qed

end
