(* ===== verification/PbFieldSafe.thy ===== *)
theory PbFieldSafe
  imports PbDecode PbStreamInv
begin

text \<open>
  Memory safety of the field decoders. The contract of a decoder is the locale
  \<open>field_decoder\<close>: on a descriptor that fits, a sound stream and a destination in the memory
  that may be written it returns, takes from the stream what it should, and writes only to this memory
  and to the user's own. The handling of static fields is proved once,
  from the contract, and every decoder of the table is an instance of it.
\<close>

section \<open>What a decoding function guarantees\<close>

definition dec_post ::
    "'w pb_istream \<Rightarrow> addr set \<Rightarrow> 'w cstate \<Rightarrow> (bool \<times> 'w pb_istream \<times> 'w cstate) option \<Rightarrow> bool" where
  "dec_post s R w r \<longleftrightarrow>
     (\<exists>ok s' w'. r = Some (ok, s', w') \<and> step_ok s ok s' \<and> same_outside R (hmem w) (hmem w'))"

lemma dec_post_Some [simp]:
  "dec_post s R w (Some (ok, s', w')) \<longleftrightarrow> step_ok s ok s' \<and> same_outside R (hmem w) (hmem w')"
  by (auto simp: dec_post_def)

lemma dec_postE:
  assumes "dec_post s R w r"
  obtains ok s' w' where "r = Some (ok, s', w')" "step_ok s ok s'" "same_outside R (hmem w) (hmem w')"
  using assms by (auto simp: dec_post_def)

lemma dec_post_mono: "dec_post s R w r \<Longrightarrow> R \<subseteq> S \<Longrightarrow> dec_post s S w r"
  unfolding dec_post_def by (metis same_outside_mono)

text \<open>A call after the state was changed inside the frame, or after bytes were consumed.\<close>

lemma dec_post_pre:
  "same_outside R (hmem w) (hmem w1) \<Longrightarrow> dec_post s R w1 r \<Longrightarrow> dec_post s R w r"
  unfolding dec_post_def by (metis same_outside_trans)

lemma dec_post_seq:
  "consumes s s1 \<Longrightarrow> dec_post s1 R w r \<Longrightarrow> dec_post s R w r"
  unfolding dec_post_def by (metis step_ok_trans)

lemma mem_store_safe:
  assumes "valid (hmem w) a (length bs)"
  shows "\<exists>w'. mem_store w a bs = Some w' \<and> same_outside (region a (length bs)) (hmem w) (hmem w')"
  using store_bytes_safe [OF assms] by (auto simp: mem_store_def)

lemma mem_store_uint_safe:
  assumes "valid (hmem w) a n"
  shows "\<exists>w'. mem_store_uint w a n v = Some w' \<and> same_outside (region a n) (hmem w) (hmem w')"
  using store_uint_safe [OF assms, of v] by (auto simp: mem_store_uint_def)

lemma valid_region: "valid m b k \<Longrightarrow> region a n \<subseteq> region b k \<Longrightarrow> valid m a n"
  by (auto simp: valid_def)

lemma mem_store_in:
  assumes "valid (hmem w) b k" and "b \<le> a" and "a + int (length bs) \<le> b + int k"
  shows "\<exists>w'. mem_store w a bs = Some w' \<and> same_outside (region b k) (hmem w) (hmem w')"
  using mem_store_safe [of w a bs] valid_mono [OF assms] region_subset [OF assms(2,3)]
    same_outside_mono by blast

lemma mem_store_uint_in:
  assumes "valid (hmem w) b k" and "b \<le> a" and "a + int n \<le> b + int k"
  shows "\<exists>w'. mem_store_uint w a n v = Some w' \<and> same_outside (region b k) (hmem w) (hmem w')"
  using mem_store_uint_safe [of w a n v] valid_mono [OF assms] region_subset [OF assms(2,3)]
    same_outside_mono by blast

section \<open>The contract of a decoder\<close>

text \<open>
  The addresses \<open>S\<close> that the message and its extensions have for their data, and \<open>U\<close> of the user's own memory. All other memory stays
  as it was at the start, in \<open>m\<close>.
\<close>

definition memory_ok :: "addr set \<Rightarrow> addr set \<Rightarrow> memory \<Rightarrow> memory \<Rightarrow> bool" where
  "memory_ok S U m m' \<longleftrightarrow> S \<subseteq> dom m \<and> U \<inter> S = {} \<and> same_outside (S \<union> U) m m'"

lemma memory_ok_refl: "S \<subseteq> dom m \<Longrightarrow> U \<inter> S = {} \<Longrightarrow> memory_ok S U m m"
  by (simp add: memory_ok_def)

lemma memory_ok_valid: "memory_ok S U m m' \<Longrightarrow> region a n \<subseteq> S \<Longrightarrow> valid m' a n"
  by (auto simp: memory_ok_def same_outside_def valid_def)

lemma memory_ok_step: "memory_ok S U m m1 \<Longrightarrow> same_outside (S \<union> U) m1 m2 \<Longrightarrow> memory_ok S U m m2"
  unfolding memory_ok_def using same_outside_trans by blast

lemma memory_ok_apart: "memory_ok S U m m' \<Longrightarrow> R \<subseteq> S \<Longrightarrow> U \<inter> R = {}"
  by (auto simp: memory_ok_def)

locale field_decoder =
  fixes g :: "'w decoder" and S :: "addr set" and U :: "addr set" and m :: memory and fits :: "pb_field \<Rightarrow> addr \<Rightarrow> bool"
  assumes safe:
    "fits f a \<Longrightarrow> source_ok s \<Longrightarrow> memory_ok S U m (hmem w) \<Longrightarrow> region a (data_size f) \<subseteq> S \<Longrightarrow>
       dec_post s (S \<union> U) w (g s f a w)"

text \<open>A decoder for packed arrays also takes at least one byte for every item.\<close>

locale packable_decoder = field_decoder +
  assumes progress:
    "fits f a \<Longrightarrow> source_ok s \<Longrightarrow> g s f a w = Some (True, s', w') \<Longrightarrow> bytes_left s' < bytes_left s"

section \<open>The decoders of the table\<close>

lemma store_clamped_safe:
  assumes "consumes s0 s" and "valid (hmem w) a (data_size f)" "hmem w = hmem w0"
  shows "dec_post s0 (region a (data_size f)) w0 (store_clamped nv v s f a w)"
  using assms mem_store_uint_safe [OF assms(2), of "unat v"]
  by (auto simp: store_clamped_def step_ok_def consumes_lags split: option.split)

lemma store_clamped_stream:
  "store_clamped nv v s f a w = Some (True, s', w') \<Longrightarrow> s' = s"
  by (auto simp: store_clamped_def split: option.splits if_splits bind_splits)

lemma pb_dec_varint_safe:
  assumes "source_ok s" and "valid (hmem w) a (data_size f)"
  shows "dec_post s (region a (data_size f)) w (pb_dec_varint s f a w)"
proof -
  from pb_decode_varint_ok [OF assms(1), of w] obtain v s1 w1 where
    r: "pb_decode_varint s w = Some (v, s1, w1)" "hmem w1 = hmem w"
    "v \<noteq> None \<longrightarrow> bytes_left s1 < bytes_left s" "consumes s s1"
    by blast
  show ?thesis
  proof (cases v)
    case None
    with r show ?thesis by (simp add: pb_dec_varint_def step_ok_def consumes_lags)
  next
    case (Some x)
    with r assms store_clamped_safe [of s s1 w1 a f w] show ?thesis
      by (auto simp: pb_dec_varint_def Let_def)
  qed
qed

lemma pb_dec_varint_progress:
  assumes "source_ok s" and "pb_dec_varint s f a w = Some (True, s', w')"
  shows "bytes_left s' < bytes_left s"
  using assms(2) pb_decode_varint_ok [OF assms(1), of w]
  by (auto simp: pb_dec_varint_def Let_def dest!: store_clamped_stream split: option.splits)

lemma pb_dec_uvarint_safe:
  assumes "source_ok s" and "valid (hmem w) a (data_size f)"
  shows "dec_post s (region a (data_size f)) w (pb_dec_uvarint s f a w)"
proof -
  from pb_decode_varint_ok [OF assms(1), of w] obtain v s1 w1 where
    r: "pb_decode_varint s w = Some (v, s1, w1)" "hmem w1 = hmem w"
    "v \<noteq> None \<longrightarrow> bytes_left s1 < bytes_left s" "consumes s s1"
    by blast
  show ?thesis
  proof (cases v)
    case None
    with r show ?thesis by (simp add: pb_dec_uvarint_def step_ok_def consumes_lags)
  next
    case (Some x)
    with r assms store_clamped_safe [of s s1 w1 a f w] show ?thesis
      by (auto simp: pb_dec_uvarint_def)
  qed
qed

lemma pb_dec_uvarint_progress:
  assumes "source_ok s" and "pb_dec_uvarint s f a w = Some (True, s', w')"
  shows "bytes_left s' < bytes_left s"
  using assms(2) pb_decode_varint_ok [OF assms(1), of w]
  by (auto simp: pb_dec_uvarint_def Let_def dest!: store_clamped_stream split: option.splits)

lemma pb_dec_svarint_safe:
  assumes "source_ok s" and "valid (hmem w) a (data_size f)"
  shows "dec_post s (region a (data_size f)) w (pb_dec_svarint s f a w)"
proof -
  from pb_decode_svarint_ok [OF assms(1), of w] obtain v s1 w1 where
    r: "pb_decode_svarint s w = Some (v, s1, w1)" "hmem w1 = hmem w"
    "v \<noteq> None \<longrightarrow> bytes_left s1 < bytes_left s" "consumes s s1"
    by blast
  show ?thesis
  proof (cases v)
    case None
    with r show ?thesis by (simp add: pb_dec_svarint_def step_ok_def consumes_lags)
  next
    case (Some x)
    with r assms store_clamped_safe [of s s1 w1 a f w] show ?thesis
      by (auto simp: pb_dec_svarint_def)
  qed
qed

lemma pb_dec_svarint_progress:
  assumes "source_ok s" and "pb_dec_svarint s f a w = Some (True, s', w')"
  shows "bytes_left s' < bytes_left s"
  using assms(2) pb_decode_svarint_ok [OF assms(1), of w]
  by (auto simp: pb_dec_svarint_def Let_def dest!: store_clamped_stream split: option.splits)

lemma read_store_safe:
  assumes "source_ok s" and "valid (hmem w) a k" and "n \<le> k"
  shows "\<exists>ok d s' w1. pb_read_some s n w = Some (ok, d, s', w1) \<and> hmem w1 = hmem w \<and> length d \<le> n \<and>
           step_ok s ok s' \<and> (ok \<longrightarrow> bytes_left s' = bytes_left s - n \<and> n \<le> bytes_left s) \<and>
           valid (hmem w1) a (length d)"
proof -
  from pb_read_some_ok [OF assms(1), of n w] obtain ok d s' w1 where
    "pb_read_some s n w = Some (ok, d, s', w1)" "hmem w1 = hmem w" "length d \<le> n"
    "ok \<longrightarrow> length d = n \<and> n \<le> bytes_left s \<and> bytes_left s' = bytes_left s - n" "step_ok s ok s'"
    by blast
  moreover have "valid (hmem w) a (length d)"
    by (rule valid_mono [OF assms(2)]) (use calculation assms(3) in auto)
  ultimately show ?thesis by auto
qed

lemma pb_dec_fixed32_safe:
  assumes "source_ok s" and "valid (hmem w) a (data_size f)" and "4 \<le> data_size f"
  shows "dec_post s (region a (data_size f)) w (pb_dec_fixed32 s f a w)"
proof -
  from read_store_safe [OF assms] obtain ok d s' w1 where
    r: "pb_read_some s 4 w = Some (ok, d, s', w1)" "hmem w1 = hmem w" "step_ok s ok s'"
    "ok \<longrightarrow> bytes_left s' = bytes_left s - 4 \<and> 4 \<le> bytes_left s"
    by blast
  have "valid (hmem w1) a 4" using r(2) assms(2,3) by (auto intro: valid_mono)
  from store_uint_safe [OF this, of "unat (fixed32_value d)"] obtain m' where
    m: "store_uint (hmem w1) a 4 (unat (fixed32_value d)) = Some m'"
      "same_outside (region a 4) (hmem w1) m'" by blast
  have "same_outside (region a (data_size f)) (hmem w) m'"
    using m(2) r(2) assms(3) by (auto intro: same_outside_mono simp: region_def)
  with r m show ?thesis
    by (cases ok) (auto simp: pb_dec_fixed32_def pb_decode_fixed32_def)
qed

lemma pb_dec_fixed32_progress:
  assumes "source_ok s" and "pb_dec_fixed32 s f a w = Some (True, s', w')"
  shows "bytes_left s' < bytes_left s"
  using assms(2) pb_read_some_ok [OF assms(1), of 4 w]
  by (auto simp: pb_dec_fixed32_def pb_decode_fixed32_def split: if_splits bind_splits)

lemma pb_dec_fixed64_safe:
  assumes "source_ok s" and "valid (hmem w) a (data_size f)" and "8 \<le> data_size f"
  shows "dec_post s (region a (data_size f)) w (pb_dec_fixed64 s f a w)"
proof -
  from read_store_safe [OF assms] obtain ok d s' w1 where
    r: "pb_read_some s 8 w = Some (ok, d, s', w1)" "hmem w1 = hmem w" "step_ok s ok s'"
    "ok \<longrightarrow> bytes_left s' = bytes_left s - 8 \<and> 8 \<le> bytes_left s"
    by blast
  have "valid (hmem w1) a 8" using r(2) assms(2,3) by (auto intro: valid_mono)
  from store_uint_safe [OF this, of "unat (fixed64_value d)"] obtain m' where
    m: "store_uint (hmem w1) a 8 (unat (fixed64_value d)) = Some m'"
      "same_outside (region a 8) (hmem w1) m'" by blast
  have "same_outside (region a (data_size f)) (hmem w) m'"
    using m(2) r(2) assms(3) by (auto intro: same_outside_mono simp: region_def)
  with r m show ?thesis
    by (cases ok) (auto simp: pb_dec_fixed64_def pb_decode_fixed64_def)
qed

lemma pb_dec_fixed64_progress:
  assumes "source_ok s" and "pb_dec_fixed64 s f a w = Some (True, s', w')"
  shows "bytes_left s' < bytes_left s"
  using assms(2) pb_read_some_ok [OF assms(1), of 8 w]
  by (auto simp: pb_dec_fixed64_def pb_decode_fixed64_def split: if_splits bind_splits)

lemma decoded_u32: "unat (n :: u32) < 2 ^ 32"
  using unsigned_less [of n, where ?'a = nat] by simp

text \<open>A length prefix, after which something is read to a place in the destination.\<close>

lemma pb_dec_bytes_safe:
  assumes "source_ok s" and "valid (hmem w) a (data_size f)"
  shows "dec_post s (region a (data_size f)) w (pb_dec_bytes s f a w)"
proof -
  from pb_decode_varint32_ok [OF assms(1), of w] obtain v s1 w1 where
    r: "pb_decode_varint32 s w = Some (v, s1, w1)" "hmem w1 = hmem w" "consumes s s1"
    by blast
  show ?thesis
  proof (cases v)
    case None
    with r show ?thesis by (simp add: pb_dec_bytes_def step_ok_def consumes_lags)
  next
    case (Some n)
    have al: "PB_BYTES_ARRAY_T_ALLOCSIZE (unat n) = unat n + 4"
      using decoded_u32 [of n] by (simp add: PB_BYTES_ARRAY_T_ALLOCSIZE_def)
    show ?thesis
    proof (cases "unat n \<le> PB_SIZE_MAX \<and> PB_ATYPE (ftype f) \<noteq> PB_ATYPE_POINTER \<and> unat n + 4 \<le> data_size f")
      case False
      with r Some show ?thesis
        by (auto simp: pb_dec_bytes_def Let_def al step_ok_def consumes_lags)
    next
      case True
      have v1: "valid (hmem w1) a (data_size f)" using r assms by simp
      from mem_store_uint_in [OF v1, of a 4 "unat n"] True obtain w2 where
        w2: "mem_store_uint w1 a 4 (unat n) = Some w2"
          "same_outside (region a (data_size f)) (hmem w1) (hmem w2)" by auto
      have "valid (hmem w2) a (data_size f)" using w2(2) v1 by (simp add: same_outside_valid)
      then have v2: "valid (hmem w2) (a + 4) (unat n)"
        by (rule valid_mono) (use True of_nat_mono [of "unat n + 4" "data_size f", where ?'a = int] in auto)
      have so: "source_ok s1" using r assms by (auto intro: consumes_source_ok)
      from read_store_safe [OF so v2 order_refl] obtain ok d s2 w3 where
        r3: "pb_read_some s1 (unat n) w2 = Some (ok, d, s2, w3)" "hmem w3 = hmem w2"
          "length d \<le> unat n" "step_ok s1 ok s2" by blast
      have v3: "valid (hmem w3) a (data_size f)" using v1 w2 r3 by (simp add: same_outside_valid)
      from mem_store_in [OF v3, of "a + 4" d] True r3(3) obtain w4 where
        w4: "mem_store w3 (a + 4) d = Some w4"
          "same_outside (region a (data_size f)) (hmem w3) (hmem w4)" by auto
      have "same_outside (region a (data_size f)) (hmem w) (hmem w4)"
        using w2 w4 r r3 by (metis same_outside_trans)
      moreover have "step_ok s ok s2" using r r3 step_ok_trans by blast
      ultimately show ?thesis
        using r Some True w2 r3 w4 by (simp add: pb_dec_bytes_def Let_def al)
    qed
  qed
qed

lemma pb_dec_string_safe:
  assumes "source_ok s" and "valid (hmem w) a (data_size f)"
  shows "dec_post s (region a (data_size f)) w (pb_dec_string s f a w)"
proof -
  from pb_decode_varint32_ok [OF assms(1), of w] obtain v s1 w1 where
    r: "pb_decode_varint32 s w = Some (v, s1, w1)" "hmem w1 = hmem w" "consumes s s1"
    by blast
  show ?thesis
  proof (cases v)
    case None
    with r show ?thesis by (simp add: pb_dec_string_def step_ok_def consumes_lags)
  next
    case (Some n)
    show ?thesis
    proof (cases "unat n \<le> (unat n + 1) mod 2 ^ 32 \<and> PB_ATYPE (ftype f) \<noteq> PB_ATYPE_POINTER
                    \<and> (unat n + 1) mod 2 ^ 32 \<le> data_size f")
      case False
      with r Some show ?thesis
        by (auto simp: pb_dec_string_def Let_def step_ok_def consumes_lags)
    next
      case True
      have fit: "unat n + 1 \<le> data_size f"
        using True decoded_u32 [of n] by (cases "unat n + 1 = 2 ^ 32") auto
      have v1: "valid (hmem w1) a (data_size f)" using r assms by simp
      have so: "source_ok s1" using r assms by (auto intro: consumes_source_ok)
      from read_store_safe [OF so v1, of "unat n"] fit obtain ok d s2 w3 where
        r3: "pb_read_some s1 (unat n) w1 = Some (ok, d, s2, w3)" "hmem w3 = hmem w1"
          "length d \<le> unat n" "step_ok s1 ok s2" by auto
      have v3: "valid (hmem w3) a (data_size f)" using v1 r3 by simp
      from mem_store_in [OF v3, of a d] fit r3(3) obtain w4 where
        w4: "mem_store w3 a d = Some w4"
          "same_outside (region a (data_size f)) (hmem w3) (hmem w4)" by auto
      have v4: "valid (hmem w4) a (data_size f)" using v3 w4 by (simp add: same_outside_valid)
      have fit': "a + int (unat n) + int 1 \<le> a + int (data_size f)"
        using of_nat_mono [OF fit, where ?'a = int] by simp
      from mem_store_uint_in [OF v4 _ fit'] obtain w5 where
        w5: "mem_store_uint w4 (a + int (unat n)) 1 0 = Some w5"
          "same_outside (region a (data_size f)) (hmem w4) (hmem w5)" by force
      have "same_outside (region a (data_size f)) (hmem w) (hmem w5)"
        using w4 w5 r r3 by (metis same_outside_trans)
      moreover have "step_ok s ok s2" using r r3 step_ok_trans by blast
      ultimately show ?thesis
        using r Some True r3 w4 w5 by (simp add: pb_dec_string_def Let_def)
    qed
  qed
qed

lemma pb_dec_fixed_length_bytes_safe:
  assumes "source_ok s" and "valid (hmem w) a (data_size f)"
  shows "dec_post s (region a (data_size f)) w (pb_dec_fixed_length_bytes s f a w)"
proof -
  from pb_decode_varint32_ok [OF assms(1), of w] obtain v s1 w1 where
    r: "pb_decode_varint32 s w = Some (v, s1, w1)" "hmem w1 = hmem w" "consumes s s1"
    by blast
  have v1: "valid (hmem w1) a (data_size f)" and so: "source_ok s1"
    using r assms by (auto intro: consumes_source_ok)
  show ?thesis
  proof (cases v)
    case None
    with r show ?thesis by (simp add: pb_dec_fixed_length_bytes_def step_ok_def consumes_lags)
  next
    case (Some n)
    from mem_store_safe [of w1 a "replicate (data_size f) 0"] v1 obtain w2 where
      w2: "mem_store w1 a (replicate (data_size f) 0) = Some w2"
        "same_outside (region a (data_size f)) (hmem w1) (hmem w2)" by auto
    from read_store_safe [OF so v1 order_refl] obtain ok d s2 w3 where
      r3: "pb_read_some s1 (data_size f) w1 = Some (ok, d, s2, w3)" "hmem w3 = hmem w1"
        "length d \<le> data_size f" "step_ok s1 ok s2" by auto
    have v3: "valid (hmem w3) a (data_size f)" using v1 r3 by simp
    from mem_store_in [OF v3, of a d] r3(3) obtain w4 where
      w4: "mem_store w3 a d = Some w4"
        "same_outside (region a (data_size f)) (hmem w3) (hmem w4)" by auto
    have "step_ok s ok s2" using r r3 step_ok_trans by blast
    with r Some w2 r3 w4 show ?thesis
      by (auto simp: pb_dec_fixed_length_bytes_def Let_def step_ok_def consumes_lags)
  qed
qed

section \<open>The table's entries as instances\<close>

lemma leaf_safe:
  assumes "valid (hmem w) a (data_size f) \<Longrightarrow> dec_post s (region a (data_size f)) w r"
    and "memory_ok S U m (hmem w)" and "region a (data_size f) \<subseteq> S"
  shows "dec_post s (S \<union> U) w r"
  by (rule dec_post_mono [OF assms(1) [OF memory_ok_valid [OF assms(2,3)]]]) (use assms(3) in blast)

interpretation varint: packable_decoder pb_dec_varint S U m "\<lambda>f a. True" for S U m
  by unfold_locales (rule leaf_safe, auto intro: pb_dec_varint_safe dest: pb_dec_varint_progress)

interpretation uvarint: packable_decoder pb_dec_uvarint S U m "\<lambda>f a. True" for S U m
  by unfold_locales (rule leaf_safe, auto intro: pb_dec_uvarint_safe dest: pb_dec_uvarint_progress)

interpretation svarint: packable_decoder pb_dec_svarint S U m "\<lambda>f a. True" for S U m
  by unfold_locales (rule leaf_safe, auto intro: pb_dec_svarint_safe dest: pb_dec_svarint_progress)

interpretation fixed32: packable_decoder pb_dec_fixed32 S U m "\<lambda>f a. 4 \<le> data_size f" for S U m
  by unfold_locales (rule leaf_safe, auto intro: pb_dec_fixed32_safe dest: pb_dec_fixed32_progress)

interpretation fixed64: packable_decoder pb_dec_fixed64 S U m "\<lambda>f a. 8 \<le> data_size f" for S U m
  by unfold_locales (rule leaf_safe, auto intro: pb_dec_fixed64_safe dest: pb_dec_fixed64_progress)

interpretation bytes: field_decoder pb_dec_bytes S U m "\<lambda>f a. True" for S U m
  by unfold_locales (rule leaf_safe, auto intro: pb_dec_bytes_safe)

interpretation str: field_decoder pb_dec_string S U m "\<lambda>f a. True" for S U m
  by unfold_locales (rule leaf_safe, auto intro: pb_dec_string_safe)

interpretation fixed_bytes: field_decoder pb_dec_fixed_length_bytes S U m "\<lambda>f a. True" for S U m
  by unfold_locales (rule leaf_safe, auto intro: pb_dec_fixed_length_bytes_safe)

end
