(* ===== verification/PbDecodeSafe.thy ===== *)
theory PbDecodeSafe
  imports PbFieldSafe
begin

text \<open>
  The descriptors that decoding is safe for, and default values. \<open>wf_message\<close> is the check of a
  descriptor array against the memory: every field, and every extension that hangs on the message, has its data
  in the memory that may be written. Under it, setting the defaults returns and writes nothing else.
\<close>

section \<open>Well-formed descriptors\<close>

definition required_count :: "pb_field list \<Rightarrow> nat" where
  "required_count fs = length (filter (\<lambda>f. PB_HTYPE (ftype f) = PB_HTYPE_REQUIRED) fs)"

text \<open>
  The numbers of required fields for which the check at the end of a message is defined, whatever was seen: with 32 it can shift a word by its width,
  with 64 and more it can read past the two words of flags.
\<close>

definition required_defined :: "nat \<Rightarrow> bool" where
  "required_defined n \<longleftrightarrow> n < 64 \<and> n \<noteq> 32"

text \<open>The descriptor of one entry: its type and size, and what its pointer leads to.\<close>

definition element_fits :: "pb_field \<Rightarrow> bool" where
  "element_fits f \<longleftrightarrow>
     (let l = PB_LTYPE (ftype f) in
      l \<le> PB_LTYPE_FIXED_LENGTH_BYTES \<and> l \<noteq> PB_LTYPE_EXTENSION \<and>
      (l = PB_LTYPE_FIXED32 \<longrightarrow> 4 \<le> data_size f) \<and> (l = PB_LTYPE_FIXED64 \<longrightarrow> 8 \<le> data_size f) \<and>
      (if l = PB_LTYPE_SUBMESSAGE then (case fptr f of Pb_fields fs \<Rightarrow> True | _ \<Rightarrow> False)
       else (case fptr f of Pb_null \<Rightarrow> True | Pb_default d \<Rightarrow> data_size f \<le> length d
             | Pb_fields fs \<Rightarrow> False)))"

text \<open>An item at \<open>a\<close>: it may be written, and a submessage fits there. Then a field with its data at \<open>po\<close> and its size member at \<open>so\<close>.\<close>

definition item_fits :: "addr set \<Rightarrow> (pb_field list \<Rightarrow> addr \<Rightarrow> bool) \<Rightarrow> pb_field \<Rightarrow> addr \<Rightarrow> bool" where
  "item_fits S ok_fs f a \<longleftrightarrow> region a (data_size f) \<subseteq> S \<and>
     (\<forall>fs. PB_LTYPE (ftype f) = PB_LTYPE_SUBMESSAGE \<and> fptr f = Pb_fields fs \<longrightarrow> ok_fs fs a)"

definition field_fits :: "addr set \<Rightarrow> (pb_field list \<Rightarrow> addr \<Rightarrow> bool) \<Rightarrow> pb_field \<Rightarrow> addr \<Rightarrow> addr \<Rightarrow> bool" where
  "field_fits S ok_fs f po so \<longleftrightarrow>
     (let a = PB_ATYPE (ftype f); h = PB_HTYPE (ftype f) in
      (a = PB_ATYPE_STATIC \<longrightarrow> element_fits f \<and>
         (h \<noteq> PB_HTYPE_REPEATED \<longrightarrow> item_fits S ok_fs f po) \<and>
         (h = PB_HTYPE_REPEATED \<longrightarrow> data_size f * array_size f < 2 ^ 32 \<and>
            (\<forall>i < array_size f. item_fits S ok_fs f (po + int (data_size f * i)))) \<and>
         (h = PB_HTYPE_OPTIONAL \<and> so \<noteq> po \<longrightarrow> region so 1 \<subseteq> S) \<and>
         (h = PB_HTYPE_REPEATED \<or> h = PB_HTYPE_ONEOF \<longrightarrow> region so 4 \<subseteq> S)) \<and>
      (a = PB_ATYPE_POINTER \<longrightarrow> region po 8 \<subseteq> S \<and>
         (h = PB_HTYPE_REPEATED \<or> h = PB_HTYPE_ONEOF \<longrightarrow> region so 4 \<subseteq> S)) \<and>
      (a = PB_ATYPE_CALLBACK \<longrightarrow> region po 16 \<subseteq> S))"

text \<open>
  The number of entries the code looks at: an empty array still has its terminator, which
  a tag of 0 matches.
\<close>

definition entries :: "pb_field list \<Rightarrow> nat" where
  "entries fs = max 1 (length fs)"

lemma entries_simps [simp]: "entries [] = 1" "fs \<noteq> [] \<Longrightarrow> entries fs = length fs"
  by (simp_all add: entries_def Suc_leI)

definition message_fits :: "(pb_field \<Rightarrow> addr \<Rightarrow> addr \<Rightarrow> bool) \<Rightarrow> pb_field list \<Rightarrow> addr \<Rightarrow> bool" where
  "message_fits F fs dest \<longleftrightarrow>
     (fs = [] \<or> tags_ok fs) \<and> required_defined (required_count fs) \<and>
     (\<forall>i < entries fs. F (field_at fs i) (pData (iter_at fs dest i)) (pSize (iter_at fs dest i)))"

text \<open>
  The list of extensions at a pointer, in the memory at the start. Decoding writes to the \<open>found\<close> member and to the data of an extension,
  and nowhere else in the list. A field of its own that is an extension is not allowed.
\<close>

definition holds_ptr :: "addr set \<Rightarrow> memory \<Rightarrow> addr \<Rightarrow> addr \<Rightarrow> bool" where
  "holds_ptr R m p x \<longleftrightarrow> region p 8 \<inter> R = {} \<and> load_ptr m p = Some x"

inductive extensions_fit :: "'w penv \<Rightarrow> addr set \<Rightarrow> addr set \<Rightarrow> memory \<Rightarrow> (pb_field \<Rightarrow> addr \<Rightarrow> addr \<Rightarrow> bool) \<Rightarrow> addr \<Rightarrow> bool"
  for env S U m F where
  none: "extensions_fit env S U m F 0"
| extension: "extensions_fit env S U m F e"
    if "e \<noteq> 0" and "holds_ptr (S \<union> U) m (extension_type_at e) ty" and "f = ext_arg (extension_type env ty)"
      and "PB_LTYPE (ftype f) \<noteq> PB_LTYPE_EXTENSION" and "region (extension_found e) 1 \<subseteq> S"
      and "if PB_ATYPE (ftype f) = PB_ATYPE_POINTER then a = extension_dest e else holds_ptr (S \<union> U) m (extension_dest e) a"
      and "F f a (extension_found e)"
      and "holds_ptr (S \<union> U) m (extension_next e) nx" and "extensions_fit env S U m F nx"

fun field_ok :: "'w penv \<Rightarrow> addr set \<Rightarrow> addr set \<Rightarrow> memory \<Rightarrow> nat \<Rightarrow> pb_field \<Rightarrow> addr \<Rightarrow> addr \<Rightarrow> bool" where
  "field_ok env S U m 0 f po so \<longleftrightarrow> False"
| "field_ok env S U m (Suc d) f po so \<longleftrightarrow>
     (if PB_LTYPE (ftype f) = PB_LTYPE_EXTENSION
      then (\<exists>e. holds_ptr (S \<union> U) m po e \<and> extensions_fit env S U m (field_ok env S U m d) e)
      else field_fits S (message_fits (field_ok env S U m d)) f po so)"

text \<open>
  A message whose descriptors are \<open>fs\<close>, at \<open>dest\<close>, with submessages and extensions nested no deeper than \<open>d\<close>.
\<close>

definition wf_message :: "'w penv \<Rightarrow> addr set \<Rightarrow> addr set \<Rightarrow> memory \<Rightarrow> nat \<Rightarrow> pb_field list \<Rightarrow> addr \<Rightarrow> bool" where
  "wf_message env S U m d = message_fits (field_ok env S U m d)"

lemma item_fits_mono: "(\<And>fs a. P fs a \<Longrightarrow> Q fs a) \<Longrightarrow> item_fits S P f a \<Longrightarrow> item_fits S Q f a"
  by (auto simp: item_fits_def)

lemma field_fits_mono:
  assumes "\<And>fs a. P fs a \<Longrightarrow> Q fs a" and "field_fits S P f po so"
  shows "field_fits S Q f po so"
  using assms(2) item_fits_mono [of P Q S f, OF assms(1)] by (auto simp: field_fits_def Let_def)

lemma message_fits_mono: "(\<And>f a b. P f a b \<Longrightarrow> Q f a b) \<Longrightarrow> message_fits P fs dest \<Longrightarrow> message_fits Q fs dest"
  by (auto simp: message_fits_def)

lemma extensions_fit_mono:
  assumes "extensions_fit env S U m P e" and "\<And>f a b. P f a b \<Longrightarrow> Q f a b"
  shows "extensions_fit env S U m Q e"
  using assms(1)
proof induction
  case none
  show ?case by (rule extensions_fit.none)
next
  case (extension e ty f a nx)
  from extension.hyps(1-6) assms(2) [OF extension.hyps(7)] extension.hyps(8) extension.IH show ?case
    by (rule extensions_fit.extension)
qed

lemma field_ok_mono: "field_ok env S U m d f po so \<Longrightarrow> d \<le> e \<Longrightarrow> field_ok env S U m e f po so"
proof (induction d arbitrary: e f po so)
  case 0
  then show ?case by simp
next
  case (Suc d)
  then obtain e' where e: "e = Suc e'" "d \<le> e'" by (cases e) auto
  have up: "field_ok env S U m d f a b \<Longrightarrow> field_ok env S U m e' f a b" for f a b using Suc.IH e(2) by blast
  show ?case
  proof (cases "PB_LTYPE (ftype f) = PB_LTYPE_EXTENSION")
    case True
    then obtain x where x: "holds_ptr (S \<union> U) m po x" "extensions_fit env S U m (field_ok env S U m d) x"
      using Suc.prems(1) by auto
    from extensions_fit_mono [OF x(2) up] x(1) True show ?thesis by (auto simp: e(1))
  next
    case False
    then have "field_fits S (message_fits (field_ok env S U m d)) f po so" using Suc.prems(1) by simp
    from field_fits_mono [OF message_fits_mono [OF up] this] False show ?thesis by (simp add: e(1))
  qed
qed

lemma wf_message_mono: "wf_message env S U m d fs a \<Longrightarrow> d \<le> e \<Longrightarrow> wf_message env S U m e fs a"
  unfolding wf_message_def using message_fits_mono field_ok_mono by metis

lemma ipos_iter_at:
  assumes "fs = [] \<or> tags_ok fs" and "i < entries fs"
  shows "ipos (iter_at fs dest i) = field_at fs i"
proof (cases "fs = []")
  case True
  with assms(2) have "i = 0" by (simp add: entries_def)
  then show ?thesis using True by simp
next
  case False
  with assms iter_at_pos [of fs i dest] show ?thesis by auto
qed

lemma message_fits_field:
  assumes "message_fits F fs dest" and "i < entries fs"
  shows "F (ipos (iter_at fs dest i)) (pData (iter_at fs dest i)) (pSize (iter_at fs dest i))"
  using assms ipos_iter_at [of fs i dest] by (simp add: message_fits_def)

lemma field_fits_item:
  assumes "field_fits S ok_fs f po so" and "PB_ATYPE (ftype f) = PB_ATYPE_STATIC" and "PB_HTYPE (ftype f) = PB_HTYPE_REPEATED"
    and "n < array_size f"
  shows "item_fits S ok_fs f (po + int ((data_size f * n) mod 2 ^ 32))"
proof -
  have small: "data_size f * array_size f < 2 ^ 32" and items: "\<forall>i < array_size f. item_fits S ok_fs f (po + int (data_size f * i))"
    using assms(1-3) by (simp_all add: field_fits_def Let_def)
  have "data_size f * n \<le> data_size f * array_size f" by (rule mult_le_mono2) (use assms(4) in simp)
  then have "data_size f * n < 2 ^ 32" using small by (rule le_less_trans)
  then have "(data_size f * n) mod 2 ^ 32 = data_size f * n" by simp
  then show ?thesis using items assms(4) by simp
qed

section \<open>Pointers that stay\<close>

lemma load_ptr_outside:
  assumes "same_outside R m m'" and "R \<inter> region a 8 = {}"
  shows "load_ptr m' a = load_ptr m a"
proof -
  have "load_bytes m' a 8 = load_bytes m a 8"
    by (rule load_bytes_cong) (use assms in \<open>auto simp: same_outside_def\<close>)
  then show ?thesis by (simp add: load_ptr_def load_uint_def)
qed

lemma holds_ptr_load: "holds_ptr (S \<union> U) m p x \<Longrightarrow> memory_ok S U m m' \<Longrightarrow> load_ptr m' p = Some x"
  using load_ptr_outside [of "S \<union> U" m m' p] by (auto simp: holds_ptr_def memory_ok_def)

lemma load_ptr_valid: "valid m a 8 \<Longrightarrow> \<exists>p. load_ptr m a = Some p"
  using load_uint_valid [of m a 8] by (auto simp: load_ptr_def)

section \<open>Default values\<close>

lemma message_defaults_total:
  assumes "fs = [] \<or> tags_ok fs"
    and step: "\<And>i w. i < length fs \<Longrightarrow> I w \<Longrightarrow> \<exists>w'. set_field (iter_at fs dest i) w = Some w' \<and> I w'"
    and "I w"
  shows "\<exists>w'. message_defaults set_field fs dest w = Some w' \<and> I w'"
proof (cases "fs = []")
  case True
  with \<open>I w\<close> show ?thesis
    by (simp add: message_defaults_def pb_field_iter_begin_def Let_def field_at_def)
next
  case False
  with assms have ok: "tags_ok fs" by simp
  then have ne: "pb_field_iter_begin fs dest = (True, iter_at fs dest 0)"
    using tags_ok_field_at [of fs 0] False by (simp add: prod_eq_iff)
  have "\<exists>t. iter_do (\<lambda>it w. map_option Continue (set_field it w)) (iter_at fs dest 0) w = Some t \<and>
          (case t of Continue w' \<Rightarrow> I w' | Leave w' \<Rightarrow> I w')"
    by (rule iter_do_rule [OF ok, where I = "\<lambda>_. I", OF \<open>I w\<close>]) (use step in fastforce)
  then obtain t where "iter_do (\<lambda>it w. map_option Continue (set_field it w)) (iter_at fs dest 0) w = Some t"
    "case t of Continue w' \<Rightarrow> I w' | Leave w' \<Rightarrow> I w'" by blast
  with ne show ?thesis
    by (cases t) (simp_all add: message_defaults_def del: iter_at.simps)
qed

text \<open>Only \<open>S\<close> may change.\<close>

definition frame :: "addr set \<Rightarrow> 'w cstate \<Rightarrow> 'w cstate \<Rightarrow> bool" where
  "frame S w w' \<longleftrightarrow> same_outside S (hmem w) (hmem w')"

lemma frame_refl [simp, intro]: "frame S w w"
  by (simp add: frame_def)

lemma frame_trans [trans]: "frame S w w' \<Longrightarrow> frame S w' w'' \<Longrightarrow> frame S w w''"
  unfolding frame_def by (rule same_outside_trans)

lemma frame_memory_ok: "memory_ok S U m (hmem w) \<Longrightarrow> frame S w w' \<Longrightarrow> memory_ok S U m (hmem w')"
  unfolding frame_def by (erule memory_ok_step) (rule same_outside_mono, auto)

lemma store_frame:
  assumes "memory_ok S U m (hmem w)" and "region a (length bs) \<subseteq> S"
  shows "\<exists>w'. mem_store w a bs = Some w' \<and> frame S w w'"
  using mem_store_safe [OF memory_ok_valid [OF assms]] same_outside_mono [OF _ assms(2)] unfolding frame_def by blast

lemma store_uint_frame:
  assumes "memory_ok S U m (hmem w)" and "region a n \<subseteq> S"
  shows "\<exists>w'. mem_store_uint w a n v = Some w' \<and> frame S w w'"
  using mem_store_uint_safe [OF memory_ok_valid [OF assms]] same_outside_mono [OF _ assms(2)] unfolding frame_def by blast

text \<open>A frame in two steps, the second of which starts in a sound memory.\<close>

lemma frame_then:
  assumes "memory_ok S U m (hmem w)" and "frame S w w1"
    and "memory_ok S U m (hmem w1) \<Longrightarrow> \<exists>w'. r = Some w' \<and> frame S w1 w'"
  shows "\<exists>w'. r = Some w' \<and> frame S w w'"
  using assms frame_memory_ok frame_trans by blast

lemma default_data_safe:
  assumes el: "element_fits f" and it: "item_fits S ok_fs f a" and m: "memory_ok S U m (hmem w)"
    and sub: "\<And>fs. ok_fs fs a \<Longrightarrow> \<exists>w'. set_message fs a w = Some w' \<and> frame S w w'"
  shows "\<exists>w'. default_data set_message f a w = Some w' \<and> frame S w w'"
proof (cases "PB_LTYPE (ftype f) = PB_LTYPE_SUBMESSAGE")
  case True
  with el it obtain fs where "fptr f = Pb_fields fs" "ok_fs fs a"
    by (auto simp: element_fits_def item_fits_def Let_def split: pb_ptr.splits)
  with sub [OF this(2)] True show ?thesis
    by (simp add: default_data_def submsg_fields_def)
next
  case False
  have "\<exists>w'. mem_store w a bs = Some w' \<and> frame S w w'" if "length bs = data_size f" for bs
    using store_frame [OF m, of a bs] it that by (simp add: item_fits_def)
  from this [of "replicate (data_size f) 0"] this [of "take (data_size f) d" for d] False el
  show ?thesis
    by (auto simp: default_data_def element_fits_def Let_def split: pb_ptr.splits)
qed

text \<open>A field that is no extension, and then the list of extensions.\<close>

lemma field_default_safe:
  assumes fit: "field_fits S ok_fs (ipos it) (pData it) (pSize it)"
    and noext: "PB_LTYPE (ftype (ipos it)) \<noteq> PB_LTYPE_EXTENSION"
    and m: "memory_ok S U m (hmem w)"
    and sub: "\<And>fs a w. ok_fs fs a \<Longrightarrow> memory_ok S U m (hmem w) \<Longrightarrow>
          \<exists>w'. message_defaults (pb_field_set_to_default d env) fs a w = Some w' \<and> frame S w w'"
  shows "\<exists>w'. pb_field_set_to_default (Suc d) env it w = Some w' \<and> frame S w w'"
proof -
  let ?f = "ipos it" and ?a = "PB_ATYPE (ftype (ipos it))" and ?h = "PB_HTYPE (ftype (ipos it))"
  consider (static) "?a = PB_ATYPE_STATIC" | (pointer) "?a = PB_ATYPE_POINTER"
    | (other) "?a \<noteq> PB_ATYPE_STATIC" "?a \<noteq> PB_ATYPE_POINTER" by blast
  then show ?thesis
  proof cases
    case other
    then show ?thesis using noext by simp
  next
    case pointer
    have po: "region (pData it) 8 \<subseteq> S"
      and so: "?h = PB_HTYPE_REPEATED \<or> ?h = PB_HTYPE_ONEOF \<Longrightarrow> region (pSize it) 4 \<subseteq> S"
      using fit pointer by (auto simp: field_fits_def Let_def)
    from store_uint_frame [OF m po] obtain w1 where
      w1: "mem_store_uint w (pData it) 8 0 = Some w1" "frame S w w1" by blast
    show ?thesis
    proof (cases "?h = PB_HTYPE_REPEATED \<or> ?h = PB_HTYPE_ONEOF")
      case True
      from store_uint_frame [OF frame_memory_ok [OF m w1(2)] so [OF True]] obtain w2 where
        "mem_store_uint w1 (pSize it) 4 0 = Some w2" "frame S w1 w2" by blast
      with True noext pointer w1 frame_trans show ?thesis by auto
    next
      case False
      with noext pointer w1 show ?thesis by auto
    qed
  next
    case static
    have el: "element_fits ?f" and po: "?h \<noteq> PB_HTYPE_REPEATED \<Longrightarrow> item_fits S ok_fs ?f (pData it)"
      and flag: "?h = PB_HTYPE_OPTIONAL \<and> pSize it \<noteq> pData it \<Longrightarrow> region (pSize it) 1 \<subseteq> S"
      and so: "?h = PB_HTYPE_REPEATED \<or> ?h = PB_HTYPE_ONEOF \<Longrightarrow> region (pSize it) 4 \<subseteq> S"
      using fit static by (auto simp: field_fits_def Let_def)
    show ?thesis
    proof (cases "?h = PB_HTYPE_REPEATED \<or> ?h = PB_HTYPE_ONEOF")
      case True
      from store_uint_frame [OF m so [OF True]] obtain w1 where
        "mem_store_uint w (pSize it) 4 0 = Some w1" "frame S w w1" by blast
      moreover have "?h \<noteq> PB_HTYPE_OPTIONAL" using True by auto
      ultimately show ?thesis using True noext static by (simp add: Let_def)
    next
      case False
      have "\<exists>w1. (if ?h = PB_HTYPE_OPTIONAL \<and> pSize it \<noteq> pData it
                   then mem_store_uint w (pSize it) 1 0 else Some w) = Some w1 \<and> frame S w w1"
        using store_uint_frame [OF m flag, of 0] by auto
      then obtain w1 where w1: "(if ?h = PB_HTYPE_OPTIONAL \<and> pSize it \<noteq> pData it
          then mem_store_uint w (pSize it) 1 0 else Some w) = Some w1" "frame S w w1"
        by blast
      note m1 = frame_memory_ok [OF m w1(2)]
      have po': "item_fits S ok_fs ?f (pData it)" using po False by simp
      from default_data_safe [OF el po' m1, of "message_defaults (pb_field_set_to_default d env)"] sub [OF _ m1] obtain w2 where
        w2: "default_data (message_defaults (pb_field_set_to_default d env)) ?f (pData it) w1 = Some w2"
          "frame S w1 w2" by blast
      have "frame S w w2" using w1(2) w2(2) by (rule frame_trans)
      with w1(1) w2(1) False noext static show ?thesis
        by (auto simp: Let_def split: if_splits)
    qed
  qed
qed

lemma iter_from_extension_at:
  assumes "holds_ptr (S \<union> U) m (extension_type_at e) ty" and "f = ext_arg (extension_type env ty)"
    and "if PB_ATYPE (ftype f) = PB_ATYPE_POINTER then a = extension_dest e else holds_ptr (S \<union> U) m (extension_dest e) a"
    and "PB_ATYPE (ftype f) = PB_ATYPE_POINTER \<Longrightarrow> region (extension_dest e) 8 \<subseteq> S"
    and m: "memory_ok S U m (hmem w)"
  shows "\<exists>it. iter_from_extension env e w = Some it \<and> ipos it = f \<and> pData it = a \<and> pSize it = extension_found e"
proof -
  have ty: "load_ptr (hmem w) (extension_type_at e) = Some ty" by (rule holds_ptr_load [OF assms(1) m])
  have "\<exists>dest. load_ptr (hmem w) (extension_dest e) = Some dest \<and> (PB_ATYPE (ftype f) \<noteq> PB_ATYPE_POINTER \<longrightarrow> dest = a)"
  proof (cases "PB_ATYPE (ftype f) = PB_ATYPE_POINTER")
    case True
    then show ?thesis using load_ptr_valid [OF memory_ok_valid [OF m assms(4)]] by blast
  next
    case False
    then show ?thesis using holds_ptr_load [OF _ m] assms(3) by auto
  qed
  then obtain dest where d: "load_ptr (hmem w) (extension_dest e) = Some dest" "PB_ATYPE (ftype f) \<noteq> PB_ATYPE_POINTER \<longrightarrow> dest = a" by blast
  show ?thesis
    using ty d assms(2,3) by (auto simp: iter_from_extension_def Let_def field_at_def)
qed

lemma field_ok_pointer:
  assumes "field_ok env S U m d f a so" and "PB_LTYPE (ftype f) \<noteq> PB_LTYPE_EXTENSION" and "PB_ATYPE (ftype f) = PB_ATYPE_POINTER"
  shows "region a 8 \<subseteq> S"
  using assms by (cases d) (auto simp: field_fits_def Let_def)

definition defaults_turn ::
    "(pb_field_iter \<Rightarrow> 'w cstate \<Rightarrow> 'w cstate option) \<Rightarrow> 'w penv \<Rightarrow> addr \<times> 'w cstate \<Rightarrow> (addr \<times> 'w cstate, 'w cstate) turn option" where
  "defaults_turn set_field env = (\<lambda>(ext, w).
     if ext = 0 then Some (Leave w)
     else do {
       w \<leftarrow> mem_store_uint w (extension_found ext) 1 0;
       ext_iter \<leftarrow> iter_from_extension env ext w;
       w \<leftarrow> set_field ext_iter w;
       ext \<leftarrow> load_ptr (hmem w) (extension_next ext);
       Some (Continue (ext, w))
     })"

lemma extension_defaults_safe:
  assumes "extensions_fit env S U m (field_ok env S U m d) e" and "memory_ok S U m (hmem w)"
    and field: "\<And>it w. field_ok env S U m d (ipos it) (pData it) (pSize it) \<Longrightarrow> memory_ok S U m (hmem w) \<Longrightarrow>
        \<exists>w'. set_field it w = Some w' \<and> frame S w w'"
  shows "\<exists>w'. crun (defaults_turn set_field env) (e, w) = Some w' \<and> frame S w w'"
  using assms(1,2)
proof (induction arbitrary: w)
  case none
  have "crun (defaults_turn set_field env) (0, w) = Some w" by (rule crun_Leave) (simp add: defaults_turn_def)
  then show ?case by auto
next
  case (extension e ty f a nx)
  from store_uint_frame [OF extension.prems extension.hyps(5)] obtain w1 where
    w1: "mem_store_uint w (extension_found e) 1 0 = Some w1" "frame S w w1" by blast
  note m1 = frame_memory_ok [OF extension.prems w1(2)]
  have "PB_ATYPE (ftype f) = PB_ATYPE_POINTER \<Longrightarrow> region (extension_dest e) 8 \<subseteq> S"
    using field_ok_pointer [OF extension.hyps(7,4)] extension.hyps(6) by simp
  from iter_from_extension_at [OF extension.hyps(2,3,6) this m1] obtain it where
    it: "iter_from_extension env e w1 = Some it" "ipos it = f" "pData it = a" "pSize it = extension_found e" by blast
  from field [of it w1] extension.hyps(7) it m1 obtain w2 where
    w2: "set_field it w1 = Some w2" "frame S w1 w2" by auto
  note m2 = frame_memory_ok [OF m1 w2(2)]
  have "crun (defaults_turn set_field env) (e, w) = crun (defaults_turn set_field env) (nx, w2)"
    by (rule crun_Continue) (use extension.hyps(1) w1(1) it(1) w2(1) holds_ptr_load [OF extension.hyps(8) m2] in \<open>simp add: defaults_turn_def\<close>)
  moreover from extension.IH [OF m2] obtain w3 where
    "crun (defaults_turn set_field env) (nx, w2) = Some w3" "frame S w2 w3" by blast
  ultimately show ?case using w1(2) w2(2) frame_trans by metis
qed

lemma message_defaults_fits:
  assumes fit: "message_fits F fs dest" and m: "memory_ok S U m (hmem w)"
    and field: "\<And>it w. F (ipos it) (pData it) (pSize it) \<Longrightarrow> memory_ok S U m (hmem w) \<Longrightarrow> \<exists>w'. set_field it w = Some w' \<and> frame S w w'"
  shows "\<exists>w'. message_defaults set_field fs dest w = Some w' \<and> frame S w w'"
proof (rule message_defaults_total [where I = "\<lambda>w'. frame S w w'"])
  show "fs = [] \<or> tags_ok fs" using fit by (simp add: message_fits_def)
  fix i w1
  assume i: "i < length fs" and f1: "frame S w w1"
  then have "i < entries fs" by (simp add: entries_def)
  from frame_then [OF m f1 field [OF message_fits_field [OF fit this]]]
  show "\<exists>w'. set_field (iter_at fs dest i) w1 = Some w' \<and> frame S w w'" by blast
qed simp

lemma field_set_to_default_safe:
  "field_ok env S U m d (ipos it) (pData it) (pSize it) \<Longrightarrow> memory_ok S U m (hmem w) \<Longrightarrow>
     \<exists>w'. pb_field_set_to_default d env it w = Some w' \<and> frame S w w'"
proof (induction d arbitrary: it w)
  case 0
  then show ?case by simp
next
  case (Suc d)
  show ?case
  proof (cases "PB_LTYPE (ftype (ipos it)) = PB_LTYPE_EXTENSION")
    case True
    then obtain e where e: "holds_ptr (S \<union> U) m (pData it) e" "extensions_fit env S U m (field_ok env S U m d) e"
      using Suc.prems(1) by auto
    from extension_defaults_safe [OF e(2) Suc.prems(2), of "pb_field_set_to_default d env", OF Suc.IH] obtain w' where
      "crun (defaults_turn (pb_field_set_to_default d env) env) (e, w) = Some w'" "frame S w w'" by blast
    with True holds_ptr_load [OF e(1) Suc.prems(2)] show ?thesis by (simp add: defaults_turn_def)
  next
    case False
    then have "field_fits S (message_fits (field_ok env S U m d)) (ipos it) (pData it) (pSize it)" using Suc.prems(1) by simp
    then show ?thesis
      by (rule field_default_safe [OF _ False Suc.prems(2)]) (rule message_defaults_fits [OF _ _ Suc.IH])
  qed
qed

lemma message_defaults_safe:
  assumes "wf_message env S U m d fs dest" and "memory_ok S U m (hmem w)"
  shows "\<exists>w'. message_defaults (pb_field_set_to_default d env) fs dest w = Some w' \<and> frame S w w'"
  using message_defaults_fits [OF assms(1) [unfolded wf_message_def] assms(2) field_set_to_default_safe] .

lemma pb_message_set_to_defaults_safe:
  assumes "wf_message env S U m d fs dest" and "memory_ok S U m (hmem w)"
  shows "\<exists>w'. pb_message_set_to_defaults d env fs dest w = Some w' \<and> frame S w w'"
  using message_defaults_safe [OF assms] by (simp add: pb_message_set_to_defaults_def)

end
