(* ===== verification/PbMessageSafe.thy ===== *)
theory PbMessageSafe
  imports PbDecodeSafe
begin

text \<open>
  Static fields from the contract of their decoder: required, optional and union members, items of arrays, and packed arrays.
\<close>

lemma dec_post_frame:
  assumes "frame S w w1" and "dec_post s (S \<union> U) w1 r"
  shows "dec_post s (S \<union> U) w r"
  by (rule dec_post_pre [OF _ assms(2)]) (use assms(1) same_outside_mono in \<open>auto simp: frame_def\<close>)

text \<open>The values of the low-level type of a field.\<close>

lemma ltype_cases:
  assumes "(l :: 8 word) \<le> 9" and "l \<noteq> 8"
  shows "l = 0 \<or> l = 1 \<or> l = 2 \<or> l = 3 \<or> l = 4 \<or> l = 5 \<or> l = 6 \<or> l = 7 \<or> l = 9"
proof -
  have "unat l \<le> 9" using assms(1) by (simp add: word_le_nat_alt)
  moreover have "unat l \<noteq> 8" using assms(2) by (simp add: word_unat_eq_iff)
  ultimately have "unat l = 0 \<or> unat l = 1 \<or> unat l = 2 \<or> unat l = 3 \<or> unat l = 4 \<or> unat l = 5
    \<or> unat l = 6 \<or> unat l = 7 \<or> unat l = 9" by presburger
  then show ?thesis by (simp add: word_unat_eq_iff)
qed

section \<open>Static fields\<close>

lemma PB_DECODERS_bound:
  "PB_DECODERS depth env noinit l = Some g \<Longrightarrow> \<not> PB_LTYPES_COUNT \<le> unat l"
  by (auto simp: PB_DECODERS_def split: if_splits)

lemma select_member_safe:
  assumes el: "element_fits (ipos it)" and po: "item_fits S (wf_message env S U m d) (ipos it) (pData it)"
    and so: "region (pSize it) 4 \<subseteq> S" and m: "memory_ok S U m (hmem w)"
  shows "\<exists>w'. select_member d env it w = Some w' \<and> frame S w w'"
proof -
  let ?f = "ipos it"
  from store_uint_frame [OF m so, of "unat (tag ?f)"] obtain w1 where
    w1: "mem_store_uint w (pSize it) 4 (unat (tag ?f)) = Some w1" "frame S w w1" by auto
  note m1 = frame_memory_ok [OF m w1(2)]
  show ?thesis
  proof (cases "PB_LTYPE (ftype ?f) = PB_LTYPE_SUBMESSAGE")
    case True
    then obtain fs where fs: "fptr ?f = Pb_fields fs" "wf_message env S U m d fs (pData it)"
      using el po by (auto simp: element_fits_def item_fits_def Let_def split: pb_ptr.splits)
    from store_frame [OF m1, of "pData it" "replicate (data_size ?f) 0"] po obtain w2 where
      w2: "mem_store w1 (pData it) (replicate (data_size ?f) 0) = Some w2" "frame S w1 w2"
      by (auto simp: item_fits_def)
    from pb_message_set_to_defaults_safe [OF fs(2) frame_memory_ok [OF m1 w2(2)]] obtain w3 where
      w3: "pb_message_set_to_defaults d env fs (pData it) w2 = Some w3" "frame S w2 w3" by blast
    have "frame S w w3" using w1(2) w2(2) w3(2) frame_trans by blast
    with True fs w1 w2 w3 show ?thesis by (simp add: submsg_fields_def select_member_def)
  next
    case False
    with w1 show ?thesis by (simp add: select_member_def)
  qed
qed

context field_decoder
begin

lemma call_safe:
  assumes "fits f a" and "source_ok s" and "memory_ok S U m (hmem w)" and "item_fits S ok_fs f a"
  shows "dec_post s (S \<union> U) w (call_decoder (Some g) s f a w)"
  using safe [OF assms(1-3)] assms(4) by (simp add: call_decoder_def item_fits_def)

lemma call_after_store:
  assumes "fits f a" and "source_ok s" and m: "memory_ok S U m (hmem w)"
    and "item_fits S ok_fs f a" and p: "region p n \<subseteq> S"
  shows "dec_post s (S \<union> U) w (mem_store_uint w p n v \<bind> (\<lambda>w. call_decoder (Some g) s f a w))"
proof -
  from store_uint_frame [OF m p, of v] obtain w1 where
    w1: "mem_store_uint w p n v = Some w1" "frame S w w1" by blast
  from dec_post_frame [OF w1(2) call_safe [OF assms(1,2) frame_memory_ok [OF m w1(2)] assms(4)]] w1(1)
  show ?thesis by simp
qed

text \<open>One entry of a repeated field that is not packed.\<close>

lemma repeated_safe:
  assumes fit: "\<And>a. item_fits S ok_fs (ipos it) a \<Longrightarrow> fits (ipos it) a" and "source_ok s" and m: "memory_ok S U m (hmem w)"
    and items: "\<And>n. n < array_size (ipos it) \<Longrightarrow>
      item_fits S ok_fs (ipos it) (pData it + int ((data_size (ipos it) * n) mod 2 ^ 32))"
    and so: "region (pSize it) 4 \<subseteq> S"
  shows "dec_post s (S \<union> U) w (decode_item (Some g) s it w)"
proof -
  from load_uint_valid [OF memory_ok_valid [OF m so]] obtain n where
    n: "load_uint (hmem w) (pSize it) 4 = Some n" by blast
  show ?thesis
  proof (cases "array_size (ipos it) \<le> n")
    case True
    with n show ?thesis by (simp add: decode_item_def)
  next
    case False
    then have item: "item_fits S ok_fs (ipos it) (pData it + int ((data_size (ipos it) * n) mod 2 ^ 32))" by (intro items) simp
    from call_after_store [OF fit [OF item] assms(2) m item so, of "n + 1"] n False
    show ?thesis by (simp add: decode_item_def Let_def)
  qed
qed

lemma static_safe:
  assumes dec: "PB_DECODERS d env noinit (PB_LTYPE (ftype (ipos it))) = Some g"
    and fit: "\<And>a. item_fits S (wf_message env S U m d) (ipos it) a \<Longrightarrow> fits (ipos it) a"
      "field_fits S (wf_message env S U m d) (ipos it) (pData it) (pSize it)"
    and static: "PB_ATYPE (ftype (ipos it)) = PB_ATYPE_STATIC"
    and ctx: "source_ok s" "memory_ok S U m (hmem w)"
    and unpacked: "\<not> (PB_HTYPE (ftype (ipos it)) = PB_HTYPE_REPEATED \<and>
                     wire_type = PB_WT_STRING \<and> PB_LTYPE (ftype (ipos it)) \<le> PB_LTYPE_LAST_PACKABLE)"
  shows "dec_post s (S \<union> U) w (decode_static_field d env noinit s wire_type it w)"
proof -
  let ?f = "ipos it" and ?h = "PB_HTYPE (ftype (ipos it))"
  note bound = PB_DECODERS_bound [OF dec]
  have el: "element_fits ?f"
    and po: "?h \<noteq> PB_HTYPE_REPEATED \<Longrightarrow> item_fits S (wf_message env S U m d) ?f (pData it)"
    and flag: "?h = PB_HTYPE_OPTIONAL \<and> pSize it \<noteq> pData it \<Longrightarrow> region (pSize it) 1 \<subseteq> S"
    and so: "?h = PB_HTYPE_REPEATED \<or> ?h = PB_HTYPE_ONEOF \<Longrightarrow> region (pSize it) 4 \<subseteq> S"
    using fit(2) static by (auto simp: field_fits_def Let_def)
  have call: "dec_post s (S \<union> U) w (call_decoder (Some g) s ?f (pData it) w)" if "?h \<noteq> PB_HTYPE_REPEATED" "memory_ok S U m (hmem w)" for w
    by (rule call_safe [OF fit(1) [OF po] ctx(1) _ po]) (use that in simp_all)
  consider (required) "?h = PB_HTYPE_REQUIRED" | (optional) "?h = PB_HTYPE_OPTIONAL"
    | (repeated) "?h = PB_HTYPE_REPEATED" | (oneof) "?h = PB_HTYPE_ONEOF"
    | (other) "?h \<noteq> PB_HTYPE_REQUIRED" "?h \<noteq> PB_HTYPE_OPTIONAL" "?h \<noteq> PB_HTYPE_REPEATED" "?h \<noteq> PB_HTYPE_ONEOF"
    by blast
  then show ?thesis
  proof cases
    case required
    with call [OF _ ctx(2)] dec show ?thesis by (simp add: decode_static_field_def Let_def bound)
  next
    case optional
    then have p: "item_fits S (wf_message env S U m d) ?f (pData it)" using po by simp
    show ?thesis
      using call [OF _ ctx(2)] call_after_store [OF fit(1) [OF p] ctx p flag, of 1] optional dec
      by (simp add: decode_static_field_def Let_def bound)
  next
    case repeated
    have "dec_post s (S \<union> U) w (decode_item (Some g) s it w)"
      by (rule repeated_safe [OF fit(1) ctx field_fits_item [OF fit(2) static repeated] so]) (use repeated in simp_all)
    with repeated dec unpacked show ?thesis by (auto simp: decode_static_field_def Let_def bound)
  next
    case oneof
    then have "item_fits S (wf_message env S U m d) ?f (pData it)" using po by simp
    from select_member_safe [OF el this so ctx(2)] oneof obtain w2 where
      w2: "select_member d env it w = Some w2" "frame S w w2" by auto
    have "dec_post s (S \<union> U) w (call_decoder (Some g) s ?f (pData it) w2)"
      by (rule dec_post_frame [OF w2(2) call [OF _ frame_memory_ok [OF ctx(2) w2(2)]]]) (use oneof in simp)
    with oneof dec w2(1) show ?thesis by (simp add: decode_static_field_def Let_def bound)
  next
    case other
    then show ?thesis by (simp add: decode_static_field_def Let_def bound)
  qed
qed

end

text \<open>The items of a packed array, each of which takes at least a byte of the substream.\<close>

context packable_decoder
begin

lemma packed_turn_safe:
  assumes fit: "\<And>a. item_fits S ok_fs (ipos it) a \<Longrightarrow> fits (ipos it) a" and so: "source_ok s" and m: "memory_ok S U m (hmem w)"
    and items: "\<And>n. n < array_size (ipos it) \<Longrightarrow>
      item_fits S ok_fs (ipos it) (pData it + int ((data_size (ipos it) * n) mod 2 ^ 32))"
    and ps: "region (pSize it) 4 \<subseteq> S"
  shows "\<exists>t. packed_turn (Some g) it (s, w) = Some t \<and>
           (case t of
              Continue (s', w') \<Rightarrow> consumes s s' \<and> bytes_left s' < bytes_left s \<and>
                 same_outside (S \<union> U) (hmem w) (hmem w')
            | Leave (ok, s', w') \<Rightarrow> step_ok s ok s' \<and> same_outside (S \<union> U) (hmem w) (hmem w'))"
proof -
  from load_uint_valid [OF memory_ok_valid [OF m ps]] obtain n where
    n: "load_uint (hmem w) (pSize it) 4 = Some n" by blast
  show ?thesis
  proof (cases "bytes_left s = 0 \<or> array_size (ipos it) \<le> n")
    case True
    with n show ?thesis by (auto simp: packed_turn_def)
  next
    case False
    let ?a = "pData it + int ((data_size (ipos it) * n) mod 2 ^ 32)"
    have item: "item_fits S ok_fs (ipos it) ?a" by (rule items) (use False in simp)
    from call_safe [OF fit [OF item] so m item] obtain ok s1 w1 where
      c: "call_decoder (Some g) s (ipos it) ?a w = Some (ok, s1, w1)" "step_ok s ok s1"
        "same_outside (S \<union> U) (hmem w) (hmem w1)"
      by (rule dec_postE)
    show ?thesis
    proof (cases ok)
      case False
      with c n \<open>\<not> (bytes_left s = 0 \<or> array_size (ipos it) \<le> n)\<close> show ?thesis
        by (simp add: packed_turn_def)
    next
      case True
      have less: "bytes_left s1 < bytes_left s"
        by (rule progress [OF fit [OF item] so]) (use c True in \<open>simp add: call_decoder_def\<close>)
      note m1 = memory_ok_step [OF m c(3)]
      from load_uint_valid [OF memory_ok_valid [OF m1 ps]] obtain k where
        k: "load_uint (hmem w1) (pSize it) 4 = Some k" by blast
      from store_uint_frame [OF m1 ps, of "k + 1"] obtain w2 where
        w2: "mem_store_uint w1 (pSize it) 4 (k + 1) = Some w2" "frame S w1 w2" by blast
      have "same_outside (S \<union> U) (hmem w1) (hmem w2)"
        using w2(2) same_outside_mono by (auto simp: frame_def)
      then have "same_outside (S \<union> U) (hmem w) (hmem w2)"
        using c(3) same_outside_trans by blast
      then show ?thesis
        using c k n less True w2(1) False by (simp add: packed_turn_def step_ok_def)
    qed
  qed
qed

lemma packed_loop_safe:
  assumes fit: "\<And>a. item_fits S ok_fs (ipos it) a \<Longrightarrow> fits (ipos it) a" and so: "source_ok s" and m: "memory_ok S U m (hmem w)"
    and items: "\<And>n. n < array_size (ipos it) \<Longrightarrow>
      item_fits S ok_fs (ipos it) (pData it + int ((data_size (ipos it) * n) mod 2 ^ 32))"
    and ps: "region (pSize it) 4 \<subseteq> S"
  shows "dec_post s (S \<union> U) w (crun (packed_turn (Some g) it) (s, w))"
proof -
  let ?R = "S \<union> U"
  have "\<exists>r. crun (packed_turn (Some g) it) (s, w) = Some r \<and>
          (\<lambda>(ok, s', w'). step_ok s ok s' \<and> same_outside ?R (hmem w) (hmem w')) r"
  proof (rule crun_rule [where
        I = "\<lambda>(s', w'). consumes s s' \<and> same_outside ?R (hmem w) (hmem w')"
        and f = "\<lambda>(s', w'). bytes_left s'"], goal_cases)
    case 1
    show ?case by simp
  next
    case (2 st)
    then obtain s1 w1 where st: "st = (s1, w1)" and i: "consumes s s1" "same_outside ?R (hmem w) (hmem w1)"
      by (cases st) auto
    have "source_ok s1" using so i(1) by (rule consumes_source_ok)
    from packed_turn_safe [OF fit this memory_ok_step [OF m i(2)] items ps] obtain t where
      t: "packed_turn (Some g) it (s1, w1) = Some t"
      "case t of Continue (s', w') \<Rightarrow> consumes s1 s' \<and> bytes_left s' < bytes_left s1 \<and>
                   same_outside ?R (hmem w1) (hmem w')
       | Leave (ok, s', w') \<Rightarrow> step_ok s1 ok s' \<and> same_outside ?R (hmem w1) (hmem w')"
      by blast
    show ?case
    proof (cases t)
      case (Continue st')
      with t i st show ?thesis
        by (auto intro: consumes_trans same_outside_trans split: prod.splits)
    next
      case (Leave r)
      with t i st show ?thesis
        by (auto intro: step_ok_trans same_outside_trans split: prod.splits)
    qed
  qed
  then show ?thesis by (auto simp: dec_post_def)
qed

lemma packed_safe:
  assumes fit: "\<And>a. item_fits S ok_fs (ipos it) a \<Longrightarrow> fits (ipos it) a" and so: "source_ok s" and mo: "memory_ok S U m (hmem w)"
    and items: "\<And>n. n < array_size (ipos it) \<Longrightarrow>
      item_fits S ok_fs (ipos it) (pData it + int ((data_size (ipos it) * n) mod 2 ^ 32))"
    and ps: "region (pSize it) 4 \<subseteq> S"
  shows "dec_post s (S \<union> U) w (decode_packed (Some g) s it w)"
proof -
  let ?R = "S \<union> U"
  from pb_make_string_substream_ok [OF so, of w] obtain sub s1 w1 where
    m: "pb_make_string_substream s w = Some (sub, s1, w1)" "hmem w1 = hmem w" "lags s s1"
      "\<forall>ss. sub = Some ss \<longrightarrow> source_ok ss \<and> bytes_left ss < bytes_left s \<and>
         source s1 = source ss \<and> consumes s (s1\<lparr>bytes_left := bytes_left s1 + bytes_left ss\<rparr>)"
    by blast
  show ?thesis
  proof (cases sub)
    case None
    with m show ?thesis by (simp add: decode_packed_def step_ok_def)
  next
    case (Some ss)
    with m have ss: "source_ok ss" "source s1 = source ss"
      "consumes s (s1\<lparr>bytes_left := bytes_left s1 + bytes_left ss\<rparr>)" by simp_all
    have "memory_ok S U m (hmem w1)" using mo m by simp
    from packed_loop_safe [OF fit ss(1) this items ps] obtain status ss' w2 where
      l: "crun (packed_turn (Some g) it) (ss, w1) = Some (status, ss', w2)" "step_ok ss status ss'"
        "same_outside ?R (hmem w1) (hmem w2)"
      by (rule dec_postE)
    from pb_close_string_substream_ok [OF ss(3) ss(2) ss(1) so m(3) l(2), of w2] obtain ok s2 w3 where
      "pb_close_string_substream s1 ss' w2 = Some (ok, s2, w3)" "hmem w3 = hmem w2"
      "step_ok s (ok \<and> status) s2" by blast
    with m l Some show ?thesis
      by (cases ok) (auto simp: decode_packed_def step_ok_def)
  qed
qed

lemma packable_static_safe:
  assumes dec: "PB_DECODERS d env noinit (PB_LTYPE (ftype (ipos it))) = Some g"
    and fit: "\<And>a. item_fits S (wf_message env S U m d) (ipos it) a \<Longrightarrow> fits (ipos it) a"
      "field_fits S (wf_message env S U m d) (ipos it) (pData it) (pSize it)"
    and static: "PB_ATYPE (ftype (ipos it)) = PB_ATYPE_STATIC"
    and ctx: "source_ok s" "memory_ok S U m (hmem w)"
  shows "dec_post s (S \<union> U) w (decode_static_field d env noinit s wire_type it w)"
proof (cases "PB_HTYPE (ftype (ipos it)) = PB_HTYPE_REPEATED \<and>
              wire_type = PB_WT_STRING \<and> PB_LTYPE (ftype (ipos it)) \<le> PB_LTYPE_LAST_PACKABLE")
  case False
  show ?thesis by (rule static_safe [OF dec fit static ctx False])
next
  case True
  then have r: "PB_HTYPE (ftype (ipos it)) = PB_HTYPE_REPEATED" by simp
  then have "region (pSize it) 4 \<subseteq> S" using fit(2) static by (simp add: field_fits_def Let_def)
  from packed_safe [OF fit(1) ctx field_fits_item [OF fit(2) static r] this] dec True show ?thesis
    by (simp add: decode_static_field_def Let_def PB_DECODERS_bound [OF dec])
qed

end

end
