(* ===== verification/PbMessageLoop.thy ===== *)
theory PbMessageLoop
  imports PbMessageSafe
begin

text \<open>
  The message loop: callback fields from the contract of the user's callbacks, the search
  for the field and the check of the required fields, and the safety of \<open>pb_decode\<close>.
\<close>

section \<open>Callback fields\<close>

text \<open>
  What the documentation asks of a user's decoding callback, over the user's own memory
  \<open>U\<close>: it returns, it writes only to its \<open>arg\<close> and its own memory, it leaves the
  stream where its count says, and when it succeeds with bytes available it has taken some
  (the library calls it again until a field's substream is empty). A decoder of an extension type
  may write to the \<open>found\<close> member of its extension and to the user's memory, and need not take anything.
\<close>

definition env_ok :: "'w penv \<Rightarrow> addr set \<Rightarrow> bool" where
  "env_ok env U \<longleftrightarrow>
     (\<forall>code s f arg w. code \<noteq> 0 \<longrightarrow> source_ok s \<longrightarrow> valid (hmem w) arg 8 \<longrightarrow>
        (\<exists>ok s' w'. decode_callback env code s f arg w = Some (ok, s', w') \<and> step_ok s ok s' \<and>
           same_outside (region arg 8 \<union> U) (hmem w) (hmem w') \<and>
           (ok \<and> 0 < bytes_left s \<longrightarrow> bytes_left s' < bytes_left s))) \<and>
     (\<forall>ty decode s e t wire_type w. ext_decode (extension_type env ty) = Some decode \<longrightarrow> source_ok s \<longrightarrow>
        valid (hmem w) (extension_found e) 1 \<longrightarrow>
        (\<exists>ok s' w'. decode s e t wire_type w = Some (ok, s', w') \<and> step_ok s ok s' \<and>
           same_outside (region (extension_found e) 1 \<union> U) (hmem w) (hmem w')))"

lemma callback_ok:
  assumes "env_ok env U" and "code \<noteq> 0" and "source_ok s" and "valid (hmem w) arg 8"
  obtains ok s' w' where "decode_callback env code s f arg w = Some (ok, s', w')" "step_ok s ok s'"
    "same_outside (region arg 8 \<union> U) (hmem w) (hmem w')"
    "ok \<and> 0 < bytes_left s \<longrightarrow> bytes_left s' < bytes_left s"
  using assms unfolding env_ok_def by blast

lemma extension_decoder_ok:
  assumes "env_ok env U" and "ext_decode (extension_type env ty) = Some decode" and "source_ok s" and "valid (hmem w) (extension_found e) 1"
  shows "dec_post s (region (extension_found e) 1 \<union> U) w (decode s e t wire_type w)"
  using assms unfolding env_ok_def dec_post_def by blast

text \<open>The loop over a length-delimited field.\<close>

lemma callback_loop_safe:
  assumes env: "env_ok env U" and so: "source_ok s"
    and v: "valid (hmem w) (callback_arg (pData it)) 8"
    and code: "load_ptr (hmem w) (callback_funcs (pData it)) = Some code" "code \<noteq> 0"
    and dis: "U \<inter> region (pData it) 8 = {}"
  shows "dec_post s (region (callback_arg (pData it)) 8 \<union> U) w
           (crun (callback_turn env it) (s, w))"
proof -
  let ?R = "region (callback_arg (pData it)) 8 \<union> U"
  have dis': "?R \<inter> region (callback_funcs (pData it)) 8 = {}"
    using dis by (auto simp: region_def)
  have "\<exists>r. crun (callback_turn env it) (s, w) = Some r \<and>
          (\<lambda>(ok, s', w'). step_ok s ok s' \<and> same_outside ?R (hmem w) (hmem w')) r"
  proof (rule crun_rule [where
        I = "\<lambda>(s', w'). consumes s s' \<and> same_outside ?R (hmem w) (hmem w')"
        and f = "\<lambda>(s', w'). bytes_left s'"], goal_cases)
    case 1
    show ?case by simp
  next
    case (2 st)
    then obtain s1 w1 where st: "st = (s1, w1)" and i: "consumes s s1" "same_outside ?R (hmem w) (hmem w1)"
      by (cases st) auto
    have "source_ok s1" using so i(1) by (rule consumes_source_ok)
    moreover have "valid (hmem w1) (callback_arg (pData it)) 8"
      using v same_outside_valid [OF i(2)] by simp
    ultimately obtain ok s2 w2 where
      c: "decode_callback env code s1 (ipos it) (callback_arg (pData it)) w1 = Some (ok, s2, w2)"
        "step_ok s1 ok s2" "same_outside ?R (hmem w1) (hmem w2)"
        "ok \<and> 0 < bytes_left s1 \<longrightarrow> bytes_left s2 < bytes_left s1"
      by (rule callback_ok [OF env code(2)])
    have code1: "load_ptr (hmem w1) (callback_funcs (pData it)) = Some code"
      using load_ptr_outside [OF i(2) dis'] code(1) by simp
    have fr: "same_outside ?R (hmem w) (hmem w2)" using i(2) c(3) by (rule same_outside_trans)
    have le: "bytes_left s2 \<le> bytes_left s1" using c(2) by (simp add: step_ok_def lags_bytes_left)
    show ?case
    proof (cases "ok \<and> bytes_left s2 \<noteq> 0")
      case True
      have "consumes s s2" using i(1) c(2) True by (auto simp: step_ok_def intro: consumes_trans)
      moreover have "bytes_left s2 < bytes_left s1" using c(4) le True by linarith
      ultimately show ?thesis
        using True c(1) code code1 fr by (simp add: st callback_turn_def Let_def)
    next
      case False
      have "step_ok s ok s2" using i(1) c(2) by (rule step_ok_trans)
      then show ?thesis
        using False c(1) code code1 fr by (auto simp: st callback_turn_def Let_def)
    qed
  qed
  then show ?thesis by (auto simp: dec_post_def)
qed

lemma decode_callback_field_safe:
  assumes env: "env_ok env U" and so: "source_ok s" and mo: "memory_ok S U m (hmem w)" and po: "region (pData it) 16 \<subseteq> S"
  shows "dec_post s (S \<union> U) w (decode_callback_field env s wire_type it w)"
proof -
  let ?p = "pData it" and ?R = "region (callback_arg (pData it)) 8 \<union> U" and ?S = "S \<union> U"
  have fn: "region (callback_funcs ?p) 8 \<subseteq> S" and ar: "region (callback_arg ?p) 8 \<subseteq> S"
    using po by (auto simp: region_def)
  have vf: "valid (hmem w) (callback_funcs ?p) 8" and va: "valid (hmem w) (callback_arg ?p) 8"
    using memory_ok_valid [OF mo fn] memory_ok_valid [OF mo ar] by simp_all
  have RS: "?R \<subseteq> ?S" using ar by auto
  have dis1: "U \<inter> region ?p 8 = {}" by (rule memory_ok_apart [OF mo fn])
  from load_ptr_valid [OF vf] obtain code where code: "load_ptr (hmem w) (callback_funcs ?p) = Some code"
    by blast
  consider (skip) "code = 0" | (str) "code \<noteq> 0" "wire_type = PB_WT_STRING"
    | (raw) "code \<noteq> 0" "wire_type \<noteq> PB_WT_STRING" by blast
  then show ?thesis
  proof cases
    case skip
    from pb_skip_field_ok [OF so, of wire_type w] skip code show ?thesis
      by (auto simp: decode_callback_field_def dec_post_def same_outside_def)
  next
    case str
    from pb_make_string_substream_ok [OF so, of w] obtain sub s1 w1 where
      m: "pb_make_string_substream s w = Some (sub, s1, w1)" "hmem w1 = hmem w" "lags s s1"
        "\<forall>ss. sub = Some ss \<longrightarrow> source_ok ss \<and> bytes_left ss < bytes_left s \<and>
           source s1 = source ss \<and> consumes s (s1\<lparr>bytes_left := bytes_left s1 + bytes_left ss\<rparr>)"
      by blast
    show ?thesis
    proof (cases sub)
      case None
      with m str code show ?thesis by (simp add: decode_callback_field_def step_ok_def)
    next
      case (Some ss)
      with m have ss: "source_ok ss" "source s1 = source ss"
        "consumes s (s1\<lparr>bytes_left := bytes_left s1 + bytes_left ss\<rparr>)" by simp_all
      have "dec_post ss ?R w1 (crun (callback_turn env it) (ss, w1))"
        by (rule callback_loop_safe [OF env ss(1) _ _ str(1) dis1]) (use va code m in simp_all)
      then obtain ok ss' w2 where
        l: "crun (callback_turn env it) (ss, w1) = Some (ok, ss', w2)" "step_ok ss ok ss'"
          "same_outside ?R (hmem w1) (hmem w2)"
        by (rule dec_postE)
      have fr: "same_outside ?S (hmem w) (hmem w2)"
        using same_outside_mono [OF l(3) RS] m(2) by simp
      show ?thesis
      proof (cases ok)
        case False
        with m l Some str code fr show ?thesis
          by (simp add: decode_callback_field_def)
      next
        case True
        from pb_close_string_substream_ok [OF ss(3) ss(2) ss(1) so m(3) l(2), of w2] obtain ok' s2 w3
          where "pb_close_string_substream s1 ss' w2 = Some (ok', s2, w3)" "hmem w3 = hmem w2"
            "step_ok s (ok' \<and> ok) s2" by blast
        with m l Some str code fr True show ?thesis
          by (simp add: decode_callback_field_def)
      qed
    qed
  next
    case raw
    from read_raw_value_ok [OF so, of 10 10 wire_type w] obtain ok d s1 w1 where
      r: "read_raw_value s wire_type 10 10 w = Some (ok, d, s1, w1)" "hmem w1 = hmem w" "step_ok s ok s1"
      by auto
    show ?thesis
    proof (cases ok)
      case False
      with r raw code show ?thesis by (simp add: decode_callback_field_def)
    next
      case True
      have "source_ok (pb_istream_from_buffer d (length d))"
        by (simp add: source_ok_def pb_istream_from_buffer_def)
      moreover have "valid (hmem w1) (callback_arg ?p) 8" using va r by simp
      ultimately obtain ok' ss' w2 where
        c: "decode_callback env code (pb_istream_from_buffer d (length d)) (ipos it) (callback_arg ?p) w1
              = Some (ok', ss', w2)" "same_outside ?R (hmem w1) (hmem w2)"
        by (rule callback_ok [OF env raw(1)])
      have "same_outside ?S (hmem w) (hmem w2)"
        using same_outside_mono [OF c(2) RS] r(2) by simp
      with r raw code c True show ?thesis
        by (simp add: decode_callback_field_def step_ok_def)
    qed
  qed
qed

section \<open>Submessages\<close>

text \<open>What the message decoder of the level below guarantees.\<close>

definition message_decoder_ok ::
    "(pb_field list \<Rightarrow> addr \<Rightarrow> bool) \<Rightarrow> addr set \<Rightarrow> addr set \<Rightarrow> memory \<Rightarrow> 'w message_decoder \<Rightarrow> bool" where
  "message_decoder_ok ok_fs S U m dec \<longleftrightarrow>
     (\<forall>s fs a w. ok_fs fs a \<longrightarrow> source_ok s \<longrightarrow> memory_ok S U m (hmem w) \<longrightarrow> dec_post s (S \<union> U) w (dec s fs a w))"

lemma message_decoder_okD:
  "message_decoder_ok ok_fs S U m dec \<Longrightarrow> ok_fs fs a \<Longrightarrow> source_ok s \<Longrightarrow> memory_ok S U m (hmem w) \<Longrightarrow>
     dec_post s (S \<union> U) w (dec s fs a w)"
  by (simp add: message_decoder_ok_def)

lemma pb_decode_with_safe:
  assumes "message_decoder_ok (wf_message env S U m d) S U m noinit" and "wf_message env S U m d fs a" and "source_ok s"
    and "memory_ok S U m (hmem w)"
  shows "dec_post s (S \<union> U) w (pb_decode_with d env noinit s fs a w)"
proof -
  from pb_message_set_to_defaults_safe [OF assms(2,4)] obtain w1 where
    w1: "pb_message_set_to_defaults d env fs a w = Some w1" "frame S w w1" by blast
  from dec_post_frame [OF w1(2) message_decoder_okD [OF assms(1-3) frame_memory_ok [OF assms(4) w1(2)]]] w1(1)
  show ?thesis by (simp add: pb_decode_with_def)
qed

lemma pb_dec_submessage_safe:
  assumes dec: "message_decoder_ok (wf_message env S U m d) S U m noinit"
    and f: "fptr f = Pb_fields fs" "wf_message env S U m d fs a"
    and so: "source_ok s" and mo: "memory_ok S U m (hmem w)"
  shows "dec_post s (S \<union> U) w (pb_dec_submessage d env noinit s f a w)"
proof -
  let ?R = "S \<union> U"
  from pb_make_string_substream_ok [OF so, of w] obtain sub s1 w1 where
    m: "pb_make_string_substream s w = Some (sub, s1, w1)" "hmem w1 = hmem w" "lags s s1"
      "\<forall>ss. sub = Some ss \<longrightarrow> source_ok ss \<and> bytes_left ss < bytes_left s \<and>
         source s1 = source ss \<and> consumes s (s1\<lparr>bytes_left := bytes_left s1 + bytes_left ss\<rparr>)"
    by blast
  show ?thesis
  proof (cases sub)
    case None
    with m show ?thesis by (simp add: pb_dec_submessage_def step_ok_def)
  next
    case (Some ss)
    with m have ss: "source_ok ss" "source s1 = source ss"
      "consumes s (s1\<lparr>bytes_left := bytes_left s1 + bytes_left ss\<rparr>)" by simp_all
    have m1: "memory_ok S U m (hmem w1)" using mo m by simp
    have "dec_post ss ?R w1
        (if PB_HTYPE (ftype f) = PB_HTYPE_REPEATED then pb_decode_with d env noinit ss fs a w1
         else noinit ss fs a w1)"
      using pb_decode_with_safe [OF dec f(2) ss(1) m1] message_decoder_okD [OF dec f(2) ss(1) m1]
      by simp
    then obtain status ss' w2 where
      l: "(if PB_HTYPE (ftype f) = PB_HTYPE_REPEATED then pb_decode_with d env noinit ss fs a w1
           else noinit ss fs a w1) = Some (status, ss', w2)" "step_ok ss status ss'"
        "same_outside ?R (hmem w1) (hmem w2)"
      by (rule dec_postE)
    from pb_close_string_substream_ok [OF ss(3) ss(2) ss(1) so m(3) l(2), of w2] obtain ok s2 w3 where
      "pb_close_string_substream s1 ss' w2 = Some (ok, s2, w3)" "hmem w3 = hmem w2"
      "step_ok s (ok \<and> status) s2" by blast
    with m l Some f show ?thesis
      by (cases ok) (auto simp: pb_dec_submessage_def submsg_fields_def step_ok_def)
  qed
qed

lemma submessage_decoder:
  assumes "message_decoder_ok (wf_message env S U m d) S U m noinit"
  shows "field_decoder (pb_dec_submessage d env noinit) S U m (\<lambda>f a. \<exists>fs. fptr f = Pb_fields fs \<and> wf_message env S U m d fs a)"
  by unfold_locales (use pb_dec_submessage_safe [OF assms] in blast)

section \<open>Any field\<close>

lemma decode_static_field_safe:
  assumes dec: "message_decoder_ok (wf_message env S U m d) S U m noinit"
    and fit: "field_fits S (wf_message env S U m d) (ipos it) (pData it) (pSize it)"
    and static: "PB_ATYPE (ftype (ipos it)) = PB_ATYPE_STATIC"
    and ctx: "source_ok s" "memory_ok S U m (hmem w)"
  shows "dec_post s (S \<union> U) w (decode_static_field d env noinit s wire_type it w)"
proof -
  let ?f = "ipos it" and ?l = "PB_LTYPE (ftype (ipos it))"
  have el: "element_fits ?f" using fit static by (simp add: field_fits_def Let_def)
  have "?l \<le> 9" "?l \<noteq> 8" using el by (simp_all add: element_fits_def Let_def)
  then consider "?l = 0" | "?l = 1" | "?l = 2" | "?l = 3" | "?l = 4" | "?l = 5" | "?l = 6" | "?l = 7" | "?l = 9"
    using ltype_cases by blast
  then show ?thesis
  proof cases
    case 1
    then show ?thesis
      by (intro varint.packable_static_safe [OF _ _ fit static ctx]) (simp_all add: PB_DECODERS_def)
  next
    case 2
    then show ?thesis
      by (intro uvarint.packable_static_safe [OF _ _ fit static ctx]) (simp_all add: PB_DECODERS_def)
  next
    case 3
    then show ?thesis
      by (intro svarint.packable_static_safe [OF _ _ fit static ctx]) (simp_all add: PB_DECODERS_def)
  next
    case 4
    then have "4 \<le> data_size ?f" using el by (simp add: element_fits_def Let_def)
    with 4 show ?thesis
      by (intro fixed32.packable_static_safe [OF _ _ fit static ctx]) (simp_all add: PB_DECODERS_def)
  next
    case 5
    then have "8 \<le> data_size ?f" using el by (simp add: element_fits_def Let_def)
    with 5 show ?thesis
      by (intro fixed64.packable_static_safe [OF _ _ fit static ctx]) (simp_all add: PB_DECODERS_def)
  next
    case 6
    then show ?thesis
      by (intro bytes.static_safe [OF _ _ fit static ctx]) (simp_all add: PB_DECODERS_def)
  next
    case 7
    then show ?thesis
      by (intro str.static_safe [OF _ _ fit static ctx]) (simp_all add: PB_DECODERS_def)
  next
    case 8
    have "\<exists>fs. fptr ?f = Pb_fields fs \<and> wf_message env S U m d fs a" if "item_fits S (wf_message env S U m d) ?f a" for a
      using el 8 that by (auto simp: element_fits_def item_fits_def Let_def split: pb_ptr.splits)
    with 8 show ?thesis
      by (intro field_decoder.static_safe [OF submessage_decoder [OF dec] _ _ fit static ctx])
        (simp_all add: PB_DECODERS_def)
  next
    case 9
    then show ?thesis
      by (intro fixed_bytes.static_safe [OF _ _ fit static ctx]) (simp_all add: PB_DECODERS_def)
  qed
qed

lemma decode_field_safe:
  assumes dec: "message_decoder_ok (wf_message env S U m d) S U m noinit" and env: "env_ok env U"
    and fit: "field_fits S (wf_message env S U m d) (ipos it) (pData it) (pSize it)"
    and ctx: "source_ok s" "memory_ok S U m (hmem w)"
  shows "dec_post s (S \<union> U) w (decode_field d env noinit s wire_type it w)"
proof -
  let ?a = "PB_ATYPE (ftype (ipos it))"
  consider (static) "?a = PB_ATYPE_STATIC" | (pointer) "?a = PB_ATYPE_POINTER"
    | (callback) "?a = PB_ATYPE_CALLBACK"
    | (other) "?a \<noteq> PB_ATYPE_STATIC" "?a \<noteq> PB_ATYPE_POINTER" "?a \<noteq> PB_ATYPE_CALLBACK" by blast
  then show ?thesis
  proof cases
    case static
    with decode_static_field_safe [OF dec fit _ ctx] show ?thesis
      by (simp add: decode_field_def Let_def)
  next
    case pointer
    then show ?thesis by (simp add: decode_field_def decode_pointer_field_def Let_def)
  next
    case callback
    then have "region (pData it) 16 \<subseteq> S" using fit by (simp add: field_fits_def Let_def)
    from decode_callback_field_safe [OF env ctx this] callback show ?thesis
      by (simp add: decode_field_def Let_def)
  next
    case other
    then show ?thesis by (simp add: decode_field_def Let_def)
  qed
qed

section \<open>Extensions\<close>

text \<open>A field of an extension is one level below the message that it belongs to.\<close>

lemma field_ok_fits:
  assumes "field_ok env S U m d f a so" and "PB_LTYPE (ftype f) \<noteq> PB_LTYPE_EXTENSION"
  shows "field_fits S (wf_message env S U m d) f a so"
proof (cases d)
  case 0
  then show ?thesis using assms by simp
next
  case (Suc d')
  then have "field_fits S (wf_message env S U m d') f a so" using assms by (simp add: wf_message_def)
  then show ?thesis by (rule field_fits_mono [rotated]) (erule wf_message_mono, simp add: Suc)
qed

lemma default_extension_decoder_safe:
  assumes dec: "message_decoder_ok (wf_message env S U m d) S U m noinit" and env: "env_ok env U"
    and e: "holds_ptr (S \<union> U) m (extension_type_at e) ty" "f = ext_arg (extension_type env ty)"
      "PB_LTYPE (ftype f) \<noteq> PB_LTYPE_EXTENSION" "region (extension_found e) 1 \<subseteq> S"
      "if PB_ATYPE (ftype f) = PB_ATYPE_POINTER then a = extension_dest e else holds_ptr (S \<union> U) m (extension_dest e) a"
      "field_ok env S U m d f a (extension_found e)"
    and ctx: "source_ok s" "memory_ok S U m (hmem w)"
  shows "dec_post s (S \<union> U) w (default_extension_decoder d env noinit s e t wire_type w)"
proof (cases "tag f = t")
  case False
  then show ?thesis
    using holds_ptr_load [OF e(1) ctx(2)] e(2) by (simp add: default_extension_decoder_def step_ok_def)
next
  case True
  have "PB_ATYPE (ftype f) = PB_ATYPE_POINTER \<Longrightarrow> region (extension_dest e) 8 \<subseteq> S"
    using field_ok_pointer [OF e(6,3)] e(5) by simp
  from iter_from_extension_at [OF e(1,2,5) this ctx(2)] obtain it where
    it: "iter_from_extension env e w = Some it" "ipos it = f" "pData it = a" "pSize it = extension_found e" by blast
  from store_uint_frame [OF ctx(2) e(4), of 1] obtain w1 where
    w1: "mem_store_uint w (extension_found e) 1 1 = Some w1" "frame S w w1" by blast
  have "field_fits S (wf_message env S U m d) (ipos it) (pData it) (pSize it)"
    using field_ok_fits [OF e(6,3)] it by simp
  from dec_post_frame [OF w1(2) decode_field_safe [OF dec env this ctx(1) frame_memory_ok [OF ctx(2) w1(2)]]]
  show ?thesis
    using True it(1) w1(1) holds_ptr_load [OF e(1) ctx(2)] e(2) by (simp add: default_extension_decoder_def Let_def)
qed

text \<open>One extension, by the decoder of its type or by the default one, and then the list.\<close>

definition extension_turn ::
    "nat \<Rightarrow> 'w penv \<Rightarrow> 'w message_decoder \<Rightarrow> nat \<Rightarrow> u32 \<Rightarrow> nat \<Rightarrow> addr \<times> 'w pb_istream \<times> 'w cstate
      \<Rightarrow> (addr \<times> 'w pb_istream \<times> 'w cstate, bool \<times> 'w pb_istream \<times> 'w cstate) turn option" where
  "extension_turn d env noinit p t wire_type = (\<lambda>(extension, s, w).
     if extension = 0 \<or> p \<noteq> bytes_left s then Some (Leave (True, s, w))
     else do {
       ty \<leftarrow> load_ptr (hmem w) (extension_type_at extension);
       (status, s, w) \<leftarrow>
         (case ext_decode (extension_type env ty) of
            Some decode \<Rightarrow> decode s extension t wire_type w
          | None \<Rightarrow> default_extension_decoder d env noinit s extension t wire_type w);
       if \<not> status then Some (Leave (False, s, w))
       else do {
         extension \<leftarrow> load_ptr (hmem w) (extension_next extension);
         Some (Continue (extension, s, w))
       }
     })"

lemma extensions_safe:
  assumes dec: "message_decoder_ok (wf_message env S U m d) S U m noinit" and env: "env_ok env U"
    and "extensions_fit env S U m (field_ok env S U m d) e" and "source_ok s" and "memory_ok S U m (hmem w)"
  shows "dec_post s (S \<union> U) w (crun (extension_turn d env noinit p t wire_type) (e, s, w))"
  using assms(3-5)
proof (induction arbitrary: s w)
  case none
  have "crun (extension_turn d env noinit p t wire_type) (0, s, w) = Some (True, s, w)"
    by (rule crun_Leave) (simp add: extension_turn_def)
  then show ?case by (simp add: step_ok_def)
next
  case (extension e ty f a nx)
  let ?run = "crun (extension_turn d env noinit p t wire_type)"
  note ctx = extension.prems
  show ?case
  proof (cases "p = bytes_left s")
    case False
    then have "?run (e, s, w) = Some (True, s, w)" by (intro crun_Leave) (simp add: extension_turn_def)
    then show ?thesis by (simp add: step_ok_def)
  next
    case True
    define r where "r = (case ext_decode (extension_type env ty) of Some decode \<Rightarrow> decode s e t wire_type w
      | None \<Rightarrow> default_extension_decoder d env noinit s e t wire_type w)"
    have "dec_post s (S \<union> U) w r"
    proof (cases "ext_decode (extension_type env ty)")
      case None
      then show ?thesis using default_extension_decoder_safe [OF dec env extension.hyps(2-7) ctx] by (simp add: r_def)
    next
      case (Some decode)
      from extension_decoder_ok [OF env Some ctx(1) memory_ok_valid [OF ctx(2) extension.hyps(5)], of t wire_type]
      have "dec_post s (S \<union> U) w (decode s e t wire_type w)" by (rule dec_post_mono) (use extension.hyps(5) in blast)
      then show ?thesis using Some by (simp add: r_def)
    qed
    then obtain ok s1 w1 where r: "r = Some (ok, s1, w1)" "step_ok s ok s1" "same_outside (S \<union> U) (hmem w) (hmem w1)"
      by (rule dec_postE)
    note m1 = memory_ok_step [OF ctx(2) r(3)]
    have turn: "extension_turn d env noinit p t wire_type (e, s, w) = (if \<not> ok then Some (Leave (False, s1, w1)) else Some (Continue (nx, s1, w1)))"
      using True extension.hyps(1) holds_ptr_load [OF extension.hyps(2) ctx(2)] holds_ptr_load [OF extension.hyps(8) m1] r(1) [unfolded r_def]
      by (simp add: extension_turn_def)
    show ?thesis
    proof (cases ok)
      case False
      then have "?run (e, s, w) = Some (False, s1, w1)" using turn by (intro crun_Leave) simp
      then show ?thesis using r(2,3) False by simp
    next
      case True
      then have "?run (e, s, w) = ?run (nx, s1, w1)" using turn by (intro crun_Continue) simp
      moreover have c: "consumes s s1" using r(2) True by (simp add: step_ok_def)
      ultimately show ?thesis
        using dec_post_pre [OF r(3) dec_post_seq [OF c extension.IH [OF consumes_source_ok [OF ctx(1) c] m1]]] by simp
    qed
  qed
qed

lemma decode_extension_safe:
  assumes dec: "message_decoder_ok (wf_message env S U m d) S U m noinit" and env: "env_ok env U"
    and f: "field_ok env S U m (Suc d) (ipos it) (pData it) (pSize it)" "PB_LTYPE (ftype (ipos it)) = PB_LTYPE_EXTENSION"
    and ctx: "source_ok s" "memory_ok S U m (hmem w)"
  shows "dec_post s (S \<union> U) w (decode_extension d env noinit s t wire_type it w)"
proof -
  from f obtain e where e: "holds_ptr (S \<union> U) m (pData it) e" "extensions_fit env S U m (field_ok env S U m d) e" by auto
  from extensions_safe [OF dec env e(2) ctx] holds_ptr_load [OF e(1) ctx(2)] show ?thesis
    by (simp add: decode_extension_def extension_turn_def Let_def)
qed

end
