(* ===== verification/PbMessageEnd.thy ===== *)
theory PbMessageEnd
  imports PbMessageLoop
begin

text \<open>
  The message loop and the check of the required fields, and the main safety theorem.
\<close>

section \<open>Searching in any descriptor array\<close>

lemma iter_search_total:
  assumes "fs = [] \<or> tags_ok fs" and "i < entries fs"
  shows "\<exists>found j. iter_search P (iter_at fs dest i) = Some (found, iter_at fs dest j) \<and> j < entries fs \<and>
           (found \<longrightarrow> P (field_at fs j))"
proof (cases "fs = []")
  case True
  with assms(2) have i: "i = 0" by simp
  have nxt: "snd (pb_field_iter_next (iter_at [] dest 0)) = iter_at [] dest 0"
    by (simp add: pb_field_iter_next_def field_at_def)
  show ?thesis
  proof (cases "P (field_at [] 0)")
    case True
    then have "iter_search P (iter_at [] dest 0) = Some (True, iter_at [] dest 0)"
      unfolding iter_search_def by (intro crun_Leave) simp
    then show ?thesis using \<open>fs = []\<close> i True by auto
  next
    case False
    then have "iter_search P (iter_at [] dest 0) = Some (False, iter_at [] dest 0)"
      unfolding iter_search_def using nxt by (intro crun_Leave) (simp add: Let_def)
    then show ?thesis using \<open>fs = []\<close> i by auto
  qed
next
  case False
  with assms have ok: "tags_ok fs" and i: "i < length fs" by simp_all
  from iter_search_cyclic [OF ok i, of P dest] obtain found it where
    r: "iter_search P (iter_at fs dest i) = Some (found, it)"
      "if found then \<exists>j < length fs. it = iter_at fs dest j \<and> P (field_at fs j) \<and>
           (\<forall>k < length fs. P (field_at fs k) \<longrightarrow> cyclic_dist (length fs) i j \<le> cyclic_dist (length fs) i k)
       else it = iter_at fs dest i \<and> (\<forall>k < length fs. \<not> P (field_at fs k))"
    by auto
  then show ?thesis using i False by (cases found) auto
qed

section \<open>The required fields\<close>

lemma required_count_Suc:
  "i < length fs \<Longrightarrow> required_count (take (Suc i) fs)
     = required_count (take i fs) + (if PB_HTYPE (ftype (fs ! i)) = PB_HTYPE_REQUIRED then 1 else 0)"
  by (simp add: required_count_def take_Suc_conv_app_nth)

lemma required_index_at:
  assumes "tags_ok fs" and "i < length fs"
  shows "required_field_index (iter_at fs dest i) = required_count (take i fs)"
  using assms(2)
proof (induction i)
  case 0
  then show ?case by (simp add: required_count_def)
next
  case (Suc i)
  then have i: "i < length fs" by simp
  have pos: "pos (iter_at fs dest i) = i" using assms(1) i by (rule iter_at_pos)
  have "tag (field_at fs i) \<noteq> 0" "tag (field_at fs (Suc i)) \<noteq> 0"
    using tags_ok_field_at [OF assms(1)] Suc.prems by simp_all
  moreover have "field_at fs i = fs ! i" using i by (simp add: field_at_def)
  ultimately show ?case
    using Suc.IH [OF i] by (simp add: pb_field_iter_next_def Let_def pos required_count_Suc [OF i])
qed

lemma count_required_at:
  assumes "fs = [] \<or> tags_ok fs" and "i < entries fs"
  shows "count_required (iter_at fs dest i) = Some (required_count fs)"
proof (cases "fs = []")
  case True
  with assms(2) have "i = 0" by simp
  then show ?thesis
    unfolding count_required_def
    by (intro crun_Leave) (simp add: True pb_field_iter_next_def pb_field_iter_begin_def field_at_def
        required_count_def Let_def PB_LAST_FIELD_def)
next
  case False
  with assms have ok: "tags_ok fs" and i: "i < length fs" by simp_all
  show ?thesis
    using i
  proof (induction "length fs - i" arbitrary: i rule: less_induct)
    case less
    have pos: "pos (iter_at fs dest i) = i" using ok less.prems by (rule iter_at_pos)
    have f: "field_at fs i = fs ! i" using less.prems by (simp add: field_at_def)
    note nxt = iter_next_at [OF ok less.prems, of dest]
    show ?case
    proof (cases "Suc i < length fs")
      case True
      have "count_required (iter_at fs dest i) = count_required (iter_at fs dest (Suc i))"
        unfolding count_required_def by (rule crun_Continue) (simp add: nxt True Let_def del: iter_at.simps)
      with less.hyps [of "Suc i"] True show ?thesis by simp
    next
      case last: False
      then have len: "length fs = Suc i" using less.prems by simp
      have t0: "tag (field_at fs 0) \<noteq> 0" using tags_ok_field_at [OF ok, of 0] len by simp
      have "required_count fs = required_count (take (Suc i) fs)" using len by simp
      then have "required_count fs = required_field_index (iter_at fs dest i)
          + (if PB_HTYPE (ftype (fs ! i)) = PB_HTYPE_REQUIRED then 1 else 0)"
        using required_index_at [OF ok less.prems] required_count_Suc [OF less.prems] by simp
      then show ?thesis
        unfolding count_required_def
        by (intro crun_Leave) (simp add: nxt last pos f t0 Let_def)
    qed
  qed
qed

text \<open>
  With two words of flags the check never reads past them, except when the number of
  required fields is 32 (a shift by the width of the word) or more than 63.
\<close>

lemma check_required_total:
  assumes "length seen = 2" and "required_defined n"
  shows "\<exists>b. check_required seen n = Some b"
proof (cases "n = 0")
  case True
  then show ?thesis by (auto simp: check_required_def)
next
  case False
  have "n < 64" "n \<noteq> 32" using assms(2) by (simp_all add: required_defined_def)
  then have m: "n mod 32 \<noteq> 0" using False by presburger
  have d: "n div 32 < 2" using \<open>n < 64\<close> by simp
  have "\<exists>r. crun (\<lambda>i.
          if i < n div 32 then
            if length seen \<le> i then None
            else if seen ! i \<noteq> - 1 then Some (Leave False)
            else Some (Continue (i + 1))
          else Some (Leave True)) (0::nat) = Some r \<and> True"
    by (rule crun_rule [where I = "\<lambda>_. True" and f = "\<lambda>i. n div 32 - i"])
      (use assms(1) d in auto)
  then show ?thesis using False assms(1) d m by (auto simp: check_required_def)
qed

text \<open>At those numbers it does, once all flags that it looks at are set.\<close>

lemma check_required_undefined: "check_required [- 1, b] 32 = None" "check_required [- 1, - 1] 64 = None"
  by (simp_all add: check_required_def crun.simps [of _ "Suc 0"] crun.simps [of _ "0 :: nat"] crun.simps [of _ "Suc (Suc 0)"])

section \<open>The message loop\<close>

lemma pb_decode_tag_total:
  assumes "source_ok s"
  obtains ok wt t eof s' w' where "pb_decode_tag s w = Some (ok, wt, t, eof, s', w')" "hmem w' = hmem w"
    "ok \<longrightarrow> bytes_left s' < bytes_left s \<and> wt < 8 \<and> t \<noteq> 0xFFFFFFFF" "consumes s s'"
  using pb_decode_tag_ok [OF assms, of w] by blast

lemma wf_message_field:
  assumes "wf_message env S U m d fs dest" and "i < entries fs"
  shows "field_ok env S U m d (ipos (iter_at fs dest i)) (pData (iter_at fs dest i)) (pSize (iter_at fs dest i))"
  using message_fits_field [OF assms(1) [unfolded wf_message_def] assms(2)] .

lemma wf_message_tags: "wf_message env S U m d fs dest \<Longrightarrow> fs = [] \<or> tags_ok fs"
  by (simp add: wf_message_def message_fits_def)

text \<open>Looking for the field of a tag does not find an extension, and looking for an extension does not find anything else.\<close>

lemma find_extension_total:
  assumes wf: "wf_message env S U m d fs dest" and i: "i < entries fs"
  obtains found j where "find_extension_field (iter_at fs dest i) = Some (found, iter_at fs dest j)" "j < entries fs"
    "found \<longrightarrow> PB_LTYPE (ftype (ipos (iter_at fs dest j))) = PB_LTYPE_EXTENSION"
proof -
  note ok = wf_message_tags [OF wf]
  from iter_search_total [OF ok i, of "\<lambda>f. PB_LTYPE (ftype f) = PB_LTYPE_EXTENSION" dest] obtain found j where
    "find_extension_field (iter_at fs dest i) = Some (found, iter_at fs dest j)" "j < entries fs"
    "found \<longrightarrow> PB_LTYPE (ftype (field_at fs j)) = PB_LTYPE_EXTENSION"
    unfolding find_extension_field_def by blast
  then show ?thesis using that ipos_iter_at [OF ok] by metis
qed

lemma find_field_total:
  assumes wf: "wf_message env S U m (Suc d) fs dest" and i: "i < entries fs"
  obtains found j where "pb_field_iter_find (iter_at fs dest i) t = Some (found, iter_at fs dest j)" "j < entries fs"
    "found \<longrightarrow> field_fits S (wf_message env S U m d) (ipos (iter_at fs dest j)) (pData (iter_at fs dest j)) (pSize (iter_at fs dest j))"
proof -
  note ok = wf_message_tags [OF wf]
  from iter_search_total [OF ok i, of "\<lambda>f. tag f = t \<and> PB_LTYPE (ftype f) \<noteq> PB_LTYPE_EXTENSION" dest] obtain found j where
    f: "pb_field_iter_find (iter_at fs dest i) t = Some (found, iter_at fs dest j)" "j < entries fs"
      "found \<longrightarrow> PB_LTYPE (ftype (field_at fs j)) \<noteq> PB_LTYPE_EXTENSION"
    unfolding pb_field_iter_find_def by blast
  have "field_fits S (wf_message env S U m d) (ipos (iter_at fs dest j)) (pData (iter_at fs dest j)) (pSize (iter_at fs dest j))"
    if found
    using wf_message_field [OF wf f(2)] ipos_iter_at [OF ok f(2), of dest] f(3) that by (simp add: wf_message_def)
  then show ?thesis using that f(1,2) by blast
qed

text \<open>
  A turn of the loop from a state it keeps: the iterator at an entry, the two words of
  flags.
\<close>

definition turn_state :: "pb_field list \<Rightarrow> addr \<Rightarrow> pb_field_iter \<Rightarrow> u32 list \<Rightarrow> bool" where
  "turn_state fs dest it seen \<longleftrightarrow> (\<exists>i < entries fs. it = iter_at fs dest i) \<and> length seen = 2"

lemma turn_stateI: "i < entries fs \<Longrightarrow> length seen = 2 \<Longrightarrow> turn_state fs dest (iter_at fs dest i) seen"
  by (auto simp: turn_state_def)

lemma length_mark_seen [simp]: "length (mark_seen it seen) = length seen"
  by (simp add: mark_seen_def Let_def)

text \<open>An unknown tag: it may belong to an extension, and is skipped if it does not.\<close>

definition unknown_tag ::
    "nat \<Rightarrow> 'w penv \<Rightarrow> 'w message_decoder \<Rightarrow> 'w pb_istream \<Rightarrow> u32 \<Rightarrow> nat \<Rightarrow> pb_field_iter \<Rightarrow> u32 list \<Rightarrow> u32 \<Rightarrow> 'w cstate
      \<Rightarrow> ('w pb_istream \<times> pb_field_iter \<times> u32 list \<times> u32 \<times> 'w cstate,
          bool \<times> 'w pb_istream \<times> pb_field_iter \<times> u32 list \<times> 'w cstate) turn option" where
  "unknown_tag depth env noinit s t wire_type it seen extension_range_start w = do {
     (it, ers) \<leftarrow>
       (if extension_range_start \<le> t then do {
          (fx, it) \<leftarrow> find_extension_field it;
          Some (it, if \<not> fx then 0xFFFFFFFF else tag (ipos it))
        }
        else Some (it, extension_range_start));
     let p = bytes_left s;
     (ok, s, w) \<leftarrow>
       (if extension_range_start \<le> t \<and> ers \<le> t
        then decode_extension depth env noinit s t wire_type it w
        else Some (True, s, w));
     if \<not> ok then Some (Leave (False, s, it, seen, w))
     else if p \<noteq> bytes_left s then Some (Continue (s, it, seen, ers, w))
     else do {
       (ok, s, w) \<leftarrow> pb_skip_field s wire_type w;
       if \<not> ok then Some (Leave (False, s, it, seen, w))
       else Some (Continue (s, it, seen, ers, w))
     }
   }"

text \<open>What a turn from \<open>s\<close> and \<open>w\<close> guarantees; between turns the stream gets shorter.\<close>

definition turn_post ::
    "pb_field list \<Rightarrow> addr \<Rightarrow> addr set \<Rightarrow> 'w pb_istream \<Rightarrow> 'w cstate
      \<Rightarrow> ('w pb_istream \<times> pb_field_iter \<times> u32 list \<times> u32 \<times> 'w cstate,
          bool \<times> 'w pb_istream \<times> pb_field_iter \<times> u32 list \<times> 'w cstate) turn option \<Rightarrow> bool" where
  "turn_post fs dest R s w r \<longleftrightarrow> (\<exists>t. r = Some t \<and>
    (case t of
       Continue (s', it', seen', ers', w') \<Rightarrow>
         consumes s s' \<and> bytes_left s' < bytes_left s \<and> turn_state fs dest it' seen' \<and> same_outside R (hmem w) (hmem w')
     | Leave (ok, s', it', seen', w') \<Rightarrow>
         step_ok s ok s' \<and> turn_state fs dest it' seen' \<and> same_outside R (hmem w) (hmem w')))"

lemma unknown_tag_safe:
  assumes dec: "message_decoder_ok (wf_message env S U m d) S U m noinit" and env: "env_ok env U"
    and wf: "wf_message env S U m (Suc d) fs dest" and i: "i < entries fs" and len: "length seen = 2"
    and c0: "consumes s0 s" and less: "bytes_left s < bytes_left s0" and h: "hmem w = hmem w0"
    and tmax: "\<not> 0xFFFFFFFF \<le> t" and ctx: "source_ok s" "memory_ok S U m (hmem w)"
  shows "turn_post fs dest (S \<union> U) s0 w0 (unknown_tag d env noinit s t wire_type (iter_at fs dest i) seen ers w)"
proof -
  text \<open>The skip at the end, after nothing was taken.\<close>
  have skip: "turn_post fs dest (S \<union> U) s0 w0 (do {
       (ok, s, w) \<leftarrow> pb_skip_field s1 wire_type w1;
       if \<not> ok then Some (Leave (False, s, iter_at fs dest j, seen, w))
       else Some (Continue (s, iter_at fs dest j, seen, e, w))
     })" if j: "j < entries fs" and s1: "consumes s s1" and w1: "same_outside (S \<union> U) (hmem w) (hmem w1)" for j e s1 w1
  proof -
    from pb_skip_field_ok [OF consumes_source_ok [OF ctx(1) s1], of wire_type w1] obtain ok s2 w2 where
      sk: "pb_skip_field s1 wire_type w1 = Some (ok, s2, w2)" "hmem w2 = hmem w1" "step_ok s1 ok s2" by blast
    have st: "step_ok s ok s2" using s1 sk(3) by (rule step_ok_trans)
    then have "bytes_left s2 \<le> bytes_left s" by (simp add: step_ok_def lags_bytes_left)
    then show ?thesis
      using sk(1,2) w1 h less step_ok_trans [OF c0 st] turn_stateI [OF j len]
      by (cases ok) (auto simp: turn_post_def step_ok_def)
  qed
  show ?thesis
  proof (cases "ers \<le> t")
    case False
    then show ?thesis using skip [OF i consumes_refl same_outside_refl] by (simp add: unknown_tag_def)
  next
    case True
    obtain fx j where fx: "find_extension_field (iter_at fs dest i) = Some (fx, iter_at fs dest j)" "j < entries fs"
      "fx \<longrightarrow> PB_LTYPE (ftype (ipos (iter_at fs dest j))) = PB_LTYPE_EXTENSION"
      by (rule find_extension_total [OF wf i])
    let ?e = "if \<not> fx then 0xFFFFFFFF else tag (ipos (iter_at fs dest j))"
    show ?thesis
    proof (cases "?e \<le> t")
      case False
      then show ?thesis
        using skip [OF fx(2) consumes_refl same_outside_refl, of ?e] True fx(1) by (simp add: unknown_tag_def del: iter_at.simps)
    next
      case e: True
      then have x: "fx" using tmax by (auto split: if_splits)
      from decode_extension_safe [OF dec env wf_message_field [OF wf fx(2)] _ ctx, of t wire_type] fx(3) x obtain ok s1 w1 where
        de: "decode_extension d env noinit s t wire_type (iter_at fs dest j) w = Some (ok, s1, w1)" "step_ok s ok s1"
          "same_outside (S \<union> U) (hmem w) (hmem w1)" by (auto elim: dec_postE)
      have st: "step_ok s0 ok s1" using c0 de(2) by (rule step_ok_trans)
      have le: "bytes_left s1 \<le> bytes_left s" using de(2) by (simp add: step_ok_def lags_bytes_left)
      show ?thesis
      proof (cases "ok \<and> bytes_left s1 = bytes_left s")
        case False
        then show ?thesis
          using True e x fx(1) de(1,3) st le less h turn_stateI [OF fx(2) len]
          by (cases ok) (auto simp: unknown_tag_def turn_post_def step_ok_def simp del: iter_at.simps)
      next
        case both: True
        then have "consumes s s1" using de(2) by (simp add: step_ok_def)
        from skip [OF fx(2) this de(3), of "tag (ipos (iter_at fs dest j))"] both show ?thesis
          using True e x fx(1) de(1) by (simp add: unknown_tag_def del: iter_at.simps iter_at_start)
      qed
    qed
  qed
qed

lemma decode_turn_safe:
  assumes dec: "message_decoder_ok (wf_message env S U m d) S U m noinit" and env: "env_ok env U"
    and wf: "wf_message env S U m (Suc d) fs dest"
    and st: "turn_state fs dest it seen" and ctx: "source_ok s" "memory_ok S U m (hmem w)"
  shows "turn_post fs dest (S \<union> U) s w (decode_turn d env noinit (s, it, seen, ers, w))"
proof (cases "bytes_left s = 0")
  case True
  then show ?thesis using st by (auto simp: decode_turn_def turn_post_def step_ok_def)
next
  case False
  from st obtain i where i: "i < entries fs" "it = iter_at fs dest i" and len: "length seen = 2"
    by (auto simp: turn_state_def)
  from pb_decode_tag_total [OF ctx(1), of w] obtain tok wt t eof s1 w1 where
    tag: "pb_decode_tag s w = Some (tok, wt, t, eof, s1, w1)" "hmem w1 = hmem w"
      "tok \<longrightarrow> bytes_left s1 < bytes_left s \<and> wt < 8 \<and> t \<noteq> 0xFFFFFFFF" "consumes s s1" .
  have so1: "source_ok s1" using ctx(1) tag(4) by (rule consumes_source_ok)
  show ?thesis
  proof (cases tok)
    case False
    with tag \<open>bytes_left s \<noteq> 0\<close> i len show ?thesis
      by (auto simp: decode_turn_def turn_post_def step_ok_true turn_stateI simp del: iter_at.simps)
  next
    case tok: True
    have lt: "bytes_left s1 < bytes_left s" and tmax: "\<not> 0xFFFFFFFF \<le> t"
      using tag(3) tok decoded_u32 [of t] by (auto simp: word_le_nat_alt word_unat_eq_iff)
    have m1: "memory_ok S U m (hmem w1)" using ctx(2) tag(2) by simp
    obtain found j where
      find: "pb_field_iter_find (iter_at fs dest i) t = Some (found, iter_at fs dest j)" "j < entries fs"
      "found \<longrightarrow> field_fits S (wf_message env S U m d) (ipos (iter_at fs dest j)) (pData (iter_at fs dest j)) (pSize (iter_at fs dest j))"
      by (rule find_field_total [OF wf i(1)])
    show ?thesis
    proof (cases found)
      case True
      with find(3) have "field_fits S (wf_message env S U m d) (ipos (iter_at fs dest j)) (pData (iter_at fs dest j)) (pSize (iter_at fs dest j))"
        by simp
      from decode_field_safe [OF dec env this so1 m1] obtain fok s2 w2 where
        f: "decode_field d env noinit s1 wt (iter_at fs dest j) w1 = Some (fok, s2, w2)"
          "step_ok s1 fok s2" "same_outside (S \<union> U) (hmem w1) (hmem w2)"
        by (rule dec_postE)
      have "step_ok s fok s2" using tag(4) f(2) by (rule step_ok_trans)
      moreover have "bytes_left s2 \<le> bytes_left s1" using f(2) by (simp add: step_ok_def lags_bytes_left)
      moreover have "turn_state fs dest (iter_at fs dest j) (mark_seen (iter_at fs dest j) seen)"
        by (rule turn_stateI [OF find(2)]) (simp add: len)
      ultimately show ?thesis
        using tag tok i find True f \<open>bytes_left s \<noteq> 0\<close> lt
        by (cases fok) (auto simp: decode_turn_def turn_post_def Let_def step_ok_def simp del: iter_at.simps)
    next
      case nf: False
      have "decode_turn d env noinit (s, it, seen, ers, w) = unknown_tag d env noinit s1 t wt (iter_at fs dest j) seen ers w1"
        using tag tok i find nf \<open>bytes_left s \<noteq> 0\<close> by (simp add: decode_turn_def unknown_tag_def del: iter_at.simps)
      with unknown_tag_safe [OF dec env wf find(2) len tag(4) lt tag(2) tmax so1 m1] show ?thesis by simp
    qed
  qed
qed

lemma decode_noinit_body_safe:
  assumes dec: "message_decoder_ok (wf_message env S U m d) S U m noinit" and env: "env_ok env U"
    and wf: "wf_message env S U m (Suc d) fs dest"
    and ctx: "source_ok s" "memory_ok S U m (hmem w)"
  shows "dec_post s (S \<union> U) w (decode_noinit_body d env noinit s fs dest w)"
proof -
  let ?R = "S \<union> U"
  note ok = wf_message_tags [OF wf]
  obtain ne where b: "pb_field_iter_begin fs dest = (ne, iter_at fs dest 0)"
    by (cases "pb_field_iter_begin fs dest") simp
  have "\<exists>r. crun (decode_turn d env noinit) (s, iter_at fs dest 0, [0, 0], 0, w) = Some r \<and>
      (\<lambda>(ok, s', it', seen', w'). step_ok s ok s' \<and> turn_state fs dest it' seen' \<and> same_outside ?R (hmem w) (hmem w')) r"
  proof (rule crun_rule [where
        I = "\<lambda>(s', it', seen', ers', w'). consumes s s' \<and> turn_state fs dest it' seen' \<and> same_outside ?R (hmem w) (hmem w')"
        and f = "\<lambda>(s', it', seen', ers', w'). bytes_left s'"], goal_cases)
    case 1
    have "turn_state fs dest (iter_at fs dest 0) [0, 0]" by (rule turn_stateI) (simp_all add: entries_def)
    then show ?case by simp
  next
    case (2 st)
    then obtain s1 it1 seen1 e1 w1 where st: "st = (s1, it1, seen1, e1, w1)"
      and inv: "consumes s s1" "turn_state fs dest it1 seen1" "same_outside ?R (hmem w) (hmem w1)"
      by (cases st) auto
    from decode_turn_safe [OF dec env wf inv(2) consumes_source_ok [OF ctx(1) inv(1)] memory_ok_step [OF ctx(2) inv(3)], of e1]
    obtain t where t: "decode_turn d env noinit (s1, it1, seen1, e1, w1) = Some t"
      "case t of
         Continue (s', it', seen', ers', w') \<Rightarrow>
           consumes s1 s' \<and> bytes_left s' < bytes_left s1 \<and> turn_state fs dest it' seen' \<and> same_outside ?R (hmem w1) (hmem w')
       | Leave (ok, s', it', seen', w') \<Rightarrow>
           step_ok s1 ok s' \<and> turn_state fs dest it' seen' \<and> same_outside ?R (hmem w1) (hmem w')"
      unfolding turn_post_def by blast
    show ?case
    proof (cases t)
      case (Continue st')
      with t inv st show ?thesis
        by (auto intro: consumes_trans same_outside_trans split: prod.splits)
    next
      case (Leave r)
      with t inv st show ?thesis
        by (auto intro: step_ok_trans same_outside_trans split: prod.splits)
    qed
  qed
  then obtain lok s1 it1 seen1 w1 where
    l: "crun (decode_turn d env noinit) (s, iter_at fs dest 0, [0, 0], 0, w) = Some (lok, s1, it1, seen1, w1)"
      "step_ok s lok s1" "turn_state fs dest it1 seen1" "same_outside ?R (hmem w) (hmem w1)"
    by auto
  then obtain i where i: "i < entries fs" "it1 = iter_at fs dest i" and len: "length seen1 = 2"
    by (auto simp: turn_state_def)
  have "required_defined (required_count fs)" using wf by (simp add: wf_message_def message_fits_def)
  from check_required_total [OF len this] obtain p where
    p: "check_required seen1 (required_count fs) = Some p" by blast
  show ?thesis
    using l b i count_required_at [OF ok i(1), of dest] p
    by (auto simp: decode_noinit_body_def step_ok_def simp del: iter_at.simps)
qed

theorem message_decoder_safe:
  assumes env: "env_ok env U"
  shows "message_decoder_ok (wf_message env S U m d) S U m (pb_decode_noinit d env)"
proof (induction d)
  case 0
  have "\<not> wf_message env S U m 0 fs a" for fs a by (auto simp: wf_message_def message_fits_def entries_def intro: exI [of _ 0])
  then show ?case by (simp add: message_decoder_ok_def)
next
  case (Suc d)
  show ?case
    unfolding message_decoder_ok_def by (auto intro!: decode_noinit_body_safe [OF Suc env])
qed

interpretation submessage: field_decoder "pb_dec_submessage d env (pb_decode_noinit d env)" S U m
  "\<lambda>f a. env_ok env U \<and> (\<exists>fs. fptr f = Pb_fields fs \<and> wf_message env S U m d fs a)" for d env S U m
  by unfold_locales (use field_decoder.safe [OF submessage_decoder [OF message_decoder_safe]] in blast)

end
