(* ===== verification/PbLayout.thy ===== *)
theory PbLayout
  imports PbCommon
begin

text \<open>
  The descriptor macros of \<open>pb.h\<close> against the iterator of \<open>pb_common.c\<close>: over the
  descriptors that \<open>PB_FIELD\<close> writes for a structure, the iterator finds every member
  and every companion member at its place.
\<close>

section \<open>The type byte of a descriptor\<close>

lemma PB_LTYPE_MAP_masks:
  "PB_ATYPE (PB_LTYPE_MAP ty) = 0" "PB_HTYPE (PB_LTYPE_MAP ty) = 0" "PB_LTYPE (PB_LTYPE_MAP ty) = PB_LTYPE_MAP ty"
  by (cases ty; simp add: PB_ATYPE_def PB_HTYPE_def PB_LTYPE_def)+

fun rules_htype :: "field_rules \<Rightarrow> pb_type_t" where
  "rules_htype REQUIRED = PB_HTYPE_REQUIRED"
| "rules_htype OPTIONAL = PB_HTYPE_OPTIONAL"
| "rules_htype SINGULAR = PB_HTYPE_OPTIONAL"
| "rules_htype REPEATED = PB_HTYPE_REPEATED"
| "rules_htype OPTEXT = PB_HTYPE_OPTIONAL"

fun alloc_atype :: "allocation \<Rightarrow> pb_type_t" where
  "alloc_atype STATIC = PB_ATYPE_STATIC"
| "alloc_atype POINTER = PB_ATYPE_POINTER"
| "alloc_atype CALLBACK = PB_ATYPE_CALLBACK"

lemmas field_macro_defs =
  PB_REQUIRED_STATIC_def PB_OPTIONAL_STATIC_def PB_SINGULAR_STATIC_def PB_REPEATED_STATIC_def
  PB_OPTEXT_STATIC_def PB_REQUIRED_POINTER_def PB_OPTIONAL_POINTER_def PB_SINGULAR_POINTER_def
  PB_REPEATED_POINTER_def PB_OPTEXT_POINTER_def PB_REQUIRED_CALLBACK_def PB_OPTIONAL_CALLBACK_def
  PB_SINGULAR_CALLBACK_def PB_REPEATED_CALLBACK_def PB_OPTEXT_CALLBACK_def

lemma PB_FIELD_type:
  assumes "rules \<noteq> OPTEXT"
  shows "ftype (PB_FIELD t ty rules al pl m p ptr) = alloc_atype al OR rules_htype rules OR PB_LTYPE_MAP ty"
  using assms by (cases rules; cases al) (simp_all add: PB_FIELD_def field_macro_defs)

lemma PB_FIELD_masks:
  assumes "rules \<noteq> OPTEXT"
  shows "PB_ATYPE (ftype (PB_FIELD t ty rules al pl m p ptr)) = alloc_atype al"
    and "PB_HTYPE (ftype (PB_FIELD t ty rules al pl m p ptr)) = rules_htype rules"
    and "PB_LTYPE (ftype (PB_FIELD t ty rules al pl m p ptr)) = PB_LTYPE_MAP ty"
  unfolding PB_FIELD_type [OF assms] ptype_masks PB_LTYPE_MAP_masks
  by (cases rules; cases al; simp add: PB_ATYPE_def PB_HTYPE_def PB_LTYPE_def)+

lemma PB_FIELD_simps:
  assumes "rules \<noteq> OPTEXT"
  shows "tag (PB_FIELD t ty rules al pl m p ptr) = t"
    and "data_offset (PB_FIELD t ty rules al pl m p ptr) = PB_DATAOFFSET pl m p"
  using assms by (cases rules; cases al; simp add: PB_FIELD_def field_macro_defs)+

lemma PB_FIELD_sizes:
  assumes "rules \<noteq> OPTEXT"
  shows "data_size (PB_FIELD t ty rules al pl m p ptr)
           = (if al = POINTER \<or> al = STATIC \<and> rules = REPEATED then m_elem m else m_size m)"
    and "array_size (PB_FIELD t ty rules al pl m p ptr)
           = (if al = STATIC \<and> rules = REPEATED then pb_arraysize m else 0)"
  using assms by (cases rules; cases al; simp add: PB_FIELD_def field_macro_defs)+

section \<open>A structure and its descriptors\<close>

text \<open>One line of a generated descriptor array: what the generator passes to \<open>PB_FIELD\<close>.\<close>

record decl =
  d_tag :: u32
  d_type :: proto_type
  d_rules :: field_rules
  d_alloc :: allocation
  d_member :: cmember
  d_ptr :: pb_ptr

definition descriptor :: "decl list \<Rightarrow> nat \<Rightarrow> pb_field" where
  "descriptor ds i =
     (let d = ds ! i in
      PB_FIELD (d_tag d) (d_type d) (d_rules d) (d_alloc d) (if i = 0 then FIRST else OTHER)
        (d_member d) (d_member (ds ! (i - 1))) (d_ptr d))"

definition descriptors :: "decl list \<Rightarrow> pb_field list" where
  "descriptors ds = map (descriptor ds) [0 ..< length ds]"

text \<open>
  The compiler's layout of the members: in the order of the descriptors without overlap,
  in a structure below 4 GB, a pointer of eight bytes, an array of whole elements.
\<close>

definition member_ok :: "decl \<Rightarrow> bool" where
  "member_ok d \<longleftrightarrow>
     d_tag d \<noteq> 0 \<and> d_rules d \<noteq> OPTEXT \<and> m_offset (d_member d) + m_size (d_member d) < 2 ^ 32 \<and>
     (d_alloc d = POINTER \<longrightarrow> m_size (d_member d) = 8) \<and>
     (d_alloc d = STATIC \<and> d_rules d = REPEATED \<longrightarrow>
        m_elem (d_member d) dvd m_size (d_member d))"

definition layout_ok :: "decl list \<Rightarrow> bool" where
  "layout_ok ds \<longleftrightarrow>
     ds \<noteq> [] \<and> (\<forall>d \<in> set ds. member_ok d) \<and>
     (\<forall>i \<in> set [1 ..< length ds].
        m_offset (d_member (ds ! (i - 1))) + m_size (d_member (ds ! (i - 1))) \<le> m_offset (d_member (ds ! i)))"

lemma member_okD: "layout_ok ds \<Longrightarrow> i < length ds \<Longrightarrow> member_ok (ds ! i)"
  by (simp add: layout_ok_def)

lemma field_at_descriptors: "i < length ds \<Longrightarrow> field_at (descriptors ds) i = descriptor ds i"
  by (simp add: field_at_def descriptors_def)

lemma tags_ok_descriptors: "layout_ok ds \<Longrightarrow> tags_ok (descriptors ds)"
  by (auto simp: tags_ok_def descriptors_def descriptor_def Let_def layout_ok_def member_ok_def PB_FIELD_simps)

lemma iter_prev_size_descriptor:
  assumes "layout_ok ds" and "i < length ds"
  shows "iter_prev_size (descriptor ds i) = m_size (d_member (ds ! i))"
proof -
  have ok: "member_ok (ds ! i)" using assms by (rule member_okD)
  then have nox: "d_rules (ds ! i) \<noteq> OPTEXT" by (simp add: member_ok_def)
  have d: "iter_prev_size (descriptor ds i)
      = (if alloc_atype (d_alloc (ds ! i)) = PB_ATYPE_STATIC \<and> rules_htype (d_rules (ds ! i)) = PB_HTYPE_REPEATED
         then data_size (descriptor ds i) * array_size (descriptor ds i)
         else if alloc_atype (d_alloc (ds ! i)) = PB_ATYPE_POINTER then 8
         else data_size (descriptor ds i))"
    using nox by (simp add: iter_prev_size_def descriptor_def Let_def PB_FIELD_masks)
  show ?thesis
    unfolding d using ok nox
    by (cases "d_alloc (ds ! i)"; cases "d_rules (ds ! i)")
      (simp_all add: descriptor_def Let_def PB_FIELD_sizes member_ok_def pb_arraysize_def)
qed

lemma data_offset_descriptor:
  assumes "layout_ok ds" and "Suc i < length ds"
  shows "int (m_offset (d_member (ds ! i))) + int (m_size (d_member (ds ! i)))
           + int (data_offset (descriptor ds (Suc i))) = int (m_offset (d_member (ds ! Suc i)))"
proof -
  have ok: "member_ok (ds ! Suc i)" using assms by (intro member_okD)
  have le: "m_offset (d_member (ds ! i)) + m_size (d_member (ds ! i)) \<le> m_offset (d_member (ds ! Suc i))"
    using assms unfolding layout_ok_def by (metis Suc_eq_plus1 atLeastLessThan_iff atLeastLessThan_upt
      diff_Suc_1 le_add2)
  define k where "k = int (m_offset (d_member (ds ! Suc i))) - int (m_offset (d_member (ds ! i)))
      - int (m_size (d_member (ds ! i)))"
  have "0 \<le> k" "k < 2 ^ 32" using le ok by (auto simp: k_def member_ok_def)
  then have "k mod 2 ^ 32 = k" by simp
  moreover have "data_offset (descriptor ds (Suc i)) = nat (k mod 2 ^ 32)"
    using ok by (simp add: descriptor_def Let_def PB_FIELD_simps member_ok_def PB_DATAOFFSET_OTHER_def k_def)
  ultimately show ?thesis using \<open>0 \<le> k\<close> by (simp add: k_def)
qed

lemma iter_at_member:
  assumes ok: "layout_ok ds"
  shows "i < length ds \<Longrightarrow>
    pData (iter_at (descriptors ds) dest i) = dest + int (m_offset (d_member (ds ! i))) \<and>
    pSize (iter_at (descriptors ds) dest i) = pData (iter_at (descriptors ds) dest i) + size_offset (descriptor ds i)"
proof (induction i)
  case 0
  then have "member_ok (ds ! 0)" using ok by (intro member_okD)
  with 0 show ?case
    by (simp add: pb_field_iter_begin_def Let_def field_at_descriptors)
      (simp add: descriptor_def Let_def PB_FIELD_simps member_ok_def PB_DATAOFFSET_FIRST_def)
next
  case (Suc i)
  let ?fs = "descriptors ds"
  have tags: "tags_ok ?fs" using ok by (rule tags_ok_descriptors)
  have len: "length ?fs = length ds" by (simp add: descriptors_def)
  have i: "i < length ds" "i < length ?fs" "Suc i < length ?fs" using Suc.prems len by simp_all
  have pos: "pos (iter_at ?fs dest i) = i" using iter_at_pos [OF tags i(2)] .
  have f: "field_at ?fs i = descriptor ds i" "field_at ?fs (Suc i) = descriptor ds (Suc i)"
    using i(1) Suc.prems by (simp_all only: field_at_descriptors)
  have nz: "tag (descriptor ds i) \<noteq> 0" "tag (descriptor ds (Suc i)) \<noteq> 0"
    using tags_ok_field_at [OF tags] i f by (metis not_le)+
  have "member_ok (ds ! i)" using ok i(1) by (rule member_okD)
  then have no1: "PB_HTYPE (ftype (descriptor ds i)) \<noteq> PB_HTYPE_ONEOF"
    by (cases "d_rules (ds ! i)") (simp_all add: descriptor_def Let_def PB_FIELD_masks member_ok_def)
  have IH: "pData (iter_at ?fs dest i) = dest + int (m_offset (d_member (ds ! i)))"
    using Suc.IH i(1) by simp
  have "pData (iter_at ?fs dest (Suc i))
      = pData (iter_at ?fs dest i) + int (iter_prev_size (descriptor ds i)) + int (data_offset (descriptor ds (Suc i)))"
    "pSize (iter_at ?fs dest (Suc i)) = pData (iter_at ?fs dest (Suc i)) + size_offset (descriptor ds (Suc i))"
    using pos f nz no1 by (simp_all add: pb_field_iter_next_def Let_def)
  with data_offset_descriptor [OF ok Suc.prems] iter_prev_size_descriptor [OF ok i(1)] IH
  show ?case by simp
qed

lemma size_offset_descriptor:
  assumes "member_ok (ds ! i)" and "d_rules (ds ! i) = REPEATED \<and> d_alloc (ds ! i) \<noteq> CALLBACK
      \<or> d_rules (ds ! i) = OPTIONAL \<and> d_alloc (ds ! i) = STATIC"
  shows "size_offset (descriptor ds i)
     = int (m_companion (d_member (ds ! i))) - int (m_offset (d_member (ds ! i)))"
  using assms
  by (cases "d_alloc (ds ! i)") (auto simp: descriptor_def Let_def PB_FIELD_def field_macro_defs pb_delta_def)

section \<open>The iterator on generated descriptors\<close>

text \<open>
  C6. For a structure whose members the compiler laid out in the order of their
  declarations, the iterator over the descriptors written by \<open>PB_FIELD\<close> points, at every
  entry, to that member of the structure, and to its \<open>has_\<close> or \<open>_count\<close> member where
  the field has one.
\<close>

theorem iterator_finds_members:
  assumes "layout_ok ds" and "i < length ds"
  shows "pos (iter_at (descriptors ds) dest i) = i \<and>
    pData (iter_at (descriptors ds) dest i) = dest + int (m_offset (d_member (ds ! i))) \<and>
    (d_rules (ds ! i) = REPEATED \<and> d_alloc (ds ! i) \<noteq> CALLBACK
       \<or> d_rules (ds ! i) = OPTIONAL \<and> d_alloc (ds ! i) = STATIC \<longrightarrow>
     pSize (iter_at (descriptors ds) dest i) = dest + int (m_companion (d_member (ds ! i))))"
proof -
  have "i < length (descriptors ds)" using assms(2) by (simp add: descriptors_def)
  with iter_at_pos [OF tags_ok_descriptors [OF assms(1)]] iter_at_member [OF assms, of dest]
    size_offset_descriptor [OF member_okD [OF assms]]
  show ?thesis by auto
qed

text \<open>
  A message with a required integer, an optional string of 16 bytes, a repeated integer
  with up to three items, and a callback.
\<close>

definition example_decls :: "decl list" where
  "example_decls =
     [\<lparr>d_tag = 1, d_type = INT32, d_rules = REQUIRED, d_alloc = STATIC,
       d_member = \<lparr>m_offset = 0, m_size = 4, m_elem = 4, m_companion = 0\<rparr>, d_ptr = Pb_null\<rparr>,
      \<lparr>d_tag = 2, d_type = STRING, d_rules = OPTIONAL, d_alloc = STATIC,
       d_member = \<lparr>m_offset = 5, m_size = 16, m_elem = 1, m_companion = 4\<rparr>, d_ptr = Pb_null\<rparr>,
      \<lparr>d_tag = 3, d_type = UINT32, d_rules = REPEATED, d_alloc = STATIC,
       d_member = \<lparr>m_offset = 28, m_size = 12, m_elem = 4, m_companion = 24\<rparr>, d_ptr = Pb_null\<rparr>,
      \<lparr>d_tag = 4, d_type = BYTES, d_rules = OPTIONAL, d_alloc = CALLBACK,
       d_member = \<lparr>m_offset = 40, m_size = 16, m_elem = 16, m_companion = 0\<rparr>, d_ptr = Pb_null\<rparr>]"

lemma example_layout_ok: "layout_ok example_decls"
proof -
  have "\<forall>d \<in> set example_decls. member_ok d" "length example_decls = 4"
    by (simp_all add: example_decls_def member_ok_def)
  then show ?thesis by (simp add: layout_ok_def upt_rec) (simp add: example_decls_def)
qed

theorem iterator_finds_members_witness:
  "pData (iter_at (descriptors example_decls) 4096 2) = 4096 + 28 \<and>
   pSize (iter_at (descriptors example_decls) 4096 2) = 4096 + 24"
  using iterator_finds_members [OF example_layout_ok, of 2 4096] by (simp add: example_decls_def)

text \<open>
  \<open>pb_field_iter_find\<close> searches cyclically: from any entry of a descriptor array it finds
  the first entry with the tag, in the cyclic order from there, that is no extension
  placeholder; if there is none it ends where it started.
\<close>

theorem iter_find_cyclic:
  fixes t :: u32
  defines "hit \<equiv> \<lambda>f. tag f = t \<and> PB_LTYPE (ftype f) \<noteq> PB_LTYPE_EXTENSION"
  assumes "tags_ok fs" and "i < length fs"
  shows "\<exists>found j. pb_field_iter_find (iter_at fs dest i) t = Some (found, iter_at fs dest j) \<and> j < length fs \<and>
    (if found
     then hit (field_at fs j) \<and>
       (\<forall>k < length fs. hit (field_at fs k) \<longrightarrow> cyclic_dist (length fs) i j \<le> cyclic_dist (length fs) i k)
     else j = i \<and> (\<forall>k < length fs. \<not> hit (field_at fs k)))"
proof -
  obtain found it where r: "pb_field_iter_find (iter_at fs dest i) t = Some (found, it)"
    and f: "if found
      then \<exists>j < length fs. it = iter_at fs dest j \<and> hit (field_at fs j) \<and>
        (\<forall>k < length fs. hit (field_at fs k) \<longrightarrow> cyclic_dist (length fs) i j \<le> cyclic_dist (length fs) i k)
      else it = iter_at fs dest i \<and> (\<forall>k < length fs. \<not> hit (field_at fs k))"
    using iter_search_cyclic [OF assms(2,3), of hit dest] unfolding pb_field_iter_find_def hit_def by auto
  show ?thesis
  proof (cases found)
    case True
    with r f show ?thesis by (auto intro!: exI [of _ True])
  next
    case False
    with r f assms(3) show ?thesis by (auto intro!: exI [of _ False] exI [of _ i])
  qed
qed

theorem iter_find_cyclic_witness:
  "\<exists>found it. pb_field_iter_find (iter_at (descriptors example_decls) 4096 2) 9 = Some (found, it)"
proof -
  have "tags_ok (descriptors example_decls)"
    using example_layout_ok by (rule tags_ok_descriptors)
  moreover have "2 < length (descriptors example_decls)" by (simp add: descriptors_def example_decls_def)
  ultimately show ?thesis using iter_find_cyclic [of "descriptors example_decls" 2 4096 9] by blast
qed

end
