(* ===== verification/PbOStream.thy ===== *)
theory PbOStream
  imports PbTypes
begin

text \<open>
  The output side of nanopb below the message level (\<open>pb_encode.c\<close>): writing to a
  stream and the encoders of integers, tags and strings.

  A result \<open>Some (ok, s', w')\<close> holds C's return value, the stream and the state after
  the call.
\<close>

section \<open>Writing\<close>

text \<open>
  The bytes given to \<open>pb_write\<close> are a local array of the caller or lie in the memory at
  an address (0 for a null pointer); a sizing stream never looks at them.
\<close>

datatype wbuf = Local "byte list" | Mem addr

text \<open>\<open>for (i = 0; i < count; i++) dest[i] = buf[i];\<close> with both in the memory.\<close>

fun copy_bytes :: "memory \<Rightarrow> addr \<Rightarrow> addr \<Rightarrow> nat \<Rightarrow> memory option" where
  "copy_bytes m dest src 0 = Some m"
| "copy_bytes m dest src (Suc n) =
     (case m src of None \<Rightarrow> None
      | Some b \<Rightarrow> if m dest = None then None
                 else copy_bytes (m(dest \<mapsto> b)) (dest + 1) (src + 1) n)"

fun buf_write :: "memory \<Rightarrow> addr \<Rightarrow> wbuf \<Rightarrow> nat \<Rightarrow> memory option" where
  "buf_write m dest (Local bs) count =
     (if count \<le> length bs then store_bytes m dest (take count bs) else None)"
| "buf_write m dest (Mem a) count = copy_bytes m dest a count"

fun fetch :: "memory \<Rightarrow> wbuf \<Rightarrow> nat \<Rightarrow> byte list option" where
  "fetch m (Local bs) count = (if count \<le> length bs then Some (take count bs) else None)"
| "fetch m (Mem a) count = load_bytes m a count"

text \<open>
  \<open>stream->callback(stream, buf, count)\<close>: the flag, the stream with its moved pointer, and
  the state. A user's callback is modelled by what it does with the bytes it is given.
\<close>

definition ostream_callback ::
    "'w pb_ostream \<Rightarrow> wbuf \<Rightarrow> nat \<Rightarrow> 'w cstate \<Rightarrow> (bool \<times> 'w pb_ostream \<times> 'w cstate) option" where
  "ostream_callback s buf count w =
     (case sink s of
        Sizing \<Rightarrow> None
      | Buffer_out dest \<Rightarrow> do {
          m \<leftarrow> buf_write (hmem w) dest buf count;
          Some (True, s\<lparr>sink := Buffer_out (dest + int count)\<rparr>, w\<lparr>hmem := m\<rparr>)
        }
      | Custom_out f state \<Rightarrow> do {
          bs \<leftarrow> fetch (hmem w) buf count;
          (ok, state, w) \<leftarrow> f state bs w;
          Some (ok, s\<lparr>sink := Custom_out f state\<rparr>, w)
        })"

definition pb_ostream_from_buffer :: "addr \<Rightarrow> nat \<Rightarrow> 'w pb_ostream" where
  "pb_ostream_from_buffer buf bufsize =
     \<lparr>sink = Buffer_out buf, max_size = bufsize, bytes_written = 0, oerrmsg = None\<rparr>"

definition PB_OSTREAM_SIZING :: "'w pb_ostream" where
  "PB_OSTREAM_SIZING = \<lparr>sink = Sizing, max_size = 0, bytes_written = 0, oerrmsg = None\<rparr>"

text \<open>The sums are of type \<open>size_t\<close>.\<close>

definition pb_write ::
    "'w pb_ostream \<Rightarrow> wbuf \<Rightarrow> nat \<Rightarrow> 'w cstate \<Rightarrow> (bool \<times> 'w pb_ostream \<times> 'w cstate) option" where
  "pb_write s buf count w =
     (if sink s \<noteq> Sizing then
        if max_size s < (bytes_written s + count) mod 2 ^ 64
        then Some (False, oset_error s ''stream full'', w)
        else do {
          (ok, s, w) \<leftarrow> ostream_callback s buf count w;
          if \<not> ok then Some (False, oset_error s ''io error'', w)
          else Some (True, s\<lparr>bytes_written := (bytes_written s + count) mod 2 ^ 64\<rparr>, w)
        }
      else Some (True, s\<lparr>bytes_written := (bytes_written s + count) mod 2 ^ 64\<rparr>, w))"

section \<open>Integers\<close>

text \<open>
  The loop of \<open>pb_encode_varint\<close> over its array \<open>buffer\<close>, which has ten bytes: an
  eleventh would be written past its end.
\<close>

definition varint_fill :: "u64 \<Rightarrow> byte list option" where
  "varint_fill value =
     crun (\<lambda>(buffer, value).
       if value = 0 then Some (Leave buffer)
       else if 10 \<le> length buffer then None
       else Some (Continue (buffer @ [ucast ((value AND 0x7F) OR 0x80)], drop_bit 7 value)))
     ([], value)"

definition pb_encode_varint ::
    "'w pb_ostream \<Rightarrow> u64 \<Rightarrow> 'w cstate \<Rightarrow> (bool \<times> 'w pb_ostream \<times> 'w cstate) option" where
  "pb_encode_varint s value w =
     (if value \<le> 0x7F then pb_write s (Local [ucast value]) 1 w
      else do {
        buffer \<leftarrow> varint_fill value;
        let i = length buffer;
        let buffer = buffer[i - 1 := buffer ! (i - 1) AND 0x7F];
        pb_write s (Local buffer) i w
      })"

definition pb_encode_svarint ::
    "'w pb_ostream \<Rightarrow> u64 \<Rightarrow> 'w cstate \<Rightarrow> (bool \<times> 'w pb_ostream \<times> 'w cstate) option" where
  "pb_encode_svarint s value w =
     (let zigzagged = (if value <s 0 then NOT (push_bit 1 value) else push_bit 1 value)
      in pb_encode_varint s zigzagged w)"

definition fixed32_bytes :: "u32 \<Rightarrow> byte list" where
  "fixed32_bytes val =
     [ucast (val AND 0xFF), ucast (drop_bit 8 val AND 0xFF), ucast (drop_bit 16 val AND 0xFF),
      ucast (drop_bit 24 val AND 0xFF)]"

definition fixed64_bytes :: "u64 \<Rightarrow> byte list" where
  "fixed64_bytes val =
     [ucast (val AND 0xFF), ucast (drop_bit 8 val AND 0xFF), ucast (drop_bit 16 val AND 0xFF),
      ucast (drop_bit 24 val AND 0xFF), ucast (drop_bit 32 val AND 0xFF),
      ucast (drop_bit 40 val AND 0xFF), ucast (drop_bit 48 val AND 0xFF),
      ucast (drop_bit 56 val AND 0xFF)]"

text \<open>\<open>value\<close> points to the variable in the memory.\<close>

definition pb_encode_fixed32 ::
    "'w pb_ostream \<Rightarrow> addr \<Rightarrow> 'w cstate \<Rightarrow> (bool \<times> 'w pb_ostream \<times> 'w cstate) option" where
  "pb_encode_fixed32 s value w = do {
     val \<leftarrow> load_uint (hmem w) value 4;
     pb_write s (Local (fixed32_bytes (word_of_nat val))) 4 w
   }"

definition pb_encode_fixed64 ::
    "'w pb_ostream \<Rightarrow> addr \<Rightarrow> 'w cstate \<Rightarrow> (bool \<times> 'w pb_ostream \<times> 'w cstate) option" where
  "pb_encode_fixed64 s value w = do {
     val \<leftarrow> load_uint (hmem w) value 8;
     pb_write s (Local (fixed64_bytes (word_of_nat val))) 8 w
   }"

section \<open>Tags and strings\<close>

definition pb_encode_tag ::
    "'w pb_ostream \<Rightarrow> nat \<Rightarrow> u32 \<Rightarrow> 'w cstate \<Rightarrow> (bool \<times> 'w pb_ostream \<times> 'w cstate) option" where
  "pb_encode_tag s wiretype field_number w =
     pb_encode_varint s (push_bit 3 (ucast field_number) OR word_of_nat wiretype) w"

text \<open>The wire type of a field, \<open>None\<close> for an invalid type.\<close>

definition field_wiretype :: "pb_field \<Rightarrow> nat option" where
  "field_wiretype f =
     (let l = PB_LTYPE (ftype f) in
      if l = PB_LTYPE_VARINT \<or> l = PB_LTYPE_UVARINT \<or> l = PB_LTYPE_SVARINT then Some PB_WT_VARINT
      else if l = PB_LTYPE_FIXED32 then Some PB_WT_32BIT
      else if l = PB_LTYPE_FIXED64 then Some PB_WT_64BIT
      else if l = PB_LTYPE_BYTES \<or> l = PB_LTYPE_STRING \<or> l = PB_LTYPE_SUBMESSAGE
           \<or> l = PB_LTYPE_FIXED_LENGTH_BYTES then Some PB_WT_STRING
      else None)"

definition pb_encode_tag_for_field ::
    "'w pb_ostream \<Rightarrow> pb_field \<Rightarrow> 'w cstate \<Rightarrow> (bool \<times> 'w pb_ostream \<times> 'w cstate) option" where
  "pb_encode_tag_for_field s f w =
     (case field_wiretype f of
        None \<Rightarrow> Some (False, oset_error s ''invalid field type'', w)
      | Some wiretype \<Rightarrow> pb_encode_tag s wiretype (tag f) w)"

definition pb_encode_string ::
    "'w pb_ostream \<Rightarrow> wbuf \<Rightarrow> nat \<Rightarrow> 'w cstate \<Rightarrow> (bool \<times> 'w pb_ostream \<times> 'w cstate) option" where
  "pb_encode_string s buffer n w = do {
     (ok, s, w) \<leftarrow> pb_encode_varint s (word_of_nat n) w;
     if \<not> ok then Some (False, s, w) else pb_write s buffer n w
   }"

end
