(* ===== verification/Varint.thy ===== *)
theory Varint
  imports CPrelude
begin

text \<open>
  Variable-length integers in base 128, least significant group first, each byte but the last
  with its top bit set: the format that both the protocol buffers of \<open>nanopb\<close> and the files
  of \<open>leveldb\<close> use. These are the definitions that the routines of both are proved against.
\<close>

section \<open>The reference definitions\<close>

fun varint_bytes :: "nat \<Rightarrow> byte list" where
  "varint_bytes n =
     (if n < 128 then [word_of_nat n]
      else word_of_nat (n mod 128 + 128) # varint_bytes (n div 128))"

declare varint_bytes.simps [simp del]

lemma varint_bytes_small: "n < 128 \<Longrightarrow> varint_bytes n = [word_of_nat n]"
  by (simp add: varint_bytes.simps [of n])

lemma varint_bytes_nonempty [simp]: "varint_bytes n \<noteq> []"
  by (simp add: varint_bytes.simps [of n])

lemma length_varint_bytes: "n < 128 ^ Suc k \<Longrightarrow> length (varint_bytes n) \<le> Suc k"
proof (induction k arbitrary: n)
  case 0
  then show ?case by (simp add: varint_bytes_small)
next
  case (Suc k)
  show ?case
  proof (cases "n < 128")
    case True
    then show ?thesis by (simp add: varint_bytes_small)
  next
    case False
    have "n div 128 < 128 ^ Suc k" using Suc.prems by (simp add: less_mult_imp_div_less)
    from Suc.IH [OF this] False show ?thesis by (simp add: varint_bytes.simps [of n])
  qed
qed


text \<open>A number of at most \<open>k\<close> groups at the start of the bytes, and what follows it.\<close>

fun parse_varint :: "nat \<Rightarrow> byte list \<Rightarrow> (nat \<times> byte list) option" where
  "parse_varint 0 xs = None"
| "parse_varint (Suc k) [] = None"
| "parse_varint (Suc k) (b # xs) =
     (if unat b < 128 then Some (unat b, xs)
      else map_option (\<lambda>(v, rest). (unat b - 128 + 128 * v, rest)) (parse_varint k xs))"

lemma parse_varint_bytes:
  "n < 128 ^ Suc k \<Longrightarrow> parse_varint (Suc k) (varint_bytes n @ rest) = Some (n, rest)"
proof (induction k arbitrary: n)
  case 0
  then show ?case by (simp add: varint_bytes.simps [of n] unat_of_nat)
next
  case (Suc k)
  show ?case
  proof (cases "n < 128")
    case True
    then show ?thesis by (simp add: varint_bytes.simps [of n] unat_of_nat)
  next
    case False
    define b where "b = (word_of_nat (n mod 128 + 128) :: byte)"
    have "n mod 128 + 128 < 256" by simp
    then have u: "unat b = n mod 128 + 128"
      unfolding b_def by (simp only: unat_of_nat) simp
    have vb: "varint_bytes n = b # varint_bytes (n div 128)"
      using False by (simp only: varint_bytes.simps [of n] b_def if_False)
    have "n div 128 < 128 ^ Suc k" using Suc.prems by (simp add: less_mult_imp_div_less)
    from Suc.IH [OF this] show ?thesis
      by (simp add: vb u)
  qed
qed

text \<open>What is parsed is shorter than what was there, and determined by what it took.\<close>

lemma parse_varint_length:
  "parse_varint k xs = Some (v, rest) \<Longrightarrow> length rest < length xs"
proof (induction k xs arbitrary: v rule: parse_varint.induct)
  case (3 k b xs)
  then show ?case by (fastforce split: if_splits)
qed simp_all

lemma parse_varint_drop:
  "parse_varint k xs = Some (v, rest) \<Longrightarrow> rest = drop (length xs - length rest) xs"
proof (induction k xs arbitrary: v rule: parse_varint.induct)
  case (3 k b xs)
  show ?case
  proof (cases "unat b < 128")
    case True
    with 3 show ?thesis by simp
  next
    case False
    with 3(2) obtain u where u: "parse_varint k xs = Some (u, rest)" by auto
    from 3(1) [OF False this] parse_varint_length [OF u] show ?thesis
      by (simp add: Suc_diff_le)
  qed
qed simp_all

lemma parse_varint_bound: "parse_varint k xs = Some (v, rest) \<Longrightarrow> v < 128 ^ k"
proof (induction k xs arbitrary: v rule: parse_varint.induct)
  case (3 k b xs)
  show ?case
  proof (cases "unat b < 128")
    case True
    have "128 * 1 \<le> 128 * (128::nat) ^ k" by (intro mult_le_mono) simp_all
    with True 3 show ?thesis by (auto intro: less_le_trans)
  next
    case False
    with 3(2) obtain u where u: "parse_varint k xs = Some (u, rest)" "v = unat b - 128 + 128 * u"
      by auto
    with 3(1) [OF False u(1)] unat_byte [of b] show ?thesis by simp
  qed
qed simp_all

section \<open>Bits of a byte\<close>

lemma unat_and_7F: "unat (b AND 0x7F :: byte) = unat b mod 128"
proof -
  have "b AND 0x7F = b mod 128" by (simp add: take_bit_eq_mask mask_eq_decr_exp flip: take_bit_eq_mod [of 7, simplified])
  then show ?thesis by (simp add: unat_mod)
qed
lemma and_80_iff: "(b AND 0x80 :: byte) = 0 \<longleftrightarrow> unat b < 128"
proof -
  have "(b AND 0x80 :: byte) = 0 \<longleftrightarrow> \<not> bit b 7"
    using bit_iff_and_push_bit_not_eq_0 [of b 7] by simp
  also have "bit b 7 \<longleftrightarrow> bit (unat b) 7" by (simp add: bit_unsigned_iff)
  also have "\<dots> \<longleftrightarrow> odd (unat b div 128)" by (simp add: bit_iff_odd)
  also have "\<dots> \<longleftrightarrow> 128 \<le> unat b"
  proof -
    have "unat b div 128 = (if unat b < 128 then 0 else 1)"
      using unat_byte [of b] by (auto intro: div_nat_eqI)
    then show ?thesis by simp
  qed
  finally show ?thesis by auto
qed
lemma high_bits: 
  fixes r :: "'a::len word"
  shows "take_bit n r = r \<Longrightarrow> n \<le> k \<Longrightarrow> \<not> bit r k"
  by (metis bit_take_bit_iff linorder_not_le)
lemma or_push_plus:
  fixes r :: "'a::len word"
  assumes "take_bit n r = r" 
  shows "r OR push_bit n x = r + push_bit n x"
proof (rule disjunctive_add [symmetric])
  fix k show "\<not> bit r k \<or> \<not> bit (push_bit n x) k" 
   using high_bits [OF assms, of k] by (cases "n \<le> k") (auto simp: bit_push_bit_iff)
qed
lemma take_bit_or_push: fixes r :: "'a::len word" and b :: byte
  assumes "take_bit n r = r" 
  shows "take_bit (n + 7) (r OR push_bit n (ucast (b AND 0x7F))) = r OR push_bit n (ucast (b AND 0x7F))"
    (is "take_bit _ ?x = ?x")
proof (rule bit_word_eqI)
  fix k
  have b: "b AND 0x7F = take_bit 7 b" by (simp add: take_bit_eq_mask mask_eq_decr_exp)
  show "bit (take_bit (n+7) ?x) k = bit ?x k"
    using high_bits [OF assms, of k] unfolding b
    by (auto simp: bit_simps )
qed
lemma ucast_and_7F: "ucast (b AND 0x7F :: byte) = (word_of_nat (unat b mod 128) :: 'a::len word)"
  by (simp only: unat_and_7F [symmetric] of_nat_unat)

end
