(* ===== verification/PbVarint.thy ===== *)
theory PbVarint
  imports PbStreamInv PbOStream Varint
begin

text \<open>
  Variable-length integers against their definition in base 128: what the encoder writes
  is \<open>varint_bytes\<close>, what the decoders accept is \<open>parse_varint\<close>, and the two are
  inverse to each other.
\<close>

section \<open>Decoding\<close>

definition advance :: "'w pb_istream \<Rightarrow> nat \<Rightarrow> 'w pb_istream" where
  "advance s n =
     (case source s of
        Buffer xs \<Rightarrow> s\<lparr>source := Buffer (drop n xs), bytes_left := bytes_left s - n\<rparr>
      | Custom f p \<Rightarrow> s)"

text \<open>The bytes a stream over a buffer still has to give.\<close>

definition visible :: "'w pb_istream \<Rightarrow> byte list" where
  "visible s = (case source s of Buffer xs \<Rightarrow> take (bytes_left s) xs | Custom f p \<Rightarrow> [])"

definition on_buffer :: "'w pb_istream \<Rightarrow> bool" where
  "on_buffer s \<longleftrightarrow> (case source s of Buffer xs \<Rightarrow> bytes_left s \<le> length xs | Custom f p \<Rightarrow> False)"

lemma length_visible: "on_buffer s \<Longrightarrow> length (visible s) = bytes_left s"
  by (auto simp: visible_def on_buffer_def split: isource.splits)

lemma on_buffer_advance [simp]: "on_buffer s \<Longrightarrow> on_buffer (advance s n)"
  by (auto simp: on_buffer_def advance_def split: isource.splits)

lemma visible_advance: "on_buffer s \<Longrightarrow> visible (advance s n) = drop n (visible s)"
  by (auto simp: on_buffer_def advance_def visible_def drop_take split: isource.splits)

lemma bytes_left_advance [simp]: "on_buffer s \<Longrightarrow> bytes_left (advance s n) = bytes_left s - n"
  by (auto simp: on_buffer_def advance_def split: isource.splits)

lemma advance_advance: "on_buffer s \<Longrightarrow> advance (advance s m) n = advance s (m + n)"
  by (auto simp: on_buffer_def advance_def add.commute split: isource.splits)

lemma advance_0 [simp]: "on_buffer s \<Longrightarrow> advance s 0 = s"
  by (auto simp: on_buffer_def advance_def split: isource.splits)

lemma on_buffer_source_ok: "on_buffer s \<Longrightarrow> source_ok s"
  by (auto simp: on_buffer_def source_ok_def split: isource.splits)

lemma pb_read_some_buffer:
  assumes "on_buffer s"
  shows "pb_read_some s n w =
    (if bytes_left s < n then Some (False, [], set_error s ''end-of-stream'', w)
     else Some (True, take n (visible s), advance s n, w))"
  using assms
  by (auto simp: pb_read_some_def istream_callback_def buf_read_def on_buffer_def visible_def advance_def
      min_def split: isource.splits)

lemma pb_readbyte_buffer:
  assumes "on_buffer s"
  shows "pb_readbyte s w =
    (case visible s of [] \<Rightarrow> Some (None, set_error s ''end-of-stream'', w)
     | b # bs \<Rightarrow> Some (Some b, advance s 1, w))"
proof (cases "source s")
  case (Custom f p)
  with assms show ?thesis by (simp add: on_buffer_def)
next
  case (Buffer xs)
  with assms show ?thesis
    by (cases xs; cases "bytes_left s")
      (auto simp: pb_readbyte_def istream_callback_def buf_read_def on_buffer_def visible_def advance_def)
qed

lemma varint_turn_parse:
  fixes r :: "'a::len word"
  assumes "on_buffer s" and "take_bit (7 * i) r = r"
    and "limit \<le> 7 * (i + k)" and "k \<noteq> 0 \<longrightarrow> 7 * (i + k) < limit + 7"
  shows "case parse_varint k (visible s) of
      Some (v, rest) \<Rightarrow> crun (varint_turn limit) (7 * i, r, s, w)
        = Some (Some (r + push_bit (7 * i) (word_of_nat v)), advance s (bytes_left s - length rest), w)
    | None \<Rightarrow> (\<exists>s'. crun (varint_turn limit) (7 * i, r, s, w) = Some (None, s', w))"
  using assms
proof (induction k arbitrary: i r s)
  case 0
  then have "crun (varint_turn limit) (7 * i, r, s, w) = Some (None, set_error s ''varint overflow'', w)"
    by (intro crun_Leave) (simp add: varint_turn_def)
  then show ?case by simp
next
  case (Suc k)
  then have lim: "\<not> limit \<le> 7 * i" by simp
  show ?case
  proof (cases "visible s")
    case Nil
    with Suc.prems(1) lim have "crun (varint_turn limit) (7 * i, r, s, w)
        = Some (None, set_error s ''end-of-stream'', w)"
      by (intro crun_Leave) (simp add: varint_turn_def pb_readbyte_buffer)
    with Nil show ?thesis by simp
  next
    case (Cons b bs)
    define r' where "r' = r OR push_bit (7 * i) (ucast (b AND 0x7F))"
    have r': "r' = r + push_bit (7 * i) (word_of_nat (unat b mod 128))"
      using Suc.prems(2) by (simp add: r'_def or_push_plus ucast_and_7F)
    have len: "bytes_left s = Suc (length bs)"
      using length_visible [OF Suc.prems(1)] Cons by simp
    show ?thesis
    proof (cases "unat b < 128")
      case True
      then have "crun (varint_turn limit) (7 * i, r, s, w) = Some (Some r', advance s 1, w)"
        using Suc.prems(1) lim Cons and_80_iff [of b]
        by (intro crun_Leave) (simp add: varint_turn_def pb_readbyte_buffer r'_def Let_def)
      with True Cons r' len show ?thesis by simp
    next
      case False
      then have go: "crun (varint_turn limit) (7 * i, r, s, w)
          = crun (varint_turn limit) (7 * Suc i, r', advance s 1, w)"
        using Suc.prems(1) lim Cons and_80_iff [of b]
        by (intro crun_Continue) (simp add: varint_turn_def pb_readbyte_buffer r'_def Let_def)
      have tb: "take_bit (7 * Suc i) r' = r'"
        using take_bit_or_push [OF Suc.prems(2), of b] by (simp add: r'_def add.commute)
      have vis: "visible (advance s 1) = bs" using Suc.prems(1) Cons by (simp add: visible_advance)
      have IH: "case parse_varint k bs of
          Some (v, rest) \<Rightarrow> crun (varint_turn limit) (7 * Suc i, r', advance s 1, w)
            = Some (Some (r' + push_bit (7 * Suc i) (word_of_nat v)),
                    advance (advance s 1) (bytes_left (advance s 1) - length rest), w)
        | None \<Rightarrow> (\<exists>s'. crun (varint_turn limit) (7 * Suc i, r', advance s 1, w) = Some (None, s', w))"
        using Suc.IH [of "advance s 1" "Suc i" r'] Suc.prems tb by (simp only: vis) simp
      show ?thesis
      proof (cases "parse_varint k bs")
        case None
        with IH go Cons False show ?thesis by simp
      next
        case (Some p)
        obtain v rest where p: "p = (v, rest)" by (cases p)
        have b: "unat b mod 128 = unat b - 128"
          using False unat_byte [of b] by (simp add: mod_if)
        have val: "r' + push_bit (7 * Suc i) (word_of_nat v)
            = r + push_bit (7 * i) (word_of_nat (unat b - 128 + 128 * v))"
          by (simp add: r' b push_bit_eq_mult power_add algebra_simps)
        have rest: "length rest < length bs"
          using parse_varint_length [of k bs v rest] Some p by simp
        have adv: "advance (advance s 1) (bytes_left (advance s 1) - length rest)
            = advance s (bytes_left s - length rest)"
          using Suc.prems(1) len rest by (simp add: advance_advance Suc_diff_le)
        show ?thesis
          using IH go Cons False Some p val adv by simp
      qed
    qed
  qed
qed

text \<open>The two decoders: ten groups for 64 bits, five for 32.\<close>

lemma pb_decode_varint_parse:
  assumes "on_buffer s"
  shows "case parse_varint 10 (visible s) of
      Some (v, rest) \<Rightarrow> pb_decode_varint s w
        = Some (Some (word_of_nat v), advance s (bytes_left s - length rest), w)
    | None \<Rightarrow> (\<exists>s'. pb_decode_varint s w = Some (None, s', w))"
  using varint_turn_parse [of s 0 "0 :: u64" 64 10 w] assms
  by (simp add: pb_decode_varint_turn split: option.splits prod.splits)

lemma pb_decode_varint32_parse:
  assumes "on_buffer s"
  shows "case parse_varint 5 (visible s) of
      Some (v, rest) \<Rightarrow> pb_decode_varint32 s w
        = Some (Some (word_of_nat v), advance s (bytes_left s - length rest), w)
    | None \<Rightarrow> (\<exists>s'. pb_decode_varint32 s w = Some (None, s', w))"
proof (cases "visible s")
  case Nil
  with assms show ?thesis
    by (simp add: pb_decode_varint32_turn pb_readbyte_buffer eval_nat_numeral(3) [of num.One] numeral_eq_Suc)
next
  case (Cons b bs)
  have len: "bytes_left s = Suc (length bs)" using length_visible [OF assms] Cons by simp
  have five: "parse_varint 5 (b # bs) = (if unat b < 128 then Some (unat b, bs)
      else map_option (\<lambda>(v, rest). (unat b - 128 + 128 * v, rest)) (parse_varint 4 bs))"
    by (simp add: numeral_eq_Suc)
  show ?thesis
  proof (cases "unat b < 128")
    case True
    with assms Cons len and_80_iff [of b] show ?thesis
      by (simp add: pb_decode_varint32_turn pb_readbyte_buffer five)
  next
    case False
    define r where "r = (ucast (b AND 0x7F) :: u32)"
    have "unat b mod 128 = unat b - 128"
      using False unat_byte [of b] by (simp add: mod_if)
    then have r: "r = word_of_nat (unat b - 128)"
      by (simp only: r_def ucast_and_7F)
    have tb: "take_bit (7 * 1) r = r"
      using take_bit_or_push [of 0 "0 :: u32" b] by (simp add: r_def)
    have go: "pb_decode_varint32 s w = crun (varint_turn 32) (7 * 1, r, advance s 1, w)"
      using assms Cons False and_80_iff [of b]
      by (simp add: pb_decode_varint32_turn pb_readbyte_buffer r_def)
    have vis: "visible (advance s 1) = bs" using assms Cons by (simp add: visible_advance)
    have P: "case parse_varint 4 bs of
      Some (v, rest) \<Rightarrow> crun (varint_turn 32) (7 * 1, r, advance s 1, w)
        = Some (Some (r + push_bit (7 * 1) (word_of_nat v)),
                advance (advance s 1) (bytes_left (advance s 1) - length rest), w)
    | None \<Rightarrow> (\<exists>s'. crun (varint_turn 32) (7 * 1, r, advance s 1, w) = Some (None, s', w))"
      using varint_turn_parse [of "advance s 1" 1 r 32 4 w] assms tb by (simp only: vis) simp
    show ?thesis
    proof (cases "parse_varint 4 bs")
      case None
      with P go Cons False show ?thesis by (simp add: five)
    next
      case (Some p)
      obtain v rest where p: "p = (v, rest)" by (cases p)
      have val: "r + push_bit (7 * 1) (word_of_nat v) = word_of_nat (unat b - 128 + 128 * v)"
        by (simp add: r push_bit_eq_mult)
      have "length rest < length bs"
        using parse_varint_length [of 4 bs v rest] Some p by simp
      then have adv: "advance (advance s 1) (bytes_left (advance s 1) - length rest)
          = advance s (bytes_left s - length rest)"
        using assms len by (simp add: advance_advance Suc_diff_le)
      show ?thesis using P go Cons False Some p val adv by (simp add: five)
    qed
  qed
qed

section \<open>Encoding\<close>

fun varint_groups :: "nat \<Rightarrow> byte list" where
  "varint_groups n =
     (if n = 0 then [] else word_of_nat (n mod 128 + 128) # varint_groups (n div 128))"

declare varint_groups.simps [simp del]

lemma varint_groups_0 [simp]: "varint_groups 0 = []"
  by (simp add: varint_groups.simps [of 0])

lemma varint_groups_last:
  "0 < n \<Longrightarrow> varint_groups n \<noteq> [] \<and>
     (varint_groups n)[length (varint_groups n) - 1 :=
        varint_groups n ! (length (varint_groups n) - 1) AND 0x7F] = varint_bytes n"
proof (induction n rule: less_induct)
  case (less n)
  show ?case
  proof (cases "n < 128")
    case True
    then have "n div 128 = 0" by simp
    moreover have "word_of_nat (n mod 128 + 128) AND (0x7F :: byte) = word_of_nat n"
    proof -
      have "unat (word_of_nat (n mod 128 + 128) AND (0x7F :: byte)) = n"
        using True by (simp only: unat_and_7F unat_of_nat) simp
      then show ?thesis by (metis of_nat_unat ucast_id)
    qed
    ultimately show ?thesis
      using less.prems True
      by (simp add: varint_groups.simps [of n] varint_bytes.simps [of n])
  next
    case False
    then have d: "0 < n div 128" "n div 128 < n" by (simp_all add: div_greater_zero_iff)
    obtain g where g: "varint_groups (n div 128) = g" by simp
    from less.IH [OF d(2,1)] g have IH: "g \<noteq> []"
      "g[length g - 1 := g ! (length g - 1) AND 0x7F] = varint_bytes (n div 128)" by auto
    have "varint_groups n = word_of_nat (n mod 128 + 128) # g"
      using less.prems g by (simp only: varint_groups.simps [of n]) simp
    moreover have "varint_bytes n = word_of_nat (n mod 128 + 128) # varint_bytes (n div 128)"
      using False by (simp only: varint_bytes.simps [of n] if_False)
    ultimately show ?thesis using IH by (cases g) simp_all
  qed
qed

lemma varint_group_byte:
  "(ucast ((val AND 0x7F) OR 0x80) :: byte) = word_of_nat (unat (val :: u64) mod 128 + 128)"
proof -
  have a: "val AND 0x7F = take_bit 7 val" by (simp add: take_bit_eq_mask mask_eq_decr_exp)
  have "(val AND 0x7F) OR 0x80 = (val AND 0x7F) + push_bit 7 1"
    using or_push_plus [of 7 "val AND 0x7F" 1] by (simp add: a)
  moreover have "unat (val AND 0x7F) = unat val mod 128"
    by (simp add: a take_bit_eq_mod unat_mod)
  then have "val AND 0x7F = word_of_nat (unat val mod 128)"
    by (metis of_nat_unat ucast_id)
  ultimately have "(val AND 0x7F) OR 0x80 = word_of_nat (unat val mod 128 + 128)" by simp
  then have "unat ((val AND 0x7F) OR 0x80) = unat val mod 128 + 128"
    by (simp only: unat_of_nat) simp
  then show ?thesis by (metis of_nat_unat)
qed

lemma varint_fill_groups: "varint_fill val = Some (varint_groups (unat val))"
proof -
  have "\<exists>r. varint_fill val = Some r \<and> r = varint_groups (unat val)"
    unfolding varint_fill_def
  proof (rule crun_rule [where
        I = "\<lambda>(buffer, v). buffer @ varint_groups (unat v) = varint_groups (unat val) \<and>
               unat v * 128 ^ length buffer < 2 ^ 64"
        and f = "\<lambda>(buffer, v). unat v"], goal_cases)
    case 1
    show ?case using unsigned_less [of val, where ?'a = nat] by simp
  next
    case (2 st)
    obtain buffer v where st: "st = (buffer, v)" by (cases st)
    with 2 have inv: "buffer @ varint_groups (unat v) = varint_groups (unat val)"
      "unat v * 128 ^ length buffer < 2 ^ 64" by simp_all
    show ?case
    proof (cases "v = 0")
      case True
      with st inv show ?thesis by simp
    next
      case False
      then have pos: "0 < unat v" by (simp add: unat_gt_0)
      have "length buffer < 10"
      proof (rule ccontr)
        assume "\<not> length buffer < 10"
        then have "(128::nat) ^ 10 \<le> 128 ^ length buffer" by (intro power_increasing) simp_all
        also have "\<dots> \<le> unat v * 128 ^ length buffer" using pos by simp
        finally show False using inv(2) by simp
      qed
      moreover have "unat (drop_bit 7 v) = unat v div 128"
        by (simp only: unat_drop_bit_eq) (simp add: drop_bit_eq_div)
      moreover have "buffer @ [ucast ((v AND 0x7F) OR 0x80)] @ varint_groups (unat v div 128)
          = varint_groups (unat val)"
        using inv(1) pos by (simp add: varint_groups.simps [of "unat v"] varint_group_byte)
      moreover have "unat v div 128 * 128 ^ Suc (length buffer) < 2 ^ 64"
      proof -
        have "unat v div 128 * 128 ^ Suc (length buffer) \<le> unat v * 128 ^ length buffer"
          using div_times_less_eq_dividend [of "unat v" 128] by (simp add: ac_simps)
        with inv(2) show ?thesis by linarith
      qed
      ultimately show ?thesis using False pos st by (simp add: mult.commute)
    qed
  qed
  then show ?thesis by blast
qed

text \<open>The encoder writes the reference bytes, in one call of \<open>pb_write\<close>.\<close>

lemma pb_encode_varint_bytes:
  "pb_encode_varint s val w
     = pb_write s (Local (varint_bytes (unat val))) (length (varint_bytes (unat val))) w"
proof (cases "val \<le> 0x7F")
  case True
  then have "unat val < 128" by (simp add: word_le_nat_alt)
  moreover have "(ucast val :: byte) = word_of_nat (unat val)" by simp
  ultimately show ?thesis
    using True by (simp add: pb_encode_varint_def varint_bytes.simps [of "unat val"])
next
  case False
  then have "0 < unat val" by (simp add: word_le_nat_alt)
  from varint_groups_last [OF this] show ?thesis
    using False by (simp add: pb_encode_varint_def varint_fill_groups Let_def)
      (metis length_list_update)
qed

end
