(* ===== verification/PbWire.thy ===== *)
theory PbWire
  imports PbVarint
begin

text \<open>
  The wire format: what the encoders of integers, tags and strings write is read back by
  their decoders, which stop exactly behind it.
\<close>

abbreviation (input) istream_of :: "byte list \<Rightarrow> 'w pb_istream" where
  "istream_of xs \<equiv> pb_istream_from_buffer xs (length xs)"

lemma on_buffer_istream_of [simp]: "on_buffer (istream_of xs)"
  by (simp add: on_buffer_def pb_istream_from_buffer_def)

lemma visible_istream_of [simp]: "visible (istream_of xs) = xs"
  by (simp add: visible_def pb_istream_from_buffer_def)

lemma bytes_left_istream_of [simp]: "bytes_left (istream_of xs) = length xs"
  by (simp add: pb_istream_from_buffer_def)

lemma advance_istream_of: "advance (istream_of xs) n = istream_of (drop n xs)"
  by (simp add: advance_def pb_istream_from_buffer_def)

lemma advance_istream_of_rest:
  "rest = drop (length xs - length rest) xs \<Longrightarrow>
     advance (istream_of xs) (length xs - length rest) = istream_of rest"
  by (metis advance_istream_of)

section \<open>Variable-length integers\<close>

text \<open>A decoder's result on a buffer: the value and the rest, or \<open>None\<close> when it fails.\<close>

definition decoded :: "('v option \<times> 'w pb_istream \<times> 'w cstate) option \<Rightarrow> ('v \<times> 'w pb_istream \<times> 'w cstate) option option" where
  "decoded r = map_option (\<lambda>(v, s, w). map_option (\<lambda>x. (x, s, w)) v) r"

lemma decode_varint_spec:
  "decoded (pb_decode_varint (istream_of xs) w)
     = Some (map_option (\<lambda>(v, rest). (word_of_nat v, istream_of rest, w)) (parse_varint 10 xs))"
  using pb_decode_varint_parse [of "istream_of xs" w]
  by (auto simp: decoded_def advance_istream_of_rest [OF parse_varint_drop] split: option.splits)

lemma decode_varint32_spec:
  "decoded (pb_decode_varint32 (istream_of xs) w)
     = Some (map_option (\<lambda>(v, rest). (word_of_nat v, istream_of rest, w)) (parse_varint 5 xs))"
  using pb_decode_varint32_parse [of "istream_of xs" w]
  by (auto simp: decoded_def advance_istream_of_rest [OF parse_varint_drop] split: option.splits)

lemma decoded_Some: "decoded r = Some (Some (x, s, w)) \<longleftrightarrow> r = Some (Some x, s, w)"
  by (auto simp: decoded_def)

lemma parse_varint_mono:
  "parse_varint k xs = Some r \<Longrightarrow> k \<le> m \<Longrightarrow> parse_varint m xs = Some r"
proof (induction k xs arbitrary: r m rule: parse_varint.induct)
  case (3 k b xs)
  then obtain m' where m: "m = Suc m'" "k \<le> m'" by (cases m) auto
  show ?case
  proof (cases "unat b < 128")
    case True
    with 3 m show ?thesis by simp
  next
    case False
    with 3(2) obtain u where "parse_varint k xs = Some u" by auto
    with 3(1) [OF False this m(2)] 3(2) m False show ?thesis by simp
  qed
qed simp_all

lemma decode_varint_bytes:
  "pb_decode_varint (istream_of (varint_bytes (unat v) @ rest)) w = Some (Some v, istream_of rest, w)"
proof -
  have "unat v < 128 ^ Suc 9" using unsigned_less [of v, where ?'a = nat] by simp
  from parse_varint_bytes [OF this, of rest]
  have "parse_varint 10 (varint_bytes (unat v) @ rest) = Some (unat v, rest)"
    by (simp add: numeral_eq_Suc)
  with decode_varint_spec [of "varint_bytes (unat v) @ rest" w] show ?thesis
    by (simp add: decoded_Some)
qed

lemma decode_varint32_bytes:
  assumes "n < 2 ^ 32"
  shows "pb_decode_varint32 (istream_of (varint_bytes n @ rest)) w
           = Some (Some (word_of_nat n), istream_of rest, w)"
proof -
  have "n < 128 ^ Suc 4" using assms by simp
  from parse_varint_bytes [OF this, of rest]
  have "parse_varint 5 (varint_bytes n @ rest) = Some (n, rest)" by (simp add: numeral_eq_Suc)
  with decode_varint32_spec [of "varint_bytes n @ rest" w] show ?thesis
    by (simp add: decoded_Some)
qed

text \<open>Where the 32-bit decoder succeeds it agrees with the 64-bit one on the low half.\<close>

lemma decode_varint32_agrees:
  assumes "pb_decode_varint32 (istream_of xs) w = Some (Some v, s', w')"
  shows "\<exists>u. pb_decode_varint (istream_of xs) w = Some (Some u, s', w') \<and> ucast u = v"
proof -
  obtain n rest where
    p: "parse_varint 5 xs = Some (n, rest)" "v = word_of_nat n" "s' = istream_of rest" "w' = w"
    using assms decode_varint32_spec [of xs w]
    by (cases "parse_varint 5 xs") (auto simp: decoded_def)
  from parse_varint_mono [OF p(1), of 10] have "parse_varint 10 xs = Some (n, rest)" by simp
  with decode_varint_spec [of xs w] have
    "pb_decode_varint (istream_of xs) w = Some (Some (word_of_nat n), istream_of rest, w)"
    by (simp add: decoded_Some)
  moreover have "(ucast (word_of_nat n :: u64) :: u32) = word_of_nat n"
    by (simp add: unsigned_of_nat word_of_nat_eq_iff take_bit_eq_mod mod_mod_cancel)
  ultimately show ?thesis using p by blast
qed

section \<open>Zig-zag\<close>

text \<open>What \<open>pb_encode_svarint\<close> encodes for a signed value, given as its 64-bit word.\<close>

definition zigzag :: "u64 \<Rightarrow> u64" where
  "zigzag v = (if v <s 0 then NOT (push_bit 1 v) else push_bit 1 v)"


lemma and_1_iff: "(x :: u64) AND 1 \<noteq> 0 \<longleftrightarrow> bit x 0"
  by (simp add: and_one_eq bit_0 odd_iff_mod_2_eq_one)

lemma word_negative_iff: "(v :: u64) <s 0 \<longleftrightarrow> bit v 63"
  using bit_last_iff [of v] by (simp add: word_sless_alt)

lemma unzigzag_zigzag:
  "(if zigzag v AND 1 \<noteq> 0 then NOT (drop_bit 1 (zigzag v)) else drop_bit 1 (zigzag v)) = v"
proof (cases "bit v 63")
  case True
  then have z: "zigzag v = NOT (push_bit 1 v)" by (simp add: zigzag_def word_negative_iff)
  have "bit (NOT (push_bit 1 v)) 0" by (simp add: bit_0)
  moreover have "NOT (drop_bit 1 (NOT (push_bit 1 v))) = v"
  proof (rule bit_word_eqI)
    fix n assume n: "n < LENGTH(64)"
    show "bit (NOT (drop_bit 1 (NOT (push_bit 1 v)))) n = bit v n"
      using n True by (cases "n = 63") (auto simp: bit_simps bit_double_iff mult.commute [of v 2])
  qed
  ultimately show ?thesis by (simp only: z and_1_iff if_True)
next
  case False
  then have z: "zigzag v = push_bit 1 v" by (simp add: zigzag_def word_negative_iff)
  have "\<not> bit (push_bit 1 v) 0" by (simp add: bit_0)
  moreover have "drop_bit 1 (push_bit 1 v) = v"
  proof (rule bit_word_eqI)
    fix n assume n: "n < LENGTH(64)"
    show "bit (drop_bit 1 (push_bit 1 v)) n = bit v n"
      using n False by (cases "n = 63") (auto simp: bit_simps bit_double_iff mult.commute [of v 2])
  qed
  ultimately show ?thesis by (simp only: z and_1_iff if_False)
qed

lemma pb_encode_svarint_zigzag: "pb_encode_svarint s v w = pb_encode_varint s (zigzag v) w"
  by (simp add: pb_encode_svarint_def zigzag_def Let_def)

lemma decode_svarint_bytes:
  "pb_decode_svarint (istream_of (varint_bytes (unat (zigzag v)) @ rest)) w
     = Some (Some v, istream_of rest, w)"
  unfolding pb_decode_svarint_def decode_varint_bytes using unzigzag_zigzag [of v] by simp

section \<open>Fixed-width integers\<close>

definition byte_of :: "'a::len word \<Rightarrow> nat \<Rightarrow> 'a word" where
  "byte_of v i = push_bit (8 * i) (ucast (ucast (drop_bit (8 * i) v AND 0xFF) :: byte))"

lemma bit_byte_of: "bit (byte_of v i) n \<longleftrightarrow> n < LENGTH('a) \<and> n div 8 = i \<and> bit v n"
  for v :: "'a::len word"
proof -
  have m: "x AND 0xFF = take_bit 8 x" for x :: "'a word" by (simp add: take_bit_eq_mask mask_eq_decr_exp)
  have d: "n div 8 = i \<longleftrightarrow> 8 * i \<le> n \<and> n - 8 * i < 8" by (auto simp: div_nat_eqI)
  show ?thesis unfolding byte_of_def m d by (auto simp: bit_simps)
qed

lemma fixed32_roundtrip: "fixed32_value (fixed32_bytes v) = v"
proof (rule bit_word_eqI)
  fix n assume "n < LENGTH(32)"
  then have n: "n < LENGTH(32)" "n div 8 < 4" by simp_all
  have "fixed32_value (fixed32_bytes v) = byte_of v 0 OR byte_of v 1 OR byte_of v 2 OR byte_of v 3"
    by (simp add: fixed32_value_def fixed32_bytes_def byte_of_def)
  moreover have "n div 8 = 0 \<or> n div 8 = 1 \<or> n div 8 = 2 \<or> n div 8 = 3" using n(2) by linarith
  ultimately show "bit (fixed32_value (fixed32_bytes v)) n = bit v n"
    using n(1) by (simp only: bit_or_iff bit_byte_of) blast
qed

lemma fixed64_roundtrip: "fixed64_value (fixed64_bytes v) = v"
proof (rule bit_word_eqI)
  fix n assume "n < LENGTH(64)"
  then have n: "n < LENGTH(64)" "n div 8 < 8" by simp_all
  have "fixed64_value (fixed64_bytes v) = byte_of v 0 OR byte_of v 1 OR byte_of v 2 OR byte_of v 3
      OR byte_of v 4 OR byte_of v 5 OR byte_of v 6 OR byte_of v 7"
    by (simp add: fixed64_value_def fixed64_bytes_def byte_of_def)
  moreover have "n div 8 = 0 \<or> n div 8 = 1 \<or> n div 8 = 2 \<or> n div 8 = 3 \<or> n div 8 = 4 \<or> n div 8 = 5
      \<or> n div 8 = 6 \<or> n div 8 = 7" using n(2) by linarith
  ultimately show "bit (fixed64_value (fixed64_bytes v)) n = bit v n"
    using n(1) by (simp only: bit_or_iff bit_byte_of) blast
qed

text \<open>The bytes are those of the value in the memory of a little-endian machine.\<close>

lemma byte_of_le:
  "(ucast (drop_bit (8 * i) v AND 0xFF :: 'a::len word) :: byte) = word_of_nat (unat v div 256 ^ i)"
proof -
  have m: "x AND 0xFF = take_bit 8 x" for x :: "'a word" by (simp add: take_bit_eq_mask mask_eq_decr_exp)
  have "unat (drop_bit (8 * i) v) = unat v div 256 ^ i"
    by (simp only: unat_drop_bit_eq) (simp add: drop_bit_eq_div power_mult)
  moreover have "(ucast (take_bit 8 x) :: byte) = ucast x" for x :: "'a word"
    by (rule bit_word_eqI) (auto simp: bit_simps)
  ultimately show ?thesis by (simp only: m) (metis of_nat_unat)
qed

lemma fixed32_bytes_le: "fixed32_bytes v = le_rep 4 (unat v)"
proof -
  have four: "(4::nat) = Suc (Suc (Suc (Suc 0)))" by simp
  show ?thesis
    unfolding fixed32_bytes_def four le_rep.simps
    using byte_of_le [of 0 v] byte_of_le [of 1 v] byte_of_le [of 2 v] byte_of_le [of 3 v]
    by (simp add: div_mult2_eq [symmetric] del: of_nat_unat)
qed

lemma le_rep_8_powers:
  "le_rep 8 n = [word_of_nat n, word_of_nat (n div 256), word_of_nat (n div 256 ^ 2),
     word_of_nat (n div 256 ^ 3), word_of_nat (n div 256 ^ 4), word_of_nat (n div 256 ^ 5),
     word_of_nat (n div 256 ^ 6), word_of_nat (n div 256 ^ 7)]"
proof -
  have eight: "(8::nat) = Suc (Suc (Suc (Suc (Suc (Suc (Suc (Suc 0)))))))" by simp
  show ?thesis unfolding eight le_rep.simps by (simp add: div_mult2_eq [symmetric])
qed

lemma fixed64_bytes_le: "fixed64_bytes v = le_rep 8 (unat v)"
proof -
  show ?thesis
    unfolding fixed64_bytes_def le_rep_8_powers
    using byte_of_le [of 0 v] byte_of_le [of 1 v] byte_of_le [of 2 v] byte_of_le [of 3 v]
      byte_of_le [of 4 v] byte_of_le [of 5 v] byte_of_le [of 6 v] byte_of_le [of 7 v]
    by (simp del: of_nat_unat)
qed

lemma le_val_word32:
  assumes "length bs = 4"
  shows "fixed32_bytes (word_of_nat (le_val bs)) = bs"
proof -
  have "le_val bs < 2 ^ 32" using le_val_bound [of bs] assms by simp
  then have "unat (word_of_nat (le_val bs) :: u32) = le_val bs" by (simp only: unat_of_nat) simp
  then show ?thesis using le_rep_le_val [of bs] assms by (simp add: fixed32_bytes_le)
qed

lemma le_val_word64:
  assumes "length bs = 8"
  shows "fixed64_bytes (word_of_nat (le_val bs)) = bs"
proof -
  have "le_val bs < 2 ^ 64" using le_val_bound [of bs] assms by simp
  then have "unat (word_of_nat (le_val bs) :: u64) = le_val bs" by (simp only: unat_of_nat) simp
  then show ?thesis using le_rep_le_val [of bs] assms by (simp add: fixed64_bytes_le)
qed

section \<open>Tags\<close>

lemma pb_encode_tag_bytes:
  assumes "wt < 8"
  shows "pb_encode_tag s wt t w
    = pb_write s (Local (varint_bytes (8 * unat t + wt))) (length (varint_bytes (8 * unat t + wt))) w"
proof -
  have "take_bit 3 (word_of_nat wt :: u64) = word_of_nat wt"
    using assms by (simp add: word_unat_eq_iff unsigned_take_bit_eq unat_of_nat take_bit_eq_mod unat_mod)
  then have "push_bit 3 (ucast t) OR word_of_nat wt = (word_of_nat (8 * unat t + wt) :: u64)"
    using or_push_plus [of 3 "word_of_nat wt :: u64" "ucast t"]
    by (simp add: or.commute push_bit_eq_mult)
  moreover have "8 * unat t + wt < 2 ^ 64"
    using assms unsigned_less [of t, where ?'a = nat] by simp
  then have "unat (word_of_nat (8 * unat t + wt) :: u64) = 8 * unat t + wt"
    by (simp only: unat_of_nat) simp
  ultimately show ?thesis by (simp only: pb_encode_tag_def pb_encode_varint_bytes)
qed

lemma decode_tag_bytes:
  assumes "wt < 8" and "unat t < 2 ^ 29" and "8 * unat t + wt \<noteq> 0"
  shows "pb_decode_tag (istream_of (varint_bytes (8 * unat t + wt) @ rest)) w
           = Some (True, wt, t, False, istream_of rest, w)"
proof -
  let ?n = "8 * unat t + wt" 
  have n: "?n < 2 ^ 32" using assms by simp
  define x where "x = (word_of_nat ?n :: u32)"
  have x: "unat x = ?n" unfolding x_def by (simp only: unat_of_nat) (use n in simp)
  have "x \<noteq> 0" using x assms(3) by auto
  moreover have "unat (x AND 7) = wt"
  proof -
    have "x AND 7 = take_bit 3 x" by (simp add: take_bit_eq_mask mask_eq_decr_exp)
    then have "unat (x AND 7) = ?n mod 8" by (simp add: take_bit_eq_mod unat_mod x)
    then show ?thesis using assms(1) by simp
  qed
  moreover have "drop_bit 3 x = t"
  proof -
    have "unat (drop_bit 3 x) = unat t"
      by (simp only: unat_drop_bit_eq x) (use assms(1) in \<open>simp add: drop_bit_eq_div\<close>)
    then show ?thesis by (simp add: word_unat_eq_iff)
  qed
  ultimately show ?thesis
    using decode_varint32_bytes [OF n, of rest w] by (simp add: pb_decode_tag_def x_def)
qed

section \<open>Length-delimited values\<close>

text \<open>A string's bytes behind their length: the substream has them and the stream the rest.\<close>

lemma make_substream_bytes:
  assumes "length bs < 2 ^ 32"
  shows "pb_make_string_substream (istream_of (varint_bytes (length bs) @ bs @ rest)) w
    = Some (Some (pb_istream_from_buffer (bs @ rest) (length bs)),
            pb_istream_from_buffer (bs @ rest) (length rest), w)"
proof -
  have "unat (word_of_nat (length bs) :: u32) = length bs"
    by (simp only: unat_of_nat) (use assms in simp)
  with decode_varint32_bytes [OF assms, of "bs @ rest" w] show ?thesis
    by (simp add: pb_make_string_substream_def pb_istream_from_buffer_def)
qed

section \<open>Skipping\<close>

lemma skip_varint_bytes:
  "pb_skip_varint (istream_of (varint_bytes n @ rest)) w = Some (True, istream_of rest, w)"
proof (induction n rule: less_induct)
  case (less n)
  let ?turn = "\<lambda>(s, w). do {
       (ok, d, s, w) \<leftarrow> pb_read_some s 1 w;
       if \<not> ok then Some (Leave (False, s, w))
       else if hd d AND 0x80 \<noteq> 0 then Some (Continue (s, w))
       else Some (Leave (True, s, w))
     }"
  have turn: "?turn (istream_of (b # xs), w)
      = Some (if 128 \<le> unat b then Continue (istream_of xs, w) else Leave (True, istream_of xs, w))" for b xs
    using and_80_iff [of b]
    by (auto simp: pb_read_some_def istream_callback_def buf_read_def pb_istream_from_buffer_def)
  show ?case
  proof (cases "n < 128")
    case True
    then have v: "varint_bytes n = [word_of_nat n]" by (simp add: varint_bytes.simps [of n])
    have "\<not> 128 \<le> unat (word_of_nat n :: byte)" using True by (simp add: unat_of_nat)
    with turn [of "word_of_nat n" rest] have "?turn (istream_of (varint_bytes n @ rest), w)
        = Some (Leave (True, istream_of rest, w))"
      by (simp only: v append_Cons append_Nil if_False)
    then show ?thesis unfolding pb_skip_varint_def by (rule crun_Leave)
  next
    case False
    define b where "b = (word_of_nat (n mod 128 + 128) :: byte)"
    have v: "varint_bytes n = b # varint_bytes (n div 128)"
      using False by (simp only: varint_bytes.simps [of n] b_def if_False)
    have "n mod 128 + 128 < 256" by simp
    then have "128 \<le> unat b" unfolding b_def by (simp only: unat_of_nat) simp
    with turn [of b "varint_bytes (n div 128) @ rest"] have "?turn (istream_of (varint_bytes n @ rest), w)
        = Some (Continue (istream_of (varint_bytes (n div 128) @ rest), w))"
      by (simp only: v append_Cons if_True)
    then have "crun ?turn (istream_of (varint_bytes n @ rest), w)
        = crun ?turn (istream_of (varint_bytes (n div 128) @ rest), w)"
      by (rule crun_Continue)
    also have "\<dots> = Some (True, istream_of rest, w)"
      using less.IH [of "n div 128"] False unfolding pb_skip_varint_def by simp
    finally show ?thesis unfolding pb_skip_varint_def .
  qed
qed

lemma read_null_bytes:
  "pb_read_null (istream_of (bs @ rest)) (length bs) w = Some (True, istream_of rest, w)"
  by (simp add: pb_read_null_def pb_read_some_def istream_callback_def buf_read_def pb_istream_from_buffer_def)

lemma skip_string_bytes:
  assumes "length bs < 2 ^ 32"
  shows "pb_skip_string (istream_of (varint_bytes (length bs) @ bs @ rest)) w = Some (True, istream_of rest, w)"
proof -
  have u: "unat (word_of_nat (length bs) :: u32) = length bs"
    by (simp only: unat_of_nat) (use assms in simp)
  show ?thesis
    unfolding pb_skip_string_def decode_varint32_bytes [OF assms, of "bs @ rest" w]
    using read_null_bytes [of bs rest w] by (simp add: u)
qed

text \<open>The values of the wire format, and their wire types.\<close>

definition wire_value :: "nat \<Rightarrow> byte list \<Rightarrow> bool" where
  "wire_value wt v \<longleftrightarrow>
     wt = PB_WT_VARINT \<and> (\<exists>n. v = varint_bytes n) \<or>
     wt = PB_WT_64BIT \<and> length v = 8 \<or>
     wt = PB_WT_STRING \<and> (\<exists>bs. length bs < 2 ^ 32 \<and> v = varint_bytes (length bs) @ bs) \<or>
     wt = PB_WT_32BIT \<and> length v = 4"

lemma skip_value:
  assumes "wire_value wt v"
  shows "pb_skip_field (istream_of (v @ rest)) wt w = Some (True, istream_of rest, w)"
proof -
  from assms consider
      (varint) n where "wt = PB_WT_VARINT" "v = varint_bytes n"
    | (wide) "wt = PB_WT_64BIT" "length v = 8"
    | (str) bs where "wt = PB_WT_STRING" "length bs < 2 ^ 32" "v = varint_bytes (length bs) @ bs"
    | (narrow) "wt = PB_WT_32BIT" "length v = 4"
    unfolding wire_value_def by blast
  then show ?thesis
  proof cases
    case varint
    show ?thesis unfolding varint pb_skip_field_def using skip_varint_bytes [of n rest w] by simp
  next
    case wide
    show ?thesis using read_null_bytes [of v rest w] unfolding wide(2) unfolding wide(1) pb_skip_field_def by simp
  next
    case str
    show ?thesis using skip_string_bytes [OF str(2), of rest w]
      unfolding str(1,3) pb_skip_field_def append_assoc by simp
  next
    case narrow
    show ?thesis using read_null_bytes [of v rest w] unfolding narrow(2) unfolding narrow(1) pb_skip_field_def by simp
  qed
qed

section \<open>Properties\<close>

text \<open>
  C3. What the 64-bit decoder returns on any bytes: the number at their start in base 128, of
  at most ten groups, modulo \<open>2 ^ 64\<close>, with the stream behind it; and a failure exactly when
  there is no such number.
\<close>

theorem decode_varint_reference:
  "decoded (pb_decode_varint (istream_of xs) w)
     = Some (map_option (\<lambda>(v, rest). (word_of_nat v, istream_of rest, w)) (parse_varint 10 xs))"
  by (rule decode_varint_spec)

text \<open>The same for the 32-bit decoder, with at most five groups and modulo \<open>2 ^ 32\<close>.\<close>

theorem decode_varint32_reference:
  "decoded (pb_decode_varint32 (istream_of xs) w)
     = Some (map_option (\<lambda>(v, rest). (word_of_nat v, istream_of rest, w)) (parse_varint 5 xs))"
  by (rule decode_varint32_spec)

text \<open>
  Where the 32-bit decoder succeeds, the 64-bit decoder succeeds too, takes the same
  bytes, and has the same value in its low half.
\<close>

theorem varint32_low_half_of_varint:
  assumes "pb_decode_varint32 (istream_of xs) w = Some (Some v, s', w')"
  shows "\<exists>u. pb_decode_varint (istream_of xs) w = Some (Some u, s', w') \<and> ucast u = v"
  using assms by (rule decode_varint32_agrees)

theorem varint32_low_half_of_varint_witness:
  "\<exists>u. pb_decode_varint (istream_of (varint_bytes 300 @ [])) \<lparr>hmem = (\<lambda>_. None), user = ()\<rparr>
         = Some (Some u, istream_of [], \<lparr>hmem = (\<lambda>_. None), user = ()\<rparr>) \<and> ucast u = (word_of_nat 300 :: u32)"
proof (rule varint32_low_half_of_varint)
  show "pb_decode_varint32 (istream_of (varint_bytes 300 @ [])) \<lparr>hmem = (\<lambda>_. None), user = ()\<rparr>
      = Some (Some (word_of_nat 300), istream_of [], \<lparr>hmem = (\<lambda>_. None), user = ()\<rparr>)"
    by (rule decode_varint32_bytes) simp
qed

text \<open>
  C4. Round trip of variable-length integers: the encoder writes at most ten bytes, in one
  call, from which the decoder reads the value back, leaving what follows.
\<close>

theorem varint_roundtrip:
  "\<exists>bs. (\<forall>s w. pb_encode_varint s v w = pb_write s (Local bs) (length bs) w) \<and>
        pb_decode_varint (istream_of (bs @ rest)) w' = Some (Some v, istream_of rest, w')"
  using pb_encode_varint_bytes decode_varint_bytes by blast

text \<open>Round trip of zig-zag encoded signed integers.\<close>

theorem svarint_roundtrip:
  "\<exists>bs. (\<forall>s w. pb_encode_svarint s v w = pb_write s (Local bs) (length bs) w) \<and>
        pb_decode_svarint (istream_of (bs @ rest)) w' = Some (Some v, istream_of rest, w')"
  using pb_encode_svarint_zigzag pb_encode_varint_bytes decode_svarint_bytes by metis

text \<open>
  Round trip of fixed-width integers from memory to memory: the encoders write the bytes of
  the variable, and the decoders store such bytes into theirs.
\<close>

theorem fixed32_memory_roundtrip:
  assumes "load_bytes (hmem w) p 4 = Some bs" and "valid (hmem w') q 4"
  shows "pb_encode_fixed32 s p w = pb_write s (Local bs) 4 w \<and>
         pb_decode_fixed32 (istream_of (bs @ rest)) q w'
           = Some (True, istream_of rest, w'\<lparr>hmem := overwrite (hmem w') q bs\<rparr>)"
proof
  have len: "length bs = 4" using load_bytes_length [OF assms(1)] .
  note b = le_val_word32 [OF len]
  then show "pb_encode_fixed32 s p w = pb_write s (Local bs) 4 w"
    by (simp add: pb_encode_fixed32_def load_uint_def assms(1))
  have "fixed32_value bs = word_of_nat (le_val bs)"
    using fixed32_roundtrip [of "word_of_nat (le_val bs)"] b by simp
  then have "le_rep 4 (unat (fixed32_value bs)) = bs" using b by (simp only: fixed32_bytes_le)
  moreover have "store_bytes (hmem w') q bs = Some (overwrite (hmem w') q bs)"
    using assms(2) len by (intro store_bytes_overwrite) simp
  ultimately show "pb_decode_fixed32 (istream_of (bs @ rest)) q w'
      = Some (True, istream_of rest, w'\<lparr>hmem := overwrite (hmem w') q bs\<rparr>)"
    using len by (simp add: pb_decode_fixed32_def pb_read_some_def istream_callback_def buf_read_def
        pb_istream_from_buffer_def store_uint_def)
qed

theorem fixed32_memory_roundtrip_witness:
  "pb_decode_fixed32 (istream_of ([1, 2, 3, 4] @ [5])) 16 \<lparr>hmem = zero_memory 16 4, user = ()\<rparr>
     = Some (True, istream_of [5], \<lparr>hmem = overwrite (zero_memory 16 4) 16 [1, 2, 3, 4], user = ()\<rparr>)"
proof -
  let ?m = "zero_memory 16 4"
  let ?bs = "[1, 2, 3, 4] :: byte list"
  have l: "load_bytes (hmem \<lparr>hmem = overwrite ?m 16 ?bs, user = ()\<rparr>) 16 4 = Some ?bs"
    unfolding cstate.select_convs by (rule load_overwrite_all) simp
  have v: "valid (hmem \<lparr>hmem = ?m, user = ()\<rparr>) 16 4"
    unfolding cstate.select_convs by (rule valid_zero_memory)
  show ?thesis
    using fixed32_memory_roundtrip [OF l v, of PB_OSTREAM_SIZING "[5]", THEN conjunct2]
    unfolding cstate.select_convs cstate.update_convs .
qed

text \<open>The same for the 64-bit integers.\<close>

theorem fixed64_memory_roundtrip:
  assumes "load_bytes (hmem w) p 8 = Some bs" and "valid (hmem w') q 8"
  shows "pb_encode_fixed64 s p w = pb_write s (Local bs) 8 w \<and>
         pb_decode_fixed64 (istream_of (bs @ rest)) q w'
           = Some (True, istream_of rest, w'\<lparr>hmem := overwrite (hmem w') q bs\<rparr>)"
proof
  have len: "length bs = 8" using load_bytes_length [OF assms(1)] .
  note b = le_val_word64 [OF len]
  then show "pb_encode_fixed64 s p w = pb_write s (Local bs) 8 w"
    by (simp add: pb_encode_fixed64_def load_uint_def assms(1))
  have "fixed64_value bs = word_of_nat (le_val bs)"
    using fixed64_roundtrip [of "word_of_nat (le_val bs)"] b by simp
  then have "le_rep 8 (unat (fixed64_value bs)) = bs" using b by (simp only: fixed64_bytes_le)
  moreover have "store_bytes (hmem w') q bs = Some (overwrite (hmem w') q bs)"
    using assms(2) len by (intro store_bytes_overwrite) simp
  ultimately show "pb_decode_fixed64 (istream_of (bs @ rest)) q w'
      = Some (True, istream_of rest, w'\<lparr>hmem := overwrite (hmem w') q bs\<rparr>)"
    using len by (simp add: pb_decode_fixed64_def pb_read_some_def istream_callback_def buf_read_def
        pb_istream_from_buffer_def store_uint_def)
qed

theorem fixed64_memory_roundtrip_witness:
  "pb_decode_fixed64 (istream_of ([1, 2, 3, 4, 5, 6, 7, 8] @ [5])) 16 \<lparr>hmem = zero_memory 16 8, user = ()\<rparr>
     = Some (True, istream_of [5], \<lparr>hmem = overwrite (zero_memory 16 8) 16 [1, 2, 3, 4, 5, 6, 7, 8], user = ()\<rparr>)"
proof -
  let ?m = "zero_memory 16 8"
  let ?bs = "[1, 2, 3, 4, 5, 6, 7, 8] :: byte list"
  have l: "load_bytes (hmem \<lparr>hmem = overwrite ?m 16 ?bs, user = ()\<rparr>) 16 8 = Some ?bs"
    unfolding cstate.select_convs by (rule load_overwrite_all) simp
  have v: "valid (hmem \<lparr>hmem = ?m, user = ()\<rparr>) 16 8"
    unfolding cstate.select_convs by (rule valid_zero_memory)
  show ?thesis
    using fixed64_memory_roundtrip [OF l v, of PB_OSTREAM_SIZING "[5]", THEN conjunct2]
    unfolding cstate.select_convs cstate.update_convs .
qed

text \<open>
  Round trip of tags: for a field number below \<open>2 ^ 29\<close> and a wire type, of which not both
  are 0, the decoder gives back both, with no end of message.
\<close>

theorem tag_roundtrip:
  assumes "wt < 8" and "unat t < 2 ^ 29" and "unat t \<noteq> 0 \<or> wt \<noteq> 0"
  shows "\<exists>bs. (\<forall>s w. pb_encode_tag s wt t w = pb_write s (Local bs) (length bs) w) \<and>
    pb_decode_tag (istream_of (bs @ rest)) w' = Some (True, wt, t, False, istream_of rest, w')"
  using pb_encode_tag_bytes [OF assms(1)] decode_tag_bytes [OF assms(1,2)] assms(3) by fastforce

theorem tag_roundtrip_witness:
  "\<exists>bs. (\<forall>s w. pb_encode_tag s 2 536870911 w = pb_write s (Local bs) (length bs) w) \<and>
    pb_decode_tag (istream_of (bs @ [7])) \<lparr>hmem = (\<lambda>_. None), user = ()\<rparr>
      = Some (True, 2, 536870911, False, istream_of [7], \<lparr>hmem = (\<lambda>_. None), user = ()\<rparr>)"
  by (rule tag_roundtrip) simp_all

text \<open>
  C5. Framing of length-delimited values: from what \<open>pb_encode_string\<close> writes for a string, the
  decoder opens a substream of exactly its length over its bytes, and the stream itself stays
  with the bytes that follow; closing the substream after it was read to its end, or not at
  all, leaves the stream at these.
\<close>

theorem string_framing:
  assumes "length bs < 2 ^ 32"
  shows "\<exists>sub s.
    pb_make_string_substream (istream_of (varint_bytes (length bs) @ bs @ rest)) w = Some (Some sub, s, w) \<and>
    visible sub = bs \<and> bytes_left s = length rest \<and>
    pb_close_string_substream s sub w = Some (True, istream_of rest, w) \<and>
    pb_close_string_substream s (advance sub (length bs)) w = Some (True, istream_of rest, w)"
  using make_substream_bytes [OF assms, of rest w] read_null_bytes [of bs rest w]
  by (auto simp: visible_def pb_istream_from_buffer_def pb_close_string_substream_def advance_def
      pb_read_null_def pb_read_some_def istream_callback_def buf_read_def)

theorem string_framing_witness:
  "\<exists>sub s. visible sub = [65, 66] \<and> bytes_left s = 1 \<and>
    pb_close_string_substream s sub \<lparr>hmem = (\<lambda>_. None), user = ()\<rparr> = Some (True, istream_of [1], \<lparr>hmem = (\<lambda>_. None), user = ()\<rparr>)"
  using string_framing [of "[65, 66]" "[1]" "\<lparr>hmem = (\<lambda>_. None), user = ()\<rparr>"] by fastforce

text \<open>
  An unknown field is skipped exactly: whatever value of a wire type stands at the start of
  the input, \<open>pb_skip_field\<close> leaves the stream behind it.
\<close>

theorem skip_field_exact:
  assumes "wire_value wt v"
  shows "pb_skip_field (istream_of (v @ rest)) wt w = Some (True, istream_of rest, w)"
  using assms by (rule skip_value)

theorem skip_field_exact_witness:
  "pb_skip_field (istream_of ([1, 2, 3, 4] @ [9])) 5 \<lparr>hmem = (\<lambda>_. None), user = ()\<rparr> = Some (True, istream_of [9], \<lparr>hmem = (\<lambda>_. None), user = ()\<rparr>)"
  by (rule skip_field_exact) (simp add: wire_value_def)

text \<open>
  The last byte of an over-long number: bits past the 64th are dropped without an error, so
  different inputs of ten bytes have the same value.
\<close>

theorem varint_overlong_bits_dropped:
  "pb_decode_varint (istream_of (replicate 9 0xFF @ [0x7F])) w = Some (Some (- 1), istream_of [], w) \<and>
   pb_decode_varint (istream_of (replicate 9 0xFF @ [0x01])) w = Some (Some (- 1), istream_of [], w)"
proof -
  have nine: "replicate 9 (0xFF :: byte) = [0xFF, 0xFF, 0xFF, 0xFF, 0xFF, 0xFF, 0xFF, 0xFF, 0xFF]"
    by (simp add: numeral_eq_Suc)
  have ten: "(10::nat) = Suc (Suc (Suc (Suc (Suc (Suc (Suc (Suc (Suc (Suc 0)))))))))" by simp
  have "parse_varint 10 (replicate 9 0xFF @ [0x7F]) = Some (2 ^ 70 - 1, [])"
    "parse_varint 10 (replicate 9 0xFF @ [0x01]) = Some (2 ^ 64 - 1, [])"
    unfolding nine ten by simp_all
  with decode_varint_spec [of "replicate 9 0xFF @ [0x7F]" w] decode_varint_spec [of "replicate 9 0xFF @ [0x01]" w]
  show ?thesis by (simp add: decoded_Some)
qed

end
