(* ===== verification/PbDecodeProps.thy ===== *)
theory PbDecodeProps
  imports PbMessageEnd PbLayout PbWire
begin

text \<open>
  The properties of the message decoder: safety, termination and the stream's account of
  the input; required fields; the end of a message.
\<close>

section \<open>Safety\<close>

lemma pb_decode_total:
  assumes "env_ok env U" and "wf_message env S U m d fs dest" and "source_ok s" and "memory_ok S U m (hmem w)"
  shows "dec_post s (S \<union> U) w (pb_decode d env s fs dest w)"
  unfolding pb_decode_def
  by (rule pb_decode_with_safe [OF message_decoder_safe [OF assms(1)] assms(2-4)])

lemma pb_decode_delimited_total:
  assumes "env_ok env U" and "wf_message env S U m d fs dest" and so: "source_ok s" and mo: "memory_ok S U m (hmem w)"
  shows "dec_post s (S \<union> U) w (pb_decode_delimited d env s fs dest w)"
proof -
  let ?R = "S \<union> U"
  from pb_make_string_substream_ok [OF so, of w] obtain sub s1 w1 where
    m: "pb_make_string_substream s w = Some (sub, s1, w1)" "hmem w1 = hmem w" "lags s s1"
      "\<forall>ss. sub = Some ss \<longrightarrow> source_ok ss \<and> bytes_left ss < bytes_left s \<and>
         source s1 = source ss \<and> consumes s (s1\<lparr>bytes_left := bytes_left s1 + bytes_left ss\<rparr>)"
    by blast
  show ?thesis
  proof (cases sub)
    case None
    with m show ?thesis by (simp add: pb_decode_delimited_def step_ok_def)
  next
    case (Some ss)
    with m have ss: "source_ok ss" "source s1 = source ss"
      "consumes s (s1\<lparr>bytes_left := bytes_left s1 + bytes_left ss\<rparr>)" by simp_all
    have "memory_ok S U m (hmem w1)" using mo m by simp
    from pb_decode_total [OF assms(1,2) ss(1) this] obtain status ss' w2 where
      l: "pb_decode d env ss fs dest w1 = Some (status, ss', w2)" "step_ok ss status ss'"
        "same_outside ?R (hmem w1) (hmem w2)"
      by (rule dec_postE)
    from pb_close_string_substream_ok [OF ss(3) ss(2) ss(1) so m(3) l(2), of w2] obtain ok s2 w3 where
      "pb_close_string_substream s1 ss' w2 = Some (ok, s2, w3)" "hmem w3 = hmem w2"
      "step_ok s (ok \<and> status) s2" by blast
    with m l Some show ?thesis
      by (cases ok) (auto simp: pb_decode_delimited_def step_ok_def)
  qed
qed

text \<open>
  An environment for the witnesses: a decoding callback that skips what it is given, an
  encoding callback that writes nothing.
\<close>

definition skip_env :: "'w penv" where
  "skip_env =
     \<lparr>decode_callback = (\<lambda>code s f arg w. pb_read_null s (bytes_left s) w),
      encode_callback = (\<lambda>code s f arg w. Some (True, s, w)),
      extension_type = (\<lambda>a. \<lparr>ext_decode = None, ext_encode = None, ext_arg = PB_LAST_FIELD\<rparr>)\<rparr>"

lemma skip_env_ok: "env_ok skip_env U"
  unfolding env_ok_def
proof (intro conjI allI impI)
  fix code :: addr and s :: "'a pb_istream" and f arg and w :: "'a cstate"
  assume "source_ok s"
  from pb_read_null_ok [OF this, of "bytes_left s" w] obtain ok s' w' where
    "pb_read_null s (bytes_left s) w = Some (ok, s', w')" "hmem w' = hmem w"
    "ok \<longrightarrow> bytes_left s \<le> bytes_left s \<and> bytes_left s' = bytes_left s - bytes_left s" "step_ok s ok s'"
    by blast
  then show "\<exists>ok s' w'. decode_callback skip_env code s f arg w = Some (ok, s', w') \<and> step_ok s ok s' \<and>
      same_outside (region arg 8 \<union> U) (hmem w) (hmem w') \<and>
      (ok \<and> 0 < bytes_left s \<longrightarrow> bytes_left s' < bytes_left s)"
    by (auto simp: skip_env_def)
qed (simp add: skip_env_def)

text \<open>The descriptors that the macros write for the message of \<open>example_decls\<close>.\<close>

definition example_fields :: "pb_field list" where
  "example_fields =
     [Pb_field 1 0x00 0 0 4 0 Pb_null, Pb_field 2 0x16 1 (- 1) 16 0 Pb_null,
      Pb_field 3 0x21 7 (- 4) 4 3 Pb_null, Pb_field 4 0x55 0 0 16 0 Pb_null]"

lemma example_fields_descriptors: "example_fields = descriptors example_decls"
  by (simp add: example_fields_def descriptors_def descriptor_def example_decls_def PB_FIELD_def
      field_macro_defs PB_DATAOFFSET_FIRST_def PB_DATAOFFSET_OTHER_def pb_delta_def pb_arraysize_def upt_rec
      Let_def)

lemma example_entries:
  "length example_fields = 4" "[0 ..< entries example_fields] = [0, Suc 0, Suc (Suc 0), Suc (Suc (Suc 0))]"
  "field_at example_fields 0 = Pb_field 1 0x00 0 0 4 0 Pb_null"
  "field_at example_fields (Suc 0) = Pb_field 2 0x16 1 (- 1) 16 0 Pb_null"
  "field_at example_fields (Suc (Suc 0)) = Pb_field 3 0x21 7 (- 4) 4 3 Pb_null"
  "field_at example_fields (Suc (Suc (Suc 0))) = Pb_field 4 0x55 0 0 16 0 Pb_null"
  "tags_ok example_fields" "required_count example_fields = 1"
proof -
  show l: "length example_fields = 4" by (simp add: example_fields_def)
  have "example_fields \<noteq> []" by (simp add: example_fields_def)
  with l show "[0 ..< entries example_fields] = [0, Suc 0, Suc (Suc 0), Suc (Suc (Suc 0))]" by (simp add: upt_rec)
qed (simp_all add: field_at_def example_fields_def tags_ok_def required_count_def PB_HTYPE_def)

lemma example_wf: "wf_message env (region 4096 56) U m 1 example_fields 4096"
proof -
  have all: "(\<forall>i < entries fs. P i) \<longleftrightarrow> (\<forall>i \<in> set [0 ..< entries fs]. P i)" for fs :: "pb_field list" and P by auto
  have "wf_message env (region 4096 56) U m (Suc 0) example_fields 4096"
    unfolding wf_message_def message_fits_def all example_entries(2)
    by (auto simp: example_entries pb_field_iter_begin_def pb_field_iter_next_def iter_prev_size_def Let_def required_defined_def
        PB_ATYPE_def PB_HTYPE_def PB_LTYPE_def field_fits_def element_fits_def item_fits_def region_def)
  then show ?thesis by simp
qed

section \<open>Required fields\<close>

lemma drop_bit_ones: "n \<le> 32 \<Longrightarrow> drop_bit (32 - n) (- 1 :: u32) = mask n"
  by (rule bit_word_eqI) (auto simp: bit_simps)

lemma eq_mask_iff:
  fixes x :: u32
  assumes "\<And>k. n \<le> k \<Longrightarrow> k < 32 \<Longrightarrow> \<not> bit x k" and "n \<le> 32"
  shows "x = mask n \<longleftrightarrow> (\<forall>k < n. bit x k)"
proof
  assume "x = mask n"
  then show "\<forall>k < n. bit x k" using assms(2) by (simp add: bit_mask_iff)
next
  assume "\<forall>k < n. bit x k"
  then have "bit x k = bit (mask n :: u32) k" if "k < 32" for k
    using assms that by (cases "k < n") (auto simp: bit_mask_iff)
  then show "x = mask n" by (intro bit_word_eqI) simp
qed

definition seen_bit :: "u32 list \<Rightarrow> nat \<Rightarrow> bool" where
  "seen_bit seen k = bit (seen ! (k div 32)) (k mod 32)"

lemma check_required_bits:
  assumes len: "length seen = 2" and n: "n < 64" "n \<noteq> 32"
    and clear: "\<And>k. n \<le> k \<Longrightarrow> k < 64 \<Longrightarrow> \<not> seen_bit seen k"
  shows "check_required seen n = Some (\<forall>k < n. seen_bit seen k)"
proof -
  obtain a b where seen: "seen = [a, b]" using len by (auto simp: length_Suc_conv numeral_2_eq_2)
  have sa: "seen_bit seen k = bit a k" if "k < 32" for k using that by (simp add: seen_bit_def seen)
  have sb: "seen_bit seen (32 + k) = bit b k" if "k < 32" for k
    using that by (simp add: seen_bit_def seen)
  let ?body = "\<lambda>i. if i < n div 32 then
            if length seen \<le> i then None
            else if seen ! i \<noteq> - 1 then Some (Leave False)
            else Some (Continue (i + 1))
          else Some (Leave True)"
  consider (zero) "n = 0" | (low) "0 < n" "n < 32" | (high) "32 < n" using n by linarith
  then show ?thesis
  proof cases
    case zero
    then show ?thesis by (auto simp: check_required_def)
  next
    case low
    then have d: "n div 32 = 0" "n mod 32 = n" and n32: "n \<le> 32" by simp_all
    have "crun ?body 0 = Some True" by (rule crun_Leave) (simp add: d(1))
    moreover have "\<not> bit a k" if "n \<le> k" "k < 32" for k
      using clear [of k] sa [of k] that by simp
    then have "a = mask n \<longleftrightarrow> (\<forall>k < n. bit a k)"
      using n32 by (rule eq_mask_iff)
    moreover have "(\<forall>k < n. seen_bit seen k) \<longleftrightarrow> (\<forall>k < n. bit a k)"
      using sa low(2) by (meson less_trans)
    ultimately show ?thesis
      using low d by (auto simp: check_required_def seen drop_bit_ones)
  next
    case high
    define r where "r = n - 32"
    have d: "n div 32 = 1" "n mod 32 = r" "0 < r" "r < 32" "n = 32 + r"
      using high n by (simp_all add: r_def div_nat_eqI le_mod_geq)
    have all: "(\<forall>k < n. seen_bit seen k) \<longleftrightarrow> (\<forall>k < 32. bit a k) \<and> (\<forall>k < r. bit b k)"
    proof
      assume h: "\<forall>k < n. seen_bit seen k"
      have "bit a k" if "k < 32" for k using h sa [OF that] that d(5) by simp
      moreover have "bit b k" if "k < r" for k
        using h sb [of k] that d(4,5) by simp
      ultimately show "(\<forall>k < 32. bit a k) \<and> (\<forall>k < r. bit b k)" by blast
    next
      assume h: "(\<forall>k < 32. bit a k) \<and> (\<forall>k < r. bit b k)"
      show "\<forall>k < n. seen_bit seen k"
      proof (intro allI impI)
        fix k assume "k < n"
        then show "seen_bit seen k"
          using h sa [of k] sb [of "k - 32"] d(4,5) by (cases "k < 32") auto
      qed
    qed
    have a: "a = - 1 \<longleftrightarrow> (\<forall>k < 32. bit a k)"
      using eq_mask_iff [of 32 a] drop_bit_ones [of 32] by simp
    have "\<not> bit b k" if "r \<le> k" "k < 32" for k
      using clear [of "32 + k"] sb [of k] that d(5) by simp
    then have b: "b = mask r \<longleftrightarrow> (\<forall>k < r. bit b k)"
      using less_imp_le [OF d(4)] by (rule eq_mask_iff)
    show ?thesis
    proof (cases "a = - 1")
      case True
      have step: "crun ?body 0 = crun ?body 1" by (rule crun_Continue) (simp add: d(1) True seen)
      have "crun ?body 1 = Some True" by (rule crun_Leave) (simp add: d(1))
      with step have run: "crun ?body 0 = Some True" by (rule trans)
      show ?thesis
        unfolding check_required_def run all using d(1-4) high a b True
        by (auto simp: seen drop_bit_ones)
    next
      case False
      have run: "crun ?body 0 = Some False" by (rule crun_Leave) (simp add: d(1) False seen)
      show ?thesis unfolding check_required_def run all using high a False by auto
    qed
  qed
qed

lemma mark_seen_bit:
  assumes "length seen = 2" and "PB_HTYPE (ftype (ipos it)) = PB_HTYPE_REQUIRED"
    and "required_field_index it < 64" and "k < 64"
  shows "seen_bit (mark_seen it seen) k \<longleftrightarrow> k = required_field_index it \<or> seen_bit seen k"
proof -
  let ?i = "required_field_index it"
  have d: "?i div 32 < length seen" using assms(1,3) by simp
  show ?thesis
  proof (cases "k div 32 = ?i div 32")
    case True
    have "k mod 32 = ?i mod 32 \<longleftrightarrow> k = ?i"
      using True by (metis mod_div_mult_eq)
    moreover have "k mod 32 < 32" by simp
    ultimately show ?thesis
      using True d assms by (auto simp: seen_bit_def mark_seen_def Let_def bit_simps)
  next
    case False
    then show ?thesis using d assms by (auto simp: seen_bit_def mark_seen_def Let_def)
  qed
qed

lemma decode_noinit_empty:
  assumes wf: "wf_message env S U m (Suc d) fs dest"
  shows "\<exists>s'. pb_decode_noinit (Suc d) env (pb_istream_from_buffer [] 0) fs dest w = Some (required_count fs = 0, s', w)"
proof -
  have ok: "fs = [] \<or> tags_ok fs" and n: "required_count fs < 64" "required_count fs \<noteq> 32"
    using wf by (simp_all add: wf_message_def message_fits_def required_defined_def)
  obtain ne where b: "pb_field_iter_begin fs dest = (ne, iter_at fs dest 0)"
    by (cases "pb_field_iter_begin fs dest") simp
  have run: "crun (decode_turn d env (pb_decode_noinit d env)) (pb_istream_from_buffer [] 0, iter_at fs dest 0, [0, 0], 0, w)
      = Some (True, pb_istream_from_buffer [] 0, iter_at fs dest 0, [0, 0], w)"
    by (rule crun_Leave) (simp add: decode_turn_def pb_istream_from_buffer_def del: iter_at.simps)
  have "0 < entries fs" by (simp add: entries_def)
  note cnt = count_required_at [OF ok this, of dest]
  have z: "\<not> seen_bit [0, 0] k" if "k < 64" for k
  proof -
    have "k div 32 = 0 \<or> k div 32 = 1" using that by linarith
    then show ?thesis by (auto simp: seen_bit_def)
  qed
  have "check_required [0, 0] (required_count fs) = Some (\<forall>k < required_count fs. seen_bit [0, 0] k)"
    by (rule check_required_bits) (use n z in simp_all)
  moreover have "(\<forall>k < required_count fs. seen_bit [0, 0] k) \<longleftrightarrow> required_count fs = 0"
    using z n(1) by (metis bot_nat_0.not_eq_extremum less_trans not_less_zero)
  ultimately show ?thesis
    by (auto simp: decode_noinit_body_def b run cnt simp del: iter_at.simps)
qed

section \<open>A tag cut off by the end of the input\<close>

lemma varint_turn_truncated:
  fixes r :: "'a::len word"
  assumes "on_buffer s" and "\<forall>b \<in> set (visible s). 128 \<le> unat b" and "7 * (i + length (visible s)) < limit"
  shows "\<exists>s'. crun (varint_turn limit) (7 * i, r, s, w) = Some (None, s', w) \<and> bytes_left s' = 0"
  using assms
proof (induction "visible s" arbitrary: s i r)
  case Nil
  have "crun (varint_turn limit) (7 * i, r, s, w) = Some (None, set_error s ''end-of-stream'', w)"
    by (rule crun_Leave) (use Nil in \<open>simp add: varint_turn_def pb_readbyte_buffer flip: Nil(1)\<close>)
  moreover have "bytes_left s = 0" using length_visible [OF Nil(2)] Nil(1) by simp
  ultimately show ?case by simp
next
  case (Cons b bs)
  have v: "visible s = b # bs" using Cons.hyps(2) by simp
  have vis: "visible (advance s 1) = bs" using Cons.prems(1) v by (simp add: visible_advance)
  have "crun (varint_turn limit) (7 * i, r, s, w)
      = crun (varint_turn limit) (7 * Suc i, r OR push_bit (7 * i) (ucast (b AND 0x7F)), advance s 1, w)"
    using Cons.prems and_80_iff [of b]
    by (intro crun_Continue) (simp add: varint_turn_def pb_readbyte_buffer v Let_def)
  moreover have "\<exists>s'. crun (varint_turn limit) (7 * Suc i, r OR push_bit (7 * i) (ucast (b AND 0x7F)), advance s 1, w)
      = Some (None, s', w) \<and> bytes_left s' = 0"
    by (rule Cons.hyps(1)) (use Cons.prems v vis in simp_all)
  ultimately show ?case by simp
qed

lemma decode_varint32_truncated:
  assumes "\<forall>b \<in> set xs. 128 \<le> unat b" and "length xs < 5"
  shows "\<exists>s' :: 'a pb_istream. pb_decode_varint32 (istream_of xs) w = Some (None, s', w) \<and> bytes_left s' = 0"
proof (cases xs)
  case Nil
  then show ?thesis
    by (simp add: pb_decode_varint32_turn pb_readbyte_def pb_istream_from_buffer_def)
next
  case (Cons b bs)
  define s0 where "s0 = (istream_of xs :: 'a pb_istream)"
  let ?s = "advance s0 1"
  have s0: "on_buffer s0" "visible s0 = b # bs"
    unfolding s0_def by (rule on_buffer_istream_of) (simp only: visible_istream_of Cons)
  have vis: "visible ?s = bs" using s0 by (simp add: visible_advance)
  have "pb_decode_varint32 s0 w = crun (varint_turn 32) (7 * 1, ucast (b AND 0x7F), ?s, w)"
    using assms(1) and_80_iff [of b] pb_readbyte_buffer [OF s0(1), of w] s0(2) Cons
    by (simp add: pb_decode_varint32_turn)
  moreover have "\<exists>s'. crun (varint_turn 32) (7 * 1, ucast (b AND 0x7F) :: u32, ?s, w) = Some (None, s', w) \<and> bytes_left s' = 0"
    by (rule varint_turn_truncated) (use assms vis Cons s0 in simp_all)
  ultimately show ?thesis by (simp add: s0_def)
qed

lemma decode_noinit_truncated:
  assumes wf: "wf_message env S U m (Suc d) fs dest" and "required_count fs = 0"
    and "\<forall>b \<in> set xs. 128 \<le> unat b" and "length xs < 5"
  shows "\<exists>s'. pb_decode_noinit (Suc d) env (istream_of xs) fs dest w = Some (True, s', w)"
proof (cases "xs = []")
  case True
  with decode_noinit_empty [OF wf, of w] assms(2) show ?thesis by simp
next
  case False
  note ok = wf_message_tags [OF wf]
  obtain ne where b: "pb_field_iter_begin fs dest = (ne, iter_at fs dest 0)"
    by (cases "pb_field_iter_begin fs dest") simp
  from decode_varint32_truncated [OF assms(3,4)] obtain s' where
    v: "pb_decode_varint32 (istream_of xs) w = Some (None, s', w)" "bytes_left s' = 0" by blast
  then have t: "pb_decode_tag (istream_of xs) w = Some (False, 0, 0, True, s', w)"
    by (simp add: pb_decode_tag_def)
  have run: "crun (decode_turn d env (pb_decode_noinit d env)) (istream_of xs, iter_at fs dest 0, [0, 0], 0, w)
      = Some (True, s', iter_at fs dest 0, [0, 0], w)"
    by (rule crun_Leave) (use False t in \<open>simp add: decode_turn_def del: iter_at.simps\<close>)
  have "0 < entries fs" by (simp add: entries_def)
  note cnt = count_required_at [OF ok this, of dest]
  show ?thesis
    using assms(2) by (simp add: decode_noinit_body_def b run cnt check_required_def del: iter_at.simps)
qed

section \<open>A message with an extension\<close>

text \<open>
  For the witness: a structure of 16 bytes at 4096, an integer and the pointer to the list of extensions; at 4112 one extension, whose type is at the
  address 8192 and whose data, an integer, is at 4144.
\<close>

definition memory_of :: "addr \<Rightarrow> byte list \<Rightarrow> memory" where
  "memory_of a bs = (\<lambda>x. if a \<le> x \<and> x < a + int (length bs) then Some (bs ! nat (x - a)) else None)"

definition extended_fields :: "pb_field list" where
  "extended_fields = [Pb_field 1 0x01 0 0 4 0 Pb_null, Pb_field 100 0x98 4 0 8 0 Pb_null]"

definition extended_env :: "'w penv" where
  "extended_env = skip_env\<lparr>extension_type :=
     (\<lambda>a. \<lparr>ext_decode = None, ext_encode = None, ext_arg = Pb_field 100 0x11 0 0 4 0 Pb_null\<rparr>)\<rparr>"

definition extended_bytes :: "byte list" where
  "extended_bytes =
     [0, 0, 0, 0, 0, 0, 0, 0] @ [0x10, 0x10, 0, 0, 0, 0, 0, 0] @
     [0, 0x20, 0, 0, 0, 0, 0, 0] @ [0x30, 0x10, 0, 0, 0, 0, 0, 0] @ [0, 0, 0, 0, 0, 0, 0, 0] @ [0, 0, 0, 0, 0, 0, 0, 0] @ [0, 0, 0, 0]"

definition extended_data :: "addr set" where
  "extended_data = region 4096 4 \<union> region 4136 1 \<union> region 4144 4"

lemma extended_env_ok: "env_ok extended_env U"
  using skip_env_ok [of U] unfolding env_ok_def extended_env_def by (simp add: skip_env_def)

lemma load_bytes_numeral:
  "load_bytes m a (numeral k) = (case m a of None \<Rightarrow> None | Some b \<Rightarrow>
     (case load_bytes m (a + 1) (pred_numeral k) of None \<Rightarrow> None | Some bs \<Rightarrow> Some (b # bs)))"
  by (simp add: numeral_eq_Suc)

lemma extended_pointers:
  "load_ptr (memory_of 4096 extended_bytes) 4104 = Some 4112" "load_ptr (memory_of 4096 extended_bytes) 4112 = Some 8192"
  "load_ptr (memory_of 4096 extended_bytes) 4120 = Some 4144" "load_ptr (memory_of 4096 extended_bytes) 4128 = Some 0"
  by (simp_all add: load_ptr_def load_uint_def load_bytes_numeral memory_of_def extended_bytes_def)

lemma extended_wf: "wf_message (extended_env :: 'w penv) extended_data {} (memory_of 4096 extended_bytes) 2 extended_fields 4096"
proof -
  let ?F = "field_ok (extended_env :: 'w penv) extended_data {} (memory_of 4096 extended_bytes)"
  have arg: "?F (Suc 0) (Pb_field 100 0x11 0 0 4 0 Pb_null) 4144 4136"
    by (auto simp: field_fits_def element_fits_def item_fits_def extended_data_def Let_def PB_ATYPE_def PB_HTYPE_def PB_LTYPE_def)
  have ext: "extensions_fit (extended_env :: 'w penv) extended_data {} (memory_of 4096 extended_bytes) (?F (Suc 0)) 4112"
    by (rule extensions_fit.extension [where ty = 8192 and f = "Pb_field 100 0x11 0 0 4 0 Pb_null" and a = 4144 and nx = 0])
      (use arg in \<open>auto simp: extended_pointers holds_ptr_def extended_env_def extensions_fit.none extended_data_def region_def PB_ATYPE_def PB_LTYPE_def\<close>)
  have all: "(\<forall>i < entries extended_fields. P i) \<longleftrightarrow> P 0 \<and> P (Suc 0)" for P
    by (auto simp: extended_fields_def less_Suc_eq entries_def)
  have "holds_ptr extended_data (memory_of 4096 extended_bytes) 4104 4112"
    by (auto simp: holds_ptr_def extended_pointers extended_data_def region_def)
  with ext have "?F (Suc (Suc 0)) (Pb_field 100 0x98 4 0 8 0 Pb_null) 4104 so" for so
    by (auto simp: PB_LTYPE_def)
  moreover have "?F (Suc (Suc 0)) (Pb_field 1 0x01 0 0 4 0 Pb_null) 4096 so" for so
    by (auto simp: field_fits_def element_fits_def item_fits_def extended_data_def Let_def PB_ATYPE_def PB_HTYPE_def PB_LTYPE_def)
  ultimately have "wf_message (extended_env :: 'w penv) extended_data {} (memory_of 4096 extended_bytes) (Suc (Suc 0)) extended_fields 4096"
    unfolding wf_message_def message_fits_def all
    by (simp add: extended_fields_def field_at_def tags_ok_def required_count_def required_defined_def pb_field_iter_begin_def pb_field_iter_next_def
        iter_prev_size_def Let_def PB_ATYPE_def PB_HTYPE_def PB_LTYPE_def del: field_ok.simps)
  then show ?thesis by (simp only: numeral_2_eq_2)
qed

section \<open>Properties\<close>

text \<open>
  C1. Memory safety and termination of \<open>pb_decode\<close>. Take a descriptor array of a message (nested no deeper than \<open>d\<close>) whose fields, with those of its submessages and
  of the extensions in its lists of extensions, have their data at addresses in \<open>S\<close> that can be accessed, while the pointers of the lists are elsewhere; user callbacks
  and decoders of extension types that keep their
  contract over the user's own memory \<open>U\<close>, which does not overlap \<open>S\<close>; and any sound input stream whatever its bytes are. Then the call returns, nothing undefined happens on the
  way, only \<open>S\<close> and the user's memory are written, the stream stays sound, and
  when the call succeeds the stream stands exactly behind the bytes it was charged for. No message may have 32 required fields, or 64 and
  more: there the check at the end of a message is undefined (\<open>required_defined\<close>).
\<close>

theorem pb_decode_safe:
  assumes "env_ok env U" and "wf_message env S U (hmem w) d fs dest" and "source_ok s" and "S \<subseteq> dom (hmem w)" and "U \<inter> S = {}"
  shows "\<exists>ok s' w'. pb_decode d env s fs dest w = Some (ok, s', w') \<and>
           same_outside (S \<union> U) (hmem w) (hmem w') \<and>
           source_ok s' \<and> bytes_left s' \<le> bytes_left s \<and> (ok \<longrightarrow> consumes s s')"
  using pb_decode_total [OF assms(1-3) memory_ok_refl [OF assms(4,5)]] lags_source_ok [OF assms(3)]
  by (fastforce elim!: dec_postE simp: step_ok_def dest: lags_bytes_left)

theorem pb_decode_safe_witness:
  "\<exists>ok s' w'. pb_decode 2 extended_env (pb_istream_from_buffer [0x08, 0x96, 0x01, 0xA0, 0x06, 0x07] 6) extended_fields 4096
        \<lparr>hmem = memory_of 4096 extended_bytes, user = ()\<rparr> = Some (ok, s', w') \<and>
     same_outside extended_data (memory_of 4096 extended_bytes) (hmem w') \<and> source_ok s'"
proof -
  have "extended_data \<subseteq> dom (memory_of 4096 extended_bytes)"
    by (auto simp: extended_data_def memory_of_def extended_bytes_def region_def)
  with pb_decode_safe [OF extended_env_ok, of extended_data "{}" "\<lparr>hmem = memory_of 4096 extended_bytes, user = ()\<rparr>" 2 extended_fields 4096
      "pb_istream_from_buffer [0x08, 0x96, 0x01, 0xA0, 0x06, 0x07] 6"] extended_wf
  show ?thesis by (fastforce simp: source_ok_def pb_istream_from_buffer_def)
qed

text \<open>
  C2. The same for \<open>pb_decode_delimited\<close>, which reads a length first and decodes the
  message from a substream.
\<close>

theorem pb_decode_delimited_safe:
  assumes "env_ok env U" and "wf_message env S U (hmem w) d fs dest" and "source_ok s" and "S \<subseteq> dom (hmem w)" and "U \<inter> S = {}"
  shows "\<exists>ok s' w'. pb_decode_delimited d env s fs dest w = Some (ok, s', w') \<and>
           same_outside (S \<union> U) (hmem w) (hmem w') \<and>
           source_ok s' \<and> (ok \<longrightarrow> consumes s s')"
  using pb_decode_delimited_total [OF assms(1-3) memory_ok_refl [OF assms(4,5)]] lags_source_ok [OF assms(3)]
  by (fastforce elim!: dec_postE simp: step_ok_def)

theorem pb_decode_delimited_safe_witness:
  "\<exists>ok s' w'. pb_decode_delimited 1 skip_env (pb_istream_from_buffer [0x03, 0x08, 0x96, 0x01] 4)
        example_fields 4096 \<lparr>hmem = zero_memory 4096 56, user = ()\<rparr> = Some (ok, s', w') \<and>
     same_outside (region 4096 56) (zero_memory 4096 56) (hmem w') \<and> source_ok s'"
  using pb_decode_delimited_safe [OF skip_env_ok example_wf [of skip_env "{}"],
      where s = "pb_istream_from_buffer [0x03, 0x08, 0x96, 0x01] 4" and w = "\<lparr>hmem = zero_memory 4096 56, user = ()\<rparr>"]
    valid_zero_memory [of 4096 56]
  by (fastforce simp: source_ok_def pb_istream_from_buffer_def valid_def)

text \<open>
  \<open>pb_message_set_to_defaults\<close> returns and writes nothing outside the data.
\<close>

theorem set_to_defaults_safe:
  assumes "wf_message env S U (hmem w) d fs dest" and "S \<subseteq> dom (hmem w)" and "U \<inter> S = {}"
  shows "\<exists>w'. pb_message_set_to_defaults d env fs dest w = Some w' \<and> same_outside S (hmem w) (hmem w')"
  using pb_message_set_to_defaults_safe [OF assms(1) memory_ok_refl [OF assms(2,3)]] by (simp add: frame_def)

text \<open>
  The check of the required fields at the end of a message, for the numbers of required
  fields that the two words of flags can hold: it succeeds if and only if the flag of every
  required field is set.
\<close>

theorem check_required_exact:
  assumes "length seen = 2" and "n < 64" and "n \<noteq> 32"
    and "\<And>k. n \<le> k \<Longrightarrow> k < 64 \<Longrightarrow> \<not> seen_bit seen k"
  shows "check_required seen n = Some (\<forall>k < n. seen_bit seen k)"
  using assms by (rule check_required_bits)

theorem check_required_exact_witness: "check_required [5, 0] 3 = Some (\<forall>k < 3. seen_bit [5, 0] k)"
proof (rule check_required_exact)
  fix k :: nat
  assume k: "3 \<le> k" "k < 64"
  show "\<not> seen_bit [5, 0] k"
  proof (cases "k < 32")
    case True
    have "take_bit 3 (5 :: u32) = 5" by simp
    then have "\<not> bit (5 :: u32) k" using high_bits k(1) by blast
    with True show ?thesis by (simp add: seen_bit_def)
  next
    case False
    then have "k div 32 = 1" using k(2) by (simp add: div_nat_eqI)
    then show ?thesis by (simp add: seen_bit_def)
  qed
qed simp_all

text \<open>
  A field that is found sets the flag with its own index among the required fields, and
  no other.
\<close>

theorem mark_seen_sets_own_flag:
  assumes "tags_ok fs" and "i < length fs" and "PB_HTYPE (ftype (fs ! i)) = PB_HTYPE_REQUIRED"
    and "required_count (take i fs) < 64" and "length seen = 2" and "k < 64"
  shows "seen_bit (mark_seen (iter_at fs dest i) seen) k \<longleftrightarrow>
           k = required_count (take i fs) \<or> seen_bit seen k"
proof -
  have "ipos (iter_at fs dest i) = fs ! i"
    using ipos_iter_at [of fs i dest] assms(1,2) by (cases "fs = []") (auto simp: field_at_def)
  with mark_seen_bit [of seen "iter_at fs dest i" k] required_index_at [OF assms(1,2), of dest] assms
  show ?thesis by simp
qed

theorem mark_seen_sets_own_flag_witness:
  "seen_bit (mark_seen (iter_at example_fields 4096 0) [0, 0]) 0 \<longleftrightarrow>
     0 = required_count (take 0 example_fields) \<or> seen_bit [0, 0] 0"
  by (rule mark_seen_sets_own_flag)
    (simp_all add: tags_ok_def example_fields_def required_count_def PB_HTYPE_def)

text \<open>
  The second run of the iterator counts the required fields of the message, from
  wherever the first one stopped.
\<close>

theorem count_required_counts:
  assumes "tags_ok fs" and "i < length fs"
  shows "count_required (iter_at fs dest i) = Some (required_count fs)"
proof -
  have "i < entries fs" using assms(2) by (cases fs) simp_all
  with count_required_at [of fs i dest] assms(1) show ?thesis by blast
qed

theorem count_required_counts_witness: "count_required (iter_at example_fields 4096 2) = Some 1"
proof -
  have "tags_ok example_fields" "2 < length example_fields" "required_count example_fields = 1"
    by (simp_all add: tags_ok_def example_fields_def required_count_def PB_HTYPE_def)
  with count_required_counts [of example_fields 2 4096] show ?thesis by simp
qed

text \<open>
  An empty input is a message, unless a field is required: then decoding fails.
\<close>

theorem empty_message_iff_no_required:
  assumes "wf_message env S U m (Suc d) fs dest"
  shows "map_option fst (pb_decode_noinit (Suc d) env (pb_istream_from_buffer [] 0) fs dest w)
           = Some (required_count fs = 0)"
  using decode_noinit_empty [OF assms, of w] by auto

theorem empty_message_iff_no_required_witness:
  "map_option fst (pb_decode_noinit 1 skip_env (pb_istream_from_buffer [] 0) example_fields 4096
     \<lparr>hmem = zero_memory 4096 56, user = ()\<rparr>) = Some False"
  using empty_message_iff_no_required [of skip_env "region 4096 56" "{}" "zero_memory 4096 56" 0 example_fields 4096
      "\<lparr>hmem = zero_memory 4096 56, user = ()\<rparr>"] example_wf [of skip_env "{}" "zero_memory 4096 56"]
  by (simp add: example_entries del: pb_decode_noinit.simps)

text \<open>
  A message that ends in the middle of a tag is accepted: up to four bytes with the
  continuation bit, after which the input ends, count as the end of the message.
\<close>

theorem truncated_tag_accepted:
  assumes "wf_message env S U m (Suc d) fs dest" and "required_count fs = 0"
    and "\<forall>b \<in> set xs. 128 \<le> unat b" and "length xs < 5"
  shows "map_option fst (pb_decode_noinit (Suc d) env (pb_istream_from_buffer xs (length xs)) fs dest w)
           = Some True"
  using decode_noinit_truncated [OF assms, of w] by auto

theorem truncated_tag_accepted_witness:
  "map_option fst (pb_decode_noinit 1 skip_env (pb_istream_from_buffer [0x80, 0xFF] 2) [] 4096
     \<lparr>hmem = zero_memory 4096 0, user = ()\<rparr>) = Some True"
proof -
  have "wf_message skip_env {} {} Map.empty (Suc 0) [] 4096"
    by (simp add: wf_message_def message_fits_def required_count_def required_defined_def pb_field_iter_begin_def field_at_def PB_LAST_FIELD_def
        Let_def field_fits_def element_fits_def item_fits_def region_def PB_ATYPE_def PB_HTYPE_def PB_LTYPE_def)
  then have "map_option fst (pb_decode_noinit (Suc 0) skip_env
      (pb_istream_from_buffer [0x80, 0xFF] (length [0x80, 0xFF :: byte])) [] 4096
      \<lparr>hmem = zero_memory 4096 0, user = ()\<rparr>) = Some True"
    by (rule truncated_tag_accepted) (simp_all add: required_count_def)
  moreover have "length [0x80, 0xFF :: byte] = 2" by simp
  ultimately show ?thesis by (simp only: One_nat_def)
qed

end
