(* ===== verification/PbEncode.thy ===== *)
theory PbEncode
  imports PbOStream PbCommon PbDecode
begin

text \<open>
  The message level of \<open>pb_encode.c\<close>: the field encoders, the fields of a message in
  their order, callbacks and extensions, submessages with their length prefix. As for the
  decoder, the submessage encoder is an argument of every function, and \<open>pb_encode\<close>
  ties the knot with a bound on the nesting.
\<close>

type_synonym 'w encoder =
  "'w pb_ostream \<Rightarrow> pb_field \<Rightarrow> addr \<Rightarrow> 'w cstate \<Rightarrow> (bool \<times> 'w pb_ostream \<times> 'w cstate) option"

type_synonym 'w message_encoder =
  "'w pb_ostream \<Rightarrow> pb_field list \<Rightarrow> addr \<Rightarrow> 'w cstate \<Rightarrow> (bool \<times> 'w pb_ostream \<times> 'w cstate) option"

section \<open>Field encoders\<close>

text \<open>
  The integer at \<open>src\<close>, sign- or zero-extended to 64 bits; \<open>None\<close> inside for a size
  that is not the one of an integer type.
\<close>

definition load_signed_field :: "pb_field \<Rightarrow> addr \<Rightarrow> memory \<Rightarrow> u64 option option" where
  "load_signed_field f src m =
     (if data_size f \<in> {1, 2, 4, 8}
      then map_option (\<lambda>v. Some (word_of_int v)) (load_sint m src (data_size f))
      else Some None)"

definition load_unsigned_field :: "pb_field \<Rightarrow> addr \<Rightarrow> memory \<Rightarrow> u64 option option" where
  "load_unsigned_field f src m =
     (if data_size f \<in> {1, 2, 4, 8}
      then map_option (\<lambda>v. Some (word_of_nat v)) (load_uint m src (data_size f))
      else Some None)"

definition pb_enc_varint :: "'w encoder" where
  "pb_enc_varint s f src w = do {
     v \<leftarrow> load_signed_field f src (hmem w);
     case v of None \<Rightarrow> Some (False, oset_error s ''invalid data_size'', w)
     | Some value \<Rightarrow> pb_encode_varint s value w
   }"

definition pb_enc_uvarint :: "'w encoder" where
  "pb_enc_uvarint s f src w = do {
     v \<leftarrow> load_unsigned_field f src (hmem w);
     case v of None \<Rightarrow> Some (False, oset_error s ''invalid data_size'', w)
     | Some value \<Rightarrow> pb_encode_varint s value w
   }"

definition pb_enc_svarint :: "'w encoder" where
  "pb_enc_svarint s f src w = do {
     v \<leftarrow> load_signed_field f src (hmem w);
     case v of None \<Rightarrow> Some (False, oset_error s ''invalid data_size'', w)
     | Some value \<Rightarrow> pb_encode_svarint s value w
   }"

definition pb_enc_fixed64 :: "'w encoder" where
  "pb_enc_fixed64 s f src w = pb_encode_fixed64 s src w"

definition pb_enc_fixed32 :: "'w encoder" where
  "pb_enc_fixed32 s f src w = pb_encode_fixed32 s src w"

definition pb_enc_bytes :: "'w encoder" where
  "pb_enc_bytes s f src w =
     (if src = 0 then pb_encode_string s (Mem 0) 0 w
      else do {
        size \<leftarrow> load_uint (hmem w) src 4;
        if PB_ATYPE (ftype f) = PB_ATYPE_STATIC \<and> data_size f < PB_BYTES_ARRAY_T_ALLOCSIZE size
        then Some (False, oset_error s ''bytes size exceeded'', w)
        else pb_encode_string s (Mem (src + 4)) size w
      })"

text \<open>The loop that stops at the terminating zero or at \<open>max_size\<close>.\<close>

definition string_length :: "memory \<Rightarrow> addr \<Rightarrow> nat \<Rightarrow> nat option" where
  "string_length m src limit =
     crun (\<lambda>size.
       if limit \<le> size then Some (Leave size)
       else (case m (src + int size) of
               None \<Rightarrow> None
             | Some b \<Rightarrow> if b = 0 then Some (Leave size) else Some (Continue (size + 1)))) 0"

definition pb_enc_string :: "'w encoder" where
  "pb_enc_string s f src w =
     (let limit = (if PB_ATYPE (ftype f) = PB_ATYPE_POINTER then 2 ^ 64 - 1 else data_size f)
      in do {
        size \<leftarrow> (if src = 0 then Some 0 else string_length (hmem w) src limit);
        pb_encode_string s (Mem src) size w
      })"

definition pb_enc_fixed_length_bytes :: "'w encoder" where
  "pb_enc_fixed_length_bytes s f src w = pb_encode_string s (Mem src) (data_size f) w"

text \<open>
  A submessage is encoded twice: to a sizing stream for its length, and to a substream
  that may not write more than that.
\<close>

definition pb_encode_submessage ::
    "'w message_encoder \<Rightarrow> 'w message_encoder" where
  "pb_encode_submessage encode s fs src w = do {
     (ok, substream, w) \<leftarrow> encode PB_OSTREAM_SIZING fs src w;
     if \<not> ok then Some (False, s\<lparr>oerrmsg := oerrmsg substream\<rparr>, w)
     else do {
       let size = bytes_written substream;
       (ok, s, w) \<leftarrow> pb_encode_varint s (word_of_nat size) w;
       if \<not> ok then Some (False, s, w)
       else if sink s = Sizing then pb_write s (Mem 0) size w
       else if max_size s < (bytes_written s + size) mod 2 ^ 64
       then Some (False, oset_error s ''stream full'', w)
       else do {
         (status, substream, w) \<leftarrow>
           encode \<lparr>sink = sink s, max_size = size, bytes_written = 0, oerrmsg = None\<rparr> fs src w;
         let s = s\<lparr>bytes_written := (bytes_written s + bytes_written substream) mod 2 ^ 64,
                   sink := sink substream, oerrmsg := oerrmsg substream\<rparr>;
         if bytes_written substream \<noteq> size
         then Some (False, oset_error s ''submsg size changed'', w)
         else Some (status, s, w)
       }
     }
   }"

definition pb_enc_submessage :: "'w message_encoder \<Rightarrow> 'w encoder" where
  "pb_enc_submessage encode s f src w =
     (if fptr f = Pb_null then Some (False, oset_error s ''invalid field descriptor'', w)
      else do {
        fs \<leftarrow> submsg_fields f;
        pb_encode_submessage encode s fs src w
      })"

definition PB_ENCODERS :: "'w message_encoder \<Rightarrow> pb_type_t \<Rightarrow> 'w encoder option" where
  "PB_ENCODERS encode ltype =
     (if ltype = PB_LTYPE_VARINT then Some pb_enc_varint
      else if ltype = PB_LTYPE_UVARINT then Some pb_enc_uvarint
      else if ltype = PB_LTYPE_SVARINT then Some pb_enc_svarint
      else if ltype = PB_LTYPE_FIXED32 then Some pb_enc_fixed32
      else if ltype = PB_LTYPE_FIXED64 then Some pb_enc_fixed64
      else if ltype = PB_LTYPE_BYTES then Some pb_enc_bytes
      else if ltype = PB_LTYPE_STRING then Some pb_enc_string
      else if ltype = PB_LTYPE_SUBMESSAGE then Some (pb_enc_submessage encode)
      else if ltype = PB_LTYPE_FIXED_LENGTH_BYTES then Some pb_enc_fixed_length_bytes
      else None)"

definition call_encoder :: "'w encoder option \<Rightarrow> 'w encoder" where
  "call_encoder func s f src w = (case func of None \<Rightarrow> None | Some g \<Rightarrow> g s f src w)"

section \<open>Arrays\<close>

text \<open>The loop over the items of an array: \<open>n\<close> items from the address \<open>p\<close> on.\<close>

fun item_loop ::
    "(addr \<Rightarrow> 'w pb_ostream \<Rightarrow> 'w cstate \<Rightarrow> (bool \<times> 'w pb_ostream \<times> 'w cstate) option) \<Rightarrow> nat \<Rightarrow> nat \<Rightarrow> addr
      \<Rightarrow> 'w pb_ostream \<Rightarrow> 'w cstate \<Rightarrow> (bool \<times> 'w pb_ostream \<times> 'w cstate) option" where
  "item_loop enc step 0 p s w = Some (True, s, w)"
| "item_loop enc step (Suc n) p s w = do {
     (ok, s, w) \<leftarrow> enc p s w;
     if \<not> ok then Some (False, s, w) else item_loop enc step n (p + int step) s w
   }"

definition encode_packed ::
    "'w pb_ostream \<Rightarrow> pb_field \<Rightarrow> addr \<Rightarrow> nat \<Rightarrow> 'w encoder option \<Rightarrow> 'w cstate
      \<Rightarrow> (bool \<times> 'w pb_ostream \<times> 'w cstate) option" where
  "encode_packed s f pdata count func w = do {
     (ok, s, w) \<leftarrow> pb_encode_tag s PB_WT_STRING (tag f) w;
     if \<not> ok then Some (False, s, w)
     else do {
       (ok, size, w) \<leftarrow>
         (if PB_LTYPE (ftype f) = PB_LTYPE_FIXED32 then Some (True, (4 * count) mod 2 ^ 64, w)
          else if PB_LTYPE (ftype f) = PB_LTYPE_FIXED64 then Some (True, (8 * count) mod 2 ^ 64, w)
          else do {
            (ok, sizestream, w) \<leftarrow>
              item_loop (\<lambda>p s w. call_encoder func s f p w) (data_size f) count pdata PB_OSTREAM_SIZING w;
            Some (ok, bytes_written sizestream, w)
          });
       if \<not> ok then Some (False, s, w)
       else do {
         (ok, s, w) \<leftarrow> pb_encode_varint s (word_of_nat size) w;
         if \<not> ok then Some (False, s, w)
         else if sink s = Sizing then pb_write s (Mem 0) size w
         else item_loop (\<lambda>p s w. call_encoder func s f p w) (data_size f) count pdata s w
       }
     }
   }"

text \<open>
  One item that is not packed: its tag, and its data (behind a pointer in the array for
  pointer-type strings and bytes).
\<close>

definition encode_item ::
    "pb_field \<Rightarrow> 'w encoder option \<Rightarrow> addr \<Rightarrow> 'w pb_ostream \<Rightarrow> 'w cstate
      \<Rightarrow> (bool \<times> 'w pb_ostream \<times> 'w cstate) option" where
  "encode_item f func p s w = do {
     (ok, s, w) \<leftarrow> pb_encode_tag_for_field s f w;
     if \<not> ok then Some (False, s, w)
     else if PB_ATYPE (ftype f) = PB_ATYPE_POINTER \<and>
         (PB_LTYPE (ftype f) = PB_LTYPE_STRING \<or> PB_LTYPE (ftype f) = PB_LTYPE_BYTES)
     then do {
       q \<leftarrow> load_ptr (hmem w) p;
       call_encoder func s f q w
     }
     else call_encoder func s f p w
   }"

definition encode_array ::
    "'w pb_ostream \<Rightarrow> pb_field \<Rightarrow> addr \<Rightarrow> nat \<Rightarrow> 'w encoder option \<Rightarrow> 'w cstate
      \<Rightarrow> (bool \<times> 'w pb_ostream \<times> 'w cstate) option" where
  "encode_array s f pdata count func w =
     (if count = 0 then Some (True, s, w)
      else if PB_ATYPE (ftype f) \<noteq> PB_ATYPE_POINTER \<and> array_size f < count
      then Some (False, oset_error s ''array max size exceeded'', w)
      else if PB_LTYPE (ftype f) \<le> PB_LTYPE_LAST_PACKABLE
      then encode_packed s f pdata count func w
      else item_loop (encode_item f func) (data_size f) count pdata s w)"

section \<open>Default values of proto3\<close>

text \<open>The byte-per-byte comparison with zero: it stops at the first byte that is not.\<close>

fun all_zero :: "memory \<Rightarrow> addr \<Rightarrow> nat \<Rightarrow> bool option" where
  "all_zero m p 0 = Some True"
| "all_zero m p (Suc n) =
     (case m p of None \<Rightarrow> None
      | Some b \<Rightarrow> if b \<noteq> 0 then Some False else all_zero m (p + 1) n)"

text \<open>The first argument bounds the nesting of submessages.\<close>

fun pb_check_proto3_default_value :: "nat \<Rightarrow> pb_field \<Rightarrow> addr \<Rightarrow> memory \<Rightarrow> bool option" where
  "pb_check_proto3_default_value 0 f pdata m = None"
| "pb_check_proto3_default_value (Suc depth) f pdata m =
     (if PB_ATYPE (ftype f) = PB_ATYPE_STATIC \<and> PB_LTYPE (ftype f) = PB_LTYPE_BYTES
      then map_option (\<lambda>size. size = 0) (load_uint m pdata 4)
      else if PB_ATYPE (ftype f) = PB_ATYPE_STATIC \<and> PB_LTYPE (ftype f) = PB_LTYPE_STRING
      then map_option (\<lambda>b. b = 0) (m pdata)
      else if PB_ATYPE (ftype f) = PB_ATYPE_STATIC \<and> PB_LTYPE (ftype f) = PB_LTYPE_FIXED_LENGTH_BYTES
      then Some (data_size f = 0)
      else if PB_ATYPE (ftype f) = PB_ATYPE_STATIC \<and> PB_LTYPE (ftype f) = PB_LTYPE_SUBMESSAGE
      then do {
        fs \<leftarrow> submsg_fields f;
        (let (ne, it) = pb_field_iter_begin fs pdata in
         if \<not> ne then Some True
         else do {
           t \<leftarrow> iter_do (\<lambda>it u. do {
                  z \<leftarrow> pb_check_proto3_default_value depth (ipos it) (pData it) m;
                  Some (if \<not> z then Leave () else Continue ())
                }) it ();
           Some (case t of Continue u \<Rightarrow> True | Leave u \<Rightarrow> False)
         })
      }
      else all_zero m pdata (data_size f))"

section \<open>Fields\<close>

text \<open>
  What \<open>pSize\<close> points to: a member of the structure, or the local \<open>implicit_has\<close>, a
  \<open>bool\<close>, which is too short to be read as a \<open>pb_size_t\<close>.
\<close>

datatype size_src = Member addr | Implicit bool

fun load_has :: "memory \<Rightarrow> size_src \<Rightarrow> bool option" where
  "load_has m (Member a) = map_option (\<lambda>b. b \<noteq> 0) (m a)"
| "load_has m (Implicit b) = Some b"

fun load_count :: "memory \<Rightarrow> size_src \<Rightarrow> nat option" where
  "load_count m (Member a) = load_uint m a 4"
| "load_count m (Implicit b) = None"

text \<open>The first part of \<open>encode_basic_field\<close>: where the data and its size member are.\<close>

definition locate_field ::
    "nat \<Rightarrow> pb_field \<Rightarrow> addr \<Rightarrow> memory \<Rightarrow> (addr \<times> size_src) option" where
  "locate_field depth f pdata m = do {
     implicit_has \<leftarrow>
       (if size_offset f \<noteq> 0 then Some False
        else if PB_HTYPE (ftype f) = PB_HTYPE_OPTIONAL
        then map_option Not (pb_check_proto3_default_value depth f pdata m)
        else Some True);
     (data, implicit_has) \<leftarrow>
       (if PB_ATYPE (ftype f) = PB_ATYPE_POINTER
        then map_option (\<lambda>q. (q, q \<noteq> 0)) (load_ptr m pdata)
        else Some (pdata, implicit_has));
     Some (data, if size_offset f \<noteq> 0 then Member (pdata + size_offset f) else Implicit implicit_has)
   }"

definition encode_tagged ::
    "'w pb_ostream \<Rightarrow> pb_field \<Rightarrow> addr \<Rightarrow> 'w encoder option \<Rightarrow> 'w cstate
      \<Rightarrow> (bool \<times> 'w pb_ostream \<times> 'w cstate) option" where
  "encode_tagged s f data func w = do {
     (ok, s, w) \<leftarrow> pb_encode_tag_for_field s f w;
     if \<not> ok then Some (False, s, w) else call_encoder func s f data w
   }"

definition encode_basic_field ::
    "nat \<Rightarrow> 'w message_encoder \<Rightarrow> 'w pb_ostream \<Rightarrow> pb_field \<Rightarrow> addr \<Rightarrow> 'w cstate
      \<Rightarrow> (bool \<times> 'w pb_ostream \<times> 'w cstate) option" where
  "encode_basic_field depth encode s f pdata w =
   (if PB_LTYPES_COUNT \<le> unat (PB_LTYPE (ftype f)) then None
    else do {
     let func = PB_ENCODERS encode (PB_LTYPE (ftype f));
     (data, psize) \<leftarrow> locate_field depth f pdata (hmem w);
     if PB_HTYPE (ftype f) = PB_HTYPE_REQUIRED then
       (if data = 0 then Some (False, oset_error s ''missing required field'', w)
        else encode_tagged s f data func w)
     else if PB_HTYPE (ftype f) = PB_HTYPE_OPTIONAL then do {
       has \<leftarrow> load_has (hmem w) psize;
       if has then encode_tagged s f data func w else Some (True, s, w)
     }
     else if PB_HTYPE (ftype f) = PB_HTYPE_REPEATED then do {
       count \<leftarrow> load_count (hmem w) psize;
       encode_array s f data count func w
     }
     else if PB_HTYPE (ftype f) = PB_HTYPE_ONEOF then do {
       which \<leftarrow> load_count (hmem w) psize;
       if which = unat (tag f) then encode_tagged s f data func w else Some (True, s, w)
     }
     else Some (False, oset_error s ''invalid field type'', w)
   })"

definition encode_callback_field ::
    "'w penv \<Rightarrow> 'w pb_ostream \<Rightarrow> pb_field \<Rightarrow> addr \<Rightarrow> 'w cstate
      \<Rightarrow> (bool \<times> 'w pb_ostream \<times> 'w cstate) option" where
  "encode_callback_field env s f pdata w = do {
     code \<leftarrow> load_ptr (hmem w) (callback_funcs pdata);
     if code \<noteq> 0 then do {
       (ok, s, w) \<leftarrow> encode_callback env code s f (callback_arg pdata) w;
       if \<not> ok then Some (False, oset_error s ''callback error'', w) else Some (True, s, w)
     }
     else Some (True, s, w)
   }"

definition encode_field ::
    "nat \<Rightarrow> 'w penv \<Rightarrow> 'w message_encoder \<Rightarrow> 'w pb_ostream \<Rightarrow> pb_field \<Rightarrow> addr \<Rightarrow> 'w cstate
      \<Rightarrow> (bool \<times> 'w pb_ostream \<times> 'w cstate) option" where
  "encode_field depth env encode s f pdata w =
     (let a = PB_ATYPE (ftype f) in
      if a = PB_ATYPE_STATIC \<or> a = PB_ATYPE_POINTER then encode_basic_field depth encode s f pdata w
      else if a = PB_ATYPE_CALLBACK then encode_callback_field env s f pdata w
      else Some (False, oset_error s ''invalid field type'', w))"

definition default_extension_encoder ::
    "nat \<Rightarrow> 'w penv \<Rightarrow> 'w message_encoder \<Rightarrow> 'w pb_ostream \<Rightarrow> addr \<Rightarrow> 'w cstate
      \<Rightarrow> (bool \<times> 'w pb_ostream \<times> 'w cstate) option" where
  "default_extension_encoder depth env encode s extension w = do {
     ty \<leftarrow> load_ptr (hmem w) (extension_type_at extension);
     let f = ext_arg (extension_type env ty);
     if PB_ATYPE (ftype f) = PB_ATYPE_POINTER
     then encode_field depth env encode s f (extension_dest extension) w
     else do {
       dest \<leftarrow> load_ptr (hmem w) (extension_dest extension);
       encode_field depth env encode s f dest w
     }
   }"

definition encode_extension_field ::
    "nat \<Rightarrow> 'w penv \<Rightarrow> 'w message_encoder \<Rightarrow> 'w pb_ostream \<Rightarrow> addr \<Rightarrow> 'w cstate
      \<Rightarrow> (bool \<times> 'w pb_ostream \<times> 'w cstate) option" where
  "encode_extension_field depth env encode s pdata w = do {
     extension \<leftarrow> load_ptr (hmem w) pdata;
     crun (\<lambda>(extension, s, w).
       if extension = 0 then Some (Leave (True, s, w))
       else do {
         ty \<leftarrow> load_ptr (hmem w) (extension_type_at extension);
         (status, s, w) \<leftarrow>
           (case ext_encode (extension_type env ty) of
              Some enc \<Rightarrow> enc s extension w
            | None \<Rightarrow> default_extension_encoder depth env encode s extension w);
         if \<not> status then Some (Leave (False, s, w))
         else do {
           extension \<leftarrow> load_ptr (hmem w) (extension_next extension);
           Some (Continue (extension, s, w))
         }
       }) (extension, s, w)
   }"

section \<open>Messages\<close>

text \<open>A visit of the message loop: \<open>Leave\<close> is \<open>return false\<close>.\<close>

definition encode_visit ::
    "nat \<Rightarrow> 'w penv \<Rightarrow> 'w message_encoder \<Rightarrow> pb_field_iter \<Rightarrow> 'w pb_ostream \<times> 'w cstate
      \<Rightarrow> ('w pb_ostream \<times> 'w cstate, 'w pb_ostream \<times> 'w cstate) turn option" where
  "encode_visit depth env encode it = (\<lambda>(s, w). do {
     (ok, s, w) \<leftarrow>
       (if PB_LTYPE (ftype (ipos it)) = PB_LTYPE_EXTENSION
        then encode_extension_field depth env encode s (pData it) w
        else encode_field depth env encode s (ipos it) (pData it) w);
     Some (if \<not> ok then Leave (s, w) else Continue (s, w))
   })"

definition encode_body ::
    "nat \<Rightarrow> 'w penv \<Rightarrow> 'w message_encoder \<Rightarrow> 'w message_encoder" where
  "encode_body depth env encode s fs src w =
     (let (ne, it) = pb_field_iter_begin fs src in
      if \<not> ne then Some (True, s, w)
      else do {
        t \<leftarrow> iter_do (encode_visit depth env encode) it (s, w);
        Some (case t of Continue (s, w) \<Rightarrow> (True, s, w) | Leave (s, w) \<Rightarrow> (False, s, w))
      })"

fun pb_encode :: "nat \<Rightarrow> 'w penv \<Rightarrow> 'w message_encoder" where
  "pb_encode 0 env s fs src w = None"
| "pb_encode (Suc depth) env s fs src w = encode_body depth env (pb_encode depth env) s fs src w"

definition pb_encode_delimited :: "nat \<Rightarrow> 'w penv \<Rightarrow> 'w message_encoder" where
  "pb_encode_delimited depth env s fs src w = pb_encode_submessage (pb_encode depth env) s fs src w"

definition pb_get_encoded_size ::
    "nat \<Rightarrow> 'w penv \<Rightarrow> pb_field list \<Rightarrow> addr \<Rightarrow> 'w cstate \<Rightarrow> (nat option \<times> 'w cstate) option" where
  "pb_get_encoded_size depth env fs src w = do {
     (ok, s, w) \<leftarrow> pb_encode depth env PB_OSTREAM_SIZING fs src w;
     Some (if \<not> ok then None else Some (bytes_written s), w)
   }"

end
