(* ===== verification/PbEncodeSpec.thy ===== *)
theory PbEncodeSpec
  imports PbEncode PbWire
begin

text \<open>
  What a message is encoded to, as a function from the memory to the bytes
  (\<open>message_bytes\<close>), and the notion of an encoder that writes given bytes
  (\<open>writes\<close>): to a sizing stream it adds their number, to a buffer it writes them if
  they fit and returns false otherwise, without touching anything past the buffer's end.
  The memory the specification reads is a part of the memory of the program that the
  output does not overlap.
\<close>

section \<open>The bytes of a message\<close>

text \<open>
  The bytes of a value behind its tag. \<open>sub\<close> gives the bytes of a submessage; \<open>None\<close>
  is a value that cannot be encoded.
\<close>

definition delimited :: "byte list \<Rightarrow> byte list option" where
  "delimited d = (if length d < 2 ^ 64 then Some (varint_bytes (length d) @ d) else None)"

definition value_bytes ::
    "(pb_field list \<Rightarrow> addr \<Rightarrow> byte list option) \<Rightarrow> memory \<Rightarrow> pb_field \<Rightarrow> addr \<Rightarrow> byte list option" where
  "value_bytes sub m f src =
     (let l = PB_LTYPE (ftype f) in
      if l = PB_LTYPE_VARINT then do {
        v \<leftarrow> load_signed_field f src m; x \<leftarrow> v; Some (varint_bytes (unat x)) }
      else if l = PB_LTYPE_UVARINT then do {
        v \<leftarrow> load_unsigned_field f src m; x \<leftarrow> v; Some (varint_bytes (unat x)) }
      else if l = PB_LTYPE_SVARINT then do {
        v \<leftarrow> load_signed_field f src m; x \<leftarrow> v; Some (varint_bytes (unat (zigzag x))) }
      else if l = PB_LTYPE_FIXED32 then load_bytes m src 4
      else if l = PB_LTYPE_FIXED64 then load_bytes m src 8
      else if l = PB_LTYPE_BYTES then
        if src = 0 then delimited []
        else do {
          n \<leftarrow> load_uint m src 4;
          if PB_ATYPE (ftype f) = PB_ATYPE_STATIC \<and> data_size f < n + 4 then None
          else do { d \<leftarrow> load_bytes m (src + 4) n; delimited d }
        }
      else if l = PB_LTYPE_STRING then
        if src = 0 then delimited []
        else do {
          n \<leftarrow> string_length m src
                 (if PB_ATYPE (ftype f) = PB_ATYPE_POINTER then 2 ^ 64 - 1 else data_size f);
          d \<leftarrow> load_bytes m src n;
          delimited d
        }
      else if l = PB_LTYPE_SUBMESSAGE then do {
        fs \<leftarrow> submsg_fields f; d \<leftarrow> sub fs src; delimited d }
      else if l = PB_LTYPE_FIXED_LENGTH_BYTES then do {
        d \<leftarrow> load_bytes m src (data_size f); delimited d }
      else None)"

definition tag_bytes :: "nat \<Rightarrow> pb_field \<Rightarrow> byte list" where
  "tag_bytes wt f = varint_bytes (8 * unat (tag f) + wt)"

definition tagged_bytes ::
    "(addr \<Rightarrow> byte list option) \<Rightarrow> pb_field \<Rightarrow> addr \<Rightarrow> byte list option" where
  "tagged_bytes val f p = do { wt \<leftarrow> field_wiretype f; v \<leftarrow> val p; Some (tag_bytes wt f @ v) }"

fun items_bytes :: "(addr \<Rightarrow> byte list option) \<Rightarrow> nat \<Rightarrow> nat \<Rightarrow> addr \<Rightarrow> byte list option" where
  "items_bytes val step 0 p = Some []"
| "items_bytes val step (Suc n) p = do {
     b \<leftarrow> val p; bs \<leftarrow> items_bytes val step n (p + int step); Some (b @ bs) }"

text \<open>Behind a pointer, the items that are strings or bytes are pointers again.\<close>

definition item_bytes ::
    "(pb_field list \<Rightarrow> addr \<Rightarrow> byte list option) \<Rightarrow> memory \<Rightarrow> pb_field \<Rightarrow> addr \<Rightarrow> byte list option" where
  "item_bytes sub m f p =
     (if PB_ATYPE (ftype f) = PB_ATYPE_POINTER \<and>
         (PB_LTYPE (ftype f) = PB_LTYPE_STRING \<or> PB_LTYPE (ftype f) = PB_LTYPE_BYTES)
      then do { q \<leftarrow> load_ptr m p; value_bytes sub m f q }
      else value_bytes sub m f p)"

definition array_bytes ::
    "(pb_field list \<Rightarrow> addr \<Rightarrow> byte list option) \<Rightarrow> memory \<Rightarrow> pb_field \<Rightarrow> addr \<Rightarrow> nat \<Rightarrow> byte list option" where
  "array_bytes sub m f p count =
     (if count = 0 then Some []
      else if PB_ATYPE (ftype f) \<noteq> PB_ATYPE_POINTER \<and> array_size f < count then None
      else if PB_LTYPE (ftype f) \<le> PB_LTYPE_LAST_PACKABLE then do {
        ds \<leftarrow> items_bytes (value_bytes sub m f) (data_size f) count p;
        v \<leftarrow> delimited ds;
        Some (tag_bytes PB_WT_STRING f @ v)
      }
      else items_bytes (tagged_bytes (item_bytes sub m f) f) (data_size f) count p)"

definition field_bytes ::
    "nat \<Rightarrow> (pb_field list \<Rightarrow> addr \<Rightarrow> byte list option) \<Rightarrow> memory \<Rightarrow> pb_field \<Rightarrow> addr \<Rightarrow> byte list option" where
  "field_bytes depth sub m f pdata =
     (if \<not> (PB_ATYPE (ftype f) = PB_ATYPE_STATIC \<or> PB_ATYPE (ftype f) = PB_ATYPE_POINTER)
         \<or> PB_LTYPE (ftype f) = PB_LTYPE_EXTENSION \<or> PB_LTYPES_COUNT \<le> unat (PB_LTYPE (ftype f)) then None
      else do {
        (data, psize) \<leftarrow> locate_field depth f pdata m;
        if PB_HTYPE (ftype f) = PB_HTYPE_REQUIRED then
          (if data = 0 then None else tagged_bytes (value_bytes sub m f) f data)
        else if PB_HTYPE (ftype f) = PB_HTYPE_OPTIONAL then do {
          has \<leftarrow> load_has m psize;
          if has then tagged_bytes (value_bytes sub m f) f data else Some []
        }
        else if PB_HTYPE (ftype f) = PB_HTYPE_REPEATED then do {
          count \<leftarrow> load_count m psize;
          array_bytes sub m f data count
        }
        else if PB_HTYPE (ftype f) = PB_HTYPE_ONEOF then do {
          which \<leftarrow> load_count m psize;
          if which = unat (tag f) then tagged_bytes (value_bytes sub m f) f data else Some []
        }
        else None
      })"

fun fields_bytes :: "(nat \<Rightarrow> byte list option) \<Rightarrow> nat \<Rightarrow> nat \<Rightarrow> byte list option" where
  "fields_bytes g i 0 = Some []"
| "fields_bytes g i (Suc n) = do { b \<leftarrow> g i; bs \<leftarrow> fields_bytes g (Suc i) n; Some (b @ bs) }"

text \<open>The fields of a message in the order of their descriptors.\<close>

fun message_bytes :: "nat \<Rightarrow> memory \<Rightarrow> pb_field list \<Rightarrow> addr \<Rightarrow> byte list option" where
  "message_bytes 0 m fs src = None"
| "message_bytes (Suc depth) m fs src =
     (if fs \<noteq> [] \<and> \<not> tags_ok fs then None
      else fields_bytes (\<lambda>i. field_bytes depth (message_bytes depth m) m (field_at fs i)
                              (pData (iter_at fs src i))) 0 (length fs))"

section \<open>More memory\<close>

lemma load_bytes_mono: "m \<subseteq>\<^sub>m m' \<Longrightarrow> load_bytes m a n = Some bs \<Longrightarrow> load_bytes m' a n = Some bs"
proof (induction n arbitrary: a bs)
  case 0
  then show ?case by simp
next
  case (Suc n)
  then obtain b cs where b: "m a = Some b" "load_bytes m (a + 1) n = Some cs" "bs = b # cs"
    by (auto split: option.splits)
  then have "m' a = Some b" using Suc.prems(1) by (metis domI map_le_def)
  with b Suc show ?case by simp
qed

lemma load_uint_mono: "m \<subseteq>\<^sub>m m' \<Longrightarrow> load_uint m a n = Some v \<Longrightarrow> load_uint m' a n = Some v"
  using load_bytes_mono by (auto simp: load_uint_def)

lemma load_sint_mono: "m \<subseteq>\<^sub>m m' \<Longrightarrow> load_sint m a n = Some v \<Longrightarrow> load_sint m' a n = Some v"
  using load_uint_mono by (auto simp: load_sint_def)

lemma load_ptr_mono: "m \<subseteq>\<^sub>m m' \<Longrightarrow> load_ptr m a = Some v \<Longrightarrow> load_ptr m' a = Some v"
  using load_uint_mono by (auto simp: load_ptr_def)

lemma map_leD: "m \<subseteq>\<^sub>m m' \<Longrightarrow> m a = Some b \<Longrightarrow> m' a = Some b"
  by (metis domI map_le_def)

lemma overwrite_append:
  "overwrite (overwrite m a xs) (a + int (length xs)) ys = overwrite m a (xs @ ys)"
proof
  fix x
  have "nat (x - (a + int (length xs))) = nat (x - a) - length xs" if "a + int (length xs) \<le> x"
    using that by linarith
  then show "overwrite (overwrite m a xs) (a + int (length xs)) ys x = overwrite m a (xs @ ys) x"
    by (auto simp: overwrite_def nth_append)
qed

lemma map_le_overwrite:
  "m \<subseteq>\<^sub>m m' \<Longrightarrow> region a (length bs) \<inter> dom m = {} \<Longrightarrow> m \<subseteq>\<^sub>m overwrite m' a bs"
  by (auto simp: map_le_def overwrite_def region_def)

lemma overwrite_Nil [simp]: "overwrite m a [] = m"
  by (auto simp: overwrite_def fun_eq_iff)

lemma dom_overwrite: "valid m a (length bs) \<Longrightarrow> dom (overwrite m a bs) = dom m"
  using overwrite_same_outside same_outside_dom by blast

text \<open>Copying from a part of the memory that the destination does not overlap.\<close>

lemma copy_bytes_store:
  "m \<subseteq>\<^sub>m m' \<Longrightarrow> load_bytes m src n = Some bs \<Longrightarrow> region dest n \<inter> dom m = {} \<Longrightarrow>
     copy_bytes m' dest src n = store_bytes m' dest bs"
proof (induction n arbitrary: m' dest src bs)
  case 0
  then show ?case by simp
next
  case (Suc n)
  then obtain b cs where b: "m src = Some b" "load_bytes m (src + 1) n = Some cs" "bs = b # cs"
    by (auto split: option.splits)
  have "m \<subseteq>\<^sub>m m'(dest \<mapsto> b)"
    using Suc.prems by (auto simp: map_le_def region_Suc)
  moreover have "region (dest + 1) n \<inter> dom m = {}" using Suc.prems(3) by (auto simp: region_Suc)
  ultimately have "copy_bytes (m'(dest \<mapsto> b)) (dest + 1) (src + 1) n = store_bytes (m'(dest \<mapsto> b)) (dest + 1) cs"
    using Suc.IH b(2) by blast
  then show ?case using b Suc.prems(1) by (simp add: map_leD)
qed

text \<open>A loop whose turn is defined in more states.\<close>

lemma crun_mono:
  assumes run: "crun body s = Some r" and step: "\<And>s t. body s = Some t \<Longrightarrow> body' s = Some t"
  shows "crun body' s = Some r"
proof -
  have "(\<forall>s t. body s = Some t \<longrightarrow> body' s = Some t) \<longrightarrow> crun body' s = Some r"
    using run
  proof (induction body s r rule: crun.raw_induct [rotated, consumes 1, case_names step])
    case (step go body s r)
    show ?case
    proof
      assume st: "\<forall>s t. body s = Some t \<longrightarrow> body' s = Some t"
      from step(2) obtain t where t: "body s = Some t" by (cases "body s") auto
      then have t': "body' s = Some t" using st by blast
      show "crun body' s = Some r"
      proof (cases t)
        case (Continue s')
        then have "go body s' = Some r" using step(2) t by simp
        then have "crun body' s' = Some r" using step(1) st by blast
        with t' Continue show ?thesis by (simp add: crun_Continue)
      next
        case (Leave r')
        then have "r' = r" using step(2) t by simp
        with t' Leave show ?thesis by (simp add: crun_Leave)
      qed
    qed
  qed
  with step show ?thesis by blast
qed

lemma string_length_mono:
  assumes "m \<subseteq>\<^sub>m m'" and "string_length m src n = Some k"
  shows "string_length m' src n = Some k"
  using assms(2) unfolding string_length_def
  by (rule crun_mono) (auto split: option.splits if_splits dest: map_leD [OF assms(1)])

lemma iter_do_mono:
  assumes "iter_do body it s = Some t" and "\<And>it s t. body it s = Some t \<Longrightarrow> body' it s = Some t"
  shows "iter_do body' it s = Some t"
  using assms(1) unfolding iter_do_def
proof (rule crun_mono, goal_cases)
  case (1 st t)
  obtain it s where st: "st = (it, s)" by (cases st)
  with 1 obtain u where "body it s = Some u" by (cases "body it s") auto
  with 1 st assms(2) [OF this] show ?case by simp
qed

lemma all_zero_mono: "m \<subseteq>\<^sub>m m' \<Longrightarrow> all_zero m p n = Some z \<Longrightarrow> all_zero m' p n = Some z"
  by (induction n arbitrary: p) (auto split: option.splits if_splits dest: map_leD)

lemma proto3_default_mono:
  assumes "m \<subseteq>\<^sub>m m'"
  shows "pb_check_proto3_default_value d f p m = Some z \<Longrightarrow> pb_check_proto3_default_value d f p m' = Some z"
proof (induction d arbitrary: f p z)
  case 0
  then show ?case by simp
next
  case (Suc d)
  have iter: "iter_do (\<lambda>it u. do {
               z \<leftarrow> pb_check_proto3_default_value d (ipos it) (pData it) m';
               Some (if \<not> z then Leave () else Continue ()) }) it () = Some t"
    if "iter_do (\<lambda>it u. do {
               z \<leftarrow> pb_check_proto3_default_value d (ipos it) (pData it) m;
               Some (if \<not> z then Leave () else Continue ()) }) it () = Some t" for it t
    using that by (rule iter_do_mono) (auto dest: Suc.IH split: bind_splits)
  have lu: "load_uint m' p 4 = Some n" if "load_uint m p 4 = Some n" for n
    using load_uint_mono [OF assms that] .
  have lb: "m' p = Some b" if "m p = Some b" for b using map_leD [OF assms that] .
  have az: "all_zero m' p (data_size f) = Some b" if "all_zero m p (data_size f) = Some b" for b
    using all_zero_mono [OF assms that] .
  consider (bytes) "PB_ATYPE (ftype f) = PB_ATYPE_STATIC" "PB_LTYPE (ftype f) = PB_LTYPE_BYTES"
    | (str) "PB_ATYPE (ftype f) = PB_ATYPE_STATIC" "PB_LTYPE (ftype f) = PB_LTYPE_STRING"
    | (fixed) "PB_ATYPE (ftype f) = PB_ATYPE_STATIC" "PB_LTYPE (ftype f) = PB_LTYPE_FIXED_LENGTH_BYTES"
    | (sub) "PB_ATYPE (ftype f) = PB_ATYPE_STATIC" "PB_LTYPE (ftype f) = PB_LTYPE_SUBMESSAGE"
    | (other) "\<not> (PB_ATYPE (ftype f) = PB_ATYPE_STATIC \<and> PB_LTYPE (ftype f) = PB_LTYPE_BYTES)"
        "\<not> (PB_ATYPE (ftype f) = PB_ATYPE_STATIC \<and> PB_LTYPE (ftype f) = PB_LTYPE_STRING)"
        "\<not> (PB_ATYPE (ftype f) = PB_ATYPE_STATIC \<and> PB_LTYPE (ftype f) = PB_LTYPE_FIXED_LENGTH_BYTES)"
        "\<not> (PB_ATYPE (ftype f) = PB_ATYPE_STATIC \<and> PB_LTYPE (ftype f) = PB_LTYPE_SUBMESSAGE)"
    by blast
  then show ?case
  proof cases
    case sub
    with Suc.prems obtain fs where fs: "submsg_fields f = Some fs" by (cases "submsg_fields f") auto
    obtain ne it where b: "pb_field_iter_begin fs p = (ne, it)" by (cases "pb_field_iter_begin fs p")
    let ?v = "\<lambda>m it u. do {
               z \<leftarrow> pb_check_proto3_default_value d (ipos it) (pData it) m;
               Some (if \<not> z then Leave () else Continue ()) }"
    show ?thesis
    proof (cases ne)
      case False
      with sub fs b Suc.prems show ?thesis by simp
    next
      case True
      with sub fs b Suc.prems obtain t where "iter_do (?v m) it () = Some t"
        "z = (case t of Continue u \<Rightarrow> True | Leave u \<Rightarrow> False)"
        by (auto split: bind_splits)
      with iter [of it t] True sub fs b show ?thesis by simp
    qed
  next
    case other
    with Suc.prems az show ?thesis by auto
  qed (use Suc.prems lu lb in auto)
qed

end
