(* ===== verification/PbEncodeRefine.thy ===== *)
theory PbEncodeRefine
  imports PbEncodeSpec
begin

text \<open>
  The encoders of \<open>pb_encode.c\<close> refine the specification: whatever has bytes is encoded
  to them, on a sizing stream and on a buffer.
\<close>

section \<open>Writing given bytes\<close>

text \<open>A stream to a buffer whose free part is accessible and apart from the memory read.\<close>

definition buffer_at :: "memory \<Rightarrow> 'w pb_ostream \<Rightarrow> 'w cstate \<Rightarrow> addr \<Rightarrow> bool" where
  "buffer_at m s w a \<longleftrightarrow>
     sink s = Buffer_out a \<and> oerrmsg s = None \<and> bytes_written s \<le> max_size s \<and>
     valid (hmem w) a (max_size s - bytes_written s) \<and>
     region a (max_size s - bytes_written s) \<inter> dom m = {}"

type_synonym 'w write_op = "'w pb_ostream \<Rightarrow> 'w cstate \<Rightarrow> (bool \<times> 'w pb_ostream \<times> 'w cstate) option"

definition writes_sizing :: "memory \<Rightarrow> 'w write_op \<Rightarrow> byte list \<Rightarrow> bool" where
  "writes_sizing m enc bs \<longleftrightarrow>
     (\<forall>s w. m \<subseteq>\<^sub>m hmem w \<and> sink s = Sizing \<and> bytes_written s < 2 ^ 64 \<longrightarrow>
        enc s w = Some (True, s\<lparr>bytes_written := (bytes_written s + length bs) mod 2 ^ 64\<rparr>, w))"

definition written :: "'w pb_ostream \<Rightarrow> addr \<Rightarrow> nat \<Rightarrow> 'w pb_ostream" where
  "written s a n = s\<lparr>sink := Buffer_out (a + int n), bytes_written := bytes_written s + n\<rparr>"

definition writes_buffer :: "memory \<Rightarrow> 'w write_op \<Rightarrow> byte list \<Rightarrow> bool" where
  "writes_buffer m enc bs \<longleftrightarrow>
     (\<forall>s w a. m \<subseteq>\<^sub>m hmem w \<and> buffer_at m s w a \<and> max_size s + length bs < 2 ^ 64 \<longrightarrow>
        (if bytes_written s + length bs \<le> max_size s
         then enc s w = Some (True, written s a (length bs), w\<lparr>hmem := overwrite (hmem w) a bs\<rparr>)
         else \<exists>s' w'. enc s w = Some (False, s', w') \<and>
                same_outside (region a (max_size s - bytes_written s)) (hmem w) (hmem w')))"

definition writes :: "memory \<Rightarrow> 'w write_op \<Rightarrow> byte list \<Rightarrow> bool" where
  "writes m enc bs \<longleftrightarrow> writes_sizing m enc bs \<and> writes_buffer m enc bs"

lemma written_simps [simp]:
  "sink (written s a n) = Buffer_out (a + int n)"
  "max_size (written s a n) = max_size s"
  "bytes_written (written s a n) = bytes_written s + n"
  "oerrmsg (written s a n) = oerrmsg s"
  by (simp_all add: written_def)

lemma written_written: "written (written s a n) (a + int n) k = written s a (n + k)"
  by (simp add: written_def algebra_simps)

lemma buffer_at_written:
  assumes "m \<subseteq>\<^sub>m hmem w" and "buffer_at m s w a" and "bytes_written s + length bs \<le> max_size s"
  shows "m \<subseteq>\<^sub>m overwrite (hmem w) a bs"
    and "buffer_at m (written s a (length bs)) (w\<lparr>hmem := overwrite (hmem w) a bs\<rparr>) (a + int (length bs))"
proof -
  let ?n = "max_size s - bytes_written s"
  have v: "valid (hmem w) a ?n" and d: "region a ?n \<inter> dom m = {}" and le: "length bs \<le> ?n"
    using assms(2,3) by (auto simp: buffer_at_def)
  have r: "region a (length bs) \<subseteq> region a ?n" using le by (intro region_subset) simp_all
  show "m \<subseteq>\<^sub>m overwrite (hmem w) a bs"
    by (rule map_le_overwrite [OF assms(1)]) (use r d in blast)
  have vb: "valid (hmem w) a (length bs)" by (rule valid_mono [OF v]) (use le in simp_all)
  have r2: "region (a + int (length bs)) (max_size s - (bytes_written s + length bs)) \<subseteq> region a ?n"
    by (rule region_subset) (use le assms(3) in simp_all)
  then have "valid (hmem w) (a + int (length bs)) (max_size s - (bytes_written s + length bs))"
    using v by (auto simp: valid_def)
  then have "valid (overwrite (hmem w) a bs) (a + int (length bs)) (max_size s - (bytes_written s + length bs))"
    using dom_overwrite [OF vb] by (simp add: valid_def)
  then show "buffer_at m (written s a (length bs)) (w\<lparr>hmem := overwrite (hmem w) a bs\<rparr>) (a + int (length bs))"
    using assms(2,3) r2 d by (auto simp: buffer_at_def)
qed

lemma overwrite_frame:
  assumes "buffer_at m s w a" and "bytes_written s + length bs \<le> max_size s"
  shows "same_outside (region a (max_size s - bytes_written s)) (hmem w) (overwrite (hmem w) a bs)"
proof -
  have "valid (hmem w) a (length bs)"
    using assms by (auto simp: buffer_at_def intro: valid_mono)
  from overwrite_same_outside [OF this] show ?thesis
    by (rule same_outside_mono, intro region_subset) (use assms(2) in simp_all)
qed

text \<open>A call of \<open>pb_write\<close> with bytes that are there.\<close>

lemma writes_pb_write:
  assumes f: "fetch m buf (length bs) = Some bs" and n: "n = length bs"
  shows "writes m (\<lambda>s w. pb_write s buf n w) bs"
  unfolding writes_def writes_sizing_def writes_buffer_def n
proof (intro conjI allI impI)
  fix s :: "'a pb_ostream" and w :: "'a cstate"
  assume "m \<subseteq>\<^sub>m hmem w \<and> sink s = Sizing \<and> bytes_written s < 2 ^ 64"
  then show "pb_write s buf (length bs) w
      = Some (True, s\<lparr>bytes_written := (bytes_written s + length bs) mod 2 ^ 64\<rparr>, w)"
    by (simp add: pb_write_def)
next
  fix s :: "'a pb_ostream" and w :: "'a cstate" and a
  assume a: "m \<subseteq>\<^sub>m hmem w \<and> buffer_at m s w a \<and> max_size s + length bs < 2 ^ 64"
  then have sum: "(bytes_written s + length bs) mod 2 ^ 64 = bytes_written s + length bs"
    and sk: "sink s = Buffer_out a"
    by (auto simp: buffer_at_def)
  show "if bytes_written s + length bs \<le> max_size s
        then pb_write s buf (length bs) w
          = Some (True, written s a (length bs), w\<lparr>hmem := overwrite (hmem w) a bs\<rparr>)
        else \<exists>s' w'. pb_write s buf (length bs) w = Some (False, s', w') \<and>
               same_outside (region a (max_size s - bytes_written s)) (hmem w) (hmem w')"
  proof (cases "bytes_written s + length bs \<le> max_size s")
    case False
    then have "pb_write s buf (length bs) w = Some (False, oset_error s ''stream full'', w)"
      unfolding pb_write_def sum using sk by simp
    with False show ?thesis by simp
  next
    case True
    have r: "region a (length bs) \<subseteq> region a (max_size s - bytes_written s)"
      using True by (intro region_subset) simp_all
    have v: "valid (hmem w) a (length bs)" and d: "region a (length bs) \<inter> dom m = {}"
      using a r by (auto simp: buffer_at_def valid_def)
    have "buf_write (hmem w) a buf (length bs) = store_bytes (hmem w) a bs"
    proof (cases buf)
      case (Local cs)
      with f show ?thesis by (auto split: if_splits)
    next
      case (Mem p)
      with f a d copy_bytes_store [of m "hmem w" p "length bs" bs a] show ?thesis by simp
    qed
    with v have "buf_write (hmem w) a buf (length bs) = Some (overwrite (hmem w) a bs)"
      by (simp add: store_bytes_overwrite)
    then have "pb_write s buf (length bs) w
        = Some (True, written s a (length bs), w\<lparr>hmem := overwrite (hmem w) a bs\<rparr>)"
      unfolding pb_write_def sum using sk True sum
      by (simp add: ostream_callback_def written_def)
    with True show ?thesis by simp
  qed
qed

text \<open>How operations that write compose.\<close>

lemma writesI:
  assumes "\<And>s w. m \<subseteq>\<^sub>m hmem w \<Longrightarrow> sink s = Sizing \<Longrightarrow> bytes_written s < 2 ^ 64 \<Longrightarrow>
       enc s w = Some (True, s\<lparr>bytes_written := (bytes_written s + length bs) mod 2 ^ 64\<rparr>, w)"
    and "\<And>s w a. m \<subseteq>\<^sub>m hmem w \<Longrightarrow> buffer_at m s w a \<Longrightarrow> max_size s + length bs < 2 ^ 64 \<Longrightarrow>
       bytes_written s + length bs \<le> max_size s \<Longrightarrow>
       enc s w = Some (True, written s a (length bs), w\<lparr>hmem := overwrite (hmem w) a bs\<rparr>)"
    and "\<And>s w a. m \<subseteq>\<^sub>m hmem w \<Longrightarrow> buffer_at m s w a \<Longrightarrow> max_size s + length bs < 2 ^ 64 \<Longrightarrow>
       max_size s < bytes_written s + length bs \<Longrightarrow>
       \<exists>s' w'. enc s w = Some (False, s', w') \<and>
         same_outside (region a (max_size s - bytes_written s)) (hmem w) (hmem w')"
  shows "writes m enc bs"
  using assms by (auto simp: writes_def writes_sizing_def writes_buffer_def not_le)

lemma writes_sizingD:
  "writes m enc bs \<Longrightarrow> m \<subseteq>\<^sub>m hmem w \<Longrightarrow> sink s = Sizing \<Longrightarrow> bytes_written s < 2 ^ 64 \<Longrightarrow>
     enc s w = Some (True, s\<lparr>bytes_written := (bytes_written s + length bs) mod 2 ^ 64\<rparr>, w)"
  by (simp add: writes_def writes_sizing_def)

lemma writes_bufferD:
  "writes m enc bs \<Longrightarrow> m \<subseteq>\<^sub>m hmem w \<Longrightarrow> buffer_at m s w a \<Longrightarrow> max_size s + length bs < 2 ^ 64 \<Longrightarrow>
     bytes_written s + length bs \<le> max_size s \<Longrightarrow>
     enc s w = Some (True, written s a (length bs), w\<lparr>hmem := overwrite (hmem w) a bs\<rparr>)"
  by (auto simp: writes_def writes_buffer_def)

lemma writes_fullD:
  assumes "writes m enc bs" and "m \<subseteq>\<^sub>m hmem w" and "buffer_at m s w a"
    and "max_size s + length bs < 2 ^ 64" and "max_size s < bytes_written s + length bs"
  obtains s' w' where "enc s w = Some (False, s', w')"
    "same_outside (region a (max_size s - bytes_written s)) (hmem w) (hmem w')"
  using assms unfolding writes_def writes_buffer_def by (metis not_le)

lemma writes_cong:
  assumes "\<And>s w. m \<subseteq>\<^sub>m hmem w \<Longrightarrow> enc s w = enc' s w"
  shows "writes m enc bs = writes m enc' bs"
  using assms by (simp add: writes_def writes_sizing_def writes_buffer_def cong: conj_cong)

lemma writes_nothing: "writes m (\<lambda>s w. Some (True, s, w)) []"
  by (rule writesI) (auto simp: written_def buffer_at_def)

definition and_then :: "'w write_op \<Rightarrow> 'w write_op \<Rightarrow> 'w write_op" where
  "and_then e1 e2 = (\<lambda>s w. e1 s w \<bind> (\<lambda>(ok, s, w). if \<not> ok then Some (False, s, w) else e2 s w))"

lemma writes_and_then:
  assumes e1: "writes m e1 b1" and e2: "writes m e2 b2"
  shows "writes m (and_then e1 e2) (b1 @ b2)"
proof (rule writesI, goal_cases)
  case (1 s w)
  have "e1 s w = Some (True, s\<lparr>bytes_written := (bytes_written s + length b1) mod 2 ^ 64\<rparr>, w)"
    using writes_sizingD [OF e1 1] .
  moreover have "e2 (s\<lparr>bytes_written := (bytes_written s + length b1) mod 2 ^ 64\<rparr>) w
      = Some (True, s\<lparr>bytes_written := ((bytes_written s + length b1) mod 2 ^ 64 + length b2) mod 2 ^ 64\<rparr>, w)"
    using writes_sizingD [OF e2 1(1), of "s\<lparr>bytes_written := (bytes_written s + length b1) mod 2 ^ 64\<rparr>"] 1(2)
    by simp
  ultimately show ?case by (simp add: and_then_def mod_add_left_eq add.assoc)
next
  case (2 s w a)
  have f1: "bytes_written s + length b1 \<le> max_size s" "max_size s + length b1 < 2 ^ 64"
    "max_size s + length b2 < 2 ^ 64"
    using 2 by simp_all
  note n = buffer_at_written [OF 2(1,2) f1(1)]
  have "e1 s w = Some (True, written s a (length b1), w\<lparr>hmem := overwrite (hmem w) a b1\<rparr>)"
    using writes_bufferD [OF e1 2(1,2) f1(2,1)] .
  moreover have "e2 (written s a (length b1)) (w\<lparr>hmem := overwrite (hmem w) a b1\<rparr>)
      = Some (True, written s a (length b1 + length b2), w\<lparr>hmem := overwrite (hmem w) a (b1 @ b2)\<rparr>)"
    using writes_bufferD [OF e2 _ n(2)] n(1) f1 2(4) by (simp add: written_written overwrite_append)
  ultimately show ?case by (simp add: and_then_def)
next
  case (3 s w a)
  have f: "max_size s + length b1 < 2 ^ 64" "max_size s + length b2 < 2 ^ 64" using 3 by simp_all
  show ?case
  proof (cases "bytes_written s + length b1 \<le> max_size s")
    case False
    then have "max_size s < bytes_written s + length b1" by simp
    from writes_fullD [OF e1 3(1,2) f(1) this] obtain s' w' where
      "e1 s w = Some (False, s', w')"
      "same_outside (region a (max_size s - bytes_written s)) (hmem w) (hmem w')" .
    then show ?thesis by (simp add: and_then_def)
  next
    case True
    note n = buffer_at_written [OF 3(1,2) True]
    let ?s = "written s a (length b1)" and ?w = "w\<lparr>hmem := overwrite (hmem w) a b1\<rparr>"
    have e: "e1 s w = Some (True, ?s, ?w)" using writes_bufferD [OF e1 3(1,2) f(1) True] .
    have "m \<subseteq>\<^sub>m hmem ?w" "max_size ?s + length b2 < 2 ^ 64" "max_size ?s < bytes_written ?s + length b2"
      using n f 3(4) by simp_all
    from writes_fullD [OF e2 this(1) n(2) this(2,3)] obtain s' w' where
      r: "e2 ?s ?w = Some (False, s', w')"
        "same_outside (region (a + int (length b1)) (max_size ?s - bytes_written ?s)) (hmem ?w) (hmem w')" .
    have "region (a + int (length b1)) (max_size ?s - bytes_written ?s)
        \<subseteq> region a (max_size s - bytes_written s)"
      by (rule region_subset) (use True in simp_all)
    then have "same_outside (region a (max_size s - bytes_written s)) (hmem ?w) (hmem w')"
      using r(2) same_outside_mono by blast
    then have "same_outside (region a (max_size s - bytes_written s)) (hmem w) (hmem w')"
      using overwrite_frame [OF 3(2) True] same_outside_trans by force
    with e r(1) show ?thesis by (simp add: and_then_def)
  qed
qed

text \<open>An operation that first reads what the specification read.\<close>

lemma writes_read:
  assumes "\<And>w :: 'w cstate. m \<subseteq>\<^sub>m hmem w \<Longrightarrow> g w = Some v" and "writes m (\<lambda>s w. e v s w) bs"
  shows "writes m (\<lambda>s w :: 'w cstate. g w \<bind> (\<lambda>v. e v s w)) bs"
  using assms(2) by (subst writes_cong [where enc' = "\<lambda>s w. e v s w"]) (simp_all add: assms(1))

section \<open>Integers, tags and strings\<close>

lemma writes_varint: "writes m (\<lambda>s w. pb_encode_varint s v w) (varint_bytes (unat v))"
  unfolding pb_encode_varint_bytes by (rule writes_pb_write) simp_all

lemma writes_tag: "wt < 8 \<Longrightarrow> writes m (\<lambda>s w. pb_encode_tag s wt (tag f) w) (tag_bytes wt f)"
  unfolding tag_bytes_def by (simp only: pb_encode_tag_bytes) (rule writes_pb_write, simp_all)

lemma field_wiretype_bound: "field_wiretype f = Some wt \<Longrightarrow> wt < 8"
  by (auto simp: field_wiretype_def Let_def split: if_splits)

lemma writes_tag_for_field:
  "field_wiretype f = Some wt \<Longrightarrow> writes m (\<lambda>s w. pb_encode_tag_for_field s f w) (tag_bytes wt f)"
  using writes_tag [OF field_wiretype_bound] by (simp add: pb_encode_tag_for_field_def)

lemma writes_string:
  assumes "fetch m buf (length d) = Some d" and "delimited d = Some bs" and "n = length d"
  shows "writes m (\<lambda>s (w :: 'w cstate). pb_encode_string s buf n w) bs"
proof -
  have len: "length d < 2 ^ 64" and bs: "bs = varint_bytes (length d) @ d"
    using assms(2) by (auto simp: delimited_def split: if_splits)
  have u: "unat (word_of_nat n :: u64) = length d"
    unfolding assms(3) by (simp only: unat_of_nat) (use len in simp)
  have "(\<lambda>s (w :: 'w cstate). pb_encode_string s buf n w)
      = and_then (\<lambda>s w. pb_encode_varint s (word_of_nat n) w) (\<lambda>s w. pb_write s buf n w)"
    by (simp add: pb_encode_string_def and_then_def fun_eq_iff)
  then show ?thesis
    using writes_and_then [OF writes_varint [of m "word_of_nat n"] writes_pb_write [OF assms(1,3)]]
    by (simp add: bs u)
qed

section \<open>Submessages\<close>

lemma writes_delimited_submessage:
  assumes enc: "writes m (\<lambda>s (w :: 'w cstate). encode s fs src w) d" and bs: "delimited d = Some bs"
  shows "writes m (\<lambda>s (w :: 'w cstate). pb_encode_submessage encode s fs src w) bs"
proof -
  have len: "length d < 2 ^ 64" and b: "bs = varint_bytes (length d) @ d"
    using bs by (auto simp: delimited_def split: if_splits)
  have u: "unat (word_of_nat (length d) :: u64) = length d"
    by (simp only: unat_of_nat) (use len in simp)
  have sz: "encode PB_OSTREAM_SIZING fs src w
      = Some (True, PB_OSTREAM_SIZING\<lparr>bytes_written := length d\<rparr>, w)" if "m \<subseteq>\<^sub>m hmem w" for w
    using writes_sizingD [OF enc that, of PB_OSTREAM_SIZING] len by (simp add: PB_OSTREAM_SIZING_def)
  define second where "second = (\<lambda>s (w :: 'w cstate).
       if sink s = Sizing then pb_write s (Mem 0) (length d) w
       else if max_size s < (bytes_written s + length d) mod 2 ^ 64
       then Some (False, oset_error s ''stream full'', w)
       else do {
         (status, substream, w) \<leftarrow>
           encode \<lparr>sink = sink s, max_size = length d, bytes_written = 0, oerrmsg = None\<rparr> fs src w;
         let s = s\<lparr>bytes_written := (bytes_written s + bytes_written substream) mod 2 ^ 64,
                   sink := sink substream, oerrmsg := oerrmsg substream\<rparr>;
         if bytes_written substream \<noteq> length d
         then Some (False, oset_error s ''submsg size changed'', w)
         else Some (status, s, w)
       })"
  have "writes m second d"
  proof (rule writesI, goal_cases)
    case (1 s w)
    then show ?case by (simp add: second_def pb_write_def)
  next
    case (2 s w a)
    let ?ss = "\<lparr>sink = sink s, max_size = length d, bytes_written = 0, oerrmsg = None\<rparr> :: 'w pb_ostream"
    have sum: "(bytes_written s + length d) mod 2 ^ 64 = bytes_written s + length d" using 2(3,4) by simp
    have "region a (length d) \<subseteq> region a (max_size s - bytes_written s)"
      by (rule region_subset) (use 2(4) in simp_all)
    then have "buffer_at m ?ss w a" using 2(2) by (auto simp: buffer_at_def valid_def)
    moreover have "max_size ?ss + length d < 2 ^ 64" using 2(3,4) by simp
    ultimately have e: "encode ?ss fs src w
        = Some (True, written ?ss a (length d), w\<lparr>hmem := overwrite (hmem w) a d\<rparr>)"
      using writes_bufferD [OF enc 2(1)] by simp
    have "sink s = Buffer_out a" "oerrmsg s = None" using 2(2) by (simp_all add: buffer_at_def)
    then have upd: "s\<lparr>bytes_written := k, sink := x, oerrmsg := None\<rparr> = s\<lparr>sink := x, bytes_written := k\<rparr>"
      for k x by (cases s) simp
    from \<open>sink s = Buffer_out a\<close> show ?case using e 2(4) unfolding second_def sum
      by (simp add: written_def Let_def sum [simplified] upd)
  next
    case (3 s w a)
    then have "(bytes_written s + length d) mod 2 ^ 64 = bytes_written s + length d"
      "sink s = Buffer_out a" by (simp_all add: buffer_at_def)
    then show ?case using 3(4) by (simp add: second_def)
  qed
  from writes_and_then [OF writes_varint [of m "word_of_nat (length d)"] this]
  have "writes m (and_then (\<lambda>s w. pb_encode_varint s (word_of_nat (length d)) w) second) bs"
    by (simp only: u b)
  moreover have "pb_encode_submessage encode s fs src w
      = and_then (\<lambda>s w. pb_encode_varint s (word_of_nat (length d)) w) second s w"
    if "m \<subseteq>\<^sub>m hmem w" for s and w :: "'w cstate"
    using sz [OF that]
    by (simp add: pb_encode_submessage_def and_then_def second_def case_prod_beta' Let_def)
  ultimately show ?thesis by (simp cong: writes_cong)
qed

section \<open>Values\<close>

lemma writes_signed:
  assumes "load_signed_field f src m = Some (Some x)"
  shows "writes m (\<lambda>s (w :: 'w cstate). pb_enc_varint s f src w) (varint_bytes (unat x))"
    and "writes m (\<lambda>s (w :: 'w cstate). pb_enc_svarint s f src w) (varint_bytes (unat (zigzag x)))"
proof -
  have r: "load_signed_field f src (hmem w) = Some (Some x)" if "m \<subseteq>\<^sub>m hmem w" for w :: "'w cstate"
    using assms load_sint_mono [OF that] by (auto simp: load_signed_field_def split: if_splits)
  show "writes m (\<lambda>s (w :: 'w cstate). pb_enc_varint s f src w) (varint_bytes (unat x))"
    unfolding pb_enc_varint_def by (rule writes_read [OF r]) (simp_all add: writes_varint)
  show "writes m (\<lambda>s (w :: 'w cstate). pb_enc_svarint s f src w) (varint_bytes (unat (zigzag x)))"
    unfolding pb_enc_svarint_def
    by (rule writes_read [OF r]) (simp_all add: pb_encode_svarint_zigzag writes_varint)
qed

lemma writes_unsigned:
  assumes "load_unsigned_field f src m = Some (Some x)"
  shows "writes m (\<lambda>s (w :: 'w cstate). pb_enc_uvarint s f src w) (varint_bytes (unat x))"
proof -
  have r: "load_unsigned_field f src (hmem w) = Some (Some x)" if "m \<subseteq>\<^sub>m hmem w" for w :: "'w cstate"
    using assms load_uint_mono [OF that] by (auto simp: load_unsigned_field_def split: if_splits)
  show ?thesis
    unfolding pb_enc_uvarint_def by (rule writes_read [OF r]) (simp_all add: writes_varint)
qed

lemma writes_fixed32:
  assumes "load_bytes m src 4 = Some bs"
  shows "writes m (\<lambda>s (w :: 'w cstate). pb_enc_fixed32 s f src w) bs"
proof -
  have len: "length bs = 4" using load_bytes_length [OF assms] .
  have r: "load_uint (hmem w) src 4 = Some (le_val bs)" if "m \<subseteq>\<^sub>m hmem w" for w :: "'w cstate"
    using load_bytes_mono [OF that assms] by (simp add: load_uint_def)
  show ?thesis
    unfolding pb_enc_fixed32_def pb_encode_fixed32_def
    by (rule writes_read [OF r], assumption, rule writes_pb_write) (simp_all add: le_val_word32 len)
qed

lemma writes_fixed64:
  assumes "load_bytes m src 8 = Some bs"
  shows "writes m (\<lambda>s (w :: 'w cstate). pb_enc_fixed64 s f src w) bs"
proof -
  have len: "length bs = 8" using load_bytes_length [OF assms] .
  have r: "load_uint (hmem w) src 8 = Some (le_val bs)" if "m \<subseteq>\<^sub>m hmem w" for w :: "'w cstate"
    using load_bytes_mono [OF that assms] by (simp add: load_uint_def)
  show ?thesis
    unfolding pb_enc_fixed64_def pb_encode_fixed64_def
    by (rule writes_read [OF r], assumption, rule writes_pb_write) (simp_all add: le_val_word64 len)
qed

lemma writes_bytes:
  assumes "src \<noteq> 0" and "load_uint m src 4 = Some n"
    and "\<not> (PB_ATYPE (ftype f) = PB_ATYPE_STATIC \<and> data_size f < n + 4)"
    and "load_bytes m (src + 4) n = Some d" and "delimited d = Some bs"
  shows "writes m (\<lambda>s (w :: 'w cstate). pb_enc_bytes s f src w) bs"
proof -
  have r: "load_uint (hmem w) src 4 = Some n" if "m \<subseteq>\<^sub>m hmem w" for w :: "'w cstate"
    using load_uint_mono [OF that assms(2)] .
  obtain b4 where "load_bytes m src 4 = Some b4" "n = le_val b4"
    using assms(2) by (auto simp: load_uint_def)
  then have "n < 2 ^ 32" using le_val_bound [of b4] load_bytes_length [of m src 4 b4] by simp
  then have "PB_BYTES_ARRAY_T_ALLOCSIZE n = n + 4" by (simp add: PB_BYTES_ARRAY_T_ALLOCSIZE_def)
  with assms(3) have c: "\<not> (PB_ATYPE (ftype f) = PB_ATYPE_STATIC \<and>
      data_size f < PB_BYTES_ARRAY_T_ALLOCSIZE n)" by simp
  have "n = length d" using load_bytes_length [OF assms(4)] by simp
  then have "writes m (\<lambda>s (w :: 'w cstate).
      if PB_ATYPE (ftype f) = PB_ATYPE_STATIC \<and> data_size f < PB_BYTES_ARRAY_T_ALLOCSIZE n
      then Some (False, oset_error s ''bytes size exceeded'', w)
      else pb_encode_string s (Mem (src + 4)) n w) bs"
    unfolding if_not_P [OF c] by (intro writes_string) (use assms(4,5) in simp_all)
  then show ?thesis
    unfolding pb_enc_bytes_def if_not_P [OF assms(1)] by (rule writes_read [OF r, rotated])
qed

lemma writes_str:
  assumes "src \<noteq> 0"
    and "string_length m src (if PB_ATYPE (ftype f) = PB_ATYPE_POINTER then 2 ^ 64 - 1 else data_size f) = Some n"
    and "load_bytes m src n = Some d" and "delimited d = Some bs"
  shows "writes m (\<lambda>s (w :: 'w cstate). pb_enc_string s f src w) bs"
proof -
  have r: "(if src = 0 then Some 0 else string_length (hmem w) src
      (if PB_ATYPE (ftype f) = PB_ATYPE_POINTER then 2 ^ 64 - 1 else data_size f)) = Some n"
    if "m \<subseteq>\<^sub>m hmem w" for w :: "'w cstate"
    using string_length_mono [OF that assms(2)] assms(1) by simp
  have "n = length d" using load_bytes_length [OF assms(3)] by simp
  then have "writes m (\<lambda>s (w :: 'w cstate). pb_encode_string s (Mem src) n w) bs"
    by (intro writes_string) (use assms(3,4) in simp_all)
  then show ?thesis
    unfolding pb_enc_string_def Let_def by (rule writes_read [OF r, rotated])
qed

lemma writes_empty:
  assumes "delimited [] = Some bs"
  shows "writes m (\<lambda>s (w :: 'w cstate). pb_encode_string s (Mem 0) 0 w) bs"
  by (rule writes_string [OF _ assms]) simp_all

lemma writes_value:
  assumes val: "value_bytes sub m f src = Some bs"
    and sub: "\<And>fs a d. sub fs a = Some d \<Longrightarrow> writes m (\<lambda>s (w :: 'w cstate). encode s fs a w) d"
  shows "writes m (\<lambda>s (w :: 'w cstate). call_encoder (PB_ENCODERS encode (PB_LTYPE (ftype f))) s f src w) bs"
proof -
  let ?l = "PB_LTYPE (ftype f)"
  consider "?l = 0" | "?l = 1" | "?l = 2" | "?l = 3" | "?l = 4" | "?l = 5" | "?l = 6" | "?l = 7" | "?l = 9"
    using val by (auto simp: value_bytes_def Let_def split: if_splits)
  then show ?thesis
  proof cases
    case 1
    with val writes_signed(1) [of f src m] show ?thesis
      by (auto simp: value_bytes_def call_encoder_def PB_ENCODERS_def split: bind_splits)
  next
    case 2
    with val writes_unsigned [of f src m] show ?thesis
      by (auto simp: value_bytes_def call_encoder_def PB_ENCODERS_def split: bind_splits)
  next
    case 3
    with val writes_signed(2) [of f src m] show ?thesis
      by (auto simp: value_bytes_def call_encoder_def PB_ENCODERS_def split: bind_splits)
  next
    case 4
    with val writes_fixed32 [of m src bs] show ?thesis
      by (auto simp: value_bytes_def call_encoder_def PB_ENCODERS_def)
  next
    case 5
    with val writes_fixed64 [of m src bs] show ?thesis
      by (auto simp: value_bytes_def call_encoder_def PB_ENCODERS_def)
  next
    case 6
    show ?thesis
    proof (cases "src = 0")
      case True
      with 6 val writes_empty [of bs m] show ?thesis
        by (simp add: value_bytes_def call_encoder_def PB_ENCODERS_def pb_enc_bytes_def)
    next
      case False
      from 6 val False obtain n d where "load_uint m src 4 = Some n" "load_bytes m (src + 4) n = Some d"
        "\<not> (PB_ATYPE (ftype f) = PB_ATYPE_STATIC \<and> data_size f < n + 4)" "delimited d = Some bs"
        by (auto simp: value_bytes_def split: bind_splits if_splits)
      from writes_bytes [OF False this(1,3,2,4)] 6 show ?thesis
        by (simp add: call_encoder_def PB_ENCODERS_def)
    qed
  next
    case 7
    show ?thesis
    proof (cases "src = 0")
      case True
      with 7 val writes_empty [of bs m] show ?thesis
        by (simp add: value_bytes_def call_encoder_def PB_ENCODERS_def pb_enc_string_def Let_def)
    next
      case False
      from 7 val False obtain n d where "string_length m src
          (if PB_ATYPE (ftype f) = PB_ATYPE_POINTER then 2 ^ 64 - 1 else data_size f) = Some n"
        "load_bytes m src n = Some d" "delimited d = Some bs"
        by (auto simp: value_bytes_def split: bind_splits)
      from writes_str [OF False this] 7 show ?thesis
        by (simp add: call_encoder_def PB_ENCODERS_def)
    qed
  next
    case 8
    with val obtain fs d where fs: "submsg_fields f = Some fs" "sub fs src = Some d" "delimited d = Some bs"
      by (auto simp: value_bytes_def split: bind_splits)
    then have "fptr f \<noteq> Pb_null" by (auto simp: submsg_fields_def)
    with fs writes_delimited_submessage [where encode = encode, OF sub [OF fs(2)] fs(3)] 8 show ?thesis
      by (simp add: call_encoder_def PB_ENCODERS_def pb_enc_submessage_def)
  next
    case 9
    with val obtain d where d: "load_bytes m src (data_size f) = Some d" "delimited d = Some bs"
      by (auto simp: value_bytes_def split: bind_splits)
    have "writes m (\<lambda>s (w :: 'w cstate). pb_encode_string s (Mem src) (data_size f) w) bs"
      by (rule writes_string [OF _ d(2)]) (use d(1) load_bytes_length [OF d(1)] in simp_all)
    with 9 show ?thesis
      by (simp add: call_encoder_def PB_ENCODERS_def pb_enc_fixed_length_bytes_def)
  qed
qed

section \<open>Arrays\<close>

lemma item_loop_Suc:
  "item_loop enc step (Suc n) p = and_then (enc p) (item_loop enc step n (p + int step))"
  by (simp add: and_then_def fun_eq_iff)

lemma writes_items:
  assumes "\<And>p b. val p = Some b \<Longrightarrow> writes m (enc p) b"
  shows "items_bytes val step n p = Some bs \<Longrightarrow> writes m (item_loop enc step n p) bs"
proof (induction n arbitrary: p bs)
  case 0
  then have "bs = []" by simp
  moreover have "item_loop enc step 0 p = (\<lambda>s w. Some (True, s, w))" by (simp add: fun_eq_iff)
  ultimately show ?case using writes_nothing by simp
next
  case (Suc n)
  then obtain b cs where "val p = Some b" "items_bytes val step n (p + int step) = Some cs" "bs = b @ cs"
    by (auto split: bind_splits)
  with writes_and_then [OF assms Suc.IH] show ?case by (simp only: item_loop_Suc)
qed

lemma items_bytes_length:
  assumes "\<And>p b. val p = Some b \<Longrightarrow> length b = k"
  shows "items_bytes val step n p = Some bs \<Longrightarrow> length bs = k * n"
  by (induction n arbitrary: p bs) (auto dest: assms split: bind_splits)

text \<open>
  A packed array: its size is computed beforehand, from the width of the items or by
  encoding them to a sizing stream.
\<close>

lemma writes_packed:
  assumes l: "PB_LTYPE (ftype f) \<le> PB_LTYPE_LAST_PACKABLE"
    and ds: "items_bytes (value_bytes sub m f) (data_size f) count p = Some ds"
    and v: "delimited ds = Some v"
    and enc: "writes m (item_loop (\<lambda>p s (w :: 'w cstate). call_encoder func s f p w) (data_size f) count p) ds"
  shows "writes m (\<lambda>s (w :: 'w cstate). encode_packed s f p count func w) (tag_bytes PB_WT_STRING f @ v)"
proof -
  have len: "length ds < 2 ^ 64" and b: "v = varint_bytes (length ds) @ ds"
    using v by (auto simp: delimited_def split: if_splits)
  have u: "unat (word_of_nat (length ds) :: u64) = length ds"
    by (simp only: unat_of_nat) (use len in simp)
  define size_of where "size_of = (\<lambda>w.
      if PB_LTYPE (ftype f) = PB_LTYPE_FIXED32 then Some (True, (4 * count) mod 2 ^ 64, w)
      else if PB_LTYPE (ftype f) = PB_LTYPE_FIXED64 then Some (True, (8 * count) mod 2 ^ 64, w)
      else do {
        (ok, sizestream, w) \<leftarrow>
          item_loop (\<lambda>p s w. call_encoder func s f p w) (data_size f) count p PB_OSTREAM_SIZING w;
        Some (ok, bytes_written sizestream, w)
      })"
  have sz: "size_of w = Some (True, length ds, w)" if "m \<subseteq>\<^sub>m hmem w" for w :: "'w cstate"
  proof -
    consider (f32) "PB_LTYPE (ftype f) = PB_LTYPE_FIXED32" | (f64) "PB_LTYPE (ftype f) = PB_LTYPE_FIXED64"
      | (other) "PB_LTYPE (ftype f) \<noteq> PB_LTYPE_FIXED32" "PB_LTYPE (ftype f) \<noteq> PB_LTYPE_FIXED64" by blast
    then show ?thesis
    proof cases
      case f32
      have "length ds = 4 * count"
        by (rule items_bytes_length [OF _ ds]) (use f32 in \<open>simp add: value_bytes_def load_bytes_length\<close>)
      with f32 len show ?thesis by (simp add: size_of_def)
    next
      case f64
      have "length ds = 8 * count"
        by (rule items_bytes_length [OF _ ds]) (use f64 in \<open>simp add: value_bytes_def load_bytes_length\<close>)
      with f64 len show ?thesis by (simp add: size_of_def)
    next
      case other
      have "item_loop (\<lambda>p s w. call_encoder func s f p w) (data_size f) count p PB_OSTREAM_SIZING w
          = Some (True, PB_OSTREAM_SIZING\<lparr>bytes_written := length ds\<rparr>, w)"
        using writes_sizingD [OF enc that, of PB_OSTREAM_SIZING] len by (simp add: PB_OSTREAM_SIZING_def)
      with other show ?thesis by (simp add: size_of_def)
    qed
  qed
  define data where "data = (\<lambda>s (w :: 'w cstate).
      if sink s = Sizing then pb_write s (Mem 0) (length ds) w
      else item_loop (\<lambda>p s w. call_encoder func s f p w) (data_size f) count p s w)"
  have "writes m data ds"
  proof (rule writesI, goal_cases)
    case (1 s w)
    then show ?case by (simp add: data_def pb_write_def)
  next
    case (2 s w a)
    then show ?case using writes_bufferD [OF enc 2] by (simp add: data_def buffer_at_def)
  next
    case (3 s w a)
    then show ?case using writes_fullD [OF enc 3] by (fastforce simp: data_def buffer_at_def)
  qed
  from writes_and_then [OF writes_varint [of m "word_of_nat (length ds)"] this]
  have "writes m (and_then (\<lambda>s w. pb_encode_varint s (word_of_nat (length ds)) w) data) v"
    by (simp only: u b)
  then have "writes m (\<lambda>s (w :: 'w cstate). size_of w \<bind> (\<lambda>(ok, size, w).
        if \<not> ok then Some (False, s, w)
        else and_then (\<lambda>s w. pb_encode_varint s (word_of_nat size) w)
          (\<lambda>s w. if sink s = Sizing then pb_write s (Mem 0) size w
                 else item_loop (\<lambda>p s w. call_encoder func s f p w) (data_size f) count p s w) s w)) v"
    by (subst writes_cong) (auto simp: sz data_def)
  from writes_and_then [OF writes_tag [of 2 m f] this] show ?thesis
    by (simp add: encode_packed_def and_then_def size_of_def cong: if_cong)
qed

lemma writes_tagged:
  assumes "tagged_bytes val f p = Some bs"
    and "\<And>b. val p = Some b \<Longrightarrow> writes m (\<lambda>s (w :: 'w cstate). enc s w) b"
  shows "writes m (and_then (\<lambda>s (w :: 'w cstate). pb_encode_tag_for_field s f w) (\<lambda>s w. enc s w)) bs"
proof -
  obtain wt b where "field_wiretype f = Some wt" "val p = Some b" "bs = tag_bytes wt f @ b"
    using assms(1) by (auto simp: tagged_bytes_def split: bind_splits)
  with writes_and_then [OF writes_tag_for_field assms(2)] show ?thesis by simp
qed

lemma writes_array:
  assumes ab: "array_bytes sub m f p count = Some bs"
    and sub: "\<And>fs a d. sub fs a = Some d \<Longrightarrow> writes m (\<lambda>s (w :: 'w cstate). encode s fs a w) d"
    and func: "func = PB_ENCODERS encode (PB_LTYPE (ftype f))"
  shows "writes m (\<lambda>s (w :: 'w cstate). encode_array s f p count func w) bs"
proof (cases "count = 0")
  case True
  with ab writes_nothing show ?thesis by (simp add: array_bytes_def encode_array_def)
next
  case False
  with ab have fit: "\<not> (PB_ATYPE (ftype f) \<noteq> PB_ATYPE_POINTER \<and> array_size f < count)"
    by (auto simp: array_bytes_def split: if_splits)
  have val: "writes m (\<lambda>s (w :: 'w cstate). call_encoder func s f q w) b"
    if "value_bytes sub m f q = Some b" for q b
    unfolding func by (rule writes_value [OF that sub])
  show ?thesis
  proof (cases "PB_LTYPE (ftype f) \<le> PB_LTYPE_LAST_PACKABLE")
    case True
    with ab False fit obtain ds v where
      ds: "items_bytes (value_bytes sub m f) (data_size f) count p = Some ds"
      "delimited ds = Some v" "bs = tag_bytes PB_WT_STRING f @ v"
      by (auto simp: array_bytes_def split: bind_splits if_splits)
    have "writes m (item_loop (\<lambda>p s (w :: 'w cstate). call_encoder func s f p w) (data_size f) count p) ds"
      by (rule writes_items [OF _ ds(1)]) (rule val)
    from writes_packed [OF True ds(1,2) this] show ?thesis
      by (simp only: encode_array_def ds(3) if_not_P [OF False] if_not_P [OF fit] if_P [OF True])
  next
    case np: False
    with ab False fit have ib: "items_bytes (tagged_bytes (item_bytes sub m f) f) (data_size f) count p = Some bs"
      by (auto simp: array_bytes_def split: if_splits)
    have item: "writes m (\<lambda>s (w :: 'w cstate). encode_item f func q s w) b"
      if "tagged_bytes (item_bytes sub m f) f q = Some b" for q b
    proof -
      let ?ptr = "PB_ATYPE (ftype f) = PB_ATYPE_POINTER \<and>
          (PB_LTYPE (ftype f) = PB_LTYPE_STRING \<or> PB_LTYPE (ftype f) = PB_LTYPE_BYTES)"
      have "writes m (and_then (\<lambda>s (w :: 'w cstate). pb_encode_tag_for_field s f w)
          (\<lambda>s w. if ?ptr then load_ptr (hmem w) q \<bind> (\<lambda>r. call_encoder func s f r w)
                 else call_encoder func s f q w)) b"
      proof (rule writes_tagged [OF that])
        fix b' assume b': "item_bytes sub m f q = Some b'"
        show "writes m (\<lambda>s (w :: 'w cstate). if ?ptr then load_ptr (hmem w) q \<bind> (\<lambda>r. call_encoder func s f r w)
                 else call_encoder func s f q w) b'"
        proof (cases ?ptr)
          case True
          with b' obtain r where r: "load_ptr m q = Some r" "value_bytes sub m f r = Some b'"
            by (auto simp: item_bytes_def split: bind_splits)
          show ?thesis
            unfolding if_P [OF True]
            by (rule writes_read [OF load_ptr_mono [OF _ r(1)]], assumption, rule val [OF r(2)])
        next
          case False
          then have "value_bytes sub m f q = Some b'" using b' by (simp only: item_bytes_def if_False)
          from val [OF this] show ?thesis by (simp only: if_not_P [OF False])
        qed
      qed
      then show ?thesis by (simp add: encode_item_def and_then_def)
    qed
    have "writes m (item_loop (encode_item f func) (data_size f) count p) bs"
      by (rule writes_items [OF _ ib]) (rule item)
    then show ?thesis
      by (simp only: encode_array_def if_not_P [OF False] if_not_P [OF fit] if_not_P [OF np])
  qed
qed

section \<open>Fields\<close>

lemma locate_field_mono:
  assumes le: "m \<subseteq>\<^sub>m m'" and l: "locate_field d f p m = Some r"
  shows "locate_field d f p m' = Some r"
proof -
  have p3: "pb_check_proto3_default_value d f p m' = Some z"
    if "pb_check_proto3_default_value d f p m = Some z" for z
    using proto3_default_mono [OF le that] .
  have lp: "load_ptr m' p = Some q" if "load_ptr m p = Some q" for q
    using load_ptr_mono [OF le that] .
  from l show ?thesis
    by (auto simp: locate_field_def p3 lp split: bind_splits if_splits)
qed

lemma load_has_mono: "m \<subseteq>\<^sub>m m' \<Longrightarrow> load_has m z = Some b \<Longrightarrow> load_has m' z = Some b"
  by (cases z) (auto dest: map_leD)

lemma load_count_mono: "m \<subseteq>\<^sub>m m' \<Longrightarrow> load_count m z = Some n \<Longrightarrow> load_count m' z = Some n"
  by (cases z) (auto dest: load_uint_mono)

lemma encode_tagged_and_then:
  "encode_tagged s f data func w
     = and_then (\<lambda>s w. pb_encode_tag_for_field s f w) (\<lambda>s w. call_encoder func s f data w) s w"
  by (simp add: encode_tagged_def and_then_def)

lemma writes_field:
  assumes fb: "field_bytes d sub m f p = Some bs"
    and sub: "\<And>fs a b. sub fs a = Some b \<Longrightarrow> writes m (\<lambda>s (w :: 'w cstate). encode s fs a w) b"
  shows "writes m (\<lambda>s (w :: 'w cstate). encode_field d env encode s f p w) bs"
proof -
  let ?func = "PB_ENCODERS encode (PB_LTYPE (ftype f))" and ?h = "PB_HTYPE (ftype f)"
  have bound: "\<not> PB_LTYPES_COUNT \<le> unat (PB_LTYPE (ftype f))"
    and at: "PB_ATYPE (ftype f) = PB_ATYPE_STATIC \<or> PB_ATYPE (ftype f) = PB_ATYPE_POINTER"
    using fb by (auto simp: field_bytes_def split: if_splits)
  from fb obtain data psize where loc: "locate_field d f p m = Some (data, psize)"
    by (auto simp: field_bytes_def split: if_splits bind_splits)
  note fb' = fb [unfolded field_bytes_def, simplified loc, simplified]
  have tagged: "writes m (\<lambda>s (w :: 'w cstate). encode_tagged s f data ?func w) b"
    if "tagged_bytes (value_bytes sub m f) f data = Some b" for b
    unfolding encode_tagged_and_then
    by (rule writes_tagged [OF that]) (rule writes_value [OF _ sub])
  define body where "body = (\<lambda>s (w :: 'w cstate).
      if ?h = PB_HTYPE_REQUIRED then
        (if data = 0 then Some (False, oset_error s ''missing required field'', w)
         else encode_tagged s f data ?func w)
      else if ?h = PB_HTYPE_OPTIONAL then do {
        has \<leftarrow> load_has (hmem w) psize;
        if has then encode_tagged s f data ?func w else Some (True, s, w)
      }
      else if ?h = PB_HTYPE_REPEATED then do {
        count \<leftarrow> load_count (hmem w) psize;
        encode_array s f data count ?func w
      }
      else if ?h = PB_HTYPE_ONEOF then do {
        which \<leftarrow> load_count (hmem w) psize;
        if which = unat (tag f) then encode_tagged s f data ?func w else Some (True, s, w)
      }
      else Some (False, oset_error s ''invalid field type'', w))"
  have "writes m body bs"
  proof -
    consider (req) "?h = PB_HTYPE_REQUIRED" | (opt) "?h = PB_HTYPE_OPTIONAL"
      | (rep) "?h = PB_HTYPE_REPEATED" | (one) "?h = PB_HTYPE_ONEOF"
      using fb' by (auto split: if_splits)
    then show ?thesis
    proof cases
      case req
      with fb' have "data \<noteq> 0" "tagged_bytes (value_bytes sub m f) f data = Some bs"
        by (auto split: if_splits)
      with tagged [OF this(2)] req show ?thesis by (simp add: body_def)
    next
      case opt
      with fb' obtain has where has: "load_has m psize = Some has"
        "(if has then tagged_bytes (value_bytes sub m f) f data else Some []) = Some bs"
        by (auto split: if_splits bind_splits)
      have "writes m (\<lambda>s (w :: 'w cstate). if has then encode_tagged s f data ?func w else Some (True, s, w)) bs"
        using has(2) tagged writes_nothing by (cases has) auto
      then have "writes m (\<lambda>s (w :: 'w cstate). do {
          has \<leftarrow> load_has (hmem w) psize;
          if has then encode_tagged s f data ?func w else Some (True, s, w) }) bs"
        by (rule writes_read [OF load_has_mono [OF _ has(1)], rotated])
      with opt show ?thesis by (simp add: body_def)
    next
      case rep
      with fb' obtain count where count: "load_count m psize = Some count"
        "array_bytes sub m f data count = Some bs"
        by (auto split: if_splits bind_splits)
      have "writes m (\<lambda>s (w :: 'w cstate). encode_array s f data count ?func w) bs"
        by (rule writes_array [OF count(2) sub refl])
      then have "writes m (\<lambda>s (w :: 'w cstate). do {
          count \<leftarrow> load_count (hmem w) psize; encode_array s f data count ?func w }) bs"
        by (rule writes_read [OF load_count_mono [OF _ count(1)], rotated])
      with rep show ?thesis by (simp add: body_def)
    next
      case one
      with fb' obtain which where which: "load_count m psize = Some which"
        "(if which = unat (tag f) then tagged_bytes (value_bytes sub m f) f data else Some []) = Some bs"
        by (auto split: if_splits bind_splits)
      have "writes m (\<lambda>s (w :: 'w cstate).
          if which = unat (tag f) then encode_tagged s f data ?func w else Some (True, s, w)) bs"
        using which(2) tagged writes_nothing by (cases "which = unat (tag f)") auto
      then have "writes m (\<lambda>s (w :: 'w cstate). do {
          which \<leftarrow> load_count (hmem w) psize;
          if which = unat (tag f) then encode_tagged s f data ?func w else Some (True, s, w) }) bs"
        by (rule writes_read [OF load_count_mono [OF _ which(1)], rotated])
      with one show ?thesis by (simp add: body_def)
    qed
  qed
  moreover have "encode_field d env encode s f p w = body s w" if "m \<subseteq>\<^sub>m hmem w" for s and w :: "'w cstate"
    using at locate_field_mono [OF that loc] bound
    by (auto simp: encode_field_def encode_basic_field_def body_def Let_def)
  ultimately show ?thesis by (simp cong: writes_cong)
qed

section \<open>Messages\<close>

text \<open>The message loop from entry \<open>i\<close> on, step by step.\<close>

lemma iter_do_step:
  assumes "tags_ok fs" and "i < length fs"
  shows "iter_do body (iter_at fs dest i) s =
    (case body (iter_at fs dest i) s of
       None \<Rightarrow> None
     | Some (Leave r) \<Rightarrow> Some (Leave r)
     | Some (Continue s') \<Rightarrow>
         if Suc i < length fs then iter_do body (iter_at fs dest (Suc i)) s' else Some (Continue s'))"
  using iter_next_at [OF assms, of dest]
  by (simp add: iter_do_def crun.simps [of _ "(iter_at fs dest i, s)"] del: iter_at.simps
      split: option.split turn.split)

definition message_loop ::
    "nat \<Rightarrow> 'w penv \<Rightarrow> 'w message_encoder \<Rightarrow> pb_field_iter \<Rightarrow> 'w write_op" where
  "message_loop d env encode it s w = do {
     t \<leftarrow> iter_do (encode_visit d env encode) it (s, w);
     Some (case t of Continue (s, w) \<Rightarrow> (True, s, w) | Leave (s, w) \<Rightarrow> (False, s, w)) }"

lemma message_loop_step:
  assumes "tags_ok fs" and "i < length fs"
    and "PB_LTYPE (ftype (field_at fs i)) \<noteq> PB_LTYPE_EXTENSION"
  shows "message_loop d env encode (iter_at fs src i)
    = and_then (\<lambda>s w. encode_field d env encode s (field_at fs i) (pData (iter_at fs src i)) w)
        (if Suc i < length fs then message_loop d env encode (iter_at fs src (Suc i))
         else (\<lambda>s w. Some (True, s, w)))"
proof -
  have "ipos (iter_at fs src i) = field_at fs i" using iter_at_pos [OF assms(1,2)] by simp
  then show ?thesis
    using assms(3)
    by (auto simp: fun_eq_iff message_loop_def and_then_def iter_do_step [OF assms(1,2)] encode_visit_def
        simp del: iter_at.simps split: bind_splits)
qed

lemma writes_message_loop:
  assumes ok: "tags_ok fs"
    and field: "\<And>i b. i < length fs \<Longrightarrow>
       field_bytes d sub m (field_at fs i) (pData (iter_at fs src i)) = Some b \<Longrightarrow>
       writes m (\<lambda>s (w :: 'w cstate). encode_field d env encode s (field_at fs i) (pData (iter_at fs src i)) w) b"
  shows "fields_bytes (\<lambda>i. field_bytes d sub m (field_at fs i) (pData (iter_at fs src i))) i (Suc n) = Some bs \<Longrightarrow>
    i + Suc n = length fs \<Longrightarrow> writes m (message_loop d env encode (iter_at fs src i)) bs"
proof (induction n arbitrary: i bs)
  case (0 i bs)
  then have fb: "field_bytes d sub m (field_at fs i) (pData (iter_at fs src i)) = Some bs" and i: "i < length fs"
    by (auto split: bind_splits)
  have ext: "PB_LTYPE (ftype (field_at fs i)) \<noteq> PB_LTYPE_EXTENSION"
    using fb by (auto simp: field_bytes_def split: if_splits)
  have last: "\<not> Suc i < length fs" using 0(2) by simp
  from writes_and_then [OF field [OF i fb] writes_nothing] show ?case
    by (simp only: message_loop_step [OF ok i ext] if_not_P [OF last] append_Nil2)
next
  case (Suc n i bs)
  from Suc.prems(1) obtain b cs where
    fb: "field_bytes d sub m (field_at fs i) (pData (iter_at fs src i)) = Some b"
    and rest: "fields_bytes (\<lambda>i. field_bytes d sub m (field_at fs i) (pData (iter_at fs src i)))
      (Suc i) (Suc n) = Some cs" and bs: "bs = b @ cs"
    by (auto simp only: fields_bytes.simps split: bind_splits)
  have i: "i < length fs" "Suc i < length fs" using Suc.prems(2) by simp_all
  have ext: "PB_LTYPE (ftype (field_at fs i)) \<noteq> PB_LTYPE_EXTENSION"
    using fb by (auto simp: field_bytes_def split: if_splits)
  have "writes m (message_loop d env encode (iter_at fs src (Suc i))) cs"
    by (rule Suc.IH [OF rest]) (use Suc.prems(2) in simp)
  from writes_and_then [OF field [OF i(1) fb] this] show ?case
    by (simp only: bs message_loop_step [OF ok i(1) ext] if_P [OF i(2)])
qed

text \<open>The refinement: the encoder writes the bytes of the message.\<close>

theorem writes_message:
  "message_bytes d m fs src = Some bs \<Longrightarrow> writes m (\<lambda>s (w :: 'w cstate). pb_encode d env s fs src w) bs"
proof (induction d arbitrary: fs src bs)
  case 0
  then show ?case by simp
next
  case (Suc d)
  show ?case
  proof (cases "fs = []")
    case True
    with Suc.prems have "bs = []" by simp
    moreover have "pb_encode (Suc d) env s fs src w = Some (True, s, w)" for s and w :: "'w cstate"
      by (simp add: True encode_body_def pb_field_iter_begin_def field_at_def Let_def)
    ultimately show ?thesis using writes_nothing by simp
  next
    case False
    with Suc.prems have ok: "tags_ok fs" by (auto split: if_splits)
    from False obtain n where n: "length fs = Suc n" by (cases fs) auto
    have "pb_field_iter_begin fs src = (True, iter_at fs src 0)"
      using tags_ok_field_at [OF ok, of 0] False by (simp add: prod_eq_iff)
    then have enc: "pb_encode (Suc d) env s fs src w = message_loop d env (pb_encode d env) (iter_at fs src 0) s w"
      for s and w :: "'w cstate"
      by (simp add: encode_body_def message_loop_def del: iter_at.simps)
    have fb: "fields_bytes (\<lambda>i. field_bytes d (message_bytes d m) m (field_at fs i) (pData (iter_at fs src i)))
        0 (Suc n) = Some bs"
      using Suc.prems ok n by (simp del: fields_bytes.simps iter_at.simps)
    show ?thesis
      unfolding enc
      by (rule writes_message_loop [OF ok writes_field fb]) (use Suc.IH n in simp_all)
  qed
qed

end
