(* ===== verification/PbEncodeProps.thy ===== *)
theory PbEncodeProps
  imports PbEncodeRefine PbDecodeProps
begin

text \<open>
  What the encoder promises to its callers, from the refinement: the bytes of a message in a
  buffer that is large enough, a failure within the buffer where it is not, and the size
  computed without a buffer.
\<close>

lemma buffer_at_fresh:
  assumes "valid (hmem w) a n" and "region a n \<inter> dom m = {}"
  shows "buffer_at m (pb_ostream_from_buffer a n) w a"
  using assms by (simp add: buffer_at_def pb_ostream_from_buffer_def)

lemma writes_delimited_message:
  assumes "message_bytes d m fs src = Some bs" and "delimited bs = Some ds"
  shows "writes m (\<lambda>s (w :: 'w cstate). pb_encode_delimited d env s fs src w) ds"
  unfolding pb_encode_delimited_def
  by (rule writes_delimited_submessage [where encode = "pb_encode d env", OF _ assms(2)])
    (rule writes_message [OF assms(1)])

text \<open>A message of one required integer, with the value 150 at address 4096.\<close>

definition one_integer :: "pb_field list" where
  "one_integer = [Pb_field 1 (PB_ATYPE_STATIC OR PB_HTYPE_REQUIRED OR PB_LTYPE_UVARINT) 0 0 4 0 Pb_null]"

definition integer_150 :: memory where
  "integer_150 = [4096 \<mapsto> 150, 4097 \<mapsto> 0, 4098 \<mapsto> 0, 4099 \<mapsto> 0]"

definition integer_and_buffer :: "nat \<Rightarrow> unit cstate" where
  "integer_and_buffer n = \<lparr>hmem = integer_150 ++ zero_memory 8192 n, user = ()\<rparr>"

lemma varint_bytes_150: "varint_bytes 150 = [0x96, 0x01]"
  using varint_bytes_small [of 1] by (simp add: varint_bytes.simps [of 150])

lemma load_integer_150: "load_bytes integer_150 4096 4 = Some [150, 0, 0, 0]"
proof -
  have "(4::nat) = Suc (Suc (Suc (Suc 0)))" by simp
  then show ?thesis by (simp only: load_bytes.simps) (simp add: integer_150_def)
qed

lemma one_integer_bytes: "message_bytes 1 integer_150 one_integer 4096 = Some [0x08, 0x96, 0x01]"
proof -
  define f where "f = Pb_field 1 1 0 0 4 0 Pb_null"
  have fs: "one_integer = [f]" by (simp add: one_integer_def f_def)
  have ok: "tags_ok [f]" by (simp add: tags_ok_def f_def)
  have load: "load_unsigned_field f 4096 integer_150 = Some (Some 150)"
    by (simp add: load_unsigned_field_def load_uint_def f_def load_integer_150)
  have "field_bytes 0 sub integer_150 f 4096 = Some [0x08, 0x96, 0x01]" for sub
    using load varint_bytes_small [of 8]
    by (simp add: f_def field_bytes_def locate_field_def PB_ATYPE_def PB_HTYPE_def PB_LTYPE_def
        tagged_bytes_def field_wiretype_def value_bytes_def tag_bytes_def varint_bytes_150)
  then show ?thesis
    using ok by (simp add: fs field_at_def pb_field_iter_begin_def f_def)
qed

lemma integer_and_buffer_apart:
  "integer_150 \<subseteq>\<^sub>m hmem (integer_and_buffer n)" "valid (hmem (integer_and_buffer n)) 8192 n"
  "region 8192 n \<inter> dom integer_150 = {}"
  by (auto simp: integer_and_buffer_def integer_150_def zero_memory_def map_le_def valid_def region_def
      map_add_def split: option.splits)

section \<open>Properties\<close>

text \<open>
  C7. Encoding into a buffer. A message whose bytes the specification gives is encoded to
  exactly these bytes at the start of a buffer that can hold them: the stream counts them and
  points behind them, and no other memory changes. A smaller buffer makes the encoder fail,
  and it has written at most the buffer.
\<close>

theorem encode_into_buffer:
  assumes "message_bytes d m fs src = Some bs" and "m \<subseteq>\<^sub>m hmem w"
    and "valid (hmem w) a n" and "region a n \<inter> dom m = {}" and "n + length bs < 2 ^ 64"
  shows "if length bs \<le> n
    then pb_encode d env (pb_ostream_from_buffer a n) fs src w
      = Some (True, \<lparr>sink = Buffer_out (a + int (length bs)), max_size = n, bytes_written = length bs, oerrmsg = None\<rparr>,
              w\<lparr>hmem := overwrite (hmem w) a bs\<rparr>)
    else \<exists>s' w'. pb_encode d env (pb_ostream_from_buffer a n) fs src w = Some (False, s', w') \<and>
           same_outside (region a n) (hmem w) (hmem w')"
  using writes_message [OF assms(1), of env] buffer_at_fresh [OF assms(3,4)] assms(2,5)
  unfolding writes_def writes_buffer_def
  by (fastforce simp: pb_ostream_from_buffer_def written_def)

theorem encode_into_buffer_witness:
  "pb_encode 1 skip_env (pb_ostream_from_buffer 8192 8) one_integer 4096 (integer_and_buffer 8)
     = Some (True, \<lparr>sink = Buffer_out 8195, max_size = 8, bytes_written = 3, oerrmsg = None\<rparr>,
         integer_and_buffer 8\<lparr>hmem := overwrite (hmem (integer_and_buffer 8)) 8192 [0x08, 0x96, 0x01]\<rparr>)"
  using encode_into_buffer [OF one_integer_bytes integer_and_buffer_apart, where n = 8 and env = skip_env] by simp

text \<open>
  C8. Sizing agrees with encoding: the size that \<open>pb_get_encoded_size\<close> computes is the
  number of bytes that \<open>pb_encode\<close> puts into a buffer, and it leaves the state alone.
\<close>

theorem encoded_size_exact:
  assumes "message_bytes d m fs src = Some bs" and "m \<subseteq>\<^sub>m hmem w" and "length bs < 2 ^ 64"
  shows "pb_get_encoded_size d env fs src w = Some (Some (length bs), w)"
  using writes_sizingD [OF writes_message [OF assms(1), of env] assms(2), of PB_OSTREAM_SIZING] assms(3)
  by (simp add: pb_get_encoded_size_def PB_OSTREAM_SIZING_def)

theorem encoded_size_exact_witness:
  "pb_get_encoded_size 1 skip_env one_integer 4096 (integer_and_buffer 0) = Some (Some 3, integer_and_buffer 0)"
  using encoded_size_exact [OF one_integer_bytes integer_and_buffer_apart(1), of skip_env 0] by simp

text \<open>
  C9. The delimited form is the length of the message as a varint and then the message, again
  exactly, or a failure within the buffer.
\<close>

theorem encode_delimited_into_buffer:
  assumes "message_bytes d m fs src = Some bs" and "m \<subseteq>\<^sub>m hmem w" and "length bs < 2 ^ 64"
    and "valid (hmem w) a n" and "region a n \<inter> dom m = {}"
    and "n + length (varint_bytes (length bs) @ bs) < 2 ^ 64"
  shows "if length (varint_bytes (length bs) @ bs) \<le> n
    then \<exists>s'. pb_encode_delimited d env (pb_ostream_from_buffer a n) fs src w
      = Some (True, s', w\<lparr>hmem := overwrite (hmem w) a (varint_bytes (length bs) @ bs)\<rparr>) \<and>
        bytes_written s' = length (varint_bytes (length bs) @ bs)
    else \<exists>s' w'. pb_encode_delimited d env (pb_ostream_from_buffer a n) fs src w = Some (False, s', w') \<and>
           same_outside (region a n) (hmem w) (hmem w')"
proof -
  define ds where "ds = varint_bytes (length bs) @ bs"
  have "delimited bs = Some ds" using assms(3) by (simp add: delimited_def ds_def)
  from writes_delimited_message [OF assms(1) this, of env] buffer_at_fresh [OF assms(4,5)] assms(2,6)
  show ?thesis unfolding writes_def writes_buffer_def ds_def [symmetric]
    by (fastforce simp: pb_ostream_from_buffer_def written_def)
qed

theorem encode_delimited_into_buffer_witness:
  "\<exists>s' w'. pb_encode_delimited 1 skip_env (pb_ostream_from_buffer 8192 2) one_integer 4096 (integer_and_buffer 2)
      = Some (False, s', w') \<and>
     same_outside (region 8192 2) (hmem (integer_and_buffer 2)) (hmem w')"
  using encode_delimited_into_buffer [OF one_integer_bytes integer_and_buffer_apart(1) _ integer_and_buffer_apart(2,3),
      where n = 2 and env = skip_env]
  by (simp add: varint_bytes_small)

end
