(* ===== verification/LdbCoding.thy ===== *)
theory LdbCoding
  imports Varint
begin

text \<open>
  leveldb's encoding of integers and slices (\<open>util/coding.h\<close>, \<open>util/coding.cc\<close>).

  A \<open>Slice\<close>, and a pointer with the limit it may run to, are the bytes between the two ends;
  so a function that returns a pointer into such a range returns the rest of the list, and a
  \<open>std::string\<close> that is appended to is the list before and after. \<open>None\<close> is a null pointer
  (or \<open>false\<close>).
\<close>

unbundle bit_operations_syntax

type_synonym slice = "byte list"

section \<open>Fixed-length numbers\<close>

text \<open>
  \<open>port::kLittleEndian\<close> selects one of two ways, of which the first copies the representation
  of the number in memory. Both are defined for every value of the flag, which is true on the
  platforms of the application.
\<close>

definition kLittleEndian :: bool where
  "kLittleEndian = True"

definition EncodeFixed32_port :: "bool \<Rightarrow> u32 \<Rightarrow> byte list" where
  "EncodeFixed32_port little v =
     (if little then le_rep 4 (unat v)
      else [ucast (v AND 0xff), ucast (drop_bit 8 v AND 0xff),
            ucast (drop_bit 16 v AND 0xff), ucast (drop_bit 24 v AND 0xff)])"

definition EncodeFixed64_port :: "bool \<Rightarrow> u64 \<Rightarrow> byte list" where
  "EncodeFixed64_port little v =
     (if little then le_rep 8 (unat v)
      else [ucast (v AND 0xff), ucast (drop_bit 8 v AND 0xff),
            ucast (drop_bit 16 v AND 0xff), ucast (drop_bit 24 v AND 0xff),
            ucast (drop_bit 32 v AND 0xff), ucast (drop_bit 40 v AND 0xff),
            ucast (drop_bit 48 v AND 0xff), ucast (drop_bit 56 v AND 0xff)])"

definition EncodeFixed32 :: "u32 \<Rightarrow> byte list" where
  "EncodeFixed32 = EncodeFixed32_port kLittleEndian"

definition EncodeFixed64 :: "u64 \<Rightarrow> byte list" where
  "EncodeFixed64 = EncodeFixed64_port kLittleEndian"

definition PutFixed32 :: "byte list \<Rightarrow> u32 \<Rightarrow> byte list" where
  "PutFixed32 dst v = dst @ EncodeFixed32 v"

definition PutFixed64 :: "byte list \<Rightarrow> u64 \<Rightarrow> byte list" where
  "PutFixed64 dst v = dst @ EncodeFixed64 v"

text \<open>
  The decoders read four or eight bytes from a pointer and do not check that they are there,
  which the callers have to do; the list must be long enough.
\<close>

definition DecodeFixed32_port :: "bool \<Rightarrow> byte list \<Rightarrow> u32" where
  "DecodeFixed32_port little p =
     (if little then word_of_nat (le_val (take 4 p))
      else ucast (p ! 0) OR push_bit 8 (ucast (p ! 1)) OR push_bit 16 (ucast (p ! 2))
             OR push_bit 24 (ucast (p ! 3)))"

definition DecodeFixed32 :: "byte list \<Rightarrow> u32" where
  "DecodeFixed32 = DecodeFixed32_port kLittleEndian"

definition DecodeFixed64_port :: "bool \<Rightarrow> byte list \<Rightarrow> u64" where
  "DecodeFixed64_port little p =
     (if little then word_of_nat (le_val (take 8 p))
      else push_bit 32 (ucast (DecodeFixed32_port little (drop 4 p))) OR ucast (DecodeFixed32_port little p))"

definition DecodeFixed64 :: "byte list \<Rightarrow> u64" where
  "DecodeFixed64 = DecodeFixed64_port kLittleEndian"

section \<open>Variable-length numbers\<close>

definition EncodeVarint32 :: "u32 \<Rightarrow> byte list" where
  "EncodeVarint32 v =
     (let B = 128 in
      if v < push_bit 7 1 then [ucast v]
      else if v < push_bit 14 1 then [ucast (v OR B), ucast (drop_bit 7 v)]
      else if v < push_bit 21 1 then
        [ucast (v OR B), ucast (drop_bit 7 v OR B), ucast (drop_bit 14 v)]
      else if v < push_bit 28 1 then
        [ucast (v OR B), ucast (drop_bit 7 v OR B), ucast (drop_bit 14 v OR B), ucast (drop_bit 21 v)]
      else
        [ucast (v OR B), ucast (drop_bit 7 v OR B), ucast (drop_bit 14 v OR B),
         ucast (drop_bit 21 v OR B), ucast (drop_bit 28 v)])"

definition PutVarint32 :: "byte list \<Rightarrow> u32 \<Rightarrow> byte list" where
  "PutVarint32 dst v = dst @ EncodeVarint32 v"

lemma drop_bit_7_less: "\<not> v < 128 \<Longrightarrow> unat (drop_bit 7 v) < unat v" for v :: u64
  by (simp add: drop_bit_eq_div unat_div word_less_nat_alt not_less)

function EncodeVarint64 :: "u64 \<Rightarrow> byte list" where
  "EncodeVarint64 v =
     (if v < 128 then [ucast v]
      else ucast ((v AND (128 - 1)) OR 128) # EncodeVarint64 (drop_bit 7 v))"
  by auto
termination by (relation "measure unat") (auto intro: drop_bit_7_less)

definition PutVarint64 :: "byte list \<Rightarrow> u64 \<Rightarrow> byte list" where
  "PutVarint64 dst v = dst @ EncodeVarint64 v"

text \<open>The size of a slice, a \<open>size_t\<close>, is cut to 32 bits.\<close>

definition PutLengthPrefixedSlice :: "byte list \<Rightarrow> slice \<Rightarrow> byte list" where
  "PutLengthPrefixedSlice dst value = PutVarint32 dst (word_of_nat (length value)) @ value"

function VarintLength :: "u64 \<Rightarrow> nat" where
  "VarintLength v = (if v < 128 then 1 else Suc (VarintLength (drop_bit 7 v)))"
  by auto
termination by (relation "measure unat") (auto intro: drop_bit_7_less)

declare EncodeVarint64.simps [simp del] VarintLength.simps [simp del]

text \<open>
  The loop of the two decoders: \<open>last_shift\<close> is the last shift, 28 or 63, and the word type that of
  the result.
\<close>

fun get_varint_loop :: "nat \<Rightarrow> nat \<Rightarrow> 'a::len word \<Rightarrow> byte list \<Rightarrow> ('a word \<times> byte list) option" where
  "get_varint_loop last_shift shift result [] = None"
| "get_varint_loop last_shift shift result (b # p) =
     (if shift \<le> last_shift then
        let byte = ucast b in
        if byte AND 128 \<noteq> 0 then get_varint_loop last_shift (shift + 7) (result OR push_bit shift (byte AND 127)) p
        else Some (result OR push_bit shift byte, p)
      else None)"

definition GetVarint32PtrFallback :: "byte list \<Rightarrow> (u32 \<times> byte list) option" where
  "GetVarint32PtrFallback p = get_varint_loop 28 0 0 p"

definition GetVarint32Ptr :: "byte list \<Rightarrow> (u32 \<times> byte list) option" where
  "GetVarint32Ptr p =
     (if p \<noteq> [] \<and> (ucast (hd p) :: u32) AND 128 = 0 then Some (ucast (hd p), tl p)
      else GetVarint32PtrFallback p)"

definition GetVarint64Ptr :: "byte list \<Rightarrow> (u64 \<times> byte list) option" where
  "GetVarint64Ptr p = get_varint_loop 63 0 0 p"

text \<open>The functions on slices leave the slice behind the number, or as it was.\<close>

definition GetVarint32 :: "slice \<Rightarrow> u32 option \<times> slice" where
  "GetVarint32 input =
     (case GetVarint32Ptr input of None \<Rightarrow> (None, input) | Some (v, q) \<Rightarrow> (Some v, q))"

definition GetVarint64 :: "slice \<Rightarrow> u64 option \<times> slice" where
  "GetVarint64 input =
     (case GetVarint64Ptr input of None \<Rightarrow> (None, input) | Some (v, q) \<Rightarrow> (Some v, q))"

definition GetLengthPrefixedSlicePtr :: "byte list \<Rightarrow> (slice \<times> byte list) option" where
  "GetLengthPrefixedSlicePtr p =
     (case GetVarint32Ptr p of None \<Rightarrow> None
      | Some (len, p) \<Rightarrow> if length p < unat len then None else Some (take (unat len) p, drop (unat len) p))"

definition GetLengthPrefixedSlice :: "slice \<Rightarrow> slice option \<times> slice" where
  "GetLengthPrefixedSlice input =
     (case GetVarint32 input of
        (None, input) \<Rightarrow> (None, input)
      | (Some len, input) \<Rightarrow>
          if unat len \<le> length input then (Some (take (unat len) input), drop (unat len) input)
          else (None, input))"

section \<open>The encoders write the reference encoding\<close>

lemma and_127: "x AND 127 = take_bit 7 x" for x :: "'a::len word"
  by (simp add: take_bit_eq_mask mask_eq_decr_exp)

lemma bit_128: "bit (128 :: 'a::len word) n \<longleftrightarrow> n = 7 \<and> 7 < LENGTH('a)"
proof -
  have "(128 :: 'a word) = push_bit 7 1" by simp
  then show ?thesis by (auto simp only: bit_push_bit_iff bit_1_iff) (auto dest: bit_imp_le_length)
qed

lemma len8: "LENGTH(8) = 8"
  by simp

lemma ucast_or_128: "ucast (x OR 128 :: 'a::len word) = (word_of_nat (unat x mod 128 + 128) :: byte)"
  if "8 \<le> LENGTH('a)" for x :: "'a::len word"
proof -
  have "ucast (x OR 128) = (ucast x OR 128 :: byte)"
    by (rule bit_word_eqI) (use that in \<open>auto simp: bit_simps\<close>)
  also have "\<dots> = ucast x AND 127 OR 128"
    unfolding and_127 by (rule bit_word_eqI) (use bit_imp_le_length in \<open>fastforce simp only: bit_or_iff bit_take_bit_iff bit_128 len8\<close>)
  also have "\<dots> = (ucast x AND 127) + 128"
    unfolding and_127 by (rule disjunctive_add [symmetric]) (auto simp only: bit_take_bit_iff bit_128)
  also have "(ucast x AND 127 :: byte) = word_of_nat (unat x mod 128)"
  proof -
    have "(ucast x AND 127 :: byte) = take_bit 7 (ucast x)" by (rule and_127)
    also have "\<dots> = ucast (take_bit 7 x)"
      by (rule bit_word_eqI) (use that in \<open>auto simp: bit_simps\<close>)
    also have "\<dots> = word_of_nat (unat (take_bit 7 x))" by simp
    also have "unat (take_bit 7 x) = unat x mod 128" by (simp add: unsigned_take_bit_eq [of 7 x] flip: take_bit_eq_mod [of 7, simplified])
    finally show ?thesis .
  qed
  finally show ?thesis by simp
qed

lemma varint_bytes_step:
  "\<not> n < 128 \<Longrightarrow> varint_bytes n = word_of_nat (n mod 128 + 128) # varint_bytes (n div 128)"
  by (simp add: varint_bytes.simps [of n])

lemma EncodeVarint64_bytes: "EncodeVarint64 v = varint_bytes (unat v)"
proof (induction v rule: EncodeVarint64.induct)
  case (1 v)
  show ?case
  proof (cases "v < 128")
    case True
    then show ?thesis
      by (simp add: EncodeVarint64.simps [of v] varint_bytes_small word_less_nat_alt)
  next
    case False
    have "((v AND (128 - 1)) OR 128 :: u64) = v AND 127 OR 128" by simp
    moreover have "(ucast (v AND 127 OR 128) :: byte) = word_of_nat (unat v mod 128 + 128)"
      using ucast_or_128 [of "v AND 127"] by (simp add: and_127 unsigned_take_bit_eq take_bit_eq_mod unat_mod)
    moreover have "unat (drop_bit 7 v) = unat v div 128" by (simp add: drop_bit_eq_div unat_div)
    moreover have "\<not> unat v < 128" using False by (simp add: word_less_nat_alt)
    ultimately show ?thesis
      using 1 False by (simp add: EncodeVarint64.simps [of v] varint_bytes_step)
  qed
qed

lemma unat_drop_bit_div: "unat (drop_bit n x) = unat x div 2 ^ n" for x :: "'a::len word"
proof -
  have "unat x < 2 ^ LENGTH('a)" by (rule unsigned_less)
  then have "take_bit LENGTH('a) (unat x) = unat x" by (rule take_bit_nat_eq_self)
  then show ?thesis by (simp only: drop_bit_eq_div [symmetric] unsigned_drop_bit_eq)
qed

lemma EncodeVarint32_bytes: "EncodeVarint32 v = varint_bytes (unat v)"
proof -
  have d: "unat (drop_bit 7 v) = unat v div 128" "unat (drop_bit 14 v) = unat v div 128 div 128"
    "unat (drop_bit 21 v) = unat v div 128 div 128 div 128"
    "unat (drop_bit 28 v) = unat v div 128 div 128 div 128 div 128"
    by (simp_all add: unat_drop_bit_div div_mult2_eq [symmetric])
  have o: "ucast (drop_bit n v OR 128) = (word_of_nat (unat (drop_bit n v) mod 128 + 128) :: byte)" for n
    by (rule ucast_or_128) simp
  have z: "ucast (v OR 128) = (word_of_nat (unat v mod 128 + 128) :: byte)"
    by (rule ucast_or_128) simp
  have u: "ucast (drop_bit n v) = (word_of_nat (unat (drop_bit n v)) :: byte)" for n by simp
  have w: "ucast v = (word_of_nat (unat v) :: byte)" by simp
  have le: "v < 128 \<longleftrightarrow> unat v < 128" "v < 16384 \<longleftrightarrow> unat v div 128 < 128"
    "v < 2097152 \<longleftrightarrow> unat v div 128 div 128 < 128"
    "v < 268435456 \<longleftrightarrow> unat v div 128 div 128 div 128 < 128"
    by (simp_all add: word_less_nat_alt div_mult2_eq [symmetric] div_less_iff_less_mult)
  have b: "unat v div 128 div 128 div 128 div 128 < 128"
  proof -
    have "unat v < 2 ^ LENGTH(32)" by (rule unsigned_less)
    then show ?thesis by (simp add: div_mult2_eq [symmetric] div_less_iff_less_mult)
  qed
  show ?thesis
    unfolding EncodeVarint32_def Let_def o z u w d
    using b le by (simp add: varint_bytes_small varint_bytes_step)
qed

section \<open>The decoders read the reference encoding\<close>

lemma ucast_and_127: "ucast b AND 127 = (ucast (b AND 0x7F) :: 'a::len word)" for b :: byte
  by (rule bit_word_eqI) (simp only: and_127 bit_and_iff bit_take_bit_iff bit_unsigned_iff, auto)

lemma ucast_and_128: "(ucast b AND 128 :: 'a::len word) = 0 \<longleftrightarrow> unat b < 128"
  if "8 \<le> LENGTH('a)" for b :: byte
proof -
  have "(ucast b AND 128 :: 'a word) = 0 \<longleftrightarrow> \<not> bit (ucast b :: 'a word) 7"
    using bit_iff_and_push_bit_not_eq_0 [of "ucast b :: 'a word" 7] by simp
  also have "bit (ucast b :: 'a word) 7 \<longleftrightarrow> bit b 7" using that by (simp add: bit_unsigned_iff)
  also have "\<not> bit b 7 \<longleftrightarrow> b AND 0x80 = 0"
    using bit_iff_and_push_bit_not_eq_0 [of b 7] by simp
  finally show ?thesis using and_80_iff by simp
qed

lemma push_bit_word_of_nat: "push_bit n (word_of_nat m :: 'a::len word) = word_of_nat (2 ^ n * m)"
  by (simp add: push_bit_eq_mult mult.commute)

lemma get_varint_loop_parse:
  fixes r :: "'a::len word"
  assumes "8 \<le> LENGTH('a)" and "take_bit (7 * j) r = r" and "last_shift + 7 = 7 * (j + k)"
  shows "get_varint_loop last_shift (7 * j) r p
    = map_option (\<lambda>(v, rest). (r + word_of_nat (2 ^ (7 * j) * v), rest)) (parse_varint k p)"
  using assms(2,3)
proof (induction p arbitrary: j k r)
  case Nil
  then show ?case by (cases k) simp_all
next
  case (Cons b p)
  show ?case
  proof (cases k)
    case 0
    with Cons.prems show ?thesis by simp
  next
    case (Suc m)
    let ?x = "ucast (b AND 0x7F) :: 'a word"
    have val: "r OR push_bit (7 * j) ?x = r + word_of_nat (2 ^ (7 * j) * (unat b mod 128))"
      unfolding or_push_plus [OF Cons.prems(1)] by (simp only: ucast_and_7F push_bit_word_of_nat)
    show ?thesis
    proof (cases "unat b < 128")
      case True
      then have "(ucast b :: 'a word) = ?x" by (simp only: ucast_and_7F) simp
      with True val Suc Cons.prems(2) ucast_and_128 [OF assms(1), of b]
      show ?thesis by simp
    next
      case False
      define r' where "r' = r OR push_bit (7 * j) ?x"
      have t: "take_bit (7 * Suc j) r' = r'"
        using take_bit_or_push [OF Cons.prems(1), of b] by (simp add: r'_def add.commute)
      have "last_shift + 7 = 7 * (Suc j + m)" using Cons.prems(2) Suc by simp
      from Cons.IH [OF t this]
      have "get_varint_loop last_shift (7 * Suc j) r' p
        = map_option (\<lambda>(v, rest). (r' + word_of_nat (2 ^ (7 * Suc j) * v), rest)) (parse_varint m p)" .
      moreover have "r + word_of_nat (2 ^ (7 * j) * (unat b mod 128)) + word_of_nat (2 ^ (7 * Suc j) * v)
          = r + (word_of_nat (2 ^ (7 * j) * (unat b - 128 + 128 * v)) :: 'a word)" for v
      proof -
        have "unat b mod 128 = unat b - 128" using False unat_byte [of b] by (simp add: mod_if)
        then have "2 ^ (7 * j) * (unat b mod 128) + 2 ^ (7 * Suc j) * v = 2 ^ (7 * j) * (unat b - 128 + 128 * v)"
          by (simp add: power_add algebra_simps)
        then show ?thesis by (simp only: add.assoc flip: of_nat_add)
      qed
      moreover have "get_varint_loop last_shift (7 * j) r (b # p)
          = get_varint_loop last_shift (7 * Suc j) r' p"
        using False Suc Cons.prems(2) ucast_and_128 [OF assms(1), of b]
        by (simp add: ucast_and_127 add.commute r'_def)
      ultimately show ?thesis
        using False Suc by (cases "parse_varint m p") (auto simp: val r'_def)
    qed
  qed
qed

lemma GetVarint32PtrFallback_parse:
  "GetVarint32PtrFallback p = map_option (\<lambda>(v, rest). (word_of_nat v, rest)) (parse_varint 5 p)"
  using get_varint_loop_parse [of 0 "0 :: u32" 28 5 p] by (simp add: GetVarint32PtrFallback_def)

lemma GetVarint64Ptr_parse:
  "GetVarint64Ptr p = map_option (\<lambda>(v, rest). (word_of_nat v, rest)) (parse_varint 10 p)"
  using get_varint_loop_parse [of 0 "0 :: u64" 63 10 p] by (simp add: GetVarint64Ptr_def)

text \<open>The inlined fast path for one byte changes nothing.\<close>

lemma GetVarint32Ptr_parse:
  "GetVarint32Ptr p = map_option (\<lambda>(v, rest). (word_of_nat v, rest)) (parse_varint 5 p)"
proof (cases "p \<noteq> [] \<and> (ucast (hd p) :: u32) AND 128 = 0")
  case True
  then obtain b q where "p = b # q" "unat b < 128"
    using ucast_and_128 [where 'a = 32] by (cases p) auto
  moreover have "(5::nat) = Suc 4" by simp
  ultimately show ?thesis using True by (simp only: parse_varint.simps) (simp add: GetVarint32Ptr_def)
next
  case False
  then show ?thesis unfolding GetVarint32Ptr_def GetVarint32PtrFallback_parse by (simp only: if_False)
qed

lemma parse_varint_32: "parse_varint 5 (varint_bytes (unat (v :: u32)) @ rest) = Some (unat v, rest)"
proof -
  have "unat v < 2 ^ LENGTH(32)" by (rule unsigned_less)
  then have "unat v < 128 ^ Suc 4" by simp
  from parse_varint_bytes [OF this, of rest] show ?thesis by simp
qed

lemma parse_varint_64: "parse_varint 10 (varint_bytes (unat (v :: u64)) @ rest) = Some (unat v, rest)"
proof -
  have "unat v < 2 ^ LENGTH(64)" by (rule unsigned_less)
  then have "unat v < 128 ^ Suc 9" by simp
  from parse_varint_bytes [OF this, of rest] show ?thesis by simp
qed

named_theorems coding

lemma GetVarint32_Encode [coding]: "GetVarint32 (EncodeVarint32 v @ rest) = (Some v, rest)"
  by (simp add: GetVarint32_def GetVarint32Ptr_parse EncodeVarint32_bytes parse_varint_32)

lemma GetVarint64_Encode [coding]: "GetVarint64 (EncodeVarint64 v @ rest) = (Some v, rest)"
  by (simp add: GetVarint64_def GetVarint64Ptr_parse EncodeVarint64_bytes parse_varint_64)

lemma GetVarint32Ptr_Encode [coding]: "GetVarint32Ptr (EncodeVarint32 v @ rest) = Some (v, rest)"
  by (simp add: GetVarint32Ptr_parse EncodeVarint32_bytes parse_varint_32)

lemma unat_word_of_nat_length: "length value < 2 ^ 32 \<Longrightarrow> unat (word_of_nat (length value) :: u32) = length value"
  by (simp only: unat_of_nat) simp

lemma GetLengthPrefixedSlice_Put [coding]:
  assumes "length value < 2 ^ 32"
  shows "GetLengthPrefixedSlice (PutLengthPrefixedSlice [] value @ rest) = (Some value, rest)"
  using GetVarint32_Encode [of "word_of_nat (length value)" "value @ rest"] unat_word_of_nat_length [OF assms]
  by (simp add: GetLengthPrefixedSlice_def PutLengthPrefixedSlice_def PutVarint32_def)

section \<open>Fixed-length numbers\<close>

lemma word_le_val_32: "word_of_nat (le_val (le_rep 4 (unat v))) = v" for v :: u32
proof -
  have "unat v < 2 ^ LENGTH(32)" by (rule unsigned_less)
  then show ?thesis by (simp add: le_val_le_rep)
qed

lemma word_le_val_64: "word_of_nat (le_val (le_rep 8 (unat v))) = v" for v :: u64
proof -
  have "unat v < 2 ^ LENGTH(64)" by (rule unsigned_less)
  then show ?thesis by (simp add: le_val_le_rep)
qed

lemma EncodeFixed32_length [simp]: "length (EncodeFixed32 v) = 4"
  by (simp add: EncodeFixed32_def EncodeFixed32_port_def kLittleEndian_def)

lemma EncodeFixed64_length [simp]: "length (EncodeFixed64 v) = 8"
  by (simp add: EncodeFixed64_def EncodeFixed64_port_def kLittleEndian_def)

lemma DecodeFixed32_Encode [coding]: "DecodeFixed32 (EncodeFixed32 v @ rest) = v"
  by (simp add: DecodeFixed32_def EncodeFixed32_def DecodeFixed32_port_def EncodeFixed32_port_def kLittleEndian_def word_le_val_32)

lemma DecodeFixed64_Encode [coding]: "DecodeFixed64 (EncodeFixed64 v @ rest) = v"
  by (simp add: DecodeFixed64_def EncodeFixed64_def DecodeFixed64_port_def EncodeFixed64_port_def kLittleEndian_def word_le_val_64)

text \<open>Tables of fixed-length numbers.\<close>

lemma unat_u32 [coding]: "n < 2 ^ 32 \<Longrightarrow> unat (word_of_nat n :: u32) = n"
  by (simp only: unat_of_nat) simp

lemma unat_u64 [coding]: "n < 2 ^ 64 \<Longrightarrow> unat (word_of_nat n :: u64) = n"
  by (simp only: unat_of_nat) simp

lemma length_fixed32_table [simp]: "length (concat (map EncodeFixed32 ws)) = 4 * length ws"
  by (induction ws) simp_all

lemma fixed32_table_nth:
  "i < length ws \<Longrightarrow> DecodeFixed32 (drop (i * 4) (concat (map EncodeFixed32 ws) @ rest)) = ws ! i"
proof (induction ws arbitrary: i)
  case (Cons w ws)
  then show ?case by (cases i) (simp_all add: DecodeFixed32_Encode)
qed simp

lemma foldl_PutFixed32: "foldl PutFixed32 dst ws = dst @ concat (map EncodeFixed32 ws)"
  by (induction ws arbitrary: dst) (simp_all add: PutFixed32_def)

section \<open>The portable code of the fixed-length numbers\<close>

lemma VarintLength_Encode: "VarintLength v = length (EncodeVarint64 v)"
proof (induction v rule: EncodeVarint64.induct)
  case (1 v)
  then show ?case by (cases "v < 128") (simp_all add: VarintLength.simps [of v] EncodeVarint64.simps [of v])
qed
lemma and_255: "x AND 0xff = take_bit 8 x" for x :: "'a::len word"
  by (simp add: take_bit_eq_mask mask_eq_decr_exp)

lemma ucast_take_8: "(ucast (take_bit 8 x) :: byte) = ucast x" for x :: "'a::len word"
  by (rule bit_word_eqI) (auto simp: bit_take_bit_iff bit_unsigned_iff)

lemma byte_of_drop: "(ucast (drop_bit n v AND 0xff) :: byte) = word_of_nat (unat v div 2 ^ n)" for v :: "'a::len word"
proof -
  have "(ucast (drop_bit n v) :: byte) = word_of_nat (unat (drop_bit n v))" by simp
  then show ?thesis by (simp only: and_255 ucast_take_8 unat_drop_bit_div)
qed

lemma byte_of_low: "(ucast (v AND 0xff) :: byte) = word_of_nat (unat v)" for v :: "'a::len word"
  using byte_of_drop [of 0 v] by simp

lemma le_rep_4: "le_rep 4 n = [word_of_nat n, word_of_nat (n div 2 ^ 8), word_of_nat (n div 2 ^ 16), word_of_nat (n div 2 ^ 24)]"
proof -
  have "(4 :: nat) = Suc (Suc (Suc (Suc 0)))" by simp
  then show ?thesis by (simp only: le_rep.simps) (simp add: div_mult2_eq [symmetric])
qed

lemma le_rep_8: "le_rep 8 n = [word_of_nat n, word_of_nat (n div 2 ^ 8), word_of_nat (n div 2 ^ 16), word_of_nat (n div 2 ^ 24),
   word_of_nat (n div 2 ^ 32), word_of_nat (n div 2 ^ 40), word_of_nat (n div 2 ^ 48), word_of_nat (n div 2 ^ 56)]"
proof -
  have "(8 :: nat) = Suc (Suc (Suc (Suc (Suc (Suc (Suc (Suc 0)))))))" by simp
  then show ?thesis by (simp only: le_rep.simps) (simp add: div_mult2_eq [symmetric])
qed

lemma EncodeFixed32_port_neutral: "EncodeFixed32_port True v = EncodeFixed32_port False v"
  unfolding EncodeFixed32_port_def le_rep_4 byte_of_drop unfolding byte_of_low by simp

lemma EncodeFixed64_port_neutral: "EncodeFixed64_port True v = EncodeFixed64_port False v"
  unfolding EncodeFixed64_port_def le_rep_8 byte_of_drop unfolding byte_of_low by simp

lemma word_of_byte: "ucast (ucast (drop_bit n v AND 0xff) :: byte) = take_bit 8 (drop_bit n v)" for v :: "'a::len word"
  unfolding and_255 by (rule bit_word_eqI) (auto simp: bit_take_bit_iff bit_unsigned_iff)

lemma word_of_low_byte: "ucast (ucast (v AND 0xff) :: byte) = take_bit 8 v" for v :: "'a::len word"
  using word_of_byte [of 0 v] by simp

lemma or_of_bytes: "take_bit 8 v OR push_bit 8 (take_bit 8 (drop_bit 8 v)) OR push_bit 16 (take_bit 8 (drop_bit 16 v))
    OR push_bit 24 (take_bit 8 (drop_bit 24 v)) = take_bit 32 v" for v :: "'a::len word"
proof (rule bit_word_eqI)
  fix k assume k: "k < LENGTH('a)"
  consider "k < 8" | "8 \<le> k" "k < 16" | "16 \<le> k" "k < 24" | "24 \<le> k" "k < 32" | "32 \<le> k" by linarith
  then show "bit (take_bit 8 v OR push_bit 8 (take_bit 8 (drop_bit 8 v)) OR push_bit 16 (take_bit 8 (drop_bit 16 v))
    OR push_bit 24 (take_bit 8 (drop_bit 24 v))) k = bit (take_bit 32 v) k"
    by cases (use k in \<open>auto simp: bit_or_iff bit_take_bit_iff bit_push_bit_iff bit_drop_bit_eq\<close>)
qed

lemma DecodeFixed32_bytes: "DecodeFixed32_port False (a # b # c # d # rest)
    = ucast a OR push_bit 8 (ucast b) OR push_bit 16 (ucast c) OR push_bit 24 (ucast d)"
  by (simp add: DecodeFixed32_port_def numeral_eq_Suc)

lemma DecodeFixed32_portable: "DecodeFixed32_port False (EncodeFixed32_port False v @ rest) = v"
proof -
  have "take_bit 32 v = v" by (rule bit_word_eqI) (simp add: bit_take_bit_iff)
  then show ?thesis
    unfolding EncodeFixed32_port_def if_False append_Cons append_Nil DecodeFixed32_bytes word_of_byte unfolding word_of_low_byte or_of_bytes by simp
qed

lemma u32_of_byte: "(ucast (ucast (drop_bit n w AND 0xff) :: byte) :: u32) = take_bit 8 (drop_bit n (ucast w))" if "n \<le> 24" for w :: u64
  unfolding and_255
  by (rule bit_word_eqI) (use that in \<open>auto simp: bit_take_bit_iff bit_unsigned_iff bit_drop_bit_eq\<close>)

lemma u32_of_low_byte: "(ucast (ucast (w AND 0xff) :: byte) :: u32) = take_bit 8 (ucast w)" for w :: u64
  using u32_of_byte [of 0 w] by simp

lemma DecodeFixed64_portable: "DecodeFixed64_port False (EncodeFixed64_port False w @ rest) = w"
proof -
  let ?h = "drop_bit 32 w"
  have t: "take_bit 32 x = x" for x :: u32 by (rule bit_word_eqI) (simp add: bit_take_bit_iff)
  have dec: "DecodeFixed32_port False (ucast (x AND 0xff) # ucast (drop_bit 8 x AND 0xff) # ucast (drop_bit 16 x AND 0xff)
      # ucast (drop_bit 24 x AND 0xff) # r) = ucast x" for x :: u64 and r
  proof -
    have "(ucast (ucast (drop_bit 8 x AND 0xff) :: byte) :: u32) = take_bit 8 (drop_bit 8 (ucast x))" by (rule u32_of_byte) simp
    moreover have "(ucast (ucast (drop_bit 16 x AND 0xff) :: byte) :: u32) = take_bit 8 (drop_bit 16 (ucast x))" by (rule u32_of_byte) simp
    moreover have "(ucast (ucast (drop_bit 24 x AND 0xff) :: byte) :: u32) = take_bit 8 (drop_bit 24 (ucast x))" by (rule u32_of_byte) simp
    ultimately show ?thesis by (simp only: DecodeFixed32_bytes u32_of_low_byte or_of_bytes t)
  qed
  have h: "drop_bit 40 w = drop_bit 8 ?h" "drop_bit 48 w = drop_bit 16 ?h" "drop_bit 56 w = drop_bit 24 ?h" by simp_all
  have "EncodeFixed64_port False w @ rest
      = ucast (w AND 0xff) # ucast (drop_bit 8 w AND 0xff) # ucast (drop_bit 16 w AND 0xff) # ucast (drop_bit 24 w AND 0xff) #
        ucast (?h AND 0xff) # ucast (drop_bit 8 ?h AND 0xff) # ucast (drop_bit 16 ?h AND 0xff) # ucast (drop_bit 24 ?h AND 0xff) # rest"
    unfolding EncodeFixed64_port_def if_False h by simp
  moreover have "drop 4 (a # b # c # d # r) = r" for a b c d :: byte and r by simp
  ultimately have "DecodeFixed64_port False (EncodeFixed64_port False w @ rest)
      = push_bit 32 (ucast (ucast ?h :: u32)) OR ucast (ucast w :: u32)"
    unfolding DecodeFixed64_port_def if_False by (simp only: dec)
  also have "\<dots> = w"
  proof (rule bit_word_eqI)
    fix k assume "k < LENGTH(64)"
    then show "bit (push_bit 32 (ucast (ucast ?h :: u32)) OR ucast (ucast w :: u32) :: u64) k = bit w k"
      by (cases "k < 32") (auto simp: bit_or_iff bit_push_bit_iff bit_unsigned_iff bit_drop_bit_eq)
  qed
  finally show ?thesis .
qed

section \<open>The properties of the encodings\<close>

text \<open>The fixed-length encodings do not depend on the byte order of the machine: the branch for
  little-endian machines (a memory copy) and the portable branch (a byte at a time) write the same
  bytes, the little-endian ones of the number, and each branch of the decoder reads back what either
  branch of the encoder wrote, whatever follows.\<close>

theorem fixed_endian_neutral:
  "EncodeFixed32_port le v = le_rep 4 (unat v) \<and> EncodeFixed64_port le w = le_rep 8 (unat w)
   \<and> DecodeFixed32_port le' (EncodeFixed32_port le v @ rest) = v
   \<and> DecodeFixed64_port le' (EncodeFixed64_port le w @ rest) = w"
proof (intro conjI)
  have e32: "EncodeFixed32_port le x = le_rep 4 (unat x)" for le x
    using EncodeFixed32_port_neutral [of x] by (cases le) (simp_all add: EncodeFixed32_port_def)
  have e64: "EncodeFixed64_port le x = le_rep 8 (unat x)" for le x
    using EncodeFixed64_port_neutral [of x] by (cases le) (simp_all add: EncodeFixed64_port_def)
  show "EncodeFixed32_port le v = le_rep 4 (unat v)" "EncodeFixed64_port le w = le_rep 8 (unat w)"
    by (rule e32 e64)+
  show "DecodeFixed32_port le' (EncodeFixed32_port le v @ rest) = v"
    using DecodeFixed32_portable [of v rest] by (cases le') (simp_all add: e32 DecodeFixed32_port_def word_le_val_32)
  show "DecodeFixed64_port le' (EncodeFixed64_port le w @ rest) = w"
    using DecodeFixed64_portable [of w rest] by (cases le') (simp_all add: e64 DecodeFixed64_port_def word_le_val_64)
qed

text \<open>C14. The varint code agrees with the base-128 reference: the unrolled 32-bit encoder and the
  64-bit loop write the reference encoding, the length that VarintLength predicts is the
  length of what is written and at most ten, and the decoders (the fast path for one byte and the
  loops) accept exactly what the reference parser of five or ten bytes accepts, with its value
  reduced to the width of the result.\<close>

theorem varint_code_reference:
  "EncodeVarint32 v = varint_bytes (unat v) \<and> EncodeVarint64 w = varint_bytes (unat w)
   \<and> VarintLength w = length (EncodeVarint64 w) \<and> VarintLength w < 11
   \<and> GetVarint32Ptr bs = map_option (\<lambda>(n, rest). (word_of_nat n, rest)) (parse_varint 5 bs)
   \<and> GetVarint64Ptr bs = map_option (\<lambda>(n, rest). (word_of_nat n, rest)) (parse_varint 10 bs)"
proof (intro conjI)
  have w: "unat w < 2 ^ LENGTH(64)" by (rule unsigned_less)
  then have "unat w < 128 ^ Suc 9" by simp
  from length_varint_bytes [OF this] show "VarintLength w < 11"
    by (simp add: VarintLength_Encode EncodeVarint64_bytes)
qed (fact EncodeVarint32_bytes EncodeVarint64_bytes VarintLength_Encode GetVarint32Ptr_parse GetVarint64Ptr_parse)+

text \<open>What PutLengthPrefixedSlice appends, both readers take back: they return the
  slice and the input behind it, for every slice shorter than 4 GiB (the length is cut to 32
  bits).\<close>

theorem length_prefixed_roundtrip:
  assumes "length value < 2 ^ 32"
  shows "PutLengthPrefixedSlice dst value = dst @ PutLengthPrefixedSlice [] value
     \<and> GetLengthPrefixedSlice (PutLengthPrefixedSlice [] value @ rest) = (Some value, rest)
     \<and> GetLengthPrefixedSlicePtr (PutLengthPrefixedSlice [] value @ rest) = Some (value, rest)"
proof (intro conjI)
  note short = unat_word_of_nat_length [OF assms]
  show "PutLengthPrefixedSlice dst value = dst @ PutLengthPrefixedSlice [] value"
    by (simp add: PutLengthPrefixedSlice_def PutVarint32_def)
  show "GetLengthPrefixedSlice (PutLengthPrefixedSlice [] value @ rest) = (Some value, rest)"
    by (rule GetLengthPrefixedSlice_Put [OF assms])
  show "GetLengthPrefixedSlicePtr (PutLengthPrefixedSlice [] value @ rest) = Some (value, rest)"
    using GetVarint32Ptr_Encode [of "word_of_nat (length value)" "value @ rest"] short
    by (simp add: GetLengthPrefixedSlicePtr_def PutLengthPrefixedSlice_def PutVarint32_def)
qed

theorem length_prefixed_roundtrip_witness:
  "PutLengthPrefixedSlice [] [7, 8, 9] = [3, 7, 8, 9]
    \<and> GetLengthPrefixedSlice (PutLengthPrefixedSlice [] [7, 8, 9] @ [5]) = (Some [7, 8, 9], [5])"
  using length_prefixed_roundtrip [of "[7, 8, 9]" "[]" "[5]"]
  by (simp add: PutLengthPrefixedSlice_def PutVarint32_def EncodeVarint32_def)

end
