(* ===== verification/LdbComparator.thy ===== *)
theory LdbComparator
  imports LdbCoding "HOL-Library.List_Lexorder"
begin

text \<open>
  Slices and their order (\<open>include/leveldb/slice.h\<close>), the interface of a comparator
  (\<open>include/leveldb/comparator.h\<close>) as a locale, and the built-in bytewise comparator
  (\<open>util/comparator.cc\<close>).
\<close>

section \<open>Slices\<close>

text \<open>\<open>memcmp\<close> of two blocks of the same length; bytes compare as unsigned numbers.\<close>

fun memcmp :: "byte list \<Rightarrow> byte list \<Rightarrow> int" where
  "memcmp (a # as) (b # bs) = (if a = b then memcmp as bs else if a < b then - 1 else 1)"
| "memcmp _ _ = 0"

definition slice_eq :: "slice \<Rightarrow> slice \<Rightarrow> bool" where
  "slice_eq x y \<longleftrightarrow> length x = length y \<and> memcmp x y = 0"

definition starts_with :: "slice \<Rightarrow> slice \<Rightarrow> bool" where
  "starts_with s x \<longleftrightarrow> length x \<le> length s \<and> memcmp (take (length x) s) x = 0"

text \<open>\<open>remove_prefix\<close> asserts that there are \<open>n\<close> bytes.\<close>

definition remove_prefix :: "slice \<Rightarrow> nat \<Rightarrow> slice option" where
  "remove_prefix s n = (if n \<le> length s then Some (drop n s) else None)"

definition slice_compare :: "slice \<Rightarrow> slice \<Rightarrow> int" where
  "slice_compare a b =
     (let min_len = (if length a < length b then length a else length b);
          r = memcmp (take min_len a) (take min_len b)
      in if r = 0 then
           if length a < length b then - 1
           else if length b < length a then 1
           else r
         else r)"

lemma memcmp_self [simp]: "memcmp a a = 0"
  by (induction a) auto

lemma memcmp_0: "length a = length b \<Longrightarrow> memcmp a b = 0 \<longleftrightarrow> a = b"
  by (induction a b rule: memcmp.induct) auto

lemma slice_eq_iff: "slice_eq x y \<longleftrightarrow> x = y"
  using memcmp_0 by (auto simp: slice_eq_def)

lemma slice_compare_Nil [simp]:
  "slice_compare [] [] = 0" "slice_compare [] (b # bs) = - 1" "slice_compare (a # as) [] = 1"
  by (simp_all add: slice_compare_def)

lemma slice_compare_Cons [simp]:
  "slice_compare (a # as) (b # bs) = (if a = b then slice_compare as bs else if a < b then - 1 else 1)"
  by (auto simp: slice_compare_def Let_def)

text \<open>The comparison is the lexicographic order of the bytes.\<close>

lemma slice_compare_order:
  "slice_compare a b = (if a < b then - 1 else if a = b then 0 else 1)"
proof (induction a arbitrary: b)
  case Nil
  then show ?case by (cases b) auto
next
  case (Cons x a)
  then show ?case by (cases b) auto
qed

section \<open>The interface\<close>

text \<open>
  What the users of a comparator rely on. The order is total and transitive; \<open>0\<close> is an
  equivalence and need not be equality, since a user's comparator may identify keys.
\<close>

locale comparator =
  fixes compare :: "'k \<Rightarrow> 'k \<Rightarrow> int"
  assumes compare_swap: "compare a b < 0 \<longleftrightarrow> 0 < compare b a"
    and compare_trans: "compare a b \<le> 0 \<Longrightarrow> compare b c \<le> 0 \<Longrightarrow> compare a c \<le> 0"
begin

lemma compare_self: "compare a a = 0"
  using compare_swap [of a a] by linarith

lemma compare_swap_le: "compare a b \<le> 0 \<longleftrightarrow> 0 \<le> compare b a"
  using compare_swap [of b a] by linarith

lemma compare_swap_0: "compare a b = 0 \<longleftrightarrow> compare b a = 0"
  using compare_swap [of a b] compare_swap [of b a] by linarith

lemma compare_less_trans:
  assumes "compare a b \<le> 0" and "compare b c \<le> 0" and "compare a b < 0 \<or> compare b c < 0"
  shows "compare a c < 0"
proof (rule ccontr)
  assume "\<not> compare a c < 0"
  then have "compare c a \<le> 0" using compare_swap_le [of c a] by simp
  with compare_trans [OF this assms(1)] compare_trans [OF assms(2) this]
  have "0 \<le> compare b c" "0 \<le> compare a b" by (simp_all add: compare_swap_le)
  with assms(3) show False by simp
qed

lemma compare_cong: "compare a b = 0 \<Longrightarrow> compare a c < 0 \<longleftrightarrow> compare b c < 0"
  using compare_less_trans [of a b c] compare_less_trans [of b a c] compare_swap_0 [of a b] by auto

text \<open>A sorted list of keys: the representation invariant of the blocks and lists over it.\<close>

definition ordered :: "'k list \<Rightarrow> bool" where
  "ordered ks \<longleftrightarrow> sorted_wrt (\<lambda>a b. compare a b < 0) ks"

lemma ordered_Nil [simp]: "ordered []"
  by (simp add: ordered_def)

lemma ordered_Cons: "ordered (k # ks) \<longleftrightarrow> (\<forall>x \<in> set ks. compare k x < 0) \<and> ordered ks"
  by (simp add: ordered_def)

lemma ordered_append:
  "ordered (xs @ ys) \<longleftrightarrow> ordered xs \<and> ordered ys \<and> (\<forall>x \<in> set xs. \<forall>y \<in> set ys. compare x y < 0)"
  by (auto simp: ordered_def sorted_wrt_append)

lemma ordered_snoc: "ordered ks \<Longrightarrow> ks = [] \<or> compare (last ks) k < 0 \<Longrightarrow> ordered (ks @ [k])"
proof (induction ks)
  case Nil
  then show ?case by (simp add: ordered_Cons)
next
  case (Cons a ks)
  have "compare a k < 0"
  proof (cases "ks = []")
    case True
    with Cons.prems(2) show ?thesis by simp
  next
    case False
    then have "compare a (last ks) < 0" using Cons.prems(1) by (auto simp: ordered_Cons)
    with False Cons.prems(2) show ?thesis using compare_less_trans [of a "last ks" k] by simp
  qed
  with Cons show ?case by (auto simp: ordered_Cons split: if_splits)
qed

text \<open>In a sorted list the keys below a target are a prefix.\<close>

lemma ordered_below_prefix:
  "ordered ks \<Longrightarrow> filter (\<lambda>k. compare k t < 0) ks = takeWhile (\<lambda>k. compare k t < 0) ks"
proof (induction ks)
  case (Cons a ks)
  show ?case
  proof (cases "compare a t < 0")
    case True
    with Cons show ?thesis by (auto simp: ordered_Cons)
  next
    case False
    have "\<not> compare x t < 0" if "x \<in> set ks" for x
    proof
      assume "compare x t < 0"
      moreover have "compare a x < 0" using Cons.prems that by (auto simp: ordered_Cons)
      ultimately show False using compare_less_trans [of a x t] False by simp
    qed
    with False show ?thesis by (simp add: filter_empty_conv)
  qed
qed simp

end

text \<open>The keys of the code are slices.\<close>

locale slice_comparator = comparator compare for compare :: "slice \<Rightarrow> slice \<Rightarrow> int"

text \<open>
  The functions that shorten keys. The interface says \<^emph>\<open>if start is less than limit\<close>; a
  comparator leaves the key alone otherwise.
\<close>

locale shortening_comparator = slice_comparator compare for compare :: "slice \<Rightarrow> slice \<Rightarrow> int" +
  fixes separator :: "slice \<Rightarrow> slice \<Rightarrow> slice"
    and successor :: "slice \<Rightarrow> slice"
  assumes separator_between:
      "compare start limit < 0 \<Longrightarrow>
         compare start (separator start limit) \<le> 0 \<and> compare (separator start limit) limit < 0"
    and separator_otherwise: "\<not> compare start limit < 0 \<Longrightarrow> separator start limit = start"
    and successor_above: "compare key (successor key) \<le> 0"

section \<open>The bytewise comparator\<close>

definition BytewiseCompare :: "slice \<Rightarrow> slice \<Rightarrow> int" where
  "BytewiseCompare a b = slice_compare a b"

fun common_prefix :: "byte list \<Rightarrow> byte list \<Rightarrow> nat" where
  "common_prefix (a # as) (b # bs) = (if a = b then Suc (common_prefix as bs) else 0)"
| "common_prefix _ _ = 0"

definition BytewiseFindShortestSeparator :: "byte list \<Rightarrow> slice \<Rightarrow> byte list" where
  "BytewiseFindShortestSeparator start limit =
     (let min_length = min (length start) (length limit);
          diff_index = common_prefix start limit
      in if min_length \<le> diff_index then start
         else
           let diff_byte = start ! diff_index in
           if diff_byte < 0xff \<and> unat diff_byte + 1 < unat (limit ! diff_index)
           then take (diff_index + 1) (start[diff_index := diff_byte + 1])
           else start)"

text \<open>The loop over the key, behind the bytes \<open>done\<close> that are all \<open>0xff\<close>.\<close>

fun short_successor :: "byte list \<Rightarrow> byte list \<Rightarrow> byte list" where
  "short_successor past [] = past"
| "short_successor past (byte # key) =
     (if byte \<noteq> 0xff then past @ [byte + 1] else short_successor (past @ [byte]) key)"

definition BytewiseFindShortSuccessor :: "byte list \<Rightarrow> byte list" where
  "BytewiseFindShortSuccessor key = short_successor [] key"

lemma BytewiseCompare_order:
  "BytewiseCompare a b < 0 \<longleftrightarrow> a < b" "BytewiseCompare a b \<le> 0 \<longleftrightarrow> a \<le> b" "BytewiseCompare a b = 0 \<longleftrightarrow> a = b"
  "0 < BytewiseCompare a b \<longleftrightarrow> b < a"
  by (auto simp: BytewiseCompare_def slice_compare_order)

text \<open>The loop finds the first difference.\<close>

lemma common_prefix_split:
  assumes "common_prefix as bs < min (length as) (length bs)"
  shows "\<exists>p a b as' bs'. as = p @ a # as' \<and> bs = p @ b # bs' \<and> a \<noteq> b \<and> length p = common_prefix as bs"
  using assms
proof (induction as bs rule: common_prefix.induct)
  case (1 a as b bs)
  show ?case
  proof (cases "a = b")
    case True
    with 1 obtain p c d as' bs' where "as = p @ c # as'" "bs = p @ d # bs'" "c \<noteq> d" "length p = common_prefix as bs"
      by auto
    then have "a # as = (a # p) @ c # as' \<and> a # bs = (a # p) @ d # bs' \<and> c \<noteq> d \<and>
        length (a # p) = common_prefix (a # as) (a # bs)" by simp
    with True show ?thesis by blast
  next
    case False
    then show ?thesis by (auto intro!: exI [of _ "[]"])
  qed
qed simp_all

lemma append_less_iff: "p @ xs < p @ ys \<longleftrightarrow> xs < (ys :: 'a::linorder list)"
  by (induction p) auto

lemma byte_plus_one: "b < 0xff \<Longrightarrow> unat (b + 1) = unat b + 1 \<and> b < b + 1" for b :: byte
  using word_less_nat_alt [of b "0xff"] by (auto simp: unat_plus_if' word_less_nat_alt)

lemma byte_not_ff: "b \<noteq> 0xff \<Longrightarrow> b < 0xff" for b :: byte
  using unat_byte [of b] by (simp add: word_less_nat_alt word_unat_eq_iff)

lemma BytewiseFindShortestSeparator_cases:
  obtains (same) "BytewiseFindShortestSeparator start limit = start"
  | (shorter) p a as b bs where "start = p @ a # as" "limit = p @ b # bs"
      "a < a + 1" "a + 1 < b" "BytewiseFindShortestSeparator start limit = p @ [a + 1]"
proof (cases "min (length start) (length limit) \<le> common_prefix start limit")
  case True
  then show ?thesis using same by (simp add: BytewiseFindShortestSeparator_def)
next
  case False
  then have "common_prefix start limit < min (length start) (length limit)" by (simp only: not_le)
  from common_prefix_split [OF this] obtain p a b as bs
    where s: "start = p @ a # as" "limit = p @ b # bs" "a \<noteq> b" "length p = common_prefix start limit"
    by blast
  have at: "start ! common_prefix start limit = a" "limit ! common_prefix start limit = b"
    and tk: "take (common_prefix start limit + 1) (start[common_prefix start limit := a + 1]) = p @ [a + 1]"
    unfolding s(4) [symmetric] unfolding s(1,2) by simp_all
  have eq: "BytewiseFindShortestSeparator start limit
      = (if a < 0xff \<and> unat a + 1 < unat b then p @ [a + 1] else start)"
    unfolding BytewiseFindShortestSeparator_def Let_def at tk using False by (simp only: if_False)
  show ?thesis
  proof (cases "a < 0xff \<and> unat a + 1 < unat b")
    case True
    moreover have "a + 1 < b" using byte_plus_one [of a] True by (simp add: word_less_nat_alt)
    ultimately show ?thesis using shorter [OF s(1,2)] byte_plus_one [of a] eq by simp
  next
    case False
    then show ?thesis using same eq by (simp only: if_False)
  qed
qed

lemma short_successor_above: "p @ key \<le> short_successor p key"
proof (induction p key rule: short_successor.induct)
  case (2 past byte key)
  show ?case
  proof (cases "byte = 0xff")
    case False
    then have "byte < 0xff" by (rule byte_not_ff)
    then show ?thesis using False byte_plus_one [of byte] by (simp add: append_less_iff less_imp_le)
  qed (use 2 in simp)
qed simp

interpretation bytewise: shortening_comparator
  BytewiseCompare BytewiseFindShortestSeparator BytewiseFindShortSuccessor
proof unfold_locales
  fix a b c
  show "BytewiseCompare a b < 0 \<longleftrightarrow> 0 < BytewiseCompare b a" by (simp add: BytewiseCompare_order)
  show "BytewiseCompare a b \<le> 0 \<Longrightarrow> BytewiseCompare b c \<le> 0 \<Longrightarrow> BytewiseCompare a c \<le> 0"
    by (simp add: BytewiseCompare_order)
next
  fix start limit
  show "BytewiseCompare start limit < 0 \<Longrightarrow>
      BytewiseCompare start (BytewiseFindShortestSeparator start limit) \<le> 0 \<and>
      BytewiseCompare (BytewiseFindShortestSeparator start limit) limit < 0"
    by (rule BytewiseFindShortestSeparator_cases [of start limit])
      (auto simp: BytewiseCompare_order append_less_iff less_imp_le)
  show "\<not> BytewiseCompare start limit < 0 \<Longrightarrow> BytewiseFindShortestSeparator start limit = start"
    by (rule BytewiseFindShortestSeparator_cases [of start limit])
      (auto simp: BytewiseCompare_order append_less_iff)
next
  fix key
  show "BytewiseCompare key (BytewiseFindShortSuccessor key) \<le> 0"
    using short_successor_above [of "[]" key] by (simp add: BytewiseCompare_order BytewiseFindShortSuccessor_def)
qed

end
