(* ===== verification/LdbFormat.thy ===== *)
theory LdbFormat
  imports LdbComparator
begin

text \<open>
  Internal keys (\<open>db/dbformat.h\<close>, \<open>db/dbformat.cc\<close>): a user key followed by eight bytes that
  hold a sequence number and a value type. The comparator of internal keys is built from the
  user's comparator, which is a parameter of the definitions here.
\<close>

section \<open>Keys\<close>

datatype ValueType = kTypeDeletion | kTypeValue

fun type_code :: "ValueType \<Rightarrow> u64" where
  "type_code kTypeDeletion = 0"
| "type_code kTypeValue = 1"

text \<open>\<open>static_cast<ValueType>\<close>; there is no value for other codes.\<close>

definition type_of_code :: "u64 \<Rightarrow> ValueType option" where
  "type_of_code c = (if c = 0 then Some kTypeDeletion else if c = 1 then Some kTypeValue else None)"

definition kValueTypeForSeek :: ValueType where
  "kValueTypeForSeek = kTypeValue"

type_synonym SequenceNumber = u64

definition kMaxSequenceNumber :: SequenceNumber where
  "kMaxSequenceNumber = push_bit 56 1 - 1"

record ParsedInternalKey =
  user_key :: slice
  sequence :: SequenceNumber
  key_type :: ValueType

definition PackSequenceAndType :: "u64 \<Rightarrow> ValueType \<Rightarrow> u64" where
  "PackSequenceAndType seq t = push_bit 8 seq OR type_code t"

definition InternalKeyEncodingLength :: "ParsedInternalKey \<Rightarrow> nat" where
  "InternalKeyEncodingLength key = length (user_key key) + 8"

definition AppendInternalKey :: "byte list \<Rightarrow> ParsedInternalKey \<Rightarrow> byte list" where
  "AppendInternalKey result key =
     PutFixed64 (result @ user_key key) (PackSequenceAndType (sequence key) (key_type key))"

text \<open>
  The functions on internal keys assert at least eight bytes; what they give for shorter ones
  has no meaning in the code. \<open>key_number\<close> is the number in the last eight bytes.
\<close>

definition ExtractUserKey :: "slice \<Rightarrow> slice" where
  "ExtractUserKey k = take (length k - 8) k"

definition key_number :: "slice \<Rightarrow> u64" where
  "key_number k = DecodeFixed64 (drop (length k - 8) k)"

definition ExtractValueType :: "slice \<Rightarrow> ValueType option" where
  "ExtractValueType k = type_of_code (key_number k AND 0xff)"

definition ParseInternalKey :: "slice \<Rightarrow> ParsedInternalKey option" where
  "ParseInternalKey k =
     (if length k < 8 then None
      else
        let num = key_number k in
        map_option (\<lambda>t. \<lparr>user_key = take (length k - 8) k, sequence = drop_bit 8 num, key_type = t\<rparr>)
          (type_of_code (num AND 0xff)))"

definition InternalKeyCompare :: "(slice \<Rightarrow> slice \<Rightarrow> int) \<Rightarrow> slice \<Rightarrow> slice \<Rightarrow> int" where
  "InternalKeyCompare user_compare akey bkey =
     (let r = user_compare (ExtractUserKey akey) (ExtractUserKey bkey) in
      if r = 0 then
        let anum = key_number akey; bnum = key_number bkey in
        if bnum < anum then - 1 else if anum < bnum then 1 else r
      else r)"

definition InternalKeyFindShortestSeparator ::
    "(slice \<Rightarrow> slice \<Rightarrow> int) \<Rightarrow> (slice \<Rightarrow> slice \<Rightarrow> slice) \<Rightarrow> byte list \<Rightarrow> slice \<Rightarrow> byte list" where
  "InternalKeyFindShortestSeparator user_compare user_separator start limit =
     (let user_start = ExtractUserKey start;
          user_limit = ExtractUserKey limit;
          tmp = user_separator user_start user_limit
      in if length tmp < length user_start \<and> user_compare user_start tmp < 0
         then PutFixed64 tmp (PackSequenceAndType kMaxSequenceNumber kValueTypeForSeek)
         else start)"

definition InternalKeyFindShortSuccessor ::
    "(slice \<Rightarrow> slice \<Rightarrow> int) \<Rightarrow> (slice \<Rightarrow> slice) \<Rightarrow> byte list \<Rightarrow> byte list" where
  "InternalKeyFindShortSuccessor user_compare user_successor key =
     (let ukey = ExtractUserKey key;
          tmp = user_successor ukey
      in if length tmp < length ukey \<and> user_compare ukey tmp < 0
         then PutFixed64 tmp (PackSequenceAndType kMaxSequenceNumber kValueTypeForSeek)
         else key)"

text \<open>
  A key for lookups at a snapshot: the array \<open>space\<close> from \<open>start_\<close> to \<open>end_\<close>, and the
  index of \<open>kstart_\<close> in it. The length of the key is cut to 32 bits when it is encoded.
\<close>

record LookupKey =
  space :: "byte list"
  kstart :: nat

definition make_LookupKey :: "slice \<Rightarrow> SequenceNumber \<Rightarrow> LookupKey" where
  "make_LookupKey ukey s =
     (let usize = length ukey; dst = EncodeVarint32 (word_of_nat (usize + 8))
      in \<lparr>space = dst @ ukey @ EncodeFixed64 (PackSequenceAndType s kValueTypeForSeek), kstart = length dst\<rparr>)"

definition memtable_key :: "LookupKey \<Rightarrow> slice" where
  "memtable_key k = space k"

definition lookup_internal_key :: "LookupKey \<Rightarrow> slice" where
  "lookup_internal_key k = drop (kstart k) (space k)"

definition lookup_user_key :: "LookupKey \<Rightarrow> slice" where
  "lookup_user_key k = take (length (space k) - kstart k - 8) (drop (kstart k) (space k))"

section \<open>The number of a key\<close>

abbreviation (input) internal_key :: "slice \<Rightarrow> SequenceNumber \<Rightarrow> ValueType \<Rightarrow> slice" where
  "internal_key u s t \<equiv> AppendInternalKey [] \<lparr>user_key = u, sequence = s, key_type = t\<rparr>"

lemma type_code_less: "unat (type_code t) \<le> 1"
  by (cases t) simp_all

lemma unat_kMaxSequenceNumber: "unat kMaxSequenceNumber = 2 ^ 56 - 1"
  by (simp add: kMaxSequenceNumber_def)

lemma unat_pack:
  assumes "s \<le> kMaxSequenceNumber"
  shows "unat (PackSequenceAndType s t) = 256 * unat s + unat (type_code t)"
proof -
  have s: "unat s < 2 ^ 56"
    using assms unat_kMaxSequenceNumber by (simp add: word_le_nat_alt)
  have "PackSequenceAndType s t = push_bit 8 s + type_code t"
    unfolding PackSequenceAndType_def
  proof (rule disjunctive_add [symmetric])
    show "\<not> bit (push_bit 8 s) n \<or> \<not> bit (type_code t) n" for n
      by (cases t) (auto simp: bit_push_bit_iff bit_1_iff)
  qed
  moreover have "unat (push_bit 8 s) = 256 * unat s"
    using s by (simp add: push_bit_eq_mult unat_word_ariths)
  ultimately show ?thesis
    using s type_code_less [of t] by (simp add: unat_word_ariths)
qed

lemma pack_parts:
  assumes "s \<le> kMaxSequenceNumber"
  shows "drop_bit 8 (PackSequenceAndType s t) = s"
    and "type_of_code (PackSequenceAndType s t AND 0xff) = Some t"
proof -
  have "unat (drop_bit 8 (PackSequenceAndType s t)) = unat s"
    using unat_pack [OF assms, of t] type_code_less [of t] by (simp add: unat_drop_bit_div)
  then show "drop_bit 8 (PackSequenceAndType s t) = s" by (simp add: word_unat_eq_iff)
  have "(0xff :: u64) = mask 8" by (simp add: mask_eq_decr_exp)
  then have "PackSequenceAndType s t AND 0xff = take_bit 8 (PackSequenceAndType s t)"
    by (simp only: take_bit_eq_mask)
  also have "\<dots> = type_code t"
    unfolding PackSequenceAndType_def take_bit_or
    by (cases t) (simp_all add: take_bit_push_bit)
  finally show "type_of_code (PackSequenceAndType s t AND 0xff) = Some t"
    by (cases t) (simp_all add: type_of_code_def)
qed

lemma ParseInternalKey_number:
  assumes "ParseInternalKey x = Some k"
  shows "key_number x = PackSequenceAndType (sequence k) (key_type k)" and "sequence k \<le> kMaxSequenceNumber"
    and "user_key k = ExtractUserKey x"
proof -
  let ?n = "key_number x"
  have k: "type_of_code (?n AND 0xff) = Some (key_type k)" "sequence k = drop_bit 8 ?n" "user_key k = ExtractUserKey x"
    using assms by (auto simp: ParseInternalKey_def Let_def ExtractUserKey_def split: if_splits)
  show "user_key k = ExtractUserKey x" by (rule k(3))
  have "?n AND 0xff = type_code (key_type k)"
    using k(1) by (auto simp: type_of_code_def split: if_splits)
  moreover have "push_bit 8 (drop_bit 8 ?n) OR (?n AND mask 8) = ?n"
    by (rule bit_eqI) (auto simp: bit_simps)
  moreover have "(0xff :: u64) = mask 8" by (simp add: mask_eq_decr_exp)
  ultimately show "key_number x = PackSequenceAndType (sequence k) (key_type k)"
    using k(2) by (simp only: PackSequenceAndType_def)
  have "unat ?n < 2 ^ LENGTH(64)" by (rule unsigned_less)
  then have "unat ?n < 2 ^ 64" by simp
  then have "unat (sequence k) \<le> 2 ^ 56 - 1" by (simp add: k(2) unat_drop_bit_div)
  then show "sequence k \<le> kMaxSequenceNumber" by (simp add: word_le_nat_alt unat_kMaxSequenceNumber)
qed

lemma pack_less_iff:
  assumes "s \<le> kMaxSequenceNumber" and "s' \<le> kMaxSequenceNumber"
  shows "PackSequenceAndType s t < PackSequenceAndType s' t'
    \<longleftrightarrow> s < s' \<or> s = s' \<and> type_code t < type_code t'"
  using type_code_less [of t] type_code_less [of t']
  by (auto simp: word_less_nat_alt unat_pack [OF assms(1)] unat_pack [OF assms(2)] word_unat_eq_iff)

lemma length_internal_key [simp]: "length (internal_key u s t) = length u + 8"
  by (simp add: AppendInternalKey_def PutFixed64_def)

lemma ExtractUserKey_number [simp]: "ExtractUserKey (PutFixed64 u n) = u"
  by (simp add: ExtractUserKey_def PutFixed64_def)

lemma key_number_number [simp]: "key_number (PutFixed64 u n) = n"
  using DecodeFixed64_Encode [of n "[]"] by (simp add: key_number_def PutFixed64_def)

lemma ExtractUserKey_internal_key [simp]: "ExtractUserKey (internal_key u s t) = u"
  by (simp add: AppendInternalKey_def)

lemma key_number_internal_key [simp]: "key_number (internal_key u s t) = PackSequenceAndType s t"
  by (simp add: AppendInternalKey_def)

section \<open>The order of internal keys\<close>

context slice_comparator
begin

abbreviation (input) icompare :: "slice \<Rightarrow> slice \<Rightarrow> int" where
  "icompare \<equiv> InternalKeyCompare compare"

lemma icompare_less:
  "icompare a b < 0 \<longleftrightarrow> compare (ExtractUserKey a) (ExtractUserKey b) < 0 \<or>
     compare (ExtractUserKey a) (ExtractUserKey b) = 0 \<and> key_number b < key_number a"
  by (auto simp: InternalKeyCompare_def Let_def)

lemma icompare_le:
  "icompare a b \<le> 0 \<longleftrightarrow> compare (ExtractUserKey a) (ExtractUserKey b) < 0 \<or>
     compare (ExtractUserKey a) (ExtractUserKey b) = 0 \<and> key_number b \<le> key_number a"
  by (auto simp: InternalKeyCompare_def Let_def)

lemma icompare_greater:
  "0 < icompare a b \<longleftrightarrow> 0 < compare (ExtractUserKey a) (ExtractUserKey b) \<or>
     compare (ExtractUserKey a) (ExtractUserKey b) = 0 \<and> key_number a < key_number b"
  by (auto simp: InternalKeyCompare_def Let_def)

lemma icompare_swap: "icompare a b < 0 \<longleftrightarrow> 0 < icompare b a"
  unfolding icompare_less icompare_greater
  using compare_swap [of "ExtractUserKey a" "ExtractUserKey b"] compare_swap_0 by auto

lemma icompare_trans:
  assumes "icompare a b \<le> 0" and "icompare b c \<le> 0"
  shows "icompare a c \<le> 0"
proof -
  let ?a = "ExtractUserKey a" and ?b = "ExtractUserKey b" and ?c = "ExtractUserKey c"
  have le: "compare ?a ?b \<le> 0" "compare ?b ?c \<le> 0" using assms by (auto simp: icompare_le)
  show ?thesis
  proof (cases "compare ?a ?b < 0 \<or> compare ?b ?c < 0")
    case True
    then show ?thesis using compare_less_trans [OF le] by (simp add: icompare_le)
  next
    case False
    then have "key_number c \<le> key_number a" using assms by (auto simp: icompare_le)
    moreover have "compare ?a ?c \<le> 0" by (rule compare_trans [OF le])
    ultimately show ?thesis by (auto simp: icompare_le)
  qed
qed

lemma internal_comparator: "slice_comparator icompare"
  by unfold_locales (fact icompare_swap icompare_trans)+

end

context shortening_comparator
begin

lemma iseparator_cases:
  obtains (same) "InternalKeyFindShortestSeparator compare separator start limit = start"
  | (shorter) tmp where "tmp = separator (ExtractUserKey start) (ExtractUserKey limit)"
      "InternalKeyFindShortestSeparator compare separator start limit
        = PutFixed64 tmp (PackSequenceAndType kMaxSequenceNumber kValueTypeForSeek)"
      "compare (ExtractUserKey start) tmp < 0" "length tmp < length (ExtractUserKey start)"
  using that unfolding InternalKeyFindShortestSeparator_def Let_def by (meson)

lemma iseparator_between:
  assumes "icompare start limit < 0"
  shows "icompare start (InternalKeyFindShortestSeparator compare separator start limit) \<le> 0 \<and>
    icompare (InternalKeyFindShortestSeparator compare separator start limit) limit < 0"
proof (cases rule: iseparator_cases [of start limit])
  case same
  then show ?thesis using assms compare_self by (simp add: icompare_le)
next
  case (shorter tmp)
  have "compare (ExtractUserKey start) (ExtractUserKey limit) < 0"
    using separator_otherwise [of "ExtractUserKey start" "ExtractUserKey limit"] shorter(1,3) compare_self by fastforce
  from separator_between [OF this] shorter show ?thesis by (simp add: icompare_le icompare_less)
qed

lemma iseparator_otherwise:
  assumes "\<not> icompare start limit < 0"
  shows "InternalKeyFindShortestSeparator compare separator start limit = start"
proof (cases rule: iseparator_cases [of start limit])
  case (shorter tmp)
  have "\<not> compare (ExtractUserKey start) (ExtractUserKey limit) < 0" using assms by (simp add: icompare_less)
  from separator_otherwise [OF this] shorter compare_self show ?thesis by simp
qed

lemma isuccessor_above: "icompare key (InternalKeyFindShortSuccessor compare successor key) \<le> 0"
  using compare_self by (auto simp: InternalKeyFindShortSuccessor_def Let_def icompare_le)

lemmas internal_laws = icompare_swap icompare_trans iseparator_between iseparator_otherwise isuccessor_above

end

text \<open>
  The comparator of internal keys over the bytewise one, which the database uses unless its
  user has another.
\<close>

interpretation internal: shortening_comparator
  "InternalKeyCompare BytewiseCompare"
  "InternalKeyFindShortestSeparator BytewiseCompare BytewiseFindShortestSeparator"
  "InternalKeyFindShortSuccessor BytewiseCompare BytewiseFindShortSuccessor"
  by unfold_locales (fact bytewise.internal_laws)+

lemma internal_key_less:
  assumes "s \<le> kMaxSequenceNumber" and "s' \<le> kMaxSequenceNumber"
  shows "InternalKeyCompare user_compare (internal_key u s t) (internal_key u' s' t') < 0 \<longleftrightarrow>
    user_compare u u' < 0 \<or> user_compare u u' = 0 \<and> (s' < s \<or> s' = s \<and> t' = kTypeDeletion \<and> t = kTypeValue)"
  using pack_less_iff [OF assms(2,1), of t' t] pack_less_iff [OF assms, of t t']
  by (cases t; cases t') (auto simp: InternalKeyCompare_def Let_def)

section \<open>Properties\<close>

text \<open>
  Round trip of internal keys: what \<open>AppendInternalKey\<close> writes for a sequence number in
  range, \<open>ParseInternalKey\<close> reads back.
\<close>

theorem internal_key_roundtrip:
  assumes "sequence k \<le> kMaxSequenceNumber"
  shows "ParseInternalKey (AppendInternalKey [] k) = Some k \<and>
    length (AppendInternalKey [] k) = InternalKeyEncodingLength k"
proof -
  obtain u s t where k: "k = \<lparr>user_key = u, sequence = s, key_type = t\<rparr>" by (cases k)
  then have s: "s \<le> kMaxSequenceNumber" using assms by simp
  have "take (length (internal_key u s t) - 8) (internal_key u s t) = u"
    by (simp add: AppendInternalKey_def PutFixed64_def)
  then show ?thesis
    unfolding k using pack_parts [OF s, of t]
    by (simp add: ParseInternalKey_def Let_def InternalKeyEncodingLength_def)
qed

theorem internal_key_roundtrip_witness:
  "ParseInternalKey (AppendInternalKey [] \<lparr>user_key = [7, 8], sequence = 3, key_type = kTypeDeletion\<rparr>)
     = Some \<lparr>user_key = [7, 8], sequence = 3, key_type = kTypeDeletion\<rparr>"
  using internal_key_roundtrip [of "\<lparr>user_key = [7, 8], sequence = 3, key_type = kTypeDeletion\<rparr>"]
  by (simp add: kMaxSequenceNumber_def)

text \<open>
  C10. The order of internal keys, which the layout of the last eight bytes has to give: user
  keys in the order of their comparator, entries of one user key from the newest to the oldest,
  and for equal sequence numbers a value before a deletion.
\<close>

theorem internal_key_order:
  assumes "s \<le> kMaxSequenceNumber" and "s' \<le> kMaxSequenceNumber"
  shows "InternalKeyCompare user_compare
      (AppendInternalKey [] \<lparr>user_key = u, sequence = s, key_type = t\<rparr>)
      (AppendInternalKey [] \<lparr>user_key = u', sequence = s', key_type = t'\<rparr>) < 0
    \<longleftrightarrow> user_compare u u' < 0 \<or>
        user_compare u u' = 0 \<and> (s' < s \<or> s' = s \<and> t' = kTypeDeletion \<and> t = kTypeValue)"
  by (rule internal_key_less [OF assms])

theorem internal_key_order_witness:
  "InternalKeyCompare BytewiseCompare
      (AppendInternalKey [] \<lparr>user_key = [1], sequence = 9, key_type = kTypeDeletion\<rparr>)
      (AppendInternalKey [] \<lparr>user_key = [1], sequence = 4, key_type = kTypeValue\<rparr>) < 0"
  using internal_key_order [of 9 4 BytewiseCompare "[1]" kTypeDeletion "[1]" kTypeValue]
  by (simp add: kMaxSequenceNumber_def BytewiseCompare_def)

text \<open>
  C11. Snapshot lookups: the key that \<open>LookupKey\<close> builds for a user key and a snapshot sorts
  behind exactly those entries of the user key that are newer than the snapshot. So the first
  entry at or behind it is the newest one that the snapshot can see.
\<close>

theorem lookup_key_separates_versions:
  assumes "s \<le> kMaxSequenceNumber" and "n \<le> kMaxSequenceNumber" and "user_compare u u = 0"
  shows "InternalKeyCompare user_compare
      (AppendInternalKey [] \<lparr>user_key = u, sequence = n, key_type = t\<rparr>)
      (lookup_internal_key (make_LookupKey u s)) < 0 \<longleftrightarrow> s < n"
proof -
  have "lookup_internal_key (make_LookupKey u s) = internal_key u s kTypeValue"
    by (simp add: lookup_internal_key_def make_LookupKey_def AppendInternalKey_def PutFixed64_def
        kValueTypeForSeek_def Let_def)
  with internal_key_order [OF assms(2,1), of user_compare u t u kTypeValue] assms(3) show ?thesis by auto
qed

theorem lookup_key_separates_versions_witness:
  "InternalKeyCompare BytewiseCompare
      (AppendInternalKey [] \<lparr>user_key = [1], sequence = 9, key_type = kTypeValue\<rparr>)
      (lookup_internal_key (make_LookupKey [1] 8)) < 0"
  using lookup_key_separates_versions [of 8 9 BytewiseCompare "[1]" kTypeValue]
  by (simp add: kMaxSequenceNumber_def BytewiseCompare_def)

text \<open>
  The keys in index blocks: between an internal key and a larger one,
  \<open>FindShortestSeparator\<close> gives a key that is not below the first and is below the second, no
  longer than the first unless it is the first; and \<open>FindShortSuccessor\<close> gives one that is not
  below its argument.
\<close>

theorem internal_separator_between:
  assumes "InternalKeyCompare BytewiseCompare start limit < 0"
  shows "InternalKeyCompare BytewiseCompare start
      (InternalKeyFindShortestSeparator BytewiseCompare BytewiseFindShortestSeparator start limit) \<le> 0 \<and>
    InternalKeyCompare BytewiseCompare
      (InternalKeyFindShortestSeparator BytewiseCompare BytewiseFindShortestSeparator start limit) limit < 0 \<and>
    InternalKeyCompare BytewiseCompare key
      (InternalKeyFindShortSuccessor BytewiseCompare BytewiseFindShortSuccessor key) \<le> 0"
  using internal.separator_between [OF assms] internal.successor_above [of key] by simp

theorem internal_separator_between_witness:
  "InternalKeyCompare BytewiseCompare
     (InternalKeyFindShortestSeparator BytewiseCompare BytewiseFindShortestSeparator
        (PutFixed64 [1, 2, 3] 5) (PutFixed64 [9] 5)) (PutFixed64 [9] 5) < 0"
  using internal_separator_between [of "PutFixed64 [1, 2, 3] 5" "PutFixed64 [9] 5" "[]"]
  by (simp add: InternalKeyCompare_def BytewiseCompare_def Let_def)

text \<open>
  The array of a \<open>LookupKey\<close>: it stays within the conservative estimate that the buffer was
  allocated with, its memtable key is the internal key behind its length, and the user key is the one
  given.
\<close>

theorem lookup_key_layout:
  assumes "length u + 8 < 2 ^ 32"
  shows "length (space (make_LookupKey u s)) \<le> length u + 13 \<and>
    GetLengthPrefixedSlice (memtable_key (make_LookupKey u s)) = (Some (lookup_internal_key (make_LookupKey u s)), []) \<and>
    lookup_user_key (make_LookupKey u s) = u"
proof -
  let ?n = "word_of_nat (length u + 8) :: u32"
  have n: "unat ?n = length u + 8" by (simp only: unat_of_nat) (use assms in simp)
  have "unat ?n < 2 ^ LENGTH(32)" by (rule unsigned_less)
  then have "unat ?n < 128 ^ Suc 4" by simp
  then have "length (EncodeVarint32 ?n) \<le> Suc 4" unfolding EncodeVarint32_bytes by (rule length_varint_bytes)
  then show ?thesis
    using n GetVarint32_Encode [of ?n "u @ EncodeFixed64 (PackSequenceAndType s kValueTypeForSeek)"]
    by (simp add: make_LookupKey_def Let_def memtable_key_def lookup_internal_key_def lookup_user_key_def
        GetLengthPrefixedSlice_def)
qed

theorem lookup_key_layout_witness:
  "lookup_user_key (make_LookupKey [1, 2] 5) = [1, 2]"
  using lookup_key_layout [of "[1, 2]" 5] by simp

end
