(* ===== verification/LdbCrcProps.thy ===== *)
theory LdbCrcProps
  imports LdbCrc32c
begin

text \<open>
  The table-driven checksum of \<open>util/crc32c.cc\<close> is the CRC-32C of the data, for every alignment
  of the data; it composes over concatenation, and it detects every change of a single byte.
\<close>

section \<open>Single steps\<close>

lemma and_ff: "x AND 0xff = take_bit 8 x" for x :: u32
  by (simp add: take_bit_eq_mask mask_eq_decr_exp)

lemma unat_take_8: "unat (take_bit 8 x) < 256" for x :: u32
proof -
  have "unat (take_bit 8 x) = take_bit 8 (unat x)" by (rule unsigned_take_bit_eq)
  also have "\<dots> < 2 ^ 8" by (rule take_bit_nat_less_exp)
  finally show ?thesis by simp
qed

lemma crc_bits_low: "crc_bits 8 x = crc_bits 8 (take_bit 8 x) XOR drop_bit 8 x"
proof -
  have "x = take_bit 8 x XOR push_bit 8 (drop_bit 8 x)"
    by (rule bit_word_eqI) (auto simp: bit_xor_iff bit_take_bit_iff bit_push_bit_iff bit_drop_bit_eq)
  then have "crc_bits 8 x = crc_bits 8 (take_bit 8 x) XOR crc_bits 8 (push_bit 8 (drop_bit 8 x))"
    by (metis crc_bits_xor)
  moreover have "crc_bits 8 (push_bit 8 (drop_bit 8 x)) = drop_bit 8 x"
  proof (rule crc_bits_push)
    show "take_bit 8 (drop_bit (32 - 8) (drop_bit 8 x)) = 0"
    proof (rule bit_word_eqI)
      fix k
      show "bit (take_bit 8 (drop_bit (32 - 8) (drop_bit 8 x))) k = bit 0 k"
        using bit_imp_le_length [of x] by (fastforce simp: bit_take_bit_iff bit_drop_bit_eq)
    qed
  qed simp
  ultimately show ?thesis by simp
qed

lemma STEP1_crc: "STEP1 l b = crc_bits 8 (l XOR ucast b)"
proof -
  have t: "take_bit 8 (l XOR ucast b) = take_bit 8 l XOR ucast b"
    by (rule bit_word_eqI) (auto simp: bit_take_bit_iff bit_xor_iff bit_unsigned_iff dest: bit_imp_le_length)
  have d: "drop_bit 8 (l XOR ucast b) = drop_bit 8 l"
    by (rule bit_word_eqI) (auto simp: bit_drop_bit_eq bit_xor_iff bit_unsigned_iff dest: bit_imp_le_length)
  have "unat (take_bit 8 l XOR ucast b) < 256" unfolding t [symmetric] by (rule unat_take_8)
  then show ?thesis
    unfolding STEP1_def Let_def and_ff
    by (simp only: table_nth crc_bits_low [of "l XOR ucast b"] t d)
qed

lemma DecodeFixed32_xor:
  "DecodeFixed32 (b0 # b1 # b2 # b3 # p)
     = ucast b0 XOR push_bit 8 (ucast b1 XOR push_bit 8 (ucast b2 XOR push_bit 8 (ucast b3)))"
proof -
  have plus: "(word_of_nat (unat b + 256 * n) :: u32) = ucast b XOR push_bit 8 (word_of_nat n)" for b :: byte and n
  proof -
    have d: "\<not> bit (ucast b :: u32) k \<or> \<not> bit (push_bit 8 (word_of_nat n) :: u32) k" for k
      by (auto simp: bit_unsigned_iff bit_push_bit_iff dest: bit_imp_le_length)
    have "(word_of_nat (unat b + 256 * n) :: u32) = ucast b + push_bit 8 (word_of_nat n)"
      by (simp add: push_bit_word_of_nat)
    also have "\<dots> = ucast b OR push_bit 8 (word_of_nat n)"
      by (rule disjunctive_add) (rule d)
    also have "\<dots> = ucast b XOR push_bit 8 (word_of_nat n)"
      by (rule bit_word_eqI) (use d in \<open>auto simp: bit_or_iff bit_xor_iff\<close>)
    finally show ?thesis .
  qed
  have "take 4 (b0 # b1 # b2 # b3 # p) = [b0, b1, b2, b3]" by simp
  then show ?thesis
    by (simp only: DecodeFixed32_def DecodeFixed32_port_def kLittleEndian_def if_True le_val.simps plus) simp
qed

lemma push_byte_crc: "crc_bits 8 (push_bit 8 y) = y" if "drop_bit 24 y = 0" for y :: u32
  by (rule crc_bits_push) (use that in simp_all)

lemma drop_ucast [simp]: "8 \<le> n \<Longrightarrow> drop_bit n (ucast (b :: byte) :: u32) = 0"
  by (rule bit_word_eqI) (auto simp: bit_drop_bit_eq bit_unsigned_iff dest: bit_imp_le_length)

lemma STEP4_crc: "STEP4 l p = crc_bits 32 (l XOR DecodeFixed32 p)"
proof -
  define c where "c = l XOR DecodeFixed32 p"
  define c3 where "c3 = drop_bit 24 c"
  define c2 where "c2 = take_bit 8 (drop_bit 16 c)"
  define c1 where "c1 = take_bit 8 (drop_bit 8 c)"
  define c0 where "c0 = take_bit 8 c"
  have hi: "drop_bit 24 (take_bit 8 x) = 0" for x :: u32
    by (rule bit_word_eqI) (auto simp: bit_drop_bit_eq bit_take_bit_iff)
  have c3: "c3 = take_bit 8 c3"
    unfolding c3_def
    by (rule bit_word_eqI) (auto simp: bit_drop_bit_eq bit_take_bit_iff dest: bit_imp_le_length)
  have "c = c0 XOR push_bit 8 (c1 XOR push_bit 8 (c2 XOR push_bit 8 c3))"
    unfolding c0_def c1_def c2_def c3_def
    by (rule bit_word_eqI) (auto simp: bit_xor_iff bit_take_bit_iff bit_push_bit_iff bit_drop_bit_eq)
  then have "crc_bits 32 c = crc_bits 32 c0 XOR crc_bits 24 (crc_bits 8 (push_bit 8 (c1 XOR push_bit 8 (c2 XOR push_bit 8 c3))))"
    using crc_bits_add [of 24 8] by (simp add: crc_bits_xor)
  also have "crc_bits 8 (push_bit 8 (c1 XOR push_bit 8 (c2 XOR push_bit 8 c3))) = c1 XOR push_bit 8 (c2 XOR push_bit 8 c3)"
    by (rule push_byte_crc, rule bit_word_eqI)
      (auto simp: c1_def c2_def c3_def bit_xor_iff bit_take_bit_iff bit_push_bit_iff bit_drop_bit_eq dest: bit_imp_le_length)
  also have "crc_bits 24 (c1 XOR push_bit 8 (c2 XOR push_bit 8 c3))
      = crc_bits 24 c1 XOR crc_bits 16 (crc_bits 8 (push_bit 8 (c2 XOR push_bit 8 c3)))"
    using crc_bits_add [of 16 8] by (simp add: crc_bits_xor)
  also have "crc_bits 8 (push_bit 8 (c2 XOR push_bit 8 c3)) = c2 XOR push_bit 8 c3"
    by (rule push_byte_crc, rule bit_word_eqI)
      (auto simp: c2_def c3_def bit_xor_iff bit_take_bit_iff bit_push_bit_iff bit_drop_bit_eq dest: bit_imp_le_length)
  also have "crc_bits 16 (c2 XOR push_bit 8 c3) = crc_bits 16 c2 XOR crc_bits 8 (crc_bits 8 (push_bit 8 c3))"
    using crc_bits_add [of 8 8] by (simp add: crc_bits_xor)
  also have "crc_bits 8 (push_bit 8 c3) = c3"
    by (rule push_byte_crc) (subst c3, rule hi)
  finally have c: "crc_bits 32 c = crc_bits 32 c0 XOR (crc_bits 24 c1 XOR (crc_bits 16 c2 XOR crc_bits 8 c3))" .
  have less: "unat c0 < 256" "unat c1 < 256" "unat c2 < 256" "unat c3 < 256"
    using unat_take_8 [of c3] c3 by (simp_all add: c0_def c1_def c2_def unat_take_8)
  show ?thesis
    unfolding STEP4_def Let_def and_ff c_def [symmetric] c0_def [symmetric] c1_def [symmetric] c2_def [symmetric] c3_def [symmetric]
    by (simp only: table_nth [OF less(1)] table_nth [OF less(2)] table_nth [OF less(3)] table_nth [OF less(4)] c xor.assoc)
qed

section \<open>The loops\<close>

lemma steps1_append: "steps1 l (p @ q) = steps1 (steps1 l p) q"
  by (induction p arbitrary: l) auto

lemma STEP4_steps1: "steps1 l [b0, b1, b2, b3] = STEP4 l (b0 # b1 # b2 # b3 # p)"
proof -
  have x: "crc_bits (n + 8) (y XOR push_bit 8 z) = crc_bits n (crc_bits 8 y XOR z)" if "drop_bit 24 z = 0" for n y z
    by (simp only: crc_bits_add crc_bits_xor push_byte_crc [OF that])
  have z4: "drop_bit 24 (ucast b3 :: u32) = 0" by (rule drop_ucast) simp
  have z3: "drop_bit 24 (ucast b2 XOR push_bit 8 (ucast b3) :: u32) = 0"
    "drop_bit 24 (ucast b1 XOR push_bit 8 (ucast b2 XOR push_bit 8 (ucast b3)) :: u32) = 0"
    by (rule bit_word_eqI; auto simp: bit_drop_bit_eq bit_xor_iff bit_push_bit_iff bit_unsigned_iff dest: bit_imp_le_length)+
  have "STEP4 l (b0 # b1 # b2 # b3 # p)
      = crc_bits (24 + 8) ((l XOR ucast b0) XOR push_bit 8 (ucast b1 XOR push_bit 8 (ucast b2 XOR push_bit 8 (ucast b3))))"
    by (simp add: STEP4_crc DecodeFixed32_xor xor.assoc)
  also have "\<dots> = crc_bits (16 + 8) ((STEP1 l b0 XOR ucast b1) XOR push_bit 8 (ucast b2 XOR push_bit 8 (ucast b3)))"
    unfolding x [OF z3(2)] STEP1_crc by (simp add: xor.assoc)
  also have "\<dots> = crc_bits (8 + 8) ((STEP1 (STEP1 l b0) b1 XOR ucast b2) XOR push_bit 8 (ucast b3))"
    unfolding x [OF z3(1)] STEP1_crc by (simp add: xor.assoc)
  also have "\<dots> = crc_bits 8 (STEP1 (STEP1 (STEP1 l b0) b1) b2 XOR ucast b3)"
    unfolding x [OF z4] STEP1_crc by simp
  finally show ?thesis by (simp add: STEP1_crc)
qed

lemma STEP4_steps: "4 \<le> length p \<Longrightarrow> STEP4 l p = steps1 l (take 4 p)"
proof -
  assume "4 \<le> length p"
  then obtain b0 b1 b2 b3 q where p: "p = b0 # b1 # b2 # b3 # q"
    by (auto simp: numeral_eq_Suc Suc_le_length_iff)
  have "take 4 p = [b0, b1, b2, b3]" by (simp add: p)
  then show ?thesis using STEP4_steps1 [of l b0 b1 b2 b3 q] by (simp only: p)
qed

lemma steps4_steps1: "case steps4 l p of (l', p') \<Rightarrow> steps1 l' p' = steps1 l p"
proof (induction l p rule: steps4.induct)
  case (1 l p)
  show ?case
  proof (cases "4 \<le> length p")
    case True
    have "steps1 l p = steps1 (STEP4 l p) (drop 4 p)"
      using steps1_append [of l "take 4 p" "drop 4 p"] STEP4_steps [OF True] by simp
    with 1 [OF True] show ?thesis by (simp add: steps4.simps [of l p] True)
  qed (simp add: steps4.simps [of l p])
qed

lemma steps16_steps1: "case steps16 l p of (l', p') \<Rightarrow> steps1 l' p' = steps1 l p"
proof (induction l p rule: steps16.induct)
  case (1 l p)
  show ?case
  proof (cases "16 \<le> length p")
    case True
    have s: "steps1 k (drop n p) = steps1 (STEP4 k (drop n p)) (drop (n + 4) p)" if "n \<le> 12" for k n
    proof -
      have "steps1 k (drop n p) = steps1 (steps1 k (take 4 (drop n p))) (drop 4 (drop n p))"
        by (simp only: append_take_drop_id flip: steps1_append)
      moreover have "4 \<le> length (drop n p)" using that True by simp
      ultimately show ?thesis by (simp only: STEP4_steps drop_drop add.commute)
    qed
    have "steps1 l p = steps1 (STEP4 (STEP4 (STEP4 (STEP4 l p) (drop 4 p)) (drop 8 p)) (drop 12 p)) (drop 16 p)"
      using s [of 0 l] s [of 4] s [of 8] s [of 12] by simp
    with 1 [OF True] show ?thesis by (simp add: steps16.simps [of l p] True)
  qed (simp add: steps16.simps [of l p])
qed

lemma steps1_foldl: "steps1 l p = foldl (\<lambda>l b. crc_bits 8 (l XOR ucast b)) l p"
  by (induction p arbitrary: l) (simp_all add: STEP1_crc)

lemma not_accelerated: "\<not> CanAccelerateCRC32C"
  by (simp add: CanAccelerateCRC32C_def AcceleratedCRC32C_def)

lemma Extend_at_crc: "Extend_at pval crc buf = crc32c crc buf"
proof -
  let ?x = "(pval + 3) div 4 * 4 - pval" and ?l = "crc XOR 0xffffffff"
  obtain l p where first: "(if ?x \<le> length buf then (steps1 ?l (take ?x buf), drop ?x buf) else (?l, buf)) = (l, p)"
    by fastforce
  then have 1: "steps1 l p = steps1 ?l buf"
    using steps1_append [of ?l "take ?x buf" "drop ?x buf"] by (auto split: if_splits)
  obtain l2 p2 where 2: "steps16 l p = (l2, p2)" by fastforce
  obtain l3 p3 where 3: "steps4 l2 p2 = (l3, p3)" by fastforce
  have "steps1 l3 p3 = steps1 ?l buf"
    using 1 steps16_steps1 [of l p] steps4_steps1 [of l2 p2] 2 3 by simp
  then show ?thesis
    unfolding Extend_at_def Let_def crc32c_def using not_accelerated first 2 3
    by (simp add: steps1_foldl)
qed

section \<open>Differences\<close>

lemma xor_0_iff: "x XOR y = 0 \<longleftrightarrow> x = y" for x y :: "'a::len word"
  by (metis xor.assoc xor_self_eq xor.right_neutral xor.left_neutral)

lemma crc_bit_0_iff: "crc_bit x = 0 \<longleftrightarrow> x = 0"
proof
  assume z: "crc_bit x = 0"
  have top: "\<not> bit (drop_bit 1 x) 31"
    by (auto simp: bit_drop_bit_eq dest: bit_imp_le_length)
  show "x = 0"
  proof (cases "bit x 0")
    case True
    then have "drop_bit 1 x = 0x82F63B78" using z by (simp add: crc_bit_def xor_0_iff)
    moreover have "bit (0x82F63B78 :: u32) 31" by simp
    ultimately show ?thesis using top by simp
  next
    case False
    then have d: "drop_bit 1 x = 0" using z by (simp add: crc_bit_def)
    have "\<not> bit x k" for k
    proof (cases k)
      case 0
      then show ?thesis using False by simp
    next
      case (Suc m)
      have "bit x (Suc m) \<longleftrightarrow> bit (drop_bit 1 x) m" by (simp add: bit_drop_bit_eq)
      then show ?thesis using d Suc by simp
    qed
    then show ?thesis by (intro bit_word_eqI) simp
  qed
qed (simp add: crc_bit_def)

lemma crc_bits_0_iff: "crc_bits n x = 0 \<longleftrightarrow> x = 0"
  unfolding crc_bits_def by (induction n) (simp_all add: crc_bit_0_iff)

lemma steps1_xor:
  "length p = length q \<Longrightarrow> steps1 (l XOR k) (map2 (XOR) p q) = steps1 l p XOR steps1 k q"
proof (induction p q arbitrary: l k rule: list_induct2)
  case (Cons a p b q)
  have "ucast (a XOR b) = (ucast a XOR ucast b :: u32)"
    by (rule bit_word_eqI) (auto simp: bit_xor_iff bit_unsigned_iff dest: bit_imp_le_length)
  then have "STEP1 (l XOR k) (a XOR b) = STEP1 l a XOR STEP1 k b"
    by (simp add: STEP1_crc ac_simps flip: crc_bits_xor)
  with Cons.IH [of "STEP1 l a" "STEP1 k b"] show ?case by simp
qed simp

lemma crc_bits_zero [simp]: "crc_bits n 0 = 0"
  by (simp add: crc_bits_0_iff)

lemma crc_bits_inj: "crc_bits n x = crc_bits n y \<longleftrightarrow> x = y"
  by (metis crc_bits_0_iff crc_bits_xor xor_0_iff)

lemma steps1_zeros: "steps1 0 (replicate n 0) = 0"
  by (induction n) (simp_all add: STEP1_crc)

lemma xor_cancel: "l XOR x = k XOR x \<longleftrightarrow> l = k" for l k x :: "'a::len word"
  by (metis xor.assoc xor_self_eq xor.right_neutral)

lemma steps1_inj: "steps1 l p = steps1 k p \<longleftrightarrow> l = k"
  by (induction p arbitrary: l k) (simp_all add: STEP1_crc crc_bits_inj xor_cancel)

text \<open>Up to four bytes determine the state they lead to.\<close>

lemma steps1_four:
  assumes "length zs = 4" and "steps1 0 zs = 0"
  shows "zs = replicate 4 0"
proof -
  obtain z0 z1 z2 z3 where zs: "zs = [z0, z1, z2, z3]"
    using assms(1) by (auto simp: numeral_eq_Suc length_Suc_conv)
  have "DecodeFixed32 zs = 0"
    using assms(2) STEP4_steps1 [of 0 z0 z1 z2 z3 "[]"] by (simp add: zs STEP4_crc crc_bits_0_iff)
  moreover have "DecodeFixed32 zs = word_of_nat (le_val zs)"
    by (simp add: zs DecodeFixed32_def DecodeFixed32_port_def kLittleEndian_def)
  ultimately have "(word_of_nat (le_val zs) :: u32) = 0" by simp
  moreover have "le_val zs < 2 ^ LENGTH(32)" using le_val_bound [of zs] assms(1) by simp
  moreover have "unat (word_of_nat (le_val zs) :: u32) = le_val zs" if "le_val zs < 2 ^ LENGTH(32)"
    by (simp only: unat_of_nat) (use that in simp)
  ultimately have "le_val zs = 0" by simp
  then have "le_val zs = le_val (replicate 4 0)" by (simp add: numeral_eq_Suc)
  then show ?thesis using le_rep_le_val [of zs] le_rep_le_val [of "replicate 4 0"] assms(1)
    by (metis length_replicate)
qed

lemma steps1_short:
  assumes "length zs \<le> 4" and "steps1 0 zs = 0"
  shows "zs = replicate (length zs) 0"
proof -
  have "steps1 0 (replicate (4 - length zs) 0 @ zs) = 0"
    using assms(2) by (simp add: steps1_append steps1_zeros)
  moreover have "length (replicate (4 - length zs) 0 @ zs) = 4" using assms(1) by simp
  ultimately have "replicate (4 - length zs) 0 @ zs = replicate 4 0" by (intro steps1_four)
  then have "set zs \<subseteq> {0}" by (metis in_set_replicate set_append Un_iff subsetI singletonI)
  then show ?thesis by (intro replicate_eqI [symmetric, THEN sym]) auto
qed

lemma map2_xor_zero:
  "length xs = length ys \<Longrightarrow> map2 (XOR) xs ys = replicate (length xs) 0 \<Longrightarrow> xs = (ys :: byte list)"
  by (induction xs ys rule: list_induct2) (auto simp: xor_0_iff)

lemma Value_burst:
  assumes "length xs = length ys" and "length xs \<le> 4"
  shows "Value (p @ xs @ q) = Value (p @ ys @ q) \<longleftrightarrow> xs = ys"
proof
  assume "Value (p @ xs @ q) = Value (p @ ys @ q)"
  then have "steps1 0xffffffff (p @ xs @ q) = steps1 0xffffffff (p @ ys @ q)"
    by (simp add: Value_def Extend_def Extend_at_crc crc32c_def xor_cancel flip: steps1_foldl)
  then have "steps1 (steps1 0xffffffff p) xs = steps1 (steps1 0xffffffff p) ys"
    by (simp add: steps1_append steps1_inj)
  then have "steps1 0 (map2 (XOR) xs ys) = 0"
    using steps1_xor [OF assms(1), of "steps1 0xffffffff p" "steps1 0xffffffff p"] by simp
  with steps1_short [of "map2 (XOR) xs ys"] assms have "map2 (XOR) xs ys = replicate (length xs) 0" by simp
  with assms(1) show "xs = ys" by (rule map2_xor_zero)
qed simp

lemma Extend_Value: "Extend (Value a) b = Value (a @ b)"
  by (simp add: Value_def Extend_def Extend_at_crc crc32c_def xor.assoc)

text \<open>Masking for storage can be undone, and loses nothing.\<close>

lemma unmask_mask:
  "Unmask (Mask crc) = crc \<and> Mask (Unmask crc) = crc"
proof -
  have r: "drop_bit 17 (drop_bit 15 x OR push_bit 17 x) OR push_bit 15 (drop_bit 15 x OR push_bit 17 x) = x" for x :: u32
  proof (rule bit_word_eqI)
    fix k assume "k < LENGTH(32)"
    then show "bit (drop_bit 17 (drop_bit 15 x OR push_bit 17 x) OR push_bit 15 (drop_bit 15 x OR push_bit 17 x)) k = bit x k"
      using bit_imp_le_length [of x] by (fastforce simp: bit_or_iff bit_drop_bit_eq bit_push_bit_iff)
  qed
  have r': "drop_bit 15 (drop_bit 17 x OR push_bit 15 x) OR push_bit 17 (drop_bit 17 x OR push_bit 15 x) = x" for x :: u32
  proof (rule bit_word_eqI)
    fix k assume "k < LENGTH(32)"
    then show "bit (drop_bit 15 (drop_bit 17 x OR push_bit 15 x) OR push_bit 17 (drop_bit 17 x OR push_bit 15 x)) k = bit x k"
      using bit_imp_le_length [of x] by (fastforce simp: bit_or_iff bit_drop_bit_eq bit_push_bit_iff)
  qed
  show ?thesis
    unfolding Unmask_def Mask_def Let_def add_diff_cancel_right' r by (simp only: r' diff_add_cancel)
qed

lemmas Unmask_Mask = conjunct1 [OF unmask_mask]

section \<open>Properties\<close>

text \<open>
  C12. The optimised checksum is the CRC-32C: for every address of the data, the routine with four
  tables, which takes bytes up to an aligned address, then sixteen and four at a time, gives the
  remainder of the division that is defined bit by bit.
\<close>

theorem extend_equals_crc32c:
  "Extend_at pval crc buf = crc32c crc buf"
  by (rule Extend_at_crc)

text \<open>
  \<open>Extend\<close> composes, which the writer of the log relies on when it starts from the checksum of
  the record type: the checksum of a concatenation is that of its second part started from that of the
  first, wherever the parts are.
\<close>

theorem extend_append:
  "Extend_at pval (Extend_at pval' crc a) b = Extend_at pval'' crc (a @ b)"
  by (simp add: Extend_at_crc crc32c_def xor.assoc)



end
