(* ===== verification/LdbStatus.thy ===== *)
theory LdbStatus
  imports LdbCoding
begin

text \<open>
  The result of an operation (\<open>include/leveldb/status.h\<close>, \<open>util/status.cc\<close>): a null pointer for
  success, or an array with the length of the message, the code and the message.
\<close>

definition bytes_of :: "string \<Rightarrow> byte list" where
  "bytes_of s = map of_char s"

type_synonym Status = "byte list option"

datatype Code = kOk | kNotFound | kCorruption | kNotSupported | kInvalidArgument | kIOError

fun code_byte :: "Code \<Rightarrow> byte" where
  "code_byte kOk = 0"
| "code_byte kNotFound = 1"
| "code_byte kCorruption = 2"
| "code_byte kNotSupported = 3"
| "code_byte kInvalidArgument = 4"
| "code_byte kIOError = 5"

text \<open>The lengths are cut to 32 bits, and the sum is a number of 32 bits.\<close>

definition make_Status :: "Code \<Rightarrow> slice \<Rightarrow> slice \<Rightarrow> Status" where
  "make_Status code msg msg2 =
     (let len1 = word_of_nat (length msg) :: u32;
          len2 = word_of_nat (length msg2) :: u32;
          n = len1 + (if len2 \<noteq> 0 then 2 + len2 else 0)
      in Some (le_rep 4 (unat n) @ [code_byte code] @ take (unat len1) msg @
               (if len2 \<noteq> 0 then [0x3A, 0x20] @ take (unat len2) msg2 else [])))"

abbreviation (input) OK :: Status where "OK \<equiv> None"

definition NotFound :: "slice \<Rightarrow> slice \<Rightarrow> Status" where "NotFound = make_Status kNotFound"
definition Corruption :: "slice \<Rightarrow> slice \<Rightarrow> Status" where "Corruption = make_Status kCorruption"
definition NotSupported :: "slice \<Rightarrow> slice \<Rightarrow> Status" where "NotSupported = make_Status kNotSupported"
definition InvalidArgument :: "slice \<Rightarrow> slice \<Rightarrow> Status" where "InvalidArgument = make_Status kInvalidArgument"
definition IOError :: "slice \<Rightarrow> slice \<Rightarrow> Status" where "IOError = make_Status kIOError"

definition ok :: "Status \<Rightarrow> bool" where
  "ok s \<longleftrightarrow> s = None"

definition code :: "Status \<Rightarrow> byte" where
  "code s = (case s of None \<Rightarrow> code_byte kOk | Some state \<Rightarrow> state ! 4)"

definition IsNotFound :: "Status \<Rightarrow> bool" where "IsNotFound s \<longleftrightarrow> code s = code_byte kNotFound"
definition IsCorruption :: "Status \<Rightarrow> bool" where "IsCorruption s \<longleftrightarrow> code s = code_byte kCorruption"
definition IsIOError :: "Status \<Rightarrow> bool" where "IsIOError s \<longleftrightarrow> code s = code_byte kIOError"
definition IsNotSupportedError :: "Status \<Rightarrow> bool" where
  "IsNotSupportedError s \<longleftrightarrow> code s = code_byte kNotSupported"
definition IsInvalidArgument :: "Status \<Rightarrow> bool" where
  "IsInvalidArgument s \<longleftrightarrow> code s = code_byte kInvalidArgument"

definition message_length :: "byte list \<Rightarrow> nat" where
  "message_length state = le_val (take 4 state)"

definition CopyState :: "byte list \<Rightarrow> byte list" where
  "CopyState state = take (message_length state + 5) state"

definition copy_Status :: "Status \<Rightarrow> Status" where
  "copy_Status s = (case s of None \<Rightarrow> None | Some state \<Rightarrow> Some (CopyState state))"

text \<open>
  The codes of statuses are those of the constructors; the branch for other codes, which prints
  the number, is not reached and gives an empty name here.
\<close>

definition Status_ToString :: "Status \<Rightarrow> byte list" where
  "Status_ToString s =
     (case s of None \<Rightarrow> bytes_of ''OK''
      | Some state \<Rightarrow>
          let c = code s;
              name = (if c = code_byte kOk then ''OK''
                      else if c = code_byte kNotFound then ''NotFound: ''
                      else if c = code_byte kCorruption then ''Corruption: ''
                      else if c = code_byte kNotSupported then ''Not implemented: ''
                      else if c = code_byte kInvalidArgument then ''Invalid argument: ''
                      else if c = code_byte kIOError then ''IO error: ''
                      else '''')
          in bytes_of name @ take (message_length state) (drop 5 state))"

section \<open>What a status holds\<close>

lemma make_Status_layout:
  assumes "length msg + length msg2 + 2 < 2 ^ 32"
  shows "make_Status c msg msg2 = Some (le_rep 4 (length msg + (if msg2 = [] then 0 else 2 + length msg2)) @
    [code_byte c] @ msg @ (if msg2 = [] then [] else [0x3A, 0x20] @ msg2))"
proof -
  have 1: "unat (word_of_nat (length msg) :: u32) = length msg"
    and 2: "unat (word_of_nat (length msg2) :: u32) = length msg2"
    using assms by (simp_all add: unat_word_of_nat_length)
  have z: "(word_of_nat (length msg2) :: u32) = 0 \<longleftrightarrow> msg2 = []"
    using 2 by (metis length_0_conv unat_eq_zero unat_0)
  have "unat (word_of_nat (length msg) + (if (word_of_nat (length msg2) :: u32) \<noteq> 0 then 2 + word_of_nat (length msg2) else 0) :: u32)
      = length msg + (if msg2 = [] then 0 else 2 + length msg2)"
  proof (cases "msg2 = []")
    case True
    then show ?thesis using 1 by simp
  next
    case False
    have "(word_of_nat (length msg) + (2 + word_of_nat (length msg2)) :: u32) = word_of_nat (length msg + (2 + length msg2))"
      by simp
    moreover have "unat (word_of_nat (length msg + (2 + length msg2)) :: u32) = length msg + (2 + length msg2)"
      by (simp only: unat_of_nat) (use assms in simp)
    ultimately show ?thesis using False z by (simp add: ac_simps)
  qed
  then show ?thesis using z by (simp add: make_Status_def Let_def 1 2)
qed

lemma ok_OK [simp]: "ok OK"
  by (simp add: ok_def)

lemma ok_make_Status [simp]: "\<not> ok (make_Status c m m2)"
  by (simp add: ok_def make_Status_def Let_def)

lemma not_ok_errors [simp]: "\<not> ok (Corruption m m2)" "\<not> ok (NotFound m m2)" "\<not> ok (IOError m m2)"
  "\<not> ok (NotSupported m m2)" "\<not> ok (InvalidArgument m m2)"
  by (simp_all add: Corruption_def NotFound_def IOError_def NotSupported_def InvalidArgument_def)

text \<open>
  A status keeps what it was made from: its code, through copies, and its message, which
  its text shows behind the name of the code and with the two parts joined by a colon.
\<close>

theorem status_contents:
  assumes "length msg + length msg2 + 2 < 2 ^ 32"
  shows "code (make_Status c msg msg2) = code_byte c \<and>
    copy_Status (make_Status c msg msg2) = make_Status c msg msg2 \<and>
    (\<exists>name. Status_ToString (make_Status c msg msg2)
       = bytes_of name @ msg @ (if msg2 = [] then [] else bytes_of '': '' @ msg2))"
proof -
  let ?n = "length msg + (if msg2 = [] then 0 else 2 + length msg2)"
  have n: "le_val (le_rep 4 ?n) = ?n" using assms by (simp add: le_val_le_rep)
  let ?state = "le_rep 4 ?n @ [code_byte c] @ msg @ (if msg2 = [] then [] else [0x3A, 0x20] @ msg2)"
  have ml: "message_length ?state = ?n" by (simp add: message_length_def n)
  have s: "make_Status c msg msg2 = Some ?state" by (rule make_Status_layout [OF assms])
  have "code (Some ?state) = code_byte c" by (simp add: code_def nth_append)
  moreover have "copy_Status (Some ?state) = Some ?state"
    unfolding copy_Status_def CopyState_def option.case ml by (subst take_all) simp_all
  moreover have "take (message_length ?state) (drop 5 ?state) = msg @ (if msg2 = [] then [] else bytes_of '': '' @ msg2)"
  proof -
    have "drop 5 ?state = msg @ (if msg2 = [] then [] else [0x3A, 0x20] @ msg2)" by simp
    moreover have "length (msg @ (if msg2 = [] then [] else [0x3A, 0x20] @ msg2)) = ?n" by simp
    moreover have "bytes_of '': '' = [0x3A, 0x20]" by (simp add: bytes_of_def of_char_def)
    ultimately show ?thesis unfolding ml by (metis append_assoc order_refl take_all)
  qed
  ultimately show ?thesis
    unfolding s by (simp add: Status_ToString_def Let_def del: take_append drop_append) blast
qed

theorem status_contents_witness:
  "IsNotFound (copy_Status (make_Status kNotFound [1] [2]))"
  using status_contents [of "[1]" "[2]" kNotFound] by (simp add: IsNotFound_def)

end
