(* ===== verification/LdbLog.thy ===== *)
theory LdbLog
  imports LdbCrcProps LdbStatus
begin

text \<open>
  The log of leveldb (\<open>db/log_format.h\<close>, \<open>db/log_writer.cc\<close>, \<open>db/log_reader.cc\<close>): records are cut
  into fragments that do not cross the blocks of the file. The files are those of the
  environment, so their operations are parameters: what \<open>Append\<close>, \<open>Flush\<close>, \<open>Read\<close> and \<open>Skip\<close>
  return and how they change the file.
\<close>

section \<open>The format\<close>

abbreviation (input) kZeroType :: nat where "kZeroType \<equiv> 0"
abbreviation (input) kFullType :: nat where "kFullType \<equiv> 1"
abbreviation (input) kFirstType :: nat where "kFirstType \<equiv> 2"
abbreviation (input) kMiddleType :: nat where "kMiddleType \<equiv> 3"
abbreviation (input) kLastType :: nat where "kLastType \<equiv> 4"
abbreviation (input) kMaxRecordType :: nat where "kMaxRecordType \<equiv> kLastType"
abbreviation (input) kEof :: nat where "kEof \<equiv> kMaxRecordType + 1"
abbreviation (input) kBadRecord :: nat where "kBadRecord \<equiv> kMaxRecordType + 2"

definition kBlockSize :: nat where "kBlockSize = 32768"
definition kHeaderSize :: nat where "kHeaderSize = 4 + 2 + 1"

section \<open>The writer\<close>

record 'f WritableFile =
  Append :: "'f \<Rightarrow> slice \<Rightarrow> Status \<times> 'f"
  Flush :: "'f \<Rightarrow> Status \<times> 'f"

record 'f Writer =
  dest :: 'f
  block_offset :: nat
  type_crc :: "u32 list"

definition InitTypeCrc :: "u32 list" where
  "InitTypeCrc = map (\<lambda>i. Value [word_of_nat i]) [0 ..< kMaxRecordType + 1]"

definition make_Writer :: "'f \<Rightarrow> 'f Writer" where
  "make_Writer f = \<lparr>dest = f, block_offset = 0, type_crc = InitTypeCrc\<rparr>"

definition make_Writer_at :: "'f \<Rightarrow> u64 \<Rightarrow> 'f Writer" where
  "make_Writer_at f dest_length =
     \<lparr>dest = f, block_offset = unat dest_length mod kBlockSize, type_crc = InitTypeCrc\<rparr>"

definition EmitPhysicalRecord ::
    "'f WritableFile \<Rightarrow> 'f Writer \<Rightarrow> nat \<Rightarrow> byte list \<Rightarrow> nat \<Rightarrow> Status \<times> 'f Writer" where
  "EmitPhysicalRecord io w t ptr n =
     (let crc = Mask (Extend (type_crc w ! t) (take n ptr));
          buf = EncodeFixed32 crc @ [word_of_nat n AND 0xff, word_of_nat (n div 2 ^ 8), word_of_nat t];
          (s, d) = Append io (dest w) buf;
          (s, d) =
            (if ok s then
               let (s, d) = Append io d (take n ptr) in
               if ok s then Flush io d else (s, d)
             else (s, d))
      in (s, w\<lparr>dest := d, block_offset := block_offset w + (kHeaderSize + n)\<rparr>))"

text \<open>
  The switch to a new block at the start of the loop. The status of the call that fills the
  trailer is not looked at.
\<close>

definition switch_block :: "'f WritableFile \<Rightarrow> 'f Writer \<Rightarrow> 'f Writer" where
  "switch_block io w =
     (let leftover = kBlockSize - block_offset w in
      if leftover < kHeaderSize then
        let d = (if 0 < leftover then snd (Append io (dest w) (replicate leftover 0)) else dest w)
        in w\<lparr>dest := d, block_offset := 0\<rparr>
      else w)"

definition fragment_type :: "bool \<Rightarrow> bool \<Rightarrow> nat" where
  "fragment_type first complete =
     (if first \<and> complete then kFullType else if first then kFirstType
      else if complete then kLastType else kMiddleType)"

definition fragment_length :: "nat \<Rightarrow> nat \<Rightarrow> nat" where
  "fragment_length offset left =
     (let avail = kBlockSize - offset - kHeaderSize in if left < avail then left else avail)"

lemma block_offset_switch [simp]:
  "block_offset (switch_block io w) =
     (if kBlockSize - block_offset w < kHeaderSize then 0 else block_offset w)"
  by (simp add: switch_block_def Let_def)

lemma block_offset_Emit [simp]:
  "block_offset (snd (EmitPhysicalRecord io w t ptr n)) = block_offset w + (kHeaderSize + n)"
  by (simp add: EmitPhysicalRecord_def Let_def split: prod.splits)

text \<open>
  The \<open>do ... while\<close> of \<open>AddRecord\<close>. It ends since each turn takes bytes from the record, except
  one in which only the header fits into the block.
\<close>

definition loop_measure :: "nat \<Rightarrow> byte list \<Rightarrow> nat" where
  "loop_measure offset ptr = 2 * length ptr + (if kBlockSize - offset = kHeaderSize then 1 else 0)"

lemma loop_measure_decreases:
  assumes "start = (if kBlockSize - offset < kHeaderSize then 0 else offset)"
    and "n = fragment_length start (length ptr)" and "n < length ptr"
  shows "loop_measure (start + (kHeaderSize + n)) (drop n ptr) < loop_measure offset ptr"
proof (cases "kBlockSize - offset = kHeaderSize")
  case True
  then have "n = 0" "start = offset" using assms(1,2) by (simp_all add: fragment_length_def Let_def)
  then show ?thesis using True by (simp add: loop_measure_def kBlockSize_def kHeaderSize_def)
next
  case False
  then have "0 < n" using assms by (auto simp: fragment_length_def Let_def kBlockSize_def kHeaderSize_def)
  then have "2 * (length ptr - n) + 2 \<le> 2 * length ptr" using assms(3) by linarith
  then show ?thesis using False by (simp add: loop_measure_def)
qed

function add_fragments ::
    "'f WritableFile \<Rightarrow> 'f Writer \<Rightarrow> byte list \<Rightarrow> bool \<Rightarrow> Status \<times> 'f Writer" where
  "add_fragments io w ptr first =
     (let w' = switch_block io w;
          n = fragment_length (block_offset w') (length ptr);
          t = fragment_type first (length ptr = n);
          e = EmitPhysicalRecord io w' t ptr n
      in if ok (fst e) \<and> n < length ptr then add_fragments io (snd e) (drop n ptr) False else e)"
  by auto
termination
  by (relation "measure (\<lambda>(io, w, ptr, first). loop_measure (block_offset w) ptr)")
    (auto simp del: block_offset_switch simp: block_offset_switch [symmetric]
      intro!: loop_measure_decreases [OF block_offset_switch refl])

declare add_fragments.simps [simp del]

definition AddRecord :: "'f WritableFile \<Rightarrow> 'f Writer \<Rightarrow> slice \<Rightarrow> Status \<times> 'f Writer" where
  "AddRecord io w s = add_fragments io w s True"

section \<open>The reader\<close>

record 'f SequentialFile =
  Read :: "'f \<Rightarrow> nat \<Rightarrow> Status \<times> slice \<times> 'f"
  Skip :: "'f \<Rightarrow> u64 \<Rightarrow> Status \<times> 'f"

text \<open>
  The reporter is null, or the list of what it was told: the number of bytes dropped and the
  reason. Offsets are of type \<open>uint64_t\<close>, and their differences wrap.
\<close>

record 'f Reader =
  source_file :: 'f
  reporter :: "(u64 \<times> Status) list option"
  checksum :: bool
  buffer :: slice
  eof :: bool
  last_record_offset :: u64
  end_of_buffer_offset :: u64
  initial_offset :: u64
  resyncing :: bool

definition make_Reader :: "'f \<Rightarrow> (u64 \<times> Status) list option \<Rightarrow> bool \<Rightarrow> u64 \<Rightarrow> 'f Reader" where
  "make_Reader f rep check initial =
     \<lparr>source_file = f, reporter = rep, checksum = check, buffer = [], eof = False,
      last_record_offset = 0, end_of_buffer_offset = 0, initial_offset = initial, resyncing = 0 < initial\<rparr>"

definition ReportDrop :: "'f Reader \<Rightarrow> u64 \<Rightarrow> Status \<Rightarrow> 'f Reader" where
  "ReportDrop r bytes reason =
     (case reporter r of None \<Rightarrow> r
      | Some log \<Rightarrow>
          if initial_offset r \<le> end_of_buffer_offset r - word_of_nat (length (buffer r)) - bytes
          then r\<lparr>reporter := Some (log @ [(bytes, reason)])\<rparr> else r)"

definition ReportCorruption :: "'f Reader \<Rightarrow> u64 \<Rightarrow> byte list \<Rightarrow> 'f Reader" where
  "ReportCorruption r bytes reason = ReportDrop r bytes (Corruption reason [])"

definition SkipToInitialBlock :: "'f SequentialFile \<Rightarrow> 'f Reader \<Rightarrow> bool \<times> 'f Reader" where
  "SkipToInitialBlock io r =
     (let offset_in_block = initial_offset r mod word_of_nat kBlockSize;
          start = initial_offset r - offset_in_block;
          start = (if word_of_nat kBlockSize - 6 < offset_in_block then start + word_of_nat kBlockSize else start);
          r = r\<lparr>end_of_buffer_offset := start\<rparr>
      in if 0 < start then
           let (skip_status, f) = Skip io (source_file r) start; r = r\<lparr>source_file := f\<rparr> in
           if \<not> ok skip_status then (False, ReportDrop r start skip_status) else (True, r)
         else (True, r))"

text \<open>
  The part of \<open>ReadPhysicalRecord\<close> behind the reading: the buffer has a header. The type is a
  \<open>char\<close>, so that bytes from \<open>0x80\<close> on become large numbers.
\<close>

definition parse_physical :: "'f Reader \<Rightarrow> slice \<Rightarrow> nat \<times> slice \<times> 'f Reader" where
  "parse_physical r result =
     (let header = buffer r;
          a = ucast (header ! 4) AND 0xff :: u32;
          b = ucast (header ! 5) AND 0xff :: u32;
          type = unat (scast (header ! 6) :: u32);
          len = unat (a OR push_bit 8 b)
      in if length header < kHeaderSize + len then
           let drop_size = length (buffer r); r = r\<lparr>buffer := []\<rparr> in
           if \<not> eof r
           then (kBadRecord, result, ReportCorruption r (word_of_nat drop_size) (bytes_of ''bad record length''))
           else (kEof, result, r)
         else if type = kZeroType \<and> len = 0 then (kBadRecord, result, r\<lparr>buffer := []\<rparr>)
         else if checksum r \<and> Value (take (1 + len) (drop 6 header)) \<noteq> Unmask (DecodeFixed32 header) then
           let drop_size = length (buffer r); r = r\<lparr>buffer := []\<rparr> in
           (kBadRecord, result, ReportCorruption r (word_of_nat drop_size) (bytes_of ''checksum mismatch''))
         else
           let r = r\<lparr>buffer := drop (kHeaderSize + len) header\<rparr> in
           if end_of_buffer_offset r - word_of_nat (length (buffer r)) - word_of_nat kHeaderSize - word_of_nat len
                < initial_offset r
           then (kBadRecord, [], r)
           else (type, take len (drop kHeaderSize header), r))"

definition ReadPhysicalRecord ::
    "'f SequentialFile \<Rightarrow> 'f Reader \<Rightarrow> slice \<Rightarrow> (nat \<times> slice \<times> 'f Reader) option" where
  "ReadPhysicalRecord io r result =
     crun (\<lambda>r.
       if length (buffer r) < kHeaderSize then
         if \<not> eof r then
           let (status, buf, f) = Read io (source_file r) kBlockSize;
               r = r\<lparr>source_file := f, buffer := buf,
                     end_of_buffer_offset := end_of_buffer_offset r + word_of_nat (length buf)\<rparr>
           in if \<not> ok status then
                let r = ReportDrop (r\<lparr>buffer := []\<rparr>) (word_of_nat kBlockSize) status
                in Some (Leave (kEof, result, r\<lparr>eof := True\<rparr>))
              else if length buf < kBlockSize then Some (Continue (r\<lparr>eof := True\<rparr>))
              else Some (Continue r)
         else Some (Leave (kEof, result, r\<lparr>buffer := []\<rparr>))
       else Some (Leave (parse_physical r result))) r"

text \<open>Decimal numbers, as \<open>snprintf\<close> prints them.\<close>

fun decimal :: "nat \<Rightarrow> byte list" where
  "decimal n = (if n < 10 then [word_of_nat (48 + n)] else decimal (n div 10) @ [word_of_nat (48 + n mod 10)])"

declare decimal.simps [simp del]

text \<open>
  The state of the loop of \<open>ReadRecord\<close>: whether a fragmented record is being read, what was read of
  it, the offset of its start, the fragment, and the reader. A turn leaves with the record, or
  with \<open>None\<close> at the end of the file.
\<close>

record 'f reading =
  in_fragmented_record :: bool
  scratch :: "byte list"
  prospective_record_offset :: u64
  fragment :: slice
  reader :: "'f Reader"

definition drop_partial :: "'f reading \<Rightarrow> string \<Rightarrow> 'f reading" where
  "drop_partial st msg =
     (if in_fragmented_record st then
        if scratch st = [] then st\<lparr>in_fragmented_record := False\<rparr>
        else st\<lparr>reader := ReportCorruption (reader st) (word_of_nat (length (scratch st))) (bytes_of msg)\<rparr>
      else st)"

definition missing_start :: "'f reading \<Rightarrow> string \<Rightarrow> 'f reading" where
  "missing_start st msg =
     st\<lparr>reader := ReportCorruption (reader st) (word_of_nat (length (fragment st))) (bytes_of msg)\<rparr>"

definition handle_record ::
    "nat \<Rightarrow> u64 \<Rightarrow> 'f reading \<Rightarrow> ('f reading, slice option \<times> 'f Reader) turn" where
  "handle_record record_type physical_record_offset st =
     (if record_type = kFullType then
        let st = drop_partial st ''partial record without end(1)'' in
        Leave (Some (fragment st), (reader st)\<lparr>last_record_offset := physical_record_offset\<rparr>)
      else if record_type = kFirstType then
        let st = drop_partial st ''partial record without end(2)'' in
        Continue (st\<lparr>prospective_record_offset := physical_record_offset,
                     scratch := fragment st, in_fragmented_record := True\<rparr>)
      else if record_type = kMiddleType then
        if \<not> in_fragmented_record st then Continue (missing_start st ''missing start of fragmented record(1)'')
        else Continue (st\<lparr>scratch := scratch st @ fragment st\<rparr>)
      else if record_type = kLastType then
        if \<not> in_fragmented_record st then Continue (missing_start st ''missing start of fragmented record(2)'')
        else Leave (Some (scratch st @ fragment st),
                    (reader st)\<lparr>last_record_offset := prospective_record_offset st\<rparr>)
      else if record_type = kEof then Leave (None, reader st)
      else if record_type = kBadRecord then
        if in_fragmented_record st then
          Continue (st\<lparr>reader := ReportCorruption (reader st) (word_of_nat (length (scratch st)))
                                   (bytes_of ''error in middle of record''),
                       in_fragmented_record := False, scratch := []\<rparr>)
        else Continue st
      else
        Continue (st\<lparr>reader := ReportCorruption (reader st)
                       (word_of_nat (length (fragment st) + (if in_fragmented_record st then length (scratch st) else 0)))
                       (bytes_of ''unknown record type '' @ decimal record_type),
                     in_fragmented_record := False, scratch := []\<rparr>))"

definition read_turn ::
    "'f SequentialFile \<Rightarrow> 'f reading \<Rightarrow> ('f reading, slice option \<times> 'f Reader) turn option" where
  "read_turn io st = do {
     (record_type, frag, r) \<leftarrow> ReadPhysicalRecord io (reader st) (fragment st);
     let physical_record_offset =
           end_of_buffer_offset r - word_of_nat (length (buffer r)) - word_of_nat kHeaderSize
             - word_of_nat (length frag);
     let st = st\<lparr>fragment := frag, reader := r\<rparr>;
     let st' = st\<lparr>reader := r\<lparr>resyncing := False\<rparr>\<rparr>;
     Some (if resyncing r \<and> record_type = kMiddleType then Continue st
           else if resyncing r \<and> record_type = kLastType then Continue st'
           else handle_record record_type physical_record_offset (if resyncing r then st' else st))
   }"

definition ReadRecord :: "'f SequentialFile \<Rightarrow> 'f Reader \<Rightarrow> (slice option \<times> 'f Reader) option" where
  "ReadRecord io r =
     (let (good, r) = (if last_record_offset r < initial_offset r then SkipToInitialBlock io r else (True, r)) in
      if \<not> good then Some (None, r)
      else crun (read_turn io)
             \<lparr>in_fragmented_record = False, scratch = [], prospective_record_offset = 0, fragment = [], reader = r\<rparr>)"

definition LastRecordOffset :: "'f Reader \<Rightarrow> u64" where
  "LastRecordOffset r = last_record_offset r"

end
