(* ===== verification/LdbLogProps.thy ===== *)
theory LdbLogProps
  imports LdbLog
begin

text \<open>
  The log on files that keep what is written: the physical layer of blocks, headers and
  trailers, the logical layer of records over it, and what the reader makes of a log that was
  cut off anywhere.
\<close>

section \<open>Files in memory\<close>

definition memory_file :: "byte list WritableFile" where
  "memory_file = \<lparr>Append = (\<lambda>f d. (OK, f @ d)), Flush = (\<lambda>f. (OK, f))\<rparr>"

definition memory_source :: "byte list SequentialFile" where
  "memory_source = \<lparr>Read = (\<lambda>f n. (OK, take n f, drop n f)), Skip = (\<lambda>f n. (OK, drop (unat n) f))\<rparr>"

section \<open>The layout of a log\<close>

definition hdr :: "nat \<Rightarrow> byte list \<Rightarrow> byte list" where
  "hdr t d = EncodeFixed32 (Mask (Value (word_of_nat t # d))) @
     [word_of_nat (length d) AND 0xff, word_of_nat (length d div 2 ^ 8), word_of_nat t]"

definition phys :: "nat \<Rightarrow> byte list \<Rightarrow> byte list" where
  "phys t d = hdr t d @ d"

definition pad :: "nat \<Rightarrow> byte list" where
  "pad off = (if kBlockSize - off < kHeaderSize then replicate (kBlockSize - off) 0 else [])"

definition start :: "nat \<Rightarrow> nat" where
  "start off = (if kBlockSize - off < kHeaderSize then 0 else off)"

lemma length_hdr [simp]: "length (hdr t d) = 7"
  by (simp add: hdr_def)

lemma length_phys [simp]: "length (phys t d) = 7 + length d"
  by (simp add: phys_def)

lemma start_fits: "start off + 7 \<le> kBlockSize"
  unfolding start_def kBlockSize_def kHeaderSize_def by auto

lemma fragment_fits: "start off + 7 + fragment_length (start off) n \<le> kBlockSize"
  using start_fits [of off] by (auto simp: fragment_length_def Let_def kHeaderSize_def)

text \<open>The fragments of a record, the bytes of a list of fragments, and the offset behind them.\<close>

function chunks :: "nat \<Rightarrow> bool \<Rightarrow> byte list \<Rightarrow> (nat \<times> byte list) list" where
  "chunks off first d =
     (let n = fragment_length (start off) (length d) in
      (fragment_type first (length d = n), take n d) #
      (if n < length d then chunks (start off + (kHeaderSize + n)) False (drop n d) else []))"
  by auto
termination
  by (relation "measure (\<lambda>(off, first, d). loop_measure off d)")
    (auto intro!: loop_measure_decreases [OF start_def refl])

declare chunks.simps [simp del]

fun chunk_bytes :: "nat \<Rightarrow> (nat \<times> byte list) list \<Rightarrow> byte list" where
  "chunk_bytes off [] = []"
| "chunk_bytes off ((t, d) # cs) = pad off @ phys t d @ chunk_bytes (start off + (kHeaderSize + length d)) cs"

fun chunk_end :: "nat \<Rightarrow> (nat \<times> byte list) list \<Rightarrow> nat" where
  "chunk_end off [] = off"
| "chunk_end off ((t, d) # cs) = chunk_end (start off + (kHeaderSize + length d)) cs"

fun log_layout :: "nat \<Rightarrow> byte list list \<Rightarrow> byte list" where
  "log_layout off [] = []"
| "log_layout off (r # rs) =
     chunk_bytes off (chunks off True r) @ log_layout (chunk_end off (chunks off True r)) rs"

section \<open>The writer writes the layout\<close>

lemma type_crc_nth: "t \<le> 4 \<Longrightarrow> InitTypeCrc ! t = Value [word_of_nat t]"
  by (simp add: InitTypeCrc_def nth_append del: upt_Suc)

lemma Emit_memory:
  assumes "type_crc w = InitTypeCrc" and "t \<le> 4" and "n \<le> length ptr"
  shows "EmitPhysicalRecord memory_file w t ptr n
    = (OK, w\<lparr>dest := dest w @ phys t (take n ptr), block_offset := block_offset w + (kHeaderSize + n)\<rparr>)"
  using assms
  by (simp add: EmitPhysicalRecord_def memory_file_def Let_def type_crc_nth Extend_Value phys_def hdr_def min_absorb2)

lemma switch_memory:
  "switch_block memory_file w = w\<lparr>dest := dest w @ pad (block_offset w), block_offset := start (block_offset w)\<rparr>"
  by (simp add: switch_block_def Let_def memory_file_def pad_def start_def)

lemma fragment_type_bounds: "1 \<le> fragment_type b e" "fragment_type b e \<le> 6" "fragment_type b e \<le> 4"
  by (simp_all add: fragment_type_def)

lemma fragment_length_le: "fragment_length off n \<le> n"
  by (simp add: fragment_length_def Let_def)

lemma add_fragments_memory:
  "type_crc w = InitTypeCrc \<Longrightarrow>
   add_fragments memory_file w d first =
     (OK, w\<lparr>dest := dest w @ chunk_bytes (block_offset w) (chunks (block_offset w) first d),
            block_offset := chunk_end (block_offset w) (chunks (block_offset w) first d)\<rparr>)"
proof (induction "block_offset w" first d arbitrary: w rule: chunks.induct)
  case (1 first d)
  let ?off = "block_offset w"
  let ?n = "fragment_length (start ?off) (length d)"
  let ?t = "fragment_type first (length d = ?n)"
  let ?w = "w\<lparr>dest := dest w @ pad ?off @ phys ?t (take ?n d), block_offset := start ?off + (kHeaderSize + ?n)\<rparr>"
  have e: "EmitPhysicalRecord memory_file (switch_block memory_file w) ?t d ?n = (OK, ?w)"
    using 1(2) by (simp add: switch_memory Emit_memory fragment_type_bounds fragment_length_le)
  have len: "length (take ?n d) = ?n" using fragment_length_le by simp
  show ?case
  proof (cases "?n < length d")
    case True
    have "add_fragments memory_file ?w (drop ?n d) False =
      (OK, ?w\<lparr>dest := dest ?w @ chunk_bytes (block_offset ?w) (chunks (block_offset ?w) False (drop ?n d)),
            block_offset := chunk_end (block_offset ?w) (chunks (block_offset ?w) False (drop ?n d))\<rparr>)"
      by (rule 1(1) [OF refl True]) (use 1(2) in simp_all)
    then show ?thesis
      using True e len
      by (simp add: add_fragments.simps [of memory_file w] chunks.simps [of ?off first d] switch_memory Let_def)
  next
    case False
    then show ?thesis
      using e len
      by (simp add: add_fragments.simps [of memory_file w] chunks.simps [of ?off first d] switch_memory Let_def)
  qed
qed

definition log_writer :: "byte list list \<Rightarrow> byte list Writer" where
  "log_writer rs = foldl (\<lambda>w r. snd (AddRecord memory_file w r)) (make_Writer []) rs"

definition log_bytes :: "byte list list \<Rightarrow> byte list" where
  "log_bytes rs = dest (log_writer rs)"

lemma log_writer_layout:
  "type_crc w = InitTypeCrc \<Longrightarrow>
   dest (foldl (\<lambda>w r. snd (AddRecord memory_file w r)) w rs) = dest w @ log_layout (block_offset w) rs"
  by (induction rs arbitrary: w) (simp_all add: AddRecord_def add_fragments_memory)

lemma log_bytes_layout: "log_bytes rs = log_layout 0 rs"
  by (simp add: log_bytes_def log_writer_def log_writer_layout make_Writer_def)

section \<open>Physical records\<close>

lemma len_field:
  assumes "n < 65536"
  shows "unat ((ucast (word_of_nat n AND 0xff :: byte) AND 0xff) OR push_bit 8 (ucast (word_of_nat (n div 2 ^ 8) :: byte) AND 0xff) :: u32) = n"
proof -
  let ?a = "word_of_nat (n mod 256) :: u32" and ?b = "word_of_nat (n div 256) :: u32"
  have low: "(ucast (word_of_nat m :: byte) AND 0xff :: u32) = word_of_nat (m mod 256)" for m
  proof -
    have "(ucast (word_of_nat m :: byte) AND 0xff :: u32) = ucast (word_of_nat m :: byte)"
      unfolding and_ff by (rule bit_word_eqI) (auto simp: bit_take_bit_iff bit_unsigned_iff dest: bit_imp_le_length)
    also have "\<dots> = word_of_nat (unat (word_of_nat m :: byte))" by simp
    also have "unat (word_of_nat m :: byte) = m mod 256" by (simp add: unat_of_nat)
    finally show ?thesis .
  qed
  have ff: "(word_of_nat n AND 0xff :: byte) = word_of_nat n"
  proof -
    have "(0xff :: byte) = - 1" by simp
    then show ?thesis by (simp only: and.right_neutral)
  qed
  have b: "n div 256 mod 256 = n div 256" using assms by simp
  have "?a OR push_bit 8 ?b = ?a + push_bit 8 ?b"
  proof (rule disjunctive_add [symmetric])
    fix k show "\<not> bit ?a k \<or> \<not> bit (push_bit 8 ?b) k"
    proof (cases "k < 8")
      case False
      have "n mod 256 < 2 ^ 8" by simp
      then have "\<not> bit (n mod 256) k"
        using False by (metis bit_take_bit_iff take_bit_nat_eq_self)
      then show ?thesis by (simp only: bit_of_nat_iff) simp
    qed (simp add: bit_push_bit_iff)
  qed
  also have "\<dots> = word_of_nat (n mod 256 + 256 * (n div 256))"
    unfolding push_bit_word_of_nat by (simp only: of_nat_add) simp
  also have "n mod 256 + 256 * (n div 256) = n" by simp
  finally have "?a OR push_bit 8 ?b = word_of_nat n" .
  then have "unat (?a OR push_bit 8 ?b) = unat (word_of_nat n :: u32)" by (simp only:)
  also have "\<dots> = n" by (simp only: unat_of_nat) (use assms in simp)
  finally show ?thesis unfolding ff low using b by simp
qed

lemma type_field: "t \<le> 6 \<Longrightarrow> unat (scast (word_of_nat t :: byte) :: u32) = t"
proof -
  assume "t \<le> 6"
  then consider "t = 0" | "t = 1" | "t = 2" | "t = 3" | "t = 4" | "t = 5" | "t = 6" by linarith
  then show ?thesis by cases simp_all
qed

lemma header_fields:
  assumes "header = hdr t d @ rest" and "length d < 65536"
  shows "unat ((ucast (header ! 4) AND 0xff) OR push_bit 8 (ucast (header ! 5) AND 0xff) :: u32) = length d"
    and "header ! 6 = word_of_nat t"
    and "DecodeFixed32 header = Mask (Value (word_of_nat t # d))"
    and "drop 6 header = word_of_nat t # rest" and "drop 7 header = rest"
proof -
  have h: "header ! 4 = word_of_nat (length d) AND 0xff" "header ! 5 = word_of_nat (length d div 2 ^ 8)"
    unfolding assms(1) hdr_def by (simp_all add: nth_append)
  show "unat ((ucast (header ! 4) AND 0xff) OR push_bit 8 (ucast (header ! 5) AND 0xff) :: u32) = length d"
    unfolding h by (rule len_field [OF assms(2)])
  show "header ! 6 = word_of_nat t" unfolding assms(1) hdr_def by (simp add: nth_append)
  show "DecodeFixed32 header = Mask (Value (word_of_nat t # d))"
    unfolding assms(1) hdr_def by (simp add: DecodeFixed32_Encode)
  show "drop 6 header = word_of_nat t # rest" "drop 7 header = rest"
    unfolding assms(1) hdr_def by simp_all
qed

lemma kHeaderSize_7: "kHeaderSize = 7"
  by (simp add: kHeaderSize_def)

lemma parse_chunk:
  assumes "buffer r = phys t d @ b" and "length d < 65536" and "1 \<le> t" and "t \<le> 6" and "initial_offset r = 0"
  shows "parse_physical r res = (t, d, r\<lparr>buffer := b\<rparr>)"
proof -
  have h: "buffer r = hdr t d @ (d @ b)" by (simp add: assms(1) phys_def)
  have "length (buffer r) = 7 + length d + length b" by (simp add: assms(1))
  moreover have "drop (7 + length d) (buffer r) = b" unfolding assms(1) by (simp add: phys_def)
  ultimately show ?thesis
    unfolding parse_physical_def Let_def header_fields [OF h assms(2)] type_field [OF assms(4)] kHeaderSize_7
    using assms(3,5) header_fields [OF h assms(2)] by (simp add: Unmask_Mask)
qed

lemma parse_cut:
  assumes "buffer r = take k (phys t d)" and "7 \<le> k" and "k < 7 + length d" and "length d < 65536" and "eof r"
  shows "parse_physical r res = (kEof, res, r\<lparr>buffer := []\<rparr>)"
proof -
  have h: "buffer r = hdr t d @ take (k - 7) d" using assms(1,2) by (simp add: phys_def)
  have "length (buffer r) < 7 + length d" using assms(3) by (simp add: assms(1))
  then show ?thesis
    unfolding parse_physical_def Let_def header_fields [OF h assms(4)] kHeaderSize_7 using assms(5) by simp
qed

section \<open>Reading physical records\<close>

lemma ReadPhysicalRecord_parse:
  "kHeaderSize \<le> length (buffer r) \<Longrightarrow> ReadPhysicalRecord io r res = Some (parse_physical r res)"
  unfolding ReadPhysicalRecord_def by (rule crun_Leave) simp

lemma ReadPhysicalRecord_eof:
  "length (buffer r) < kHeaderSize \<Longrightarrow> eof r \<Longrightarrow>
     ReadPhysicalRecord io r res = Some (kEof, res, r\<lparr>buffer := []\<rparr>)"
  unfolding ReadPhysicalRecord_def by (rule crun_Leave) simp

definition refill :: "byte list Reader \<Rightarrow> byte list Reader" where
  "refill r =
     r\<lparr>source_file := drop kBlockSize (source_file r), buffer := take kBlockSize (source_file r),
       end_of_buffer_offset := end_of_buffer_offset r + word_of_nat (length (take kBlockSize (source_file r))),
       eof := length (source_file r) < kBlockSize\<rparr>"

lemma refill_simps [simp]:
  "source_file (refill r) = drop kBlockSize (source_file r)"
  "buffer (refill r) = take kBlockSize (source_file r)"
  "eof (refill r) \<longleftrightarrow> length (source_file r) < kBlockSize"
  "initial_offset (refill r) = initial_offset r" "resyncing (refill r) = resyncing r"
  "reporter (refill r) = reporter r"
  by (simp_all add: refill_def)

lemma ReadPhysicalRecord_refill:
  "length (buffer r) < kHeaderSize \<Longrightarrow> \<not> eof r \<Longrightarrow>
     ReadPhysicalRecord memory_source r res = ReadPhysicalRecord memory_source (refill r) res"
  unfolding ReadPhysicalRecord_def
  by (rule crun_Continue) (auto simp: memory_source_def refill_def Let_def not_less)

text \<open>
  The reader behind what it has given: \<open>u\<close> is what it has not given, from offset \<open>off\<close> of its
  block on. It has the rest of a whole block in its buffer, or, when the file has ended, everything.
\<close>

definition phys_inv :: "byte list Reader \<Rightarrow> nat \<Rightarrow> byte list \<Rightarrow> bool" where
  "phys_inv r off u \<longleftrightarrow>
     u = buffer r @ source_file r \<and> off \<le> kBlockSize \<and> initial_offset r = 0 \<and> \<not> resyncing r \<and>
     (if eof r then source_file r = [] \<and> length (buffer r) \<le> kBlockSize - off
      else length (buffer r) = (kBlockSize - off) mod kBlockSize)"

text \<open>
  Before the header is parsed, the reader has a buffer that starts behind the trailer: either
  as it is, or after a refill.
\<close>

lemma ReadPhysicalRecord_ready:
  assumes inv: "phys_inv r off u" and u: "u = pad off @ v"
  shows "\<exists>r'. ReadPhysicalRecord memory_source r res = ReadPhysicalRecord memory_source r' res \<and>
    v = buffer r' @ source_file r' \<and> initial_offset r' = 0 \<and> \<not> resyncing r' \<and> reporter r' = reporter r \<and>
    (if eof r' then source_file r' = [] \<and> length (buffer r') \<le> kBlockSize - start off
     else length (buffer r') = kBlockSize - start off)"
proof -
  have B: "kBlockSize = 32768" "kHeaderSize = 7" by (simp_all add: kBlockSize_def kHeaderSize_def)
  have ub: "u = buffer r @ source_file r" and off: "off \<le> kBlockSize"
    and zero: "initial_offset r = 0" "\<not> resyncing r" using inv by (simp_all add: phys_inv_def)
  have refilled: ?thesis if "length (buffer r) < kHeaderSize" "\<not> eof r" "source_file r = v" "start off = 0"
  proof (intro exI [of _ "refill r"] conjI)
    show "ReadPhysicalRecord memory_source r res = ReadPhysicalRecord memory_source (refill r) res"
      using that by (intro ReadPhysicalRecord_refill)
  qed (use that zero in auto)
  show ?thesis
  proof (cases "kBlockSize - off < kHeaderSize")
    case True
    have s: "start off = 0" and p: "pad off = replicate (kBlockSize - off) 0"
      using True by (simp_all add: start_def pad_def)
    show ?thesis
    proof (cases "eof r")
      case True
      then have "source_file r = []" "length (buffer r) \<le> kBlockSize - off"
        using inv by (simp_all add: phys_inv_def)
      then have "v = []" "length (buffer r) = kBlockSize - off" using u ub p by (auto dest: arg_cong [of _ _ length])
      with True \<open>kBlockSize - off < kHeaderSize\<close> \<open>source_file r = []\<close> zero s
      have "ReadPhysicalRecord memory_source r res = ReadPhysicalRecord memory_source (r\<lparr>buffer := []\<rparr>) res"
        by (simp add: ReadPhysicalRecord_eof B)
      with \<open>v = []\<close> True \<open>source_file r = []\<close> zero show ?thesis
        by (intro exI [of _ "r\<lparr>buffer := []\<rparr>"]) simp
    next
      case False
      then have "length (buffer r) = (kBlockSize - off) mod kBlockSize" using inv by (simp add: phys_inv_def)
      then have len: "length (buffer r) = kBlockSize - off" using True by (simp add: B)
      then have "source_file r = v" using u ub p by simp
      then show ?thesis using refilled len True False s by simp
    qed
  next
    case False
    have s: "start off = off" and p: "pad off = []" using False by (simp_all add: start_def pad_def)
    show ?thesis
    proof (cases "\<not> eof r \<and> off = 0")
      case True
      then have "buffer r = []" using inv by (simp add: phys_inv_def)
      then show ?thesis using refilled True s u ub p by (simp add: B)
    next
      case False
      have "eof r \<or> (kBlockSize - off) mod kBlockSize = kBlockSize - off" using False by (auto simp: B)
      then show ?thesis using inv u p s zero by (intro exI [of _ r]) (auto simp: phys_inv_def)
    qed
  qed
qed

lemma read_chunk:
  assumes inv: "phys_inv r off u" and u: "u = pad off @ phys t d @ u'"
    and t: "1 \<le> t" "t \<le> 6" and fits: "start off + 7 + length d \<le> kBlockSize"
  shows "\<exists>r'. ReadPhysicalRecord memory_source r res = Some (t, d, r') \<and>
    phys_inv r' (start off + (kHeaderSize + length d)) u' \<and> reporter r' = reporter r"
proof -
  from ReadPhysicalRecord_ready [OF inv u, of res] obtain r1
    where eq: "ReadPhysicalRecord memory_source r res = ReadPhysicalRecord memory_source r1 res"
      and v: "phys t d @ u' = buffer r1 @ source_file r1"
      and z: "initial_offset r1 = 0" "\<not> resyncing r1" "reporter r1 = reporter r"
      and b: "if eof r1 then source_file r1 = [] \<and> length (buffer r1) \<le> kBlockSize - start off
              else length (buffer r1) = kBlockSize - start off" by blast
  have "7 + length d \<le> length (buffer r1)"
  proof (cases "eof r1")
    case True
    then show ?thesis using arg_cong [OF v, of length] b by simp
  next
    case False
    then show ?thesis using b fits by simp
  qed
  then have n: "take (7 + length d) (buffer r1) = phys t d" "u' = drop (7 + length d) (buffer r1) @ source_file r1"
    using arg_cong [OF v, of "take (7 + length d)"] arg_cong [OF v, of "drop (7 + length d)"] by simp_all
  define bs where "bs = drop (7 + length d) (buffer r1)"
  have bs: "buffer r1 = phys t d @ bs" "u' = bs @ source_file r1"
    using n by (simp_all add: bs_def) (metis append_take_drop_id)
  have "length d < 65536" using fits by (simp add: kBlockSize_def)
  then have "ReadPhysicalRecord memory_source r1 res = Some (t, d, r1\<lparr>buffer := bs\<rparr>)"
    using parse_chunk [OF bs(1) _ t z(1)] by (simp add: ReadPhysicalRecord_parse bs(1) kHeaderSize_def)
  moreover have "phys_inv (r1\<lparr>buffer := bs\<rparr>) (start off + (kHeaderSize + length d)) u'"
    using z bs b fits by (auto simp: phys_inv_def kHeaderSize_def kBlockSize_def split: if_splits)
  ultimately show ?thesis using eq z(3) by (intro exI [of _ "r1\<lparr>buffer := bs\<rparr>"]) simp
qed

text \<open>A physical record that was cut off is the end of the file, and nothing is reported.\<close>

lemma read_cut:
  assumes inv: "phys_inv r off u" and u: "u = take k (pad off @ phys t d)" "k < length (pad off @ phys t d)"
    and fits: "start off + 7 + length d \<le> kBlockSize"
  shows "\<exists>r'. ReadPhysicalRecord memory_source r res = Some (kEof, res, r') \<and> reporter r' = reporter r \<and> \<not> resyncing r'"
proof (cases "k < length (pad off)")
  case True
  then have len: "length u < kBlockSize - off" "kBlockSize - off < kHeaderSize"
    using u by (auto simp: pad_def split: if_splits)
  have "length (buffer r) \<le> length u" using inv by (simp add: phys_inv_def)
  then have small: "length (buffer r) < kHeaderSize" using len by simp
  have "eof r"
  proof (rule ccontr)
    assume "\<not> eof r"
    then have "length (buffer r) = (kBlockSize - off) mod kBlockSize" using inv by (simp add: phys_inv_def)
    then have "length (buffer r) = kBlockSize - off" using len(2) by (simp add: kBlockSize_def kHeaderSize_def)
    then show False using \<open>length (buffer r) \<le> length u\<close> len(1) by simp
  qed
  then show ?thesis using small inv by (auto simp: ReadPhysicalRecord_eof phys_inv_def)
next
  case False
  define v where "v = take (k - length (pad off)) (phys t d)"
  have uv: "u = pad off @ v" using u False by (simp add: v_def)
  have lv: "length v < 7 + length d" using u(2) False by (simp add: v_def)
  from ReadPhysicalRecord_ready [OF inv uv, of res] obtain r1
    where eq: "ReadPhysicalRecord memory_source r res = ReadPhysicalRecord memory_source r1 res"
      and v: "v = buffer r1 @ source_file r1"
      and z: "initial_offset r1 = 0" "\<not> resyncing r1" "reporter r1 = reporter r"
      and b: "if eof r1 then source_file r1 = [] \<and> length (buffer r1) \<le> kBlockSize - start off
              else length (buffer r1) = kBlockSize - start off" by blast
  have e: "eof r1"
  proof (rule ccontr)
    assume "\<not> eof r1"
    then have "7 + length d \<le> length (buffer r1)" using b fits by simp
    then show False using arg_cong [OF v, of length] lv by simp
  qed
  then have bv: "buffer r1 = v" using b v by simp
  have "ReadPhysicalRecord memory_source r1 res = Some (kEof, res, r1\<lparr>buffer := []\<rparr>)"
  proof (cases "length v < 7")
    case True
    then show ?thesis using e bv by (simp add: ReadPhysicalRecord_eof kHeaderSize_def)
  next
    case False
    have "length d < 65536" using fits by (simp add: kBlockSize_def)
    moreover have "buffer r1 = take (k - length (pad off)) (phys t d)" by (simp add: bv v_def)
    moreover have "7 \<le> k - length (pad off)" using False by (simp add: v_def)
    moreover have "k - length (pad off) < 7 + length d" using u(2) \<open>\<not> k < length (pad off)\<close> by simp
    ultimately have "parse_physical r1 res = (kEof, res, r1\<lparr>buffer := []\<rparr>)"
      using e by (intro parse_cut)
    then show ?thesis using False bv by (simp add: ReadPhysicalRecord_parse kHeaderSize_def)
  qed
  then show ?thesis using eq z by (intro exI [of _ "r1\<lparr>buffer := []\<rparr>"]) simp
qed

section \<open>Reading records\<close>

lemma chunk_step:
  obtains n where "n = fragment_length (start off) (length d)" "n \<le> length d"
    "start off + 7 + n \<le> kBlockSize"
    "chunks off first d = (fragment_type first (length d = n), take n d) #
      (if n < length d then chunks (start off + (kHeaderSize + n)) False (drop n d) else [])"
  using fragment_length_le fragment_fits [of off] chunks.simps [of off first d] by (simp add: Let_def)

lemma chunk_end_bound: "chunk_end off (chunks off first d) \<le> kBlockSize"
proof (induction off first d rule: chunks.induct)
  case (1 off first d)
  obtain n where n: "n = fragment_length (start off) (length d)" "n \<le> length d" "start off + 7 + n \<le> kBlockSize"
    and c: "chunks off first d = (fragment_type first (length d = n), take n d) #
      (if n < length d then chunks (start off + (kHeaderSize + n)) False (drop n d) else [])"
    by (rule chunk_step)
  show ?case
  proof (cases "n < length d")
    case True
    from 1 [OF n(1) True] True n show ?thesis by (simp add: c)
  qed (use n c in \<open>simp add: kHeaderSize_7\<close>)
qed

text \<open>One turn of the loop for each fragment.\<close>

lemma read_turn_chunk:
  assumes "phys_inv (reader st) off u" and "u = pad off @ phys t d @ u'"
    and "1 \<le> t" "t \<le> 6" and "start off + 7 + length d \<le> kBlockSize"
  shows "\<exists>r' o'. read_turn memory_source st = Some (handle_record t o' (st\<lparr>fragment := d, reader := r'\<rparr>)) \<and>
    phys_inv r' (start off + (kHeaderSize + length d)) u' \<and> reporter r' = reporter (reader st)"
proof -
  from read_chunk [OF assms, of "fragment st"] obtain r'
    where r: "ReadPhysicalRecord memory_source (reader st) (fragment st) = Some (t, d, r')"
      "phys_inv r' (start off + (kHeaderSize + length d)) u'" "reporter r' = reporter (reader st)" by blast
  moreover have "\<not> resyncing r'" using r(2) by (simp add: phys_inv_def)
  ultimately show ?thesis by (auto simp: read_turn_def Let_def)
qed

lemma read_turn_cut:
  assumes "phys_inv (reader st) off u" and "u = take k (pad off @ phys t d)" and "k < length (pad off @ phys t d)"
    and "start off + 7 + length d \<le> kBlockSize"
  shows "\<exists>r'. read_turn memory_source st = Some (Leave (None, r')) \<and> reporter r' = reporter (reader st)"
proof -
  from read_cut [OF assms, of "fragment st"] obtain r'
    where "ReadPhysicalRecord memory_source (reader st) (fragment st) = Some (kEof, fragment st, r')"
      "reporter r' = reporter (reader st)" "\<not> resyncing r'" by blast
  then show ?thesis by (auto simp: read_turn_def Let_def handle_record_def)
qed

lemma read_record:
  "phys_inv (reader st) off (chunk_bytes off (chunks off first d) @ u') \<Longrightarrow>
   in_fragmented_record st \<longleftrightarrow> \<not> first \<Longrightarrow>
   \<exists>r'. crun (read_turn memory_source) st = Some (Some ((if first then [] else scratch st) @ d), r') \<and>
     phys_inv r' (chunk_end off (chunks off first d)) u' \<and> reporter r' = reporter (reader st)"
proof (induction off first d arbitrary: st rule: chunks.induct)
  case (1 off first d)
  obtain n where n: "n = fragment_length (start off) (length d)" "n \<le> length d" "start off + 7 + n \<le> kBlockSize"
    and c: "chunks off first d = (fragment_type first (length d = n), take n d) #
      (if n < length d then chunks (start off + (kHeaderSize + n)) False (drop n d) else [])"
    by (rule chunk_step)
  let ?t = "fragment_type first (length d = n)"
  let ?off = "start off + (kHeaderSize + n)"
  let ?more = "if n < length d then chunks ?off False (drop n d) else []"
  have len: "length (take n d) = n" using n(2) by simp
  from 1(2) have "phys_inv (reader st) off (pad off @ phys ?t (take n d) @ chunk_bytes ?off ?more @ u')"
    unfolding c chunk_bytes.simps len append_assoc .
  from read_turn_chunk [OF this refl fragment_type_bounds(1,2)] n(3) len obtain r' o'
    where turn: "read_turn memory_source st = Some (handle_record ?t o' (st\<lparr>fragment := take n d, reader := r'\<rparr>))"
      and inv: "phys_inv r' ?off (chunk_bytes ?off ?more @ u')" and rep: "reporter r' = reporter (reader st)" by auto
  show ?case
  proof (cases "n < length d")
    case False
    then have "n = length d" using n(2) by simp
    with turn 1(3) have "read_turn memory_source st
        = Some (Leave (Some ((if first then [] else scratch st) @ d),
            r'\<lparr>last_record_offset := (if first then o' else prospective_record_offset st)\<rparr>))"
      by (cases first) (simp_all add: handle_record_def fragment_type_def drop_partial_def)
    then have "crun (read_turn memory_source) st
        = Some (Some ((if first then [] else scratch st) @ d),
            r'\<lparr>last_record_offset := (if first then o' else prospective_record_offset st)\<rparr>)"
      by (rule crun_Leave)
    with inv rep False show ?thesis
      by (auto simp: c \<open>n = length d\<close> phys_inv_def split: if_splits)
  next
    case True
    define st' where "st' = (if first
      then st\<lparr>fragment := take n d, reader := r', prospective_record_offset := o', scratch := take n d,
              in_fragmented_record := True\<rparr>
      else st\<lparr>fragment := take n d, reader := r', scratch := scratch st @ take n d\<rparr>)"
    have "read_turn memory_source st = Some (Continue st')"
      using turn 1(3) True by (cases first) (simp_all add: handle_record_def fragment_type_def drop_partial_def st'_def)
    then have run: "crun (read_turn memory_source) st = crun (read_turn memory_source) st'" by (rule crun_Continue)
    have "reader st' = r'" and frag: "in_fragmented_record st'"
      and scr: "scratch st' @ drop n d = (if first then [] else scratch st) @ d"
      using 1(3) by (simp_all add: st'_def)
    then have "phys_inv (reader st') ?off (chunk_bytes ?off (chunks ?off False (drop n d)) @ u')"
      using inv True by simp
    from 1(1) [OF n(1) True this] frag obtain r''
      where "crun (read_turn memory_source) st' = Some (Some (scratch st' @ drop n d), r'')"
        "phys_inv r'' (chunk_end ?off (chunks ?off False (drop n d))) u'" "reporter r'' = reporter (reader st')"
      by auto
    with run scr True rep \<open>reader st' = r'\<close> show ?thesis by (auto simp: c len)
  qed
qed

lemma read_record_cut:
  "phys_inv (reader st) off (take k (chunk_bytes off (chunks off first d))) \<Longrightarrow>
   k < length (chunk_bytes off (chunks off first d)) \<Longrightarrow> in_fragmented_record st \<longleftrightarrow> \<not> first \<Longrightarrow>
   \<exists>r'. crun (read_turn memory_source) st = Some (None, r') \<and> reporter r' = reporter (reader st)"
proof (induction off first d arbitrary: st k rule: chunks.induct)
  case (1 off first d)
  obtain n where n: "n = fragment_length (start off) (length d)" "n \<le> length d" "start off + 7 + n \<le> kBlockSize"
    and c: "chunks off first d = (fragment_type first (length d = n), take n d) #
      (if n < length d then chunks (start off + (kHeaderSize + n)) False (drop n d) else [])"
    by (rule chunk_step)
  let ?t = "fragment_type first (length d = n)"
  let ?off = "start off + (kHeaderSize + n)"
  let ?p = "pad off @ phys ?t (take n d)"
  have len: "length (take n d) = n" using n(2) by simp
  show ?case
  proof (cases "k < length ?p")
    case True
    then have "take k (chunk_bytes off (chunks off first d)) = take k ?p" by (simp add: c del: length_phys)
    then have inv: "phys_inv (reader st) off (take k ?p)" using 1(2) by simp
    have "start off + 7 + length (take n d) \<le> kBlockSize" using n(3) len by simp
    from read_turn_cut [OF inv refl True this] obtain r'
      where turn: "read_turn memory_source st = Some (Leave (None, r'))" and "reporter r' = reporter (reader st)" by blast
    from turn have "crun (read_turn memory_source) st = Some (None, r')" by (rule crun_Leave)
    then show ?thesis using \<open>reporter r' = reporter (reader st)\<close> by blast
  next
    case False
    have more: "n < length d"
    proof (rule ccontr)
      assume "\<not> n < length d"
      then have "length (chunk_bytes off (chunks off first d)) = length ?p" by (simp add: c)
      then show False using 1(3) False by simp
    qed
    let ?rest = "chunk_bytes ?off (chunks ?off False (drop n d))"
    have tk: "take k (chunk_bytes off (chunks off first d)) = pad off @ phys ?t (take n d) @ take (k - length ?p) ?rest"
      using False unfolding c chunk_bytes.simps len if_P [OF more] by (simp add: take_append)
    from 1(2) have "phys_inv (reader st) off (pad off @ phys ?t (take n d) @ take (k - length ?p) ?rest)"
      unfolding tk .
    from read_turn_chunk [OF this refl fragment_type_bounds(1,2)] n(3) len obtain r' o'
      where turn: "read_turn memory_source st = Some (handle_record ?t o' (st\<lparr>fragment := take n d, reader := r'\<rparr>))"
        and inv: "phys_inv r' ?off (take (k - length ?p) ?rest)" and rep: "reporter r' = reporter (reader st)" by auto
    define st' where "st' = (if first
      then st\<lparr>fragment := take n d, reader := r', prospective_record_offset := o', scratch := take n d,
              in_fragmented_record := True\<rparr>
      else st\<lparr>fragment := take n d, reader := r', scratch := scratch st @ take n d\<rparr>)"
    have "read_turn memory_source st = Some (Continue st')"
      using turn 1(4) more by (cases first) (simp_all add: handle_record_def fragment_type_def drop_partial_def st'_def)
    then have run: "crun (read_turn memory_source) st = crun (read_turn memory_source) st'" by (rule crun_Continue)
    have st': "reader st' = r'" "in_fragmented_record st'" using 1(4) by (simp_all add: st'_def)
    have "k - length ?p < length ?rest"
      using 1(3) False unfolding c chunk_bytes.simps len if_P [OF more] by simp
    moreover have "phys_inv (reader st') ?off (take (k - length ?p) ?rest)" using inv st'(1) by simp
    ultimately obtain r'' where "crun (read_turn memory_source) st' = Some (None, r'')" "reporter r'' = reporter (reader st')"
      using 1(1) [OF n(1) more, of st' "k - length ?p"] st'(2) by blast
    with run rep st'(1) show ?thesis by simp
  qed
qed

section \<open>Reading a log\<close>

text \<open>All records until the reader says there are no more, as the recovery of the database reads them.\<close>

definition read_all_turn ::
    "'f SequentialFile \<Rightarrow> byte list list \<times> 'f Reader
      \<Rightarrow> (byte list list \<times> 'f Reader, byte list list \<times> 'f Reader) turn option" where
  "read_all_turn io = (\<lambda>(acc, r). do {
     (rec, r) \<leftarrow> ReadRecord io r;
     Some (case rec of None \<Rightarrow> Leave (acc, r) | Some x \<Rightarrow> Continue (acc @ [x], r))
   })"

definition ReadAll :: "'f SequentialFile \<Rightarrow> 'f Reader \<Rightarrow> (byte list list \<times> 'f Reader) option" where
  "ReadAll io r = crun (read_all_turn io) ([], r)"

lemma ReadRecord_start:
  "initial_offset r = 0 \<Longrightarrow> ReadRecord io r = crun (read_turn io)
     \<lparr>in_fragmented_record = False, scratch = [], prospective_record_offset = 0, fragment = [], reader = r\<rparr>"
  by (simp add: ReadRecord_def)

lemma length_log_layout_take: "length (log_layout off (take k rs)) \<le> length (log_layout off rs)"
proof (induction rs arbitrary: off k)
  case (Cons r rs)
  then show ?case by (cases k) simp_all
qed simp

lemma read_log:
  "phys_inv r off (take n (log_layout off rs)) \<Longrightarrow>
   \<exists>k r'. crun (read_all_turn memory_source) (acc, r) = Some (acc @ take k rs, r') \<and> reporter r' = reporter r \<and> k \<le> length rs \<and>
     length (log_layout off (take k rs)) \<le> n \<and>
     (k < length rs \<longrightarrow> n < length (log_layout off (take (Suc k) rs)))"
proof (induction rs arbitrary: off n acc r)
  case Nil
  let ?st = "\<lparr>in_fragmented_record = False, scratch = [], prospective_record_offset = 0, fragment = [], reader = r\<rparr>"
  have z: "initial_offset r = 0" using Nil by (simp add: phys_inv_def)
  have "phys_inv (reader ?st) off (take 0 (pad off @ phys 1 []))" using Nil by simp
  from read_turn_cut [OF this refl] start_fits [of off] obtain r'
    where turn: "read_turn memory_source ?st = Some (Leave (None, r'))" and "reporter r' = reporter r" by auto
  from turn have "crun (read_turn memory_source) ?st = Some (None, r')" by (rule crun_Leave)
  then have "read_all_turn memory_source (acc, r) = Some (Leave (acc, r'))"
    by (simp add: read_all_turn_def ReadRecord_start [OF z])
  then have "crun (read_all_turn memory_source) (acc, r) = Some (acc, r')" by (rule crun_Leave)
  then show ?case using \<open>reporter r' = reporter r\<close> by auto
next
  case (Cons d rs)
  let ?cs = "chunks off True d"
  let ?st = "\<lparr>in_fragmented_record = False, scratch = [], prospective_record_offset = 0, fragment = [], reader = r\<rparr>"
  have z: "initial_offset r = 0" using Cons.prems by (simp add: phys_inv_def)
  show ?case
  proof (cases "n < length (chunk_bytes off ?cs)")
    case True
    then have "phys_inv (reader ?st) off (take n (chunk_bytes off ?cs))" using Cons.prems by simp
    from read_record_cut [OF this True] obtain r'
      where run: "crun (read_turn memory_source) ?st = Some (None, r')" and "reporter r' = reporter r" by auto
    then have "read_all_turn memory_source (acc, r) = Some (Leave (acc, r'))" by (simp add: read_all_turn_def ReadRecord_start [OF z])
    then have "crun (read_all_turn memory_source) (acc, r) = Some (acc, r')" by (rule crun_Leave)
    then show ?thesis using \<open>reporter r' = reporter r\<close> True
      by (intro exI [of _ 0] exI [of _ r']) simp
  next
    case False
    let ?n = "n - length (chunk_bytes off ?cs)" and ?off = "chunk_end off ?cs"
    have "phys_inv (reader ?st) off (chunk_bytes off ?cs @ take ?n (log_layout ?off rs))"
      using Cons.prems False by (simp add: take_append)
    from read_record [OF this] obtain r'
      where run: "crun (read_turn memory_source) ?st = Some (Some d, r')"
        and inv: "phys_inv r' ?off (take ?n (log_layout ?off rs))" and rep: "reporter r' = reporter r" by auto
    from run have "read_all_turn memory_source (acc, r) = Some (Continue (acc @ [d], r'))" by (simp add: read_all_turn_def ReadRecord_start [OF z])
    then have step: "crun (read_all_turn memory_source) (acc, r) = crun (read_all_turn memory_source) (acc @ [d], r')" by (rule crun_Continue)
    from Cons.IH [OF inv, of "acc @ [d]"] obtain k r''
      where ih: "crun (read_all_turn memory_source) (acc @ [d], r') = Some ((acc @ [d]) @ take k rs, r'')" "reporter r'' = reporter r'"
        "k \<le> length rs" "length (log_layout ?off (take k rs)) \<le> ?n"
        "k < length rs \<longrightarrow> ?n < length (log_layout ?off (take (Suc k) rs))" by blast
    show ?thesis
    proof (intro exI conjI)
      show "crun (read_all_turn memory_source) (acc, r) = Some (acc @ take (Suc k) (d # rs), r'')" unfolding step ih(1) by simp
      show "reporter r'' = reporter r" using ih(2) rep by simp
      show "Suc k \<le> length (d # rs)" using ih(3) by simp
      show "length (log_layout off (take (Suc k) (d # rs))) \<le> n" using ih(4) False by simp
      show "Suc k < length (d # rs) \<longrightarrow> n < length (log_layout off (take (Suc (Suc k)) (d # rs)))"
        using ih(5) False by auto
    qed
  qed
qed

lemma phys_inv_start: "phys_inv (make_Reader f rep chk 0) 0 f"
  by (simp add: phys_inv_def make_Reader_def)

lemma ReadAll_memory:
  obtains k r' where "ReadAll memory_source (make_Reader (take n (log_bytes rs)) rep chk 0) = Some (take k rs, r')"
    "reporter r' = rep" "k \<le> length rs" "length (log_bytes (take k rs)) \<le> n"
    "k < length rs \<Longrightarrow> n < length (log_bytes (take (Suc k) rs))"
proof -
  have "phys_inv (make_Reader (take n (log_bytes rs)) rep chk 0) 0 (take n (log_layout 0 rs))"
    using phys_inv_start by (simp add: log_bytes_layout)
  from read_log [OF this, of "[]"] obtain k r' where
    "crun (read_all_turn memory_source) ([], make_Reader (take n (log_bytes rs)) rep chk 0) = Some (take k rs, r')"
    "reporter r' = reporter (make_Reader (take n (log_bytes rs)) rep chk 0)" "k \<le> length rs"
    "length (log_layout 0 (take k rs)) \<le> n" "k < length rs \<longrightarrow> n < length (log_layout 0 (take (Suc k) rs))" by auto
  then show ?thesis
    by (intro that [of k r']) (simp_all add: ReadAll_def log_bytes_layout make_Reader_def)
qed

section \<open>Properties\<close>

text \<open>
  C15. Round trip of the log: the records that were written are the records that are read, in
  their order and whole, whatever their lengths, and nothing is reported as corrupt.
\<close>

theorem log_roundtrip:
  "\<exists>r'. ReadAll memory_source (make_Reader (log_bytes rs) (Some []) chk 0) = Some (rs, r') \<and> reporter r' = Some []"
proof -
  let ?n = "length (log_bytes rs)"
  obtain k r' where r: "ReadAll memory_source (make_Reader (take ?n (log_bytes rs)) (Some []) chk 0) = Some (take k rs, r')"
    "reporter r' = Some []" "k < length rs \<Longrightarrow> ?n < length (log_bytes (take (Suc k) rs))"
    using ReadAll_memory [of ?n rs "Some []" chk] by blast
  have "\<not> k < length rs"
    using r(3) length_log_layout_take [of 0 "Suc k" rs] by (auto simp: log_bytes_layout)
  with r show ?thesis by simp
qed

text \<open>
  C16. Recovery after a crash: from a log that was cut off at any byte, the reader gives exactly
  the records that had been written completely, and then the end of the file without a report
  of corruption.
\<close>

theorem log_crash_recovery:
  "\<exists>k r'. ReadAll memory_source (make_Reader (take n (log_bytes rs)) (Some []) chk 0) = Some (take k rs, r') \<and>
     reporter r' = Some [] \<and> length (log_bytes (take k rs)) \<le> n \<and>
     (k = length rs \<or> k < length rs \<and> n < length (log_bytes (take (Suc k) rs)))"
proof -
  obtain k r' where "ReadAll memory_source (make_Reader (take n (log_bytes rs)) (Some []) chk 0) = Some (take k rs, r')"
    "reporter r' = Some []" "k \<le> length rs" "length (log_bytes (take k rs)) \<le> n"
    "k < length rs \<Longrightarrow> n < length (log_bytes (take (Suc k) rs))"
    using ReadAll_memory [of n rs "Some []" chk] by blast
  then show ?thesis by (intro exI [of _ k] exI [of _ r']) auto
qed



text \<open>
  C18. The code shares the values of record types with its own results: a physical record whose
  type byte is 5, which no writer makes but whose checksum is right, is taken for the end of
  the file, so that the records behind it are lost without a report.
\<close>

theorem eof_type_hides_log:
  assumes "length d \<le> 32761"
  shows "\<exists>r'. ReadRecord memory_source (make_Reader (phys 5 d @ rest) (Some []) chk 0) = Some (None, r') \<and>
    reporter r' = Some []"
proof -
  let ?r = "make_Reader (phys 5 d @ rest) (Some []) chk 0"
  let ?st = "\<lparr>in_fragmented_record = False, scratch = [], prospective_record_offset = 0, fragment = [], reader = ?r\<rparr>"
  have "phys_inv (reader ?st) 0 (pad 0 @ phys 5 d @ rest)"
    using phys_inv_start by (simp add: pad_def kBlockSize_def kHeaderSize_def)
  from read_turn_chunk [OF this refl] assms obtain r' o'
    where "read_turn memory_source ?st = Some (handle_record 5 o' (?st\<lparr>fragment := d, reader := r'\<rparr>))"
      and rep: "reporter r' = reporter (reader ?st)"
    by (auto simp: start_def kBlockSize_def kHeaderSize_def)
  then have "read_turn memory_source ?st = Some (Leave (None, r'))" by (simp add: handle_record_def)
  then have "crun (read_turn memory_source) ?st = Some (None, r')" by (rule crun_Leave)
  then show ?thesis using rep by (auto simp: ReadRecord_start make_Reader_def)
qed

theorem eof_type_hides_log_witness:
  "\<exists>r'. ReadRecord memory_source (make_Reader (phys 5 [1, 2] @ phys 1 [3]) (Some []) True 0) = Some (None, r')"
  using eof_type_hides_log [of "[1, 2]" "phys 1 [3]" True] by auto

end
