(* ===== verification/LdbBloom.thy ===== *)
theory LdbBloom
  imports LdbCoding
begin

text \<open>
  The hash function (\<open>util/hash.cc\<close>), the interface of a filter policy
  (\<open>include/leveldb/filter_policy.h\<close>) as a locale, and the built-in Bloom filter
  (\<open>util/bloom.cc\<close>), which is shown to meet it: a filter never hides a key it was made for.
\<close>

section \<open>The hash function\<close>

text \<open>The loop that takes four bytes at a time; the remaining bytes are returned.\<close>

function hash_words :: "u32 \<Rightarrow> byte list \<Rightarrow> u32 \<times> byte list" where
  "hash_words h data =
     (if 4 \<le> length data then
        let w = DecodeFixed32 data;
            h = h + w;
            h = h * 0xc6a4a793;
            h = h XOR drop_bit 16 h
        in hash_words h (drop 4 data)
      else (h, data))"
  by auto
termination by (relation "measure (\<lambda>(h, data). length data)") auto

declare hash_words.simps [simp del]

text \<open>
  The length is a \<open>size_t\<close>, so that its product with the 32-bit constant is taken modulo \<open>2 ^ 64\<close>,
  and cut to 32 bits with the seed. The cases of the \<open>switch\<close> fall through.
\<close>

definition Hash :: "byte list \<Rightarrow> u32 \<Rightarrow> u32" where
  "Hash data seed =
     (let m = 0xc6a4a793 :: u32;
          r = 24;
          h = ucast ((ucast seed :: u64) XOR (word_of_nat (length data) * ucast m));
          (h, data) = hash_words h data;
          h = (if length data = 3 then h + push_bit 16 (ucast (data ! 2)) else h);
          h = (if length data = 3 \<or> length data = 2 then h + push_bit 8 (ucast (data ! 1)) else h)
      in if length data = 3 \<or> length data = 2 \<or> length data = 1 then
           let h = h + ucast (data ! 0);
               h = h * m
           in h XOR drop_bit r h
         else h)"

section \<open>Filter policies\<close>

text \<open>
  What a table relies on. \<open>CreateFilter\<close> appends the filter of a list of keys to a string; the
  keys are counted with an \<open>int\<close>. A filter may match keys it was not made for, never the
  other way round.
\<close>

record FilterPolicy =
  CreateFilter :: "slice list \<Rightarrow> byte list \<Rightarrow> byte list"
  KeyMayMatch :: "slice \<Rightarrow> slice \<Rightarrow> bool"

locale filter_policy =
  fixes policy :: FilterPolicy
  assumes create_appends: "\<exists>filter. \<forall>dst. CreateFilter policy keys dst = dst @ filter"
    and no_false_negative:
      "length keys < 2 ^ 31 \<Longrightarrow> key \<in> set keys \<Longrightarrow> KeyMayMatch policy key (CreateFilter policy keys [])"
begin

lemma create_append: "CreateFilter policy keys dst = dst @ CreateFilter policy keys []"
proof -
  from create_appends [of keys] obtain f where "\<forall>dst. CreateFilter policy keys dst = dst @ f" by blast
  then show ?thesis by simp
qed

end

section \<open>The Bloom filter\<close>

definition BloomHash :: "slice \<Rightarrow> u32" where
  "BloomHash key = Hash key 0xbc9f1d34"

record BloomFilterPolicy =
  bits_per_key :: nat
  k_probes :: nat

text \<open>
  The number of probes is \<open>bits_per_key * 0.69\<close> rounded down. Below 44 bits per key, where the
  product is under the limit of 30, rounding the floating-point product down gives the same
  number as rounding the exact one.
\<close>

definition make_BloomFilterPolicy :: "nat \<Rightarrow> BloomFilterPolicy" where
  "make_BloomFilterPolicy bits =
     (let k = bits * 69 div 100;
          k = (if k < 1 then 1 else k);
          k = (if k > 30 then 30 else k)
      in \<lparr>bits_per_key = bits, k_probes = k\<rparr>)"

definition rotate_hash :: "u32 \<Rightarrow> u32" where
  "rotate_hash h = drop_bit 17 h OR push_bit 15 h"

text \<open>The loop over the probes of one key, which sets bits of the array.\<close>

fun set_probes :: "nat \<Rightarrow> u32 \<Rightarrow> u32 \<Rightarrow> nat \<Rightarrow> byte list \<Rightarrow> byte list" where
  "set_probes 0 h delta bits array = array"
| "set_probes (Suc k) h delta bits array =
     (let bitpos = unat h mod bits in
      set_probes k (h + delta) delta bits
        (array[bitpos div 8 := array ! (bitpos div 8) OR push_bit (bitpos mod 8) 1]))"

text \<open>
  \<open>n * bits_per_key_\<close> does not wrap since both factors are of type \<open>int\<close>. The probes change only the
  part that was appended to \<open>dst\<close>.
\<close>

definition BloomCreateFilter :: "BloomFilterPolicy \<Rightarrow> slice list \<Rightarrow> byte list \<Rightarrow> byte list" where
  "BloomCreateFilter p keys dst =
     (let bits = length keys * bits_per_key p;
          bits = (if bits < 64 then 64 else bits);
          bytes = (bits + 7) div 8;
          bits = bytes * 8;
          array = foldl (\<lambda>array key.
                    let h = BloomHash key in set_probes (k_probes p) h (rotate_hash h) bits array)
                    (replicate bytes 0) keys
      in dst @ array @ [word_of_nat (k_probes p)])"

text \<open>The loop over the probes of one key, which leaves at the first bit that is not set.\<close>

fun test_probes :: "nat \<Rightarrow> u32 \<Rightarrow> u32 \<Rightarrow> nat \<Rightarrow> byte list \<Rightarrow> bool" where
  "test_probes 0 h delta bits array = True"
| "test_probes (Suc k) h delta bits array =
     (let bitpos = unat h mod bits in
      if array ! (bitpos div 8) AND push_bit (bitpos mod 8) 1 = 0 then False
      else test_probes k (h + delta) delta bits array)"

text \<open>The number of probes is read as a \<open>char\<close>; a negative one is a large \<open>size_t\<close>.\<close>

definition BloomKeyMayMatch :: "BloomFilterPolicy \<Rightarrow> slice \<Rightarrow> slice \<Rightarrow> bool" where
  "BloomKeyMayMatch p key bloom_filter =
     (let len = length bloom_filter in
      if len < 2 then False
      else
        let bits = (len - 1) * 8;
            k = unat (scast (bloom_filter ! (len - 1)) :: u64)
        in if k > 30 then True
           else let h = BloomHash key in test_probes k h (rotate_hash h) bits bloom_filter)"

definition bloom_policy :: "nat \<Rightarrow> FilterPolicy" where
  "bloom_policy bits =
     (let p = make_BloomFilterPolicy bits
      in \<lparr>CreateFilter = BloomCreateFilter p, KeyMayMatch = BloomKeyMayMatch p\<rparr>)"

section \<open>A filter matches its keys\<close>

text \<open>The bits that are set in an array.\<close>

definition bit_at :: "byte list \<Rightarrow> nat \<Rightarrow> bool" where
  "bit_at array n \<longleftrightarrow> bit (array ! (n div 8)) (n mod 8)"

fun probes :: "nat \<Rightarrow> u32 \<Rightarrow> u32 \<Rightarrow> nat \<Rightarrow> nat set" where
  "probes 0 h delta bits = {}"
| "probes (Suc k) h delta bits = insert (unat h mod bits) (probes k (h + delta) delta bits)"

lemma test_bit: "x AND 2 ^ n = 0 \<longleftrightarrow> \<not> bit x n" for x :: byte
  by (rule and_exp_eq_0_iff_not_bit)

lemma test_probes_iff: "test_probes k h delta bits array \<longleftrightarrow> (\<forall>n \<in> probes k h delta bits. bit_at array n)"
  by (induction k arbitrary: h) (simp_all add: Let_def test_bit bit_at_def)

lemma length_set_probes [simp]: "length (set_probes k h delta bits array) = length array"
  by (induction k arbitrary: h array) (simp_all add: Let_def)

lemma bit_at_set:
  assumes "b < 8 * length array"
  shows "bit_at (array[b div 8 := array ! (b div 8) OR push_bit (b mod 8) 1]) n \<longleftrightarrow> bit_at array n \<or> n = b"
proof -
  have i: "b div 8 < length array" using assms by (simp add: div_less_iff_less_mult)
  have "n = b \<longleftrightarrow> n div 8 = b div 8 \<and> n mod 8 = b mod 8"
    by (metis div_mult_mod_eq)
  then show ?thesis using i
    by (cases "n div 8 = b div 8") (auto simp: bit_at_def bit_or_iff bit_exp_iff)
qed

lemma bit_at_set_probes:
  assumes "0 < bits" and "bits = 8 * length array"
  shows "bit_at (set_probes k h delta bits array) n \<longleftrightarrow> bit_at array n \<or> n \<in> probes k h delta bits"
  using assms(2)
proof (induction k arbitrary: h array)
  case (Suc k)
  let ?b = "unat h mod bits"
  let ?a = "array[?b div 8 := array ! (?b div 8) OR push_bit (?b mod 8) 1]"
  have "?b < 8 * length array" using assms(1) Suc.prems by (metis mod_less_divisor)
  then have "bit_at ?a n \<longleftrightarrow> bit_at array n \<or> n = ?b" by (rule bit_at_set)
  moreover have "bits = 8 * length ?a" using Suc.prems by (simp only: length_list_update)
  from Suc.IH [OF this, of "h + delta"]
  have "bit_at (set_probes (Suc k) h delta bits array) n \<longleftrightarrow> bit_at ?a n \<or> n \<in> probes k (h + delta) delta bits"
    by (simp only: set_probes.simps Let_def)
  ultimately show ?case by auto
qed simp

abbreviation (input) key_probes :: "nat \<Rightarrow> nat \<Rightarrow> slice \<Rightarrow> nat set" where
  "key_probes k bits key \<equiv> probes k (BloomHash key) (rotate_hash (BloomHash key)) bits"

lemma bit_at_keys:
  fixes k :: nat
  assumes "0 < bits" and "bits = 8 * length array"
  defines "step \<equiv> \<lambda>array key. let h = BloomHash key in set_probes k h (rotate_hash h) bits array"
  shows "length (foldl step array keys) = length array
    \<and> (bit_at (foldl step array keys) n \<longleftrightarrow> bit_at array n \<or> (\<exists>key \<in> set keys. n \<in> key_probes k bits key))"
  using assms(2)
proof (induction keys arbitrary: array)
  case (Cons key keys)
  have len: "length (step array key) = length array" by (simp add: step_def Let_def)
  then have "bits = 8 * length (step array key)" using Cons.prems by simp
  from Cons.IH [OF this] show ?case
    using len bit_at_set_probes [OF assms(1) Cons.prems] by (auto simp: step_def Let_def)
qed simp

lemma length_BloomCreateFilter:
  "length (BloomCreateFilter p keys dst) = length dst + (max 64 (length keys * bits_per_key p) + 7) div 8 + 1"
proof -
  let ?bytes = "(max 64 (length keys * bits_per_key p) + 7) div 8"
  have "8 \<le> max 64 (length keys * bits_per_key p) + 7" by linarith
  then have "0 < ?bytes * 8" by (simp only: div_greater_zero_iff nat_0_less_mult_iff) simp
  from conjunct1 [OF bit_at_keys [OF this, of "replicate ?bytes 0" "k_probes p" keys]]
  have "length (foldl (\<lambda>array key. let h = BloomHash key in set_probes (k_probes p) h (rotate_hash h) (?bytes * 8) array)
      (replicate ?bytes 0) keys) = ?bytes" by simp
  moreover have "(if n < 64 then 64 else n) = max 64 n" for n :: nat by (simp add: max_def)
  ultimately show ?thesis by (simp add: BloomCreateFilter_def Let_def)
qed

lemma k_probes_bounds: "0 < k_probes (make_BloomFilterPolicy b) \<and> k_probes (make_BloomFilterPolicy b) \<le> 30"
  by (simp add: make_BloomFilterPolicy_def Let_def)

lemma small_byte_signed:
  assumes "k < 128"
  shows "unat (scast (word_of_nat k :: byte) :: u64) = k"
proof -
  have "sint (word_of_nat k :: byte) = int k"
    using assms by (simp add: sint_uint signed_take_bit_int_eq_self uint_nat unat_of_nat)
  then have "(scast (word_of_nat k :: byte) :: u64) = word_of_nat k" by (simp add: scast_eq)
  then show ?thesis using assms by (simp only: unat_of_nat) simp
qed

lemma probes_bound: "0 < bits \<Longrightarrow> n \<in> probes k h delta bits \<Longrightarrow> n < bits"
  by (induction k arbitrary: h) auto

lemma bloom_match:
  assumes "k_probes p \<le> 30" and "key \<in> set keys"
  shows "BloomKeyMayMatch p key (BloomCreateFilter p keys [])"
proof -
  define bits where "bits = (let bits = length keys * bits_per_key p in if bits < 64 then 64 else bits)"
  define bytes where "bytes = (bits + 7) div 8"
  define array where "array = foldl (\<lambda>array key.
      let h = BloomHash key in set_probes (k_probes p) h (rotate_hash h) (bytes * 8) array) (replicate bytes 0) keys"
  have f: "BloomCreateFilter p keys [] = array @ [word_of_nat (k_probes p)]"
    by (simp add: BloomCreateFilter_def array_def bytes_def bits_def Let_def)
  have "64 \<le> bits" by (simp add: bits_def Let_def)
  then have pos: "0 < bytes" by (simp add: bytes_def)
  have len: "length array = bytes"
    and bits: "bit_at array n \<longleftrightarrow> bit_at (replicate bytes 0) n \<or> (\<exists>key \<in> set keys. n \<in> key_probes (k_probes p) (bytes * 8) key)" for n
    using bit_at_keys [of "bytes * 8" "replicate bytes 0" "k_probes p" keys n] pos by (simp_all add: array_def)
  have k: "unat (scast (word_of_nat (k_probes p) :: byte) :: u64) = k_probes p"
    by (rule small_byte_signed) (use assms(1) in simp)
  have "test_probes (k_probes p) (BloomHash key) (rotate_hash (BloomHash key)) (bytes * 8) (array @ [x])" for x
    unfolding test_probes_iff
  proof
    fix n assume n: "n \<in> key_probes (k_probes p) (bytes * 8) key"
    then have "n < bytes * 8" using probes_bound pos by auto
    then have "n div 8 < length array" by (simp add: len div_less_iff_less_mult)
    moreover have "bit_at array n" using n assms(2) bits by blast
    ultimately show "bit_at (array @ [x]) n" by (simp add: bit_at_def nth_append)
  qed
  then show ?thesis unfolding f BloomKeyMayMatch_def Let_def
    using len pos k assms(1) by (simp add: nth_append)
qed

interpretation bloom: filter_policy "bloom_policy b" for b
proof
  show "\<exists>filter. \<forall>dst. CreateFilter (bloom_policy b) keys dst = dst @ filter" for keys
    by (simp add: bloom_policy_def BloomCreateFilter_def Let_def)
  show "KeyMayMatch (bloom_policy b) key (CreateFilter (bloom_policy b) keys [])" if "key \<in> set keys" for key keys
    using bloom_match [OF _ that] k_probes_bounds by (simp add: bloom_policy_def Let_def)
qed

end
