(* ===== verification/LdbOffsets.thy ===== *)
theory LdbOffsets
  imports LdbCoding
begin

text \<open>
  Tables of offsets: several formats write their parts one behind the other and remember where each
  part starts.
\<close>

section \<open>Offsets into a concatenation\<close>

text \<open>The positions at which the parts of a concatenation start.\<close>

definition offs :: "'a list list \<Rightarrow> nat list" where
  "offs xss = map (\<lambda>i. length (concat (take i xss))) [0 ..< length xss]"

lemma length_offs [simp]: "length (offs xss) = length xss"
  by (simp add: offs_def)

lemma offs_Nil [simp]: "offs [] = []"
  by (simp add: offs_def)

lemma offs_snoc [simp]: "offs (xss @ [xs]) = offs xss @ [length (concat xss)]"
  by (simp add: offs_def)

lemma offs_nth: "i < length xss \<Longrightarrow> (offs xss @ [length (concat xss)]) ! i = length (concat (take i xss))"
  by (simp add: offs_def nth_append)

lemma offs_end_nth: "i \<le> length xss \<Longrightarrow> (offs xss @ [length (concat xss)]) ! i = length (concat (take i xss))"
  by (cases "i = length xss") (simp_all add: offs_def nth_append)

lemma concat_part:
  assumes "i < length xss"
  shows "take (length (concat (take (i + 1) xss)) - length (concat (take i xss)))
           (drop (length (concat (take i xss))) (concat xss @ rest)) = xss ! i"
proof -
  have "xss = take i xss @ xss ! i # drop (Suc i) xss" using assms by (simp add: id_take_nth_drop)
  then have "concat xss = concat (take i xss) @ xss ! i @ concat (drop (Suc i) xss)"
    by (metis concat.simps(2) concat_append)
  moreover have "concat (take (i + 1) xss) = concat (take i xss) @ xss ! i"
    using assms by (simp add: take_Suc_conv_app_nth)
  ultimately show ?thesis by simp
qed

lemma concat_take_le: "length (concat (take i xss)) \<le> length (concat xss)"
  by (metis append_take_drop_id concat_append length_append le_add1)

end
