(* ===== verification/LdbFilterBlock.thy ===== *)
theory LdbFilterBlock
  imports LdbBloom LdbFormat LdbOffsets
begin

text \<open>
  The filter block of a table (\<open>table/filter_block.cc\<close>): the builder, the reader, and the wrapper that
  lets a policy for user keys work on internal keys (\<open>InternalFilterPolicy\<close> of \<open>db/dbformat.cc\<close>).
  Both are clients of the locale of a filter policy. The result is that the block never hides a key
  that was added for a data block.
\<close>

section \<open>The wrapper for internal keys\<close>

definition InternalFilterPolicy :: "FilterPolicy \<Rightarrow> FilterPolicy" where
  "InternalFilterPolicy user_policy =
     \<lparr>CreateFilter = \<lambda>keys dst. CreateFilter user_policy (map ExtractUserKey keys) dst,
      KeyMayMatch = \<lambda>key f. KeyMayMatch user_policy (ExtractUserKey key) f\<rparr>"

context filter_policy
begin

lemma internal_policy: "filter_policy (InternalFilterPolicy policy)"
proof
  show "\<exists>filter. \<forall>dst. CreateFilter (InternalFilterPolicy policy) keys dst = dst @ filter" for keys
    using create_appends by (simp add: InternalFilterPolicy_def)
  show "KeyMayMatch (InternalFilterPolicy policy) key (CreateFilter (InternalFilterPolicy policy) keys [])"
    if "length keys < 2 ^ 31" "key \<in> set keys" for key keys
    using no_false_negative [of "map ExtractUserKey keys"] that by (simp add: InternalFilterPolicy_def)
qed

end

interpretation internal_bloom: filter_policy "InternalFilterPolicy (bloom_policy b)" for b
  by (rule bloom.internal_policy)

section \<open>The builder\<close>

definition kFilterBaseLg :: nat where "kFilterBaseLg = 11"
definition kFilterBase :: nat where "kFilterBase = 2 ^ kFilterBaseLg"

record FilterBlockBuilder =
  flat_keys :: "byte list"
  key_starts :: "nat list"
  filter_data :: "byte list"
  filter_offsets :: "u32 list"

definition make_FilterBlockBuilder :: FilterBlockBuilder where
  "make_FilterBlockBuilder = \<lparr>flat_keys = [], key_starts = [], filter_data = [], filter_offsets = []\<rparr>"

definition GenerateFilter :: "FilterPolicy \<Rightarrow> FilterBlockBuilder \<Rightarrow> FilterBlockBuilder" where
  "GenerateFilter policy b =
     (let num_keys = length (key_starts b) in
      if num_keys = 0 then b\<lparr>filter_offsets := filter_offsets b @ [word_of_nat (length (filter_data b))]\<rparr>
      else
        let starts = key_starts b @ [length (flat_keys b)];
            tmp_keys = map (\<lambda>i. take (starts ! (i + 1) - starts ! i) (drop (starts ! i) (flat_keys b))) [0 ..< num_keys]
        in b\<lparr>filter_offsets := filter_offsets b @ [word_of_nat (length (filter_data b))],
             filter_data := CreateFilter policy tmp_keys (filter_data b),
             flat_keys := [], key_starts := []\<rparr>)"

lemma filter_offsets_Generate [simp]: "length (filter_offsets (GenerateFilter policy b)) = Suc (length (filter_offsets b))"
  by (simp add: GenerateFilter_def Let_def)

function fill_filters :: "FilterPolicy \<Rightarrow> nat \<Rightarrow> FilterBlockBuilder \<Rightarrow> FilterBlockBuilder" where
  "fill_filters policy filter_index b =
     (if length (filter_offsets b) < filter_index
      then fill_filters policy filter_index (GenerateFilter policy b) else b)"
  by auto
termination by (relation "measure (\<lambda>(policy, i, b). i - length (filter_offsets b))") auto

declare fill_filters.simps [simp del]

text \<open>\<open>None\<close> stands for the failure of the assertion that the blocks come in their order.\<close>

definition StartBlock :: "FilterPolicy \<Rightarrow> FilterBlockBuilder \<Rightarrow> u64 \<Rightarrow> FilterBlockBuilder option" where
  "StartBlock policy b block_offset =
     (let filter_index = unat block_offset div kFilterBase in
      if length (filter_offsets b) \<le> filter_index then Some (fill_filters policy filter_index b) else None)"

definition AddKey :: "FilterBlockBuilder \<Rightarrow> slice \<Rightarrow> FilterBlockBuilder" where
  "AddKey b key = b\<lparr>key_starts := key_starts b @ [length (flat_keys b)], flat_keys := flat_keys b @ key\<rparr>"

definition FilterBlockFinish :: "FilterPolicy \<Rightarrow> FilterBlockBuilder \<Rightarrow> slice \<times> FilterBlockBuilder" where
  "FilterBlockFinish policy b =
     (let b = (if key_starts b \<noteq> [] then GenerateFilter policy b else b);
          array_offset = word_of_nat (length (filter_data b));
          data = foldl PutFixed32 (filter_data b) (filter_offsets b);
          data = PutFixed32 data array_offset @ [word_of_nat kFilterBaseLg]
      in (data, b\<lparr>filter_data := data\<rparr>))"

section \<open>The reader\<close>

text \<open>
  \<open>block_data\<close> is empty and \<open>num_filters\<close> is zero where the pointers stay null. The shift that
  finds the filter is undefined for a \<open>base_lg\<close> of 64 or more, which comes from the file; a
  byte from \<open>0x80\<close> on becomes a large \<open>size_t\<close>.
\<close>

record FilterBlockReader =
  block_data :: slice
  offset_array :: nat
  num_filters :: nat
  base_lg :: nat

definition make_FilterBlockReader :: "slice \<Rightarrow> FilterBlockReader" where
  "make_FilterBlockReader contents =
     (let n = length contents;
          r = \<lparr>block_data = [], offset_array = 0, num_filters = 0, base_lg = 0\<rparr>
      in if n < 5 then r
         else
           let r = r\<lparr>base_lg := unat (scast (contents ! (n - 1)) :: u64)\<rparr>;
               last_word = unat (DecodeFixed32 (drop (n - 5) contents))
           in if n - 5 < last_word then r
              else r\<lparr>block_data := contents, offset_array := last_word, num_filters := (n - 5 - last_word) div 4\<rparr>)"

definition FilterKeyMayMatch :: "FilterPolicy \<Rightarrow> FilterBlockReader \<Rightarrow> u64 \<Rightarrow> slice \<Rightarrow> bool option" where
  "FilterKeyMayMatch policy r block_offset key =
     (if 64 \<le> base_lg r then None
      else
        let index = unat (drop_bit (base_lg r) block_offset) in
        if index < num_filters r then
          let start = DecodeFixed32 (drop (offset_array r + index * 4) (block_data r));
              limit = DecodeFixed32 (drop (offset_array r + index * 4 + 4) (block_data r))
          in if start \<le> limit \<and> unat limit \<le> offset_array r
             then Some (KeyMayMatch policy key (take (unat limit - unat start) (drop (unat start) (block_data r))))
             else if start = limit then Some False
             else Some True
        else Some True)"

section \<open>What the builder has built\<close>

context filter_policy
begin

definition seg :: "slice list \<Rightarrow> byte list" where
  "seg ks = (if ks = [] then [] else CreateFilter policy ks [])"

text \<open>\<open>fs\<close> are the key lists of the filters built so far, \<open>ks\<close> the keys that wait for the next one.\<close>

definition built :: "FilterBlockBuilder \<Rightarrow> slice list list \<Rightarrow> slice list \<Rightarrow> bool" where
  "built b fs ks \<longleftrightarrow>
     filter_data b = concat (map seg fs) \<and> filter_offsets b = map word_of_nat (offs (map seg fs)) \<and>
     flat_keys b = concat ks \<and> key_starts b = offs ks"

lemma built_start: "built make_FilterBlockBuilder [] []"
  by (simp add: built_def make_FilterBlockBuilder_def)

lemma built_AddKey: "built b fs ks \<Longrightarrow> built (AddKey b key) fs (ks @ [key])"
  by (simp add: built_def AddKey_def)

lemma built_length: "built b fs ks \<Longrightarrow> length (filter_offsets b) = length fs"
  by (simp add: built_def)

lemma built_Generate: "built b fs ks \<Longrightarrow> built (GenerateFilter policy b) (fs @ [ks]) []"
proof -
  assume b: "built b fs ks"
  have "map (\<lambda>i. take ((offs ks @ [length (concat ks)]) ! (i + 1) - (offs ks @ [length (concat ks)]) ! i)
          (drop ((offs ks @ [length (concat ks)]) ! i) (concat ks))) [0 ..< length ks] = ks"
    using concat_part [of _ ks "[]"] by (intro nth_equalityI) (simp_all add: offs_end_nth)
  then show ?thesis using b
    by (cases "ks = []")
      (simp_all add: built_def GenerateFilter_def Let_def seg_def create_append [of ks "concat _"])
qed

lemma built_fill:
  "built b fs ks \<Longrightarrow> length fs \<le> i \<Longrightarrow>
     built (fill_filters policy i b)
       (if length fs = i then fs else fs @ ks # replicate (i - Suc (length fs)) [])
       (if length fs = i then ks else [])"
proof (induction policy' \<equiv> policy i b arbitrary: fs ks rule: fill_filters.induct)
  case (1 i b)
  show ?case
  proof (cases "length fs = i")
    case True
    then show ?thesis using 1(2) built_length [OF 1(2)] by (simp add: fill_filters.simps [of policy i b])
  next
    case False
    then have less: "length (filter_offsets b) < i" using 1(3) built_length [OF 1(2)] by simp
    from 1(1) [OF less built_Generate [OF 1(2)]] False 1(3) show ?thesis
      using less
      by (cases "Suc (length fs) = i")
        (simp_all add: fill_filters.simps [of policy i b] Suc_diff_Suc flip: replicate_Suc)
  qed
qed

text \<open>The key is in the filter with the number \<open>i\<close>, or waits for it.\<close>

definition covers :: "slice list list \<Rightarrow> slice list \<Rightarrow> nat \<Rightarrow> slice \<Rightarrow> bool" where
  "covers fs ks i key \<longleftrightarrow> i \<le> length fs \<and> key \<in> set ((fs @ [ks]) ! i)"

lemma built_StartBlock:
  assumes "built b fs ks" and "length fs \<le> unat off div kFilterBase"
  shows "\<exists>b' fs' ks'. StartBlock policy b off = Some b' \<and> built b' fs' ks' \<and>
           length fs' = unat off div kFilterBase \<and> concat fs' @ ks' = concat fs @ ks \<and>
           (\<forall>i key. covers fs ks i key \<longrightarrow> covers fs' ks' i key)"
proof -
  let ?i = "unat off div kFilterBase"
  note start = built_fill [OF assms]
  have s: "StartBlock policy b off = Some (fill_filters policy ?i b)"
    using assms built_length [OF assms(1)] by (simp add: StartBlock_def Let_def)
  show ?thesis
  proof (cases "length fs = ?i")
    case True
    then show ?thesis using s start by auto
  next
    case False
    let ?fs = "fs @ ks # replicate (?i - Suc (length fs)) []"
    have "covers ?fs [] i key" if "covers fs ks i key" for i key
      using that by (auto simp: covers_def nth_append split: if_splits)
    moreover have "built (fill_filters policy ?i b) ?fs []" using start False by simp
    moreover have "length ?fs = ?i" using False assms(2) by simp
    ultimately show ?thesis using s by (intro exI [of _ "fill_filters policy ?i b"] exI [of _ ?fs] exI [of _ "[]"]) simp
  qed
qed

lemma built_AddKeys:
  assumes "built b fs ks"
  shows "built (foldl AddKey b keys) fs (ks @ keys)"
  using assms
proof (induction keys arbitrary: b ks)
  case (Cons key keys)
  from Cons.IH [OF built_AddKey [OF Cons.prems]] show ?case by simp
qed simp

end

text \<open>The calls that build a filter block: each data block is started and its keys are added.\<close>

fun add_blocks :: "FilterPolicy \<Rightarrow> FilterBlockBuilder \<Rightarrow> (u64 \<times> slice list) list \<Rightarrow> FilterBlockBuilder option" where
  "add_blocks policy b [] = Some b"
| "add_blocks policy b ((off, keys) # blocks) =
     (case StartBlock policy b off of None \<Rightarrow> None
      | Some b \<Rightarrow> add_blocks policy (foldl AddKey b keys) blocks)"

context filter_policy
begin

lemma built_blocks:
  assumes "built b fs ks" and "sorted (map fst blocks)"
    and "\<forall>(off, keys) \<in> set blocks. length fs \<le> unat off div kFilterBase"
  shows "\<exists>b' fs' ks'. add_blocks policy b blocks = Some b' \<and> built b' fs' ks' \<and>
           concat fs' @ ks' = concat fs @ ks @ concat (map snd blocks) \<and>
           (\<forall>i key. covers fs ks i key \<longrightarrow> covers fs' ks' i key) \<and>
           (\<forall>(off, keys) \<in> set blocks. \<forall>key \<in> set keys. covers fs' ks' (unat off div kFilterBase) key)"
  using assms
proof (induction blocks arbitrary: b fs ks)
  case (Cons block blocks)
  obtain off keys where block: "block = (off, keys)" by (cases block)
  have "length fs \<le> unat off div kFilterBase" using Cons.prems(3) block by simp
  from built_StartBlock [OF Cons.prems(1) this] obtain b1 fs1 ks1 where
    1: "StartBlock policy b off = Some b1" "built b1 fs1 ks1" "length fs1 = unat off div kFilterBase"
       "concat fs1 @ ks1 = concat fs @ ks" "\<And>i key. covers fs ks i key \<Longrightarrow> covers fs1 ks1 i key"
    by blast
  have 2: "built (foldl AddKey b1 keys) fs1 (ks1 @ keys)" by (rule built_AddKeys [OF 1(2)])
  have "\<forall>(off', keys') \<in> set blocks. length fs1 \<le> unat off' div kFilterBase"
    using Cons.prems(2) block 1(3) by (auto simp: word_le_nat_alt intro!: div_le_mono)
  from Cons.IH [OF 2 _ this] Cons.prems(2) obtain b' fs' ks' where
    3: "add_blocks policy (foldl AddKey b1 keys) blocks = Some b'" "built b' fs' ks'"
       "concat fs' @ ks' = concat fs1 @ (ks1 @ keys) @ concat (map snd blocks)"
       "\<And>i key. covers fs1 (ks1 @ keys) i key \<Longrightarrow> covers fs' ks' i key"
       "\<forall>(off, keys) \<in> set blocks. \<forall>key \<in> set keys. covers fs' ks' (unat off div kFilterBase) key"
    by auto
  have "covers fs' ks' i key" if "covers fs ks i key" for i key
    using 1(5) [OF that] by (intro 3(4)) (auto simp: covers_def nth_append split: if_splits)
  moreover have "covers fs' ks' (unat off div kFilterBase) key" if "key \<in> set keys" for key
    by (rule 3(4)) (use that 1(3) in \<open>auto simp: covers_def nth_append\<close>)
  ultimately show ?case using 1(1,4) 3 block by (intro exI [of _ b'] exI [of _ fs'] exI [of _ ks']) simp
qed auto

text \<open>The filters that \<open>Finish\<close> writes, and what the reader finds there.\<close>

definition filters :: "slice list list \<Rightarrow> slice list \<Rightarrow> slice list list" where
  "filters fs ks = (if ks = [] then fs else fs @ [ks])"

lemma FilterBlockFinish_layout:
  assumes "built b fs ks"
  defines "segs \<equiv> map seg (filters fs ks)"
  shows "fst (FilterBlockFinish policy b)
    = concat segs @ concat (map EncodeFixed32 (map word_of_nat (offs segs @ [length (concat segs)]))) @ [11]"
proof -
  have empty: "key_starts b = [] \<longleftrightarrow> ks = []" using assms(1) by (cases ks) (auto simp: built_def offs_def)
  define b' where "b' = (if key_starts b \<noteq> [] then GenerateFilter policy b else b)"
  have "filter_data b' = concat segs \<and> filter_offsets b' = map word_of_nat (offs segs)"
    using assms(1) built_Generate [OF assms(1)] empty unfolding b'_def segs_def filters_def
    by (cases "ks = []") (simp_all add: built_def)
  then show ?thesis
    by (simp add: FilterBlockFinish_def b'_def [symmetric] foldl_PutFixed32 PutFixed32_def kFilterBaseLg_def Let_def)
qed

lemma reader_finds_segment:
  assumes "contents = concat segs @ concat (map EncodeFixed32 (map word_of_nat (offs segs @ [length (concat segs)]))) @ [11]"
    and "length (concat segs) < 2 ^ 32"
  shows "FilterKeyMayMatch policy (make_FilterBlockReader contents) off key =
    Some (if unat off div kFilterBase < length segs then KeyMayMatch policy key (segs ! (unat off div kFilterBase)) else True)"
proof -
  let ?S = "concat segs" and ?m = "length segs" and ?i = "unat off div kFilterBase"
  define ws where "ws = (map word_of_nat (offs segs @ [length ?S]) :: u32 list)"
  have ws: "unat (ws ! i) = length (concat (take i segs))" if "i \<le> ?m" for i
  proof -
    have "ws ! i = word_of_nat (length (concat (take i segs)))"
      using that offs_end_nth [OF that] unfolding ws_def by (subst nth_map) simp_all
    moreover have "length (concat (take i segs)) < 2 ^ 32" using concat_take_le [of i segs] assms(2) by linarith
    ultimately show ?thesis by (simp only: unat_u32)
  qed
  have lws: "length ws = Suc ?m" by (simp add: ws_def)
  have c: "contents = ?S @ concat (map EncodeFixed32 ws) @ [11]" by (simp add: assms(1) ws_def)
  have n: "length contents = length ?S + 4 * ?m + 5" by (simp add: c lws)
  have at: "DecodeFixed32 (drop (length ?S + i * 4) contents) = ws ! i" if "i \<le> ?m" for i
    using that fixed32_table_nth [of i ws "[11]"] by (simp add: c lws)
  have "drop (length contents - 5) contents = drop (length ?S + ?m * 4) contents"
    by (simp add: n mult.commute)
  then have last: "unat (DecodeFixed32 (drop (length contents - 5) contents)) = length ?S"
    using at [of ?m] ws [of ?m] by simp
  have "contents ! (length contents - 1) = 11" by (simp add: c nth_append)
  then have base: "unat (scast (contents ! (length contents - 1)) :: u64) = 11" by simp
  have r: "make_FilterBlockReader contents
      = \<lparr>block_data = contents, offset_array = length ?S, num_filters = ?m, base_lg = 11\<rparr>"
    unfolding make_FilterBlockReader_def Let_def last base by (simp add: n)
  have idx: "unat (drop_bit 11 off) = ?i" by (simp add: unat_drop_bit_div kFilterBase_def kFilterBaseLg_def)
  show ?thesis
  proof (cases "?i < ?m")
    case True
    have lim: "length (concat (take ?i segs)) \<le> length (concat (take (?i + 1) segs))"
      using concat_take_le [of ?i "take (?i + 1) segs"] by (simp add: min_def)
    have i1: "DecodeFixed32 (drop (length ?S + ?i * 4) contents) = ws ! ?i"
      and i2: "DecodeFixed32 (drop (length ?S + ?i * 4 + 4) contents) = ws ! (?i + 1)"
      using at [of ?i] at [of "?i + 1"] True by (simp_all add: add.assoc add.commute [of 4])
    have "take (unat (ws ! (?i + 1)) - unat (ws ! ?i)) (drop (unat (ws ! ?i)) contents) = segs ! ?i"
      unfolding ws [OF less_imp_le [OF True]] ws [OF Suc_leI [OF True], unfolded Suc_eq_plus1] c
      by (rule concat_part [OF True])
    moreover have "ws ! ?i \<le> ws ! (?i + 1)" "unat (ws ! (?i + 1)) \<le> length ?S"
      using lim ws [of ?i] ws [of "?i + 1"] True concat_take_le [of "?i + 1" segs] by (simp_all add: word_le_nat_alt)
    ultimately show ?thesis
      unfolding r FilterKeyMayMatch_def Let_def FilterBlockReader.simps idx i1 i2 using True by simp
  next
    case False
    then show ?thesis unfolding r FilterKeyMayMatch_def Let_def FilterBlockReader.simps idx by simp
  qed
qed

lemma segment_matches:
  assumes "covers fs ks i key" and "length (concat fs @ ks) < 2 ^ 31"
  shows "i < length (filters fs ks) \<and> KeyMayMatch policy key (map seg (filters fs ks) ! i)"
proof -
  let ?k = "(fs @ [ks]) ! i"
  have key: "i \<le> length fs" "key \<in> set ?k" using assms(1) by (auto simp: covers_def)
  have i: "i < length (filters fs ks)" and at: "filters fs ks ! i = ?k"
    using key by (auto simp: filters_def nth_append split: if_splits)
  have "length ?k \<le> length (concat (fs @ [ks]))"
  proof -
    have "?k \<in> set (fs @ [ks])" using key(1) by (intro nth_mem) simp
    then have "length ?k \<in> set (map length (fs @ [ks]))" by (simp only: set_map) (rule imageI)
    then show ?thesis unfolding length_concat by (rule member_le_sum_list) simp
  qed
  then have "length ?k < 2 ^ 31" using assms(2) by simp
  from no_false_negative [OF this key(2)] key(2) show ?thesis
    using i at by (auto simp: seg_def)
qed

text \<open>The filter block of any policy that meets the contract.\<close>

lemma filter_block_matches:
  assumes "sorted (map fst blocks)" and "length (concat (map snd blocks)) < 2 ^ 31"
  shows "\<exists>b. add_blocks policy make_FilterBlockBuilder blocks = Some b \<and>
    (length (fst (FilterBlockFinish policy b)) < 2 ^ 32 \<longrightarrow>
      (\<forall>(off, keys) \<in> set blocks. \<forall>key \<in> set keys.
         FilterKeyMayMatch policy (make_FilterBlockReader (fst (FilterBlockFinish policy b))) off key = Some True))"
proof -
  have "\<forall>(off, keys) \<in> set blocks. length [] \<le> unat off div kFilterBase" by simp
  from built_blocks [OF built_start assms(1) this] obtain b fs ks where
    b: "add_blocks policy make_FilterBlockBuilder blocks = Some b" "built b fs ks"
       "concat fs @ ks = concat (map snd blocks)"
    and cov: "\<forall>(off, keys) \<in> set blocks. \<forall>key \<in> set keys. covers fs ks (unat off div kFilterBase) key"
    by auto
  let ?c = "fst (FilterBlockFinish policy b)" and ?segs = "map seg (filters fs ks)"
  note c = FilterBlockFinish_layout [OF b(2)]
  have "FilterKeyMayMatch policy (make_FilterBlockReader ?c) off key = Some True"
    if "length ?c < 2 ^ 32" "(off, keys) \<in> set blocks" "key \<in> set keys" for off keys key
  proof -
    have "length (concat ?segs) < 2 ^ 32" using that(1) by (simp add: c)
    moreover have "covers fs ks (unat off div kFilterBase) key" using cov that(2,3) by fastforce
    from segment_matches [OF this, unfolded b(3), OF assms(2)]
    have "unat off div kFilterBase < length ?segs" "KeyMayMatch policy key (?segs ! (unat off div kFilterBase))"
      by (simp_all only: length_map)
    ultimately show ?thesis using reader_finds_segment [OF c, of off key] by simp
  qed
  then show ?thesis using b(1) by blast
qed

end

section \<open>The properties of the filter block\<close>

text \<open>C19. The filter block never hides a key. Start a block for each data block, in the order of their
  offsets, and add its keys; then the reader of the finished block answers that a key may match, for
  every data block and every key that was added to it. This holds for the Bloom filter with any number
  of bits per key, applied to the keys themselves or to the user keys of internal keys, as long as the
  filter block is smaller than 4 GiB and there are fewer than \<open>2 ^ 31\<close> keys.\<close>

theorem filter_block_never_hides_key:
  assumes "sorted (map fst blocks)" and "length (concat (map snd blocks)) < 2 ^ 31"
    and "policy = bloom_policy bits \<or> policy = InternalFilterPolicy (bloom_policy bits)"
  shows "\<exists>b. add_blocks policy make_FilterBlockBuilder blocks = Some b \<and>
    (length (fst (FilterBlockFinish policy b)) < 2 ^ 32 \<longrightarrow>
      (\<forall>(off, keys) \<in> set blocks. \<forall>key \<in> set keys.
         FilterKeyMayMatch policy (make_FilterBlockReader (fst (FilterBlockFinish policy b))) off key = Some True))"
  using assms(3) bloom.filter_block_matches [OF assms(1,2)] internal_bloom.filter_block_matches [OF assms(1,2)]
  by blast

theorem filter_block_never_hides_key_witness:
  "FilterKeyMayMatch (bloom_policy 10) (make_FilterBlockReader (fst (FilterBlockFinish (bloom_policy 10)
     (the (add_blocks (bloom_policy 10) make_FilterBlockBuilder [(0, [[1, 2], [3]]), (5000, [[4]])])))))
     5000 [4] = Some True"
proof -
  let ?blocks = "[(0, [[1, 2], [3]]), (5000, [[4]])] :: (u64 \<times> slice list) list"
  have "length (fst (FilterBlockFinish (bloom_policy 10) (the (add_blocks (bloom_policy 10) make_FilterBlockBuilder ?blocks)))) < 2 ^ 32"
    by (simp add: StartBlock_def fill_filters.simps GenerateFilter_def AddKey_def FilterBlockFinish_def bloom_policy_def
        make_FilterBlockBuilder_def kFilterBase_def kFilterBaseLg_def foldl_PutFixed32 PutFixed32_def
        length_BloomCreateFilter make_BloomFilterPolicy_def Let_def)
  then show ?thesis
    using filter_block_never_hides_key [of ?blocks "bloom_policy 10" 10] by auto
qed

text \<open>What the reader does with damaged filter blocks. Two equal offsets that point behind the
  filters make it answer that no key matches, so that every lookup in the data block fails, although
  errors are meant to be potential matches. And a number of at least 64 in the last byte makes it shift
  a 64-bit number by that much, which is undefined.\<close>

theorem damaged_filter_block:
  "FilterKeyMayMatch policy (make_FilterBlockReader (concat (map EncodeFixed32 [99, 99, 0]) @ [11])) 0 key = Some False \<and>
   FilterKeyMayMatch policy (make_FilterBlockReader [0, 0, 0, 0, 64]) off key = None"
proof
  let ?c = "concat (map EncodeFixed32 [99, 99, 0]) @ [11]"
  have r: "make_FilterBlockReader ?c = \<lparr>block_data = ?c, offset_array = 0, num_filters = 2, base_lg = 11\<rparr>"
    by code_simp
  have d: "DecodeFixed32 (drop 0 ?c) = 99" "DecodeFixed32 (drop 4 ?c) = 99" by code_simp+
  show "FilterKeyMayMatch policy (make_FilterBlockReader ?c) 0 key = Some False"
    unfolding r FilterKeyMayMatch_def Let_def FilterBlockReader.simps using d by simp
  have "make_FilterBlockReader [0, 0, 0, 0, 64]
      = \<lparr>block_data = [0, 0, 0, 0, 64], offset_array = 0, num_filters = 0, base_lg = 64\<rparr>"
    by code_simp
  then show "FilterKeyMayMatch policy (make_FilterBlockReader [0, 0, 0, 0, 64]) off key = None"
    by (simp add: FilterKeyMayMatch_def)
qed

end
