(* ===== verification/LdbIterator.thy ===== *)
theory LdbIterator
  imports LdbFormat LdbStatus
begin

text \<open>
  The interface of an iterator (\<open>include/leveldb/iterator.h\<close>): a record of the virtual functions over
  any state, and the locale of the iterators that walk through a sorted list of entries. The
  iterators of a block, of a skip list and of a merge are interpretations; the merge is a client as
  well. An operation that does not return, or that does something undefined, is \<open>None\<close>.
\<close>

type_synonym entry = "slice \<times> slice"

record 's Iterator =
  Valid :: "'s \<Rightarrow> bool"
  SeekToFirst :: "'s \<Rightarrow> 's option"
  SeekToLast :: "'s \<Rightarrow> 's option"
  Seek :: "'s \<Rightarrow> slice \<Rightarrow> 's option"
  Next :: "'s \<Rightarrow> 's option"
  Prev :: "'s \<Rightarrow> 's option"
  Key :: "'s \<Rightarrow> slice"
  Val :: "'s \<Rightarrow> slice"
  IterStatus :: "'s \<Rightarrow> Status"

context comparator
begin

text \<open>The number of entries below a target, which is the position of the first one that is not.\<close>

definition below :: "'k \<Rightarrow> ('k \<times> 'v) list \<Rightarrow> nat" where
  "below t es = length (takeWhile (\<lambda>e. compare (fst e) t < 0) es)"

lemma below_le: "below t es \<le> length es"
  by (simp add: below_def length_takeWhile_le)

lemma below_less: "i < below t es \<Longrightarrow> compare (fst (es ! i)) t < 0"
  unfolding below_def by (metis nth_mem set_takeWhileD takeWhile_nth)

lemma below_at: "below t es < length es \<Longrightarrow> 0 \<le> compare (fst (es ! below t es)) t"
  unfolding below_def using nth_length_takeWhile [of "\<lambda>e. compare (fst e) t < 0" es] by simp

lemma ordered_nth:
  "ordered (map fst es) \<Longrightarrow> i < j \<Longrightarrow> j < length es \<Longrightarrow> compare (fst (es ! i)) (fst (es ! j)) < 0"
  by (simp add: ordered_def sorted_wrt_iff_nth_less)

lemma below_unique:
  assumes "i \<le> length es" and "\<forall>j < i. compare (fst (es ! j)) t < 0"
    and "i < length es \<Longrightarrow> 0 \<le> compare (fst (es ! i)) t"
  shows "below t es = i"
proof (rule ccontr)
  assume "below t es \<noteq> i"
  then consider "below t es < i" | "i < below t es" by linarith
  then show False
  proof cases
    case 1
    then have "compare (fst (es ! below t es)) t < 0" "below t es < length es" using assms(1,2) by auto
    with below_at [of t es] show False by simp
  next
    case 2
    then have "compare (fst (es ! i)) t < 0" "i < length es" using below_less below_le [of t es] by auto
    with assms(3) show False by simp
  qed
qed

lemma ordered_below: "ordered (map fst es) \<Longrightarrow> j < length es \<Longrightarrow> compare (fst (es ! j)) t < 0 \<Longrightarrow> j < below t es"
proof (rule ccontr)
  assume o: "ordered (map fst es)" and j: "j < length es" "compare (fst (es ! j)) t < 0" and "\<not> j < below t es"
  then have less: "below t es < length es" "below t es \<le> j" by simp_all
  then have "0 \<le> compare (fst (es ! below t es)) t" by (intro below_at)
  moreover have "compare (fst (es ! below t es)) t < 0"
  proof (cases "below t es = j")
    case False
    then have "compare (fst (es ! below t es)) (fst (es ! j)) < 0" using ordered_nth [OF o _ j(1)] less by simp
    with j(2) show ?thesis using compare_less_trans [of "fst (es ! below t es)" "fst (es ! j)" t] by simp
  qed (use j in simp)
  ultimately show False by simp
qed

end

text \<open>
  \<open>at s es p\<close>: the state stands at position \<open>p\<close> of the entries \<open>es\<close>; it is not valid when \<open>p\<close> is their
  number, whichever end the iterator ran over. Some iterators can be moved only to keys of a limited
  length, which \<open>seekable\<close> says.
\<close>

locale sorted_iterator = comparator compare for compare :: "slice \<Rightarrow> slice \<Rightarrow> int" +
  fixes ops :: "'s Iterator"
    and at :: "'s \<Rightarrow> entry list \<Rightarrow> nat \<Rightarrow> bool"
    and seekable :: "slice \<Rightarrow> bool"
  assumes at_bound: "at s es p \<Longrightarrow> p \<le> length es"
    and at_ordered: "at s es p \<Longrightarrow> ordered (map fst es)"
    and valid_at: "at s es p \<Longrightarrow> Valid ops s \<longleftrightarrow> p < length es"
    and key_at: "at s es p \<Longrightarrow> p < length es \<Longrightarrow> Key ops s = fst (es ! p)"
    and val_at: "at s es p \<Longrightarrow> p < length es \<Longrightarrow> Val ops s = snd (es ! p)"
    and status_at: "at s es p \<Longrightarrow> IterStatus ops s = OK"
    and first_at: "at s es p \<Longrightarrow> \<exists>s'. SeekToFirst ops s = Some s' \<and> at s' es 0"
    and last_at: "at s es p \<Longrightarrow> \<exists>s'. SeekToLast ops s = Some s' \<and> at s' es (length es - 1)"
    and seek_at: "at s es p \<Longrightarrow> seekable t \<Longrightarrow> \<exists>s'. Seek ops s t = Some s' \<and> at s' es (below t es)"
    and next_at: "at s es p \<Longrightarrow> p < length es \<Longrightarrow> \<exists>s'. Next ops s = Some s' \<and> at s' es (p + 1)"
    and prev_at: "at s es p \<Longrightarrow> p < length es \<Longrightarrow>
                    \<exists>s'. Prev ops s = Some s' \<and> at s' es (if p = 0 then length es else p - 1)"

section \<open>Iterators and positions in a list\<close>

text \<open>
  What a user does with an iterator is a sequence of moves. The specification is a position in the list of
  the entries; a move from a position without an entry is only allowed to a key or an end.
\<close>

datatype move = ToFirst | ToLast | ToKey slice | Forward | Backward

fun move_iter :: "'s Iterator \<Rightarrow> 's \<Rightarrow> move \<Rightarrow> 's option" where
  "move_iter ops s ToFirst = SeekToFirst ops s"
| "move_iter ops s ToLast = SeekToLast ops s"
| "move_iter ops s (ToKey t) = Seek ops s t"
| "move_iter ops s Forward = Next ops s"
| "move_iter ops s Backward = Prev ops s"

fun move_list :: "(slice \<Rightarrow> slice \<Rightarrow> int) \<Rightarrow> entry list \<Rightarrow> nat \<Rightarrow> move \<Rightarrow> nat option" where
  "move_list compare es p ToFirst = Some 0"
| "move_list compare es p ToLast = Some (length es - 1)"
| "move_list compare es p (ToKey t) = Some (length (takeWhile (\<lambda>e. compare (fst e) t < 0) es))"
| "move_list compare es p Forward = (if p < length es then Some (p + 1) else None)"
| "move_list compare es p Backward = (if p < length es then Some (if p = 0 then length es else p - 1) else None)"

fun moves :: "('s \<Rightarrow> move \<Rightarrow> 's option) \<Rightarrow> 's \<Rightarrow> move list \<Rightarrow> 's option" where
  "moves step s [] = Some s"
| "moves step s (m # ms) = (case step s m of None \<Rightarrow> None | Some s' \<Rightarrow> moves step s' ms)"

text \<open>What can be seen of an iterator, and of a position.\<close>

definition seen :: "'s Iterator \<Rightarrow> 's \<Rightarrow> entry option" where
  "seen ops s = (if Valid ops s then Some (Key ops s, Val ops s) else None)"

definition seen_at :: "entry list \<Rightarrow> nat \<Rightarrow> entry option" where
  "seen_at es p = (if p < length es then Some (es ! p) else None)"

text \<open>The iterator follows the position through every sequence of moves, and reports no error.\<close>

definition follows :: "(slice \<Rightarrow> slice \<Rightarrow> int) \<Rightarrow> (slice \<Rightarrow> bool) \<Rightarrow> 's Iterator \<Rightarrow> 's \<Rightarrow> entry list \<Rightarrow> nat \<Rightarrow> bool" where
  "follows compare seekable ops s es p \<longleftrightarrow>
     (\<forall>ms q. moves (move_list compare es) p ms = Some q \<and> (\<forall>t. ToKey t \<in> set ms \<longrightarrow> seekable t) \<longrightarrow>
        (\<exists>s'. moves (move_iter ops) s ms = Some s' \<and> seen ops s' = seen_at es q \<and> IterStatus ops s' = OK))"

context sorted_iterator
begin

lemma seen_entry: "at s es p \<Longrightarrow> seen ops s = seen_at es p"
  using valid_at key_at val_at by (simp add: seen_def seen_at_def)

lemma move_at:
  assumes "at s es p" and "move_list compare es p m = Some q" and "\<And>t. m = ToKey t \<Longrightarrow> seekable t"
  shows "\<exists>s'. move_iter ops s m = Some s' \<and> at s' es q"
  using assms first_at [OF assms(1)] last_at [OF assms(1)] seek_at [OF assms(1)] next_at [OF assms(1)] prev_at [OF assms(1)]
  by (cases m) (auto simp: below_def split: if_splits)

lemma moves_at:
  "at s es p \<Longrightarrow> moves (move_list compare es) p ms = Some q \<Longrightarrow> \<forall>t. ToKey t \<in> set ms \<longrightarrow> seekable t \<Longrightarrow>
    \<exists>s'. moves (move_iter ops) s ms = Some s' \<and> at s' es q"
proof (induction ms arbitrary: s p)
  case (Cons m ms)
  from Cons.prems(2) obtain r where r: "move_list compare es p m = Some r" "moves (move_list compare es) r ms = Some q"
    by (auto split: option.splits)
  from move_at [OF Cons.prems(1) r(1)] Cons.prems(3) obtain s1 where "move_iter ops s m = Some s1" "at s1 es r" by auto
  with Cons.IH [OF this(2) r(2)] Cons.prems(3) show ?case by auto
qed simp

lemma at_follows: "at s es p \<Longrightarrow> follows compare seekable ops s es p"
  unfolding follows_def using moves_at seen_entry status_at by blast

end

end
