(* ===== verification/LdbBlock.thy ===== *)
theory LdbBlock
  imports LdbIterator
begin

text \<open>
  The blocks of a table: the builder (\<open>table/block_builder.cc\<close>) and the reader with its iterator
  (\<open>table/block.cc\<close>). A pointer into the contents of a block is its offset. \<open>None\<close> stands for a
  failed assertion and for a read behind the contents.
\<close>

section \<open>The builder\<close>

record BlockBuilder =
  bb_buffer :: "byte list"
  bb_restarts :: "u32 list"
  bb_counter :: nat
  bb_finished :: bool
  bb_last_key :: "byte list"

text \<open>\<open>block_restart_interval\<close> and \<open>comparator\<close> are the options that the builder uses.\<close>

definition make_BlockBuilder :: "nat \<Rightarrow> BlockBuilder option" where
  "make_BlockBuilder interval =
     (if 1 \<le> interval
      then Some \<lparr>bb_buffer = [], bb_restarts = [0], bb_counter = 0, bb_finished = False, bb_last_key = []\<rparr>
      else None)"

definition BlockReset :: "BlockBuilder \<Rightarrow> BlockBuilder" where
  "BlockReset b =
     b\<lparr>bb_buffer := [], bb_restarts := [0], bb_counter := 0, bb_finished := False, bb_last_key := []\<rparr>"

definition CurrentSizeEstimate :: "BlockBuilder \<Rightarrow> nat" where
  "CurrentSizeEstimate b = length (bb_buffer b) + length (bb_restarts b) * 4 + 4"

definition block_empty :: "BlockBuilder \<Rightarrow> bool" where
  "block_empty b \<longleftrightarrow> bb_buffer b = []"

definition BlockFinish :: "BlockBuilder \<Rightarrow> slice \<times> BlockBuilder" where
  "BlockFinish b =
     (let buf = foldl PutFixed32 (bb_buffer b) (bb_restarts b);
          buf = PutFixed32 buf (word_of_nat (length (bb_restarts b)))
      in (buf, b\<lparr>bb_buffer := buf, bb_finished := True\<rparr>))"

definition BlockAdd ::
    "nat \<Rightarrow> (slice \<Rightarrow> slice \<Rightarrow> int) \<Rightarrow> BlockBuilder \<Rightarrow> slice \<Rightarrow> slice \<Rightarrow> BlockBuilder option" where
  "BlockAdd interval compare b key value =
     (if bb_finished b \<or> interval < bb_counter b \<or> (bb_buffer b \<noteq> [] \<and> \<not> 0 < compare key (bb_last_key b)) then None
      else
        let fresh = bb_counter b < interval;
            shared = (if fresh then common_prefix (bb_last_key b) key else 0);
            b = (if fresh then b
                 else b\<lparr>bb_restarts := bb_restarts b @ [word_of_nat (length (bb_buffer b))], bb_counter := 0\<rparr>);
            non_shared = length key - shared;
            buf = PutVarint32 (bb_buffer b) (word_of_nat shared);
            buf = PutVarint32 buf (word_of_nat non_shared);
            buf = PutVarint32 buf (word_of_nat (length value));
            buf = buf @ take non_shared (drop shared key) @ value;
            last_key = take shared (bb_last_key b) @ take non_shared (drop shared key)
        in if last_key \<noteq> key then None
           else Some (b\<lparr>bb_buffer := buf, bb_last_key := last_key, bb_counter := bb_counter b + 1\<rparr>))"

section \<open>The reader\<close>

text \<open>A block of size 0 is the error marker.\<close>

record Block =
  blk_data :: "byte list"
  blk_size :: nat
  blk_restart_offset :: nat

definition NumRestarts :: "byte list \<Rightarrow> nat \<Rightarrow> nat" where
  "NumRestarts data n = unat (DecodeFixed32 (drop (n - 4) data))"

text \<open>\<open>restart_offset_\<close> is of type \<open>uint32_t\<close>.\<close>

definition make_Block :: "slice \<Rightarrow> Block" where
  "make_Block contents =
     (let n = length contents; b = \<lparr>blk_data = contents, blk_size = n, blk_restart_offset = 0\<rparr> in
      if n < 4 then b\<lparr>blk_size := 0\<rparr>
      else
        let max_restarts_allowed = (n - 4) div 4 in
        if max_restarts_allowed < NumRestarts contents n then b\<lparr>blk_size := 0\<rparr>
        else b\<lparr>blk_restart_offset := (n - (1 + NumRestarts contents n) * 4) mod 2 ^ 32\<rparr>)"

text \<open>
  \<open>DecodeEntry\<close> gets the bytes from \<open>p\<close> to \<open>limit\<close>, and gives the three numbers and the bytes behind
  them. The two lengths are added as 32-bit numbers.
\<close>

definition entry_fits :: "u32 \<times> u32 \<times> u32 \<times> byte list \<Rightarrow> (u32 \<times> u32 \<times> u32 \<times> byte list) option" where
  "entry_fits e =
     (case e of (shared, non_shared, value_length, p) \<Rightarrow>
        if (word_of_nat (length p) :: u32) < non_shared + value_length then None else Some e)"

definition entry_numbers :: "byte list \<Rightarrow> (u32 \<times> u32 \<times> u32 \<times> byte list) option" where
  "entry_numbers p = do {
     (shared, p) \<leftarrow> GetVarint32Ptr p;
     (non_shared, p) \<leftarrow> GetVarint32Ptr p;
     (value_length, p) \<leftarrow> GetVarint32Ptr p;
     Some (shared, non_shared, value_length, p)
   }"

definition DecodeEntry :: "byte list \<Rightarrow> (u32 \<times> u32 \<times> u32 \<times> byte list) option" where
  "DecodeEntry p =
     (if length p < 3 then None
      else
        let shared = ucast (p ! 0); non_shared = ucast (p ! 1); value_length = ucast (p ! 2) in
        if (shared OR non_shared OR value_length) < (128 :: u32)
        then entry_fits (shared, non_shared, value_length, drop 3 p)
        else (case entry_numbers p of None \<Rightarrow> None | Some e \<Rightarrow> entry_fits e))"

text \<open>
  The iterator. \<open>it_value\<close> is the offset and the length of the value; it is \<open>None\<close> when the slice is
  empty and does not point into the block. \<open>current_\<close> is a \<open>uint32_t\<close>, so that the offset behind
  the value, which is a pointer difference, is cut.
\<close>

record block_iter =
  it_data :: "byte list"
  it_restarts :: nat
  it_num_restarts :: nat
  it_current :: nat
  it_restart_index :: nat
  it_key :: "byte list"
  it_value :: "(nat \<times> nat) option"
  it_status :: Status

definition make_block_iter :: "byte list \<Rightarrow> nat \<Rightarrow> nat \<Rightarrow> block_iter" where
  "make_block_iter data restarts num_restarts =
     \<lparr>it_data = data, it_restarts = restarts, it_num_restarts = num_restarts, it_current = restarts,
      it_restart_index = num_restarts, it_key = [], it_value = None, it_status = OK\<rparr>"

definition block_valid :: "block_iter \<Rightarrow> bool" where
  "block_valid it \<longleftrightarrow> it_current it < it_restarts it"

definition block_value :: "block_iter \<Rightarrow> slice" where
  "block_value it = (case it_value it of None \<Rightarrow> [] | Some (v, n) \<Rightarrow> take n (drop v (it_data it)))"

definition NextEntryOffset :: "block_iter \<Rightarrow> nat option" where
  "NextEntryOffset it = (case it_value it of None \<Rightarrow> None | Some (v, n) \<Rightarrow> Some ((v + n) mod 2 ^ 32))"

definition GetRestartPoint :: "block_iter \<Rightarrow> nat \<Rightarrow> nat option" where
  "GetRestartPoint it index =
     (if index < it_num_restarts it \<and> it_restarts it + index * 4 + 4 \<le> length (it_data it)
      then Some (unat (DecodeFixed32 (drop (it_restarts it + index * 4) (it_data it))))
      else None)"

definition SeekToRestartPoint :: "block_iter \<Rightarrow> nat \<Rightarrow> block_iter option" where
  "SeekToRestartPoint it index =
     (case GetRestartPoint it index of None \<Rightarrow> None
      | Some offset \<Rightarrow> Some (it\<lparr>it_key := [], it_restart_index := index, it_value := Some (offset, 0)\<rparr>))"

definition CorruptionError :: "block_iter \<Rightarrow> block_iter" where
  "CorruptionError it =
     it\<lparr>it_current := it_restarts it, it_restart_index := it_num_restarts it,
        it_status := Corruption (bytes_of ''bad entry in block'') [], it_key := [], it_value := None\<rparr>"

text \<open>The loop at the end of \<open>ParseNextKey\<close>.\<close>

function advance_restart :: "block_iter \<Rightarrow> block_iter option" where
  "advance_restart it =
     (if it_restart_index it + 1 < it_num_restarts it then
        (case GetRestartPoint it (it_restart_index it + 1) of None \<Rightarrow> None
         | Some r \<Rightarrow>
             if r < it_current it then advance_restart (it\<lparr>it_restart_index := it_restart_index it + 1\<rparr>)
             else Some it)
      else Some it)"
  by auto
termination by (relation "measure (\<lambda>it. it_num_restarts it - it_restart_index it)") auto

declare advance_restart.simps [simp del]

text \<open>The bytes from an offset to the limit of the entries, and the offset of a rest of them.\<close>

definition entry_bytes :: "block_iter \<Rightarrow> nat \<Rightarrow> byte list" where
  "entry_bytes it p = take (it_restarts it - p) (drop p (it_data it))"

definition read_at :: "block_iter \<Rightarrow> nat \<Rightarrow> nat \<Rightarrow> byte list option" where
  "read_at it p n = (if p + n \<le> length (it_data it) then Some (take n (drop p (it_data it))) else None)"

definition ParseNextKey :: "block_iter \<Rightarrow> (bool \<times> block_iter) option" where
  "ParseNextKey it = do {
     current \<leftarrow> NextEntryOffset it;
     let it = it\<lparr>it_current := current\<rparr>;
     if it_restarts it \<le> current
     then Some (False, it\<lparr>it_current := it_restarts it, it_restart_index := it_num_restarts it\<rparr>)
     else
       case DecodeEntry (entry_bytes it current) of
         None \<Rightarrow> Some (False, CorruptionError it)
       | Some (shared, non_shared, value_length, rest) \<Rightarrow>
           if length (it_key it) < unat shared then Some (False, CorruptionError it)
           else do {
             let p = it_restarts it - length rest;
             delta \<leftarrow> read_at it p (unat non_shared);
             it \<leftarrow> advance_restart (it\<lparr>it_key := take (unat shared) (it_key it) @ delta,
                                      it_value := Some (p + unat non_shared, unat value_length)\<rparr>);
             Some (True, it)
           }
   }"

definition block_Next :: "block_iter \<Rightarrow> block_iter option" where
  "block_Next it = (if block_valid it then map_option snd (ParseNextKey it) else None)"

text \<open>The two loops of \<open>Prev\<close>; the first one is left with \<open>None\<close> at the first entry.\<close>

fun restart_before :: "block_iter \<Rightarrow> nat \<Rightarrow> nat \<Rightarrow> nat option option" where
  "restart_before it original 0 =
     (case GetRestartPoint it 0 of None \<Rightarrow> None
      | Some r \<Rightarrow> if original \<le> r then Some None else Some (Some 0))"
| "restart_before it original (Suc index) =
     (case GetRestartPoint it (Suc index) of None \<Rightarrow> None
      | Some r \<Rightarrow> if original \<le> r then restart_before it original index else Some (Some (Suc index)))"

definition parse_until :: "(block_iter \<Rightarrow> bool option) \<Rightarrow> block_iter \<Rightarrow> block_iter option" where
  "parse_until stop it =
     crun (\<lambda>it. do {
       (good, it) \<leftarrow> ParseNextKey it;
       if \<not> good then Some (Leave it)
       else do { s \<leftarrow> stop it; Some (if s then Leave it else Continue it) }
     }) it"

definition block_Prev :: "block_iter \<Rightarrow> block_iter option" where
  "block_Prev it =
     (if \<not> block_valid it then None
      else
        let original = it_current it in
        case restart_before it original (it_restart_index it) of
          None \<Rightarrow> None
        | Some None \<Rightarrow> Some (it\<lparr>it_current := it_restarts it, it_restart_index := it_num_restarts it\<rparr>)
        | Some (Some index) \<Rightarrow> do {
            it \<leftarrow> SeekToRestartPoint (it\<lparr>it_restart_index := index\<rparr>) index;
            parse_until (\<lambda>it. map_option (\<lambda>next. \<not> next < original) (NextEntryOffset it)) it
          })"

text \<open>The binary search over the restart points: an error, or the restart point to start from.\<close>

function restart_search ::
    "(slice \<Rightarrow> slice \<Rightarrow> int) \<Rightarrow> block_iter \<Rightarrow> slice \<Rightarrow> nat \<Rightarrow> nat \<Rightarrow> (block_iter + nat) option" where
  "restart_search compare it target left right =
     (if left < right then
        let mid = (left + right + 1) div 2 in
        (case GetRestartPoint it mid of None \<Rightarrow> None
         | Some region_offset \<Rightarrow>
             (case DecodeEntry (entry_bytes it region_offset) of
                None \<Rightarrow> Some (Inl (CorruptionError it))
              | Some (shared, non_shared, value_length, rest) \<Rightarrow>
                  if shared \<noteq> 0 then Some (Inl (CorruptionError it))
                  else
                    (case read_at it (it_restarts it - length rest) (unat non_shared) of None \<Rightarrow> None
                     | Some mid_key \<Rightarrow>
                         if compare mid_key target < 0 then restart_search compare it target mid right
                         else restart_search compare it target left (mid - 1))))
      else Some (Inr left))"
  by auto
termination by (relation "measure (\<lambda>(compare, it, target, left, right). right - left)") auto

declare restart_search.simps [simp del]

definition block_Seek :: "(slice \<Rightarrow> slice \<Rightarrow> int) \<Rightarrow> block_iter \<Rightarrow> slice \<Rightarrow> block_iter option" where
  "block_Seek compare it target =
     (case restart_search compare it target 0 (it_num_restarts it - 1) of None \<Rightarrow> None
      | Some (Inl it) \<Rightarrow> Some it
      | Some (Inr left) \<Rightarrow> do {
          it \<leftarrow> SeekToRestartPoint it left;
          parse_until (\<lambda>it. Some (0 \<le> compare (it_key it) target)) it
        })"

definition block_SeekToFirst :: "block_iter \<Rightarrow> block_iter option" where
  "block_SeekToFirst it = do {
     it \<leftarrow> SeekToRestartPoint it 0;
     (good, it) \<leftarrow> ParseNextKey it;
     Some it
   }"

definition block_SeekToLast :: "block_iter \<Rightarrow> block_iter option" where
  "block_SeekToLast it = do {
     it \<leftarrow> SeekToRestartPoint it (it_num_restarts it - 1);
     parse_until (\<lambda>it. map_option (\<lambda>next. \<not> next < it_restarts it) (NextEntryOffset it)) it
   }"

definition block_ops :: "(slice \<Rightarrow> slice \<Rightarrow> int) \<Rightarrow> block_iter Iterator" where
  "block_ops compare =
     \<lparr>Valid = block_valid, SeekToFirst = block_SeekToFirst, SeekToLast = block_SeekToLast,
      Seek = block_Seek compare, Next = block_Next, Prev = block_Prev,
      Key = it_key, Val = block_value, IterStatus = it_status\<rparr>"

text \<open>
  \<open>NewIterator\<close> gives an empty iterator with an error, an empty iterator, or one over the entries.
\<close>

datatype block_iterator = ErrorIterator Status | EmptyIterator | EntryIterator block_iter

definition NewIterator :: "Block \<Rightarrow> block_iterator" where
  "NewIterator b =
     (if blk_size b < 4 then ErrorIterator (Corruption (bytes_of ''bad block contents'') [])
      else
        let num_restarts = NumRestarts (blk_data b) (blk_size b) in
        if num_restarts = 0 then EmptyIterator
        else EntryIterator (make_block_iter (blk_data b) (blk_restart_offset b) num_restarts))"

end
