(* ===== verification/LdbBlockLayout.thy ===== *)
theory LdbBlockLayout
  imports LdbBlock LdbOffsets
begin

text \<open>
  What a block looks like that the builder made: the bytes of the entries, the table of the restart
  points, and what the reader's routines find at the entries. It does not matter where the
  restart points are, as long as the entries there share nothing.
\<close>

section \<open>Decoding one entry\<close>

lemma less_128_iff: "x < 128 \<longleftrightarrow> drop_bit 7 x = 0" for x :: u32
proof -
  have "x < 128 \<longleftrightarrow> unat x < 128" by (simp add: word_less_nat_alt)
  also have "\<dots> \<longleftrightarrow> unat (drop_bit 7 x) = 0" by (simp add: unat_drop_bit_div div_eq_0_iff)
  finally show ?thesis by (simp add: unat_eq_zero)
qed

lemma or_less_128: "(x OR y OR z) < 128 \<longleftrightarrow> x < 128 \<and> y < 128 \<and> z < 128" for x :: u32
  by (simp add: less_128_iff or_eq_0_iff)

lemma unat_ucast_byte: "unat (ucast b :: u32) = unat b" for b :: byte
  using unat_byte [of b] by (simp add: unsigned_ucast_eq take_bit_nat_eq_self)

lemma one_byte_varint: "(ucast b :: u32) < 128 \<Longrightarrow> GetVarint32Ptr (b # p) = Some (ucast b, p)"
proof -
  assume "(ucast b :: u32) < 128"
  then have "unat b < 128" by (simp add: word_less_nat_alt unat_ucast_byte)
  then show ?thesis by (simp add: GetVarint32Ptr_def ucast_and_128)
qed

text \<open>The fast path gives what the decoder of the numbers gives.\<close>

lemma DecodeEntry_slow:
  assumes "3 \<le> length p"
  shows "DecodeEntry p = (case entry_numbers p of None \<Rightarrow> None | Some e \<Rightarrow> entry_fits e)"
proof -
  from assms obtain a b c q where p: "p = a # b # c # q"
    by (auto simp: numeral_eq_Suc Suc_le_length_iff)
  have "entry_numbers p = Some (ucast a, ucast b, ucast c, q)"
    if "(ucast a OR ucast b OR ucast c) < (128 :: u32)"
    using that unfolding or_less_128 by (simp add: entry_numbers_def p one_byte_varint)
  moreover have "DecodeEntry p =
      (if (ucast a OR ucast b OR ucast c) < (128 :: u32) then entry_fits (ucast a, ucast b, ucast c, q)
       else (case entry_numbers p of None \<Rightarrow> None | Some e \<Rightarrow> entry_fits e))"
    by (simp add: DecodeEntry_def p numeral_3_eq_3 numeral_2_eq_2 Let_def)
  ultimately show ?thesis by simp
qed

definition entry_image :: "nat \<Rightarrow> entry \<Rightarrow> byte list" where
  "entry_image shared e =
     EncodeVarint32 (word_of_nat shared) @ EncodeVarint32 (word_of_nat (length (fst e) - shared)) @
     EncodeVarint32 (word_of_nat (length (snd e))) @ drop shared (fst e) @ snd e"

lemma EncodeVarint32_pos: "1 \<le> length (EncodeVarint32 v)"
  by (simp add: EncodeVarint32_bytes varint_bytes_nonempty Suc_le_eq)

lemma entry_image_length: "length (fst e) - shared + length (snd e) + 3 \<le> length (entry_image shared e)"
  using EncodeVarint32_pos [of "word_of_nat shared"] EncodeVarint32_pos [of "word_of_nat (length (fst e) - shared)"]
    EncodeVarint32_pos [of "word_of_nat (length (snd e))"]
  unfolding entry_image_def length_append length_drop by linarith

lemma DecodeEntry_image:
  assumes "shared < 2 ^ 32" and "length (entry_image shared e @ rest) < 2 ^ 32"
  shows "DecodeEntry (entry_image shared e @ rest)
    = Some (word_of_nat shared, word_of_nat (length (fst e) - shared), word_of_nat (length (snd e)),
            drop shared (fst e) @ snd e @ rest)"
proof -
  have l: "length (fst e) - shared + length (snd e) + length rest < 2 ^ 32"
    using assms(2) entry_image_length [of e shared] by simp
  have numbers: "entry_numbers (entry_image shared e @ rest)
      = Some (word_of_nat shared, word_of_nat (length (fst e) - shared), word_of_nat (length (snd e)),
              drop shared (fst e) @ snd e @ rest)"
    by (simp add: entry_numbers_def entry_image_def GetVarint32Ptr_Encode)
  have "unat (word_of_nat (length (fst e) - shared) + word_of_nat (length (snd e)) :: u32)
      = length (fst e) - shared + length (snd e)"
    unfolding of_nat_add [symmetric] using l by (intro unat_u32) simp
  moreover have "unat (word_of_nat (length (drop shared (fst e) @ snd e @ rest)) :: u32)
      = length (drop shared (fst e) @ snd e @ rest)"
    using l by (intro unat_u32) simp
  ultimately have "\<not> word_of_nat (length (drop shared (fst e) @ snd e @ rest))
      < (word_of_nat (length (fst e) - shared) + word_of_nat (length (snd e)) :: u32)"
    by (simp only: word_less_nat_alt) simp
  then show ?thesis
    using DecodeEntry_slow [of "entry_image shared e @ rest"] entry_image_length [of e shared] numbers
    by (simp add: entry_fits_def)
qed

section \<open>The layout of a block\<close>

text \<open>The entries, how many bytes each key shares with the one before, and the entries at the restart points.\<close>

record layout =
  lay_entries :: "entry list"
  lay_shared :: "nat list"
  lay_points :: "nat list"

definition images :: "layout \<Rightarrow> byte list list" where
  "images l = map2 entry_image (lay_shared l) (lay_entries l)"

definition pos :: "layout \<Rightarrow> nat \<Rightarrow> nat" where
  "pos l i = length (concat (take i (images l)))"

definition points_table :: "layout \<Rightarrow> u32 list" where
  "points_table l = map (\<lambda>i. word_of_nat (pos l i)) (lay_points l) @ [word_of_nat (length (lay_points l))]"

definition block_image :: "layout \<Rightarrow> byte list" where
  "block_image l = concat (images l) @ concat (map EncodeFixed32 (points_table l))"

definition shares :: "layout \<Rightarrow> bool" where
  "shares l \<longleftrightarrow>
     length (lay_shared l) = length (lay_entries l) \<and>
     (\<forall>i < length (lay_entries l).
        lay_shared l ! i \<le> length (fst (lay_entries l ! i)) \<and>
        (0 < i \<longrightarrow> take (lay_shared l ! i) (fst (lay_entries l ! (i - 1))) = take (lay_shared l ! i) (fst (lay_entries l ! i))))"

definition points_ok :: "layout \<Rightarrow> bool" where
  "points_ok l \<longleftrightarrow>
     (\<exists>rest. lay_points l = 0 # rest) \<and> sorted_wrt (<) (lay_points l) \<and>
     (\<forall>r \<in> set (lay_points l). (r < length (lay_entries l) \<and> lay_shared l ! r = 0) \<or> (r = 0 \<and> lay_entries l = []))"

definition layout_ok :: "layout \<Rightarrow> bool" where
  "layout_ok l \<longleftrightarrow> shares l \<and> points_ok l \<and> length (block_image l) < 2 ^ 32"

abbreviation (input) count :: "layout \<Rightarrow> nat" where
  "count l \<equiv> length (lay_entries l)"

lemma length_images: "shares l \<Longrightarrow> length (images l) = count l"
  by (simp add: images_def shares_def)

lemma images_nth: "shares l \<Longrightarrow> i < count l \<Longrightarrow> images l ! i = entry_image (lay_shared l ! i) (lay_entries l ! i)"
  by (simp add: images_def shares_def)

lemma pos_0 [simp]: "pos l 0 = 0"
  by (simp add: pos_def)

lemma pos_Suc: "shares l \<Longrightarrow> i < count l \<Longrightarrow> pos l (Suc i) = pos l i + length (images l ! i)"
  by (simp add: pos_def take_Suc_conv_app_nth length_images)

lemma image_pos: "shares l \<Longrightarrow> i < count l \<Longrightarrow> 3 \<le> length (images l ! i)"
  using entry_image_length [of "lay_entries l ! i" "lay_shared l ! i"] by (simp add: images_nth)

lemma pos_less: "shares l \<Longrightarrow> i < j \<Longrightarrow> j \<le> count l \<Longrightarrow> pos l i < pos l j"
proof (induction j)
  case (Suc j)
  then have "pos l j < pos l (Suc j)" using pos_Suc [of l j] image_pos [of l j] by linarith
  with Suc show ?case by (cases "i = j") auto
qed simp

lemma pos_less_iff: "shares l \<Longrightarrow> i \<le> count l \<Longrightarrow> j \<le> count l \<Longrightarrow> pos l i < pos l j \<longleftrightarrow> i < j"
  using pos_less [of l i j] pos_less [of l j i] by (metis less_asym linorder_neqE_nat)

lemma pos_count: "shares l \<Longrightarrow> pos l (count l) = length (concat (images l))"
  by (simp add: pos_def length_images)

lemma block_image_length: "shares l \<Longrightarrow> length (block_image l) = pos l (count l) + 4 * length (lay_points l) + 4"
  by (simp add: block_image_def pos_count points_table_def del: map_append)

lemma pos_bound: "layout_ok l \<Longrightarrow> i \<le> count l \<Longrightarrow> pos l i < 2 ^ 32"
  using pos_less [of l i "count l"] block_image_length [of l] by (cases "i = count l") (auto simp: layout_ok_def)

text \<open>An iterator over a block with this layout.\<close>

definition over :: "layout \<Rightarrow> block_iter \<Rightarrow> bool" where
  "over l it \<longleftrightarrow>
     it_data it = block_image l \<and> it_restarts it = pos l (count l) \<and>
     it_num_restarts it = length (lay_points l) \<and> it_status it = OK"

lemma over_update [simp]:
  "over l (it\<lparr>it_current := c\<rparr>) = over l it" "over l (it\<lparr>it_restart_index := i\<rparr>) = over l it"
  "over l (it\<lparr>it_key := k\<rparr>) = over l it" "over l (it\<lparr>it_value := v\<rparr>) = over l it"
  by (simp_all add: over_def)

lemma entry_bytes_at:
  assumes "layout_ok l" and "over l it" and "i \<le> count l"
  shows "entry_bytes it (pos l i) = concat (drop i (images l))"
proof -
  have split: "concat (images l) = concat (take i (images l)) @ concat (drop i (images l))"
    by (metis append_take_drop_id concat_append)
  then have "length (concat (images l)) - length (concat (take i (images l))) = length (concat (drop i (images l)))"
    by (metis add_diff_cancel_left' length_append)
  moreover have "shares l" using assms(1) by (simp add: layout_ok_def)
  moreover have "drop (pos l i) (block_image l) = concat (drop i (images l)) @ concat (map EncodeFixed32 (points_table l))"
    unfolding block_image_def pos_def split by simp
  ultimately show ?thesis using assms(2) by (simp add: entry_bytes_def over_def pos_count) (simp add: pos_def)
qed

lemma concat_drop: "i < length xss \<Longrightarrow> concat (drop i xss) = xss ! i @ concat (drop (Suc i) xss)"
  by (simp flip: Cons_nth_drop_Suc)

text \<open>A key is not longer than the entries up to it.\<close>

lemma shared_first: "layout_ok l \<Longrightarrow> 0 < count l \<Longrightarrow> lay_shared l ! 0 = 0"
  by (auto simp: layout_ok_def points_ok_def)

lemma shared_before:
  assumes "shares l" and "0 < i" and "i < count l"
  shows "lay_shared l ! i \<le> length (fst (lay_entries l ! (i - 1)))"
proof -
  have "take (lay_shared l ! i) (fst (lay_entries l ! (i - 1))) = take (lay_shared l ! i) (fst (lay_entries l ! i))"
    and "lay_shared l ! i \<le> length (fst (lay_entries l ! i))"
    using assms by (auto simp: shares_def)
  from arg_cong [OF this(1), of length] this(2) show ?thesis by simp
qed

lemma key_bound:
  assumes "layout_ok l"
  shows "i < count l \<Longrightarrow> length (fst (lay_entries l ! i)) \<le> pos l (Suc i)"
proof (induction i)
  have sh: "shares l" using assms by (simp add: layout_ok_def)
  have image: "length (fst (lay_entries l ! i)) - lay_shared l ! i \<le> length (images l ! i)" if "i < count l" for i
    using entry_image_length [of "lay_entries l ! i" "lay_shared l ! i"] that by (simp add: images_nth [OF sh])
  {
    case 0
    then show ?case using image [of 0] shared_first [OF assms] pos_Suc [OF sh, of 0] by simp
  next
    case (Suc i)
    then show ?case
      using image [of "Suc i"] shared_before [OF sh, of "Suc i"] pos_Suc [OF sh, of "Suc i"] by simp
  }
qed

lemma entry_at:
  assumes "layout_ok l" and "over l it" and "i < count l"
  defines "e \<equiv> lay_entries l ! i" and "shared \<equiv> lay_shared l ! i"
  shows "\<exists>rest. DecodeEntry (entry_bytes it (pos l i))
      = Some (word_of_nat shared, word_of_nat (length (fst e) - shared), word_of_nat (length (snd e)), rest) \<and>
    unat (word_of_nat shared :: u32) = shared \<and>
    unat (word_of_nat (length (fst e) - shared) :: u32) = length (fst e) - shared \<and>
    unat (word_of_nat (length (snd e)) :: u32) = length (snd e) \<and>
    read_at it (it_restarts it - length rest) (length (fst e) - shared) = Some (drop shared (fst e)) \<and>
    it_restarts it - length rest + (length (fst e) - shared) + length (snd e) = pos l (Suc i) \<and>
    take (length (snd e)) (drop (it_restarts it - length rest + (length (fst e) - shared)) (it_data it)) = snd e"
proof -
  have sh: "shares l" using assms(1) by (simp add: layout_ok_def)
  define header where "header = EncodeVarint32 (word_of_nat shared) @ EncodeVarint32 (word_of_nat (length (fst e) - shared)) @
     EncodeVarint32 (word_of_nat (length (snd e)))"
  define R where "R = concat (drop (Suc i) (images l))"
  let ?rest = "drop shared (fst e) @ snd e @ R" and ?T = "concat (map EncodeFixed32 (points_table l))"
  have img: "images l ! i = header @ drop shared (fst e) @ snd e"
    using assms(3) sh by (simp add: images_nth header_def entry_image_def e_def shared_def)
  have i: "i < length (images l)" using assms(3) sh by (simp add: length_images)
  have split: "concat (images l) = concat (take i (images l)) @ images l ! i @ R"
    unfolding R_def concat_drop [OF i, symmetric] by (metis append_take_drop_id concat_append)
  have lens: "pos l (Suc i) = pos l i + length (images l ! i)" "it_restarts it = pos l (Suc i) + length R"
    "length (block_image l) < 2 ^ 32" "length (concat (images l)) \<le> length (block_image l)"
    using assms split pos_Suc [OF sh assms(3)] pos_count [OF sh] by (simp_all add: over_def layout_ok_def block_image_def) (simp add: pos_def)
  have le: "shared \<le> length (fst e)" using sh assms(3) by (simp add: shares_def e_def shared_def)
  have h: "it_restarts it - length ?rest = pos l i + length header" using lens(1,2) by (simp add: img)
  have small: "length (images l ! i @ R) < 2 ^ 32" using lens(3,4) split by simp
  have image: "images l ! i = entry_image shared e" using sh assms(3) by (simp add: images_nth e_def shared_def)
  have data: "drop (pos l i + length header) (it_data it) = drop shared (fst e) @ snd e @ R @ ?T"
    using assms(2) split by (simp add: over_def block_image_def pos_def img)
  have "length (fst e) < 2 ^ 32"
    using key_bound [OF assms(1,3)] pos_bound [OF assms(1), of "Suc i"] assms(3) by (simp add: e_def)
  then have nums: "shared < 2 ^ 32" "length (fst e) - shared < 2 ^ 32" "length (snd e) < 2 ^ 32"
    using small img le by simp_all
  have "i \<le> count l" using assms(3) by simp
  from entry_bytes_at [OF assms(1,2) this] have "entry_bytes it (pos l i) = entry_image shared e @ R"
    by (simp add: concat_drop [OF i] R_def image)
  with DecodeEntry_image [OF nums(1), of e R] small image
  have dec: "DecodeEntry (entry_bytes it (pos l i))
      = Some (word_of_nat shared, word_of_nat (length (fst e) - shared), word_of_nat (length (snd e)), ?rest)"
    by simp
  have bound: "pos l (Suc i) \<le> length (it_data it)"
    using assms(2) lens(2,4) pos_count [OF sh] by (simp add: over_def)
  have "read_at it (it_restarts it - length ?rest) (length (fst e) - shared) = Some (drop shared (fst e))"
    unfolding read_at_def h data using bound lens(1) by (simp add: img)
  moreover have "take (length (snd e)) (drop (it_restarts it - length ?rest + (length (fst e) - shared)) (it_data it)) = snd e"
  proof -
    have "drop (pos l i + length header + (length (fst e) - shared)) (it_data it)
        = drop (length (fst e) - shared) (drop (pos l i + length header) (it_data it))" by (simp add: add.commute)
    then show ?thesis unfolding h data by simp
  qed
  moreover have "it_restarts it - length ?rest + (length (fst e) - shared) + length (snd e) = pos l (Suc i)"
    unfolding h using lens(1) by (simp add: img)
  ultimately show ?thesis using dec nums by (intro exI [of _ ?rest]) (simp add: unat_u32)
qed

lemma GetRestartPoint_at:
  assumes "layout_ok l" and "over l it" and "j < length (lay_points l)"
  shows "GetRestartPoint it j = Some (pos l (lay_points l ! j))"
proof -
  have sh: "shares l" using assms(1) by (simp add: layout_ok_def)
  have "lay_points l ! j \<in> set (lay_points l)" using assms(3) by (rule nth_mem)
  then have "lay_points l ! j \<le> count l" using assms(1) by (auto simp: layout_ok_def points_ok_def)
  then have "pos l (lay_points l ! j) < 2 ^ 32" by (rule pos_bound [OF assms(1)])
  moreover have "DecodeFixed32 (drop (pos l (count l) + j * 4) (block_image l)) = points_table l ! j"
    using assms(3) fixed32_table_nth [of j "points_table l" "[]"] pos_count [OF sh]
    by (simp add: block_image_def points_table_def del: map_append)
  moreover have "points_table l ! j = word_of_nat (pos l (lay_points l ! j))"
    using assms(3) by (simp add: points_table_def nth_append)
  ultimately show ?thesis
    using assms block_image_length [OF sh] unat_u32 [of "pos l (lay_points l ! j)"]
    by (simp add: GetRestartPoint_def over_def)
qed
end
