(* ===== verification/LdbBlockIter.thy ===== *)
theory LdbBlockIter
  imports LdbBlockLayout
begin

text \<open>
  The iterator of a block meets the interface of a sorted iterator, over every block with the layout
  of the builder and for every comparator.
\<close>

section \<open>One step\<close>

text \<open>The iterator can parse the entry \<open>i\<close> next, or stands at it.\<close>

definition ready :: "layout \<Rightarrow> block_iter \<Rightarrow> nat \<Rightarrow> bool" where
  "ready l it i \<longleftrightarrow>
     over l it \<and> i \<le> count l \<and> (\<exists>v n. it_value it = Some (v, n) \<and> v + n = pos l i) \<and>
     (i < count l \<longrightarrow> lay_shared l ! i \<le> length (it_key it) \<and>
        take (lay_shared l ! i) (it_key it) = take (lay_shared l ! i) (fst (lay_entries l ! i))) \<and>
     it_restart_index it < length (lay_points l) \<and> lay_points l ! it_restart_index it \<le> i"

definition stands :: "layout \<Rightarrow> block_iter \<Rightarrow> nat \<Rightarrow> bool" where
  "stands l it i \<longleftrightarrow>
     over l it \<and> i \<le> count l \<and>
     (if i < count l then
        it_current it = pos l i \<and> it_key it = fst (lay_entries l ! i) \<and>
        (\<exists>v. it_value it = Some (v, length (snd (lay_entries l ! i))) \<and>
             v + length (snd (lay_entries l ! i)) = pos l (Suc i)) \<and>
        block_value it = snd (lay_entries l ! i) \<and>
        it_restart_index it < length (lay_points l) \<and> lay_points l ! it_restart_index it \<le> i
      else it_current it = it_restarts it)"

lemma reading_update [simp]:
  "entry_bytes (it\<lparr>it_current := c\<rparr>) p = entry_bytes it p" "read_at (it\<lparr>it_current := c\<rparr>) p n = read_at it p n"
  by (simp_all add: entry_bytes_def read_at_def)

lemma ready_offset:
  assumes "layout_ok l" and "ready l it i"
  shows "NextEntryOffset it = Some (pos l i)"
  using assms pos_bound [OF assms(1), of i] by (auto simp: ready_def NextEntryOffset_def)

lemma stands_ready:
  assumes "layout_ok l" and "stands l it i" and "i < count l"
  shows "ready l it (Suc i)"
proof -
  have sh: "shares l" using assms(1) by (simp add: layout_ok_def)
  have "lay_shared l ! Suc i \<le> length (fst (lay_entries l ! i)) \<and>
      take (lay_shared l ! Suc i) (fst (lay_entries l ! i)) = take (lay_shared l ! Suc i) (fst (lay_entries l ! Suc i))"
    if "Suc i < count l"
    using that shared_before [OF sh, of "Suc i"] sh by (auto simp: shares_def)
  then show ?thesis using assms(2,3) by (auto simp: ready_def stands_def)
qed

lemma advance_restart_at:
  assumes "layout_ok l" and "over l it" and "it_current it = pos l i" and "i < count l"
    and "it_restart_index it < length (lay_points l)" and "lay_points l ! it_restart_index it \<le> i"
  shows "\<exists>j. advance_restart it = Some (it\<lparr>it_restart_index := j\<rparr>) \<and> j < length (lay_points l) \<and> lay_points l ! j \<le> i"
  using assms(2-)
proof (induction it rule: advance_restart.induct)
  case (1 it)
  have sh: "shares l" using assms(1) by (simp add: layout_ok_def)
  let ?j = "it_restart_index it"
  show ?case
  proof (cases "?j + 1 < it_num_restarts it")
    case False
    then have "advance_restart it = Some (it\<lparr>it_restart_index := ?j\<rparr>)" by (simp add: advance_restart.simps [of it])
    then show ?thesis using 1(5,6) by blast
  next
    case True
    then have j: "?j + 1 < length (lay_points l)" using 1(2) by (simp add: over_def)
    note point = GetRestartPoint_at [OF assms(1) 1(2) j]
    note step = advance_restart.simps [of it, unfolded point option.case]
    show ?thesis
    proof (cases "pos l (lay_points l ! (?j + 1)) < it_current it")
      case False
      then have "advance_restart it = Some (it\<lparr>it_restart_index := ?j\<rparr>)"
        by (simp add: step)
      then show ?thesis using 1(5,6) by blast
    next
      case less: True
      have "lay_points l ! (?j + 1) \<in> set (lay_points l)" using j by (rule nth_mem)
      then have "lay_points l ! (?j + 1) < count l"
        using assms(1) 1(4) by (auto simp: layout_ok_def points_ok_def)
      then have "lay_points l ! (?j + 1) < i"
        using less 1(3,4) pos_less_iff [OF sh, of "lay_points l ! (?j + 1)" i] by simp
      moreover have "advance_restart it = advance_restart (it\<lparr>it_restart_index := ?j + 1\<rparr>)"
        using True less by (simp add: step)
      moreover have "\<exists>k. advance_restart (it\<lparr>it_restart_index := ?j + 1\<rparr>)
          = Some (it\<lparr>it_restart_index := ?j + 1, it_restart_index := k\<rparr>) \<and> k < length (lay_points l) \<and> lay_points l ! k \<le> i"
        by (rule 1(1) [OF True point less]) (use 1 j calculation(1) in simp_all)
      ultimately show ?thesis by simp
    qed
  qed
qed

lemma ParseNextKey_at:
  assumes "layout_ok l" and "ready l it i"
  shows "\<exists>it'. ParseNextKey it = Some (i < count l, it') \<and> stands l it' i"
proof -
  have sh: "shares l" and ov: "over l it" and le: "i \<le> count l" using assms by (simp_all add: layout_ok_def ready_def)
  have restarts: "it_restarts it \<le> pos l i \<longleftrightarrow> i = count l"
    using pos_less_iff [OF sh, of i "count l"] le ov by (auto simp: over_def not_less)
  show ?thesis
  proof (cases "i = count l")
    case True
    then show ?thesis using ov restarts
      by (simp add: ParseNextKey_def ready_offset [OF assms] Let_def stands_def)
  next
    case False
    then have i: "i < count l" using le by simp
    define e where "e = lay_entries l ! i"
    define shared where "shared = lay_shared l ! i"
    from entry_at [OF assms(1) ov i] obtain rest where
      dec: "DecodeEntry (entry_bytes it (pos l i))
        = Some (word_of_nat shared, word_of_nat (length (fst e) - shared), word_of_nat (length (snd e)), rest)"
      and nums: "unat (word_of_nat shared :: u32) = shared"
        "unat (word_of_nat (length (fst e) - shared) :: u32) = length (fst e) - shared"
        "unat (word_of_nat (length (snd e)) :: u32) = length (snd e)"
      and delta: "read_at it (it_restarts it - length rest) (length (fst e) - shared) = Some (drop shared (fst e))"
      and behind: "it_restarts it - length rest + (length (fst e) - shared) + length (snd e) = pos l (Suc i)"
      and val: "take (length (snd e)) (drop (it_restarts it - length rest + (length (fst e) - shared)) (it_data it)) = snd e"
      unfolding e_def shared_def by blast
    have key: "shared \<le> length (it_key it)" "take shared (it_key it) = take shared (fst e)"
      using assms(2) i by (simp_all add: ready_def e_def shared_def)
    let ?v = "it_restarts it - length rest + (length (fst e) - shared)"
    let ?it = "it\<lparr>it_current := pos l i, it_key := fst e, it_value := Some (?v, length (snd e))\<rparr>"
    have "over l ?it" using ov by simp
    from advance_restart_at [OF assms(1) this, of i] assms(2) i obtain j where
      j: "advance_restart ?it = Some (?it\<lparr>it_restart_index := j\<rparr>)" "j < length (lay_points l)" "lay_points l ! j \<le> i"
      by (auto simp: ready_def)
    have "ParseNextKey it = Some (True, ?it\<lparr>it_restart_index := j\<rparr>)"
      using restarts False key delta j(1)
      by (simp add: ParseNextKey_def ready_offset [OF assms] dec nums)
    moreover have "stands l (?it\<lparr>it_restart_index := j\<rparr>) i"
      using ov i j behind val by (auto simp: stands_def e_def [symmetric] block_value_def)
    ultimately show ?thesis using i by simp
  qed
qed

text \<open>The loops that parse until something holds stop at the first entry at which it does.\<close>

lemma parse_until_at:
  assumes "layout_ok l" and "ready l it i"
    and stop: "\<And>it p. stands l it p \<Longrightarrow> p < count l \<Longrightarrow> stop it = Some (P p)"
  shows "\<exists>it' q. parse_until stop it = Some it' \<and> stands l it' q \<and> i \<le> q \<and> (\<forall>p. i \<le> p \<and> p < q \<longrightarrow> \<not> P p) \<and>
           (q < count l \<longrightarrow> P q)"
  using assms(2)
proof (induction "count l - i" arbitrary: it i rule: less_induct)
  case less
  let ?turn = "\<lambda>it. do { (good, it) \<leftarrow> ParseNextKey it;
     if \<not> good then Some (Leave it) else do { s \<leftarrow> stop it; Some (if s then Leave it else Continue it) } }"
  from ParseNextKey_at [OF assms(1) less.prems] obtain it' where
    p: "ParseNextKey it = Some (i < count l, it')" "stands l it' i" by blast
  show ?case
  proof (cases "i < count l \<and> \<not> P i")
    case False
    then have "?turn it = Some (Leave it')" using p stop [OF p(2)] by auto
    then have "crun ?turn it = Some it'" by (rule crun_Leave)
    then show ?thesis using p(2) False unfolding parse_until_def by (intro exI [of _ it'] exI [of _ i]) auto
  next
    case True
    then have "?turn it = Some (Continue it')" using p stop [OF p(2)] by simp
    then have c: "crun ?turn it = crun ?turn it'" by (rule crun_Continue)
    have "ready l it' (Suc i)" using stands_ready [OF assms(1) p(2)] True by simp
    moreover have "count l - Suc i < count l - i" using conjunct1 [OF True] by (rule diff_less_mono2 [OF lessI])
    ultimately obtain it'' q where
      q: "parse_until stop it' = Some it''" "stands l it'' q" "Suc i \<le> q" "\<forall>p. Suc i \<le> p \<and> p < q \<longrightarrow> \<not> P p"
         "q < count l \<longrightarrow> P q"
      using less.hyps [of "Suc i" it'] by blast
    have "\<not> P p" if "i \<le> p" "p < q" for p using True q(4) that by (cases "p = i") auto
    then show ?thesis using q c unfolding parse_until_def by (intro exI [of _ it''] exI [of _ q]) auto
  qed
qed

lemma SeekToRestartPoint_at:
  assumes "layout_ok l" and "over l it" and "j < length (lay_points l)"
  shows "\<exists>it'. SeekToRestartPoint it j = Some it' \<and> ready l it' (lay_points l ! j)"
proof -
  have "lay_points l ! j \<in> set (lay_points l)" using assms(3) by (rule nth_mem)
  then have "lay_points l ! j \<le> count l \<and> (lay_points l ! j < count l \<longrightarrow> lay_shared l ! (lay_points l ! j) = 0)"
    using assms(1) by (auto simp: layout_ok_def points_ok_def)
  then show ?thesis
    using assms by (auto simp: SeekToRestartPoint_def GetRestartPoint_at ready_def)
qed

section \<open>The operations\<close>

lemma points_0: "layout_ok l \<Longrightarrow> 0 < length (lay_points l) \<and> lay_points l ! 0 = 0"
  by (auto simp: layout_ok_def points_ok_def)

lemma points_cases:
  assumes "layout_ok l" and "j < length (lay_points l)"
  shows "(lay_points l ! j < count l \<and> lay_shared l ! (lay_points l ! j) = 0) \<or> (lay_points l ! j = 0 \<and> lay_entries l = [])"
proof -
  have "\<forall>r \<in> set (lay_points l). (r < count l \<and> lay_shared l ! r = 0) \<or> (r = 0 \<and> lay_entries l = [])"
    using assms(1) unfolding layout_ok_def points_ok_def by (elim conjE)
  then show ?thesis using nth_mem [OF assms(2)] by blast
qed

lemma points_count: "layout_ok l \<Longrightarrow> j < length (lay_points l) \<Longrightarrow> lay_points l ! j < count l \<or> lay_points l ! j = 0"
  using points_cases [of l j] by auto

lemma points_shared:
  "layout_ok l \<Longrightarrow> j < length (lay_points l) \<Longrightarrow> lay_points l ! j < count l \<Longrightarrow> lay_shared l ! (lay_points l ! j) = 0"
  using points_cases [of l j] by auto

lemma points_single:
  assumes "layout_ok l" and "lay_entries l = []"
  shows "length (lay_points l) = 1"
proof (rule ccontr)
  assume "length (lay_points l) \<noteq> 1"
  then have j: "1 < length (lay_points l)" using points_0 [OF assms(1)] by linarith
  then have "lay_points l ! 0 < lay_points l ! 1"
    using assms(1) by (auto simp: layout_ok_def points_ok_def sorted_wrt_iff_nth_less)
  then show False using points_count [OF assms(1) j] assms(2) by simp
qed

lemma stands_over: "stands l it p \<Longrightarrow> over l it"
  by (simp add: stands_def)

lemma stands_valid: "layout_ok l \<Longrightarrow> stands l it p \<Longrightarrow> block_valid it \<longleftrightarrow> p < count l"
  using pos_less_iff [of l p "count l"] by (auto simp: stands_def block_valid_def over_def layout_ok_def split: if_splits)

lemma stands_next_offset:
  assumes "layout_ok l" and "stands l it p" and "p < count l"
  shows "NextEntryOffset it = Some (pos l (Suc p))"
  by (rule ready_offset [OF assms(1) stands_ready [OF assms]])

lemma block_Next_at:
  assumes "layout_ok l" and "stands l it p" and "p < count l"
  shows "\<exists>it'. block_Next it = Some it' \<and> stands l it' (Suc p)"
proof -
  from ParseNextKey_at [OF assms(1) stands_ready [OF assms]] obtain it' where
    "ParseNextKey it = Some (Suc p < count l, it')" "stands l it' (Suc p)" by blast
  then show ?thesis using stands_valid [OF assms(1,2)] assms(3) by (simp add: block_Next_def)
qed

lemma block_SeekToFirst_at:
  assumes "layout_ok l" and "over l it"
  shows "\<exists>it'. block_SeekToFirst it = Some it' \<and> stands l it' 0"
proof -
  from SeekToRestartPoint_at [OF assms, of 0] points_0 [OF assms(1)] obtain it1 where
    1: "SeekToRestartPoint it 0 = Some it1" "ready l it1 0" by auto
  from ParseNextKey_at [OF assms(1) 1(2)] obtain it' where
    "ParseNextKey it1 = Some (0 < count l, it')" "stands l it' 0" by blast
  then show ?thesis using 1(1) by (simp add: block_SeekToFirst_def)
qed

lemma block_SeekToLast_at:
  assumes "layout_ok l" and "over l it"
  shows "\<exists>it'. block_SeekToLast it = Some it' \<and> stands l it' (count l - 1)"
proof -
  have sh: "shares l" using assms(1) by (simp add: layout_ok_def)
  let ?j = "length (lay_points l) - 1"
  have j: "?j < length (lay_points l)" using points_0 [OF assms(1)] by simp
  from SeekToRestartPoint_at [OF assms j] obtain it1 where
    1: "SeekToRestartPoint it ?j = Some it1" "ready l it1 (lay_points l ! ?j)" by blast
  have stop: "map_option (\<lambda>next. \<not> next < it_restarts it') (NextEntryOffset it') = Some (\<not> Suc p < count l)"
    if "stands l it' p" "p < count l" for it' p
    using stands_next_offset [OF assms(1) that] stands_over [OF that(1)] that(2) pos_less_iff [OF sh, of "Suc p" "count l"]
    by (simp add: over_def)
  from parse_until_at [OF assms(1) 1(2), where P = "\<lambda>p. \<not> Suc p < count l" and
      stop = "\<lambda>it. map_option (\<lambda>next. \<not> next < it_restarts it) (NextEntryOffset it)", OF stop]
  obtain it' q where q: "parse_until (\<lambda>it. map_option (\<lambda>next. \<not> next < it_restarts it) (NextEntryOffset it)) it1 = Some it'"
    "stands l it' q" "lay_points l ! ?j \<le> q" "\<forall>p. lay_points l ! ?j \<le> p \<and> p < q \<longrightarrow> Suc p < count l"
    "q < count l \<longrightarrow> \<not> Suc q < count l"
    by blast
  have "q \<le> count l" using q(2) by (simp add: stands_def)
  have "q = count l - 1"
  proof (cases "q < count l")
    case True
    then show ?thesis using q(5) by simp
  next
    case False
    then have "q = count l" using \<open>q \<le> count l\<close> by simp
    moreover have "count l = 0"
    proof (rule ccontr)
      assume "count l \<noteq> 0"
      then have "lay_points l ! ?j \<le> count l - 1 \<and> count l - 1 < q"
        using points_count [OF assms(1) j] \<open>q = count l\<close> by auto
      with q(4) have "Suc (count l - 1) < count l" by blast
      then show False by simp
    qed
    ultimately show ?thesis by simp
  qed
  then show ?thesis using 1(1) q(1,2) assms(2) by (simp add: block_SeekToLast_def over_def)
qed

text \<open>\<open>Prev\<close> goes back to a restart point before the entry.\<close>

lemma restart_before_at:
  assumes "layout_ok l" and "over l it" and "p < count l"
  shows "j < length (lay_points l) \<Longrightarrow>
    \<exists>r. restart_before it (pos l p) j = Some r \<and>
      (case r of None \<Rightarrow> p = 0 | Some k \<Rightarrow> k < length (lay_points l) \<and> lay_points l ! k < p)"
proof (induction j)
  have sh: "shares l" using assms(1) by (simp add: layout_ok_def)
  have less: "pos l p \<le> pos l (lay_points l ! k) \<longleftrightarrow> p \<le> lay_points l ! k" if "k < length (lay_points l)" for k
    using points_count [OF assms(1) that] assms(3) pos_less_iff [OF sh, of "lay_points l ! k" p] by (auto simp: not_less [symmetric])
  {
    case 0
    then show ?case using less [of 0] points_0 [OF assms(1)] GetRestartPoint_at [OF assms(1,2), of 0] by auto
  next
    case (Suc j)
    then show ?case
      using less [of "Suc j"] GetRestartPoint_at [OF assms(1,2), of "Suc j"] by auto
  }
qed

lemma block_Prev_at:
  assumes "layout_ok l" and "stands l it p" and "p < count l"
  shows "\<exists>it'. block_Prev it = Some it' \<and> stands l it' (if p = 0 then count l else p - 1)"
proof -
  have sh: "shares l" using assms(1) by (simp add: layout_ok_def)
  note ov = stands_over [OF assms(2)]
  have valid: "block_valid it" using stands_valid [OF assms(1,2)] assms(3) by simp
  have cur: "it_current it = pos l p" and idx: "it_restart_index it < length (lay_points l)"
    using assms(2,3) by (simp_all add: stands_def)
  from restart_before_at [OF assms(1) ov assms(3) idx] obtain r where
    r: "restart_before it (pos l p) (it_restart_index it) = Some r"
       "case r of None \<Rightarrow> p = 0 | Some k \<Rightarrow> k < length (lay_points l) \<and> lay_points l ! k < p"
    by blast
  show ?thesis
  proof (cases r)
    case None
    then show ?thesis using r valid ov by (simp add: block_Prev_def cur stands_def Let_def)
  next
    case (Some k)
    then have k: "k < length (lay_points l)" "lay_points l ! k < p" using r(2) by simp_all
    have "over l (it\<lparr>it_restart_index := k\<rparr>)" using ov by simp
    from SeekToRestartPoint_at [OF assms(1) this k(1)] obtain it1 where
      1: "SeekToRestartPoint (it\<lparr>it_restart_index := k\<rparr>) k = Some it1" "ready l it1 (lay_points l ! k)" by blast
    let ?stop = "\<lambda>it. map_option (\<lambda>next. \<not> next < pos l p) (NextEntryOffset it)"
    have stop: "?stop it' = Some (\<not> Suc q < p)" if "stands l it' q" "q < count l" for it' q
      using stands_next_offset [OF assms(1) that] that(2) assms(3) pos_less_iff [OF sh, of "Suc q" p] by simp
    from parse_until_at [OF assms(1) 1(2), where P = "\<lambda>q. \<not> Suc q < p" and stop = ?stop, OF stop] obtain it' q where
      q: "parse_until ?stop it1 = Some it'" "stands l it' q" "\<forall>i. lay_points l ! k \<le> i \<and> i < q \<longrightarrow> Suc i < p"
         "q < count l \<longrightarrow> \<not> Suc q < p"
      by blast
    have "q \<le> p - 1"
    proof (rule ccontr)
      assume "\<not> q \<le> p - 1"
      then have "lay_points l ! k \<le> p - 1 \<and> p - 1 < q" using k(2) by simp
      with q(3) have "Suc (p - 1) < p" by blast
      then show False by simp
    qed
    then have "q = p - 1" using q(4) assms(3) k(2) by auto
    then show ?thesis using r(1) Some 1(1) q(1,2) valid k(2) by (simp add: block_Prev_def cur)
  qed
qed

section \<open>Seeking\<close>

context slice_comparator
begin

text \<open>The binary search ends at a restart point that is the first one, or whose key is below the target.\<close>

lemma restart_search_at:
  fixes l :: layout
  assumes "layout_ok l" and "over l it"
  shows "right < length (lay_points l) \<Longrightarrow> left \<le> right \<Longrightarrow>
    left = 0 \<or> compare (fst (lay_entries l ! (lay_points l ! left))) target < 0 \<Longrightarrow>
    \<exists>j. restart_search compare it target left right = Some (Inr j) \<and> j < length (lay_points l) \<and>
      (j = 0 \<or> compare (fst (lay_entries l ! (lay_points l ! j))) target < 0)"
proof (induction "right - left" arbitrary: left right rule: less_induct)
  case less
  show ?case
  proof (cases "left < right")
    case False
    then have "restart_search compare it target left right = Some (Inr left)"
      by (simp add: restart_search.simps [of compare it target left right])
    then show ?thesis using less.prems by (intro exI [of _ left]) simp
  next
    case True
    define mid where "mid = (left + right + 1) div 2"
    have mid: "left < mid" "mid \<le> right" using True by (auto simp: mid_def)
    define i where "i = lay_points l ! mid"
    have m: "mid < length (lay_points l)" using mid(2) less.prems(1) by simp
    have "lay_entries l \<noteq> []" using points_single [OF assms(1)] m mid(1) by auto
    then have i: "i < count l" "lay_shared l ! i = 0"
      using points_cases [OF assms(1) m] by (auto simp: i_def)
    from entry_at [OF assms i(1)] obtain rest where
      e: "DecodeEntry (entry_bytes it (pos l i)) = Some (0, word_of_nat (length (fst (lay_entries l ! i))),
            word_of_nat (length (snd (lay_entries l ! i))), rest)"
         "unat (word_of_nat (length (fst (lay_entries l ! i))) :: u32) = length (fst (lay_entries l ! i))"
         "read_at it (it_restarts it - length rest) (length (fst (lay_entries l ! i))) = Some (fst (lay_entries l ! i))"
      unfolding i(2) by auto
    have point: "GetRestartPoint it mid = Some (pos l i)"
      unfolding i_def by (rule GetRestartPoint_at [OF assms m])
    have step: "restart_search compare it target left right =
        (if compare (fst (lay_entries l ! i)) target < 0 then restart_search compare it target mid right
         else restart_search compare it target left (mid - 1))"
      using True unfolding restart_search.simps [of compare it target left right] Let_def mid_def [symmetric] point
      by (simp add: e)
    show ?thesis
    proof (cases "compare (fst (lay_entries l ! i)) target < 0")
      case c: True
      have "right - mid < right - left" using mid by simp
      from less.hyps [OF this less.prems(1) mid(2)] c show ?thesis by (simp add: step i_def)
    next
      case c: False
      have "mid - 1 - left < right - left" using mid by simp
      from less.hyps [OF this] mid less.prems c show ?thesis by (simp add: step)
    qed
  qed
qed

lemma block_Seek_at:
  fixes l :: layout
  assumes "layout_ok l" and "over l it" and "ordered (map fst (lay_entries l))"
  shows "\<exists>it'. block_Seek compare it target = Some it' \<and> stands l it' (below target (lay_entries l))"
proof -
  have last: "length (lay_points l) - 1 < length (lay_points l)" using points_0 [OF assms(1)] by simp
  have num: "it_num_restarts it = length (lay_points l)" using assms(2) by (simp add: over_def)
  from restart_search_at [OF assms(1,2) last, of 0 target] obtain j where
    j: "restart_search compare it target 0 (length (lay_points l) - 1) = Some (Inr j)" "j < length (lay_points l)"
       "j = 0 \<or> compare (fst (lay_entries l ! (lay_points l ! j))) target < 0"
    by auto
  from SeekToRestartPoint_at [OF assms(1,2) j(2)] obtain it1 where
    1: "SeekToRestartPoint it j = Some it1" "ready l it1 (lay_points l ! j)" by blast
  let ?stop = "\<lambda>it. Some (0 \<le> compare (it_key it) target)"
  have stop: "?stop it' = Some (0 \<le> compare (fst (lay_entries l ! p)) target)" if "stands l it' p" "p < count l" for it' p
    using that by (simp add: stands_def)
  from parse_until_at [OF assms(1) 1(2), where P = "\<lambda>p. 0 \<le> compare (fst (lay_entries l ! p)) target" and stop = ?stop, OF stop]
  obtain it' q where q: "parse_until ?stop it1 = Some it'" "stands l it' q" "lay_points l ! j \<le> q"
    "\<forall>p. lay_points l ! j \<le> p \<and> p < q \<longrightarrow> \<not> 0 \<le> compare (fst (lay_entries l ! p)) target"
    "q < count l \<longrightarrow> 0 \<le> compare (fst (lay_entries l ! q)) target"
    by blast
  have le: "q \<le> count l" using q(2) by (simp add: stands_def)
  have "compare (fst (lay_entries l ! p)) target < 0" if p: "p < q" for p
  proof (cases "lay_points l ! j \<le> p")
    case True
    then show ?thesis using q(4) p by auto
  next
    case False
    then have "lay_points l ! j \<noteq> 0" by simp
    then have "j \<noteq> 0" using points_0 [OF assms(1)] by (cases j) auto
    have "lay_points l ! j < count l" using \<open>lay_points l ! j \<noteq> 0\<close> points_count [OF assms(1) j(2)] by auto
    have "compare (fst (lay_entries l ! (lay_points l ! j))) target < 0" using j(3) \<open>j \<noteq> 0\<close> by simp
    moreover have "compare (fst (lay_entries l ! p)) (fst (lay_entries l ! (lay_points l ! j))) < 0"
      using ordered_nth [OF assms(3), of p "lay_points l ! j"] False \<open>lay_points l ! j < count l\<close> by simp
    ultimately show ?thesis
      using compare_less_trans [of "fst (lay_entries l ! p)" "fst (lay_entries l ! (lay_points l ! j))" target] by simp
  qed
  then have "below target (lay_entries l) = q" using le q(5) by (intro below_unique) auto
  then show ?thesis using j(1) 1(1) q(1,2) by (simp add: block_Seek_def num)
qed

end

section \<open>The interface\<close>

definition block_at :: "(slice \<Rightarrow> slice \<Rightarrow> int) \<Rightarrow> block_iter \<Rightarrow> entry list \<Rightarrow> nat \<Rightarrow> bool" where
  "block_at compare it es p \<longleftrightarrow>
     sorted_wrt (\<lambda>a b. compare a b < 0) (map fst es) \<and> (\<exists>l. layout_ok l \<and> lay_entries l = es \<and> stands l it p)"

lemma block_atI: "layout_ok l \<Longrightarrow> stands l it p \<Longrightarrow> sorted_wrt (\<lambda>a b. compare a b < 0) (map fst (lay_entries l)) \<Longrightarrow>
    block_at compare it (lay_entries l) p"
  by (auto simp: block_at_def)

lemma block_atE:
  assumes "block_at compare it es p"
  obtains l where "layout_ok l" "es = lay_entries l" "stands l it p" "sorted_wrt (\<lambda>a b. compare a b < 0) (map fst (lay_entries l))"
  using assms by (auto simp: block_at_def)

sublocale slice_comparator < block: sorted_iterator compare "block_ops compare" "block_at compare" "\<lambda>t. True"
proof
  fix s es p t assume "block_at compare s es p"
  then obtain l where l: "layout_ok l" "es = lay_entries l" "stands l s p"
    and o: "sorted_wrt (\<lambda>a b. compare a b < 0) (map fst (lay_entries l))" by (rule block_atE)
  note at = block_atI [OF l(1) _ o] and ov = stands_over [OF l(3)]
  show "p \<le> length es" using l by (simp add: stands_def)
  show "ordered (map fst es)" using o l(2) by (simp add: ordered_def)
  show "Valid (block_ops compare) s \<longleftrightarrow> p < length es" using stands_valid [OF l(1,3)] l(2) by (simp add: block_ops_def)
  show "IterStatus (block_ops compare) s = OK" using ov by (simp add: block_ops_def over_def)
  show "\<exists>s'. SeekToFirst (block_ops compare) s = Some s' \<and> block_at compare s' es 0"
    using block_SeekToFirst_at [OF l(1) ov] at l(2) by (auto simp: block_ops_def)
  show "\<exists>s'. SeekToLast (block_ops compare) s = Some s' \<and> block_at compare s' es (length es - 1)"
    using block_SeekToLast_at [OF l(1) ov] at l(2) by (auto simp: block_ops_def)
  show "\<exists>s'. Seek (block_ops compare) s t = Some s' \<and> block_at compare s' es (below t es)"
    using block_Seek_at [OF l(1) ov, of t] o at l(2) by (auto simp: block_ops_def ordered_def)
  {
    assume p: "p < length es"
    then have p': "p < count l" using l(2) by simp
    show "Key (block_ops compare) s = fst (es ! p)" using l p by (simp add: block_ops_def stands_def)
    show "Val (block_ops compare) s = snd (es ! p)" using l p by (simp add: block_ops_def stands_def)
    show "\<exists>s'. Next (block_ops compare) s = Some s' \<and> block_at compare s' es (p + 1)"
      using block_Next_at [OF l(1,3) p'] at l(2) by (auto simp: block_ops_def)
    show "\<exists>s'. Prev (block_ops compare) s = Some s' \<and> block_at compare s' es (if p = 0 then length es else p - 1)"
      using block_Prev_at [OF l(1,3) p'] at l(2) by (auto simp: block_ops_def)
  }
qed

end
