(* ===== verification/LdbBlockProps.thy ===== *)
theory LdbBlockProps
  imports LdbBlockIter
begin

text \<open>
  A block that was built from sorted entries is read back: forwards, backwards, and from any key on,
  for every restart interval and the comparators of the database. And what the iterator does with a
  damaged entry.
\<close>

section \<open>The builder makes blocks with the layout\<close>

lemma common_prefix_le: "common_prefix a b \<le> length a \<and> common_prefix a b \<le> length b"
  by (induction a b rule: common_prefix.induct) auto

lemma common_prefix_take: "take (common_prefix a b) a = take (common_prefix a b) b"
  by (induction a b rule: common_prefix.induct) auto

definition extend_layout :: "layout \<Rightarrow> nat \<Rightarrow> entry \<Rightarrow> layout" where
  "extend_layout l shared e = l\<lparr>lay_entries := lay_entries l @ [e], lay_shared := lay_shared l @ [shared]\<rparr>"

lemma images_extend: "shares l \<Longrightarrow> images (extend_layout l shared e) = images l @ [entry_image shared e]"
  by (simp add: images_def extend_layout_def shares_def)

lemma pos_extend: "shares l \<Longrightarrow> i \<le> count l \<Longrightarrow> pos (extend_layout l shared e) i = pos l i"
  by (simp add: pos_def images_extend length_images)

lemma shares_extend:
  assumes "shares l" and "shared \<le> length (fst e)"
    and "lay_entries l \<noteq> [] \<Longrightarrow> take shared (fst (last (lay_entries l))) = take shared (fst e)"
  shows "shares (extend_layout l shared e)"
  using assms by (auto simp: shares_def extend_layout_def nth_append less_Suc_eq last_conv_nth)

text \<open>The state of the builder after the entries of a layout.\<close>

definition built_block :: "nat \<Rightarrow> BlockBuilder \<Rightarrow> layout \<Rightarrow> bool" where
  "built_block interval b l \<longleftrightarrow>
     shares l \<and> points_ok l \<and> bb_buffer b = concat (images l) \<and>
     bb_restarts b = map (\<lambda>i. word_of_nat (pos l i)) (lay_points l) \<and>
     bb_last_key b = (if lay_entries l = [] then [] else fst (last (lay_entries l))) \<and>
     \<not> bb_finished b \<and> bb_counter b \<le> interval \<and> bb_counter b + last (lay_points l) = count l"

lemma points_okD: "points_ok l \<Longrightarrow> r \<in> set (lay_points l) \<Longrightarrow>
    (r < count l \<and> lay_shared l ! r = 0) \<or> (r = 0 \<and> lay_entries l = [])"
  by (simp add: points_ok_def)

lemma points_ok_shape: "points_ok l \<Longrightarrow> lay_points l \<noteq> [] \<and> hd (lay_points l) = 0 \<and> sorted_wrt (<) (lay_points l)"
  by (auto simp: points_ok_def)

lemma points_okI:
  assumes "lay_points l \<noteq> [] \<and> hd (lay_points l) = 0" and "sorted_wrt (<) (lay_points l)"
    and "\<And>r. r \<in> set (lay_points l) \<Longrightarrow> r < count l \<and> lay_shared l ! r = 0"
  shows "points_ok l"
proof -
  have "\<exists>rest. lay_points l = 0 # rest" using assms(1) by (cases "lay_points l") auto
  then show ?thesis using assms(2,3) unfolding points_ok_def by (intro conjI ballI disjI1) auto
qed

lemma points_below: "points_ok l \<Longrightarrow> r \<in> set (lay_points l) \<Longrightarrow> r \<le> count l"
  by (auto simp: points_ok_def)

lemma built_block_start:
  "1 \<le> interval \<Longrightarrow> \<exists>b. make_BlockBuilder interval = Some b \<and>
     built_block interval b \<lparr>lay_entries = [], lay_shared = [], lay_points = [0]\<rparr>"
  by (simp add: make_BlockBuilder_def built_block_def shares_def points_ok_def images_def)

lemma built_block_nonempty:
  assumes "built_block interval b l"
  shows "bb_buffer b \<noteq> [] \<longleftrightarrow> lay_entries l \<noteq> []"
proof (cases "lay_entries l = []")
  case False
  then have "0 < pos l (count l)" using assms pos_less [of l 0 "count l"] by (simp add: built_block_def)
  then show ?thesis using assms False pos_count [of l] by (auto simp: built_block_def)
qed (use assms in \<open>auto simp: built_block_def images_def\<close>)

lemma BlockAdd_built:
  assumes "built_block interval b l" and "1 \<le> interval"
    and "lay_entries l \<noteq> [] \<Longrightarrow> 0 < compare key (fst (last (lay_entries l)))"
  shows "\<exists>b' l'. BlockAdd interval compare b key val = Some b' \<and> built_block interval b' l' \<and>
           lay_entries l' = lay_entries l @ [(key, val)]"
proof -
  have sh: "shares l" and po: "points_ok l" using assms(1) by (simp_all add: built_block_def)
  define fresh where "fresh = (bb_counter b < interval)"
  define shared where "shared = (if fresh then common_prefix (bb_last_key b) key else 0)"
  define l1 where "l1 = extend_layout l shared (key, val)"
  define l' where "l' = (if fresh then l1 else l1\<lparr>lay_points := lay_points l @ [count l]\<rparr>)"
  have le: "shared \<le> length key" "shared \<le> length (bb_last_key b)" "take shared (bb_last_key b) = take shared key"
    using common_prefix_le [of "bb_last_key b" key] common_prefix_take [of "bb_last_key b" key]
    by (simp_all add: shared_def)
  have sh1: "shares l1" unfolding l1_def
    by (rule shares_extend [OF sh]) (use le assms(1) in \<open>auto simp: built_block_def\<close>)
  have images': "images l' = images l @ [entry_image shared (key, val)]"
    using images_extend [OF sh, of shared "(key, val)"] by (simp add: l'_def l1_def images_def)
  have pos': "pos l' i = pos l i" if "i \<le> count l" for i
    using pos_extend [OF sh that, of shared "(key, val)"] by (simp add: l'_def l1_def pos_def images_def)
  have entries': "lay_entries l' = lay_entries l @ [(key, val)]" and shared': "lay_shared l' = lay_shared l @ [shared]"
    by (simp_all add: l'_def l1_def extend_layout_def)
  have sh': "shares l'" using sh1 by (simp add: l'_def shares_def)
  have first: "lay_entries l = [] \<Longrightarrow> shared = 0"
    using assms(1) by (simp add: shared_def built_block_def)
  have lenS: "length (lay_shared l) = count l" using sh by (simp add: shares_def)
  have old: "r < count l' \<and> lay_shared l' ! r = 0" if r: "r \<in> set (lay_points l)" for r
  proof -
    consider "r < count l" "lay_shared l ! r = 0" | "r = 0" "lay_entries l = []"
      using points_okD [OF po r] by auto
    then show ?thesis
    proof cases
      case 1
      then show ?thesis unfolding entries' shared' by (simp add: nth_append lenS)
    next
      case 2
      then show ?thesis unfolding entries' shared' using lenS first by simp
    qed
  qed
  have po': "points_ok l'"
  proof (cases fresh)
    case True
    then have points': "lay_points l' = lay_points l" by (simp add: l'_def l1_def extend_layout_def)
    show ?thesis by (rule points_okI) (use po old in \<open>simp_all add: points' points_ok_shape\<close>)
  next
    case False
    then have c: "bb_counter b = interval" using assms(1) by (simp add: fresh_def built_block_def)
    then have less: "last (lay_points l) < count l" using assms(1,2) by (simp add: built_block_def)
    then have ne: "lay_entries l \<noteq> []" by auto
    have points': "lay_points l' = lay_points l @ [count l]" using False by (simp add: l'_def)
    have "\<forall>r \<in> set (lay_points l). r < count l" using points_okD [OF po] ne by auto
    then have "sorted_wrt (<) (lay_points l')" using points_ok_shape [OF po] by (simp add: points' sorted_wrt_append)
    moreover have "(r < count l' \<and> lay_shared l' ! r = 0)" if "r \<in> set (lay_points l')" for r
    proof (cases "r = count l")
      case True
      then show ?thesis using lenS False by (simp add: entries' shared' nth_append shared_def)
    next
      case False
      then show ?thesis using that old by (simp add: points')
    qed
    moreover have "lay_points l' \<noteq> [] \<and> hd (lay_points l') = 0" using points_ok_shape [OF po] by (simp add: points')
    ultimately show ?thesis by (intro points_okI) simp_all
  qed
  define b1 where "b1 = (if fresh then b else b\<lparr>bb_restarts := bb_restarts b @ [word_of_nat (length (bb_buffer b))], bb_counter := 0\<rparr>)"
  define b' where "b' = b1\<lparr>bb_buffer := bb_buffer b @ entry_image shared (key, val), bb_last_key := key, bb_counter := bb_counter b1 + 1\<rparr>"
  have ok: "\<not> (bb_finished b \<or> interval < bb_counter b \<or> (bb_buffer b \<noteq> [] \<and> \<not> 0 < compare key (bb_last_key b)))"
    using assms(1,3) built_block_nonempty [OF assms(1)] by (auto simp: built_block_def)
  have "take shared (bb_last_key b) @ take (length key - shared) (drop shared key) = key"
    using le by simp
  then have "BlockAdd interval compare b key val = Some b'"
    unfolding BlockAdd_def if_not_P [OF ok] Let_def fresh_def [symmetric] shared_def [symmetric]
    by (simp add: b'_def b1_def entry_image_def PutVarint32_def)
  moreover have "built_block interval b' l'"
  proof -
    have restarts: "bb_restarts b' = map (\<lambda>i. word_of_nat (pos l' i)) (lay_points l')"
    proof -
      have "map (\<lambda>i. word_of_nat (pos l' i)) (lay_points l) = (map (\<lambda>i. word_of_nat (pos l i)) (lay_points l) :: u32 list)"
        using pos' points_below [OF po] by (intro map_cong) auto
      moreover have "lay_points l' = (if fresh then lay_points l else lay_points l @ [count l])"
        by (simp add: l'_def l1_def extend_layout_def)
      moreover have "bb_restarts b' = (if fresh then bb_restarts b else bb_restarts b @ [word_of_nat (length (bb_buffer b))])"
        by (simp add: b'_def b1_def)
      ultimately show ?thesis using assms(1) pos' [of "count l"] pos_count [OF sh]
        by (simp only: built_block_def) simp
    qed
    have "bb_counter b' + last (lay_points l') = count l' \<and> bb_counter b' \<le> interval"
      using assms(1,2) by (auto simp: b'_def b1_def l'_def l1_def built_block_def extend_layout_def fresh_def)
    then show ?thesis using restarts sh' po' assms(1) images' entries'
      by (simp add: built_block_def) (simp add: b'_def b1_def)
  qed
  ultimately show ?thesis using entries' by blast
qed

fun add_entries ::
    "nat \<Rightarrow> (slice \<Rightarrow> slice \<Rightarrow> int) \<Rightarrow> BlockBuilder \<Rightarrow> entry list \<Rightarrow> BlockBuilder option" where
  "add_entries interval compare b [] = Some b"
| "add_entries interval compare b ((key, val) # es) =
     (case BlockAdd interval compare b key val of None \<Rightarrow> None
      | Some b \<Rightarrow> add_entries interval compare b es)"

context slice_comparator
begin

lemma add_entries_built:
  "built_block interval b l \<Longrightarrow> 1 \<le> interval \<Longrightarrow> ordered (map fst (lay_entries l @ es)) \<Longrightarrow>
     \<exists>b' l'. add_entries interval compare b es = Some b' \<and> built_block interval b' l' \<and> lay_entries l' = lay_entries l @ es"
proof (induction es arbitrary: b l)
  case (Cons e es)
  obtain key val where e: "e = (key, val)" by (cases e)
  have "0 < compare key (fst (last (lay_entries l)))" if "lay_entries l \<noteq> []"
  proof -
    have "compare (fst (last (lay_entries l))) key < 0"
      using Cons.prems(3) that e by (auto simp: ordered_append)
    then show ?thesis by (simp add: compare_swap)
  qed
  from BlockAdd_built [where compare = compare and key = key and val = val, OF Cons.prems(1,2) this] obtain b1 l1 where
    1: "BlockAdd interval compare b key val = Some b1" "built_block interval b1 l1"
       "lay_entries l1 = lay_entries l @ [(key, val)]" by blast
  from Cons.IH [OF 1(2) Cons.prems(2)] Cons.prems(3) 1(3) e obtain b' l' where
    "add_entries interval compare b1 es = Some b'" "built_block interval b' l'" "lay_entries l' = lay_entries l1 @ es"
    by auto
  then show ?case using 1 e by auto
qed auto

end

text \<open>The finished block, and the iterator over it.\<close>

lemma BlockFinish_image:
  assumes "built_block interval b l"
  shows "fst (BlockFinish b) = block_image l \<and> length (block_image l) = CurrentSizeEstimate b"
  using assms block_image_length [of l] pos_count [of l]
  by (simp add: BlockFinish_def built_block_def foldl_PutFixed32 PutFixed32_def block_image_def points_table_def
      CurrentSizeEstimate_def Let_def)

lemma NewIterator_image:
  assumes "layout_ok l"
  shows "\<exists>it. NewIterator (make_Block (block_image l)) = EntryIterator it \<and> stands l it (count l)"
proof -
  have sh: "shares l" using assms by (simp add: layout_ok_def)
  let ?n = "length (block_image l)"
  have n: "?n = pos l (count l) + 4 * length (lay_points l) + 4" by (rule block_image_length [OF sh])
  have small: "?n < 2 ^ 32" using assms by (simp add: layout_ok_def)
  have "drop (?n - 4) (block_image l) = EncodeFixed32 (word_of_nat (length (lay_points l)))"
    using n by (simp add: block_image_def points_table_def pos_count [OF sh])
  then have "unat (DecodeFixed32 (drop (?n - 4) (block_image l))) = length (lay_points l)"
    using DecodeFixed32_Encode [of "word_of_nat (length (lay_points l))" "[]"] n small by (simp add: unat_u32)
  then have num: "NumRestarts (block_image l) ?n = length (lay_points l)" by (simp add: NumRestarts_def)
  have blk: "make_Block (block_image l)
      = \<lparr>blk_data = block_image l, blk_size = ?n, blk_restart_offset = pos l (count l)\<rparr>"
    using small unfolding make_Block_def Let_def num by (simp add: n)
  then show ?thesis using points_0 [OF assms]
    by (simp add: NewIterator_def num) (simp add: make_block_iter_def stands_def over_def n)
qed

section \<open>The properties\<close>

context slice_comparator
begin

lemma block_read_back:
  assumes "1 \<le> interval" and "ordered (map fst es)"
  shows "\<exists>b0 b. make_BlockBuilder interval = Some b0 \<and> add_entries interval compare b0 es = Some b \<and>
    length (fst (BlockFinish b)) = CurrentSizeEstimate b \<and>
    (CurrentSizeEstimate b < 2 ^ 32 \<longrightarrow>
      (\<exists>it. NewIterator (make_Block (fst (BlockFinish b))) = EntryIterator it \<and> block_at compare it es (length es)))"
proof -
  from built_block_start [OF assms(1)] obtain b0 where
    b0: "make_BlockBuilder interval = Some b0" "built_block interval b0 \<lparr>lay_entries = [], lay_shared = [], lay_points = [0]\<rparr>"
    by blast
  from add_entries_built [OF b0(2) assms(1), of es] assms(2) obtain b l where
    b: "add_entries interval compare b0 es = Some b" "built_block interval b l" "lay_entries l = es" by auto
  note fin = BlockFinish_image [OF b(2)]
  have "\<exists>it. NewIterator (make_Block (fst (BlockFinish b))) = EntryIterator it \<and> block_at compare it es (length es)"
    if "CurrentSizeEstimate b < 2 ^ 32"
  proof -
    have "layout_ok l" using b(2) fin that by (simp add: layout_ok_def built_block_def)
    from NewIterator_image [OF this] block_atI [OF this] assms(2) b(3) fin show ?thesis
      by (auto simp: ordered_def)
  qed
  then show ?thesis using b0(1) b(1) fin by auto
qed

end

text \<open>C20. A block is read back. Add entries whose keys ascend to a builder with any restart interval;
  no assertion fails, and the finished block is as long as CurrentSizeEstimate said. The iterator over
  the block then behaves as a position in the list of the entries: through every sequence of moves to the
  ends, to a key, forwards and backwards it shows the entry at the position, and no error. This
  holds for the bytewise order and for the order of internal keys, for blocks below 4 GiB.\<close>

theorem block_roundtrip:
  assumes "compare = BytewiseCompare \<or> compare = InternalKeyCompare BytewiseCompare"
    and "1 \<le> interval" and "sorted_wrt (\<lambda>a b. compare a b < 0) (map fst es)"
  shows "\<exists>b0 b. make_BlockBuilder interval = Some b0 \<and> add_entries interval compare b0 es = Some b \<and>
    length (fst (BlockFinish b)) = CurrentSizeEstimate b \<and>
    (CurrentSizeEstimate b < 2 ^ 32 \<longrightarrow>
      (\<exists>it. NewIterator (make_Block (fst (BlockFinish b))) = EntryIterator it \<and>
         follows compare (\<lambda>t. True) (block_ops compare) it es (length es)))"
proof (cases "compare = BytewiseCompare")
  case True
  with assms(3) have "bytewise.ordered (map fst es)" by (simp add: bytewise.ordered_def)
  from bytewise.block_read_back [OF assms(2) this] bytewise.block.at_follows True show ?thesis by blast
next
  case False
  with assms(1,3) have c: "compare = InternalKeyCompare BytewiseCompare" "internal.ordered (map fst es)"
    by (simp_all add: internal.ordered_def)
  from internal.block_read_back [OF assms(2) c(2)] internal.block.at_follows c(1) show ?thesis by blast
qed

theorem block_roundtrip_witness:
  "\<exists>b0 b. make_BlockBuilder 2 = Some b0 \<and>
     add_entries 2 BytewiseCompare b0 [([1], [9]), ([1, 2], [8]), ([1, 3], []), ([4], [7])] = Some b \<and>
     length (fst (BlockFinish b)) = CurrentSizeEstimate b"
  using block_roundtrip [of BytewiseCompare 2 "[([1], [9]), ([1, 2], [8]), ([1, 3], []), ([4], [7])]"]
  by (simp add: BytewiseCompare_def slice_compare_def) blast

text \<open>The check of the lengths of an entry can be circumvented: the sum of the two lengths is taken
  modulo \<open>2 ^ 32\<close>. In a block of 16 bytes whose only entry has a key of one byte and a value of
  \<open>2 ^ 32 - 1\<close> bytes, the iterator becomes valid without an error, and its value extends almost 4 GiB
  behind the block.\<close>

theorem oversized_entry_accepted:
  "\<exists>it it'. NewIterator (make_Block [0, 1, 255, 255, 255, 255, 15, key, 0, 0, 0, 0, 1, 0, 0, 0]) = EntryIterator it \<and>
     block_SeekToFirst it = Some it' \<and> block_valid it' \<and> it_status it' = OK \<and> it_key it' = [key] \<and>
     it_value it' = Some (8, 2 ^ 32 - 1)"
proof -
  let ?c = "[0, 1, 255, 255, 255, 255, 15, key, 0, 0, 0, 0, 1, 0, 0, 0] :: byte list"
  have d: "DecodeFixed32 [1, 0, 0, 0] = 1" "DecodeFixed32 [0, 0, 0, 0, 1, 0, 0, 0] = 0" by code_simp+
  have blk: "make_Block ?c = \<lparr>blk_data = ?c, blk_size = 16, blk_restart_offset = 8\<rparr>"
    by (simp add: make_Block_def NumRestarts_def d Let_def)
  have e: "DecodeEntry [0, 1, 255, 255, 255, 255, 15, key] = Some (0, 1, 0xffffffff, [key])"
  proof -
    have "\<not> (1 :: u32) < 4294967296" by code_simp
    then show ?thesis
      by (simp add: DecodeEntry_def entry_numbers_def GetVarint32Ptr_def GetVarint32PtrFallback_def entry_fits_def Let_def)
  qed
  show ?thesis
    unfolding blk
    by (simp add: NewIterator_def NumRestarts_def d make_block_iter_def block_SeekToFirst_def SeekToRestartPoint_def
       GetRestartPoint_def ParseNextKey_def NextEntryOffset_def entry_bytes_def e read_at_def advance_restart.simps block_valid_def Let_def)
qed

end
