(* ===== verification/LdbMerger.thy ===== *)
theory LdbMerger
  imports LdbBlockProps
begin

text \<open>
  The merging iterator (\<open>table/merger.cc\<close>). It is a client of the interface of its children, and meets
  the same interface itself: it walks through the union of the entries of its children, in both
  directions and with changes of direction.
\<close>

section \<open>The iterator\<close>

datatype Direction = kForward | kReverse

text \<open>The wrappers of the children cache their validity and their keys, which changes nothing.\<close>

record 's merging =
  children :: "'s list"
  current :: "nat option"
  direction :: Direction

definition make_merging :: "'s list \<Rightarrow> 's merging" where
  "make_merging cs = \<lparr>children = cs, current = None, direction = kForward\<rparr>"

text \<open>A loop over the children that may fail.\<close>

fun for_children :: "(nat \<Rightarrow> 's \<Rightarrow> 's option) \<Rightarrow> nat \<Rightarrow> 's list \<Rightarrow> 's list option" where
  "for_children f i [] = Some []"
| "for_children f i (c # cs) = do { c' \<leftarrow> f i c; cs' \<leftarrow> for_children f (Suc i) cs; Some (c' # cs') }"

text \<open>The first candidate of a list that no later one beats.\<close>

definition pick :: "(nat \<Rightarrow> bool) \<Rightarrow> (nat \<Rightarrow> nat \<Rightarrow> bool) \<Rightarrow> nat list \<Rightarrow> nat option" where
  "pick good beats =
     foldl (\<lambda>best i. if good i then (case best of None \<Rightarrow> Some i | Some j \<Rightarrow> if beats i j then Some i else best)
                    else best) None"

definition FindSmallest :: "(slice \<Rightarrow> slice \<Rightarrow> int) \<Rightarrow> 's Iterator \<Rightarrow> 's merging \<Rightarrow> 's merging" where
  "FindSmallest compare ops m =
     m\<lparr>current := pick (\<lambda>i. Valid ops (children m ! i))
        (\<lambda>i j. compare (Key ops (children m ! i)) (Key ops (children m ! j)) < 0) [0 ..< length (children m)]\<rparr>"

definition FindLargest :: "(slice \<Rightarrow> slice \<Rightarrow> int) \<Rightarrow> 's Iterator \<Rightarrow> 's merging \<Rightarrow> 's merging" where
  "FindLargest compare ops m =
     m\<lparr>current := pick (\<lambda>i. Valid ops (children m ! i))
        (\<lambda>i j. 0 < compare (Key ops (children m ! i)) (Key ops (children m ! j))) (rev [0 ..< length (children m)])\<rparr>"

definition merging_valid :: "'s merging \<Rightarrow> bool" where
  "merging_valid m \<longleftrightarrow> current m \<noteq> None"

definition merging_key :: "'s Iterator \<Rightarrow> 's merging \<Rightarrow> slice" where
  "merging_key ops m = Key ops (children m ! the (current m))"

definition merging_value :: "'s Iterator \<Rightarrow> 's merging \<Rightarrow> slice" where
  "merging_value ops m = Val ops (children m ! the (current m))"

definition merging_status :: "'s Iterator \<Rightarrow> 's merging \<Rightarrow> Status" where
  "merging_status ops m =
     foldl (\<lambda>s c. if ok s then IterStatus ops c else s) OK (children m)"

definition merging_SeekToFirst ::
    "(slice \<Rightarrow> slice \<Rightarrow> int) \<Rightarrow> 's Iterator \<Rightarrow> 's merging \<Rightarrow> 's merging option" where
  "merging_SeekToFirst compare ops m = do {
     cs \<leftarrow> for_children (\<lambda>i. SeekToFirst ops) 0 (children m);
     Some ((FindSmallest compare ops (m\<lparr>children := cs\<rparr>))\<lparr>direction := kForward\<rparr>)
   }"

definition merging_SeekToLast ::
    "(slice \<Rightarrow> slice \<Rightarrow> int) \<Rightarrow> 's Iterator \<Rightarrow> 's merging \<Rightarrow> 's merging option" where
  "merging_SeekToLast compare ops m = do {
     cs \<leftarrow> for_children (\<lambda>i. SeekToLast ops) 0 (children m);
     Some ((FindLargest compare ops (m\<lparr>children := cs\<rparr>))\<lparr>direction := kReverse\<rparr>)
   }"

definition merging_Seek ::
    "(slice \<Rightarrow> slice \<Rightarrow> int) \<Rightarrow> 's Iterator \<Rightarrow> 's merging \<Rightarrow> slice \<Rightarrow> 's merging option" where
  "merging_Seek compare ops m target = do {
     cs \<leftarrow> for_children (\<lambda>i c. Seek ops c target) 0 (children m);
     Some ((FindSmallest compare ops (m\<lparr>children := cs\<rparr>))\<lparr>direction := kForward\<rparr>)
   }"

definition merging_Next ::
    "(slice \<Rightarrow> slice \<Rightarrow> int) \<Rightarrow> 's Iterator \<Rightarrow> 's merging \<Rightarrow> 's merging option" where
  "merging_Next compare ops m =
     (case current m of None \<Rightarrow> None
      | Some cur \<Rightarrow> do {
          let key = Key ops (children m ! cur);
          cs \<leftarrow> (if direction m \<noteq> kForward then
                  for_children (\<lambda>i child.
                    if i \<noteq> cur then do {
                      child \<leftarrow> Seek ops child key;
                      if Valid ops child \<and> compare key (Key ops child) = 0 then Next ops child else Some child
                    } else Some child) 0 (children m)
                else Some (children m));
          c \<leftarrow> Next ops (cs ! cur);
          Some (FindSmallest compare ops (m\<lparr>children := cs[cur := c], direction := kForward\<rparr>))
        })"

definition merging_Prev ::
    "(slice \<Rightarrow> slice \<Rightarrow> int) \<Rightarrow> 's Iterator \<Rightarrow> 's merging \<Rightarrow> 's merging option" where
  "merging_Prev compare ops m =
     (case current m of None \<Rightarrow> None
      | Some cur \<Rightarrow> do {
          let key = Key ops (children m ! cur);
          cs \<leftarrow> (if direction m \<noteq> kReverse then
                  for_children (\<lambda>i child.
                    if i \<noteq> cur then do {
                      child \<leftarrow> Seek ops child key;
                      if Valid ops child then Prev ops child else SeekToLast ops child
                    } else Some child) 0 (children m)
                else Some (children m));
          c \<leftarrow> Prev ops (cs ! cur);
          Some (FindLargest compare ops (m\<lparr>children := cs[cur := c], direction := kReverse\<rparr>))
        })"

definition merging_ops :: "(slice \<Rightarrow> slice \<Rightarrow> int) \<Rightarrow> 's Iterator \<Rightarrow> 's merging Iterator" where
  "merging_ops compare ops =
     \<lparr>Valid = merging_valid, SeekToFirst = merging_SeekToFirst compare ops,
      SeekToLast = merging_SeekToLast compare ops, Seek = merging_Seek compare ops,
      Next = merging_Next compare ops, Prev = merging_Prev compare ops,
      Key = merging_key ops, Val = merging_value ops, IterStatus = merging_status ops\<rparr>"

text \<open>\<open>NewMergingIterator\<close> makes no merging iterator for fewer than two children.\<close>

datatype 's merged = MergedEmpty | MergedOne 's | MergedMany "'s merging"

definition NewMergingIterator :: "'s list \<Rightarrow> 's merged" where
  "NewMergingIterator cs =
     (if length cs = 0 then MergedEmpty else if length cs = 1 then MergedOne (cs ! 0) else MergedMany (make_merging cs))"

section \<open>Loops over the children\<close>

lemma for_children_all:
  assumes "\<And>k. k < length cs \<Longrightarrow> \<exists>c'. f (i + k) (cs ! k) = Some c' \<and> R k c'"
  shows "\<exists>cs'. for_children f i cs = Some cs' \<and> length cs' = length cs \<and> (\<forall>k < length cs. R k (cs' ! k))"
  using assms
proof (induction cs arbitrary: i R)
  case (Cons c cs)
  from Cons.prems [of 0] obtain c' where c': "f i c = Some c'" "R 0 c'" by auto
  have "\<exists>c'. f (Suc i + k) (cs ! k) = Some c' \<and> R (Suc k) c'" if "k < length cs" for k
    using Cons.prems [of "Suc k"] that by simp
  from Cons.IH [of "Suc i" "\<lambda>k. R (Suc k)", OF this] obtain cs' where
    cs': "for_children f (Suc i) cs = Some cs'" "length cs' = length cs" "\<forall>k < length cs. R (Suc k) (cs' ! k)"
    by blast
  have "R k ((c' # cs') ! k)" if "k < length (c # cs)" for k
    using that c'(2) cs'(3) by (cases k) auto
  then show ?case using c'(1) cs'(1,2) by auto
qed simp

lemma pick_result:
  assumes trans: "\<And>i j k. good i \<Longrightarrow> good j \<Longrightarrow> good k \<Longrightarrow> \<not> beats j i \<Longrightarrow> \<not> beats k j \<Longrightarrow> \<not> beats k i"
    and irrefl: "\<And>i. \<not> beats i i" and asym: "\<And>i j. beats i j \<Longrightarrow> \<not> beats j i"
  shows "(pick good beats xs = None \<longleftrightarrow> (\<forall>i \<in> set xs. \<not> good i)) \<and>
    (\<forall>c. pick good beats xs = Some c \<longrightarrow> c \<in> set xs \<and> good c \<and> (\<forall>i \<in> set xs. good i \<longrightarrow> \<not> beats i c))"
proof (induction xs rule: rev_induct)
  case (snoc x xs)
  have step: "pick good beats (xs @ [x]) = (if good x then
      (case pick good beats xs of None \<Rightarrow> Some x | Some j \<Rightarrow> if beats x j then Some x else Some j)
      else pick good beats xs)"
    by (simp add: pick_def split: option.splits)
  show ?case
  proof (cases "pick good beats xs")
    case None
    then have "\<forall>i \<in> set xs. \<not> good i" using snoc.IH by blast
    moreover have "pick good beats (xs @ [x]) = (if good x then Some x else None)" by (simp add: step None)
    ultimately show ?thesis using irrefl [of x] by auto
  next
    case (Some j)
    then have j: "j \<in> set xs" "good j" "\<forall>i \<in> set xs. good i \<longrightarrow> \<not> beats i j" using snoc by auto
    show ?thesis
    proof (cases "good x \<and> beats x j")
      case True
      then have "\<not> beats i x" if "i \<in> set (xs @ [x])" "good i" for i
        using trans [of x j i] asym [of x j] irrefl [of x] j that by (cases "i = x") auto
      then show ?thesis using True Some by (simp add: step)
    next
      case False
      then have "pick good beats (xs @ [x]) = Some j" using Some by (auto simp: step)
      then show ?thesis using False j by auto
    qed
  qed
qed (simp add: pick_def)

lemma pick_upto:
  assumes xs: "set xs = {..< n}"
    and trans: "\<And>i j k. \<not> beats j i \<Longrightarrow> \<not> beats k j \<Longrightarrow> \<not> beats k i"
    and irrefl: "\<And>i. \<not> beats i i" and asym: "\<And>i j. beats i j \<Longrightarrow> \<not> beats j i"
  shows "(pick good beats xs = None \<longleftrightarrow> (\<forall>i < n. \<not> good i)) \<and>
    (\<forall>c. pick good beats xs = Some c \<longrightarrow> c < n \<and> good c \<and> (\<forall>i < n. good i \<longrightarrow> \<not> beats i c))"
proof -
  from pick_result [where good = good and beats = beats and xs = xs, OF trans irrefl asym] show ?thesis
    unfolding xs by (auto simp: lessThan_def)
qed

section \<open>Prefixes of a sorted list\<close>

lemma split_unique:
  assumes "n \<le> length es" and "\<And>j. j < n \<Longrightarrow> D (es ! j)" and "n < length es \<Longrightarrow> \<not> D (es ! n)"
  shows "length (takeWhile D es) = n"
proof -
  have "takeWhile D es = take n es" by (rule takeWhile_eq_take_P_nth) (use assms in auto)
  then show ?thesis using assms(1) by simp
qed

lemma takeWhile_all: "takeWhile (\<lambda>e. True) es = es"
  by (induction es) auto

lemma takeWhile_none: "takeWhile (\<lambda>e. False) es = []"
  by (induction es) auto

text \<open>The position of the last element of a prefix, as a backward search finds it.\<close>

definition rpos :: "nat \<Rightarrow> nat \<Rightarrow> nat" where
  "rpos n len = (if n = 0 then len else n - 1)"

lemma rpos_less: "n \<le> len \<Longrightarrow> rpos n len < len \<longleftrightarrow> n \<noteq> 0"
  by (auto simp: rpos_def)

context comparator
begin

definition closed :: "('k \<times> 'v \<Rightarrow> bool) \<Rightarrow> bool" where
  "closed D \<longleftrightarrow> (\<forall>x y. D x \<longrightarrow> compare (fst y) (fst x) \<le> 0 \<longrightarrow> D y)"

lemma closed_simps [simp]: "closed (\<lambda>e. False)" "closed (\<lambda>e. True)"
  by (simp_all add: closed_def)

lemma closedD: "closed D \<Longrightarrow> D x \<Longrightarrow> compare (fst y) (fst x) \<le> 0 \<Longrightarrow> D y"
  unfolding closed_def by (elim allE impE)

lemma closed_not: "closed D \<Longrightarrow> D x \<Longrightarrow> \<not> D y \<Longrightarrow> compare (fst x) (fst y) < 0"
  using closedD [of D x y] compare_swap_le [of "fst y" "fst x"] by linarith

lemma closed_less: "closed (\<lambda>e. compare (fst e) t < 0)"
  by (auto simp: closed_def intro: compare_less_trans)

lemma closed_le: "closed (\<lambda>e. compare (fst e) t \<le> 0)"
  by (auto simp: closed_def intro: compare_trans)

lemma closed_nth:
  assumes "closed D" and "ordered (map fst es)" and "j < length es"
  shows "D (es ! j) \<longleftrightarrow> j < length (takeWhile D es)"
proof
  show "j < length (takeWhile D es) \<Longrightarrow> D (es ! j)" by (metis nth_mem set_takeWhileD takeWhile_nth)
  assume D: "D (es ! j)"
  show "j < length (takeWhile D es)"
  proof (rule ccontr)
    let ?n = "length (takeWhile D es)"
    assume "\<not> j < ?n"
    then have n: "?n \<le> j" "?n < length es" using assms(3) by simp_all
    then have "\<not> D (es ! ?n)" by (intro nth_length_takeWhile)
    moreover have "compare (fst (es ! ?n)) (fst (es ! j)) \<le> 0"
      using ordered_nth [OF assms(2) _ assms(3), of ?n] n compare_self by (cases "?n = j") (auto intro: less_imp_le)
    ultimately show False using D assms(1) unfolding closed_def by blast
  qed
qed

lemma ordered_nth_le: "ordered (map fst es) \<Longrightarrow> i \<le> j \<Longrightarrow> j < length es \<Longrightarrow> compare (fst (es ! i)) (fst (es ! j)) \<le> 0"
  using ordered_nth [of es i j] compare_self by (cases "i = j") auto

end

section \<open>The state of the merge\<close>

context sorted_iterator
begin

definition parts :: "'s list \<Rightarrow> entry list list \<Rightarrow> nat list \<Rightarrow> entry list \<Rightarrow> bool" where
  "parts cs ess ps ms \<longleftrightarrow>
     length ess = length cs \<and> length ps = length cs \<and> (\<forall>i < length cs. at (cs ! i) (ess ! i) (ps ! i)) \<and>
     ordered (map fst ms) \<and> set ms = (\<Union>i < length cs. set (ess ! i)) \<and> (\<forall>e \<in> set ms. seekable (fst e)) \<and>
     (\<forall>i < length cs. \<forall>j < length cs. i \<noteq> j \<longrightarrow> (\<forall>x \<in> set (ess ! i). \<forall>y \<in> set (ess ! j). compare (fst x) (fst y) \<noteq> 0))"

definition merging_at :: "'s merging \<Rightarrow> entry list \<Rightarrow> nat \<Rightarrow> bool" where
  "merging_at m ms p \<longleftrightarrow> p \<le> length ms \<and> (\<exists>ess ps. parts (children m) ess ps ms \<and>
     (if p < length ms then
        \<exists>c < length (children m). current m = Some c \<and> ps ! c < length (ess ! c) \<and> ess ! c ! (ps ! c) = ms ! p \<and>
          (\<forall>i < length (children m). i \<noteq> c \<longrightarrow>
             ps ! i = (let n = below (fst (ms ! p)) (ess ! i) in
                       if direction m = kForward then n else rpos n (length (ess ! i))))
      else current m = None))"

lemma partsD:
  assumes "parts cs ess ps ms" and "i < length cs"
  shows "at (cs ! i) (ess ! i) (ps ! i)" and "ps ! i \<le> length (ess ! i)" and "ordered (map fst (ess ! i))"
    and "Valid ops (cs ! i) \<longleftrightarrow> ps ! i < length (ess ! i)"
    and "ps ! i < length (ess ! i) \<Longrightarrow> Key ops (cs ! i) = fst (ess ! i ! (ps ! i))"
  using assms at_bound at_ordered valid_at key_at by (auto simp: parts_def)

lemma parts_seekable: "parts cs ess ps ms \<Longrightarrow> p < length ms \<Longrightarrow> seekable (fst (ms ! p))"
  using nth_mem [of p ms] by (simp add: parts_def)

lemma parts_ms: "parts cs ess ps ms \<Longrightarrow> ordered (map fst ms)"
  by (simp add: parts_def)

lemma parts_find:
  assumes "parts cs ess ps ms" and "p < length ms"
  obtains i j where "i < length cs" "j < length (ess ! i)" "ms ! p = ess ! i ! j"
proof -
  have "ms ! p \<in> set ms" using assms(2) by simp
  then obtain i where "i < length cs" "ms ! p \<in> set (ess ! i)" using assms(1) by (auto simp: parts_def)
  then show ?thesis using that by (auto simp: in_set_conv_nth)
qed

lemma parts_member:
  assumes "parts cs ess ps ms" and "i < length cs" and "j < length (ess ! i)"
  obtains p where "p < length ms" "ms ! p = ess ! i ! j"
proof -
  have "ess ! i ! j \<in> set (ess ! i)" using assms(3) by simp
  then have "ess ! i ! j \<in> set ms" using assms(1,2) by (auto simp: parts_def)
  then show ?thesis using that by (auto simp: in_set_conv_nth)
qed

lemma parts_apart:
  assumes "parts cs ess ps ms" and "i < length cs" and "k < length cs" and "i \<noteq> k"
    and "j < length (ess ! i)" and "l < length (ess ! k)"
  shows "compare (fst (ess ! i ! j)) (fst (ess ! k ! l)) \<noteq> 0"
  using assms by (auto simp: parts_def)

lemma merging_at_None: "parts (children m) ess ps ms \<Longrightarrow> current m = None \<Longrightarrow> merging_at m ms (length ms)"
  unfolding merging_at_def by (intro conjI exI [of _ ess] exI [of _ ps]) simp_all

lemma merging_atI:
  assumes "parts (children m) ess ps ms" and "c < length (children m)" and "current m = Some c"
    and "ps ! c < length (ess ! c)" and "p < length ms" and "ess ! c ! (ps ! c) = ms ! p"
    and "\<And>i. i < length (children m) \<Longrightarrow> i \<noteq> c \<Longrightarrow> ps ! i = (let n = below (fst (ms ! p)) (ess ! i) in
           if direction m = kForward then n else rpos n (length (ess ! i)))"
  shows "merging_at m ms p"
proof -
  have "\<exists>c < length (children m). current m = Some c \<and> ps ! c < length (ess ! c) \<and> ess ! c ! (ps ! c) = ms ! p \<and>
      (\<forall>i < length (children m). i \<noteq> c \<longrightarrow> ps ! i = (let n = below (fst (ms ! p)) (ess ! i) in
         if direction m = kForward then n else rpos n (length (ess ! i))))"
    by (intro exI [of _ c] conjI allI impI assms)
  then show ?thesis unfolding merging_at_def
    by (intro conjI exI [of _ ess] exI [of _ ps] less_imp_le assms(1,5)) (simp only: assms(5) if_True)
qed

text \<open>When every child stands behind a prefix of its entries, the smallest child has the next entry.\<close>

lemma smallest_step:
  assumes parts: "parts (children m) ess ps ms" and D: "closed D"
    and ps: "\<And>i. i < length (children m) \<Longrightarrow> ps ! i = length (takeWhile D (ess ! i))"
    and dir: "direction m = kForward"
  shows "merging_at (FindSmallest compare ops m) ms (length (takeWhile D ms))"
proof -
  let ?cs = "children m" and ?P = "length (takeWhile D ms)"
  let ?good = "\<lambda>i. Valid ops (?cs ! i)" and ?beats = "\<lambda>i j. compare (Key ops (?cs ! i)) (Key ops (?cs ! j)) < 0"
  note at = partsD [OF parts] and o = parts_ms [OF parts]
  have le: "?P \<le> length ms" by (rule length_takeWhile_le)
  have trans: "\<not> ?beats k i" if "\<not> ?beats j i" "\<not> ?beats k j" for i j k
    using that compare_swap_le compare_trans [of "Key ops (?cs ! i)" "Key ops (?cs ! j)" "Key ops (?cs ! k)"]
    by (simp add: not_less)
  have p: "(pick ?good ?beats [0 ..< length ?cs] = None \<longleftrightarrow> (\<forall>i < length ?cs. \<not> ?good i)) \<and>
    (\<forall>c. pick ?good ?beats [0 ..< length ?cs] = Some c \<longrightarrow> c < length ?cs \<and> ?good c \<and> (\<forall>i < length ?cs. ?good i \<longrightarrow> \<not> ?beats i c))"
  proof -
    show ?thesis
    proof (rule pick_upto)
      show "set ([0 ..< length ?cs]) = {..< length ?cs}" by auto
      show "\<not> ?beats k i" if "\<not> ?beats j i" "\<not> ?beats k j" for i j k by (rule trans [OF that])
      show "\<not> ?beats i i" for i by (simp add: compare_self)
      show "\<not> ?beats j i" if "?beats i j" for i j
        using that compare_swap [of "Key ops (?cs ! i)" "Key ops (?cs ! j)"] by linarith
    qed
  qed
  have step: "FindSmallest compare ops m = m\<lparr>current := pick ?good ?beats [0 ..< length ?cs]\<rparr>"
    by (simp add: FindSmallest_def)
  show ?thesis
  proof (cases "pick ?good ?beats [0 ..< length ?cs]")
    case None
    have "?P = length ms"
    proof (rule ccontr)
      assume "?P \<noteq> length ms"
      then have less: "?P < length ms" using le by simp
      from parts_find [OF parts less] obtain i j where ij: "i < length ?cs" "j < length (ess ! i)" "ms ! ?P = ess ! i ! j" .
      have "\<not> D (ms ! ?P)" using less by (rule nth_length_takeWhile)
      moreover have "j < length (takeWhile D (ess ! i))" using p None ij(1,2) at(4) [OF ij(1)] ps [OF ij(1)] by auto
      ultimately show False using closed_nth [OF D at(3) [OF ij(1)] ij(2)] ij(3) by simp
    qed
    then show ?thesis unfolding step using merging_at_None [of "m\<lparr>current := None\<rparr>", simplified, OF parts] None by simp
  next
    case (Some d)
    from conjunct2 [OF p, rule_format, OF Some] have d: "d < length ?cs" "Valid ops (?cs ! d)"
      and best: "\<And>i. i < length ?cs \<Longrightarrow> Valid ops (?cs ! i) \<Longrightarrow> \<not> ?beats i d" by simp_all
    have d: "d < length ?cs" "ps ! d < length (ess ! d)" using d at(4) [OF d(1)] by simp_all
    have least: "0 \<le> compare (fst (ess ! i ! (ps ! i))) (fst (ess ! d ! (ps ! d)))"
      if "i < length ?cs" "ps ! i < length (ess ! i)" for i
      using best [OF that(1)] at(4,5) [OF that(1)] that(2) at(5) [OF d] by (simp add: not_less)
    let ?e = "ess ! d ! (ps ! d)"
    have nD: "\<not> D ?e" using closed_nth [OF D at(3) [OF d(1)] d(2)] ps [OF d(1)] by simp
    from parts_member [OF parts d] obtain q where q: "q < length ms" "ms ! q = ?e" .
    have "?P \<le> q" using closed_nth [OF D o q(1)] nD q(2) by simp
    moreover have "\<not> ?P < q"
    proof
      assume less: "?P < q"
      then have P: "?P < length ms" using q(1) by simp
      from parts_find [OF parts P] obtain i j where ij: "i < length ?cs" "j < length (ess ! i)" "ms ! ?P = ess ! i ! j" .
      have "\<not> D (ess ! i ! j)" using nth_length_takeWhile [of D ms] P ij(3) by simp
      then have j: "ps ! i \<le> j" using closed_nth [OF D at(3) [OF ij(1)] ij(2)] ps [OF ij(1)] by simp
      then have "compare (fst (ess ! i ! (ps ! i))) (fst (ess ! i ! j)) \<le> 0"
        using ordered_nth_le [OF at(3) [OF ij(1)] j ij(2)] by simp
      moreover have "compare (fst ?e) (fst (ess ! i ! (ps ! i))) \<le> 0"
        using least [OF ij(1)] j ij(2) by (simp add: compare_swap_le)
      ultimately have "compare (fst ?e) (fst (ms ! ?P)) \<le> 0" unfolding ij(3) by (rule compare_trans [rotated])
      moreover have "compare (fst (ms ! ?P)) (fst ?e) < 0" using ordered_nth [OF o less q(1)] q(2) by simp
      ultimately show False using compare_swap [of "fst (ms ! ?P)" "fst ?e"] by simp
    qed
    ultimately have P: "?P = q" by simp
    have at_below: "ps ! i = below (fst (ms ! q)) (ess ! i)" if i: "i < length ?cs" for i
      unfolding q(2)
    proof (rule below_unique [symmetric])
      show "ps ! i \<le> length (ess ! i)" by (rule at(2) [OF i])
      show "\<forall>j < ps ! i. compare (fst (ess ! i ! j)) (fst ?e) < 0"
      proof (intro allI impI)
        fix j assume j: "j < ps ! i"
        then have "D (ess ! i ! j)" using closed_nth [OF D at(3) [OF i]] at(2) [OF i] ps [OF i] by simp
        then show "compare (fst (ess ! i ! j)) (fst ?e) < 0" using closed_not [OF D _ nD] by simp
      qed
      show "ps ! i < length (ess ! i) \<Longrightarrow> 0 \<le> compare (fst (ess ! i ! (ps ! i))) (fst ?e)" by (rule least [OF i])
    qed
    show ?thesis unfolding step P Some
    proof (rule merging_atI [where c = d and ess = ess and ps = ps])
      fix i assume "i < length (children (m\<lparr>current := Some d\<rparr>))"
      then have i: "i < length ?cs" by simp
      show "i \<noteq> d \<Longrightarrow> ps ! i = (let n = below (fst (ms ! q)) (ess ! i) in
          if direction (m\<lparr>current := Some d\<rparr>) = kForward then n else rpos n (length (ess ! i)))"
        using at_below [OF i] dir by (simp add: Let_def)
    qed (simp_all add: parts d q)
  qed
qed

lemma largest_step:
  assumes parts: "parts (children m) ess ps ms" and D: "closed D"
    and ps: "\<And>i. i < length (children m) \<Longrightarrow> ps ! i = rpos (length (takeWhile D (ess ! i))) (length (ess ! i))"
    and dir: "direction m = kReverse"
  shows "merging_at (FindLargest compare ops m) ms (rpos (length (takeWhile D ms)) (length ms))"
proof -
  let ?cs = "children m" and ?n = "length (takeWhile D ms)"
  let ?good = "\<lambda>i. Valid ops (?cs ! i)" and ?beats = "\<lambda>i j. 0 < compare (Key ops (?cs ! i)) (Key ops (?cs ! j))"
  let ?k = "\<lambda>i. length (takeWhile D (ess ! i))"
  note at = partsD [OF parts] and o = parts_ms [OF parts]
  have le: "?n \<le> length ms" by (rule length_takeWhile_le)
  have kle: "?k i \<le> length (ess ! i)" for i by (rule length_takeWhile_le)
  have trans: "\<not> ?beats k i" if "\<not> ?beats j i" "\<not> ?beats k j" for i j k
    using that compare_trans [of "Key ops (?cs ! k)" "Key ops (?cs ! j)" "Key ops (?cs ! i)"] by (simp add: not_less)
  have p: "(pick ?good ?beats (rev [0 ..< length ?cs]) = None \<longleftrightarrow> (\<forall>i < length ?cs. \<not> ?good i)) \<and>
    (\<forall>c. pick ?good ?beats (rev [0 ..< length ?cs]) = Some c \<longrightarrow> c < length ?cs \<and> ?good c \<and> (\<forall>i < length ?cs. ?good i \<longrightarrow> \<not> ?beats i c))"
  proof -
    show ?thesis
    proof (rule pick_upto)
      show "set (rev [0 ..< length ?cs]) = {..< length ?cs}" by auto
      show "\<not> ?beats k i" if "\<not> ?beats j i" "\<not> ?beats k j" for i j k by (rule trans [OF that])
      show "\<not> ?beats i i" for i by (simp add: compare_self)
      show "\<not> ?beats j i" if "?beats i j" for i j
        using that compare_swap [of "Key ops (?cs ! j)" "Key ops (?cs ! i)"] by linarith
    qed
  qed
  have step: "FindLargest compare ops m = m\<lparr>current := pick ?good ?beats (rev [0 ..< length ?cs])\<rparr>"
    by (simp add: FindLargest_def)
  have pos: "ps ! i < length (ess ! i) \<longleftrightarrow> ?k i \<noteq> 0" if "i < length ?cs" for i
    using rpos_less [OF kle] by (simp only: ps [OF that])
  show ?thesis
  proof (cases "pick ?good ?beats (rev [0 ..< length ?cs])")
    case None
    have "?n = 0"
    proof (rule ccontr)
      assume "?n \<noteq> 0"
      then have n: "?n - 1 < length ms" "?n - 1 < ?n" using le by linarith+
      from parts_find [OF parts n(1)] obtain i j where ij: "i < length ?cs" "j < length (ess ! i)" "ms ! (?n - 1) = ess ! i ! j" .
      have "D (ess ! i ! j)" using closed_nth [OF D o n(1)] n(2) ij(3) by simp
      then have "j < ?k i" using closed_nth [OF D at(3) [OF ij(1)] ij(2)] by simp
      then show False using p None ij(1) at(4) [OF ij(1)] pos [OF ij(1)] by auto
    qed
    then show ?thesis unfolding step rpos_def
      using merging_at_None [of "m\<lparr>current := None\<rparr>", simplified, OF parts] None by simp
  next
    case (Some d)
    from conjunct2 [OF p, rule_format, OF Some] have d: "d < length ?cs" "Valid ops (?cs ! d)"
      and best: "\<And>i. i < length ?cs \<Longrightarrow> Valid ops (?cs ! i) \<Longrightarrow> \<not> ?beats i d" by simp_all
    have d: "d < length ?cs" "ps ! d < length (ess ! d)" using d at(4) [OF d(1)] by simp_all
    have most: "compare (fst (ess ! i ! (ps ! i))) (fst (ess ! d ! (ps ! d))) \<le> 0"
      if "i < length ?cs" "ps ! i < length (ess ! i)" for i
      using best [OF that(1)] at(4,5) [OF that(1)] that(2) at(5) [OF d] by (simp add: not_less)
    let ?e = "ess ! d ! (ps ! d)"
    have kd: "?k d \<noteq> 0" "ps ! d = ?k d - 1" using pos [OF d(1)] d(2) ps [OF d(1)] by (auto simp: rpos_def)
    have De: "D ?e" using closed_nth [OF D at(3) [OF d(1)] d(2)] kd by simp
    from parts_member [OF parts d] obtain q where q: "q < length ms" "ms ! q = ?e" .
    have qn: "q < ?n" using closed_nth [OF D o q(1)] De q(2) by simp
    have inner: "compare (fst (ess ! i ! j)) (fst ?e) \<le> 0" if i: "i < length ?cs" and j: "j < ?k i" for i j
    proof -
      have k: "ps ! i = ?k i - 1" "ps ! i < length (ess ! i)" using ps [OF i] pos [OF i] j by (auto simp: rpos_def)
      then have "compare (fst (ess ! i ! j)) (fst (ess ! i ! (ps ! i))) \<le> 0"
        using ordered_nth_le [OF at(3) [OF i], of j "ps ! i"] j by simp
      from compare_trans [OF this most [OF i k(2)]] show ?thesis .
    qed
    have "\<not> q < ?n - 1"
    proof
      assume less: "q < ?n - 1"
      then have n: "?n - 1 < length ms" "?n - 1 < ?n" using le by linarith+
      from parts_find [OF parts n(1)] obtain i j where ij: "i < length ?cs" "j < length (ess ! i)" "ms ! (?n - 1) = ess ! i ! j" .
      have "D (ess ! i ! j)" using closed_nth [OF D o n(1)] n(2) ij(3) by simp
      then have "j < ?k i" using closed_nth [OF D at(3) [OF ij(1)] ij(2)] by simp
      then have "compare (fst (ms ! (?n - 1))) (fst ?e) \<le> 0" unfolding ij(3) by (rule inner [OF ij(1)])
      moreover have "compare (fst ?e) (fst (ms ! (?n - 1))) < 0" using ordered_nth [OF o less n(1)] q(2) by simp
      ultimately show False using compare_swap [of "fst ?e" "fst (ms ! (?n - 1))"] by simp
    qed
    then have n: "?n - 1 = q" "?n \<noteq> 0" using qn by linarith+
    have "below (fst ?e) (ess ! i) = ?k i" if i: "i < length ?cs" "i \<noteq> d" for i
    proof (rule below_unique)
      show "?k i \<le> length (ess ! i)" by (rule kle)
      show "\<forall>j < ?k i. compare (fst (ess ! i ! j)) (fst ?e) < 0"
      proof (intro allI impI)
        fix j assume j: "j < ?k i"
        then have "j < length (ess ! i)" using kle [of i] by simp
        then have "compare (fst (ess ! i ! j)) (fst ?e) \<noteq> 0" using parts_apart [OF parts i(1) d(1) i(2) _ d(2)] by simp
        then show "compare (fst (ess ! i ! j)) (fst ?e) < 0" using inner [OF i(1) j] by simp
      qed
      show "0 \<le> compare (fst (ess ! i ! ?k i)) (fst ?e)" if less: "?k i < length (ess ! i)"
      proof (rule ccontr)
        assume "\<not> 0 \<le> compare (fst (ess ! i ! ?k i)) (fst ?e)"
        then have "D (ess ! i ! ?k i)" using closedD [OF D De] by simp
        then show False using nth_length_takeWhile [OF less] by simp
      qed
    qed
    then have at_below: "ps ! i = rpos (below (fst (ms ! q)) (ess ! i)) (length (ess ! i))" if "i < length ?cs" "i \<noteq> d" for i
      using ps [OF that(1)] that q(2) by simp
    have q_rpos: "rpos ?n (length ms) = q" using n by (simp only: rpos_def if_False)
    show ?thesis unfolding step Some q_rpos
    proof (rule merging_atI [where c = d and ess = ess and ps = ps])
      fix i assume "i < length (children (m\<lparr>current := Some d\<rparr>))"
      then have i: "i < length ?cs" by simp
      show "i \<noteq> d \<Longrightarrow> ps ! i = (let n = below (fst (ms ! q)) (ess ! i) in
          if direction (m\<lparr>current := Some d\<rparr>) = kForward then n else rpos n (length (ess ! i)))"
        using at_below [OF i] dir by (simp add: Let_def)
    qed (simp_all add: parts d q)
  qed
qed

section \<open>The operations\<close>

lemma children_length: "parts cs ess ps ms \<Longrightarrow> length ess = length cs \<and> length ps = length cs"
  by (simp add: parts_def)

lemma parts_moved:
  assumes "parts cs ess ps ms" and "length cs' = length cs" and "length qs = length cs"
    and "\<And>i. i < length cs \<Longrightarrow> at (cs' ! i) (ess ! i) (qs ! i)"
  shows "parts cs' ess qs ms"
  using assms by (simp add: parts_def)

text \<open>Moving every child to a position that depends on its entries.\<close>

lemma for_children_at:
  assumes "parts cs ess ps ms"
    and "\<And>i. i < length cs \<Longrightarrow> \<exists>c'. f i (cs ! i) = Some c' \<and> at c' (ess ! i) (q (ess ! i))"
  shows "\<exists>cs'. for_children f 0 cs = Some cs' \<and> length cs' = length cs \<and> parts cs' ess (map q ess) ms"
proof -
  from for_children_all [of cs f 0 "\<lambda>i c'. at c' (ess ! i) (q (ess ! i))"] assms(2) obtain cs' where
    "for_children f 0 cs = Some cs'" "length cs' = length cs" "\<forall>i < length cs. at (cs' ! i) (ess ! i) (q (ess ! i))"
    by auto
  moreover have "parts cs' ess (map q ess) ms"
    using calculation children_length [OF assms(1)] by (intro parts_moved [OF assms(1)]) auto
  ultimately show ?thesis by blast
qed

lemma FindSmallest_direction: "(FindSmallest compare ops m)\<lparr>direction := d\<rparr> = FindSmallest compare ops (m\<lparr>direction := d\<rparr>)"
  by (simp add: FindSmallest_def)

lemma FindLargest_direction: "(FindLargest compare ops m)\<lparr>direction := d\<rparr> = FindLargest compare ops (m\<lparr>direction := d\<rparr>)"
  by (simp add: FindLargest_def)

lemma merging_Seek_at:
  assumes "parts (children m) ess ps ms" and t: "seekable t"
  shows "\<exists>m'. merging_Seek compare ops m t = Some m' \<and> merging_at m' ms (below t ms)"
proof -
  from for_children_at [OF assms(1), of "\<lambda>i c. Seek ops c t" "below t"] seek_at [OF _ t] partsD(1) [OF assms(1)] obtain cs where
    cs: "for_children (\<lambda>i c. Seek ops c t) 0 (children m) = Some cs" "parts cs ess (map (below t) ess) ms" by blast
  have "merging_at (FindSmallest compare ops (m\<lparr>children := cs, direction := kForward\<rparr>)) ms
      (length (takeWhile (\<lambda>e. compare (fst e) t < 0) ms))"
    by (rule smallest_step [where ess = ess and ps = "map (below t) ess"])
      (use cs(2) closed_less children_length [OF cs(2)] in \<open>simp_all add: below_def\<close>)
  then show ?thesis using cs(1) by (simp add: merging_Seek_def FindSmallest_direction below_def)
qed

lemma merging_SeekToFirst_at:
  assumes "parts (children m) ess ps ms"
  shows "\<exists>m'. merging_SeekToFirst compare ops m = Some m' \<and> merging_at m' ms 0"
proof -
  from for_children_at [OF assms, of "\<lambda>i. SeekToFirst ops" "\<lambda>es. 0"] first_at partsD(1) [OF assms] obtain cs where
    cs: "for_children (\<lambda>i. SeekToFirst ops) 0 (children m) = Some cs" "parts cs ess (map (\<lambda>es. 0) ess) ms" by blast
  have "merging_at (FindSmallest compare ops (m\<lparr>children := cs, direction := kForward\<rparr>)) ms
      (length (takeWhile (\<lambda>e. False) ms))"
    by (rule smallest_step [where ess = ess and ps = "map (\<lambda>es. 0) ess"])
      (use cs(2) children_length [OF cs(2)] in \<open>simp_all add: takeWhile_none\<close>)
  then show ?thesis using cs(1) by (simp add: merging_SeekToFirst_def FindSmallest_direction takeWhile_none)
qed

lemma merging_SeekToLast_at:
  assumes "parts (children m) ess ps ms"
  shows "\<exists>m'. merging_SeekToLast compare ops m = Some m' \<and> merging_at m' ms (length ms - 1)"
proof -
  from for_children_at [OF assms, of "\<lambda>i. SeekToLast ops" "\<lambda>es. length es - 1"] last_at partsD(1) [OF assms] obtain cs where
    cs: "for_children (\<lambda>i. SeekToLast ops) 0 (children m) = Some cs" "parts cs ess (map (\<lambda>es. length es - 1) ess) ms" by blast
  have "merging_at (FindLargest compare ops (m\<lparr>children := cs, direction := kReverse\<rparr>)) ms
      (rpos (length (takeWhile (\<lambda>e. True) ms)) (length ms))"
    by (rule largest_step [where ess = ess and ps = "map (\<lambda>es. length es - 1) ess"])
      (use cs(2) children_length [OF cs(2)] in \<open>simp_all add: takeWhile_all rpos_def\<close>)
  then show ?thesis using cs(1)
    by (simp add: merging_SeekToLast_def FindLargest_direction takeWhile_all rpos_def split: if_splits)
qed

text \<open>The child that has the current entry, and where the other children are.\<close>

lemma merging_atE:
  assumes "merging_at m ms p" and "p < length ms"
  obtains ess ps c where "parts (children m) ess ps ms" "c < length (children m)" "current m = Some c"
    "ps ! c < length (ess ! c)" "ess ! c ! (ps ! c) = ms ! p" "ps ! c = below (fst (ms ! p)) (ess ! c)"
    "below (fst (ms ! p)) ms = p"
    "\<And>i. i < length (children m) \<Longrightarrow> i \<noteq> c \<Longrightarrow> ps ! i = (let n = below (fst (ms ! p)) (ess ! i) in
       if direction m = kForward then n else rpos n (length (ess ! i)))"
proof -
  from assms obtain ess ps c where a: "parts (children m) ess ps ms" "c < length (children m)" "current m = Some c"
    "ps ! c < length (ess ! c)" "ess ! c ! (ps ! c) = ms ! p"
    and b: "\<forall>i < length (children m). i \<noteq> c \<longrightarrow> ps ! i = (let n = below (fst (ms ! p)) (ess ! i) in
       if direction m = kForward then n else rpos n (length (ess ! i)))"
    unfolding merging_at_def by auto
  have self: "below (fst (es ! j)) es = j" if "ordered (map fst es)" "j < length es" for es :: "entry list" and j
    by (rule below_unique) (use that ordered_nth [OF that(1)] compare_self in auto)
  show ?thesis
    by (rule that [OF a]) (use self [OF partsD(3) [OF a(1,2)] a(4)] a(5) self [OF parts_ms [OF a(1)] assms(2)] b in auto)
qed

text \<open>All children stand before the first entry that is not below a key, or before the last one that is.\<close>

lemma merging_forward:
  assumes "merging_at m ms p" and "p < length ms" and "current m = Some c"
  shows "\<exists>cs ess. (if direction m \<noteq> kForward then
        for_children (\<lambda>i child.
          if i \<noteq> c then do {
            child \<leftarrow> Seek ops child (Key ops (children m ! c));
            if Valid ops child \<and> compare (Key ops (children m ! c)) (Key ops child) = 0 then Next ops child else Some child
          } else Some child) 0 (children m)
      else Some (children m)) = Some cs \<and>
    c < length cs \<and> parts cs ess (map (below (fst (ms ! p))) ess) ms \<and> ess ! c ! below (fst (ms ! p)) (ess ! c) = ms ! p \<and>
    below (fst (ms ! p)) (ess ! c) < length (ess ! c)"
proof -
  let ?k = "fst (ms ! p)"
  from merging_atE [OF assms(1,2)] assms(3) obtain ess ps where
    a: "parts (children m) ess ps ms" "c < length (children m)" "ps ! c < length (ess ! c)" "ess ! c ! (ps ! c) = ms ! p"
       "ps ! c = below ?k (ess ! c)"
    and b: "\<And>i. i < length (children m) \<Longrightarrow> i \<noteq> c \<Longrightarrow> ps ! i = (let n = below ?k (ess ! i) in
       if direction m = kForward then n else rpos n (length (ess ! i)))"
    by (metis option.inject)
  have seekable_k: "seekable ?k" by (rule parts_seekable [OF a(1) assms(2)])
  note len = children_length [OF a(1)]
  have key: "Key ops (children m ! c) = ?k" using partsD(5) [OF a(1,2,3)] a(4) by simp
  show ?thesis
  proof (cases "direction m = kForward")
    case True
    have "parts (children m) ess (map (below ?k) ess) ms"
    proof (rule parts_moved [OF a(1)])
      fix i assume i: "i < length (children m)"
      have "ps ! i = below ?k (ess ! i)" using a(5) b [OF i] True by (cases "i = c") (simp_all add: Let_def)
      then show "at (children m ! i) (ess ! i) (map (below ?k) ess ! i)" using partsD(1) [OF a(1) i] i len by simp
    qed (use len in simp_all)
    then show ?thesis using True a by auto
  next
    case False
    let ?f = "\<lambda>i child. if i \<noteq> c then do {
            child \<leftarrow> Seek ops child (Key ops (children m ! c));
            if Valid ops child \<and> compare (Key ops (children m ! c)) (Key ops child) = 0 then Next ops child else Some child
          } else Some child"
    have "\<exists>c'. ?f i (children m ! i) = Some c' \<and> at c' (ess ! i) (below ?k (ess ! i))" if i: "i < length (children m)" for i
    proof (cases "i = c")
      case True
      then show ?thesis using partsD(1) [OF a(1) i] a(5) by simp
    next
      case other: False
      from seek_at [OF partsD(1) [OF a(1) i] seekable_k] obtain s where
        s: "Seek ops (children m ! i) ?k = Some s" "at s (ess ! i) (below ?k (ess ! i))" by blast
      have "\<not> (Valid ops s \<and> compare ?k (Key ops s) = 0)"
        using valid_at [OF s(2)] key_at [OF s(2)] parts_apart [OF a(1,2) i other [symmetric] a(3)] a(4) by auto
      then show ?thesis using s other by (auto simp: key)
    qed
    from for_children_at [OF a(1), of ?f "below ?k", OF this] obtain cs where
      "for_children ?f 0 (children m) = Some cs" "length cs = length (children m)" "parts cs ess (map (below ?k) ess) ms"
      by blast
    then show ?thesis using False a by auto
  qed
qed

lemma merging_Next_at:
  assumes "merging_at m ms p" and "p < length ms"
  shows "\<exists>m'. merging_Next compare ops m = Some m' \<and> merging_at m' ms (p + 1)"
proof -
  let ?k = "fst (ms ! p)"
  from merging_atE [OF assms] obtain c where cur: "current m = Some c" and bel: "below ?k ms = p" by metis
  from merging_forward [OF assms cur] obtain cs ess where
    cs: "(if direction m \<noteq> kForward then
        for_children (\<lambda>i child.
          if i \<noteq> c then do {
            child \<leftarrow> Seek ops child (Key ops (children m ! c));
            if Valid ops child \<and> compare (Key ops (children m ! c)) (Key ops child) = 0 then Next ops child else Some child
          } else Some child) 0 (children m)
      else Some (children m)) = Some cs"
    and p: "c < length cs" "parts cs ess (map (below ?k) ess) ms" "ess ! c ! below ?k (ess ! c) = ms ! p"
      "below ?k (ess ! c) < length (ess ! c)" by blast
  note len = children_length [OF p(2)]
  have at: "at (cs ! i) (ess ! i) (below ?k (ess ! i))" if "i < length cs" for i
    using partsD(1) [OF p(2) that] that len by simp
  from next_at [OF at [OF p(1)] p(4)] obtain s where
    s: "Next ops (cs ! c) = Some s" "at s (ess ! c) (below ?k (ess ! c) + 1)" by blast
  let ?m = "m\<lparr>children := cs[c := s], direction := kForward\<rparr>" and ?D = "\<lambda>e. compare (fst e) ?k \<le> 0"
  let ?ps = "(map (below ?k) ess)[c := below ?k (ess ! c) + 1]"
  have "merging_at (FindSmallest compare ops ?m) ms (length (takeWhile ?D ms))"
  proof (rule smallest_step [where ess = ess and ps = ?ps])
    show "parts (children ?m) ess ?ps ms"
      by (rule parts_moved [OF p(2)]) (use at s(2) len p(1) in \<open>auto simp: nth_list_update\<close>)
    show "closed ?D" by (rule closed_le)
    show "?ps ! i = length (takeWhile ?D (ess ! i))" if "i < length (children ?m)" for i
    proof -
      have i: "i < length cs" using that by simp
      note o = partsD(3) [OF p(2) i]
      have "length (takeWhile ?D (ess ! i)) = below ?k (ess ! i) + (if i = c then 1 else 0)"
      proof (rule split_unique)
        show "below ?k (ess ! i) + (if i = c then 1 else 0) \<le> length (ess ! i)" using below_le [of ?k "ess ! i"] p(4) by auto
        show "?D (ess ! i ! j)" if "j < below ?k (ess ! i) + (if i = c then 1 else 0)" for j
        proof (cases "j < below ?k (ess ! i)")
          case False
          then have "i = c \<and> j = below ?k (ess ! c)" using that by (auto split: if_splits)
          then show ?thesis using p(3) compare_self by simp
        qed (simp add: below_less less_imp_le)
        show "\<not> ?D (ess ! i ! (below ?k (ess ! i) + (if i = c then 1 else 0)))"
          if less: "below ?k (ess ! i) + (if i = c then 1 else 0) < length (ess ! i)"
        proof (cases "i = c")
          case True
          then have "compare (fst (ess ! c ! below ?k (ess ! c))) (fst (ess ! c ! (below ?k (ess ! c) + 1))) < 0"
            using ordered_nth [OF o, of "below ?k (ess ! c)" "below ?k (ess ! c) + 1"] less by simp
          then show ?thesis using True p(3) compare_swap [of ?k "fst (ess ! c ! (below ?k (ess ! c) + 1))"] by simp
        next
          case False
          then have "0 \<le> compare (fst (ess ! i ! below ?k (ess ! i))) ?k" using below_at [of ?k "ess ! i"] less by simp
          moreover have "compare (fst (ess ! i ! below ?k (ess ! i))) (fst (ess ! c ! below ?k (ess ! c))) \<noteq> 0"
            using parts_apart [OF p(2) i p(1) False _ p(4)] less False by simp
          ultimately show ?thesis using False p(3) by simp
        qed
      qed
      then show ?thesis using i len by (cases "i = c") simp_all
    qed
  qed simp
  moreover have "length (takeWhile ?D ms) = p + 1"
  proof (rule split_unique)
    show "?D (ms ! j)" if "j < p + 1" for j using ordered_nth_le [OF parts_ms [OF p(2)], of j p] that assms(2) by simp
    show "\<not> ?D (ms ! (p + 1))" if "p + 1 < length ms"
      using ordered_nth [OF parts_ms [OF p(2)], of p "p + 1"] that compare_swap [of ?k "fst (ms ! (p + 1))"] by simp
  qed (use assms(2) in simp)
  ultimately show ?thesis using cur cs s(1) by (simp add: merging_Next_def)
qed

lemma merging_backward:
  assumes "merging_at m ms p" and "p < length ms" and "current m = Some c"
  shows "\<exists>cs ess ps. (if direction m \<noteq> kReverse then
        for_children (\<lambda>i child.
          if i \<noteq> c then do {
            child \<leftarrow> Seek ops child (Key ops (children m ! c));
            if Valid ops child then Prev ops child else SeekToLast ops child
          } else Some child) 0 (children m)
      else Some (children m)) = Some cs \<and>
    c < length cs \<and> parts cs ess ps ms \<and> ps ! c = below (fst (ms ! p)) (ess ! c) \<and> ps ! c < length (ess ! c) \<and>
    (\<forall>i < length cs. i \<noteq> c \<longrightarrow> ps ! i = rpos (below (fst (ms ! p)) (ess ! i)) (length (ess ! i)))"
proof -
  let ?k = "fst (ms ! p)"
  from merging_atE [OF assms(1,2)] assms(3) obtain ess ps where
    a: "parts (children m) ess ps ms" "c < length (children m)" "ps ! c < length (ess ! c)" "ess ! c ! (ps ! c) = ms ! p"
       "ps ! c = below ?k (ess ! c)"
    and b: "\<And>i. i < length (children m) \<Longrightarrow> i \<noteq> c \<Longrightarrow> ps ! i = (let n = below ?k (ess ! i) in
       if direction m = kForward then n else rpos n (length (ess ! i)))"
    by (metis option.inject)
  have seekable_k: "seekable ?k" by (rule parts_seekable [OF a(1) assms(2)])
  have key: "Key ops (children m ! c) = ?k" using partsD(5) [OF a(1,2,3)] a(4) by simp
  show ?thesis
  proof (cases "direction m = kReverse")
    case True
    then show ?thesis using a b by (intro exI [of _ "children m"] exI [of _ ess] exI [of _ ps]) (simp add: Let_def)
  next
    case False
    let ?f = "\<lambda>i child. if i \<noteq> c then do {
            child \<leftarrow> Seek ops child (Key ops (children m ! c));
            if Valid ops child then Prev ops child else SeekToLast ops child
          } else Some child"
    define q where "q i = (if i = c then below ?k (ess ! c) else rpos (below ?k (ess ! i)) (length (ess ! i)))" for i
    have "\<exists>c'. ?f (0 + i) (children m ! i) = Some c' \<and> at c' (ess ! i) (q i)" if i: "i < length (children m)" for i
    proof (cases "i = c")
      case True
      then show ?thesis using partsD(1) [OF a(1) i] a(5) by (simp add: q_def)
    next
      case other: False
      from seek_at [OF partsD(1) [OF a(1) i] seekable_k] obtain s where
        s: "Seek ops (children m ! i) ?k = Some s" "at s (ess ! i) (below ?k (ess ! i))" by blast
      show ?thesis
      proof (cases "below ?k (ess ! i) < length (ess ! i)")
        case True
        from prev_at [OF s(2) True] show ?thesis
          using s other valid_at [OF s(2)] True by (auto simp: key q_def rpos_def)
      next
        case False
        then have "below ?k (ess ! i) = length (ess ! i)" using below_le [of ?k "ess ! i"] by simp
        then show ?thesis
          using last_at [OF s(2)] s other valid_at [OF s(2)] by (auto simp: key q_def rpos_def)
      qed
    qed
    from for_children_all [of "children m" ?f 0 "\<lambda>i c'. at c' (ess ! i) (q i)", OF this] obtain cs where
      cs: "for_children ?f 0 (children m) = Some cs" "length cs = length (children m)"
        "\<forall>i < length (children m). at (cs ! i) (ess ! i) (q i)"
      by blast
    have "parts cs ess (map q [0 ..< length cs]) ms"
      using cs by (intro parts_moved [OF a(1)]) auto
    then show ?thesis using False a cs
      by (intro exI [of _ cs] exI [of _ ess] exI [of _ "map q [0 ..< length cs]"]) (auto simp: q_def)
  qed
qed

lemma merging_Prev_at:
  assumes "merging_at m ms p" and "p < length ms"
  shows "\<exists>m'. merging_Prev compare ops m = Some m' \<and> merging_at m' ms (if p = 0 then length ms else p - 1)"
proof -
  let ?k = "fst (ms ! p)"
  from merging_atE [OF assms] obtain c where cur: "current m = Some c" and bel: "below ?k ms = p" by metis
  from merging_backward [OF assms cur] obtain cs ess ps where
    cs: "(if direction m \<noteq> kReverse then
        for_children (\<lambda>i child.
          if i \<noteq> c then do {
            child \<leftarrow> Seek ops child (Key ops (children m ! c));
            if Valid ops child then Prev ops child else SeekToLast ops child
          } else Some child) 0 (children m)
      else Some (children m)) = Some cs"
    and p: "c < length cs" "parts cs ess ps ms" "ps ! c = below ?k (ess ! c)" "ps ! c < length (ess ! c)"
    and others: "\<And>i. i < length cs \<Longrightarrow> i \<noteq> c \<Longrightarrow> ps ! i = rpos (below ?k (ess ! i)) (length (ess ! i))" by blast
  note len = children_length [OF p(2)]
  from prev_at [OF partsD(1) [OF p(2,1)] p(4)] obtain s where
    s: "Prev ops (cs ! c) = Some s" "at s (ess ! c) (rpos (below ?k (ess ! c)) (length (ess ! c)))"
    unfolding rpos_def p(3) by blast
  let ?m = "m\<lparr>children := cs[c := s], direction := kReverse\<rparr>" and ?D = "\<lambda>e. compare (fst e) ?k < 0"
  let ?ps = "ps[c := rpos (below ?k (ess ! c)) (length (ess ! c))]"
  have "merging_at (FindLargest compare ops ?m) ms (rpos (length (takeWhile ?D ms)) (length ms))"
  proof (rule largest_step [where ess = ess and ps = ?ps])
    show "parts (children ?m) ess ?ps ms"
      by (rule parts_moved [OF p(2)]) (use partsD(1) [OF p(2)] s(2) len p(1) in \<open>auto simp: nth_list_update\<close>)
    show "closed ?D" by (rule closed_less)
    show "?ps ! i = rpos (length (takeWhile ?D (ess ! i))) (length (ess ! i))" if "i < length (children ?m)" for i
      using that others [of i] len p(1) by (cases "i = c") (simp_all add: below_def)
  qed simp
  then have "merging_at (FindLargest compare ops ?m) ms (rpos p (length ms))" using bel by (simp add: below_def)
  then show ?thesis using cur cs s(1) by (simp add: merging_Prev_def rpos_def split: if_splits)
qed

lemma merging_status_at:
  assumes "parts (children m) ess ps ms"
  shows "merging_status ops m = OK"
proof -
  have "\<forall>c \<in> set (children m). IterStatus ops c = OK"
    using status_at [OF partsD(1) [OF assms]] by (auto simp: in_set_conv_nth)
  moreover have "\<forall>c \<in> set cs. IterStatus ops c = OK \<Longrightarrow> foldl (\<lambda>s c. if ok s then IterStatus ops c else s) OK cs = OK" for cs
    by (induction cs) simp_all
  ultimately show ?thesis by (simp add: merging_status_def)
qed

lemma merging_at_start:
  assumes "length ess = length cs" and "\<And>i. i < length cs \<Longrightarrow> \<exists>p. at (cs ! i) (ess ! i) p"
    and "ordered (map fst ms)" and "set ms = (\<Union>es \<in> set ess. set es)" and seek: "\<forall>e \<in> set ms. seekable (fst e)"
    and "\<And>i j x y. i < length ess \<Longrightarrow> j < length ess \<Longrightarrow> i \<noteq> j \<Longrightarrow> x \<in> set (ess ! i) \<Longrightarrow> y \<in> set (ess ! j) \<Longrightarrow>
       compare (fst x) (fst y) \<noteq> 0"
  shows "merging_at (make_merging cs) ms (length ms)"
proof -
  from assms(2) obtain p where p: "\<And>i. i < length cs \<Longrightarrow> at (cs ! i) (ess ! i) (p i)" by metis
  have "(\<Union>es \<in> set ess. set es) = (\<Union>i < length cs. set (ess ! i))"
  proof -
    have "set ess = (!) ess ` {..< length cs}" using assms(1) by (auto simp: set_conv_nth)
    then show ?thesis by simp
  qed
  then have "parts cs ess (map p [0 ..< length cs]) ms"
    using p assms(1,3,4,6) seek by (simp add: parts_def)
  then show ?thesis by (intro merging_at_None) (simp_all add: make_merging_def)
qed

theorem merging_iterator: "sorted_iterator compare (merging_ops compare ops) merging_at seekable"
proof
  fix m ms p t assume at: "merging_at m ms p"
  then obtain ess ps where parts: "parts (children m) ess ps ms" unfolding merging_at_def by blast
  show "p \<le> length ms" using at by (simp add: merging_at_def)
  show "ordered (map fst ms)" by (rule parts_ms [OF parts])
  show "Valid (merging_ops compare ops) m \<longleftrightarrow> p < length ms"
    using at by (auto simp: merging_at_def merging_ops_def merging_valid_def split: if_splits)
  show "IterStatus (merging_ops compare ops) m = OK" using merging_status_at [OF parts] by (simp add: merging_ops_def)
  show "\<exists>m'. SeekToFirst (merging_ops compare ops) m = Some m' \<and> merging_at m' ms 0"
    using merging_SeekToFirst_at [OF parts] by (simp add: merging_ops_def)
  show "\<exists>m'. SeekToLast (merging_ops compare ops) m = Some m' \<and> merging_at m' ms (length ms - 1)"
    using merging_SeekToLast_at [OF parts] by (simp add: merging_ops_def)
  show "\<exists>m'. Seek (merging_ops compare ops) m t = Some m' \<and> merging_at m' ms (below t ms)" if "seekable t"
    using that merging_Seek_at [OF parts] by (simp add: merging_ops_def)
  {
    assume p: "p < length ms"
    from merging_atE [OF at p] obtain ess ps c where c: "parts (children m) ess ps ms" "c < length (children m)"
      "current m = Some c" "ps ! c < length (ess ! c)" "ess ! c ! (ps ! c) = ms ! p" by metis
    note entry = key_at [OF partsD(1) [OF c(1,2)] c(4)] val_at [OF partsD(1) [OF c(1,2)] c(4)]
    show "Key (merging_ops compare ops) m = fst (ms ! p)"
      using entry c by (simp add: merging_ops_def merging_key_def)
    show "Val (merging_ops compare ops) m = snd (ms ! p)"
      using entry c by (simp add: merging_ops_def merging_value_def)
    show "\<exists>m'. Next (merging_ops compare ops) m = Some m' \<and> merging_at m' ms (p + 1)"
      using merging_Next_at [OF at p] by (simp add: merging_ops_def)
    show "\<exists>m'. Prev (merging_ops compare ops) m = Some m' \<and> merging_at m' ms (if p = 0 then length ms else p - 1)"
      using merging_Prev_at [OF at p] by (simp add: merging_ops_def)
  }
qed

end

interpretation merged_blocks: sorted_iterator BytewiseCompare "merging_ops BytewiseCompare (block_ops BytewiseCompare)"
    bytewise.block.merging_at "\<lambda>t. True"
  by (rule bytewise.block.merging_iterator)

interpretation merged_internal: sorted_iterator "InternalKeyCompare BytewiseCompare"
    "merging_ops (InternalKeyCompare BytewiseCompare) (block_ops (InternalKeyCompare BytewiseCompare))"
    internal.block.merging_at "\<lambda>t. True"
  by (rule internal.block.merging_iterator)

section \<open>The property of the merge\<close>

text \<open>C21. A merge shows the union of its children. Let the children be iterators over sorted lists of
  entries, of any kind that meets the interface, without a key in common. Then the merging iterator
  behaves as a position in the sorted list of all their entries, through every sequence of moves,
  which includes every change of direction.\<close>

theorem merge_follows_union:
  assumes "sorted_iterator compare ops at seekable" and "\<forall>e \<in> set ms. seekable (fst e)"
    and "length ess = length cs" and "\<forall>i < length cs. \<exists>p. at (cs ! i) (ess ! i) p"
    and "sorted_wrt (\<lambda>a b. compare a b < 0) (map fst ms)" and "set ms = (\<Union>es \<in> set ess. set es)"
    and "\<forall>i < length ess. \<forall>j < length ess. i \<noteq> j \<longrightarrow>
           (\<forall>x \<in> set (ess ! i). \<forall>y \<in> set (ess ! j). compare (fst x) (fst y) \<noteq> 0)"
  shows "follows compare seekable (merging_ops compare ops) (make_merging cs) ms (length ms)"
proof -
  have o: "comparator.ordered compare (map fst ms)"
    using assms(1,5) by (simp add: comparator.ordered_def sorted_iterator_def)
  have "sorted_iterator.merging_at compare at seekable (make_merging cs) ms (length ms)"
    by (rule sorted_iterator.merging_at_start [OF assms(1,3) _ o assms(6,2)]) (use assms(4,7) in auto)
  then show ?thesis
    by (rule sorted_iterator.at_follows [OF sorted_iterator.merging_iterator [OF assms(1)]])
qed

theorem merge_follows_union_witness:
  "\<exists>it1 it2. follows BytewiseCompare (\<lambda>t. True) (merging_ops BytewiseCompare (block_ops BytewiseCompare))
     (make_merging [it1, it2]) [([1], [9]), ([2], [7]), ([3], [8])] 3"
proof -
  let ?l1 = "\<lparr>lay_entries = [([1], [9]), ([3], [8])], lay_shared = [0, 0], lay_points = [0]\<rparr>"
  let ?l2 = "\<lparr>lay_entries = [([2], [7])], lay_shared = [0], lay_points = [0]\<rparr>"
  have small: "length (entry_image 0 ([x], [y])) = 5" for x y
    by (simp add: entry_image_def EncodeVarint32_def)
  have "layout_ok ?l1" "layout_ok ?l2"
    by (simp_all add: layout_ok_def shares_def points_ok_def block_image_def images_def points_table_def small less_Suc_eq)
  then obtain it1 it2 where "layout_ok ?l1" "stands ?l1 it1 (count ?l1)" "layout_ok ?l2" "stands ?l2 it2 (count ?l2)"
    using NewIterator_image [of ?l1] NewIterator_image [of ?l2] by blast
  from block_atI [OF this(1,2), of BytewiseCompare] block_atI [OF this(3,4), of BytewiseCompare]
  have it: "block_at BytewiseCompare it1 [([1], [9]), ([3], [8])] (count ?l1)" "block_at BytewiseCompare it2 [([2], [7])] (count ?l2)"
    by (simp_all add: BytewiseCompare_def)
  have "follows BytewiseCompare (\<lambda>t. True) (merging_ops BytewiseCompare (block_ops BytewiseCompare))
     (make_merging [it1, it2]) [([1], [9]), ([2], [7]), ([3], [8])] (length [([1], [9]), ([2], [7]), ([3 :: byte], [8 :: byte])])"
    by (rule merge_follows_union [OF bytewise.block.sorted_iterator_axioms,
          where ess = "[[([1], [9]), ([3], [8])], [([2], [7])]]"])
      (use it in \<open>auto simp: BytewiseCompare_def less_Suc_eq nth_Cons'\<close>)
  moreover have "length [([1 :: byte], [9 :: byte]), ([2], [7]), ([3], [8])] = 3" by simp
  ultimately show ?thesis by (metis (no_types))
qed

end
