(* ===== verification/LdbRandom.thy ===== *)
theory LdbRandom
  imports LdbCoding
begin

text \<open>
  The random number generator (\<open>util/random.h\<close>): the state is the 32-bit seed, and every operation
  gives its result and the new seed. \<open>Uniform\<close> and the operations built from it require a positive
  bound. The iterator of the database and the skip list use it.
\<close>

definition random_M :: nat where "random_M = 2147483647"

definition make_Random :: "u32 \<Rightarrow> u32" where
  "make_Random s = (let seed = s AND 0x7fffffff in if seed = 0 \<or> seed = 2147483647 then 1 else seed)"

definition random_Next :: "u32 \<Rightarrow> u32 \<times> u32" where
  "random_Next seed =
     (let product = ucast seed * 16807 :: u64;
          seed = ucast (drop_bit 31 product + (product AND 0x7fffffff));
          seed = (if 2147483647 < seed then seed - 2147483647 else seed)
      in (seed, seed))"

definition Uniform :: "nat \<Rightarrow> u32 \<Rightarrow> nat \<times> u32" where
  "Uniform n seed = (let (r, seed) = random_Next seed in (unat r mod n, seed))"

definition OneIn :: "nat \<Rightarrow> u32 \<Rightarrow> bool \<times> u32" where
  "OneIn n seed = (let (r, seed) = random_Next seed in (unat r mod n = 0, seed))"

definition Skewed :: "nat \<Rightarrow> u32 \<Rightarrow> nat \<times> u32" where
  "Skewed max_log seed = (let (k, seed) = Uniform (max_log + 1) seed in Uniform (2 ^ k) seed)"

text \<open>The seeds that the constructor and the generator avoid are the multiples of the modulus.\<close>

definition good_seed :: "u32 \<Rightarrow> bool" where
  "good_seed seed \<longleftrightarrow> 0 < unat seed \<and> unat seed < random_M"

lemma unat_low_31: "unat (x AND 0x7fffffff) = unat x mod 2 ^ 31" for x :: "'a::len word"
proof -
  have "x AND 0x7fffffff = take_bit 31 x" by (simp add: take_bit_eq_mask mask_eq_decr_exp)
  then show ?thesis using unsigned_take_bit_eq [of 31 x, where 'a = nat] by (simp only: take_bit_eq_mod [of _ "unat x"])
qed

lemma good_seed_make [simp]: "good_seed (make_Random s)"
proof -
  let ?t = "s AND 0x7fffffff"
  have "unat ?t = unat s mod 2 ^ 31" by (rule unat_low_31)
  then have less: "unat ?t < 2147483648" by simp
  have "unat ?t \<noteq> 2147483647" if "?t \<noteq> 2147483647"
    using that by (simp add: word_unat_eq_iff)
  moreover have "0 < unat ?t" if "?t \<noteq> 0"
    using that by (simp add: unat_gt_0)
  ultimately show ?thesis
    using less by (auto simp: make_Random_def good_seed_def random_M_def Let_def)
qed

text \<open>One step is the multiplication by 16807 modulo 2^31 - 1, although it never divides.\<close>

lemma fold_modulus:
  fixes x :: nat
  assumes "x = 2147483648 * q + r" and "r < 2147483648" and "q \<le> 16807" and "x mod 2147483647 \<noteq> 0"
  shows "x mod 2147483647 = (if 2147483647 < q + r then q + r - 2147483647 else q + r)"
proof -
  have "x = (q + r) + 2147483647 * q" using assms(1) by simp
  then have x: "x mod 2147483647 = (q + r) mod 2147483647" by (metis mod_mult_self2)
  show ?thesis
  proof (cases "2147483647 \<le> q + r")
    case True
    then have "(q + r) mod 2147483647 = (q + r - 2147483647) mod 2147483647"
      by (simp add: le_mod_geq)
    also have "\<dots> = q + r - 2147483647" using assms(2,3) by simp
    finally show ?thesis using x True assms(4) by (cases "q + r = 2147483647") auto
  qed (use x in simp)
qed

lemma coprime_Bezout: "u * a - v * b = 1 \<Longrightarrow> coprime a b" for a b u v :: int
  by (rule coprimeI) (metis dvd_diff dvd_mult)

lemma modulus_coprime: "coprime (2147483647 :: int) 16807" "coprime (2147483647 :: int) 2097152"
  by (rule coprime_Bezout [of "- 11017" _ "- 1407677000"], simp)
    (rule coprime_Bezout [of "- 1" _ "- 1024"], simp)

lemma lehmer_nonzero:
  fixes s :: nat
  assumes "0 < s" and "s < 2147483647"
  shows "(16807 * s) mod 2147483647 \<noteq> 0"
proof
  assume "(16807 * s) mod 2147483647 = 0"
  then have "2147483647 dvd 16807 * s" by (simp add: dvd_eq_mod_eq_0)
  moreover have "coprime (2147483647 :: nat) 16807"
    using modulus_coprime(1) coprime_int_iff [of 2147483647 16807] by simp
  ultimately have "2147483647 dvd s" by (simp add: coprime_dvd_mult_right_iff)
  with assms show False by (auto dest: dvd_imp_le)
qed

lemma random_step:
  assumes "good_seed s"
  shows "random_Next s = (snd (random_Next s), snd (random_Next s))"
    and "unat (snd (random_Next s)) = 16807 * unat s mod random_M"
    and "good_seed (snd (random_Next s))"
proof -
  let ?p = "ucast s * 16807 :: u64"
  let ?q = "16807 * unat s div 2 ^ 31" and ?r = "16807 * unat s mod 2 ^ 31"
  have s: "0 < unat s" "unat s < 2147483647" using assms by (simp_all add: good_seed_def random_M_def)
  have u: "unat (ucast s :: u64) = unat s"
    using s by (simp add: unsigned_ucast_eq take_bit_nat_eq_self)
  have p: "unat ?p = 16807 * unat s"
    using s u by (simp add: unat_word_ariths)
  have d: "unat (drop_bit 31 ?p) = ?q" using p by (simp only: unat_drop_bit_div)
  have r: "unat (?p AND 0x7fffffff) = ?r" using p by (simp only: unat_low_31)
  have q: "?q \<le> 16807" using s by (simp add: div_le_mono)
  have rl: "?r < 2147483648" by simp
  have "unat (drop_bit 31 ?p + (?p AND 0x7fffffff)) = ?q + ?r"
    using d r q rl by (simp add: unat_word_ariths)
  then have sum: "unat (ucast (drop_bit 31 ?p + (?p AND 0x7fffffff)) :: u32) = ?q + ?r" (is "unat ?sum = _")
    using q rl by (simp add: unsigned_ucast_eq take_bit_nat_eq_self)
  have big: "2147483647 < ?sum \<longleftrightarrow> 2147483647 < ?q + ?r"
    using sum by (simp add: word_less_nat_alt)
  have "unat (if 2147483647 < ?sum then ?sum - 2147483647 else ?sum)
      = (if 2147483647 < ?q + ?r then ?q + ?r - 2147483647 else ?q + ?r)"
    using sum big by (simp add: unat_sub word_le_nat_alt)
  also have "\<dots> = 16807 * unat s mod 2147483647"
    by (rule fold_modulus [symmetric, OF _ rl q lehmer_nonzero [OF s]]) simp
  finally show un: "unat (snd (random_Next s)) = 16807 * unat s mod random_M"
    by (simp add: random_Next_def Let_def random_M_def)
  then show "good_seed (snd (random_Next s))"
    using lehmer_nonzero [OF s] by (simp add: good_seed_def random_M_def)
  show "random_Next s = (snd (random_Next s), snd (random_Next s))"
    by (simp add: random_Next_def Let_def)
qed

lemma Uniform_less: "0 < n \<Longrightarrow> fst (Uniform n s) < n"
  by (simp add: Uniform_def split: prod.split)

lemma good_seed_Uniform: "good_seed s \<Longrightarrow> good_seed (snd (Uniform n s))"
  using random_step(3) [of s] by (simp add: Uniform_def case_prod_beta)

lemma good_seed_OneIn: "good_seed s \<Longrightarrow> good_seed (snd (OneIn n s))"
  using random_step(3) [of s] by (simp add: OneIn_def case_prod_beta)

text \<open>
  Two results in a row are not both multiples of 2^21: the second would be 16807 times the first
  without any reduction, which is too large. A loop that waits for such results to add up ends.
\<close>

lemma not_zero_twice:
  assumes "good_seed s" and "fst (Uniform (2 ^ 21) s) = 0"
  shows "fst (Uniform (2 ^ 21) (snd (Uniform (2 ^ 21) s))) \<noteq> 0"
proof
  let ?s1 = "snd (random_Next s)"
  let ?s2 = "snd (random_Next ?s1)"
  note g1 = random_step [OF assms(1)] and g2 = random_step [OF random_step(3) [OF assms(1)]]
  have r: "fst (Uniform (2 ^ 21) t) = unat (snd (random_Next t)) mod 2 ^ 21" "snd (Uniform (2 ^ 21) t) = snd (random_Next t)"
    if "good_seed t" for t
    using arg_cong [OF random_step(1) [OF that], of fst] by (simp_all add: Uniform_def case_prod_beta)
  assume "fst (Uniform (2 ^ 21) (snd (Uniform (2 ^ 21) s))) = 0"
  then have z: "unat ?s1 mod 2 ^ 21 = 0" "unat ?s2 mod 2 ^ 21 = 0"
    using assms r [OF assms(1)] r [OF g1(3)] by simp_all
  define a b where "a = unat ?s1 div 2 ^ 21" and "b = unat ?s2 div 2 ^ 21"
  then have a: "unat ?s1 = 2097152 * a" and b: "unat ?s2 = 2097152 * b"
    using z mult_div_mod_eq [of "2 ^ 21" "unat ?s1"] mult_div_mod_eq [of "2 ^ 21" "unat ?s2"] by simp_all
  have s1: "0 < unat ?s1" "unat ?s1 < 2147483647" and s2: "unat ?s2 < 2147483647"
    using g1(3) g2(3) by (simp_all add: good_seed_def random_M_def)
  have al: "0 < a" "a < 1024" and bl: "b < 1024" using a b s1 s2 by auto
  have "(2097152 * (16807 * a)) mod 2147483647 = (2097152 * b) mod 2147483647"
    using g2(2) a b s2 by (simp add: random_M_def ac_simps)
  from arg_cong [OF this, of int] have "2147483647 dvd (int (2097152 * (16807 * a)) - int (2097152 * b))"
    by (simp only: zmod_int of_nat_numeral mod_eq_dvd_iff)
  moreover have "int (2097152 * (16807 * a)) - int (2097152 * b) = 2097152 * (16807 * int a - int b)"
    by simp
  ultimately have "2147483647 dvd 2097152 * (16807 * int a - int b)" by (simp only:)
  with modulus_coprime(2) have "2147483647 dvd 16807 * int a - int b"
    by (simp only: coprime_dvd_mult_right_iff)
  moreover have "0 < 16807 * int a - int b" "16807 * int a - int b < 2147483647" using al bl by auto
  ultimately show False using zdvd_imp_le [of 2147483647 "16807 * int a - int b"] by linarith
qed

section \<open>Properties\<close>

text \<open>The generator computes, without a division and within 32 bits of state, the product of the seed
  with 16807 modulo 2^31 - 1. Every seed that the constructor makes, and every one after it, is between 1 and
  2^31 - 2, so the generator is never stuck at 0 or at the modulus.\<close>

theorem random_next_reference:
  "let s = ((\<lambda>s. snd (random_Next s)) ^^ n) (make_Random seed) in
     0 < unat s \<and> unat s < 2147483647 \<and> unat (fst (random_Next s)) = 16807 * unat s mod 2147483647"
proof -
  have g: "good_seed (((\<lambda>s. snd (random_Next s)) ^^ n) (make_Random seed))"
    by (induction n) (simp_all add: random_step(3))
  then show ?thesis
    using random_step(1,2) [OF g] unfolding Let_def good_seed_def random_M_def
    by (metis fst_conv)
qed

end
