(* ===== verification/LdbDBIter.thy ===== *)
theory LdbDBIter
  imports LdbMerger LdbRandom
begin

text \<open>
  The iterator of the database (\<open>db/db_iter.cc\<close>): it turns the entries of an internal iterator, one
  for each version of each key, into the keys and values that a snapshot sees. The internal iterator
  is a parameter. The calls of \<open>DBImpl::RecordReadSample\<close> are recorded in \<open>samples\<close>; the enumeration of
  the directions is the one of the merging iterator. A violated assertion is \<open>None\<close>.
\<close>

definition kReadBytesPeriod :: nat where "kReadBytesPeriod = 1048576"

record 's db_iter =
  iter :: 's
  snapshot :: SequenceNumber
  db_status :: Status
  saved_key :: slice
  saved_value :: slice
  db_direction :: Direction
  db_valid :: bool
  rnd :: u32
  bytes_counter :: int
  samples :: "slice list"

definition RandomPeriod :: "u32 \<Rightarrow> int \<times> u32" where
  "RandomPeriod seed = (let (r, seed) = Uniform (2 * kReadBytesPeriod) seed in (int r, seed))"

definition make_db_iter :: "'s \<Rightarrow> SequenceNumber \<Rightarrow> u32 \<Rightarrow> 's db_iter" where
  "make_db_iter it s seed =
     (let (period, rnd) = RandomPeriod (make_Random seed) in
      \<lparr>iter = it, snapshot = s, db_status = OK, saved_key = [], saved_value = [], db_direction = kForward,
       db_valid = False, rnd = rnd, bytes_counter = period, samples = []\<rparr>)"

definition db_key :: "'s Iterator \<Rightarrow> 's db_iter \<Rightarrow> slice" where
  "db_key ops d = (if db_direction d = kForward then ExtractUserKey (Key ops (iter d)) else saved_key d)"

definition db_value :: "'s Iterator \<Rightarrow> 's db_iter \<Rightarrow> slice" where
  "db_value ops d = (if db_direction d = kForward then Val ops (iter d) else saved_value d)"

definition db_iter_status :: "'s Iterator \<Rightarrow> 's db_iter \<Rightarrow> Status" where
  "db_iter_status ops d = (if ok (db_status d) then IterStatus ops (iter d) else db_status d)"

text \<open>\<open>ClearSavedValue\<close> gives memory back as well, which the value does not show.\<close>

definition ClearSavedValue :: "'s db_iter \<Rightarrow> 's db_iter" where
  "ClearSavedValue d = d\<lparr>saved_value := []\<rparr>"

text \<open>The loop that draws the next gaps between samples, while the counter is negative.\<close>

definition sample_turn :: "slice \<Rightarrow> 's db_iter \<Rightarrow> ('s db_iter, 's db_iter) turn option" where
  "sample_turn k d =
     (if bytes_counter d < 0
      then let (period, seed) = RandomPeriod (rnd d)
           in Some (Continue (d\<lparr>bytes_counter := bytes_counter d + period, rnd := seed, samples := samples d @ [k]\<rparr>))
      else Some (Leave d))"

definition ParseKey :: "'s Iterator \<Rightarrow> 's db_iter \<Rightarrow> (ParsedInternalKey option \<times> 's db_iter) option" where
  "ParseKey ops d = do {
     let k = Key ops (iter d);
     let n = length k + length (Val ops (iter d));
     d \<leftarrow> crun (sample_turn k) (d\<lparr>bytes_counter := bytes_counter d - int n\<rparr>);
     case ParseInternalKey k of
       None \<Rightarrow> Some (None, d\<lparr>db_status := Corruption (bytes_of ''corrupted internal key in DBIter'') []\<rparr>)
     | Some ikey \<Rightarrow> Some (Some ikey, d)
   }"

text \<open>
  The parsed key of the current entry, if it is not newer than the snapshot. The parameter \<open>skip\<close> of
  \<open>FindNextUserEntry\<close> points to \<open>saved_key_\<close> in every call.
\<close>

definition seen_key :: "'s db_iter \<Rightarrow> ParsedInternalKey option \<Rightarrow> ParsedInternalKey option" where
  "seen_key d parsed =
     (case parsed of None \<Rightarrow> None | Some ikey \<Rightarrow> if sequence ikey \<le> snapshot d then Some ikey else None)"

definition next_turn ::
    "(slice \<Rightarrow> slice \<Rightarrow> int) \<Rightarrow> 's Iterator \<Rightarrow> bool \<times> 's db_iter \<Rightarrow> (bool \<times> 's db_iter, 's db_iter) turn option" where
  "next_turn compare ops = (\<lambda>(skipping, d). do {
     (parsed, d) \<leftarrow> ParseKey ops d;
     let yield = (case seen_key d parsed of None \<Rightarrow> False
                  | Some ikey \<Rightarrow> key_type ikey = kTypeValue \<and>
                      \<not> (skipping \<and> compare (user_key ikey) (saved_key d) \<le> 0));
     if yield then Some (Leave (d\<lparr>db_valid := True, saved_key := []\<rparr>))
     else do {
       let (skipping, d) = (case seen_key d parsed of None \<Rightarrow> (skipping, d)
                            | Some ikey \<Rightarrow> if key_type ikey = kTypeDeletion
                                then (True, d\<lparr>saved_key := user_key ikey\<rparr>) else (skipping, d));
       it \<leftarrow> Next ops (iter d);
       let d = d\<lparr>iter := it\<rparr>;
       if Valid ops it then Some (Continue (skipping, d))
       else Some (Leave (d\<lparr>saved_key := [], db_valid := False\<rparr>))
     }
   })"

definition FindNextUserEntry ::
    "(slice \<Rightarrow> slice \<Rightarrow> int) \<Rightarrow> 's Iterator \<Rightarrow> bool \<Rightarrow> 's db_iter \<Rightarrow> 's db_iter option" where
  "FindNextUserEntry compare ops skipping d =
     (if Valid ops (iter d) \<and> db_direction d = kForward then crun (next_turn compare ops) (skipping, d) else None)"

definition db_Next :: "(slice \<Rightarrow> slice \<Rightarrow> int) \<Rightarrow> 's Iterator \<Rightarrow> 's db_iter \<Rightarrow> 's db_iter option" where
  "db_Next compare ops d =
     (if \<not> db_valid d then None
      else if db_direction d = kReverse then do {
        let d = d\<lparr>db_direction := kForward\<rparr>;
        it \<leftarrow> (if \<not> Valid ops (iter d) then SeekToFirst ops (iter d) else Next ops (iter d));
        let d = d\<lparr>iter := it\<rparr>;
        if \<not> Valid ops it then Some (d\<lparr>db_valid := False, saved_key := []\<rparr>)
        else FindNextUserEntry compare ops True d
      }
      else FindNextUserEntry compare ops True (d\<lparr>saved_key := ExtractUserKey (Key ops (iter d))\<rparr>))"

text \<open>\<open>FindPrevUserEntry\<close>: the loop over the versions, with the type of the last one that was seen.\<close>

definition prev_turn ::
    "(slice \<Rightarrow> slice \<Rightarrow> int) \<Rightarrow> 's Iterator \<Rightarrow> ValueType \<times> 's db_iter
      \<Rightarrow> (ValueType \<times> 's db_iter, ValueType \<times> 's db_iter) turn option" where
  "prev_turn compare ops = (\<lambda>(value_type, d). do {
     (parsed, d) \<leftarrow> ParseKey ops d;
     let stop = (case seen_key d parsed of None \<Rightarrow> False
                 | Some ikey \<Rightarrow> value_type \<noteq> kTypeDeletion \<and> compare (user_key ikey) (saved_key d) < 0);
     if stop then Some (Leave (value_type, d))
     else do {
       let (value_type, d) = (case seen_key d parsed of None \<Rightarrow> (value_type, d)
              | Some ikey \<Rightarrow>
                  (key_type ikey,
                   if key_type ikey = kTypeDeletion then ClearSavedValue (d\<lparr>saved_key := []\<rparr>)
                   else d\<lparr>saved_key := ExtractUserKey (Key ops (iter d)), saved_value := Val ops (iter d)\<rparr>));
       it \<leftarrow> Prev ops (iter d);
       let d = d\<lparr>iter := it\<rparr>;
       if Valid ops it then Some (Continue (value_type, d)) else Some (Leave (value_type, d))
     }
   })"

definition FindPrevUserEntry :: "(slice \<Rightarrow> slice \<Rightarrow> int) \<Rightarrow> 's Iterator \<Rightarrow> 's db_iter \<Rightarrow> 's db_iter option" where
  "FindPrevUserEntry compare ops d =
     (if db_direction d \<noteq> kReverse then None
      else do {
        (value_type, d) \<leftarrow> (if Valid ops (iter d) then crun (prev_turn compare ops) (kTypeDeletion, d)
                             else Some (kTypeDeletion, d));
        if value_type = kTypeDeletion
        then Some ((ClearSavedValue (d\<lparr>db_valid := False, saved_key := []\<rparr>))\<lparr>db_direction := kForward\<rparr>)
        else Some (d\<lparr>db_valid := True\<rparr>)
      })"

text \<open>The scan of \<open>Prev\<close> back to an entry of a smaller key, with whether there is one.\<close>

definition back_turn ::
    "(slice \<Rightarrow> slice \<Rightarrow> int) \<Rightarrow> 's Iterator \<Rightarrow> 's db_iter \<Rightarrow> ('s db_iter, bool \<times> 's db_iter) turn option" where
  "back_turn compare ops d = do {
     it \<leftarrow> Prev ops (iter d);
     let d = d\<lparr>iter := it\<rparr>;
     if \<not> Valid ops it then Some (Leave (False, ClearSavedValue (d\<lparr>db_valid := False, saved_key := []\<rparr>)))
     else if compare (ExtractUserKey (Key ops it)) (saved_key d) < 0 then Some (Leave (True, d))
     else Some (Continue d)
   }"

definition db_Prev :: "(slice \<Rightarrow> slice \<Rightarrow> int) \<Rightarrow> 's Iterator \<Rightarrow> 's db_iter \<Rightarrow> 's db_iter option" where
  "db_Prev compare ops d =
     (if \<not> db_valid d then None
      else if db_direction d = kForward then
        if \<not> Valid ops (iter d) then None
        else do {
          (found, d) \<leftarrow> crun (back_turn compare ops) (d\<lparr>saved_key := ExtractUserKey (Key ops (iter d))\<rparr>);
          if found then FindPrevUserEntry compare ops (d\<lparr>db_direction := kReverse\<rparr>) else Some d
        }
      else FindPrevUserEntry compare ops d)"

definition db_Seek :: "(slice \<Rightarrow> slice \<Rightarrow> int) \<Rightarrow> 's Iterator \<Rightarrow> 's db_iter \<Rightarrow> slice \<Rightarrow> 's db_iter option" where
  "db_Seek compare ops d target = do {
     let d = ClearSavedValue (d\<lparr>db_direction := kForward\<rparr>);
     let d = d\<lparr>saved_key := AppendInternalKey []
                 \<lparr>user_key = target, sequence = snapshot d, key_type = kValueTypeForSeek\<rparr>\<rparr>;
     it \<leftarrow> Seek ops (iter d) (saved_key d);
     let d = d\<lparr>iter := it\<rparr>;
     if Valid ops it then FindNextUserEntry compare ops False d else Some (d\<lparr>db_valid := False\<rparr>)
   }"

definition db_SeekToFirst :: "(slice \<Rightarrow> slice \<Rightarrow> int) \<Rightarrow> 's Iterator \<Rightarrow> 's db_iter \<Rightarrow> 's db_iter option" where
  "db_SeekToFirst compare ops d = do {
     let d = ClearSavedValue (d\<lparr>db_direction := kForward\<rparr>);
     it \<leftarrow> SeekToFirst ops (iter d);
     let d = d\<lparr>iter := it\<rparr>;
     if Valid ops it then FindNextUserEntry compare ops False d else Some (d\<lparr>db_valid := False\<rparr>)
   }"

definition db_SeekToLast :: "(slice \<Rightarrow> slice \<Rightarrow> int) \<Rightarrow> 's Iterator \<Rightarrow> 's db_iter \<Rightarrow> 's db_iter option" where
  "db_SeekToLast compare ops d = do {
     let d = ClearSavedValue (d\<lparr>db_direction := kReverse\<rparr>);
     it \<leftarrow> SeekToLast ops (iter d);
     FindPrevUserEntry compare ops (d\<lparr>iter := it\<rparr>)
   }"

definition db_ops :: "(slice \<Rightarrow> slice \<Rightarrow> int) \<Rightarrow> 's Iterator \<Rightarrow> 's db_iter Iterator" where
  "db_ops compare ops =
     \<lparr>Valid = db_valid, SeekToFirst = db_SeekToFirst compare ops, SeekToLast = db_SeekToLast compare ops,
      Seek = db_Seek compare ops, Next = db_Next compare ops, Prev = db_Prev compare ops,
      Key = db_key ops, Val = db_value ops, IterStatus = db_iter_status ops\<rparr>"

end
