(* ===== verification/LdbDBIterProps.thy ===== *)
theory LdbDBIterProps
  imports LdbDBIter
begin

text \<open>
  What the iterator of the database shows. The specification is the list of the keys and values that a
  snapshot sees, computed from the internal entries: of each user key the newest version that is not
  newer than the snapshot, unless that version is a deletion.
\<close>

section \<open>The positions with a property\<close>

definition rank :: "(nat \<Rightarrow> bool) \<Rightarrow> nat \<Rightarrow> nat" where
  "rank P i = length (filter P [0 ..< i])"

lemma rank_Suc: "rank P (Suc i) = (if P i then Suc (rank P i) else rank P i)"
  by (simp add: rank_def)

lemma rank_mono: "i \<le> j \<Longrightarrow> rank P i \<le> rank P j"
  by (rule lift_Suc_mono_le [of "rank P"]) (simp_all add: rank_Suc)

lemma rank_skip: "i \<le> j \<Longrightarrow> \<forall>k. i \<le> k \<and> k < j \<longrightarrow> \<not> P k \<Longrightarrow> rank P j = rank P i"
proof (induction j)
  case (Suc j)
  then show ?case by (cases "i = Suc j") (simp_all add: rank_Suc)
qed simp

lemma rank_less: "P i \<Longrightarrow> i < j \<Longrightarrow> rank P i < rank P j"
  using rank_mono [of "Suc i" j P] by (simp add: rank_Suc)

lemma nth_filter_rank: "P i \<Longrightarrow> i < n \<Longrightarrow> filter P [0 ..< n] ! rank P i = i"
proof (induction n)
  case (Suc n)
  then show ?case
    using rank_less [of P i n] by (cases "i = n") (auto simp: nth_append rank_def)
qed simp

lemma filter_nth_rank:
  assumes "k < rank P n"
  obtains i where "i < n" "P i" "rank P i = k" "filter P [0 ..< n] ! k = i"
proof -
  let ?i = "filter P [0 ..< n] ! k"
  have "?i \<in> set (filter P [0 ..< n])" using assms by (intro nth_mem) (simp add: rank_def)
  then have i: "?i < n" "P ?i" by auto
  have "filter P [0 ..< n] ! rank P ?i = ?i" using nth_filter_rank [of P ?i n] i by simp
  moreover have "rank P ?i < rank P n" using rank_less [of P ?i n] i by simp
  ultimately have "rank P ?i = k"
    using assms nth_eq_iff_index_eq [of "filter P [0 ..< n]"] by (simp add: rank_def)
  with i that show ?thesis by blast
qed

lemma first_from:
  fixes n :: nat
  obtains (none) "\<forall>i. p \<le> i \<and> i < n \<longrightarrow> \<not> P i"
  | (some) i where "p \<le> i" "i < n" "P i" "\<forall>k. p \<le> k \<and> k < i \<longrightarrow> \<not> P k"
proof (cases "\<exists>i. p \<le> i \<and> i < n \<and> P i")
  case True
  define i where "i = (LEAST i. p \<le> i \<and> i < n \<and> P i)"
  have i: "p \<le> i \<and> i < n \<and> P i" unfolding i_def using True by (rule LeastI_ex)
  have "\<not> (p \<le> k \<and> k < n \<and> P k)" if "k < i" for k using that unfolding i_def by (rule not_less_Least)
  with i show ?thesis by (intro some [of i]) auto
next
  case False
  then show ?thesis by (intro none) auto
qed

section \<open>The view of a snapshot\<close>

definition ukey :: "entry list \<Rightarrow> nat \<Rightarrow> slice" where
  "ukey es i = ExtractUserKey (fst (es ! i))"

definition visible :: "SequenceNumber \<Rightarrow> entry list \<Rightarrow> nat \<Rightarrow> bool" where
  "visible s es i =
     (case ParseInternalKey (fst (es ! i)) of None \<Rightarrow> False | Some k \<Rightarrow> sequence k \<le> s)"

definition is_value :: "entry list \<Rightarrow> nat \<Rightarrow> bool" where
  "is_value es i =
     (case ParseInternalKey (fst (es ! i)) of None \<Rightarrow> False | Some k \<Rightarrow> key_type k = kTypeValue)"

definition live :: "(slice \<Rightarrow> slice \<Rightarrow> int) \<Rightarrow> SequenceNumber \<Rightarrow> entry list \<Rightarrow> nat \<Rightarrow> bool" where
  "live compare s es i \<longleftrightarrow>
     visible s es i \<and> is_value es i \<and> (\<forall>j < i. visible s es j \<longrightarrow> compare (ukey es j) (ukey es i) \<noteq> 0)"

definition user_view :: "(slice \<Rightarrow> slice \<Rightarrow> int) \<Rightarrow> SequenceNumber \<Rightarrow> entry list \<Rightarrow> entry list" where
  "user_view compare s es =
     map (\<lambda>i. (ukey es i, snd (es ! i))) (filter (live compare s es) [0 ..< length es])"

lemma length_user_view: "length (user_view compare s es) = rank (live compare s es) (length es)"
  by (simp add: user_view_def rank_def)

lemma user_view_nth:
  "live compare s es i \<Longrightarrow> i < length es \<Longrightarrow> user_view compare s es ! rank (live compare s es) i = (ukey es i, snd (es ! i))"
  using nth_filter_rank [of "live compare s es" i "length es"] rank_less [of "live compare s es" i "length es"]
  by (simp add: user_view_def rank_def)

text \<open>The internal keys of the entries are well formed.\<close>

definition well_keyed :: "entry list \<Rightarrow> bool" where
  "well_keyed es \<longleftrightarrow> (\<forall>e \<in> set es. ParseInternalKey (fst e) \<noteq> None)"

lemma parse_at:
  assumes "well_keyed es" and "i < length es"
  obtains k where "ParseInternalKey (fst (es ! i)) = Some k" "user_key k = ukey es i"
    "sequence k \<le> s \<longleftrightarrow> visible s es i" "key_type k = kTypeValue \<longleftrightarrow> is_value es i"
    "sequence k = drop_bit 8 (key_number (fst (es ! i)))"
proof -
  have "es ! i \<in> set es" using assms(2) by simp
  then obtain k where k: "ParseInternalKey (fst (es ! i)) = Some k" using assms(1) unfolding well_keyed_def by blast
  then have "user_key k = ukey es i" "sequence k = drop_bit 8 (key_number (fst (es ! i)))"
    by (auto simp: ParseInternalKey_def Let_def ukey_def ExtractUserKey_def split: if_splits)
  with k show ?thesis by (intro that [of k]) (simp_all add: visible_def is_value_def)
qed

section \<open>Sampling\<close>

text \<open>The loop of \<open>ParseKey\<close> ends, since of two gaps in a row one is positive.\<close>

lemma sample_loop:
  assumes "good_seed (rnd d)"
  shows "\<exists>seed c ss. crun (sample_turn k) d = Some (d\<lparr>rnd := seed, bytes_counter := c, samples := ss\<rparr>) \<and>
    good_seed seed \<and> 0 \<le> c"
proof -
  let ?f = "\<lambda>d'. 2 * nat (- bytes_counter d') + (if fst (Uniform (2 ^ 21) (rnd d')) = 0 then 1 else 0)"
  let ?I = "\<lambda>d'. good_seed (rnd d') \<and> (\<exists>seed c ss. d' = d\<lparr>rnd := seed, bytes_counter := c, samples := ss\<rparr>)"
  have "\<exists>r. crun (sample_turn k) d = Some r \<and> (?I r \<and> 0 \<le> bytes_counter r)"
  proof (rule crun_rule [where I = ?I and f = ?f])
    have "d = d\<lparr>rnd := rnd d, bytes_counter := bytes_counter d, samples := samples d\<rparr>" by simp
    with assms show "?I d" by blast
    fix d' assume I: "?I d'"
    then obtain seed c ss where d': "d' = d\<lparr>rnd := seed, bytes_counter := c, samples := ss\<rparr>" by blast
    show "\<exists>t. sample_turn k d' = Some t \<and>
      (case t of Continue s' \<Rightarrow> ?I s' \<and> ?f s' < ?f d' | Leave r \<Rightarrow> ?I r \<and> 0 \<le> bytes_counter r)"
    proof (cases "bytes_counter d' < 0")
      case True
      have p: "2 * kReadBytesPeriod = 2 ^ 21" by (simp add: kReadBytesPeriod_def)
      let ?u = "Uniform (2 ^ 21) (rnd d')"
      let ?d = "d'\<lparr>bytes_counter := bytes_counter d' + int (fst ?u), rnd := snd ?u, samples := samples d' @ [k]\<rparr>"
      have t: "sample_turn k d' = Some (Continue ?d)"
        using True by (simp add: sample_turn_def RandomPeriod_def p case_prod_beta)
      have "?d = d\<lparr>rnd := snd ?u, bytes_counter := bytes_counter d' + int (fst ?u), samples := samples d' @ [k]\<rparr>"
        by (simp add: d')
      then have "?I ?d" using good_seed_Uniform [of "rnd d'" "2 ^ 21"] I by (simp; blast)
      moreover have "?f ?d < ?f d'"
      proof (cases "fst ?u = 0")
        case True
        then show ?thesis using not_zero_twice [of "rnd d'"] I by simp
      next
        case False
        then have "nat (- bytes_counter d' - int (fst ?u)) < nat (- bytes_counter d')" using True by linarith
        then have "Suc (2 * nat (- bytes_counter d' - int (fst ?u))) < 2 * nat (- bytes_counter d')" by linarith
        with True False show ?thesis by simp
      qed
      ultimately show ?thesis using t by simp
    next
      case False
      then show ?thesis using I by (simp add: sample_turn_def)
    qed
  qed
  then obtain seed c ss where "crun (sample_turn k) d = Some (d\<lparr>rnd := seed, bytes_counter := c, samples := ss\<rparr>)"
      "good_seed seed" "0 \<le> c"
    by auto
  then show ?thesis by blast
qed

lemma ParseKey_at:
  assumes "good_seed (rnd d)" and "ParseInternalKey (Key ops (iter d)) = Some k"
  shows "\<exists>seed c ss. ParseKey ops d = Some (Some k, d\<lparr>rnd := seed, bytes_counter := c, samples := ss\<rparr>) \<and> good_seed seed"
proof -
  let ?d = "d\<lparr>bytes_counter := bytes_counter d - int (length (Key ops (iter d)) + length (Val ops (iter d)))\<rparr>"
  obtain seed c ss where "crun (sample_turn (Key ops (iter d))) ?d = Some (?d\<lparr>rnd := seed, bytes_counter := c, samples := ss\<rparr>)"
      "good_seed seed"
    using sample_loop [of ?d "Key ops (iter d)"] assms(1) by auto
  then have "ParseKey ops d = Some (Some k, d\<lparr>rnd := seed, bytes_counter := c, samples := ss\<rparr>)"
    using assms(2) by (simp add: ParseKey_def)
  with \<open>good_seed seed\<close> show ?thesis by blast
qed

section \<open>The interface\<close>

text \<open>
  The client of an internal iterator: its entries are ordered by the comparator of internal keys over the
  user's comparator.
\<close>

locale db_client = user: comparator compare +
    base: sorted_iterator "InternalKeyCompare compare" ops at seekable
  for compare :: "slice \<Rightarrow> slice \<Rightarrow> int" and ops :: "'s Iterator" and at and seekable
begin

abbreviation (input) view_rank :: "SequenceNumber \<Rightarrow> entry list \<Rightarrow> nat \<Rightarrow> nat" where
  "view_rank s es \<equiv> rank (live compare s es)"

text \<open>
  Going forward, the internal iterator stands at the entry that is shown. Going backward, it stands
  behind it, at the last entry that the snapshot sees and whose key is smaller, if there is one.
\<close>

definition behind :: "SequenceNumber \<Rightarrow> entry list \<Rightarrow> nat \<Rightarrow> nat \<Rightarrow> bool" where
  "behind s es p i \<longleftrightarrow>
     p = length es \<and> (\<forall>k < i. \<not> visible s es k) \<or>
     p < i \<and> visible s es p \<and> compare (ukey es p) (ukey es i) < 0 \<and> (\<forall>k. p < k \<and> k < i \<longrightarrow> \<not> visible s es k)"

definition over_entries :: "'s db_iter \<Rightarrow> entry list \<Rightarrow> nat \<Rightarrow> bool" where
  "over_entries d es p \<longleftrightarrow> at (iter d) es p \<and> well_keyed es \<and> snapshot d \<le> kMaxSequenceNumber \<and>
     good_seed (rnd d) \<and> db_status d = OK"

definition shows_entry :: "'s db_iter \<Rightarrow> entry list \<Rightarrow> nat \<Rightarrow> nat \<Rightarrow> bool" where
  "shows_entry d es p i \<longleftrightarrow> i < length es \<and> live compare (snapshot d) es i \<and> db_valid d \<and>
     (if db_direction d = kForward then p = i
      else saved_key d = ukey es i \<and> saved_value d = snd (es ! i) \<and> behind (snapshot d) es p i)"

definition db_at :: "'s db_iter \<Rightarrow> entry list \<Rightarrow> nat \<Rightarrow> bool" where
  "db_at d vs q \<longleftrightarrow> (\<exists>es p. over_entries d es p \<and> vs = user_view compare (snapshot d) es \<and>
     (\<not> db_valid d \<and> q = length vs \<or> (\<exists>i. shows_entry d es p i \<and> q = view_rank (snapshot d) es i)))"

section \<open>The order of the entries\<close>

lemma ukey_le:
  assumes "at it es p" and "i \<le> j" and "j < length es"
  shows "compare (ukey es i) (ukey es j) \<le> 0"
proof (cases "i = j")
  case False
  then have "InternalKeyCompare compare (fst (es ! i)) (fst (es ! j)) < 0"
    using base.ordered_nth [OF base.at_ordered [OF assms(1)], of i j] assms(2,3) by simp
  then show ?thesis by (auto simp: InternalKeyCompare_def Let_def ukey_def split: if_splits)
qed (simp add: user.compare_self)

lemma live_distinct:
  assumes "at it es p" and "i < j" "j < length es" and "visible s es i" and "live compare s es j"
  shows "compare (ukey es i) (ukey es j) < 0"
  using ukey_le [OF assms(1), of i j] assms by (fastforce simp: live_def)

lemma ordered_view:
  assumes "at it es p"
  shows "user.ordered (map fst (user_view compare s es))"
  unfolding user.ordered_def sorted_wrt_map
proof (subst sorted_wrt_iff_nth_less, intro allI impI)
  fix a b assume "a < b" "b < length (user_view compare s es)"
  then have len: "a < rank (live compare s es) (length es)" "b < rank (live compare s es) (length es)"
    by (simp_all add: length_user_view)
  obtain i where i: "i < length es" "live compare s es i" "rank (live compare s es) i = a"
    using filter_nth_rank [OF len(1)] by metis
  obtain j where j: "j < length es" "live compare s es j" "rank (live compare s es) j = b"
    using filter_nth_rank [OF len(2)] by metis
  have "i < j" using rank_mono [of j i "live compare s es"] i(3) j(3) \<open>a < b\<close> by (cases "i < j") auto
  then have "compare (ukey es i) (ukey es j) < 0"
    by (rule live_distinct [OF assms _ j(1) _ j(2)]) (use i(2) in \<open>simp add: live_def\<close>)
  then show "compare (fst (user_view compare s es ! a)) (fst (user_view compare s es ! b)) < 0"
    using user_view_nth [OF i(2,1)] user_view_nth [OF j(2,1)] i(3) j(3) by simp
qed

section \<open>Forward\<close>

text \<open>
  What the loop of \<open>FindNextUserEntry\<close> keeps: an entry that is not hidden by the key to skip has no
  visible entry of its key behind it, and no visible entry to come is below the key to skip.
\<close>

definition hidden :: "bool \<Rightarrow> slice \<Rightarrow> entry list \<Rightarrow> nat \<Rightarrow> bool" where
  "hidden skipping key es i \<longleftrightarrow> skipping \<and> compare (ukey es i) key \<le> 0"

definition next_ready :: "SequenceNumber \<Rightarrow> bool \<Rightarrow> slice \<Rightarrow> entry list \<Rightarrow> nat \<Rightarrow> bool" where
  "next_ready s skipping key es p \<longleftrightarrow>
     (\<forall>i. p \<le> i \<and> i < length es \<and> visible s es i \<longrightarrow>
        (hidden skipping key es i \<or> (\<forall>j < p. visible s es j \<longrightarrow> compare (ukey es j) (ukey es i) \<noteq> 0)) \<and>
        (skipping \<longrightarrow> compare key (ukey es i) \<le> 0))"

lemma next_readyD:
  assumes "next_ready s skipping key es p" and "p \<le> i" "i < length es" "visible s es i"
  shows "\<not> hidden skipping key es i \<Longrightarrow> j < p \<Longrightarrow> visible s es j \<Longrightarrow> compare (ukey es j) (ukey es i) \<noteq> 0"
    and "skipping \<Longrightarrow> compare key (ukey es i) \<le> 0"
  using assms by (auto simp: next_ready_def)

lemma next_ready_step:
  assumes at: "at it es p0" and ready: "next_ready s skipping key es p" and p: "p < length es"
    and no: "\<not> (visible s es p \<and> is_value es p \<and> \<not> hidden skipping key es p)"
    and new: "(skipping', key') = (if visible s es p \<and> \<not> is_value es p then (True, ukey es p) else (skipping, key))"
  shows "next_ready s skipping' key' es (Suc p)"
    and "Suc p \<le> i \<Longrightarrow> i < length es \<Longrightarrow> live compare s es i \<Longrightarrow> hidden skipping' key' es i \<longleftrightarrow> hidden skipping key es i"
    and "live compare s es p \<Longrightarrow> hidden skipping key es p"
proof -
  show "live compare s es p \<Longrightarrow> hidden skipping key es p" using no by (auto simp: live_def)
  have del: "skipping' \<and> key' = ukey es p" if "visible s es p" "\<not> is_value es p" using new that by simp
  have keep: "skipping' = skipping \<and> key' = key" if "\<not> (visible s es p \<and> \<not> is_value es p)" using new that by simp
  note le = ukey_le [OF at]
  show "next_ready s skipping' key' es (Suc p)"
    unfolding next_ready_def
  proof (intro allI impI conjI)
    fix i assume i: "Suc p \<le> i \<and> i < length es \<and> visible s es i"
    show "hidden skipping' key' es i \<or> (\<forall>j < Suc p. visible s es j \<longrightarrow> compare (ukey es j) (ukey es i) \<noteq> 0)"
    proof (rule disjCI)
      assume n: "\<not> (\<forall>j<Suc p. visible s es j \<longrightarrow> compare (ukey es j) (ukey es i) \<noteq> 0)"
      then obtain j where j: "j < Suc p" "visible s es j" "compare (ukey es j) (ukey es i) = 0" by blast
      then have ij: "compare (ukey es i) (ukey es j) \<le> 0" using user.compare_swap_0 [of "ukey es j" "ukey es i"] by simp
      show "hidden skipping' key' es i"
      proof (cases "visible s es p \<and> \<not> is_value es p")
        case True
        have "compare (ukey es j) (ukey es p) \<le> 0" using le [of j p] j(1) p by simp
        then show ?thesis using del True user.compare_trans [OF ij] by (simp add: hidden_def)
      next
        case False
        note k = keep [OF False]
        show ?thesis
        proof (cases "j = p")
          case True
          then have "hidden skipping key es p" using no False j(2) by auto
          then show ?thesis using k True user.compare_trans [OF ij] by (simp add: hidden_def)
        next
          case False
          then show ?thesis using next_readyD(1) [OF ready, of i j] i j k by auto
        qed
      qed
    qed
    show "compare key' (ukey es i) \<le> 0" if "skipping'"
      using that del keep le [of p i] next_readyD(2) [OF ready, of i] i by (cases "visible s es p \<and> \<not> is_value es p") auto
  qed
  assume i: "Suc p \<le> i" "i < length es" and live: "live compare s es i"
  show "hidden skipping' key' es i \<longleftrightarrow> hidden skipping key es i"
  proof (cases "visible s es p \<and> \<not> is_value es p")
    case True
    have less: "compare (ukey es p) (ukey es i) < 0" by (rule live_distinct [OF at _ i(2) _ live]) (use True i in auto)
    then have "\<not> hidden skipping' key' es i"
      using del True user.compare_swap [of "ukey es p" "ukey es i"] by (simp add: hidden_def)
    moreover have "\<not> hidden skipping key es i"
    proof
      assume h: "hidden skipping key es i"
      then have "compare key (ukey es p) \<le> 0" using next_readyD(2) [OF ready, of p] p True by (simp add: hidden_def)
      with h have "compare (ukey es i) (ukey es p) \<le> 0" using user.compare_trans by (auto simp: hidden_def)
      then show False using less user.compare_swap [of "ukey es p" "ukey es i"] by simp
    qed
    ultimately show ?thesis by simp
  qed (use keep in simp)
qed

lemma over_entries_eqs:
  assumes "over_entries d es p"
  shows "at (iter d) es p" "well_keyed es" "snapshot d \<le> kMaxSequenceNumber" "good_seed (rnd d)" "db_status d = OK"
  using assms by (simp_all add: over_entries_def)

text \<open>One turn: the parsed key of the current entry, and the rest of the turn after it.\<close>

lemma ParseKey_over:
  assumes "over_entries d es p" and "p < length es"
  obtains k d1 where "ParseKey ops d = Some (Some k, d1)" "over_entries d1 es p"
    "iter d1 = iter d" "snapshot d1 = snapshot d" "saved_key d1 = saved_key d" "saved_value d1 = saved_value d"
    "db_direction d1 = db_direction d" "db_valid d1 = db_valid d"
    "seen_key d1 (Some k) = (if visible (snapshot d) es p then Some k else None)"
    "user_key k = ukey es p" "key_type k = (if is_value es p then kTypeValue else kTypeDeletion)"
proof -
  note o = over_entries_eqs [OF assms(1)]
  obtain k where k: "ParseInternalKey (fst (es ! p)) = Some k" "user_key k = ukey es p"
      "sequence k \<le> snapshot d \<longleftrightarrow> visible (snapshot d) es p" "key_type k = kTypeValue \<longleftrightarrow> is_value es p"
    using parse_at [OF o(2) assms(2)] by metis
  have key: "Key ops (iter d) = fst (es ! p)" using base.key_at [OF o(1) assms(2)] .
  obtain seed c ss where pk: "ParseKey ops d = Some (Some k, d\<lparr>rnd := seed, bytes_counter := c, samples := ss\<rparr>)" "good_seed seed"
    using ParseKey_at [OF o(4)] k(1) key by metis
  show ?thesis
  proof (rule that [OF pk(1)])
    show "key_type k = (if is_value es p then kTypeValue else kTypeDeletion)" using k(4) by (cases "key_type k") auto
  qed (use o pk(2) k in \<open>auto simp: over_entries_def seen_key_def\<close>)
qed

lemma next_loop:
  "over_entries d es p \<Longrightarrow> p < length es \<Longrightarrow> db_direction d = kForward \<Longrightarrow> next_ready (snapshot d) skipping (saved_key d) es p \<Longrightarrow>
    \<exists>d' p'. crun (next_turn compare ops) (skipping, d) = Some d' \<and> snapshot d' = snapshot d \<and> over_entries d' es p' \<and>
      (\<not> db_valid d' \<and>
         (\<forall>i. p \<le> i \<and> i < length es \<and> live compare (snapshot d) es i \<longrightarrow> hidden skipping (saved_key d) es i) \<or>
       p \<le> p' \<and> shows_entry d' es p' p' \<and> \<not> hidden skipping (saved_key d) es p' \<and>
         (\<forall>i. p \<le> i \<and> i < p' \<and> live compare (snapshot d) es i \<longrightarrow> hidden skipping (saved_key d) es i))"
proof (induction "length es - p" arbitrary: p d skipping)
  case (Suc n)
  note o = over_entries_eqs [OF Suc.prems(1)] and p = Suc.prems(2)
  obtain k d1 where k: "ParseKey ops d = Some (Some k, d1)" "over_entries d1 es p"
    "iter d1 = iter d" "snapshot d1 = snapshot d" "saved_key d1 = saved_key d" "saved_value d1 = saved_value d"
    "db_direction d1 = db_direction d" "db_valid d1 = db_valid d"
    "seen_key d1 (Some k) = (if visible (snapshot d) es p then Some k else None)"
    "user_key k = ukey es p" "key_type k = (if is_value es p then kTypeValue else kTypeDeletion)"
    by (rule ParseKey_over [OF Suc.prems(1) p])
  let ?yield = "visible (snapshot d) es p \<and> is_value es p \<and> \<not> hidden skipping (saved_key d) es p"
  show ?case
  proof (cases ?yield)
    case True
    have "next_turn compare ops (skipping, d) = Some (Leave (d1\<lparr>db_valid := True, saved_key := []\<rparr>))"
      using True k by (simp add: next_turn_def hidden_def)
    moreover have "live compare (snapshot d) es p"
      using True next_readyD(1) [OF Suc.prems(4), of p] p by (auto simp: live_def)
    ultimately show ?thesis
      using True k p Suc.prems(3) crun_Leave [of "next_turn compare ops"]
      by (intro exI [of _ "d1\<lparr>db_valid := True, saved_key := []\<rparr>"] exI [of _ p])
        (auto simp: shows_entry_def over_entries_def)
  next
    case False
    let ?del = "visible (snapshot d) es p \<and> \<not> is_value es p"
    define skipping' where "skipping' = (if ?del then True else skipping)"
    define d2 where "d2 = (if ?del then d1\<lparr>saved_key := ukey es p\<rparr> else d1)"
    have new: "(skipping', saved_key d2) = (if ?del then (True, ukey es p) else (skipping, saved_key d))"
      using k by (simp add: skipping'_def d2_def)
    have d2: "iter d2 = iter d" "snapshot d2 = snapshot d" "db_direction d2 = kForward" "over_entries (d2\<lparr>iter := it\<rparr>) es q"
      if "at it es q" for it q
      using k Suc.prems(3) that by (auto simp: d2_def over_entries_def)
    note step = next_ready_step [OF o(1) Suc.prems(4) p False new]
    obtain it where it: "Next ops (iter d) = Some it" "at it es (Suc p)" using base.next_at [OF o(1) p] by auto
    have turn: "next_turn compare ops (skipping, d) =
        (if Suc p < length es then Some (Continue (skipping', d2\<lparr>iter := it\<rparr>))
         else Some (Leave (d2\<lparr>iter := it, saved_key := [], db_valid := False\<rparr>)))"
      using False k it base.valid_at [OF it(2)] by (auto simp: next_turn_def hidden_def skipping'_def d2_def)
    show ?thesis
    proof (cases "Suc p < length es")
      case True
      have "n = length es - Suc p" using Suc.hyps(2) by simp
      from Suc.hyps(1) [OF this d2(4) [OF it(2)] True, of skipping'] d2 [OF it(2)] step(1) obtain d' p' where d':
        "crun (next_turn compare ops) (skipping', d2\<lparr>iter := it\<rparr>) = Some d'" "snapshot d' = snapshot d" "over_entries d' es p'"
        "\<not> db_valid d' \<and>
           (\<forall>i. Suc p \<le> i \<and> i < length es \<and> live compare (snapshot d) es i \<longrightarrow> hidden skipping' (saved_key d2) es i) \<or>
         Suc p \<le> p' \<and> shows_entry d' es p' p' \<and> \<not> hidden skipping' (saved_key d2) es p' \<and>
           (\<forall>i. Suc p \<le> i \<and> i < p' \<and> live compare (snapshot d) es i \<longrightarrow> hidden skipping' (saved_key d2) es i)"
        by auto
      have low: "hidden skipping (saved_key d) es i" if "p \<le> i" "i < length es" "live compare (snapshot d) es i"
          "Suc p \<le> i \<longrightarrow> hidden skipping' (saved_key d2) es i" for i
        using that step(2) [of i] step(3) by (cases "i = p") auto
      from d'(4) show ?thesis
      proof
        assume "\<not> db_valid d' \<and>
           (\<forall>i. Suc p \<le> i \<and> i < length es \<and> live compare (snapshot d) es i \<longrightarrow> hidden skipping' (saved_key d2) es i)"
        with d' low show ?thesis using turn True by (auto simp: crun_Continue)
      next
        assume r: "Suc p \<le> p' \<and> shows_entry d' es p' p' \<and> \<not> hidden skipping' (saved_key d2) es p' \<and>
           (\<forall>i. Suc p \<le> i \<and> i < p' \<and> live compare (snapshot d) es i \<longrightarrow> hidden skipping' (saved_key d2) es i)"
        then have "p' < length es" "live compare (snapshot d) es p'" using d'(2) by (simp_all add: shows_entry_def)
        with r have "\<not> hidden skipping (saved_key d) es p'" using step(2) [of p'] by simp
        with r d' low \<open>p' < length es\<close> show ?thesis using turn True
          by (intro exI [of _ d'] exI [of _ p']) (auto simp: crun_Continue)
      qed
    next
      case last: False
      with p have "Suc p = length es" by simp
      then have "\<forall>i. p \<le> i \<and> i < length es \<and> live compare (snapshot d) es i \<longrightarrow> hidden skipping (saved_key d) es i"
        using step(3) by (metis le_antisym less_Suc_eq_le)
      then show ?thesis using turn last d2 [OF it(2)] crun_Leave [of "next_turn compare ops"]
        by (intro exI [of _ "d2\<lparr>iter := it, saved_key := [], db_valid := False\<rparr>"] exI [of _ "Suc p"])
          (auto simp: over_entries_def)
    qed
  qed
qed simp

section \<open>Backward\<close>

text \<open>
  What the loop of \<open>FindPrevUserEntry\<close> keeps, when it has processed the entries from \<open>lo\<close> up to \<open>b\<close>: either
  there is no live one among them, or the saved one is the last that can be live.
\<close>

definition pending :: "SequenceNumber \<Rightarrow> entry list \<Rightarrow> ValueType \<Rightarrow> slice \<Rightarrow> slice \<Rightarrow> nat \<Rightarrow> nat \<Rightarrow> bool" where
  "pending s es value_type key val lo b \<longleftrightarrow>
     (if value_type = kTypeDeletion then \<forall>i. lo \<le> i \<and> i < b \<longrightarrow> \<not> live compare s es i
      else \<exists>m. lo \<le> m \<and> m < b \<and> visible s es m \<and> is_value es m \<and> key = ukey es m \<and> val = snd (es ! m) \<and>
        (\<forall>k. lo \<le> k \<and> k < m \<longrightarrow> \<not> visible s es k) \<and> (\<forall>i. m < i \<and> i < b \<longrightarrow> \<not> live compare s es i))"

definition found_before :: "SequenceNumber \<Rightarrow> entry list \<Rightarrow> slice \<Rightarrow> slice \<Rightarrow> nat \<Rightarrow> nat \<Rightarrow> nat \<Rightarrow> bool" where
  "found_before s es key val p b m \<longleftrightarrow> m < b \<and> live compare s es m \<and> key = ukey es m \<and> val = snd (es ! m) \<and>
     behind s es p m \<and> (\<forall>i. m < i \<and> i < b \<longrightarrow> \<not> live compare s es i)"

lemma pending_stop:
  assumes at: "at it es p0" and pend: "pending s es value_type key val (Suc p) b" and b: "b \<le> length es"
    and vis: "visible s es p" and vt: "value_type \<noteq> kTypeDeletion" and less: "compare (ukey es p) key < 0"
  shows "\<exists>m. found_before s es key val p b m"
proof -
  from pend vt obtain m where m: "Suc p \<le> m" "m < b" "visible s es m" "is_value es m" "key = ukey es m" "val = snd (es ! m)"
    "\<forall>k. Suc p \<le> k \<and> k < m \<longrightarrow> \<not> visible s es k" "\<forall>i. m < i \<and> i < b \<longrightarrow> \<not> live compare s es i"
    by (auto simp: pending_def)
  have "compare (ukey es j) (ukey es m) \<noteq> 0" if j: "j < m" "visible s es j" for j
  proof -
    have "j \<le> p" using m(7) j by (metis not_less_eq_eq)
    then have "compare (ukey es j) (ukey es p) \<le> 0" using ukey_le [OF at, of j p] m b by simp
    then show ?thesis using less m(5) user.compare_less_trans [of "ukey es j" "ukey es p" "ukey es m"] by simp
  qed
  then have "live compare s es m" using m by (simp add: live_def)
  with m vis less show ?thesis unfolding found_before_def behind_def by (intro exI [of _ m]) auto
qed

lemma pending_step:
  assumes at: "at it es p0" and pend: "pending s es value_type key val (Suc p) b" and b: "p < b" "b \<le> length es"
    and go: "\<not> (visible s es p \<and> value_type \<noteq> kTypeDeletion \<and> compare (ukey es p) key < 0)"
    and new: "(value_type', key', val') =
        (if \<not> visible s es p then (value_type, key, val)
         else if is_value es p then (kTypeValue, ukey es p, snd (es ! p)) else (kTypeDeletion, key0, val0))"
  shows "pending s es value_type' key' val' p b"
proof (cases "visible s es p")
  case False
  then have "\<not> live compare s es p" by (simp add: live_def)
  have above: "Suc p \<le> i \<or> i = p" if "p \<le> i" for i using that by auto
  show ?thesis
  proof (cases "value_type = kTypeDeletion")
    case True
    then have "\<forall>i. Suc p \<le> i \<and> i < b \<longrightarrow> \<not> live compare s es i" using pend by (simp add: pending_def)
    then have "\<forall>i. p \<le> i \<and> i < b \<longrightarrow> \<not> live compare s es i" using above \<open>\<not> live compare s es p\<close> by blast
    then show ?thesis using True new False by (simp add: pending_def)
  next
    case vt: False
    with pend obtain m where m: "Suc p \<le> m" "m < b" "visible s es m" "is_value es m" "key = ukey es m" "val = snd (es ! m)"
      "\<forall>k. Suc p \<le> k \<and> k < m \<longrightarrow> \<not> visible s es k" "\<forall>i. m < i \<and> i < b \<longrightarrow> \<not> live compare s es i"
      by (auto simp: pending_def)
    have "\<forall>k. p \<le> k \<and> k < m \<longrightarrow> \<not> visible s es k" using m(7) False above by blast
    then show ?thesis using m new False vt unfolding pending_def by (auto intro!: exI [of _ m])
  qed
next
  case True
  have dead: "\<not> live compare s es i" if i: "p < i" "i < b" for i
  proof (cases "value_type = kTypeDeletion")
    case True
    then show ?thesis using pend i by (simp add: pending_def)
  next
    case False
    with pend obtain m where m: "Suc p \<le> m" "m < b" "key = ukey es m"
      "\<forall>k. Suc p \<le> k \<and> k < m \<longrightarrow> \<not> visible s es k" "\<forall>i. m < i \<and> i < b \<longrightarrow> \<not> live compare s es i"
      by (auto simp: pending_def)
    have "\<not> compare (ukey es p) (ukey es m) < 0" using go True False m(3) by simp
    then have "\<not> live compare s es m" using live_distinct [OF at, of p m s] True m b by auto
    moreover have "\<not> live compare s es i" if "i < m" using m(4) i that by (auto simp: live_def)
    ultimately show ?thesis using m(5) i(2) linorder_neqE_nat by metis
  qed
  show ?thesis
  proof (cases "is_value es p")
    case True
    then show ?thesis using new \<open>visible s es p\<close> dead b(1) by (auto simp: pending_def)
  next
    case False
    then have "\<not> live compare s es p" by (simp add: live_def)
    then show ?thesis using new True False dead by (auto simp: pending_def le_less)
  qed
qed

lemma pending_out:
  assumes "pending s es value_type key val 0 b" and "value_type \<noteq> kTypeDeletion"
  shows "\<exists>m. found_before s es key val (length es) b m"
proof -
  from assms obtain m where m: "m < b" "visible s es m" "is_value es m" "key = ukey es m" "val = snd (es ! m)"
    "\<forall>k < m. \<not> visible s es k" "\<forall>i. m < i \<and> i < b \<longrightarrow> \<not> live compare s es i"
    by (auto simp: pending_def)
  then have "live compare s es m" by (simp add: live_def)
  with m show ?thesis unfolding found_before_def behind_def by blast
qed

lemma prev_one:
  assumes over: "over_entries d es p" and b: "p < b" "b \<le> length es"
    and pend: "pending (snapshot d) es value_type (saved_key d) (saved_value d) (Suc p) b"
  shows "(\<exists>d' m. prev_turn compare ops (value_type, d) = Some (Leave (value_type, d')) \<and> over_entries d' es p \<and>
            snapshot d' = snapshot d \<and> db_direction d' = db_direction d \<and> value_type \<noteq> kTypeDeletion \<and>
            found_before (snapshot d) es (saved_key d') (saved_value d') p b m) \<or>
         (\<exists>value_type' d'. prev_turn compare ops (value_type, d) =
              Some (if p = 0 then Leave (value_type', d') else Continue (value_type', d')) \<and>
            over_entries d' es (if p = 0 then length es else p - 1) \<and>
            snapshot d' = snapshot d \<and> db_direction d' = db_direction d \<and>
            pending (snapshot d) es value_type' (saved_key d') (saved_value d') p b)"
proof -
  note o = over_entries_eqs [OF over]
  have p: "p < length es" using b by simp
  obtain k d1 where k: "ParseKey ops d = Some (Some k, d1)" "over_entries d1 es p"
    "iter d1 = iter d" "snapshot d1 = snapshot d" "saved_key d1 = saved_key d" "saved_value d1 = saved_value d"
    "db_direction d1 = db_direction d" "db_valid d1 = db_valid d"
    "seen_key d1 (Some k) = (if visible (snapshot d) es p then Some k else None)"
    "user_key k = ukey es p" "key_type k = (if is_value es p then kTypeValue else kTypeDeletion)"
    by (rule ParseKey_over [OF over p])
  let ?stop = "visible (snapshot d) es p \<and> value_type \<noteq> kTypeDeletion \<and> compare (ukey es p) (saved_key d) < 0"
  show ?thesis
  proof (cases ?stop)
    case True
    then have "prev_turn compare ops (value_type, d) = Some (Leave (value_type, d1))"
      using k by (simp add: prev_turn_def)
    moreover obtain m where "found_before (snapshot d) es (saved_key d) (saved_value d) p b m"
      using pending_stop [OF o(1) pend b(2)] True by blast
    ultimately show ?thesis using k True by auto
  next
    case False
    define d2 where "d2 = (if \<not> visible (snapshot d) es p then d1
        else if is_value es p then d1\<lparr>saved_key := ukey es p, saved_value := snd (es ! p)\<rparr>
        else d1\<lparr>saved_key := [], saved_value := []\<rparr>)"
    define vt where "vt = (if \<not> visible (snapshot d) es p then value_type else if is_value es p then kTypeValue else kTypeDeletion)"
    have d2: "iter d2 = iter d" "snapshot d2 = snapshot d" "db_direction d2 = db_direction d"
      using k by (auto simp: d2_def)
    have over2: "over_entries (d2\<lparr>iter := it\<rparr>) es q" if "at it es q" for it q
      using k(2) that by (auto simp: d2_def over_entries_def)
    have pend2: "pending (snapshot d) es vt (saved_key d2) (saved_value d2) p b"
      by (rule pending_step [OF o(1) pend b False, where ?key0.0 = "[]" and ?val0.0 = "[]"])
        (use k in \<open>auto simp: vt_def d2_def\<close>)
    obtain it where it: "Prev ops (iter d) = Some it" "at it es (if p = 0 then length es else p - 1)"
      using base.prev_at [OF o(1) p] by blast
    have key: "ExtractUserKey (Key ops (iter d)) = ukey es p" "Val ops (iter d) = snd (es ! p)"
      using base.key_at [OF o(1) p] base.val_at [OF o(1) p] by (simp_all add: ukey_def)
    have "Valid ops it \<longleftrightarrow> p \<noteq> 0" using base.valid_at [OF it(2)] p by auto
    then have "prev_turn compare ops (value_type, d) =
        Some (if p = 0 then Leave (vt, d2\<lparr>iter := it\<rparr>) else Continue (vt, d2\<lparr>iter := it\<rparr>))"
      using False k it(1) key by (auto simp: prev_turn_def vt_def d2_def ClearSavedValue_def)
    with over2 [OF it(2)] pend2 d2 show ?thesis by auto
  qed
qed

lemma prev_loop:
  "over_entries d es p \<Longrightarrow> p < b \<Longrightarrow> b \<le> length es \<Longrightarrow>
    pending (snapshot d) es value_type (saved_key d) (saved_value d) (Suc p) b \<Longrightarrow>
    \<exists>value_type' d' p'. crun (prev_turn compare ops) (value_type, d) = Some (value_type', d') \<and> over_entries d' es p' \<and>
      snapshot d' = snapshot d \<and> db_direction d' = db_direction d \<and>
      (if value_type' = kTypeDeletion then \<forall>i < b. \<not> live compare (snapshot d) es i
       else \<exists>m. found_before (snapshot d) es (saved_key d') (saved_value d') p' b m)"
proof (induction p arbitrary: d value_type)
  case 0
  from prev_one [OF 0] show ?case
  proof (elim disjE exE conjE)
    fix d' m assume "prev_turn compare ops (value_type, d) = Some (Leave (value_type, d'))" "over_entries d' es 0"
      "snapshot d' = snapshot d" "db_direction d' = db_direction d" "value_type \<noteq> kTypeDeletion"
      "found_before (snapshot d) es (saved_key d') (saved_value d') 0 b m"
    then show ?thesis using crun_Leave [of "prev_turn compare ops"]
      by (intro exI [of _ value_type] exI [of _ d'] exI [of _ 0]) auto
  next
    fix vt d' assume r: "prev_turn compare ops (value_type, d) = Some (if 0 = (0::nat) then Leave (vt, d') else Continue (vt, d'))"
      "over_entries d' es (if 0 = (0::nat) then length es else 0 - 1)" "snapshot d' = snapshot d" "db_direction d' = db_direction d"
      "pending (snapshot d) es vt (saved_key d') (saved_value d') 0 b"
    have "if vt = kTypeDeletion then \<forall>i < b. \<not> live compare (snapshot d) es i
        else \<exists>m. found_before (snapshot d) es (saved_key d') (saved_value d') (length es) b m"
      using pending_out [OF r(5)] r(5) by (simp add: pending_def)
    then show ?thesis using r crun_Leave [of "prev_turn compare ops"]
      by (intro exI [of _ vt] exI [of _ d'] exI [of _ "length es"]) simp
  qed
next
  case (Suc p)
  from prev_one [OF Suc.prems] show ?case
  proof (elim disjE exE conjE)
    fix d' m assume "prev_turn compare ops (value_type, d) = Some (Leave (value_type, d'))" "over_entries d' es (Suc p)"
      "snapshot d' = snapshot d" "db_direction d' = db_direction d" "value_type \<noteq> kTypeDeletion"
      "found_before (snapshot d) es (saved_key d') (saved_value d') (Suc p) b m"
    then show ?thesis using crun_Leave [of "prev_turn compare ops"]
      by (intro exI [of _ value_type] exI [of _ d'] exI [of _ "Suc p"]) auto
  next
    fix vt d' assume r: "prev_turn compare ops (value_type, d) = Some (if Suc p = 0 then Leave (vt, d') else Continue (vt, d'))"
      "over_entries d' es (if Suc p = 0 then length es else Suc p - 1)" "snapshot d' = snapshot d" "db_direction d' = db_direction d"
      "pending (snapshot d) es vt (saved_key d') (saved_value d') (Suc p) b"
    then have "crun (prev_turn compare ops) (value_type, d) = crun (prev_turn compare ops) (vt, d')"
      using crun_Continue [of "prev_turn compare ops"] by simp
    moreover have "over_entries d' es p" "p < b" using r(2) Suc.prems(2) by simp_all
    note Suc.IH [OF this Suc.prems(3), of vt, unfolded r(3,4), OF r(5)]
    ultimately show ?thesis by (simp only:)
  qed
qed

lemma FindPrev_at:
  assumes over: "over_entries d es p" and dir: "db_direction d = kReverse"
    and b: "if p = length es then \<forall>i < b. \<not> live compare (snapshot d) es i else b = Suc p"
  shows "\<exists>d' p'. FindPrevUserEntry compare ops d = Some d' \<and> over_entries d' es p' \<and> snapshot d' = snapshot d \<and>
    (\<not> db_valid d' \<and> (\<forall>i < b. \<not> live compare (snapshot d) es i) \<or>
     (\<exists>m < b. shows_entry d' es p' m \<and> (\<forall>i. m < i \<and> i < b \<longrightarrow> \<not> live compare (snapshot d) es i)))"
proof -
  note o = over_entries_eqs [OF over]
  obtain vt d1 p1 where r: "(if Valid ops (iter d) then crun (prev_turn compare ops) (kTypeDeletion, d) else Some (kTypeDeletion, d))
      = Some (vt, d1)" "over_entries d1 es p1" "snapshot d1 = snapshot d" "db_direction d1 = kReverse"
    "if vt = kTypeDeletion then \<forall>i < b. \<not> live compare (snapshot d) es i
     else \<exists>m. found_before (snapshot d) es (saved_key d1) (saved_value d1) p1 b m"
  proof (cases "p = length es")
    case True
    then show ?thesis using that [of kTypeDeletion d p] b over dir base.valid_at [OF o(1)] by simp
  next
    case False
    then have p: "p < length es" using base.at_bound [OF o(1)] by simp
    then have "b = Suc p" using b by simp
    then have "pending (snapshot d) es kTypeDeletion (saved_key d) (saved_value d) (Suc p) b" by (auto simp: pending_def)
    from prev_loop [OF over _ _ this] \<open>b = Suc p\<close> p dir base.valid_at [OF o(1)] show ?thesis using that by auto
  qed
  show ?thesis
  proof (cases "vt = kTypeDeletion")
    case True
    let ?d = "(ClearSavedValue (d1\<lparr>db_valid := False, saved_key := []\<rparr>))\<lparr>db_direction := kForward\<rparr>"
    have "FindPrevUserEntry compare ops d = Some ?d" using r(1) dir True by (simp add: FindPrevUserEntry_def)
    moreover have "over_entries ?d es p1" "snapshot ?d = snapshot d" "\<not> db_valid ?d"
      using r(2,3) by (simp_all add: over_entries_def ClearSavedValue_def)
    ultimately show ?thesis using r(5) True by auto
  next
    case False
    let ?d = "d1\<lparr>db_valid := True\<rparr>"
    have "FindPrevUserEntry compare ops d = Some ?d" using r(1) dir False by (simp add: FindPrevUserEntry_def)
    moreover have "over_entries ?d es p1" using r(2) by (simp add: over_entries_def)
    moreover obtain m where m: "found_before (snapshot d) es (saved_key d1) (saved_value d1) p1 b m" using r(5) False by auto
    then have "m < length es"
      using b base.at_bound [OF o(1)] by (auto simp: found_before_def split: if_splits)
    then have "shows_entry ?d es p1 m" using m r(3,4) by (simp add: found_before_def shows_entry_def)
    ultimately show ?thesis using m r(3) unfolding found_before_def
      by (intro exI [of _ ?d] exI [of _ p1]) auto
  qed
qed

text \<open>The scan back to a smaller key.\<close>

lemma back_loop:
  "over_entries d es p \<Longrightarrow> p < length es \<Longrightarrow>
    \<exists>found d' p'. crun (back_turn compare ops) d = Some (found, d') \<and> over_entries d' es p' \<and>
      snapshot d' = snapshot d \<and> db_direction d' = db_direction d \<and>
      (if found then p' < p \<and> compare (ukey es p') (saved_key d) < 0 \<and>
           (\<forall>k. p' < k \<and> k < p \<longrightarrow> \<not> compare (ukey es k) (saved_key d) < 0)
       else \<not> db_valid d' \<and> (\<forall>k < p. \<not> compare (ukey es k) (saved_key d) < 0))"
proof (induction p arbitrary: d)
  case 0
  note o = over_entries_eqs [OF 0(1)]
  obtain it where it: "Prev ops (iter d) = Some it" "at it es (length es)" using base.prev_at [OF o(1) 0(2)] by auto
  let ?d = "ClearSavedValue (d\<lparr>iter := it, db_valid := False, saved_key := []\<rparr>)"
  have "back_turn compare ops d = Some (Leave (False, ?d))"
    using it base.valid_at [OF it(2)] by (simp add: back_turn_def ClearSavedValue_def)
  moreover have "over_entries ?d es (length es)" using 0(1) it(2) by (simp add: over_entries_def ClearSavedValue_def)
  ultimately show ?case using crun_Leave [of "back_turn compare ops"]
    by (intro exI [of _ False] exI [of _ ?d] exI [of _ "length es"]) (simp add: ClearSavedValue_def)
next
  case (Suc p)
  note o = over_entries_eqs [OF Suc.prems(1)]
  obtain it where it: "Prev ops (iter d) = Some it" "at it es p" using base.prev_at [OF o(1) Suc.prems(2)] by auto
  let ?d = "d\<lparr>iter := it\<rparr>"
  have over: "over_entries ?d es p" using Suc.prems(1) it(2) by (simp add: over_entries_def)
  have p: "p < length es" using Suc.prems(2) by simp
  have turn: "back_turn compare ops d =
      Some (if compare (ukey es p) (saved_key d) < 0 then Leave (True, ?d) else Continue ?d)"
    using it p base.valid_at [OF it(2)] base.key_at [OF it(2) p] by (simp add: back_turn_def ukey_def)
  show ?case
  proof (cases "compare (ukey es p) (saved_key d) < 0")
    case True
    then show ?thesis using turn over crun_Leave [of "back_turn compare ops"]
      by (intro exI [of _ True] exI [of _ ?d] exI [of _ p]) auto
  next
    case False
    then have "crun (back_turn compare ops) d = crun (back_turn compare ops) ?d"
      using turn by (simp add: crun_Continue)
    moreover have same: "saved_key ?d = saved_key d" "snapshot ?d = snapshot d" "db_direction ?d = db_direction d" by simp_all
    obtain found d' p' where r: "crun (back_turn compare ops) ?d = Some (found, d')" "over_entries d' es p'"
      "snapshot d' = snapshot d" "db_direction d' = db_direction d"
      "if found then p' < p \<and> compare (ukey es p') (saved_key d) < 0 \<and>
           (\<forall>k. p' < k \<and> k < p \<longrightarrow> \<not> compare (ukey es k) (saved_key d) < 0)
       else \<not> db_valid d' \<and> (\<forall>k < p. \<not> compare (ukey es k) (saved_key d) < 0)"
      using Suc.IH [OF over p, unfolded same] by blast
    ultimately show ?thesis using False
      by (intro exI [of _ found] exI [of _ d'] exI [of _ p']) (auto simp: less_Suc_eq)
  qed
qed

section \<open>The operations\<close>

lemma db_atI:
  assumes "over_entries d es p" and "vs = user_view compare (snapshot d) es"
    and "\<not> db_valid d \<and> q = length vs \<or> (\<exists>i. shows_entry d es p i \<and> q = view_rank (snapshot d) es i)"
  shows "db_at d vs q"
  using assms unfolding db_at_def by blast

lemma rank_end: "\<forall>k. i \<le> k \<and> k < length es \<longrightarrow> \<not> live compare s es k \<Longrightarrow> i \<le> length es \<Longrightarrow>
    view_rank s es i = length (user_view compare s es)"
  using rank_skip [of i "length es" "live compare s es"] by (simp add: length_user_view)

text \<open>\<open>FindNextUserEntry\<close> from an entry on: the first live one that is not hidden.\<close>

lemma FindNext_at:
  assumes over: "over_entries d es p" and p: "p < length es" and dir: "db_direction d = kForward"
    and ready: "next_ready (snapshot d) skipping (saved_key d) es p"
    and lo: "lo \<le> length es"
      "\<forall>i. i < length es \<and> live compare (snapshot d) es i \<longrightarrow> lo \<le> i \<longleftrightarrow> p \<le> i \<and> \<not> hidden skipping (saved_key d) es i"
  shows "\<exists>d'. FindNextUserEntry compare ops skipping d = Some d' \<and>
    db_at d' (user_view compare (snapshot d) es) (view_rank (snapshot d) es lo)"
proof -
  note o = over_entries_eqs [OF over]
  have valid: "Valid ops (iter d)" using base.valid_at [OF o(1)] p by simp
  from next_loop [OF over p dir ready] obtain d' p' where r: "crun (next_turn compare ops) (skipping, d) = Some d'"
    "snapshot d' = snapshot d" "over_entries d' es p'"
    "\<not> db_valid d' \<and>
         (\<forall>i. p \<le> i \<and> i < length es \<and> live compare (snapshot d) es i \<longrightarrow> hidden skipping (saved_key d) es i) \<or>
       p \<le> p' \<and> shows_entry d' es p' p' \<and> \<not> hidden skipping (saved_key d) es p' \<and>
         (\<forall>i. p \<le> i \<and> i < p' \<and> live compare (snapshot d) es i \<longrightarrow> hidden skipping (saved_key d) es i)" by blast
  have "db_at d' (user_view compare (snapshot d) es) (view_rank (snapshot d) es lo)"
  proof (rule db_atI [OF r(3)])
    show "user_view compare (snapshot d) es = user_view compare (snapshot d') es" using r(2) by simp
    from r(4) show "\<not> db_valid d' \<and> view_rank (snapshot d) es lo = length (user_view compare (snapshot d) es) \<or>
      (\<exists>i. shows_entry d' es p' i \<and> view_rank (snapshot d) es lo = view_rank (snapshot d') es i)"
    proof
      assume "\<not> db_valid d' \<and>
         (\<forall>i. p \<le> i \<and> i < length es \<and> live compare (snapshot d) es i \<longrightarrow> hidden skipping (saved_key d) es i)"
      then show ?thesis using lo rank_end [of lo es "snapshot d"] by blast
    next
      assume s: "p \<le> p' \<and> shows_entry d' es p' p' \<and> \<not> hidden skipping (saved_key d) es p' \<and>
         (\<forall>i. p \<le> i \<and> i < p' \<and> live compare (snapshot d) es i \<longrightarrow> hidden skipping (saved_key d) es i)"
      then have p': "p' < length es" "live compare (snapshot d) es p'" using r(2) by (simp_all add: shows_entry_def)
      then have "lo \<le> p'" using lo(2) s by blast
      moreover have "\<forall>k. lo \<le> k \<and> k < p' \<longrightarrow> \<not> live compare (snapshot d) es k"
        using lo(2) s p'(1) by (meson less_trans)
      ultimately have "view_rank (snapshot d) es p' = view_rank (snapshot d) es lo" by (rule rank_skip)
      with s r(2) show ?thesis by auto
    qed
  qed
  with r(1) show ?thesis using valid dir by (simp add: FindNextUserEntry_def)
qed

text \<open>Where the view has its entries relative to a key.\<close>

lemma view_below:
  assumes "p \<le> length es"
    and "\<forall>i. i < length es \<and> live compare s es i \<longrightarrow> (p \<le> i \<longleftrightarrow> 0 \<le> compare (ukey es i) t)"
  shows "user.below t (user_view compare s es) = view_rank s es p"
proof (rule user.below_unique)
  let ?P = "live compare s es"
  show "view_rank s es p \<le> length (user_view compare s es)"
    unfolding length_user_view by (rule rank_mono [OF assms(1)])
  show "\<forall>j < view_rank s es p. compare (fst (user_view compare s es ! j)) t < 0"
  proof (intro allI impI)
    fix j assume j: "j < view_rank s es p"
    then obtain i where i: "i < p" "?P i" "rank ?P i = j" using filter_nth_rank by blast
    then have len: "i < length es" and "\<not> p \<le> i" using assms(1) by simp_all
    then have "\<not> 0 \<le> compare (ukey es i) t" using assms(2) i(2) by blast
    then show "compare (fst (user_view compare s es ! j)) t < 0"
      using user_view_nth [OF i(2) len] i(3) by simp
  qed
  assume j: "view_rank s es p < length (user_view compare s es)"
  then obtain i where i: "i < length es" "?P i" "rank ?P i = rank ?P p"
    unfolding length_user_view using filter_nth_rank by blast
  have "p \<le> i" using rank_less [of ?P i p] i by (cases "i < p") auto
  then show "0 \<le> compare (fst (user_view compare s es ! view_rank s es p)) t"
    using assms(2) i user_view_nth [OF i(2,1)] by simp
qed

text \<open>The position of a live entry's neighbours.\<close>

lemma rank_after: "live compare s es i \<Longrightarrow> view_rank s es (Suc i) = Suc (view_rank s es i)"
  by (simp add: rank_Suc)

lemma rank_before:
  assumes "m < i" and "live compare s es m" and "\<forall>k. m < k \<and> k < i \<longrightarrow> \<not> live compare s es k"
  shows "view_rank s es i = Suc (view_rank s es m)"
  using rank_skip [of "Suc m" i "live compare s es"] assms by (simp add: rank_after less_eq_Suc_le)

lemma rank_none: "\<forall>k < i. \<not> live compare s es k \<Longrightarrow> view_rank s es i = 0"
  using rank_skip [of 0 i "live compare s es"] by (simp add: rank_def)

lemma shows_seen:
  assumes "over_entries d es p" and "shows_entry d es p i"
  shows "db_key ops d = ukey es i" and "db_value ops d = snd (es ! i)"
  using assms base.key_at [of "iter d" es i] base.val_at [of "iter d" es i]
  by (auto simp: shows_entry_def over_entries_def db_key_def db_value_def ukey_def)

lemma db_SeekToFirst_at:
  assumes "db_at d vs q"
  shows "\<exists>d'. db_SeekToFirst compare ops d = Some d' \<and> db_at d' vs 0"
proof -
  obtain es p where over: "over_entries d es p" and vs: "vs = user_view compare (snapshot d) es"
    using assms unfolding db_at_def by blast
  obtain it where it: "SeekToFirst ops (iter d) = Some it" "at it es 0"
    using base.first_at [OF over_entries_eqs(1) [OF over]] by blast
  let ?d = "(ClearSavedValue (d\<lparr>db_direction := kForward\<rparr>))\<lparr>iter := it\<rparr>"
  have over': "over_entries ?d es 0" using over it(2) by (simp add: over_entries_def ClearSavedValue_def)
  have eqs: "snapshot ?d = snapshot d" "db_direction ?d = kForward" by (simp_all add: ClearSavedValue_def)
  show ?thesis
  proof (cases "0 < length es")
    case True
    have "next_ready (snapshot ?d) False (saved_key ?d) es 0" by (simp add: next_ready_def)
    from FindNext_at [OF over' True eqs(2) this, of 0] True
    have "\<exists>d'. FindNextUserEntry compare ops False ?d = Some d' \<and> db_at d' vs (view_rank (snapshot d) es 0)"
      by (auto simp: hidden_def eqs vs)
    then show ?thesis using it base.valid_at [OF it(2)] True
      by (auto simp: db_SeekToFirst_def ClearSavedValue_def rank_def)
  next
    case False
    have "db_at (?d\<lparr>db_valid := False\<rparr>) vs 0"
      by (rule db_atI [where es = es and p = 0])
        (use over' vs False in \<open>auto simp: over_entries_def user_view_def ClearSavedValue_def\<close>)
    then show ?thesis using it base.valid_at [OF it(2)] False
      by (auto simp: db_SeekToFirst_def ClearSavedValue_def)
  qed
qed

text \<open>The result of \<open>FindPrevUserEntry\<close> as a position.\<close>

lemma db_at_prev:
  assumes "over_entries d' es p'" and "snapshot d' = s" and "i \<le> length es"
    and "\<not> db_valid d' \<and> (\<forall>k < i. \<not> live compare s es k) \<or>
      (\<exists>m < i. shows_entry d' es p' m \<and> (\<forall>k. m < k \<and> k < i \<longrightarrow> \<not> live compare s es k))"
  shows "db_at d' (user_view compare s es)
    (if view_rank s es i = 0 then length (user_view compare s es) else view_rank s es i - 1)"
  using assms(4)
proof
  assume "\<not> db_valid d' \<and> (\<forall>k < i. \<not> live compare s es k)"
  then show ?thesis using rank_none [of i s es] by (intro db_atI [OF assms(1)]) (simp_all add: assms(2))
next
  assume "\<exists>m < i. shows_entry d' es p' m \<and> (\<forall>k. m < k \<and> k < i \<longrightarrow> \<not> live compare s es k)"
  then obtain m where m: "m < i" "shows_entry d' es p' m" "\<forall>k. m < k \<and> k < i \<longrightarrow> \<not> live compare s es k" by blast
  then have "view_rank s es i = Suc (view_rank s es m)"
    using rank_before [of m i s es] assms(2) by (simp add: shows_entry_def)
  then show ?thesis using m(2) by (intro db_atI [OF assms(1)]) (auto simp: assms(2))
qed

lemma db_SeekToLast_at:
  assumes "db_at d vs q"
  shows "\<exists>d'. db_SeekToLast compare ops d = Some d' \<and> db_at d' vs (length vs - 1)"
proof -
  obtain es p where over: "over_entries d es p" and vs: "vs = user_view compare (snapshot d) es"
    using assms unfolding db_at_def by blast
  obtain it where it: "SeekToLast ops (iter d) = Some it" "at it es (length es - 1)"
    using base.last_at [OF over_entries_eqs(1) [OF over]] by blast
  let ?d = "(ClearSavedValue (d\<lparr>db_direction := kReverse\<rparr>))\<lparr>iter := it\<rparr>"
  have over': "over_entries ?d es (length es - 1)" using over it(2) by (simp add: over_entries_def ClearSavedValue_def)
  have eqs: "snapshot ?d = snapshot d" "db_direction ?d = kReverse" by (simp_all add: ClearSavedValue_def)
  have cond: "if length es - 1 = length es then \<forall>i < length es. \<not> live compare (snapshot ?d) es i
      else length es = Suc (length es - 1)" by (cases es) auto
  obtain d' p' where d': "FindPrevUserEntry compare ops ?d = Some d'" "over_entries d' es p'" "snapshot d' = snapshot d"
    "\<not> db_valid d' \<and> (\<forall>i < length es. \<not> live compare (snapshot d) es i) \<or>
     (\<exists>m < length es. shows_entry d' es p' m \<and> (\<forall>i. m < i \<and> i < length es \<longrightarrow> \<not> live compare (snapshot d) es i))"
    using FindPrev_at [OF over' eqs(2) cond] unfolding eqs(1) by blast
  have "db_at d' vs (length vs - 1)"
    using db_at_prev [OF d'(2,3) le_refl d'(4)] by (auto simp: vs length_user_view split: if_splits)
  then show ?thesis using it(1) d'(1) by (auto simp: db_SeekToLast_def ClearSavedValue_def)
qed

lemma db_Prev_at:
  assumes "db_at d vs q" and "q < length vs"
  shows "\<exists>d'. db_Prev compare ops d = Some d' \<and> db_at d' vs (if q = 0 then length vs else q - 1)"
proof -
  obtain es p i where over: "over_entries d es p" and vs: "vs = user_view compare (snapshot d) es"
    and i: "shows_entry d es p i" "q = view_rank (snapshot d) es i"
    using assms unfolding db_at_def by auto
  have il: "i < length es" "live compare (snapshot d) es i" "db_valid d" using i(1) by (simp_all add: shows_entry_def)
  show ?thesis
  proof (cases "db_direction d = kForward")
    case True
    then have p: "p = i" using i(1) by (simp add: shows_entry_def)
    note o = over_entries_eqs [OF over]
    let ?d = "d\<lparr>saved_key := ukey es i\<rparr>"
    have over': "over_entries ?d es i" using over p by (simp add: over_entries_def)
    have same: "saved_key ?d = ukey es i" "snapshot ?d = snapshot d" by simp_all
    obtain found d1 p1 where r: "crun (back_turn compare ops) ?d = Some (found, d1)" "over_entries d1 es p1" "snapshot d1 = snapshot d"
      "if found then p1 < i \<and> compare (ukey es p1) (ukey es i) < 0 \<and>
           (\<forall>k. p1 < k \<and> k < i \<longrightarrow> \<not> compare (ukey es k) (ukey es i) < 0)
       else \<not> db_valid d1 \<and> (\<forall>k < i. \<not> compare (ukey es k) (ukey es i) < 0)"
      using back_loop [OF over' il(1)] unfolding same by blast
    have dead: "\<not> live compare (snapshot d) es k" if "k < i" "\<not> compare (ukey es k) (ukey es i) < 0" for k
      using live_distinct [OF o(1) that(1) il(1) _ il(2)] that(2) by (auto simp: live_def)
    have step: "db_Prev compare ops d =
        (if found then FindPrevUserEntry compare ops (d1\<lparr>db_direction := kReverse\<rparr>) else Some d1)"
      using True il r(1) p base.valid_at [OF o(1)] base.key_at [OF o(1)] by (simp add: db_Prev_def ukey_def)
    have "\<exists>d' p'. db_Prev compare ops d = Some d' \<and> over_entries d' es p' \<and> snapshot d' = snapshot d \<and>
      (\<not> db_valid d' \<and> (\<forall>k < i. \<not> live compare (snapshot d) es k) \<or>
       (\<exists>m < i. shows_entry d' es p' m \<and> (\<forall>k. m < k \<and> k < i \<longrightarrow> \<not> live compare (snapshot d) es k)))"
    proof (cases found)
      case True
      with r(4) have p1: "p1 < i" "\<forall>k. p1 < k \<and> k < i \<longrightarrow> \<not> live compare (snapshot d) es k" using dead by auto
      have "over_entries (d1\<lparr>db_direction := kReverse\<rparr>) es p1" using r(2) by (simp add: over_entries_def)
      from FindPrev_at [OF this, of "Suc p1"] p1 il(1) r(3) obtain d' p' where
        d': "FindPrevUserEntry compare ops (d1\<lparr>db_direction := kReverse\<rparr>) = Some d'" "over_entries d' es p'" "snapshot d' = snapshot d"
          "\<not> db_valid d' \<and> (\<forall>k < Suc p1. \<not> live compare (snapshot d) es k) \<or>
           (\<exists>m < Suc p1. shows_entry d' es p' m \<and> (\<forall>k. m < k \<and> k < Suc p1 \<longrightarrow> \<not> live compare (snapshot d) es k))"
        by auto
      from d'(4) have "\<not> db_valid d' \<and> (\<forall>k < i. \<not> live compare (snapshot d) es k) \<or>
          (\<exists>m < i. shows_entry d' es p' m \<and> (\<forall>k. m < k \<and> k < i \<longrightarrow> \<not> live compare (snapshot d) es k))"
        using p1 by (meson less_Suc_eq_le less_le_trans not_le)
      with d' step True show ?thesis by auto
    next
      case False
      with r dead step show ?thesis by auto
    qed
    then obtain d' p' where d': "db_Prev compare ops d = Some d'" "over_entries d' es p'" "snapshot d' = snapshot d"
      "\<not> db_valid d' \<and> (\<forall>k < i. \<not> live compare (snapshot d) es k) \<or>
       (\<exists>m < i. shows_entry d' es p' m \<and> (\<forall>k. m < k \<and> k < i \<longrightarrow> \<not> live compare (snapshot d) es k))" by blast
    from db_at_prev [OF d'(2,3) less_imp_le [OF il(1)] d'(4)] show ?thesis using d'(1) i(2) vs by auto
  next
    case False
    then have dir: "db_direction d = kReverse" by (cases "db_direction d") auto
    have behind: "behind (snapshot d) es p i" using i(1) False by (simp add: shows_entry_def)
    define b where "b = (if p = length es then i else Suc p)"
    have cond: "if p = length es then \<forall>k < b. \<not> live compare (snapshot d) es k else b = Suc p"
      using behind il(1) by (auto simp: b_def behind_def live_def)
    have bi: "b \<le> i" "\<forall>k. b \<le> k \<and> k < i \<longrightarrow> \<not> live compare (snapshot d) es k"
      using behind il(1) by (auto simp: b_def behind_def live_def)
    from FindPrev_at [OF over dir cond] obtain d' p' where
      d': "FindPrevUserEntry compare ops d = Some d'" "over_entries d' es p'" "snapshot d' = snapshot d"
        "\<not> db_valid d' \<and> (\<forall>k < b. \<not> live compare (snapshot d) es k) \<or>
         (\<exists>m < b. shows_entry d' es p' m \<and> (\<forall>k. m < k \<and> k < b \<longrightarrow> \<not> live compare (snapshot d) es k))" by blast
    from d'(4) have "\<not> db_valid d' \<and> (\<forall>k < i. \<not> live compare (snapshot d) es k) \<or>
        (\<exists>m < i. shows_entry d' es p' m \<and> (\<forall>k. m < k \<and> k < i \<longrightarrow> \<not> live compare (snapshot d) es k))"
      using bi by (meson less_le_trans not_le)
    from db_at_prev [OF d'(2,3) less_imp_le [OF il(1)] this] show ?thesis
      using d'(1) i(2) vs dir il(3) by (auto simp: db_Prev_def)
  qed
qed

text \<open>The entries that the snapshot sees and the key that \<open>Seek\<close> builds.\<close>

lemma seek_key_splits:
  assumes "well_keyed es" and "i < length es" and "visible s es i" and "s \<le> kMaxSequenceNumber"
  shows "InternalKeyCompare compare (fst (es ! i)) (internal_key t s kTypeValue) < 0 \<longleftrightarrow> compare (ukey es i) t < 0"
proof -
  obtain k where k: "ParseInternalKey (fst (es ! i)) = Some k" "sequence k \<le> s"
    using parse_at [OF assms(1,2), of s] assms(3) by metis
  note n = ParseInternalKey_number [OF k(1)]
  have "\<not> PackSequenceAndType s kTypeValue < PackSequenceAndType (sequence k) (key_type k)"
    using pack_less_iff [OF assms(4) n(2), of kTypeValue "key_type k"] k(2) by (cases "key_type k") auto
  then show ?thesis using n(1) by (simp add: InternalKeyCompare_def Let_def ukey_def)
qed

definition db_seekable :: "slice \<Rightarrow> bool" where
  "db_seekable t \<longleftrightarrow> (\<forall>s. seekable (internal_key t s kTypeValue))"

lemma db_Seek_at:
  assumes "db_at d vs q" and t: "db_seekable t"
  shows "\<exists>d'. db_Seek compare ops d t = Some d' \<and> db_at d' vs (user.below t vs)"
proof -
  obtain es p where over: "over_entries d es p" and vs: "vs = user_view compare (snapshot d) es"
    using assms(1) unfolding db_at_def by blast
  note o = over_entries_eqs [OF over]
  let ?k = "internal_key t (snapshot d) kTypeValue"
  let ?p = "base.below ?k es"
  obtain it where it: "Seek ops (iter d) ?k = Some it" "at it es ?p" using base.seek_at [OF o(1)] t unfolding db_seekable_def by blast
  let ?d = "(ClearSavedValue (d\<lparr>db_direction := kForward\<rparr>))\<lparr>saved_key := ?k, iter := it\<rparr>"
  have over': "over_entries ?d es ?p" using over it(2) by (simp add: over_entries_def ClearSavedValue_def)
  have eqs: "snapshot ?d = snapshot d" "db_direction ?d = kForward" by (simp_all add: ClearSavedValue_def)
  have le: "?p \<le> length es" by (rule base.below_le)
  have split: "?p \<le> i \<longleftrightarrow> 0 \<le> compare (ukey es i) t" if i: "i < length es" "visible (snapshot d) es i" for i
    using base.below_less [of i ?k es] base.ordered_below [OF base.at_ordered [OF o(1)], of i ?k]
      seek_key_splits [OF o(2) i o(3), of t] i(1) by (cases "i < ?p") auto
  have below: "user.below t vs = view_rank (snapshot d) es ?p"
    unfolding vs by (rule view_below [OF le]) (use split in \<open>auto simp: live_def\<close>)
  show ?thesis
  proof (cases "?p < length es")
    case True
    have "next_ready (snapshot ?d) False (saved_key ?d) es ?p"
      unfolding next_ready_def eqs
    proof (intro allI impI conjI disjI2 notI)
      fix i j assume i: "?p \<le> i \<and> i < length es \<and> visible (snapshot d) es i"
        and j: "j < ?p" "visible (snapshot d) es j" "compare (ukey es j) (ukey es i) = 0"
      have "compare (ukey es j) t < 0" using split [of j] j True by simp
      then have "compare (ukey es i) t < 0" using user.compare_cong [OF j(3)] by simp
      then show False using split [of i] i by simp
    qed simp
    from FindNext_at [OF over' True eqs(2) this le]
    have "\<exists>d'. FindNextUserEntry compare ops False ?d = Some d' \<and> db_at d' vs (user.below t vs)"
      by (simp add: hidden_def eqs(1) below) (simp add: vs)
    then show ?thesis using it base.valid_at [OF it(2)] True
      by (auto simp: db_Seek_def ClearSavedValue_def kValueTypeForSeek_def)
  next
    case False
    then have "user.below t vs = length vs" using below le by (simp add: vs length_user_view)
    then have "db_at (?d\<lparr>db_valid := False\<rparr>) vs (user.below t vs)"
      by (intro db_atI [where es = es and p = ?p])
        (use over' vs in \<open>auto simp: over_entries_def ClearSavedValue_def\<close>)
    then show ?thesis using it base.valid_at [OF it(2)] False
      by (auto simp: db_Seek_def ClearSavedValue_def kValueTypeForSeek_def)
  qed
qed

text \<open>Both cases of \<open>Next\<close> skip the key of the entry that is shown.\<close>

lemma FindNext_after:
  assumes over: "over_entries d es p" and dir: "db_direction d = kForward"
    and i: "i < length es" "live compare (snapshot d) es i" "saved_key d = ukey es i"
    and p: "p \<le> i" "\<forall>k. p \<le> k \<and> k < i \<longrightarrow> \<not> visible (snapshot d) es k"
  shows "\<exists>d'. FindNextUserEntry compare ops True d = Some d' \<and>
    db_at d' (user_view compare (snapshot d) es) (Suc (view_rank (snapshot d) es i))"
proof -
  note o = over_entries_eqs [OF over]
  have pl: "p < length es" using i p by simp
  have above: "compare (ukey es i) (ukey es k) \<le> 0" "i \<le> k"
    if "p \<le> k" "k < length es" "visible (snapshot d) es k" for k
    using that p(2) ukey_le [OF o(1), of i k] by (metis not_le)+
  have "next_ready (snapshot d) True (saved_key d) es p"
    unfolding next_ready_def
  proof (intro allI impI conjI)
    fix k assume k: "p \<le> k \<and> k < length es \<and> visible (snapshot d) es k"
    then show "compare (saved_key d) (ukey es k) \<le> 0" using above i(3) by simp
    show "hidden True (saved_key d) es k \<or> (\<forall>j < p. visible (snapshot d) es j \<longrightarrow> compare (ukey es j) (ukey es k) \<noteq> 0)"
    proof (rule disjCI)
      assume "\<not> (\<forall>j < p. visible (snapshot d) es j \<longrightarrow> compare (ukey es j) (ukey es k) \<noteq> 0)"
      then obtain j where j: "j < p" "compare (ukey es j) (ukey es k) = 0" by blast
      have "compare (ukey es j) (ukey es i) \<le> 0" using ukey_le [OF o(1), of j i] j(1) p(1) i(1) by simp
      then have "compare (ukey es k) (ukey es i) \<le> 0"
        using j(2) user.compare_swap_0 [of "ukey es j"] user.compare_trans [of "ukey es k" "ukey es j" "ukey es i"] by simp
      then show "hidden True (saved_key d) es k" using i(3) by (simp add: hidden_def)
    qed
  qed
  moreover have "Suc i \<le> k \<longleftrightarrow> p \<le> k \<and> \<not> hidden True (saved_key d) es k"
    if k: "k < length es" "live compare (snapshot d) es k" for k
  proof -
    have "compare (ukey es i) (ukey es k) < 0" if "i < k"
      by (rule live_distinct [OF o(1) that k(1) _ k(2)]) (use i(2) in \<open>simp add: live_def\<close>)
    then show ?thesis
      using above(2) [of k] k p(1) user.compare_swap [of "ukey es i" "ukey es k"] i(3)
      by (cases "k = i") (auto simp: hidden_def user.compare_self live_def less_Suc_eq_le Suc_le_eq)
  qed
  ultimately show ?thesis
    using FindNext_at [OF over pl dir, of True "Suc i"] i(1,2) by (simp add: rank_after)
qed

lemma db_Next_at:
  assumes "db_at d vs q" and "q < length vs"
  shows "\<exists>d'. db_Next compare ops d = Some d' \<and> db_at d' vs (q + 1)"
proof -
  obtain es p i where over: "over_entries d es p" and vs: "vs = user_view compare (snapshot d) es"
    and i: "shows_entry d es p i" "q = view_rank (snapshot d) es i"
    using assms unfolding db_at_def by auto
  have il: "i < length es" "live compare (snapshot d) es i" "db_valid d" using i(1) by (simp_all add: shows_entry_def)
  note o = over_entries_eqs [OF over]
  show ?thesis
  proof (cases "db_direction d = kForward")
    case True
    then have p: "p = i" using i(1) by (simp add: shows_entry_def)
    let ?d = "d\<lparr>saved_key := ukey es i\<rparr>"
    have over': "over_entries ?d es i" using over p by (simp add: over_entries_def)
    have "\<forall>k. i \<le> k \<and> k < i \<longrightarrow> \<not> visible (snapshot ?d) es k" by auto
    from FindNext_after [OF over' _ il(1) _ _ le_refl this] True il
    have "\<exists>d'. FindNextUserEntry compare ops True ?d = Some d' \<and> db_at d' vs (q + 1)"
      by (simp add: i(2) vs)
    then show ?thesis
      using True il(3) p base.key_at [OF o(1)] il(1) by (simp add: db_Next_def ukey_def)
  next
    case False
    then have dir: "db_direction d = kReverse" by (cases "db_direction d") auto
    have s: "saved_key d = ukey es i" and behind: "behind (snapshot d) es p i"
      using i(1) False by (simp_all add: shows_entry_def)
    define p' where "p' = (if p = length es then 0 else Suc p)"
    have p': "p' \<le> i" "\<forall>k. p' \<le> k \<and> k < i \<longrightarrow> \<not> visible (snapshot d) es k"
      using behind il(1) by (auto simp: p'_def behind_def)
    obtain it where it: "(if \<not> Valid ops (iter d) then SeekToFirst ops (iter d) else Next ops (iter d)) = Some it" "at it es p'"
      using base.valid_at [OF o(1)] base.first_at [OF o(1)] base.next_at [OF o(1)] base.at_bound [OF o(1)]
      unfolding p'_def by (cases "p = length es") auto
    let ?d = "d\<lparr>db_direction := kForward, iter := it\<rparr>"
    have over': "over_entries ?d es p'" using over it(2) by (simp add: over_entries_def)
    from FindNext_after [OF over' _ il(1) _ _ p'(1)] il(2) s p'(2)
    have "\<exists>d'. FindNextUserEntry compare ops True ?d = Some d' \<and> db_at d' vs (q + 1)"
      by (simp add: i(2) vs)
    moreover have "Valid ops it" using base.valid_at [OF it(2)] p'(1) il(1) by simp
    ultimately show ?thesis using dir il(3) it(1) by (auto simp: db_Next_def Let_def split: if_splits)
  qed
qed

lemma db_iterator: "sorted_iterator compare (db_ops compare ops) db_at db_seekable"
proof
  fix d vs q t assume at: "db_at d vs q"
  then obtain es p where over: "over_entries d es p" and vs: "vs = user_view compare (snapshot d) es"
    and q: "\<not> db_valid d \<and> q = length vs \<or> (\<exists>i. shows_entry d es p i \<and> q = view_rank (snapshot d) es i)"
    unfolding db_at_def by blast
  note o = over_entries_eqs [OF over]
  have less: "view_rank (snapshot d) es i < length vs" if "shows_entry d es p i" for i
    using that rank_less [of "live compare (snapshot d) es" i "length es"] by (simp add: vs length_user_view shows_entry_def)
  show "q \<le> length vs" using q less by (auto intro: less_imp_le)
  show "user.ordered (map fst vs)" unfolding vs by (rule ordered_view [OF o(1)])
  show "Valid (db_ops compare ops) d \<longleftrightarrow> q < length vs"
    using q less by (auto simp: db_ops_def shows_entry_def)
  show "IterStatus (db_ops compare ops) d = OK"
    using base.status_at [OF o(1)] o(5) by (simp add: db_ops_def db_iter_status_def)
  show "\<exists>d'. SeekToFirst (db_ops compare ops) d = Some d' \<and> db_at d' vs 0"
    using db_SeekToFirst_at [OF at] by (simp add: db_ops_def)
  show "\<exists>d'. SeekToLast (db_ops compare ops) d = Some d' \<and> db_at d' vs (length vs - 1)"
    using db_SeekToLast_at [OF at] by (simp add: db_ops_def)
  show "\<exists>d'. Seek (db_ops compare ops) d t = Some d' \<and> db_at d' vs (user.below t vs)" if "db_seekable t"
    using db_Seek_at [OF at that] by (simp add: db_ops_def)
  assume ql: "q < length vs"
  then obtain i where i: "shows_entry d es p i" "q = view_rank (snapshot d) es i" using q by auto
  then have "vs ! q = (ukey es i, snd (es ! i))" using user_view_nth by (simp add: vs shows_entry_def)
  with shows_seen [OF over i(1)]
  show "Key (db_ops compare ops) d = fst (vs ! q)" "Val (db_ops compare ops) d = snd (vs ! q)"
    by (simp_all add: db_ops_def)
  show "\<exists>d'. Next (db_ops compare ops) d = Some d' \<and> db_at d' vs (q + 1)"
    using db_Next_at [OF at ql] by (simp add: db_ops_def)
  show "\<exists>d'. Prev (db_ops compare ops) d = Some d' \<and> db_at d' vs (if q = 0 then length vs else q - 1)"
    using db_Prev_at [OF at ql] by (simp add: db_ops_def)
qed

lemma db_at_start:
  assumes "at it es p" and "well_keyed es" and "s \<le> kMaxSequenceNumber"
  shows "db_at (make_db_iter it s seed) (user_view compare s es) (length (user_view compare s es))"
proof -
  have "good_seed (snd (RandomPeriod (make_Random seed)))"
    using good_seed_Uniform [OF good_seed_make] by (simp add: RandomPeriod_def case_prod_beta)
  then show ?thesis
    using assms by (intro db_atI [where es = es and p = p])
      (simp_all add: make_db_iter_def over_entries_def case_prod_beta)
qed

end

interpretation db_merged: db_client BytewiseCompare
    "merging_ops (InternalKeyCompare BytewiseCompare) (block_ops (InternalKeyCompare BytewiseCompare))"
    internal.block.merging_at "\<lambda>t. True"
  by unfold_locales

section \<open>The property of the database iterator\<close>

text \<open>C22. What a snapshot shows. Let the internal iterator walk through any sorted list of well-formed
  internal keys. Then the iterator of the database behaves, through every sequence of moves and so in both
  directions and after every change of direction, as a position in the list of the user keys whose newest
  version not newer than the snapshot is a value, each with that value. The loops end, and no error is
  reported.\<close>

theorem db_iterator_shows_snapshot:
  assumes "comparator compare" and "sorted_iterator (InternalKeyCompare compare) ops at seekable"
    and "at it es p" and "\<forall>e \<in> set es. ParseInternalKey (fst e) \<noteq> None" and "s \<le> kMaxSequenceNumber"
  shows "follows compare (\<lambda>t. \<forall>s. seekable (AppendInternalKey [] \<lparr>user_key = t, sequence = s, key_type = kTypeValue\<rparr>))
    (db_ops compare ops) (make_db_iter it s seed)
    (user_view compare s es) (length (user_view compare s es))"
proof -
  have c: "db_client compare ops at seekable" using assms(1,2) by (rule db_client.intro)
  have "well_keyed es" using assms(4) by (simp add: well_keyed_def)
  from sorted_iterator.at_follows [OF db_client.db_iterator [OF c] db_client.db_at_start [OF c assms(3) this assms(5)]]
  show ?thesis by (simp only: db_client.db_seekable_def [OF c, abs_def])
qed

lemma ParseInternalKey_PutFixed64:
  "ParseInternalKey (PutFixed64 u n) =
     map_option (\<lambda>t. \<lparr>user_key = u, sequence = drop_bit 8 n, key_type = t\<rparr>) (type_of_code (n AND 0xff))"
proof -
  have "length (PutFixed64 u n) = length u + 8" by (simp add: PutFixed64_def)
  moreover have "take (length (PutFixed64 u n) - 8) (PutFixed64 u n) = u" by (simp add: PutFixed64_def)
  ultimately show ?thesis by (simp add: ParseInternalKey_def Let_def)
qed

theorem db_iterator_shows_snapshot_witness:
  "\<exists>it. follows BytewiseCompare (\<lambda>t. True)
     (db_ops BytewiseCompare (block_ops (InternalKeyCompare BytewiseCompare)))
     (make_db_iter it 4 301) [([1], [8])] 1"
proof -
  let ?es = "[(PutFixed64 [1] 0x501, [9 :: byte]), (PutFixed64 [1] 0x301, [8]), (PutFixed64 [2] 0x200, [] :: byte list)]"
  let ?l = "\<lparr>lay_entries = ?es, lay_shared = [0, 0, 0], lay_points = [0]\<rparr>"
  have small: "length (entry_image 0 (PutFixed64 [x] y, [])) = 12" "length (entry_image 0 (PutFixed64 [x] y, [z])) = 13" for x y z
    by (simp_all add: entry_image_def EncodeVarint32_def PutFixed64_def)
  have "layout_ok ?l"
    by (simp_all add: layout_ok_def shares_def points_ok_def block_image_def images_def points_table_def small less_Suc_eq)
  then obtain it where "layout_ok ?l" "stands ?l it (count ?l)"
    using NewIterator_image [of ?l] by blast
  from block_atI [OF this, of "InternalKeyCompare BytewiseCompare"]
  have it: "block_at (InternalKeyCompare BytewiseCompare) it ?es (count ?l)"
    by (simp add: InternalKeyCompare_def BytewiseCompare_def)
  have keys: "\<forall>e \<in> set ?es. ParseInternalKey (fst e) \<noteq> None"
    by (simp add: ParseInternalKey_PutFixed64 type_of_code_def)
  have s: "(4 :: u64) \<le> kMaxSequenceNumber" by (simp add: kMaxSequenceNumber_def)
  have "follows BytewiseCompare (\<lambda>t. True) (db_ops BytewiseCompare (block_ops (InternalKeyCompare BytewiseCompare)))
     (make_db_iter it 4 301) (user_view BytewiseCompare 4 ?es) (length (user_view BytewiseCompare 4 ?es))"
    using db_iterator_shows_snapshot [where s = 4 and es = ?es and it = it and seed = 301,
      OF bytewise.comparator_axioms internal.block.sorted_iterator_axioms it keys s] by (simp only: simp_thms)
  moreover have "user_view BytewiseCompare 4 ?es = [([1], [8])]"
  proof -
    have seen: "\<not> visible 4 ?es 0" "visible 4 ?es 1" "is_value ?es 1" "\<not> is_value ?es 2"
      by (simp_all add: visible_def is_value_def ParseInternalKey_PutFixed64 type_of_code_def)
    then have "\<not> live BytewiseCompare 4 ?es 0" "live BytewiseCompare 4 ?es 1" "\<not> live BytewiseCompare 4 ?es 2"
      by (simp_all only: live_def less_one) simp_all
    moreover have "[0 ..< length ?es] = [0, 1, 2]" by (simp add: upt_rec)
    moreover have "(ukey ?es 1, snd (?es ! 1)) = ([1], [8])" by (simp add: ukey_def)
    ultimately show ?thesis by (simp only: user_view_def filter.simps list.map if_True if_False)
  qed
  ultimately have "follows BytewiseCompare (\<lambda>t. True) (db_ops BytewiseCompare (block_ops (InternalKeyCompare BytewiseCompare)))
     (make_db_iter it 4 301) [([1], [8])] (length [([1 :: byte], [8 :: byte])])" by (simp only:)
  moreover have "length [([1 :: byte], [8 :: byte])] = 1" by simp
  ultimately show ?thesis by (simp only:) (rule exI)
qed

end
