(* ===== verification/LdbSkipList.thy ===== *)
theory LdbSkipList
  imports LdbComparator LdbRandom
begin

text \<open>
  The skip list (\<open>db/skiplist.h\<close>). The nodes are kept in the order of their allocation, and a pointer to a
  node is its index; the head is node 0. A link is \<open>None\<close> until it is set, so that reading memory that was
  not initialised, like reading a level that the node does not have, is \<open>None\<close>; the null pointer is
  \<open>Some None\<close>. The atomic operations on the links are the elementary steps of the model; the theory
  \<open>LdbSkipListRace\<close> interleaves those of a writer with those of a reader.
\<close>

section \<open>Nodes\<close>

definition kMaxHeight :: nat where "kMaxHeight = 12"

definition kBranching :: nat where "kBranching = 4"

record 'k node =
  node_key :: 'k
  node_links :: "nat option option list"

record 'k skiplist =
  sl_nodes :: "'k node list"
  max_height :: nat
  sl_rnd :: u32

definition key_of :: "'k skiplist \<Rightarrow> nat \<Rightarrow> 'k" where
  "key_of sl x = node_key (sl_nodes sl ! x)"

definition node_Next :: "'k skiplist \<Rightarrow> nat \<Rightarrow> nat \<Rightarrow> nat option option" where
  "node_Next sl x n =
     (if x < length (sl_nodes sl) \<and> n < length (node_links (sl_nodes sl ! x))
      then node_links (sl_nodes sl ! x) ! n else None)"

definition node_SetNext :: "'k skiplist \<Rightarrow> nat \<Rightarrow> nat \<Rightarrow> nat option \<Rightarrow> 'k skiplist option" where
  "node_SetNext sl x n y =
     (if x < length (sl_nodes sl) \<and> n < length (node_links (sl_nodes sl ! x))
      then let node = sl_nodes sl ! x
           in Some (sl\<lparr>sl_nodes := (sl_nodes sl)[x := node\<lparr>node_links := (node_links node)[n := Some y]\<rparr>]\<rparr>)
      else None)"

definition NewNode :: "'k skiplist \<Rightarrow> 'k \<Rightarrow> nat \<Rightarrow> nat \<times> 'k skiplist" where
  "NewNode sl key height =
     (length (sl_nodes sl),
      sl\<lparr>sl_nodes := sl_nodes sl @ [\<lparr>node_key = key, node_links = replicate height None\<rparr>]\<rparr>)"

definition make_SkipList :: "'k \<Rightarrow> 'k skiplist" where
  "make_SkipList any_key =
     \<lparr>sl_nodes = [\<lparr>node_key = any_key, node_links = replicate kMaxHeight (Some None)\<rparr>],
      max_height = 1, sl_rnd = make_Random 0xdeadbeef\<rparr>"

function random_height :: "nat \<Rightarrow> u32 \<Rightarrow> nat \<times> u32" where
  "random_height height seed =
     (if height < kMaxHeight
      then let (r, seed) = random_Next seed
           in if unat r mod kBranching = 0 then random_height (height + 1) seed else (height, seed)
      else (height, seed))"
  by auto
termination by (relation "measure (\<lambda>(height, seed). kMaxHeight - height)") auto

declare random_height.simps [simp del]

definition RandomHeight :: "u32 \<Rightarrow> nat \<times> u32" where
  "RandomHeight seed = random_height 1 seed"

section \<open>Searches\<close>

text \<open>
  The loop of the three searches: at the node \<open>x\<close> of a level, \<open>go\<close> says whether the next node is to be
  passed, and \<open>fine\<close> is the assertion at the head of the loop. \<open>prev\<close> collects the node at which each level
  was left; \<open>FindLessThan\<close> and \<open>FindLast\<close> do not use it.
\<close>

type_synonym search = "nat \<times> nat \<times> nat option list"

definition search_turn ::
    "(nat \<Rightarrow> bool) \<Rightarrow> (nat option \<Rightarrow> bool) \<Rightarrow> 'k skiplist \<Rightarrow> search \<Rightarrow> (search, nat \<times> nat option \<times> nat option list) turn option" where
  "search_turn fine go sl = (\<lambda>(x, level, prev).
     if \<not> fine x then None
     else do {
       next \<leftarrow> node_Next sl x level;
       if go next then Some (Continue (the next, level, prev))
       else do {
         let prev = prev[level := Some x];
         if level = 0 then Some (Leave (x, next, prev)) else Some (Continue (x, level - 1, prev))
       }
     })"

definition search_start :: "'k skiplist \<Rightarrow> search" where
  "search_start sl = (0, max_height sl - 1, replicate kMaxHeight None)"

definition KeyIsAfterNode :: "('k \<Rightarrow> 'k \<Rightarrow> int) \<Rightarrow> 'k skiplist \<Rightarrow> 'k \<Rightarrow> nat option \<Rightarrow> bool" where
  "KeyIsAfterNode compare sl key n = (case n of None \<Rightarrow> False | Some y \<Rightarrow> compare (key_of sl y) key < 0)"

definition FindGreaterOrEqual ::
    "('k \<Rightarrow> 'k \<Rightarrow> int) \<Rightarrow> 'k skiplist \<Rightarrow> 'k \<Rightarrow> (nat option \<times> nat option list) option" where
  "FindGreaterOrEqual compare sl key =
     map_option snd (crun (search_turn (\<lambda>x. True) (KeyIsAfterNode compare sl key) sl) (search_start sl))"

definition FindLessThan :: "('k \<Rightarrow> 'k \<Rightarrow> int) \<Rightarrow> 'k skiplist \<Rightarrow> 'k \<Rightarrow> nat option" where
  "FindLessThan compare sl key =
     map_option fst (crun (search_turn (\<lambda>x. x = 0 \<or> compare (key_of sl x) key < 0)
       (\<lambda>next. \<not> (case next of None \<Rightarrow> True | Some y \<Rightarrow> 0 \<le> compare (key_of sl y) key)) sl) (search_start sl))"

definition FindLast :: "'k skiplist \<Rightarrow> nat option" where
  "FindLast sl = map_option fst (crun (search_turn (\<lambda>x. True) (\<lambda>next. next \<noteq> None) sl) (search_start sl))"

definition Contains :: "('k \<Rightarrow> 'k \<Rightarrow> int) \<Rightarrow> 'k skiplist \<Rightarrow> 'k \<Rightarrow> bool option" where
  "Contains compare sl key = do {
     (x, prev) \<leftarrow> FindGreaterOrEqual compare sl key;
     Some (case x of None \<Rightarrow> False | Some y \<Rightarrow> compare key (key_of sl y) = 0)
   }"

section \<open>Insertion\<close>

definition raise_height :: "'k skiplist \<Rightarrow> nat option list \<Rightarrow> nat \<Rightarrow> 'k skiplist \<times> nat option list" where
  "raise_height sl prev height =
     (if max_height sl < height
      then (sl\<lparr>max_height := height\<rparr>, map (\<lambda>i. if max_height sl \<le> i \<and> i < height then Some 0 else prev ! i) [0 ..< length prev])
      else (sl, prev))"

text \<open>One turn of the loop that links the new node: its own link, and the one that makes it reachable.\<close>

definition link_node :: "'k skiplist \<Rightarrow> nat \<Rightarrow> nat option list \<Rightarrow> nat \<Rightarrow> 'k skiplist option" where
  "link_node sl x prev i = do {
     p \<leftarrow> (if i < length prev then prev ! i else None);
     next \<leftarrow> node_Next sl p i;
     node_SetNext sl x i next
   }"

definition publish_node :: "'k skiplist \<Rightarrow> nat \<Rightarrow> nat option list \<Rightarrow> nat \<Rightarrow> 'k skiplist option" where
  "publish_node sl x prev i = do {
     p \<leftarrow> (if i < length prev then prev ! i else None);
     node_SetNext sl p i (Some x)
   }"

fun link_levels :: "'k skiplist \<Rightarrow> nat \<Rightarrow> nat option list \<Rightarrow> nat list \<Rightarrow> 'k skiplist option" where
  "link_levels sl x prev [] = Some sl"
| "link_levels sl x prev (i # is) = do {
     sl \<leftarrow> link_node sl x prev i;
     sl \<leftarrow> publish_node sl x prev i;
     link_levels sl x prev is
   }"

text \<open>What \<open>Insert\<close> does before the loop: the new node, the places to link it and its height.\<close>

definition insert_start ::
    "('k \<Rightarrow> 'k \<Rightarrow> int) \<Rightarrow> 'k skiplist \<Rightarrow> 'k \<Rightarrow> ('k skiplist \<times> nat \<times> nat option list \<times> nat) option" where
  "insert_start compare sl key = do {
     (x, prev) \<leftarrow> FindGreaterOrEqual compare sl key;
     if (case x of None \<Rightarrow> False | Some y \<Rightarrow> compare key (key_of sl y) = 0) then None
     else do {
       let (height, seed) = RandomHeight (sl_rnd sl);
       let (sl, prev) = raise_height (sl\<lparr>sl_rnd := seed\<rparr>) prev height;
       let (x, sl) = NewNode sl key height;
       Some (sl, x, prev, height)
     }
   }"

definition Insert :: "('k \<Rightarrow> 'k \<Rightarrow> int) \<Rightarrow> 'k skiplist \<Rightarrow> 'k \<Rightarrow> 'k skiplist option" where
  "Insert compare sl key = do {
     (sl, x, prev, height) \<leftarrow> insert_start compare sl key;
     link_levels sl x prev [0 ..< height]
   }"

section \<open>The iterator\<close>

text \<open>An iterator is the node it stands at, or null; its operations read the list.\<close>

definition sl_SeekToFirst :: "'k skiplist \<Rightarrow> nat option option" where
  "sl_SeekToFirst sl = node_Next sl 0 0"

definition sl_SeekToLast :: "'k skiplist \<Rightarrow> nat option option" where
  "sl_SeekToLast sl = map_option (\<lambda>x. if x = 0 then None else Some x) (FindLast sl)"

definition sl_Seek :: "('k \<Rightarrow> 'k \<Rightarrow> int) \<Rightarrow> 'k skiplist \<Rightarrow> 'k \<Rightarrow> nat option option" where
  "sl_Seek compare sl target = map_option fst (FindGreaterOrEqual compare sl target)"

definition sl_Next :: "'k skiplist \<Rightarrow> nat option \<Rightarrow> nat option option" where
  "sl_Next sl node = (case node of None \<Rightarrow> None | Some x \<Rightarrow> node_Next sl x 0)"

definition sl_Prev :: "('k \<Rightarrow> 'k \<Rightarrow> int) \<Rightarrow> 'k skiplist \<Rightarrow> nat option \<Rightarrow> nat option option" where
  "sl_Prev compare sl node =
     (case node of None \<Rightarrow> None
      | Some x \<Rightarrow> map_option (\<lambda>x. if x = 0 then None else Some x) (FindLessThan compare sl (key_of sl x)))"

text \<open>The nodes on the lowest level, from the head on, which are at most as many as there are nodes.\<close>

fun follow :: "'k skiplist \<Rightarrow> nat \<Rightarrow> nat \<Rightarrow> nat list" where
  "follow sl 0 x = []"
| "follow sl (Suc n) x = (case node_Next sl x 0 of Some (Some y) \<Rightarrow> y # follow sl n y | _ \<Rightarrow> [])"

definition contents :: "'k skiplist \<Rightarrow> nat list" where
  "contents sl = follow sl (length (sl_nodes sl)) 0"

fun insert_all :: "('k \<Rightarrow> 'k \<Rightarrow> int) \<Rightarrow> 'k skiplist \<Rightarrow> 'k list \<Rightarrow> 'k skiplist option" where
  "insert_all compare sl [] = Some sl"
| "insert_all compare sl (k # ks) = do { sl \<leftarrow> Insert compare sl k; insert_all compare sl ks }"

end
