(* ===== verification/LdbSkipListProps.thy ===== *)
theory LdbSkipListProps
  imports LdbSkipList LdbIterator "HOL-Library.Multiset"
begin

text \<open>
  The skip list as a sorted list. The lowest level links all nodes in the order of their keys; a higher
  level only has to lead forward, so that a search stays right while a node is being linked level by level.
\<close>

section \<open>Links of a node\<close>

lemma node_SetNext_Some:
  assumes "node_SetNext sl x n y = Some sl'"
  shows "node_Next sl' z m = (if z = x \<and> m = n then Some y else node_Next sl z m)"
    and "key_of sl' = key_of sl" and "length (sl_nodes sl') = length (sl_nodes sl)" and "max_height sl' = max_height sl"
    and "sl_rnd sl' = sl_rnd sl"
proof -
  let ?n = "sl_nodes sl ! x"
  have x: "x < length (sl_nodes sl)" "n < length (node_links ?n)"
    and sl': "sl' = sl\<lparr>sl_nodes := (sl_nodes sl)[x := ?n\<lparr>node_links := (node_links ?n)[n := Some y]\<rparr>]\<rparr>"
    using assms by (auto simp: node_SetNext_def Let_def split: if_splits)
  show "node_Next sl' z m = (if z = x \<and> m = n then Some y else node_Next sl z m)"
    using x by (auto simp: sl' node_Next_def nth_list_update)
  show "key_of sl' = key_of sl" using x by (auto simp: sl' key_of_def nth_list_update fun_eq_iff)
qed (use assms in \<open>auto simp: node_SetNext_def Let_def split: if_splits\<close>)

lemma node_SetNext_defined:
  "x < length (sl_nodes sl) \<Longrightarrow> n < length (node_links (sl_nodes sl ! x)) \<Longrightarrow> \<exists>sl'. node_SetNext sl x n y = Some sl'"
  by (simp add: node_SetNext_def Let_def)

lemma node_Next_range:
  "node_Next sl x n = Some v \<Longrightarrow> x < length (sl_nodes sl) \<and> n < length (node_links (sl_nodes sl ! x))"
  by (auto simp: node_Next_def split: if_splits)

section \<open>The order of the nodes\<close>

definition before :: "'a list \<Rightarrow> 'a \<Rightarrow> 'a \<Rightarrow> bool" where
  "before ns x y \<longleftrightarrow> (\<exists>p q. p < q \<and> q < length ns \<and> ns ! p = x \<and> ns ! q = y)"

definition insert_at :: "nat \<Rightarrow> 'a \<Rightarrow> 'a list \<Rightarrow> 'a list" where
  "insert_at q x ns = take q ns @ x # drop q ns"

lemma insert_at_nth:
  assumes "q \<le> length ns" and "p < Suc (length ns)"
  shows "insert_at q x ns ! p = (if p < q then ns ! p else if p = q then x else ns ! (p - 1))"
  using assms by (auto simp: insert_at_def nth_append nth_Cons')

lemma length_insert_at [simp]: "length (insert_at q x ns) = Suc (length ns)"
  by (simp add: insert_at_def)

lemma set_insert_at [simp]: "set (insert_at q x ns) = insert x (set ns)"
  by (simp add: insert_at_def) (metis append_take_drop_id set_append)

lemma distinct_insert_at [simp]: "x \<notin> set ns \<Longrightarrow> distinct (insert_at q x ns) = distinct ns"
  by (simp add: insert_at_def) (metis append_take_drop_id distinct_append in_set_takeD in_set_dropD)

lemma before_insert_at: "before ns a b \<Longrightarrow> q \<le> length ns \<Longrightarrow> before (insert_at q x ns) a b"
proof -
  assume "before ns a b" and q: "q \<le> length ns"
  then obtain i j where ij: "i < j" "j < length ns" "ns ! i = a" "ns ! j = b" by (auto simp: before_def)
  let ?s = "\<lambda>p. if p < q then p else Suc p"
  have "insert_at q x ns ! ?s p = ns ! p" if "p < length ns" for p
    using insert_at_nth [OF q, of "?s p" x] that by auto
  then have "insert_at q x ns ! ?s i = a" "insert_at q x ns ! ?s j = b" using ij by simp_all
  moreover have "?s i < ?s j" "?s j < length (insert_at q x ns)" using ij by auto
  ultimately show ?thesis unfolding before_def by blast
qed

lemma before_new:
  assumes "q \<le> length ns" and "p < length ns"
  shows "p < q \<Longrightarrow> before (insert_at q x ns) (ns ! p) x" and "q \<le> p \<Longrightarrow> before (insert_at q x ns) x (ns ! p)"
proof -
  show "before (insert_at q x ns) (ns ! p) x" if "p < q"
    unfolding before_def using insert_at_nth [OF assms(1)] assms that
    by (intro exI [of _ p] exI [of _ q]) auto
  show "before (insert_at q x ns) x (ns ! p)" if "q \<le> p"
    unfolding before_def using insert_at_nth [OF assms(1)] assms that
    by (intro exI [of _ q] exI [of _ "Suc p"]) auto
qed

lemma before_nth:
  assumes "before ns x y" and "distinct ns" and "p < length ns" and "ns ! p = x"
  obtains k where "p < k" "k < length ns" "y = ns ! k"
  using assms unfolding before_def by (metis (full_types) less_trans nth_eq_iff_index_eq)

section \<open>The invariant\<close>

definition next_in :: "'a list \<Rightarrow> nat \<Rightarrow> 'a option" where
  "next_in ns p = (if Suc p < length ns then Some (ns ! Suc p) else None)"

definition linked :: "'k skiplist \<Rightarrow> nat list \<Rightarrow> bool" where
  "linked sl ns \<longleftrightarrow>
     (\<forall>p < length ns. node_Next sl (ns ! p) 0 = Some (next_in ns p)) \<and>
     (\<forall>x \<in> set ns. \<forall>l v. node_Next sl x l = Some v \<longrightarrow>
        (0 < l \<longrightarrow> node_Next sl x (l - 1) \<noteq> None) \<and>
        (\<forall>y. v = Some y \<longrightarrow> before ns x y \<and> node_Next sl y l \<noteq> None))"

definition headed :: "'k skiplist \<Rightarrow> nat list \<Rightarrow> bool" where
  "headed sl ns \<longleftrightarrow> ns \<noteq> [] \<and> ns ! 0 = 0 \<and> distinct ns \<and> (\<forall>x \<in> set ns. x < length (sl_nodes sl)) \<and>
     1 \<le> max_height sl \<and> max_height sl \<le> kMaxHeight \<and>
     (\<forall>l < kMaxHeight. node_Next sl 0 l \<noteq> None) \<and>
     (\<forall>l < kMaxHeight. max_height sl \<le> l \<longrightarrow> node_Next sl 0 l = Some None)"

lemma linkedD:
  assumes "linked sl ns"
  shows "p < length ns \<Longrightarrow> node_Next sl (ns ! p) 0 = Some (next_in ns p)"
    and "x \<in> set ns \<Longrightarrow> node_Next sl x l = Some v \<Longrightarrow> 0 < l \<Longrightarrow> node_Next sl x (l - 1) \<noteq> None"
    and "x \<in> set ns \<Longrightarrow> node_Next sl x l = Some (Some y) \<Longrightarrow> before ns x y \<and> node_Next sl y l \<noteq> None"
  using assms by (auto simp: linked_def)

text \<open>The node at which a search left a level: the next one there is behind the place that is searched.\<close>

definition left_at :: "'k skiplist \<Rightarrow> nat list \<Rightarrow> nat \<Rightarrow> nat \<Rightarrow> nat option \<Rightarrow> bool" where
  "left_at sl ns q l r \<longleftrightarrow> (\<exists>p \<le> q. r = Some (ns ! p) \<and>
     (\<exists>v. node_Next sl (ns ! p) l = Some v \<and> (\<forall>y. v = Some y \<longrightarrow> (\<exists>k. q < k \<and> k < length ns \<and> y = ns ! k))))"

text \<open>One turn of a search for the place \<open>q\<close>, from a node that is not behind it.\<close>

lemma search_step:
  assumes linked: "linked sl ns" and dist: "distinct ns"
    and go: "\<forall>p. 0 < p \<and> p < length ns \<longrightarrow> go (Some (ns ! p)) = (p \<le> q)" "\<not> go None"
    and fine: "fine (ns ! p)" and q: "q < length ns" and p: "p \<le> q"
    and set: "node_Next sl (ns ! p) level \<noteq> None"
  shows "(\<exists>k. p < k \<and> k \<le> q \<and> node_Next sl (ns ! k) level \<noteq> None \<and>
            search_turn fine go sl (ns ! p, level, prev) = Some (Continue (ns ! k, level, prev))) \<or>
         left_at sl ns q level (Some (ns ! p)) \<and>
            (if level = 0 then p = q \<and>
               search_turn fine go sl (ns ! p, level, prev) = Some (Leave (ns ! q, next_in ns q, prev[0 := Some (ns ! q)]))
             else node_Next sl (ns ! p) (level - 1) \<noteq> None \<and>
               search_turn fine go sl (ns ! p, level, prev) = Some (Continue (ns ! p, level - 1, prev[level := Some (ns ! p)])))"
proof -
  have pl: "p < length ns" using p q by simp
  then have mem: "ns ! p \<in> set ns" by simp
  obtain v where v: "node_Next sl (ns ! p) level = Some v" using set by blast
  have ahead: "\<exists>k. p < k \<and> k < length ns \<and> y = ns ! k \<and> node_Next sl y level \<noteq> None" if "v = Some y" for y
    using linkedD(3) [OF linked mem] v that before_nth [OF _ dist pl refl] by (metis (no_types))
  show ?thesis
  proof (cases "go v")
    case True
    then obtain y where y: "v = Some y" using go(2) by (cases v) auto
    then obtain k where k: "p < k" "k < length ns" "y = ns ! k" "node_Next sl y level \<noteq> None" using ahead by blast
    then have "k \<le> q" using go(1) True y by simp
    then show ?thesis using k y v fine True by (auto simp: search_turn_def)
  next
    case False
    have left: "left_at sl ns q level (Some (ns ! p))"
      unfolding left_at_def using p v ahead go(1) False
      by (intro exI [of _ p]) (auto, metis gr_implies_not0 linorder_not_le neq0_conv)
    show ?thesis
    proof (cases "level = 0")
      case True
      then have "v = next_in ns p" using linkedD(1) [OF linked pl] v by simp
      moreover have "p = q"
      proof (rule ccontr)
        assume "p \<noteq> q"
        then have "Suc p \<le> q" using p by simp
        then show False using go(1) False \<open>v = next_in ns p\<close> q by (simp add: next_in_def split: if_splits)
      qed
      ultimately show ?thesis using True left v fine False by (simp add: search_turn_def)
    next
      case lev: False
      then show ?thesis using left v fine False linkedD(2) [OF linked mem v] by (simp add: search_turn_def)
    qed
  qed
qed

lemma search_loop:
  assumes linked: "linked sl ns" and dist: "distinct ns"
    and go: "\<forall>p. 0 < p \<and> p < length ns \<longrightarrow> go (Some (ns ! p)) = (p \<le> q)" "\<not> go None"
    and fine: "\<forall>p \<le> q. fine (ns ! p)" and q: "q < length ns"
  shows "p \<le> q \<Longrightarrow> node_Next sl (ns ! p) level \<noteq> None \<Longrightarrow> level < length prev \<Longrightarrow>
    \<exists>prev'. crun (search_turn fine go sl) (ns ! p, level, prev) = Some (ns ! q, next_in ns q, prev') \<and>
      length prev' = length prev \<and> (\<forall>l \<le> level. left_at sl ns q l (prev' ! l)) \<and> (\<forall>l > level. prev' ! l = prev ! l)"
proof (induction "level * Suc (length ns) + (length ns - p)" arbitrary: p level prev rule: less_induct)
  case less
  have "fine (ns ! p)" using fine less.prems(1) by blast
  from search_step [where go = go and fine = fine and p = p, OF linked dist go this q less.prems(1,2), of prev]
  show ?case
  proof (elim disjE exE conjE)
    fix k assume k: "p < k" "k \<le> q" "node_Next sl (ns ! k) level \<noteq> None"
      and t: "search_turn fine go sl (ns ! p, level, prev) = Some (Continue (ns ! k, level, prev))"
    have "level * Suc (length ns) + (length ns - k) < level * Suc (length ns) + (length ns - p)" using k q by simp
    from less.hyps [OF this k(2,3) less.prems(3)] show ?thesis using t by (simp add: crun_Continue)
  next
    assume left: "left_at sl ns q level (Some (ns ! p))"
      and t: "if level = 0 then p = q \<and>
               search_turn fine go sl (ns ! p, level, prev) = Some (Leave (ns ! q, next_in ns q, prev[0 := Some (ns ! q)]))
             else node_Next sl (ns ! p) (level - 1) \<noteq> None \<and>
               search_turn fine go sl (ns ! p, level, prev) = Some (Continue (ns ! p, level - 1, prev[level := Some (ns ! p)]))"
    show ?thesis
    proof (cases "level = 0")
      case True
      then show ?thesis using t left less.prems(3) by (auto simp: crun_Leave)
    next
      case False
      let ?prev = "prev[level := Some (ns ! p)]"
      have "(level - 1) * Suc (length ns) + (length ns - p) < level * Suc (length ns) + (length ns - p)" using False by (cases level) auto
      moreover have "node_Next sl (ns ! p) (level - 1) \<noteq> None" "level - 1 < length ?prev" using t False less.prems(3) by simp_all
      ultimately obtain prev' where
        r: "crun (search_turn fine go sl) (ns ! p, level - 1, ?prev) = Some (ns ! q, next_in ns q, prev')"
          "length prev' = length prev" "\<forall>l \<le> level - 1. left_at sl ns q l (prev' ! l)" "\<forall>l > level - 1. prev' ! l = ?prev ! l"
        using less.hyps [where level = "level - 1" and p = p and prev = ?prev, OF _ less.prems(1)] unfolding length_list_update by blast
      have "prev' ! level = Some (ns ! p)" using r(4) False less.prems(3) by simp
      then have "\<forall>l \<le> level. left_at sl ns q l (prev' ! l)" using r(3) left by (metis Suc_pred' False bot_nat_0.not_eq_extremum le_SucE)
      then show ?thesis using r t False by (auto simp: crun_Continue)
    qed
  qed
qed

lemma random_height_bounds: "height \<le> kMaxHeight \<Longrightarrow> height \<le> fst (random_height height seed) \<and> fst (random_height height seed) \<le> kMaxHeight"
proof (induction height seed rule: random_height.induct)
  case (1 height seed)
  obtain r s where rs: "random_Next seed = (r, s)" by (cases "random_Next seed")
  have "height \<le> fst (random_height (height + 1) s) \<and> fst (random_height (height + 1) s) \<le> kMaxHeight"
    if "height < kMaxHeight" "unat r mod kBranching = 0"
    using "1.IH" [OF that(1) refl rs [symmetric] that(2)] that(1) by simp
  then show ?case using "1.prems" rs by (simp add: random_height.simps [of height seed])
qed

lemma RandomHeight_bounds: "1 \<le> fst (RandomHeight seed) \<and> fst (RandomHeight seed) \<le> kMaxHeight"
  unfolding RandomHeight_def by (rule random_height_bounds) (simp add: kMaxHeight_def)

section \<open>Searches in a sorted list\<close>

context comparator
begin

definition sl_entries :: "'k skiplist \<Rightarrow> nat list \<Rightarrow> ('k \<times> nat) list" where
  "sl_entries sl ns = map (\<lambda>x. (key_of sl x, x)) (tl ns)"

definition searchable :: "'k skiplist \<Rightarrow> nat list \<Rightarrow> bool" where
  "searchable sl ns \<longleftrightarrow> headed sl ns \<and> linked sl ns \<and> ordered (map fst (sl_entries sl ns))"

abbreviation (input) place :: "'k \<Rightarrow> 'k skiplist \<Rightarrow> nat list \<Rightarrow> nat" where
  "place key sl ns \<equiv> below key (sl_entries sl ns)"

lemma length_sl_entries: "length (sl_entries sl ns) = length ns - 1"
  by (simp add: sl_entries_def)

lemma sl_entries_nth: "Suc p < length ns \<Longrightarrow> sl_entries sl ns ! p = (key_of sl (ns ! Suc p), ns ! Suc p)"
  by (cases ns) (simp_all add: sl_entries_def)

lemma place_less: "searchable sl ns \<Longrightarrow> place key sl ns < length ns"
  using below_le [of key "sl_entries sl ns"] by (cases ns) (auto simp: searchable_def headed_def length_sl_entries)

lemma place_iff:
  assumes "searchable sl ns" and "0 < p" and "p < length ns"
  shows "compare (key_of sl (ns ! p)) key < 0 \<longleftrightarrow> p \<le> place key sl ns"
proof -
  obtain k where k: "p = Suc k" using assms(2) by (cases p) auto
  then have e: "sl_entries sl ns ! k = (key_of sl (ns ! p), ns ! p)" "k < length (sl_entries sl ns)"
    using assms(3) by (simp_all add: sl_entries_nth length_sl_entries)
  have o: "ordered (map fst (sl_entries sl ns))" using assms(1) by (simp add: searchable_def)
  show ?thesis
    using below_less [of k key "sl_entries sl ns"] ordered_below [OF o e(2), of key] e(1) k by (auto simp: Suc_le_eq)
qed

lemma search_start_at:
  assumes "searchable sl ns"
  shows "search_start sl = (ns ! 0, max_height sl - 1, replicate kMaxHeight None)"
    and "node_Next sl (ns ! 0) (max_height sl - 1) \<noteq> None" and "max_height sl - 1 < length (replicate kMaxHeight (None :: nat option))"
  using assms by (auto simp: searchable_def headed_def search_start_def kMaxHeight_def)

lemma search_at:
  assumes s: "searchable sl ns" and q: "q < length ns"
    and go: "\<forall>p. 0 < p \<and> p < length ns \<longrightarrow> go (Some (ns ! p)) = (p \<le> q)" "\<not> go None"
    and fine: "\<forall>p \<le> q. fine (ns ! p)"
  shows "\<exists>prev. crun (search_turn fine go sl) (search_start sl) = Some (ns ! q, next_in ns q, prev) \<and>
    length prev = kMaxHeight \<and> (\<forall>l < max_height sl. left_at sl ns q l (prev ! l))"
proof -
  have linked: "linked sl ns" and dist: "distinct ns" and m: "1 \<le> max_height sl"
    using s by (simp_all add: searchable_def headed_def)
  from search_loop [where go = go and fine = fine and p = 0, OF linked dist go fine q _ search_start_at(2,3) [OF s]]
  obtain prev where "crun (search_turn fine go sl) (search_start sl) = Some (ns ! q, next_in ns q, prev)"
      "length prev = kMaxHeight" "\<forall>l \<le> max_height sl - 1. left_at sl ns q l (prev ! l)"
    unfolding search_start_at(1) [OF s] by auto
  then show ?thesis using m by auto
qed

lemma FindGreaterOrEqual_at:
  assumes "searchable sl ns"
  shows "\<exists>prev. FindGreaterOrEqual compare sl key = Some (next_in ns (place key sl ns), prev) \<and>
    length prev = kMaxHeight \<and> (\<forall>l < max_height sl. left_at sl ns (place key sl ns) l (prev ! l))"
proof -
  have go: "\<forall>p. 0 < p \<and> p < length ns \<longrightarrow> KeyIsAfterNode compare sl key (Some (ns ! p)) = (p \<le> place key sl ns)"
    using place_iff [OF assms] by (simp add: KeyIsAfterNode_def)
  have none: "\<not> KeyIsAfterNode compare sl key None" by (simp add: KeyIsAfterNode_def)
  from search_at [where fine = "\<lambda>x. True", OF assms place_less [OF assms, of key] go none]
  show ?thesis by (auto simp: FindGreaterOrEqual_def)
qed

lemma FindLessThan_at:
  assumes "searchable sl ns"
  shows "FindLessThan compare sl key = Some (ns ! place key sl ns)"
proof -
  let ?go = "\<lambda>next. \<not> (case next of None \<Rightarrow> True | Some y \<Rightarrow> 0 \<le> compare (key_of sl y) key)"
  have go: "\<forall>p. 0 < p \<and> p < length ns \<longrightarrow> ?go (Some (ns ! p)) = (p \<le> place key sl ns)"
    using place_iff [OF assms, of _ key] by (simp add: not_le)
  have head: "ns ! 0 = 0" using assms by (simp add: searchable_def headed_def)
  have fine: "\<forall>p \<le> place key sl ns. ns ! p = 0 \<or> compare (key_of sl (ns ! p)) key < 0"
    using place_iff [OF assms, of _ key] place_less [OF assms, of key] head by (metis le_less_trans neq0_conv)
  from search_at [where go = ?go, OF assms place_less [OF assms, of key] go _ fine]
  show ?thesis by (auto simp: FindLessThan_def)
qed

lemma FindLast_at:
  assumes "searchable sl ns"
  shows "FindLast sl = Some (ns ! (length ns - 1))"
proof -
  have "ns \<noteq> []" using assms by (simp add: searchable_def headed_def)
  then have q: "length ns - 1 < length ns" by simp
  have go: "\<forall>p. 0 < p \<and> p < length ns \<longrightarrow> (Some (ns ! p) \<noteq> None) = (p \<le> length ns - 1)" by auto
  from search_at [where go = "\<lambda>next. next \<noteq> None" and fine = "\<lambda>x. True", OF assms q go]
  show ?thesis by (auto simp: FindLast_def)
qed

section \<open>Insertion\<close>

text \<open>
  The state while the node \<open>x\<close> is linked behind place \<open>q\<close> of the list, after \<open>i\<close> of its levels: from the first level on it
  belongs to the list.
\<close>

definition nodes_at :: "nat \<Rightarrow> nat list \<Rightarrow> nat \<Rightarrow> nat \<Rightarrow> nat list" where
  "nodes_at i ns q x = (if i = 0 then ns else insert_at (Suc q) x ns)"

definition linking :: "'k skiplist \<Rightarrow> nat list \<Rightarrow> nat \<Rightarrow> nat \<Rightarrow> nat option list \<Rightarrow> nat \<Rightarrow> nat \<Rightarrow> bool" where
  "linking sl ns q x prev height i \<longleftrightarrow>
     searchable sl (nodes_at i ns q x) \<and> distinct ns \<and> q < length ns \<and> x \<notin> set ns \<and> x < length (sl_nodes sl) \<and>
     length (node_links (sl_nodes sl ! x)) = height \<and> height \<le> length prev \<and> height \<le> kMaxHeight \<and> i \<le> height \<and>
     (\<forall>l < i. node_Next sl x l \<noteq> None) \<and> (\<forall>l \<ge> i. node_Next sl x l = None) \<and>
     (\<forall>l. i \<le> l \<and> l < height \<longrightarrow> left_at sl ns q l (prev ! l)) \<and>
     (\<forall>l. l < height \<longrightarrow> l < max_height sl) \<and>
     (\<forall>p. 0 < p \<and> p \<le> q \<longrightarrow> compare (key_of sl (ns ! p)) (key_of sl x) < 0) \<and>
     (\<forall>p. q < p \<and> p < length ns \<longrightarrow> compare (key_of sl x) (key_of sl (ns ! p)) < 0)"

lemma linked_SetNext:
  assumes "linked sl ns" and "node_SetNext sl z l y = Some sl'" and "0 < l \<or> z \<notin> set ns"
    and "z \<in> set ns \<Longrightarrow> node_Next sl z (l - 1) \<noteq> None \<and> (\<forall>x. y = Some x \<longrightarrow> before ns z x \<and> node_Next sl x l \<noteq> None)"
  shows "linked sl' ns"
proof -
  note set = node_SetNext_Some(1) [OF assms(2)]
  have keep: "node_Next sl' x m \<noteq> None" if "node_Next sl x m \<noteq> None" for x m using that set by simp
  show ?thesis
    unfolding linked_def
  proof (intro conjI allI ballI impI)
    fix p assume p: "p < length ns"
    then have "\<not> (ns ! p = z \<and> 0 = l)" using assms(3) nth_mem [OF p] by auto
    then show "node_Next sl' (ns ! p) 0 = Some (next_in ns p)" using set linkedD(1) [OF assms(1) p] by auto
  next
    fix x m v assume x: "x \<in> set ns" "node_Next sl' x m = Some v"
    show "node_Next sl' x (m - 1) \<noteq> None" if "0 < m"
      using x that set assms(4) linkedD(2) [OF assms(1) x(1)] keep by (cases "x = z \<and> m = l") auto
    fix u assume u: "v = Some u"
    show "before ns x u"
      using x u set assms(4) linkedD(3) [OF assms(1) x(1)] by (cases "x = z \<and> m = l") auto
    show "node_Next sl' u m \<noteq> None"
      using x u set assms(4) linkedD(3) [OF assms(1) x(1)] keep by (cases "x = z \<and> m = l") auto
  qed
qed

text \<open>Publishing a node on the lowest level puts it into the list.\<close>

lemma linked_insert:
  assumes linked: "linked sl ns" and dist: "distinct ns" and q: "q < length ns" and x: "x \<notin> set ns"
    and xl: "node_Next sl x 0 = Some (next_in ns q)" "\<forall>l > 0. node_Next sl x l = None"
    and set: "node_SetNext sl (ns ! q) 0 (Some x) = Some sl'"
  shows "linked sl' (insert_at (Suc q) x ns)"
proof -
  let ?ns = "insert_at (Suc q) x ns"
  note new = node_SetNext_Some(1) [OF set]
  have keep: "node_Next sl' y m \<noteq> None" if "node_Next sl y m \<noteq> None" for y m using that new by simp
  have q': "Suc q \<le> length ns" using q by simp
  have xq: "x \<noteq> ns ! q" using x q by (metis nth_mem)
  have x0: "node_Next sl' x l = (if l = 0 then Some (next_in ns q) else None)" for l using new xq xl by simp
  show ?thesis
    unfolding linked_def
  proof (intro conjI allI ballI impI)
    fix p assume "p < length ?ns"
    then have p: "p < Suc (length ns)" by simp
    consider "p \<le> q" | "p = Suc q" | "Suc q < p" by linarith
    then show "node_Next sl' (?ns ! p) 0 = Some (next_in ?ns p)"
    proof cases
      case 1
      then have pl: "p < length ns" using q by simp
      have "ns ! p = ns ! q \<longleftrightarrow> p = q" using dist pl q by (simp add: nth_eq_iff_index_eq)
      then show ?thesis
        using 1 q new linkedD(1) [OF linked pl] by (auto simp: next_in_def insert_at_nth [OF q'])
    next
      case 2
      then show ?thesis using q x0 by (auto simp: next_in_def insert_at_nth [OF q'])
    next
      case 3
      then have pl: "p - 1 < length ns" using p by simp
      have "ns ! (p - 1) \<noteq> ns ! q" using dist pl q 3 by (simp add: nth_eq_iff_index_eq)
      then show ?thesis
        using 3 p new linkedD(1) [OF linked pl] by (auto simp: next_in_def insert_at_nth [OF q'])
    qed
  next
    fix y m v assume y: "y \<in> set ?ns" "node_Next sl' y m = Some v"
    show "node_Next sl' y (m - 1) \<noteq> None" if "0 < m"
    proof (cases "y = x")
      case False
      then have "y \<in> set ns" using y(1) by simp
      moreover have "node_Next sl y m = Some v" using y(2) new that by simp
      ultimately show ?thesis using linkedD(2) [OF linked _ _ that] keep by blast
    qed (use that y(2) x0 in \<open>simp split: if_splits\<close>)
    fix u assume u: "v = Some u"
    have "before ?ns y u \<and> node_Next sl' u m \<noteq> None"
    proof (cases "y = x")
      case True
      then have m: "m = 0" "u = ns ! Suc q" "Suc q < length ns"
        using y(2) u x0 by (auto simp: next_in_def split: if_splits)
      then show ?thesis
        using True before_new(2) [OF q' m(3), of x] keep [of u 0] linkedD(1) [OF linked m(3)] by simp
    next
      case False
      then have yn: "y \<in> set ns" using y(1) by simp
      show ?thesis
      proof (cases "y = ns ! q \<and> m = 0")
        case True
        then have "u = x" using y(2) u new by simp
        then show ?thesis using True before_new(1) [OF q' q, of x] x0 by simp
      next
        case False
        then have "node_Next sl y m = Some (Some u)" using y(2) u new by (auto split: if_splits)
        then show ?thesis using linkedD(3) [OF linked yn] before_insert_at [OF _ q'] keep by blast
      qed
    qed
    then show "before ?ns y u" "node_Next sl' u m \<noteq> None" by simp_all
  qed
qed

lemma ordered_insert_at:
  assumes "ordered ks" and "q \<le> length ks"
    and "\<forall>r < q. compare (ks ! r) k < 0" and "\<forall>r. q \<le> r \<and> r < length ks \<longrightarrow> compare k (ks ! r) < 0"
  shows "ordered (insert_at q k ks)"
proof -
  have "ordered (take q ks @ drop q ks)" using assms(1) by simp
  then have "ordered (take q ks)" "ordered (drop q ks)" "\<forall>a \<in> set (take q ks). \<forall>b \<in> set (drop q ks). compare a b < 0"
    unfolding ordered_def sorted_wrt_append by blast+
  moreover have "\<forall>a \<in> set (take q ks). compare a k < 0" using assms(2,3) by (auto simp: in_set_conv_nth)
  moreover have "\<forall>b \<in> set (drop q ks). compare k b < 0" using assms(2,4) by (auto simp: in_set_conv_nth)
  ultimately show ?thesis by (auto simp: insert_at_def ordered_def sorted_wrt_append)
qed

lemma sl_entries_insert_at:
  assumes "ns \<noteq> []"
  shows "map fst (sl_entries sl (insert_at (Suc q) x ns)) = insert_at q (key_of sl x) (map fst (sl_entries sl ns))"
  using assms by (cases ns) (simp_all add: sl_entries_def insert_at_def take_map drop_map)

lemma headed_SetNext:
  assumes "headed sl ns" and "node_SetNext sl z l y = Some sl'" and "z = 0 \<Longrightarrow> l < max_height sl"
  shows "headed sl' ns"
  using assms node_SetNext_Some [OF assms(2)] by (auto simp: headed_def)

lemma headed_insert: "headed sl ns \<Longrightarrow> x \<notin> set ns \<Longrightarrow> x < length (sl_nodes sl) \<Longrightarrow> headed sl (insert_at (Suc q) x ns)"
proof -
  assume h: "headed sl ns" and x: "x \<notin> set ns" "x < length (sl_nodes sl)"
  then have "insert_at (Suc q) x ns ! 0 = ns ! 0" "insert_at (Suc q) x ns \<noteq> []"
    by (cases ns; simp add: headed_def insert_at_def)+
  with h x show ?thesis by (simp add: headed_def)
qed

lemma link_step:
  assumes J: "linking sl ns q x prev height i" and i: "i < height"
  obtains sl1 sl2 where "link_node sl x prev i = Some sl1" "publish_node sl1 x prev i = Some sl2"
    "searchable sl1 (nodes_at i ns q x)" "linking sl2 ns q x prev height (Suc i)" "key_of sl1 = key_of sl" "key_of sl2 = key_of sl"
    "length (sl_nodes sl2) = length (sl_nodes sl)" "sl_rnd sl2 = sl_rnd sl"
proof -
  let ?N = "nodes_at i ns q x"
  have s: "headed sl ?N" "linked sl ?N" "ordered (map fst (sl_entries sl ?N))"
    using J by (simp_all add: linking_def searchable_def)
  have x: "x \<notin> set ns" "x < length (sl_nodes sl)" "length (node_links (sl_nodes sl ! x)) = height" and q: "q < length ns"
    and dist: "distinct ns" and height: "height \<le> length prev" "height \<le> kMaxHeight"
    using J by (simp_all add: linking_def)
  have im: "i < max_height sl" and below: "\<forall>l < i. node_Next sl x l \<noteq> None" and above: "\<forall>l \<ge> i. node_Next sl x l = None"
    using J i by (simp_all add: linking_def)
  have "left_at sl ns q i (prev ! i)" using J i by (simp add: linking_def)
  then obtain p v where p: "p \<le> q" "prev ! i = Some (ns ! p)" "node_Next sl (ns ! p) i = Some v"
    and v: "\<forall>y. v = Some y \<longrightarrow> (\<exists>k. q < k \<and> k < length ns \<and> y = ns ! k)" unfolding left_at_def by blast
  have pl: "p < length ns" using p(1) q by simp
  then have px: "ns ! p \<noteq> x" "ns ! p \<in> set ns" using x(1) by (metis nth_mem)+
  have q': "Suc q \<le> length ns" using q by simp
  have x0: "x \<noteq> 0" using s(1) x(1) q by (cases ns) (auto simp: headed_def nodes_at_def insert_at_def split: if_splits)
  obtain sl1 where sl1: "node_SetNext sl x i v = Some sl1"
    using node_SetNext_defined [OF x(2), of i v] i x(3) by auto
  note n1 = node_SetNext_Some [OF sl1]
  have next1: "node_Next sl1 (ns ! p) i = Some v" using n1(1) px p(3) by simp
  obtain sl2 where sl2: "node_SetNext sl1 (ns ! p) i (Some x) = Some sl2"
    using node_SetNext_defined node_Next_range [OF next1] by blast
  note n2 = node_SetNext_Some [OF sl2]
  have memN: "z \<in> set ?N" if "z \<in> set ns" for z using that by (simp add: nodes_at_def)
  have linkset: "node_Next sl y i \<noteq> None" if "v = Some y" for y
    using linkedD(3) [OF s(2) memN [OF px(2)]] p(3) that by simp
  have beforex: "before (insert_at (Suc q) x ns) x y" if "v = Some y" for y
    using v that before_new(2) [OF q', of _ x] by (metis Suc_leI)
  have linked1: "linked sl1 ?N"
  proof (rule linked_SetNext [OF s(2) sl1])
    show "0 < i \<or> x \<notin> set ?N" using x(1) by (auto simp: nodes_at_def)
    assume "x \<in> set ?N"
    then have "0 < i" using x(1) by (simp add: nodes_at_def split: if_splits)
    then show "node_Next sl x (i - 1) \<noteq> None \<and> (\<forall>y. v = Some y \<longrightarrow> before ?N x y \<and> node_Next sl y i \<noteq> None)"
      using below linkset beforex by (simp add: nodes_at_def)
  qed
  have headed1: "headed sl1 ?N" by (rule headed_SetNext [OF s(1) sl1]) (use x0 in simp)
  have headed2: "headed sl2 ?N" by (rule headed_SetNext [OF headed1 sl2]) (use im n1(4) in simp)
  have linked2: "linked sl2 (insert_at (Suc q) x ns)"
  proof (cases "i = 0")
    case True
    then have N: "?N = ns" by (simp add: nodes_at_def)
    have vq: "v = next_in ns p" using linkedD(1) [OF s(2) [unfolded N] pl] p(3) True by simp
    have "p = q"
    proof (rule ccontr)
      assume "p \<noteq> q"
      then have "v = Some (ns ! Suc p)" "Suc p \<le> q" using p(1) q vq by (simp_all add: next_in_def)
      then show False using v dist q by (metis le_less_trans less_irrefl nth_eq_iff_index_eq)
    qed
    show ?thesis
      by (rule linked_insert [OF linked1 [unfolded N] dist q x(1), of sl2])
        (use n1(1) vq \<open>p = q\<close> True above sl2 in auto)
  next
    case False
    then have N: "?N = insert_at (Suc q) x ns" by (simp add: nodes_at_def)
    show ?thesis unfolding N [symmetric]
    proof (rule linked_SetNext [OF linked1 sl2])
      have "node_Next sl (ns ! p) (i - 1) \<noteq> None" using linkedD(2) [OF s(2) memN [OF px(2)] p(3)] False by simp
      moreover have "before ?N (ns ! p) x" unfolding N using before_new(1) [OF q' pl, of x] p(1) by simp
      ultimately show "node_Next sl1 (ns ! p) (i - 1) \<noteq> None \<and>
          (\<forall>y. Some x = Some y \<longrightarrow> before ?N (ns ! p) y \<and> node_Next sl1 y i \<noteq> None)"
        using n1(1) by auto
    qed (use False in simp)
  qed
  have keys: "key_of sl1 = key_of sl" "key_of sl2 = key_of sl" using n1(2) n2(2) by simp_all
  have ents: "sl_entries sl1 = sl_entries sl" "sl_entries sl2 = sl_entries sl" by (simp_all add: sl_entries_def keys fun_eq_iff)
  have between: "\<forall>p. 0 < p \<and> p \<le> q \<longrightarrow> compare (key_of sl (ns ! p)) (key_of sl x) < 0"
    "\<forall>p. q < p \<and> p < length ns \<longrightarrow> compare (key_of sl x) (key_of sl (ns ! p)) < 0"
    using J by (simp_all add: linking_def)
  have ord2: "ordered (map fst (sl_entries sl2 (insert_at (Suc q) x ns)))"
  proof (cases "i = 0")
    case True
    have ne: "ns \<noteq> []" using q by auto
    have nth: "map fst (sl_entries sl ns) ! r = key_of sl (ns ! Suc r)" if "Suc r < length ns" for r
      using that sl_entries_nth [OF that] by (simp add: length_sl_entries)
    show ?thesis unfolding ents sl_entries_insert_at [OF ne]
      by (rule ordered_insert_at) (use s(3) True q between nth in \<open>auto simp: nodes_at_def length_sl_entries\<close>)
  qed (use s(3) in \<open>simp add: ents nodes_at_def\<close>)
  have head2: "headed sl2 (insert_at (Suc q) x ns)"
  proof (cases "i = 0")
    case True
    then show ?thesis using headed_insert [OF headed2 [unfolded nodes_at_def], of x q] x n1(3) n2(3) by simp
  qed (use headed2 in \<open>simp add: nodes_at_def\<close>)
  have links2: "length (node_links (sl_nodes sl2 ! x)) = height"
    using sl1 sl2 x by (auto simp: node_SetNext_def Let_def nth_list_update split: if_splits)
  have left2: "left_at sl2 ns q l (prev ! l)" if "Suc i \<le> l" "l < height" for l
    using J that n1(1) n2(1) unfolding linking_def left_at_def by (auto simp: Suc_le_eq)
  have "linking sl2 ns q x prev height (Suc i)"
    unfolding linking_def
    using linked2 head2 ord2 dist q x(1,2) n1 n2 px(1) height i links2 left2 J keys below above
    by (auto simp: searchable_def nodes_at_def linking_def less_Suc_eq)
  moreover have "searchable sl1 ?N" using headed1 linked1 s(3) ents by (simp add: searchable_def)
  moreover have "link_node sl x prev i = Some sl1" "publish_node sl1 x prev i = Some sl2"
    using i height(1) p(2,3) sl1 sl2 by (simp_all add: link_node_def publish_node_def)
  ultimately show ?thesis using that keys n1 n2 by simp
qed

lemma link_levels_at:
  "linking sl ns q x prev height i \<Longrightarrow> i \<le> height \<Longrightarrow>
    \<exists>sl'. link_levels sl x prev [i ..< height] = Some sl' \<and> linking sl' ns q x prev height height \<and>
      key_of sl' = key_of sl \<and> length (sl_nodes sl') = length (sl_nodes sl) \<and> sl_rnd sl' = sl_rnd sl"
proof (induction "height - i" arbitrary: i sl)
  case (Suc n)
  then have i: "i < height" by simp
  obtain sl1 sl2 where s: "link_node sl x prev i = Some sl1" "publish_node sl1 x prev i = Some sl2"
    "linking sl2 ns q x prev height (Suc i)" "key_of sl2 = key_of sl" "length (sl_nodes sl2) = length (sl_nodes sl)"
    "sl_rnd sl2 = sl_rnd sl"
    using link_step [OF Suc.prems(1) i] by metis
  have "n = height - Suc i" "Suc i \<le> height" using Suc.hyps(2) i by simp_all
  from Suc.hyps(1) [OF this(1) s(3) this(2)] show ?case
    using s i by (auto simp: upt_conv_Cons)
qed simp

text \<open>What \<open>Insert\<close> prepares: the node is not yet in the list.\<close>

lemma insert_start_at:
  assumes s: "searchable sl ns" and fresh: "\<forall>x \<in> set (tl ns). compare key (key_of sl x) \<noteq> 0"
  shows "\<exists>sl' prev height. insert_start compare sl key = Some (sl', length (sl_nodes sl), prev, height) \<and>
    linking sl' ns (place key sl ns) (length (sl_nodes sl)) prev height 0 \<and> 1 \<le> height \<and>
    key_of sl' (length (sl_nodes sl)) = key \<and> (\<forall>y < length (sl_nodes sl). key_of sl' y = key_of sl y) \<and>
    length (sl_nodes sl') = Suc (length (sl_nodes sl))"
proof -
  let ?q = "place key sl ns" and ?x = "length (sl_nodes sl)"
  have h: "headed sl ns" and l: "linked sl ns" and o: "ordered (map fst (sl_entries sl ns))"
    using s by (simp_all add: searchable_def)
  have q: "?q < length ns" by (rule place_less [OF s])
  obtain prev where f: "FindGreaterOrEqual compare sl key = Some (next_in ns ?q, prev)" "length prev = kMaxHeight"
    "\<forall>l < max_height sl. left_at sl ns ?q l (prev ! l)"
    using FindGreaterOrEqual_at [OF s] by blast
  obtain height seed where r: "RandomHeight (sl_rnd sl) = (height, seed)" by (cases "RandomHeight (sl_rnd sl)")
  then have height: "1 \<le> height" "height \<le> kMaxHeight" using RandomHeight_bounds [of "sl_rnd sl"] by simp_all
  have mem: "ns ! p \<in> set (tl ns)" if "0 < p" "p < length ns" for p
    using that by (cases ns; cases p) auto
  have nodup: "\<not> (case next_in ns ?q of None \<Rightarrow> False | Some y \<Rightarrow> compare key (key_of sl y) = 0)"
    using fresh mem by (auto simp: next_in_def)
  define sl1 prev1 where "sl1 = (sl\<lparr>sl_rnd := seed\<rparr>)\<lparr>max_height := max (max_height sl) height\<rparr>"
    and "prev1 = snd (raise_height (sl\<lparr>sl_rnd := seed\<rparr>) prev height)"
  have raise: "raise_height (sl\<lparr>sl_rnd := seed\<rparr>) prev height = (sl1, prev1)"
    by (simp add: raise_height_def sl1_def prev1_def max_def)
  have prev1: "length prev1 = kMaxHeight"
    "\<forall>l < kMaxHeight. prev1 ! l = (if max_height sl \<le> l \<and> l < height then Some 0 else prev ! l)"
    using f(2) by (auto simp: prev1_def raise_height_def)
  define sl2 where "sl2 = snd (NewNode sl1 key height)"
  have new: "NewNode sl1 key height = (?x, sl2)" by (simp add: sl2_def NewNode_def sl1_def)
  have start: "insert_start compare sl key = Some (sl2, ?x, prev1, height)"
    using f(1) nodup r raise new by (simp add: insert_start_def)
  have nodes: "sl_nodes sl2 = sl_nodes sl @ [\<lparr>node_key = key, node_links = replicate height None\<rparr>]"
    "max_height sl2 = max (max_height sl) height"
    by (simp_all add: sl2_def NewNode_def sl1_def)
  have old: "y < ?x \<Longrightarrow> node_Next sl2 y m = node_Next sl y m" "y < ?x \<Longrightarrow> key_of sl2 y = key_of sl y" for y m
    by (simp_all add: node_Next_def key_of_def nodes nth_append)
  have newx: "node_Next sl2 ?x m = None" "key_of sl2 ?x = key" for m
    by (auto simp: node_Next_def key_of_def nodes)
  have small: "\<forall>x \<in> set ns. x < ?x" "ns \<noteq> []" "ns ! 0 = 0" "distinct ns" using h by (simp_all add: headed_def)
  have zero: "0 < ?x" using small by (metis length_greater_0_conv nth_mem)
  have headed2: "headed sl2 ns"
    using h height zero by (auto simp: headed_def nodes old less_Suc_eq max_def)
  have linked2: "linked sl2 ns"
    unfolding linked_def
  proof (intro conjI allI ballI impI)
    show "node_Next sl2 (ns ! p) 0 = Some (next_in ns p)" if "p < length ns" for p
      using that old small(1) linkedD(1) [OF l that] by simp
    fix x m v assume x: "x \<in> set ns" "node_Next sl2 x m = Some v"
    then have xv: "node_Next sl x m = Some v" using old small(1) by simp
    show "node_Next sl2 x (m - 1) \<noteq> None" if "0 < m" using linkedD(2) [OF l x(1) xv that] old small(1) x(1) by simp
    fix y assume y: "v = Some y"
    show "before ns x y" using linkedD(3) [OF l x(1)] xv y by blast
    then have "y \<in> set ns" by (auto simp: before_def)
    then show "node_Next sl2 y m \<noteq> None" using linkedD(3) [OF l x(1)] xv y old small(1) by auto
  qed
  have "sl_entries sl2 ns = sl_entries sl ns" using small by (auto simp: sl_entries_def old dest: list.set_sel(2))
  then have search2: "searchable sl2 ns" using headed2 linked2 o by (simp add: searchable_def)
  have left2: "left_at sl2 ns ?q m (prev1 ! m)" if m: "m < height" for m
  proof (cases "max_height sl \<le> m")
    case True
    then have "prev1 ! m = Some (ns ! 0)" using prev1(2) m height(2) small(3) by simp
    moreover have "node_Next sl2 (ns ! 0) m = Some None"
      using h True m height(2) small(3) old(1) [OF zero] by (simp add: headed_def)
    ultimately show ?thesis unfolding left_at_def by (intro exI [of _ 0]) simp
  next
    case False
    then have "left_at sl ns ?q m (prev1 ! m)" using f(3) prev1(2) m height(2) by simp
    moreover have "ns ! p < ?x" if "p \<le> ?q" for p using that q small(1) by simp
    ultimately show ?thesis using old(1) unfolding left_at_def by metis
  qed
  have "0 < p \<and> p \<le> ?q \<longrightarrow> compare (key_of sl2 (ns ! p)) key < 0" for p
    using place_iff [OF s, of p key] q old(2) small(1) by auto
  moreover have "?q < p \<and> p < length ns \<longrightarrow> compare key (key_of sl2 (ns ! p)) < 0" for p
  proof
    assume p: "?q < p \<and> p < length ns"
    then have "\<not> compare (key_of sl (ns ! p)) key < 0" using place_iff [OF s, of p key] by simp
    moreover have "compare key (key_of sl (ns ! p)) \<noteq> 0" using fresh mem [of p] p by simp
    ultimately have "compare key (key_of sl (ns ! p)) < 0" using compare_swap [of "key_of sl (ns ! p)" key] by linarith
    then show "compare key (key_of sl2 (ns ! p)) < 0" using old(2) small(1) p by simp
  qed
  ultimately have "linking sl2 ns ?q ?x prev1 height 0"
    unfolding linking_def nodes_at_def
    using search2 small(1,4) q prev1(1) height newx left2 by (auto simp: nodes)
  then show ?thesis using start height(1) newx old(2) nodes by (intro exI [of _ sl2] exI [of _ prev1] exI [of _ height]) simp
qed

lemma Insert_at:
  assumes s: "searchable sl ns" and fresh: "\<forall>x \<in> set (tl ns). compare key (key_of sl x) \<noteq> 0"
  shows "\<exists>sl'. Insert compare sl key = Some sl' \<and>
    searchable sl' (insert_at (Suc (place key sl ns)) (length (sl_nodes sl)) ns) \<and>
    key_of sl' (length (sl_nodes sl)) = key \<and> (\<forall>y < length (sl_nodes sl). key_of sl' y = key_of sl y) \<and>
    length (sl_nodes sl') = Suc (length (sl_nodes sl))"
proof -
  obtain sl1 prev height where i: "insert_start compare sl key = Some (sl1, length (sl_nodes sl), prev, height)"
    "linking sl1 ns (place key sl ns) (length (sl_nodes sl)) prev height 0" "1 \<le> height"
    "key_of sl1 (length (sl_nodes sl)) = key" "\<forall>y < length (sl_nodes sl). key_of sl1 y = key_of sl y"
    "length (sl_nodes sl1) = Suc (length (sl_nodes sl))"
    using insert_start_at [OF assms] by blast
  obtain sl2 where l: "link_levels sl1 (length (sl_nodes sl)) prev [0 ..< height] = Some sl2"
    "linking sl2 ns (place key sl ns) (length (sl_nodes sl)) prev height height" "key_of sl2 = key_of sl1"
    "length (sl_nodes sl2) = length (sl_nodes sl1)"
    using link_levels_at [OF i(2)] by auto
  then have "searchable sl2 (insert_at (Suc (place key sl ns)) (length (sl_nodes sl)) ns)"
    using i(3) by (simp add: linking_def nodes_at_def)
  with i l show ?thesis by (simp add: Insert_def)
qed

lemma make_SkipList_searchable: "searchable (make_SkipList k) [0]"
  by (auto simp: searchable_def headed_def linked_def make_SkipList_def node_Next_def next_in_def kMaxHeight_def
      sl_entries_def less_Suc_eq_0_disj split: if_splits)

section \<open>The contents\<close>

lemma follow_at:
  assumes "linked sl ns"
  shows "p < length ns \<Longrightarrow> length ns - p \<le> n \<Longrightarrow> follow sl n (ns ! p) = drop (Suc p) ns"
proof (induction n arbitrary: p)
  case (Suc n)
  show ?case
  proof (cases "Suc p < length ns")
    case True
    then have "follow sl n (ns ! Suc p) = drop (Suc (Suc p)) ns" using Suc by simp
    then show ?thesis using linkedD(1) [OF assms Suc.prems(1)] True by (simp add: next_in_def Cons_nth_drop_Suc)
  next
    case False
    then show ?thesis using linkedD(1) [OF assms Suc.prems(1)] by (simp add: next_in_def)
  qed
qed simp

lemma contents_at:
  assumes "searchable sl ns"
  shows "contents sl = tl ns"
proof -
  have h: "ns \<noteq> []" "ns ! 0 = 0" "distinct ns" "\<forall>x \<in> set ns. x < length (sl_nodes sl)" and l: "linked sl ns"
    using assms by (simp_all add: searchable_def headed_def)
  have "card (set ns) \<le> card {..< length (sl_nodes sl)}" by (rule card_mono) (use h(4) in auto)
  then have "length ns \<le> length (sl_nodes sl)" using h(3) by (simp add: distinct_card)
  then show ?thesis using follow_at [OF l, of 0 "length (sl_nodes sl)"] h(1,2) by (simp add: contents_def drop_Suc)
qed

lemma contents_sorted:
  assumes "searchable sl ns"
  shows "sorted_wrt (\<lambda>a b. compare a b < 0) (map (key_of sl) (contents sl))"
  using assms by (simp add: contents_at searchable_def ordered_def sl_entries_def comp_def)

lemma find_place:
  assumes "searchable sl ns"
  shows "next_in ns (place key sl ns) = find (\<lambda>x. 0 \<le> compare (key_of sl x) key) (contents sl)"
proof -
  let ?q = "place key sl ns"
  have nth: "contents sl ! p = ns ! Suc p" if "Suc p < length ns" for p
    using contents_at [OF assms] that by (cases ns) auto
  have len: "length (contents sl) = length ns - 1" by (simp add: contents_at [OF assms])
  have less: "compare (key_of sl (contents sl ! p)) key < 0 \<longleftrightarrow> p < ?q" if "Suc p < length ns" for p
    using place_iff [OF assms _ that] nth [OF that] by (simp add: Suc_le_eq)
  show ?thesis
  proof (cases "Suc ?q < length ns")
    case True
    have "0 \<le> compare (key_of sl (contents sl ! ?q)) key" using less [OF True] by simp
    then have "find (\<lambda>x. 0 \<le> compare (key_of sl x) key) (contents sl) = Some (ns ! Suc ?q)"
      unfolding find_Some_iff using True len less nth by (intro exI [of _ ?q]) (auto simp: not_le)
    then show ?thesis using True by (simp add: next_in_def)
  next
    case False
    then have q: "?q = length ns - 1" using place_less [OF assms, of key] by simp
    have "find (\<lambda>x. 0 \<le> compare (key_of sl x) key) (contents sl) = None"
      unfolding find_None_iff using less len q by (auto simp: in_set_conv_nth not_le)
    then show ?thesis using False by (simp add: next_in_def)
  qed
qed

lemma mset_insert_at: "mset (insert_at q x xs) = add_mset x (mset xs)"
  by (simp add: insert_at_def) (metis append_take_drop_id mset_append)

lemma Insert_contents:
  assumes "searchable sl ns" and "\<forall>x \<in> set (tl ns). compare key (key_of sl x) \<noteq> 0"
  shows "\<exists>sl' ns'. Insert compare sl key = Some sl' \<and> searchable sl' ns' \<and>
    mset (map (key_of sl') (tl ns')) = add_mset key (mset (map (key_of sl) (tl ns)))"
proof -
  let ?q = "place key sl ns" and ?x = "length (sl_nodes sl)"
  obtain sl' where i: "Insert compare sl key = Some sl'" "searchable sl' (insert_at (Suc ?q) ?x ns)" "key_of sl' ?x = key"
    "\<forall>y < ?x. key_of sl' y = key_of sl y"
    using Insert_at [OF assms] by blast
  have h: "ns \<noteq> []" "\<forall>x \<in> set ns. x < ?x" using assms(1) by (simp_all add: searchable_def headed_def)
  have "tl (insert_at (Suc ?q) ?x ns) = insert_at ?q ?x (tl ns)" using h(1) by (cases ns) (simp_all add: insert_at_def)
  moreover have same: "map (key_of sl') (tl ns) = map (key_of sl) (tl ns)" using i(4) h by (auto dest: list.set_sel(2))
  ultimately have "mset (map (key_of sl') (tl (insert_at (Suc ?q) ?x ns))) = add_mset key (mset (map (key_of sl) (tl ns)))"
    using i(3) arg_cong [OF same, of mset] by (simp add: mset_insert_at)
  with i show ?thesis by blast
qed

lemma Contains_at:
  assumes "searchable sl ns"
  shows "Contains compare sl key = Some (\<exists>x \<in> set (tl ns). compare key (key_of sl x) = 0)"
proof -
  let ?q = "place key sl ns"
  obtain prev where f: "FindGreaterOrEqual compare sl key = Some (next_in ns ?q, prev)"
    using FindGreaterOrEqual_at [OF assms] by blast
  have "(case next_in ns ?q of None \<Rightarrow> False | Some y \<Rightarrow> compare key (key_of sl y) = 0) \<longleftrightarrow>
      (\<exists>x \<in> set (tl ns). compare key (key_of sl x) = 0)" (is "?l \<longleftrightarrow> ?r")
  proof
    assume ?l
    then have "Suc ?q < length ns" "compare key (key_of sl (ns ! Suc ?q)) = 0" by (auto simp: next_in_def split: if_splits)
    moreover have "ns ! Suc ?q \<in> set (tl ns)" if "Suc ?q < length ns" using that by (cases ns) auto
    ultimately show ?r by blast
  next
    assume ?r
    then obtain p where p: "Suc p < length ns" "compare key (key_of sl (ns ! Suc p)) = 0"
      by (cases ns) (auto simp: in_set_conv_nth)
    then have c: "compare (key_of sl (ns ! Suc p)) key = 0" using compare_swap_0 by blast
    then have qp: "?q \<le> p" using place_iff [OF assms _ p(1), of key] by simp
    have "?q = p"
    proof (rule ccontr)
      assume "?q \<noteq> p"
      then have less: "Suc ?q < Suc p" using qp by simp
      have "compare (key_of sl (ns ! Suc ?q)) (key_of sl (ns ! Suc p)) < 0"
      proof -
        have "ordered (map fst (sl_entries sl ns))" using assms by (simp add: searchable_def)
        from ordered_nth [OF this, of ?q p] show ?thesis using less p(1) by (simp add: sl_entries_nth length_sl_entries)
      qed
      then have "compare (key_of sl (ns ! Suc ?q)) key < 0"
        using compare_less_trans [of "key_of sl (ns ! Suc ?q)" "key_of sl (ns ! Suc p)" key] c by simp
      then show False using place_iff [OF assms, of "Suc ?q" key] less p(1) by simp
    qed
    then show ?l using p by (simp add: next_in_def)
  qed
  then show ?thesis using f by (simp add: Contains_def)
qed

lemma insert_all_at:
  "searchable sl ns \<Longrightarrow> sorted_wrt (\<lambda>a b. compare a b \<noteq> 0) ks \<Longrightarrow>
    \<forall>k \<in> set ks. \<forall>x \<in> set (tl ns). compare k (key_of sl x) \<noteq> 0 \<Longrightarrow>
    \<exists>sl' ns'. insert_all compare sl ks = Some sl' \<and> searchable sl' ns' \<and>
      mset (map (key_of sl') (tl ns')) = mset ks + mset (map (key_of sl) (tl ns))"
proof (induction ks arbitrary: sl ns)
  case (Cons k ks)
  then obtain sl1 ns1 where i: "Insert compare sl k = Some sl1" "searchable sl1 ns1"
    "mset (map (key_of sl1) (tl ns1)) = add_mset k (mset (map (key_of sl) (tl ns)))"
    using Insert_contents [OF Cons.prems(1), of k] Cons.prems(3) unfolding list.set by blast
  have keys: "set (map (key_of sl1) (tl ns1)) = insert k (set (map (key_of sl) (tl ns)))"
    using arg_cong [OF i(3), of set_mset] by simp
  have "compare b k \<noteq> 0" if "b \<in> set ks" for b using Cons.prems(2) that compare_swap_0 [of k b] by simp
  then have "\<forall>b \<in> set ks. \<forall>a \<in> set (map (key_of sl1) (tl ns1)). compare b a \<noteq> 0" unfolding keys using Cons.prems(3) by auto
  with Cons.IH [OF i(2)] Cons.prems(2) i show ?case by fastforce
qed auto

end

section \<open>The property of the skip list\<close>

text \<open>C26. A skip list is a sorted set. Insert any keys of which no two are equal under the comparator, in any order
  and whatever heights the random numbers give: every insertion returns, the lowest level then has exactly
  these keys in their order, and \<open>Contains\<close> is true for the keys that are equal to one of them and for
  no others.\<close>

theorem skiplist_sorted_set:
  assumes "comparator compare" and "sorted_wrt (\<lambda>a b. compare a b \<noteq> 0) ks"
  shows "\<exists>sl. insert_all compare (make_SkipList k0) ks = Some sl \<and>
    sorted_wrt (\<lambda>a b. compare a b < 0) (map (key_of sl) (contents sl)) \<and>
    mset (map (key_of sl) (contents sl)) = mset ks \<and>
    (\<forall>key. Contains compare sl key = Some (\<exists>k \<in> set ks. compare key k = 0))"
proof -
  note laws = comparator.make_SkipList_searchable [OF assms(1), of k0]
  have none: "\<forall>k \<in> set ks. \<forall>x \<in> set (tl [0]). compare k (key_of (make_SkipList k0) x) \<noteq> 0" by simp
  obtain sl ns where s: "insert_all compare (make_SkipList k0) ks = Some sl" "comparator.searchable compare sl ns"
    "mset (map (key_of sl) (tl ns)) = mset ks + mset (map (key_of (make_SkipList k0)) (tl [0]))"
    using comparator.insert_all_at [OF assms(1) laws assms(2) none] by blast
  have "set (map (key_of sl) (tl ns)) = set ks" using arg_cong [OF s(3), of set_mset] by simp
  then have "Contains compare sl key = Some (\<exists>k \<in> set ks. compare key k = 0)" for key
    unfolding comparator.Contains_at [OF assms(1) s(2)] by (simp flip: \<open>set (map (key_of sl) (tl ns)) = set ks\<close>)
  then show ?thesis
    using s comparator.contents_at [OF assms(1) s(2)] comparator.contents_sorted [OF assms(1) s(2)] by auto
qed

theorem skiplist_sorted_set_witness:
  "\<exists>sl. insert_all BytewiseCompare (make_SkipList []) [[3], [1], [2]] = Some sl \<and>
     Contains BytewiseCompare sl [2] = Some True \<and> Contains BytewiseCompare sl [4] = Some False"
proof -
  have "sorted_wrt (\<lambda>a b. BytewiseCompare a b \<noteq> 0) [[3], [1], [2]]" by (simp add: BytewiseCompare_def)
  from skiplist_sorted_set [OF bytewise.comparator_axioms this, of "[]"] obtain sl where
    "insert_all BytewiseCompare (make_SkipList []) [[3], [1], [2]] = Some sl"
    "\<forall>key. Contains BytewiseCompare sl key = Some (\<exists>k \<in> set [[3], [1], [2]]. BytewiseCompare key k = 0)" by blast
  moreover have "BytewiseCompare [2] [2] = 0" "\<forall>k \<in> set [[3], [1], [2]]. BytewiseCompare [4] k \<noteq> 0"
    by (simp_all add: BytewiseCompare_def)
  ultimately show ?thesis by (intro exI [of _ sl]) auto
qed

end
