(* ===== verification/LdbSkipListRace.thy ===== *)
theory LdbSkipListRace
  imports LdbSkipListProps
begin

text \<open>
  One writer and one reader of a skip list without a lock (\<open>db/skiplist.h\<close>, \<^emph>\<open>Thread safety\<close>). The
  steps of the writer are the release stores of \<open>Insert\<close>: its preparations store nothing that a reader can
  see but the height of the list, then each level of the new node gets its link and is published. The steps
  of the reader are the turns of the search of an iterator's \<open>Seek\<close>. The steps interleave in any order.
\<close>

datatype writer =
    Idle
  | Linking nat "nat option list" nat nat
  | Publishing nat "nat option list" nat nat

datatype reader = Resting | Walking nat nat | Found "nat option"

record 'k race =
  shared :: "'k skiplist"
  writer_at :: writer
  reader_at :: reader

definition race_start :: "'k \<Rightarrow> 'k race" where
  "race_start any_key = \<lparr>shared = make_SkipList any_key, writer_at = Idle, reader_at = Resting\<rparr>"

definition reader_turn :: "('k \<Rightarrow> 'k \<Rightarrow> int) \<Rightarrow> 'k \<Rightarrow> 'k skiplist \<Rightarrow> nat \<Rightarrow> nat \<Rightarrow> (search, nat \<times> nat option \<times> nat option list) turn option" where
  "reader_turn compare target sl x level = search_turn (\<lambda>x. True) (KeyIsAfterNode compare sl target) sl (x, level, [])"

inductive race_step :: "('k \<Rightarrow> 'k \<Rightarrow> int) \<Rightarrow> 'k \<Rightarrow> 'k race \<Rightarrow> 'k race \<Rightarrow> bool" for compare target where
  insert_begins: "writer_at r = Idle \<Longrightarrow> \<forall>x \<in> set (contents (shared r)). compare key (key_of (shared r) x) \<noteq> 0 \<Longrightarrow>
     insert_start compare (shared r) key = Some (sl, x, prev, height) \<Longrightarrow>
     race_step compare target r (r\<lparr>shared := sl, writer_at := Linking x prev height 0\<rparr>)"
| insert_links: "writer_at r = Linking x prev height i \<Longrightarrow> i < height \<Longrightarrow> link_node (shared r) x prev i = Some sl \<Longrightarrow>
     race_step compare target r (r\<lparr>shared := sl, writer_at := Publishing x prev height i\<rparr>)"
| insert_publishes: "writer_at r = Publishing x prev height i \<Longrightarrow> publish_node (shared r) x prev i = Some sl \<Longrightarrow>
     race_step compare target r (r\<lparr>shared := sl, writer_at := Linking x prev height (i + 1)\<rparr>)"
| insert_ends: "writer_at r = Linking x prev height height \<Longrightarrow>
     race_step compare target r (r\<lparr>writer_at := Idle\<rparr>)"
| seek_begins: "race_step compare target r (r\<lparr>reader_at := Walking 0 (max_height (shared r) - 1)\<rparr>)"
| seek_walks: "reader_at r = Walking x level \<Longrightarrow>
     reader_turn compare target (shared r) x level = Some (Continue (x', level', prev)) \<Longrightarrow>
     race_step compare target r (r\<lparr>reader_at := Walking x' level'\<rparr>)"
| seek_ends: "reader_at r = Walking x level \<Longrightarrow>
     reader_turn compare target (shared r) x level = Some (Leave (x', next, prev)) \<Longrightarrow>
     race_step compare target r (r\<lparr>reader_at := Found next\<rparr>)"

inductive race_reachable :: "('k \<Rightarrow> 'k \<Rightarrow> int) \<Rightarrow> 'k \<Rightarrow> 'k \<Rightarrow> 'k race \<Rightarrow> bool" for compare target any_key where
  reach_start: "race_reachable compare target any_key (race_start any_key)"
| reach_step: "race_reachable compare target any_key r \<Longrightarrow> race_step compare target r r' \<Longrightarrow> race_reachable compare target any_key r'"

inductive_cases race_stepE: "race_step compare target r r'"

section \<open>What a reader relies on\<close>

text \<open>The later list \<open>sl'\<close> has every node and every link that a reader may have seen.\<close>

definition grows :: "'k skiplist \<Rightarrow> nat list \<Rightarrow> 'k skiplist \<Rightarrow> nat list \<Rightarrow> bool" where
  "grows sl ns sl' ns' \<longleftrightarrow> set ns \<subseteq> set ns' \<and> (\<forall>x \<in> set ns. key_of sl' x = key_of sl x) \<and>
     (\<forall>x \<in> set ns. \<forall>l. node_Next sl x l \<noteq> None \<longrightarrow> node_Next sl' x l \<noteq> None)"

context comparator
begin

definition writer_ok :: "'k skiplist \<Rightarrow> nat list \<Rightarrow> writer \<Rightarrow> bool" where
  "writer_ok sl ns w \<longleftrightarrow> searchable sl ns \<and>
     (case w of Idle \<Rightarrow> True
      | Linking x prev height i \<Rightarrow> \<exists>ns0 q. linking sl ns0 q x prev height i \<and> 1 \<le> height \<and> ns = nodes_at i ns0 q x
      | Publishing x prev height i \<Rightarrow> \<exists>sl0 ns0 q. linking sl0 ns0 q x prev height i \<and> i < height \<and>
          link_node sl0 x prev i = Some sl \<and> ns = nodes_at i ns0 q x)"

definition reader_ok :: "'k \<Rightarrow> 'k skiplist \<Rightarrow> nat list \<Rightarrow> reader \<Rightarrow> bool" where
  "reader_ok target sl ns r \<longleftrightarrow>
     (case r of Walking x level \<Rightarrow> x \<in> set ns \<and> node_Next sl x level \<noteq> None \<and> (x = 0 \<or> compare (key_of sl x) target < 0)
      | _ \<Rightarrow> True)"

lemma reader_ok_grows: "reader_ok target sl ns r \<Longrightarrow> grows sl ns sl' ns' \<Longrightarrow> reader_ok target sl' ns' r"
  by (cases r) (auto simp: reader_ok_def grows_def)

lemma SetNext_grows: "node_SetNext sl z l y = Some sl' \<Longrightarrow> grows sl ns sl' ns"
  using node_SetNext_Some [of sl z l y sl'] by (auto simp: grows_def)

lemma grows_more: "grows sl ns sl' ns \<Longrightarrow> set ns \<subseteq> set ns' \<Longrightarrow> grows sl ns sl' ns'"
  by (auto simp: grows_def)

lemma link_node_grows: "link_node sl x prev i = Some sl' \<Longrightarrow> grows sl ns sl' ns"
  unfolding link_node_def by (auto simp: bind_eq_Some_conv intro: SetNext_grows)

lemma publish_node_grows: "publish_node sl x prev i = Some sl' \<Longrightarrow> grows sl ns sl' ns"
  unfolding publish_node_def by (auto simp: bind_eq_Some_conv intro: SetNext_grows)

lemma set_nodes_at: "set (nodes_at i ns q x) \<subseteq> set (nodes_at (Suc i) ns q x)"
  by (auto simp: nodes_at_def)

text \<open>The steps of the writer.\<close>

lemma insert_begins_ok:
  assumes s: "searchable sl ns" and fresh: "\<forall>x \<in> set (contents sl). compare key (key_of sl x) \<noteq> 0"
    and i: "insert_start compare sl key = Some (sl', x, prev, height)"
  shows "writer_ok sl' ns (Linking x prev height 0) \<and> grows sl ns sl' ns"
proof -
  have fresh': "\<forall>x \<in> set (tl ns). compare key (key_of sl x) \<noteq> 0" using fresh contents_at [OF s] by simp
  have J: "linking sl' ns (place key sl ns) x prev height 0" "1 \<le> height" "\<forall>y < length (sl_nodes sl). key_of sl' y = key_of sl y"
    using insert_start_at [OF s fresh'] i by auto
  then have s': "searchable sl' ns" by (simp add: linking_def nodes_at_def)
  have small: "\<forall>x \<in> set ns. x < length (sl_nodes sl)" using s by (simp add: searchable_def headed_def)
  obtain seed where nodes: "sl_nodes sl' = sl_nodes sl @ [\<lparr>node_key = key, node_links = replicate height None\<rparr>]"
    using i by (auto simp: insert_start_def NewNode_def raise_height_def Let_def bind_eq_Some_conv split: if_splits prod.splits)
  then have "node_Next sl' y l = node_Next sl y l" if "y \<in> set ns" for y l
    using small that by (auto simp: node_Next_def nth_append)
  then have "grows sl ns sl' ns" using J(3) small by (simp add: grows_def)
  moreover have "ns = nodes_at 0 ns (place key sl ns) x" by (simp add: nodes_at_def)
  ultimately show ?thesis using J(1,2) s' unfolding writer_ok_def by auto
qed

lemma insert_links_ok:
  assumes w: "writer_ok sl ns (Linking x prev height i)" and i: "i < height" and l: "link_node sl x prev i = Some sl'"
  shows "writer_ok sl' ns (Publishing x prev height i)"
proof -
  obtain ns0 q where J: "linking sl ns0 q x prev height i" "ns = nodes_at i ns0 q x"
    using w by (auto simp: writer_ok_def)
  have "searchable sl' ns" using link_step [OF J(1) i] l J(2) by (metis option.inject)
  with J i l show ?thesis unfolding writer_ok_def by auto
qed

lemma insert_publishes_ok:
  assumes w: "writer_ok sl ns (Publishing x prev height i)" and p: "publish_node sl x prev i = Some sl'"
  shows "\<exists>ns'. writer_ok sl' ns' (Linking x prev height (i + 1)) \<and> set ns \<subseteq> set ns'"
proof -
  obtain sl0 ns0 q where J: "linking sl0 ns0 q x prev height i" "i < height" "link_node sl0 x prev i = Some sl" "ns = nodes_at i ns0 q x"
    using w by (auto simp: writer_ok_def)
  have "linking sl' ns0 q x prev height (Suc i)" using link_step [OF J(1,2)] J(3) p by (metis option.inject)
  then have "writer_ok sl' (nodes_at (Suc i) ns0 q x) (Linking x prev height (i + 1))"
    using J(2) unfolding writer_ok_def by (auto simp: linking_def)
  then show ?thesis using J(4) set_nodes_at by blast
qed

text \<open>A turn of the reader is defined, and ends with the first node that is not below the target.\<close>

lemma reader_turn_at:
  assumes s: "searchable sl ns" and r: "reader_ok target sl ns (Walking x level)"
  shows "(\<exists>x' level' prev. reader_turn compare target sl x level = Some (Continue (x', level', prev)) \<and>
            reader_ok target sl ns (Walking x' level')) \<or>
         (\<exists>x' prev. reader_turn compare target sl x level = Some (Leave (x', next_in ns (place target sl ns), prev)))"
proof -
  let ?q = "place target sl ns"
  have linked: "linked sl ns" and dist: "distinct ns" and head: "ns ! 0 = 0" "ns \<noteq> []"
    using s by (simp_all add: searchable_def headed_def)
  obtain p where p: "p < length ns" "x = ns ! p" using r by (auto simp: reader_ok_def in_set_conv_nth)
  have q: "?q < length ns" by (rule place_less [OF s])
  have pos: "ns ! k = 0 \<or> compare (key_of sl (ns ! k)) target < 0 \<longleftrightarrow> k \<le> ?q" if "k < length ns" for k
  proof (cases "k = 0")
    case False
    then have "ns ! k \<noteq> 0" using dist that head by (metis length_greater_0_conv nth_eq_iff_index_eq)
    then show ?thesis using place_iff [OF s _ that] False by simp
  qed (use head in simp)
  have "p \<le> ?q" using pos [OF p(1)] r p(2) by (simp add: reader_ok_def)
  have set: "node_Next sl (ns ! p) level \<noteq> None" using r p(2) by (simp add: reader_ok_def)
  have go: "\<forall>k. 0 < k \<and> k < length ns \<longrightarrow> KeyIsAfterNode compare sl target (Some (ns ! k)) = (k \<le> ?q)"
    "\<not> KeyIsAfterNode compare sl target None"
    using place_iff [OF s] by (simp_all add: KeyIsAfterNode_def)
  from search_step [where fine = "\<lambda>x. True" and go = "KeyIsAfterNode compare sl target" and p = p and prev = "[]",
      OF linked dist go TrueI q \<open>p \<le> ?q\<close> set]
  show ?thesis
  proof (elim disjE exE conjE)
    fix k assume k: "k \<le> ?q" "node_Next sl (ns ! k) level \<noteq> None"
      "search_turn (\<lambda>x. True) (KeyIsAfterNode compare sl target) sl (ns ! p, level, []) = Some (Continue (ns ! k, level, []))"
    then have "reader_ok target sl ns (Walking (ns ! k) level)" using pos [of k] q by (auto simp: reader_ok_def)
    then show ?thesis using k p(2) by (auto simp: reader_turn_def)
  next
    assume t: "if level = 0 then p = ?q \<and>
        search_turn (\<lambda>x. True) (KeyIsAfterNode compare sl target) sl (ns ! p, level, []) =
          Some (Leave (ns ! ?q, next_in ns ?q, [][0 := Some (ns ! ?q)]))
      else node_Next sl (ns ! p) (level - 1) \<noteq> None \<and>
        search_turn (\<lambda>x. True) (KeyIsAfterNode compare sl target) sl (ns ! p, level, []) =
          Some (Continue (ns ! p, level - 1, [][level := Some (ns ! p)]))"
    show ?thesis
    proof (cases "level = 0")
      case True
      then show ?thesis using t p(2) by (auto simp: reader_turn_def)
    next
      case False
      then have "reader_ok target sl ns (Walking x (level - 1))" using t r p(2) by (simp add: reader_ok_def)
      then show ?thesis using t p(2) False by (auto simp: reader_turn_def)
    qed
  qed
qed

section \<open>The invariant of the race\<close>

definition race_ok :: "'k \<Rightarrow> 'k race \<Rightarrow> nat list \<Rightarrow> bool" where
  "race_ok target r ns \<longleftrightarrow> writer_ok (shared r) ns (writer_at r) \<and> reader_ok target (shared r) ns (reader_at r)"

lemma race_step_ok:
  assumes ok: "race_ok target r ns" and step: "race_step compare target r r'"
  shows "\<exists>ns'. race_ok target r' ns' \<and> set ns \<subseteq> set ns'"
  using step
proof cases
  case (insert_begins key sl x prev height)
  have s: "searchable (shared r) ns" using ok by (simp add: race_ok_def writer_ok_def)
  from insert_begins_ok [OF s insert_begins(3,4)] ok insert_begins(1) show ?thesis
    using reader_ok_grows [of target "shared r" ns "reader_at r"] by (auto simp: race_ok_def)
next
  case (insert_links x prev height i sl)
  have w: "writer_ok (shared r) ns (Linking x prev height i)" using ok insert_links(2) by (simp add: race_ok_def)
  from insert_links_ok [OF w insert_links(3,4)] link_node_grows [OF insert_links(4), of ns] ok insert_links(1) show ?thesis
    using reader_ok_grows [of target "shared r" ns "reader_at r"] by (auto simp: race_ok_def)
next
  case (insert_publishes x prev height i sl)
  have w: "writer_ok (shared r) ns (Publishing x prev height i)" using ok insert_publishes(2) by (simp add: race_ok_def)
  obtain ns' where "writer_ok sl ns' (Linking x prev height (i + 1))" "set ns \<subseteq> set ns'"
    using insert_publishes_ok [OF w insert_publishes(3)] by blast
  with grows_more [OF publish_node_grows [OF insert_publishes(3)]] ok insert_publishes(1) show ?thesis
    using reader_ok_grows [of target "shared r" ns "reader_at r"] by (auto simp: race_ok_def)
next
  case (insert_ends x prev height)
  then show ?thesis using ok by (auto simp: race_ok_def writer_ok_def)
next
  case seek_begins
  have "searchable (shared r) ns" using ok by (simp add: race_ok_def writer_ok_def)
  then have "headed (shared r) ns" by (simp add: searchable_def)
  then have "reader_ok target (shared r) ns (Walking 0 (max_height (shared r) - 1))"
    by (cases ns) (auto simp: reader_ok_def headed_def)
  then show ?thesis using ok seek_begins by (auto simp: race_ok_def)
next
  case (seek_walks x level x' level' prev)
  have s: "searchable (shared r) ns" using ok by (simp add: race_ok_def writer_ok_def)
  have "reader_ok target (shared r) ns (Walking x level)" using ok seek_walks(2) by (simp add: race_ok_def)
  from reader_turn_at [OF s this] seek_walks(3) have "reader_ok target (shared r) ns (Walking x' level')" by auto
  then show ?thesis using ok seek_walks(1) by (auto simp: race_ok_def)
next
  case (seek_ends x level x' nx prev)
  then show ?thesis using ok by (auto simp: race_ok_def reader_ok_def)
qed

lemma race_start_ok: "race_ok target (race_start k) [0]"
  by (simp add: race_ok_def race_start_def writer_ok_def reader_ok_def make_SkipList_searchable)

lemma race_reachable_ok: "race_reachable compare target k r \<Longrightarrow> \<exists>ns. race_ok target r ns"
proof (induction rule: race_reachable.induct)
  case (reach_step r r')
  then show ?case using race_step_ok by blast
qed (use race_start_ok in blast)

lemma race_contents: "race_ok target r ns \<Longrightarrow> contents (shared r) = tl ns"
  using contents_at by (simp add: race_ok_def writer_ok_def)

lemma race_set_tl: "race_ok target r ns \<Longrightarrow> set (tl ns) = set ns - {0}"
  by (cases ns) (auto simp: race_ok_def writer_ok_def searchable_def headed_def)

lemma linked_node_in:
  assumes "race_ok target r ns" and "writer_at r = Linking x prev height i" and "0 < i"
  shows "x \<in> set ns - {0}"
proof -
  obtain ns0 q where J: "linking (shared r) ns0 q x prev height i" "ns = nodes_at i ns0 q x"
    using assms(1,2) by (auto simp: race_ok_def writer_ok_def)
  have "headed (shared r) ns" using assms(1) by (simp add: race_ok_def writer_ok_def searchable_def)
  then have "ns ! 0 = 0" by (simp add: headed_def)
  moreover have "ns ! 0 \<in> set ns0" "x \<notin> set ns0" using J assms(3)
    by (cases ns0; simp add: linking_def nodes_at_def insert_at_def)+
  ultimately show ?thesis using J(2) assms(3) by (cases "x = 0") (auto simp: nodes_at_def)
qed

end

section \<open>The property of the race\<close>



end
