(* ===== verification/LdbMemTable.thy ===== *)
theory LdbMemTable
  imports LdbSkipListProps
begin

text \<open>
  The memtable (\<open>db/memtable.h\<close>, \<open>db/memtable.cc\<close>): a skip list whose keys are pointers to encoded
  entries, an internal key and a value with their lengths in front. A pointer is the bytes from its address
  on. The comparator of internal keys is a parameter, and so is the user's comparator that \<open>Get\<close> asks it
  for. The arena that holds the entries and the nodes only gives them their addresses.
\<close>

section \<open>Entries\<close>

text \<open>
  The static \<open>GetLengthPrefixedSlice\<close>, with the bytes that follow the slice. The code assumes that the length is
  not corrupted; the result for one that is has no meaning.
\<close>

definition mem_slice :: "byte list \<Rightarrow> slice \<times> byte list" where
  "mem_slice data =
     (case GetVarint32Ptr (take 5 data) of None \<Rightarrow> ([], [])
      | Some (len, rest) \<Rightarrow>
          let p = drop (length (take 5 data) - length rest) data
          in (take (unat len) p, drop (unat len) p))"

definition mem_compare :: "(slice \<Rightarrow> slice \<Rightarrow> int) \<Rightarrow> byte list \<Rightarrow> byte list \<Rightarrow> int" where
  "mem_compare icmp aptr bptr = icmp (fst (mem_slice aptr)) (fst (mem_slice bptr))"

definition EncodeKey :: "slice \<Rightarrow> byte list" where
  "EncodeKey target = PutVarint32 [] (word_of_nat (length target)) @ target"

section \<open>The table\<close>

record MemTable =
  mem_table :: "byte list skiplist"
  mem_refs :: int

definition make_MemTable :: MemTable where
  "make_MemTable = \<lparr>mem_table = make_SkipList [], mem_refs = 0\<rparr>"

definition mem_Ref :: "MemTable \<Rightarrow> MemTable" where
  "mem_Ref m = m\<lparr>mem_refs := mem_refs m + 1\<rparr>"

text \<open>\<open>Unref\<close> deletes the table with its last reference: the result is then \<open>Some None\<close>.\<close>

definition mem_Unref :: "MemTable \<Rightarrow> MemTable option option" where
  "mem_Unref m =
     (let m = m\<lparr>mem_refs := mem_refs m - 1\<rparr> in
      if mem_refs m < 0 then None else if mem_refs m \<le> 0 then Some None else Some (Some m))"

definition mem_Add ::
    "(slice \<Rightarrow> slice \<Rightarrow> int) \<Rightarrow> MemTable \<Rightarrow> SequenceNumber \<Rightarrow> ValueType \<Rightarrow> slice \<Rightarrow> slice \<Rightarrow> MemTable option" where
  "mem_Add icmp m s t key value =
     (let key_size = length key;
          val_size = length value;
          internal_key_size = key_size + 8;
          encoded_len = VarintLength (word_of_nat internal_key_size) + internal_key_size +
            VarintLength (word_of_nat val_size) + val_size;
          buf = EncodeVarint32 (word_of_nat internal_key_size) @ key @ EncodeFixed64 (push_bit 8 s OR type_code t) @
            EncodeVarint32 (word_of_nat val_size) @ value
      in if length buf \<noteq> encoded_len then None
         else map_option (\<lambda>table. m\<lparr>mem_table := table\<rparr>) (Insert (mem_compare icmp) (mem_table m) buf))"

text \<open>
  \<open>Get\<close> gives its result, the value and the status, of which it changes at most one. An entry with
  an unknown type leaves the \<open>switch\<close>.
\<close>

definition mem_Get ::
    "(slice \<Rightarrow> slice \<Rightarrow> int) \<Rightarrow> (slice \<Rightarrow> slice \<Rightarrow> int) \<Rightarrow> MemTable \<Rightarrow> LookupKey \<Rightarrow> slice \<times> Status \<Rightarrow> (bool \<times> slice \<times> Status) option" where
  "mem_Get icmp user_compare m key = (\<lambda>(value, s). do {
     it \<leftarrow> sl_Seek (mem_compare icmp) (mem_table m) (memtable_key key);
     case it of None \<Rightarrow> Some (False, value, s)
     | Some x \<Rightarrow>
         let entry = key_of (mem_table m) x in
         (case GetVarint32Ptr (take 5 entry) of None \<Rightarrow> None
          | Some (key_length, rest) \<Rightarrow>
              let key_ptr = drop (length (take 5 entry) - length rest) entry in
              if user_compare (take (unat key_length - 8) key_ptr) (lookup_user_key key) = 0 then
                (case type_of_code (DecodeFixed64 (drop (unat key_length - 8) key_ptr) AND 0xff) of
                   Some kTypeValue \<Rightarrow> Some (True, fst (mem_slice (drop (unat key_length) key_ptr)), s)
                 | Some kTypeDeletion \<Rightarrow> Some (True, value, NotFound [] [])
                 | None \<Rightarrow> Some (False, value, s))
              else Some (False, value, s))
   })"

section \<open>The iterator\<close>

record mem_iter =
  mem_list :: "byte list skiplist"
  mem_node :: "nat option"

definition mem_NewIterator :: "MemTable \<Rightarrow> mem_iter" where
  "mem_NewIterator m = \<lparr>mem_list = mem_table m, mem_node = None\<rparr>"

definition mem_key :: "mem_iter \<Rightarrow> slice" where
  "mem_key it = (case mem_node it of None \<Rightarrow> [] | Some x \<Rightarrow> fst (mem_slice (key_of (mem_list it) x)))"

definition mem_value :: "mem_iter \<Rightarrow> slice" where
  "mem_value it =
     (case mem_node it of None \<Rightarrow> []
      | Some x \<Rightarrow> fst (mem_slice (snd (mem_slice (key_of (mem_list it) x)))))"

definition mem_ops :: "(slice \<Rightarrow> slice \<Rightarrow> int) \<Rightarrow> mem_iter Iterator" where
  "mem_ops icmp =
     (let move = (\<lambda>it. map_option (\<lambda>x. it\<lparr>mem_node := x\<rparr>)) in
      \<lparr>Valid = (\<lambda>it. mem_node it \<noteq> None),
       SeekToFirst = (\<lambda>it. move it (sl_SeekToFirst (mem_list it))),
       SeekToLast = (\<lambda>it. move it (sl_SeekToLast (mem_list it))),
       Seek = (\<lambda>it k. move it (sl_Seek (mem_compare icmp) (mem_list it) (EncodeKey k))),
       Next = (\<lambda>it. move it (sl_Next (mem_list it) (mem_node it))),
       Prev = (\<lambda>it. move it (sl_Prev (mem_compare icmp) (mem_list it) (mem_node it))),
       Key = mem_key, Val = mem_value, IterStatus = (\<lambda>it. OK)\<rparr>)"

section \<open>Encoded entries\<close>

definition mem_entry :: "entry \<Rightarrow> byte list" where
  "mem_entry e = EncodeVarint32 (word_of_nat (length (fst e))) @ fst e @ EncodeVarint32 (word_of_nat (length (snd e))) @ snd e"

definition short :: "slice \<Rightarrow> bool" where
  "short s \<longleftrightarrow> length s < 2 ^ 32"

lemma GetVarint32Ptr_5:
  "GetVarint32Ptr (take 5 (EncodeVarint32 v @ rest)) = Some (v, take (5 - length (EncodeVarint32 v)) rest)"
  and length_EncodeVarint32_le: "length (EncodeVarint32 v) \<le> 5"
proof -
  have "unat v < 2 ^ LENGTH(32)" by (rule unsigned_less)
  then have "unat v < 128 ^ Suc 4" by simp
  then have "length (EncodeVarint32 v) \<le> Suc 4" unfolding EncodeVarint32_bytes by (rule length_varint_bytes)
  then show le: "length (EncodeVarint32 v) \<le> 5" by simp
  then show "GetVarint32Ptr (take 5 (EncodeVarint32 v @ rest)) = Some (v, take (5 - length (EncodeVarint32 v)) rest)"
    by (simp add: GetVarint32Ptr_Encode)
qed

lemma varint_skip:
  "drop (length (take 5 (EncodeVarint32 v @ rest)) - length (take (5 - length (EncodeVarint32 v)) rest)) (EncodeVarint32 v @ rest) = rest"
  using length_EncodeVarint32_le [of v] by (auto simp: min_def)

lemma mem_slice_Encode:
  assumes "short k"
  shows "mem_slice (EncodeVarint32 (word_of_nat (length k)) @ k @ rest) = (k, rest)"
  using assms unfolding short_def
  by (simp only: mem_slice_def GetVarint32Ptr_5 varint_skip option.case prod.case Let_def unat_u32) simp

lemma mem_slice_entry:
  assumes "short (fst e)" and "short (snd e)"
  shows "fst (mem_slice (mem_entry e)) = fst e" and "fst (mem_slice (snd (mem_slice (mem_entry e)))) = snd e"
proof -
  have "mem_slice (mem_entry e) = (fst e, EncodeVarint32 (word_of_nat (length (snd e))) @ snd e)"
    unfolding mem_entry_def by (rule mem_slice_Encode [OF assms(1)])
  moreover have "mem_slice (EncodeVarint32 (word_of_nat (length (snd e))) @ snd e) = (snd e, [])"
    using mem_slice_Encode [OF assms(2), of "[]"] by simp
  ultimately show "fst (mem_slice (mem_entry e)) = fst e" "fst (mem_slice (snd (mem_slice (mem_entry e)))) = snd e" by simp_all
qed

lemma mem_slice_EncodeKey: "short k \<Longrightarrow> mem_slice (EncodeKey k) = (k, [])"
  using mem_slice_Encode [of k "[]"] by (simp add: EncodeKey_def PutVarint32_def)

lemma mem_comparator:
  assumes "comparator icmp"
  shows "comparator (mem_compare icmp)"
  using assms unfolding comparator_def mem_compare_def by blast

end
