(* ===== verification/LdbWriteBatch.thy ===== *)
theory LdbWriteBatch
  imports LdbMemTable LdbFormat
begin

text \<open>
  Batches of updates (\<open>db/write_batch.cc\<close>, \<open>db/write_batch_internal.h\<close>): the header with the sequence
  number and the count, the records behind it, the iteration with a handler, and the handler that adds the
  records to a memtable. A batch is its representation \<open>rep_\<close>.
\<close>

type_synonym WriteBatch = "byte list"

definition kHeader :: nat where
  "kHeader = 12"

definition batch_Clear :: WriteBatch where
  "batch_Clear = replicate kHeader 0"

text \<open>The count is an \<open>int\<close>: the conversion from the stored 32 bits is that of two's complement.\<close>

definition batch_Count :: "WriteBatch \<Rightarrow> int" where
  "batch_Count b = sint (DecodeFixed32 (drop 8 b))"

definition batch_SetCount :: "WriteBatch \<Rightarrow> int \<Rightarrow> WriteBatch" where
  "batch_SetCount b n = take 8 b @ EncodeFixed32 (word_of_int n) @ drop 12 b"

definition batch_Sequence :: "WriteBatch \<Rightarrow> SequenceNumber" where
  "batch_Sequence b = DecodeFixed64 b"

definition batch_SetSequence :: "WriteBatch \<Rightarrow> SequenceNumber \<Rightarrow> WriteBatch" where
  "batch_SetSequence b s = EncodeFixed64 s @ drop 8 b"

text \<open>Counting past the largest \<open>int\<close> is undefined.\<close>

definition batch_add_count :: "WriteBatch \<Rightarrow> int \<Rightarrow> WriteBatch option" where
  "batch_add_count b n =
     (if - (2 ^ 31) \<le> batch_Count b + n \<and> batch_Count b + n < 2 ^ 31
      then Some (batch_SetCount b (batch_Count b + n)) else None)"

definition batch_Put :: "WriteBatch \<Rightarrow> slice \<Rightarrow> slice \<Rightarrow> WriteBatch option" where
  "batch_Put b key value = do {
     b \<leftarrow> batch_add_count b 1;
     let b = b @ [ucast (type_code kTypeValue)];
     Some (PutLengthPrefixedSlice (PutLengthPrefixedSlice b key) value)
   }"

definition batch_Delete :: "WriteBatch \<Rightarrow> slice \<Rightarrow> WriteBatch option" where
  "batch_Delete b key = do {
     b \<leftarrow> batch_add_count b 1;
     let b = b @ [ucast (type_code kTypeDeletion)];
     Some (PutLengthPrefixedSlice b key)
   }"

definition batch_SetContents :: "WriteBatch \<Rightarrow> slice \<Rightarrow> WriteBatch option" where
  "batch_SetContents b new = (if length new < kHeader then None else Some new)"

definition batch_Append :: "WriteBatch \<Rightarrow> WriteBatch \<Rightarrow> WriteBatch option" where
  "batch_Append dst src = do {
     dst \<leftarrow> batch_add_count dst (batch_Count src);
     if length src < kHeader then None else Some (dst @ drop kHeader src)
   }"

definition batch_Contents :: "WriteBatch \<Rightarrow> slice" where
  "batch_Contents b = b"

definition batch_ByteSize :: "WriteBatch \<Rightarrow> nat" where
  "batch_ByteSize b = length b"

section \<open>Iteration\<close>

text \<open>A handler is its two virtual functions over any state.\<close>

record 's Handler =
  on_Put :: "slice \<Rightarrow> slice \<Rightarrow> 's \<Rightarrow> 's option"
  on_Delete :: "slice \<Rightarrow> 's \<Rightarrow> 's option"

lemma GetLengthPrefixedSlice_length: "GetLengthPrefixedSlice input = (Some k, rest) \<Longrightarrow> length rest \<le> length input"
  by (auto simp: GetLengthPrefixedSlice_def GetVarint32_def GetVarint32Ptr_parse dest!: parse_varint_length
      split: option.splits prod.splits if_splits)

text \<open>
  The loop over the records: the status of a record that cannot be read, or success with the number of the
  records. The handler has seen those before the fault.
\<close>

function batch_records :: "'s Handler \<Rightarrow> slice \<Rightarrow> int \<Rightarrow> 's \<Rightarrow> (Status \<times> int \<times> 's) option" where
  "batch_records h [] found s = Some (OK, found, s)"
| "batch_records h (tag # input) found s =
     (if tag = ucast (type_code kTypeValue) then
        (case GetLengthPrefixedSlice input of
           (Some key, input1) \<Rightarrow>
             (case GetLengthPrefixedSlice input1 of
                (Some value, input2) \<Rightarrow>
                  (case on_Put h key value s of None \<Rightarrow> None | Some s \<Rightarrow> batch_records h input2 (found + 1) s)
              | (None, _) \<Rightarrow> Some (Corruption (bytes_of ''bad WriteBatch Put'') [], found + 1, s))
         | (None, _) \<Rightarrow> Some (Corruption (bytes_of ''bad WriteBatch Put'') [], found + 1, s))
      else if tag = ucast (type_code kTypeDeletion) then
        (case GetLengthPrefixedSlice input of
           (Some key, input1) \<Rightarrow>
             (case on_Delete h key s of None \<Rightarrow> None | Some s \<Rightarrow> batch_records h input1 (found + 1) s)
         | (None, _) \<Rightarrow> Some (Corruption (bytes_of ''bad WriteBatch Delete'') [], found + 1, s))
      else Some (Corruption (bytes_of ''unknown WriteBatch tag'') [], found + 1, s))"
  by pat_completeness auto
termination
  by (relation "measure (\<lambda>(h, input, found, s). length input)")
    (auto dest!: GetLengthPrefixedSlice_length [OF sym])

definition batch_Iterate :: "'s Handler \<Rightarrow> WriteBatch \<Rightarrow> 's \<Rightarrow> (Status \<times> 's) option" where
  "batch_Iterate h b s =
     (if length b < kHeader then Some (Corruption (bytes_of ''malformed WriteBatch (too small)'') [], s)
      else do {
        (status, found, s) \<leftarrow> batch_records h (drop kHeader b) 0 s;
        if \<not> ok status then Some (status, s)
        else if found \<noteq> batch_Count b then Some (Corruption (bytes_of ''WriteBatch has wrong count'') [], s)
        else Some (OK, s)
      })"

text \<open>The handler that adds to a memtable, with the next sequence number and the table as its state.\<close>

definition MemTableInserter :: "(slice \<Rightarrow> slice \<Rightarrow> int) \<Rightarrow> (SequenceNumber \<times> MemTable) Handler" where
  "MemTableInserter icmp =
     \<lparr>on_Put = (\<lambda>key value (s, m). map_option (Pair (s + 1)) (mem_Add icmp m s kTypeValue key value)),
      on_Delete = (\<lambda>key (s, m). map_option (Pair (s + 1)) (mem_Add icmp m s kTypeDeletion key []))\<rparr>"

definition InsertInto :: "(slice \<Rightarrow> slice \<Rightarrow> int) \<Rightarrow> WriteBatch \<Rightarrow> MemTable \<Rightarrow> (Status \<times> MemTable) option" where
  "InsertInto icmp b m =
     map_option (\<lambda>(status, s, m). (status, m)) (batch_Iterate (MemTableInserter icmp) b (batch_Sequence b, m))"

end
