(* ===== verification/LdbMemTableProps.thy ===== *)
theory LdbMemTableProps
  imports LdbMemTable LdbFormat
begin

text \<open>
  The memtable as a sorted list of entries: its iterator meets the interface of iterators, and additions keep
  the list sorted. A lookup at a snapshot gives the last addition that the snapshot sees.
\<close>

definition mem_holds :: "(slice \<Rightarrow> slice \<Rightarrow> int) \<Rightarrow> byte list skiplist \<Rightarrow> nat list \<Rightarrow> entry list \<Rightarrow> bool" where
  "mem_holds icmp sl ns es \<longleftrightarrow> comparator.searchable (mem_compare icmp) sl ns \<and>
     map (key_of sl) (tl ns) = map mem_entry es \<and> (\<forall>e \<in> set es. short (fst e) \<and> short (snd e))"

definition mem_at :: "(slice \<Rightarrow> slice \<Rightarrow> int) \<Rightarrow> mem_iter \<Rightarrow> entry list \<Rightarrow> nat \<Rightarrow> bool" where
  "mem_at icmp it es p \<longleftrightarrow> p \<le> length es \<and>
     (\<exists>ns. mem_holds icmp (mem_list it) ns es \<and> mem_node it = next_in ns p)"

sublocale slice_comparator < mem_cmp: comparator "mem_compare compare"
  by (rule mem_comparator) (rule comparator_axioms)

context slice_comparator
begin

lemma holds_length: "mem_holds compare sl ns es \<Longrightarrow> length ns = Suc (length es)"
proof -
  assume h: "mem_holds compare sl ns es"
  then have "length (tl ns) = length es" unfolding mem_holds_def by (metis length_map)
  moreover have "ns \<noteq> []" using h by (simp add: mem_holds_def mem_cmp.searchable_def headed_def)
  ultimately show ?thesis by (cases ns) simp_all
qed

lemma holds_key:
  assumes "mem_holds compare sl ns es" and "p < length es"
  shows "key_of sl (ns ! Suc p) = mem_entry (es ! p)" and "fst (mem_slice (key_of sl (ns ! Suc p))) = fst (es ! p)"
    and "fst (mem_slice (snd (mem_slice (key_of sl (ns ! Suc p))))) = snd (es ! p)"
proof -
  have "map (key_of sl) (tl ns) ! p = map mem_entry es ! p" using assms(1) by (simp add: mem_holds_def)
  then show k: "key_of sl (ns ! Suc p) = mem_entry (es ! p)"
    using assms(2) holds_length [OF assms(1)] by (cases ns) simp_all
  have "short (fst (es ! p))" "short (snd (es ! p))" using assms by (auto simp: mem_holds_def)
  from mem_slice_entry [OF this] show "fst (mem_slice (key_of sl (ns ! Suc p))) = fst (es ! p)"
    "fst (mem_slice (snd (mem_slice (key_of sl (ns ! Suc p))))) = snd (es ! p)" by (simp_all add: k)
qed

lemma holds_searchable: "mem_holds compare sl ns es \<Longrightarrow> mem_cmp.searchable sl ns"
  by (simp add: mem_holds_def)

lemma holds_ordered:
  assumes "mem_holds compare sl ns es"
  shows "ordered (map fst es)"
proof -
  have o: "mem_cmp.ordered (map fst (mem_cmp.sl_entries sl ns))" using assms by (simp add: mem_holds_def mem_cmp.searchable_def)
  show ?thesis
    unfolding ordered_def sorted_wrt_iff_nth_less
  proof (intro allI impI)
    fix i j assume "i < j" "j < length (map fst es)"
    then have ij: "i < j" "j < length es" by simp_all
    then have "mem_compare compare (key_of sl (ns ! Suc i)) (key_of sl (ns ! Suc j)) < 0"
      using mem_cmp.ordered_nth [OF o, of i j] holds_length [OF assms]
      by (simp add: mem_cmp.sl_entries_nth mem_cmp.length_sl_entries)
    then show "compare (map fst es ! i) (map fst es ! j) < 0"
      using ij holds_key(2) [OF assms] by (simp add: mem_compare_def)
  qed
qed

text \<open>The place of an encoded key in the list of nodes is the place of the key among the entries.\<close>

lemma holds_place:
  assumes h: "mem_holds compare sl ns es" and k: "fst (mem_slice k) = t"
  shows "mem_cmp.below k (mem_cmp.sl_entries sl ns) = below t es"
proof (rule mem_cmp.below_unique)
  have len: "length (mem_cmp.sl_entries sl ns) = length es" using holds_length [OF h] by (simp add: mem_cmp.length_sl_entries)
  have nth: "mem_compare compare (fst (mem_cmp.sl_entries sl ns ! j)) k = compare (fst (es ! j)) t" if "j < length es" for j
    using that holds_key(2) [OF h that] holds_length [OF h] k by (simp add: mem_cmp.sl_entries_nth mem_compare_def)
  show "below t es \<le> length (mem_cmp.sl_entries sl ns)" using below_le [of t es] len by simp
  show "\<forall>j < below t es. mem_compare compare (fst (mem_cmp.sl_entries sl ns ! j)) k < 0"
    using below_less [of _ t es] nth below_le [of t es] by simp
  show "0 \<le> mem_compare compare (fst (mem_cmp.sl_entries sl ns ! below t es)) k"
    if "below t es < length (mem_cmp.sl_entries sl ns)"
    using below_at [of t es] nth that len by simp
qed

lemma below_own: "ordered (map fst es) \<Longrightarrow> p < length es \<Longrightarrow> below (fst (es ! p)) es = p"
  by (rule below_unique) (simp_all add: ordered_nth compare_self)

lemma mem_atI: "mem_holds compare (mem_list it) ns es \<Longrightarrow> p \<le> length es \<Longrightarrow> x = next_in ns p \<Longrightarrow> mem_at compare (it\<lparr>mem_node := x\<rparr>) es p"
  by (auto simp: mem_at_def)

end

sublocale slice_comparator < mem: sorted_iterator compare "mem_ops compare" "mem_at compare" short
proof
  fix it es p t assume at: "mem_at compare it es p"
  then obtain ns where h: "mem_holds compare (mem_list it) ns es" and node: "mem_node it = next_in ns p" and p: "p \<le> length es"
    by (auto simp: mem_at_def)
  note s = holds_searchable [OF h] and len = holds_length [OF h]
  have head: "ns ! 0 = 0" "distinct ns" and linked: "linked (mem_list it) ns"
    using s by (simp_all add: mem_cmp.searchable_def headed_def)
  have nonzero: "ns ! Suc k \<noteq> 0" if "k < length es" for k
    using head that len by (metis Suc_less_eq2 nat.distinct(1) nth_eq_iff_index_eq zero_less_Suc)
  show "p \<le> length es" by (rule p)
  show "ordered (map fst es)" by (rule holds_ordered [OF h])
  show "Valid (mem_ops compare) it \<longleftrightarrow> p < length es" using node len by (simp add: mem_ops_def next_in_def)
  show "IterStatus (mem_ops compare) it = OK" by (simp add: mem_ops_def)
  have "node_Next (mem_list it) 0 0 = Some (next_in ns 0)" using linkedD(1) [OF linked, of 0] head len by simp
  then show "\<exists>it'. SeekToFirst (mem_ops compare) it = Some it' \<and> mem_at compare it' es 0"
    using mem_atI [OF h, of 0] by (simp add: mem_ops_def sl_SeekToFirst_def)
  have last: "FindLast (mem_list it) = Some (ns ! length es)" using mem_cmp.FindLast_at [OF s] len by simp
  show "\<exists>it'. SeekToLast (mem_ops compare) it = Some it' \<and> mem_at compare it' es (length es - 1)"
  proof (cases "es = []")
    case True
    then show ?thesis using last head mem_atI [OF h, of 0 None] len by (simp add: mem_ops_def sl_SeekToLast_def next_in_def)
  next
    case False
    then obtain k where k: "length es = Suc k" by (cases es) auto
    then show ?thesis using last nonzero [of k] mem_atI [OF h, of k "Some (ns ! Suc k)"] len
      by (simp add: mem_ops_def sl_SeekToLast_def next_in_def)
  qed
  show "\<exists>it'. Seek (mem_ops compare) it t = Some it' \<and> mem_at compare it' es (below t es)" if "short t"
  proof -
    have "mem_cmp.below (EncodeKey t) (mem_cmp.sl_entries (mem_list it) ns) = below t es"
      by (rule holds_place [OF h]) (simp add: mem_slice_EncodeKey [OF that])
    then show ?thesis using mem_cmp.FindGreaterOrEqual_at [OF s, of "EncodeKey t"] mem_atI [OF h below_le refl]
      by (auto simp: mem_ops_def sl_Seek_def)
  qed
  {
    assume pl: "p < length es"
    then have x: "mem_node it = Some (ns ! Suc p)" using node len by (simp add: next_in_def)
    show "Key (mem_ops compare) it = fst (es ! p)" "Val (mem_ops compare) it = snd (es ! p)"
      using x holds_key(2,3) [OF h pl] by (simp_all add: mem_ops_def mem_key_def mem_value_def)
    show "\<exists>it'. Next (mem_ops compare) it = Some it' \<and> mem_at compare it' es (p + 1)"
      using x linkedD(1) [OF linked, of "Suc p"] len pl mem_atI [OF h, of "Suc p"] by (simp add: mem_ops_def sl_Next_def)
    have "mem_cmp.below (key_of (mem_list it) (ns ! Suc p)) (mem_cmp.sl_entries (mem_list it) ns) = p"
      using holds_place [OF h holds_key(2) [OF h pl]] below_own [OF holds_ordered [OF h] pl] by simp
    then have prev: "FindLessThan (mem_compare compare) (mem_list it) (key_of (mem_list it) (ns ! Suc p)) = Some (ns ! p)"
      using mem_cmp.FindLessThan_at [OF s] by simp
    show "\<exists>it'. Prev (mem_ops compare) it = Some it' \<and> mem_at compare it' es (if p = 0 then length es else p - 1)"
    proof (cases p)
      case 0
      then show ?thesis using x prev head mem_atI [OF h, of "length es" None] len
        by (simp add: mem_ops_def sl_Prev_def next_in_def)
    next
      case (Suc k)
      then show ?thesis using x prev nonzero [of k] mem_atI [OF h, of k "Some (ns ! Suc k)"] len pl
        by (simp add: mem_ops_def sl_Prev_def next_in_def)
    qed
  }
qed

section \<open>Additions\<close>

type_synonym addition = "SequenceNumber \<times> ValueType \<times> slice \<times> slice"

fun addition_entry :: "addition \<Rightarrow> entry" where
  "addition_entry (s, t, k, v) = (internal_key k s t, v)"

text \<open>The sizes that the encoding of an entry can hold, and the sequence numbers in range.\<close>

fun fits :: "addition \<Rightarrow> bool" where
  "fits (s, t, k, v) \<longleftrightarrow> s \<le> kMaxSequenceNumber \<and> length k + 8 < 2 ^ 32 \<and> length v < 2 ^ 32"

fun add_to_mem :: "(slice \<Rightarrow> slice \<Rightarrow> int) \<Rightarrow> MemTable \<Rightarrow> addition list \<Rightarrow> MemTable option" where
  "add_to_mem icmp m [] = Some m"
| "add_to_mem icmp m ((s, t, k, v) # adds) = do { m \<leftarrow> mem_Add icmp m s t k v; add_to_mem icmp m adds }"

text \<open>The specification of a lookup: the last addition of the key that is not newer than the snapshot.\<close>

definition last_write :: "(slice \<Rightarrow> slice \<Rightarrow> int) \<Rightarrow> slice \<Rightarrow> SequenceNumber \<Rightarrow> addition list \<Rightarrow> addition option" where
  "last_write user_compare key s adds = find (\<lambda>(s', t, k, v). s' \<le> s \<and> user_compare k key = 0) (rev adds)"

fun lookup_result :: "addition option \<Rightarrow> slice \<times> Status \<Rightarrow> bool \<times> slice \<times> Status" where
  "lookup_result None (value, status) = (False, value, status)"
| "lookup_result (Some (s, kTypeValue, k, v)) (value, status) = (True, v, status)"
| "lookup_result (Some (s, kTypeDeletion, k, v)) (value, status) = (True, value, NotFound [] [])"

lemma VarintLength_32: "n < 2 ^ 32 \<Longrightarrow> VarintLength (word_of_nat n) = length (EncodeVarint32 (word_of_nat n))"
  by (simp add: VarintLength_Encode EncodeVarint64_bytes EncodeVarint32_bytes unat_u32 unat_u64)

lemma add_buffer:
  assumes "fits (s, t, k, v)"
  shows "mem_Add icmp m s t k v =
    map_option (\<lambda>table. m\<lparr>mem_table := table\<rparr>) (Insert (mem_compare icmp) (mem_table m) (mem_entry (internal_key k s t, v)))"
proof -
  have f: "length k + 8 < 2 ^ 32" "length v < 2 ^ 32" using assms by simp_all
  have "mem_entry (internal_key k s t, v) = EncodeVarint32 (word_of_nat (length k + 8)) @ k @ EncodeFixed64 (push_bit 8 s OR type_code t) @
      EncodeVarint32 (word_of_nat (length v)) @ v"
    by (simp add: mem_entry_def AppendInternalKey_def PutFixed64_def PackSequenceAndType_def)
  then show ?thesis
    using VarintLength_32 [OF f(1)] VarintLength_32 [OF f(2)] by (simp add: mem_Add_def Let_def)
qed

context slice_comparator
begin

lemma mem_start: "mem_holds compare (mem_table make_MemTable) [0] []"
  by (simp add: mem_holds_def make_MemTable_def mem_cmp.make_SkipList_searchable)

lemma mem_insert_at:
  assumes h: "mem_holds compare sl ns es" and e: "short (fst e)" "short (snd e)"
    and fresh: "\<forall>x \<in> set es. compare (fst e) (fst x) \<noteq> 0"
  shows "\<exists>sl' ns' es'. Insert (mem_compare compare) sl (mem_entry e) = Some sl' \<and> mem_holds compare sl' ns' es' \<and>
    mset es' = add_mset e (mset es)"
proof -
  note s = holds_searchable [OF h] and len = holds_length [OF h]
  let ?k = "mem_entry e" and ?x = "length (sl_nodes sl)"
  have "mem_compare compare ?k (key_of sl x) \<noteq> 0" if x: "x \<in> set (tl ns)" for x
  proof -
    obtain p where p: "p < length es" "x = ns ! Suc p"
    proof -
      from x obtain i where i: "i < length (tl ns)" "tl ns ! i = x" by (auto simp: in_set_conv_nth)
      then have "i < length es" "x = ns ! Suc i" using len by (simp_all add: nth_tl)
      then show thesis by (rule that)
    qed
    then show ?thesis
      using holds_key(2) [OF h p(1)] fresh mem_slice_entry(1) [OF e] by (simp add: mem_compare_def)
  qed
  then have "\<forall>x \<in> set (tl ns). mem_compare compare ?k (key_of sl x) \<noteq> 0" by blast
  from mem_cmp.Insert_at [OF s this] obtain sl' where sl':
    "Insert (mem_compare compare) sl ?k = Some sl'"
    "mem_cmp.searchable sl' (insert_at (Suc (mem_cmp.below ?k (mem_cmp.sl_entries sl ns))) ?x ns)"
    "key_of sl' ?x = ?k" "\<forall>y < ?x. key_of sl' y = key_of sl y" by blast
  let ?q = "mem_cmp.below ?k (mem_cmp.sl_entries sl ns)"
  have h': "ns \<noteq> []" "\<forall>x \<in> set ns. x < ?x" using s by (simp_all add: mem_cmp.searchable_def headed_def)
  have tl: "tl (insert_at (Suc ?q) ?x ns) = insert_at ?q ?x (tl ns)" using h'(1) by (cases ns) (simp_all add: insert_at_def)
  have "set (tl ns) \<subseteq> set ns" by (cases ns) auto
  then have "map (key_of sl') (tl ns) = map (key_of sl) (tl ns)" using sl'(4) h'(2) by (intro map_cong) auto
  moreover have "map (key_of sl) (tl ns) = map mem_entry es" using h by (simp add: mem_holds_def)
  ultimately have same: "map (key_of sl') (tl ns) = map mem_entry es" by (rule trans)
  have "map (key_of sl') (insert_at ?q ?x (tl ns)) = map mem_entry (insert_at ?q e es)"
    using same sl'(3) by (simp add: insert_at_def flip: take_map drop_map)
  then have "mem_holds compare sl' (insert_at (Suc ?q) ?x ns) (insert_at ?q e es)"
    using sl'(2) h e tl by (simp add: mem_holds_def)
  then show ?thesis by (intro exI conjI) (rule sl'(1), assumption, rule mset_insert_at)
qed

end

text \<open>A table after some additions, with internal keys over a comparator of the user.\<close>

definition mem_has :: "(slice \<Rightarrow> slice \<Rightarrow> int) \<Rightarrow> MemTable \<Rightarrow> entry list \<Rightarrow> addition list \<Rightarrow> bool" where
  "mem_has user_compare m es adds \<longleftrightarrow>
     (\<exists>ns. mem_holds (InternalKeyCompare user_compare) (mem_table m) ns es) \<and>
     mset es = mset (map addition_entry adds) \<and> (\<forall>a \<in> set adds. fits a)"

context slice_comparator
begin

lemma distinct_additions:
  assumes "fits (s, t, k, v)" and "fits (s', t', k', v')" and "s \<noteq> s'"
  shows "icompare (internal_key k s t) (internal_key k' s' t') \<noteq> 0"
proof
  assume "icompare (internal_key k s t) (internal_key k' s' t') = 0"
  then have "compare k k' = 0" "PackSequenceAndType s t = PackSequenceAndType s' t'"
    by (auto simp: InternalKeyCompare_def Let_def split: if_splits)
  then show False using pack_parts(1) [of s t] pack_parts(1) [of s' t'] assms by auto
qed

lemma mem_add_all:
  "mem_has compare m es adds0 \<Longrightarrow> \<forall>a \<in> set adds. fits a \<Longrightarrow> sorted_wrt (\<lambda>a b. fst a < fst b) (adds0 @ adds) \<Longrightarrow>
    \<exists>m' es'. add_to_mem icompare m adds = Some m' \<and> mem_has compare m' es' (adds0 @ adds)"
proof (induction adds arbitrary: m es adds0)
  case (Cons a adds)
  obtain s t k v where a: "a = (s, t, k, v)" by (cases a)
  then have f: "fits (s, t, k, v)" using Cons.prems(2) by simp
  let ?e = "(internal_key k s t, v)"
  from Cons.prems(1) obtain ns where h: "mem_holds icompare (mem_table m) ns es"
    and es: "mset es = mset (map addition_entry adds0)" and f0: "\<forall>a \<in> set adds0. fits a" by (auto simp: mem_has_def)
  have "icompare (fst ?e) (fst x) \<noteq> 0" if "x \<in> set es" for x
  proof -
    have "x \<in> addition_entry ` set adds0" using that es by (metis list.set_map set_mset_mset)
    then obtain s' t' k' v' where b: "(s', t', k', v') \<in> set adds0" "x = (internal_key k' s' t', v')" by auto
    then have "s \<noteq> s'" using Cons.prems(3) a by (fastforce simp: sorted_wrt_append)
    then show ?thesis using distinct_additions [OF f, of s' t' k' v'] f0 b by auto
  qed
  then have fresh: "\<forall>x \<in> set es. icompare (fst ?e) (fst x) \<noteq> 0" by blast
  have "short (fst ?e)" "short (snd ?e)" using f by (simp_all add: short_def AppendInternalKey_def PutFixed64_def)
  from slice_comparator.mem_insert_at [OF internal_comparator h this fresh] obtain sl' ns' es' where ins:
    "Insert (mem_compare icompare) (mem_table m) (mem_entry ?e) = Some sl'" "mem_holds icompare sl' ns' es'"
    "mset es' = add_mset ?e (mset es)" by blast
  let ?m = "m\<lparr>mem_table := sl'\<rparr>"
  have add: "mem_Add icompare m s t k v = Some ?m" using add_buffer [OF f] ins(1) by simp
  have "mem_has compare ?m es' (adds0 @ [a])"
    using ins(2,3) es f f0 a by (auto simp: mem_has_def)
  from Cons.IH [OF this] Cons.prems(2,3) show ?case by (simp add: a add)
qed auto

end

section \<open>Lookups\<close>

lemma memtable_key_lookup: "memtable_key (make_LookupKey k s) = EncodeKey (internal_key k s kTypeValue)"
  by (simp add: memtable_key_def make_LookupKey_def Let_def EncodeKey_def PutVarint32_def AppendInternalKey_def PutFixed64_def
      kValueTypeForSeek_def)

text \<open>What \<open>Get\<close> makes of an entry of the table.\<close>

fun entry_result :: "(slice \<Rightarrow> slice \<Rightarrow> int) \<Rightarrow> slice \<Rightarrow> addition \<Rightarrow> slice \<times> Status \<Rightarrow> bool \<times> slice \<times> Status" where
  "entry_result user_compare key (s, t, k, v) =
     lookup_result (if user_compare k key = 0 then Some (s, t, k, v) else None)"

lemma entry_parts:
  assumes "fits (s, t, k, v)"
  obtains klen rest where
    "GetVarint32Ptr (take 5 (mem_entry (internal_key k s t, v))) = Some (klen, rest)" "unat klen = length k + 8"
    "drop (length (take 5 (mem_entry (internal_key k s t, v))) - length rest) (mem_entry (internal_key k s t, v)) =
      k @ EncodeFixed64 (PackSequenceAndType s t) @ EncodeVarint32 (word_of_nat (length v)) @ v"
proof (rule that)
  let ?n = "word_of_nat (length k + 8) :: u32"
  let ?rest = "k @ EncodeFixed64 (PackSequenceAndType s t) @ EncodeVarint32 (word_of_nat (length v)) @ v"
  have e: "mem_entry (internal_key k s t, v) = EncodeVarint32 ?n @ ?rest"
    by (simp add: mem_entry_def AppendInternalKey_def PutFixed64_def)
  show "GetVarint32Ptr (take 5 (mem_entry (internal_key k s t, v))) = Some (?n, take (5 - length (EncodeVarint32 ?n)) ?rest)"
    unfolding e by (rule GetVarint32Ptr_5)
  show "unat ?n = length k + 8" using assms by (intro unat_u32) simp
  show "drop (length (take 5 (mem_entry (internal_key k s t, v))) - length (take (5 - length (EncodeVarint32 ?n)) ?rest))
      (mem_entry (internal_key k s t, v)) = ?rest"
    unfolding e by (rule varint_skip)
qed

lemma lookup_user_key_make: "lookup_user_key (make_LookupKey u s) = u"
  by (simp add: make_LookupKey_def Let_def lookup_user_key_def)

lemma mem_Get_entry:
  assumes seek: "sl_Seek (mem_compare icmp) (mem_table m) (memtable_key (make_LookupKey key s)) = Some (Some x)"
    and x: "key_of (mem_table m) x = mem_entry (addition_entry a)" and f: "fits a"
  shows "mem_Get icmp user_compare m (make_LookupKey key s) (v0, st0) = Some (entry_result user_compare key a (v0, st0))"
proof -
  obtain s' t k v where a: "a = (s', t, k, v)" by (cases a)
  define E where "E = mem_entry (internal_key k s' t, v)"
  obtain klen rest where parts:
    "GetVarint32Ptr (take 5 E) = Some (klen, rest)" "unat klen = length k + 8"
    "drop (length (take 5 E) - length rest) E =
      k @ EncodeFixed64 (PackSequenceAndType s' t) @ EncodeVarint32 (word_of_nat (length v)) @ v"
    unfolding E_def using entry_parts f a by blast
  have "short v" using f a by (simp add: short_def)
  from mem_slice_Encode [OF this, of "[]"]
  have v: "mem_slice (EncodeVarint32 (word_of_nat (length v)) @ v) = (v, [])" by simp
  have t: "type_of_code (PackSequenceAndType s' t AND 0xff) = Some t" using f a by (intro pack_parts) simp
  have x: "key_of (mem_table m) x = E" using x by (simp add: a E_def)
  show ?thesis
    using seek parts(1,2) v t
    by (cases t) (simp_all add: a x mem_Get_def Let_def parts(3) lookup_user_key_make DecodeFixed64_Encode del: length_take)
qed

context slice_comparator
begin

lemma mem_Get_at:
  assumes h: "mem_holds icompare (mem_table m) ns es" and k: "length k + 8 < 2 ^ 32"
    and es: "set es \<subseteq> addition_entry ` A" and A: "\<forall>a \<in> A. fits a"
    and p: "p = comparator.below icompare (internal_key k s kTypeValue) es"
  shows "p = length es \<and> mem_Get icompare compare m (make_LookupKey k s) (v0, st0) = Some (False, v0, st0) \<or>
    p < length es \<and> (\<exists>a \<in> A. es ! p = addition_entry a \<and>
       mem_Get icompare compare m (make_LookupKey k s) (v0, st0) = Some (entry_result compare k a (v0, st0)))"
proof -
  let ?t = "internal_key k s kTypeValue" and ?K = "memtable_key (make_LookupKey k s)"
  have c: "comparator (mem_compare icompare)"
    by (rule mem_comparator) (rule slice_comparator.axioms [OF internal_comparator])
  have "short ?t" using k by (simp add: short_def AppendInternalKey_def PutFixed64_def)
  then have "fst (mem_slice ?K) = ?t" by (simp add: memtable_key_lookup mem_slice_EncodeKey)
  from slice_comparator.holds_place [OF internal_comparator h this]
  have place: "comparator.below (mem_compare icompare) ?K (comparator.sl_entries (mem_table m) ns) = p" by (simp add: p)
  have seek: "sl_Seek (mem_compare icompare) (mem_table m) ?K = Some (next_in ns p)"
    using comparator.FindGreaterOrEqual_at [OF c slice_comparator.holds_searchable [OF internal_comparator h], of ?K]
    by (auto simp: sl_Seek_def place)
  note len = slice_comparator.holds_length [OF internal_comparator h]
  have "p \<le> length es" unfolding p by (rule comparator.below_le [OF slice_comparator.axioms [OF internal_comparator]])
  then consider "p = length es" | "p < length es" by linarith
  then show ?thesis
  proof cases
    case 1
    then show ?thesis using seek len by (simp add: mem_Get_def next_in_def)
  next
    case 2
    then have "es ! p \<in> addition_entry ` A" using es by auto
    then obtain a where a: "a \<in> A" "es ! p = addition_entry a" by auto
    have "sl_Seek (mem_compare icompare) (mem_table m) ?K = Some (Some (ns ! Suc p))" using seek 2 len by (simp add: next_in_def)
    from mem_Get_entry [OF this _ bspec [OF A a(1)], of compare v0 st0]
    show ?thesis using 2 a slice_comparator.holds_key(1) [OF internal_comparator h 2] by auto
  qed
qed

end

lemma strictly_ascending_same:
  "sorted_wrt (\<lambda>a b. fst a < fst b) adds \<Longrightarrow> a \<in> set adds \<Longrightarrow> b \<in> set adds \<Longrightarrow> fst a = fst b \<Longrightarrow> a = b"
  for a :: "'a::order \<times> 'b"
  by (induction adds) auto

lemma find_rev_newest:
  "sorted_wrt (\<lambda>a b. fst a < fst b) adds \<Longrightarrow> find P (rev adds) = Some a \<Longrightarrow>
    a \<in> set adds \<and> P a \<and> (\<forall>b \<in> set adds. P b \<longrightarrow> b = a \<or> fst b < fst a)" for a :: "'a::order \<times> 'b"
  by (induction adds rule: rev_induct) (auto simp: sorted_wrt_append split: if_splits)

context slice_comparator
begin

lemma mem_Get_last_write:
  assumes m: "mem_has compare m es adds" and asc: "sorted_wrt (\<lambda>a b. fst a < fst b) adds"
    and k: "length k + 8 < 2 ^ 32" and s: "s \<le> kMaxSequenceNumber"
  shows "mem_Get icompare compare m (make_LookupKey k s) (v0, st0) = Some (lookup_result (last_write compare k s adds) (v0, st0))"
proof -
  let ?t = "internal_key k s kTypeValue"
  let ?P = "\<lambda>(s', t, k', v). s' \<le> s \<and> compare k' k = 0"
  define p where p: "p = comparator.below icompare ?t es"
  note ic = slice_comparator.axioms [OF internal_comparator]
  from m obtain ns where h: "mem_holds icompare (mem_table m) ns es" and es: "mset es = mset (map addition_entry adds)"
    and fits: "\<forall>a \<in> set adds. fits a" by (auto simp: mem_has_def)
  have set: "set es = addition_entry ` set adds" using es by (metis list.set_map set_mset_mset)
  have ord: "comparator.ordered icompare (map fst es)" by (rule slice_comparator.holds_ordered [OF internal_comparator h])
  have less: "icompare (internal_key k1 s1 t1) (internal_key k2 s2 t2) < 0 \<longleftrightarrow>
      compare k1 k2 < 0 \<or> compare k1 k2 = 0 \<and> (s2 < s1 \<or> s2 = s1 \<and> t2 = kTypeDeletion \<and> t1 = kTypeValue)"
    if "s1 \<le> kMaxSequenceNumber" "s2 \<le> kMaxSequenceNumber" for k1 k2 s1 s2 t1 t2
    using that by (rule internal_key_less)
  have behind: "?P a \<Longrightarrow> \<exists>j < length es. p \<le> j \<and> es ! j = addition_entry a" if a: "a \<in> set adds" for a
  proof -
    assume P: "?P a"
    obtain s' t k' v where a': "a = (s', t, k', v)" by (cases a)
    have "addition_entry a \<in> set es" using set a by simp
    then obtain j where j: "j < length es" "es ! j = addition_entry a" by (auto simp: in_set_conv_nth)
    have "s' \<le> kMaxSequenceNumber" using fits a a' by auto
    then have "\<not> icompare (fst (es ! j)) ?t < 0" using less [of s' s k' t k kTypeValue] s P a' j by auto
    then have "p \<le> j" unfolding p using comparator.below_less [OF ic, of j ?t es] by (meson not_le)
    with j show ?thesis by blast
  qed
  have "set es \<subseteq> addition_entry ` set adds" using set by simp
  note cases = mem_Get_at [OF h k this fits p, of v0 st0]
  have at_p: "?P a" if "p < length es" "es ! p = addition_entry a" "a \<in> set adds" "compare (fst (snd (snd a))) k = 0" for a
  proof -
    obtain s' t k' v where a: "a = (s', t, k', v)" by (cases a)
    have "\<not> icompare (fst (es ! p)) ?t < 0"
      using comparator.below_at [OF ic, of ?t es] that(1) by (simp add: p)
    moreover have "s' \<le> kMaxSequenceNumber" using fits that(3) a by auto
    ultimately show ?thesis using less [of s' s k' t k kTypeValue] s that(2,4) a by auto
  qed
  show ?thesis
  proof (cases "last_write compare k s adds")
    case None
    then have no: "\<not> ?P a" if "a \<in> set adds" for a using that by (auto simp: last_write_def find_None_iff)
    from cases show ?thesis
    proof (elim disjE conjE bexE)
      fix a assume a: "p < length es" "a \<in> set adds" "es ! p = addition_entry a"
        "mem_Get icompare compare m (make_LookupKey k s) (v0, st0) = Some (entry_result compare k a (v0, st0))"
      then have "compare (fst (snd (snd a))) k \<noteq> 0" using at_p [of a] no by blast
      then show ?thesis using a None by (cases a) simp
    qed (simp add: None)
  next
    case (Some a)
    then have a: "a \<in> set adds" "?P a" "\<forall>b \<in> set adds. ?P b \<longrightarrow> b = a \<or> fst b < fst a"
      using find_rev_newest [OF asc, of ?P a] by (simp_all add: last_write_def)
    obtain j where j: "j < length es" "p \<le> j" "es ! j = addition_entry a" using behind [OF a(1,2)] by blast
    then obtain b where b: "b \<in> set adds" "es ! p = addition_entry b"
        "mem_Get icompare compare m (make_LookupKey k s) (v0, st0) = Some (entry_result compare k b (v0, st0))"
      using cases by auto
    obtain s1 t1 k1 v1 where a': "a = (s1, t1, k1, v1)" by (cases a)
    obtain s2 t2 k2 v2 where b': "b = (s2, t2, k2, v2)" by (cases b)
    have "b = a"
    proof (cases "p = j")
      case False
      then have "icompare (fst (es ! p)) (fst (es ! j)) < 0" using comparator.ordered_nth [OF ic ord, of p j] j by simp
      moreover have "s1 \<le> kMaxSequenceNumber" "s2 \<le> kMaxSequenceNumber" using fits a b a' b' by auto
      ultimately have newer: "compare k2 k1 < 0 \<or> compare k2 k1 = 0 \<and> s1 \<le> s2"
        using less [of s2 s1 k2 t2 k1 t1] a' b' b(2) j(3) by auto
      have "\<not> icompare (fst (es ! p)) ?t < 0" using comparator.below_at [OF ic, of ?t es] False j by (simp add: p)
      then have "0 \<le> compare k2 k" using less [of s2 s k2 t2 k kTypeValue] s fits b(1,2) b' by auto
      moreover have k1: "compare k1 k = 0" using a(2) a' by simp
      moreover have "compare k2 k \<le> 0" using compare_trans [of k2 k1 k] newer k1 by auto
      ultimately have k2: "compare k2 k = 0" by simp
      then have "?P b" using at_p [of b] b b' False j by auto
      moreover have "\<not> compare k2 k1 < 0" using compare_less_trans [of k2 k1 k] k1 k2 by auto
      ultimately show ?thesis using a(3) b(1) newer a' b' by auto
    next
      case True
      then have "fst (addition_entry b) = fst (addition_entry a)" using b(2) j(3) by simp
      then have "\<not> icompare (internal_key k2 s2 t2) (internal_key k1 s1 t1) \<noteq> 0"
        using comparator.compare_self [OF ic] by (simp add: a' b')
      moreover have "fits (s2, t2, k2, v2)" "fits (s1, t1, k1, v1)" using fits a(1) b(1) a' b' by blast+
      ultimately have "s1 = s2" using distinct_additions by metis
      then show ?thesis using strictly_ascending_same [OF asc b(1) a(1)] by (simp add: a' b')
    qed
    with b(3) a(2) Some show ?thesis using a' by simp
  qed
qed

lemma add_then_Get:
  assumes "\<forall>a \<in> set adds. fits a" and "sorted_wrt (\<lambda>a b. fst a < fst b) adds"
    and "length key + 8 < 2 ^ 32" and "s \<le> kMaxSequenceNumber"
  shows "\<exists>m. add_to_mem icompare make_MemTable adds = Some m \<and>
    mem_Get icompare compare m (make_LookupKey key s) (v0, st0) = Some (lookup_result (last_write compare key s adds) (v0, st0))"
proof -
  have "mem_has compare make_MemTable [] []"
    using slice_comparator.mem_start [OF internal_comparator] by (auto simp: mem_has_def)
  from mem_add_all [OF this assms(1)] assms(2) obtain m es where
    "add_to_mem icompare make_MemTable adds = Some m" "mem_has compare m es adds" by auto
  then show ?thesis using mem_Get_last_write [OF _ assms(2-4)] by blast
qed

end

section \<open>Property\<close>

text \<open>
  The memtable is a map with versions: after additions with ascending sequence numbers, which no
  assertion of the code stops, \<open>Get\<close> with the key of a lookup at a snapshot gives what the last addition of
  the user's key that is not newer than the snapshot says: its value, that it was deleted, or, with no such
  addition, that the table does not know.
\<close>

theorem memtable_get:
  assumes "slice_comparator compare" and "\<forall>a \<in> set adds. fits a" and "sorted_wrt (\<lambda>a b. fst a < fst b) adds"
    and "length key + 8 < 2 ^ 32" and "s \<le> kMaxSequenceNumber"
  shows "\<exists>m. add_to_mem (InternalKeyCompare compare) make_MemTable adds = Some m \<and>
    mem_Get (InternalKeyCompare compare) compare m (make_LookupKey key s) (v0, st0) =
      Some (lookup_result (last_write compare key s adds) (v0, st0))"
  by (rule slice_comparator.add_then_Get [OF assms])

text \<open>At snapshot 2 the value written first, at 3 the deletion, at 1 nothing yet.\<close>

theorem memtable_get_witness:
  "(\<exists>m. add_to_mem (InternalKeyCompare BytewiseCompare) make_MemTable
      [(2, kTypeValue, [1], [7]), (3, kTypeDeletion, [1], []), (4, kTypeValue, [1], [9])] = Some m \<and>
    mem_Get (InternalKeyCompare BytewiseCompare) BytewiseCompare m (make_LookupKey [1] 2) ([], OK) = Some (True, [7], OK))"
proof -
  have fits: "\<forall>a \<in> set [(2, kTypeValue, [1], [7]), (3, kTypeDeletion, [1], []), (4, kTypeValue, [1], [9])]. fits a"
    by (simp add: kMaxSequenceNumber_def)
  have "last_write BytewiseCompare [1] 2 [(2, kTypeValue, [1], [7]), (3, kTypeDeletion, [1], []), (4, kTypeValue, [1], [9])]
      = Some (2, kTypeValue, [1], [7])"
    by (simp add: last_write_def BytewiseCompare_def)
  with memtable_get [OF bytewise.slice_comparator_axioms fits, of "[1]" 2 "[]" OK]
  show ?thesis by (simp add: kMaxSequenceNumber_def)
qed

end
