(* ===== verification/LdbWriteBatchProps.thy ===== *)
theory LdbWriteBatchProps
  imports LdbWriteBatch LdbMemTableProps
begin

text \<open>
  What a batch is for: a handler sees the updates in their order, a damaged batch is not reported as applied,
  and the memtable after some batches answers with the last update. The specification of a batch is the list
  of its updates.
\<close>

section \<open>Batches as lists of updates\<close>

datatype update = Write slice slice | Erase slice

fun batch_update :: "WriteBatch \<Rightarrow> update \<Rightarrow> WriteBatch option" where
  "batch_update b (Write key value) = batch_Put b key value"
| "batch_update b (Erase key) = batch_Delete b key"

fun batch_of :: "WriteBatch \<Rightarrow> update list \<Rightarrow> WriteBatch option" where
  "batch_of b [] = Some b"
| "batch_of b (u # us) = do { b \<leftarrow> batch_update b u; batch_of b us }"

fun handle :: "'s Handler \<Rightarrow> update \<Rightarrow> 's \<Rightarrow> 's option" where
  "handle h (Write key value) s = on_Put h key value s"
| "handle h (Erase key) s = on_Delete h key s"

fun handle_all :: "'s Handler \<Rightarrow> update list \<Rightarrow> 's \<Rightarrow> 's option" where
  "handle_all h [] s = Some s"
| "handle_all h (u # us) s = do { s \<leftarrow> handle h u s; handle_all h us s }"

text \<open>The sizes that the encoding of a record can hold.\<close>

fun storable :: "update \<Rightarrow> bool" where
  "storable (Write key value) \<longleftrightarrow> length key < 2 ^ 32 \<and> length value < 2 ^ 32"
| "storable (Erase key) \<longleftrightarrow> length key < 2 ^ 32"

section \<open>The layout of a batch\<close>

fun record_bytes :: "update \<Rightarrow> byte list" where
  "record_bytes (Write key value) = 1 # PutLengthPrefixedSlice [] key @ PutLengthPrefixedSlice [] value"
| "record_bytes (Erase key) = 0 # PutLengthPrefixedSlice [] key"

definition batch_bytes :: "SequenceNumber \<Rightarrow> int \<Rightarrow> update list \<Rightarrow> WriteBatch" where
  "batch_bytes seq n us = EncodeFixed64 seq @ EncodeFixed32 (word_of_int n) @ concat (map record_bytes us)"

lemma PutLengthPrefixedSlice_append: "PutLengthPrefixedSlice dst v = dst @ PutLengthPrefixedSlice [] v"
  by (simp add: PutLengthPrefixedSlice_def PutVarint32_def)

lemma sint_of_int: "- (2 ^ 31) \<le> n \<Longrightarrow> n < 2 ^ 31 \<Longrightarrow> sint (word_of_int n :: u32) = n"
  by (simp add: signed_of_int signed_take_bit_int_eq_self)

lemma batch_bytes_parts:
  "drop kHeader (batch_bytes seq n us) = concat (map record_bytes us)" "\<not> length (batch_bytes seq n us) < kHeader"
  "batch_Sequence (batch_bytes seq n us) = seq"
  "batch_SetSequence (batch_bytes seq n us) seq' = batch_bytes seq' n us"
  "batch_SetCount (batch_bytes seq n us) n' = batch_bytes seq n' us"
  "- (2 ^ 31) \<le> n \<Longrightarrow> n < 2 ^ 31 \<Longrightarrow> batch_Count (batch_bytes seq n us) = n"
  by (simp_all add: batch_bytes_def kHeader_def batch_Sequence_def DecodeFixed64_Encode batch_SetSequence_def
      batch_SetCount_def batch_Count_def DecodeFixed32_Encode sint_of_int)

lemma batch_Clear_bytes: "batch_Clear = batch_bytes 0 0 []"
proof -
  have "EncodeFixed64 0 = [0, 0, 0, 0, 0, 0, 0, 0]" "EncodeFixed32 0 = [0, 0, 0, 0]"
    by (simp_all add: EncodeFixed64_def EncodeFixed64_port_def EncodeFixed32_def EncodeFixed32_port_def kLittleEndian_def
        le_rep_8 le_rep_4)
  moreover have "replicate 12 (0 :: byte) = [0, 0, 0, 0, 0, 0, 0, 0, 0, 0, 0, 0]" by code_simp
  ultimately show ?thesis by (simp add: batch_Clear_def batch_bytes_def kHeader_def)
qed

lemma batch_update_bytes:
  assumes "- (2 ^ 31) \<le> n" and "n + 1 < 2 ^ 31"
  shows "batch_update (batch_bytes seq n us) u = Some (batch_bytes seq (n + 1) (us @ [u]))"
proof -
  have "batch_add_count (batch_bytes seq n us) 1 = Some (batch_bytes seq (n + 1) us)"
    using assms by (simp add: batch_add_count_def batch_bytes_parts)
  then show ?thesis
    by (cases u)
      (simp_all add: batch_Put_def batch_Delete_def PutLengthPrefixedSlice_append [of "_ @ _"] batch_bytes_def)
qed

lemma batch_of_bytes:
  "- (2 ^ 31) \<le> n \<Longrightarrow> n + int (length us') < 2 ^ 31 \<Longrightarrow>
    batch_of (batch_bytes seq n us) us' = Some (batch_bytes seq (n + int (length us')) (us @ us'))"
proof (induction us' arbitrary: n us)
  case (Cons u us')
  then show ?case using batch_update_bytes [of n seq us u] Cons.IH [of "n + 1" "us @ [u]"] by (simp add: algebra_simps)
qed simp

lemma batch_Append_bytes:
  assumes "0 \<le> n" and "0 \<le> n'" and "n + n' < 2 ^ 31"
  shows "batch_Append (batch_bytes seq n us) (batch_bytes seq' n' us') = Some (batch_bytes seq (n + n') (us @ us'))"
proof -
  have "batch_add_count (batch_bytes seq n us) n' = Some (batch_bytes seq (n + n') us)"
    using assms by (simp add: batch_add_count_def batch_bytes_parts)
  moreover have "batch_Count (batch_bytes seq' n' us') = n'" using assms by (simp add: batch_bytes_parts)
  ultimately show ?thesis by (simp add: batch_Append_def batch_bytes_parts) (simp add: batch_bytes_def)
qed

section \<open>Iteration\<close>

lemma batch_records_all:
  "\<forall>u \<in> set us. storable u \<Longrightarrow> batch_records h (concat (map record_bytes us) @ rest) n s =
    (case handle_all h us s of None \<Rightarrow> None | Some s \<Rightarrow> batch_records h rest (n + int (length us)) s)"
proof (induction us arbitrary: n s)
  case (Cons u us)
  then have st: "storable u" and IH: "\<And>n s. batch_records h (concat (map record_bytes us) @ rest) n s =
    (case handle_all h us s of None \<Rightarrow> None | Some s \<Rightarrow> batch_records h rest (n + int (length us)) s)" by auto
  show ?case
    using st IH by (cases u) (simp_all add: GetLengthPrefixedSlice_Put algebra_simps split: option.split)
qed simp

lemma batch_Iterate_bytes:
  assumes "\<forall>u \<in> set us. storable u" and "- (2 ^ 31) \<le> n" and "n < 2 ^ 31"
  shows "batch_Iterate h (batch_bytes seq n us) s =
    map_option (Pair (if n = int (length us) then OK else Corruption (bytes_of ''WriteBatch has wrong count'') []))
      (handle_all h us s)"
  using batch_records_all [OF assms(1), of h "[]" 0 s] assms(2,3)
  by (simp add: batch_Iterate_def batch_bytes_parts split: option.splits)

text \<open>A record that is cut is a fault.\<close>

lemma parse_varint_cut: "parse_varint k xs = Some (v, []) \<Longrightarrow> m < length xs \<Longrightarrow> parse_varint k (take m xs) = None"
proof (induction k xs arbitrary: m v rule: parse_varint.induct)
  case (3 k b xs)
  then show ?case by (cases m) (auto split: if_splits)
qed simp_all

lemma GetLengthPrefixedSlice_cut:
  assumes "length v < 2 ^ 32" and "m < length (PutLengthPrefixedSlice [] v)"
  shows "fst (GetLengthPrefixedSlice (take m (PutLengthPrefixedSlice [] v))) = None"
proof -
  let ?e = "EncodeVarint32 (word_of_nat (length v))"
  have put: "PutLengthPrefixedSlice [] v = ?e @ v" by (simp add: PutLengthPrefixedSlice_def PutVarint32_def)
  show ?thesis
  proof (cases "m < length ?e")
    case True
    have "parse_varint 5 ?e = Some (unat (word_of_nat (length v) :: u32), [])"
      using parse_varint_32 [of "word_of_nat (length v)" "[]"] by (simp add: EncodeVarint32_bytes)
    from parse_varint_cut [OF this True] show ?thesis
      using True by (simp add: put GetLengthPrefixedSlice_def GetVarint32_def GetVarint32Ptr_parse)
  next
    case False
    then show ?thesis using assms GetVarint32_Encode [of "word_of_nat (length v)" "take (m - length ?e) v"]
      by (simp add: put GetLengthPrefixedSlice_def unat_word_of_nat_length)
  qed
qed

lemma batch_record_cut:
  assumes "storable u" and "0 < m" and "m < length (record_bytes u)"
  shows "\<exists>msg. batch_records h (take m (record_bytes u)) n s = Some (Corruption msg [], n + 1, s)"
proof (cases u)
  case (Write key v)
  obtain j where m: "m = Suc j" using assms(2) by (cases m) auto
  let ?k = "PutLengthPrefixedSlice [] key" and ?v = "PutLengthPrefixedSlice [] v"
  have st: "length key < 2 ^ 32" "length v < 2 ^ 32" using assms(1) Write by simp_all
  show ?thesis
  proof (cases "j < length ?k")
    case True
    then show ?thesis using GetLengthPrefixedSlice_cut [OF st(1) True] Write m
      by (auto split: prod.splits option.splits)
  next
    case False
    then have "j - length ?k < length ?v" using assms(3) Write m by simp
    from GetLengthPrefixedSlice_cut [OF st(2) this] GetLengthPrefixedSlice_Put [OF st(1)] show ?thesis
      using False Write m by (auto split: prod.splits option.splits)
  qed
next
  case (Erase key)
  obtain j where m: "m = Suc j" using assms(2) by (cases m) auto
  then have j: "j < length (PutLengthPrefixedSlice [] key)" using assms(3) Erase by simp
  have "length key < 2 ^ 32" using assms(1) Erase by simp
  from GetLengthPrefixedSlice_cut [OF this j] show ?thesis using Erase m by (auto split: prod.splits option.splits)
qed

lemma cut_records:
  "m < length (concat (map record_bytes us)) \<Longrightarrow>
    \<exists>k j. k < length us \<and> j < length (record_bytes (us ! k)) \<and>
      take m (concat (map record_bytes us)) = concat (map record_bytes (take k us)) @ take j (record_bytes (us ! k))"
proof (induction us arbitrary: m)
  case (Cons u us)
  show ?case
  proof (cases "m < length (record_bytes u)")
    case True
    then show ?thesis by (intro exI [of _ 0] exI [of _ m]) simp
  next
    case False
    then have "m - length (record_bytes u) < length (concat (map record_bytes us))" using Cons.prems by simp
    from Cons.IH [OF this] obtain k j where
      "k < length us" "j < length (record_bytes (us ! k))"
      "take (m - length (record_bytes u)) (concat (map record_bytes us))
        = concat (map record_bytes (take k us)) @ take j (record_bytes (us ! k))" by blast
    with False show ?thesis by (intro exI [of _ "Suc k"] exI [of _ j]) simp
  qed
qed simp

lemma handle_all_total: "\<forall>u s. handle h u s \<noteq> None \<Longrightarrow> \<exists>s'. handle_all h us s = Some s'"
proof (induction us arbitrary: s)
  case (Cons u us)
  then obtain s' where "handle h u s = Some s'" by blast
  with Cons show ?case by simp
qed simp

lemma batch_Iterate_cut:
  assumes st: "\<forall>u \<in> set us. storable u" and us: "length us < 2 ^ 31" and total: "\<forall>u s. handle h u s \<noteq> None"
    and n: "n < length (batch_bytes seq (int (length us)) us)"
  shows "\<exists>msg k s'. batch_Iterate h (take n (batch_bytes seq (int (length us)) us)) s = Some (Corruption msg [], s') \<and>
    handle_all h (take k us) s = Some s'"
proof (cases "n < kHeader")
  case True
  then show ?thesis by (intro exI [of _ "bytes_of ''malformed WriteBatch (too small)''"] exI [of _ 0] exI [of _ s])
      (simp add: batch_Iterate_def min_def)
next
  case False
  let ?b = "batch_bytes seq (int (length us)) us" and ?rs = "concat (map record_bytes us)"
  have len: "length ?b = kHeader + length ?rs" by (simp add: batch_bytes_def kHeader_def)
  have count: "batch_Count (take n ?b) = int (length us)"
  proof -
    have "drop 8 (take n ?b) = EncodeFixed32 (word_of_int (int (length us))) @ take (n - 12) ?rs"
      using False by (simp add: batch_bytes_def kHeader_def)
    then show ?thesis using us by (simp add: batch_Count_def DecodeFixed32_Encode sint_of_int del: of_int_of_nat_eq)
  qed
  have "n - kHeader < length ?rs" using n False by (simp add: len)
  from cut_records [OF this] obtain k j where k: "k < length us" "j < length (record_bytes (us ! k))"
    "take (n - kHeader) ?rs = concat (map record_bytes (take k us)) @ take j (record_bytes (us ! k))" by blast
  have data: "drop kHeader (take n ?b) = concat (map record_bytes (take k us)) @ take j (record_bytes (us ! k))"
    using k(3) by (simp add: drop_take batch_bytes_parts)
  obtain s' where s': "handle_all h (take k us) s = Some s'" using handle_all_total [OF total] by blast
  have stk: "\<forall>u \<in> set (take k us). storable u" "storable (us ! k)" using st k(1) by (auto dest: in_set_takeD)
  have k': "int (length (take k us)) = int k" using k(1) by simp
  note run = batch_records_all [OF stk(1), of h "take j (record_bytes (us ! k))" 0 s, unfolded s' option.case k']
  have long: "\<not> length (take n ?b) < kHeader" using n False by simp
  show ?thesis
  proof (cases j)
    case 0
    then have "batch_Iterate h (take n ?b) s = Some (Corruption (bytes_of ''WriteBatch has wrong count'') [], s')"
      using run k(1) long by (simp add: batch_Iterate_def data count)
    with s' show ?thesis by blast
  next
    case (Suc i)
    then obtain msg where "batch_records h (take j (record_bytes (us ! k))) (int k) s' = Some (Corruption msg [], int k + 1, s')"
      using batch_record_cut [OF stk(2) _ k(2), of h "int k" s'] by auto
    then have "batch_Iterate h (take n ?b) s = Some (Corruption msg [], s')"
      using run long by (simp add: batch_Iterate_def data)
    with s' show ?thesis by blast
  qed
qed

section \<open>Batches and the memtable\<close>

fun numbered :: "SequenceNumber \<Rightarrow> update list \<Rightarrow> addition list" where
  "numbered s [] = []"
| "numbered s (Write key value # us) = (s, kTypeValue, key, value) # numbered (s + 1) us"
| "numbered s (Erase key # us) = (s, kTypeDeletion, key, []) # numbered (s + 1) us"

lemma handle_inserter:
  "map_option snd (handle_all (MemTableInserter icmp) us (s, m)) = add_to_mem icmp m (numbered s us)"
proof (induction us arbitrary: s m)
  case (Cons u us)
  show ?case
  proof (cases u)
    case (Write key v)
    then show ?thesis using Cons.IH [of "s + 1"] by (cases "mem_Add icmp m s kTypeValue key v") (simp_all add: MemTableInserter_def)
  next
    case (Erase key)
    then show ?thesis using Cons.IH [of "s + 1"] by (cases "mem_Add icmp m s kTypeDeletion key []") (simp_all add: MemTableInserter_def)
  qed
qed simp

lemma add_to_mem_append: "add_to_mem icmp m (xs @ ys) = do { m \<leftarrow> add_to_mem icmp m xs; add_to_mem icmp m ys }"
proof (induction xs arbitrary: m)
  case (Cons x xs)
  then show ?case by (cases x) (auto split: Option.bind_splits)
qed simp

lemma InsertInto_bytes:
  assumes "\<forall>u \<in> set us. storable u" and "length us < 2 ^ 31"
  shows "InsertInto icmp (batch_bytes s (int (length us)) us) m = map_option (Pair OK) (add_to_mem icmp m (numbered s us))"
proof -
  have "batch_Iterate (MemTableInserter icmp) (batch_bytes s (int (length us)) us) (s, m)
      = map_option (Pair OK) (handle_all (MemTableInserter icmp) us (s, m))"
    using batch_Iterate_bytes [OF assms(1), of "int (length us)"] assms(2) by simp
  then show ?thesis
    unfolding handle_inserter [symmetric] InsertInto_def batch_bytes_parts
    by (cases "handle_all (MemTableInserter icmp) us (s, m)") auto
qed

text \<open>Batches with the sequence numbers at which they are written, one after the other.\<close>

fun write_batches :: "(slice \<Rightarrow> slice \<Rightarrow> int) \<Rightarrow> MemTable \<Rightarrow> (SequenceNumber \<times> update list) list \<Rightarrow> MemTable option" where
  "write_batches icmp m [] = Some m"
| "write_batches icmp m ((s, us) # bs) = do {
     b \<leftarrow> batch_of batch_Clear us;
     (status, m) \<leftarrow> InsertInto icmp (batch_SetSequence b s) m;
     if ok status then write_batches icmp m bs else None
   }"

lemma write_batches_add:
  "\<forall>(s, us) \<in> set bs. length us < 2 ^ 31 \<and> (\<forall>u \<in> set us. storable u) \<Longrightarrow>
    write_batches icmp m bs = add_to_mem icmp m (concat (map (\<lambda>(s, us). numbered s us) bs))"
proof (induction bs arbitrary: m)
  case (Cons p bs)
  obtain s us where p: "p = (s, us)" by (cases p)
  have "batch_of batch_Clear us = Some (batch_bytes 0 (int (length us)) us)"
    using batch_of_bytes [of 0 us 0 "[]"] Cons.prems p by (simp add: batch_Clear_bytes)
  then show ?case
    using Cons InsertInto_bytes [of us icmp s m] p
    by (cases "add_to_mem icmp m (numbered s us)") (simp_all add: batch_bytes_parts add_to_mem_append)
qed simp

section \<open>Properties\<close>

text \<open>
  C24. A batch is the list of its updates: whatever handler reads a batch that was filled by \<open>Put\<close> and
  \<open>Delete\<close>, and to which a second one was appended, sees exactly these updates in this order, and the
  iteration reports success.
\<close>

theorem batch_applies_updates:
  assumes "\<forall>u \<in> set (us @ us'). storable u" and "length us + length us' < 2 ^ 31"
  shows "\<exists>b b' b''. batch_of batch_Clear us = Some b \<and> batch_of batch_Clear us' = Some b' \<and>
    batch_Append b b' = Some b'' \<and> batch_Count b'' = int (length (us @ us')) \<and>
    (\<forall>h s. batch_Iterate h b'' s = map_option (Pair OK) (handle_all h (us @ us') s))"
proof -
  let ?n = "int (length us)" and ?n' = "int (length us')"
  have n: "?n + ?n' < 2 ^ 31" using assms(2) by simp
  have b: "batch_of batch_Clear us = Some (batch_bytes 0 ?n us)" "batch_of batch_Clear us' = Some (batch_bytes 0 ?n' us')"
    using batch_of_bytes [of 0 us 0 "[]"] batch_of_bytes [of 0 us' 0 "[]"] n by (simp_all add: batch_Clear_bytes)
  have a: "batch_Append (batch_bytes 0 ?n us) (batch_bytes 0 ?n' us') = Some (batch_bytes 0 (?n + ?n') (us @ us'))"
    using batch_Append_bytes n by simp
  have c: "batch_Count (batch_bytes 0 (?n + ?n') (us @ us')) = int (length (us @ us'))"
    using batch_bytes_parts(6) n by simp
  have "batch_Iterate h (batch_bytes 0 (?n + ?n') (us @ us')) s = map_option (Pair OK) (handle_all h (us @ us') s)" for h s
    using batch_Iterate_bytes [OF assms(1), of "?n + ?n'" h 0 s] n by simp
  with b a c show ?thesis by blast
qed

theorem batch_applies_updates_witness:
  "\<exists>b b' b''. batch_of batch_Clear [Write [1] [7]] = Some b \<and> batch_of batch_Clear [Erase [2]] = Some b' \<and>
     batch_Append b b' = Some b'' \<and> batch_Count b'' = 2 \<and>
     batch_Iterate \<lparr>on_Put = \<lambda>k v s. Some (s @ [(k, v)]), on_Delete = \<lambda>k s. Some (s @ [(k, [])])\<rparr> b'' []
       = Some (OK, [([1], [7]), ([2], [])])"
proof -
  have "\<forall>u \<in> set ([Write [1] [7]] @ [Erase [2]]). storable u" by simp
  from batch_applies_updates [OF this, where 'a = "(slice \<times> slice) list"] show ?thesis by auto
qed

text \<open>
  C25. A batch that is cut anywhere is never taken for a whole one: the iteration reports a corruption, and
  the handler has seen some of the first updates, each of them complete.
\<close>

theorem batch_cut_detected:
  assumes "\<forall>u \<in> set us. storable u" and "length us < 2 ^ 31" and "\<forall>u s. handle h u s \<noteq> None"
    and "batch_of batch_Clear us = Some b" and "n < length b"
  shows "\<exists>msg k s'. batch_Iterate h (take n b) s = Some (Corruption msg [], s') \<and> handle_all h (take k us) s = Some s'"
proof -
  have "b = batch_bytes 0 (int (length us)) us"
    using batch_of_bytes [of 0 us 0 "[]"] assms(2,4) by (simp add: batch_Clear_bytes)
  then show ?thesis using batch_Iterate_cut [OF assms(1-3)] assms(5) by blast
qed

theorem batch_cut_detected_witness:
  "\<exists>msg k s'. batch_Iterate \<lparr>on_Put = \<lambda>k v s. Some (s @ [(k, v)]), on_Delete = \<lambda>k s. Some (s @ [(k, [])])\<rparr>
      (take 14 [0, 0, 0, 0, 0, 0, 0, 0, 1, 0, 0, 0, 1, 1, 5, 1, 7]) [] = Some (Corruption msg [], s') \<and>
    handle_all \<lparr>on_Put = \<lambda>k v s. Some (s @ [(k, v)]), on_Delete = \<lambda>k s. Some (s @ [(k, [])])\<rparr> (take k [Write [5] [7]]) [] = Some s'"
proof -
  let ?h = "\<lparr>on_Put = \<lambda>k v s. Some (s @ [(k, v)]), on_Delete = \<lambda>k s. Some (s @ [(k, [])])\<rparr> :: (slice \<times> slice) list Handler"
  have total: "\<forall>u s. handle ?h u s \<noteq> None"
  proof (intro allI)
    fix u s show "handle ?h u s \<noteq> None" by (cases u) simp_all
  qed
  have b: "batch_of batch_Clear [Write [5] [7]] = Some [0, 0, 0, 0, 0, 0, 0, 0, 1, 0, 0, 0, 1, 1, 5, 1, 7]" by code_simp
  have "\<forall>u \<in> set [Write [5] [7]]. storable u" by simp
  from batch_cut_detected [OF this _ total b, of 14 "[]"] show ?thesis by simp
qed

text \<open>
  C23. What is written can be read: after any batches, written one after the other to an empty memtable with
  sequence numbers that ascend, a lookup of a key at a snapshot gives the last update of the key that is not
  newer than the snapshot: its value, that it was deleted, or that the table does not know the key.
\<close>

theorem batches_then_get:
  assumes "slice_comparator compare"
    and "\<forall>(s, us) \<in> set bs. length us < 2 ^ 31 \<and> (\<forall>u \<in> set us. storable u)"
    and "\<forall>a \<in> set (concat (map (\<lambda>(s, us). numbered s us) bs)). fits a"
    and "sorted_wrt (<) (map fst (concat (map (\<lambda>(s, us). numbered s us) bs)))"
    and "length key + 8 < 2 ^ 32" and "s \<le> kMaxSequenceNumber"
  shows "\<exists>m. write_batches (InternalKeyCompare compare) make_MemTable bs = Some m \<and>
    mem_Get (InternalKeyCompare compare) compare m (make_LookupKey key s) (v0, st0) =
      Some (lookup_result (last_write compare key s (concat (map (\<lambda>(s, us). numbered s us) bs))) (v0, st0))"
  unfolding write_batches_add [OF assms(2)]
  by (rule slice_comparator.add_then_Get [OF assms(1,3) _ assms(5,6)]) (use assms(4) in \<open>simp add: sorted_wrt_map\<close>)

theorem batches_then_get_witness:
  "\<exists>m. write_batches (InternalKeyCompare BytewiseCompare) make_MemTable
      [(1, [Write [5] [7], Write [6] [8]]), (3, [Erase [5]])] = Some m \<and>
    mem_Get (InternalKeyCompare BytewiseCompare) BytewiseCompare m (make_LookupKey [5] 3) ([], OK)
      = Some (True, [], NotFound [] [])"
proof -
  let ?bs = "[(1, [Write [5] [7], Write [6] [8]]), (3, [Erase [5]])] :: (SequenceNumber \<times> update list) list"
  have n: "concat (map (\<lambda>(s, us). numbered s us) ?bs) =
      [(1, kTypeValue, [5], [7]), (2, kTypeValue, [6], [8]), (3, kTypeDeletion, [5], [])]" by simp
  have "\<forall>(s, us) \<in> set ?bs. length us < 2 ^ 31 \<and> (\<forall>u \<in> set us. storable u)" by simp
  moreover have "last_write BytewiseCompare [5] 3 (concat (map (\<lambda>(s, us). numbered s us) ?bs)) = Some (3, kTypeDeletion, [5], [])"
    unfolding n by (simp add: last_write_def BytewiseCompare_def)
  ultimately show ?thesis
    using batches_then_get [OF bytewise.slice_comparator_axioms, of ?bs "[5]" 3 "[]" OK]
    unfolding n by (simp add: kMaxSequenceNumber_def)
qed

end
