(* ===== verification/LdbCacheSpec.thy ===== *)
theory LdbCacheSpec
  imports LdbCoding "HOL-Library.Multiset"
begin

text \<open>
  The interface of a cache (\<open>include/leveldb/cache.h\<close>): a record of the virtual functions over a state, and
  what the clients rely on as a locale. A handle is released once for each time it was returned.
\<close>

record ('c, 'h, 'v) Cache =
  cache_Insert :: "slice \<Rightarrow> 'v \<Rightarrow> nat \<Rightarrow> 'c \<Rightarrow> ('h \<times> 'c) option"
  cache_Lookup :: "slice \<Rightarrow> 'c \<Rightarrow> ('h option \<times> 'c) option"
  cache_Release :: "'h \<Rightarrow> 'c \<Rightarrow> 'c option"
  cache_Value :: "'h \<Rightarrow> 'c \<Rightarrow> 'v option"
  cache_Erase :: "slice \<Rightarrow> 'c \<Rightarrow> 'c option"
  cache_NewId :: "'c \<Rightarrow> u64 \<times> 'c"
  cache_Prune :: "'c \<Rightarrow> 'c option"
  cache_TotalCharge :: "'c \<Rightarrow> nat"

text \<open>
  \<open>cache_ok c m H\<close>: the cache holds no other mappings than those of \<open>m\<close>, the last insertions of
  each key, and the open handles with their values are \<open>H\<close>.
\<close>

locale cache =
  fixes ops :: "('c, 'h, 'v) Cache"
    and cache_ok :: "'c \<Rightarrow> (slice \<rightharpoonup> 'v) \<Rightarrow> ('h \<times> 'v) multiset \<Rightarrow> bool"
  assumes insert_ok: "cache_ok c m H \<Longrightarrow>
      \<exists>h c'. cache_Insert ops key v charge c = Some (h, c') \<and> cache_ok c' (m(key \<mapsto> v)) (add_mset (h, v) H)"
    and lookup_ok: "cache_ok c m H \<Longrightarrow>
      \<exists>r c'. cache_Lookup ops key c = Some (r, c') \<and>
        (case r of None \<Rightarrow> cache_ok c' m H | Some h \<Rightarrow> \<exists>v. m key = Some v \<and> cache_ok c' m (add_mset (h, v) H))"
    and release_ok: "cache_ok c m (add_mset (h, v) H) \<Longrightarrow> \<exists>c'. cache_Release ops h c = Some c' \<and> cache_ok c' m H"
    and value_ok: "cache_ok c m (add_mset (h, v) H) \<Longrightarrow> cache_Value ops h c = Some v"
    and erase_ok: "cache_ok c m H \<Longrightarrow> \<exists>c'. cache_Erase ops key c = Some c' \<and> cache_ok c' (m(key := None)) H"
    and new_id_ok: "cache_ok c m H \<Longrightarrow> cache_ok (snd (cache_NewId ops c)) m H"
    and prune_ok: "cache_ok c m H \<Longrightarrow> \<exists>c'. cache_Prune ops c = Some c' \<and> cache_ok c' m H"

end
