(* ===== verification/LdbCache.thy ===== *)
theory LdbCache
  imports LdbCacheSpec LdbBloom LdbComparator
begin

text \<open>
  The cache of least recently used entries (\<open>util/cache.cc\<close>). An entry is a number, its address in the memory
  of its shard, where freed addresses are not used again. The links of the two circular lists are the
  functions \<open>next\<close> and \<open>prev\<close> from pointers to pointers; \<open>None\<close> is memory that is not initialised or was
  freed. The chain of a bucket of the hash table is the list of its entries in the order of \<open>next_hash\<close>.
  Locks are not modelled; each operation holds the lock of its shard for all of its work.
  The result is \<open>None\<close> when an assertion fails, or memory is used that is not initialised or was freed.
  The counters of entries and references are numbers without a bound: 32 bits of them do not fit in memory.
\<close>

section \<open>Entries\<close>

datatype ptr = LruHead | InUseHead | Entry nat

record 'v LRUHandle =
  lh_value :: 'v
  lh_charge :: u64
  lh_key_data :: slice
  lh_in_cache :: bool
  lh_refs :: nat
  lh_hash :: u32

record HandleTable =
  ht_length :: nat
  ht_elems :: nat
  ht_list :: "nat list list"

text \<open>\<open>lc_deleted\<close> is the list of the calls of the deleters, and \<open>lc_brk\<close> the first address that was never used.\<close>

record 'v LRUCache =
  lc_capacity :: u64
  lc_usage :: u64
  lc_nodes :: "nat \<Rightarrow> 'v LRUHandle option"
  lc_next :: "ptr \<Rightarrow> ptr option"
  lc_prev :: "ptr \<Rightarrow> ptr option"
  lc_table :: HandleTable
  lc_brk :: nat
  lc_deleted :: "(slice \<times> 'v) list"

definition update_node :: "'v LRUCache \<Rightarrow> nat \<Rightarrow> ('v LRUHandle \<Rightarrow> 'v LRUHandle) \<Rightarrow> 'v LRUCache" where
  "update_node c e f = c\<lparr>lc_nodes := (lc_nodes c)(e := map_option f (lc_nodes c e))\<rparr>"

text \<open>An entry whose \<open>next\<close> is itself would be a temporary one that has a pointer to its key; there are none.\<close>

definition lh_key :: "'v LRUCache \<Rightarrow> nat \<Rightarrow> slice option" where
  "lh_key c e = do {
     h \<leftarrow> lc_nodes c e;
     n \<leftarrow> lc_next c (Entry e);
     if n = Entry e then None else Some (lh_key_data h)
   }"

section \<open>The hash table\<close>

definition bucket :: "nat \<Rightarrow> u32 \<Rightarrow> nat" where
  "bucket len hash = unat (hash AND word_of_nat (len - 1))"

text \<open>The number of entries before the one that matches, in its chain.\<close>

fun FindPointer :: "'v LRUCache \<Rightarrow> slice \<Rightarrow> u32 \<Rightarrow> nat list \<Rightarrow> nat option" where
  "FindPointer c key hash [] = Some 0"
| "FindPointer c key hash (e # chain) = do {
     h \<leftarrow> lc_nodes c e;
     if lh_hash h \<noteq> hash then map_option Suc (FindPointer c key hash chain)
     else do {
       k \<leftarrow> lh_key c e;
       if \<not> slice_eq key k then map_option Suc (FindPointer c key hash chain) else Some 0
     }
   }"

definition chain_of :: "'v LRUCache \<Rightarrow> u32 \<Rightarrow> nat list" where
  "chain_of c hash = ht_list (lc_table c) ! bucket (ht_length (lc_table c)) hash"

definition set_chain :: "'v LRUCache \<Rightarrow> u32 \<Rightarrow> nat list \<Rightarrow> 'v LRUCache" where
  "set_chain c hash chain =
     (let t = lc_table c
      in c\<lparr>lc_table := t\<lparr>ht_list := (ht_list t)[bucket (ht_length t) hash := chain]\<rparr>\<rparr>)"

definition ht_Lookup :: "'v LRUCache \<Rightarrow> slice \<Rightarrow> u32 \<Rightarrow> nat option option" where
  "ht_Lookup c key hash = do {
     i \<leftarrow> FindPointer c key hash (chain_of c hash);
     Some (if i < length (chain_of c hash) then Some (chain_of c hash ! i) else None)
   }"

function new_length :: "nat \<Rightarrow> nat \<Rightarrow> nat" where
  "new_length elems n = (if n < elems \<and> 0 < n then new_length elems (n * 2) else n)"
  by auto
termination by (relation "measure (\<lambda>(elems, n). elems - n)") auto

declare new_length.simps [simp del]

text \<open>The entries of all chains in order, each put in front of its new chain.\<close>

fun rehash :: "'v LRUCache \<Rightarrow> nat \<Rightarrow> nat list \<Rightarrow> nat list list \<Rightarrow> nat list list option" where
  "rehash c len [] new_list = Some new_list"
| "rehash c len (e # es) new_list = do {
     h \<leftarrow> lc_nodes c e;
     let b = bucket len (lh_hash h);
     rehash c len es (new_list[b := e # new_list ! b])
   }"

definition Resize :: "'v LRUCache \<Rightarrow> 'v LRUCache option" where
  "Resize c =
     (let t = lc_table c;
          len = new_length (ht_elems t) 4;
          es = concat (ht_list t)
      in do {
        new_list \<leftarrow> rehash c len es (replicate len []);
        if ht_elems t \<noteq> length es then None
        else Some (c\<lparr>lc_table := t\<lparr>ht_list := new_list, ht_length := len\<rparr>\<rparr>)
      })"

text \<open>The result is the entry that was replaced.\<close>

definition ht_Insert :: "'v LRUCache \<Rightarrow> nat \<Rightarrow> (nat option \<times> 'v LRUCache) option" where
  "ht_Insert c e = do {
     h \<leftarrow> lc_nodes c e;
     key \<leftarrow> lh_key c e;
     let chain = chain_of c (lh_hash h);
     i \<leftarrow> FindPointer c key (lh_hash h) chain;
     if i < length chain then Some (Some (chain ! i), set_chain c (lh_hash h) (chain[i := e]))
     else do {
       let c = set_chain c (lh_hash h) (chain @ [e]);
       let c = c\<lparr>lc_table := (lc_table c)\<lparr>ht_elems := ht_elems (lc_table c) + 1\<rparr>\<rparr>;
       c \<leftarrow> (if ht_length (lc_table c) < ht_elems (lc_table c) then Resize c else Some c);
       Some (None, c)
     }
   }"

definition ht_Remove :: "'v LRUCache \<Rightarrow> slice \<Rightarrow> u32 \<Rightarrow> (nat option \<times> 'v LRUCache) option" where
  "ht_Remove c key hash = do {
     let chain = chain_of c hash;
     i \<leftarrow> FindPointer c key hash chain;
     if i < length chain then
       do {
         let c = set_chain c hash (take i chain @ drop (Suc i) chain);
         Some (Some (chain ! i), c\<lparr>lc_table := (lc_table c)\<lparr>ht_elems := ht_elems (lc_table c) - 1\<rparr>\<rparr>)
       }
     else Some (None, c)
   }"

section \<open>The lists and the references\<close>

text \<open>The constructor of \<open>HandleTable\<close> makes the first four buckets by \<open>Resize\<close>.\<close>

definition make_LRUCache :: "u64 \<Rightarrow> 'v LRUCache" where
  "make_LRUCache capacity =
     \<lparr>lc_capacity = capacity, lc_usage = 0, lc_nodes = Map.empty,
      lc_next = [LruHead \<mapsto> LruHead, InUseHead \<mapsto> InUseHead], lc_prev = [LruHead \<mapsto> LruHead, InUseHead \<mapsto> InUseHead],
      lc_table = \<lparr>ht_length = 4, ht_elems = 0, ht_list = replicate 4 []\<rparr>, lc_brk = 0, lc_deleted = []\<rparr>"

definition LRU_Remove :: "'v LRUCache \<Rightarrow> nat \<Rightarrow> 'v LRUCache option" where
  "LRU_Remove c e = do {
     n \<leftarrow> lc_next c (Entry e);
     p \<leftarrow> lc_prev c (Entry e);
     let c = c\<lparr>lc_prev := (lc_prev c)(n \<mapsto> p)\<rparr>;
     p \<leftarrow> lc_prev c (Entry e);
     n \<leftarrow> lc_next c (Entry e);
     Some (c\<lparr>lc_next := (lc_next c)(p \<mapsto> n)\<rparr>)
   }"

definition LRU_Append :: "'v LRUCache \<Rightarrow> ptr \<Rightarrow> nat \<Rightarrow> 'v LRUCache option" where
  "LRU_Append c list e = do {
     let c = c\<lparr>lc_next := (lc_next c)(Entry e \<mapsto> list)\<rparr>;
     p \<leftarrow> lc_prev c list;
     let c = c\<lparr>lc_prev := (lc_prev c)(Entry e \<mapsto> p)\<rparr>;
     let c = c\<lparr>lc_next := (lc_next c)(p \<mapsto> Entry e)\<rparr>;
     n \<leftarrow> lc_next c (Entry e);
     Some (c\<lparr>lc_prev := (lc_prev c)(n \<mapsto> Entry e)\<rparr>)
   }"

definition Ref :: "'v LRUCache \<Rightarrow> nat \<Rightarrow> 'v LRUCache option" where
  "Ref c e = do {
     h \<leftarrow> lc_nodes c e;
     c \<leftarrow> (if lh_refs h = 1 \<and> lh_in_cache h then do { c \<leftarrow> LRU_Remove c e; LRU_Append c InUseHead e } else Some c);
     Some (update_node c e (\<lambda>h. h\<lparr>lh_refs := lh_refs h + 1\<rparr>))
   }"

definition Unref :: "'v LRUCache \<Rightarrow> nat \<Rightarrow> 'v LRUCache option" where
  "Unref c e = do {
     h \<leftarrow> lc_nodes c e;
     if lh_refs h = 0 then None
     else do {
       let c = update_node c e (\<lambda>h. h\<lparr>lh_refs := lh_refs h - 1\<rparr>);
       if lh_refs h - 1 = 0 then
         if lh_in_cache h then None
         else do {
           key \<leftarrow> lh_key c e;
           Some (c\<lparr>lc_deleted := lc_deleted c @ [(key, lh_value h)], lc_nodes := (lc_nodes c)(e := None),
                   lc_next := (lc_next c)(Entry e := None), lc_prev := (lc_prev c)(Entry e := None)\<rparr>)
         }
       else if lh_in_cache h \<and> lh_refs h - 1 = 1 then do { c \<leftarrow> LRU_Remove c e; LRU_Append c LruHead e }
       else Some c
     }
   }"

definition FinishErase :: "'v LRUCache \<Rightarrow> nat option \<Rightarrow> (bool \<times> 'v LRUCache) option" where
  "FinishErase c e =
     (case e of None \<Rightarrow> Some (False, c)
      | Some e \<Rightarrow> do {
          h \<leftarrow> lc_nodes c e;
          if \<not> lh_in_cache h then None
          else do {
            c \<leftarrow> LRU_Remove c e;
            let c = update_node c e (\<lambda>h. h\<lparr>lh_in_cache := False\<rparr>);
            let c = c\<lparr>lc_usage := lc_usage c - lh_charge h\<rparr>;
            c \<leftarrow> Unref c e;
            Some (True, c)
          }
        })"

section \<open>A shard\<close>

definition lru_Lookup :: "'v LRUCache \<Rightarrow> slice \<Rightarrow> u32 \<Rightarrow> (nat option \<times> 'v LRUCache) option" where
  "lru_Lookup c key hash = do {
     e \<leftarrow> ht_Lookup c key hash;
     c \<leftarrow> (case e of None \<Rightarrow> Some c | Some e \<Rightarrow> Ref c e);
     Some (e, c)
   }"

definition lru_Release :: "'v LRUCache \<Rightarrow> nat \<Rightarrow> 'v LRUCache option" where
  "lru_Release c e = Unref c e"

text \<open>The step of the loops that remove the oldest unused entry; \<open>None\<close> when an assertion fails.\<close>

definition evict :: "'v LRUCache \<Rightarrow> ptr \<Rightarrow> 'v LRUCache option" where
  "evict c old =
     (case old of
        Entry e \<Rightarrow> do {
          h \<leftarrow> lc_nodes c e;
          if lh_refs h \<noteq> 1 then None
          else do {
            key \<leftarrow> lh_key c e;
            (r, c) \<leftarrow> ht_Remove c key (lh_hash h);
            (erased, c) \<leftarrow> FinishErase c r;
            if erased then Some c else None
          }
        }
      | _ \<Rightarrow> None)"

definition evict_turn :: "('v LRUCache \<Rightarrow> bool) \<Rightarrow> 'v LRUCache \<Rightarrow> ('v LRUCache, 'v LRUCache) turn option" where
  "evict_turn over c = do {
     old \<leftarrow> lc_next c LruHead;
     if over c \<and> old \<noteq> LruHead then map_option Continue (evict c old) else Some (Leave c)
   }"

definition lru_Insert :: "'v LRUCache \<Rightarrow> slice \<Rightarrow> u32 \<Rightarrow> 'v \<Rightarrow> u64 \<Rightarrow> (nat \<times> 'v LRUCache) option" where
  "lru_Insert c key hash v charge = do {
     let e = lc_brk c;
     let h = \<lparr>lh_value = v, lh_charge = charge, lh_key_data = key, lh_in_cache = False, lh_refs = 1, lh_hash = hash\<rparr>;
     let c = c\<lparr>lc_brk := e + 1, lc_nodes := (lc_nodes c)(e \<mapsto> h)\<rparr>;
     c \<leftarrow> (if 0 < lc_capacity c then do {
              let c = update_node c e (\<lambda>h. h\<lparr>lh_refs := lh_refs h + 1, lh_in_cache := True\<rparr>);
              c \<leftarrow> LRU_Append c InUseHead e;
              let c = c\<lparr>lc_usage := lc_usage c + charge\<rparr>;
              (old, c) \<leftarrow> ht_Insert c e;
              (erased, c) \<leftarrow> FinishErase c old;
              Some c
            } else Some c);
     c \<leftarrow> crun (evict_turn (\<lambda>c. lc_capacity c < lc_usage c)) c;
     Some (e, c)
   }"

definition lru_Erase :: "'v LRUCache \<Rightarrow> slice \<Rightarrow> u32 \<Rightarrow> 'v LRUCache option" where
  "lru_Erase c key hash = do {
     (e, c) \<leftarrow> ht_Remove c key hash;
     (erased, c) \<leftarrow> FinishErase c e;
     Some c
   }"

definition lru_Prune :: "'v LRUCache \<Rightarrow> 'v LRUCache option" where
  "lru_Prune c = crun (evict_turn (\<lambda>c. True)) c"

text \<open>The destructor gives up the entries of the first list one by one.\<close>

definition destroy_turn :: "'v LRUCache \<times> ptr \<Rightarrow> ('v LRUCache \<times> ptr, 'v LRUCache) turn option" where
  "destroy_turn = (\<lambda>(c, e).
     case e of
       LruHead \<Rightarrow> Some (Leave c)
     | InUseHead \<Rightarrow> None
     | Entry i \<Rightarrow> do {
         n \<leftarrow> lc_next c e;
         h \<leftarrow> lc_nodes c i;
         if \<not> lh_in_cache h \<or> lh_refs h \<noteq> 1 then None
         else do {
           c \<leftarrow> Unref (update_node c i (\<lambda>h. h\<lparr>lh_in_cache := False\<rparr>)) i;
           Some (Continue (c, n))
         }
       })"

definition destroy_LRUCache :: "'v LRUCache \<Rightarrow> 'v LRUCache option" where
  "destroy_LRUCache c =
     (if lc_next c InUseHead \<noteq> Some InUseHead then None
      else do { e \<leftarrow> lc_next c LruHead; crun destroy_turn (c, e) })"

section \<open>The shards\<close>

definition kNumShardBits :: nat where "kNumShardBits = 4"
definition kNumShards :: nat where "kNumShards = 2 ^ kNumShardBits"

record 'v ShardedLRUCache =
  sc_shard :: "'v LRUCache list"
  sc_last_id :: u64

definition HashSlice :: "slice \<Rightarrow> u32" where
  "HashSlice s = Hash s 0"

definition Shard :: "u32 \<Rightarrow> nat" where
  "Shard hash = unat (drop_bit (32 - kNumShardBits) hash)"

definition NewLRUCache :: "u64 \<Rightarrow> 'v ShardedLRUCache" where
  "NewLRUCache capacity =
     \<lparr>sc_shard = replicate kNumShards (make_LRUCache ((capacity + word_of_nat (kNumShards - 1)) div word_of_nat kNumShards)),
      sc_last_id = 0\<rparr>"

text \<open>An address of an entry is one in the memory of the shard that has made it.\<close>

definition sharded_Insert ::
    "slice \<Rightarrow> 'v \<Rightarrow> nat \<Rightarrow> 'v ShardedLRUCache \<Rightarrow> ((nat \<times> nat) \<times> 'v ShardedLRUCache) option" where
  "sharded_Insert key v charge c = do {
     let hash = HashSlice key;
     let s = Shard hash;
     (e, shard) \<leftarrow> lru_Insert (sc_shard c ! s) key hash v (word_of_nat charge);
     Some ((s, e), c\<lparr>sc_shard := (sc_shard c)[s := shard]\<rparr>)
   }"

definition sharded_Lookup :: "slice \<Rightarrow> 'v ShardedLRUCache \<Rightarrow> ((nat \<times> nat) option \<times> 'v ShardedLRUCache) option" where
  "sharded_Lookup key c = do {
     let hash = HashSlice key;
     let s = Shard hash;
     (e, shard) \<leftarrow> lru_Lookup (sc_shard c ! s) key hash;
     Some (map_option (Pair s) e, c\<lparr>sc_shard := (sc_shard c)[s := shard]\<rparr>)
   }"

definition sharded_node :: "'v ShardedLRUCache \<Rightarrow> nat \<times> nat \<Rightarrow> 'v LRUHandle option" where
  "sharded_node c handle = lc_nodes (sc_shard c ! fst handle) (snd handle)"

definition sharded_Release :: "nat \<times> nat \<Rightarrow> 'v ShardedLRUCache \<Rightarrow> 'v ShardedLRUCache option" where
  "sharded_Release handle c = do {
     h \<leftarrow> sharded_node c handle;
     let s = Shard (lh_hash h);
     shard \<leftarrow> (if s = fst handle then lru_Release (sc_shard c ! s) (snd handle) else None);
     Some (c\<lparr>sc_shard := (sc_shard c)[s := shard]\<rparr>)
   }"

definition sharded_Erase :: "slice \<Rightarrow> 'v ShardedLRUCache \<Rightarrow> 'v ShardedLRUCache option" where
  "sharded_Erase key c = do {
     let hash = HashSlice key;
     let s = Shard hash;
     shard \<leftarrow> lru_Erase (sc_shard c ! s) key hash;
     Some (c\<lparr>sc_shard := (sc_shard c)[s := shard]\<rparr>)
   }"

definition sharded_Value :: "nat \<times> nat \<Rightarrow> 'v ShardedLRUCache \<Rightarrow> 'v option" where
  "sharded_Value handle c = map_option lh_value (sharded_node c handle)"

definition sharded_NewId :: "'v ShardedLRUCache \<Rightarrow> u64 \<times> 'v ShardedLRUCache" where
  "sharded_NewId c = (let n = sc_last_id c + 1 in (n, c\<lparr>sc_last_id := n\<rparr>))"

fun prune_shards :: "'v LRUCache list \<Rightarrow> 'v LRUCache list option" where
  "prune_shards [] = Some []"
| "prune_shards (c # cs) = do { c \<leftarrow> lru_Prune c; cs \<leftarrow> prune_shards cs; Some (c # cs) }"

definition sharded_Prune :: "'v ShardedLRUCache \<Rightarrow> 'v ShardedLRUCache option" where
  "sharded_Prune c = map_option (\<lambda>cs. c\<lparr>sc_shard := cs\<rparr>) (prune_shards (sc_shard c))"

definition sharded_TotalCharge :: "'v ShardedLRUCache \<Rightarrow> nat" where
  "sharded_TotalCharge c = unat (sum_list (map lc_usage (sc_shard c)))"

definition lru_cache :: "('v ShardedLRUCache, nat \<times> nat, 'v) Cache" where
  "lru_cache =
     \<lparr>cache_Insert = sharded_Insert, cache_Lookup = sharded_Lookup, cache_Release = sharded_Release,
      cache_Value = sharded_Value, cache_Erase = sharded_Erase, cache_NewId = sharded_NewId,
      cache_Prune = sharded_Prune, cache_TotalCharge = sharded_TotalCharge\<rparr>"

end
