(* ===== verification/LdbCacheInv.thy ===== *)
theory LdbCacheInv
  imports LdbCache
begin

text \<open>
  The invariant of the cache of least recently used entries: the links of the two lists, the hash table, the
  counts of references and the charges; and the steps that the operations are made of: the links, the hash table,
  giving up a reference.
\<close>

section \<open>Circular lists\<close>

fun linked :: "(ptr \<Rightarrow> ptr option) \<Rightarrow> (ptr \<Rightarrow> ptr option) \<Rightarrow> ptr list \<Rightarrow> bool" where
  "linked nx pv (x # y # zs) \<longleftrightarrow> nx x = Some y \<and> pv y = Some x \<and> linked nx pv (y # zs)"
| "linked nx pv _ \<longleftrightarrow> True"

lemma linked_append: "linked nx pv (xs @ y # zs) \<longleftrightarrow> linked nx pv (xs @ [y]) \<and> linked nx pv (y # zs)"
proof (induction xs)
  case (Cons x xs)
  then show ?case by (cases xs) auto
qed simp

lemma linked_frame:
  "linked nx pv xs \<Longrightarrow> (\<And>x. x \<in> set (butlast xs) \<Longrightarrow> nx' x = nx x) \<Longrightarrow> (\<And>x. x \<in> set (tl xs) \<Longrightarrow> pv' x = pv x) \<Longrightarrow>
    linked nx' pv' xs"
  by (induction nx pv xs rule: linked.induct) auto

definition ring :: "'v LRUCache \<Rightarrow> ptr \<Rightarrow> nat list \<Rightarrow> bool" where
  "ring c h L \<longleftrightarrow> linked (lc_next c) (lc_prev c) (h # map Entry L @ [h])"

definition is_head :: "ptr \<Rightarrow> bool" where
  "is_head p \<longleftrightarrow> p = LruHead \<or> p = InUseHead"

lemma is_head_simps [simp]: "is_head LruHead" "is_head InUseHead" "\<not> is_head (Entry i)"
  by (simp_all add: is_head_def)

lemma is_head_Entry: "is_head h \<Longrightarrow> h \<noteq> Entry i \<and> Entry i \<noteq> h"
  by auto

text \<open>The entry before a position, and the one behind it.\<close>

definition before :: "ptr \<Rightarrow> nat list \<Rightarrow> ptr" where
  "before h L = (if L = [] then h else Entry (last L))"

definition behind :: "ptr \<Rightarrow> nat list \<Rightarrow> ptr" where
  "behind h L = (case L of [] \<Rightarrow> h | e # _ \<Rightarrow> Entry e)"

lemma before_snoc [simp]: "before h (L @ [e]) = Entry e"
  by (simp add: before_def)

lemma behind_simps [simp]: "behind h [] = h" "behind h (e # L) = Entry e"
  by (simp_all add: behind_def)

lemma ring_split:
  "ring c h (L1 @ L2) \<longleftrightarrow>
    linked (lc_next c) (lc_prev c) (h # map Entry L1) \<and> lc_next c (before h L1) = Some (behind h L2) \<and>
    lc_prev c (behind h L2) = Some (before h L1) \<and> linked (lc_next c) (lc_prev c) (map Entry L2 @ [h])"
proof (cases L1 rule: rev_cases)
  case Nil
  then show ?thesis by (cases L2) (simp_all add: ring_def before_def)
next
  case (snoc L e)
  have "ring c h (L1 @ L2) \<longleftrightarrow> linked (lc_next c) (lc_prev c) (h # map Entry L1) \<and>
      linked (lc_next c) (lc_prev c) (Entry e # map Entry L2 @ [h])"
    using linked_append [of "lc_next c" "lc_prev c" "h # map Entry L" "Entry e" "map Entry L2 @ [h]"] by (simp add: ring_def snoc)
  then show ?thesis by (cases L2) (auto simp: snoc)
qed

lemma ring_frame:
  assumes "ring c h L" and "\<And>p. p = h \<or> p \<in> Entry ` set L \<Longrightarrow> lc_next c' p = lc_next c p \<and> lc_prev c' p = lc_prev c p"
  shows "ring c' h L"
  using assms(1) unfolding ring_def
  by (rule linked_frame) (use assms(2) in \<open>auto simp: butlast_append\<close>)

lemma ring_cong: "lc_next c' = lc_next c \<Longrightarrow> lc_prev c' = lc_prev c \<Longrightarrow> ring c' h L = ring c h L"
  by (simp add: ring_def)

lemma ring_Remove:
  assumes "ring c h (L1 @ e # L2)" and "is_head h" and "distinct (L1 @ e # L2)"
  defines "a \<equiv> before h L1" and "b \<equiv> behind h L2"
  shows "LRU_Remove c e = Some (c\<lparr>lc_prev := (lc_prev c)(b \<mapsto> a), lc_next := (lc_next c)(a \<mapsto> b)\<rparr>)"
    and "ring (c\<lparr>lc_prev := (lc_prev c)(b \<mapsto> a), lc_next := (lc_next c)(a \<mapsto> b)\<rparr>) h (L1 @ L2)"
    and "b \<noteq> Entry e" and "a \<noteq> Entry e" and "a = b \<Longrightarrow> is_head a"
proof -
  let ?c = "c\<lparr>lc_prev := (lc_prev c)(b \<mapsto> a), lc_next := (lc_next c)(a \<mapsto> b)\<rparr>"
  have ab: "b \<noteq> Entry e" "a \<noteq> Entry e" using assms(2,3) is_head_Entry
    by (auto simp: a_def b_def before_def behind_def split: list.splits)
  have l1: "linked (lc_next c) (lc_prev c) (h # map Entry L1)" and pe: "lc_prev c (Entry e) = Some a"
    using assms(1) ring_split [of c h L1 "e # L2"] by (simp_all add: a_def)
  have l2: "linked (lc_next c) (lc_prev c) (map Entry L2 @ [h])" and ne: "lc_next c (Entry e) = Some b"
    using assms(1) ring_split [of c h "L1 @ [e]" L2] by (simp_all add: b_def)
  show "LRU_Remove c e = Some ?c" using ab pe ne by (simp add: LRU_Remove_def)
  have "linked (lc_next ?c) (lc_prev ?c) (h # map Entry L1)"
    using l1
  proof (rule linked_frame)
    show "lc_next ?c x = lc_next c x" if "x \<in> set (butlast (h # map Entry L1))" for x
      using that assms(2,3) is_head_Entry
      by (cases L1 rule: rev_cases) (auto simp: a_def before_def butlast_append split: if_splits)
    show "lc_prev ?c x = lc_prev c x" if "x \<in> set (tl (h # map Entry L1))" for x
      using that assms(2,3) is_head_Entry by (cases L2) (auto simp: b_def)
  qed
  moreover have "linked (lc_next ?c) (lc_prev ?c) (map Entry L2 @ [h])"
    using l2
  proof (rule linked_frame)
    show "lc_next ?c x = lc_next c x" if "x \<in> set (butlast (map Entry L2 @ [h]))" for x
      using that assms(2,3) is_head_Entry by (cases L1 rule: rev_cases) (auto simp: a_def before_def)
    show "lc_prev ?c x = lc_prev c x" if "x \<in> set (tl (map Entry L2 @ [h]))" for x
      using that assms(2,3) is_head_Entry by (cases L2) (auto simp: b_def)
  qed
  ultimately show "ring ?c h (L1 @ L2)" using ring_split [of ?c h L1 L2] by (simp add: a_def b_def)
  show "b \<noteq> Entry e" "a \<noteq> Entry e" using ab by simp_all
  show "is_head a" if "a = b"
  proof (cases L1 rule: rev_cases)
    case Nil
    then show ?thesis using assms(2) by (simp add: a_def before_def)
  next
    case (snoc L x)
    then show ?thesis using that assms(2,3) by (cases L2) (auto simp: a_def b_def)
  qed
qed

lemma ring_Append:
  assumes "ring c h L" and "is_head h" and "e \<notin> set L" and "distinct L"
  defines "c1 \<equiv> c\<lparr>lc_next := ((lc_next c)(Entry e \<mapsto> h))(before h L \<mapsto> Entry e),
     lc_prev := ((lc_prev c)(Entry e \<mapsto> before h L))(h \<mapsto> Entry e)\<rparr>"
  shows "LRU_Append c h e = Some c1" and "ring c1 h (L @ [e])"
proof -
  have l: "linked (lc_next c) (lc_prev c) (h # map Entry L)" and p: "lc_prev c h = Some (before h L)"
    using assms(1) ring_split [of c h L "[]"] by simp_all
  have he: "h \<noteq> Entry e" using assms(2) is_head_Entry by blast
  have be: "before h L \<noteq> Entry e" using he assms(3) by (cases L rule: rev_cases) (auto simp: before_def)
  show "LRU_Append c h e = Some c1" using p he be by (simp add: LRU_Append_def c1_def)
  have "linked (lc_next c1) (lc_prev c1) (h # map Entry L)"
    using l
  proof (rule linked_frame)
    show "lc_next c1 x = lc_next c x" if "x \<in> set (butlast (h # map Entry L))" for x
      using that assms(2-4) is_head_Entry
      by (cases L rule: rev_cases) (auto simp: c1_def before_def butlast_append split: if_splits)
    show "lc_prev c1 x = lc_prev c x" if "x \<in> set (tl (h # map Entry L))" for x
      using that assms(2,3) is_head_Entry by (auto simp: c1_def)
  qed
  then show "ring c1 h (L @ [e])" using ring_split [of c1 h L "[e]"] he be by (simp add: c1_def)
qed

text \<open>The two lists of a shard.\<close>

definition rings :: "'v LRUCache \<Rightarrow> nat list \<Rightarrow> nat list \<Rightarrow> bool" where
  "rings c L U \<longleftrightarrow> ring c LruHead L \<and> ring c InUseHead U \<and> distinct (L @ U)"

definition proper :: "'v LRUCache \<Rightarrow> nat \<Rightarrow> bool" where
  "proper c i \<longleftrightarrow> (\<exists>n. lc_next c (Entry i) = Some n \<and> n \<noteq> Entry i)"

definition relinked :: "'v LRUCache \<Rightarrow> 'v LRUCache \<Rightarrow> bool" where
  "relinked c c' \<longleftrightarrow> (\<exists>nx pv. c' = c\<lparr>lc_prev := pv, lc_next := nx\<rparr>) \<and> (\<forall>i. proper c i \<longrightarrow> proper c' i)"

lemma relinked_same:
  "relinked c c' \<Longrightarrow> lc_capacity c' = lc_capacity c \<and> lc_usage c' = lc_usage c \<and> lc_nodes c' = lc_nodes c \<and>
    lc_table c' = lc_table c \<and> lc_brk c' = lc_brk c \<and> lc_deleted c' = lc_deleted c"
  by (auto simp: relinked_def)

lemma two_rings_Remove:
  assumes r: "ring c h L" "ring c h' L'" and h: "is_head h" "is_head h'" "h \<noteq> h'" and d: "distinct (L @ L')" and e: "e \<in> set L"
  shows "\<exists>c'. LRU_Remove c e = Some c' \<and> relinked c c' \<and> ring c' h (remove1 e L) \<and> ring c' h' L'"
proof -
  obtain L1 L2 where L: "L = L1 @ e # L2" "e \<notin> set L1" using split_list_first [OF e] by blast
  let ?a = "before h L1" and ?b = "behind h L2"
  let ?c = "c\<lparr>lc_prev := (lc_prev c)(?b \<mapsto> ?a), lc_next := (lc_next c)(?a \<mapsto> ?b)\<rparr>"
  have dl: "distinct (L1 @ e # L2)" using d L by auto
  note rm = ring_Remove [OF r(1) [unfolded L] h(1) dl]
  have ab: "?a \<in> insert h (Entry ` set L1)" "?b \<in> insert h (Entry ` set L2)"
    by (auto simp: before_def behind_def split: list.splits)
  have "ring ?c h' L'"
  proof (rule ring_frame [OF r(2)])
    fix p assume "p = h' \<or> p \<in> Entry ` set L'"
    then have "p \<noteq> ?a \<and> p \<noteq> ?b" using ab h is_head_Entry d L by auto
    then show "lc_next ?c p = lc_next c p \<and> lc_prev ?c p = lc_prev c p" by simp
  qed
  moreover have "proper ?c i" if i: "proper c i" for i
  proof (cases "?a = Entry i")
    case True
    then have "?b \<noteq> Entry i" using rm(5) by fastforce
    then show ?thesis using True by (simp add: proper_def)
  next
    case False
    then show ?thesis using i by (simp add: proper_def)
  qed
  then have "relinked c ?c" by (auto simp: relinked_def)
  moreover have "remove1 e L = L1 @ L2" using L by (simp add: remove1_append)
  ultimately show ?thesis using rm(1,2) by (intro exI [of _ ?c]) simp
qed

lemma two_rings_Append:
  assumes r: "ring c h L" "ring c h' L'" and h: "is_head h" "is_head h'" "h \<noteq> h'" and d: "distinct (L @ L')"
    and e: "e \<notin> set L" "e \<notin> set L'"
  shows "\<exists>c'. LRU_Append c h e = Some c' \<and> relinked c c' \<and> proper c' e \<and> ring c' h (L @ [e]) \<and> ring c' h' L'"
proof -
  let ?c = "c\<lparr>lc_next := ((lc_next c)(Entry e \<mapsto> h))(before h L \<mapsto> Entry e),
     lc_prev := ((lc_prev c)(Entry e \<mapsto> before h L))(h \<mapsto> Entry e)\<rparr>"
  have dl: "distinct L" using d by simp
  note ap = ring_Append [OF r(1) h(1) e(1) dl]
  have b: "before h L \<in> insert h (Entry ` set L)" by (auto simp: before_def)
  have he: "h \<noteq> Entry e" "before h L \<noteq> Entry e" using h(1) is_head_Entry e(1) b by auto
  have "ring ?c h' L'"
  proof (rule ring_frame [OF r(2)])
    fix p assume p: "p = h' \<or> p \<in> Entry ` set L'"
    then have "p \<noteq> Entry e \<and> p \<noteq> h \<and> p \<noteq> before h L" using b h is_head_Entry e(2) d by auto
    then show "lc_next ?c p = lc_next c p \<and> lc_prev ?c p = lc_prev c p" by simp
  qed
  moreover have "proper ?c i" if i: "proper c i" for i
    using i he is_head_Entry [OF h(1)] by (auto simp: proper_def)
  then have "relinked c ?c" unfolding relinked_def by (intro conjI exI [of _ "lc_next ?c"] exI [of _ "lc_prev ?c"]) simp_all
  moreover have "proper ?c e" using he by (simp add: proper_def)
  ultimately show ?thesis using ap by (intro exI [of _ ?c]) simp
qed

lemma rings_Remove:
  assumes r: "rings c L U" and e: "e \<in> set (L @ U)"
  shows "\<exists>c'. LRU_Remove c e = Some c' \<and> relinked c c' \<and> rings c' (remove1 e L) (remove1 e U)"
proof -
  have rl: "ring c LruHead L" "ring c InUseHead U" and d: "distinct (L @ U)" "distinct (U @ L)" using r by (auto simp: rings_def)
  have sub: "distinct (remove1 e L @ remove1 e U)" using d set_remove1_subset [of e L] set_remove1_subset [of e U] by auto
  show ?thesis
  proof (cases "e \<in> set L")
    case True
    then have "remove1 e U = U" using d by (intro remove1_idem) auto
    with two_rings_Remove [OF rl _ _ _ d(1) True] sub show ?thesis by (auto simp: rings_def)
  next
    case False
    then have "e \<in> set U" "remove1 e L = L" using e by (simp_all add: remove1_idem)
    with two_rings_Remove [OF rl(2,1) _ _ _ d(2)] sub show ?thesis by (auto simp: rings_def)
  qed
qed

lemma rings_Append:
  assumes "rings c L U" and "e \<notin> set (L @ U)"
  shows "\<exists>c'. LRU_Append c LruHead e = Some c' \<and> relinked c c' \<and> proper c' e \<and> rings c' (L @ [e]) U"
    and "\<exists>c'. LRU_Append c InUseHead e = Some c' \<and> relinked c c' \<and> proper c' e \<and> rings c' L (U @ [e])"
  using two_rings_Append [of c LruHead L InUseHead U e] two_rings_Append [of c InUseHead U LruHead L e] assms
  by (auto simp: rings_def)

section \<open>The hash table\<close>

text \<open>An entry in memory, with links, under the hash of its key.\<close>

definition knows :: "'v LRUCache \<Rightarrow> nat \<Rightarrow> bool" where
  "knows c e \<longleftrightarrow> (\<exists>h. lc_nodes c e = Some h \<and> lh_hash h = HashSlice (lh_key_data h)) \<and> proper c e"

definition key_of :: "'v LRUCache \<Rightarrow> nat \<Rightarrow> slice" where
  "key_of c e = lh_key_data (the (lc_nodes c e))"

definition hash_of :: "'v LRUCache \<Rightarrow> nat \<Rightarrow> u32" where
  "hash_of c e = lh_hash (the (lc_nodes c e))"

lemma knows_node: "knows c e \<Longrightarrow> \<exists>h. lc_nodes c e = Some h \<and> lh_hash h = hash_of c e \<and> lh_key_data h = key_of c e \<and> hash_of c e = HashSlice (key_of c e)"
  by (auto simp: knows_def key_of_def hash_of_def)

lemma lh_key_known: "knows c e \<Longrightarrow> lh_key c e = Some (key_of c e)"
  by (auto simp: knows_def proper_def lh_key_def key_of_def)

lemma bucket_less: "0 < len \<Longrightarrow> bucket len hash < len"
proof -
  assume "0 < len"
  have "unat (hash AND word_of_nat (len - 1)) \<le> unat (word_of_nat (len - 1) :: u32)"
    by (simp add: word_le_nat_alt [symmetric] word_and_le1)
  also have "\<dots> \<le> len - 1" by (simp add: unat_of_nat)
  finally show ?thesis using \<open>0 < len\<close> by (simp add: bucket_def)
qed

definition in_buckets :: "'v LRUCache \<Rightarrow> nat \<Rightarrow> nat list list \<Rightarrow> bool" where
  "in_buckets c len xss \<longleftrightarrow> length xss = len \<and> (\<forall>b < len. \<forall>e \<in> set (xss ! b). b = bucket len (hash_of c e))"

definition table_ok :: "'v LRUCache \<Rightarrow> nat set \<Rightarrow> bool" where
  "table_ok c T \<longleftrightarrow>
     finite T \<and> 0 < ht_length (lc_table c) \<and> ht_elems (lc_table c) = card T \<and>
     mset (concat (ht_list (lc_table c))) = mset_set T \<and> in_buckets c (ht_length (lc_table c)) (ht_list (lc_table c)) \<and>
     (\<forall>e \<in> T. knows c e) \<and> inj_on (key_of c) T"

lemma concat_update:
  "b < length xss \<Longrightarrow> mset (concat (xss[b := ys])) + mset (xss ! b) = mset (concat xss) + mset ys"
proof (induction xss arbitrary: b)
  case (Cons xs xss)
  then show ?case by (cases b) (auto simp: ac_simps)
qed simp

lemma FindPointer_known:
  "(\<And>e. e \<in> set chain \<Longrightarrow> knows c e) \<Longrightarrow>
    FindPointer c key (HashSlice key) chain = Some (length (takeWhile (\<lambda>e. key_of c e \<noteq> key) chain))"
proof (induction chain)
  case (Cons e chain)
  from knows_node [of c e] Cons.prems obtain h where
    h: "lc_nodes c e = Some h" "lh_hash h = hash_of c e" "hash_of c e = HashSlice (key_of c e)" by auto
  have "lh_key c e = Some (key_of c e)" using Cons.prems by (simp add: lh_key_known)
  then show ?case using h Cons by (auto simp: slice_eq_iff)
qed simp

lemma table_members:
  assumes "table_ok c T"
  shows "set (concat (ht_list (lc_table c))) = T" and "distinct (concat (ht_list (lc_table c)))"
proof -
  have "mset (concat (ht_list (lc_table c))) = mset_set T" and "finite T" using assms by (auto simp: table_ok_def)
  moreover from this(2) obtain es where "set es = T" "distinct es" using finite_distinct_list by blast
  ultimately have m: "mset (concat (ht_list (lc_table c))) = mset es" "set es = T" "distinct es" using mset_set_set by auto
  show "set (concat (ht_list (lc_table c))) = T" using mset_eq_setD [OF m(1)] m(2) by simp
  show "distinct (concat (ht_list (lc_table c)))" using mset_eq_imp_distinct_iff [OF m(1)] m(3) by simp
qed

text \<open>The chain of a key has the entry with the key, if the table has one.\<close>

lemma chain_members:
  assumes t: "table_ok c T" and e: "e \<in> T"
  shows "e \<in> set (chain_of c (hash_of c e))"
proof -
  let ?t = "lc_table c"
  from e table_members(1) [OF t] obtain xs where "xs \<in> set (ht_list ?t)" "e \<in> set xs" by auto
  then obtain b where b: "b < length (ht_list ?t)" "e \<in> set (ht_list ?t ! b)" by (auto simp: in_set_conv_nth)
  then have "b = bucket (ht_length ?t) (hash_of c e)" using t by (auto simp: table_ok_def in_buckets_def)
  then show ?thesis using b(2) by (simp add: chain_of_def)
qed

lemma chain_subset:
  assumes t: "table_ok c T"
  shows "set (chain_of c hash) \<subseteq> T"
proof -
  have "bucket (ht_length (lc_table c)) hash < length (ht_list (lc_table c))"
    using t bucket_less by (auto simp: table_ok_def in_buckets_def)
  then have "chain_of c hash \<in> set (ht_list (lc_table c))" by (simp add: chain_of_def)
  then show ?thesis using table_members(1) [OF t] by auto
qed

lemma FindPointer_chain:
  fixes key :: slice
  assumes t: "table_ok c T"
  defines "chain \<equiv> chain_of c (HashSlice key)"
  shows "\<exists>i. FindPointer c key (HashSlice key) chain = Some i \<and>
    (if i < length chain then chain ! i \<in> T \<and> key_of c (chain ! i) = key else i = length chain \<and> (\<forall>e \<in> T. key_of c e \<noteq> key))"
proof -
  have k: "knows c e" if "e \<in> set chain" for e using that chain_subset [OF t] t unfolding chain_def table_ok_def by blast
  let ?i = "length (takeWhile (\<lambda>e. key_of c e \<noteq> key) chain)"
  have f: "FindPointer c key (HashSlice key) chain = Some ?i" by (rule FindPointer_known [OF k])
  show ?thesis
  proof (cases "?i < length chain")
    case True
    then have "key_of c (chain ! ?i) = key" using nth_length_takeWhile [of "\<lambda>e. key_of c e \<noteq> key" chain] by simp
    moreover have "chain ! ?i \<in> T" using chain_subset [OF t] True unfolding chain_def by (meson nth_mem subsetD)
    ultimately show ?thesis using f True by simp
  next
    case False
    then have len: "?i = length chain" using length_takeWhile_le [of "\<lambda>e. key_of c e \<noteq> key" chain] by linarith
    have "key_of c e \<noteq> key" if e: "e \<in> T" for e
    proof
      assume ke: "key_of c e = key"
      have "hash_of c e = HashSlice key" using knows_node [of c e] t e ke by (auto simp: table_ok_def)
      then have "e \<in> set chain" using chain_members [OF t e] by (simp add: chain_def)
      moreover have "takeWhile (\<lambda>e. key_of c e \<noteq> key) chain = chain" using len by (metis takeWhile_eq_take take_all order_refl)
      ultimately show False using ke by (metis set_takeWhileD)
    qed
    then show ?thesis using f len by simp
  qed
qed

lemma ht_Lookup_ok:
  "table_ok c T \<Longrightarrow> \<exists>r. ht_Lookup c key (HashSlice key) = Some r \<and>
    (case r of None \<Rightarrow> \<forall>e \<in> T. key_of c e \<noteq> key | Some e \<Rightarrow> e \<in> T \<and> key_of c e = key)"
  using FindPointer_chain [of c T key] by (fastforce simp: ht_Lookup_def split: if_splits)

text \<open>Changing one chain.\<close>

lemma table_independent [simp]:
  "knows (c\<lparr>lc_table := t\<rparr>) = knows c" "key_of (c\<lparr>lc_table := t\<rparr>) = key_of c" "hash_of (c\<lparr>lc_table := t\<rparr>) = hash_of c"
  "in_buckets (c\<lparr>lc_table := t\<rparr>) = in_buckets c"
  by (auto simp: knows_def proper_def key_of_def hash_of_def in_buckets_def fun_eq_iff)

lemma table_update:
  assumes t: "table_ok c T" and ys: "mset ys + mset_set T = mset (chain_of c hash) + mset_set T'" and "finite T'"
    and e: "\<And>e. e \<in> set ys \<Longrightarrow> e \<in> set (chain_of c hash) \<or> hash_of c e = hash"
    and k: "\<And>e. e \<in> T' \<Longrightarrow> knows c e" and i: "inj_on (key_of c) T'"
    and tb: "tb = (lc_table (set_chain c hash ys))\<lparr>ht_elems := card T'\<rparr>"
  shows "table_ok (c\<lparr>lc_table := tb\<rparr>) T'"
proof -
  let ?t = "lc_table c" and ?b = "bucket (ht_length (lc_table c)) hash"
  have len: "length (ht_list ?t) = ht_length ?t" "0 < ht_length ?t" and m: "mset (concat (ht_list ?t)) = mset_set T"
    and old: "\<And>b e. b < ht_length ?t \<Longrightarrow> e \<in> set (ht_list ?t ! b) \<Longrightarrow> b = bucket (ht_length ?t) (hash_of c e)"
    using t by (auto simp: table_ok_def in_buckets_def)
  have b: "?b < length (ht_list ?t)" using bucket_less len by simp
  have "mset (concat ((ht_list ?t)[?b := ys])) + mset (chain_of c hash) = mset_set T + mset ys"
    using concat_update [OF b, of ys] m by (simp add: chain_of_def)
  then have "mset (concat ((ht_list ?t)[?b := ys])) + mset (chain_of c hash) = mset_set T' + mset (chain_of c hash)"
    using ys by (simp add: ac_simps)
  then have "mset (concat ((ht_list ?t)[?b := ys])) = mset_set T'" by simp
  moreover have "in_buckets c (ht_length ?t) ((ht_list ?t)[?b := ys])"
    unfolding in_buckets_def
  proof (intro conjI allI impI ballI)
    fix x e assume x: "x < ht_length ?t" and e': "e \<in> set ((ht_list ?t)[?b := ys] ! x)"
    show "x = bucket (ht_length ?t) (hash_of c e)"
    proof (cases "x = ?b")
      case True
      then have "e \<in> set ys" using e' b by simp
      from e [OF this] show ?thesis using True old [of ?b e] b len by (auto simp: chain_of_def)
    qed (use old [OF x] e' in simp)
  qed (simp add: len)
  ultimately show ?thesis using assms(3) k i len(2) by (simp add: table_ok_def tb set_chain_def Let_def)
qed

lemma ht_Remove_ok:
  assumes t: "table_ok c T"
  shows "\<exists>r c'. ht_Remove c key (HashSlice key) = Some (r, c') \<and>
    (case r of None \<Rightarrow> (\<forall>e \<in> T. key_of c e \<noteq> key) \<and> c' = c
     | Some e \<Rightarrow> e \<in> T \<and> key_of c e = key \<and> (\<exists>tb. c' = c\<lparr>lc_table := tb\<rparr>) \<and> table_ok c' (T - {e}))"
proof -
  let ?chain = "chain_of c (HashSlice key)"
  from FindPointer_chain [OF t, of key] obtain i where f: "FindPointer c key (HashSlice key) ?chain = Some i" and
    i: "if i < length ?chain then ?chain ! i \<in> T \<and> key_of c (?chain ! i) = key else i = length ?chain \<and> (\<forall>e \<in> T. key_of c e \<noteq> key)"
    by blast
  show ?thesis
  proof (cases "i < length ?chain")
    case False
    then show ?thesis using f i by (intro exI [of _ None] exI [of _ c]) (simp add: ht_Remove_def)
  next
    case True
    let ?e = "?chain ! i" and ?ys = "take i ?chain @ drop (Suc i) ?chain"
    have e: "?e \<in> T" "key_of c ?e = key" using i True by simp_all
    have fin: "finite T" and el: "ht_elems (lc_table c) = card T" using t by (simp_all add: table_ok_def)
    let ?tb = "(lc_table (set_chain c (HashSlice key) ?ys))\<lparr>ht_elems := card (T - {?e})\<rparr>"
    have "mset ?chain = add_mset ?e (mset ?ys)" using True by (metis id_take_nth_drop mset.simps(2) mset_append union_mset_add_mset_right)
    moreover have "mset_set T = add_mset ?e (mset_set (T - {?e}))" using e(1) fin by (rule mset_set.remove [rotated])
    ultimately have "table_ok (c\<lparr>lc_table := ?tb\<rparr>) (T - {?e})"
      using fin e t by (intro table_update [OF t, of ?ys "HashSlice key"])
        (auto simp: table_ok_def intro: inj_on_diff dest: in_set_takeD in_set_dropD)
    moreover have "ht_Remove c key (HashSlice key) = Some (Some ?e, c\<lparr>lc_table := ?tb\<rparr>)"
      using f True e fin el by (simp add: ht_Remove_def set_chain_def Let_def)
    ultimately show ?thesis using e by (intro exI [of _ "Some ?e"] exI [of _ "c\<lparr>lc_table := ?tb\<rparr>"]) auto
  qed
qed

section \<open>Growing\<close>

lemma new_length_pos: "0 < n \<Longrightarrow> 0 < new_length elems n"
  by (induction elems n rule: new_length.induct) (subst new_length.simps, auto)

lemma rehash_ok:
  "(\<And>e. e \<in> set es \<Longrightarrow> knows c e) \<Longrightarrow> in_buckets c len xss \<Longrightarrow> 0 < len \<Longrightarrow>
    \<exists>yss. rehash c len es xss = Some yss \<and> in_buckets c len yss \<and> mset (concat yss) = mset es + mset (concat xss)"
proof (induction es arbitrary: xss)
  case (Cons e es)
  let ?b = "bucket len (hash_of c e)"
  let ?xss = "xss[?b := e # xss ! ?b]"
  obtain h where h: "lc_nodes c e = Some h" "lh_hash h = hash_of c e" using knows_node [of c e] Cons.prems(1) by auto
  have b: "?b < length xss" using bucket_less [OF Cons.prems(3)] Cons.prems(2) by (simp add: in_buckets_def)
  have "in_buckets c len ?xss"
    unfolding in_buckets_def
  proof (intro conjI allI impI ballI)
    fix x y assume "x < len" "y \<in> set (?xss ! x)"
    then show "x = bucket len (hash_of c y)" using Cons.prems(2) b by (cases "x = ?b") (auto simp: in_buckets_def)
  qed (use Cons.prems(2) in \<open>simp add: in_buckets_def\<close>)
  from Cons.IH [OF _ this Cons.prems(3)] Cons.prems(1) obtain yss where
    y: "rehash c len es ?xss = Some yss" "in_buckets c len yss" "mset (concat yss) = mset es + mset (concat ?xss)" by auto
  have "mset (concat ?xss) = add_mset e (mset (concat xss))" using concat_update [OF b, of "e # xss ! ?b"] by simp
  then show ?case using h y by simp
qed simp

lemma Resize_ok:
  assumes t: "table_ok c T"
  shows "\<exists>tb. Resize c = Some (c\<lparr>lc_table := tb\<rparr>) \<and> table_ok (c\<lparr>lc_table := tb\<rparr>) T"
proof -
  let ?t = "lc_table c" and ?len = "new_length (ht_elems (lc_table c)) 4"
  have pos: "0 < ?len" by (rule new_length_pos) simp
  have k: "knows c e" if "e \<in> set (concat (ht_list ?t))" for e
    using that table_members(1) [OF t] t unfolding table_ok_def by blast
  have "in_buckets c ?len (replicate ?len [])" by (simp add: in_buckets_def)
  from rehash_ok [OF k this pos] obtain yss where
    y: "rehash c ?len (concat (ht_list ?t)) (replicate ?len []) = Some yss" "in_buckets c ?len yss"
      "mset (concat yss) = mset (concat (ht_list ?t)) + mset (concat (replicate ?len []))" by blast
  have "mset (concat yss) = mset_set T" using y(3) t by (simp add: table_ok_def)
  moreover have "length (concat (ht_list ?t)) = card T"
    using table_members [OF t] distinct_card [of "concat (ht_list ?t)"] by simp
  ultimately show ?thesis using y(1,2) t pos
    by (intro exI [of _ "?t\<lparr>ht_list := yss, ht_length := ?len\<rparr>"]) (simp add: Resize_def Let_def table_ok_def)
qed

lemma ht_Insert_ok:
  assumes t: "table_ok c T" and e: "knows c e" "e \<notin> T"
  shows "\<exists>r tb. ht_Insert c e = Some (r, c\<lparr>lc_table := tb\<rparr>) \<and>
    (case r of None \<Rightarrow> (\<forall>x \<in> T. key_of c x \<noteq> key_of c e) \<and> table_ok (c\<lparr>lc_table := tb\<rparr>) (insert e T)
     | Some old \<Rightarrow> old \<in> T \<and> key_of c old = key_of c e \<and> table_ok (c\<lparr>lc_table := tb\<rparr>) (insert e (T - {old})))"
proof -
  let ?key = "key_of c e"
  let ?hash = "HashSlice ?key"
  let ?chain = "chain_of c ?hash"
  from knows_node [OF e(1)] obtain h where h: "lc_nodes c e = Some h" "lh_hash h = ?hash" "hash_of c e = ?hash" by auto
  from FindPointer_chain [OF t, of ?key] obtain i where f: "FindPointer c ?key ?hash ?chain = Some i" and
    i: "if i < length ?chain then ?chain ! i \<in> T \<and> key_of c (?chain ! i) = ?key else i = length ?chain \<and> (\<forall>e \<in> T. key_of c e \<noteq> ?key)"
    by blast
  have fin: "finite T" and el: "ht_elems (lc_table c) = card T" and inj: "inj_on (key_of c) T" and kn: "\<forall>e \<in> T. knows c e"
    using t by (simp_all add: table_ok_def)
  show ?thesis
  proof (cases "i < length ?chain")
    case True
    let ?old = "?chain ! i" and ?ys = "?chain[i := e]"
    have old: "?old \<in> T" "key_of c ?old = ?key" using i True by simp_all
    have card: "card (insert e (T - {?old})) = card T" using old(1) fin e(2) by (simp add: card_Diff_singleton) (metis Suc_pred card_gt_0_iff empty_iff)
    let ?tb = "(lc_table (set_chain c ?hash ?ys))\<lparr>ht_elems := card (insert e (T - {?old}))\<rparr>"
    have "mset ?chain = add_mset ?old (mset ?chain - {#?old#})" using True by (simp add: nth_mem_mset)
    then have "mset ?ys + mset_set T = mset ?chain + mset_set (insert e (T - {?old}))"
      using True fin e(2) mset_set.remove [OF fin old(1)] by (simp add: mset_update)
    moreover have "inj_on (key_of c) (insert e (T - {?old}))"
      using inj old by (auto simp: inj_on_def)
    moreover have "x \<in> set ?chain \<or> hash_of c x = ?hash" if "x \<in> set ?ys" for x
      using that h(3) set_update_subset_insert [of ?chain i e] by auto
    ultimately have "table_ok (c\<lparr>lc_table := ?tb\<rparr>) (insert e (T - {?old}))"
      using fin e(1) kn by (intro table_update [OF t, of ?ys ?hash]) auto
    moreover have "ht_Insert c e = Some (Some ?old, c\<lparr>lc_table := ?tb\<rparr>)"
      using h f True lh_key_known [OF e(1)] card el by (simp add: ht_Insert_def set_chain_def Let_def)
    ultimately show ?thesis using old by (intro exI [of _ "Some ?old"] exI [of _ ?tb]) simp
  next
    case False
    then have none: "\<forall>x \<in> T. key_of c x \<noteq> ?key" and len: "i = length ?chain" using i by simp_all
    let ?ys = "?chain @ [e]"
    let ?tb = "(lc_table (set_chain c ?hash ?ys))\<lparr>ht_elems := card (insert e T)\<rparr>"
    have ok: "table_ok (c\<lparr>lc_table := ?tb\<rparr>) (insert e T)"
    proof (rule table_update [OF t, of ?ys ?hash])
      show "inj_on (key_of c) (insert e T)" using inj none by (auto simp: inj_on_def)
    qed (use fin e kn h(3) in auto)
    have ins: "ht_Insert c e = (if ht_length ?tb < ht_elems ?tb then map_option (Pair None) (Resize (c\<lparr>lc_table := ?tb\<rparr>)) else Some (None, c\<lparr>lc_table := ?tb\<rparr>))"
      using h f False lh_key_known [OF e(1)] fin e(2) el
      by (cases "Resize (c\<lparr>lc_table := ?tb\<rparr>)") (simp_all add: ht_Insert_def set_chain_def Let_def)
    show ?thesis
    proof (cases "ht_length ?tb < ht_elems ?tb")
      case True
      with Resize_ok [OF ok] ins none show ?thesis by (intro exI [of _ None]) auto
    next
      case False
      then show ?thesis using ins ok none by (intro exI [of _ None] exI [of _ ?tb]) simp
    qed
  qed
qed

section \<open>The invariant of a shard\<close>

text \<open>
  \<open>L\<close> are the unused entries, oldest first, \<open>U\<close> those in use, \<open>H\<close> the open handles, \<open>T\<close> the entries of the hash
  table. Within an operation there may be one reference \<open>X\<close> more.
\<close>

definition charge_of :: "'v LRUCache \<Rightarrow> nat \<Rightarrow> u64" where
  "charge_of c e = lh_charge (the (lc_nodes c e))"

definition node_ok :: "'v LRUCache \<Rightarrow> nat set \<Rightarrow> nat multiset \<Rightarrow> nat option \<Rightarrow> nat \<Rightarrow> 'v LRUHandle \<Rightarrow> bool" where
  "node_ok c S H X e h \<longleftrightarrow>
     e < lc_brk c \<and> proper c e \<and> lh_hash h = HashSlice (lh_key_data h) \<and> (lh_in_cache h \<longleftrightarrow> e \<in> S) \<and>
     lh_refs h = of_bool (e \<in> S) + count H e + of_bool (X = Some e) \<and> 0 < lh_refs h"

definition lru_inv :: "'v LRUCache \<Rightarrow> nat list \<Rightarrow> nat list \<Rightarrow> nat multiset \<Rightarrow> nat set \<Rightarrow> nat option \<Rightarrow> bool" where
  "lru_inv c L U H T X \<longleftrightarrow>
     rings c L U \<and> table_ok c T \<and> T \<subseteq> set (L @ U) \<and>
     (\<forall>e h. lc_nodes c e = Some h \<longrightarrow> node_ok c (set (L @ U)) H X e h) \<and>
     (\<forall>e. e \<in> set (L @ U) \<or> e \<in># H \<or> X = Some e \<longrightarrow> lc_nodes c e \<noteq> None) \<and>
     (\<forall>e \<in> set L. e \<notin># H \<and> X \<noteq> Some e) \<and> (\<forall>e \<in> set U. e \<in># H \<or> X = Some e) \<and>
     lc_usage c = (\<Sum>e \<in> set (L @ U). charge_of c e)"

text \<open>What an operation does not change of the entries that it does not free.\<close>

definition data_of :: "'v LRUCache \<Rightarrow> nat \<Rightarrow> (slice \<times> 'v \<times> u64 \<times> u32) option" where
  "data_of c e = map_option (\<lambda>h. (lh_key_data h, lh_value h, lh_charge h, lh_hash h)) (lc_nodes c e)"

text \<open>The keys and values that the deleters had, and those of the entries that are still there.\<close>

definition owned :: "'v LRUCache \<Rightarrow> (slice \<times> 'v) multiset" where
  "owned c = mset (lc_deleted c) + image_mset (\<lambda>e. case the (data_of c e) of (k, v, _) \<Rightarrow> (k, v)) (mset_set (dom (data_of c)))"

definition keeps :: "'v LRUCache \<Rightarrow> 'v LRUCache \<Rightarrow> bool" where
  "keeps c c' \<longleftrightarrow> (\<forall>e. data_of c' e = None \<or> data_of c' e = data_of c e) \<and> lc_capacity c' = lc_capacity c \<and> lc_brk c' = lc_brk c \<and>
    owned c' = owned c"

lemma keepsI:
  "data_of c' = data_of c \<Longrightarrow> lc_deleted c' = lc_deleted c \<Longrightarrow> lc_capacity c' = lc_capacity c \<Longrightarrow> lc_brk c' = lc_brk c \<Longrightarrow> keeps c c'"
  by (simp add: keeps_def owned_def)

lemma owned_freed:
  assumes "finite (dom (data_of c))" and "data_of c e = Some (k, v, x)" and "data_of c' = (data_of c)(e := None)"
    and "lc_deleted c' = lc_deleted c @ [(k, v)]"
  shows "owned c' = owned c"
proof -
  have "dom (data_of c) = insert e (dom (data_of c'))" "e \<notin> dom (data_of c')" using assms(2,3) by auto
  moreover from this assms(1) have "finite (dom (data_of c'))" by simp
  moreover have "image_mset (\<lambda>e. case the (data_of c' e) of (k, v, _) \<Rightarrow> (k, v)) (mset_set (dom (data_of c')))
      = image_mset (\<lambda>e. case the (data_of c e) of (k, v, _) \<Rightarrow> (k, v)) (mset_set (dom (data_of c')))"
    using calculation(3) assms(3) by (intro image_mset_cong) auto
  ultimately show ?thesis using assms(2,4) by (simp add: owned_def)
qed

lemma keeps_refl [simp]: "keeps c c"
  by (simp add: keeps_def)

lemma keeps_trans: "keeps a b \<Longrightarrow> keeps b c \<Longrightarrow> keeps a c"
  unfolding keeps_def by metis

lemma keeps_same:
  assumes "data_of c' e = data_of c e"
  shows "key_of c' e = key_of c e" "charge_of c' e = charge_of c e" "hash_of c' e = hash_of c e" "lc_nodes c' e = None \<longleftrightarrow> lc_nodes c e = None"
  using assms by (cases "lc_nodes c e"; cases "lc_nodes c' e"; auto simp: data_of_def key_of_def charge_of_def hash_of_def)+

lemma data_of_None: "data_of c e = None \<longleftrightarrow> lc_nodes c e = None"
  by (simp add: data_of_def)

lemma keeps_node: "keeps c c' \<Longrightarrow> lc_nodes c' e \<noteq> None \<Longrightarrow> data_of c' e = data_of c e"
  unfolding keeps_def data_of_None [symmetric] by metis

lemma keeps_relinked: "relinked c c' \<Longrightarrow> keeps c c'"
  using relinked_same [of c c'] by (intro keepsI) (auto simp: data_of_def)

lemma data_knows:
  assumes "data_of c' e = data_of c e" and "knows c e" and "proper c' e"
  shows "knows c' e"
  using assms by (auto simp: data_of_def knows_def split: option.splits)

lemma table_ok_cong:
  assumes "table_ok c T" and "lc_table c' = lc_table c" and "\<And>e. e \<in> T \<Longrightarrow> data_of c' e = data_of c e \<and> proper c' e"
  shows "table_ok c' T"
proof -
  have k: "key_of c' e = key_of c e" "hash_of c' e = hash_of c e" "knows c' e" if "e \<in> T" for e
    using keeps_same [of c' e c] assms(3) [OF that] data_knows [of c' e c] assms(1) that by (auto simp: table_ok_def)
  have "in_buckets c' (ht_length (lc_table c)) (ht_list (lc_table c))"
    unfolding in_buckets_def
  proof (intro conjI allI impI ballI)
    have b: "in_buckets c (ht_length (lc_table c)) (ht_list (lc_table c))" using assms(1) by (simp add: table_ok_def)
    then show "length (ht_list (lc_table c)) = ht_length (lc_table c)" by (simp add: in_buckets_def)
    fix x e assume x: "x < ht_length (lc_table c)" "e \<in> set (ht_list (lc_table c) ! x)"
    then have "e \<in> T" using table_members(1) [OF assms(1)] b by (auto simp: in_buckets_def intro: bexI [OF _ nth_mem])
    then show "x = bucket (ht_length (lc_table c)) (hash_of c' e)" using b x k(2) by (auto simp: in_buckets_def)
  qed
  moreover have "inj_on (key_of c') T" using assms(1) k(1) by (auto simp: table_ok_def inj_on_def)
  ultimately show ?thesis using assms(1,2) k(3) by (simp add: table_ok_def)
qed

lemma update_node_simps [simp]:
  "lc_capacity (update_node c e f) = lc_capacity c" "lc_usage (update_node c e f) = lc_usage c"
  "lc_nodes (update_node c e f) = (lc_nodes c)(e := map_option f (lc_nodes c e))" "lc_next (update_node c e f) = lc_next c"
  "lc_prev (update_node c e f) = lc_prev c" "lc_table (update_node c e f) = lc_table c" "lc_brk (update_node c e f) = lc_brk c"
  "lc_deleted (update_node c e f) = lc_deleted c"
  by (simp_all add: update_node_def)

lemma update_node_links [simp]: "rings (update_node c e f) = rings c" "proper (update_node c e f) = proper c"
  by (auto simp: rings_def ring_def proper_def fun_eq_iff)

lemma usage_independent [simp]:
  "rings (c\<lparr>lc_usage := u\<rparr>) = rings c" "proper (c\<lparr>lc_usage := u\<rparr>) = proper c" "data_of (c\<lparr>lc_usage := u\<rparr>) = data_of c"
  "charge_of (c\<lparr>lc_usage := u\<rparr>) = charge_of c"
  by (auto simp: rings_def ring_def proper_def fun_eq_iff data_of_def charge_of_def)

lemma data_update [simp]:
  "(\<And>h. lh_key_data (f h) = lh_key_data h \<and> lh_value (f h) = lh_value h \<and> lh_charge (f h) = lh_charge h \<and> lh_hash (f h) = lh_hash h) \<Longrightarrow>
    data_of (update_node c e f) = data_of c"
  by (auto simp: data_of_def fun_eq_iff option.map_comp comp_def)

lemma charges_cong: "(\<And>e. e \<in> S \<Longrightarrow> data_of c' e = data_of c e) \<Longrightarrow> sum (charge_of c') S = sum (charge_of c) S"
  using keeps_same(2) by (intro sum.cong) auto

lemma lru_invD:
  assumes "lru_inv c L U H T X" and "lc_nodes c e = Some h"
  shows "node_ok c (set (L @ U)) H X e h"
  using assms by (simp add: lru_inv_def)

lemma lru_inv_finite:
  assumes "lru_inv c L U H T X"
  shows "finite (dom (data_of c))"
proof (rule finite_subset)
  show "dom (data_of c) \<subseteq> {..< lc_brk c}" using lru_invD [OF assms] by (auto simp: data_of_def node_ok_def)
qed simp

lemma node_ok_cong:
  "node_ok c S H X e h \<Longrightarrow> lc_brk c' = lc_brk c \<Longrightarrow> (proper c e \<Longrightarrow> proper c' e) \<Longrightarrow> node_ok c' S H X e h"
  unfolding node_ok_def by metis

lemma node_ok_proper: "node_ok c S H X e h \<Longrightarrow> proper c e"
  by (simp add: node_ok_def)

text \<open>Giving up a reference.\<close>

lemma Unref_frees:
  assumes h: "lc_nodes c e = Some h" and r: "lh_refs h = 1" and ic: "\<not> lh_in_cache h" and pr: "proper c e"
  shows "\<exists>c'. Unref c e = Some c' \<and> lc_nodes c' = (lc_nodes c)(e := None) \<and>
    (\<forall>p. p \<noteq> Entry e \<longrightarrow> lc_next c' p = lc_next c p \<and> lc_prev c' p = lc_prev c p) \<and>
    lc_table c' = lc_table c \<and> lc_usage c' = lc_usage c \<and> lc_brk c' = lc_brk c \<and> lc_capacity c' = lc_capacity c \<and>
    lc_deleted c' = lc_deleted c @ [(lh_key_data h, lh_value h)]"
proof -
  let ?c1 = "update_node c e (\<lambda>h. h\<lparr>lh_refs := lh_refs h - 1\<rparr>)"
  have "lh_key ?c1 e = Some (lh_key_data h)" using h pr by (auto simp: lh_key_def proper_def)
  then show ?thesis using h r ic by (simp add: Unref_def Let_def)
qed

lemma Unref_ok:
  assumes i: "lru_inv c L U H T (Some e)"
  shows "\<exists>c'. Unref c e = Some c' \<and> keeps c c' \<and> lc_table c' = lc_table c \<and>
    (if e \<in> set U \<and> e \<notin># H then lru_inv c' (L @ [e]) (remove1 e U) H T None else lru_inv c' L U H T None)"
proof -
  have rg: "rings c L U" and tb: "table_ok c T" and TS: "T \<subseteq> set (L @ U)"
    and Lx: "\<forall>x \<in> set L. x \<notin># H \<and> x \<noteq> e" and Ux: "\<forall>x \<in> set U. x \<in># H \<or> x = e"
    and us: "lc_usage c = (\<Sum>x \<in> set (L @ U). charge_of c x)"
    and alive: "\<And>x. x \<in> set (L @ U) \<or> x \<in># H \<or> x = e \<Longrightarrow> lc_nodes c x \<noteq> None"
    using i by (auto simp: lru_inv_def)
  from alive [of e] obtain h where h: "lc_nodes c e = Some h" by auto
  note ok = lru_invD [OF i h]
  let ?S = "set (L @ U)"
  have refs: "lh_refs h = of_bool (e \<in> ?S) + count H e + 1" and ic: "lh_in_cache h \<longleftrightarrow> e \<in> ?S" and pr: "proper c e"
    using ok by (simp_all add: node_ok_def)
  let ?f = "\<lambda>h. h\<lparr>lh_refs := lh_refs h - 1\<rparr>"
  let ?c1 = "update_node c e ?f"
  have n1: "node_ok ?c1 ?S H None x g" if g: "lc_nodes ?c1 x = Some g" "0 < lh_refs h - 1 \<or> x \<noteq> e" for x g
  proof (cases "x = e")
    case True
    then have "g = ?f h" using g(1) h by simp
    then show ?thesis using ok g(2) True by (simp add: node_ok_def)
  next
    case False
    then have "node_ok c ?S H (Some e) x g" using lru_invD [OF i] g(1) by simp
    then have "node_ok c ?S H None x g" using False unfolding node_ok_def by auto
    then show ?thesis by (rule node_ok_cong) simp_all
  qed
  have d1: "data_of ?c1 = data_of c" by simp
  consider (last) "e \<notin> ?S" "e \<notin># H" | (unused) "e \<in> ?S" "e \<notin># H" | (more) "e \<in># H" by blast
  then show ?thesis
  proof cases
    case last
    have c0: "count H e = 0" using last(2) by (simp add: not_in_iff)
    from Unref_frees [OF h _ _ pr] refs ic last c0 obtain c' where
      un: "Unref c e = Some c'" and nodes: "lc_nodes c' = (lc_nodes c)(e := None)" and
      links: "\<And>p. p \<noteq> Entry e \<Longrightarrow> lc_next c' p = lc_next c p \<and> lc_prev c' p = lc_prev c p" and
      same: "lc_table c' = lc_table c" "lc_usage c' = lc_usage c" "lc_brk c' = lc_brk c" "lc_capacity c' = lc_capacity c"
        "lc_deleted c' = lc_deleted c @ [(lh_key_data h, lh_value h)]" by auto
    have data: "data_of c' x = data_of c x" if "x \<noteq> e" for x using that nodes by (simp add: data_of_def)
    have prp: "proper c' x \<longleftrightarrow> proper c x" if "x \<noteq> e" for x using that links by (simp add: proper_def)
    have d: "data_of c e = Some (lh_key_data h, lh_value h, lh_charge h, lh_hash h)" "data_of c' = (data_of c)(e := None)"
      using h nodes by (auto simp: data_of_def fun_eq_iff)
    have "owned c' = owned c" by (rule owned_freed [OF lru_inv_finite [OF i] d same(5)])
    then have "keeps c c'" using d(2) same by (simp add: keeps_def)
    moreover have "lru_inv c' L U H T None"
      unfolding lru_inv_def
    proof (intro conjI allI impI)
      have fr: "ring c' p M" if "ring c p M" "is_head p" "e \<notin> set M" for p M
      proof (rule ring_frame [OF that(1)])
        fix q assume "q = p \<or> q \<in> Entry ` set M"
        then have "q \<noteq> Entry e" using that(2,3) is_head_Entry by blast
        then show "lc_next c' q = lc_next c q \<and> lc_prev c' q = lc_prev c q" by (rule links)
      qed
      then show "rings c' L U" using rg last(1) by (simp add: rings_def)
      show "table_ok c' T"
      proof (rule table_ok_cong [OF tb same(1)])
        fix x assume x: "x \<in> T"
        then have "x \<noteq> e" "proper c x" using TS last(1) tb by (auto simp: table_ok_def knows_def)
        then show "data_of c' x = data_of c x \<and> proper c' x" using data prp by simp
      qed
      show "node_ok c' ?S H None x g" if g: "lc_nodes c' x = Some g" for x g
      proof -
        have x: "x \<noteq> e" using g nodes by auto
        then have "node_ok ?c1 ?S H None x g" using n1 [of x g] g nodes by simp
        then show ?thesis by (rule node_ok_cong) (use prp [OF x] same in simp_all)
      qed
      have "(\<Sum>x \<in> ?S. charge_of c' x) = (\<Sum>x \<in> ?S. charge_of c x)"
      proof (rule charges_cong)
        fix x assume "x \<in> ?S"
        then have "x \<noteq> e" using last(1) by blast
        then show "data_of c' x = data_of c x" by (rule data)
      qed
      then show "lc_usage c' = (\<Sum>x \<in> ?S. charge_of c' x)" using us same(2) by simp
      show "lc_nodes c' x \<noteq> None" if "x \<in> ?S \<or> x \<in># H \<or> None = Some x" for x
        using that alive [of x] nodes last by auto
    qed (use TS Lx Ux last in auto)
    ultimately show ?thesis using un last same(1) by auto
  next
    case unused
    then have eU: "e \<in> set U" using Lx by auto
    have c0: "count H e = 0" using unused(2) by (simp add: not_in_iff)
    have rg1: "rings ?c1 L U" using rg by simp
    from rings_Remove [OF rg1 unused(1)] obtain c2 where
      c2: "LRU_Remove ?c1 e = Some c2" "relinked ?c1 c2" "rings c2 (remove1 e L) (remove1 e U)" by blast
    have eL: "remove1 e L = L" using Lx by (intro remove1_idem) auto
    have eU': "e \<notin> set (L @ remove1 e U)" using rg eU Lx by (auto simp: rings_def)
    from rings_Append(1) [OF c2(3) [unfolded eL] eU'] obtain c3 where
      c3: "LRU_Append c2 LruHead e = Some c3" "relinked c2 c3" "rings c3 (L @ [e]) (remove1 e U)" by blast
    have r2: "lh_refs h = 2" using refs c0 unused(1) unfolding of_bool_def by simp
    have "lh_in_cache h" using ic unused(1) by blast
    then have un: "Unref c e = Some c3" using h r2 c2(1) c3(1) by (simp add: Unref_def Let_def numeral_2_eq_2)
    have same: "lc_nodes c3 = lc_nodes ?c1" "lc_usage c3 = lc_usage c" "lc_table c3 = lc_table c" "lc_brk c3 = lc_brk c" "lc_capacity c3 = lc_capacity c" "lc_deleted c3 = lc_deleted c"
      using relinked_same [OF c2(2)] relinked_same [OF c3(2)] by simp_all
    have prp: "proper c x \<Longrightarrow> proper c3 x" for x using c2(2) c3(2) by (simp add: relinked_def)
    have "data_of c3 = data_of ?c1" by (intro ext) (simp only: data_of_def same(1))
    then have data: "data_of c3 = data_of c" using d1 by (rule trans)
    have S: "set ((L @ [e]) @ remove1 e U) = ?S" using eU set_remove1_eq [of U e] rg by (auto simp: rings_def)
    have "keeps c c3" using data same by (intro keepsI) simp_all
    moreover have "lru_inv c3 (L @ [e]) (remove1 e U) H T None"
      unfolding lru_inv_def S
    proof (intro conjI allI impI)
      show "rings c3 (L @ [e]) (remove1 e U)" by (rule c3(3))
      show "table_ok c3 T"
        by (rule table_ok_cong [OF tb same(3)]) (use data prp tb in \<open>auto simp: table_ok_def knows_def\<close>)
      show "node_ok c3 ?S H None x g" if "lc_nodes c3 x = Some g" for x g
      proof -
        have "node_ok ?c1 ?S H None x g" using n1 [of x g] that r2 by (simp add: same(1))
        then show ?thesis by (rule node_ok_cong) (use prp same(4) in simp_all)
      qed
      show "lc_usage c3 = (\<Sum>x \<in> ?S. charge_of c3 x)" using us same(2) charges_cong [of ?S c3 c] data by simp
      show "\<forall>x \<in> set (L @ [e]). x \<notin># H \<and> None \<noteq> Some x" using Lx unused(2) by auto
      show "\<forall>x \<in> set (remove1 e U). x \<in># H \<or> None = Some x"
        using Ux rg notin_set_remove1 [of _ U e] by (auto simp: rings_def)
    qed (use TS alive same(1) h in auto)
    ultimately show ?thesis using un eU unused(2) same(3) by auto
  next
    case more
    then have c1: "0 < count H e" by simp
    then obtain k where k: "count H e = Suc k" using gr0_conv_Suc by blast
    have "lh_refs h = (if lh_in_cache h then 1 else 0) + count H e + 1" using refs unfolding ic of_bool_def .
    then have un: "Unref c e = Some ?c1" using h k by (cases "lh_in_cache h") (simp_all add: Unref_def Let_def)
    have "keeps c ?c1" using d1 by (intro keepsI) simp_all
    moreover have "lru_inv ?c1 L U H T None"
      unfolding lru_inv_def
    proof (intro conjI allI impI)
      show "rings ?c1 L U" using rg by simp
      show "table_ok ?c1 T"
        by (rule table_ok_cong [OF tb]) (use d1 tb in \<open>auto simp: table_ok_def knows_def\<close>)
      show "node_ok ?c1 ?S H None x g" if "lc_nodes ?c1 x = Some g" for x g using n1 [OF that] refs c1 by simp
      show "lc_usage ?c1 = (\<Sum>x \<in> ?S. charge_of ?c1 x)" using us charges_cong [of ?S ?c1 c] d1 by simp
    qed (use TS alive Lx Ux more h in auto)
    ultimately show ?thesis using un more by auto
  qed
qed

end
