(* ===== verification/LdbCacheOps.thy ===== *)
theory LdbCacheOps
  imports LdbCacheInv
begin

text \<open>
  The operations of the cache of least recently used entries: each keeps the invariant, no assertion fails, and no
  memory is used after it was freed.
\<close>

section \<open>Entries that come and go\<close>

text \<open>Taking an entry out, and taking a reference.\<close>

abbreviation (input) consistent :: "'v LRUCache \<Rightarrow> nat list \<Rightarrow> nat list \<Rightarrow> nat multiset \<Rightarrow> bool" where
  "consistent c L U H \<equiv> lru_inv c L U H (set (L @ U)) None"

lemma set_removed: "rings c L U \<Longrightarrow> set (remove1 e L @ remove1 e U) = set (L @ U) - {e}"
  by (auto simp: rings_def)

lemma relinked_refl: "relinked c c"
  unfolding relinked_def by (intro conjI exI [of _ "lc_next c"] exI [of _ "lc_prev c"]) simp_all

lemma relinked_trans:
  assumes "relinked a b" and "relinked b c"
  shows "relinked a c"
proof -
  obtain nx pv nx' pv' where "b = a\<lparr>lc_prev := pv, lc_next := nx\<rparr>" "c = b\<lparr>lc_prev := pv', lc_next := nx'\<rparr>"
    using assms unfolding relinked_def by blast
  then have "c = a\<lparr>lc_prev := pv', lc_next := nx'\<rparr>" by simp
  then show ?thesis using assms unfolding relinked_def by blast
qed

lemma node_ok_member: "node_ok c S H None e h \<Longrightarrow> e \<in> S \<Longrightarrow> lh_in_cache h \<and> lh_refs h = 1 + count H e"
  by (simp add: node_ok_def)

lemma node_ok_erased:
  "node_ok c S H None e h \<Longrightarrow> e \<in> S \<Longrightarrow> node_ok c (S - {e}) H (Some e) e (h\<lparr>lh_in_cache := False\<rparr>)"
  "node_ok c S H None x h \<Longrightarrow> x \<noteq> e \<Longrightarrow> node_ok c (S - {e}) H (Some e) x h"
  by (auto simp: node_ok_def)

lemma node_ok_referenced:
  "node_ok c S H None e h \<Longrightarrow> node_ok c S (add_mset e H) None e (h\<lparr>lh_refs := lh_refs h + 1\<rparr>)"
  "node_ok c S H None x h \<Longrightarrow> x \<noteq> e \<Longrightarrow> node_ok c S (add_mset e H) None x h"
  by (auto simp: node_ok_def)

lemma FinishErase_ok:
  assumes i: "lru_inv c L U H (set (L @ U) - {e}) None" and e: "e \<in> set (L @ U)"
  shows "\<exists>c'. FinishErase c (Some e) = Some (True, c') \<and> keeps c c' \<and> consistent c' (remove1 e L) (remove1 e U) H"
proof -
  let ?S = "set (L @ U)" and ?L = "remove1 e L" and ?U = "remove1 e U"
  have rg: "rings c L U" and tb: "table_ok c (?S - {e})"
    and Lx: "\<forall>x \<in> set L. x \<notin># H" and Ux: "\<forall>x \<in> set U. x \<in># H"
    and us: "lc_usage c = (\<Sum>x \<in> ?S. charge_of c x)"
    and alive: "\<And>x. x \<in> ?S \<or> x \<in># H \<Longrightarrow> lc_nodes c x \<noteq> None"
    using i by (auto simp: lru_inv_def)
  from alive [of e] e obtain h where h: "lc_nodes c e = Some h" by auto
  note ok = lru_invD [OF i h]
  have ic: "lh_in_cache h" using node_ok_member [OF ok e] by blast
  from rings_Remove [OF rg e] obtain c1 where
    c1: "LRU_Remove c e = Some c1" "relinked c c1" "rings c1 ?L ?U" by blast
  let ?f = "\<lambda>h. h\<lparr>lh_in_cache := False\<rparr>"
  let ?c2 = "(update_node c1 e ?f)\<lparr>lc_usage := lc_usage c1 - lh_charge h\<rparr>"
  have same: "lc_nodes ?c2 = (lc_nodes c)(e \<mapsto> ?f h)" "lc_usage ?c2 = lc_usage c - lh_charge h" "lc_table ?c2 = lc_table c"
    "lc_brk ?c2 = lc_brk c" "lc_capacity ?c2 = lc_capacity c" "lc_deleted ?c2 = lc_deleted c"
    using relinked_same [OF c1(2)] h by simp_all
  have prp: "proper c x \<Longrightarrow> proper ?c2 x" for x using c1(2) by (simp add: relinked_def)
  have data: "data_of ?c2 = data_of c"
    using h by (intro ext) (simp add: data_of_def same(1) del: usage_independent)
  have S: "set (?L @ ?U) = ?S - {e}" by (rule set_removed [OF rg])
  have inv2: "lru_inv ?c2 ?L ?U H (set (?L @ ?U)) (Some e)"
    unfolding lru_inv_def S
  proof (intro conjI allI impI)
    show "rings ?c2 ?L ?U" using c1(3) by simp
    show "table_ok ?c2 (?S - {e})"
      by (rule table_ok_cong [OF tb same(3)]) (use data prp tb in \<open>auto simp: table_ok_def knows_def\<close>)
    show "node_ok ?c2 (?S - {e}) H (Some e) x g" if g: "lc_nodes ?c2 x = Some g" for x g
    proof (cases "x = e")
      case True
      then have "g = ?f h" using g same(1) by simp
      moreover have "node_ok c (?S - {e}) H (Some e) e (?f h)" by (rule node_ok_erased(1) [OF ok e])
      ultimately show ?thesis using True prp same(4) by (auto intro: node_ok_cong)
    next
      case False
      then have "node_ok c ?S H None x g" using lru_invD [OF i] g same(1) by simp
      then have "node_ok c (?S - {e}) H (Some e) x g" using False by (rule node_ok_erased(2))
      then show ?thesis by (rule node_ok_cong) (use prp same(4) in simp_all)
    qed
    show "lc_nodes ?c2 x \<noteq> None" if "x \<in> ?S - {e} \<or> x \<in># H \<or> Some e = Some x" for x
      using that alive [of x] same(1) by auto
    show "\<forall>x \<in> set ?L. x \<notin># H \<and> Some e \<noteq> Some x"
      using Lx rg notin_set_remove1 [of _ L e] by (auto simp: rings_def)
    show "\<forall>x \<in> set ?U. x \<in># H \<or> Some e = Some x" using Ux notin_set_remove1 [of _ U e] by auto
    have "(\<Sum>x \<in> ?S. charge_of c x) = charge_of c e + (\<Sum>x \<in> ?S - {e}. charge_of c x)" using e by (intro sum.remove) simp_all
    moreover have "charge_of c e = lh_charge h" using h by (simp add: charge_of_def)
    ultimately show "lc_usage ?c2 = (\<Sum>x \<in> ?S - {e}. charge_of ?c2 x)"
      unfolding same(2) us using charges_cong [of "?S - {e}" ?c2 c] data by simp
  qed simp
  from Unref_ok [OF inv2] obtain c' where
    c': "Unref ?c2 e = Some c'" "keeps ?c2 c'"
      "if e \<in> set ?U \<and> e \<notin># H then lru_inv c' (?L @ [e]) (remove1 e ?U) H (set (?L @ ?U)) None else lru_inv c' ?L ?U H (set (?L @ ?U)) None" by blast
  have "e \<notin> set ?U" using rg by (auto simp: rings_def)
  then have "consistent c' ?L ?U H" using c'(3) by simp
  moreover have "FinishErase c (Some e) = Some (True, c')" using h ic c1(1) c'(1) by (simp add: FinishErase_def Let_def)
  moreover have "keeps c ?c2" using data same(4-6) by (intro keepsI) simp_all
  then have "keeps c c'" by (rule keeps_trans [OF _ c'(2)])
  ultimately show ?thesis by blast
qed

lemma Ref_ok:
  assumes i: "consistent c L U H" and e: "e \<in> set (L @ U)"
  shows "\<exists>c' L' U'. Ref c e = Some c' \<and> keeps c c' \<and> consistent c' L' U' (add_mset e H) \<and> set (L' @ U') = set (L @ U) \<and> L' = remove1 e L"
proof -
  let ?S = "set (L @ U)"
  have rg: "rings c L U" and tb: "table_ok c ?S"
    and Lx: "\<forall>x \<in> set L. x \<notin># H" and Ux: "\<forall>x \<in> set U. x \<in># H"
    and us: "lc_usage c = (\<Sum>x \<in> ?S. charge_of c x)"
    and alive: "\<And>x. x \<in> ?S \<or> x \<in># H \<Longrightarrow> lc_nodes c x \<noteq> None"
    using i by (auto simp: lru_inv_def)
  from alive [of e] e obtain h where h: "lc_nodes c e = Some h" by auto
  note ok = lru_invD [OF i h]
  note mem = node_ok_member [OF ok e]
  have "lh_refs h = 1 \<longleftrightarrow> e \<notin># H" using mem by (simp add: not_in_iff)
  then have unused: "lh_refs h = 1 \<longleftrightarrow> e \<in> set L" using e Lx Ux by auto
  let ?L = "remove1 e L" and ?U = "if e \<in> set L then U @ [e] else U"
  have "\<exists>c1. (if lh_refs h = 1 \<and> lh_in_cache h then do { c \<leftarrow> LRU_Remove c e; LRU_Append c InUseHead e } else Some c) = Some c1 \<and>
      relinked c c1 \<and> rings c1 ?L ?U"
  proof (cases "e \<in> set L")
    case True
    from rings_Remove [OF rg e] obtain c1 where
      c1: "LRU_Remove c e = Some c1" "relinked c c1" "rings c1 (remove1 e L) (remove1 e U)" by blast
    have eU: "remove1 e U = U" using rg True by (intro remove1_idem) (auto simp: rings_def)
    have n: "e \<notin> set (remove1 e L @ U)" using rg True by (auto simp: rings_def)
    from rings_Append(2) [OF c1(3) [unfolded eU] n] obtain c2 where
      c2: "LRU_Append c1 InUseHead e = Some c2" "relinked c1 c2" "rings c2 (remove1 e L) (U @ [e])" by blast
    have "relinked c c2" by (rule relinked_trans [OF c1(2) c2(2)])
    then show ?thesis using True unused c1(1) c2(1,3) mem by auto
  next
    case False
    then show ?thesis using unused rg relinked_refl by (simp add: remove1_idem)
  qed
  then obtain c1 where c1: "(if lh_refs h = 1 \<and> lh_in_cache h then do { c \<leftarrow> LRU_Remove c e; LRU_Append c InUseHead e } else Some c) = Some c1"
    "relinked c c1" "rings c1 ?L ?U" by blast
  let ?f = "\<lambda>h. h\<lparr>lh_refs := lh_refs h + 1\<rparr>"
  let ?c2 = "update_node c1 e ?f"
  have same: "lc_nodes ?c2 = (lc_nodes c)(e \<mapsto> ?f h)" "lc_usage ?c2 = lc_usage c" "lc_table ?c2 = lc_table c"
    "lc_brk ?c2 = lc_brk c" "lc_capacity ?c2 = lc_capacity c" "lc_deleted ?c2 = lc_deleted c"
    using relinked_same [OF c1(2)] h by simp_all
  have prp: "proper c x \<Longrightarrow> proper ?c2 x" for x using c1(2) by (simp add: relinked_def)
  have data: "data_of ?c2 = data_of c"
  proof (rule ext)
    show "data_of ?c2 x = data_of c x" for x unfolding data_of_def same(1) using h by simp
  qed
  have S: "set (?L @ ?U) = ?S" using rg e by (auto simp: rings_def)
  have "lru_inv ?c2 ?L ?U (add_mset e H) (set (?L @ ?U)) None"
    unfolding lru_inv_def S
  proof (intro conjI allI impI)
    show "rings ?c2 ?L ?U" using c1(3) by simp
    show "table_ok ?c2 ?S"
      by (rule table_ok_cong [OF tb same(3)]) (use data prp tb in \<open>auto simp: table_ok_def knows_def\<close>)
    show "node_ok ?c2 ?S (add_mset e H) None x g" if g: "lc_nodes ?c2 x = Some g" for x g
    proof (cases "x = e")
      case True
      then have "g = ?f h" using g unfolding same(1) by simp
      moreover have "node_ok c ?S (add_mset e H) None e (?f h)" by (rule node_ok_referenced(1) [OF ok])
      ultimately show ?thesis using True prp same(4) by (auto intro: node_ok_cong)
    next
      case False
      then have "lc_nodes c x = Some g" using g unfolding same(1) by simp
      then have "node_ok c ?S H None x g" by (rule lru_invD [OF i])
      then have "node_ok c ?S (add_mset e H) None x g" using False by (rule node_ok_referenced(2))
      then show ?thesis by (rule node_ok_cong) (use prp same(4) in simp_all)
    qed
    show "lc_nodes ?c2 x \<noteq> None" if "x \<in> ?S \<or> x \<in># add_mset e H \<or> None = Some x" for x
      using that alive [of x] same(1) by auto
    show "\<forall>x \<in> set ?L. x \<notin># add_mset e H \<and> None \<noteq> Some x"
      using Lx rg notin_set_remove1 [of _ L e] by (auto simp: rings_def)
    show "\<forall>x \<in> set ?U. x \<in># add_mset e H \<or> None = Some x" using Ux by auto
    show "lc_usage ?c2 = (\<Sum>x \<in> ?S. charge_of ?c2 x)" using us same(2) charges_cong [of ?S ?c2 c] data by simp
  qed simp
  moreover have "Ref c e = Some ?c2" using h c1(1) by (simp add: Ref_def)
  moreover have "keeps c ?c2" using data same(4-6) by (intro keepsI) simp_all
  ultimately show ?thesis using S by blast
qed


text \<open>Through the hash table.\<close>

lemma lru_inv_table:
  assumes "lru_inv c L U H T X" and "table_ok (c\<lparr>lc_table := tb\<rparr>) T'" and "T' \<subseteq> set (L @ U)"
  shows "lru_inv (c\<lparr>lc_table := tb\<rparr>) L U H T' X"
proof -
  have "rings (c\<lparr>lc_table := tb\<rparr>) = rings c" "node_ok (c\<lparr>lc_table := tb\<rparr>) = node_ok c" "charge_of (c\<lparr>lc_table := tb\<rparr>) = charge_of c"
    by (auto simp: rings_def ring_def node_ok_def proper_def charge_of_def fun_eq_iff)
  then show ?thesis using assms unfolding lru_inv_def by simp
qed

lemma keeps_table: "keeps c (c\<lparr>lc_table := tb\<rparr>)"
  by (rule keepsI) (simp_all add: data_of_def fun_eq_iff)

lemma consistent_table: "lru_inv c L U H T X \<Longrightarrow> table_ok c T"
  unfolding lru_inv_def by blast

lemma take_out_ok:
  assumes i: "consistent c L U H"
  shows "\<exists>r c1 c'. ht_Remove c key (HashSlice key) = Some (r, c1) \<and> FinishErase c1 r = Some (r \<noteq> None, c') \<and> keeps c c' \<and>
    (case r of None \<Rightarrow> c' = c \<and> (\<forall>e \<in> set (L @ U). key_of c e \<noteq> key)
     | Some e \<Rightarrow> e \<in> set (L @ U) \<and> key_of c e = key \<and> consistent c' (remove1 e L) (remove1 e U) H)"
proof -
  from ht_Remove_ok [OF consistent_table [OF i], of key] obtain r c1 where
    rm: "ht_Remove c key (HashSlice key) = Some (r, c1)" and
    r: "case r of None \<Rightarrow> (\<forall>e \<in> set (L @ U). key_of c e \<noteq> key) \<and> c1 = c
     | Some e \<Rightarrow> e \<in> set (L @ U) \<and> key_of c e = key \<and> (\<exists>tb. c1 = c\<lparr>lc_table := tb\<rparr>) \<and> table_ok c1 (set (L @ U) - {e})" by blast
  show ?thesis
  proof (cases r)
    case None
    have "FinishErase c1 None = Some (False, c1)" by (simp add: FinishErase_def)
    then show ?thesis using rm r None keeps_refl [of c] by auto
  next
    case (Some e)
    then obtain tb where e: "e \<in> set (L @ U)" "key_of c e = key" and c1: "c1 = c\<lparr>lc_table := tb\<rparr>" "table_ok c1 (set (L @ U) - {e})"
      using r by auto
    have "lru_inv c1 L U H (set (L @ U) - {e}) None"
      unfolding c1(1) by (rule lru_inv_table [OF i c1(2) [unfolded c1(1)] Diff_subset])
    from FinishErase_ok [OF this e(1)] obtain c' where
      c': "FinishErase c1 (Some e) = Some (True, c')" "keeps c1 c'" "consistent c' (remove1 e L) (remove1 e U) H" by blast
    have "keeps c c'" by (rule keeps_trans [OF keeps_table c'(2) [unfolded c1(1)]])
    then show ?thesis using rm e c'(1,3) Some by auto
  qed
qed

section \<open>The operations of a shard\<close>

lemma lru_Lookup_ok:
  assumes i: "consistent c L U H"
  shows "\<exists>r c' L' U'. lru_Lookup c key (HashSlice key) = Some (r, c') \<and> keeps c c' \<and> set (L' @ U') = set (L @ U) \<and>
    (case r of None \<Rightarrow> consistent c' L' U' H \<and> (\<forall>e \<in> set (L @ U). key_of c e \<noteq> key)
     | Some e \<Rightarrow> e \<in> set (L @ U) \<and> key_of c e = key \<and> consistent c' L' U' (add_mset e H))"
proof -
  from ht_Lookup_ok [OF consistent_table [OF i], of key] obtain r where
    look: "ht_Lookup c key (HashSlice key) = Some r" and
    r: "case r of None \<Rightarrow> \<forall>e \<in> set (L @ U). key_of c e \<noteq> key | Some e \<Rightarrow> e \<in> set (L @ U) \<and> key_of c e = key" by blast
  show ?thesis
  proof (cases r)
    case None
    then have "lru_Lookup c key (HashSlice key) = Some (None, c)" using look by (simp add: lru_Lookup_def)
    then show ?thesis using r None i keeps_refl [of c] by (intro exI [of _ None] exI [of _ c] exI [of _ L] exI [of _ U]) simp
  next
    case (Some e)
    then have e: "e \<in> set (L @ U)" "key_of c e = key" using r by simp_all
    from Ref_ok [OF i e(1)] obtain c' L' U' where
      c': "Ref c e = Some c'" "keeps c c'" "consistent c' L' U' (add_mset e H)" "set (L' @ U') = set (L @ U)" by blast
    have "lru_Lookup c key (HashSlice key) = Some (Some e, c')" using look Some c'(1) by (simp add: lru_Lookup_def)
    then show ?thesis using e c'(2-4) by (intro exI [of _ "Some e"] exI [of _ c'] exI [of _ L'] exI [of _ U']) simp
  qed
qed

lemma lru_inv_handle:
  assumes "lru_inv c L U (add_mset e H) T None"
  shows "lru_inv c L U H T (Some e)"
proof -
  have "node_ok c S (add_mset e H) None x h \<Longrightarrow> node_ok c S H (Some e) x h" for S x h
    by (auto simp: node_ok_def)
  then show ?thesis using assms unfolding lru_inv_def by auto
qed

lemma lru_Release_ok:
  assumes i: "consistent c L U (add_mset e H)"
  shows "\<exists>c' L' U'. lru_Release c e = Some c' \<and> keeps c c' \<and> consistent c' L' U' H \<and> set (L' @ U') = set (L @ U)"
proof -
  from Unref_ok [OF lru_inv_handle [OF i]] obtain c' where
    c': "Unref c e = Some c'" "keeps c c'" and
    inv: "if e \<in> set U \<and> e \<notin># H then lru_inv c' (L @ [e]) (remove1 e U) H (set (L @ U)) None
      else lru_inv c' L U H (set (L @ U)) None" by blast
  have d: "distinct (L @ U)" using i by (simp add: lru_inv_def rings_def)
  show ?thesis
  proof (cases "e \<in> set U \<and> e \<notin># H")
    case True
    then have "set ((L @ [e]) @ remove1 e U) = set (L @ U)" using d by auto
    then show ?thesis using c' inv True unfolding lru_Release_def by (metis (no_types, lifting))
  next
    case False
    then show ?thesis using c' inv unfolding lru_Release_def if_not_P [OF False] by blast
  qed
qed

lemma lru_Erase_ok:
  assumes i: "consistent c L U H"
  shows "\<exists>c' L' U'. lru_Erase c key (HashSlice key) = Some c' \<and> keeps c c' \<and> consistent c' L' U' H \<and>
    set (L' @ U') = {e \<in> set (L @ U). key_of c e \<noteq> key}"
proof -
  from take_out_ok [OF i, of key] obtain r c1 c' where
    c': "ht_Remove c key (HashSlice key) = Some (r, c1)" "FinishErase c1 r = Some (r \<noteq> None, c')" "keeps c c'" and
    r: "case r of None \<Rightarrow> c' = c \<and> (\<forall>e \<in> set (L @ U). key_of c e \<noteq> key)
     | Some e \<Rightarrow> e \<in> set (L @ U) \<and> key_of c e = key \<and> consistent c' (remove1 e L) (remove1 e U) H" by blast
  have er: "lru_Erase c key (HashSlice key) = Some c'" using c'(1,2) by (simp add: lru_Erase_def)
  show ?thesis
  proof (cases r)
    case None
    then show ?thesis using er c'(3) r i by (intro exI [of _ c'] exI [of _ L] exI [of _ U]) auto
  next
    case (Some e)
    then have e: "e \<in> set (L @ U)" "key_of c e = key" "consistent c' (remove1 e L) (remove1 e U) H" using r by simp_all
    have "rings c L U" and "inj_on (key_of c) (set (L @ U))" using i by (simp_all add: lru_inv_def table_ok_def)
    then have "set (remove1 e L @ remove1 e U) = {x \<in> set (L @ U). key_of c x \<noteq> key}"
      using e(1,2) by (auto simp only: set_removed dest: inj_onD)
    then show ?thesis using er c'(3) e(3) by blast
  qed
qed

text \<open>The loops that remove unused entries, the oldest first.\<close>

lemma evict_ok:
  assumes i: "consistent c (e # L) U H"
  shows "\<exists>c'. evict c (Entry e) = Some c' \<and> keeps c c' \<and> consistent c' L U H"
proof -
  have d: "distinct (e # L @ U)" and t: "table_ok c (set ((e # L) @ U))" and n: "e \<notin># H" and al: "lc_nodes c e \<noteq> None"
    using i by (simp_all add: lru_inv_def rings_def)
  then obtain h where h: "lc_nodes c e = Some h" by auto
  have k: "knows c e" and inj: "inj_on (key_of c) (set ((e # L) @ U))" using t by (simp_all add: table_ok_def)
  have "lh_refs h = 1" using node_ok_member [OF lru_invD [OF i h]] n by (simp add: not_in_iff)
  moreover have "lh_hash h = HashSlice (key_of c e)" using knows_node [OF k] h by auto
  moreover note lh_key_known [OF k]
  moreover from take_out_ok [OF i, of "key_of c e"] obtain r c1 c' where
    c': "ht_Remove c (key_of c e) (HashSlice (key_of c e)) = Some (r, c1)" "FinishErase c1 r = Some (r \<noteq> None, c')" "keeps c c'" and
    r: "case r of None \<Rightarrow> c' = c \<and> (\<forall>x \<in> set ((e # L) @ U). key_of c x \<noteq> key_of c e)
     | Some x \<Rightarrow> x \<in> set ((e # L) @ U) \<and> key_of c x = key_of c e \<and> consistent c' (remove1 x (e # L)) (remove1 x U) H" by blast
  have "\<exists>x. r = Some x" using r by (cases r) auto
  then obtain x where x: "r = Some x" by blast
  then have "x \<in> set ((e # L) @ U)" and "key_of c x = key_of c e" using r by simp_all
  then have "x = e" using inj_onD [OF inj, of x e] by simp
  with x have "consistent c' L U H" using r d by (simp add: remove1_idem)
  ultimately show ?thesis using h c' x by (auto simp: evict_def)
qed

lemma evict_loop_ok:
  "consistent c L U H \<Longrightarrow> \<exists>c' n. crun (evict_turn over) c = Some c' \<and> keeps c c' \<and> consistent c' (drop n L) U H \<and> (over c' \<longrightarrow> drop n L = [])"
proof (induction L arbitrary: c)
  case Nil
  then have "lc_next c LruHead = Some LruHead" by (simp add: lru_inv_def rings_def ring_def)
  then have "crun (evict_turn over) c = Some c" by (subst crun.simps) (simp add: evict_turn_def)
  then show ?case using Nil keeps_refl [of c] by auto
next
  case (Cons e L)
  have old: "lc_next c LruHead = Some (Entry e)" using Cons.prems by (simp add: lru_inv_def rings_def ring_def)
  show ?case
  proof (cases "over c")
    case True
    from evict_ok [OF Cons.prems] obtain c1 where
      c1: "evict c (Entry e) = Some c1" "keeps c c1" "consistent c1 L U H" by blast
    from Cons.IH [OF c1(3)] obtain c' n where
      c': "crun (evict_turn over) c1 = Some c'" "keeps c1 c'" "consistent c' (drop n L) U H" "over c' \<longrightarrow> drop n L = []" by blast
    have "crun (evict_turn over) c = Some c'" using old True c1(1) c'(1) by (subst crun.simps) (simp add: evict_turn_def)
    then show ?thesis using c'(3,4) keeps_trans [OF c1(2) c'(2)] by (intro exI [of _ c'] exI [of _ "Suc n"]) simp
  next
    case False
    then have "crun (evict_turn over) c = Some c" using old by (subst crun.simps) (simp add: evict_turn_def)
    then show ?thesis using Cons.prems False keeps_refl [of c] by (intro exI [of _ c] exI [of _ 0]) simp
  qed
qed

text \<open>A new entry.\<close>

definition entered :: "'v LRUCache \<Rightarrow> slice \<Rightarrow> 'v \<Rightarrow> u64 \<Rightarrow> 'v LRUCache \<Rightarrow> bool" where
  "entered c key v charge c' \<longleftrightarrow>
     data_of c' = (data_of c)(lc_brk c \<mapsto> (key, v, charge, HashSlice key)) \<and> lc_capacity c' = lc_capacity c \<and> lc_brk c' = lc_brk c + 1 \<and>
     owned c' = add_mset (key, v) (owned c)"

lemma node_ok_grown:
  "node_ok c S H None x g \<Longrightarrow> x \<noteq> e \<Longrightarrow> lc_brk c \<le> lc_brk c' \<Longrightarrow> (proper c x \<Longrightarrow> proper c' x) \<Longrightarrow>
    node_ok c' (insert e S) (add_mset e H) None x g"
  by (auto simp: node_ok_def)

lemma lru_inv_fresh:
  assumes i: "consistent c L U H"
  shows "lc_nodes c (lc_brk c) = None" and "lc_brk c \<notin> set (L @ U)" and "lc_brk c \<notin># H"
proof -
  show "lc_nodes c (lc_brk c) = None"
  proof (cases "lc_nodes c (lc_brk c)")
    case (Some h)
    from lru_invD [OF i this] show ?thesis by (simp add: node_ok_def)
  qed
  then show "lc_brk c \<notin> set (L @ U)" "lc_brk c \<notin># H" using i unfolding lru_inv_def by blast+
qed

lemma owned_added:
  assumes "finite (dom (data_of c))" and "data_of c e = None" and "data_of c' = (data_of c)(e \<mapsto> (k, v, x))"
    and "lc_deleted c' = lc_deleted c"
  shows "owned c' = add_mset (k, v) (owned c)"
proof -
  have d: "dom (data_of c') = insert e (dom (data_of c))" "e \<notin> dom (data_of c)" using assms(2,3) by auto
  have "image_mset (\<lambda>e. case the (data_of c' e) of (k, v, _) \<Rightarrow> (k, v)) (mset_set (dom (data_of c)))
      = image_mset (\<lambda>e. case the (data_of c e) of (k, v, _) \<Rightarrow> (k, v)) (mset_set (dom (data_of c)))"
    using assms(1,3) d(2) by (intro image_mset_cong) auto
  then show ?thesis using assms d by (simp add: owned_def)
qed

text \<open>The entry is linked and charged, but not in the table yet.\<close>

lemma lru_linked:
  fixes v :: 'v and key :: slice and charge :: u64
  assumes i: "consistent c L U H"
  defines "e \<equiv> lc_brk c"
    and "h \<equiv> \<lparr>lh_value = v, lh_charge = charge, lh_key_data = key, lh_in_cache = True, lh_refs = 2, lh_hash = HashSlice key\<rparr>"
  assumes c2: "lc_nodes c2 = (lc_nodes c)(e \<mapsto> h)" "lc_next c2 = lc_next c" "lc_prev c2 = lc_prev c" "lc_table c2 = lc_table c"
      "lc_brk c2 = e + 1" "lc_capacity c2 = lc_capacity c" "lc_usage c2 = lc_usage c" "lc_deleted c2 = lc_deleted c"
  shows "\<exists>c3. LRU_Append c2 InUseHead e = Some c3 \<and> entered c key v charge (c3\<lparr>lc_usage := lc_usage c3 + charge\<rparr>) \<and>
    knows (c3\<lparr>lc_usage := lc_usage c3 + charge\<rparr>) e \<and>
    lru_inv (c3\<lparr>lc_usage := lc_usage c3 + charge\<rparr>) L (U @ [e]) (add_mset e H) (set (L @ U)) None"
proof -
  let ?S = "set (L @ U)"
  have rg: "rings c L U" and tb: "table_ok c ?S" and Lx: "\<forall>x \<in> set L. x \<notin># H" and Ux: "\<forall>x \<in> set U. x \<in># H"
    and us: "lc_usage c = (\<Sum>x \<in> ?S. charge_of c x)"
    and alive: "\<And>x. x \<in> ?S \<or> x \<in># H \<Longrightarrow> lc_nodes c x \<noteq> None"
    using i by (auto simp: lru_inv_def)
  note fresh = lru_inv_fresh [OF i, folded e_def]
  have prp2: "proper c2 = proper c" by (simp add: proper_def fun_eq_iff c2)
  have "rings c2 L U" using rg c2(2,3) by (simp add: rings_def ring_def)
  from rings_Append(2) [OF this fresh(2)] obtain c3 where
    c3: "LRU_Append c2 InUseHead e = Some c3" "relinked c2 c3" "proper c3 e" "rings c3 L (U @ [e])" by blast
  let ?c = "c3\<lparr>lc_usage := lc_usage c3 + charge\<rparr>"
  have same: "lc_nodes ?c = (lc_nodes c)(e \<mapsto> h)" "lc_usage ?c = lc_usage c + charge" "lc_table ?c = lc_table c"
    "lc_brk ?c = e + 1" "lc_capacity ?c = lc_capacity c" "lc_deleted ?c = lc_deleted c"
    using relinked_same [OF c3(2)] c2 by simp_all
  have prp: "proper ?c x" if "proper c x" for x using c3(2) that prp2 by (simp add: relinked_def)
  have pe: "proper ?c e" using c3(3) by simp
  have dx: "data_of ?c = (data_of c)(e \<mapsto> (key, v, charge, HashSlice key))"
  proof (rule ext)
    show "data_of ?c x = ((data_of c)(e \<mapsto> (key, v, charge, HashSlice key))) x" for x unfolding data_of_def same(1) by (simp add: h_def)
  qed
  then have data: "data_of ?c x = data_of c x" if "x \<noteq> e" for x using that by simp
  have ne: "x \<noteq> e" if "x \<in> ?S" for x using that fresh(2) by blast
  have S: "set (L @ U @ [e]) = insert e ?S" by auto
  have "lru_inv ?c L (U @ [e]) (add_mset e H) ?S None"
    unfolding lru_inv_def S
  proof (intro conjI allI impI)
    show "rings ?c L (U @ [e])" using c3(4) by simp
    show "table_ok ?c ?S"
    proof (rule table_ok_cong [OF tb same(3)])
      fix x assume x: "x \<in> ?S"
      then have "proper c x" using tb by (simp add: table_ok_def knows_def)
      then show "data_of ?c x = data_of c x \<and> proper ?c x" using data [OF ne [OF x]] prp by blast
    qed
    show "node_ok ?c (insert e ?S) (add_mset e H) None x g" if g: "lc_nodes ?c x = Some g" for x g
    proof (cases "x = e")
      case True
      then have "g = h" using g unfolding same(1) by simp
      then show ?thesis using True pe fresh(3) same(4) by (simp add: node_ok_def h_def not_in_iff)
    next
      case False
      then have "lc_nodes c x = Some g" using g unfolding same(1) by simp
      from lru_invD [OF i this] False show ?thesis by (rule node_ok_grown) (use prp same(4) in \<open>simp_all add: e_def\<close>)
    qed
    show "lc_nodes ?c x \<noteq> None" if "x \<in> insert e ?S \<or> x \<in># add_mset e H \<or> None = Some x" for x
      using that alive [of x] unfolding same(1) by auto
    show "\<forall>x \<in> set L. x \<notin># add_mset e H \<and> None \<noteq> Some x" using Lx fresh(2) by auto
    show "\<forall>x \<in> set (U @ [e]). x \<in># add_mset e H \<or> None = Some x" using Ux by auto
    have "charge_of ?c e = charge" unfolding charge_of_def same(1) by (simp add: h_def)
    moreover have "sum (charge_of ?c) ?S = sum (charge_of c) ?S" by (rule charges_cong) (rule data [OF ne])
    ultimately show "lc_usage ?c = sum (charge_of ?c) (insert e ?S)"
      unfolding same(2) us using sum.insert [of ?S e "charge_of ?c"] fresh(2) by (simp add: ac_simps)
  qed auto
  moreover have "owned ?c = add_mset (key, v) (owned c)"
    by (rule owned_added [OF lru_inv_finite [OF i] _ dx same(6)]) (use fresh(1) in \<open>simp add: data_of_def\<close>)
  then have "entered c key v charge ?c" using dx same(4,5) by (simp add: entered_def e_def)
  moreover have "knows ?c e" unfolding knows_def same(1) using pe by (simp add: h_def)
  ultimately show ?thesis using c3(1) by blast
qed

lemma lru_Insert_ok:
  fixes key :: slice
  assumes i: "consistent c L U H" and cap: "0 < lc_capacity c"
  defines "e \<equiv> lc_brk c"
  shows "\<exists>c1 c' L' U'. lru_Insert c key (HashSlice key) v charge = Some (e, c') \<and> entered c key v charge c1 \<and> keeps c1 c' \<and>
    consistent c' L' U' (add_mset e H) \<and> e \<in> set U' \<and> (\<forall>x \<in> set (L' @ U'). x = e \<or> x \<in> set (L @ U) \<and> key_of c x \<noteq> key) \<and>
    (lc_usage c' \<le> lc_capacity c' \<or> L' = [])"
proof -
  let ?S = "set (L @ U)"
  let ?h = "\<lparr>lh_value = v, lh_charge = charge, lh_key_data = key, lh_in_cache = False, lh_refs = 1, lh_hash = HashSlice key\<rparr>"
  let ?f = "\<lambda>h. h\<lparr>lh_refs := lh_refs h + 1, lh_in_cache := True\<rparr>"
  let ?c1 = "c\<lparr>lc_brk := e + 1, lc_nodes := (lc_nodes c)(e \<mapsto> ?h)\<rparr>"
  let ?c2 = "update_node ?c1 e ?f"
  have "lc_nodes ?c2 = (lc_nodes c)(lc_brk c \<mapsto> \<lparr>lh_value = v, lh_charge = charge, lh_key_data = key, lh_in_cache = True, lh_refs = 2, lh_hash = HashSlice key\<rparr>)"
    by (simp add: e_def fun_eq_iff)
  from lru_linked [OF i this] obtain c3 where
    c3: "LRU_Append ?c2 InUseHead e = Some c3" "entered c key v charge (c3\<lparr>lc_usage := lc_usage c3 + charge\<rparr>)"
    "knows (c3\<lparr>lc_usage := lc_usage c3 + charge\<rparr>) e"
    "lru_inv (c3\<lparr>lc_usage := lc_usage c3 + charge\<rparr>) L (U @ [e]) (add_mset e H) ?S None" unfolding e_def by auto
  let ?c4 = "c3\<lparr>lc_usage := lc_usage c3 + charge\<rparr>"
  note fresh = lru_inv_fresh(2) [OF i, folded e_def]
  have d4: "data_of ?c4 e = Some (key, v, charge, HashSlice key)" "\<And>x. x \<in> ?S \<Longrightarrow> data_of ?c4 x = data_of c x"
    using c3(2) fresh unfolding entered_def e_def by auto
  have key: "key_of ?c4 e = key" using d4(1) by (auto simp: data_of_def key_of_def)
  have keys: "key_of ?c4 x = key_of c x" if "x \<in> ?S" for x using keeps_same(1) [OF d4(2) [OF that]] .
  have S: "set (L @ U @ [e]) = insert e ?S" by auto
  from ht_Insert_ok [OF consistent_table [OF c3(4)] c3(3) fresh] obtain r tb where
    ins: "ht_Insert ?c4 e = Some (r, ?c4\<lparr>lc_table := tb\<rparr>)" and
    r: "case r of None \<Rightarrow> (\<forall>x \<in> ?S. key_of ?c4 x \<noteq> key) \<and> table_ok (?c4\<lparr>lc_table := tb\<rparr>) (insert e ?S)
     | Some old \<Rightarrow> old \<in> ?S \<and> key_of ?c4 old = key \<and> table_ok (?c4\<lparr>lc_table := tb\<rparr>) (insert e (?S - {old}))"
    unfolding key by blast
  let ?c5 = "?c4\<lparr>lc_table := tb\<rparr>"
  have "\<exists>b c6 L6 U6. FinishErase ?c5 r = Some (b, c6) \<and> keeps ?c5 c6 \<and> consistent c6 L6 U6 (add_mset e H) \<and> e \<in> set U6 \<and>
      (\<forall>x \<in> set (L6 @ U6). x = e \<or> x \<in> ?S \<and> key_of c x \<noteq> key)"
  proof (cases r)
    case None
    then have t: "table_ok ?c5 (set (L @ U @ [e]))" and none: "\<forall>x \<in> ?S. key_of ?c4 x \<noteq> key" using r unfolding S by simp_all
    have "consistent ?c5 L (U @ [e]) (add_mset e H)" using lru_inv_table [OF c3(4) t] by blast
    moreover have "FinishErase ?c5 r = Some (False, ?c5)" using None by (simp add: FinishErase_def)
    moreover have "\<forall>x \<in> set (L @ U @ [e]). x = e \<or> x \<in> ?S \<and> key_of c x \<noteq> key" using none keys unfolding S by auto
    ultimately show ?thesis using keeps_refl [of ?c5] by (intro exI [of _ False] exI [of _ ?c5] exI [of _ L] exI [of _ "U @ [e]"]) simp
  next
    case (Some old)
    then have old: "old \<in> ?S" "key_of ?c4 old = key" and t0: "table_ok ?c5 (insert e (?S - {old}))" using r by simp_all
    have ne: "old \<noteq> e" using old(1) fresh by blast
    have T: "insert e (?S - {old}) = set (L @ U @ [e]) - {old}" unfolding S using ne by blast
    have i5: "lru_inv ?c5 L (U @ [e]) (add_mset e H) (set (L @ U @ [e]) - {old}) None"
      by (rule lru_inv_table [OF c3(4) t0 [unfolded T] Diff_subset])
    have "old \<in> set (L @ U @ [e])" using old(1) unfolding S by blast
    from FinishErase_ok [OF i5 this] obtain c6 where
      c6: "FinishErase ?c5 (Some old) = Some (True, c6)" "keeps ?c5 c6" "consistent c6 (remove1 old L) (remove1 old (U @ [e])) (add_mset e H)" by blast
    have m: "set (remove1 old L @ remove1 old (U @ [e])) = insert e ?S - {old}"
      using set_removed [of c3 L "U @ [e]" old] c3(4) S by (simp add: lru_inv_def)
    have inj: "inj_on (key_of ?c4) ?S" using consistent_table [OF c3(4)] by (simp add: table_ok_def)
    have "x = e \<or> x \<in> ?S \<and> key_of c x \<noteq> key" if "x \<in> insert e ?S - {old}" for x
      using that inj_onD [OF inj, of x old] old keys [of x] by auto
    moreover have "e \<in> set (remove1 old (U @ [e]))" using ne by (simp add: remove1_append)
    ultimately show ?thesis using c6 unfolding Some m [symmetric] by blast
  qed
  then obtain b c6 L6 U6 where c6: "FinishErase ?c5 r = Some (b, c6)" "keeps ?c5 c6" "consistent c6 L6 U6 (add_mset e H)" "e \<in> set U6"
    "\<forall>x \<in> set (L6 @ U6). x = e \<or> x \<in> ?S \<and> key_of c x \<noteq> key" by blast
  from evict_loop_ok [OF c6(3), of "\<lambda>c. lc_capacity c < lc_usage c"] obtain c' n where
    c': "crun (evict_turn (\<lambda>c. lc_capacity c < lc_usage c)) c6 = Some c'" "keeps c6 c'" "consistent c' (drop n L6) U6 (add_mset e H)"
      "lc_capacity c' < lc_usage c' \<longrightarrow> drop n L6 = []" by blast
  have "lru_Insert c key (HashSlice key) v charge = Some (e, c')"
    using cap c3(1) ins c6(1) c'(1) unfolding lru_Insert_def Let_def e_def [symmetric] by simp
  moreover have "keeps ?c4 c'" by (rule keeps_trans [OF keeps_trans [OF keeps_table c6(2)] c'(2)])
  moreover have "\<forall>x \<in> set (drop n L6 @ U6). x = e \<or> x \<in> ?S \<and> key_of c x \<noteq> key" using c6(5) in_set_dropD [of _ n L6] by auto
  moreover have "lc_usage c' \<le> lc_capacity c' \<or> drop n L6 = []" using c'(4) by (auto simp: not_less)
  ultimately show ?thesis using c3(2) c'(3) c6(4) by blast
qed

lemma make_LRUCache_owned: "owned (make_LRUCache capacity) = {#}"
  by (simp add: make_LRUCache_def owned_def data_of_def dom_def)

lemma make_LRUCache_ok: "consistent (make_LRUCache capacity) [] [] {#}"
  by (auto simp: make_LRUCache_def lru_inv_def rings_def ring_def table_ok_def in_buckets_def numeral_nat nth_Cons split: nat.splits)

section \<open>The destructor\<close>

lemma destroy_loop:
  assumes "linked (lc_next c) (lc_prev c) (map Entry M @ [LruHead])" and "distinct M"
    and "\<And>e h. lc_nodes c e = Some h \<Longrightarrow> e \<in> set M \<and> lh_in_cache h \<and> lh_refs h = 1 \<and> proper c e"
    and "\<And>e. e \<in> set M \<Longrightarrow> lc_nodes c e \<noteq> None"
  shows "\<exists>c'. crun destroy_turn (c, behind LruHead M) = Some c' \<and> lc_nodes c' = Map.empty \<and> owned c' = owned c"
  using assms
proof (induction M arbitrary: c)
  case Nil
  then have "lc_nodes c e = None" for e by (cases "lc_nodes c e") auto
  then show ?case by (subst crun.simps) (auto simp: destroy_turn_def fun_eq_iff)
next
  case (Cons e M)
  from Cons.prems(4) [of e] obtain h where h: "lc_nodes c e = Some h" by auto
  with Cons.prems(3) have h': "lh_in_cache h" "lh_refs h = 1" "proper c e" by auto
  have nx: "lc_next c (Entry e) = Some (behind LruHead M)" and l: "linked (lc_next c) (lc_prev c) (map Entry M @ [LruHead])"
    using Cons.prems(1) by (cases M; simp)+
  let ?c = "update_node c e (\<lambda>h. h\<lparr>lh_in_cache := False\<rparr>)"
  have "lc_nodes ?c e = Some (h\<lparr>lh_in_cache := False\<rparr>)" using h by simp
  from Unref_frees [OF this] h' obtain c1 where
    c1: "Unref ?c e = Some c1" "lc_nodes c1 = (lc_nodes ?c)(e := None)"
      "\<And>p. p \<noteq> Entry e \<Longrightarrow> lc_next c1 p = lc_next ?c p \<and> lc_prev c1 p = lc_prev ?c p"
      "lc_deleted c1 = lc_deleted ?c @ [(lh_key_data h, lh_value h)]" by auto
  have e: "e \<notin> set M" "distinct M" using Cons.prems(2) by simp_all
  have nodes: "lc_nodes c1 = (lc_nodes c)(e := None)" using c1(2) by simp
  have "dom (data_of c) \<subseteq> set (e # M)" using Cons.prems(3) by (fastforce simp: data_of_def)
  then have "finite (dom (data_of c))" by (rule finite_subset) simp
  then have own: "owned c1 = owned c"
    by (rule owned_freed [where e = e and k = "lh_key_data h" and v = "lh_value h"]) (use h nodes c1(4) in \<open>auto simp: data_of_def fun_eq_iff\<close>)
  have "linked (lc_next c1) (lc_prev c1) (map Entry M @ [LruHead])"
  proof (rule linked_frame [OF l])
    show "lc_next c1 x = lc_next c x" if "x \<in> set (butlast (map Entry M @ [LruHead]))" for x
      using that e(1) c1(3) [of x] by auto
    have "set (tl (map Entry M @ [LruHead])) \<subseteq> insert LruHead (Entry ` set M)" by (cases M) auto
    then show "lc_prev c1 x = lc_prev c x" if "x \<in> set (tl (map Entry M @ [LruHead]))" for x
      using that e(1) c1(3) [of x] by auto
  qed
  moreover have "x \<in> set M \<and> lh_in_cache g \<and> lh_refs g = 1 \<and> proper c1 x" if g: "lc_nodes c1 x = Some g" for x g
  proof -
    have x: "x \<noteq> e" "lc_nodes c x = Some g" using g unfolding nodes by (auto split: if_splits)
    have "proper c1 x \<longleftrightarrow> proper c x" using c1(3) [of "Entry x"] x(1) by (simp add: proper_def)
    then show ?thesis using Cons.prems(3) [OF x(2)] x(1) by simp
  qed
  moreover have "lc_nodes c1 x \<noteq> None" if "x \<in> set M" for x
    using Cons.prems(4) [of x] that e(1) unfolding nodes by auto
  ultimately obtain c' where c': "crun destroy_turn (c1, behind LruHead M) = Some c'" "lc_nodes c' = Map.empty" "owned c' = owned c1"
    using Cons.IH [of c1] e(2) by blast
  have "destroy_turn (c, Entry e) = Some (Continue (c1, behind LruHead M))"
    using h h' nx c1(1) by (simp add: destroy_turn_def)
  then have "crun destroy_turn (c, Entry e) = Some c'" using c'(1) by (subst crun.simps) simp
  then show ?case using c'(2,3) own by simp
qed

lemma destroy_ok:
  assumes i: "consistent c L U {#}"
  shows "\<exists>c'. destroy_LRUCache c = Some c' \<and> lc_nodes c' = Map.empty \<and> mset (lc_deleted c') = owned c"
proof -
  have U: "U = []" using i by (cases U) (auto simp: lru_inv_def)
  then have r: "ring c LruHead L" "ring c InUseHead []" "distinct L" using i by (auto simp: lru_inv_def rings_def)
  have "e \<in> set L \<and> lh_in_cache h \<and> lh_refs h = 1 \<and> proper c e" if "lc_nodes c e = Some h" for e h
    using lru_invD [OF i that] U by (auto simp: node_ok_def)
  moreover have "lc_nodes c e \<noteq> None" if "e \<in> set L" for e using i that by (auto simp: lru_inv_def)
  moreover have "linked (lc_next c) (lc_prev c) (map Entry L @ [LruHead])" and n: "lc_next c LruHead = Some (behind LruHead L)"
    using r(1) ring_split [of c LruHead "[]" L] by (simp_all add: before_def)
  ultimately obtain c' where c': "crun destroy_turn (c, behind LruHead L) = Some c'" "lc_nodes c' = Map.empty" "owned c' = owned c"
    using destroy_loop [of c L] r(3) by blast
  have "data_of c' = Map.empty" using c'(2) by (simp add: data_of_def fun_eq_iff)
  then have "owned c' = mset (lc_deleted c')" by (simp add: owned_def)
  then show ?thesis using n r(2) c' by (simp add: destroy_LRUCache_def ring_def)
qed

end
