(* ===== verification/LdbCacheShards.thy ===== *)
theory LdbCacheShards
  imports LdbCacheOps
begin

text \<open>
  The shards together meet the contract \<open>cache\<close>. The ghost map has the last insertion of each key that was not
  erased since; the cache holds a part of it.
\<close>

section \<open>One shard\<close>

definition entry_is :: "'v LRUCache \<Rightarrow> nat \<Rightarrow> slice \<Rightarrow> 'v \<Rightarrow> bool" where
  "entry_is c e k v \<longleftrightarrow> (\<exists>charge. data_of c e = Some (k, v, charge, HashSlice k))"

lemma entry_is_key: "entry_is c e k v \<Longrightarrow> key_of c e = k"
  by (auto simp: entry_is_def data_of_def key_of_def)

lemma entry_is_node: "entry_is c e k v \<Longrightarrow> \<exists>h. lc_nodes c e = Some h \<and> lh_value h = v \<and> lh_hash h = HashSlice k"
  by (auto simp: entry_is_def data_of_def)

lemma keeps_entry: "keeps c c' \<Longrightarrow> entry_is c e k v \<Longrightarrow> lc_nodes c' e \<noteq> None \<Longrightarrow> entry_is c' e k v"
  using keeps_node [of c c' e] by (simp add: entry_is_def)

definition holds :: "nat \<Rightarrow> 'v LRUCache \<Rightarrow> (slice \<rightharpoonup> 'v) \<Rightarrow> (nat \<times> 'v) multiset \<Rightarrow> nat set \<Rightarrow> bool" where
  "holds s c m H S \<longleftrightarrow>
     (\<forall>e \<in> S. \<exists>k v. entry_is c e k v \<and> m k = Some v \<and> Shard (HashSlice k) = s) \<and>
     (\<forall>x \<in># H. \<exists>k. entry_is c (fst x) k (snd x) \<and> Shard (HashSlice k) = s)"

definition shard_ok :: "nat \<Rightarrow> 'v LRUCache \<Rightarrow> (slice \<rightharpoonup> 'v) \<Rightarrow> (nat \<times> 'v) multiset \<Rightarrow> bool" where
  "shard_ok s c m H \<longleftrightarrow>
     0 < lc_capacity c \<and> (\<exists>L U. consistent c L U (image_mset fst H) \<and> holds s c m H (set (L @ U)))"

lemma shard_okE:
  assumes "shard_ok s c m H"
  obtains L U where "0 < lc_capacity c" "consistent c L U (image_mset fst H)" "holds s c m H (set (L @ U))"
  using assms unfolding shard_ok_def by blast

lemma shard_okI:
  assumes k: "keeps c c'" and cap: "0 < lc_capacity c" and i: "consistent c' L U (image_mset fst H)" and h: "holds s c m H (set (L @ U))"
  shows "shard_ok s c' m H"
proof -
  have "lc_nodes c' e \<noteq> None" if "e \<in> set (L @ U) \<or> e \<in> fst ` set_mset H" for e
    using i that by (auto simp: lru_inv_def)
  then have "holds s c' m H (set (L @ U))" using h keeps_entry [OF k] unfolding holds_def by (metis image_eqI)
  then show ?thesis using k cap i unfolding shard_ok_def keeps_def by auto
qed

lemma holds_mono: "holds s c m H S \<Longrightarrow> S' \<subseteq> S \<Longrightarrow> H' \<subseteq># H \<Longrightarrow> holds s c m H' S'"
  unfolding holds_def by (blast dest: mset_subset_eqD)

lemma holds_handle: "holds s c m H S \<Longrightarrow> entry_is c e k v \<Longrightarrow> Shard (HashSlice k) = s \<Longrightarrow> holds s c m (add_mset (e, v) H) S"
  unfolding holds_def by auto

lemma shard_ok_cong:
  assumes "shard_ok s c m H" and "\<And>k. Shard (HashSlice k) = s \<Longrightarrow> m' k = m k"
  shows "shard_ok s c m' H"
  using assms(1)
proof (rule shard_okE)
  fix L U assume "0 < lc_capacity c" "consistent c L U (image_mset fst H)" "holds s c m H (set (L @ U))"
  moreover from this(3) assms(2) have "holds s c m' H (set (L @ U))" unfolding holds_def by metis
  ultimately show ?thesis unfolding shard_ok_def by blast
qed

lemma shard_Lookup:
  assumes "shard_ok s c m H" and "Shard (HashSlice key) = s"
  shows "\<exists>r c'. lru_Lookup c key (HashSlice key) = Some (r, c') \<and> owned c' = owned c \<and>
    (case r of None \<Rightarrow> shard_ok s c' m H
     | Some e \<Rightarrow> \<exists>v. m key = Some v \<and> entry_is c e key v \<and> shard_ok s c' m (add_mset (e, v) H))"
  using assms(1)
proof (rule shard_okE)
  fix L U assume cap: "0 < lc_capacity c" and i: "consistent c L U (image_mset fst H)" and h: "holds s c m H (set (L @ U))"
  from lru_Lookup_ok [OF i, of key] obtain r c' L' U' where
    c': "lru_Lookup c key (HashSlice key) = Some (r, c')" "keeps c c'" "set (L' @ U') = set (L @ U)" and
    r: "case r of None \<Rightarrow> consistent c' L' U' (image_mset fst H) \<and> (\<forall>e \<in> set (L @ U). key_of c e \<noteq> key)
     | Some e \<Rightarrow> e \<in> set (L @ U) \<and> key_of c e = key \<and> consistent c' L' U' (add_mset e (image_mset fst H))" by blast
  have own: "owned c' = owned c" using c'(2) by (simp add: keeps_def)
  show ?thesis
  proof (cases r)
    case None
    then have "shard_ok s c' m H" using r shard_okI [OF c'(2) cap _ h [folded c'(3)]] by simp
    then show ?thesis using c'(1) own None by (intro exI [of _ None] exI [of _ c']) simp
  next
    case (Some e)
    then have e: "e \<in> set (L @ U)" "key_of c e = key" "consistent c' L' U' (add_mset e (image_mset fst H))" using r by simp_all
    from h e(1) obtain k v where kv: "entry_is c e k v" "m k = Some v" "Shard (HashSlice k) = s" unfolding holds_def by blast
    have k: "k = key" using entry_is_key [OF kv(1)] e(2) by simp
    have "holds s c m (add_mset (e, v) H) (set (L' @ U'))" unfolding c'(3) by (rule holds_handle [OF h kv(1,3)])
    from shard_okI [OF c'(2) cap _ this] e(3) have "shard_ok s c' m (add_mset (e, v) H)" by simp
    then show ?thesis using c'(1) own Some kv(1,2) k by (intro exI [of _ "Some e"] exI [of _ c']) simp
  qed
qed

lemma shard_Release:
  assumes "shard_ok s c m (add_mset (e, v) H)"
  shows "\<exists>c' k. lru_Release c e = Some c' \<and> owned c' = owned c \<and> shard_ok s c' m H \<and> entry_is c e k v \<and> Shard (HashSlice k) = s"
  using assms
proof (rule shard_okE)
  fix L U assume cap: "0 < lc_capacity c" and i: "consistent c L U (image_mset fst (add_mset (e, v) H))" and
    h: "holds s c m (add_mset (e, v) H) (set (L @ U))"
  from i have "consistent c L U (add_mset e (image_mset fst H))" by simp
  from lru_Release_ok [OF this] obtain c' L' U' where
    c': "lru_Release c e = Some c'" "keeps c c'" "consistent c' L' U' (image_mset fst H)" "set (L' @ U') = set (L @ U)" by blast
  have "holds s c m H (set (L' @ U'))" unfolding c'(4) by (rule holds_mono [OF h]) simp_all
  from shard_okI [OF c'(2) cap c'(3) this] have "shard_ok s c' m H" .
  moreover obtain k where "entry_is c e k v" "Shard (HashSlice k) = s" using h unfolding holds_def by auto
  ultimately show ?thesis using c'(1,2) by (auto simp: keeps_def)
qed

lemma shard_Erase:
  assumes "shard_ok s c m H"
  shows "\<exists>c'. lru_Erase c key (HashSlice key) = Some c' \<and> owned c' = owned c \<and> shard_ok s c' (m(key := None)) H"
  using assms
proof (rule shard_okE)
  fix L U assume cap: "0 < lc_capacity c" and i: "consistent c L U (image_mset fst H)" and h: "holds s c m H (set (L @ U))"
  from lru_Erase_ok [OF i, of key] obtain c' L' U' where
    c': "lru_Erase c key (HashSlice key) = Some c'" "keeps c c'" "consistent c' L' U' (image_mset fst H)"
      "set (L' @ U') = {e \<in> set (L @ U). key_of c e \<noteq> key}" by blast
  have "holds s c (m(key := None)) H (set (L' @ U'))"
    unfolding holds_def c'(4)
  proof (intro conjI ballI)
    fix e assume e: "e \<in> {e \<in> set (L @ U). key_of c e \<noteq> key}"
    then obtain k v where kv: "entry_is c e k v" "m k = Some v" "Shard (HashSlice k) = s" using h unfolding holds_def by blast
    moreover have "k \<noteq> key" using entry_is_key [OF kv(1)] e by blast
    ultimately show "\<exists>k v. entry_is c e k v \<and> (m(key := None)) k = Some v \<and> Shard (HashSlice k) = s" by auto
  qed (use h in \<open>auto simp: holds_def\<close>)
  from shard_okI [OF c'(2) cap c'(3) this] show ?thesis using c'(1,2) by (simp add: keeps_def)
qed

lemma shard_Prune:
  assumes "shard_ok s c m H"
  shows "\<exists>c'. lru_Prune c = Some c' \<and> owned c' = owned c \<and> shard_ok s c' m H \<and> lc_next c' LruHead = Some LruHead"
  using assms
proof (rule shard_okE)
  fix L U assume cap: "0 < lc_capacity c" and i: "consistent c L U (image_mset fst H)" and h: "holds s c m H (set (L @ U))"
  from evict_loop_ok [OF i, of "\<lambda>c. True"] obtain c' n where
    c': "crun (evict_turn (\<lambda>c. True)) c = Some c'" "keeps c c'" "consistent c' (drop n L) U (image_mset fst H)" "drop n L = []" by blast
  have "holds s c m H (set (drop n L @ U))" by (rule holds_mono [OF h]) (use c'(4) in simp_all)
  from shard_okI [OF c'(2) cap c'(3) this] have "shard_ok s c' m H" .
  moreover have "lc_next c' LruHead = Some LruHead" using c'(3) unfolding c'(4) by (simp add: lru_inv_def rings_def ring_def)
  ultimately show ?thesis using c'(1,2) by (simp add: lru_Prune_def keeps_def)
qed

lemma shard_Insert:
  assumes "shard_ok s c m H" and "Shard (HashSlice key) = s"
  shows "\<exists>e c'. lru_Insert c key (HashSlice key) v charge = Some (e, c') \<and> owned c' = add_mset (key, v) (owned c) \<and>
    shard_ok s c' (m(key \<mapsto> v)) (add_mset (e, v) H) \<and> (lc_usage c' \<le> lc_capacity c' \<or> lc_next c' LruHead = Some LruHead) \<and>
    (\<exists>c''. lru_Lookup c' key (HashSlice key) = Some (Some e, c'')) \<and> lc_capacity c' = lc_capacity c \<and>
    (\<exists>h. lc_nodes c' e = Some h \<and> lh_in_cache h \<and> lh_charge h = charge)"
  using assms(1)
proof (rule shard_okE)
  fix L U assume cap: "0 < lc_capacity c" and i: "consistent c L U (image_mset fst H)" and h: "holds s c m H (set (L @ U))"
  let ?e = "lc_brk c"
  from lru_Insert_ok [OF i cap, of key v charge] obtain c1 c' L' U' where
    c': "lru_Insert c key (HashSlice key) v charge = Some (?e, c')" "entered c key v charge c1" "keeps c1 c'" and
    i': "consistent c' L' U' (add_mset ?e (image_mset fst H))" "?e \<in> set U'" and
    mem: "\<And>x. x \<in> set (L' @ U') \<Longrightarrow> x = ?e \<or> x \<in> set (L @ U) \<and> key_of c x \<noteq> key" and
    us: "lc_usage c' \<le> lc_capacity c' \<or> L' = []" by blast
  note fresh = lru_inv_fresh [OF i]
  have e1: "entry_is c1 ?e key v" using c'(2) by (simp add: entered_def entry_is_def)
  have old: "entry_is c1 x k w" if "entry_is c x k w" for x k w
  proof -
    have "x \<noteq> ?e" using that fresh(1) by (auto simp: entry_is_def data_of_def)
    then show ?thesis using that c'(2) by (simp add: entered_def entry_is_def)
  qed
  have "holds s c1 (m(key \<mapsto> v)) (add_mset (?e, v) H) (set (L' @ U'))"
    unfolding holds_def
  proof (intro conjI ballI)
    fix x assume "x \<in> set (L' @ U')"
    from mem [OF this] show "\<exists>k w. entry_is c1 x k w \<and> (m(key \<mapsto> v)) k = Some w \<and> Shard (HashSlice k) = s"
    proof (elim disjE conjE)
      assume "x = ?e" then show ?thesis using e1 assms(2) by auto
    next
      assume x: "x \<in> set (L @ U)" "key_of c x \<noteq> key"
      then obtain k w where kw: "entry_is c x k w" "m k = Some w" "Shard (HashSlice k) = s" using h unfolding holds_def by blast
      moreover have "k \<noteq> key" using entry_is_key [OF kw(1)] x(2) by blast
      ultimately show ?thesis using old by (intro exI [of _ k] exI [of _ w]) simp
    qed
  next
    fix x assume "x \<in># add_mset (?e, v) H"
    then consider "x = (?e, v)" | "x \<in># H" by auto
    then show "\<exists>k. entry_is c1 (fst x) k (snd x) \<and> Shard (HashSlice k) = s"
    proof cases
      case 1 then show ?thesis using e1 assms(2) by auto
    next
      case 2 then show ?thesis using h old unfolding holds_def by blast
    qed
  qed
  moreover have "0 < lc_capacity c1" using c'(2) cap by (simp add: entered_def)
  ultimately have "shard_ok s c' (m(key \<mapsto> v)) (add_mset (?e, v) H)" using shard_okI [OF c'(3)] i'(1) by simp
  moreover have "owned c' = add_mset (key, v) (owned c)" using c'(2,3) by (simp add: keeps_def entered_def)
  moreover have "lc_usage c' \<le> lc_capacity c' \<or> lc_next c' LruHead = Some LruHead"
    using us i'(1) by (auto simp: lru_inv_def rings_def ring_def)
  moreover have "\<exists>c''. lru_Lookup c' key (HashSlice key) = Some (Some ?e, c'')"
  proof -
    from lru_Lookup_ok [OF i'(1), of key] obtain r c'' L2 U2 where
      l: "lru_Lookup c' key (HashSlice key) = Some (r, c'')" "keeps c' c''" "set (L2 @ U2) = set (L' @ U')" and
      r: "case r of None \<Rightarrow> consistent c'' L2 U2 (add_mset ?e (image_mset fst H)) \<and> (\<forall>e \<in> set (L' @ U'). key_of c' e \<noteq> key)
       | Some e \<Rightarrow> e \<in> set (L' @ U') \<and> key_of c' e = key \<and> consistent c'' L2 U2 (add_mset e (add_mset ?e (image_mset fst H)))"
      by (elim exE conjE) (rule that)
    have e: "?e \<in> set (L' @ U')" using i'(2) by simp
    then have "lc_nodes c' ?e \<noteq> None" using i'(1) unfolding lru_inv_def by blast
    from entry_is_key [OF keeps_entry [OF c'(3) e1 this]] have k: "key_of c' ?e = key" .
    from r k e obtain x where x: "r = Some x" "x \<in> set (L' @ U')" "key_of c' x = key" by (cases r) auto
    have "inj_on (key_of c') (set (L' @ U'))" using consistent_table [OF i'(1)] unfolding table_ok_def by blast
    from inj_onD [OF this trans [OF x(3) k [symmetric]] x(2) e] have "x = ?e" .
    then show ?thesis using l(1) x(1) by blast
  qed
  moreover have "lc_capacity c' = lc_capacity c" using c'(2,3) by (simp add: keeps_def entered_def)
  moreover have "\<exists>h. lc_nodes c' ?e = Some h \<and> lh_in_cache h \<and> lh_charge h = charge"
  proof -
    have e: "?e \<in> set (L' @ U')" using i'(2) by simp
    then have "lc_nodes c' ?e \<noteq> None" using i'(1) unfolding lru_inv_def by blast
    then obtain h where h: "lc_nodes c' ?e = Some h" by blast
    have "lh_in_cache h" using lru_invD [OF i'(1) h] e by (simp add: node_ok_def)
    moreover have "data_of c' ?e = Some (key, v, charge, HashSlice key)" using keeps_node [OF c'(3)] h c'(2) by (simp add: entered_def)
    then have "lh_charge h = charge" by (simp add: data_of_def h)
    ultimately show ?thesis using h by blast
  qed
  ultimately show ?thesis using c'(1) by blast
qed

lemma shard_new: "0 < capacity \<Longrightarrow> shard_ok s (make_LRUCache capacity) m {#}"
  using make_LRUCache_ok [of capacity] unfolding shard_ok_def
  by (intro conjI exI [of _ "[]"]) (simp_all add: make_LRUCache_def holds_def)

lemma shard_destroy:
  assumes "shard_ok s c m {#}"
  shows "\<exists>c'. destroy_LRUCache c = Some c' \<and> lc_nodes c' = Map.empty \<and> mset (lc_deleted c') = owned c"
  using assms
proof (rule shard_okE)
  fix L U assume "consistent c L U (image_mset fst {#})"
  then have "consistent c L U {#}" by simp
  then show ?thesis by (rule destroy_ok)
qed

section \<open>All shards\<close>

lemma Shard_less: "Shard hash < kNumShards"
  using unsigned_less [of hash, where ?'a = nat]
  by (simp add: Shard_def kNumShards_def kNumShardBits_def unat_drop_bit_eq drop_bit_eq_div unat_div less_mult_imp_div_less)

definition handles_of :: "nat \<Rightarrow> ((nat \<times> nat) \<times> 'v) multiset \<Rightarrow> (nat \<times> 'v) multiset" where
  "handles_of s H = image_mset (\<lambda>x. (snd (fst x), snd x)) (filter_mset (\<lambda>x. fst (fst x) = s) H)"

lemma handles_of_simps [simp]:
  "handles_of s {#} = {#}"
  "handles_of s (add_mset ((s', e), v) H) = (if s' = s then add_mset (e, v) (handles_of s H) else handles_of s H)"
  by (simp_all add: handles_of_def)

definition sharded_ok :: "'v ShardedLRUCache \<Rightarrow> (slice \<rightharpoonup> 'v) \<Rightarrow> ((nat \<times> nat) \<times> 'v) multiset \<Rightarrow> bool" where
  "sharded_ok C m H \<longleftrightarrow>
     length (sc_shard C) = kNumShards \<and> (\<forall>s < kNumShards. shard_ok s (sc_shard C ! s) m (handles_of s H)) \<and>
     (\<forall>x \<in># H. fst (fst x) < kNumShards)"

definition sharded_owned :: "'v ShardedLRUCache \<Rightarrow> (slice \<times> 'v) multiset" where
  "sharded_owned C = sum_list (map owned (sc_shard C))"

lemma sharded_owned_update:
  "s < length (sc_shard C) \<Longrightarrow>
    sharded_owned (C\<lparr>sc_shard := (sc_shard C)[s := c]\<rparr>) + owned (sc_shard C ! s) = sharded_owned C + owned c"
proof -
  have "i < length xs \<Longrightarrow> sum_list (map owned (xs[i := c])) + owned (xs ! i) = sum_list (map owned xs) + owned c" for i xs
  proof (induction xs arbitrary: i)
    case (Cons x xs)
    then show ?case by (cases i) (simp_all add: ac_simps)
  qed simp
  then show "s < length (sc_shard C) \<Longrightarrow> ?thesis" by (simp add: sharded_owned_def)
qed

lemma sharded_update:
  assumes C: "sharded_ok C m H" and s: "s < kNumShards" and c: "shard_ok s c m' (handles_of s H')"
    and m: "\<And>k. Shard (HashSlice k) \<noteq> s \<Longrightarrow> m' k = m k" and H: "\<And>t. t \<noteq> s \<Longrightarrow> handles_of t H' = handles_of t H"
    and le: "\<And>x. x \<in># H' \<Longrightarrow> x \<in># H \<or> fst (fst x) = s"
  shows "sharded_ok (C\<lparr>sc_shard := (sc_shard C)[s := c]\<rparr>) m' H'"
proof -
  have len: "length (sc_shard C) = kNumShards" and ok: "\<And>t. t < kNumShards \<Longrightarrow> shard_ok t (sc_shard C ! t) m (handles_of t H)"
    and less: "\<And>x. x \<in># H \<Longrightarrow> fst (fst x) < kNumShards"
    using C by (simp_all add: sharded_ok_def)
  have "shard_ok t ((sc_shard C)[s := c] ! t) m' (handles_of t H')" if t: "t < kNumShards" for t
  proof (cases "t = s")
    case True
    then show ?thesis using c len s by simp
  next
    case False
    have "shard_ok t (sc_shard C ! t) m' (handles_of t H)" by (rule shard_ok_cong [OF ok [OF t]]) (use m False in simp)
    then show ?thesis using False H by simp
  qed
  moreover have "fst (fst x) < kNumShards" if "x \<in># H'" for x using le [OF that] less [of x] s by metis
  ultimately show ?thesis using len by (simp add: sharded_ok_def)
qed

lemma sharded_shard:
  "sharded_ok C m H \<Longrightarrow> shard_ok (Shard hash) (sc_shard C ! Shard hash) m (handles_of (Shard hash) H) \<and> Shard hash < length (sc_shard C)"
  using Shard_less [of hash] by (simp add: sharded_ok_def)

lemma sharded_Insert_ok:
  assumes C: "sharded_ok C m H"
  shows "\<exists>h C'. sharded_Insert key v charge C = Some (h, C') \<and> sharded_ok C' (m(key \<mapsto> v)) (add_mset (h, v) H) \<and>
    sharded_owned C' = add_mset (key, v) (sharded_owned C) \<and> (\<exists>C''. sharded_Lookup key C' = Some (Some h, C'')) \<and>
    (let c = sc_shard C' ! Shard (HashSlice key) in (lc_usage c \<le> lc_capacity c \<or> lc_next c LruHead = Some LruHead) \<and>
       lc_capacity c = lc_capacity (sc_shard C ! Shard (HashSlice key))) \<and>
    fst h = Shard (HashSlice key) \<and> (\<exists>n. sharded_node C' h = Some n \<and> lh_in_cache n \<and> lh_charge n = word_of_nat charge)"
proof -
  let ?s = "Shard (HashSlice key)"
  let ?c = "sc_shard C ! ?s"
  note sh = sharded_shard [OF C, of "HashSlice key"]
  from shard_Insert [OF conjunct1 [OF sh] refl, of v "word_of_nat charge"] obtain e c' c'' where
    c': "lru_Insert ?c key (HashSlice key) v (word_of_nat charge) = Some (e, c')" "owned c' = add_mset (key, v) (owned ?c)"
      "shard_ok ?s c' (m(key \<mapsto> v)) (add_mset (e, v) (handles_of ?s H))" "lc_usage c' \<le> lc_capacity c' \<or> lc_next c' LruHead = Some LruHead"
      "lru_Lookup c' key (HashSlice key) = Some (Some e, c'')" "lc_capacity c' = lc_capacity ?c"
      "\<exists>n. lc_nodes c' e = Some n \<and> lh_in_cache n \<and> lh_charge n = word_of_nat charge" by blast
  let ?C = "C\<lparr>sc_shard := (sc_shard C)[?s := c']\<rparr>"
  have "sharded_ok ?C (m(key \<mapsto> v)) (add_mset ((?s, e), v) H)"
    by (rule sharded_update [OF C Shard_less]) (use c'(3) in auto)
  moreover have "sharded_owned ?C + owned ?c = add_mset (key, v) (sharded_owned C) + owned ?c"
    using sharded_owned_update [OF conjunct2 [OF sh], of c'] c'(2) by simp
  then have "sharded_owned ?C = add_mset (key, v) (sharded_owned C)" by (rule add_right_imp_eq)
  moreover have "sharded_Lookup key ?C = Some (Some (?s, e), ?C\<lparr>sc_shard := (sc_shard ?C)[?s := c'']\<rparr>)"
    using c'(5) sh by (simp add: sharded_Lookup_def Let_def)
  ultimately show ?thesis using c'(1,4,6,7) sh
    by (intro exI [of _ "(?s, e)"] exI [of _ ?C]) (auto simp: sharded_Insert_def sharded_node_def Let_def)
qed

text \<open>The entries that a shard has, and their charges: what its counter says, when the sum fits in 64 bits.\<close>

definition cached :: "'v LRUCache \<Rightarrow> nat set" where
  "cached c = {e. \<exists>h. lc_nodes c e = Some h \<and> lh_in_cache h}"

definition total_charge :: "'v LRUCache \<Rightarrow> nat" where
  "total_charge c = (\<Sum>e \<in> cached c. unat (lh_charge (the (lc_nodes c e))))"

lemma shard_charges:
  assumes "shard_ok s c m H"
  shows "lc_usage c = word_of_nat (total_charge c)"
    and "lc_next c LruHead = Some LruHead \<Longrightarrow> e \<in> cached c \<Longrightarrow> \<exists>v. (e, v) \<in># H"
proof -
  obtain L U where i: "consistent c L U (image_mset fst H)" using assms by (rule shard_okE)
  have S: "cached c = set (L @ U)"
  proof (intro set_eqI iffI)
    fix x assume "x \<in> cached c"
    then obtain h where h: "lc_nodes c x = Some h" "lh_in_cache h" by (auto simp: cached_def)
    then show "x \<in> set (L @ U)" using lru_invD [OF i h(1)] by (simp add: node_ok_def)
  next
    fix x assume x: "x \<in> set (L @ U)"
    then have "lc_nodes c x \<noteq> None" using i unfolding lru_inv_def by blast
    then obtain h where h: "lc_nodes c x = Some h" by blast
    then show "x \<in> cached c" using lru_invD [OF i h] x by (simp add: node_ok_def cached_def)
  qed
  have "lc_usage c = (\<Sum>e \<in> set (L @ U). charge_of c e)" using i unfolding lru_inv_def by blast
  then show "lc_usage c = word_of_nat (total_charge c)" by (simp add: total_charge_def S charge_of_def)
  show "\<exists>v. (e, v) \<in># H" if "lc_next c LruHead = Some LruHead" "e \<in> cached c"
  proof -
    have "L = []" using i that(1) by (cases L) (auto simp: lru_inv_def rings_def ring_def)
    then have "e \<in># image_mset fst H" using i that(2) unfolding lru_inv_def S by auto
    then show ?thesis by auto
  qed
qed

lemma sharded_owned_same:
  assumes "s < length (sc_shard C)" and "owned c = owned (sc_shard C ! s)"
  shows "sharded_owned (C\<lparr>sc_shard := (sc_shard C)[s := c]\<rparr>) = sharded_owned C"
  using sharded_owned_update [OF assms(1), of c] assms(2) by simp

lemma sharded_Value_ok:
  assumes C: "sharded_ok C m H" and x: "(h, v) \<in># H"
  shows "\<exists>k. sharded_node C h \<noteq> None \<and> lh_hash (the (sharded_node C h)) = HashSlice k \<and> Shard (HashSlice k) = fst h \<and> sharded_Value h C = Some v"
proof -
  let ?s = "fst h"
  have "?s < kNumShards" using C x unfolding sharded_ok_def by force
  then have "shard_ok ?s (sc_shard C ! ?s) m (handles_of ?s H)" using C by (simp add: sharded_ok_def)
  moreover have "(snd h, v) \<in># handles_of ?s H" using x by (force simp: handles_of_def)
  ultimately obtain k where "entry_is (sc_shard C ! ?s) (snd h) k v" "Shard (HashSlice k) = ?s"
    unfolding shard_ok_def holds_def by (metis fst_conv snd_conv)
  with entry_is_node [OF this(1)] show ?thesis by (auto simp: sharded_node_def sharded_Value_def)
qed

lemma sharded_Lookup_ok:
  assumes C: "sharded_ok C m H"
  shows "\<exists>r C'. sharded_Lookup key C = Some (r, C') \<and> sharded_owned C' = sharded_owned C \<and>
    (case r of None \<Rightarrow> sharded_ok C' m H | Some h \<Rightarrow> \<exists>v. m key = Some v \<and> sharded_ok C' m (add_mset (h, v) H))"
proof -
  let ?s = "Shard (HashSlice key)"
  let ?c = "sc_shard C ! ?s"
  note sh = sharded_shard [OF C, of "HashSlice key"]
  from shard_Lookup [OF conjunct1 [OF sh] refl] obtain r c' where
    c': "lru_Lookup ?c key (HashSlice key) = Some (r, c')" "owned c' = owned ?c" and
    r: "case r of None \<Rightarrow> shard_ok ?s c' m (handles_of ?s H)
     | Some e \<Rightarrow> \<exists>v. m key = Some v \<and> entry_is ?c e key v \<and> shard_ok ?s c' m (add_mset (e, v) (handles_of ?s H))" by blast
  let ?C = "C\<lparr>sc_shard := (sc_shard C)[?s := c']\<rparr>"
  have look: "sharded_Lookup key C = Some (map_option (Pair ?s) r, ?C)" using c'(1) by (simp add: sharded_Lookup_def Let_def)
  have own: "sharded_owned ?C = sharded_owned C" by (rule sharded_owned_same [OF conjunct2 [OF sh] c'(2)])
  show ?thesis
  proof (cases r)
    case None
    then have "sharded_ok ?C m H" by (intro sharded_update [OF C Shard_less]) (use r in auto)
    then show ?thesis using look own None by auto
  next
    case (Some e)
    then obtain v where v: "m key = Some v" "shard_ok ?s c' m (add_mset (e, v) (handles_of ?s H))" using r by auto
    have "sharded_ok ?C m (add_mset ((?s, e), v) H)" by (rule sharded_update [OF C Shard_less]) (use v(2) in auto)
    then show ?thesis using look own Some v(1) by auto
  qed
qed

lemma sharded_Release_ok:
  assumes C: "sharded_ok C m (add_mset (h, v) H)"
  shows "\<exists>C'. sharded_Release h C = Some C' \<and> sharded_owned C' = sharded_owned C \<and> sharded_ok C' m H"
proof -
  let ?s = "fst h"
  let ?c = "sc_shard C ! ?s"
  from sharded_Value_ok [OF C, of h v] obtain n where n: "sharded_node C h = Some n" "Shard (lh_hash n) = ?s" by auto
  have s: "?s < kNumShards" "length (sc_shard C) = kNumShards" using C by (simp_all add: sharded_ok_def)
  have "handles_of ?s (add_mset (h, v) H) = add_mset (snd h, v) (handles_of ?s H)" by (cases h) simp
  then have "shard_ok ?s ?c m (add_mset (snd h, v) (handles_of ?s H))" using C s(1) by (metis sharded_ok_def)
  from shard_Release [OF this] obtain c' where
    c': "lru_Release ?c (snd h) = Some c'" "owned c' = owned ?c" "shard_ok ?s c' m (handles_of ?s H)" by blast
  let ?C = "C\<lparr>sc_shard := (sc_shard C)[?s := c']\<rparr>"
  have "handles_of t H = handles_of t (add_mset (h, v) H)" if "t \<noteq> ?s" for t using that by (cases h) simp
  then have "sharded_ok ?C m H" by (intro sharded_update [OF C s(1) c'(3)]) auto
  moreover have "sharded_owned ?C = sharded_owned C" using sharded_owned_same [of ?s C c'] s c'(2) by simp
  moreover have "sharded_Release h C = Some ?C" using n c'(1) by (simp add: sharded_Release_def Let_def)
  ultimately show ?thesis by blast
qed

lemma sharded_Erase_ok:
  assumes C: "sharded_ok C m H"
  shows "\<exists>C'. sharded_Erase key C = Some C' \<and> sharded_owned C' = sharded_owned C \<and> sharded_ok C' (m(key := None)) H"
proof -
  let ?s = "Shard (HashSlice key)"
  let ?c = "sc_shard C ! ?s"
  note sh = sharded_shard [OF C, of "HashSlice key"]
  from shard_Erase [OF conjunct1 [OF sh], of key] obtain c' where
    c': "lru_Erase ?c key (HashSlice key) = Some c'" "owned c' = owned ?c" "shard_ok ?s c' (m(key := None)) (handles_of ?s H)" by blast
  have "sharded_ok (C\<lparr>sc_shard := (sc_shard C)[?s := c']\<rparr>) (m(key := None)) H"
    by (rule sharded_update [OF C Shard_less c'(3)]) auto
  then show ?thesis using c'(1) sharded_owned_same [OF conjunct2 [OF sh] c'(2)] by (simp add: sharded_Erase_def Let_def)
qed

lemma prune_shards_ok:
  "(\<And>i. i < length cs \<Longrightarrow> shard_ok (f i) (cs ! i) m (h i)) \<Longrightarrow>
    \<exists>cs'. prune_shards cs = Some cs' \<and> length cs' = length cs \<and> map owned cs' = map owned cs \<and>
      (\<forall>i < length cs. shard_ok (f i) (cs' ! i) m (h i) \<and> lc_next (cs' ! i) LruHead = Some LruHead)"
proof (induction cs arbitrary: f h)
  case (Cons c cs)
  from shard_Prune [of "f 0" c m "h 0"] Cons.prems [of 0] obtain c' where
    c': "lru_Prune c = Some c'" "owned c' = owned c" "shard_ok (f 0) c' m (h 0)" "lc_next c' LruHead = Some LruHead" by auto
  from Cons.IH [of "\<lambda>i. f (Suc i)" "\<lambda>i. h (Suc i)"] Cons.prems [of "Suc _"] obtain cs' where
    cs': "prune_shards cs = Some cs'" "length cs' = length cs" "map owned cs' = map owned cs"
      "\<forall>i < length cs. shard_ok (f (Suc i)) (cs' ! i) m (h (Suc i)) \<and> lc_next (cs' ! i) LruHead = Some LruHead" by auto
  then show ?case using c' by (intro exI [of _ "c' # cs'"]) (auto simp: less_Suc_eq_0_disj)
qed simp

lemma sharded_Prune_ok:
  assumes C: "sharded_ok C m H"
  shows "\<exists>C'. sharded_Prune C = Some C' \<and> sharded_owned C' = sharded_owned C \<and> sharded_ok C' m H \<and>
    (\<forall>c \<in> set (sc_shard C'). lc_next c LruHead = Some LruHead)"
proof -
  from prune_shards_ok [of "sc_shard C" "\<lambda>i. i" m "\<lambda>i. handles_of i H"] C obtain cs where
    cs: "prune_shards (sc_shard C) = Some cs" "length cs = kNumShards" "map owned cs = map owned (sc_shard C)"
      "\<forall>i < kNumShards. shard_ok i (cs ! i) m (handles_of i H) \<and> lc_next (cs ! i) LruHead = Some LruHead"
    by (auto simp: sharded_ok_def)
  then show ?thesis using C
    by (intro exI [of _ "C\<lparr>sc_shard := cs\<rparr>"]) (auto simp: sharded_Prune_def sharded_owned_def sharded_ok_def in_set_conv_nth)
qed

lemma NewLRUCache_ok:
  assumes "0 < capacity" and "unat capacity + 15 < 2 ^ 64"
  shows "sharded_ok (NewLRUCache capacity :: 'a ShardedLRUCache) m {#}"
    and "sharded_owned (NewLRUCache capacity :: 'a ShardedLRUCache) = {#}"
proof -
  have pos: "0 < unat capacity" using assms(1) by (simp add: word_less_nat_alt)
  have "unat (capacity + 15) = unat capacity + 15" using assms(2) by (simp add: unat_word_ariths)
  then have "unat ((capacity + 15) div 16) = (unat capacity + 15) div 16" by (simp add: unat_div)
  also have "\<dots> > 0" using pos by (simp add: div_greater_zero_iff)
  finally have "0 < (capacity + 15) div 16" by (simp add: word_less_nat_alt)
  then have "shard_ok s (make_LRUCache ((capacity + 15) div 16) :: 'a LRUCache) m {#}" for s by (rule shard_new)
  then show "sharded_ok (NewLRUCache capacity :: 'a ShardedLRUCache) m {#}"
    by (simp add: sharded_ok_def NewLRUCache_def kNumShards_def kNumShardBits_def)
  have "sum_list (replicate n ({#} :: (slice \<times> 'a) multiset)) = {#}" for n by (induction n) simp_all
  then show "sharded_owned (NewLRUCache capacity :: 'a ShardedLRUCache) = {#}"
    by (simp add: sharded_owned_def NewLRUCache_def make_LRUCache_owned)
qed

interpretation lru: cache lru_cache sharded_ok
proof (unfold_locales, unfold lru_cache_def Cache.simps)
  show "\<exists>h c'. sharded_Insert key v charge c = Some (h, c') \<and> sharded_ok c' (m(key \<mapsto> v)) (add_mset (h, v) H)"
    if "sharded_ok c m H" for c :: "'a ShardedLRUCache" and m H key v charge
    using sharded_Insert_ok [OF that] by blast
  show "\<exists>r c'. sharded_Lookup key c = Some (r, c') \<and>
      (case r of None \<Rightarrow> sharded_ok c' m H | Some h \<Rightarrow> \<exists>v. m key = Some v \<and> sharded_ok c' m (add_mset (h, v) H))"
    if "sharded_ok c m H" for c :: "'a ShardedLRUCache" and m H key
    using sharded_Lookup_ok [OF that] by blast
  show "\<exists>c'. sharded_Release h c = Some c' \<and> sharded_ok c' m H"
    if "sharded_ok c m (add_mset (h, v) H)" for c :: "'a ShardedLRUCache" and m h v H
    using sharded_Release_ok [OF that] by blast
  show "sharded_Value h c = Some v" if "sharded_ok c m (add_mset (h, v) H)" for c :: "'a ShardedLRUCache" and m h v H
    using sharded_Value_ok [OF that, of h v] by auto
  show "\<exists>c'. sharded_Erase key c = Some c' \<and> sharded_ok c' (m(key := None)) H"
    if "sharded_ok c m H" for c :: "'a ShardedLRUCache" and m H key
    using sharded_Erase_ok [OF that] by blast
  show "sharded_ok (snd (sharded_NewId c)) m H" if "sharded_ok c m H" for c :: "'a ShardedLRUCache" and m H
    using that by (simp add: sharded_NewId_def Let_def sharded_ok_def)
  show "\<exists>c'. sharded_Prune c = Some c' \<and> sharded_ok c' m H" if "sharded_ok c m H" for c :: "'a ShardedLRUCache" and m H
    using sharded_Prune_ok [OF that] by blast
qed

end
