(* ===== verification/LdbTableFormat.thy ===== *)
theory LdbTableFormat
  imports LdbBlock LdbCrcProps
begin

text \<open>
  The parts of a table file (\<open>table/format.h\<close>, \<open>table/format.cc\<close>): the handles of blocks, the footer, and
  the reading of a block with its trailer. The file is one of the environment, so its \<open>Read\<close> is a parameter.
  Snappy is not compiled in: \<open>port/port_posix.h\<close> has functions that fail.
\<close>

section \<open>Handles\<close>

record BlockHandle =
  bh_offset :: u64
  bh_size :: u64

definition make_BlockHandle :: BlockHandle where
  "make_BlockHandle = \<lparr>bh_offset = NOT 0, bh_size = NOT 0\<rparr>"

definition kMaxEncodedLength :: nat where
  "kMaxEncodedLength = 10 + 10"

text \<open>The functions assert that the fields have been set.\<close>

definition HandleEncodeTo :: "BlockHandle \<Rightarrow> byte list \<Rightarrow> byte list option" where
  "HandleEncodeTo h dst =
     (if bh_offset h = NOT 0 \<or> bh_size h = NOT 0 then None
      else Some (PutVarint64 (PutVarint64 dst (bh_offset h)) (bh_size h)))"

definition HandleDecodeFrom :: "BlockHandle \<Rightarrow> slice \<Rightarrow> Status \<times> BlockHandle \<times> slice" where
  "HandleDecodeFrom h input =
     (case GetVarint64 input of
        (None, input) \<Rightarrow> (Corruption (bytes_of ''bad block handle'') [], h, input)
      | (Some off, input) \<Rightarrow>
          let h = h\<lparr>bh_offset := off\<rparr> in
          (case GetVarint64 input of
             (None, input) \<Rightarrow> (Corruption (bytes_of ''bad block handle'') [], h, input)
           | (Some n, input) \<Rightarrow> (OK, h\<lparr>bh_size := n\<rparr>, input)))"

section \<open>The footer\<close>

record Footer =
  metaindex_handle :: BlockHandle
  index_handle :: BlockHandle

definition make_Footer :: Footer where
  "make_Footer = \<lparr>metaindex_handle = make_BlockHandle, index_handle = make_BlockHandle\<rparr>"

definition kEncodedLength :: nat where
  "kEncodedLength = 2 * kMaxEncodedLength + 8"

definition kTableMagicNumber :: u64 where
  "kTableMagicNumber = 0xdb4775248b80fb57"

definition resize :: "nat \<Rightarrow> byte list \<Rightarrow> byte list" where
  "resize n xs = take n xs @ replicate (n - length xs) 0"

text \<open>The padding is up to a length of the whole of \<open>dst\<close>, so that an assertion fails unless \<open>dst\<close> was empty.\<close>

definition FooterEncodeTo :: "Footer \<Rightarrow> byte list \<Rightarrow> byte list option" where
  "FooterEncodeTo f dst = do {
     d \<leftarrow> HandleEncodeTo (metaindex_handle f) dst;
     d \<leftarrow> HandleEncodeTo (index_handle f) d;
     let d = resize (2 * kMaxEncodedLength) d;
     let d = PutFixed32 d (ucast (kTableMagicNumber AND 0xffffffff));
     let d = PutFixed32 d (ucast (drop_bit 32 kTableMagicNumber));
     if length d \<noteq> length dst + kEncodedLength then None else Some d
   }"

text \<open>An input that is shorter than a footer is read out of its bounds.\<close>

definition FooterDecodeFrom :: "Footer \<Rightarrow> slice \<Rightarrow> (Status \<times> Footer \<times> slice) option" where
  "FooterDecodeFrom f input =
     (if length input < kEncodedLength then None
      else
        let magic_ptr = drop (kEncodedLength - 8) input;
            magic_lo = DecodeFixed32 magic_ptr;
            magic_hi = DecodeFixed32 (drop 4 magic_ptr);
            magic = push_bit 32 (ucast magic_hi) OR ucast magic_lo
        in if magic \<noteq> kTableMagicNumber then Some (Corruption (bytes_of ''not an sstable (bad magic number)'') [], f, input)
           else
             let (s, h, inp) = HandleDecodeFrom (metaindex_handle f) input;
                 f = f\<lparr>metaindex_handle := h\<rparr>
             in if \<not> ok s then Some (s, f, inp)
                else
                  let (s, h, inp) = HandleDecodeFrom (index_handle f) inp;
                      f = f\<lparr>index_handle := h\<rparr>
                  in if \<not> ok s then Some (s, f, inp) else Some (OK, f, drop kEncodedLength input))"

section \<open>Reading a block\<close>

text \<open>
  What \<open>Read\<close> of a \<open>RandomAccessFile\<close> gives: its status, the bytes, and whether they are in the caller's
  buffer, as opposed to memory of the file.
\<close>

type_synonym RandomAccessFile = "u64 \<Rightarrow> u64 \<Rightarrow> Status \<times> slice \<times> bool"

definition kBlockTrailerSize :: nat where
  "kBlockTrailerSize = 5"

record BlockContents =
  bc_data :: slice
  bc_cachable :: bool
  bc_heap_allocated :: bool

definition no_contents :: BlockContents where
  "no_contents = \<lparr>bc_data = [], bc_cachable = False, bc_heap_allocated = False\<rparr>"

abbreviation (input) kNoCompression :: nat where "kNoCompression \<equiv> 0"
abbreviation (input) kSnappyCompression :: nat where "kSnappyCompression \<equiv> 1"

definition Snappy_Compress :: "slice \<Rightarrow> byte list option" where
  "Snappy_Compress input = None"

definition Snappy_GetUncompressedLength :: "slice \<Rightarrow> nat option" where
  "Snappy_GetUncompressedLength input = None"

definition Snappy_Uncompress :: "slice \<Rightarrow> byte list option" where
  "Snappy_Uncompress input = None"

text \<open>
  The sizes are those of 64-bit numbers: with a handle whose size is close to \<open>2 ^ 64\<close> the sum of the
  size and the trailer wraps, and the bytes are read far behind the contents, which is \<open>None\<close>.
\<close>

definition ReadBlock :: "RandomAccessFile \<Rightarrow> bool \<Rightarrow> BlockHandle \<Rightarrow> (Status \<times> BlockContents) option" where
  "ReadBlock file verify_checksums handle =
     (let n = unat (bh_size handle);
          total = bh_size handle + word_of_nat kBlockTrailerSize;
          (s, contents, in_buf) = file (bh_offset handle) total
      in if \<not> ok s then Some (s, no_contents)
         else if word_of_nat (length contents) \<noteq> total then Some (Corruption (bytes_of ''truncated block read'') [], no_contents)
         else if length contents < n + kBlockTrailerSize then None
         else if verify_checksums \<and> Value (take (n + 1) contents) \<noteq> Unmask (DecodeFixed32 (drop (n + 1) contents))
         then Some (Corruption (bytes_of ''block checksum mismatch'') [], no_contents)
         else if unat (contents ! n) = kNoCompression
         then Some (OK, \<lparr>bc_data = take n contents, bc_cachable = in_buf, bc_heap_allocated = in_buf\<rparr>)
         else if unat (contents ! n) = kSnappyCompression
         then (case Snappy_GetUncompressedLength (take n contents) of
                 None \<Rightarrow> Some (Corruption (bytes_of ''corrupted compressed block contents'') [], no_contents)
               | Some ulength \<Rightarrow>
                   (case Snappy_Uncompress (take n contents) of
                      None \<Rightarrow> Some (Corruption (bytes_of ''corrupted compressed block contents'') [], no_contents)
                    | Some ubuf \<Rightarrow> Some (OK, \<lparr>bc_data = take ulength ubuf, bc_cachable = True, bc_heap_allocated = True\<rparr>)))
         else Some (Corruption (bytes_of ''bad block type'') [], no_contents))"

section \<open>Round trips\<close>

definition handle_set :: "BlockHandle \<Rightarrow> bool" where
  "handle_set h \<longleftrightarrow> bh_offset h \<noteq> NOT 0 \<and> bh_size h \<noteq> NOT 0"

definition handle_bytes :: "BlockHandle \<Rightarrow> byte list" where
  "handle_bytes h = EncodeVarint64 (bh_offset h) @ EncodeVarint64 (bh_size h)"

lemma HandleEncodeTo_set: "handle_set h \<Longrightarrow> HandleEncodeTo h dst = Some (dst @ handle_bytes h)"
  by (simp add: handle_set_def HandleEncodeTo_def PutVarint64_def handle_bytes_def)

lemma HandleDecodeFrom_bytes: "HandleDecodeFrom h0 (handle_bytes h @ rest) = (OK, h, rest)"
  by (simp add: HandleDecodeFrom_def handle_bytes_def GetVarint64_Encode)

lemma length_EncodeVarint64_le: "length (EncodeVarint64 v) \<le> 10"
proof -
  have "unat v < 2 ^ LENGTH(64)" by (rule unsigned_less)
  also have "(2 :: nat) ^ LENGTH(64) \<le> 128 ^ Suc 9" by simp
  finally have "length (EncodeVarint64 v) \<le> Suc 9" unfolding EncodeVarint64_bytes by (rule length_varint_bytes)
  then show ?thesis by simp
qed

lemma length_handle_bytes: "length (handle_bytes h) \<le> kMaxEncodedLength"
  using length_EncodeVarint64_le [of "bh_offset h"] length_EncodeVarint64_le [of "bh_size h"]
  by (simp add: handle_bytes_def kMaxEncodedLength_def)

definition magic_bytes :: "byte list" where
  "magic_bytes = EncodeFixed32 (ucast (kTableMagicNumber AND 0xffffffff)) @ EncodeFixed32 (ucast (drop_bit 32 kTableMagicNumber))"

definition footer_bytes :: "Footer \<Rightarrow> byte list" where
  "footer_bytes f =
     resize (2 * kMaxEncodedLength) (handle_bytes (metaindex_handle f) @ handle_bytes (index_handle f)) @ magic_bytes"

lemma length_resize [simp]: "length (resize n xs) = n"
  by (auto simp: resize_def)

lemma resize_short: "length xs \<le> n \<Longrightarrow> \<exists>pad. resize n xs = xs @ pad"
  by (simp add: resize_def)

lemma length_footer_bytes: "length (footer_bytes f) = kEncodedLength"
  by (simp add: footer_bytes_def magic_bytes_def kEncodedLength_def)

lemma FooterEncodeTo_set:
  "handle_set (metaindex_handle f) \<Longrightarrow> handle_set (index_handle f) \<Longrightarrow> FooterEncodeTo f [] = Some (footer_bytes f)"
  using length_footer_bytes [of f]
  by (simp add: FooterEncodeTo_def HandleEncodeTo_set PutFixed32_def Let_def footer_bytes_def magic_bytes_def)

lemma magic_read:
  "DecodeFixed32 (magic_bytes @ rest) = 0x8b80fb57" "DecodeFixed32 (drop 4 (magic_bytes @ rest)) = 0xdb477524"
proof -
  have w: "(ucast (kTableMagicNumber AND 0xffffffff) :: u32) = 0x8b80fb57" "(ucast (drop_bit 32 kTableMagicNumber) :: u32) = 0xdb477524"
    by code_simp+
  then show "DecodeFixed32 (magic_bytes @ rest) = 0x8b80fb57" "DecodeFixed32 (drop 4 (magic_bytes @ rest)) = 0xdb477524"
    by (simp_all add: magic_bytes_def DecodeFixed32_Encode)
qed

lemma FooterDecodeFrom_bytes: "FooterDecodeFrom f0 (footer_bytes f @ rest) = Some (OK, f, rest)"
proof -
  let ?h = "handle_bytes (metaindex_handle f) @ handle_bytes (index_handle f)"
  have "length ?h \<le> 2 * kMaxEncodedLength"
    using length_handle_bytes [of "metaindex_handle f"] length_handle_bytes [of "index_handle f"] by simp
  then obtain pad where pad: "resize (2 * kMaxEncodedLength) ?h = ?h @ pad" using resize_short by blast
  have lenr: "length (resize (2 * kMaxEncodedLength) ?h) = kEncodedLength - 8" by (simp add: kEncodedLength_def)
  have all: "footer_bytes f @ rest = resize (2 * kMaxEncodedLength) ?h @ magic_bytes @ rest" by (simp add: footer_bytes_def)
  have magic: "drop (kEncodedLength - 8) (footer_bytes f @ rest) = magic_bytes @ rest"
    unfolding all using lenr by simp
  have m: "(push_bit 32 (ucast (0xdb477524 :: u32)) OR ucast (0x8b80fb57 :: u32) :: u64) = kTableMagicNumber" by code_simp
  have hs: "footer_bytes f @ rest = handle_bytes (metaindex_handle f) @ handle_bytes (index_handle f) @ pad @ magic_bytes @ rest"
    unfolding all pad by simp
  have len: "\<not> length (footer_bytes f @ rest) < kEncodedLength" by (simp add: length_footer_bytes)
  have end': "drop kEncodedLength (footer_bytes f @ rest) = rest" by (simp add: length_footer_bytes)
  have dec: "HandleDecodeFrom h0 (footer_bytes f @ rest) = (OK, metaindex_handle f, handle_bytes (index_handle f) @ pad @ magic_bytes @ rest)" for h0
    unfolding hs by (rule HandleDecodeFrom_bytes)
  show ?thesis
    unfolding FooterDecodeFrom_def if_not_P [OF len] Let_def magic magic_read m dec end'
    by (simp add: HandleDecodeFrom_bytes)
qed

section \<open>Blocks in a file\<close>

text \<open>What is stored of a block with its type: the trailer holds the type and the masked checksum of both.\<close>

definition stored_block :: "slice \<Rightarrow> byte \<Rightarrow> byte list" where
  "stored_block data t = data @ t # EncodeFixed32 (Mask (Value (data @ [t])))"

text \<open>A file that keeps what is written.\<close>

definition mem_file :: "byte list \<Rightarrow> RandomAccessFile" where
  "mem_file bytes = (\<lambda>off n. (OK, take (unat n) (drop (unat off) bytes), True))"

lemma length_stored_block [simp]: "length (stored_block data t) = length data + kBlockTrailerSize"
  by (simp add: stored_block_def kBlockTrailerSize_def)

lemma total_size:
  assumes "length data + kBlockTrailerSize < 2 ^ 64"
  shows "unat (word_of_nat (length data) + word_of_nat kBlockTrailerSize :: u64) = length data + kBlockTrailerSize"
proof -
  have "(word_of_nat (length data) + word_of_nat kBlockTrailerSize :: u64) = word_of_nat (length data + kBlockTrailerSize)" by simp
  then show ?thesis using unat_u64 [OF assms] by (simp only:)
qed

lemma ReadBlock_file:
  assumes "\<And>n. n = length c \<Longrightarrow> file (bh_offset h) (word_of_nat n) = (OK, c, b)"
    and "bh_size h = word_of_nat n" and "length c = n + kBlockTrailerSize" and "n + kBlockTrailerSize < 2 ^ 64"
  shows "ReadBlock file v h =
    (if v \<and> Value (take (Suc n) c) \<noteq> Unmask (DecodeFixed32 (drop (Suc n) c))
     then Some (Corruption (bytes_of ''block checksum mismatch'') [], no_contents)
     else if c ! n = 0 then Some (OK, \<lparr>bc_data = take n c, bc_cachable = b, bc_heap_allocated = b\<rparr>)
     else if c ! n = 1 then Some (Corruption (bytes_of ''corrupted compressed block contents'') [], no_contents)
     else Some (Corruption (bytes_of ''bad block type'') [], no_contents))"
proof -
  have n: "unat (bh_size h) = n" using assms(2,4) unat_u64 [of n] by simp
  have total: "bh_size h + word_of_nat kBlockTrailerSize = word_of_nat (length c)" using assms(2,3) by simp
  have "unat (c ! n) = 0 \<longleftrightarrow> c ! n = 0" "unat (c ! n) = 1 \<longleftrightarrow> c ! n = 1"
    by (simp_all add: word_unat_eq_iff)
  then show ?thesis
    unfolding ReadBlock_def Let_def n total assms(1) [OF refl] Suc_eq_plus1 using assms(3)
    by (simp add: Snappy_GetUncompressedLength_def del: One_nat_def)
qed

lemma mem_file_read:
  assumes "length pre < 2 ^ 64" and "length c < 2 ^ 64"
  shows "mem_file (pre @ c @ post) (word_of_nat (length pre)) (word_of_nat (length c)) = (OK, c, True)"
  by (simp add: mem_file_def unat_u64 [OF assms(1)] unat_u64 [OF assms(2)])

lemma ReadBlock_stored:
  assumes "length (pre @ stored_block data 0 @ post) < 2 ^ 64"
  shows "ReadBlock (mem_file (pre @ stored_block data 0 @ post)) v
      \<lparr>bh_offset = word_of_nat (length pre), bh_size = word_of_nat (length data)\<rparr>
    = Some (OK, \<lparr>bc_data = data, bc_cachable = True, bc_heap_allocated = True\<rparr>)"
proof -
  let ?c = "stored_block data 0"
  have "mem_file (pre @ ?c @ post) (word_of_nat (length pre)) (word_of_nat (length ?c)) = (OK, ?c, True)"
    by (rule mem_file_read) (use assms in simp_all)
  note read = ReadBlock_file [where c = ?c and n = "length data" and b = True and v = v]
  have cut: "take (Suc (length data)) ?c = data @ [0]" "drop (Suc (length data)) ?c = EncodeFixed32 (Mask (Value (data @ [0])))"
    by (simp_all add: stored_block_def)
  have "DecodeFixed32 (EncodeFixed32 (Mask (Value (data @ [0])))) = Mask (Value (data @ [0]))"
    using DecodeFixed32_Encode [of _ "[]"] by simp
  then have crc: "Value (take (Suc (length data)) ?c) = Unmask (DecodeFixed32 (drop (Suc (length data)) ?c))"
    unfolding cut by (simp add: Unmask_Mask)
  have at: "?c ! length data = 0" "take (length data) ?c = data" by (simp_all add: stored_block_def)
  show ?thesis
    by (subst read) (use assms \<open>mem_file _ _ _ = _\<close> in \<open>simp_all add: crc at del: of_nat_add\<close>)
qed

section \<open>Properties\<close>

text \<open>
  The footer is read back, whatever follows it in the input: both handles and the position behind the footer; and a
  block that is stored anywhere in a file with its trailer is read back through its handle, with and without the check
  of the checksum.
\<close>

theorem footer_and_block_roundtrip:
  assumes "handle_set (metaindex_handle f)" and "handle_set (index_handle f)"
    and "length (pre @ stored_block data 0 @ post) < 2 ^ 64"
  shows "(\<exists>b. FooterEncodeTo f [] = Some b \<and> length b = kEncodedLength \<and> FooterDecodeFrom f0 (b @ rest) = Some (OK, f, rest)) \<and>
    ReadBlock (mem_file (pre @ stored_block data 0 @ post)) verify
      \<lparr>bh_offset = word_of_nat (length pre), bh_size = word_of_nat (length data)\<rparr>
    = Some (OK, \<lparr>bc_data = data, bc_cachable = True, bc_heap_allocated = True\<rparr>)"
  using FooterEncodeTo_set [OF assms(1,2)] FooterDecodeFrom_bytes length_footer_bytes ReadBlock_stored [OF assms(3)] by simp

theorem footer_and_block_roundtrip_witness:
  "ReadBlock (mem_file ([9] @ stored_block [1, 2, 3] 0 @ [7])) True \<lparr>bh_offset = 1, bh_size = 3\<rparr>
    = Some (OK, \<lparr>bc_data = [1, 2, 3], bc_cachable = True, bc_heap_allocated = True\<rparr>)"
proof -
  let ?h = "\<lparr>bh_offset = 0, bh_size = 0\<rparr> :: BlockHandle"
  have "length ([9] @ stored_block [1, 2, 3] 0 @ [7]) < 2 ^ 64" by (simp add: kBlockTrailerSize_def)
  from footer_and_block_roundtrip [of "\<lparr>metaindex_handle = ?h, index_handle = ?h\<rparr>", OF _ _ this] show ?thesis
    by (simp add: handle_set_def)
qed

text \<open>
  What is not stored whole is not returned: if up to four consecutive bytes of a block and its type are
  changed, reading it with the check reports a mismatch; and if the file ends within the block or its trailer,
  reading it reports a truncation. But a handle of a damaged index whose size is \<open>2 ^ 64 - 1\<close> passes the check of
  the length, which adds the trailer modulo \<open>2 ^ 64\<close>, and the code reads in front of its buffer.
\<close>

theorem damaged_block_read:
  assumes "data @ [0] = p @ xs @ q" and "length ys = length xs" and "length xs \<le> 4" and "ys \<noteq> xs"
    and "length pre + length data + 5 < 2 ^ 64" and "k < length data + 5" and "length pre + 4 \<le> length f"
  shows "ReadBlock (mem_file (pre @ p @ ys @ q @ EncodeFixed32 (Mask (Value (data @ [0]))) @ post)) True
      \<lparr>bh_offset = word_of_nat (length pre), bh_size = word_of_nat (length data)\<rparr>
      = Some (Corruption (bytes_of ''block checksum mismatch'') [], no_contents) \<and>
    ReadBlock (mem_file (pre @ take k (stored_block data 0))) verify
      \<lparr>bh_offset = word_of_nat (length pre), bh_size = word_of_nat (length data)\<rparr>
      = Some (Corruption (bytes_of ''truncated block read'') [], no_contents) \<and>
    ReadBlock (mem_file f) verify \<lparr>bh_offset = word_of_nat (length pre), bh_size = - 1\<rparr> = None"
proof (intro conjI)
  have unat_pre: "unat (word_of_nat (length pre) :: u64) = length pre" using assms(5) by (intro unat_u64) simp
  have lenpq: "length (p @ ys @ q) = Suc (length data)" using arg_cong [OF assms(1), of length] assms(2) by simp
  show "ReadBlock (mem_file (pre @ p @ ys @ q @ EncodeFixed32 (Mask (Value (data @ [0]))) @ post)) True
      \<lparr>bh_offset = word_of_nat (length pre), bh_size = word_of_nat (length data)\<rparr>
      = Some (Corruption (bytes_of ''block checksum mismatch'') [], no_contents)"
  proof -
    let ?c = "p @ ys @ q @ EncodeFixed32 (Mask (Value (data @ [0])))"
    have len: "length ?c = length data + kBlockTrailerSize" using lenpq by (simp add: kBlockTrailerSize_def)
    have "length pre < 2 ^ 64" "length ?c < 2 ^ 64" using assms(5) len by (simp_all add: kBlockTrailerSize_def)
    from mem_file_read [OF this, of post]
    have r: "mem_file (pre @ p @ ys @ q @ EncodeFixed32 (Mask (Value (data @ [0]))) @ post)
        (word_of_nat (length pre)) (word_of_nat (length ?c)) = (OK, ?c, True)" by simp
    have split: "?c = (p @ ys @ q) @ EncodeFixed32 (Mask (Value (data @ [0])))" by simp
    have cut: "take (Suc (length data)) ?c = p @ ys @ q" "drop (Suc (length data)) ?c = EncodeFixed32 (Mask (Value (data @ [0])))"
      unfolding split using lenpq by (simp_all del: append_assoc)
    have "Value (p @ ys @ q) \<noteq> Value (p @ xs @ q)" using Value_burst [of ys xs p q] assms(2-4) by simp
    moreover have "DecodeFixed32 (EncodeFixed32 (Mask (Value (data @ [0])))) = Mask (Value (data @ [0]))"
      using DecodeFixed32_Encode [of _ "[]"] by simp
    ultimately have bad: "Value (take (Suc (length data)) ?c) \<noteq> Unmask (DecodeFixed32 (drop (Suc (length data)) ?c))"
      unfolding cut by (simp add: Unmask_Mask assms(1))
    show ?thesis
      by (subst ReadBlock_file [where c = ?c and n = "length data" and b = True])
        (use assms(5) len r bad in \<open>simp_all add: kBlockTrailerSize_def del: of_nat_add\<close>)
  qed
  show "ReadBlock (mem_file (pre @ take k (stored_block data 0))) verify
      \<lparr>bh_offset = word_of_nat (length pre), bh_size = word_of_nat (length data)\<rparr>
      = Some (Corruption (bytes_of ''truncated block read'') [], no_contents)"
  proof -
    have small: "length data + kBlockTrailerSize < 2 ^ 64" using assms(5) by (simp add: kBlockTrailerSize_def)
    have k: "length (take k (stored_block data 0)) = k" "k < length data + kBlockTrailerSize"
      using assms(6) by (simp_all add: kBlockTrailerSize_def)
    have "mem_file (pre @ take k (stored_block data 0)) (word_of_nat (length pre)) (word_of_nat (length data) + word_of_nat kBlockTrailerSize)
        = (OK, take k (stored_block data 0), True)"
      using k by (simp add: mem_file_def unat_pre total_size [OF small])
    moreover have "(word_of_nat k :: u64) \<noteq> word_of_nat (length data) + word_of_nat kBlockTrailerSize"
    proof
      assume "(word_of_nat k :: u64) = word_of_nat (length data) + word_of_nat kBlockTrailerSize"
      then have "unat (word_of_nat k :: u64) = length data + kBlockTrailerSize" using total_size [OF small] by simp
      moreover have "unat (word_of_nat k :: u64) = k" using k(2) small by (intro unat_u64) simp
      ultimately show False using k(2) by simp
    qed
    ultimately show ?thesis by (simp add: ReadBlock_def Let_def k)
  qed
  show "ReadBlock (mem_file f) verify \<lparr>bh_offset = word_of_nat (length pre), bh_size = - 1\<rparr> = None"
  proof -
    have w: "(- 1 + word_of_nat kBlockTrailerSize :: u64) = 4" "unat (- 1 :: u64) = 2 ^ 64 - 1"
      by (simp_all add: kBlockTrailerSize_def unsigned_minus_1_eq_mask mask_eq_exp_minus_1)
    have c: "length (take 4 (drop (length pre) f)) = 4" using assms(7) by simp
    show ?thesis by (simp add: ReadBlock_def mem_file_def Let_def w unat_pre c kBlockTrailerSize_def del: length_take)
  qed
qed

theorem damaged_block_read_witness:
  "ReadBlock (mem_file (stored_block [1, 2] 0)) False \<lparr>bh_offset = 0, bh_size = - 1\<rparr> = None"
  using damaged_block_read [of "[1, 2]" "[]" "[1]" "[2, 0]" "[3]" "[]" 0 "stored_block [1, 2] 0" "[]" False]
  by (simp add: kBlockTrailerSize_def)

end
