(* ===== verification/LdbTableBuilder.thy ===== *)
theory LdbTableBuilder
  imports LdbTableFormat LdbFilterBlock LdbLog
begin

text \<open>
  The builder of tables (\<open>table/table_builder.cc\<close>): it cuts the added entries into blocks, writes each block
  behind the other, keeps an index entry for each, and ends the file with the filter block, the index of the
  meta blocks, the index block and the footer. The file is one of the environment, as for the log.
\<close>

section \<open>Options\<close>

text \<open>A comparator is an object, so that two of them can be compared by their addresses.\<close>

record Comparator =
  cmp_address :: nat
  cmp_Compare :: "slice \<Rightarrow> slice \<Rightarrow> int"
  cmp_FindShortestSeparator :: "slice \<Rightarrow> slice \<Rightarrow> slice"
  cmp_FindShortSuccessor :: "slice \<Rightarrow> slice"

text \<open>The options that tables use; a filter policy comes with its name.\<close>

record Options =
  opt_comparator :: Comparator
  opt_paranoid_checks :: bool
  opt_block_size :: nat
  opt_block_restart_interval :: nat
  opt_compression :: nat
  opt_filter_policy :: "(byte list \<times> FilterPolicy) option"

section \<open>The state\<close>

text \<open>The builder of the filter block keeps the policy it was made with, whatever \<open>ChangeOptions\<close> sets later.\<close>

record 'f TableBuilder =
  tb_options :: Options
  tb_index_block_options :: Options
  tb_file :: 'f
  tb_offset :: u64
  tb_status :: Status
  tb_data_block :: BlockBuilder
  tb_index_block :: BlockBuilder
  tb_last_key :: "byte list"
  tb_num_entries :: nat
  tb_closed :: bool
  tb_filter_block :: "(FilterPolicy \<times> FilterBlockBuilder) option"
  tb_pending_index_entry :: bool
  tb_pending_handle :: BlockHandle

definition make_TableBuilder :: "Options \<Rightarrow> 'f \<Rightarrow> 'f TableBuilder option" where
  "make_TableBuilder options file = do {
     data_block \<leftarrow> make_BlockBuilder (opt_block_restart_interval options);
     index_block \<leftarrow> make_BlockBuilder (opt_block_restart_interval options);
     filter_block \<leftarrow> (case opt_filter_policy options of None \<Rightarrow> Some None
                     | Some (name, policy) \<Rightarrow> map_option (\<lambda>b. Some (policy, b)) (StartBlock policy make_FilterBlockBuilder 0));
     Some \<lparr>tb_options = options, tb_index_block_options = options\<lparr>opt_block_restart_interval := 1\<rparr>, tb_file = file,
           tb_offset = 0, tb_status = OK, tb_data_block = data_block, tb_index_block = index_block, tb_last_key = [],
           tb_num_entries = 0, tb_closed = False, tb_filter_block = filter_block,
           tb_pending_index_entry = False, tb_pending_handle = make_BlockHandle\<rparr>
   }"

definition tb_ChangeOptions :: "'f TableBuilder \<Rightarrow> Options \<Rightarrow> Status \<times> 'f TableBuilder" where
  "tb_ChangeOptions r options =
     (if cmp_address (opt_comparator options) \<noteq> cmp_address (opt_comparator (tb_options r))
      then (InvalidArgument (bytes_of ''changing comparator while building table'') [], r)
      else (OK, r\<lparr>tb_options := options, tb_index_block_options := options\<lparr>opt_block_restart_interval := 1\<rparr>\<rparr>))"

section \<open>Blocks\<close>

definition tb_WriteRawBlock ::
    "'f WritableFile \<Rightarrow> 'f TableBuilder \<Rightarrow> slice \<Rightarrow> nat \<Rightarrow> BlockHandle \<times> 'f TableBuilder" where
  "tb_WriteRawBlock io r block_contents type =
     (let handle = \<lparr>bh_offset = tb_offset r, bh_size = word_of_nat (length block_contents)\<rparr>;
          (s, f) = Append io (tb_file r) block_contents;
          r = r\<lparr>tb_status := s, tb_file := f\<rparr>
      in if \<not> ok s then (handle, r)
         else
           let crc = Value block_contents;
               crc = Extend crc [word_of_nat type];
               trailer = word_of_nat type # EncodeFixed32 (Mask crc);
               (s, f) = Append io f trailer;
               r = r\<lparr>tb_status := s, tb_file := f\<rparr>
           in (handle, if ok s then r\<lparr>tb_offset := tb_offset r + word_of_nat (length block_contents + kBlockTrailerSize)\<rparr> else r))"

text \<open>The result is the block after its reset, the handle and the builder.\<close>

definition tb_WriteBlock ::
    "'f WritableFile \<Rightarrow> 'f TableBuilder \<Rightarrow> BlockBuilder \<Rightarrow> (BlockBuilder \<times> BlockHandle \<times> 'f TableBuilder) option" where
  "tb_WriteBlock io r block =
     (if \<not> ok (tb_status r) then None
      else
        let (raw, block) = BlockFinish block;
            (block_contents, type) =
              (if opt_compression (tb_options r) = kSnappyCompression then
                 (case Snappy_Compress raw of
                    None \<Rightarrow> (raw, kNoCompression)
                  | Some compressed \<Rightarrow>
                      if length compressed < length raw - length raw div 8 then (compressed, kSnappyCompression)
                      else (raw, kNoCompression))
               else (raw, kNoCompression));
            (handle, r) = tb_WriteRawBlock io r block_contents type
        in Some (BlockReset block, handle, r))"

definition tb_Flush :: "'f WritableFile \<Rightarrow> 'f TableBuilder \<Rightarrow> 'f TableBuilder option" where
  "tb_Flush io r =
     (if tb_closed r then None
      else if \<not> ok (tb_status r) then Some r
      else if block_empty (tb_data_block r) then Some r
      else if tb_pending_index_entry r then None
      else do {
        (block, handle, r) \<leftarrow> tb_WriteBlock io r (tb_data_block r);
        let r = r\<lparr>tb_data_block := block, tb_pending_handle := handle\<rparr>;
        let r = (if ok (tb_status r)
                 then let (s, f) = Flush io (tb_file r)
                      in r\<lparr>tb_pending_index_entry := True, tb_status := s, tb_file := f\<rparr>
                 else r);
        case tb_filter_block r of None \<Rightarrow> Some r
        | Some (policy, b) \<Rightarrow> map_option (\<lambda>b. r\<lparr>tb_filter_block := Some (policy, b)\<rparr>) (StartBlock policy b (tb_offset r))
      })"

text \<open>The entry of the index for the pending handle; the key separates the block from what follows.\<close>

definition tb_add_index_entry :: "'f TableBuilder \<Rightarrow> slice \<Rightarrow> 'f TableBuilder option" where
  "tb_add_index_entry r key = do {
     handle_encoding \<leftarrow> HandleEncodeTo (tb_pending_handle r) [];
     index_block \<leftarrow> BlockAdd (opt_block_restart_interval (tb_index_block_options r))
       (cmp_Compare (opt_comparator (tb_index_block_options r))) (tb_index_block r) key handle_encoding;
     Some (r\<lparr>tb_last_key := key, tb_index_block := index_block, tb_pending_index_entry := False\<rparr>)
   }"

definition tb_Add :: "'f WritableFile \<Rightarrow> 'f TableBuilder \<Rightarrow> slice \<Rightarrow> slice \<Rightarrow> 'f TableBuilder option" where
  "tb_Add io r key value =
     (if tb_closed r then None
      else if \<not> ok (tb_status r) then Some r
      else if 0 < tb_num_entries r \<and> \<not> 0 < cmp_Compare (opt_comparator (tb_options r)) key (tb_last_key r) then None
      else do {
        r \<leftarrow> (if tb_pending_index_entry r then
                if \<not> block_empty (tb_data_block r) then None
                else tb_add_index_entry r (cmp_FindShortestSeparator (opt_comparator (tb_options r)) (tb_last_key r) key)
              else Some r);
        let r = r\<lparr>tb_filter_block := map_option (\<lambda>(policy, b). (policy, AddKey b key)) (tb_filter_block r),
                  tb_last_key := key, tb_num_entries := tb_num_entries r + 1\<rparr>;
        block \<leftarrow> BlockAdd (opt_block_restart_interval (tb_options r)) (cmp_Compare (opt_comparator (tb_options r)))
          (tb_data_block r) key value;
        let r = r\<lparr>tb_data_block := block\<rparr>;
        if opt_block_size (tb_options r) \<le> CurrentSizeEstimate block then tb_Flush io r else Some r
      })"

section \<open>The end of the table\<close>

definition tb_write_filter_block ::
    "'f WritableFile \<Rightarrow> 'f TableBuilder \<Rightarrow> BlockHandle \<times> 'f TableBuilder" where
  "tb_write_filter_block io r =
     (case tb_filter_block r of
        Some (policy, b) \<Rightarrow>
          if ok (tb_status r) then
            let (contents, b) = FilterBlockFinish policy b
            in tb_WriteRawBlock io (r\<lparr>tb_filter_block := Some (policy, b)\<rparr>) contents kNoCompression
          else (make_BlockHandle, r)
      | None \<Rightarrow> (make_BlockHandle, r))"

definition filter_meta_key :: "byte list \<Rightarrow> byte list" where
  "filter_meta_key name = bytes_of ''filter.'' @ name"

definition tb_write_metaindex_block ::
    "'f WritableFile \<Rightarrow> 'f TableBuilder \<Rightarrow> BlockHandle \<Rightarrow> (BlockHandle \<times> 'f TableBuilder) option" where
  "tb_write_metaindex_block io r filter_block_handle =
     (if \<not> ok (tb_status r) then Some (make_BlockHandle, r)
      else do {
        meta_index_block \<leftarrow> make_BlockBuilder (opt_block_restart_interval (tb_options r));
        meta_index_block \<leftarrow>
          (if tb_filter_block r \<noteq> None then do {
             (name, policy) \<leftarrow> opt_filter_policy (tb_options r);
             handle_encoding \<leftarrow> HandleEncodeTo filter_block_handle [];
             BlockAdd (opt_block_restart_interval (tb_options r)) (cmp_Compare (opt_comparator (tb_options r))) meta_index_block
               (filter_meta_key name) handle_encoding
           } else Some meta_index_block);
        (block, handle, r) \<leftarrow> tb_WriteBlock io r meta_index_block;
        Some (handle, r)
      })"

definition tb_write_index_block :: "'f WritableFile \<Rightarrow> 'f TableBuilder \<Rightarrow> (BlockHandle \<times> 'f TableBuilder) option" where
  "tb_write_index_block io r =
     (if \<not> ok (tb_status r) then Some (make_BlockHandle, r)
      else do {
        r \<leftarrow> (if tb_pending_index_entry r
              then tb_add_index_entry r (cmp_FindShortSuccessor (opt_comparator (tb_options r)) (tb_last_key r))
              else Some r);
        (block, handle, r) \<leftarrow> tb_WriteBlock io r (tb_index_block r);
        Some (handle, r\<lparr>tb_index_block := block\<rparr>)
      })"

definition tb_write_footer ::
    "'f WritableFile \<Rightarrow> 'f TableBuilder \<Rightarrow> BlockHandle \<Rightarrow> BlockHandle \<Rightarrow> 'f TableBuilder option" where
  "tb_write_footer io r metaindex_block_handle index_block_handle =
     (if \<not> ok (tb_status r) then Some r
      else do {
        footer_encoding \<leftarrow> FooterEncodeTo \<lparr>metaindex_handle = metaindex_block_handle, index_handle = index_block_handle\<rparr> [];
        let (s, f) = Append io (tb_file r) footer_encoding;
        let r = r\<lparr>tb_status := s, tb_file := f\<rparr>;
        Some (if ok s then r\<lparr>tb_offset := tb_offset r + word_of_nat (length footer_encoding)\<rparr> else r)
      })"

definition tb_Finish :: "'f WritableFile \<Rightarrow> 'f TableBuilder \<Rightarrow> (Status \<times> 'f TableBuilder) option" where
  "tb_Finish io r = do {
     r \<leftarrow> tb_Flush io r;
     if tb_closed r then None
     else do {
       let r = r\<lparr>tb_closed := True\<rparr>;
       let (filter_block_handle, r) = tb_write_filter_block io r;
       (metaindex_block_handle, r) \<leftarrow> tb_write_metaindex_block io r filter_block_handle;
       (index_block_handle, r) \<leftarrow> tb_write_index_block io r;
       r \<leftarrow> tb_write_footer io r metaindex_block_handle index_block_handle;
       Some (tb_status r, r)
     }
   }"

definition tb_Abandon :: "'f TableBuilder \<Rightarrow> 'f TableBuilder option" where
  "tb_Abandon r = (if tb_closed r then None else Some (r\<lparr>tb_closed := True\<rparr>))"

definition tb_NumEntries :: "'f TableBuilder \<Rightarrow> u64" where
  "tb_NumEntries r = word_of_nat (tb_num_entries r)"

definition tb_FileSize :: "'f TableBuilder \<Rightarrow> u64" where
  "tb_FileSize r = tb_offset r"

end
