(* ===== verification/LdbTwoLevel.thy ===== *)
theory LdbTwoLevel
  imports LdbIterator
begin

text \<open>
  The two-level iterator (\<open>table/two_level_iterator.cc\<close>): an iterator over an index, whose values say which
  data iterator to open. It is a client of the interface of both, and meets the same interface. Opening and
  deleting a data iterator may change some state, that of a cache; \<open>IteratorWrapper\<close> only remembers what the
  wrapped iterator answers.
\<close>

section \<open>The model\<close>

record ('i, 'd, 'w) two_level_arg =
  index_ops :: "'i Iterator"
  data_ops :: "'d Iterator"
  block_function :: "slice \<Rightarrow> 'w \<Rightarrow> ('d \<times> 'w) option"
  delete_iter :: "'d \<Rightarrow> 'w \<Rightarrow> 'w option"

record ('i, 'd, 'w) two_level =
  tl_status :: Status
  index_iter :: 'i
  data_iter :: "'d option"
  data_block_handle :: slice
  tl_world :: 'w

definition NewTwoLevelIterator :: "'i \<Rightarrow> 'w \<Rightarrow> ('i, 'd, 'w) two_level" where
  "NewTwoLevelIterator index w =
     \<lparr>tl_status = OK, index_iter = index, data_iter = None, data_block_handle = [], tl_world = w\<rparr>"

definition SaveError :: "('i, 'd, 'w) two_level \<Rightarrow> Status \<Rightarrow> ('i, 'd, 'w) two_level" where
  "SaveError t s = (if ok (tl_status t) \<and> \<not> ok s then t\<lparr>tl_status := s\<rparr> else t)"

definition SetDataIterator ::
    "('i, 'd, 'w) two_level_arg \<Rightarrow> ('i, 'd, 'w) two_level \<Rightarrow> 'd option \<Rightarrow> ('i, 'd, 'w) two_level option" where
  "SetDataIterator a t d =
     (case data_iter t of None \<Rightarrow> Some (t\<lparr>data_iter := d\<rparr>)
      | Some old \<Rightarrow> do {
          let t = SaveError t (IterStatus (data_ops a) old);
          w \<leftarrow> delete_iter a old (tl_world t);
          Some (t\<lparr>data_iter := d, tl_world := w\<rparr>)
        })"

definition InitDataBlock :: "('i, 'd, 'w) two_level_arg \<Rightarrow> ('i, 'd, 'w) two_level \<Rightarrow> ('i, 'd, 'w) two_level option" where
  "InitDataBlock a t =
     (if \<not> Valid (index_ops a) (index_iter t) then SetDataIterator a t None
      else
        let handle = Val (index_ops a) (index_iter t) in
        if data_iter t \<noteq> None \<and> slice_compare handle (data_block_handle t) = 0 then Some t
        else do {
          (d, w) \<leftarrow> block_function a handle (tl_world t);
          SetDataIterator a (t\<lparr>tl_world := w, data_block_handle := handle\<rparr>) (Some d)
        })"

text \<open>An operation of the data iterator, if there is one.\<close>

definition with_data :: "('d \<Rightarrow> 'd option) \<Rightarrow> ('i, 'd, 'w) two_level \<Rightarrow> ('i, 'd, 'w) two_level option" where
  "with_data f t =
     (case data_iter t of None \<Rightarrow> Some t
      | Some d \<Rightarrow> map_option (\<lambda>d. t\<lparr>data_iter := Some d\<rparr>) (f d))"

definition tl_Valid :: "('i, 'd, 'w) two_level_arg \<Rightarrow> ('i, 'd, 'w) two_level \<Rightarrow> bool" where
  "tl_Valid a t = (case data_iter t of None \<Rightarrow> False | Some d \<Rightarrow> Valid (data_ops a) d)"

text \<open>
  The loops that skip data blocks without an entry: forwards with \<open>Next\<close> and \<open>SeekToFirst\<close>, backwards with
  \<open>Prev\<close> and \<open>SeekToLast\<close>.
\<close>

definition skip_turn ::
    "('i, 'd, 'w) two_level_arg \<Rightarrow> ('i \<Rightarrow> 'i option) \<Rightarrow> ('d \<Rightarrow> 'd option) \<Rightarrow> ('i, 'd, 'w) two_level
      \<Rightarrow> (('i, 'd, 'w) two_level, ('i, 'd, 'w) two_level) turn option" where
  "skip_turn a move enter t =
     (if tl_Valid a t then Some (Leave t)
      else if \<not> Valid (index_ops a) (index_iter t) then map_option Leave (SetDataIterator a t None)
      else do {
        i \<leftarrow> move (index_iter t);
        t \<leftarrow> InitDataBlock a (t\<lparr>index_iter := i\<rparr>);
        t \<leftarrow> with_data enter t;
        Some (Continue t)
      })"

definition SkipEmptyDataBlocksForward ::
    "('i, 'd, 'w) two_level_arg \<Rightarrow> ('i, 'd, 'w) two_level \<Rightarrow> ('i, 'd, 'w) two_level option" where
  "SkipEmptyDataBlocksForward a = crun (skip_turn a (Next (index_ops a)) (SeekToFirst (data_ops a)))"

definition SkipEmptyDataBlocksBackward ::
    "('i, 'd, 'w) two_level_arg \<Rightarrow> ('i, 'd, 'w) two_level \<Rightarrow> ('i, 'd, 'w) two_level option" where
  "SkipEmptyDataBlocksBackward a = crun (skip_turn a (Prev (index_ops a)) (SeekToLast (data_ops a)))"

definition tl_Seek :: "('i, 'd, 'w) two_level_arg \<Rightarrow> ('i, 'd, 'w) two_level \<Rightarrow> slice \<Rightarrow> ('i, 'd, 'w) two_level option" where
  "tl_Seek a t target = do {
     i \<leftarrow> Seek (index_ops a) (index_iter t) target;
     t \<leftarrow> InitDataBlock a (t\<lparr>index_iter := i\<rparr>);
     t \<leftarrow> with_data (\<lambda>d. Seek (data_ops a) d target) t;
     SkipEmptyDataBlocksForward a t
   }"

definition tl_SeekToFirst :: "('i, 'd, 'w) two_level_arg \<Rightarrow> ('i, 'd, 'w) two_level \<Rightarrow> ('i, 'd, 'w) two_level option" where
  "tl_SeekToFirst a t = do {
     i \<leftarrow> SeekToFirst (index_ops a) (index_iter t);
     t \<leftarrow> InitDataBlock a (t\<lparr>index_iter := i\<rparr>);
     t \<leftarrow> with_data (SeekToFirst (data_ops a)) t;
     SkipEmptyDataBlocksForward a t
   }"

definition tl_SeekToLast :: "('i, 'd, 'w) two_level_arg \<Rightarrow> ('i, 'd, 'w) two_level \<Rightarrow> ('i, 'd, 'w) two_level option" where
  "tl_SeekToLast a t = do {
     i \<leftarrow> SeekToLast (index_ops a) (index_iter t);
     t \<leftarrow> InitDataBlock a (t\<lparr>index_iter := i\<rparr>);
     t \<leftarrow> with_data (SeekToLast (data_ops a)) t;
     SkipEmptyDataBlocksBackward a t
   }"

definition tl_Next :: "('i, 'd, 'w) two_level_arg \<Rightarrow> ('i, 'd, 'w) two_level \<Rightarrow> ('i, 'd, 'w) two_level option" where
  "tl_Next a t =
     (if \<not> tl_Valid a t then None
      else do { t \<leftarrow> with_data (Next (data_ops a)) t; SkipEmptyDataBlocksForward a t })"

definition tl_Prev :: "('i, 'd, 'w) two_level_arg \<Rightarrow> ('i, 'd, 'w) two_level \<Rightarrow> ('i, 'd, 'w) two_level option" where
  "tl_Prev a t =
     (if \<not> tl_Valid a t then None
      else do { t \<leftarrow> with_data (Prev (data_ops a)) t; SkipEmptyDataBlocksBackward a t })"

definition tl_key :: "('i, 'd, 'w) two_level_arg \<Rightarrow> ('i, 'd, 'w) two_level \<Rightarrow> slice" where
  "tl_key a t = (case data_iter t of None \<Rightarrow> [] | Some d \<Rightarrow> Key (data_ops a) d)"

definition tl_value :: "('i, 'd, 'w) two_level_arg \<Rightarrow> ('i, 'd, 'w) two_level \<Rightarrow> slice" where
  "tl_value a t = (case data_iter t of None \<Rightarrow> [] | Some d \<Rightarrow> Val (data_ops a) d)"

definition tl_iter_status :: "('i, 'd, 'w) two_level_arg \<Rightarrow> ('i, 'd, 'w) two_level \<Rightarrow> Status" where
  "tl_iter_status a t =
     (if \<not> ok (IterStatus (index_ops a) (index_iter t)) then IterStatus (index_ops a) (index_iter t)
      else case data_iter t of None \<Rightarrow> tl_status t
           | Some d \<Rightarrow> if \<not> ok (IterStatus (data_ops a) d) then IterStatus (data_ops a) d else tl_status t)"

definition two_level_ops :: "('i, 'd, 'w) two_level_arg \<Rightarrow> ('i, 'd, 'w) two_level Iterator" where
  "two_level_ops a =
     \<lparr>Valid = tl_Valid a, SeekToFirst = tl_SeekToFirst a, SeekToLast = tl_SeekToLast a, Seek = tl_Seek a,
      Next = tl_Next a, Prev = tl_Prev a, Key = tl_key a, Val = tl_value a, IterStatus = tl_iter_status a\<rparr>"

end
