(* ===== verification/LdbTable.thy ===== *)
theory LdbTable
  imports LdbTableBuilder LdbTwoLevel LdbCacheSpec
begin

text \<open>
  The reader of tables (\<open>table/table.cc\<close>), and the iterators without entries (\<open>table/iterator.cc\<close>). The cache of
  blocks is a parameter, the record of its operations, or no cache at all; its state is passed along. Memory that
  is given back has no other trace.
\<close>

section \<open>Iterators over any block\<close>

text \<open>What \<open>NewIterator\<close> of a block gives may be an \<open>EmptyIterator\<close>, whose functions do nothing or assert.\<close>

definition on_entries :: "(block_iter \<Rightarrow> block_iter option) \<Rightarrow> block_iterator option \<Rightarrow> block_iterator \<Rightarrow> block_iterator option" where
  "on_entries f none it = (case it of EntryIterator b \<Rightarrow> map_option EntryIterator (f b) | _ \<Rightarrow> none)"

definition any_block_ops :: "(slice \<Rightarrow> slice \<Rightarrow> int) \<Rightarrow> block_iterator Iterator" where
  "any_block_ops compare =
     \<lparr>Valid = (\<lambda>it. case it of EntryIterator b \<Rightarrow> block_valid b | _ \<Rightarrow> False),
      SeekToFirst = (\<lambda>it. on_entries block_SeekToFirst (Some it) it),
      SeekToLast = (\<lambda>it. on_entries block_SeekToLast (Some it) it),
      Seek = (\<lambda>it target. on_entries (\<lambda>b. block_Seek compare b target) (Some it) it),
      Next = on_entries block_Next None,
      Prev = on_entries block_Prev None,
      Key = (\<lambda>it. case it of EntryIterator b \<Rightarrow> it_key b | _ \<Rightarrow> []),
      Val = (\<lambda>it. case it of EntryIterator b \<Rightarrow> block_value b | _ \<Rightarrow> []),
      IterStatus = (\<lambda>it. case it of EntryIterator b \<Rightarrow> it_status b | EmptyIterator \<Rightarrow> OK | ErrorIterator s \<Rightarrow> s)\<rparr>"

section \<open>Opening a table\<close>

record Table =
  t_options :: Options
  t_file :: RandomAccessFile
  t_cache_id :: u64
  t_filter :: "(FilterPolicy \<times> FilterBlockReader) option"
  t_metaindex_handle :: BlockHandle
  t_index_block :: Block

definition t_compare :: "Table \<Rightarrow> slice \<Rightarrow> slice \<Rightarrow> int" where
  "t_compare t = cmp_Compare (opt_comparator (t_options t))"

definition ReadFilter :: "Table \<Rightarrow> FilterPolicy \<Rightarrow> slice \<Rightarrow> Table option" where
  "ReadFilter t policy filter_handle_value =
     (let (s, filter_handle, v) = HandleDecodeFrom make_BlockHandle filter_handle_value in
      if \<not> ok s then Some t
      else do {
        (s, block) \<leftarrow> ReadBlock (t_file t) (opt_paranoid_checks (t_options t)) filter_handle;
        Some (if \<not> ok s then t else t\<lparr>t_filter := Some (policy, make_FilterBlockReader (bc_data block))\<rparr>)
      })"

definition ReadMeta :: "Table \<Rightarrow> Footer \<Rightarrow> Table option" where
  "ReadMeta t footer =
     (case opt_filter_policy (t_options t) of None \<Rightarrow> Some t
      | Some (name, policy) \<Rightarrow> do {
          (s, contents) \<leftarrow> ReadBlock (t_file t) (opt_paranoid_checks (t_options t)) (metaindex_handle footer);
          if \<not> ok s then Some t
          else do {
            let ops = any_block_ops BytewiseCompare;
            it \<leftarrow> Seek ops (NewIterator (make_Block (bc_data contents))) (filter_meta_key name);
            if Valid ops it \<and> slice_eq (Key ops it) (filter_meta_key name) then ReadFilter t policy (Val ops it)
            else Some t
          }
        })"

definition Table_Open ::
    "Options \<Rightarrow> ('c, 'h, Block) Cache option \<Rightarrow> RandomAccessFile \<Rightarrow> u64 \<Rightarrow> 'c \<Rightarrow> (Status \<times> Table option \<times> 'c) option" where
  "Table_Open options block_cache file file_size c =
     (if file_size < word_of_nat kEncodedLength then Some (Corruption (bytes_of ''file is too short to be an sstable'') [], None, c)
      else
        let (s, footer_input, in_buf) = file (file_size - word_of_nat kEncodedLength) (word_of_nat kEncodedLength) in
        if \<not> ok s then Some (s, None, c)
        else do {
          (s, footer, rest) \<leftarrow> FooterDecodeFrom make_Footer footer_input;
          if \<not> ok s then Some (s, None, c)
          else do {
            (s, contents) \<leftarrow> ReadBlock file (opt_paranoid_checks options) (index_handle footer);
            if \<not> ok s then Some (s, None, c)
            else do {
              let (cache_id, c) = (case block_cache of None \<Rightarrow> (0, c) | Some bc \<Rightarrow> cache_NewId bc c);
              t \<leftarrow> ReadMeta \<lparr>t_options = options, t_file = file, t_cache_id = cache_id, t_filter = None,
                             t_metaindex_handle = metaindex_handle footer, t_index_block = make_Block (bc_data contents)\<rparr> footer;
              Some (s, Some t, c)
            }
          }
        })"

section \<open>Blocks and the cache\<close>

definition cache_key :: "u64 \<Rightarrow> u64 \<Rightarrow> slice" where
  "cache_key cache_id off = EncodeFixed64 cache_id @ EncodeFixed64 off"

text \<open>\<open>ReadBlock\<close> and the block that is made of the contents, if there are any.\<close>

definition read_new_block :: "Table \<Rightarrow> bool \<Rightarrow> BlockHandle \<Rightarrow> (Status \<times> (Block \<times> bool) option) option" where
  "read_new_block t verify handle = do {
     (s, contents) \<leftarrow> ReadBlock (t_file t) verify handle;
     Some (s, if ok s then Some (make_Block (bc_data contents), bc_cachable contents) else None)
   }"

text \<open>
  The result is an iterator over the block, with the handle of the cache that is released when the
  iterator is deleted.
\<close>

definition BlockReader ::
    "('c, 'h, Block) Cache option \<Rightarrow> Table \<Rightarrow> bool \<Rightarrow> bool \<Rightarrow> slice \<Rightarrow> 'c \<Rightarrow> ((block_iterator \<times> 'h option) \<times> 'c) option" where
  "BlockReader block_cache t verify fill_cache index_value c =
     (let (s, handle, rest) = HandleDecodeFrom make_BlockHandle index_value in
      if \<not> ok s then Some ((ErrorIterator s, None), c)
      else
        (case block_cache of
           Some bc \<Rightarrow> do {
             let key = cache_key (t_cache_id t) (bh_offset handle);
             (cache_handle, c) \<leftarrow> cache_Lookup bc key c;
             (case cache_handle of
                Some h \<Rightarrow> do { block \<leftarrow> cache_Value bc h c; Some ((NewIterator block, Some h), c) }
              | None \<Rightarrow> do {
                  (s, block) \<leftarrow> read_new_block t verify handle;
                  (case block of None \<Rightarrow> Some ((ErrorIterator s, None), c)
                   | Some (block, cachable) \<Rightarrow>
                       if cachable \<and> fill_cache then do {
                         (h, c) \<leftarrow> cache_Insert bc key block (blk_size block) c;
                         Some ((NewIterator block, Some h), c)
                       } else Some ((NewIterator block, None), c))
                })
           }
         | None \<Rightarrow> do {
             (s, block) \<leftarrow> read_new_block t verify handle;
             (case block of None \<Rightarrow> Some ((ErrorIterator s, None), c)
              | Some (block, cachable) \<Rightarrow> Some ((NewIterator block, None), c))
           }))"

definition delete_block_iter ::
    "('c, 'h, Block) Cache option \<Rightarrow> block_iterator \<times> 'h option \<Rightarrow> 'c \<Rightarrow> 'c option" where
  "delete_block_iter block_cache it c =
     (case (block_cache, snd it) of (Some bc, Some h) \<Rightarrow> cache_Release bc h c | _ \<Rightarrow> Some c)"

text \<open>The operations of a block iterator that comes with its handle.\<close>

definition with_handle :: "('d \<Rightarrow> 'd option) \<Rightarrow> 'd \<times> 'h \<Rightarrow> ('d \<times> 'h) option" where
  "with_handle f it = map_option (\<lambda>d. (d, snd it)) (f (fst it))"

definition handle_ops :: "'d Iterator \<Rightarrow> ('d \<times> 'h) Iterator" where
  "handle_ops ops =
     \<lparr>Valid = (\<lambda>it. Valid ops (fst it)), SeekToFirst = with_handle (SeekToFirst ops), SeekToLast = with_handle (SeekToLast ops),
      Seek = (\<lambda>it t. with_handle (\<lambda>d. Seek ops d t) it), Next = with_handle (Next ops), Prev = with_handle (Prev ops),
      Key = (\<lambda>it. Key ops (fst it)), Val = (\<lambda>it. Val ops (fst it)), IterStatus = (\<lambda>it. IterStatus ops (fst it))\<rparr>"

definition table_arg ::
    "('c, 'h, Block) Cache option \<Rightarrow> Table \<Rightarrow> bool \<Rightarrow> bool \<Rightarrow> (block_iterator, block_iterator \<times> 'h option, 'c) two_level_arg" where
  "table_arg block_cache t verify fill_cache =
     \<lparr>index_ops = any_block_ops (t_compare t), data_ops = handle_ops (any_block_ops (t_compare t)),
      block_function = BlockReader block_cache t verify fill_cache, delete_iter = delete_block_iter block_cache\<rparr>"

definition Table_NewIterator :: "Table \<Rightarrow> 'c \<Rightarrow> (block_iterator, block_iterator \<times> 'h option, 'c) two_level" where
  "Table_NewIterator t c = NewTwoLevelIterator (NewIterator (t_index_block t)) c"

section \<open>Lookups\<close>

text \<open>The test of the filter: that the key is certainly not in the block of the handle.\<close>

definition filter_excludes :: "Table \<Rightarrow> slice \<Rightarrow> slice \<Rightarrow> bool option" where
  "filter_excludes t handle_value k =
     (case t_filter t of None \<Rightarrow> Some False
      | Some (policy, fr) \<Rightarrow>
          let (s, handle, rest) = HandleDecodeFrom make_BlockHandle handle_value in
          if ok s then map_option Not (FilterKeyMayMatch policy fr (bh_offset handle) k) else Some False)"

text \<open>\<open>saver\<close> is called with at most one entry, which is part of the result.\<close>

definition InternalGet ::
    "('c, 'h, Block) Cache option \<Rightarrow> Table \<Rightarrow> bool \<Rightarrow> bool \<Rightarrow> slice \<Rightarrow> 'c \<Rightarrow> (Status \<times> entry option \<times> 'c) option" where
  "InternalGet block_cache t verify fill_cache k c = do {
     let ops = any_block_ops (t_compare t);
     iiter \<leftarrow> Seek ops (NewIterator (t_index_block t)) k;
     (s, saved, c) \<leftarrow>
       (if \<not> Valid ops iiter then Some (OK, None, c)
        else do {
          excluded \<leftarrow> filter_excludes t (Val ops iiter) k;
          if excluded then Some (OK, None, c)
          else do {
            (block_iter, c) \<leftarrow> BlockReader block_cache t verify fill_cache (Val ops iiter) c;
            block_iter \<leftarrow> Seek (handle_ops ops) block_iter k;
            let saved = (if Valid (handle_ops ops) block_iter
                         then Some (Key (handle_ops ops) block_iter, Val (handle_ops ops) block_iter) else None);
            c' \<leftarrow> delete_block_iter block_cache block_iter c;
            Some (IterStatus (handle_ops ops) block_iter, saved, c')
          }
        });
     Some (if ok s then IterStatus ops iiter else s, saved, c)
   }"

definition ApproximateOffsetOf :: "Table \<Rightarrow> slice \<Rightarrow> u64 option" where
  "ApproximateOffsetOf t key = do {
     let ops = any_block_ops (t_compare t);
     index_iter \<leftarrow> Seek ops (NewIterator (t_index_block t)) key;
     Some (if Valid ops index_iter then
             let (s, handle, input) = HandleDecodeFrom make_BlockHandle (Val ops index_iter)
             in if ok s then bh_offset handle else bh_offset (t_metaindex_handle t)
           else bh_offset (t_metaindex_handle t))
   }"

end
