(* ===== verification/LdbTableBuilt.thy ===== *)
theory LdbTableBuilt
  imports LdbTable LdbLogProps LdbBlockProps
begin

text \<open>
  What the builder of tables (\<open>LdbTableBuilder\<close>) has built after any number of entries: the data blocks in the
  file, the index with a key between each block and the next, and the filters. The file keeps what is written.
\<close>

section \<open>Sizes\<close>

lemma length_EncodeVarint32_le: "length (EncodeVarint32 v) \<le> 5"
proof -
  have "unat v < 2 ^ LENGTH(32)" by (rule unsigned_less)
  also have "(2 :: nat) ^ LENGTH(32) \<le> 128 ^ Suc 4" by simp
  finally have "length (EncodeVarint32 v) \<le> Suc 4" unfolding EncodeVarint32_bytes by (rule length_varint_bytes)
  then show ?thesis by simp
qed

lemma BlockAdd_size:
  assumes "BlockAdd n compare b key val = Some b'"
  shows "CurrentSizeEstimate b' \<le> CurrentSizeEstimate b + length key + length val + 19"
proof -
  have v: "length (EncodeVarint32 x) + length (EncodeVarint32 y) + length (EncodeVarint32 z) \<le> 15" for x y z
    using length_EncodeVarint32_le [of x] length_EncodeVarint32_le [of y] length_EncodeVarint32_le [of z] by simp
  define shared where "shared = (if bb_counter b < n then common_prefix (bb_last_key b) key else 0)"
  have "length (bb_buffer b') \<le> length (bb_buffer b) + 15 + (length key - shared) + length val"
    using assms v [of "word_of_nat shared" "word_of_nat (length key - shared)" "word_of_nat (length val)"]
    by (auto simp: BlockAdd_def Let_def PutVarint32_def shared_def split: if_splits)
  moreover have "length (bb_restarts b') \<le> Suc (length (bb_restarts b))"
    using assms by (auto simp: BlockAdd_def Let_def split: if_splits)
  ultimately show ?thesis by (simp add: CurrentSizeEstimate_def)
qed

lemma CurrentSizeEstimate_fresh:
  "make_BlockBuilder n = Some b \<Longrightarrow> CurrentSizeEstimate b = 8"
  by (auto simp: make_BlockBuilder_def CurrentSizeEstimate_def split: if_splits)

lemma built_block_empty:
  assumes "built_block n b l" and "lay_entries l = []"
  shows "CurrentSizeEstimate b = 8"
proof -
  have "points_ok l" using assms(1) by (simp add: built_block_def)
  then obtain rest where "lay_points l = 0 # rest" "\<forall>r \<in> set rest. 0 < r" "\<forall>r \<in> set rest. r = 0"
    using assms(2) by (auto simp: points_ok_def)
  then have "lay_points l = [0]" by (cases rest) auto
  then have "length (bb_restarts b) = 1" using assms(1) by (simp add: built_block_def)
  then show ?thesis using built_block_nonempty [OF assms(1)] assms(2) by (simp add: CurrentSizeEstimate_def)
qed

section \<open>Blocks in the file\<close>

definition empty_layout :: layout where
  "empty_layout = \<lparr>lay_entries = [], lay_shared = [], lay_points = [0]\<rparr>"

lemma empty_layout_entries [simp]: "lay_entries empty_layout = []"
  by (simp add: empty_layout_def)

lemma make_BlockBuilder_built: "1 \<le> n \<Longrightarrow> \<exists>b. make_BlockBuilder n = Some b \<and> built_block n b empty_layout"
  using built_block_start by (simp add: empty_layout_def)

lemma BlockReset_built: "built_block n (BlockReset b) empty_layout"
  by (simp add: BlockReset_def built_block_def empty_layout_def shares_def points_ok_def images_def)

lemma BlockReset_size: "CurrentSizeEstimate (BlockReset b) = 8"
  by (simp add: BlockReset_def CurrentSizeEstimate_def)

definition data_bytes :: "layout list \<Rightarrow> byte list" where
  "data_bytes ls = concat (map (\<lambda>l. stored_block (block_image l) 0) ls)"

lemma data_bytes_Nil [simp]: "data_bytes [] = []"
  by (simp add: data_bytes_def)

lemma data_bytes_append [simp]: "data_bytes (ls @ ls') = data_bytes ls @ data_bytes ls'"
  by (simp add: data_bytes_def)

lemma data_bytes_single [simp]: "data_bytes [l] = stored_block (block_image l) 0"
  by (simp add: data_bytes_def)

lemma data_bytes_split: "i < length ls \<Longrightarrow>
    data_bytes ls = data_bytes (take i ls) @ stored_block (block_image (ls ! i)) 0 @ data_bytes (drop (Suc i) ls)"
  by (metis Cons_eq_appendI append_Nil data_bytes_append data_bytes_single id_take_nth_drop)

lemma data_bytes_take_mono: "i \<le> j \<Longrightarrow> length (data_bytes (take i ls)) \<le> length (data_bytes (take j ls))"
proof -
  assume "i \<le> j"
  then have "take j ls = take i ls @ drop i (take j ls)" by (metis append_take_drop_id min.absorb1 take_take)
  then show ?thesis by (metis data_bytes_append le_add1 length_append)
qed

definition block_handle :: "nat \<Rightarrow> byte list \<Rightarrow> BlockHandle" where
  "block_handle off data = \<lparr>bh_offset = word_of_nat off, bh_size = word_of_nat (length data)\<rparr>"

definition data_handle :: "layout list \<Rightarrow> nat \<Rightarrow> BlockHandle" where
  "data_handle ls i = block_handle (length (data_bytes (take i ls))) (block_image (ls ! i))"

lemma data_handle_append: "i < length ls \<Longrightarrow> data_handle (ls @ ls') i = data_handle ls i"
  by (simp add: data_handle_def nth_append)

text \<open>The index has a key for each block but the last one, whose entry may be pending.\<close>

definition index_entries :: "layout list \<Rightarrow> slice list \<Rightarrow> entry list" where
  "index_entries ls seps = map (\<lambda>i. (seps ! i, handle_bytes (data_handle ls i))) [0 ..< length seps]"

lemma length_index_entries [simp]: "length (index_entries ls seps) = length seps"
  by (simp add: index_entries_def)

lemma index_entries_nth: "i < length seps \<Longrightarrow> index_entries ls seps ! i = (seps ! i, handle_bytes (data_handle ls i))"
  by (simp add: index_entries_def)

lemma index_entries_keys: "map fst (index_entries ls seps) = seps"
  by (rule nth_equalityI) (simp_all add: index_entries_nth)

lemma index_entries_block: "length seps \<le> length ls \<Longrightarrow> index_entries (ls @ ls') seps = index_entries ls seps"
  by (rule nth_equalityI) (simp_all add: index_entries_nth data_handle_append)

lemma index_entries_key:
  "index_entries ls (seps @ [s]) = index_entries ls seps @ [(s, handle_bytes (data_handle ls (length seps)))]"
  by (rule nth_equalityI) (auto simp: index_entries_nth nth_append less_Suc_eq)

lemma handle_set_small: "off < 2 ^ 32 \<Longrightarrow> length data < 2 ^ 32 \<Longrightarrow> handle_set (block_handle off data)"
proof -
  have "word_of_nat n \<noteq> (NOT 0 :: u64)" if "n < 2 ^ 32" for n
  proof
    assume "word_of_nat n = (NOT 0 :: u64)"
    then have "unat (word_of_nat n :: u64) = 2 ^ 64 - 1" by (simp add: unsigned_minus_1_eq_mask mask_eq_exp_minus_1)
    then show False using unat_u64 [of n] that by simp
  qed
  then show "off < 2 ^ 32 \<Longrightarrow> length data < 2 ^ 32 \<Longrightarrow> ?thesis" by (simp only: handle_set_def block_handle_def BlockHandle.simps) blast
qed

section \<open>Writing a block\<close>

definition wrote :: "byte list TableBuilder \<Rightarrow> byte list \<Rightarrow> byte list TableBuilder" where
  "wrote r bytes = r\<lparr>tb_file := tb_file r @ bytes, tb_offset := word_of_nat (length (tb_file r @ bytes))\<rparr>"

lemma wrote_simps [simp]:
  "tb_options (wrote r x) = tb_options r" "tb_index_block_options (wrote r x) = tb_index_block_options r"
  "tb_file (wrote r x) = tb_file r @ x" "tb_offset (wrote r x) = word_of_nat (length (tb_file r @ x))"
  "tb_status (wrote r x) = tb_status r" "tb_data_block (wrote r x) = tb_data_block r"
  "tb_index_block (wrote r x) = tb_index_block r" "tb_last_key (wrote r x) = tb_last_key r"
  "tb_num_entries (wrote r x) = tb_num_entries r" "tb_closed (wrote r x) = tb_closed r"
  "tb_filter_block (wrote r x) = tb_filter_block r" "tb_pending_index_entry (wrote r x) = tb_pending_index_entry r"
  "tb_pending_handle (wrote r x) = tb_pending_handle r"
  by (simp_all add: wrote_def)

lemma WriteRaw_memory:
  assumes "tb_status r = OK" and "tb_offset r = word_of_nat (length (tb_file r))"
  shows "tb_WriteRawBlock memory_file r data 0 = (block_handle (length (tb_file r)) data, wrote r (stored_block data 0))"
  using assms
  by (simp add: tb_WriteRawBlock_def memory_file_def Let_def block_handle_def wrote_def stored_block_def Extend_Value kBlockTrailerSize_def)

lemma WriteBlock_memory:
  assumes "tb_status r = OK" and "tb_offset r = word_of_nat (length (tb_file r))" and "built_block n b l"
  shows "tb_WriteBlock memory_file r b
    = Some (BlockReset (snd (BlockFinish b)), block_handle (length (tb_file r)) (block_image l), wrote r (stored_block (block_image l) 0))"
  using assms(1) BlockFinish_image [OF assms(3)] WriteRaw_memory [OF assms(1,2)]
  by (cases "BlockFinish b") (simp add: tb_WriteBlock_def Let_def Snappy_Compress_def)

section \<open>The options\<close>

text \<open>
  What the builder relies on: the contract of the comparator, one of the filter policy, if there is one, and that
  shortened keys are not longer, and filters not out of proportion. \<open>filter_cost\<close> bounds the bytes for each key.
  \<open>alike x k\<close> says that an entry with the key \<open>x\<close> answers a lookup of \<open>k\<close>: the filter does not tell the two apart, and no
  shortened key comes between them.
\<close>

locale table_options =
  shortening_comparator "cmp_Compare (opt_comparator options)" "cmp_FindShortestSeparator (opt_comparator options)"
    "cmp_FindShortSuccessor (opt_comparator options)"
  for options :: Options +
  fixes filter_cost :: nat and alike :: "slice \<Rightarrow> slice \<Rightarrow> bool"
  assumes interval: "1 \<le> opt_block_restart_interval options"
    and separator_length: "length (cmp_FindShortestSeparator (opt_comparator options) a b) \<le> length a"
    and successor_length: "length (cmp_FindShortSuccessor (opt_comparator options) a) \<le> length a"
    and policy: "opt_filter_policy options = Some (name, policy) \<Longrightarrow> filter_policy policy"
    and policy_cost: "opt_filter_policy options = Some (name, policy) \<Longrightarrow> keys \<noteq> [] \<Longrightarrow>
      length (CreateFilter policy keys []) \<le> filter_cost * length keys"
    and alike_filter: "opt_filter_policy options = Some (name, policy) \<Longrightarrow> alike x k \<Longrightarrow> KeyMayMatch policy k f = KeyMayMatch policy x f"
    and alike_separator: "cmp_Compare (opt_comparator options) a b < 0 \<Longrightarrow> cmp_Compare (opt_comparator options) a k < 0 \<Longrightarrow>
      cmp_Compare (opt_comparator options) k (cmp_FindShortestSeparator (opt_comparator options) a b) \<le> 0 \<Longrightarrow> \<not> alike b k"
    and alike_between: "alike y k \<Longrightarrow> cmp_Compare (opt_comparator options) k x \<le> 0 \<Longrightarrow> cmp_Compare (opt_comparator options) x y \<le> 0 \<Longrightarrow>
      alike x k"

text \<open>All entries, and how much of the file they need at most: the data blocks, and the index.\<close>

definition all_entries :: "layout list \<Rightarrow> layout \<Rightarrow> entry list" where
  "all_entries ls cur = concat (map lay_entries ls) @ lay_entries cur"

definition data_cost :: "entry list \<Rightarrow> nat" where
  "data_cost es = sum_list (map (\<lambda>e. length (fst e) + length (snd e) + 32) es)"

definition index_cost :: "entry list \<Rightarrow> nat" where
  "index_cost es = sum_list (map (\<lambda>e. length (fst e) + 39) es)"

lemma cost_snoc [simp]:
  "data_cost (es @ [e]) = data_cost es + (length (fst e) + length (snd e) + 32)"
  "index_cost (es @ [e]) = index_cost es + (length (fst e) + 39)"
  by (simp_all add: data_cost_def index_cost_def)

section \<open>The invariant of the builder\<close>

context table_options
begin

abbreviation (input) compare where "compare \<equiv> cmp_Compare (opt_comparator options)"
abbreviation (input) separator where "separator \<equiv> cmp_FindShortestSeparator (opt_comparator options)"
abbreviation (input) successor where "successor \<equiv> cmp_FindShortSuccessor (opt_comparator options)"
abbreviation (input) interval where "interval \<equiv> opt_block_restart_interval options"

text \<open>The file and the two blocks under construction; \<open>seps\<close> are the keys of the index.\<close>

definition tb_blocks :: "byte list TableBuilder \<Rightarrow> layout list \<Rightarrow> slice list \<Rightarrow> layout \<Rightarrow> bool" where
  "tb_blocks r ls seps cur \<longleftrightarrow>
     tb_options r = options \<and> tb_index_block_options r = options\<lparr>opt_block_restart_interval := 1\<rparr> \<and>
     tb_status r = OK \<and> \<not> tb_closed r \<and> tb_file r = data_bytes ls \<and> tb_offset r = word_of_nat (length (data_bytes ls)) \<and>
     built_block interval (tb_data_block r) cur \<and>
     (\<exists>il. built_block 1 (tb_index_block r) il \<and> lay_entries il = index_entries ls seps) \<and>
     (\<forall>l \<in> set ls. shares l \<and> points_ok l \<and> lay_entries l \<noteq> [])"

definition tb_pending :: "byte list TableBuilder \<Rightarrow> layout list \<Rightarrow> slice list \<Rightarrow> layout \<Rightarrow> bool" where
  "tb_pending r ls seps cur \<longleftrightarrow>
     (if tb_pending_index_entry r
      then lay_entries cur = [] \<and> length ls = Suc (length seps) \<and> tb_pending_handle r = data_handle ls (length seps)
      else length seps = length ls \<and> (ls \<noteq> [] \<longrightarrow> lay_entries cur \<noteq> []))"

text \<open>
  The keys of the index separate the blocks. A key that is looked for in a block, because it is not above the key \<open>s\<close> of the block,
  but is above all keys of the block, is not answered by an entry \<open>x\<close> of a later block.
\<close>

definition apart :: "entry list \<Rightarrow> slice \<Rightarrow> slice \<Rightarrow> bool" where
  "apart b s x \<longleftrightarrow> (\<forall>k. (\<forall>y \<in> set b. compare (fst y) k < 0) \<and> compare k s \<le> 0 \<longrightarrow> \<not> alike x k)"

definition separated :: "entry list list \<Rightarrow> slice list \<Rightarrow> bool" where
  "separated bs seps \<longleftrightarrow>
     (\<forall>i < length seps. (\<forall>x \<in> set (bs ! i). compare (fst x) (seps ! i) \<le> 0) \<and>
        (\<forall>x \<in> set (concat (drop (Suc i) bs)). compare (seps ! i) (fst x) < 0 \<and> apart (bs ! i) (seps ! i) (fst x)))"

definition tb_keys :: "byte list TableBuilder \<Rightarrow> layout list \<Rightarrow> slice list \<Rightarrow> layout \<Rightarrow> bool" where
  "tb_keys r ls seps cur \<longleftrightarrow>
     ordered (map fst (all_entries ls cur)) \<and> tb_num_entries r = length (all_entries ls cur) \<and>
     (all_entries ls cur \<noteq> [] \<longrightarrow> tb_last_key r = fst (last (all_entries ls cur))) \<and>
     separated (map lay_entries (ls @ [cur])) seps"

text \<open>The file stays small: what will be written of the current block and its index entry is counted already.\<close>

definition tb_small :: "byte list TableBuilder \<Rightarrow> layout list \<Rightarrow> layout \<Rightarrow> bool" where
  "tb_small r ls cur \<longleftrightarrow>
     length (data_bytes ls) + (if lay_entries cur = [] then 0 else CurrentSizeEstimate (tb_data_block r) + 5)
       \<le> data_cost (all_entries ls cur) \<and>
     CurrentSizeEstimate (tb_index_block r) + (if all_entries ls cur = [] then 0 else length (fst (last (all_entries ls cur))) + 39)
       \<le> 8 + index_cost (all_entries ls cur)"

text \<open>The filter of each data block has its keys, as has the one that the current block will get.\<close>

definition filter_number :: "layout list \<Rightarrow> nat" where
  "filter_number ls = length (data_bytes ls) div kFilterBase"

definition tb_filtered :: "byte list TableBuilder \<Rightarrow> layout list \<Rightarrow> layout \<Rightarrow> bool" where
  "tb_filtered r ls cur \<longleftrightarrow>
     (case tb_filter_block r of None \<Rightarrow> opt_filter_policy options = None
      | Some (policy, b) \<Rightarrow> (\<exists>name fs ks. opt_filter_policy options = Some (name, policy) \<and>
          filter_policy.built policy b fs ks \<and> length fs = filter_number ls \<and> concat fs @ ks = map fst (all_entries ls cur) \<and>
          (\<forall>i < length ls. \<forall>x \<in> set (lay_entries (ls ! i)). filter_policy.covers fs ks (filter_number (take i ls)) (fst x)) \<and>
          (\<forall>x \<in> set (lay_entries cur). filter_policy.covers fs ks (filter_number ls) (fst x))))"

definition tb_inv :: "byte list TableBuilder \<Rightarrow> layout list \<Rightarrow> slice list \<Rightarrow> layout \<Rightarrow> bool" where
  "tb_inv r ls seps cur \<longleftrightarrow>
     tb_blocks r ls seps cur \<and> tb_pending r ls seps cur \<and> tb_keys r ls seps cur \<and> tb_small r ls cur \<and> tb_filtered r ls cur"

lemma separated_Nil [simp]: "separated bs []"
  by (simp add: separated_def)

lemma make_TableBuilder_inv:
  "\<exists>r. make_TableBuilder options [] = Some r \<and> tb_inv r [] [] empty_layout"
proof -
  from make_BlockBuilder_built [OF interval] obtain b where b: "make_BlockBuilder interval = Some b" "built_block interval b empty_layout"
    by blast
  have i: "built_block 1 b empty_layout" using b by (auto simp: built_block_def make_BlockBuilder_def split: if_splits)
  have e: "lay_entries empty_layout = index_entries [] []" by (simp add: index_entries_def)
  have sz: "CurrentSizeEstimate b = 8" by (rule CurrentSizeEstimate_fresh [OF b(1)])
  show ?thesis
  proof (cases "opt_filter_policy options")
    case None
    then show ?thesis using b i e sz
      by (auto simp: make_TableBuilder_def tb_inv_def tb_blocks_def tb_pending_def tb_keys_def tb_small_def tb_filtered_def all_entries_def)
  next
    case (Some np)
    obtain name policy where np: "np = (name, policy)" by (cases np)
    from policy [OF Some [unfolded np]] have p: "filter_policy policy" .
    have "StartBlock policy make_FilterBlockBuilder 0 = Some make_FilterBlockBuilder"
      by (simp add: StartBlock_def make_FilterBlockBuilder_def fill_filters.simps)
    moreover have "filter_policy.built policy make_FilterBlockBuilder [] []" by (rule filter_policy.built_start [OF p])
    ultimately show ?thesis using b i e sz Some np
      by (auto simp: make_TableBuilder_def tb_inv_def tb_blocks_def tb_pending_def tb_keys_def tb_small_def tb_filtered_def all_entries_def
          filter_number_def)
  qed
qed

section \<open>The operations\<close>

lemma all_entries_flushed [simp]: "all_entries (ls @ [cur]) empty_layout = all_entries ls cur"
  by (simp add: all_entries_def)

lemma separated_flushed: "length seps \<le> length bs \<Longrightarrow> separated (bs @ [[]]) seps \<longleftrightarrow> separated bs seps"
  by (auto simp: separated_def nth_append)

lemma tb_filteredE:
  assumes "tb_filtered r ls cur" and "tb_filter_block r = Some (policy, b)"
  obtains name fs ks where "opt_filter_policy options = Some (name, policy)"
    "filter_policy.built policy b fs ks" "length fs = filter_number ls" "concat fs @ ks = map fst (all_entries ls cur)"
    "\<And>i x. i < length ls \<Longrightarrow> x \<in> set (lay_entries (ls ! i)) \<Longrightarrow> filter_policy.covers fs ks (filter_number (take i ls)) (fst x)"
    "\<And>x. x \<in> set (lay_entries cur) \<Longrightarrow> filter_policy.covers fs ks (filter_number ls) (fst x)"
  using assms unfolding tb_filtered_def by simp blast

lemma filter_flushed:
  assumes f: "tb_filtered r ls cur" and off: "off = word_of_nat (length (data_bytes (ls @ [cur])))"
    and small: "length (data_bytes (ls @ [cur])) < 2 ^ 64"
  shows "\<exists>r'. (case tb_filter_block r of None \<Rightarrow> Some r
      | Some (policy, b) \<Rightarrow> map_option (\<lambda>b. r\<lparr>tb_filter_block := Some (policy, b)\<rparr>) (StartBlock policy b off)) = Some r' \<and>
    (\<exists>fb. r' = r\<lparr>tb_filter_block := fb\<rparr>) \<and> tb_filtered r' (ls @ [cur]) empty_layout"
proof (cases "tb_filter_block r")
  case None
  then show ?thesis using f by (intro exI [of _ r] conjI exI [of _ None]) (simp_all add: tb_filtered_def)
next
  case (Some pb)
  obtain policy b where pb: "pb = (policy, b)" by (cases pb)
  from tb_filteredE [OF f Some [unfolded pb]] obtain name fs ks where o: "opt_filter_policy options = Some (name, policy)" and
    b: "filter_policy.built policy b fs ks" "length fs = filter_number ls" "concat fs @ ks = map fst (all_entries ls cur)" and
    c: "\<And>i x. i < length ls \<Longrightarrow> x \<in> set (lay_entries (ls ! i)) \<Longrightarrow> filter_policy.covers fs ks (filter_number (take i ls)) (fst x)" and
    c': "\<And>x. x \<in> set (lay_entries cur) \<Longrightarrow> filter_policy.covers fs ks (filter_number ls) (fst x)" by blast
  note p = policy [OF o]
  have u: "unat off div kFilterBase = filter_number (ls @ [cur])"
    unfolding off filter_number_def by (simp only: unat_u64 [OF small])
  have "length fs \<le> unat off div kFilterBase"
    unfolding u b(2) filter_number_def by (intro div_le_mono) simp
  from filter_policy.built_StartBlock [OF p b(1) this] obtain b' fs' ks' where
    b': "StartBlock policy b off = Some b'" "filter_policy.built policy b' fs' ks'" "length fs' = filter_number (ls @ [cur])"
      "concat fs' @ ks' = concat fs @ ks" "\<And>i key. filter_policy.covers fs ks i key \<Longrightarrow> filter_policy.covers fs' ks' i key"
    unfolding u by blast
  have "filter_policy.covers fs' ks' (filter_number (take i (ls @ [cur]))) (fst x)"
    if "i < length (ls @ [cur])" "x \<in> set (lay_entries ((ls @ [cur]) ! i))" for i x
    using that c [of i x] c' [of x] by (cases "i = length ls") (auto simp: nth_append less_Suc_eq intro!: b'(5))
  then have "tb_filtered (r\<lparr>tb_filter_block := Some (policy, b')\<rparr>) (ls @ [cur]) empty_layout"
    unfolding tb_filtered_def using o b' b(3) by simp blast
  then show ?thesis using Some pb b'(1) by auto
qed

lemma Flush_inv:
  assumes b: "tb_blocks r ls seps cur" and k: "tb_keys r ls seps cur" and s: "tb_small r ls cur" and f: "tb_filtered r ls cur"
    and "\<not> tb_pending_index_entry r" and "length seps = length ls" and ne: "lay_entries cur \<noteq> []"
    and small: "data_cost (all_entries ls cur) < 2 ^ 32"
  shows "\<exists>r'. tb_Flush memory_file r = Some r' \<and> tb_inv r' (ls @ [cur]) seps empty_layout"
proof -
  have bb: "built_block interval (tb_data_block r) cur" and fl: "tb_file r = data_bytes ls" and st: "tb_status r = OK"
    and off: "tb_offset r = word_of_nat (length (tb_file r))"
    using b by (auto simp: tb_blocks_def)
  have shp: "shares cur" "points_ok cur" using bb by (simp_all add: built_block_def)
  have img: "length (block_image cur) = CurrentSizeEstimate (tb_data_block r)" using BlockFinish_image [OF bb] by simp
  let ?r = "(wrote r (stored_block (block_image cur) 0))
      \<lparr>tb_data_block := BlockReset (snd (BlockFinish (tb_data_block r))), tb_pending_handle := block_handle (length (tb_file r)) (block_image cur),
       tb_pending_index_entry := True, tb_status := OK\<rparr>"
  have len: "length (data_bytes (ls @ [cur])) \<le> data_cost (all_entries ls cur)"
    using s ne img by (simp add: tb_small_def kBlockTrailerSize_def)
  have eq: "tb_Flush memory_file r = (case tb_filter_block ?r of None \<Rightarrow> Some ?r
      | Some (policy, b) \<Rightarrow> map_option (\<lambda>b. ?r\<lparr>tb_filter_block := Some (policy, b)\<rparr>) (StartBlock policy b (tb_offset ?r)))"
    using b assms(5) ne built_block_nonempty [OF bb] WriteBlock_memory [OF st off bb]
    by (simp add: tb_Flush_def tb_blocks_def block_empty_def memory_file_def split: option.splits)
  have f': "tb_filtered ?r ls cur" using f by (simp add: tb_filtered_def)
  have o': "tb_offset ?r = word_of_nat (length (data_bytes (ls @ [cur])))" by (simp add: fl)
  from filter_flushed [OF f' o'] len small obtain r' fb where
    r': "tb_Flush memory_file r = Some r'" "r' = ?r\<lparr>tb_filter_block := fb\<rparr>" "tb_filtered r' (ls @ [cur]) empty_layout"
    unfolding eq by auto
  have "tb_blocks r' (ls @ [cur]) seps empty_layout"
    using b ne assms(6) shp by (auto simp: r'(2) tb_blocks_def BlockReset_built index_entries_block)
  moreover have "tb_pending r' (ls @ [cur]) seps empty_layout"
    using assms(6) by (simp add: r'(2) tb_pending_def data_handle_def fl)
  moreover have "tb_keys r' (ls @ [cur]) seps empty_layout"
    using k separated_flushed [of seps "map lay_entries (ls @ [cur])"] assms(6) by (simp add: r'(2) tb_keys_def)
  moreover have "tb_small r' (ls @ [cur]) empty_layout"
    using s len by (auto simp: r'(2) tb_small_def)
  ultimately show ?thesis using r'(1,3) by (auto simp: tb_inv_def)
qed

text \<open>The entry of the index.\<close>

lemma add_index_entry_ok:
  assumes il: "built_block 1 (tb_index_block r) il" "lay_entries il = index_entries ls seps"
    and o: "tb_index_block_options r = options\<lparr>opt_block_restart_interval := 1\<rparr>"
    and n: "length ls = Suc (length seps)" and h: "tb_pending_handle r = data_handle ls (length seps)"
    and key: "seps \<noteq> [] \<Longrightarrow> compare (last seps) key < 0" and small: "length (data_bytes ls) < 2 ^ 32"
  shows "\<exists>ib. tb_add_index_entry r key = Some (r\<lparr>tb_last_key := key, tb_index_block := ib, tb_pending_index_entry := False\<rparr>) \<and>
    CurrentSizeEstimate ib \<le> CurrentSizeEstimate (tb_index_block r) + length key + 39 \<and>
    (\<exists>il. built_block 1 ib il \<and> lay_entries il = index_entries ls (seps @ [key]))"
proof -
  let ?h = "data_handle ls (length seps)"
  have "length (data_bytes (take (length seps) ls)) \<le> length (data_bytes ls)"
    "length (block_image (ls ! length seps)) \<le> length (data_bytes ls)"
    using data_bytes_split [of "length seps" ls] n by simp_all
  then have "handle_set ?h" unfolding data_handle_def using small by (intro handle_set_small) simp_all
  then have enc: "HandleEncodeTo (tb_pending_handle r) [] = Some (handle_bytes ?h)" by (simp add: h HandleEncodeTo_set)
  have "0 < compare key (fst (last (lay_entries il)))" if "lay_entries il \<noteq> []"
  proof -
    have ne: "seps \<noteq> []" using that il(2) by (auto simp: index_entries_def)
    have "fst (last (index_entries ls seps)) = last seps"
      using ne that il(2) by (metis index_entries_keys last_map)
    then show ?thesis using key [OF ne] il(2) by (simp add: compare_swap)
  qed
  from BlockAdd_built [where compare = compare and key = key and val = "handle_bytes ?h", OF il(1) order_refl this] obtain ib il' where
    ib: "BlockAdd 1 compare (tb_index_block r) key (handle_bytes ?h) = Some ib" "built_block 1 ib il'"
      "lay_entries il' = lay_entries il @ [(key, handle_bytes ?h)]" by blast
  have "length (handle_bytes ?h) \<le> 20" using length_handle_bytes [of ?h] by (simp add: kMaxEncodedLength_def)
  with BlockAdd_size [OF ib(1)] have "CurrentSizeEstimate ib \<le> CurrentSizeEstimate (tb_index_block r) + length key + 39" by linarith
  then show ?thesis using enc ib il(2) o by (auto simp: tb_add_index_entry_def index_entries_key)
qed

lemma apart_later: "apart b s x \<Longrightarrow> compare s x < 0 \<Longrightarrow> compare x y \<le> 0 \<Longrightarrow> apart b s y"
  unfolding apart_def using alike_between [of y _ x] compare_less_trans [of _ s x] by (meson less_imp_le)

lemma separated_snoc_entry:
  "length seps \<le> length bs \<Longrightarrow>
    separated (bs @ [c @ [e]]) seps \<longleftrightarrow> separated (bs @ [c]) seps \<and>
      (\<forall>i < length seps. compare (seps ! i) (fst e) < 0 \<and> apart (bs ! i) (seps ! i) (fst e))"
  by (auto simp: separated_def nth_append)

lemma separated_snoc_key:
  "length bs = Suc (length seps) \<Longrightarrow>
    separated (bs @ [c]) (seps @ [s]) \<longleftrightarrow>
      separated (bs @ [c]) seps \<and> (\<forall>x \<in> set (last bs). compare (fst x) s \<le> 0) \<and>
      (\<forall>x \<in> set c. compare s (fst x) < 0 \<and> apart (last bs) s (fst x))"
proof -
  assume n: "length bs = Suc (length seps)"
  then have "last bs = bs ! length seps" by (metis diff_Suc_1 last_conv_nth list.size(3) nat.simps(3))
  then show ?thesis using n by (simp add: separated_def nth_append All_less_Suc) blast
qed

lemma separators_below:
  assumes "separated (map lay_entries (ls @ [cur])) seps" and "length seps \<le> length ls"
    and "\<And>l. l \<in> set ls \<Longrightarrow> lay_entries l \<noteq> []" and "length seps = length ls \<Longrightarrow> ls \<noteq> [] \<Longrightarrow> lay_entries cur \<noteq> []"
    and "\<And>x. x \<in> set (all_entries ls cur) \<Longrightarrow> compare (fst x) key < 0" and i: "i < length seps"
  shows "compare (seps ! i) key < 0" and "apart (map lay_entries ls ! i) (seps ! i) key"
proof -
  let ?bs = "map lay_entries (ls @ [cur])"
  have si: "Suc i < length (ls @ [cur])" and ne: "ls \<noteq> []" using i assms(2) by auto
  have "lay_entries ((ls @ [cur]) ! Suc i) \<noteq> []"
  proof (cases "Suc i < length ls")
    case True
    then show ?thesis using assms(3) [of "ls ! Suc i"] by (simp add: nth_append)
  next
    case False
    then have "Suc i = length ls" "length seps = length ls" using i assms(2) by simp_all
    then show ?thesis using assms(4) ne by (simp add: nth_append)
  qed
  then obtain x where x: "x \<in> set (?bs ! Suc i)" unfolding nth_map [OF si] using last_in_set by blast
  have "Suc i < length ?bs" using si by simp
  then have "?bs ! Suc i \<in> set (drop (Suc i) ?bs)" by (metis Cons_nth_drop_Suc list.set_intros(1))
  then have in_drop: "x \<in> set (concat (drop (Suc i) ?bs))" using x by auto
  then have "x \<in> set (all_entries ls cur)" using in_set_dropD [of _ "Suc i" ?bs] by (fastforce simp: all_entries_def)
  then have "compare (fst x) key < 0" by (rule assms(5))
  moreover have "compare (seps ! i) (fst x) < 0" using assms(1) i in_drop by (simp add: separated_def)
  moreover have "apart (?bs ! i) (seps ! i) (fst x)" using assms(1) i in_drop by (simp add: separated_def)
  moreover have "?bs ! i = map lay_entries ls ! i" using si by (simp add: nth_append)
  ultimately show "compare (seps ! i) key < 0" "apart (map lay_entries ls ! i) (seps ! i) key"
    using compare_less_trans [of "seps ! i" "fst x" key] apart_later [of "map lay_entries ls ! i" "seps ! i" "fst x" key] by simp_all
qed

text \<open>A builder whose last index entry has been added, when the next key is known.\<close>

definition tb_ready :: "byte list TableBuilder \<Rightarrow> layout list \<Rightarrow> slice list \<Rightarrow> layout \<Rightarrow> entry \<Rightarrow> bool" where
  "tb_ready r ls seps cur e \<longleftrightarrow>
     tb_blocks r ls seps cur \<and> \<not> tb_pending_index_entry r \<and> length seps = length ls \<and>
     separated (map lay_entries ls @ [lay_entries cur @ [e]]) seps \<and>
     CurrentSizeEstimate (tb_index_block r) \<le> 8 + index_cost (all_entries ls cur) \<and> tb_filtered r ls cur"

lemma all_entries_small: "tb_small r ls cur \<Longrightarrow> length (data_bytes ls) \<le> data_cost (all_entries ls cur)"
  by (auto simp: tb_small_def)

text \<open>A key from the last one on may close the index.\<close>

lemma closing_key:
  assumes i: "tb_inv r ls seps cur" and p: "tb_pending_index_entry r" and s: "compare (tb_last_key r) s \<le> 0"
  shows "all_entries ls cur \<noteq> [] \<and> tb_last_key r = fst (last (all_entries ls cur)) \<and>
    (\<forall>x \<in> set (all_entries ls cur). compare (fst x) s \<le> 0) \<and> (\<forall>j < length seps. compare (seps ! j) s < 0)"
proof -
  let ?es = "all_entries ls cur"
  have b: "tb_blocks r ls seps cur" and pe: "tb_pending r ls seps cur" and k: "tb_keys r ls seps cur"
    using i by (simp_all add: tb_inv_def)
  have cur: "lay_entries cur = []" and n: "length ls = Suc (length seps)" using p pe by (simp_all add: tb_pending_def)
  obtain ls0 l where ls: "ls = ls0 @ [l]" using n by (metis append_butlast_last_id list.size(3) nat.simps(3))
  have ln: "lay_entries l \<noteq> []" using b ls by (simp add: tb_blocks_def)
  have es: "?es = concat (map lay_entries ls0) @ lay_entries l" using cur ls by (simp add: all_entries_def)
  have last: "last ?es = last (lay_entries l)" "?es \<noteq> []" using es ln by simp_all
  have lk: "tb_last_key r = fst (last ?es)" using k last(2) by (simp add: tb_keys_def)
  have le: "compare (fst x) s \<le> 0" if x: "x \<in> set ?es" for x
  proof (cases "x = last ?es")
    case False
    then have "x \<in> set (butlast ?es)" using x last(2) by (metis append_butlast_last_id in_set_butlastD rotate1.simps(2) set_ConsD set_rotate1)
    moreover have "ordered (map fst (butlast ?es @ [last ?es]))" using k last(2) by (simp add: tb_keys_def)
    ultimately have "compare (fst x) (tb_last_key r) < 0" unfolding lk by (auto simp: ordered_append)
    then show ?thesis using s compare_less_trans [of "fst x" "tb_last_key r" s] by simp
  qed (use s lk in simp)
  have sep: "separated (map lay_entries (ls @ [cur])) seps" using k by (simp add: tb_keys_def)
  have "compare (seps ! i) s < 0" if i: "i < length seps" for i
  proof -
    let ?x = "last (lay_entries l)"
    have "?x \<in> set (concat (drop (Suc i) (map lay_entries (ls @ [cur]))))"
      using i n ls ln by (auto simp: drop_append not_less_eq_eq)
    then have "compare (seps ! i) (fst ?x) < 0" using sep i by (simp add: separated_def)
    moreover have "compare (fst ?x) s \<le> 0" using le last by (metis last_in_set)
    ultimately show ?thesis using compare_less_trans [of "seps ! i" "fst ?x" s] by simp
  qed
  then show ?thesis using le last(2) lk by blast
qed

lemma tb_ready_pending:
  assumes i: "tb_inv r ls seps cur" and p: "tb_pending_index_entry r"
    and o: "ordered (map fst (all_entries ls cur @ [e]))" and small: "data_cost (all_entries ls cur) < 2 ^ 32"
  defines "s \<equiv> separator (tb_last_key r) (fst e)"
  shows "\<exists>ib. tb_add_index_entry r s = Some (r\<lparr>tb_last_key := s, tb_index_block := ib, tb_pending_index_entry := False\<rparr>) \<and>
    tb_ready (r\<lparr>tb_last_key := s, tb_index_block := ib, tb_pending_index_entry := False\<rparr>) ls (seps @ [s]) cur e"
proof -
  let ?es = "all_entries ls cur"
  have b: "tb_blocks r ls seps cur" and pe: "tb_pending r ls seps cur" and k: "tb_keys r ls seps cur"
    and sm: "tb_small r ls cur" and f: "tb_filtered r ls cur" using i by (simp_all add: tb_inv_def)
  have cur: "lay_entries cur = []" and n: "length ls = Suc (length seps)" and h: "tb_pending_handle r = data_handle ls (length seps)"
    using p pe by (simp_all add: tb_pending_def)
  have lk: "?es \<noteq> []" "tb_last_key r = fst (last ?es)" using closing_key [OF i p, of "tb_last_key r"] by (simp_all add: compare_self)
  have "compare (tb_last_key r) (fst e) < 0" using o lk by (auto simp: ordered_append)
  from separator_between [OF this] have s: "compare (tb_last_key r) s \<le> 0" "compare s (fst e) < 0"
    by (simp_all add: s_def)
  have le: "\<And>x. x \<in> set ?es \<Longrightarrow> compare (fst x) s \<le> 0" and before: "\<And>i. i < length seps \<Longrightarrow> compare (seps ! i) s < 0"
    using closing_key [OF i p s(1)] by blast+
  then have l: "compare (last seps) s < 0" if "seps \<noteq> []" using that by (simp add: last_conv_nth)
  obtain il where il: "built_block 1 (tb_index_block r) il" "lay_entries il = index_entries ls seps"
    and o': "tb_index_block_options r = options\<lparr>opt_block_restart_interval := 1\<rparr>" using b by (auto simp: tb_blocks_def)
  have "length (data_bytes ls) < 2 ^ 32" using small all_entries_small [OF sm] by simp
  from add_index_entry_ok [OF il o' n h l this] obtain ib where
    ib: "tb_add_index_entry r s = Some (r\<lparr>tb_last_key := s, tb_index_block := ib, tb_pending_index_entry := False\<rparr>)"
      "CurrentSizeEstimate ib \<le> CurrentSizeEstimate (tb_index_block r) + length s + 39"
      "\<exists>il. built_block 1 ib il \<and> lay_entries il = index_entries ls (seps @ [s])" by auto
  have "length s \<le> length (fst (last ?es))" unfolding s_def lk by (rule separator_length)
  then have size: "CurrentSizeEstimate ib \<le> 8 + index_cost ?es" using ib(2) sm lk(1) by (auto simp: tb_small_def)
  have sep0: "separated (map lay_entries (ls @ [cur])) seps" using k by (simp add: tb_keys_def)
  have below: "\<And>x. x \<in> set ?es \<Longrightarrow> compare (fst x) (fst e) < 0" using o by (auto simp: ordered_append)
  have "compare (seps ! i) (fst e) < 0 \<and> apart (map lay_entries ls ! i) (seps ! i) (fst e)" if "i < length seps" for i
    using separators_below [OF sep0 _ _ _ below that] n b by (auto simp: tb_blocks_def)
  then have "separated (map lay_entries ls @ [[] @ [e]]) seps"
    using sep0 n by (subst separated_snoc_entry) (simp_all add: cur)
  moreover have last: "set (last (map lay_entries ls)) \<subseteq> set ?es" "last ?es \<in> set (last (map lay_entries ls))"
  proof -
    obtain ls0 l where ls: "ls = ls0 @ [l]" using n by (cases ls rule: rev_cases) auto
    then have "lay_entries l \<noteq> []" using b by (simp add: tb_blocks_def)
    then show "set (last (map lay_entries ls)) \<subseteq> set ?es" "last ?es \<in> set (last (map lay_entries ls))"
      using cur by (auto simp: all_entries_def ls)
  qed
  moreover have "apart (last (map lay_entries ls)) s (fst e)"
    using last(2) alike_separator [OF \<open>compare (tb_last_key r) (fst e) < 0\<close>, folded s_def] unfolding lk(2) apart_def by blast
  ultimately have "separated (map lay_entries ls @ [lay_entries cur @ [e]]) (seps @ [s])"
    using n le s(2) by (subst separated_snoc_key) (auto simp: cur)
  then have "tb_ready (r\<lparr>tb_last_key := s, tb_index_block := ib, tb_pending_index_entry := False\<rparr>) ls (seps @ [s]) cur e"
    using b ib(3) n size f by (simp add: tb_ready_def tb_blocks_def tb_filtered_def)
  then show ?thesis using ib(1) by blast
qed

lemma tb_ready_open:
  assumes i: "tb_inv r ls seps cur" and p: "\<not> tb_pending_index_entry r"
    and o: "ordered (map fst (all_entries ls cur @ [e]))"
  shows "tb_ready r ls seps cur e"
proof -
  have b: "tb_blocks r ls seps cur" and pe: "tb_pending r ls seps cur" and k: "tb_keys r ls seps cur"
    and sm: "tb_small r ls cur" and f: "tb_filtered r ls cur" using i by (simp_all add: tb_inv_def)
  have n: "length seps = length ls" "ls \<noteq> [] \<Longrightarrow> lay_entries cur \<noteq> []" using p pe by (simp_all add: tb_pending_def)
  have sep: "separated (map lay_entries (ls @ [cur])) seps" using k by (simp add: tb_keys_def)
  have below: "\<And>x. x \<in> set (all_entries ls cur) \<Longrightarrow> compare (fst x) (fst e) < 0" using o by (auto simp: ordered_append)
  have "compare (seps ! i) (fst e) < 0 \<and> apart (map lay_entries ls ! i) (seps ! i) (fst e)" if "i < length seps" for i
    using separators_below [OF sep _ _ _ below that] n b by (auto simp: tb_blocks_def)
  then have "separated (map lay_entries ls @ [lay_entries cur @ [e]]) seps"
    using sep n(1) by (subst separated_snoc_entry) simp_all
  moreover have "CurrentSizeEstimate (tb_index_block r) \<le> 8 + index_cost (all_entries ls cur)"
    using sm by (simp add: tb_small_def)
  ultimately show ?thesis using b p n f by (simp add: tb_ready_def)
qed

text \<open>Adding an entry.\<close>

lemma filter_AddKey:
  assumes "tb_filtered r ls cur" and "lay_entries cur' = lay_entries cur @ [e]"
  shows "tb_filtered (r\<lparr>tb_filter_block := map_option (\<lambda>(policy, b). (policy, AddKey b (fst e))) (tb_filter_block r)\<rparr>) ls cur'"
proof (cases "tb_filter_block r")
  case None
  then show ?thesis using assms(1) by (simp add: tb_filtered_def)
next
  case (Some pb)
  obtain policy b where pb: "pb = (policy, b)" by (cases pb)
  from tb_filteredE [OF assms(1) Some [unfolded pb]] obtain name fs ks where o: "opt_filter_policy options = Some (name, policy)" and
    b: "filter_policy.built policy b fs ks" "length fs = filter_number ls" "concat fs @ ks = map fst (all_entries ls cur)" and
    c: "\<And>i x. i < length ls \<Longrightarrow> x \<in> set (lay_entries (ls ! i)) \<Longrightarrow> filter_policy.covers fs ks (filter_number (take i ls)) (fst x)" and
    c': "\<And>x. x \<in> set (lay_entries cur) \<Longrightarrow> filter_policy.covers fs ks (filter_number ls) (fst x)" by blast
  note p = policy [OF o]
  have new: "filter_policy.built policy (AddKey b (fst e)) fs (ks @ [fst e])" by (rule filter_policy.built_AddKey [OF p b(1)])
  have all: "concat fs @ ks @ [fst e] = map fst (all_entries ls cur')" using b(3) assms(2) by (simp add: all_entries_def)
  have mono: "filter_policy.covers fs ks i key \<Longrightarrow> filter_policy.covers fs (ks @ [fst e]) i key" for i key
    by (auto simp: filter_policy.covers_def [OF p] nth_append split: if_splits)
  have last: "filter_policy.covers fs (ks @ [fst e]) (filter_number ls) (fst e)"
    using b(2) by (simp add: filter_policy.covers_def [OF p] nth_append)
  have "\<exists>name fs ks. opt_filter_policy options = Some (name, policy) \<and>
      filter_policy.built policy (AddKey b (fst e)) fs ks \<and> length fs = filter_number ls \<and> concat fs @ ks = map fst (all_entries ls cur') \<and>
      (\<forall>i < length ls. \<forall>x \<in> set (lay_entries (ls ! i)). filter_policy.covers fs ks (filter_number (take i ls)) (fst x)) \<and>
      (\<forall>x \<in> set (lay_entries cur'). filter_policy.covers fs ks (filter_number ls) (fst x))"
    using o new b(2) all c c' mono last assms(2)
    by (intro exI [of _ name] exI [of _ fs] exI [of _ "ks @ [fst e]"]) auto
  then show ?thesis using Some pb by (simp add: tb_filtered_def)
qed

lemma Add_inv:
  assumes i: "tb_inv r ls seps cur" and o: "ordered (map fst (all_entries ls cur @ [(key, val)]))"
    and small: "data_cost (all_entries ls cur @ [(key, val)]) < 2 ^ 32"
  shows "\<exists>r' ls' seps' cur'. tb_Add memory_file r key val = Some r' \<and> tb_inv r' ls' seps' cur' \<and>
    all_entries ls' cur' = all_entries ls cur @ [(key, val)]"
proof -
  let ?es = "all_entries ls cur" and ?e = "(key, val)"
  have b: "tb_blocks r ls seps cur" and k: "tb_keys r ls seps cur" and sm: "tb_small r ls cur" and pe: "tb_pending r ls seps cur"
    using i by (simp_all add: tb_inv_def)
  have ord: "\<not> (0 < tb_num_entries r \<and> \<not> 0 < compare key (tb_last_key r))"
  proof -
    have "0 < compare key (tb_last_key r)" if "?es \<noteq> []"
      using that k o by (auto simp: tb_keys_def compare_swap ordered_append)
    then show ?thesis using k by (cases "?es = []") (simp_all add: tb_keys_def)
  qed
  have "\<exists>r1 seps1. (if tb_pending_index_entry r then
        if \<not> block_empty (tb_data_block r) then None
        else tb_add_index_entry r (separator (tb_last_key r) key)
      else Some r) = Some r1 \<and> tb_ready r1 ls seps1 cur ?e \<and>
      tb_num_entries r1 = tb_num_entries r \<and> tb_data_block r1 = tb_data_block r"
  proof (cases "tb_pending_index_entry r")
    case True
    then have "lay_entries cur = []" using pe by (simp add: tb_pending_def)
    then have "block_empty (tb_data_block r)" using b built_block_nonempty [of interval "tb_data_block r" cur]
      by (simp add: tb_blocks_def block_empty_def)
    then show ?thesis using tb_ready_pending [OF i True o] small True by fastforce
  next
    case False
    then show ?thesis using tb_ready_open [OF i False o] by auto
  qed
  then obtain r1 seps1 where r1: "(if tb_pending_index_entry r then
        if \<not> block_empty (tb_data_block r) then None
        else tb_add_index_entry r (separator (tb_last_key r) key)
      else Some r) = Some r1" "tb_ready r1 ls seps1 cur ?e" "tb_num_entries r1 = tb_num_entries r" "tb_data_block r1 = tb_data_block r"
    by blast
  have b1: "tb_blocks r1 ls seps1 cur" and np: "\<not> tb_pending_index_entry r1" and n1: "length seps1 = length ls"
    and sep: "separated (map lay_entries ls @ [lay_entries cur @ [?e]]) seps1"
    and isz: "CurrentSizeEstimate (tb_index_block r1) \<le> 8 + index_cost ?es" and f1: "tb_filtered r1 ls cur"
    using r1(2) by (simp_all add: tb_ready_def)
  have bb: "built_block interval (tb_data_block r1) cur" using b1 by (simp add: tb_blocks_def)
  have "0 < compare key (fst (last (lay_entries cur)))" if "lay_entries cur \<noteq> []"
    using that o by (auto simp: compare_swap ordered_append all_entries_def)
  from BlockAdd_built [where compare = compare and key = key and val = val, OF bb interval this] obtain db cur' where
    db: "BlockAdd interval compare (tb_data_block r1) key val = Some db" "built_block interval db cur'"
      "lay_entries cur' = lay_entries cur @ [?e]" by blast
  have all: "all_entries ls cur' = ?es @ [?e]" by (simp add: all_entries_def db(3))
  let ?f = "map_option (\<lambda>(policy, b). (policy, AddKey b key)) (tb_filter_block r1)"
  let ?r2 = "r1\<lparr>tb_filter_block := ?f, tb_last_key := key, tb_num_entries := tb_num_entries r1 + 1, tb_data_block := db\<rparr>"
  have opts: "tb_options r = options" "tb_options r1 = options" "tb_status r = OK" "\<not> tb_closed r" using b b1 by (simp_all add: tb_blocks_def)
  have add: "tb_Add memory_file r key val = (if opt_block_size options \<le> CurrentSizeEstimate db then tb_Flush memory_file ?r2 else Some ?r2)"
  proof -
    have "\<not> \<not> ok (tb_status r)" using opts(3) by simp
    then show ?thesis
      unfolding tb_Add_def if_not_P [OF opts(4)] if_not_P [OF \<open>\<not> \<not> ok (tb_status r)\<close>] opts(1) if_not_P [OF ord] r1(1)
      using db(1) opts(2) by (simp add: Let_def)
  qed
  have b2: "tb_blocks ?r2 ls seps1 cur'" using b1 db(2) by (simp add: tb_blocks_def)
  have k2: "tb_keys ?r2 ls seps1 cur'" using k o sep r1(3) by (simp add: tb_keys_def all db(3))
  have f2: "tb_filtered ?r2 ls cur'" using filter_AddKey [OF f1 db(3)] by (simp add: tb_filtered_def)
  have s2: "tb_small ?r2 ls cur'"
  proof -
    have "CurrentSizeEstimate db \<le> CurrentSizeEstimate (tb_data_block r) + length key + length val + 19"
      using BlockAdd_size [OF db(1)] r1(4) by simp
    moreover have "lay_entries cur = [] \<Longrightarrow> CurrentSizeEstimate (tb_data_block r) = 8" using built_block_empty [OF bb] r1(4) by simp
    ultimately have "length (data_bytes ls) + CurrentSizeEstimate db + 5 \<le> data_cost ?es + (length key + length val + 32)"
      using sm by (auto simp: tb_small_def split: if_splits)
    then show ?thesis using isz by (simp add: tb_small_def all db(3))
  qed
  show ?thesis
  proof (cases "opt_block_size options \<le> CurrentSizeEstimate db")
    case True
    have "\<exists>r'. tb_Flush memory_file ?r2 = Some r' \<and> tb_inv r' (ls @ [cur']) seps1 empty_layout"
      by (rule Flush_inv [OF b2 k2 s2 f2]) (use np n1 db(3) small all in simp_all)
    then show ?thesis using add True all by fastforce
  next
    case False
    have "tb_pending ?r2 ls seps1 cur'" using np n1 db(3) by (simp add: tb_pending_def)
    then show ?thesis using add False b2 k2 s2 f2 all by (auto simp: tb_inv_def)
  qed
qed

end

end
