(* ===== verification/LdbTableFinish.thy ===== *)
theory LdbTableFinish
  imports LdbTableBuilt
begin

text \<open>
  The file that the builder of tables leaves behind: \<open>Add\<close> for each entry and then \<open>Finish\<close> do not fail, and the
  file has the data blocks, the filter, the index of the meta blocks, the index and the footer.
\<close>

fun tb_add_entries :: "'f WritableFile \<Rightarrow> 'f TableBuilder \<Rightarrow> entry list \<Rightarrow> 'f TableBuilder option" where
  "tb_add_entries io r [] = Some r"
| "tb_add_entries io r ((key, val) # es) =
     (case tb_Add io r key val of None \<Rightarrow> None | Some r \<Rightarrow> tb_add_entries io r es)"

text \<open>The whole work: a new builder, all entries, \<open>Finish\<close>.\<close>

definition build_table :: "Options \<Rightarrow> entry list \<Rightarrow> (Status \<times> byte list TableBuilder) option" where
  "build_table options es = do {
     r \<leftarrow> make_TableBuilder options [];
     r \<leftarrow> tb_add_entries memory_file r es;
     tb_Finish memory_file r
   }"

text \<open>A bound of the size of the file.\<close>

definition table_cost :: "Options \<Rightarrow> nat \<Rightarrow> entry list \<Rightarrow> nat" where
  "table_cost options filter_cost es =
     2 * data_cost es + index_cost es + filter_cost * length es +
     (case opt_filter_policy options of None \<Rightarrow> 0 | Some (name, policy) \<Rightarrow> length name) + 200"

definition filter_bytes :: "byte list option \<Rightarrow> byte list" where
  "filter_bytes fc = (case fc of None \<Rightarrow> [] | Some c \<Rightarrow> stored_block c 0)"

text \<open>The blocks of a file: \<open>fc\<close> are the filters, \<open>ml\<close> is the index of the meta blocks, \<open>il\<close> the index.\<close>

definition table_bytes :: "layout list \<Rightarrow> byte list option \<Rightarrow> layout \<Rightarrow> layout \<Rightarrow> byte list" where
  "table_bytes ls fc ml il =
     (let pre = data_bytes ls @ filter_bytes fc;
          mid = pre @ stored_block (block_image ml) 0
      in mid @ stored_block (block_image il) 0 @
         footer_bytes \<lparr>metaindex_handle = block_handle (length pre) (block_image ml),
                       index_handle = block_handle (length mid) (block_image il)\<rparr>)"

context table_options
begin

lemma tb_add_entries_inv:
  "tb_inv r ls seps cur \<Longrightarrow> ordered (map fst (all_entries ls cur @ es)) \<Longrightarrow> data_cost (all_entries ls cur @ es) < 2 ^ 32 \<Longrightarrow>
    \<exists>r' ls' seps' cur'. tb_add_entries memory_file r es = Some r' \<and> tb_inv r' ls' seps' cur' \<and>
      all_entries ls' cur' = all_entries ls cur @ es"
proof (induction es arbitrary: r ls seps cur)
  case (Cons e es)
  obtain key val where e: "e = (key, val)" by (cases e)
  have "ordered (map fst (all_entries ls cur @ [(key, val)]))" using Cons.prems(2) e by (auto simp: ordered_append ordered_Cons)
  moreover have "data_cost (all_entries ls cur @ [(key, val)]) < 2 ^ 32" using Cons.prems(3) e by (simp add: data_cost_def)
  ultimately obtain r1 ls1 seps1 cur1 where
    1: "tb_Add memory_file r key val = Some r1" "tb_inv r1 ls1 seps1 cur1" "all_entries ls1 cur1 = all_entries ls cur @ [(key, val)]"
    using Add_inv [OF Cons.prems(1)] by blast
  have "ordered (map fst (all_entries ls1 cur1 @ es))" "data_cost (all_entries ls1 cur1 @ es) < 2 ^ 32"
    using Cons.prems(2,3) 1(3) e by simp_all
  from Cons.IH [OF 1(2) this] show ?case using 1 e by auto
qed auto

text \<open>The last block is written.\<close>

lemma Flush_end:
  assumes i: "tb_inv r ls seps cur" and small: "data_cost (all_entries ls cur) < 2 ^ 32"
  shows "\<exists>r' ls' cur'. tb_Flush memory_file r = Some r' \<and> tb_inv r' ls' seps cur' \<and> lay_entries cur' = [] \<and>
    all_entries ls' cur' = all_entries ls cur"
proof -
  have b: "tb_blocks r ls seps cur" and p: "tb_pending r ls seps cur" using i by (simp_all add: tb_inv_def)
  have bb: "built_block interval (tb_data_block r) cur" using b by (simp add: tb_blocks_def)
  show ?thesis
  proof (cases "lay_entries cur = []")
    case True
    then have "tb_Flush memory_file r = Some r"
      using b built_block_nonempty [OF bb] by (simp add: tb_Flush_def tb_blocks_def block_empty_def)
    then show ?thesis using i True by blast
  next
    case False
    then have "\<not> tb_pending_index_entry r" "length seps = length ls" using p by (simp_all add: tb_pending_def split: if_splits)
    from Flush_inv [OF b _ _ _ this False small] i show ?thesis by (fastforce simp: tb_inv_def)
  qed
qed

text \<open>The filters: every key of a data block may match in its filter, and no lookup fails.\<close>

definition filters_cover :: "byte list option \<Rightarrow> layout list \<Rightarrow> bool" where
  "filters_cover fc ls \<longleftrightarrow>
     (case opt_filter_policy options of None \<Rightarrow> fc = None
      | Some (name, policy) \<Rightarrow> (\<exists>c. fc = Some c \<and>
          (\<forall>off key. FilterKeyMayMatch policy (make_FilterBlockReader c) off key \<noteq> None) \<and>
          (\<forall>i < length ls. \<forall>x \<in> set (lay_entries (ls ! i)).
             FilterKeyMayMatch policy (make_FilterBlockReader c) (bh_offset (data_handle ls i)) (fst x) = Some True)))"

definition filter_room :: "layout list \<Rightarrow> nat \<Rightarrow> nat" where
  "filter_room ls n = filter_cost * n + 4 * filter_number ls + 9"

lemma seg_cost:
  assumes "opt_filter_policy options = Some (name, policy)"
  shows "length (concat (map (filter_policy.seg policy) kss)) \<le> filter_cost * length (concat kss)"
proof (induction kss)
  case (Cons ks kss)
  have "length (filter_policy.seg policy ks) \<le> filter_cost * length ks"
    using policy_cost [OF assms, of ks] by (simp add: filter_policy.seg_def [OF policy [OF assms]])
  then show ?case using Cons by (simp add: algebra_simps)
qed simp

lemma Finish_filter:
  assumes f: "tb_filtered r ls cur" and cur: "lay_entries cur = []" and st: "tb_status r = OK" and fl: "tb_file r = data_bytes ls"
    and off: "tb_offset r = word_of_nat (length (data_bytes ls))"
    and small: "length (data_bytes ls) + filter_cost * length (all_entries ls cur) + 4 * filter_number ls + 9 < 2 ^ 32"
    and few: "length (all_entries ls cur) < 2 ^ 31"
  shows "\<exists>fc h fb. tb_write_filter_block memory_file r = (h, (wrote r (filter_bytes fc))\<lparr>tb_filter_block := fb\<rparr>) \<and>
    (fb = None \<longleftrightarrow> fc = None) \<and> (\<forall>c. fc = Some c \<longrightarrow> h = block_handle (length (data_bytes ls)) c) \<and> filters_cover fc ls \<and>
    length (filter_bytes fc) \<le> filter_room ls (length (all_entries ls cur)) + 5"
proof (cases "tb_filter_block r")
  case None
  have "wrote r [] = r" using fl off by (simp add: wrote_def)
  then show ?thesis using None f
    by (intro exI [of _ None] exI [of _ make_BlockHandle]) (simp add: tb_write_filter_block_def tb_filtered_def filters_cover_def filter_bytes_def)
next
  case (Some pb)
  obtain policy b where pb: "pb = (policy, b)" by (cases pb)
  from tb_filteredE [OF f Some [unfolded pb]] obtain name fs ks where o: "opt_filter_policy options = Some (name, policy)" and
    b: "filter_policy.built policy b fs ks" "length fs = filter_number ls" "concat fs @ ks = map fst (all_entries ls cur)" and
    c: "\<And>i x. i < length ls \<Longrightarrow> x \<in> set (lay_entries (ls ! i)) \<Longrightarrow> filter_policy.covers fs ks (filter_number (take i ls)) (fst x)" and
    c': "\<And>x. x \<in> set (lay_entries cur) \<Longrightarrow> filter_policy.covers fs ks (filter_number ls) (fst x)" by blast
  note p = policy [OF o]
  let ?segs = "map (filter_policy.seg policy) (filter_policy.filters fs ks)" and ?c = "fst (FilterBlockFinish policy b)"
  note img = filter_policy.FilterBlockFinish_layout [OF p b(1)]
  have n: "length (concat (filter_policy.filters fs ks)) = length (all_entries ls cur)"
    using arg_cong [OF b(3), of length] by (cases "ks = []") (simp_all add: filter_policy.filters_def [OF p])
  have segs: "length (concat ?segs) \<le> filter_cost * length (all_entries ls cur)" using seg_cost [OF o, of "filter_policy.filters fs ks"] n by simp
  have room: "length ?c \<le> filter_room ls (length (all_entries ls cur))"
  proof -
    have "length ?c = length (concat ?segs) + 4 * Suc (length ?segs) + 1"
      unfolding img by (simp only: length_append length_fixed32_table length_map) simp
    moreover have "length ?segs \<le> Suc (filter_number ls)" using b(2) by (simp add: filter_policy.filters_def [OF p])
    ultimately show ?thesis using segs by (simp add: filter_room_def)
  qed
  have reads: "FilterKeyMayMatch policy (make_FilterBlockReader ?c) off key =
      Some (if unat off div kFilterBase < length ?segs then KeyMayMatch policy key (?segs ! (unat off div kFilterBase)) else True)" for off key
    by (rule filter_policy.reader_finds_segment [OF p img]) (rule le_less_trans [OF segs], use small in linarith)
  have "FilterKeyMayMatch policy (make_FilterBlockReader ?c) (bh_offset (data_handle ls i)) (fst x) = Some True"
    if i: "i < length ls" and x: "x \<in> set (lay_entries (ls ! i))" for i x
  proof -
    have "length (data_bytes (take i ls)) \<le> length (data_bytes ls)" using data_bytes_take_mono [of i "length ls" ls] i by simp
    then have small': "length (data_bytes (take i ls)) < 2 ^ 64" using small by simp
    have at: "unat (bh_offset (data_handle ls i)) div kFilterBase = filter_number (take i ls)"
      unfolding data_handle_def block_handle_def filter_number_def BlockHandle.simps unat_u64 [OF small'] ..
    have "length (concat fs @ ks) < 2 ^ 31" using arg_cong [OF b(3), of length] few by simp
    from filter_policy.segment_matches [OF p c [OF i x] this] show ?thesis
      unfolding reads at by (simp only: length_map if_True simp_thms)
  qed
  moreover have "FilterKeyMayMatch policy (make_FilterBlockReader ?c) off key \<noteq> None" for off key unfolding reads by simp
  ultimately have cov: "filters_cover (Some ?c) ls" using o by (simp add: filters_cover_def)
  have w: "tb_write_filter_block memory_file r
      = (block_handle (length (data_bytes ls)) ?c, (wrote r (filter_bytes (Some ?c)))\<lparr>tb_filter_block := Some (policy, snd (FilterBlockFinish policy b))\<rparr>)"
  proof -
    let ?r = "r\<lparr>tb_filter_block := Some (policy, snd (FilterBlockFinish policy b))\<rparr>"
    have "tb_WriteRawBlock memory_file ?r ?c 0 = (block_handle (length (tb_file ?r)) ?c, wrote ?r (stored_block ?c 0))"
      by (rule WriteRaw_memory) (simp_all add: st off fl)
    then show ?thesis using Some pb st fl
      by (cases "FilterBlockFinish policy b") (simp add: tb_write_filter_block_def wrote_def filter_bytes_def)
  qed
  show ?thesis using room cov w
    by (intro exI [of _ "Some ?c"] exI [of _ "block_handle (length (data_bytes ls)) ?c"]
        exI [of _ "Some (policy, snd (FilterBlockFinish policy b))"]) (simp add: filter_bytes_def kBlockTrailerSize_def)
qed

text \<open>The index of the meta blocks, whose only entry is that of the filters.\<close>

definition meta_entries :: "layout list \<Rightarrow> byte list option \<Rightarrow> entry list" where
  "meta_entries ls fc =
     (case opt_filter_policy options of None \<Rightarrow> []
      | Some (name, policy) \<Rightarrow> [(filter_meta_key name, handle_bytes (block_handle (length (data_bytes ls)) (the fc)))])"

definition meta_room :: nat where
  "meta_room = 54 + (case opt_filter_policy options of None \<Rightarrow> 0 | Some (name, policy) \<Rightarrow> length name)"

lemma Finish_meta:
  assumes st: "tb_status r = OK" and off: "tb_offset r = word_of_nat (length (tb_file r))" and o: "tb_options r = options"
    and fc: "filters_cover fc ls" and fb: "tb_filter_block r = None \<longleftrightarrow> fc = None"
    and h: "\<And>c. fc = Some c \<Longrightarrow> h = block_handle (length (data_bytes ls)) c"
    and small: "length (data_bytes ls) < 2 ^ 32" "\<And>c. fc = Some c \<Longrightarrow> length c < 2 ^ 32"
  shows "\<exists>ml. tb_write_metaindex_block memory_file r h
      = Some (block_handle (length (tb_file r)) (block_image ml), wrote r (stored_block (block_image ml) 0)) \<and>
    shares ml \<and> points_ok ml \<and> lay_entries ml = meta_entries ls fc \<and> length (block_image ml) \<le> meta_room"
proof -
  from make_BlockBuilder_built [OF interval] obtain b where b: "make_BlockBuilder interval = Some b" "built_block interval b empty_layout"
    by blast
  have sz: "CurrentSizeEstimate b = 8" by (rule CurrentSizeEstimate_fresh [OF b(1)])
  have written: "tb_WriteBlock memory_file r b'
      = Some (BlockReset (snd (BlockFinish b')), block_handle (length (tb_file r)) (block_image ml), wrote r (stored_block (block_image ml) 0))
      \<and> shares ml \<and> points_ok ml \<and> length (block_image ml) = CurrentSizeEstimate b'"
    if "built_block interval b' ml" for b' ml
    using WriteBlock_memory [OF st off that] BlockFinish_image [OF that] that by (simp add: built_block_def)
  show ?thesis
  proof (cases "opt_filter_policy options")
    case None
    then have "fc = None" using fc by (simp add: filters_cover_def)
    then show ?thesis using None fb st o b(1) written [OF b(2)] sz
      by (intro exI [of _ empty_layout]) (simp add: tb_write_metaindex_block_def meta_entries_def meta_room_def)
  next
    case (Some np)
    obtain name policy where np: "np = (name, policy)" by (cases np)
    then obtain c where c: "fc = Some c" using fc Some by (auto simp: filters_cover_def)
    let ?h = "block_handle (length (data_bytes ls)) c"
    have enc: "HandleEncodeTo h [] = Some (handle_bytes ?h)"
      using HandleEncodeTo_set [OF handle_set_small [OF small(1) small(2) [OF c]]] h [OF c] by simp
    from BlockAdd_built [where compare = compare and key = "filter_meta_key name" and val = "handle_bytes ?h", OF b(2) interval] obtain b' ml where
      b': "BlockAdd interval compare b (filter_meta_key name) (handle_bytes ?h) = Some b'" "built_block interval b' ml"
        "lay_entries ml = [(filter_meta_key name, handle_bytes ?h)]" by auto
    have "length (filter_meta_key name) = 7 + length name" by (simp add: filter_meta_key_def bytes_of_def)
    then have "length (block_image ml) \<le> meta_room"
      using BlockAdd_size [OF b'(1)] written [OF b'(2)] sz length_handle_bytes [of ?h] Some np
      by (simp add: kMaxEncodedLength_def meta_room_def)
    moreover have "lay_entries ml = meta_entries ls fc" using b'(3) Some np c by (simp add: meta_entries_def)
    moreover have "tb_write_metaindex_block memory_file r h
      = Some (block_handle (length (tb_file r)) (block_image ml), wrote r (stored_block (block_image ml) 0))"
      using Some np fb c st o b(1) enc b'(1) written [OF b'(2)] by (simp add: tb_write_metaindex_block_def)
    ultimately show ?thesis using written [OF b'(2)] by blast
  qed
qed

text \<open>The index gets its last key, and is written.\<close>

lemma Finish_index:
  assumes i: "tb_inv r0 ls seps cur" and cur: "lay_entries cur = []" and small: "length (data_bytes ls) < 2 ^ 32"
    and r: "tb_status r = OK" "tb_offset r = word_of_nat (length (tb_file r))" "tb_options r = options"
      "tb_index_block_options r = tb_index_block_options r0" "tb_index_block r = tb_index_block r0" "tb_last_key r = tb_last_key r0"
      "tb_pending_index_entry r = tb_pending_index_entry r0" "tb_pending_handle r = tb_pending_handle r0"
  shows "\<exists>r' il seps'. tb_write_index_block memory_file r = Some (block_handle (length (tb_file r)) (block_image il), r') \<and>
    tb_status r' = OK \<and> tb_file r' = tb_file r @ stored_block (block_image il) 0 \<and> tb_offset r' = word_of_nat (length (tb_file r')) \<and>
    tb_num_entries r' = tb_num_entries r \<and> shares il \<and> points_ok il \<and> lay_entries il = index_entries ls seps' \<and> length seps' = length ls \<and>
    separated (map lay_entries ls) seps' \<and> length (block_image il) \<le> 8 + index_cost (all_entries ls cur)"
proof -
  let ?es = "all_entries ls cur"
  have b: "tb_blocks r0 ls seps cur" and pe: "tb_pending r0 ls seps cur" and k: "tb_keys r0 ls seps cur" and sm: "tb_small r0 ls cur"
    using i by (simp_all add: tb_inv_def)
  have sep: "separated (map lay_entries ls @ [[]]) seps" using k cur by (simp add: tb_keys_def)
  obtain il where il: "built_block 1 (tb_index_block r0) il" "lay_entries il = index_entries ls seps"
    and o': "tb_index_block_options r0 = options\<lparr>opt_block_restart_interval := 1\<rparr>" using b by (auto simp: tb_blocks_def)
  have "\<exists>r1 il' seps'. (if tb_pending_index_entry r then tb_add_index_entry r (successor (tb_last_key r)) else Some r) = Some r1 \<and>
      tb_status r1 = OK \<and> tb_file r1 = tb_file r \<and> tb_offset r1 = tb_offset r \<and> tb_options r1 = tb_options r \<and> tb_num_entries r1 = tb_num_entries r \<and>
      built_block 1 (tb_index_block r1) il' \<and> lay_entries il' = index_entries ls seps' \<and> length seps' = length ls \<and>
      separated (map lay_entries ls) seps' \<and> CurrentSizeEstimate (tb_index_block r1) \<le> 8 + index_cost ?es"
  proof (cases "tb_pending_index_entry r0")
    case False
    have n: "length seps = length ls" using False pe by (simp add: tb_pending_def)
    then have "separated (map lay_entries ls) seps" using sep separated_flushed [of seps "map lay_entries ls"] by simp
    moreover have "CurrentSizeEstimate (tb_index_block r0) \<le> 8 + index_cost ?es" using sm by (simp add: tb_small_def)
    ultimately show ?thesis using False r il n by (intro exI [of _ r] exI [of _ il] exI [of _ seps]) simp
  next
    case True
    let ?s = "successor (tb_last_key r0)"
    have n: "length ls = Suc (length seps)" and h: "tb_pending_handle r0 = data_handle ls (length seps)"
      using True pe by (simp_all add: tb_pending_def)
    from closing_key [OF i True successor_above] have ne: "?es \<noteq> []" and lk: "tb_last_key r0 = fst (last ?es)"
      and le: "\<And>x. x \<in> set ?es \<Longrightarrow> compare (fst x) ?s \<le> 0" and before: "\<And>i. i < length seps \<Longrightarrow> compare (seps ! i) ?s < 0" by blast+
    have l: "compare (last seps) ?s < 0" if "seps \<noteq> []" using that before by (simp add: last_conv_nth)
    from add_index_entry_ok [of r, OF _ il(2) _ n _ l small] r il(1) o' h obtain ib il' where
      ib: "tb_add_index_entry r ?s = Some (r\<lparr>tb_last_key := ?s, tb_index_block := ib, tb_pending_index_entry := False\<rparr>)"
        "CurrentSizeEstimate ib \<le> CurrentSizeEstimate (tb_index_block r) + length ?s + 39"
        "built_block 1 ib il'" "lay_entries il' = index_entries ls (seps @ [?s])" by auto
    have "length ?s \<le> length (fst (last ?es))" unfolding lk by (rule successor_length)
    then have size: "CurrentSizeEstimate ib \<le> 8 + index_cost ?es" using ib(2) sm ne r(5) by (auto simp: tb_small_def)
    have "set (last (map lay_entries ls)) \<subseteq> set ?es"
      using n by (cases ls rule: rev_cases) (auto simp: all_entries_def)
    then have "separated (map lay_entries ls @ [[]]) (seps @ [?s])"
      using sep n le by (subst separated_snoc_key) auto
    then have "separated (map lay_entries ls) (seps @ [?s])"
      using n separated_flushed [of "seps @ [?s]" "map lay_entries ls"] by simp
    then show ?thesis using True r ib size n
      by (intro exI [of _ "r\<lparr>tb_last_key := ?s, tb_index_block := ib, tb_pending_index_entry := False\<rparr>"] exI [of _ il'] exI [of _ "seps @ [?s]"]) simp
  qed
  then obtain r1 il' seps' where
    r1: "(if tb_pending_index_entry r then tb_add_index_entry r (successor (tb_last_key r)) else Some r) = Some r1"
      "tb_status r1 = OK" "tb_file r1 = tb_file r" "tb_offset r1 = tb_offset r" "tb_options r1 = tb_options r" "tb_num_entries r1 = tb_num_entries r"
    and il': "built_block 1 (tb_index_block r1) il'" "lay_entries il' = index_entries ls seps'" "length seps' = length ls"
      "separated (map lay_entries ls) seps'" "CurrentSizeEstimate (tb_index_block r1) \<le> 8 + index_cost ?es" by blast
  have off1: "tb_offset r1 = word_of_nat (length (tb_file r1))" using r1 r(2) by simp
  let ?r' = "(wrote r1 (stored_block (block_image il') 0))\<lparr>tb_index_block := BlockReset (snd (BlockFinish (tb_index_block r1)))\<rparr>"
  have "tb_write_index_block memory_file r = Some (block_handle (length (tb_file r)) (block_image il'), ?r')"
  proof -
    have nok: "\<not> \<not> ok (tb_status r)" using r(1) by simp
    show ?thesis
      unfolding tb_write_index_block_def if_not_P [OF nok] r(3) r1(1) using WriteBlock_memory [OF r1(2) off1 il'(1)] r1(3) by simp
  qed
  moreover have "shares il'" "points_ok il'" "length (block_image il') = CurrentSizeEstimate (tb_index_block r1)"
    using il'(1) BlockFinish_image [OF il'(1)] by (simp_all add: built_block_def)
  ultimately show ?thesis using il'(2-5) r1(2,3,6)
    by (intro exI [of _ ?r'] exI [of _ il'] exI [of _ seps']) simp
qed

section \<open>The file\<close>

text \<open>What the file has: blocks in the layout, their entries in order, and keys that separate them.\<close>

definition table_file :: "byte list \<Rightarrow> layout list \<Rightarrow> slice list \<Rightarrow> byte list option \<Rightarrow> layout \<Rightarrow> layout \<Rightarrow> entry list \<Rightarrow> bool" where
  "table_file fl ls seps fc ml il es \<longleftrightarrow>
     fl = table_bytes ls fc ml il \<and> length fl < 2 ^ 32 \<and>
     (\<forall>l \<in> set ls. shares l \<and> points_ok l) \<and> shares ml \<and> points_ok ml \<and> shares il \<and> points_ok il \<and>
     es = concat (map lay_entries ls) \<and> ordered (map fst es) \<and>
     lay_entries il = index_entries ls seps \<and> length seps = length ls \<and> separated (map lay_entries ls) seps \<and>
     (\<forall>l \<in> set ls. lay_entries l \<noteq> []) \<and> lay_entries ml = meta_entries ls fc \<and> filters_cover fc ls"

lemma few_entries: "32 * length es \<le> data_cost es"
  by (induction es) (simp_all add: data_cost_def)

lemma tb_Finish_file:
  assumes i: "tb_inv r ls seps cur" and small: "table_cost options filter_cost (all_entries ls cur) < 2 ^ 32"
  shows "\<exists>r' ls' seps' fc ml il. tb_Finish memory_file r = Some (OK, r') \<and>
    table_file (tb_file r') ls' seps' fc ml il (all_entries ls cur) \<and> tb_FileSize r' = word_of_nat (length (tb_file r')) \<and>
    tb_NumEntries r' = word_of_nat (length (all_entries ls cur))"
proof -
  let ?es = "all_entries ls cur"
  have "data_cost ?es < 2 ^ 32" using small by (simp add: table_cost_def)
  from Flush_end [OF i this] obtain r0 ls' cur' where
    r0: "tb_Flush memory_file r = Some r0" "tb_inv r0 ls' seps cur'" "lay_entries cur' = []" "all_entries ls' cur' = ?es" by blast
  have b: "tb_blocks r0 ls' seps cur'" and k: "tb_keys r0 ls' seps cur'" and sm: "tb_small r0 ls' cur'" and f: "tb_filtered r0 ls' cur'"
    using r0(2) by (simp_all add: tb_inv_def)
  have len: "length (data_bytes ls') \<le> data_cost ?es" using all_entries_small [OF sm] r0(4) by simp
  have fn: "4 * filter_number ls' \<le> data_cost ?es"
    using len by (simp add: filter_number_def kFilterBase_def kFilterBaseLg_def)
  let ?r1 = "r0\<lparr>tb_closed := True\<rparr>"
  have st1: "tb_status ?r1 = OK" "tb_file ?r1 = data_bytes ls'" "tb_offset ?r1 = word_of_nat (length (data_bytes ls'))" "tb_options ?r1 = options"
    using b by (simp_all add: tb_blocks_def)
  have f1: "tb_filtered ?r1 ls' cur'" using f by (simp add: tb_filtered_def)
  have "length (data_bytes ls') + filter_cost * length (all_entries ls' cur') + 4 * filter_number ls' + 9 < 2 ^ 32"
    "length (all_entries ls' cur') < 2 ^ 31"
    using small len fn few_entries [of ?es] by (simp_all add: table_cost_def r0(4))
  from Finish_filter [OF f1 r0(3) st1(1-3) this] obtain fc h fb where
    fl: "tb_write_filter_block memory_file ?r1 = (h, (wrote ?r1 (filter_bytes fc))\<lparr>tb_filter_block := fb\<rparr>)"
      "fb = None \<longleftrightarrow> fc = None" "\<And>c. fc = Some c \<Longrightarrow> h = block_handle (length (data_bytes ls')) c" "filters_cover fc ls'"
      "length (filter_bytes fc) \<le> filter_room ls' (length ?es) + 5" unfolding r0(4) by blast
  let ?r2 = "(wrote ?r1 (filter_bytes fc))\<lparr>tb_filter_block := fb\<rparr>"
  have st2: "tb_status ?r2 = OK" "tb_file ?r2 = data_bytes ls' @ filter_bytes fc" "tb_offset ?r2 = word_of_nat (length (tb_file ?r2))"
    "tb_options ?r2 = options" "tb_filter_block ?r2 = None \<longleftrightarrow> fc = None" using st1 fl(2) by simp_all
  have small_f: "length (filter_bytes fc) \<le> filter_cost * length ?es + data_cost ?es + 14"
    using fl(5) fn by (simp add: filter_room_def)
  have c: "length c < 2 ^ 32" if "fc = Some c" for c
    using small_f small that by (simp add: filter_bytes_def table_cost_def)
  have d: "length (data_bytes ls') < 2 ^ 32" using len \<open>data_cost ?es < 2 ^ 32\<close> by simp
  from Finish_meta [OF st2(1,3,4) fl(4) st2(5) fl(3) d c] obtain ml where
    ml: "tb_write_metaindex_block memory_file ?r2 h
      = Some (block_handle (length (tb_file ?r2)) (block_image ml), wrote ?r2 (stored_block (block_image ml) 0))"
      "shares ml" "points_ok ml" "lay_entries ml = meta_entries ls' fc" "length (block_image ml) \<le> meta_room" by blast
  let ?r3 = "wrote ?r2 (stored_block (block_image ml) 0)"
  have "\<exists>r' il seps'. tb_write_index_block memory_file ?r3 = Some (block_handle (length (tb_file ?r3)) (block_image il), r') \<and>
    tb_status r' = OK \<and> tb_file r' = tb_file ?r3 @ stored_block (block_image il) 0 \<and> tb_offset r' = word_of_nat (length (tb_file r')) \<and>
    tb_num_entries r' = tb_num_entries ?r3 \<and> shares il \<and> points_ok il \<and> lay_entries il = index_entries ls' seps' \<and> length seps' = length ls' \<and>
    separated (map lay_entries ls') seps' \<and> length (block_image il) \<le> 8 + index_cost (all_entries ls' cur')"
    by (rule Finish_index [OF r0(2,3) d]) (use st2 in simp_all)
  then obtain r4 il seps' where
    r4: "tb_write_index_block memory_file ?r3 = Some (block_handle (length (tb_file ?r3)) (block_image il), r4)"
      "tb_status r4 = OK" "tb_file r4 = tb_file ?r3 @ stored_block (block_image il) 0" "tb_offset r4 = word_of_nat (length (tb_file r4))"
      "tb_num_entries r4 = tb_num_entries ?r3" and
    il: "shares il" "points_ok il" "lay_entries il = index_entries ls' seps'" "length seps' = length ls'"
      "separated (map lay_entries ls') seps'" "length (block_image il) \<le> 8 + index_cost ?es"
    unfolding r0(4) by blast
  let ?mh = "block_handle (length (tb_file ?r2)) (block_image ml)" and ?ih = "block_handle (length (tb_file ?r3)) (block_image il)"
  let ?footer = "footer_bytes \<lparr>metaindex_handle = ?mh, index_handle = ?ih\<rparr>"
  let ?r5 = "wrote r4 ?footer"
  have lml: "length (block_image ml) + 5 \<le> 60 + (case opt_filter_policy options of None \<Rightarrow> 0 | Some (name, policy) \<Rightarrow> length name)"
    using ml(5) by (simp add: meta_room_def)
  have l2: "length (tb_file ?r2) \<le> 2 * data_cost ?es + filter_cost * length ?es + 14"
    using len small_f by (simp add: st2(2))
  have l3: "length (tb_file ?r3) \<le> length (tb_file ?r2) + 60 + (case opt_filter_policy options of None \<Rightarrow> 0 | Some (name, policy) \<Rightarrow> length name)"
    using lml by (simp add: kBlockTrailerSize_def)
  have l4: "length (tb_file r4) \<le> length (tb_file ?r3) + 13 + index_cost ?es"
    unfolding r4(3) using il(6) by (simp add: kBlockTrailerSize_def)
  have lf: "length ?footer = 48" by (simp add: length_footer_bytes kEncodedLength_def kMaxEncodedLength_def)
  have total: "length (tb_file r4) + 48 < 2 ^ 32"
    using l2 l3 l4 small by (simp add: table_cost_def)
  have less: "length (tb_file ?r3) + length (block_image il) \<le> length (tb_file r4)" "length (tb_file ?r2) + length (block_image ml) \<le> length (tb_file ?r3)"
    by (simp_all add: r4(3))
  have "handle_set ?mh" "handle_set ?ih" by (intro handle_set_small; use total less in simp)+
  then have enc: "FooterEncodeTo \<lparr>metaindex_handle = ?mh, index_handle = ?ih\<rparr> [] = Some ?footer" by (simp add: FooterEncodeTo_set)
  have footer: "tb_write_footer memory_file r4 ?mh ?ih = Some (?r5\<lparr>tb_status := OK\<rparr>)"
    using r4(2,4) enc by (simp add: tb_write_footer_def memory_file_def wrote_def)
  have "\<not> tb_closed r0" using b by (simp add: tb_blocks_def)
  then have "tb_Finish memory_file r = Some (OK, ?r5\<lparr>tb_status := OK\<rparr>)"
    unfolding tb_Finish_def r0(1) using fl(1) ml(1) r4(1) footer by (simp add: Let_def)
  moreover have "table_file (tb_file ?r5) ls' seps' fc ml il ?es"
  proof -
    have "tb_file ?r5 = table_bytes ls' fc ml il" using r4(3) st2(2) by (simp add: table_bytes_def Let_def add.assoc)
    moreover have "length (tb_file ?r5) < 2 ^ 32" using total lf by simp
    moreover have "?es = concat (map lay_entries ls')" using r0(3,4) by (simp add: all_entries_def)
    moreover have "ordered (map fst ?es)" using k by (simp add: tb_keys_def r0(4))
    moreover have "\<forall>l \<in> set ls'. shares l \<and> points_ok l \<and> lay_entries l \<noteq> []" using b by (simp add: tb_blocks_def)
    ultimately show ?thesis using ml(2-4) il(1-5) fl(4) by (simp add: table_file_def)
  qed
  moreover have "tb_num_entries r4 = length ?es" using k r4(5) by (simp add: tb_keys_def r0(4))
  ultimately show ?thesis
    by (intro exI [of _ "?r5\<lparr>tb_status := OK\<rparr>"] exI [of _ ls'] exI [of _ seps'] exI [of _ fc] exI [of _ ml] exI [of _ il])
      (simp add: tb_FileSize_def tb_NumEntries_def)
qed

lemma build_table_file:
  assumes "ordered (map fst es)" and "table_cost options filter_cost es < 2 ^ 32"
  shows "\<exists>r ls seps fc ml il. build_table options es = Some (OK, r) \<and> table_file (tb_file r) ls seps fc ml il es \<and>
    tb_FileSize r = word_of_nat (length (tb_file r)) \<and> tb_NumEntries r = word_of_nat (length es)"
proof -
  from make_TableBuilder_inv obtain r0 where r0: "make_TableBuilder options [] = Some r0" "tb_inv r0 [] [] empty_layout" by blast
  have e: "all_entries [] empty_layout @ es = es" by (simp add: all_entries_def)
  have "data_cost es < 2 ^ 32" using assms(2) by (simp add: table_cost_def)
  with tb_add_entries_inv [OF r0(2), of es, unfolded e] assms(1) obtain r1 ls seps cur where
    r1: "tb_add_entries memory_file r0 es = Some r1" "tb_inv r1 ls seps cur" "all_entries ls cur = es" by blast
  from tb_Finish_file [OF r1(2)] assms(2) r1(3) show ?thesis
    unfolding build_table_def r0(1) using r1(1) by auto
qed

end

end
