(* ===== verification/LdbTwoLevelProps.thy ===== *)
theory LdbTwoLevelProps
  imports LdbTwoLevel "HOL-Library.Multiset"
begin

text \<open>
  The contract that the two-level iterator relies on, and the proof that it walks through the entries of all
  data blocks, empty ones included, in both directions.
\<close>

lemma concat_take_member: "x \<in> set (concat (take m xss)) \<Longrightarrow> \<exists>k < m. k < length xss \<and> x \<in> set (xss ! k)"
proof -
  assume "x \<in> set (concat (take m xss))"
  then obtain i where "i < length (take m xss)" "x \<in> set (take m xss ! i)" by (auto simp: in_set_conv_nth [of _ "take m xss"])
  then show ?thesis by (intro exI [of _ i]) simp
qed

lemma concat_drop_member: "x \<in> set (concat (drop m xss)) \<Longrightarrow> \<exists>k. m \<le> k \<and> k < length xss \<and> x \<in> set (xss ! k)"
proof -
  assume "x \<in> set (concat (drop m xss))"
  then obtain i where "i < length (drop m xss)" "x \<in> set (drop m xss ! i)" by (auto simp: in_set_conv_nth [of _ "drop m xss"])
  then show ?thesis by (intro exI [of _ "m + i"]) simp
qed

section \<open>The contract\<close>

text \<open>
  The index has an entry for each data block, whose key separates the block from the ones behind it. The
  contents of the block of an index value are \<open>block_of\<close>. \<open>world_ok w H\<close> is the invariant of the state behind
  \<open>block_function\<close> while the handles \<open>H\<close> are held; an open data iterator holds one, which is given back
  when it is deleted.
\<close>

locale two_level_client = comparator compare for compare :: "slice \<Rightarrow> slice \<Rightarrow> int" +
  fixes arg :: "('i, 'd, 'w) two_level_arg"
    and index_at :: "'i \<Rightarrow> entry list \<Rightarrow> nat \<Rightarrow> bool"
    and index_seekable :: "slice \<Rightarrow> bool"
    and data_at :: "'h \<Rightarrow> 'd \<Rightarrow> entry list \<Rightarrow> nat \<Rightarrow> bool"
    and data_seekable :: "slice \<Rightarrow> bool"
    and world_ok :: "'w \<Rightarrow> 'h multiset \<Rightarrow> bool"
    and block_of :: "slice \<Rightarrow> entry list"
    and index :: "entry list"
  assumes index: "sorted_iterator compare (index_ops arg) index_at index_seekable"
    and data: "sorted_iterator compare (data_ops arg) (data_at h) data_seekable"
    and opens: "e \<in> set index \<Longrightarrow> world_ok w H \<Longrightarrow>
      \<exists>d w' h q. block_function arg (snd e) w = Some (d, w') \<and> world_ok w' (add_mset h H) \<and> data_at h d (block_of (snd e)) q"
    and deletes: "world_ok w (add_mset h H) \<Longrightarrow> data_at h d es q \<Longrightarrow> \<exists>w'. delete_iter arg d w = Some w' \<and> world_ok w' H"
    and block_ordered: "e \<in> set index \<Longrightarrow> ordered (map fst (block_of (snd e)))"
    and block_below: "e \<in> set index \<Longrightarrow> x \<in> set (block_of (snd e)) \<Longrightarrow> compare (fst x) (fst e) \<le> 0"
    and block_above: "Suc i < length index \<Longrightarrow> x \<in> set (block_of (snd (index ! Suc i))) \<Longrightarrow> compare (fst (index ! i)) (fst x) < 0"
begin

definition blocks :: "entry list list" where
  "blocks = map (\<lambda>e. block_of (snd e)) index"

definition start :: "nat \<Rightarrow> nat" where
  "start j = length (concat (take j blocks))"

lemma length_blocks [simp]: "length blocks = length index"
  by (simp add: blocks_def)

lemma blocks_nth: "j < length index \<Longrightarrow> blocks ! j = block_of (snd (index ! j))"
  by (simp add: blocks_def)

lemma start_0 [simp]: "start 0 = 0"
  by (simp add: start_def)

lemma start_Suc: "j < length index \<Longrightarrow> start (Suc j) = start j + length (blocks ! j)"
  by (simp add: start_def take_Suc_conv_app_nth)

lemma start_end: "start (length index) = length (concat blocks)"
  by (simp add: start_def)

lemma start_le: "start j \<le> length (concat blocks)"
  unfolding start_def by (metis append_take_drop_id concat_append le_add1 length_append)

lemma concat_at: "j < length index \<Longrightarrow> q < length (blocks ! j) \<Longrightarrow>
    concat blocks ! (start j + q) = blocks ! j ! q \<and> start j + q < length (concat blocks)"
proof -
  assume j: "j < length index" and q: "q < length (blocks ! j)"
  have "concat blocks = concat (take j blocks) @ blocks ! j @ concat (drop (Suc j) blocks)"
    using id_take_nth_drop [of j blocks] j by (metis concat.simps(2) concat_append length_blocks)
  then show ?thesis using q by (simp add: start_def nth_append)
qed

text \<open>What the iterator holds: nothing, or a block at a position.\<close>

definition opened :: "'h multiset \<Rightarrow> ('i, 'd, 'w) two_level \<Rightarrow> (entry list \<times> nat) option \<Rightarrow> bool" where
  "opened H t c \<longleftrightarrow> tl_status t = OK \<and>
     (case data_iter t of None \<Rightarrow> c = None \<and> world_ok (tl_world t) H
      | Some d \<Rightarrow> \<exists>h q. c = Some (block_of (data_block_handle t), q) \<and> data_at h d (block_of (data_block_handle t)) q \<and>
          world_ok (tl_world t) (add_mset h H))"

lemma data_status: "data_at h d es q \<Longrightarrow> ok (IterStatus (data_ops arg) d)"
  using sorted_iterator.status_at [OF data] by simp

lemma opened_index [simp]: "opened H (t\<lparr>index_iter := i\<rparr>) c \<longleftrightarrow> opened H t c"
  by (cases "data_iter t") (simp_all add: opened_def)

lemma SetDataIterator_None:
  assumes "opened H t c"
  shows "\<exists>w. SetDataIterator arg t None = Some (t\<lparr>data_iter := None, tl_world := w\<rparr>) \<and>
    opened H (t\<lparr>data_iter := None, tl_world := w\<rparr>) None"
proof (cases "data_iter t")
  case None
  then have "t = t\<lparr>data_iter := None, tl_world := tl_world t\<rparr>" by (cases t) simp
  then show ?thesis using assms None by (intro exI [of _ "tl_world t"]) (simp add: SetDataIterator_def opened_def)
next
  case (Some d)
  then obtain h q where d: "data_at h d (block_of (data_block_handle t)) q" "world_ok (tl_world t) (add_mset h H)" "tl_status t = OK"
    using assms by (auto simp: opened_def)
  from deletes [OF d(2,1)] obtain w where w: "delete_iter arg d (tl_world t) = Some w" "world_ok w H" by blast
  then show ?thesis using Some d data_status [OF d(1)]
    by (intro exI [of _ w]) (simp add: SetDataIterator_def SaveError_def opened_def)
qed

text \<open>Opening the block of the index entry that the iterator stands at.\<close>

lemma InitDataBlock_at:
  assumes o: "opened H t c" and i: "index_at (index_iter t) index r" and r: "r < length index"
  shows "\<exists>t' q. InitDataBlock arg t = Some t' \<and> opened H t' (Some (blocks ! r, q)) \<and> index_iter t' = index_iter t \<and>
    data_block_handle t' = snd (index ! r)"
proof -
  let ?v = "snd (index ! r)"
  have e: "index ! r \<in> set index" using r by simp
  have v: "Valid (index_ops arg) (index_iter t)" "Val (index_ops arg) (index_iter t) = ?v"
    using sorted_iterator.valid_at [OF index i] sorted_iterator.val_at [OF index i r] r by simp_all
  show ?thesis
  proof (cases "data_iter t \<noteq> None \<and> slice_compare ?v (data_block_handle t) = 0")
    case True
    then have same: "data_block_handle t = ?v" by (simp add: slice_compare_order split: if_splits)
    obtain d where d: "data_iter t = Some d" using True by blast
    then obtain h q where "data_at h d (block_of ?v) q" "world_ok (tl_world t) (add_mset h H)" "tl_status t = OK"
      using o same by (auto simp: opened_def)
    then have "opened H t (Some (blocks ! r, q))" using d same by (auto simp: opened_def blocks_nth [OF r])
    then show ?thesis using True v same by (auto simp: InitDataBlock_def)
  next
    case False
    show ?thesis
    proof (cases "data_iter t")
      case None
      then have "world_ok (tl_world t) H" "tl_status t = OK" using o by (simp_all add: opened_def)
      from opens [OF e this(1)] obtain d w' h q where
        d: "block_function arg ?v (tl_world t) = Some (d, w')" "world_ok w' (add_mset h H)" "data_at h d (block_of ?v) q" by blast
      then show ?thesis using None v \<open>tl_status t = OK\<close>
        by (auto simp: InitDataBlock_def SetDataIterator_def opened_def blocks_nth [OF r])
    next
      case (Some old)
      then obtain h0 q0 where old: "data_at h0 old (block_of (data_block_handle t)) q0"
          "world_ok (tl_world t) (add_mset h0 H)" "tl_status t = OK"
        using o by (auto simp: opened_def)
      from opens [OF e old(2)] obtain d w' h q where
        d: "block_function arg ?v (tl_world t) = Some (d, w')" "world_ok w' (add_mset h (add_mset h0 H))"
          "data_at h d (block_of ?v) q" by blast
      then have "world_ok w' (add_mset h0 (add_mset h H))" by (simp add: add_mset_commute)
      from deletes [OF this old(1)] obtain w where w: "delete_iter arg old w' = Some w" "world_ok w (add_mset h H)" by blast
      show ?thesis using Some v False d(1,3) w old(3) data_status [OF old(1)]
        by (auto simp: InitDataBlock_def SetDataIterator_def SaveError_def opened_def blocks_nth [OF r])
    qed
  qed
qed

lemma InitDataBlock_end:
  assumes "opened H t c" and "index_at (index_iter t) index (length index)"
  shows "\<exists>w. InitDataBlock arg t = Some (t\<lparr>data_iter := None, tl_world := w\<rparr>) \<and>
    opened H (t\<lparr>data_iter := None, tl_world := w\<rparr>) None"
  using SetDataIterator_None [OF assms(1)] sorted_iterator.valid_at [OF index assms(2)] by (simp add: InitDataBlock_def)

lemma with_data_at:
  assumes "opened H t (Some (es, q))" and "\<And>h d. data_at h d es q \<Longrightarrow> \<exists>d'. f d = Some d' \<and> data_at h d' es q'"
  shows "\<exists>d. with_data f t = Some (t\<lparr>data_iter := Some d\<rparr>) \<and> opened H (t\<lparr>data_iter := Some d\<rparr>) (Some (es, q'))"
  using assms(1) assms(2) by (fastforce simp: opened_def with_data_def split: option.splits)

lemma opened_valid: "opened H t (Some (es, q)) \<Longrightarrow> tl_Valid arg t \<longleftrightarrow> q < length es"
  using sorted_iterator.valid_at [OF data] by (auto simp: opened_def tl_Valid_def split: option.splits)

lemma opened_None: "opened H t None \<Longrightarrow> data_iter t = None \<and> \<not> tl_Valid arg t"
  by (auto simp: opened_def tl_Valid_def split: option.splits)

section \<open>Positions\<close>

definition two_level_at :: "'h multiset \<Rightarrow> ('i, 'd, 'w) two_level \<Rightarrow> entry list \<Rightarrow> nat \<Rightarrow> bool" where
  "two_level_at H t es p \<longleftrightarrow> es = concat blocks \<and>
     (opened H t None \<and> p = length es \<and> (\<exists>r. index_at (index_iter t) index r) \<or>
      (\<exists>r q. r < length index \<and> index_at (index_iter t) index r \<and> opened H t (Some (blocks ! r, q)) \<and>
         data_block_handle t = snd (index ! r) \<and> q < length (blocks ! r) \<and> p = start r + q))"

text \<open>On the way the iterator may stand behind the entries of a block, or before those of all.\<close>

definition between :: "'h multiset \<Rightarrow> ('i, 'd, 'w) two_level \<Rightarrow> nat \<Rightarrow> nat \<Rightarrow> bool" where
  "between H t r q \<longleftrightarrow> index_at (index_iter t) index r \<and>
     (if r < length index
      then opened H t (Some (blocks ! r, q)) \<and> q \<le> length (blocks ! r) \<and> data_block_handle t = snd (index ! r)
      else opened H t None \<and> q = 0)"

lemma between_here: "between H t r q \<Longrightarrow> r < length index \<Longrightarrow> q < length (blocks ! r) \<Longrightarrow> two_level_at H t (concat blocks) (start r + q)"
  by (auto simp: between_def two_level_at_def)

lemma between_valid: "between H t r q \<Longrightarrow> tl_Valid arg t \<longleftrightarrow> r < length index \<and> q < length (blocks ! r)"
  using opened_valid opened_None by (fastforce simp: between_def split: if_splits)

lemma index_bound: "index_at i index r \<Longrightarrow> r \<le> length index"
  by (rule sorted_iterator.at_bound [OF index])

text \<open>Moving the index and entering the block there.\<close>

lemma enter_block:
  assumes o: "opened H t c" and i: "index_at i index r"
    and enter: "\<And>h d q. r < length index \<Longrightarrow> data_at h d (blocks ! r) q \<Longrightarrow>
      \<exists>d'. enter d = Some d' \<and> data_at h d' (blocks ! r) (f (blocks ! r))"
    and f: "r < length index \<Longrightarrow> f (blocks ! r) \<le> length (blocks ! r)"
  shows "\<exists>t' t''. InitDataBlock arg (t\<lparr>index_iter := i\<rparr>) = Some t' \<and> with_data enter t' = Some t'' \<and>
    between H t'' r (if r < length index then f (blocks ! r) else 0)"
proof (cases "r < length index")
  case True
  have "opened H (t\<lparr>index_iter := i\<rparr>) c" using o by simp
  from InitDataBlock_at [OF this _ True] i obtain t' q where
    t': "InitDataBlock arg (t\<lparr>index_iter := i\<rparr>) = Some t'" "opened H t' (Some (blocks ! r, q))" "index_iter t' = i"
      "data_block_handle t' = snd (index ! r)" by auto
  from with_data_at [where f = enter and q' = "f (blocks ! r)", OF t'(2)] enter [OF True] obtain d where
    "with_data enter t' = Some (t'\<lparr>data_iter := Some d\<rparr>)" "opened H (t'\<lparr>data_iter := Some d\<rparr>) (Some (blocks ! r, f (blocks ! r)))"
    by blast
  then show ?thesis using t' i True f by (auto simp: between_def)
next
  case False
  then have r: "r = length index" using index_bound [OF i] by simp
  have "opened H (t\<lparr>index_iter := i\<rparr>) c" using o by simp
  from InitDataBlock_end [OF this] i r obtain w where
    "InitDataBlock arg (t\<lparr>index_iter := i\<rparr>) = Some (t\<lparr>index_iter := i, data_iter := None, tl_world := w\<rparr>)"
    "opened H (t\<lparr>index_iter := i, data_iter := None, tl_world := w\<rparr>) None" by auto
  then show ?thesis using i r by (auto simp: between_def with_data_def)
qed

lemma skip_end:
  assumes "between H t r q" and "\<not> r < length index"
  shows "\<exists>t'. skip_turn arg move enter t = Some (Leave t') \<and> two_level_at H t' (concat blocks) (length (concat blocks))"
proof -
  have o: "opened H t None" and i: "index_at (index_iter t) index r" using assms by (simp_all add: between_def)
  then have "\<not> Valid (index_ops arg) (index_iter t)" using sorted_iterator.valid_at [OF index i] assms(2) by simp
  moreover obtain w where "SetDataIterator arg t None = Some (t\<lparr>data_iter := None, tl_world := w\<rparr>)"
    "opened H (t\<lparr>data_iter := None, tl_world := w\<rparr>) None"
    using SetDataIterator_None [OF o] by blast
  ultimately show ?thesis using opened_None [OF o] i by (auto simp: skip_turn_def two_level_at_def)
qed

lemma skip_step:
  assumes b: "between H t r q" and r: "r < length index" "\<not> q < length (blocks ! r)"
    and move: "move (index_iter t) = Some i" "index_at i index r'"
    and enter: "\<And>h d q. r' < length index \<Longrightarrow> data_at h d (blocks ! r') q \<Longrightarrow>
      \<exists>d'. enter d = Some d' \<and> data_at h d' (blocks ! r') (f (blocks ! r'))"
    and f: "r' < length index \<Longrightarrow> f (blocks ! r') \<le> length (blocks ! r')"
  shows "\<exists>t'. skip_turn arg move enter t = Some (Continue t') \<and> between H t' r' (if r' < length index then f (blocks ! r') else 0)"
proof -
  have o: "opened H t (Some (blocks ! r, q))" and i: "index_at (index_iter t) index r"
    using b r(1) by (simp_all add: between_def)
  have "Valid (index_ops arg) (index_iter t)" using sorted_iterator.valid_at [OF index i] r by simp
  moreover have "\<not> tl_Valid arg t" using between_valid [OF b] r by simp
  moreover obtain t' t'' where "InitDataBlock arg (t\<lparr>index_iter := i\<rparr>) = Some t'" "with_data enter t' = Some t''"
    "between H t'' r' (if r' < length index then f (blocks ! r') else 0)"
    using enter_block [where f = f and enter = enter, OF o move(2)] enter f by blast
  ultimately show ?thesis using move(1) by (simp add: skip_turn_def)
qed

lemma data_first: "data_at h d es q \<Longrightarrow> \<exists>d'. SeekToFirst (data_ops arg) d = Some d' \<and> data_at h d' es 0"
  by (rule sorted_iterator.first_at [OF data])

lemma data_last: "data_at h d es q \<Longrightarrow> \<exists>d'. SeekToLast (data_ops arg) d = Some d' \<and> data_at h d' es (length es - 1)"
  by (rule sorted_iterator.last_at [OF data])

lemma skip_forward:
  "between H t r q \<Longrightarrow> \<exists>t'. SkipEmptyDataBlocksForward arg t = Some t' \<and>
    two_level_at H t' (concat blocks) (if r < length index then start r + q else length (concat blocks))"
proof (induction "length index - r" arbitrary: t r q rule: less_induct)
  case less
  show ?case
  proof (cases "r < length index")
    case False
    from skip_end [OF less.prems False] show ?thesis using False crun_Leave
      by (fastforce simp: SkipEmptyDataBlocksForward_def)
  next
    case True
    show ?thesis
    proof (cases "q < length (blocks ! r)")
      case here: True
      then have "skip_turn arg (Next (index_ops arg)) (SeekToFirst (data_ops arg)) t = Some (Leave t)"
        using between_valid [OF less.prems] True by (simp add: skip_turn_def)
      then show ?thesis using between_here [OF less.prems True here] True crun_Leave
        by (fastforce simp: SkipEmptyDataBlocksForward_def)
    next
      case False
      have i: "index_at (index_iter t) index r" and q: "q = length (blocks ! r)"
        using less.prems True False by (simp_all add: between_def)
      obtain i' where i': "Next (index_ops arg) (index_iter t) = Some i'" "index_at i' index (Suc r)"
        using sorted_iterator.next_at [OF index i True] by auto
      obtain t' where t': "skip_turn arg (Next (index_ops arg)) (SeekToFirst (data_ops arg)) t = Some (Continue t')"
        "between H t' (Suc r) 0"
        using skip_step [where f = "\<lambda>es. 0" and enter = "SeekToFirst (data_ops arg)" and move = "Next (index_ops arg)", OF less.prems True False i'] data_first by auto
      have "length index - Suc r < length index - r" using True by simp
      from less.hyps [OF this t'(2)] obtain t'' where
        t'': "SkipEmptyDataBlocksForward arg t' = Some t''"
          "two_level_at H t'' (concat blocks) (if Suc r < length index then start (Suc r) + 0 else length (concat blocks))" by blast
      have "(if Suc r < length index then start (Suc r) + 0 else length (concat blocks)) = start r + q"
      proof (cases "Suc r < length index")
        case False
        then have "Suc r = length index" using True by simp
        then show ?thesis using start_Suc [OF True] start_end q by simp
      qed (use start_Suc [OF True] q in simp)
      then show ?thesis using t'' True crun_Continue [of "skip_turn arg (Next (index_ops arg)) (SeekToFirst (data_ops arg))" t t', OF t'(1)]
        by (simp add: SkipEmptyDataBlocksForward_def)
    qed
  qed
qed

lemma skip_backward:
  "between H t r q \<Longrightarrow> \<exists>t'. SkipEmptyDataBlocksBackward arg t = Some t' \<and>
    two_level_at H t' (concat blocks)
      (if r < length index \<and> q < length (blocks ! r) then start r + q
       else if r < length index \<and> 0 < start r then start r - 1 else length (concat blocks))"
proof (induction r arbitrary: t q rule: less_induct)
  case (less r)
  show ?case
  proof (cases "r < length index")
    case False
    from skip_end [OF less.prems False] show ?thesis using False crun_Leave
      by (fastforce simp: SkipEmptyDataBlocksBackward_def)
  next
    case True
    show ?thesis
    proof (cases "q < length (blocks ! r)")
      case here: True
      then have "skip_turn arg (Prev (index_ops arg)) (SeekToLast (data_ops arg)) t = Some (Leave t)"
        using between_valid [OF less.prems] True by (simp add: skip_turn_def)
      then show ?thesis using between_here [OF less.prems True here] True here crun_Leave
        by (fastforce simp: SkipEmptyDataBlocksBackward_def)
    next
      case False
      have i: "index_at (index_iter t) index r" using less.prems by (simp add: between_def)
      let ?r = "if r = 0 then length index else r - 1"
      obtain i' where i': "Prev (index_ops arg) (index_iter t) = Some i'" "index_at i' index ?r"
        using sorted_iterator.prev_at [OF index i True] by auto
      obtain t' where t': "skip_turn arg (Prev (index_ops arg)) (SeekToLast (data_ops arg)) t = Some (Continue t')"
        "between H t' ?r (if ?r < length index then length (blocks ! ?r) - 1 else 0)"
        using skip_step [where f = "\<lambda>es. length es - 1" and enter = "SeekToLast (data_ops arg)" and move = "Prev (index_ops arg)", OF less.prems True False i'] data_last
        by auto
      note run = crun_Continue [of "skip_turn arg (Prev (index_ops arg)) (SeekToLast (data_ops arg))" t t', OF t'(1), folded SkipEmptyDataBlocksBackward_def]
      show ?thesis
      proof (cases r)
        case 0
        then have "between H t' (length index) 0" using t'(2) by simp
        from skip_end [OF this] show ?thesis using run 0 False crun_Leave
          by (fastforce simp: SkipEmptyDataBlocksBackward_def)
      next
        case (Suc k)
        then have k: "k < r" "k < length index" "?r = k" using True by simp_all
        then have "between H t' k (length (blocks ! k) - 1)" using t'(2) by simp
        from less.IH [OF k(1) this] obtain t'' where t'': "SkipEmptyDataBlocksBackward arg t' = Some t''"
          "two_level_at H t'' (concat blocks)
            (if k < length index \<and> length (blocks ! k) - 1 < length (blocks ! k) then start k + (length (blocks ! k) - 1)
             else if k < length index \<and> 0 < start k then start k - 1 else length (concat blocks))" by blast
        have s: "start r = start k + length (blocks ! k)" using start_Suc [OF k(2)] Suc by simp
        show ?thesis
          using t'' run False True k(2) s by (cases "blocks ! k") (auto split: if_splits)
      qed
    qed
  qed
qed

section \<open>The order of the entries\<close>

lemma block_keys:
  "j < length index \<Longrightarrow> x \<in> set (blocks ! j) \<Longrightarrow> compare (fst x) (fst (index ! j)) \<le> 0"
  using block_below [of "index ! j" x] by (simp add: blocks_nth)

lemma index_ordered: "index_at i index r \<Longrightarrow> ordered (map fst index)"
  by (rule sorted_iterator.at_ordered [OF index])

lemma index_less: "index_at it index r \<Longrightarrow> i < j \<Longrightarrow> j < length index \<Longrightarrow> compare (fst (index ! i)) (fst (index ! j)) < 0"
  using ordered_nth [OF index_ordered] by blast

lemma block_later:
  assumes i: "index_at it index r" and "i < j" and "j < length index" and x: "x \<in> set (blocks ! j)"
  shows "compare (fst (index ! i)) (fst x) < 0"
proof -
  obtain k where k: "j = Suc k" "i \<le> k" using assms(2) by (cases j) auto
  have above: "compare (fst (index ! k)) (fst x) < 0" using block_above [of k x] x assms(3) k by (simp add: blocks_nth)
  show ?thesis
  proof (cases "i = k")
    case False
    then have "compare (fst (index ! i)) (fst (index ! k)) < 0" using index_less [OF i, of i k] k assms(3) by simp
    with above show ?thesis using compare_less_trans [of "fst (index ! i)" "fst (index ! k)" "fst x"] by simp
  qed (use above in simp)
qed

lemma concat_ordered:
  assumes i: "index_at it index r"
  shows "ordered (map fst (concat blocks))"
proof -
  have "n \<le> length index \<Longrightarrow> ordered (map fst (concat (take n blocks))) \<and>
      (\<forall>x \<in> set (concat (take n blocks)). \<exists>k < n. compare (fst x) (fst (index ! k)) \<le> 0)" for n
  proof (induction n)
    case (Suc n)
    then have n: "n < length index" by simp
    have "compare (fst x) (fst y) < 0" if x: "x \<in> set (concat (take n blocks))" and y: "y \<in> set (blocks ! n)" for x y
    proof -
      obtain k where k: "k < n" "compare (fst x) (fst (index ! k)) \<le> 0" using Suc.IH n x by (meson less_imp_le)
      then show ?thesis using block_later [OF i k(1) n y] compare_less_trans [of "fst x" "fst (index ! k)" "fst y"] by simp
    qed
    moreover have "ordered (map fst (blocks ! n))" using block_ordered n by (simp add: blocks_nth)
    moreover have "\<exists>k < Suc n. compare (fst x) (fst (index ! k)) \<le> 0" if x: "x \<in> set (concat (take n blocks)) \<union> set (blocks ! n)" for x
    proof (cases "x \<in> set (blocks ! n)")
      case True
      then show ?thesis using block_keys [OF n] by blast
    next
      case False
      then obtain k where "k < n" "compare (fst x) (fst (index ! k)) \<le> 0" using x Suc.IH n by (meson UnE less_imp_le)
      then show ?thesis by (intro exI [of _ k]) simp
    qed
    ultimately show ?case using Suc n by (auto simp: take_Suc_conv_app_nth ordered_append)
  qed simp
  from this [of "length index"] show ?thesis by simp
qed

lemma below_concat:
  assumes i: "index_at it index r0" and r: "r = below t index"
  shows "below t (concat blocks) = (if r < length index then start r + below t (blocks ! r) else length (concat blocks))"
proof (rule below_unique)
  let ?p = "if r < length index then start r + below t (blocks ! r) else length (concat blocks)"
  have len: "r < length index \<Longrightarrow> start r + below t (blocks ! r) \<le> start (Suc r)"
    using below_le [of t "blocks ! r"] by (simp add: start_Suc)
  then show "?p \<le> length (concat blocks)" using start_le [of "Suc r"] by auto
  have before: "compare (fst x) t < 0" if k: "k < r" and x: "x \<in> set (blocks ! k)" for k x
  proof -
    have "compare (fst (index ! k)) t < 0" "k < length index" using below_less [of k t index] below_le [of t index] k r by simp_all
    then show ?thesis using block_keys [OF _ x] compare_less_trans [of "fst x" "fst (index ! k)" t] by simp
  qed
  have early: "compare (fst (concat blocks ! j)) t < 0" if "j < start r" for j
  proof -
    let ?x = "concat blocks ! j"
    have "concat blocks = concat (take r blocks) @ concat (drop r blocks)" by (metis append_take_drop_id concat_append)
    then have "?x = concat (take r blocks) ! j" using that unfolding start_def by (metis nth_append)
    moreover have "concat (take r blocks) ! j \<in> set (concat (take r blocks))" using that unfolding start_def by (rule nth_mem)
    ultimately have "?x \<in> set (concat (take r blocks))" by (simp only:)
    from concat_take_member [OF this] obtain k where "k < r" "?x \<in> set (blocks ! k)" by blast
    then show ?thesis by (rule before)
  qed
  show "\<forall>j < ?p. compare (fst (concat blocks ! j)) t < 0"
  proof (intro allI impI)
    fix j assume j: "j < ?p"
    show "compare (fst (concat blocks ! j)) t < 0"
    proof (cases "j < start r")
      case False
      have "r < length index"
      proof (rule ccontr)
        assume "\<not> r < length index"
        then have "r = length index" using below_le [of t index] r by simp
        then show False using j False start_end by simp
      qed
      then have q: "j - start r < below t (blocks ! r)" "start r + (j - start r) = j" using j False by simp_all
      then have "concat blocks ! j = blocks ! r ! (j - start r)"
        using concat_at [OF \<open>r < length index\<close>, of "j - start r"] below_le [of t "blocks ! r"] by simp
      then show ?thesis using below_less [OF q(1)] by simp
    qed (rule early)
  qed
  show "0 \<le> compare (fst (concat blocks ! ?p)) t" if p: "?p < length (concat blocks)"
  proof -
    have rl: "r < length index" using p by (simp split: if_splits)
    have ind: "0 \<le> compare (fst (index ! r)) t" using below_at [of t index] rl r by simp
    show ?thesis
    proof (cases "below t (blocks ! r) < length (blocks ! r)")
      case True
      then show ?thesis using concat_at [OF rl True] below_at [OF True] rl by simp
    next
      case False
      then have "below t (blocks ! r) = length (blocks ! r)" using below_le [of t "blocks ! r"] by simp
      then have pos: "?p = start (Suc r)" using rl by (simp add: start_Suc)
      have split: "concat blocks = concat (take (Suc r) blocks) @ concat (drop (Suc r) blocks)"
        by (metis append_take_drop_id concat_append)
      then have "length (concat blocks) = start (Suc r) + length (concat (drop (Suc r) blocks))"
        unfolding start_def by (metis length_append)
      then have ne: "concat (drop (Suc r) blocks) \<noteq> []" using p unfolding pos by auto
      have "concat blocks ! ?p = concat (drop (Suc r) blocks) ! 0"
        unfolding pos by (subst split) (simp only: start_def nth_append_length_plus [where n = 0, simplified])
      then have "concat blocks ! ?p \<in> set (concat (drop (Suc r) blocks))" using ne by (metis length_greater_0_conv nth_mem)
      from concat_drop_member [OF this] obtain k where k: "Suc r \<le> k" "k < length blocks" "concat blocks ! ?p \<in> set (blocks ! k)"
        by blast
      then have "compare (fst (index ! r)) (fst (concat blocks ! ?p)) < 0" using block_later [OF i, of r k] k by simp
      moreover have "compare t (fst (index ! r)) \<le> 0" using ind compare_swap_le by blast
      ultimately have "compare t (fst (concat blocks ! ?p)) < 0" by (meson compare_less_trans less_imp_le)
      then show ?thesis by (simp add: compare_swap)
    qed
  qed
qed

section \<open>The interface\<close>

lemma two_level_between:
  assumes "two_level_at H t es p" and "p < length es"
  obtains r q where "between H t r q" "r < length index" "q < length (blocks ! r)" "p = start r + q" "es ! p = blocks ! r ! q"
  using assms concat_at by (fastforce simp: two_level_at_def between_def)

lemma two_level_opened: "two_level_at H t es p \<Longrightarrow> \<exists>c r. opened H t c \<and> index_at (index_iter t) index r"
  by (auto simp: two_level_at_def)

lemma opened_key:
  assumes "opened H t (Some (es, q))" and "q < length es"
  shows "tl_key arg t = fst (es ! q) \<and> tl_value arg t = snd (es ! q)"
  using assms sorted_iterator.key_at [OF data] sorted_iterator.val_at [OF data]
  by (auto simp: opened_def tl_key_def tl_value_def split: option.splits)

lemma opened_ok:
  assumes "opened H t c" and "index_at (index_iter t) index r"
  shows "tl_iter_status arg t = OK"
  using assms sorted_iterator.status_at [OF index] sorted_iterator.status_at [OF data]
  by (auto simp: opened_def tl_iter_status_def split: option.splits)

lemma start_block_le: "r < length index \<Longrightarrow> start r + length (blocks ! r) \<le> length (concat blocks)"
  using start_le [of "Suc r"] by (simp add: start_Suc)

lemma last_position:
  assumes "index \<noteq> []"
  shows "(let r = length index - 1; q = length (blocks ! r) - 1
      in if q < length (blocks ! r) then start r + q else if 0 < start r then start r - 1 else length (concat blocks))
    = length (concat blocks) - 1"
proof -
  obtain r where r: "length index = Suc r" using assms by (cases index) auto
  then have "length (concat blocks) = start r + length (blocks ! r)" using start_Suc [of r] start_end by simp
  then show ?thesis using r by (cases "blocks ! r") (auto simp: Let_def)
qed

lemma no_blocks: "index = [] \<Longrightarrow> concat blocks = []"
  unfolding blocks_def by simp

end

sublocale two_level_client < two_level: sorted_iterator compare "two_level_ops arg" "two_level_at H"
    "\<lambda>t. index_seekable t \<and> data_seekable t" for H
proof
  fix s es p t assume a: "two_level_at H s es p"
  obtain c r where o: "opened H s c" and i: "index_at (index_iter s) index r" using two_level_opened [OF a] by blast
  have es: "es = concat blocks" using a by (simp add: two_level_at_def)
  show "p \<le> length es"
    using a start_block_le by (fastforce simp: two_level_at_def)
  show "ordered (map fst es)" unfolding es by (rule concat_ordered [OF i])
  have here: "between H s r q \<Longrightarrow> r < length index \<Longrightarrow> q < length (blocks ! r) \<Longrightarrow> tl_Valid arg s" for r q
    using between_valid by blast
  show "Valid (two_level_ops arg) s \<longleftrightarrow> p < length es"
    using a here opened_None concat_at by (fastforce simp: two_level_at_def two_level_ops_def between_def)
  show "IterStatus (two_level_ops arg) s = OK" using opened_ok [OF o i] by (simp add: two_level_ops_def)
  show "\<exists>s'. SeekToFirst (two_level_ops arg) s = Some s' \<and> two_level_at H s' es 0"
  proof -
    obtain i' where i': "SeekToFirst (index_ops arg) (index_iter s) = Some i'" "index_at i' index 0"
      using sorted_iterator.first_at [OF index i] by blast
    from enter_block [where f = "\<lambda>es. 0" and enter = "SeekToFirst (data_ops arg)", OF o i'(2)] data_first obtain t' t'' where
      t: "InitDataBlock arg (s\<lparr>index_iter := i'\<rparr>) = Some t'" "with_data (SeekToFirst (data_ops arg)) t' = Some t''"
        "between H t'' 0 0" by auto
    have "(if 0 < length index then start 0 + 0 else length (concat blocks)) = 0" using no_blocks by auto
    with skip_forward [OF t(3)] show ?thesis using i'(1) t(1,2) by (auto simp: two_level_ops_def tl_SeekToFirst_def es)
  qed
  show "\<exists>s'. SeekToLast (two_level_ops arg) s = Some s' \<and> two_level_at H s' es (length es - 1)"
  proof -
    let ?r = "length index - 1"
    obtain i' where i': "SeekToLast (index_ops arg) (index_iter s) = Some i'" "index_at i' index ?r"
      using sorted_iterator.last_at [OF index i] by blast
    from enter_block [where f = "\<lambda>es. length es - 1" and enter = "SeekToLast (data_ops arg)", OF o i'(2)] data_last obtain t' t'' where
      t: "InitDataBlock arg (s\<lparr>index_iter := i'\<rparr>) = Some t'" "with_data (SeekToLast (data_ops arg)) t' = Some t''"
        "between H t'' ?r (if ?r < length index then length (blocks ! ?r) - 1 else 0)" by auto
    have "(if ?r < length index \<and> (if ?r < length index then length (blocks ! ?r) - 1 else 0) < length (blocks ! ?r)
         then start ?r + (if ?r < length index then length (blocks ! ?r) - 1 else 0)
         else if ?r < length index \<and> 0 < start ?r then start ?r - 1 else length (concat blocks)) = length es - 1"
    proof (cases "index = []")
      case True
      then have "\<not> ?r < length index" by simp
      moreover have "length (concat blocks) = 0" using no_blocks [OF True] by (simp only: list.size)
      ultimately show ?thesis by (simp only: es if_False simp_thms diff_0_eq_0)
    next
      case False
      then have "?r < length index" by simp
      then show ?thesis using last_position [OF False] unfolding es Let_def by (simp only: simp_thms if_True)
    qed
    with skip_backward [OF t(3)] show ?thesis using i'(1) t(1,2) by (auto simp: two_level_ops_def tl_SeekToLast_def es)
  qed
  show "\<exists>s'. Seek (two_level_ops arg) s t = Some s' \<and> two_level_at H s' es (below t es)"
    if t: "index_seekable t \<and> data_seekable t"
  proof -
    let ?r = "below t index"
    obtain i' where i': "Seek (index_ops arg) (index_iter s) t = Some i'" "index_at i' index ?r"
      using sorted_iterator.seek_at [OF index i] t by blast
    have sk: "\<exists>d'. Seek (data_ops arg) d t = Some d' \<and> data_at h d' es (below t es)" if "data_at h d es q" for h d es q
      using sorted_iterator.seek_at [OF data that] t by blast
    from enter_block [where f = "below t" and enter = "\<lambda>d. Seek (data_ops arg) d t", OF o i'(2)] sk below_le obtain t' t'' where
      tt: "InitDataBlock arg (s\<lparr>index_iter := i'\<rparr>) = Some t'" "with_data (\<lambda>d. Seek (data_ops arg) d t) t' = Some t''"
        "between H t'' ?r (if ?r < length index then below t (blocks ! ?r) else 0)" by blast
    have "below t es = (if ?r < length index then start ?r + (if ?r < length index then below t (blocks ! ?r) else 0)
        else length (concat blocks))"
      unfolding es using below_concat [OF i refl, of t] by simp
    with skip_forward [OF tt(3)] show ?thesis using i'(1) tt(1,2) by (auto simp: two_level_ops_def tl_Seek_def es)
  qed
  {
    assume p: "p < length es"
    from two_level_between [OF a p] obtain r q where
      b: "between H s r q" "r < length index" "q < length (blocks ! r)" "p = start r + q" "es ! p = blocks ! r ! q" .
    have ob: "opened H s (Some (blocks ! r, q))" using b(1,2) by (simp add: between_def)
    have v: "tl_Valid arg s" by (rule here [OF b(1-3)])
    show "Key (two_level_ops arg) s = fst (es ! p)" "Val (two_level_ops arg) s = snd (es ! p)"
      using opened_key [OF ob b(3)] b(5) by (simp_all add: two_level_ops_def)
    show "\<exists>s'. Next (two_level_ops arg) s = Some s' \<and> two_level_at H s' es (p + 1)"
    proof -
      have "\<exists>d'. Next (data_ops arg) d = Some d' \<and> data_at h d' (blocks ! r) (q + 1)" if "data_at h d (blocks ! r) q" for h d
        using sorted_iterator.next_at [OF data that b(3)] .
      with with_data_at [where f = "Next (data_ops arg)" and q' = "q + 1", OF ob] obtain d where d: "with_data (Next (data_ops arg)) s = Some (s\<lparr>data_iter := Some d\<rparr>)"
        "opened H (s\<lparr>data_iter := Some d\<rparr>) (Some (blocks ! r, q + 1))" by blast
      then have "between H (s\<lparr>data_iter := Some d\<rparr>) r (q + 1)" using b by (simp add: between_def)
      from skip_forward [OF this] show ?thesis using b d(1) v by (auto simp: two_level_ops_def tl_Next_def es)
    qed
    show "\<exists>s'. Prev (two_level_ops arg) s = Some s' \<and> two_level_at H s' es (if p = 0 then length es else p - 1)"
    proof -
      let ?q = "if q = 0 then length (blocks ! r) else q - 1"
      have "\<exists>d'. Prev (data_ops arg) d = Some d' \<and> data_at h d' (blocks ! r) ?q" if "data_at h d (blocks ! r) q" for h d
        using sorted_iterator.prev_at [OF data that b(3)] .
      with with_data_at [where f = "Prev (data_ops arg)" and q' = ?q, OF ob] obtain d where d: "with_data (Prev (data_ops arg)) s = Some (s\<lparr>data_iter := Some d\<rparr>)"
        "opened H (s\<lparr>data_iter := Some d\<rparr>) (Some (blocks ! r, ?q))" by blast
      then have "between H (s\<lparr>data_iter := Some d\<rparr>) r ?q" using b by (simp add: between_def) linarith
      from skip_backward [OF this] obtain t' where
        t': "SkipEmptyDataBlocksBackward arg (s\<lparr>data_iter := Some d\<rparr>) = Some t'"
          "two_level_at H t' (concat blocks)
            (if r < length index \<and> ?q < length (blocks ! r) then start r + ?q
             else if r < length index \<and> 0 < start r then start r - 1 else length (concat blocks))" by blast
      have "(if r < length index \<and> ?q < length (blocks ! r) then start r + ?q
             else if r < length index \<and> 0 < start r then start r - 1 else length (concat blocks))
          = (if p = 0 then length es else p - 1)"
        using b by (auto simp: es)
      then show ?thesis using t' d(1) v by (simp add: two_level_ops_def tl_Prev_def es)
    qed
  }
qed

context two_level_client
begin

lemma two_level_sorted:
  "sorted_iterator compare (two_level_ops arg) (two_level_at H) (\<lambda>t. index_seekable t \<and> data_seekable t)"
  by (rule two_level.sorted_iterator_axioms)

text \<open>A new iterator stands nowhere.\<close>

lemma NewTwoLevelIterator_at:
  "index_at i index r \<Longrightarrow> world_ok w H \<Longrightarrow> two_level_at H (NewTwoLevelIterator i w) (concat blocks) (length (concat blocks))"
  by (auto simp: two_level_at_def NewTwoLevelIterator_def opened_def)

end

end
