(* ===== verification/LdbTableRead.thy ===== *)
theory LdbTableRead
  imports LdbTableFinish LdbTwoLevelProps
begin

text \<open>
  Reading a table that the builder has written: the iterator over a table as a client of the two-level
  iterator, with and without a cache of blocks, and lookups.
\<close>

section \<open>Iterators over any block\<close>

definition any_block_at :: "(slice \<Rightarrow> slice \<Rightarrow> int) \<Rightarrow> block_iterator \<Rightarrow> entry list \<Rightarrow> nat \<Rightarrow> bool" where
  "any_block_at compare it es p \<longleftrightarrow> (\<exists>b. it = EntryIterator b \<and> block_at compare b es p)"

sublocale slice_comparator < any_block: sorted_iterator compare "any_block_ops compare" "any_block_at compare" "\<lambda>t. True"
proof
  fix s es p t assume "any_block_at compare s es p"
  then obtain b where s: "s = EntryIterator b" and a: "block_at compare b es p" by (auto simp: any_block_at_def)
  show "p \<le> length es" by (rule block.at_bound [OF a])
  show "ordered (map fst es)" by (rule block.at_ordered [OF a])
  show "Valid (any_block_ops compare) s \<longleftrightarrow> p < length es" using block.valid_at [OF a] by (simp add: s any_block_ops_def block_ops_def)
  show "IterStatus (any_block_ops compare) s = OK" using block.status_at [OF a] by (simp add: s any_block_ops_def block_ops_def)
  show "\<exists>s'. SeekToFirst (any_block_ops compare) s = Some s' \<and> any_block_at compare s' es 0"
    using block.first_at [OF a] by (auto simp: s any_block_ops_def block_ops_def on_entries_def any_block_at_def)
  show "\<exists>s'. SeekToLast (any_block_ops compare) s = Some s' \<and> any_block_at compare s' es (length es - 1)"
    using block.last_at [OF a] by (auto simp: s any_block_ops_def block_ops_def on_entries_def any_block_at_def)
  show "\<exists>s'. Seek (any_block_ops compare) s t = Some s' \<and> any_block_at compare s' es (below t es)"
    using block.seek_at [OF a, of t] by (auto simp: s any_block_ops_def block_ops_def on_entries_def any_block_at_def)
  {
    assume p: "p < length es"
    show "Key (any_block_ops compare) s = fst (es ! p)" "Val (any_block_ops compare) s = snd (es ! p)"
      using block.key_at [OF a p] block.val_at [OF a p] by (simp_all add: s any_block_ops_def block_ops_def)
    show "\<exists>s'. Next (any_block_ops compare) s = Some s' \<and> any_block_at compare s' es (p + 1)"
      using block.next_at [OF a p] by (auto simp: s any_block_ops_def block_ops_def on_entries_def any_block_at_def)
    show "\<exists>s'. Prev (any_block_ops compare) s = Some s' \<and> any_block_at compare s' es (if p = 0 then length es else p - 1)"
      using block.prev_at [OF a p] by (auto simp: s any_block_ops_def block_ops_def on_entries_def any_block_at_def)
  }
qed

text \<open>An iterator that has a handle beside it.\<close>

context sorted_iterator
begin

lemma with_handle_sorted:
  "sorted_iterator compare (handle_ops ops) (\<lambda>s es p. P (snd s) \<and> at (fst s) es p) seekable"
proof
  fix s es p t assume a: "P (snd s) \<and> at (fst s) es p"
  then have f: "at (fst s) es p" by simp
  show "p \<le> length es" by (rule at_bound [OF f])
  show "ordered (map fst es)" by (rule at_ordered [OF f])
  show "Valid (handle_ops ops) s \<longleftrightarrow> p < length es" using valid_at [OF f] by (simp add: handle_ops_def)
  show "IterStatus (handle_ops ops) s = OK" using status_at [OF f] by (simp add: handle_ops_def)
  show "\<exists>s'. SeekToFirst (handle_ops ops) s = Some s' \<and> P (snd s') \<and> at (fst s') es 0"
    using a first_at [OF f] by (auto simp: handle_ops_def with_handle_def)
  show "\<exists>s'. SeekToLast (handle_ops ops) s = Some s' \<and> P (snd s') \<and> at (fst s') es (length es - 1)"
    using a last_at [OF f] by (auto simp: handle_ops_def with_handle_def)
  show "\<exists>s'. Seek (handle_ops ops) s t = Some s' \<and> P (snd s') \<and> at (fst s') es (below t es)" if "seekable t"
    using a seek_at [OF f that] by (auto simp: handle_ops_def with_handle_def)
  {
    assume p: "p < length es"
    show "Key (handle_ops ops) s = fst (es ! p)" "Val (handle_ops ops) s = snd (es ! p)"
      using key_at [OF f p] val_at [OF f p] by (simp_all add: handle_ops_def)
    show "\<exists>s'. Next (handle_ops ops) s = Some s' \<and> P (snd s') \<and> at (fst s') es (p + 1)"
      using a next_at [OF f p] by (auto simp: handle_ops_def with_handle_def)
    show "\<exists>s'. Prev (handle_ops ops) s = Some s' \<and> P (snd s') \<and> at (fst s') es (if p = 0 then length es else p - 1)"
      using a prev_at [OF f p] by (auto simp: handle_ops_def with_handle_def)
  }
qed

end

section \<open>Tables that can be read\<close>

text \<open>What a table shows: the layouts of its data blocks, the keys of its index, the layout of the index.\<close>

record table_view =
  tv_layouts :: "layout list"
  tv_keys :: "slice list"
  tv_index :: layout

definition view_block :: "table_view \<Rightarrow> nat \<Rightarrow> Block" where
  "view_block v i = make_Block (block_image (tv_layouts v ! i))"

definition view_handle :: "table_view \<Rightarrow> nat \<Rightarrow> BlockHandle" where
  "view_handle v i = data_handle (tv_layouts v) i"

definition view_entries :: "table_view \<Rightarrow> entry list" where
  "view_entries v = concat (map lay_entries (tv_layouts v))"

context slice_comparator
begin

definition view_ok :: "table_view \<Rightarrow> bool" where
  "view_ok v \<longleftrightarrow>
     layout_ok (tv_index v) \<and> (\<forall>l \<in> set (tv_layouts v). layout_ok l) \<and>
     lay_entries (tv_index v) = index_entries (tv_layouts v) (tv_keys v) \<and> length (tv_keys v) = length (tv_layouts v) \<and>
     ordered (tv_keys v) \<and> length (data_bytes (tv_layouts v)) < 2 ^ 32 \<and>
     (\<forall>l \<in> set (tv_layouts v). ordered (map fst (lay_entries l))) \<and>
     (\<forall>i < length (tv_layouts v). \<forall>x \<in> set (lay_entries (tv_layouts v ! i)). compare (fst x) (tv_keys v ! i) \<le> 0) \<and>
     (\<forall>i. Suc i < length (tv_layouts v) \<longrightarrow>
        (\<forall>x \<in> set (lay_entries (tv_layouts v ! Suc i)). compare (tv_keys v ! i) (fst x) < 0))"

definition reads :: "Table \<Rightarrow> table_view \<Rightarrow> bool" where
  "reads t v \<longleftrightarrow> view_ok v \<and> t_compare t = compare \<and> t_index_block t = make_Block (block_image (tv_index v)) \<and>
     (\<exists>rest. t_file t = mem_file (data_bytes (tv_layouts v) @ rest) \<and> length (data_bytes (tv_layouts v) @ rest) < 2 ^ 64)"

end

lemma offset_mono:
  assumes "i < j" and "j < length ls"
  shows "length (data_bytes (take i ls)) < length (data_bytes (take j ls))"
proof -
  have "take (Suc i) ls = take i ls @ [ls ! i]" using assms by (intro take_Suc_conv_app_nth) simp
  then have "length (data_bytes (take i ls)) < length (data_bytes (take (Suc i) ls))" by (simp add: kBlockTrailerSize_def)
  also have "\<dots> \<le> length (data_bytes (take j ls))" by (rule data_bytes_take_mono) (use assms(1) in simp)
  finally show ?thesis .
qed

lemma offset_inj:
  assumes "length (data_bytes ls) < 2 ^ 32" and "i < length ls" and "j < length ls"
    and "bh_offset (data_handle ls i) = bh_offset (data_handle ls j)"
  shows "i = j"
proof -
  have small: "length (data_bytes (take k ls)) < 2 ^ 64" if "k < length ls" for k
    using data_bytes_take_mono [of k "length ls" ls] that assms(1) by simp
  have off: "unat (bh_offset (data_handle ls k)) = length (data_bytes (take k ls))" if "k < length ls" for k
    unfolding data_handle_def block_handle_def BlockHandle.simps by (rule unat_u64 [OF small [OF that]])
  have "length (data_bytes (take i ls)) = length (data_bytes (take j ls))"
    unfolding off [OF assms(2), symmetric] off [OF assms(3), symmetric] assms(4) ..
  then show ?thesis using offset_mono [of i j ls] offset_mono [of j i ls] assms(2,3)
    by (cases i j rule: linorder_cases) simp_all
qed

lemma handle_bytes_inj: "handle_bytes h = handle_bytes h' \<Longrightarrow> h = h'"
  using HandleDecodeFrom_bytes [of make_BlockHandle h "[]"] HandleDecodeFrom_bytes [of make_BlockHandle h' "[]"] by simp

lemma cache_key_inj: "cache_key cid off = cache_key cid' off' \<Longrightarrow> cid = cid' \<and> off = off'"
proof -
  assume k: "cache_key cid off = cache_key cid' off'"
  have d: "DecodeFixed64 (cache_key c x) = c" for c x unfolding cache_key_def by (rule DecodeFixed64_Encode)
  have c: "cid = cid'" using d [of cid off] d [of cid' off'] k by simp
  then have "EncodeFixed64 off @ [] = EncodeFixed64 off' @ []" using k by (simp add: cache_key_def)
  then have "off = off'" by (metis DecodeFixed64_Encode)
  with c show ?thesis by simp
qed

text \<open>The entries of the block that an index value names.\<close>

definition view_block_of :: "table_view \<Rightarrow> slice \<Rightarrow> entry list" where
  "view_block_of v s =
     (case find (\<lambda>i. handle_bytes (view_handle v i) = s) [0 ..< length (tv_layouts v)] of
        None \<Rightarrow> [] | Some i \<Rightarrow> lay_entries (tv_layouts v ! i))"

lemma view_block_of_handle:
  assumes "length (data_bytes (tv_layouts v)) < 2 ^ 32" and "i < length (tv_layouts v)"
  shows "view_block_of v (handle_bytes (view_handle v i)) = lay_entries (tv_layouts v ! i)"
proof -
  let ?P = "\<lambda>j. handle_bytes (view_handle v j) = handle_bytes (view_handle v i)"
  have "find ?P [0 ..< length (tv_layouts v)] = Some i"
  proof (cases "find ?P [0 ..< length (tv_layouts v)]")
    case None
    then show ?thesis using assms(2) by (auto simp: find_None_iff)
  next
    case (Some j)
    then have "?P j" "j < length (tv_layouts v)" by (auto simp: find_Some_iff)
    then have "j = i" using handle_bytes_inj [of "view_handle v j" "view_handle v i"] offset_inj [OF assms(1), of j i] assms(2)
      by (simp add: view_handle_def)
    then show ?thesis using Some by simp
  qed
  then show ?thesis by (simp add: view_block_of_def)
qed

section \<open>A table behind a cache\<close>

text \<open>The cache is the record of its operations with their contract, or there is none.\<close>

locale cached_tables = slice_comparator compare for compare :: "slice \<Rightarrow> slice \<Rightarrow> int" +
  fixes block_cache :: "('c, 'h, Block) Cache option"
    and cache_ok :: "'c \<Rightarrow> (slice \<rightharpoonup> Block) \<Rightarrow> ('h \<times> Block) multiset \<Rightarrow> bool"
  assumes cache: "block_cache = Some bc \<Longrightarrow> cache bc cache_ok"

text \<open>An open block iterator has a handle of the cache, with the block of it, or none.\<close>

definition held :: "('h \<times> Block) option multiset \<Rightarrow> ('h \<times> Block) multiset" where
  "held H = image_mset the (filter_mset (\<lambda>x. x \<noteq> None) H)"

lemma held_simps [simp]: "held (add_mset None H) = held H" "held (add_mset (Some x) H) = add_mset x (held H)"
  by (simp_all add: held_def)

text \<open>
  The cache has no other blocks under the keys of a table than those of the file. The tables \<open>T\<close> that share a cache have different
  numbers in it.
\<close>

definition caches :: "Table \<Rightarrow> table_view \<Rightarrow> (slice \<rightharpoonup> Block) \<Rightarrow> bool" where
  "caches t v m \<longleftrightarrow>
     (\<forall>i < length (tv_layouts v). \<forall>b. m (cache_key (t_cache_id t) (bh_offset (view_handle v i))) = Some b \<longrightarrow> b = view_block v i)"

definition share_cache :: "(Table \<times> table_view) set \<Rightarrow> bool" where
  "share_cache T \<longleftrightarrow> (\<forall>x \<in> T. \<forall>y \<in> T. t_cache_id (fst x) = t_cache_id (fst y) \<longrightarrow> x = y)"

definition all_cached :: "(Table \<times> table_view) set \<Rightarrow> (slice \<rightharpoonup> Block) \<Rightarrow> bool" where
  "all_cached T m \<longleftrightarrow> (\<forall>x \<in> T. caches (fst x) (snd x) m)"

lemma all_cached_insert:
  fixes t :: Table
  assumes T: "share_cache T" "(t, v) \<in> T" and m: "all_cached T m" and i: "i < length (tv_layouts v)"
    and small: "length (data_bytes (tv_layouts v)) < 2 ^ 32"
  shows "all_cached T (m(cache_key (t_cache_id t) (bh_offset (view_handle v i)) \<mapsto> view_block v i))"
  unfolding all_cached_def caches_def
proof (intro ballI allI impI)
  fix x :: "Table \<times> table_view" and j b
  let ?k = "cache_key (t_cache_id t) (bh_offset (view_handle v i))" and ?x = "cache_key (t_cache_id (fst x)) (bh_offset (view_handle (snd x) j))"
  assume x: "x \<in> T" "j < length (tv_layouts (snd x))" and b: "(m(?k \<mapsto> view_block v i)) ?x = Some b"
  show "b = view_block (snd x) j"
  proof (cases "?x = ?k")
    case True
    from cache_key_inj [OF True] have id: "t_cache_id (fst x) = t_cache_id t" and off: "bh_offset (view_handle (snd x) j) = bh_offset (view_handle v i)"
      by simp_all
    then have "x = (t, v)" using T x(1) unfolding share_cache_def by fastforce
    then have "snd x = v" by simp
    moreover from this have "j = i" using offset_inj [OF small, of j i] x(2) i off by (simp add: view_handle_def)
    ultimately show ?thesis using b True by simp
  next
    case False
    then show ?thesis using b m x by (auto simp: all_cached_def caches_def)
  qed
qed

context cached_tables
begin

definition table_world :: "(Table \<times> table_view) set \<Rightarrow> Table \<Rightarrow> table_view \<Rightarrow> 'c \<Rightarrow> ('h \<times> Block) option multiset \<Rightarrow> bool" where
  "table_world T t v c H \<longleftrightarrow> reads t v \<and> (t, v) \<in> T \<and> share_cache T \<and>
     (case block_cache of None \<Rightarrow> True | Some bc \<Rightarrow> \<exists>m. cache_ok c m (held H) \<and> all_cached T m)"

lemma table_world_cached:
  "block_cache = Some bc \<Longrightarrow> table_world T t v c H \<longleftrightarrow> reads t v \<and> (t, v) \<in> T \<and> share_cache T \<and> (\<exists>m. cache_ok c m (held H) \<and> all_cached T m)"
  unfolding table_world_def by simp

definition table_data_at :: "Table \<Rightarrow> table_view \<Rightarrow> ('h \<times> Block) option \<Rightarrow> block_iterator \<times> 'h option \<Rightarrow> entry list \<Rightarrow> nat \<Rightarrow> bool" where
  "table_data_at t v h it es p \<longleftrightarrow> (reads t v \<and> snd it = map_option fst h) \<and> any_block_at compare (fst it) es p"

definition table_index_at :: "Table \<Rightarrow> table_view \<Rightarrow> block_iterator \<Rightarrow> entry list \<Rightarrow> nat \<Rightarrow> bool" where
  "table_index_at t v it es p \<longleftrightarrow> reads t v \<and> any_block_at compare it es p"

definition table_index :: "Table \<Rightarrow> table_view \<Rightarrow> entry list" where
  "table_index t v = (if reads t v then lay_entries (tv_index v) else [])"

lemma ordered_sorted: "ordered (map fst es) \<Longrightarrow> sorted_wrt (\<lambda>a b. compare a b < 0) (map fst es)"
  by (simp add: ordered_def)

lemma NewIterator_at:
  assumes "layout_ok l" and "ordered (map fst (lay_entries l))"
  shows "any_block_at compare (NewIterator (make_Block (block_image l))) (lay_entries l) (length (lay_entries l))"
  using NewIterator_image [OF assms(1)] block_atI [OF assms(1) _ ordered_sorted [OF assms(2)]] by (auto simp: any_block_at_def)

lemma read_new_block_view:
  assumes r: "reads t v" and i: "i < length (tv_layouts v)"
  shows "read_new_block t verify (view_handle v i) = Some (OK, Some (view_block v i, True))"
proof -
  let ?ls = "tv_layouts v"
  obtain rest where f: "t_file t = mem_file (data_bytes ?ls @ rest)" "length (data_bytes ?ls @ rest) < 2 ^ 64"
    using r by (auto simp: reads_def)
  note split = data_bytes_split [OF i]
  have all: "data_bytes ?ls @ rest = data_bytes (take i ?ls) @ stored_block (block_image (?ls ! i)) 0 @ (data_bytes (drop (Suc i) ?ls) @ rest)"
    by (subst split) simp
  have "ReadBlock (t_file t) verify (view_handle v i)
      = Some (OK, \<lparr>bc_data = block_image (?ls ! i), bc_cachable = True, bc_heap_allocated = True\<rparr>)"
    using ReadBlock_stored [of "data_bytes (take i ?ls)" "block_image (?ls ! i)" "data_bytes (drop (Suc i) ?ls) @ rest" verify] f
    unfolding all by (simp add: view_handle_def data_handle_def block_handle_def)
  then show ?thesis by (simp add: read_new_block_def view_block_def)
qed

lemma view_block_at:
  "reads t v \<Longrightarrow> i < length (tv_layouts v) \<Longrightarrow>
    any_block_at compare (NewIterator (view_block v i)) (lay_entries (tv_layouts v ! i)) (length (lay_entries (tv_layouts v ! i)))"
  unfolding view_block_def by (rule NewIterator_at) (simp_all add: reads_def view_ok_def)

text \<open>Opening the block of an index entry, from the file or the cache.\<close>

lemma BlockReader_view:
  assumes w: "table_world T t v c H" and i: "i < length (tv_layouts v)"
  shows "\<exists>h c'. BlockReader block_cache t verify fill_cache (handle_bytes (view_handle v i)) c
      = Some ((NewIterator (view_block v i), map_option fst h), c') \<and> table_world T t v c' (add_mset h H)"
proof -
  have r: "reads t v" using w by (simp add: table_world_def)
  have small: "length (data_bytes (tv_layouts v)) < 2 ^ 32" using r by (simp add: reads_def view_ok_def)
  have dec: "HandleDecodeFrom make_BlockHandle (handle_bytes (view_handle v i)) = (OK, view_handle v i, [])"
    using HandleDecodeFrom_bytes [of make_BlockHandle "view_handle v i" "[]"] by simp
  note new = read_new_block_view [OF r i, of verify]
  show ?thesis
  proof (cases block_cache)
    case None
    then show ?thesis using dec new w unfolding table_world_def
      by (intro exI [of _ None] exI [of _ c]) (simp add: BlockReader_def)
  next
    case (Some bc)
    let ?k = "cache_key (t_cache_id t) (bh_offset (view_handle v i))"
    obtain m where m: "cache_ok c m (held H)" "all_cached T m" and T: "(t, v) \<in> T" "share_cache T"
      using w unfolding table_world_cached [OF Some] by blast
    note laws = cache [OF Some]
    from cache.lookup_ok [OF laws m(1), of ?k] obtain res c1 where
      l: "cache_Lookup bc ?k c = Some (res, c1)"
        "case res of None \<Rightarrow> cache_ok c1 m (held H) | Some h \<Rightarrow> \<exists>b. m ?k = Some b \<and> cache_ok c1 m (add_mset (h, b) (held H))"
      by blast
    show ?thesis
    proof (cases res)
      case found: (Some h)
      then obtain b where b: "m ?k = Some b" "cache_ok c1 m (add_mset (h, b) (held H))" using l(2) by auto
      have "b = view_block v i" using m(2) T(1) i b(1) by (fastforce simp: all_cached_def caches_def)
      moreover have "cache_Value bc h c1 = Some b" by (rule cache.value_ok [OF laws b(2)])
      ultimately show ?thesis unfolding table_world_cached [OF Some] using Some dec l(1) found r b(2) m(2) T
        by (intro exI [of _ "Some (h, b)"] exI [of _ c1]) (auto simp: BlockReader_def)
    next
      case None
      then have c1: "cache_ok c1 m (held H)" using l(2) by simp
      show ?thesis
      proof (cases fill_cache)
        case True
        from cache.insert_ok [OF laws c1, of ?k "view_block v i" "blk_size (view_block v i)"] obtain h c2 where
          h: "cache_Insert bc ?k (view_block v i) (blk_size (view_block v i)) c1 = Some (h, c2)"
            "cache_ok c2 (m(?k \<mapsto> view_block v i)) (add_mset (h, view_block v i) (held H))" by blast
        have "all_cached T (m(?k \<mapsto> view_block v i))" by (rule all_cached_insert [OF T(2,1) m(2) i small])
        then show ?thesis unfolding table_world_cached [OF Some] using Some dec l(1) None True new h r T
          by (intro exI [of _ "Some (h, view_block v i)"] exI [of _ c2]) (auto simp: BlockReader_def)
      next
        case False
        then show ?thesis unfolding table_world_cached [OF Some] using Some dec l(1) None new r c1 m(2) T
          by (intro exI [of _ None] exI [of _ c1]) (auto simp: BlockReader_def)
      qed
    qed
  qed
qed

lemma delete_block_iter_view:
  assumes w: "table_world T t v c (add_mset h H)" and a: "table_data_at t v h it es p"
  shows "\<exists>c'. delete_block_iter block_cache it c = Some c' \<and> table_world T t v c' H"
proof (cases h)
  case None
  then show ?thesis using w a by (simp add: delete_block_iter_def table_data_at_def table_world_def split: option.splits)
next
  case (Some hb)
  obtain x b where hb: "hb = (x, b)" by (cases hb)
  have s: "snd it = Some x" using a Some hb by (simp add: table_data_at_def)
  show ?thesis
  proof (cases block_cache)
    case None
    then show ?thesis using w s unfolding table_world_def by (simp add: delete_block_iter_def)
  next
    case bc: (Some bc)
    then obtain m where m: "cache_ok c m (add_mset (x, b) (held H))" "all_cached T m" "reads t v" and T: "(t, v) \<in> T" "share_cache T"
      using w unfolding table_world_cached [OF bc] Some hb by auto
    from cache.release_ok [OF cache [OF bc] m(1)] show ?thesis unfolding table_world_cached [OF bc] using bc s m(2,3) T
      by (auto simp: delete_block_iter_def)
  qed
qed

lemma nowhere_sorted: "sorted_iterator compare ops (\<lambda>s es p. False) seekable"
  by unfold_locales simp_all

lemma table_index_sorted: "sorted_iterator compare (any_block_ops (t_compare t)) (table_index_at t v) (\<lambda>k. True)"
proof (cases "reads t v")
  case True
  then have "table_index_at t v = any_block_at compare" by (simp add: table_index_at_def fun_eq_iff)
  moreover have "t_compare t = compare" using True by (simp add: reads_def)
  ultimately show ?thesis using any_block.sorted_iterator_axioms by simp
next
  case False
  then have "table_index_at t v = (\<lambda>s es p. False)" by (simp add: table_index_at_def fun_eq_iff)
  then show ?thesis using nowhere_sorted by simp
qed

lemma table_data_sorted: "sorted_iterator compare (handle_ops (any_block_ops (t_compare t))) (table_data_at t v h) (\<lambda>k. True)"
proof (cases "reads t v")
  case True
  then have "table_data_at t v h = (\<lambda>it es p. snd it = map_option fst h \<and> any_block_at compare (fst it) es p)"
    by (simp add: table_data_at_def fun_eq_iff)
  moreover have "t_compare t = compare" using True by (simp add: reads_def)
  ultimately show ?thesis using any_block.with_handle_sorted [of "\<lambda>x. x = map_option fst h"] by simp
next
  case False
  then have "table_data_at t v h = (\<lambda>s es p. False)" by (simp add: table_data_at_def fun_eq_iff)
  then show ?thesis using nowhere_sorted by simp
qed

lemma table_index_nth:
  "reads t v \<Longrightarrow> i < length (tv_layouts v) \<Longrightarrow> table_index t v ! i = (tv_keys v ! i, handle_bytes (view_handle v i))"
  by (simp add: table_index_def reads_def view_ok_def index_entries_nth view_handle_def)

lemma length_table_index: "reads t v \<Longrightarrow> length (table_index t v) = length (tv_layouts v)"
  by (simp add: table_index_def reads_def view_ok_def)

lemma table_index_member:
  assumes "e \<in> set (table_index t v)"
  obtains i where "reads t v" "i < length (tv_layouts v)" "e = (tv_keys v ! i, handle_bytes (view_handle v i))"
    "view_block_of v (snd e) = lay_entries (tv_layouts v ! i)"
proof -
  have r: "reads t v" using assms by (auto simp: table_index_def split: if_splits)
  from assms obtain i where i: "i < length (table_index t v)" "e = table_index t v ! i" by (auto simp: in_set_conv_nth)
  then have i': "i < length (tv_layouts v)" using length_table_index [OF r] by simp
  have "length (data_bytes (tv_layouts v)) < 2 ^ 32" using r by (simp add: reads_def view_ok_def)
  from that [OF r i'] view_block_of_handle [OF this i'] table_index_nth [OF r i'] i(2) show thesis by simp
qed

lemma table_client:
  "two_level_client compare (table_arg block_cache t verify fill_cache) (table_index_at t v) (\<lambda>k. True) (table_data_at t v) (\<lambda>k. True)
     (table_world T t v) (view_block_of v) (table_index t v)"
proof (intro two_level_client.intro two_level_client_axioms.intro)
  show "comparator compare" by (rule comparator_axioms)
  show "sorted_iterator compare (index_ops (table_arg block_cache t verify fill_cache)) (table_index_at t v) (\<lambda>k. True)"
    using table_index_sorted by (simp add: table_arg_def)
  show "sorted_iterator compare (data_ops (table_arg block_cache t verify fill_cache)) (table_data_at t v h) (\<lambda>k. True)" for h
    using table_data_sorted by (simp add: table_arg_def)
  show "\<exists>d w' h q. block_function (table_arg block_cache t verify fill_cache) (snd e) w = Some (d, w') \<and>
      table_world T t v w' (add_mset h H) \<and> table_data_at t v h d (view_block_of v (snd e)) q"
    if e: "e \<in> set (table_index t v)" and w: "table_world T t v w H" for e w H
  proof -
    from table_index_member [OF e] obtain i where i: "reads t v" "i < length (tv_layouts v)"
      "e = (tv_keys v ! i, handle_bytes (view_handle v i))" "view_block_of v (snd e) = lay_entries (tv_layouts v ! i)" .
    from BlockReader_view [OF w i(2), of verify fill_cache] view_block_at [OF i(1,2)] show ?thesis
      using i by (fastforce simp: table_arg_def table_data_at_def)
  qed
  show "\<exists>w'. delete_iter (table_arg block_cache t verify fill_cache) d w = Some w' \<and> table_world T t v w' H"
    if "table_world T t v w (add_mset h H)" "table_data_at t v h d es q" for w h H d es q
    using delete_block_iter_view [OF that] by (simp add: table_arg_def)
  show "ordered (map fst (view_block_of v (snd e)))" if "e \<in> set (table_index t v)" for e
    by (rule table_index_member [OF that]) (simp add: reads_def view_ok_def)
  show "compare (fst x) (fst e) \<le> 0" if "e \<in> set (table_index t v)" "x \<in> set (view_block_of v (snd e))" for e x
    by (rule table_index_member [OF that(1)]) (use that(2) in \<open>auto simp: reads_def view_ok_def\<close>)
  show "compare (fst (table_index t v ! i)) (fst x) < 0"
    if i: "Suc i < length (table_index t v)" and x: "x \<in> set (view_block_of v (snd (table_index t v ! Suc i)))" for i x
  proof -
    have r: "reads t v" using i by (auto simp: table_index_def split: if_splits)
    then have "Suc i < length (tv_layouts v)" using i length_table_index [OF r] by simp
    moreover have "length (data_bytes (tv_layouts v)) < 2 ^ 32" using r by (simp add: reads_def view_ok_def)
    ultimately show ?thesis using x r table_index_nth [OF r, of i] table_index_nth [OF r, of "Suc i"] view_block_of_handle [of v "Suc i"]
      by (simp add: reads_def view_ok_def)
  qed
qed

end

text \<open>So the iterator over a table is a client of the two-level iterator, and meets the interface of iterators.\<close>

sublocale cached_tables < table: two_level_client compare "table_arg block_cache t verify fill_cache"
    "table_index_at t v" "\<lambda>k. True" "table_data_at t v" "\<lambda>k. True" "table_world T t v" "view_block_of v" "table_index t v"
  for T t v verify fill_cache
  by (rule table_client)

end
