(* ===== verification/LdbTableGet.thy ===== *)
theory LdbTableGet
  imports LdbTableRead
begin

text \<open>
  The whole of a table: its iterator walks through the entries of all data blocks, and a lookup finds
  what is there; \<open>Table::Open\<close> of a file that the builder has written gives such a table.
\<close>

section \<open>The iterator\<close>

text \<open>
  The filters of a table answer for every key, and never exclude a block that has an entry which answers the lookup.
\<close>

definition filters_ok :: "(slice \<Rightarrow> slice \<Rightarrow> bool) \<Rightarrow> Table \<Rightarrow> table_view \<Rightarrow> bool" where
  "filters_ok alike t v \<longleftrightarrow>
     (case t_filter t of None \<Rightarrow> True
      | Some (policy, fr) \<Rightarrow> (\<forall>off key. FilterKeyMayMatch policy fr off key \<noteq> None) \<and>
          (\<forall>i < length (tv_layouts v). \<forall>x \<in> set (lay_entries (tv_layouts v ! i)). \<forall>k. alike (fst x) k \<longrightarrow>
             FilterKeyMayMatch policy fr (bh_offset (view_handle v i)) k = Some True))"

context slice_comparator
begin

text \<open>The keys of the index do not lead past an entry that answers.\<close>

definition view_apart :: "(slice \<Rightarrow> slice \<Rightarrow> bool) \<Rightarrow> table_view \<Rightarrow> bool" where
  "view_apart alike v \<longleftrightarrow>
     (\<forall>i j x k. i < j \<and> j < length (tv_layouts v) \<and> x \<in> set (lay_entries (tv_layouts v ! j)) \<and>
        (\<forall>y \<in> set (lay_entries (tv_layouts v ! i)). compare (fst y) k < 0) \<and> compare k (tv_keys v ! i) \<le> 0 \<longrightarrow> \<not> alike (fst x) k)"

end

context cached_tables
begin

lemma table_blocks: "reads t v \<Longrightarrow> map (\<lambda>e. view_block_of v (snd e)) (table_index t v) = map lay_entries (tv_layouts v)"
proof (rule nth_equalityI)
  fix i assume r: "reads t v" and "i < length (map (\<lambda>e. view_block_of v (snd e)) (table_index t v))"
  then have "i < length (tv_layouts v)" "length (data_bytes (tv_layouts v)) < 2 ^ 32"
    using length_table_index [OF r] by (simp_all add: reads_def view_ok_def)
  then show "map (\<lambda>e. view_block_of v (snd e)) (table_index t v) ! i = map lay_entries (tv_layouts v) ! i"
    using table_index_nth [OF r, of i] length_table_index [OF r] view_block_of_handle [of v i] by simp
qed (simp add: length_table_index)

lemma table_index_start: "reads t v \<Longrightarrow> table_index_at t v (NewIterator (t_index_block t)) (table_index t v) (length (table_index t v))"
  using NewIterator_at [of "tv_index v"]
  by (simp add: table_index_at_def table_index_def reads_def view_ok_def index_entries_keys)

lemma table_iterator_follows:
  assumes w: "table_world T t v c H"
  shows "follows compare (\<lambda>k. True) (two_level_ops (table_arg block_cache t verify fill_cache)) (Table_NewIterator t c)
    (view_entries v) (length (view_entries v))"
proof -
  have r: "reads t v" using w by (simp add: table_world_def)
  note at = table.NewTwoLevelIterator_at [OF table_index_start [OF r] w]
  have "concat (map (\<lambda>e. view_block_of v (snd e)) (table_index t v)) = view_entries v"
    by (simp only: table_blocks [OF r] view_entries_def)
  with at show ?thesis
    using sorted_iterator.at_follows [OF table.two_level_sorted] unfolding Table_NewIterator_def table.blocks_def by fastforce
qed

section \<open>Lookups\<close>

lemma filter_excludes_view:
  assumes f: "filters_ok alike t v" and i: "i < length (tv_layouts v)"
  shows "\<exists>e. filter_excludes t (handle_bytes (view_handle v i)) k = Some e \<and>
    (e \<longrightarrow> (\<forall>x \<in> set (lay_entries (tv_layouts v ! i)). \<not> alike (fst x) k))"
proof (cases "t_filter t")
  case None
  then show ?thesis by (intro exI [of _ False]) (simp add: filter_excludes_def)
next
  case (Some pf)
  obtain policy fr where pf: "pf = (policy, fr)" by (cases pf)
  have dec: "HandleDecodeFrom make_BlockHandle (handle_bytes (view_handle v i)) = (OK, view_handle v i, [])"
    using HandleDecodeFrom_bytes [of make_BlockHandle "view_handle v i" "[]"] by simp
  obtain b where b: "FilterKeyMayMatch policy fr (bh_offset (view_handle v i)) k = Some b"
    using f Some pf by (fastforce simp: filters_ok_def)
  then have "\<not> b \<Longrightarrow> \<forall>x \<in> set (lay_entries (tv_layouts v ! i)). \<not> alike (fst x) k"
    using f Some pf i by (fastforce simp: filters_ok_def)
  then show ?thesis using Some pf dec b by (simp add: filter_excludes_def)
qed

text \<open>
  What a lookup gives: the first entry from the key on in the block that the index leads to, if the filter of the block does not
  exclude the key.
\<close>

definition lookup_result :: "Table \<Rightarrow> table_view \<Rightarrow> slice \<Rightarrow> entry option" where
  "lookup_result t v k =
     (let r = below k (table_index t v); bs = lay_entries (tv_layouts v ! r) in
      if r < length (table_index t v) \<and> filter_excludes t (handle_bytes (view_handle v r)) k = Some False \<and> below k bs < length bs
      then Some (bs ! below k bs) else None)"

lemma InternalGet_view:
  assumes w: "table_world T t v c H" and f: "filters_ok alike t v"
  shows "\<exists>c'. InternalGet block_cache t verify fill_cache k c = Some (OK, lookup_result t v k, c') \<and> table_world T t v c' H"
proof -
  have r: "reads t v" and cmp: "t_compare t = compare" using w by (auto simp: table_world_def reads_def)
  let ?ops = "any_block_ops compare" and ?index = "table_index t v" and ?ls = "tv_layouts v"
  let ?r = "below k ?index"
  from table_index_start [OF r] have start: "any_block_at compare (NewIterator (t_index_block t)) ?index (length ?index)"
    by (simp add: table_index_at_def)
  from any_block.seek_at [OF start, of k] obtain iiter where
    ii: "Seek ?ops (NewIterator (t_index_block t)) k = Some iiter" "any_block_at compare iiter ?index ?r" by auto
  have st: "IterStatus ?ops iiter = OK" and valid: "Valid ?ops iiter \<longleftrightarrow> ?r < length ?index"
    using any_block.status_at [OF ii(2)] any_block.valid_at [OF ii(2)] by simp_all
  show ?thesis
  proof (cases "?r < length ?index")
    case False
    then have "InternalGet block_cache t verify fill_cache k c = Some (OK, None, c)"
      using ii st valid cmp by (simp add: InternalGet_def)
    then show ?thesis using w False by (simp add: lookup_result_def Let_def)
  next
    case True
    let ?bs = "lay_entries (?ls ! ?r)"
    have i: "?r < length ?ls" using True length_table_index [OF r] by simp
    have val: "Val ?ops iiter = handle_bytes (view_handle v ?r)"
      using any_block.val_at [OF ii(2) True] table_index_nth [OF r i] by simp
    from filter_excludes_view [OF f i, of k] obtain e where
      e: "filter_excludes t (handle_bytes (view_handle v ?r)) k = Some e" by blast
    show ?thesis
    proof (cases e)
      case True
      then have "InternalGet block_cache t verify fill_cache k c = Some (OK, None, c)"
        using ii st valid \<open>?r < length ?index\<close> cmp val e(1) by (simp add: InternalGet_def)
      then show ?thesis using w e True by (simp add: lookup_result_def Let_def)
    next
      case False
      from BlockReader_view [OF w i, of verify fill_cache] obtain h c1 where
        br: "BlockReader block_cache t verify fill_cache (handle_bytes (view_handle v ?r)) c
          = Some ((NewIterator (view_block v ?r), map_option fst h), c1)" "table_world T t v c1 (add_mset h H)" by blast
      from any_block.seek_at [OF view_block_at [OF r i], of k] obtain it where
        it: "Seek ?ops (NewIterator (view_block v ?r)) k = Some it" "any_block_at compare it ?bs (below k ?bs)" by auto
      have "table_data_at t v h (it, map_option fst h) ?bs (below k ?bs)" using r it(2) by (simp add: table_data_at_def)
      from delete_block_iter_view [OF br(2) this] obtain c2 where
        c2: "delete_block_iter block_cache (it, map_option fst h) c1 = Some c2" "table_world T t v c2 H" by blast
      let ?saved = "if below k ?bs < length ?bs then Some (?bs ! below k ?bs) else None"
      let ?hops = "handle_ops ?ops" and ?it = "(it, map_option fst h)"
      have "(if Valid ?hops ?it then Some (Key ?hops ?it, Val ?hops ?it) else None) = ?saved" "IterStatus ?hops ?it = OK"
        "Seek ?hops (NewIterator (view_block v ?r), map_option fst h) k = Some ?it"
        using any_block.valid_at [OF it(2)] any_block.key_at [OF it(2)] any_block.val_at [OF it(2)] any_block.status_at [OF it(2)] it(1)
        by (simp_all add: handle_ops_def with_handle_def)
      then have "InternalGet block_cache t verify fill_cache k c = Some (OK, ?saved, c2)"
        using ii st valid \<open>?r < length ?index\<close> cmp val e(1) False br(1) c2(1)
        by (simp add: InternalGet_def Let_def split del: if_split)
      moreover have "lookup_result t v k = ?saved" using \<open>?r < length ?index\<close> e False by (simp add: lookup_result_def Let_def)
      ultimately show ?thesis using c2(2) by simp
    qed
  qed
qed

lemma lookup_result_finds:
  assumes r: "reads t v" and f: "filters_ok alike t v" and ap: "view_apart alike v"
  defines "es \<equiv> view_entries v"
  shows "lookup_result t v k = None \<or> below k es < length es \<and> lookup_result t v k = Some (es ! below k es)"
    and "below k es < length es \<Longrightarrow> alike (fst (es ! below k es)) k \<Longrightarrow> lookup_result t v k = Some (es ! below k es)"
proof -
  let ?index = "table_index t v" and ?ls = "tv_layouts v"
  let ?r = "below k ?index"
  let ?bs = "lay_entries (?ls ! ?r)"
  have es: "es = concat (map (\<lambda>e. view_block_of v (snd e)) ?index)" by (simp only: es_def table_blocks [OF r] view_entries_def)
  have pos: "below k es = (if ?r < length ?index then table.start v t ?r + below k (table.blocks v t ! ?r) else length es)"
    using table.below_concat [OF table_index_start [OF r] refl, of k] unfolding es table.blocks_def .
  have bs: "table.blocks v t ! ?r = ?bs" if "?r < length ?index"
    using table_blocks [OF r] that length_table_index [OF r] by (simp add: table.blocks_def)
  have found: "below k es < length es \<and> es ! below k es = ?bs ! below k ?bs" if "?r < length ?index" "below k ?bs < length ?bs"
    using pos table.concat_at [OF that(1), of "below k ?bs"] that bs unfolding es table.blocks_def by (simp add: add.commute)
  then show "lookup_result t v k = None \<or> below k es < length es \<and> lookup_result t v k = Some (es ! below k es)"
    by (simp add: lookup_result_def Let_def)
  show "lookup_result t v k = Some (es ! below k es)" if less: "below k es < length es" and a: "alike (fst (es ! below k es)) k"
  proof -
    have R: "?r < length ?index" using pos less by (simp split: if_splits)
    then have i: "?r < length ?ls" using length_table_index [OF r] by simp
    have q: "below k ?bs < length ?bs"
    proof (rule ccontr)
      assume "\<not> below k ?bs < length ?bs"
      then have all: "\<forall>y \<in> set ?bs. compare (fst y) k < 0"
        using below_less [of _ k ?bs] by (metis below_le in_set_conv_nth le_neq_implies_less)
      from less have "es ! below k es \<in> set es" by simp
      then obtain j where j: "j < length ?ls" "es ! below k es \<in> set (lay_entries (?ls ! j))"
        by (auto simp: es_def view_entries_def in_set_conv_nth [of _ "tv_layouts v"])
      have ge: "0 \<le> compare (fst (es ! below k es)) k" by (rule below_at [OF less])
      have jb: "table.blocks v t ! j = lay_entries (?ls ! j)" using table_blocks [OF r] j(1) length_table_index [OF r] by (simp add: table.blocks_def)
      have ji: "j < length ?index" using j(1) length_table_index [OF r] by simp
      have "compare k (fst (?index ! j)) \<le> 0"
      proof -
        have "compare (fst (es ! below k es)) (fst (?index ! j)) \<le> 0" using table.block_keys [OF ji] j(2) jb by simp
        moreover have "compare k (fst (es ! below k es)) \<le> 0" using ge by (simp add: compare_swap_le)
        ultimately show ?thesis using compare_trans by blast
      qed
      then have "\<not> j < ?r" using below_less [of j k ?index] compare_swap_le by fastforce
      moreover have "j \<noteq> ?r" using all j(2) ge by force
      ultimately have "?r < j" by simp
      moreover have "compare k (tv_keys v ! ?r) \<le> 0"
        using below_at [OF R] table_index_nth [OF r i] by (simp add: compare_swap_le)
      ultimately show False using ap all j a unfolding view_apart_def by blast
    qed
    note f' = found [OF R q]
    from filter_excludes_view [OF f i, of k] obtain e where
      e: "filter_excludes t (handle_bytes (view_handle v ?r)) k = Some e" "e \<Longrightarrow> \<forall>x \<in> set ?bs. \<not> alike (fst x) k" by blast
    have "?bs ! below k ?bs \<in> set ?bs" using q by simp
    then have "\<not> e" using e(2) a f' by auto
    then show ?thesis using R q e(1) f' by (simp add: lookup_result_def Let_def)
  qed
qed

end

end
