(* ===== verification/LdbTableProps.thy ===== *)
theory LdbTableProps
  imports LdbTableGet
begin

text \<open>
  Tables from the builder to the reader: the properties.
\<close>

section \<open>Opening a file\<close>

lemma mem_file_stored:
  assumes "fl = pre @ stored_block data 0 @ post" and "length fl < 2 ^ 64" and "h = block_handle (length pre) data"
  shows "ReadBlock (mem_file fl) verify h = Some (OK, \<lparr>bc_data = data, bc_cachable = True, bc_heap_allocated = True\<rparr>)"
  using ReadBlock_stored [of pre data post verify] assms by (simp add: block_handle_def)

context table_options
begin

lemma layout_ok_small: "shares l \<Longrightarrow> points_ok l \<Longrightarrow> length (block_image l) < 2 ^ 32 \<Longrightarrow> layout_ok l"
  by (simp add: layout_ok_def)

lemma table_file_view:
  assumes t: "table_file fl ls seps fc ml il es" and "t_options t = options" and "t_file t = mem_file fl"
    and "t_index_block t = make_Block (block_image il)"
  defines "v \<equiv> \<lparr>tv_layouts = ls, tv_keys = seps, tv_index = il\<rparr>"
  shows "reads t v" and "view_entries v = es" and "layout_ok ml" and "view_apart alike v"
proof -
  have fl: "fl = table_bytes ls fc ml il" and small: "length fl < 2 ^ 32" and n: "length seps = length ls"
    and sep: "separated (map lay_entries ls) seps" and ne: "\<forall>l \<in> set ls. lay_entries l \<noteq> []" and es: "es = concat (map lay_entries ls)"
    and o: "ordered (map fst es)" using t unfolding table_file_def by blast+
  have lens: "length (data_bytes ls) \<le> length fl" "length (block_image il) \<le> length fl" "length (block_image ml) \<le> length fl"
    by (simp_all add: fl table_bytes_def Let_def)
  have "length (block_image l) < 2 ^ 32" if "l \<in> set ls" for l
  proof -
    from that obtain i where "i < length ls" "l = ls ! i" by (auto simp: in_set_conv_nth)
    then have "length (block_image l) \<le> length (data_bytes ls)" using data_bytes_split [of i ls] by simp
    then show ?thesis using lens(1) small by simp
  qed
  then have lo: "\<forall>l \<in> set ls. layout_ok l" "layout_ok il" "layout_ok ml"
    using t lens small by (auto simp: table_file_def intro!: layout_ok_small)
  have later: "compare (seps ! i) (fst x) < 0 \<and> apart (lay_entries (ls ! i)) (seps ! i) (fst x)"
    if ij: "i < j" "j < length ls" and x: "x \<in> set (lay_entries (ls ! j))" for i j x
  proof -
    have "drop (Suc i) (map lay_entries ls) ! (j - Suc i) \<in> set (drop (Suc i) (map lay_entries ls))"
      using ij by (intro nth_mem) simp
    then have "x \<in> set (concat (drop (Suc i) (map lay_entries ls)))" using x ij by auto
    moreover have "i < length seps" and "map lay_entries ls ! i = lay_entries (ls ! i)" using ij n by simp_all
    ultimately show ?thesis using sep unfolding separated_def by metis
  qed
  note beyond = conjunct1 [OF later]
  have "compare (seps ! i) (seps ! j) < 0" if ij: "i < j" "j < length ls" for i j
  proof -
    have "lay_entries (ls ! j) \<noteq> []" using ne that by simp
    then obtain x where x: "x \<in> set (lay_entries (ls ! j))" by (cases "lay_entries (ls ! j)") auto
    then have "compare (fst x) (seps ! j) \<le> 0" using sep ij n by (simp add: separated_def)
    then show ?thesis using beyond [OF ij x] compare_less_trans [of "seps ! i" "fst x" "seps ! j"] by simp
  qed
  then have os: "ordered seps" using n by (simp add: ordered_def sorted_wrt_iff_nth_less)
  have block: "ordered (map fst (lay_entries l))" if "l \<in> set ls" for l
  proof -
    from split_list [OF that] obtain ls1 ls2 where "ls = ls1 @ l # ls2" by blast
    then show ?thesis using o es by (simp add: ordered_append)
  qed
  have ok: "view_ok v"
    using lo os block beyond [OF lessI] lens small n sep t by (simp add: view_ok_def v_def table_file_def) (simp add: separated_def)
  obtain rest where "fl = data_bytes ls @ rest" by (simp add: fl table_bytes_def Let_def)
  then show "reads t v" using ok assms(2-4) small by (auto simp: reads_def v_def t_compare_def)
  show "view_entries v = es" by (simp add: view_entries_def v_def es)
  show "layout_ok ml" by (rule lo(3))
  show "view_apart alike v"
    unfolding view_apart_def v_def table_view.simps
  proof (intro allI impI, elim conjE)
    fix i j x k
    assume ij: "i < j" "j < length ls" and x: "x \<in> set (lay_entries (ls ! j))"
      and k: "\<forall>y \<in> set (lay_entries (ls ! i)). compare (fst y) k < 0" "compare k (seps ! i) \<le> 0"
    from conjunct2 [OF later [OF ij x]] k show "\<not> alike (fst x) k" unfolding apart_def by blast
  qed
qed

text \<open>The parts of the file, at the offsets that the footer and the index of the meta blocks have.\<close>

lemma table_file_reads:
  assumes t: "table_file fl ls seps fc ml il es"
  shows "\<exists>mh ih pre. fl = pre @ footer_bytes \<lparr>metaindex_handle = mh, index_handle = ih\<rparr> \<and>
    (\<forall>verify. ReadBlock (mem_file fl) verify mh = Some (OK, \<lparr>bc_data = block_image ml, bc_cachable = True, bc_heap_allocated = True\<rparr>)) \<and>
    (\<forall>verify. ReadBlock (mem_file fl) verify ih = Some (OK, \<lparr>bc_data = block_image il, bc_cachable = True, bc_heap_allocated = True\<rparr>)) \<and>
    (\<forall>verify c. fc = Some c \<longrightarrow> ReadBlock (mem_file fl) verify (block_handle (length (data_bytes ls)) c)
       = Some (OK, \<lparr>bc_data = c, bc_cachable = True, bc_heap_allocated = True\<rparr>))"
proof -
  have fl: "fl = table_bytes ls fc ml il" and "length fl < 2 ^ 32" using t unfolding table_file_def by blast+
  then have small: "length fl < 2 ^ 64" by simp
  let ?pre = "data_bytes ls @ filter_bytes fc"
  let ?mid = "?pre @ stored_block (block_image ml) 0"
  let ?mh = "block_handle (length ?pre) (block_image ml)" and ?ih = "block_handle (length ?mid) (block_image il)"
  let ?f = "footer_bytes \<lparr>metaindex_handle = ?mh, index_handle = ?ih\<rparr>"
  have m: "fl = ?pre @ stored_block (block_image ml) 0 @ (stored_block (block_image il) 0 @ ?f)"
    and i: "fl = ?mid @ stored_block (block_image il) 0 @ ?f"
    and c: "fc = Some c \<Longrightarrow> fl = data_bytes ls @ stored_block c 0 @ (stored_block (block_image ml) 0 @ stored_block (block_image il) 0 @ ?f)" for c
    by (simp_all add: fl table_bytes_def Let_def filter_bytes_def add.assoc)
  have "fl = (?mid @ stored_block (block_image il) 0) @ ?f" using i by simp
  then show ?thesis using mem_file_stored [OF m small refl] mem_file_stored [OF i small refl] mem_file_stored [OF c small refl] by blast
qed

text \<open>The filters are found through the index of the meta blocks.\<close>

lemma ReadMeta_file:
  assumes t: "table_file fl ls seps fc ml il es" and ml: "layout_ok ml" and o: "t_options tb = options" and f: "t_file tb = mem_file fl"
    and m: "metaindex_handle footer = mh"
    and mh: "ReadBlock (mem_file fl) (opt_paranoid_checks options) mh
        = Some (OK, \<lparr>bc_data = block_image ml, bc_cachable = True, bc_heap_allocated = True\<rparr>)"
    and fh: "\<And>c. fc = Some c \<Longrightarrow> ReadBlock (mem_file fl) (opt_paranoid_checks options) (block_handle (length (data_bytes ls)) c)
       = Some (OK, \<lparr>bc_data = c, bc_cachable = True, bc_heap_allocated = True\<rparr>)"
    and none: "t_filter tb = None"
  shows "\<exists>flt. ReadMeta tb footer = Some (tb\<lparr>t_filter := flt\<rparr>) \<and>
    filters_ok alike (tb\<lparr>t_filter := flt\<rparr>) \<lparr>tv_layouts = ls, tv_keys = seps, tv_index = il\<rparr>"
proof (cases "opt_filter_policy options")
  case None
  have "tb = tb\<lparr>t_filter := None\<rparr>" using none by (cases tb) simp
  then show ?thesis using None o none by (intro exI [of _ None]) (simp add: ReadMeta_def filters_ok_def)
next
  case (Some np)
  obtain name policy where np: "np = (name, policy)" by (cases np)
  have cov: "filters_cover fc ls" and me: "lay_entries ml = meta_entries ls fc" using t unfolding table_file_def by blast+
  from cov Some np obtain c where c: "fc = Some c" "\<And>off key. FilterKeyMayMatch policy (make_FilterBlockReader c) off key \<noteq> None"
    "\<And>i x. i < length ls \<Longrightarrow> x \<in> set (lay_entries (ls ! i)) \<Longrightarrow>
       FilterKeyMayMatch policy (make_FilterBlockReader c) (bh_offset (data_handle ls i)) (fst x) = Some True"
    by (simp add: filters_cover_def) blast
  let ?h = "block_handle (length (data_bytes ls)) c" and ?ops = "any_block_ops BytewiseCompare"
  have es: "lay_entries ml = [(filter_meta_key name, handle_bytes ?h)]" using me Some np c(1) by (simp add: meta_entries_def)
  from NewIterator_image [OF ml] block_atI [OF ml, of _ _ BytewiseCompare] have
    "any_block_at BytewiseCompare (NewIterator (make_Block (block_image ml))) (lay_entries ml) (length (lay_entries ml))"
    unfolding es by (auto simp: any_block_at_def es)
  from bytewise.any_block.seek_at [OF this, of "filter_meta_key name"] obtain it where
    it: "Seek ?ops (NewIterator (make_Block (block_image ml))) (filter_meta_key name) = Some it"
      "any_block_at BytewiseCompare it (lay_entries ml) (bytewise.below (filter_meta_key name) (lay_entries ml))" by blast
  have "bytewise.below (filter_meta_key name) (lay_entries ml) = 0"
    by (simp add: es bytewise.below_def bytewise.compare_self)
  with it(2) have at: "any_block_at BytewiseCompare it (lay_entries ml) 0" by simp
  have v: "Valid ?ops it" "Key ?ops it = filter_meta_key name" "Val ?ops it = handle_bytes ?h"
    using bytewise.any_block.valid_at [OF at] bytewise.any_block.key_at [OF at] bytewise.any_block.val_at [OF at] by (simp_all add: es)
  have dec: "HandleDecodeFrom make_BlockHandle (handle_bytes ?h) = (OK, ?h, [])"
    using HandleDecodeFrom_bytes [of make_BlockHandle ?h "[]"] by simp
  have "ReadFilter tb policy (handle_bytes ?h) = Some (tb\<lparr>t_filter := Some (policy, make_FilterBlockReader c)\<rparr>)"
    using dec fh [OF c(1)] o f by (simp add: ReadFilter_def)
  then have "ReadMeta tb footer = Some (tb\<lparr>t_filter := Some (policy, make_FilterBlockReader c)\<rparr>)"
    using Some np o f m mh it(1) v by (simp add: ReadMeta_def slice_eq_iff)
  moreover have "FilterKeyMayMatch policy fr off k = FilterKeyMayMatch policy fr off x" if "alike x k" for fr off x k
  proof -
    have "KeyMayMatch policy k f = KeyMayMatch policy x f" for f by (rule alike_filter [OF _ that]) (simp add: Some np)
    then show ?thesis by (simp only: FilterKeyMayMatch_def)
  qed
  then have "filters_ok alike (tb\<lparr>t_filter := Some (policy, make_FilterBlockReader c)\<rparr>) \<lparr>tv_layouts = ls, tv_keys = seps, tv_index = il\<rparr>"
    using c(2,3) by (simp add: filters_ok_def view_handle_def)
  ultimately show ?thesis by blast
qed

lemma Table_Open_file:
  assumes t: "table_file fl ls seps fc ml il es"
  defines "v \<equiv> \<lparr>tv_layouts = ls, tv_keys = seps, tv_index = il\<rparr>"
  shows "\<exists>tb. (\<forall>c. Table_Open options (None :: ('c, 'h, Block) Cache option) (mem_file fl) (word_of_nat (length fl)) c = Some (OK, Some tb, c)) \<and>
    reads tb v \<and> filters_ok alike tb v \<and> view_apart alike v \<and> view_entries v = es"
proof -
  from table_file_reads [OF t] obtain mh ih pre where
    fl: "fl = pre @ footer_bytes \<lparr>metaindex_handle = mh, index_handle = ih\<rparr>" and
    mh: "\<And>verify. ReadBlock (mem_file fl) verify mh = Some (OK, \<lparr>bc_data = block_image ml, bc_cachable = True, bc_heap_allocated = True\<rparr>)" and
    ih: "\<And>verify. ReadBlock (mem_file fl) verify ih = Some (OK, \<lparr>bc_data = block_image il, bc_cachable = True, bc_heap_allocated = True\<rparr>)" and
    fh: "\<And>verify c. fc = Some c \<Longrightarrow> ReadBlock (mem_file fl) verify (block_handle (length (data_bytes ls)) c)
       = Some (OK, \<lparr>bc_data = c, bc_cachable = True, bc_heap_allocated = True\<rparr>)" by blast
  let ?f = "footer_bytes \<lparr>metaindex_handle = mh, index_handle = ih\<rparr>"
  have "length fl < 2 ^ 32" using t unfolding table_file_def by blast
  then have small: "length fl < 2 ^ 64" by simp
  have len: "length fl = length pre + kEncodedLength" by (simp add: fl length_footer_bytes)
  have k: "(word_of_nat (length fl) :: u64) - word_of_nat kEncodedLength = word_of_nat (length pre)" by (simp add: len)
  have "mem_file (pre @ ?f @ []) (word_of_nat (length pre)) (word_of_nat (length ?f)) = (OK, ?f, True)"
    by (rule mem_file_read) (use small len in \<open>simp_all add: length_footer_bytes kEncodedLength_def kMaxEncodedLength_def\<close>)
  then have rd: "mem_file fl (word_of_nat (length fl) - word_of_nat kEncodedLength) (word_of_nat kEncodedLength) = (OK, ?f, True)"
    unfolding k by (simp add: fl length_footer_bytes)
  have long: "\<not> (word_of_nat (length fl) :: u64) < word_of_nat kEncodedLength"
  proof -
    have "unat (word_of_nat kEncodedLength :: u64) = kEncodedLength"
      by (rule unat_u64) (simp add: kEncodedLength_def kMaxEncodedLength_def)
    then show ?thesis using unat_u64 [OF small] len by (simp add: word_less_nat_alt)
  qed
  have dec: "FooterDecodeFrom make_Footer ?f = Some (OK, \<lparr>metaindex_handle = mh, index_handle = ih\<rparr>, [])"
    using FooterDecodeFrom_bytes [of make_Footer _ "[]"] by simp
  let ?tb = "\<lparr>t_options = options, t_file = mem_file fl, t_cache_id = 0, t_filter = None, t_metaindex_handle = mh,
      t_index_block = make_Block (block_image il)\<rparr>"
  have ml: "layout_ok ml" by (rule table_file_view(3) [OF t, of ?tb]) simp_all
  from ReadMeta_file [OF t ml, of ?tb "\<lparr>metaindex_handle = mh, index_handle = ih\<rparr>" mh] mh fh obtain flt where
    flt: "ReadMeta ?tb \<lparr>metaindex_handle = mh, index_handle = ih\<rparr> = Some (?tb\<lparr>t_filter := flt\<rparr>)" "filters_ok alike (?tb\<lparr>t_filter := flt\<rparr>) v"
    unfolding v_def by auto
  have "Table_Open options (None :: ('c, 'h, Block) Cache option) (mem_file fl) (word_of_nat (length fl)) c = Some (OK, Some (?tb\<lparr>t_filter := flt\<rparr>), c)" for c
    unfolding Table_Open_def if_not_P [OF long] rd using dec ih flt(1) by simp
  moreover have "reads (?tb\<lparr>t_filter := flt\<rparr>) v" unfolding v_def by (rule table_file_view(1) [OF t]) simp_all
  moreover have "view_entries v = es" unfolding v_def by (rule table_file_view(2) [OF t, of ?tb]) simp_all
  moreover have "view_apart alike v" unfolding v_def by (rule table_file_view(4) [OF t, of ?tb]) simp_all
  ultimately show ?thesis using flt(2) by auto
qed

end

text \<open>A cache only gives the table a number.\<close>

lemma ReadMeta_id:
  "ReadMeta (t\<lparr>t_cache_id := i\<rparr>) footer = map_option (\<lambda>t. t\<lparr>t_cache_id := i\<rparr>) (ReadMeta t footer)"
  by (auto simp: ReadMeta_def ReadFilter_def Let_def split: option.splits prod.splits bind_splits)

lemma Table_Open_cached:
  assumes "Table_Open options (None :: ('a, 'b, Block) Cache option) file file_size c = Some (OK, Some t, c')"
  shows "Table_Open options (Some bc) file file_size c1 = Some (OK, Some (t\<lparr>t_cache_id := fst (cache_NewId bc c1)\<rparr>), snd (cache_NewId bc c1))"
proof -
  obtain i c2 where nid: "cache_NewId bc c1 = (i, c2)" by (cases "cache_NewId bc c1")
  have "ReadMeta \<lparr>t_options = options, t_file = file, t_cache_id = i, t_filter = None, t_metaindex_handle = h, t_index_block = b\<rparr> footer
    = map_option (\<lambda>t. t\<lparr>t_cache_id := i\<rparr>) (ReadMeta \<lparr>t_options = options, t_file = file, t_cache_id = 0, t_filter = None,
        t_metaindex_handle = h, t_index_block = b\<rparr> footer)" for h b footer
    using ReadMeta_id [of i "\<lparr>t_options = options, t_file = file, t_cache_id = 0, t_filter = None, t_metaindex_handle = h, t_index_block = b\<rparr>" footer]
    by simp
  then show ?thesis using assms unfolding Table_Open_def
    by (auto simp: nid Let_def split: if_splits prod.splits bind_splits option.splits)
qed

text \<open>
  What a lookup of \<open>k\<close> in a table with the entries \<open>es\<close> may give: the first entry from \<open>k\<close> on, if it answers \<open>k\<close>; otherwise
  that entry or nothing.
\<close>

definition finds :: "(slice \<Rightarrow> slice \<Rightarrow> int) \<Rightarrow> (slice \<Rightarrow> slice \<Rightarrow> bool) \<Rightarrow> entry list \<Rightarrow> slice \<Rightarrow> entry option \<Rightarrow> bool" where
  "finds compare alike es k saved \<longleftrightarrow>
     (let p = length (takeWhile (\<lambda>e. compare (fst e) k < 0) es) in
      if p < length es \<and> alike (fst (es ! p)) k then saved = Some (es ! p)
      else saved = None \<or> p < length es \<and> saved = Some (es ! p))"

context slice_comparator
begin

definition good_table :: "(slice \<Rightarrow> slice \<Rightarrow> bool) \<Rightarrow> entry list \<Rightarrow> Table \<Rightarrow> table_view \<Rightarrow> bool" where
  "good_table alike es t v \<longleftrightarrow> reads t v \<and> filters_ok alike t v \<and> view_apart alike v \<and> view_entries v = es"

lemma good_table_id [simp]: "good_table alike es (t\<lparr>t_cache_id := i\<rparr>) v \<longleftrightarrow> good_table alike es t v"
  by (simp add: good_table_def reads_def filters_ok_def t_compare_def)

end

context cached_tables
begin

lemma lookup_result_id [simp]: "lookup_result (t\<lparr>t_cache_id := i\<rparr>) v k = lookup_result t v k"
  by (simp add: lookup_result_def table_index_def reads_def t_compare_def filter_excludes_def)

lemma lookup_result_good: "good_table alike es t v \<Longrightarrow> finds compare alike es k (lookup_result t v k)"
  using lookup_result_finds [of t v alike k] by (auto simp: good_table_def finds_def below_def)

end

section \<open>Many tables and lookups\<close>

text \<open>
  Several files are opened one after the other, with a common cache if there is one. A lookup in a run names the table,
  the two options of the read, and the key; the results are the statuses and the entries that are found.
\<close>

fun open_tables :: "Options \<Rightarrow> ('c, 'h, Block) Cache option \<Rightarrow> (RandomAccessFile \<times> u64) list \<Rightarrow> 'c \<Rightarrow> (Table list \<times> 'c) option" where
  "open_tables options bc [] c = Some ([], c)"
| "open_tables options bc ((file, file_size) # files) c = do {
     (s, t, c) \<leftarrow> Table_Open options bc file file_size c;
     t \<leftarrow> t;
     (ts, c) \<leftarrow> open_tables options bc files c;
     Some (t # ts, c)
   }"

fun lookups :: "('c, 'h, Block) Cache option \<Rightarrow> Table list \<Rightarrow> (nat \<times> bool \<times> bool \<times> slice) list \<Rightarrow> 'c \<Rightarrow> ((Status \<times> entry option) list \<times> 'c) option" where
  "lookups bc ts [] c = Some ([], c)"
| "lookups bc ts ((i, verify, fill, k) # ops) c = do {
     (s, saved, c) \<leftarrow> InternalGet bc (ts ! i) verify fill k c;
     (out, c) \<leftarrow> lookups bc ts ops c;
     Some ((s, saved) # out, c)
   }"

lemma open_tables_uncached:
  "list_all2 (\<lambda>(file, file_size) t. \<forall>c. Table_Open options (None :: ('c, 'h, Block) Cache option) file file_size c = Some (OK, Some t, c)) files ts \<Longrightarrow>
    open_tables options (None :: ('c, 'h, Block) Cache option) files c = Some (ts, c)"
  by (induction rule: list_all2_induct) auto

context cached_tables
begin

definition shared_world :: "(Table \<times> table_view) set \<Rightarrow> 'c \<Rightarrow> bool" where
  "shared_world T c \<longleftrightarrow> share_cache T \<and> (\<forall>x \<in> T. reads (fst x) (snd x)) \<and>
     (case block_cache of None \<Rightarrow> True | Some bc \<Rightarrow> \<exists>m. cache_ok c m {#} \<and> all_cached T m)"

lemma shared_table_world:
  fixes t :: Table
  shows "shared_world T c \<Longrightarrow> (t, v) \<in> T \<Longrightarrow> table_world T t v c {#}"
  by (auto simp: shared_world_def table_world_def held_def split: option.splits)

lemma table_world_shared:
  fixes t :: Table
  shows "table_world T t v c {#} \<Longrightarrow> \<forall>x \<in> T. reads (fst x) (snd x) \<Longrightarrow> shared_world T c"
  by (auto simp: shared_world_def table_world_def held_def split: option.splits)

lemma lookups_view:
  assumes "shared_world T c" and "\<forall>i < n. (ts ! i, vs ! i) \<in> T \<and> filters_ok alike (ts ! i) (vs ! i)" and "\<forall>op \<in> set ops. fst op < n"
  shows "\<exists>c'. lookups block_cache ts ops c = Some (map (\<lambda>(i, verify, fill, k). (OK, lookup_result (ts ! i) (vs ! i) k)) ops, c') \<and> shared_world T c'"
  using assms(1,3)
proof (induction ops arbitrary: c)
  case Nil
  then show ?case by simp
next
  case (Cons op ops)
  obtain i verify fill k where op: "op = (i, verify, fill, k)" by (cases op) auto
  then have i: "(ts ! i, vs ! i) \<in> T" "filters_ok alike (ts ! i) (vs ! i)" using Cons.prems(2) assms(2) by auto
  have r: "\<forall>x \<in> T. reads (fst x) (snd x)" using Cons.prems(1) by (simp add: shared_world_def)
  from InternalGet_view [OF shared_table_world [OF Cons.prems(1) i(1)] i(2), of verify fill k] obtain c1 where
    c1: "InternalGet block_cache (ts ! i) verify fill k c = Some (OK, lookup_result (ts ! i) (vs ! i) k, c1)" "shared_world T c1"
    using table_world_shared [OF _ r] by blast
  from Cons.IH [OF c1(2)] Cons.prems(2) obtain c' where
    "lookups block_cache ts ops c1 = Some (map (\<lambda>(i, verify, fill, k). (OK, lookup_result (ts ! i) (vs ! i) k)) ops, c')" "shared_world T c'" by auto
  then show ?case using c1(1) by (simp add: op)
qed

end

context table_options
begin

lemma table_round_trip:
  assumes o: "ordered (map fst es)" and small: "table_cost options filter_cost es < 2 ^ 32"
  shows "\<exists>r tb v. build_table options es = Some (OK, r) \<and> tb_NumEntries r = word_of_nat (length es) \<and>
    (\<forall>c. Table_Open options (None :: ('c, 'h, Block) Cache option) (mem_file (tb_file r)) (tb_FileSize r) c = Some (OK, Some tb, c)) \<and>
    good_table alike es tb v"
proof -
  from build_table_file [OF o small] obtain r ls seps fc ml il where
    r: "build_table options es = Some (OK, r)" "table_file (tb_file r) ls seps fc ml il es"
      "tb_FileSize r = word_of_nat (length (tb_file r))" "tb_NumEntries r = word_of_nat (length es)" by blast
  from Table_Open_file [OF r(2)] show ?thesis using r(1,3,4) unfolding good_table_def by metis
qed

end

section \<open>The options of a database\<close>

text \<open>
  The options of a user with the bytewise comparator, and those that the database makes of them, for
  internal keys. The other parameters are those of \<open>Options\<close>; the interval is positive.
\<close>

definition bloom_filter_policy :: "(FilterPolicy \<Rightarrow> FilterPolicy) \<Rightarrow> nat option \<Rightarrow> (byte list \<times> FilterPolicy) option" where
  "bloom_filter_policy wrap bits = map_option (\<lambda>b. (bytes_of ''leveldb.BuiltinBloomFilter2'', wrap (bloom_policy b))) bits"

definition bytewise_options :: "nat \<Rightarrow> bool \<Rightarrow> nat \<Rightarrow> nat \<Rightarrow> nat \<Rightarrow> nat option \<Rightarrow> Options" where
  "bytewise_options address paranoid block_size interval compression bits =
     \<lparr>opt_comparator = \<lparr>cmp_address = address, cmp_Compare = BytewiseCompare,
        cmp_FindShortestSeparator = BytewiseFindShortestSeparator, cmp_FindShortSuccessor = BytewiseFindShortSuccessor\<rparr>,
      opt_paranoid_checks = paranoid, opt_block_size = block_size, opt_block_restart_interval = Suc interval,
      opt_compression = compression, opt_filter_policy = bloom_filter_policy (\<lambda>p. p) bits\<rparr>"

definition internal_options :: "nat \<Rightarrow> bool \<Rightarrow> nat \<Rightarrow> nat \<Rightarrow> nat \<Rightarrow> nat option \<Rightarrow> Options" where
  "internal_options address paranoid block_size interval compression bits =
     \<lparr>opt_comparator = \<lparr>cmp_address = address, cmp_Compare = InternalKeyCompare BytewiseCompare,
        cmp_FindShortestSeparator = InternalKeyFindShortestSeparator BytewiseCompare BytewiseFindShortestSeparator,
        cmp_FindShortSuccessor = InternalKeyFindShortSuccessor BytewiseCompare BytewiseFindShortSuccessor\<rparr>,
      opt_paranoid_checks = paranoid, opt_block_size = block_size, opt_block_restart_interval = Suc interval,
      opt_compression = compression, opt_filter_policy = bloom_filter_policy InternalFilterPolicy bits\<rparr>"

lemma options_compare [simp]:
  "cmp_Compare (opt_comparator (bytewise_options address paranoid block_size interval compression bits)) = BytewiseCompare"
  "cmp_Compare (opt_comparator (internal_options address paranoid block_size interval compression bits)) = InternalKeyCompare BytewiseCompare"
  by (simp_all add: bytewise_options_def internal_options_def)

definition bloom_cost :: "nat option \<Rightarrow> nat" where
  "bloom_cost bits = (case bits of None \<Rightarrow> 0 | Some b \<Rightarrow> b + 10)"

lemma length_bloom_policy:
  assumes "keys \<noteq> []"
  shows "length (CreateFilter (bloom_policy b) keys []) \<le> (b + 10) * length keys"
proof -
  have n: "1 \<le> length keys" using assms by (cases keys) simp_all
  have "(max 64 (length keys * b) + 7) div 8 + 1 \<le> length keys * b + 10" by linarith
  also have "\<dots> \<le> (b + 10) * length keys" using n by (simp add: algebra_simps)
  finally show ?thesis by (simp add: bloom_policy_def length_BloomCreateFilter make_BloomFilterPolicy_def Let_def)
qed

lemma length_separator: "length (BytewiseFindShortestSeparator a b) \<le> length a"
  by (rule BytewiseFindShortestSeparator_cases [of a b]) auto

lemma length_short_successor: "length (short_successor p key) \<le> length p + length key"
  by (induction p key rule: short_successor.induct) (auto split: if_splits)

lemma length_successor: "length (BytewiseFindShortSuccessor a) \<le> length a"
  using length_short_successor [of "[]" a] by (simp add: BytewiseFindShortSuccessor_def)

lemma length_internal:
  "length (InternalKeyFindShortestSeparator compare separator a b) \<le> length a"
  "length (InternalKeyFindShortSuccessor compare successor a) \<le> length a"
  by (auto simp: InternalKeyFindShortestSeparator_def InternalKeyFindShortSuccessor_def Let_def PutFixed64_def ExtractUserKey_def)

text \<open>
  An entry answers a lookup of its own key. An internal key answers the lookups of its user key at any
  sequence number. What the shortened keys of the index leave for the blocks that follow does not answer.
\<close>

definition same_user_key :: "slice \<Rightarrow> slice \<Rightarrow> bool" where
  "same_user_key x k \<longleftrightarrow> ExtractUserKey x = ExtractUserKey k"

lemma BytewiseCompare_antisym: "BytewiseCompare a b \<le> 0 \<Longrightarrow> BytewiseCompare b a \<le> 0 \<Longrightarrow> a = b"
  using BytewiseCompare_order by simp

lemma user_separator_apart:
  assumes "BytewiseCompare a b < 0" and "BytewiseCompare k (BytewiseFindShortestSeparator a b) \<le> 0"
  shows "b \<noteq> k"
  using bytewise.separator_between [OF assms(1)] bytewise.compare_swap_le assms(2) by (metis not_le)

lemma internal_separator_apart:
  assumes ab: "InternalKeyCompare BytewiseCompare a b < 0" and ak: "InternalKeyCompare BytewiseCompare a k < 0"
    and ks: "InternalKeyCompare BytewiseCompare k (InternalKeyFindShortestSeparator BytewiseCompare BytewiseFindShortestSeparator a b) \<le> 0"
  shows "\<not> same_user_key b k"
proof (cases rule: bytewise.iseparator_cases [of a b])
  case same
  then have "InternalKeyCompare BytewiseCompare k a \<le> 0" using ks by simp
  then show ?thesis using ak internal.compare_swap_le [of k a] by simp
next
  case (shorter tmp)
  have "BytewiseCompare (ExtractUserKey a) (ExtractUserKey b) < 0"
    using bytewise.separator_otherwise [of "ExtractUserKey a" "ExtractUserKey b"] shorter(1,3) bytewise.compare_self by fastforce
  from bytewise.separator_between [OF this] have "BytewiseCompare tmp (ExtractUserKey b) < 0" unfolding shorter(1) by simp
  moreover have "BytewiseCompare (ExtractUserKey k) tmp \<le> 0" using ks shorter(2) by (auto simp: bytewise.icompare_le)
  ultimately have "BytewiseCompare (ExtractUserKey k) (ExtractUserKey b) < 0"
    using bytewise.compare_less_trans [of "ExtractUserKey k" tmp "ExtractUserKey b"] by simp
  then show ?thesis using bytewise.compare_self by (auto simp: same_user_key_def)
qed

lemma same_user_key_between:
  assumes "same_user_key y k" and "InternalKeyCompare BytewiseCompare k x \<le> 0" and "InternalKeyCompare BytewiseCompare x y \<le> 0"
  shows "same_user_key x k"
proof -
  have "BytewiseCompare (ExtractUserKey k) (ExtractUserKey x) \<le> 0" "BytewiseCompare (ExtractUserKey x) (ExtractUserKey k) \<le> 0"
    using assms by (auto simp: bytewise.icompare_le same_user_key_def)
  then show ?thesis using BytewiseCompare_antisym by (simp add: same_user_key_def)
qed

interpretation user_tables: table_options "bytewise_options address paranoid block_size interval compression bits" "bloom_cost bits" "(=)"
  for address paranoid block_size interval compression bits
proof (intro table_options.intro table_options_axioms.intro)
  let ?o = "bytewise_options address paranoid block_size interval compression bits"
  show "shortening_comparator (cmp_Compare (opt_comparator ?o)) (cmp_FindShortestSeparator (opt_comparator ?o))
      (cmp_FindShortSuccessor (opt_comparator ?o))"
    using bytewise.shortening_comparator_axioms by (simp add: bytewise_options_def)
  show "1 \<le> opt_block_restart_interval ?o" by (simp add: bytewise_options_def)
  show "length (cmp_FindShortestSeparator (opt_comparator ?o) a b) \<le> length a" for a b
    using length_separator by (simp add: bytewise_options_def)
  show "length (cmp_FindShortSuccessor (opt_comparator ?o) a) \<le> length a" for a
    using length_successor by (simp add: bytewise_options_def)
  show "filter_policy policy" if "opt_filter_policy ?o = Some (name, policy)" for name policy
    using that bloom.filter_policy_axioms by (auto simp: bytewise_options_def bloom_filter_policy_def)
  show "length (CreateFilter policy keys []) \<le> bloom_cost bits * length keys"
    if "opt_filter_policy ?o = Some (name, policy)" "keys \<noteq> []" for name policy keys
    using that length_bloom_policy [OF that(2)] by (auto simp: bytewise_options_def bloom_filter_policy_def bloom_cost_def)
  show "b \<noteq> k" if "cmp_Compare (opt_comparator ?o) a b < 0" "cmp_Compare (opt_comparator ?o) a k < 0"
      "cmp_Compare (opt_comparator ?o) k (cmp_FindShortestSeparator (opt_comparator ?o) a b) \<le> 0" for a b k
    using user_separator_apart [of a b k] that by (simp add: bytewise_options_def)
  show "x = k" if "y = k" "cmp_Compare (opt_comparator ?o) k x \<le> 0" "cmp_Compare (opt_comparator ?o) x y \<le> 0" for x y k
    using that BytewiseCompare_antisym [of k x] by (simp add: bytewise_options_def)
qed simp

interpretation internal_tables: table_options "internal_options address paranoid block_size interval compression bits" "bloom_cost bits"
    same_user_key
  for address paranoid block_size interval compression bits
proof (intro table_options.intro table_options_axioms.intro)
  let ?o = "internal_options address paranoid block_size interval compression bits"
  show "shortening_comparator (cmp_Compare (opt_comparator ?o)) (cmp_FindShortestSeparator (opt_comparator ?o))
      (cmp_FindShortSuccessor (opt_comparator ?o))"
    using internal.shortening_comparator_axioms by (simp add: internal_options_def)
  show "1 \<le> opt_block_restart_interval ?o" by (simp add: internal_options_def)
  show "length (cmp_FindShortestSeparator (opt_comparator ?o) a b) \<le> length a" for a b
    using length_internal by (simp add: internal_options_def)
  show "length (cmp_FindShortSuccessor (opt_comparator ?o) a) \<le> length a" for a
    using length_internal by (simp add: internal_options_def)
  show "filter_policy policy" if "opt_filter_policy ?o = Some (name, policy)" for name policy
    using that internal_bloom.filter_policy_axioms by (auto simp: internal_options_def bloom_filter_policy_def)
  show "length (CreateFilter policy keys []) \<le> bloom_cost bits * length keys"
    if "opt_filter_policy ?o = Some (name, policy)" "keys \<noteq> []" for name policy keys
    using that length_bloom_policy [of "map ExtractUserKey keys"]
    by (auto simp: internal_options_def bloom_filter_policy_def bloom_cost_def InternalFilterPolicy_def)
  show "KeyMayMatch policy k f = KeyMayMatch policy x f" if "opt_filter_policy ?o = Some (name, policy)" "same_user_key x k" for name policy x k f
    using that by (auto simp: internal_options_def bloom_filter_policy_def InternalFilterPolicy_def same_user_key_def)
  show "\<not> same_user_key b k" if "cmp_Compare (opt_comparator ?o) a b < 0" "cmp_Compare (opt_comparator ?o) a k < 0"
      "cmp_Compare (opt_comparator ?o) k (cmp_FindShortestSeparator (opt_comparator ?o) a b) \<le> 0" for a b k
    using internal_separator_apart [of a b k] that by (simp add: internal_options_def)
  show "same_user_key x k" if "same_user_key y k" "cmp_Compare (opt_comparator ?o) k x \<le> 0" "cmp_Compare (opt_comparator ?o) x y \<le> 0" for x y k
    using same_user_key_between [OF that(1)] that(2,3) by simp
qed

interpretation user_uncached: cached_tables BytewiseCompare None "\<lambda>c m H. True"
  by unfold_locales simp_all

interpretation internal_uncached: cached_tables "InternalKeyCompare BytewiseCompare" None "\<lambda>c m H. True"
  by unfold_locales simp_all

text \<open>The order of the keys, which of them answer a lookup, and the options.\<close>

definition database_options :: "(slice \<Rightarrow> slice \<Rightarrow> int) \<Rightarrow> (slice \<Rightarrow> slice \<Rightarrow> bool) \<Rightarrow> nat option \<Rightarrow> Options \<Rightarrow> bool" where
  "database_options compare alike bits options \<longleftrightarrow>
     (\<exists>address paranoid block_size interval compression.
        compare = BytewiseCompare \<and> alike = (=) \<and> options = bytewise_options address paranoid block_size interval compression bits \<or>
        compare = InternalKeyCompare BytewiseCompare \<and> alike = same_user_key \<and>
          options = internal_options address paranoid block_size interval compression bits)"

lemma database_tables:
  assumes "database_options compare alike bits options"
  shows "table_options options (bloom_cost bits) alike" "cmp_Compare (opt_comparator options) = compare"
    "cached_tables compare (None :: ('c, 'h, Block) Cache option) (\<lambda>c m H. True)" "slice_comparator compare"
  using assms user_tables.table_options_axioms internal_tables.table_options_axioms
    user_uncached.cached_tables_axioms internal_uncached.cached_tables_axioms bytewise.slice_comparator_axioms internal.slice_comparator_axioms
  unfolding database_options_def by auto

lemma database_round_trip:
  assumes d: "database_options compare alike bits options" and "sorted_wrt (\<lambda>a b. compare a b < 0) (map fst es)"
    and small: "table_cost options (bloom_cost bits) es < 2 ^ 32"
  shows "\<exists>r tb v. build_table options es = Some (OK, r) \<and> tb_NumEntries r = word_of_nat (length es) \<and>
    (\<forall>c. Table_Open options (None :: ('c, 'h, Block) Cache option) (mem_file (tb_file r)) (tb_FileSize r) c = Some (OK, Some tb, c)) \<and>
    slice_comparator.good_table compare alike es tb v"
proof -
  note cmp = database_tables(2) [OF d]
  have "comparator.ordered compare (map fst es)"
    using assms(2) comparator.ordered_def [OF slice_comparator.axioms [OF database_tables(4) [OF d]]] by simp
  from table_options.table_round_trip [OF database_tables(1) [OF d], unfolded cmp, OF this small] show ?thesis .
qed

text \<open>A table without a cache.\<close>

lemma BlockReader_uncached: "BlockReader (None :: ('c, 'h, Block) Cache option) t verify fill v c = Some (it, c') \<Longrightarrow> c' = c"
  by (auto simp: BlockReader_def split: prod.splits if_splits bind_splits option.splits)

lemma InternalGet_uncached: "InternalGet (None :: ('c, 'h, Block) Cache option) t verify fill k c = Some (s, saved, c') \<Longrightarrow> c' = c"
  unfolding InternalGet_def Let_def delete_block_iter_def
  by (auto simp: Option.bind_eq_Some_conv dest!: BlockReader_uncached split: if_split_asm)

lemma uncached_world:
  fixes t :: Table
  assumes d: "database_options compare alike bits options" and g: "slice_comparator.good_table compare alike es t v"
  shows "cached_tables.table_world compare (None :: ('c, 'h, Block) Cache option) (\<lambda>c m H. True) {(t, v)} t v c {#}"
  using g slice_comparator.good_table_def [OF database_tables(4) [OF d]]
  by (simp add: cached_tables.table_world_def [OF database_tables(3) [OF d]] share_cache_def)

lemma uncached_reads:
  fixes t :: Table
  assumes d: "database_options compare alike bits options" and g: "slice_comparator.good_table compare alike es t v"
  shows "follows compare (\<lambda>k. True) (two_level_ops (table_arg (None :: ('c, 'h, Block) Cache option) t verify fill)) (Table_NewIterator t c) es (length es)"
    and "InternalGet (None :: ('c, 'h, Block) Cache option) t verify fill k c = Some (OK, cached_tables.lookup_result compare t v k, c)"
    and "finds compare alike es k (cached_tables.lookup_result compare t v k)"
proof -
  let ?none = "None :: ('c, 'h, Block) Cache option"
  note ct = database_tables(3) [OF d, where ?'c = 'c and ?'h = 'h] and w = uncached_world [OF d g, of c]
  have g': "filters_ok alike t v" "view_entries v = es" using g slice_comparator.good_table_def [OF database_tables(4) [OF d]] by auto
  show "follows compare (\<lambda>k. True) (two_level_ops (table_arg ?none t verify fill)) (Table_NewIterator t c) es (length es)"
    using cached_tables.table_iterator_follows [OF ct w] unfolding g'(2) .
  obtain c' where "InternalGet ?none t verify fill k c = Some (OK, cached_tables.lookup_result compare t v k, c')"
    using cached_tables.InternalGet_view [OF ct w g'(1)] by blast
  moreover from this have "c' = c" by (rule InternalGet_uncached)
  ultimately show "InternalGet ?none t verify fill k c = Some (OK, cached_tables.lookup_result compare t v k, c)" by simp
  show "finds compare alike es k (cached_tables.lookup_result compare t v k)" by (rule cached_tables.lookup_result_good [OF ct g])
qed

lemma lookups_uncached:
  assumes d: "database_options compare alike bits options"
    and "\<forall>i < n. slice_comparator.good_table compare alike (ess ! i) (ts ! i) (vs ! i)" and "\<forall>op \<in> set ops. fst op < n"
  shows "lookups (None :: ('c, 'h, Block) Cache option) ts ops c
    = Some (map (\<lambda>(i, verify, fill, k). (OK, cached_tables.lookup_result compare (ts ! i) (vs ! i) k)) ops, c)"
  using assms(3)
proof (induction ops)
  case (Cons op ops)
  obtain i verify fill k where op: "op = (i, verify, fill, k)" by (cases op) auto
  then have "slice_comparator.good_table compare alike (ess ! i) (ts ! i) (vs ! i)" using assms(2) Cons.prems by simp
  from uncached_reads(2) [OF d this, where ?'c = 'c and ?'h = 'h] Cons show ?case by (simp add: op)
qed simp

text \<open>Several tables of a database, built and opened.\<close>

lemma database_round_trips:
  assumes d: "database_options compare alike bits options"
    and "\<forall>es \<in> set ess. sorted_wrt (\<lambda>a b. compare a b < 0) (map fst es) \<and> table_cost options (bloom_cost bits) es < 2 ^ 32"
  shows "\<exists>rs ts vs. map (build_table options) ess = map (\<lambda>r. Some (OK, r)) rs \<and> length ts = length ess \<and> length vs = length ess \<and>
    list_all2 (\<lambda>(file, file_size) t. \<forall>c. Table_Open options (None :: ('c, 'h, Block) Cache option) file file_size c = Some (OK, Some t, c))
      (map (\<lambda>r. (mem_file (tb_file r), tb_FileSize r)) rs) ts \<and>
    (\<forall>i < length ess. slice_comparator.good_table compare alike (ess ! i) (ts ! i) (vs ! i))"
  using assms(2)
proof (induction ess)
  case Nil
  then show ?case by simp
next
  case (Cons es ess)
  then obtain rs ts vs where
    1: "map (build_table options) ess = map (\<lambda>r. Some (OK, r)) rs" "length ts = length ess" "length vs = length ess"
      "list_all2 (\<lambda>(file, file_size) t. \<forall>c. Table_Open options (None :: ('c, 'h, Block) Cache option) file file_size c = Some (OK, Some t, c))
        (map (\<lambda>r. (mem_file (tb_file r), tb_FileSize r)) rs) ts"
      "\<forall>i < length ess. slice_comparator.good_table compare alike (ess ! i) (ts ! i) (vs ! i)" by auto
  from database_round_trip [OF d, of es, where ?'c = 'c and ?'h = 'h] Cons.prems obtain r t v where
    2: "build_table options es = Some (OK, r)"
      "\<forall>c. Table_Open options (None :: ('c, 'h, Block) Cache option) (mem_file (tb_file r)) (tb_FileSize r) c = Some (OK, Some t, c)"
      "slice_comparator.good_table compare alike es t v" by auto
  show ?case
    by (intro exI [of _ "r # rs"] exI [of _ "t # ts"] exI [of _ "v # vs"])
      (use 1 2 in \<open>simp add: All_less_Suc2\<close>)
qed

section \<open>Properties\<close>

text \<open>
  C28. What is written to a table is read from it. Add entries with ascending keys to a new builder and finish
  it: no assertion fails, and the table opens. Its iterator then follows the list of the
  entries through every sequence of moves, over all data blocks in both directions, without an error; this
  holds for the bytewise order and for the order of internal keys, with any block size, restart interval and
  compression option, and with a Bloom filter or without one, for tables below 4 GiB.
\<close>

theorem table_built_and_read:
  assumes "database_options compare alike bits options"
    and "sorted_wrt (\<lambda>a b. compare a b < 0) (map fst es)" and "table_cost options (bloom_cost bits) es < 2 ^ 32"
  shows "\<exists>r tb. build_table options es = Some (OK, r) \<and> tb_NumEntries r = word_of_nat (length es) \<and>
    Table_Open options (None :: ('c, 'h, Block) Cache option) (mem_file (tb_file r)) (tb_FileSize r) c = Some (OK, Some tb, c) \<and>
    follows compare (\<lambda>k. True) (two_level_ops (table_arg (None :: ('c, 'h, Block) Cache option) tb verify fill_cache)) (Table_NewIterator tb c) es (length es)"
proof -
  from database_round_trip [OF assms, where ?'c = 'c and ?'h = 'h] obtain r tb v where
    r: "build_table options es = Some (OK, r)" "tb_NumEntries r = word_of_nat (length es)"
      "\<forall>c. Table_Open options (None :: ('c, 'h, Block) Cache option) (mem_file (tb_file r)) (tb_FileSize r) c = Some (OK, Some tb, c)"
      "slice_comparator.good_table compare alike es tb v" by blast
  show ?thesis using r(1,2,3) uncached_reads(1) [OF assms(1) r(4)] by (intro exI [of _ r] exI [of _ tb]) simp
qed

theorem table_built_and_read_witness:
  "\<exists>r tb. build_table (bytewise_options 0 True 32 1 1 (Some 10)) [([1], [9]), ([1, 2], [8]), ([4], [])] = Some (OK, r) \<and>
    Table_Open (bytewise_options 0 True 32 1 1 (Some 10)) None (mem_file (tb_file r)) (tb_FileSize r) () = Some (OK, Some tb, ())"
proof -
  let ?o = "bytewise_options 0 True 32 1 1 (Some 10)" and ?es = "[([1], [9]), ([1, 2], [8]), ([4], [])] :: entry list"
  have "database_options BytewiseCompare (=) (Some 10) ?o" unfolding database_options_def by blast
  moreover have "sorted_wrt (\<lambda>a b. BytewiseCompare a b < 0) (map fst ?es)" by (simp add: BytewiseCompare_def slice_compare_def)
  moreover have "table_cost ?o (bloom_cost (Some 10)) ?es < 2 ^ 32"
    by (simp add: table_cost_def data_cost_def index_cost_def bytewise_options_def bloom_filter_policy_def bloom_cost_def bytes_of_def)
  ultimately show ?thesis using table_built_and_read [of BytewiseCompare "(=)" "Some 10" ?o ?es "()" False False] by auto
qed

text \<open>
  C29. A lookup in such a table finds what answers its key. If the first entry from the key on has the key, or for internal keys
  the user key of it, the lookup gives this entry: for internal keys the newest version of the user key at the sequence number of the
  lookup or before it. So no filter hides it, and no shortened key of the index leads past it. If that entry does not answer,
  the lookup gives it or nothing, and never an error or another entry.
\<close>

theorem table_lookup:
  assumes "database_options compare alike bits options"
    and "sorted_wrt (\<lambda>a b. compare a b < 0) (map fst es)" and "table_cost options (bloom_cost bits) es < 2 ^ 32"
  shows "\<exists>r tb. build_table options es = Some (OK, r) \<and>
    Table_Open options (None :: ('c, 'h, Block) Cache option) (mem_file (tb_file r)) (tb_FileSize r) c = Some (OK, Some tb, c) \<and>
    (\<forall>k. \<exists>saved. InternalGet (None :: ('c, 'h, Block) Cache option) tb verify fill_cache k c = Some (OK, saved, c) \<and> finds compare alike es k saved)"
proof -
  from database_round_trip [OF assms, where ?'c = 'c and ?'h = 'h] obtain r tb v where
    r: "build_table options es = Some (OK, r)"
      "\<forall>c. Table_Open options (None :: ('c, 'h, Block) Cache option) (mem_file (tb_file r)) (tb_FileSize r) c = Some (OK, Some tb, c)"
      "slice_comparator.good_table compare alike es tb v" by blast
  show ?thesis using r(1,2) uncached_reads(2) [OF assms(1) r(3), where ?'c = 'c and ?'h = 'h] uncached_reads(3) [OF assms(1) r(3)] by (intro exI [of _ r] exI [of _ tb]) simp
qed

text \<open>A user key with two versions, and a lookup between them: it gives the older one.\<close>

definition two_versions :: "entry list" where
  "two_versions = [(internal_key [7] 5 kTypeValue, [9]), (internal_key [7] 2 kTypeValue, [8])]"

theorem table_lookup_witness:
  "\<exists>r tb. build_table (internal_options 0 True 32 1 1 (Some 10)) two_versions = Some (OK, r) \<and>
    Table_Open (internal_options 0 True 32 1 1 (Some 10)) (None :: (unit, unit, Block) Cache option) (mem_file (tb_file r)) (tb_FileSize r) ()
      = Some (OK, Some tb, ()) \<and>
    InternalGet (None :: (unit, unit, Block) Cache option) tb True True (internal_key [7] 3 kTypeValue) ()
      = Some (OK, Some (internal_key [7] 2 kTypeValue, [8]), ())"
proof -
  let ?o = "internal_options 0 True 32 1 1 (Some 10)" and ?cmp = "InternalKeyCompare BytewiseCompare"
    and ?none = "None :: (unit, unit, Block) Cache option" and ?k = "internal_key [7] 3 kTypeValue"
  have "database_options ?cmp same_user_key (Some 10) ?o" unfolding database_options_def by blast
  moreover have "?cmp (internal_key [7] s kTypeValue) (internal_key [7] s' kTypeValue) < 0 \<longleftrightarrow> s' < s"
    if "s \<le> kMaxSequenceNumber" "s' \<le> kMaxSequenceNumber" for s s' using internal_key_less [OF that, of BytewiseCompare "[7]" kTypeValue "[7]" kTypeValue] by (simp add: BytewiseCompare_order)
  note less = this
  have "sorted_wrt (\<lambda>a b. ?cmp a b < 0) (map fst two_versions)" by (simp add: two_versions_def less kMaxSequenceNumber_def)
  moreover have "table_cost ?o (bloom_cost (Some 10)) two_versions < 2 ^ 32"
    by (simp add: two_versions_def table_cost_def data_cost_def index_cost_def internal_options_def bloom_filter_policy_def bloom_cost_def
        bytes_of_def AppendInternalKey_def PutFixed64_def)
  ultimately obtain r tb where rt: "build_table ?o two_versions = Some (OK, r)"
      "Table_Open ?o ?none (mem_file (tb_file r)) (tb_FileSize r) () = Some (OK, Some tb, ())"
    and g: "\<exists>saved. InternalGet ?none tb True True ?k () = Some (OK, saved, ()) \<and> finds ?cmp same_user_key two_versions ?k saved"
    using table_lookup [of ?cmp same_user_key "Some 10" ?o two_versions "()" True True] by blast
  have "saved = Some (internal_key [7] 2 kTypeValue, [8])" if "finds ?cmp same_user_key two_versions ?k saved" for saved
    using that by (simp add: finds_def two_versions_def less kMaxSequenceNumber_def same_user_key_def)
  then show ?thesis using rt g by blast
qed

end
