(* ===== verification/LdbCacheProps.thy ===== *)
theory LdbCacheProps
  imports LdbCacheShards LdbTableProps
begin

text \<open>
  The cache of least recently used entries: the properties, over all that clients can do with a cache, and the tables
  that read their blocks through it.
\<close>

section \<open>Clients\<close>

text \<open>
  What clients that keep the contract can do. The ghost \<open>m\<close> has the last insertion of each key that was not erased
  since, \<open>H\<close> the open handles with what was inserted under them, \<open>I\<close> all that was ever inserted.
\<close>

inductive lru_run :: "'v ShardedLRUCache \<Rightarrow> (slice \<rightharpoonup> 'v) \<Rightarrow> ((nat \<times> nat) \<times> 'v) multiset \<Rightarrow> (slice \<times> 'v) multiset \<Rightarrow> bool" where
  start: "0 < capacity \<Longrightarrow> unat capacity + 15 < 2 ^ 64 \<Longrightarrow> lru_run (NewLRUCache capacity) Map.empty {#} {#}"
| insert: "lru_run C m H I \<Longrightarrow> sharded_Insert key v charge C = Some (h, C') \<Longrightarrow>
    lru_run C' (m(key \<mapsto> v)) (add_mset (h, v) H) (add_mset (key, v) I)"
| hit: "lru_run C m H I \<Longrightarrow> sharded_Lookup key C = Some (Some h, C') \<Longrightarrow> sharded_Value h C' = Some v \<Longrightarrow>
    lru_run C' m (add_mset (h, v) H) I"
| miss: "lru_run C m H I \<Longrightarrow> sharded_Lookup key C = Some (None, C') \<Longrightarrow> lru_run C' m H I"
| release: "lru_run C m (add_mset (h, v) H) I \<Longrightarrow> sharded_Release h C = Some C' \<Longrightarrow> lru_run C' m H I"
| erase: "lru_run C m H I \<Longrightarrow> sharded_Erase key C = Some C' \<Longrightarrow> lru_run C' (m(key := None)) H I"
| prune: "lru_run C m H I \<Longrightarrow> sharded_Prune C = Some C' \<Longrightarrow> lru_run C' m H I"
| new_id: "lru_run C m H I \<Longrightarrow> lru_run (snd (sharded_NewId C)) m H I"

lemmas handle_value = lru.value_ok [unfolded lru_cache_def Cache.simps]

lemma lru_run_ok: "lru_run C m H I \<Longrightarrow> sharded_ok C m H \<and> sharded_owned C = I"
proof (induction rule: lru_run.induct)
  case (start capacity)
  then show ?case using NewLRUCache_ok [of capacity] by blast
next
  case (insert C m H I key v charge h C')
  then obtain h' C2 where "sharded_Insert key v charge C = Some (h', C2)" "sharded_ok C2 (m(key \<mapsto> v)) (add_mset (h', v) H)"
    "sharded_owned C2 = add_mset (key, v) I" using sharded_Insert_ok [of C m H key v charge] by blast
  then show ?case using insert.hyps(2) by (simp add: fun_upd_def)
next
  case (hit C m H I key h C' v)
  then obtain w where w: "sharded_ok C' m (add_mset (h, w) H)" "sharded_owned C' = I"
    using sharded_Lookup_ok [of C m H key] by auto
  then have "w = v" using handle_value hit.hyps(3) by fastforce
  then show ?case using w by simp
next
  case (miss C m H I key C')
  then show ?case using sharded_Lookup_ok [of C m H key] by auto
next
  case (release C m h v H I C')
  then show ?case using sharded_Release_ok [of C m h v H] by auto
next
  case (erase C m H I key C')
  then show ?case using sharded_Erase_ok [of C m H key] by (auto simp: fun_upd_def)
next
  case (prune C m H I C')
  then show ?case using sharded_Prune_ok [of C m H] by auto
next
  case (new_id C m H I)
  then show ?case by (simp add: sharded_NewId_def Let_def sharded_ok_def sharded_owned_def)
qed

lemmas lru_run_inv = conjunct1 [OF lru_run_ok] and lru_run_owned = conjunct2 [OF lru_run_ok]

lemma deleted_part: "sum_list (map (\<lambda>c. mset (lc_deleted c)) cs) \<subseteq># sum_list (map owned cs)"
proof (induction cs)
  case (Cons c cs)
  have "mset (lc_deleted c) \<subseteq># owned c" by (simp add: owned_def)
  from subset_mset.add_mono [OF this Cons.IH] show ?case by simp
qed simp

lemma destroy_shards:
  "(\<And>c. c \<in> set cs \<Longrightarrow> \<exists>s. shard_ok s c m {#}) \<Longrightarrow>
    \<exists>ds. map destroy_LRUCache cs = map Some ds \<and> (\<forall>d \<in> set ds. lc_nodes d = Map.empty) \<and>
      sum_list (map (\<lambda>c. mset (lc_deleted c)) ds) = sum_list (map owned cs)"
proof (induction cs)
  case (Cons c cs)
  from Cons.prems [of c] shard_destroy obtain d where
    d: "destroy_LRUCache c = Some d" "lc_nodes d = Map.empty" "mset (lc_deleted d) = owned c" by (metis list.set_intros(1))
  from Cons.IH Cons.prems obtain ds where
    "map destroy_LRUCache cs = map Some ds" "\<forall>d \<in> set ds. lc_nodes d = Map.empty"
    "sum_list (map (\<lambda>c. mset (lc_deleted c)) ds) = sum_list (map owned cs)" by auto
  then show ?case using d by (intro exI [of _ "d # ds"]) simp
qed simp

text \<open>A cache with the capacity 0 gives out a handle with an uninitialised link, which the release reads.\<close>

lemma zero_capacity_release:
  "\<exists>c. lru_Insert (make_LRUCache 0) key hash v charge = Some (0, c) \<and> lru_Release c 0 = None"
proof -
  let ?h = "\<lparr>lh_value = v, lh_charge = charge, lh_key_data = key, lh_in_cache = False, lh_refs = 1, lh_hash = hash\<rparr>"
  let ?c = "(make_LRUCache 0)\<lparr>lc_brk := 1, lc_nodes := [0 \<mapsto> ?h]\<rparr>"
  have "evict_turn (\<lambda>c. lc_capacity c < lc_usage c) ?c = Some (Leave ?c)" by (simp add: evict_turn_def make_LRUCache_def)
  then have "crun (evict_turn (\<lambda>c. lc_capacity c < lc_usage c)) ?c = Some ?c" by (subst crun.simps) simp
  then have "lru_Insert (make_LRUCache 0) key hash v charge = Some (0, ?c)"
    by (simp add: lru_Insert_def Let_def) (simp add: make_LRUCache_def)
  moreover have "lru_Release ?c 0 = None"
    by (simp add: lru_Release_def Unref_def lh_key_def update_node_def make_LRUCache_def Let_def)
  ultimately show ?thesis by blast
qed

section \<open>Properties\<close>

text \<open>
  C31. The cache is safe. Whatever clients have done with a new cache whose capacity is positive, every further operation
  is defined: no assertion fails, no memory is used that was freed or not initialised, and the loops end. A lookup gives
  nothing or a handle to the last value that was inserted under the key and not erased. An open handle keeps its value, and
  it can be released, whatever was evicted, erased or replaced meanwhile.
\<close>

theorem lru_cache_safe:
  assumes "lru_run C m H I"
  shows "(\<exists>h C'. sharded_Insert key v charge C = Some (h, C')) \<and> sharded_Erase key C \<noteq> None \<and> sharded_Prune C \<noteq> None \<and>
    (\<exists>r C'. sharded_Lookup key C = Some (r, C') \<and> (case r of None \<Rightarrow> True | Some h \<Rightarrow> m key \<noteq> None \<and> sharded_Value h C' = m key)) \<and>
    (\<forall>(h, w) \<in># H. sharded_Value h C = Some w \<and> sharded_Release h C \<noteq> None)"
proof -
  note C = lru_run_inv [OF assms]
  have "\<exists>r C'. sharded_Lookup key C = Some (r, C') \<and> (case r of None \<Rightarrow> True | Some h \<Rightarrow> m key \<noteq> None \<and> sharded_Value h C' = m key)"
  proof -
    from sharded_Lookup_ok [OF C, of key] obtain r C' where
      r: "sharded_Lookup key C = Some (r, C')"
        "case r of None \<Rightarrow> sharded_ok C' m H | Some h \<Rightarrow> \<exists>v. m key = Some v \<and> sharded_ok C' m (add_mset (h, v) H)" by blast
    show ?thesis
    proof (cases r)
      case (Some h)
      then obtain v where "m key = Some v" "sharded_ok C' m (add_mset (h, v) H)" using r(2) by auto
      with handle_value [OF this(2)] r(1) Some show ?thesis by simp
    qed (use r(1) in simp)
  qed
  moreover have "sharded_Value h C = Some w \<and> sharded_Release h C \<noteq> None" if x: "(h, w) \<in># H" for h w
  proof -
    from sharded_Value_ok [OF C x] have "sharded_Value h C = Some w" by blast
    moreover from multi_member_split [OF x] sharded_Release_ok [of C m h w] C have "sharded_Release h C \<noteq> None" by auto
    ultimately show ?thesis by blast
  qed
  ultimately show ?thesis using sharded_Insert_ok [OF C, of key v charge] sharded_Erase_ok [OF C, of key] sharded_Prune_ok [OF C] by auto
qed

theorem lru_cache_safe_witness:
  "\<exists>h C. sharded_Insert [1] (7 :: nat) 5 (NewLRUCache 100) = Some (h, C) \<and> sharded_Value h C = Some 7 \<and> sharded_Release h C \<noteq> None"
proof -
  have s: "lru_run (NewLRUCache 100 :: nat ShardedLRUCache) Map.empty {#} {#}" by (rule lru_run.start) simp_all
  from lru_cache_safe [OF s, of "[1]" 7 5] obtain h C where
    i: "sharded_Insert [1] (7 :: nat) 5 (NewLRUCache 100) = Some (h, C)" by blast
  from lru_cache_safe [OF lru_run.insert [OF s i]] show ?thesis using i by auto
qed

text \<open>
  C32. Every value is deleted once. What the deleters got so far is a part of what was inserted. When all handles are
  released, the destructor frees every entry that is left, and then the deleters got exactly all that was inserted.
\<close>

theorem lru_values_deleted_once:
  assumes "lru_run C m H I"
  shows "sum_list (map (\<lambda>c. mset (lc_deleted c)) (sc_shard C)) \<subseteq># I \<and>
    (H = {#} \<longrightarrow> (\<exists>ds. map destroy_LRUCache (sc_shard C) = map Some ds \<and> (\<forall>d \<in> set ds. lc_nodes d = Map.empty) \<and>
       sum_list (map (\<lambda>d. mset (lc_deleted d)) ds) = I))"
proof -
  note C = lru_run_inv [OF assms] and I = lru_run_owned [OF assms, unfolded sharded_owned_def]
  have "\<exists>s. shard_ok s c m {#}" if "H = {#}" "c \<in> set (sc_shard C)" for c
    using C that by (auto simp: sharded_ok_def in_set_conv_nth)
  then show ?thesis using deleted_part [of "sc_shard C"] destroy_shards [of "sc_shard C" m] unfolding I by blast
qed

theorem lru_values_deleted_once_witness:
  "\<exists>ds. map destroy_LRUCache (sc_shard (NewLRUCache 100 :: nat ShardedLRUCache)) = map Some ds \<and>
     sum_list (map (\<lambda>d. mset (lc_deleted d)) ds) = {#}"
  using lru_values_deleted_once [OF lru_run.start [of 100, where ?'v = nat]] by auto

text \<open>
  C33. An insertion finds its place. The new entry counts with its charge, the counter of its shard is the sum of the charges
  of all entries that the shard has (modulo \<open>2 ^ 64\<close>), and after the insertion this sum is at most the capacity of the shard, which
  does not change, unless clients hold handles of every single entry. The new entry is not evicted
  while its handle is open, so that a lookup right after finds it.
\<close>

theorem lru_insert_bounded:
  assumes "lru_run C m H I"
  shows "\<exists>h C'. sharded_Insert key v charge C = Some (h, C') \<and>
    (\<exists>n. sharded_node C' h = Some n \<and> lh_in_cache n \<and> lh_charge n = word_of_nat charge) \<and>
    (let s = Shard (HashSlice key); c = sc_shard C' ! s in
       lc_capacity c = lc_capacity (sc_shard C ! s) \<and> lc_usage c = word_of_nat (total_charge c) \<and>
       (total_charge c < 2 ^ 64 \<longrightarrow>
          total_charge c \<le> unat (lc_capacity c) \<or> (\<forall>e \<in> cached c. \<exists>w. ((s, e), w) \<in># add_mset (h, v) H))) \<and>
    (\<exists>C''. sharded_Lookup key C' = Some (Some h, C'') \<and> sharded_Value h C'' = Some v)"
proof -
  let ?s = "Shard (HashSlice key)"
  from sharded_Insert_ok [OF lru_run_inv [OF assms], of key v charge] obtain h C' C'' where
    h: "sharded_Insert key v charge C = Some (h, C')" "sharded_ok C' (m(key \<mapsto> v)) (add_mset (h, v) H)"
      "let c = sc_shard C' ! ?s in (lc_usage c \<le> lc_capacity c \<or> lc_next c LruHead = Some LruHead) \<and> lc_capacity c = lc_capacity (sc_shard C ! ?s)"
      "sharded_Lookup key C' = Some (Some h, C'')" "\<exists>n. sharded_node C' h = Some n \<and> lh_in_cache n \<and> lh_charge n = word_of_nat charge" by blast
  from sharded_Lookup_ok [OF h(2), of key] h(4) have "sharded_ok C'' (m(key \<mapsto> v)) (add_mset (h, v) (add_mset (h, v) H))" by auto
  from sharded_Value_ok [OF this, of h v] have val: "sharded_Value h C'' = Some v" by force
  let ?c = "sc_shard C' ! ?s"
  note c = shard_charges [OF conjunct1 [OF sharded_shard [OF h(2), of "HashSlice key"]]]
  have bound: "total_charge ?c \<le> unat (lc_capacity ?c) \<or> (\<forall>e \<in> cached ?c. \<exists>w. ((?s, e), w) \<in># add_mset (h, v) H)"
    if "total_charge ?c < 2 ^ 64"
  proof (cases "lc_next ?c LruHead = Some LruHead")
    case True
    have "\<exists>w. ((?s, e), w) \<in># add_mset (h, v) H" if "e \<in> cached ?c" for e
      using c(2) [OF True that] by (cases h) (force simp: handles_of_def split: if_splits)
    then show ?thesis by blast
  next
    case False
    then have "lc_usage ?c \<le> lc_capacity ?c" using h(3) unfolding Let_def by blast
    moreover have "unat (lc_usage ?c) = total_charge ?c" unfolding c(1) by (rule unat_u64 [OF that])
    ultimately show ?thesis by (simp add: word_le_nat_alt)
  qed
  from h(3) have cap: "lc_capacity ?c = lc_capacity (sc_shard C ! ?s)" by (simp add: Let_def)
  show ?thesis
    using h(1,4,5) val c(1) bound cap unfolding Let_def by (intro exI [of _ h] exI [of _ C'] conjI exI [of _ C'']) blast+
qed

theorem lru_insert_bounded_witness:
  "\<exists>h C C'. sharded_Insert [1] (7 :: nat) 5 (NewLRUCache 100) = Some (h, C) \<and> sharded_Lookup [1] C = Some (Some h, C') \<and>
     sharded_Value h C' = Some 7"
proof -
  have "lru_run (NewLRUCache 100 :: nat ShardedLRUCache) Map.empty {#} {#}" by (rule lru_run.start) simp_all
  from lru_insert_bounded [OF this, of "[1]" 7 5] show ?thesis by blast
qed

text \<open>
  C34. The loop of \<open>Prune\<close> ends: it removes every entry that no client has in use, and only those, for the open handles
  keep their values.
\<close>

theorem lru_prune_ends:
  assumes "lru_run C m H I"
  shows "\<exists>C'. sharded_Prune C = Some C' \<and> (\<forall>c \<in> set (sc_shard C'). lc_next c LruHead = Some LruHead) \<and>
    (\<forall>(h, v) \<in># H. sharded_Value h C' = Some v)"
proof -
  from sharded_Prune_ok [OF lru_run_inv [OF assms]] obtain C' where
    C': "sharded_Prune C = Some C'" "sharded_ok C' m H" "\<forall>c \<in> set (sc_shard C'). lc_next c LruHead = Some LruHead" by blast
  have "sharded_Value h C' = Some v" if "(h, v) \<in># H" for h v using sharded_Value_ok [OF C'(2) that] by blast
  then show ?thesis using C'(1,3) by blast
qed

theorem lru_prune_ends_witness:
  "\<exists>h C C'. sharded_Insert [1] (7 :: nat) 5 (NewLRUCache 100) = Some (h, C) \<and> sharded_Prune C = Some C' \<and> sharded_Value h C' = Some 7"
proof -
  have s: "lru_run (NewLRUCache 100 :: nat ShardedLRUCache) Map.empty {#} {#}" by (rule lru_run.start) simp_all
  from sharded_Insert_ok [OF lru_run_inv [OF s], of "[1]" 7 5] obtain h C where
    i: "sharded_Insert [1] (7 :: nat) 5 (NewLRUCache 100) = Some (h, C)" by blast
  from lru_prune_ends [OF lru_run.insert [OF s i]] show ?thesis using i by auto
qed

interpretation user_cached: cached_tables BytewiseCompare "Some lru_cache" sharded_ok
  by (intro cached_tables.intro cached_tables_axioms.intro bytewise.slice_comparator_axioms) (use lru.cache_axioms in simp)

interpretation internal_cached: cached_tables "InternalKeyCompare BytewiseCompare" "Some lru_cache" sharded_ok
  by (intro cached_tables.intro cached_tables_axioms.intro internal.slice_comparator_axioms) (use lru.cache_axioms in simp)

section \<open>Tables behind a cache\<close>

lemma open_tables_cached:
  assumes "list_all2 (\<lambda>(file, file_size) t. \<forall>c. Table_Open options (None :: (unit, unit, Block) Cache option) file file_size c = Some (OK, Some t, c)) files ts"
    and "sharded_ok C m H"
  shows "\<exists>cts C'. open_tables options (Some lru_cache) files C = Some (cts, C') \<and> sharded_ok C' m H \<and> length cts = length ts \<and>
    (\<forall>i < length ts. cts ! i = (ts ! i)\<lparr>t_cache_id := sc_last_id C + word_of_nat (Suc i)\<rparr>)"
  using assms
proof (induction arbitrary: C rule: list_all2_induct)
  case Nil
  then show ?case by simp
next
  case (Cons f files t ts)
  obtain fl n where f: "f = (fl, n)" by (cases f)
  let ?id = "sc_last_id C + 1" and ?C = "C\<lparr>sc_last_id := sc_last_id C + 1\<rparr>"
  have o: "Table_Open options (Some lru_cache) fl n C = Some (OK, Some (t\<lparr>t_cache_id := ?id\<rparr>), ?C)"
    using Table_Open_cached [of options fl n "()" t "()" lru_cache C] Cons.hyps(1) by (simp add: f lru_cache_def sharded_NewId_def Let_def)
  have "sharded_ok ?C m H" using Cons.prems by (simp add: sharded_ok_def)
  from Cons.IH [OF this] obtain cts C' where cts:
      "open_tables options (Some lru_cache) files ?C = Some (cts, C')" "sharded_ok C' m H" "length cts = length ts"
      "\<forall>i < length ts. cts ! i = (ts ! i)\<lparr>t_cache_id := sc_last_id ?C + word_of_nat (Suc i)\<rparr>" by (elim exE conjE) (rule that; assumption)
  show ?case
    by (intro exI [of _ "t\<lparr>t_cache_id := ?id\<rparr> # cts"] exI [of _ C']) (use o cts in \<open>simp add: f All_less_Suc2 add.assoc\<close>)
qed

lemma new_ids_differ:
  assumes "i < n" and "j < n" and "n < 2 ^ 64" and "c + word_of_nat (Suc i) = c + (word_of_nat (Suc j) :: u64)"
  shows "i = j"
proof -
  have eq: "(word_of_nat (Suc i) :: u64) = word_of_nat (Suc j)" using assms(4) by (simp only: add_left_cancel)
  have "Suc i < 2 ^ 64" "Suc j < 2 ^ 64" using assms(1-3) by simp_all
  from unat_u64 [OF this(1)] unat_u64 [OF this(2)] show ?thesis unfolding eq by simp
qed

lemma database_cached:
  assumes "database_options compare alike bits options"
  shows "cached_tables compare (Some lru_cache) sharded_ok"
  using assms user_cached.cached_tables_axioms internal_cached.cached_tables_axioms unfolding database_options_def by blast

text \<open>
  C30. A cache of blocks does not change what is read. Take any number of tables that are built from ascending entries, and open them
  twice: without a cache, and with one new cache of any positive capacity for all of them. Run any
  sequence of lookups through both, on any of the tables, with checksums or without, with blocks put into the cache or not. The
  two runs give the same results, each of them what C29 says of the entries of its table, although the second finds some of
  its blocks in the cache, where earlier lookups have put them beside the blocks of other tables, and loses others to eviction. After
  the run, an iterator over any of the tables still follows the entries of this table through every sequence of moves.
\<close>

theorem table_behind_cache:
  assumes "database_options compare alike bits options"
    and "\<forall>es \<in> set ess. sorted_wrt (\<lambda>a b. compare a b < 0) (map fst es) \<and> table_cost options (bloom_cost bits) es < 2 ^ 32"
    and "length ess < 2 ^ 64" and "0 < capacity" and "unat capacity + 15 < 2 ^ 64" and "\<forall>op \<in> set ops. fst op < length ess"
  shows "\<exists>rs files ts cts c out c'. map (build_table options) ess = map (\<lambda>r. Some (OK, r)) rs \<and>
    files = map (\<lambda>r. (mem_file (tb_file r), tb_FileSize r)) rs \<and>
    open_tables options (None :: (unit, unit, Block) Cache option) files () = Some (ts, ()) \<and>
    open_tables options (Some lru_cache) files (NewLRUCache capacity) = Some (cts, c) \<and>
    lookups (None :: (unit, unit, Block) Cache option) ts ops () = Some (out, ()) \<and>
    lookups (Some lru_cache) cts ops c = Some (out, c') \<and>
    list_all2 (\<lambda>(i, verify, fill_cache, k) (s, saved). s = OK \<and> finds compare alike (ess ! i) k saved) ops out \<and>
    (\<forall>i < length ess. \<forall>verify fill_cache. follows compare (\<lambda>k. True) (two_level_ops (table_arg (Some lru_cache) (cts ! i) verify fill_cache))
       (Table_NewIterator (cts ! i) c') (ess ! i) (length (ess ! i)))"
proof -
  note sc = database_tables(4) [OF assms(1)] and ct = database_cached [OF assms(1)]
  note ct0 = database_tables(3) [OF assms(1), where ?'c = unit and ?'h = unit]
  from database_round_trips [OF assms(1,2), where ?'c = unit and ?'h = unit] obtain rs ts vs where
    b: "map (build_table options) ess = map (\<lambda>r. Some (OK, r)) rs" and len: "length ts = length ess" "length vs = length ess" and
    all: "list_all2 (\<lambda>(file, file_size) t. \<forall>c. Table_Open options (None :: (unit, unit, Block) Cache option) file file_size c = Some (OK, Some t, c))
      (map (\<lambda>r. (mem_file (tb_file r), tb_FileSize r)) rs) ts" and
    good: "\<forall>i < length ess. slice_comparator.good_table compare alike (ess ! i) (ts ! i) (vs ! i)" by blast
  from open_tables_cached [OF all NewLRUCache_ok(1) [OF assms(4,5), of Map.empty]] obtain cts c where
    c: "open_tables options (Some lru_cache) (map (\<lambda>r. (mem_file (tb_file r), tb_FileSize r)) rs) (NewLRUCache capacity) = Some (cts, c)"
      "sharded_ok c Map.empty {#}" "length cts = length ts"
      "\<forall>i < length ts. cts ! i = (ts ! i)\<lparr>t_cache_id := sc_last_id (NewLRUCache capacity :: Block ShardedLRUCache) + word_of_nat (Suc i)\<rparr>" by (elim exE conjE) (rule that; assumption)
  define T where "T = set (zip cts vs)"
  have T: "x \<in> T \<longleftrightarrow> (\<exists>i < length ess. x = (cts ! i, vs ! i))" for x using len c(3) by (auto simp: T_def set_zip)
  have good': "slice_comparator.good_table compare alike (ess ! i) (cts ! i) (vs ! i)" if "i < length ess" for i
    using good that c(4) len by (simp add: slice_comparator.good_table_id [OF sc])
  note parts = good' [unfolded slice_comparator.good_table_def [OF sc]]
  have "share_cache T"
    unfolding share_cache_def
  proof (intro ballI impI)
    fix x y :: "Table \<times> table_view"
    assume "x \<in> T" "y \<in> T" and id: "t_cache_id (fst x) = t_cache_id (fst y)"
    then obtain i j where ij: "i < length ess" "j < length ess" "x = (cts ! i, vs ! i)" "y = (cts ! j, vs ! j)" using T by blast
    then show "x = y" using new_ids_differ [OF ij(1,2) assms(3), of "sc_last_id (NewLRUCache capacity :: Block ShardedLRUCache)"] id c(4) len by simp
  qed
  moreover have "all_cached T Map.empty" by (simp add: all_cached_def caches_def)
  moreover have "slice_comparator.reads compare (fst x) (snd x)" if "x \<in> T" for x :: "Table \<times> table_view"
    using that parts unfolding T by auto
  ultimately have w: "cached_tables.shared_world compare (Some lru_cache) sharded_ok T c"
    using c(2) unfolding cached_tables.shared_world_def [OF ct] by auto
  have in_T: "\<forall>i < length ess. (cts ! i, vs ! i) \<in> T \<and> filters_ok alike (cts ! i) (vs ! i)" using T parts by auto
  let ?get = "cached_tables.lookup_result compare"
  let ?out = "map (\<lambda>(i, verify, fill, k). (OK, ?get (cts ! i) (vs ! i) k)) ops"
  from cached_tables.lookups_view [OF ct w in_T assms(6)] obtain c' where
    c': "lookups (Some lru_cache) cts ops c = Some (?out, c')" "cached_tables.shared_world compare (Some lru_cache) sharded_ok T c'" by blast
  have ts: "?get (cts ! i) (vs ! i) k = ?get (ts ! i) (vs ! i) k" if "i < length ess" for i k
    using c(4) len that by (simp add: cached_tables.lookup_result_id [OF ct])
  have o0: "open_tables options (None :: (unit, unit, Block) Cache option) (map (\<lambda>r. (mem_file (tb_file r), tb_FileSize r)) rs) () = Some (ts, ())"
    by (rule open_tables_uncached [OF all])
  have out: "?out = map (\<lambda>(i, verify, fill, k). (OK, ?get (ts ! i) (vs ! i) k)) ops" using assms(6) ts by auto
  have l0: "lookups (None :: (unit, unit, Block) Cache option) ts ops () = Some (?out, ())"
    unfolding out by (rule lookups_uncached [OF assms(1) good assms(6)])
  have fnd: "finds compare alike (ess ! i) k (?get (cts ! i) (vs ! i) k)" if "i < length ess" for i k
    by (rule cached_tables.lookup_result_good [OF ct good' [OF that]])
  then have found: "list_all2 (\<lambda>(i, verify, fill_cache, k) (s, saved). s = OK \<and> finds compare alike (ess ! i) k saved) ops ?out"
    using assms(6) by (auto simp: list_all2_conv_all_nth split: prod.splits) (metis fst_conv nth_mem)
  have walk: "follows compare (\<lambda>k. True) (two_level_ops (table_arg (Some lru_cache) (cts ! i) verify fill_cache))
       (Table_NewIterator (cts ! i) c') (ess ! i) (length (ess ! i))" if "i < length ess" for i verify fill_cache
  proof -
    from in_T that have "(cts ! i, vs ! i) \<in> T" by blast
    from cached_tables.table_iterator_follows [OF ct cached_tables.shared_table_world [OF ct c'(2) this]]
    show ?thesis using parts [OF that] by simp
  qed
  show ?thesis
    by (intro exI [of _ rs] exI [of _ "map (\<lambda>r. (mem_file (tb_file r), tb_FileSize r)) rs"] exI [of _ ts] exI [of _ cts] exI [of _ c] exI [of _ ?out]
        exI [of _ c'] conjI allI impI) (fact b refl o0 c(1) l0 c'(1) found | rule walk, assumption)+
qed

text \<open>
  Two tables with the same keys, whose blocks are at the same offsets: the lookups of the second do not give the entries of the
  first, although these are in the cache, and a lookup gives again what it gave.
\<close>

theorem table_behind_cache_witness:
  "\<exists>rs cts c c'. map (build_table (bytewise_options 0 True 32 1 1 (Some 10))) [[([1], [9]), ([4], [7])], [([1], [5]), ([4], [6])]]
      = map (\<lambda>r. Some (OK, r)) rs \<and>
    open_tables (bytewise_options 0 True 32 1 1 (Some 10)) (Some lru_cache) (map (\<lambda>r. (mem_file (tb_file r), tb_FileSize r)) rs) (NewLRUCache 50)
      = Some (cts, c) \<and>
    lookups (Some lru_cache) cts [(0, True, True, [4]), (1, True, True, [4]), (0, False, True, [4])] c
      = Some ([(OK, Some ([4], [7])), (OK, Some ([4], [6])), (OK, Some ([4], [7]))], c')"
proof -
  let ?o = "bytewise_options 0 True 32 1 1 (Some 10)" and ?ess = "[[([1], [9]), ([4], [7])], [([1], [5]), ([4], [6])]] :: entry list list"
    and ?ops = "[(0, True, True, [4]), (1, True, True, [4]), (0, False, True, [4])] :: (nat \<times> bool \<times> bool \<times> slice) list"
  have "database_options BytewiseCompare (=) (Some 10) ?o" unfolding database_options_def by blast
  moreover have "\<forall>es \<in> set ?ess. sorted_wrt (\<lambda>a b. BytewiseCompare a b < 0) (map fst es) \<and> table_cost ?o (bloom_cost (Some 10)) es < 2 ^ 32"
    by (simp add: BytewiseCompare_def slice_compare_def table_cost_def data_cost_def index_cost_def bytewise_options_def bloom_filter_policy_def
        bloom_cost_def bytes_of_def)
  ultimately obtain rs cts c out c' where
    r: "map (build_table ?o) ?ess = map (\<lambda>r. Some (OK, r)) rs"
      "open_tables ?o (Some lru_cache) (map (\<lambda>r. (mem_file (tb_file r), tb_FileSize r)) rs) (NewLRUCache 50) = Some (cts, c)"
      "lookups (Some lru_cache) cts ?ops c = Some (out, c')"
    and all: "list_all2 (\<lambda>(i, verify, fill_cache, k) (s, saved). s = OK \<and> finds BytewiseCompare (=) (?ess ! i) k saved) ?ops out"
    using table_behind_cache [of BytewiseCompare "(=)" "Some 10" ?o ?ess 50 ?ops] by (auto simp del: list.map)
  from all have "out = [(OK, Some ([4], [7])), (OK, Some ([4], [6])), (OK, Some ([4], [7]))]"
    by (auto simp: list_all2_Cons1 finds_def BytewiseCompare_def slice_compare_def)
  with r show ?thesis by blast
qed

end
