(* ===== verification/LdbVersionEdit.thy ===== *)
theory LdbVersionEdit
  imports LdbFormat LdbStatus "HOL-Library.Product_Lexorder"
begin

text \<open>
  Edits of a version (\<open>db/version_edit.cc\<close>): what a record of the manifest holds. A set of deleted files is the sorted
  list of its pairs. An \<open>InternalKey\<close> is its bytes. The debug string is not modelled.
\<close>

section \<open>Data\<close>

definition kNumLevels :: nat where "kNumLevels = 7"

definition InternalKey_Encode :: "slice \<Rightarrow> slice option" where
  "InternalKey_Encode rep = (if rep = [] then None else Some rep)"

record FileMetaData =
  fm_refs :: int
  fm_allowed_seeks :: int
  fm_number :: u64
  fm_file_size :: u64
  fm_smallest :: slice
  fm_largest :: slice

definition make_FileMetaData :: "u64 \<Rightarrow> u64 \<Rightarrow> slice \<Rightarrow> slice \<Rightarrow> FileMetaData" where
  "make_FileMetaData number file_size smallest largest =
     \<lparr>fm_refs = 0, fm_allowed_seeks = 2 ^ 30, fm_number = number, fm_file_size = file_size,
      fm_smallest = smallest, fm_largest = largest\<rparr>"

record VersionEdit =
  ve_comparator :: slice
  ve_log_number :: u64
  ve_prev_log_number :: u64
  ve_next_file_number :: u64
  ve_last_sequence :: u64
  ve_has_comparator :: bool
  ve_has_log_number :: bool
  ve_has_prev_log_number :: bool
  ve_has_next_file_number :: bool
  ve_has_last_sequence :: bool
  ve_compact_pointers :: "(int \<times> slice) list"
  ve_deleted_files :: "(int \<times> u64) list"
  ve_new_files :: "(int \<times> FileMetaData) list"

text \<open>The compaction pointers are not cleared.\<close>

definition ve_Clear :: "VersionEdit \<Rightarrow> VersionEdit" where
  "ve_Clear e = e\<lparr>ve_comparator := [], ve_log_number := 0, ve_prev_log_number := 0, ve_last_sequence := 0,
     ve_next_file_number := 0, ve_has_comparator := False, ve_has_log_number := False, ve_has_prev_log_number := False,
     ve_has_next_file_number := False, ve_has_last_sequence := False, ve_deleted_files := [], ve_new_files := []\<rparr>"

definition make_VersionEdit :: VersionEdit where
  "make_VersionEdit = \<lparr>ve_comparator = [], ve_log_number = 0, ve_prev_log_number = 0, ve_next_file_number = 0,
     ve_last_sequence = 0, ve_has_comparator = False, ve_has_log_number = False, ve_has_prev_log_number = False,
     ve_has_next_file_number = False, ve_has_last_sequence = False, ve_compact_pointers = [], ve_deleted_files = [],
     ve_new_files = []\<rparr>"

definition SetComparatorName :: "slice \<Rightarrow> VersionEdit \<Rightarrow> VersionEdit" where
  "SetComparatorName name e = e\<lparr>ve_has_comparator := True, ve_comparator := name\<rparr>"

definition SetLogNumber :: "u64 \<Rightarrow> VersionEdit \<Rightarrow> VersionEdit" where
  "SetLogNumber num e = e\<lparr>ve_has_log_number := True, ve_log_number := num\<rparr>"

definition SetPrevLogNumber :: "u64 \<Rightarrow> VersionEdit \<Rightarrow> VersionEdit" where
  "SetPrevLogNumber num e = e\<lparr>ve_has_prev_log_number := True, ve_prev_log_number := num\<rparr>"

definition SetNextFile :: "u64 \<Rightarrow> VersionEdit \<Rightarrow> VersionEdit" where
  "SetNextFile num e = e\<lparr>ve_has_next_file_number := True, ve_next_file_number := num\<rparr>"

definition SetLastSequence :: "u64 \<Rightarrow> VersionEdit \<Rightarrow> VersionEdit" where
  "SetLastSequence num e = e\<lparr>ve_has_last_sequence := True, ve_last_sequence := num\<rparr>"

definition SetCompactPointer :: "int \<Rightarrow> slice \<Rightarrow> VersionEdit \<Rightarrow> VersionEdit" where
  "SetCompactPointer level key e = e\<lparr>ve_compact_pointers := ve_compact_pointers e @ [(level, key)]\<rparr>"

definition AddFile :: "int \<Rightarrow> u64 \<Rightarrow> u64 \<Rightarrow> slice \<Rightarrow> slice \<Rightarrow> VersionEdit \<Rightarrow> VersionEdit" where
  "AddFile level number file_size smallest largest e =
     e\<lparr>ve_new_files := ve_new_files e @ [(level, make_FileMetaData number file_size smallest largest)]\<rparr>"

definition DeleteFile :: "int \<Rightarrow> u64 \<Rightarrow> VersionEdit \<Rightarrow> VersionEdit" where
  "DeleteFile level number e = e\<lparr>ve_deleted_files := insort_insert (level, number) (ve_deleted_files e)\<rparr>"

section \<open>Encoding\<close>

definition kComparator :: u32 where "kComparator = 1"
definition kLogNumber :: u32 where "kLogNumber = 2"
definition kNextFileNumber :: u32 where "kNextFileNumber = 3"
definition kLastSequence :: u32 where "kLastSequence = 4"
definition kCompactPointer :: u32 where "kCompactPointer = 5"
definition kDeletedFile :: u32 where "kDeletedFile = 6"
definition kNewFile :: u32 where "kNewFile = 7"
definition kPrevLogNumber :: u32 where "kPrevLogNumber = 9"

definition put_number :: "bool \<Rightarrow> u32 \<Rightarrow> u64 \<Rightarrow> byte list \<Rightarrow> byte list" where
  "put_number has tag number dst = (if has then PutVarint64 (PutVarint32 dst tag) number else dst)"

fun put_compact_pointers :: "(int \<times> slice) list \<Rightarrow> byte list \<Rightarrow> byte list option" where
  "put_compact_pointers [] dst = Some dst"
| "put_compact_pointers ((level, key) # ps) dst = do {
     key \<leftarrow> InternalKey_Encode key;
     put_compact_pointers ps (PutLengthPrefixedSlice (PutVarint32 (PutVarint32 dst kCompactPointer) (word_of_int level)) key)
   }"

fun put_deleted_files :: "(int \<times> u64) list \<Rightarrow> byte list \<Rightarrow> byte list" where
  "put_deleted_files [] dst = dst"
| "put_deleted_files ((level, number) # ds) dst =
     put_deleted_files ds (PutVarint64 (PutVarint32 (PutVarint32 dst kDeletedFile) (word_of_int level)) number)"

fun put_new_files :: "(int \<times> FileMetaData) list \<Rightarrow> byte list \<Rightarrow> byte list option" where
  "put_new_files [] dst = Some dst"
| "put_new_files ((level, f) # fs) dst = do {
     let dst = PutVarint32 (PutVarint32 dst kNewFile) (word_of_int level);
     let dst = PutVarint64 (PutVarint64 dst (fm_number f)) (fm_file_size f);
     smallest \<leftarrow> InternalKey_Encode (fm_smallest f);
     let dst = PutLengthPrefixedSlice dst smallest;
     largest \<leftarrow> InternalKey_Encode (fm_largest f);
     put_new_files fs (PutLengthPrefixedSlice dst largest)
   }"

definition ve_EncodeTo :: "VersionEdit \<Rightarrow> byte list \<Rightarrow> byte list option" where
  "ve_EncodeTo e dst = do {
     let dst = (if ve_has_comparator e then PutLengthPrefixedSlice (PutVarint32 dst kComparator) (ve_comparator e) else dst);
     let dst = put_number (ve_has_log_number e) kLogNumber (ve_log_number e) dst;
     let dst = put_number (ve_has_prev_log_number e) kPrevLogNumber (ve_prev_log_number e) dst;
     let dst = put_number (ve_has_next_file_number e) kNextFileNumber (ve_next_file_number e) dst;
     let dst = put_number (ve_has_last_sequence e) kLastSequence (ve_last_sequence e) dst;
     dst \<leftarrow> put_compact_pointers (ve_compact_pointers e) dst;
     put_new_files (ve_new_files e) (put_deleted_files (ve_deleted_files e) dst)
   }"

section \<open>Decoding\<close>

text \<open>One reader after the other; the second is not called when the first fails.\<close>

definition and_then :: "(slice \<Rightarrow> 'a option \<times> slice) \<Rightarrow> ('a \<Rightarrow> slice \<Rightarrow> 'b option \<times> slice) \<Rightarrow> slice \<Rightarrow> 'b option \<times> slice" where
  "and_then get k input = (case get input of (None, input) \<Rightarrow> (None, input) | (Some v, input) \<Rightarrow> k v input)"

definition GetInternalKey :: "slice \<Rightarrow> slice option \<times> slice" where
  "GetInternalKey input = GetLengthPrefixedSlice input"

definition GetLevel :: "slice \<Rightarrow> int option \<times> slice" where
  "GetLevel = and_then GetVarint32 (\<lambda>v input. (if v < word_of_nat kNumLevels then Some (uint v) else None, input))"

definition GetCompactPointer :: "slice \<Rightarrow> (int \<times> slice) option \<times> slice" where
  "GetCompactPointer = and_then GetLevel (\<lambda>level. and_then GetInternalKey (\<lambda>key input. (Some (level, key), input)))"

definition GetDeletedFile :: "slice \<Rightarrow> (int \<times> u64) option \<times> slice" where
  "GetDeletedFile = and_then GetLevel (\<lambda>level. and_then GetVarint64 (\<lambda>number input. (Some (level, number), input)))"

definition GetNewFile :: "slice \<Rightarrow> (int \<times> FileMetaData) option \<times> slice" where
  "GetNewFile =
     and_then GetLevel (\<lambda>level. and_then GetVarint64 (\<lambda>number. and_then GetVarint64 (\<lambda>file_size.
       and_then GetInternalKey (\<lambda>smallest. and_then GetInternalKey (\<lambda>largest input.
         (Some (level, make_FileMetaData number file_size smallest largest), input))))))"

text \<open>The message when the reader fails, or else the edit with what was read.\<close>

definition read_field ::
    "(slice \<Rightarrow> 'a option \<times> slice) \<Rightarrow> string \<Rightarrow> ('a \<Rightarrow> VersionEdit) \<Rightarrow> slice \<Rightarrow> string + VersionEdit \<times> slice" where
  "read_field get msg set_field input =
     (case get input of (None, _) \<Rightarrow> Inl msg | (Some v, input) \<Rightarrow> Inr (set_field v, input))"

definition decode_tagged :: "u32 \<Rightarrow> VersionEdit \<Rightarrow> slice \<Rightarrow> string + VersionEdit \<times> slice" where
  "decode_tagged tag e =
     (if tag = kComparator then read_field GetLengthPrefixedSlice ''comparator name'' (\<lambda>str. SetComparatorName str e)
      else if tag = kLogNumber then read_field GetVarint64 ''log number'' (\<lambda>n. SetLogNumber n e)
      else if tag = kPrevLogNumber then read_field GetVarint64 ''previous log number'' (\<lambda>n. SetPrevLogNumber n e)
      else if tag = kNextFileNumber then read_field GetVarint64 ''next file number'' (\<lambda>n. SetNextFile n e)
      else if tag = kLastSequence then read_field GetVarint64 ''last sequence number'' (\<lambda>n. SetLastSequence n e)
      else if tag = kCompactPointer then read_field GetCompactPointer ''compaction pointer'' (\<lambda>(level, key). SetCompactPointer level key e)
      else if tag = kDeletedFile then read_field GetDeletedFile ''deleted file'' (\<lambda>(level, number). DeleteFile level number e)
      else if tag = kNewFile then read_field GetNewFile ''new-file entry'' (\<lambda>f. e\<lparr>ve_new_files := ve_new_files e @ [f]\<rparr>)
      else (\<lambda>input. Inl ''unknown tag''))"

definition edit_turn :: "VersionEdit \<times> slice \<Rightarrow> (VersionEdit \<times> slice, string option \<times> VersionEdit) turn option" where
  "edit_turn = (\<lambda>(e, input).
     case GetVarint32 input of
       (None, input) \<Rightarrow> Some (Leave (if input = [] then None else Some ''invalid tag'', e))
     | (Some tag, input) \<Rightarrow>
         (case decode_tagged tag e input of Inl msg \<Rightarrow> Some (Leave (Some msg, e)) | Inr s \<Rightarrow> Some (Continue s)))"

definition ve_DecodeFrom :: "slice \<Rightarrow> VersionEdit \<Rightarrow> (Status \<times> VersionEdit) option" where
  "ve_DecodeFrom src e = do {
     (msg, e) \<leftarrow> crun edit_turn (ve_Clear e, src);
     Some (case msg of None \<Rightarrow> OK | Some msg \<Rightarrow> Corruption (bytes_of ''VersionEdit'') (bytes_of msg), e)
   }"

section \<open>Decoding ends\<close>

text \<open>A reader takes no more than there is, and a tag takes a byte.\<close>

definition shortens :: "(slice \<Rightarrow> 'a option \<times> slice) \<Rightarrow> bool" where
  "shortens get \<longleftrightarrow> (\<forall>input v rest. get input = (Some v, rest) \<longrightarrow> length rest \<le> length input)"

lemma parse_varint_shortens: "parse_varint n p = Some (v, rest) \<Longrightarrow> length rest < length p"
  by (induction n p arbitrary: v rest rule: parse_varint.induct) (auto split: if_splits option.splits)

lemma GetVarint32_shorter: "GetVarint32 input = (Some v, rest) \<Longrightarrow> length rest < length input"
  by (auto simp: GetVarint32_def GetVarint32Ptr_parse dest: parse_varint_shortens split: option.splits)

lemma shortens_basic [simp]: "shortens GetVarint32" "shortens GetVarint64" "shortens GetLengthPrefixedSlice"
proof -
  show "shortens GetVarint32" by (auto simp: shortens_def dest: GetVarint32_shorter)
  show "shortens GetVarint64"
    by (auto simp: shortens_def GetVarint64_def GetVarint64Ptr_parse dest: parse_varint_shortens split: option.splits)
  show "shortens GetLengthPrefixedSlice"
    by (auto simp: shortens_def GetLengthPrefixedSlice_def dest: GetVarint32_shorter split: prod.splits option.splits if_splits)
qed

lemma shortens_pure [simp]: "shortens (\<lambda>input. (v, input))"
  by (simp add: shortens_def)

lemma shortens_and_then [intro]: "shortens get \<Longrightarrow> (\<And>v. shortens (k v)) \<Longrightarrow> shortens (and_then get k)"
  unfolding shortens_def and_then_def by (auto split: prod.splits option.splits) (meson order_trans)

lemma shortens_fields [simp]:
  "shortens GetLevel" "shortens GetInternalKey" "shortens GetCompactPointer" "shortens GetDeletedFile" "shortens GetNewFile"
proof -
  show l: "shortens GetLevel" unfolding GetLevel_def by (intro shortens_and_then) simp_all
  have "GetInternalKey = GetLengthPrefixedSlice" by (simp add: GetInternalKey_def fun_eq_iff)
  then show k: "shortens GetInternalKey" by simp
  show "shortens GetCompactPointer" "shortens GetDeletedFile" "shortens GetNewFile"
    unfolding GetCompactPointer_def GetDeletedFile_def GetNewFile_def using l k by (intro shortens_and_then; simp)+
qed

lemma read_field_shortens: "shortens get \<Longrightarrow> read_field get msg f input = Inr (e, rest) \<Longrightarrow> length rest \<le> length input"
  by (auto simp: read_field_def shortens_def split: prod.splits option.splits)

lemma decode_tagged_shortens: "decode_tagged tag e input = Inr (e', rest) \<Longrightarrow> length rest \<le> length input"
  unfolding decode_tagged_def
  by (auto split: if_splits elim!: read_field_shortens [rotated])

text \<open>What a decoded edit is, whatever the input was.\<close>

definition level_ok :: "int \<Rightarrow> bool" where
  "level_ok level \<longleftrightarrow> 0 \<le> level \<and> level < int kNumLevels"

definition edit_ok :: "VersionEdit \<Rightarrow> bool" where
  "edit_ok e \<longleftrightarrow>
     (\<forall>(level, key) \<in> set (ve_compact_pointers e). level_ok level) \<and>
     (\<forall>(level, number) \<in> set (ve_deleted_files e). level_ok level) \<and> sorted (ve_deleted_files e) \<and> distinct (ve_deleted_files e) \<and>
     (\<forall>(level, f) \<in> set (ve_new_files e). level_ok level \<and> fm_refs f = 0 \<and> fm_allowed_seeks f = 2 ^ 30) \<and>
     (\<not> ve_has_comparator e \<longrightarrow> ve_comparator e = []) \<and> (\<not> ve_has_log_number e \<longrightarrow> ve_log_number e = 0) \<and>
     (\<not> ve_has_prev_log_number e \<longrightarrow> ve_prev_log_number e = 0) \<and> (\<not> ve_has_next_file_number e \<longrightarrow> ve_next_file_number e = 0) \<and>
     (\<not> ve_has_last_sequence e \<longrightarrow> ve_last_sequence e = 0)"

lemma GetLevel_ok: "GetLevel input = (Some level, rest) \<Longrightarrow> level_ok level"
proof -
  have "v < 7 \<Longrightarrow> uint v < 7" for v :: u32 by (simp add: word_less_def)
  then show "GetLevel input = (Some level, rest) \<Longrightarrow> level_ok level"
    by (auto simp: GetLevel_def and_then_def level_ok_def kNumLevels_def split: prod.splits option.splits if_splits)
qed

lemma GetCompactPointer_ok: "GetCompactPointer input = (Some (level, key), rest) \<Longrightarrow> level_ok level"
  by (auto simp: GetCompactPointer_def and_then_def dest: GetLevel_ok split: prod.splits option.splits)

lemma GetDeletedFile_ok: "GetDeletedFile input = (Some (level, number), rest) \<Longrightarrow> level_ok level"
  by (auto simp: GetDeletedFile_def and_then_def dest: GetLevel_ok split: prod.splits option.splits)

lemma GetNewFile_ok:
  "GetNewFile input = (Some (level, f), rest) \<Longrightarrow> level_ok level \<and> fm_refs f = 0 \<and> fm_allowed_seeks f = 2 ^ 30"
  by (auto simp: GetNewFile_def and_then_def make_FileMetaData_def dest: GetLevel_ok split: prod.splits option.splits)

lemma edit_ok_set [intro]:
  assumes "edit_ok e"
  shows "edit_ok (SetComparatorName name e)" "edit_ok (SetLogNumber n e)" "edit_ok (SetPrevLogNumber n e)"
    "edit_ok (SetNextFile n e)" "edit_ok (SetLastSequence n e)" "level_ok level \<Longrightarrow> edit_ok (SetCompactPointer level key e)"
    "level_ok level \<Longrightarrow> edit_ok (DeleteFile level n e)"
    "level_ok level \<Longrightarrow> fm_refs f = 0 \<Longrightarrow> fm_allowed_seeks f = 2 ^ 30 \<Longrightarrow> edit_ok (e\<lparr>ve_new_files := ve_new_files e @ [(level, f)]\<rparr>)"
  using assms
  by (simp_all add: edit_ok_def SetComparatorName_def SetLogNumber_def SetPrevLogNumber_def SetNextFile_def SetLastSequence_def
      SetCompactPointer_def DeleteFile_def sorted_insort_insert distinct_insort_insert set_insort_insert)

lemma read_field_Inr: "read_field get msg f input = Inr (e, rest) \<longleftrightarrow> (\<exists>v. get input = (Some v, rest) \<and> e = f v)"
  by (auto simp: read_field_def split: prod.splits option.splits)

lemma decode_tagged_ok: "edit_ok e \<Longrightarrow> decode_tagged tag e input = Inr (e', rest) \<Longrightarrow> edit_ok e'"
  unfolding decode_tagged_def
  by (auto simp: read_field_Inr dest: GetCompactPointer_ok GetDeletedFile_ok GetNewFile_ok split: if_splits)

lemma DecodeFrom_total:
  assumes "edit_ok e"
  shows "\<exists>s e'. ve_DecodeFrom src e = Some (s, e') \<and> edit_ok e'"
proof -
  have "edit_ok (ve_Clear e)" using assms by (simp add: edit_ok_def ve_Clear_def)
  then have "\<exists>r. crun edit_turn (ve_Clear e, src) = Some r \<and> edit_ok (snd r)"
  proof (intro crun_rule [where I = "\<lambda>s. edit_ok (fst s)" and f = "\<lambda>s. length (snd s)"], goal_cases)
    case (2 s)
    obtain e input where s: "s = (e, input)" by (cases s)
    show ?case
    proof (cases "GetVarint32 input")
      case (Pair r rest)
      show ?thesis
      proof (cases r)
        case None
        then show ?thesis using Pair 2 by (simp add: s edit_turn_def)
      next
        case (Some tag)
        have len: "length rest < length input" using Pair Some GetVarint32_shorter by blast
        show ?thesis
        proof (cases "decode_tagged tag e rest")
          case (Inl msg)
          then show ?thesis using Pair Some 2 by (simp add: s edit_turn_def)
        next
          case (Inr x)
          then obtain e' rest' where x: "decode_tagged tag e rest = Inr (e', rest')" "x = (e', rest')" by (cases x) auto
          then show ?thesis using Pair Some 2 decode_tagged_ok [OF _ x(1)] decode_tagged_shortens [OF x(1)] len
            by (simp add: s edit_turn_def)
        qed
      qed
    qed
  qed simp
  then show ?thesis by (auto simp: ve_DecodeFrom_def)
qed

section \<open>The bytes of an edit\<close>

definition key_ok :: "slice \<Rightarrow> bool" where
  "key_ok key \<longleftrightarrow> key \<noteq> [] \<and> length key < 2 ^ 32"

definition encodable :: "VersionEdit \<Rightarrow> bool" where
  "encodable e \<longleftrightarrow>
     length (ve_comparator e) < 2 ^ 32 \<and> (\<forall>(level, key) \<in> set (ve_compact_pointers e). key_ok key) \<and>
     (\<forall>(level, f) \<in> set (ve_new_files e). key_ok (fm_smallest f) \<and> key_ok (fm_largest f))"

definition number_bytes :: "bool \<Rightarrow> u32 \<Rightarrow> u64 \<Rightarrow> byte list" where
  "number_bytes has tag n = (if has then EncodeVarint32 tag @ EncodeVarint64 n else [])"

definition level_bytes :: "u32 \<Rightarrow> int \<Rightarrow> byte list" where
  "level_bytes tag level = EncodeVarint32 tag @ EncodeVarint32 (word_of_int level)"

definition pointer_bytes :: "int \<times> slice \<Rightarrow> byte list" where
  "pointer_bytes p = level_bytes kCompactPointer (fst p) @ PutLengthPrefixedSlice [] (snd p)"

definition deleted_bytes :: "int \<times> u64 \<Rightarrow> byte list" where
  "deleted_bytes d = level_bytes kDeletedFile (fst d) @ EncodeVarint64 (snd d)"

definition new_file_bytes :: "int \<times> FileMetaData \<Rightarrow> byte list" where
  "new_file_bytes x = (let f = snd x in level_bytes kNewFile (fst x) @ EncodeVarint64 (fm_number f) @ EncodeVarint64 (fm_file_size f) @
     PutLengthPrefixedSlice [] (fm_smallest f) @ PutLengthPrefixedSlice [] (fm_largest f))"

definition edit_bytes :: "VersionEdit \<Rightarrow> byte list" where
  "edit_bytes e =
     (if ve_has_comparator e then EncodeVarint32 kComparator @ PutLengthPrefixedSlice [] (ve_comparator e) else []) @
     number_bytes (ve_has_log_number e) kLogNumber (ve_log_number e) @
     number_bytes (ve_has_prev_log_number e) kPrevLogNumber (ve_prev_log_number e) @
     number_bytes (ve_has_next_file_number e) kNextFileNumber (ve_next_file_number e) @
     number_bytes (ve_has_last_sequence e) kLastSequence (ve_last_sequence e) @
     concat (map pointer_bytes (ve_compact_pointers e)) @ concat (map deleted_bytes (ve_deleted_files e)) @
     concat (map new_file_bytes (ve_new_files e))"

lemma put_slice: "PutLengthPrefixedSlice dst x = dst @ PutLengthPrefixedSlice [] x"
  by (simp add: PutLengthPrefixedSlice_def PutVarint32_def)

lemmas put_simps = PutVarint32_def PutVarint64_def put_slice [of "_ @ _"] level_bytes_def

lemma put_number_bytes: "put_number has tag n dst = dst @ number_bytes has tag n"
  by (simp add: put_number_def number_bytes_def put_simps)

lemma put_compact_pointers_bytes:
  "\<forall>(level, key) \<in> set ps. key_ok key \<Longrightarrow> put_compact_pointers ps dst = Some (dst @ concat (map pointer_bytes ps))"
  by (induction ps dst rule: put_compact_pointers.induct) (auto simp: InternalKey_Encode_def key_ok_def pointer_bytes_def put_simps)

lemma put_deleted_files_bytes: "put_deleted_files ds dst = dst @ concat (map deleted_bytes ds)"
  by (induction ds dst rule: put_deleted_files.induct) (simp_all add: deleted_bytes_def put_simps)

lemma put_new_files_bytes:
  "\<forall>(level, f) \<in> set fs. key_ok (fm_smallest f) \<and> key_ok (fm_largest f) \<Longrightarrow>
    put_new_files fs dst = Some (dst @ concat (map new_file_bytes fs))"
  by (induction fs dst rule: put_new_files.induct) (auto simp: InternalKey_Encode_def key_ok_def new_file_bytes_def put_simps Let_def)

lemma EncodeTo_bytes: "encodable e \<Longrightarrow> ve_EncodeTo e dst = Some (dst @ edit_bytes e)"
proof -
  assume e: "encodable e"
  have "(if ve_has_comparator e then PutLengthPrefixedSlice (PutVarint32 dst kComparator) (ve_comparator e) else dst)
      = dst @ (if ve_has_comparator e then EncodeVarint32 kComparator @ PutLengthPrefixedSlice [] (ve_comparator e) else [])"
    by (simp add: put_simps)
  then show ?thesis using e
    unfolding ve_EncodeTo_def Let_def
    by (simp add: put_number_bytes put_deleted_files_bytes put_compact_pointers_bytes put_new_files_bytes encodable_def edit_bytes_def
        del: PutVarint32_def)
qed

section \<open>They are read back\<close>

lemma edit_step:
  "decode_tagged tag e input = Inr (e', rest) \<Longrightarrow> crun edit_turn (e, EncodeVarint32 tag @ input) = crun edit_turn (e', rest)"
  by (subst crun.simps) (simp add: edit_turn_def GetVarint32_Encode)

lemmas tags = kComparator_def kLogNumber_def kPrevLogNumber_def kNextFileNumber_def kLastSequence_def kCompactPointer_def
  kDeletedFile_def kNewFile_def

lemma read_number:
  "crun edit_turn (e, number_bytes has kLogNumber n @ rest) = crun edit_turn (if has then SetLogNumber n e else e, rest)"
  "crun edit_turn (e, number_bytes has kPrevLogNumber n @ rest) = crun edit_turn (if has then SetPrevLogNumber n e else e, rest)"
  "crun edit_turn (e, number_bytes has kNextFileNumber n @ rest) = crun edit_turn (if has then SetNextFile n e else e, rest)"
  "crun edit_turn (e, number_bytes has kLastSequence n @ rest) = crun edit_turn (if has then SetLastSequence n e else e, rest)"
  by (cases has; simp add: number_bytes_def; rule edit_step; simp add: decode_tagged_def read_field_def GetVarint64_Encode tags)+

lemma GetLevel_bytes: "level_ok level \<Longrightarrow> GetLevel (EncodeVarint32 (word_of_int level) @ rest) = (Some level, rest)"
proof -
  assume l: "level_ok level"
  then have u: "uint (word_of_int level :: u32) = level" by (simp add: level_ok_def kNumLevels_def uint_word_of_int_eq take_bit_int_eq_self)
  then have "(word_of_int level :: u32) < 7" using l by (simp add: level_ok_def kNumLevels_def word_less_def)
  then show ?thesis using u by (simp add: GetLevel_def and_then_def GetVarint32_Encode kNumLevels_def)
qed

lemma read_pointers:
  "\<forall>(level, key) \<in> set ps. level_ok level \<and> key_ok key \<Longrightarrow>
    crun edit_turn (e, concat (map pointer_bytes ps) @ rest) = crun edit_turn (e\<lparr>ve_compact_pointers := ve_compact_pointers e @ ps\<rparr>, rest)"
proof (induction ps arbitrary: e)
  case (Cons p ps)
  obtain level key where p: "p = (level, key)" "level_ok level" "key_ok key" using Cons.prems by (cases p) auto
  let ?rest = "concat (map pointer_bytes ps) @ rest"
  have "GetCompactPointer (EncodeVarint32 (word_of_int level) @ PutLengthPrefixedSlice [] key @ ?rest) = (Some (level, key), ?rest)"
    using p by (simp add: GetCompactPointer_def and_then_def GetLevel_bytes GetInternalKey_def GetLengthPrefixedSlice_Put key_ok_def)
  then have "decode_tagged kCompactPointer e (EncodeVarint32 (word_of_int level) @ PutLengthPrefixedSlice [] key @ ?rest)
      = Inr (SetCompactPointer level key e, ?rest)" by (simp add: decode_tagged_def tags read_field_def)
  from edit_step [OF this] have "crun edit_turn (e, concat (map pointer_bytes (p # ps)) @ rest) = crun edit_turn (SetCompactPointer level key e, ?rest)"
    by (simp add: pointer_bytes_def level_bytes_def p(1))
  then show ?case using Cons.IH Cons.prems by (simp add: SetCompactPointer_def p(1))
qed simp

lemma read_deleted:
  "\<forall>(level, number) \<in> set ds. level_ok level \<Longrightarrow>
    crun edit_turn (e, concat (map deleted_bytes ds) @ rest) = crun edit_turn (fold (\<lambda>d. DeleteFile (fst d) (snd d)) ds e, rest)"
proof (induction ds arbitrary: e)
  case (Cons d ds)
  obtain level number where d: "d = (level, number)" "level_ok level" using Cons.prems by (cases d) auto
  let ?rest = "concat (map deleted_bytes ds) @ rest"
  have "GetDeletedFile (EncodeVarint32 (word_of_int level) @ EncodeVarint64 number @ ?rest) = (Some (level, number), ?rest)"
    using d by (simp add: GetDeletedFile_def and_then_def GetLevel_bytes GetVarint64_Encode)
  then have "decode_tagged kDeletedFile e (EncodeVarint32 (word_of_int level) @ EncodeVarint64 number @ ?rest)
      = Inr (DeleteFile level number e, ?rest)" by (simp add: decode_tagged_def tags read_field_def)
  from edit_step [OF this] have "crun edit_turn (e, concat (map deleted_bytes (d # ds)) @ rest) = crun edit_turn (DeleteFile level number e, ?rest)"
    by (simp add: deleted_bytes_def level_bytes_def d(1))
  then show ?case using Cons.IH Cons.prems by (simp add: d(1))
qed simp

lemma insort_insert_last: "\<forall>y \<in> set xs. y < x \<Longrightarrow> insort_insert x xs = xs @ [x]" for x :: "int \<times> u64"
proof -
  assume x: "\<forall>y \<in> set xs. y < x"
  then have "insort x xs = xs @ [x]" by (induction xs) auto
  moreover have "x \<notin> set xs" using x by auto
  ultimately show ?thesis by (simp add: insort_insert_key_def)
qed

lemma fold_DeleteFile:
  "sorted (ve_deleted_files e @ ds) \<Longrightarrow> distinct (ve_deleted_files e @ ds) \<Longrightarrow>
    fold (\<lambda>d. DeleteFile (fst d) (snd d)) ds e = e\<lparr>ve_deleted_files := ve_deleted_files e @ ds\<rparr>"
proof (induction ds arbitrary: e)
  case (Cons d ds)
  have "\<forall>y \<in> set (ve_deleted_files e). y < d" using Cons.prems by (auto simp: sorted_append order_less_le)
  then have "DeleteFile (fst d) (snd d) e = e\<lparr>ve_deleted_files := ve_deleted_files e @ [d]\<rparr>"
    by (simp add: DeleteFile_def insort_insert_last)
  then show ?case using Cons.IH [of "e\<lparr>ve_deleted_files := ve_deleted_files e @ [d]\<rparr>"] Cons.prems by simp
qed simp

lemma read_new_files:
  "\<forall>(level, f) \<in> set fs. level_ok level \<and> fm_refs f = 0 \<and> fm_allowed_seeks f = 2 ^ 30 \<and> key_ok (fm_smallest f) \<and> key_ok (fm_largest f) \<Longrightarrow>
    crun edit_turn (e, concat (map new_file_bytes fs) @ rest) = crun edit_turn (e\<lparr>ve_new_files := ve_new_files e @ fs\<rparr>, rest)"
proof (induction fs arbitrary: e)
  case (Cons x fs)
  obtain level f where x: "x = (level, f)" "level_ok level" "key_ok (fm_smallest f)" "key_ok (fm_largest f)"
    and m: "make_FileMetaData (fm_number f) (fm_file_size f) (fm_smallest f) (fm_largest f) = f"
    using Cons.prems by (cases x) (auto simp: make_FileMetaData_def)
  let ?rest = "concat (map new_file_bytes fs) @ rest"
  let ?in = "EncodeVarint32 (word_of_int level) @ EncodeVarint64 (fm_number f) @ EncodeVarint64 (fm_file_size f) @
     PutLengthPrefixedSlice [] (fm_smallest f) @ PutLengthPrefixedSlice [] (fm_largest f) @ ?rest"
  have "GetNewFile ?in = (Some (level, f), ?rest)"
    using x m by (simp add: GetNewFile_def and_then_def GetLevel_bytes GetVarint64_Encode GetInternalKey_def GetLengthPrefixedSlice_Put key_ok_def)
  then have "decode_tagged kNewFile e ?in = Inr (e\<lparr>ve_new_files := ve_new_files e @ [(level, f)]\<rparr>, ?rest)"
    by (simp add: decode_tagged_def tags read_field_def)
  from edit_step [OF this] have
    "crun edit_turn (e, concat (map new_file_bytes (x # fs)) @ rest) = crun edit_turn (e\<lparr>ve_new_files := ve_new_files e @ [(level, f)]\<rparr>, ?rest)"
    by (simp add: new_file_bytes_def level_bytes_def x(1) Let_def)
  then show ?case using Cons.IH Cons.prems by (simp add: x(1))
qed simp

lemma read_comparator:
  assumes "length name < 2 ^ 32"
  shows "crun edit_turn (e, (if has then EncodeVarint32 kComparator @ PutLengthPrefixedSlice [] name else []) @ rest)
    = crun edit_turn (if has then SetComparatorName name e else e, rest)"
proof (cases has)
  case True
  have "decode_tagged kComparator e (PutLengthPrefixedSlice [] name @ rest) = Inr (SetComparatorName name e, rest)"
    using assms by (simp add: decode_tagged_def read_field_def GetLengthPrefixedSlice_Put)
  from edit_step [OF this] True show ?thesis by simp
qed simp

lemma read_end: "crun edit_turn (e, []) = Some (None, e)"
proof -
  have "parse_varint 5 [] = None" by (simp add: numeral_eq_Suc)
  then have "edit_turn (e, []) = Some (Leave (None, e))" by (simp add: edit_turn_def GetVarint32_def GetVarint32Ptr_parse)
  then show ?thesis by (subst crun.simps) simp
qed

lemma DecodeFrom_bytes:
  assumes ok: "edit_ok e" and enc: "encodable e"
  shows "ve_DecodeFrom (edit_bytes e) old = Some (OK, e\<lparr>ve_compact_pointers := ve_compact_pointers old @ ve_compact_pointers e\<rparr>)"
proof -
  let ?e0 = "ve_Clear old"
  let ?e1 = "if ve_has_comparator e then SetComparatorName (ve_comparator e) ?e0 else ?e0"
  let ?e2 = "if ve_has_log_number e then SetLogNumber (ve_log_number e) ?e1 else ?e1"
  let ?e3 = "if ve_has_prev_log_number e then SetPrevLogNumber (ve_prev_log_number e) ?e2 else ?e2"
  let ?e4 = "if ve_has_next_file_number e then SetNextFile (ve_next_file_number e) ?e3 else ?e3"
  let ?e5 = "if ve_has_last_sequence e then SetLastSequence (ve_last_sequence e) ?e4 else ?e4"
  let ?e6 = "?e5\<lparr>ve_compact_pointers := ve_compact_pointers ?e5 @ ve_compact_pointers e\<rparr>"
  let ?e7 = "fold (\<lambda>d. DeleteFile (fst d) (snd d)) (ve_deleted_files e) ?e6"
  note setters = SetComparatorName_def SetLogNumber_def SetPrevLogNumber_def SetNextFile_def SetLastSequence_def ve_Clear_def
  have "ve_deleted_files ?e6 = []" by (simp add: setters)
  then have e7: "?e7 = ?e6\<lparr>ve_deleted_files := ve_deleted_files e\<rparr>"
    using fold_DeleteFile [of ?e6 "ve_deleted_files e"] ok by (simp add: edit_ok_def)
  have c: "length (ve_comparator e) < 2 ^ 32" using enc by (simp add: encodable_def)
  have p: "\<forall>(level, key) \<in> set (ve_compact_pointers e). level_ok level \<and> key_ok key" and d: "\<forall>(level, number) \<in> set (ve_deleted_files e). level_ok level"
    and f: "\<forall>(level, f) \<in> set (ve_new_files e). level_ok level \<and> fm_refs f = 0 \<and> fm_allowed_seeks f = 2 ^ 30 \<and> key_ok (fm_smallest f) \<and> key_ok (fm_largest f)"
    using ok enc by (auto simp: edit_ok_def encodable_def)
  have "crun edit_turn (?e0, edit_bytes e) = crun edit_turn (?e7, concat (map new_file_bytes (ve_new_files e)) @ [])"
    unfolding edit_bytes_def read_comparator [OF c] read_number read_pointers [OF p] read_deleted [OF d] by simp
  also have "\<dots> = crun edit_turn (?e7\<lparr>ve_new_files := ve_new_files ?e7 @ ve_new_files e\<rparr>, [])" by (rule read_new_files [OF f])
  also have "\<dots> = Some (None, ?e7\<lparr>ve_new_files := ve_new_files ?e7 @ ve_new_files e\<rparr>)"
    by (rule read_end)
  also have "?e7\<lparr>ve_new_files := ve_new_files ?e7 @ ve_new_files e\<rparr> = e\<lparr>ve_compact_pointers := ve_compact_pointers old @ ve_compact_pointers e\<rparr>"
    unfolding e7 using ok by (auto simp: setters edit_ok_def intro!: VersionEdit.equality)
  finally show ?thesis by (simp add: ve_DecodeFrom_def)
qed

section \<open>Properties\<close>

text \<open>
  C35. An edit is read back from its record, field by field, with its sets and lists. What the decoder does not reset are the
  compaction pointers of the edit it decodes into: they stay in front of those that it reads.
\<close>

theorem version_edit_roundtrip:
  assumes "edit_ok e" and "encodable e"
  shows "\<exists>record. ve_EncodeTo e dst = Some (dst @ record) \<and>
    ve_DecodeFrom record old = Some (OK, e\<lparr>ve_compact_pointers := ve_compact_pointers old @ ve_compact_pointers e\<rparr>)"
  using EncodeTo_bytes [OF assms(2), of dst] DecodeFrom_bytes [OF assms, of old] by blast

theorem version_edit_roundtrip_witness:
  "\<exists>record. ve_EncodeTo (DeleteFile 1 7 (AddFile 2 9 100 [1] [2, 3] (SetLogNumber 5 make_VersionEdit))) [] = Some record \<and>
    ve_DecodeFrom record make_VersionEdit = Some (OK, DeleteFile 1 7 (AddFile 2 9 100 [1] [2, 3] (SetLogNumber 5 make_VersionEdit)))"
proof -
  let ?e = "DeleteFile 1 7 (AddFile 2 9 100 [1] [2, 3] (SetLogNumber 5 make_VersionEdit))"
  have "edit_ok ?e"
    by (simp add: edit_ok_def DeleteFile_def AddFile_def SetLogNumber_def make_VersionEdit_def make_FileMetaData_def level_ok_def kNumLevels_def
        insort_insert_key_def)
  moreover have "encodable ?e"
    by (simp add: encodable_def DeleteFile_def AddFile_def SetLogNumber_def make_VersionEdit_def make_FileMetaData_def key_ok_def)
  ultimately show ?thesis using version_edit_roundtrip [of ?e "[]" make_VersionEdit] by (simp add: make_VersionEdit_def)
qed

text \<open>
  C36. Decoding ends with an edit that is well formed, on every input and also when it reports corruption: its levels are below
  \<open>kNumLevels\<close>, so that they can index the levels of a version, its set of deleted files has no duplicates, and a field
  whose flag is not set has its default.
\<close>

theorem decoded_edit_well_formed:
  assumes "edit_ok old"
  shows "\<exists>s e. ve_DecodeFrom src old = Some (s, e) \<and> edit_ok e"
  using DecodeFrom_total [OF assms] .

theorem decoded_edit_well_formed_witness:
  "\<exists>s e. ve_DecodeFrom [7, 7, 1, 2, 3] make_VersionEdit = Some (s, e) \<and> edit_ok e"
  using decoded_edit_well_formed [of make_VersionEdit] by (simp add: edit_ok_def make_VersionEdit_def)

end
