(* ===== verification/LdbVersion.thy ===== *)
theory LdbVersion
  imports LdbVersionEdit LdbIterator
begin

text \<open>
  The files of a version (\<open>db/version_set.cc\<close>): which file of a level has a key, which files overlap a range of user
  keys, the iterator over the files of a level, and the level that a new table goes to. Internal keys have at least
  eight bytes, as the code asserts. \<open>ucmp\<close> is the comparator of the user, and the comparator of the version set is the one of
  internal keys over it. A null pointer to a key is \<open>None\<close>.
\<close>

section \<open>Searching in a level\<close>

function find_file_loop :: "(slice \<Rightarrow> slice \<Rightarrow> int) \<Rightarrow> FileMetaData list \<Rightarrow> slice \<Rightarrow> nat \<Rightarrow> nat \<Rightarrow> nat" where
  "find_file_loop icmp files key left right =
     (if left < right then
        let mid = (left + right) div 2 in
        if icmp (fm_largest (files ! mid)) key < 0 then find_file_loop icmp files key (mid + 1) right
        else find_file_loop icmp files key left mid
      else right)"
  by auto
termination by (relation "measure (\<lambda>(icmp, files, key, left, right). right - left)") auto

declare find_file_loop.simps [simp del]

definition FindFile :: "(slice \<Rightarrow> slice \<Rightarrow> int) \<Rightarrow> FileMetaData list \<Rightarrow> slice \<Rightarrow> nat" where
  "FindFile icmp files key = find_file_loop icmp files key 0 (length files)"

definition AfterFile :: "(slice \<Rightarrow> slice \<Rightarrow> int) \<Rightarrow> slice option \<Rightarrow> FileMetaData \<Rightarrow> bool" where
  "AfterFile ucmp ukey f \<longleftrightarrow> (case ukey of None \<Rightarrow> False | Some k \<Rightarrow> 0 < ucmp k (ExtractUserKey (fm_largest f)))"

definition BeforeFile :: "(slice \<Rightarrow> slice \<Rightarrow> int) \<Rightarrow> slice option \<Rightarrow> FileMetaData \<Rightarrow> bool" where
  "BeforeFile ucmp ukey f \<longleftrightarrow> (case ukey of None \<Rightarrow> False | Some k \<Rightarrow> ucmp k (ExtractUserKey (fm_smallest f)) < 0)"

definition SomeFileOverlapsRange ::
    "(slice \<Rightarrow> slice \<Rightarrow> int) \<Rightarrow> bool \<Rightarrow> FileMetaData list \<Rightarrow> slice option \<Rightarrow> slice option \<Rightarrow> bool" where
  "SomeFileOverlapsRange ucmp disjoint_sorted_files files smallest_user_key largest_user_key \<longleftrightarrow>
     (if \<not> disjoint_sorted_files
      then list_ex (\<lambda>f. \<not> (AfterFile ucmp smallest_user_key f \<or> BeforeFile ucmp largest_user_key f)) files
      else
        let index = (case smallest_user_key of None \<Rightarrow> 0
                     | Some k \<Rightarrow> FindFile (InternalKeyCompare ucmp) files (internal_key k kMaxSequenceNumber kValueTypeForSeek))
        in if length files \<le> index then False else \<not> BeforeFile ucmp largest_user_key (files ! index))"

section \<open>The iterator over the files of a level\<close>

record level_iter =
  flist :: "FileMetaData list"
  flist_index :: nat

definition LevelFileNumIterator :: "FileMetaData list \<Rightarrow> level_iter" where
  "LevelFileNumIterator files = \<lparr>flist = files, flist_index = length files\<rparr>"

definition level_valid :: "level_iter \<Rightarrow> bool" where
  "level_valid it \<longleftrightarrow> flist_index it < length (flist it)"

definition file_value :: "FileMetaData \<Rightarrow> slice" where
  "file_value f = EncodeFixed64 (fm_number f) @ EncodeFixed64 (fm_file_size f)"

definition level_ops :: "(slice \<Rightarrow> slice \<Rightarrow> int) \<Rightarrow> level_iter Iterator" where
  "level_ops icmp =
     \<lparr>Valid = level_valid,
      SeekToFirst = (\<lambda>it. Some (it\<lparr>flist_index := 0\<rparr>)),
      SeekToLast = (\<lambda>it. Some (it\<lparr>flist_index := (if flist it = [] then 0 else length (flist it) - 1)\<rparr>)),
      Seek = (\<lambda>it target. Some (it\<lparr>flist_index := FindFile icmp (flist it) target\<rparr>)),
      Next = (\<lambda>it. if level_valid it then Some (it\<lparr>flist_index := flist_index it + 1\<rparr>) else None),
      Prev = (\<lambda>it. if level_valid it
                   then Some (it\<lparr>flist_index := (if flist_index it = 0 then length (flist it) else flist_index it - 1)\<rparr>)
                   else None),
      Key = (\<lambda>it. fm_largest (flist it ! flist_index it)),
      Val = (\<lambda>it. file_value (flist it ! flist_index it)),
      IterStatus = (\<lambda>it. OK)\<rparr>"

section \<open>The files that overlap a range\<close>

text \<open>
  A turn of the loop of \<open>GetOverlappingInputs\<close>. The state has the index, the range, which grows in level 0, and the files
  found; the range is open at an end whose pointer is null.
\<close>

definition overlap_turn ::
    "(slice \<Rightarrow> slice \<Rightarrow> int) \<Rightarrow> nat \<Rightarrow> FileMetaData list \<Rightarrow> nat \<times> slice option \<times> slice option \<times> FileMetaData list \<Rightarrow>
     (nat \<times> slice option \<times> slice option \<times> FileMetaData list, FileMetaData list) turn option" where
  "overlap_turn ucmp level files = (\<lambda>(i, user_begin, user_end, inputs).
     if i < length files then
       let f = files ! i;
           file_start = ExtractUserKey (fm_smallest f);
           file_limit = ExtractUserKey (fm_largest f)
       in Some (Continue
         (if (case user_begin of None \<Rightarrow> False | Some b \<Rightarrow> ucmp file_limit b < 0) then (i + 1, user_begin, user_end, inputs)
          else if (case user_end of None \<Rightarrow> False | Some e \<Rightarrow> 0 < ucmp file_start e) then (i + 1, user_begin, user_end, inputs)
          else if level = 0 \<and> (case user_begin of None \<Rightarrow> False | Some b \<Rightarrow> ucmp file_start b < 0)
               then (0, Some file_start, user_end, [])
          else if level = 0 \<and> (case user_end of None \<Rightarrow> False | Some e \<Rightarrow> 0 < ucmp file_limit e)
               then (0, user_begin, Some file_limit, [])
          else (i + 1, user_begin, user_end, inputs @ [f])))
     else Some (Leave inputs))"

record Version =
  v_files :: "FileMetaData list list"

definition GetOverlappingInputs ::
    "(slice \<Rightarrow> slice \<Rightarrow> int) \<Rightarrow> Version \<Rightarrow> nat \<Rightarrow> slice option \<Rightarrow> slice option \<Rightarrow> FileMetaData list option" where
  "GetOverlappingInputs ucmp v level begin_key end_key =
     (if level < kNumLevels
      then crun (overlap_turn ucmp level (v_files v ! level))
             (0, map_option ExtractUserKey begin_key, map_option ExtractUserKey end_key, [])
      else None)"

definition OverlapInLevel :: "(slice \<Rightarrow> slice \<Rightarrow> int) \<Rightarrow> Version \<Rightarrow> nat \<Rightarrow> slice option \<Rightarrow> slice option \<Rightarrow> bool" where
  "OverlapInLevel ucmp v level smallest_user_key largest_user_key \<longleftrightarrow>
     SomeFileOverlapsRange ucmp (0 < level) (v_files v ! level) smallest_user_key largest_user_key"

definition TotalFileSize :: "FileMetaData list \<Rightarrow> int" where
  "TotalFileSize files = sint (sum_list (map fm_file_size files))"

definition kMaxMemCompactLevel :: nat where "kMaxMemCompactLevel = 2"

definition MaxGrandParentOverlapBytes :: "int \<Rightarrow> int" where
  "MaxGrandParentOverlapBytes target_file_size = 10 * target_file_size"

function pick_level_loop :: "(slice \<Rightarrow> slice \<Rightarrow> int) \<Rightarrow> int \<Rightarrow> Version \<Rightarrow> slice \<Rightarrow> slice \<Rightarrow> nat \<Rightarrow> nat option" where
  "pick_level_loop ucmp target_file_size v smallest largest level =
     (if level < kMaxMemCompactLevel then
        if OverlapInLevel ucmp v (level + 1) (Some smallest) (Some largest) then Some level
        else do {
          stop \<leftarrow> (if level + 2 < kNumLevels then do {
                     overlaps \<leftarrow> GetOverlappingInputs ucmp v (level + 2)
                       (Some (internal_key smallest kMaxSequenceNumber kValueTypeForSeek)) (Some (internal_key largest 0 kTypeDeletion));
                     Some (MaxGrandParentOverlapBytes target_file_size < TotalFileSize overlaps)
                   } else Some False);
          if stop then Some level else pick_level_loop ucmp target_file_size v smallest largest (level + 1)
        }
      else Some level)"
  by auto
termination by (relation "measure (\<lambda>(ucmp, size, v, smallest, largest, level). kMaxMemCompactLevel - level)") auto

declare pick_level_loop.simps [simp del]

definition PickLevelForMemTableOutput :: "(slice \<Rightarrow> slice \<Rightarrow> int) \<Rightarrow> int \<Rightarrow> Version \<Rightarrow> slice \<Rightarrow> slice \<Rightarrow> nat option" where
  "PickLevelForMemTableOutput ucmp target_file_size v smallest_user_key largest_user_key =
     (if \<not> OverlapInLevel ucmp v 0 (Some smallest_user_key) (Some largest_user_key)
      then pick_level_loop ucmp target_file_size v smallest_user_key largest_user_key 0
      else Some 0)"

section \<open>What the searches find\<close>

definition level_entries :: "FileMetaData list \<Rightarrow> entry list" where
  "level_entries files = map (\<lambda>f. (fm_largest f, file_value f)) files"

lemma level_entries_simps [simp]:
  "length (level_entries files) = length files" "map fst (level_entries files) = map fm_largest files"
  "i < length files \<Longrightarrow> level_entries files ! i = (fm_largest (files ! i), file_value (files ! i))"
  by (simp_all add: level_entries_def comp_def)

text \<open>The range of a file, and files that overlap a range or lie within it.\<close>

definition overlaps :: "(slice \<Rightarrow> slice \<Rightarrow> int) \<Rightarrow> slice option \<Rightarrow> slice option \<Rightarrow> FileMetaData \<Rightarrow> bool" where
  "overlaps ucmp b e f \<longleftrightarrow> \<not> AfterFile ucmp b f \<and> \<not> BeforeFile ucmp e f"

definition inside :: "(slice \<Rightarrow> slice \<Rightarrow> int) \<Rightarrow> slice option \<Rightarrow> slice option \<Rightarrow> FileMetaData \<Rightarrow> bool" where
  "inside ucmp b e f \<longleftrightarrow>
     (case b of None \<Rightarrow> True | Some k \<Rightarrow> ucmp k (ExtractUserKey (fm_smallest f)) \<le> 0) \<and>
     (case e of None \<Rightarrow> True | Some k \<Rightarrow> ucmp (ExtractUserKey (fm_largest f)) k \<le> 0)"

definition file_ok :: "(slice \<Rightarrow> slice \<Rightarrow> int) \<Rightarrow> FileMetaData \<Rightarrow> bool" where
  "file_ok ucmp f \<longleftrightarrow>
     InternalKeyCompare ucmp (fm_smallest f) (fm_largest f) \<le> 0 \<and>
     key_number (fm_largest f) \<le> PackSequenceAndType kMaxSequenceNumber kValueTypeForSeek"

text \<open>The files of a level above 0 are disjoint and in order.\<close>

definition level_sorted :: "(slice \<Rightarrow> slice \<Rightarrow> int) \<Rightarrow> FileMetaData list \<Rightarrow> bool" where
  "level_sorted ucmp files \<longleftrightarrow>
     (\<forall>f \<in> set files. file_ok ucmp f) \<and>
     sorted_wrt (\<lambda>f g. InternalKeyCompare ucmp (fm_largest f) (fm_smallest g) < 0) files"

context slice_comparator
begin

lemma find_file_loop_below:
  "ordered (map fm_largest files) \<Longrightarrow> left \<le> right \<Longrightarrow> right \<le> length files \<Longrightarrow> left \<le> below key (level_entries files) \<Longrightarrow>
    below key (level_entries files) \<le> right \<Longrightarrow> find_file_loop compare files key left right = below key (level_entries files)"
proof (induction "right - left" arbitrary: left right rule: less_induct)
  case less
  let ?mid = "(left + right) div 2" and ?es = "level_entries files"
  show ?case
  proof (cases "left < right")
    case True
    then have mid: "left \<le> ?mid" "?mid < right" "?mid < length files" using less.prems by linarith+
    show ?thesis
    proof (cases "compare (fm_largest (files ! ?mid)) key < 0")
      case lower: True
      then have "?mid < below key ?es" using ordered_below [of ?es ?mid key] less.prems mid by simp
      then show ?thesis using less.hyps [of right "?mid + 1"] less.prems True lower mid
        by (subst find_file_loop.simps) (simp add: Let_def)
    next
      case False
      then have "\<not> ?mid < below key ?es" using below_less [of ?mid key ?es] mid(3) by auto
      then show ?thesis using less.hyps [of ?mid left] less.prems True False mid
        by (subst find_file_loop.simps) (simp add: Let_def)
    qed
  next
    case False
    then show ?thesis using less.prems by (subst find_file_loop.simps) simp
  qed
qed

lemma FindFile_below: "ordered (map fm_largest files) \<Longrightarrow> FindFile compare files key = below key (level_entries files)"
  using find_file_loop_below [of files 0 "length files" key] below_le [of key "level_entries files"] by (simp add: FindFile_def)

definition level_at :: "level_iter \<Rightarrow> entry list \<Rightarrow> nat \<Rightarrow> bool" where
  "level_at it es p \<longleftrightarrow> ordered (map fm_largest (flist it)) \<and> es = level_entries (flist it) \<and> flist_index it = p \<and> p \<le> length es"

lemma level_iterator_sorted: "sorted_iterator compare (level_ops compare) level_at (\<lambda>t. True)"
proof unfold_locales
  fix s es p t
  assume a: "level_at s es p"
  then have o: "ordered (map fm_largest (flist s))" and es: "es = level_entries (flist s)" "flist_index s = p" "p \<le> length (flist s)"
    by (auto simp: level_at_def)
  show "p \<le> length es" "ordered (map fst es)" using o es by simp_all
  show "Valid (level_ops compare) s \<longleftrightarrow> p < length es" by (simp add: es level_ops_def level_valid_def)
  show "Key (level_ops compare) s = fst (es ! p)" "Val (level_ops compare) s = snd (es ! p)" if "p < length es"
    using that by (simp_all add: es level_ops_def)
  show "IterStatus (level_ops compare) s = OK" by (simp add: level_ops_def)
  show "\<exists>s'. SeekToFirst (level_ops compare) s = Some s' \<and> level_at s' es 0" using o es by (simp add: level_ops_def level_at_def)
  show "\<exists>s'. SeekToLast (level_ops compare) s = Some s' \<and> level_at s' es (length es - 1)" using o es by (simp add: level_ops_def level_at_def)
  show "\<exists>s'. Seek (level_ops compare) s t = Some s' \<and> level_at s' es (below t es)" if "True"
    using o es FindFile_below [OF o, of t] below_le [of t es] by (simp add: level_ops_def level_at_def)
  show "\<exists>s'. Next (level_ops compare) s = Some s' \<and> level_at s' es (p + 1)" if "p < length es"
    using o es that by (simp add: level_ops_def level_at_def level_valid_def)
  show "\<exists>s'. Prev (level_ops compare) s = Some s' \<and> level_at s' es (if p = 0 then length es else p - 1)" if "p < length es"
    using o es that by (auto simp: level_ops_def level_at_def level_valid_def)
qed

lemma LevelFileNumIterator_at:
  "ordered (map fm_largest files) \<Longrightarrow> level_at (LevelFileNumIterator files) (level_entries files) (length files)"
  by (simp add: level_at_def LevelFileNumIterator_def)

end

sublocale slice_comparator < level_files: sorted_iterator compare "level_ops compare" level_at "\<lambda>t. True"
  by (rule level_iterator_sorted)

context slice_comparator
begin

lemma level_sorted_ordered:
  assumes "level_sorted compare files"
  shows "comparator.ordered icompare (map fm_largest files)"
proof -
  have "icompare (fm_largest f) (fm_largest g) < 0" if "icompare (fm_largest f) (fm_smallest g) < 0" "file_ok compare g" for f g
    using comparator.compare_less_trans [OF slice_comparator.axioms [OF internal_comparator], of "fm_largest f" "fm_smallest g" "fm_largest g"] that
    by (simp add: file_ok_def)
  then have "sorted_wrt (\<lambda>f g. icompare (fm_largest f) (fm_largest g) < 0) files"
    using assms unfolding level_sorted_def by (auto intro: sorted_wrt_mono_rel [rotated])
  then show ?thesis by (simp add: comparator.ordered_def [OF slice_comparator.axioms [OF internal_comparator]] sorted_wrt_map)
qed

text \<open>The key that a search for a user key starts from is the first of all keys with it.\<close>

lemma first_key:
  assumes "file_ok compare f"
  shows "icompare (fm_largest f) (internal_key k kMaxSequenceNumber kValueTypeForSeek) < 0 \<longleftrightarrow> AfterFile compare (Some k) f"
  using assms compare_swap [of "ExtractUserKey (fm_largest f)" k] compare_swap_0 [of "ExtractUserKey (fm_largest f)" k]
  by (auto simp: icompare_less AfterFile_def file_ok_def)

lemma BeforeFile_later:
  assumes "level_sorted compare files" and "i \<le> j" "j < length files" and "BeforeFile compare k (files ! i)"
  shows "BeforeFile compare k (files ! j)"
proof (cases "i = j")
  case False
  let ?u = ExtractUserKey
  from assms(4) obtain x where x: "k = Some x" "compare x (?u (fm_smallest (files ! i))) < 0"
    by (auto simp: BeforeFile_def split: option.splits)
  have "icompare (fm_largest (files ! i)) (fm_smallest (files ! j)) < 0"
    using assms(1-3) False by (auto simp: level_sorted_def sorted_wrt_iff_nth_less)
  moreover have "icompare (fm_smallest (files ! i)) (fm_largest (files ! i)) \<le> 0"
    using assms(1-3) by (auto simp: level_sorted_def file_ok_def)
  ultimately have "compare (?u (fm_smallest (files ! i))) (?u (fm_largest (files ! i))) \<le> 0"
    "compare (?u (fm_largest (files ! i))) (?u (fm_smallest (files ! j))) \<le> 0" by (auto simp: icompare_less icompare_le)
  from compare_trans [OF this] have "compare (?u (fm_smallest (files ! i))) (?u (fm_smallest (files ! j))) \<le> 0" .
  then have "compare x (?u (fm_smallest (files ! j))) < 0"
    using x(2) compare_less_trans [of x "?u (fm_smallest (files ! i))" "?u (fm_smallest (files ! j))"] by simp
  then show ?thesis using x(1) by (simp add: BeforeFile_def)
qed (use assms in simp)

lemma SomeFileOverlapsRange_iff:
  assumes "disjoint \<Longrightarrow> level_sorted compare files"
  shows "SomeFileOverlapsRange compare disjoint files s l \<longleftrightarrow> (\<exists>f \<in> set files. overlaps compare s l f)"
proof (cases disjoint)
  case False
  then show ?thesis by (auto simp: SomeFileOverlapsRange_def overlaps_def list_ex_iff)
next
  case True
  note ok = assms [OF True]
  let ?index = "case s of None \<Rightarrow> 0 | Some k \<Rightarrow> FindFile icompare files (internal_key k kMaxSequenceNumber kValueTypeForSeek)"
  have after: "(i < ?index \<longleftrightarrow> AfterFile compare s (files ! i)) \<and> ?index \<le> length files" if "i < length files" for i
  proof (cases s)
    case None
    then show ?thesis by (simp add: AfterFile_def)
  next
    case (Some k)
    let ?key = "internal_key k kMaxSequenceNumber kValueTypeForSeek"
    note icmp = slice_comparator.axioms [OF internal_comparator]
    note o = level_sorted_ordered [OF ok]
    have idx: "?index = comparator.below icompare ?key (level_entries files)"
      using slice_comparator.FindFile_below [OF internal_comparator o] Some by simp
    have "file_ok compare (files ! i)" using ok that by (simp add: level_sorted_def)
    note first = first_key [OF this, of k]
    show ?thesis
      unfolding idx
      using comparator.ordered_below [OF icmp, of "level_entries files" i ?key] comparator.below_less [OF icmp, of i ?key "level_entries files"]
        comparator.below_le [OF icmp, of ?key "level_entries files"] o that first Some by auto
  qed
  have "SomeFileOverlapsRange compare disjoint files s l \<longleftrightarrow> ?index < length files \<and> \<not> BeforeFile compare l (files ! ?index)"
    using True by (simp add: SomeFileOverlapsRange_def Let_def not_le cong: option.case_cong)
  also have "\<dots> \<longleftrightarrow> (\<exists>f \<in> set files. overlaps compare s l f)"
  proof
    assume i: "?index < length files \<and> \<not> BeforeFile compare l (files ! ?index)"
    then have "overlaps compare s l (files ! ?index)" using after [of ?index] by (simp add: overlaps_def)
    then show "\<exists>f \<in> set files. overlaps compare s l f" using i nth_mem by blast
  next
    assume "\<exists>f \<in> set files. overlaps compare s l f"
    then obtain j where j: "j < length files" "\<not> AfterFile compare s (files ! j)" "\<not> BeforeFile compare l (files ! j)"
      by (auto simp: overlaps_def in_set_conv_nth)
    then have "?index \<le> j" using after [of j] by simp
    then show "?index < length files \<and> \<not> BeforeFile compare l (files ! ?index)" using BeforeFile_later [OF ok _ j(1)] j by auto
  qed
  finally show ?thesis .
qed

end

section \<open>The least closed range\<close>

text \<open>A range that contains another, and one that no file overlaps without lying within it.\<close>

definition contains :: "(slice \<Rightarrow> slice \<Rightarrow> int) \<Rightarrow> slice option \<Rightarrow> slice option \<Rightarrow> slice option \<Rightarrow> slice option \<Rightarrow> bool" where
  "contains ucmp b e b' e' \<longleftrightarrow>
     (case b of None \<Rightarrow> True | Some k \<Rightarrow> (case b' of None \<Rightarrow> False | Some k' \<Rightarrow> ucmp k k' \<le> 0)) \<and>
     (case e of None \<Rightarrow> True | Some k \<Rightarrow> (case e' of None \<Rightarrow> False | Some k' \<Rightarrow> ucmp k' k \<le> 0))"

definition closed_range :: "(slice \<Rightarrow> slice \<Rightarrow> int) \<Rightarrow> FileMetaData list \<Rightarrow> slice option \<Rightarrow> slice option \<Rightarrow> bool" where
  "closed_range ucmp files b e \<longleftrightarrow> (\<forall>f \<in> set files. overlaps ucmp b e f \<longrightarrow> inside ucmp b e f)"

lemma length_filter_mono: "(\<And>x. x \<in> set xs \<Longrightarrow> P x \<Longrightarrow> Q x) \<Longrightarrow> length (filter P xs) \<le> length (filter Q xs)"
proof (induction xs)
  case (Cons x xs)
  then have "length (filter P xs) \<le> length (filter Q xs)" by simp
  then show ?case using Cons.prems [of x] by simp
qed simp

lemma length_filter_less:
  "(\<And>x. x \<in> set xs \<Longrightarrow> P x \<Longrightarrow> Q x) \<Longrightarrow> y \<in> set xs \<Longrightarrow> Q y \<Longrightarrow> \<not> P y \<Longrightarrow> length (filter P xs) < length (filter Q xs)"
proof (induction xs)
  case (Cons x xs)
  have "length (filter P xs) \<le> length (filter Q xs)" by (rule length_filter_mono) (use Cons.prems(1) in simp)
  then show ?case using Cons by (cases "x = y") (auto simp: less_Suc_eq_le)
qed simp

definition starts_below :: "(slice \<Rightarrow> slice \<Rightarrow> int) \<Rightarrow> slice option \<Rightarrow> FileMetaData \<Rightarrow> bool" where
  "starts_below ucmp b f \<longleftrightarrow> (case b of None \<Rightarrow> False | Some k \<Rightarrow> ucmp (ExtractUserKey (fm_smallest f)) k < 0)"

definition ends_above :: "(slice \<Rightarrow> slice \<Rightarrow> int) \<Rightarrow> slice option \<Rightarrow> FileMetaData \<Rightarrow> bool" where
  "ends_above ucmp e f \<longleftrightarrow> (case e of None \<Rightarrow> False | Some k \<Rightarrow> 0 < ucmp (ExtractUserKey (fm_largest f)) k)"

definition to_grow :: "(slice \<Rightarrow> slice \<Rightarrow> int) \<Rightarrow> FileMetaData list \<Rightarrow> slice option \<Rightarrow> slice option \<Rightarrow> nat" where
  "to_grow ucmp files b e = length (filter (starts_below ucmp b) files) + length (filter (ends_above ucmp e) files)"

context slice_comparator
begin

lemma turn_cases:
  "i < length files \<Longrightarrow> overlap_turn compare level files (i, b, e, inputs) = Some (Continue
     (if \<not> overlaps compare b e (files ! i) then (i + 1, b, e, inputs)
      else if level = 0 \<and> starts_below compare b (files ! i) then (0, Some (ExtractUserKey (fm_smallest (files ! i))), e, [])
      else if level = 0 \<and> ends_above compare e (files ! i) then (0, b, Some (ExtractUserKey (fm_largest (files ! i))), [])
      else (i + 1, b, e, inputs @ [files ! i])))"
  "\<not> i < length files \<Longrightarrow> overlap_turn compare level files (i, b, e, inputs) = Some (Leave inputs)"
  using compare_swap by (auto simp: overlap_turn_def Let_def overlaps_def AfterFile_def BeforeFile_def starts_below_def ends_above_def split: option.splits)

lemma inside_iff: "inside compare b e f \<longleftrightarrow> \<not> starts_below compare b f \<and> \<not> ends_above compare e f"
  using compare_swap_le by (auto simp: inside_def starts_below_def ends_above_def not_less split: option.splits)

lemma contains_refl: "contains compare b e b e"
  using compare_self by (auto simp: contains_def split: option.splits)

lemma contains_overlaps:
  assumes "contains compare b e b' e'" and "overlaps compare b' e' f"
  shows "overlaps compare b e f"
proof -
  have "\<not> 0 < compare x (ExtractUserKey (fm_largest f))" if "compare x y \<le> 0" "\<not> 0 < compare y (ExtractUserKey (fm_largest f))" for x y
    using compare_trans [of x y "ExtractUserKey (fm_largest f)"] that by simp
  moreover have "\<not> compare y (ExtractUserKey (fm_smallest f)) < 0" if "compare x y \<le> 0" "\<not> compare x (ExtractUserKey (fm_smallest f)) < 0" for x y
    using compare_less_trans [of x y "ExtractUserKey (fm_smallest f)"] that by fastforce
  ultimately show ?thesis using assms by (auto simp: contains_def overlaps_def AfterFile_def BeforeFile_def split: option.splits)
qed

text \<open>Growing the range at a file that overlaps it stays within every closed range around it.\<close>

lemma contains_grown:
  assumes c: "contains compare b1 e1 b e" and cl: "closed_range compare files b1 e1" and f: "f \<in> set files" "overlaps compare b e f"
  shows "b \<noteq> None \<Longrightarrow> contains compare b1 e1 (Some (ExtractUserKey (fm_smallest f))) e"
    and "e \<noteq> None \<Longrightarrow> contains compare b1 e1 b (Some (ExtractUserKey (fm_largest f)))"
  using contains_overlaps [OF c f(2)] cl f(1) c
  by (auto simp: closed_range_def inside_def contains_def split: option.splits)

lemma contains_step:
  assumes c: "contains compare b e b0 e0"
  shows "starts_below compare b f \<Longrightarrow> contains compare (Some (ExtractUserKey (fm_smallest f))) e b0 e0"
    and "ends_above compare e f \<Longrightarrow> contains compare b (Some (ExtractUserKey (fm_largest f))) b0 e0"
proof -
  let ?s = "ExtractUserKey (fm_smallest f)" and ?l = "ExtractUserKey (fm_largest f)"
  have "compare ?s y \<le> 0" if "compare ?s x < 0" "compare x y \<le> 0" for x y using compare_trans [of ?s x y] that by simp
  then show "starts_below compare b f \<Longrightarrow> contains compare (Some ?s) e b0 e0"
    using c by (auto simp: contains_def starts_below_def split: option.splits)
  have "compare y ?l \<le> 0" if "0 < compare ?l x" "compare y x \<le> 0" for x y
    using compare_trans [of y x ?l] that compare_swap [of x ?l] by simp
  then show "ends_above compare e f \<Longrightarrow> contains compare b (Some ?l) b0 e0"
    using c by (auto simp: contains_def ends_above_def split: option.splits)
qed

lemma to_grow_less:
  assumes f: "f \<in> set files"
  shows "starts_below compare b f \<Longrightarrow> to_grow compare files (Some (ExtractUserKey (fm_smallest f))) e < to_grow compare files b e"
    and "ends_above compare e f \<Longrightarrow> to_grow compare files b (Some (ExtractUserKey (fm_largest f))) < to_grow compare files b e"
proof -
  let ?s = "ExtractUserKey (fm_smallest f)" and ?l = "ExtractUserKey (fm_largest f)"
  assume b: "starts_below compare b f"
  then obtain k where k: "b = Some k" "compare ?s k < 0" by (auto simp: starts_below_def split: option.splits)
  have "length (filter (starts_below compare (Some ?s)) files) < length (filter (starts_below compare b) files)"
  proof (rule length_filter_less [where y = f])
    show "f \<in> set files" by (rule f)
    show "starts_below compare b f" by (rule b)
    show "starts_below compare b g" if "starts_below compare (Some ?s) g" for g
      using that k compare_less_trans [of "ExtractUserKey (fm_smallest g)" ?s k] by (simp add: starts_below_def)
    show "\<not> starts_below compare (Some ?s) f" by (simp add: starts_below_def compare_self)
  qed
  then show "to_grow compare files (Some ?s) e < to_grow compare files b e" by (simp add: to_grow_def)
next
  let ?s = "ExtractUserKey (fm_smallest f)" and ?l = "ExtractUserKey (fm_largest f)"
  assume e: "ends_above compare e f"
  then obtain k where k: "e = Some k" "compare k ?l < 0" using compare_swap by (auto simp: ends_above_def split: option.splits)
  have "length (filter (ends_above compare (Some ?l)) files) < length (filter (ends_above compare e) files)"
  proof (rule length_filter_less [where y = f])
    show "f \<in> set files" by (rule f)
    show "ends_above compare e f" by (rule e)
    show "ends_above compare e g" if "ends_above compare (Some ?l) g" for g
    proof -
      have "compare ?l (ExtractUserKey (fm_largest g)) < 0" using that compare_swap by (simp add: ends_above_def)
      then have "compare k (ExtractUserKey (fm_largest g)) < 0" using k compare_less_trans [of k ?l "ExtractUserKey (fm_largest g)"] by simp
      then show ?thesis using k compare_swap by (simp add: ends_above_def)
    qed
    show "\<not> ends_above compare (Some ?l) f" by (simp add: ends_above_def compare_self)
  qed
  then show "to_grow compare files b (Some ?l) < to_grow compare files b e" by (simp add: to_grow_def)
qed

definition range_found :: "nat \<Rightarrow> FileMetaData list \<Rightarrow> slice option \<Rightarrow> slice option \<Rightarrow> nat \<times> slice option \<times> slice option \<times> FileMetaData list \<Rightarrow> bool" where
  "range_found level files b0 e0 = (\<lambda>(i, b, e, inputs).
     i \<le> length files \<and> inputs = filter (overlaps compare b e) (take i files) \<and> contains compare b e b0 e0 \<and>
     (if level = 0 then (\<forall>f \<in> set inputs. inside compare b e f) \<and>
        (\<forall>b1 e1. contains compare b1 e1 b0 e0 \<and> closed_range compare files b1 e1 \<longrightarrow> contains compare b1 e1 b e)
      else b = b0 \<and> e = e0))"

lemma overlap_loop:
  "\<exists>inputs. crun (overlap_turn compare level files) (0, b0, e0, []) = Some inputs \<and>
    (\<exists>b e. range_found level files b0 e0 (length files, b, e, inputs))"
proof (rule crun_rule [where I = "range_found level files b0 e0"
      and f = "\<lambda>(i, b, e, inputs). to_grow compare files b e * (length files + 1) + (length files - i)"])
  show "range_found level files b0 e0 (0, b0, e0, [])" by (simp add: range_found_def contains_refl)
  fix s assume I: "range_found level files b0 e0 s"
  obtain i b e inputs where s: "s = (i, b, e, inputs)" by (cases s)
  let ?n = "length files"
  show "\<exists>t. overlap_turn compare level files s = Some t \<and>
      (case t of Continue s' \<Rightarrow> range_found level files b0 e0 s' \<and>
         (case s' of (i, b, e, inputs) \<Rightarrow> to_grow compare files b e * (?n + 1) + (?n - i))
           < (case s of (i, b, e, inputs) \<Rightarrow> to_grow compare files b e * (?n + 1) + (?n - i))
       | Leave inputs \<Rightarrow> \<exists>b e. range_found level files b0 e0 (?n, b, e, inputs))"
  proof (cases "i < ?n")
    case False
    then have "i = ?n" using I by (simp add: s range_found_def)
    then show ?thesis using I False by (auto simp: s turn_cases)
  next
    case i: True
    let ?f = "files ! i"
    have f: "?f \<in> set files" using i by simp
    have tk: "take (Suc i) files = take i files @ [?f]" using i by (rule take_Suc_conv_app_nth)
    have restart: "g' * (?n + 1) + ?n < g * (?n + 1) + (?n - i)" if "g' < g" for g g' :: nat
    proof -
      have "(g' + 1) * (?n + 1) \<le> g * (?n + 1)" using that by (intro mult_le_mono1) simp
      moreover have "(g' + 1) * (?n + 1) = g' * (?n + 1) + ?n + 1" by simp
      ultimately show ?thesis by linarith
    qed
    have go: "g * (?n + 1) + (?n - (i + 1)) < g * (?n + 1) + (?n - i)" for g :: nat using i by simp
    consider (out) "\<not> overlaps compare b e ?f" | (low) "overlaps compare b e ?f" "level = 0" "starts_below compare b ?f"
      | (high) "overlaps compare b e ?f" "level = 0" "\<not> starts_below compare b ?f" "ends_above compare e ?f"
      | (add) "overlaps compare b e ?f" "level = 0 \<Longrightarrow> inside compare b e ?f"
      using inside_iff by blast
    then show ?thesis
    proof cases
      case out
      then have "range_found level files b0 e0 (i + 1, b, e, inputs)" using I i by (auto simp: s range_found_def tk)
      then show ?thesis unfolding s turn_cases(1) [OF i] using out go [of "to_grow compare files b e"] by auto
    next
      case low
      then have "b \<noteq> None" by (cases b) (auto simp: starts_below_def)
      then have "range_found level files b0 e0 (0, Some (ExtractUserKey (fm_smallest ?f)), e, [])"
        using I low contains_step(1) [of b e b0 e0 ?f] contains_grown(1) [OF _ _ f low(1)] by (auto simp: s range_found_def)
      then show ?thesis unfolding s turn_cases(1) [OF i] using low restart [OF to_grow_less(1) [OF f low(3), of e]] by simp
    next
      case high
      then have "e \<noteq> None" by (cases e) (auto simp: ends_above_def)
      then have "range_found level files b0 e0 (0, b, Some (ExtractUserKey (fm_largest ?f)), [])"
        using I high contains_step(2) [of b e b0 e0 ?f] contains_grown(2) [OF _ _ f high(1)] by (auto simp: s range_found_def)
      then show ?thesis unfolding s turn_cases(1) [OF i] using high restart [OF to_grow_less(2) [OF f high(4), of b]] by simp
    next
      case add
      then have "level = 0 \<Longrightarrow> \<not> starts_below compare b ?f \<and> \<not> ends_above compare e ?f" using inside_iff by blast
      moreover have "range_found level files b0 e0 (i + 1, b, e, inputs @ [?f])" using I i add by (auto simp: s range_found_def tk)
      ultimately show ?thesis unfolding s turn_cases(1) [OF i] using add(1) go [of "to_grow compare files b e"] by auto
    qed
  qed
qed

lemma GetOverlappingInputs_range:
  fixes v :: Version and begin_key end_key :: "slice option"
  assumes "level < kNumLevels"
  defines "files \<equiv> v_files v ! level" and "b0 \<equiv> map_option ExtractUserKey begin_key" and "e0 \<equiv> map_option ExtractUserKey end_key"
  shows "\<exists>b e. GetOverlappingInputs compare v level begin_key end_key = Some (filter (overlaps compare b e) files) \<and>
    contains compare b e b0 e0 \<and> (0 < level \<longrightarrow> b = b0 \<and> e = e0) \<and>
    (level = 0 \<longrightarrow> closed_range compare files b e \<and>
       (\<forall>b1 e1. contains compare b1 e1 b0 e0 \<and> closed_range compare files b1 e1 \<longrightarrow> contains compare b1 e1 b e))"
proof -
  from overlap_loop [of level files b0 e0] obtain inputs b e where
    r: "crun (overlap_turn compare level files) (0, b0, e0, []) = Some inputs" "range_found level files b0 e0 (length files, b, e, inputs)"
    by blast
  then have "GetOverlappingInputs compare v level begin_key end_key = Some inputs"
    using assms(1) by (simp add: GetOverlappingInputs_def files_def b0_def e0_def)
  moreover have "inputs = filter (overlaps compare b e) files" using r(2) by (simp add: range_found_def)
  ultimately show ?thesis using r(2)
    by (intro exI [of _ b] exI [of _ e]) (auto simp: range_found_def closed_range_def)
qed

lemma pick_level_loop_ok:
  assumes v: "\<And>l. 0 < l \<Longrightarrow> l < kNumLevels \<Longrightarrow> level_sorted compare (v_files v ! l)" and "level \<le> kMaxMemCompactLevel"
    and "\<And>l. l \<le> level \<Longrightarrow> \<not> OverlapInLevel compare v l (Some s) (Some t)"
  shows "\<exists>level'. pick_level_loop compare target v s t level = Some level' \<and> level' \<le> kMaxMemCompactLevel \<and>
    (\<forall>l \<le> level'. \<not> OverlapInLevel compare v l (Some s) (Some t))"
  using assms(2,3)
proof (induction "kMaxMemCompactLevel - level" arbitrary: level)
  case 0
  then show ?case by (subst pick_level_loop.simps) auto
next
  case (Suc n)
  have l: "level < kMaxMemCompactLevel" "level + 2 < kNumLevels"
    using Suc.hyps(2) Suc.prems(1) by (simp_all add: kMaxMemCompactLevel_def kNumLevels_def)
  show ?case
  proof (cases "OverlapInLevel compare v (level + 1) (Some s) (Some t)")
    case True
    then show ?thesis using l Suc.prems by (subst pick_level_loop.simps) auto
  next
    case False
    from GetOverlappingInputs_range [OF l(2)] obtain inputs where
      i: "GetOverlappingInputs compare v (level + 2) (Some (internal_key s kMaxSequenceNumber kValueTypeForSeek))
        (Some (internal_key t 0 kTypeDeletion)) = Some inputs" by blast
    show ?thesis
    proof (cases "MaxGrandParentOverlapBytes target < TotalFileSize inputs")
      case True
      then show ?thesis using l Suc.prems False i by (subst pick_level_loop.simps) simp
    next
      case go: False
      have "\<not> OverlapInLevel compare v k (Some s) (Some t)" if "k \<le> level + 1" for k
        using Suc.prems(2) [of k] False that by (cases "k = level + 1") simp_all
      then show ?thesis using Suc.hyps(1) [of "level + 1"] Suc.hyps(2) l False i go by (subst pick_level_loop.simps) simp
    qed
  qed
qed

lemma PickLevel_ok:
  assumes v: "\<And>l. 0 < l \<Longrightarrow> l < kNumLevels \<Longrightarrow> level_sorted compare (v_files v ! l)"
  shows "\<exists>level. PickLevelForMemTableOutput compare target v s t = Some level \<and> level \<le> kMaxMemCompactLevel \<and>
    (0 < level \<longrightarrow> (\<forall>l \<le> level. \<forall>f \<in> set (v_files v ! l). \<not> overlaps compare (Some s) (Some t) f))"
proof -
  have overlap: "OverlapInLevel compare v l (Some s) (Some t) \<longleftrightarrow> (\<exists>f \<in> set (v_files v ! l). overlaps compare (Some s) (Some t) f)"
    if "l < kNumLevels" for l
    unfolding OverlapInLevel_def by (rule SomeFileOverlapsRange_iff) (use v that in simp)
  show ?thesis
  proof (cases "OverlapInLevel compare v 0 (Some s) (Some t)")
    case True
    then show ?thesis by (simp add: PickLevelForMemTableOutput_def)
  next
    case False
    then obtain level where l: "pick_level_loop compare target v s t 0 = Some level" "level \<le> kMaxMemCompactLevel"
      "\<forall>l \<le> level. \<not> OverlapInLevel compare v l (Some s) (Some t)" using pick_level_loop_ok [OF v, of 0 s t target] by auto
    have "\<forall>l \<le> level. \<forall>f \<in> set (v_files v ! l). \<not> overlaps compare (Some s) (Some t) f"
      using l(2,3) overlap by (auto simp: kMaxMemCompactLevel_def kNumLevels_def)
    then show ?thesis using False l(1,2) by (simp add: PickLevelForMemTableOutput_def)
  qed
qed

end

section \<open>Properties\<close>


definition example_file :: "u64 \<Rightarrow> slice \<Rightarrow> slice \<Rightarrow> FileMetaData" where
  "example_file number first_user last_user =
     make_FileMetaData number 100 (internal_key first_user 5 kTypeValue) (internal_key last_user 3 kTypeValue)"

lemma example_level_sorted: "level_sorted BytewiseCompare [example_file 1 [1] [3], example_file 2 [5] [9]]"
  by (simp add: level_sorted_def file_ok_def example_file_def make_FileMetaData_def InternalKeyCompare_def BytewiseCompare_def slice_compare_def
      PackSequenceAndType_def kMaxSequenceNumber_def kValueTypeForSeek_def Let_def)


text \<open>
  C39. The inputs of a compaction are all files of the level that overlap the range; and in level 0, where files overlap each other and the
  search starts again whenever a file makes the range wider, the range that it ends with is the least one around the
  given range that no file reaches out of. The search always ends.
\<close>

theorem overlapping_inputs_closed:
  assumes "slice_comparator ucmp" and "level < kNumLevels"
  shows "\<exists>b e. GetOverlappingInputs ucmp v level begin_key end_key = Some (filter (overlaps ucmp b e) (v_files v ! level)) \<and>
    contains ucmp b e (map_option ExtractUserKey begin_key) (map_option ExtractUserKey end_key) \<and>
    (if level = 0
     then closed_range ucmp (v_files v ! 0) b e \<and>
       (\<forall>b1 e1. contains ucmp b1 e1 (map_option ExtractUserKey begin_key) (map_option ExtractUserKey end_key) \<and>
          closed_range ucmp (v_files v ! 0) b1 e1 \<longrightarrow> contains ucmp b1 e1 b e)
     else b = map_option ExtractUserKey begin_key \<and> e = map_option ExtractUserKey end_key)"
  using slice_comparator.GetOverlappingInputs_range [OF assms, of v begin_key end_key] by auto

theorem overlapping_inputs_closed_witness:
  "\<exists>fs. GetOverlappingInputs BytewiseCompare \<lparr>v_files = [[], [example_file 1 [1] [3], example_file 2 [5] [9]]]\<rparr> 1 None None = Some fs \<and>
    length fs = 2"
  using overlapping_inputs_closed [OF bytewise.slice_comparator_axioms, of 1 "\<lparr>v_files = [[], [example_file 1 [1] [3], example_file 2 [5] [9]]]\<rparr>" None None]
  by (auto simp: kNumLevels_def overlaps_def AfterFile_def BeforeFile_def)



end
