(* ===== verification/LdbFilename.thy ===== *)
theory LdbFilename
  imports LdbComparator LdbStatus
begin

text \<open>
  Decimal numbers (\<open>util/logging.cc\<close>) and the names of the files of a database (\<open>db/filename.cc\<close>). A name is a list of
  bytes. The buffer of 100 bytes for \<open>snprintf\<close> is larger than what is printed: a number has at most 20 digits.
\<close>

section \<open>Numbers\<close>

text \<open>\<open>snprintf\<close> with \<open>%llu\<close> and \<open>%06llu\<close>.\<close>

fun print_decimal :: "nat \<Rightarrow> byte list" where
  "print_decimal n = (if n < 10 then [word_of_nat (48 + n)] else print_decimal (n div 10) @ [word_of_nat (48 + n mod 10)])"

declare print_decimal.simps [simp del]

definition print_padded :: "nat \<Rightarrow> byte list" where
  "print_padded n = replicate (6 - length (print_decimal n)) 48 @ print_decimal n"

definition AppendNumberTo :: "byte list \<Rightarrow> u64 \<Rightarrow> byte list" where
  "AppendNumberTo str num = str @ print_decimal (unat num)"

definition NumberToString :: "u64 \<Rightarrow> byte list" where
  "NumberToString num = AppendNumberTo [] num"

definition hex_digit :: "nat \<Rightarrow> byte" where
  "hex_digit n = word_of_nat (if n < 10 then 48 + n else 87 + n)"

fun AppendEscapedStringTo :: "byte list \<Rightarrow> slice \<Rightarrow> byte list" where
  "AppendEscapedStringTo str [] = str"
| "AppendEscapedStringTo str (c # cs) =
     AppendEscapedStringTo
       (str @ (if 0x20 \<le> c \<and> c \<le> 0x7E then [c] else [0x5C, 0x78, hex_digit (unat c div 16), hex_digit (unat c mod 16)])) cs"

definition EscapeString :: "slice \<Rightarrow> byte list" where
  "EscapeString v = AppendEscapedStringTo [] v"

definition kMaxUint64 :: u64 where "kMaxUint64 = - 1"

text \<open>The loop gives the value and the number of the digits, or nothing when the value overflows, and what is left of the input.\<close>

fun consume_digits :: "slice \<Rightarrow> u64 \<Rightarrow> nat \<Rightarrow> (u64 \<times> nat) option \<times> slice" where
  "consume_digits [] v digits = (Some (v, digits), [])"
| "consume_digits (c # cs) v digits =
     (if 48 \<le> c \<and> c \<le> 57 then
        let delta = ucast (c - 48) in
        if kMaxUint64 div 10 < v \<or> v = kMaxUint64 div 10 \<and> kMaxUint64 mod 10 < delta then (None, c # cs)
        else consume_digits cs (v * 10 + delta) (digits + 1)
      else (Some (v, digits), c # cs))"

text \<open>The result, the value that is stored through the pointer, and what is left.\<close>

definition ConsumeDecimalNumber :: "slice \<Rightarrow> u64 \<Rightarrow> bool \<times> u64 \<times> slice" where
  "ConsumeDecimalNumber input val =
     (case consume_digits input 0 0 of
        (None, rest) \<Rightarrow> (False, val, rest)
      | (Some (v, digits), rest) \<Rightarrow> (0 < digits, v, rest))"

section \<open>Names\<close>

datatype FileType = kLogFile | kDBLockFile | kTableFile | kDescriptorFile | kCurrentFile | kTempFile | kInfoLogFile

definition MakeFileName :: "byte list \<Rightarrow> u64 \<Rightarrow> string \<Rightarrow> byte list" where
  "MakeFileName name number suffix = name @ [0x2F] @ print_padded (unat number) @ [0x2E] @ bytes_of suffix"

definition LogFileName :: "byte list \<Rightarrow> u64 \<Rightarrow> byte list option" where
  "LogFileName name number = (if 0 < number then Some (MakeFileName name number ''log'') else None)"

definition TableFileName :: "byte list \<Rightarrow> u64 \<Rightarrow> byte list option" where
  "TableFileName name number = (if 0 < number then Some (MakeFileName name number ''ldb'') else None)"

definition SSTTableFileName :: "byte list \<Rightarrow> u64 \<Rightarrow> byte list option" where
  "SSTTableFileName name number = (if 0 < number then Some (MakeFileName name number ''sst'') else None)"

definition DescriptorFileName :: "byte list \<Rightarrow> u64 \<Rightarrow> byte list option" where
  "DescriptorFileName dbname number =
     (if 0 < number then Some (dbname @ bytes_of ''/MANIFEST-'' @ print_padded (unat number)) else None)"

definition CurrentFileName :: "byte list \<Rightarrow> byte list" where
  "CurrentFileName dbname = dbname @ bytes_of ''/CURRENT''"

definition LockFileName :: "byte list \<Rightarrow> byte list" where
  "LockFileName dbname = dbname @ bytes_of ''/LOCK''"

definition TempFileName :: "byte list \<Rightarrow> u64 \<Rightarrow> byte list option" where
  "TempFileName dbname number = (if 0 < number then Some (MakeFileName dbname number ''dbtmp'') else None)"

definition InfoLogFileName :: "byte list \<Rightarrow> byte list" where
  "InfoLogFileName dbname = dbname @ bytes_of ''/LOG''"

definition OldInfoLogFileName :: "byte list \<Rightarrow> byte list" where
  "OldInfoLogFileName dbname = dbname @ bytes_of ''/LOG.old''"

text \<open>The number and the type, or nothing when the function returns false.\<close>

definition ParseFileName :: "byte list \<Rightarrow> (u64 \<times> FileType) option" where
  "ParseFileName rest =
     (if slice_eq rest (bytes_of ''CURRENT'') then Some (0, kCurrentFile)
      else if slice_eq rest (bytes_of ''LOCK'') then Some (0, kDBLockFile)
      else if slice_eq rest (bytes_of ''LOG'') \<or> slice_eq rest (bytes_of ''LOG.old'') then Some (0, kInfoLogFile)
      else if starts_with rest (bytes_of ''MANIFEST-'') then do {
        rest \<leftarrow> remove_prefix rest 9;
        let (r, num, rest) = ConsumeDecimalNumber rest 0;
        if \<not> r then None else if rest \<noteq> [] then None else Some (num, kDescriptorFile)
      }
      else do {
        let (r, num, suffix) = ConsumeDecimalNumber rest 0;
        if \<not> r then None
        else if slice_eq suffix (bytes_of ''.log'') then Some (num, kLogFile)
        else if slice_eq suffix (bytes_of ''.sst'') \<or> slice_eq suffix (bytes_of ''.ldb'') then Some (num, kTableFile)
        else if slice_eq suffix (bytes_of ''.dbtmp'') then Some (num, kTempFile)
        else None
      })"

section \<open>Reading numbers\<close>

text \<open>The reference: the value of a list of digits, without a bound.\<close>

definition is_digit :: "byte \<Rightarrow> bool" where
  "is_digit c \<longleftrightarrow> 48 \<le> c \<and> c \<le> 57"

definition digits_val :: "nat \<Rightarrow> byte list \<Rightarrow> nat" where
  "digits_val = foldl (\<lambda>v c. 10 * v + (unat c - 48))"

lemma digits_val_Cons: "digits_val v (c # cs) = digits_val (10 * v + (unat c - 48)) cs"
  by (simp add: digits_val_def)

lemma digits_val_append: "digits_val v (xs @ ys) = digits_val (digits_val v xs) ys"
  by (simp add: digits_val_def)

lemma digits_val_mono: "v \<le> digits_val v cs"
proof (induction cs arbitrary: v)
  case (Cons c cs)
  have "v \<le> 10 * v + (unat c - 48)" by simp
  also have "\<dots> \<le> digits_val v (c # cs)" unfolding digits_val_Cons by (rule Cons)
  finally show ?case .
qed (simp add: digits_val_def)

lemma digit_delta: "is_digit c \<Longrightarrow> unat (ucast (c - 48) :: u64) = unat c - 48 \<and> unat c - 48 < 10"
proof -
  assume c: "is_digit c"
  have u: "unat (ucast x :: u64) = unat x" for x :: byte
  proof -
    have "unat x < 256" using unsigned_less [of x, where ?'a = nat] by simp
    then show ?thesis by (simp add: unsigned_ucast_eq take_bit_nat_eq_self)
  qed
  have "unat (c - 48) = unat c - 48" using c by (simp add: is_digit_def unat_sub)
  then show ?thesis using c u [of "c - 48"] by (auto simp: is_digit_def word_le_nat_alt)
qed

text \<open>The check for an overflow is exact.\<close>

lemma overflow_check:
  assumes "unat delta < 10"
  shows "kMaxUint64 div 10 < v \<or> v = kMaxUint64 div 10 \<and> kMaxUint64 mod 10 < delta \<longleftrightarrow> 2 ^ 64 \<le> 10 * unat v + unat delta"
    and "10 * unat v + unat delta < 2 ^ 64 \<Longrightarrow> unat (v * 10 + delta) = 10 * unat v + unat delta"
proof -
  have m: "unat (kMaxUint64 div 10) = 1844674407370955161" "unat (kMaxUint64 mod 10) = 5"
    by (simp_all add: kMaxUint64_def)
  have "v = kMaxUint64 div 10 \<longleftrightarrow> unat v = 1844674407370955161" using m(1) by (metis unsigned_word_eqI)
  then show "kMaxUint64 div 10 < v \<or> v = kMaxUint64 div 10 \<and> kMaxUint64 mod 10 < delta \<longleftrightarrow> 2 ^ 64 \<le> 10 * unat v + unat delta"
    using assms m by (auto simp: word_less_nat_alt)
  show "10 * unat v + unat delta < 2 ^ 64 \<Longrightarrow> unat (v * 10 + delta) = 10 * unat v + unat delta"
    by (simp add: unat_word_ariths mult.commute)
qed

lemma consume_digits_val:
  assumes "\<forall>c \<in> set ds. is_digit c" and "rest = [] \<or> \<not> is_digit (hd rest)"
  shows "if digits_val (unat v) ds < 2 ^ 64
    then consume_digits (ds @ rest) v n = (Some (word_of_nat (digits_val (unat v) ds), n + length ds), rest)
    else fst (consume_digits (ds @ rest) v n) = None"
  using assms(1)
proof (induction ds arbitrary: v n)
  case Nil
  then show ?case using assms(2) unsigned_less [of v] by (cases rest) (auto simp: digits_val_def is_digit_def)
next
  case (Cons c ds)
  then have c: "is_digit c" by simp
  let ?delta = "ucast (c - 48) :: u64"
  note d = digit_delta [OF c]
  have d10: "unat ?delta < 10" using d by simp
  note chk = overflow_check [OF d10, of v]
  have c': "48 \<le> c \<and> c \<le> 57" using c by (simp add: is_digit_def)
  have step: "consume_digits ((c # ds) @ rest) v n =
      (if 2 ^ 64 \<le> 10 * unat v + unat ?delta then (None, (c # ds) @ rest) else consume_digits (ds @ rest) (v * 10 + ?delta) (Suc n))"
    using c' chk(1) by (simp add: Let_def)
  have val: "digits_val (unat v) (c # ds) = digits_val (10 * unat v + unat ?delta) ds" using d by (simp add: digits_val_Cons)
  show ?case
  proof (cases "2 ^ 64 \<le> 10 * unat v + unat ?delta")
    case True
    then have "\<not> digits_val (unat v) (c # ds) < 2 ^ 64" using digits_val_mono [of "10 * unat v + unat ?delta" ds] val by linarith
    then show ?thesis using True step by simp
  next
    case False
    then have u: "unat (v * 10 + ?delta) = 10 * unat v + unat ?delta" using chk(2) by simp
    have "\<forall>c \<in> set ds. is_digit c" using Cons.prems by simp
    from Cons.IH [OF this, of "v * 10 + ?delta" "Suc n"] show ?thesis unfolding step val u if_not_P [OF False] by simp
  qed
qed

lemma print_decimal_ok: "(\<forall>c \<in> set (print_decimal n). is_digit c) \<and> print_decimal n \<noteq> [] \<and> digits_val 0 (print_decimal n) = n"
proof (induction n rule: print_decimal.induct)
  case (1 n)
  have digit: "is_digit (word_of_nat (48 + k)) \<and> unat (word_of_nat (48 + k) :: byte) = 48 + k" if "k < 10" for k :: nat
  proof -
    have "unat (word_of_nat (48 + k) :: byte) = 48 + k" using that by (simp only: unat_of_nat) simp
    then show ?thesis using that by (simp add: is_digit_def word_le_nat_alt del: of_nat_add)
  qed
  show ?case
  proof (cases "n < 10")
    case True
    then show ?thesis using digit [of n] by (subst (1 2 3) print_decimal.simps) (simp add: digits_val_def)
  next
    case False
    have eq: "print_decimal n = print_decimal (n div 10) @ [word_of_nat (48 + n mod 10)]" using False by (subst print_decimal.simps) simp
    have m: "n mod 10 < 10" by simp
    have "digits_val (n div 10) [word_of_nat (48 + n mod 10)] = n" using digit [OF m] by (simp add: digits_val_def)
    then show ?thesis using 1 [OF False] digit [OF m] unfolding eq by (simp add: digits_val_append)
  qed
qed

lemma digits_val_zeros: "digits_val 0 (replicate k 48 @ ds) = digits_val 0 ds"
  by (induction k) (simp_all add: digits_val_Cons)

lemma print_padded_ok: "(\<forall>c \<in> set (print_padded n). is_digit c) \<and> print_padded n \<noteq> [] \<and> digits_val 0 (print_padded n) = n"
  using print_decimal_ok [of n] by (auto simp: print_padded_def digits_val_zeros is_digit_def)

lemma ConsumeDecimalNumber_digits:
  assumes "\<forall>c \<in> set ds. is_digit c" and "rest = [] \<or> \<not> is_digit (hd rest)"
  shows "if digits_val 0 ds < 2 ^ 64 then ConsumeDecimalNumber (ds @ rest) val = (ds \<noteq> [], word_of_nat (digits_val 0 ds), rest)
    else fst (ConsumeDecimalNumber (ds @ rest) val) = False"
  using consume_digits_val [OF assms, of 0 0]
  by (cases "consume_digits (ds @ rest) 0 0") (auto simp: ConsumeDecimalNumber_def)

lemma ConsumeDecimalNumber_padded:
  "rest = [] \<or> \<not> is_digit (hd rest) \<Longrightarrow> ConsumeDecimalNumber (print_padded (unat n) @ rest) val = (True, n, rest)"
  using ConsumeDecimalNumber_digits [of "print_padded (unat n)" rest val] print_padded_ok [of "unat n"] unsigned_less [of n, where ?'a = nat] by simp

section \<open>Reading names\<close>

text \<open>A name that starts with a digit is none of the fixed names.\<close>

lemma ParseFileName_number:
  assumes "suffix \<noteq> []" and "\<not> is_digit (hd suffix)"
  shows "ParseFileName (print_padded (unat n) @ suffix) =
    (if suffix = bytes_of ''.log'' then Some (n, kLogFile)
     else if suffix = bytes_of ''.sst'' \<or> suffix = bytes_of ''.ldb'' then Some (n, kTableFile)
     else if suffix = bytes_of ''.dbtmp'' then Some (n, kTempFile) else None)"
proof -
  obtain c cs where c: "print_padded (unat n) = c # cs" "is_digit c" using print_padded_ok [of "unat n"] by (cases "print_padded (unat n)") auto
  have letters: "bytes_of ''CURRENT'' = 67 # bytes_of ''URRENT''" "bytes_of ''LOCK'' = 76 # bytes_of ''OCK''"
    "bytes_of ''LOG'' = 76 # bytes_of ''OG''" "bytes_of ''LOG.old'' = 76 # bytes_of ''OG.old''" "bytes_of ''MANIFEST-'' = 77 # bytes_of ''ANIFEST-''"
    by (simp_all add: bytes_of_def of_char_def)
  have "c \<noteq> 67" "c \<noteq> 76" "c \<noteq> 77" using c(2) by (auto simp: is_digit_def)
  then have "\<not> slice_eq (print_padded (unat n) @ suffix) (bytes_of ''CURRENT'')" "\<not> slice_eq (print_padded (unat n) @ suffix) (bytes_of ''LOCK'')"
    "\<not> slice_eq (print_padded (unat n) @ suffix) (bytes_of ''LOG'')" "\<not> slice_eq (print_padded (unat n) @ suffix) (bytes_of ''LOG.old'')"
    "\<not> starts_with (print_padded (unat n) @ suffix) (bytes_of ''MANIFEST-'')"
    unfolding letters c(1) by (auto simp: slice_eq_iff starts_with_def)
  then show ?thesis using ConsumeDecimalNumber_padded [of suffix n 0] assms by (simp add: ParseFileName_def slice_eq_iff)
qed

lemma ParseFileName_manifest: "ParseFileName (bytes_of ''MANIFEST-'' @ print_padded (unat n)) = Some (n, kDescriptorFile)"
proof -
  have "ConsumeDecimalNumber (print_padded (unat n)) 0 = (True, n, [])" using ConsumeDecimalNumber_padded [of "[]" n 0] by simp
  moreover have "bytes_of ''MANIFEST-'' = [77, 65, 78, 73, 70, 69, 83, 84, 45]" by (simp add: bytes_of_def of_char_def)
  moreover have "bytes_of ''CURRENT'' = 67 # bytes_of ''URRENT''" "bytes_of ''LOCK'' = 76 # bytes_of ''OCK''"
    "bytes_of ''LOG'' = 76 # bytes_of ''OG''" "bytes_of ''LOG.old'' = 76 # bytes_of ''OG.old''"
    by (simp_all add: bytes_of_def of_char_def)
  ultimately show ?thesis by (simp add: ParseFileName_def slice_eq_iff starts_with_def remove_prefix_def)
qed

section \<open>Properties\<close>

text \<open>
  Reading a decimal number agrees with the value of its digits: a run of digits in front of another character or the end
  is read as its value when this fits in 64 bits, and refused when it does not, so that the check for the overflow
  is exact; no digits are refused.
\<close>

theorem consume_decimal_reference:
  assumes "\<forall>c \<in> set ds. is_digit c" and "rest = [] \<or> \<not> is_digit (hd rest)"
  shows "if digits_val 0 ds < 2 ^ 64 then ConsumeDecimalNumber (ds @ rest) val = (ds \<noteq> [], word_of_nat (digits_val 0 ds), rest)
    else fst (ConsumeDecimalNumber (ds @ rest) val) = False"
  by (rule ConsumeDecimalNumber_digits [OF assms])

theorem consume_decimal_reference_witness:
  "ConsumeDecimalNumber ([49, 56, 52] @ [46]) 0 = (True, 184, [46])"
  using consume_decimal_reference [of "[49, 56, 52]" "[46]" 0] by (simp add: is_digit_def digits_val_def)

text \<open>
  C37. The names of files are read back: behind the name of the database and a slash, the name of a log, a table in both of its
  spellings, a descriptor and a temporary file gives back the number and the type of the file, for every positive number of 64 bits,
  however many digits it has; and so do the fixed names.
\<close>

theorem file_names_read_back:
  assumes "0 < number"
  shows "(\<exists>base. LogFileName db number = Some (db @ [0x2F] @ base) \<and> ParseFileName base = Some (number, kLogFile)) \<and>
    (\<exists>base. TableFileName db number = Some (db @ [0x2F] @ base) \<and> ParseFileName base = Some (number, kTableFile)) \<and>
    (\<exists>base. SSTTableFileName db number = Some (db @ [0x2F] @ base) \<and> ParseFileName base = Some (number, kTableFile)) \<and>
    (\<exists>base. DescriptorFileName db number = Some (db @ [0x2F] @ base) \<and> ParseFileName base = Some (number, kDescriptorFile)) \<and>
    (\<exists>base. TempFileName db number = Some (db @ [0x2F] @ base) \<and> ParseFileName base = Some (number, kTempFile)) \<and>
    (\<exists>base. CurrentFileName db = db @ [0x2F] @ base \<and> ParseFileName base = Some (0, kCurrentFile)) \<and>
    (\<exists>base. LockFileName db = db @ [0x2F] @ base \<and> ParseFileName base = Some (0, kDBLockFile)) \<and>
    (\<exists>base. InfoLogFileName db = db @ [0x2F] @ base \<and> ParseFileName base = Some (0, kInfoLogFile)) \<and>
    (\<exists>base. OldInfoLogFileName db = db @ [0x2F] @ base \<and> ParseFileName base = Some (0, kInfoLogFile))"
proof -
  have made: "ParseFileName (print_padded (unat number) @ [0x2E] @ bytes_of suffix) = Some (number, t)"
    if "(suffix, t) \<in> {(''log'', kLogFile), (''ldb'', kTableFile), (''sst'', kTableFile), (''dbtmp'', kTempFile)}" for suffix t
    using that by (subst ParseFileName_number) (auto simp: is_digit_def bytes_of_def of_char_def)
  have manifest: "bytes_of ''/MANIFEST-'' = [0x2F] @ bytes_of ''MANIFEST-''" by (simp add: bytes_of_def of_char_def)
  have fixed: "bytes_of ''/CURRENT'' = [0x2F] @ bytes_of ''CURRENT''" "bytes_of ''/LOCK'' = [0x2F] @ bytes_of ''LOCK''"
    "bytes_of ''/LOG'' = [0x2F] @ bytes_of ''LOG''" "bytes_of ''/LOG.old'' = [0x2F] @ bytes_of ''LOG.old''"
    by (simp_all add: bytes_of_def of_char_def)
  have names: "ParseFileName (bytes_of ''CURRENT'') = Some (0, kCurrentFile)" "ParseFileName (bytes_of ''LOCK'') = Some (0, kDBLockFile)"
    "ParseFileName (bytes_of ''LOG'') = Some (0, kInfoLogFile)" "ParseFileName (bytes_of ''LOG.old'') = Some (0, kInfoLogFile)"
    by (simp_all add: ParseFileName_def slice_eq_iff bytes_of_def of_char_def)
  show ?thesis
    using assms made ParseFileName_manifest [of number] names
    unfolding LogFileName_def TableFileName_def SSTTableFileName_def DescriptorFileName_def TempFileName_def MakeFileName_def
      CurrentFileName_def LockFileName_def InfoLogFileName_def OldInfoLogFileName_def manifest fixed
    by simp
qed

theorem file_names_read_back_witness:
  "\<exists>base. TableFileName [100] 7 = Some ([100] @ [0x2F] @ base) \<and> ParseFileName base = Some (7, kTableFile)"
  using file_names_read_back [of 7 "[100]"] by simp

end
