(* ===== verification/Spec2Isabelle.thy ===== *)
theory Spec2Isabelle
  imports PbDecodeProps PbEncodeProps PbWire PbLayout LdbCoding LdbComparator LdbFormat LdbCrcProps LdbStatus LdbLogProps LdbFilterBlock LdbDBIterProps LdbSkipListRace LdbWriteBatchProps LdbCacheProps LdbVersion LdbFilename
begin

text \<open>
  A verification library for the C and C++ code that the application brings along. The application itself
  (\<open>src/MobileDevicesTracker/MobileDevicesTracker\<close>) is a Swift user interface; its C code is in the pods
  that Firebase needs: \<^bold>\<open>nanopb\<close>, which encodes and decodes protocol buffers for the analytics, and
  \<^bold>\<open>leveldb\<close>, the key-value store under the persistence of the Firebase database. Both are modelled
  from the sources of this repository; the paths below are relative to \<open>src/MobileDevicesTracker/Pods\<close>.

  \<^bold>\<open>Conventions.\<close> A machine integer is a word of its width, or a natural number with the wrap-around
  written out; a \<open>Slice\<close>, a \<open>std::string\<close> and a pointer with the bytes behind it are byte lists. \<open>None\<close>
  as a result of a function in \<open>option\<close> is a run that the code does not define: an access outside of the
  memory, a failed assertion, a shift that is too wide, a loop that does not end. Errors of the code, which
  returns false or a \<open>Status\<close>, are values. So a theorem with \<open>Some\<close> in its conclusion also says that
  the code returns and asserts nothing wrong. Loops run in \<open>crun\<close> of \<open>CPrelude\<close>, which is \<open>None\<close> for a loop
  without end; \<open>crun_total\<close> and \<open>crun_rule\<close> are its rules with a measure and an invariant.

  \<^bold>\<open>nanopb\<close> (\<open>nanopb/pb.h\<close>, \<open>pb_common.c\<close>, \<open>pb_decode.c\<close>, \<open>pb_encode.c\<close>).
  \<^item> \<open>PbTypes\<close>: descriptors, the macros that build them, streams. \<open>PbCommon\<close>: the field iterator;
    \<open>PbLayout\<close> proves that it finds every member that the macros described.
  \<^item> \<open>PbIStream\<close>, \<open>PbDecode\<close>: all of the decoder. Memory is a partial map from addresses to bytes, so
    that an access outside an object is \<open>None\<close>. \<open>PbStreamInv\<close>, \<open>PbFieldSafe\<close>, \<open>PbDecodeSafe\<close>,
    \<open>PbMessageSafe\<close>, \<open>PbMessageLoop\<close>, \<open>PbMessageEnd\<close>, \<open>PbDecodeProps\<close>: with well-formed
    descriptors and callbacks that keep their contract (the locale \<open>field_decoder\<close> is the contract of a
    field decoder) every input is decoded without an access outside of the message. The recursion over
    submessages is bounded by a depth; the theorems hold for every depth that is at least the nesting of
    the descriptors, where the nesting is what C's stack has to hold.
  \<^item> \<open>PbOStream\<close>, \<open>PbEncode\<close>: all of the encoder. \<open>PbEncodeSpec\<close> gives the bytes of a message as a
    function, \<open>PbEncodeRefine\<close> and \<open>PbEncodeProps\<close> prove that the encoder writes them or fails within
    the buffer. \<open>PbVarint\<close> and \<open>PbWire\<close>: round trips of the wire format; \<open>Varint\<close> is the reference
    of variable-length integers that both libraries are proved against.

  \<^bold>\<open>leveldb\<close> (\<open>leveldb-library\<close>), bottom up.
  \<^item> \<open>LdbCoding\<close> (\<open>util/coding\<close>), \<open>LdbStatus\<close> (\<open>util/status\<close>), \<open>LdbRandom\<close> (\<open>util/random.h\<close>),
    \<open>LdbCrc32c\<close> and \<open>LdbCrcProps\<close> (\<open>util/crc32c\<close>), \<open>LdbBloom\<close> (\<open>util/hash.cc\<close>, \<open>util/bloom.cc\<close>).
  \<^item> \<open>LdbComparator\<close> and \<open>LdbFormat\<close> (\<open>util/comparator.cc\<close>, \<open>db/dbformat\<close>): the locales
    \<open>comparator\<close>, \<open>slice_comparator\<close> and \<open>shortening_comparator\<close> are the interface of a comparator;
    the bytewise comparator is an instance, and the comparator of internal keys one over any user's comparator.
  \<^item> \<open>LdbLog\<close> and \<open>LdbLogProps\<close> (\<open>db/log_writer.cc\<close>, \<open>db/log_reader.cc\<close>): the write-ahead log, its
    round trip, its recovery from a crash and what damage does to it.
  \<^item> \<open>LdbIterator\<close> (\<open>include/leveldb/iterator.h\<close>): an iterator is a record of its operations; the locale
    \<open>sorted_iterator\<close> is the contract. Its instances are the iterators of a block, of a memtable,
    of a merge (itself a client of its children) and what \<open>LdbDBIter\<close> is a client of.
  \<^item> \<open>LdbBlock\<close> to \<open>LdbBlockProps\<close> (\<open>table/block_builder.cc\<close>, \<open>table/block.cc\<close>): blocks with prefix
    compression and restart points. \<open>LdbFilterBlock\<close> (\<open>table/filter_block.cc\<close>): the filters of a
    table, a client of the locale of filter policies. \<open>LdbOffsets\<close>: tables of offsets, which both use.
  \<^item> \<open>LdbSkipList\<close>, \<open>LdbSkipListProps\<close> (\<open>db/skiplist.h\<close>): the sorted set under the memtable;
    \<open>LdbSkipListRace\<close> interleaves the stores of one insertion with the loads of a search and proves that the
    reader needs no lock. \<open>LdbMemTable\<close>, \<open>LdbMemTableProps\<close> (\<open>db/memtable.cc\<close>): entries with versions.
    \<open>LdbWriteBatch\<close>, \<open>LdbWriteBatchProps\<close> (\<open>db/write_batch.cc\<close>): batches, and what a reader of the memtable
    sees of them.
  \<^item> \<open>LdbMerger\<close> (\<open>table/merger.cc\<close>) and \<open>LdbDBIter\<close>, \<open>LdbDBIterProps\<close> (\<open>db/db_iter.cc\<close>): the
    iterator of the database over the union of its sources shows the live keys of a snapshot, in both
    directions.
  \<^item> \<open>LdbTableFormat\<close> (\<open>table/format.cc\<close>): handles, the footer, stored blocks with their checksums.
    \<open>LdbTwoLevel\<close>, \<open>LdbTwoLevelProps\<close> (\<open>table/two_level_iterator.cc\<close>): an iterator over an index and the blocks
    that it names; the locale \<open>two_level_client\<close> is what it needs of both and of the memory they share.
  \<^item> \<open>LdbTableBuilder\<close> (\<open>table/table_builder.cc\<close>) and \<open>LdbTable\<close> (\<open>table/table.cc\<close>, \<open>table/iterator.cc\<close>): tables.
    \<open>LdbTableBuilt\<close> gives the bytes of the data blocks while entries are added, \<open>LdbTableFinish\<close> those of a finished
    file, \<open>LdbTableRead\<close> what the iterator over such a file shows, \<open>LdbTableGet\<close> what a lookup finds. \<open>LdbTableProps\<close>
    composes them. The locale \<open>table_options\<close> has what a table needs of its options.
  \<^item> \<open>LdbCacheSpec\<close> (\<open>include/leveldb/cache.h\<close>): the interface of a cache as the locale \<open>cache\<close>; tables are clients
    of it (the locale \<open>cached_tables\<close>). \<open>LdbCache\<close> (\<open>util/cache.cc\<close>) is the cache of least recently used entries, an entry being an
    address and the lists being links between addresses. \<open>LdbCacheInv\<close> has the invariant of a shard and its primitive
    steps, \<open>LdbCacheOps\<close> the operations, \<open>LdbCacheShards\<close> the interpretation of \<open>cache\<close>, and \<open>LdbCacheProps\<close>
    what clients can rely on, and the tables that read through the cache.
  \<^item> \<open>LdbVersionEdit\<close> (\<open>db/version_edit.cc\<close>): the records of the manifest. \<open>LdbFilename\<close> (\<open>db/filename.cc\<close>,
    \<open>util/logging.cc\<close>): decimal numbers and the names of files. \<open>LdbVersion\<close> (\<open>db/version_set.cc\<close>): the searches over the
    files of a version; the iterator over a level is an instance of \<open>sorted_iterator\<close>.

  \<^bold>\<open>Bounds.\<close> The depth of messages is a parameter, as said. The skip list is walked by \<open>crun\<close> and needs
  no fuel. Sizes are those that the formats can hold: keys and values below 4 GiB, batches of fewer than
  \<open>2 ^ 31\<close> updates; the theorems state them.

  \<^bold>\<open>Not modelled.\<close> \<open>PB_ENABLE_MALLOC\<close> of nanopb, which the pod does not define. The environment of
  leveldb (\<open>util/env_posix.cc\<close>: system calls and threads), whose operations are parameters where a
  component calls them, and the layer that schedules its threads (\<open>db/db_impl.cc\<close>, \<open>db/c.cc\<close>, \<open>db/repair.cc\<close>).
  Of \<open>db/version_set.cc\<close> what lies beyond the searches of a version: the set of versions with the manifest it
  writes and recovers, and the choice of a compaction; the cache of open tables (\<open>db/table_cache.cc\<close>);
  \<open>SetCurrentFile\<close> of \<open>db/filename.cc\<close>, which writes a file; the strings made for logs and debugging.
  The Objective-C and Swift sources of Firebase and of the application.
\<close>

end
